(* ===== verification/Prelude.thy ===== *)
theory Prelude
  imports Main "HOL-Library.Word" "HOL-Library.Multiset"
begin

text \<open>
  Shared vocabulary of the development: the machine types of the C sources, the
  conversions the C compiler applies silently, the field values that CLIPS
  expressions evaluate to, and the list facts that the component theories share.
  Three collections carry the component proofs: \<open>chain_simps\<close> (walking a linked
  chain), \<open>frame_simps\<close> (what an operation leaves unchanged) and \<open>inv_intros\<close>
  (operations keep an invariant).
\<close>

named_theorems chain_simps
named_theorems frame_simps
named_theorems inv_intros

section \<open>Machine types\<close>

text \<open>\<open>unsigned long long\<close>, used for time tags and counters; arithmetic wraps.\<close>

type_synonym u64 = "64 word"

text \<open>
  C's conversion of a \<open>long long\<close> to \<open>int\<close> on the targets CLIPS is built for:
  the low 32 bits, read as two's complement.
\<close>

definition to_int32 :: "int \<Rightarrow> int" where
  "to_int32 x = (x + 2 ^ 31) mod 2 ^ 32 - 2 ^ 31"

lemma to_int32_id: "- (2 ^ 31) \<le> x \<Longrightarrow> x < 2 ^ 31 \<Longrightarrow> to_int32 x = x"
  by (simp add: to_int32_def)

lemma to_int32_range: "- (2 ^ 31) \<le> to_int32 x \<and> to_int32 x < 2 ^ 31"
  by (simp add: to_int32_def)

lemma word_less_Suc:
  fixes w :: "'a::len word"
  assumes "w \<noteq> - 1"
  shows "w < w + 1"
proof -
  have "1 + w \<noteq> 0" using assms by (metis add.commute eq_neg_iff_add_eq_0)
  then have "unat (1 + w) = Suc (unat w)" by (rule unatSuc)
  then show ?thesis by (simp add: word_less_nat_alt add.commute)
qed

section \<open>Field values\<close>

text \<open>
  What a CLIPS expression evaluates to (\<open>DATA_OBJECT\<close>, types 0 to 8 of
  \<open>constant.h\<close>). Symbols and strings carry their text, integers the value of a
  \<open>long long\<close>, floats the bit pattern of a \<open>double\<close>. In the code an atom is a pointer to a node of its table,
  and two atoms are compared by their pointers. Nodes are unique for their contents, so that equal pointers
  are equal values of this type, with one exception: \<open>EnvAddDouble\<close> never finds a NaN that is there, and
  stores each in a node of its own. A NaN therefore carries the address of its node besides its bits;
  \<open>FLOAT\<close> is for the other floats.
\<close>

datatype val =
    FLOAT u64
  | NAN u64 nat
  | INTEGER int
  | SYMBOL string
  | STRING string
  | MULTIFIELD "val list"
  | EXTERNAL_ADDRESS nat
  | FACT_ADDRESS nat
  | INSTANCE_ADDRESS nat
  | INSTANCE_NAME string

text \<open>
  C's conversion of a \<open>double\<close> to \<open>long long\<close>: the integral part, rounded
  towards zero. Values that do not fit (and NaN) are undefined in C; the x86
  conversion gives the smallest \<open>long long\<close>.
\<close>

definition double_to_int :: "u64 \<Rightarrow> int" where
  "double_to_int w =
     (let s = drop_bit 63 (uint w); x = take_bit 11 (drop_bit 52 (uint w));
          f = take_bit 52 (uint w);
          m = (if x = 0 then f else f + 2 ^ 52);
          sh = (if x = 0 then 1 else x) - 1075;
          a = (if 0 \<le> sh then m * 2 ^ nat sh else m div 2 ^ nat (- sh));
          r = (if s = 0 then a else - a)
      in if x = 2047 \<or> r < - (2 ^ 63) \<or> 2 ^ 63 \<le> r then - (2 ^ 63) else r)"

text \<open>
  The conversion of a \<open>long long\<close> to \<open>double\<close>: the magnitude is scaled to 53
  significant bits and rounded to nearest, ties to even.
\<close>

fun bit_length :: "nat \<Rightarrow> nat" where
  "bit_length n = (if n = 0 then 0 else Suc (bit_length (n div 2)))"

declare bit_length.simps [simp del]

definition int_to_double :: "int \<Rightarrow> u64" where
  "int_to_double i =
     (let a = nat \<bar>i\<bar>; len = bit_length a;
          m = (if len \<le> 53 then a * 2 ^ (53 - len)
               else (let q = a div 2 ^ (len - 53); r = a mod 2 ^ (len - 53); h = 2 ^ (len - 54)
                     in if r > h \<or> (r = h \<and> odd q) then q + 1 else q))
      in if i = 0 then 0
         else word_of_nat ((if i < 0 then 2 ^ 63 else 0) + (len + 1022) * 2 ^ 52 + (m - 2 ^ 52)))"

section \<open>Addresses\<close>

text \<open>
  A C pointer is an address of the heap that holds the objects of its type;
  \<open>NULL\<close> is \<open>None\<close>.
\<close>

type_synonym addr = nat
type_synonym pointer = "nat option"

section \<open>Lists\<close>

lemma takeWhile_all_append:
  "\<forall>x \<in> set xs. P x \<Longrightarrow> takeWhile P (xs @ ys) = xs @ takeWhile P ys"
  by (induction xs) auto

lemma dropWhile_all_append:
  "\<forall>x \<in> set xs. P x \<Longrightarrow> dropWhile P (xs @ ys) = dropWhile P ys"
  by (induction xs) auto

lemma last_takeWhile_eq:
  assumes "xs \<noteq> []" and "distinct (map f xs)"
    and "takeWhile P xs \<noteq> []" and "f (last (takeWhile P xs)) = f (last xs)"
  shows "takeWhile P xs = xs"
proof (rule ccontr)
  assume neq: "takeWhile P xs \<noteq> xs"
  let ?t = "takeWhile P xs" and ?d = "dropWhile P xs"
  have d: "?d \<noteq> []" using neq takeWhile_dropWhile_id [of P xs] by auto
  then have "last xs = last ?d" using takeWhile_dropWhile_id [of P xs]
    by (metis last_append)
  then have "last xs \<in> set ?d" using d by simp
  moreover have "last ?t \<in> set ?t" using assms(3) by simp
  moreover have "set (map f ?t) \<inter> set (map f ?d) = {}"
    using assms(2) takeWhile_dropWhile_id [of P xs] by (metis distinct_append map_append)
  ultimately show False using assms(4) by (metis IntI empty_iff image_eqI set_map)
qed

lemma update_at_length:
  "length xs = n \<Longrightarrow> (xs @ y # zs)[n := f ((xs @ y # zs) ! n)] = xs @ f y # zs"
  by (auto simp: list_update_append nth_append)

lemma distinct_map_disjoint:
  assumes "distinct (map f (xs @ ys))" and "x \<in> set xs" and "y \<in> set ys"
  shows "f x \<noteq> f y"
proof -
  have "f ` set xs \<inter> f ` set ys = {}" using assms(1) by simp
  then show ?thesis using assms(2,3) by (metis IntI empty_iff image_eqI)
qed

lemma sorted_wrt_insert_at:
  assumes srt: "sorted_wrt R xs"
    and before: "\<forall>x \<in> set (takeWhile P xs). R x n"
    and after: "\<forall>x \<in> set (dropWhile P xs). R n x"
  shows "sorted_wrt R (takeWhile P xs @ n # dropWhile P xs)"
proof -
  have "sorted_wrt R (takeWhile P xs @ dropWhile P xs)" using srt by simp
  then show ?thesis using before after unfolding sorted_wrt_append by auto
qed

lemma key_then_tag_negtrans:
  fixes a b c :: "'a::linorder" and p q r :: "'b::linorder"
  assumes "\<not> (a < b \<or> (a = b \<and> q < p))" and "\<not> (b < c \<or> (b = c \<and> r < q))"
  shows "\<not> (a < c \<or> (a = c \<and> r < p))"
proof -
  from assms have "b \<le> a" and "c \<le> b" and "a = b \<longrightarrow> p \<le> q" and "b = c \<longrightarrow> q \<le> r" by auto
  then show ?thesis by (metis antisym leD order.trans)
qed

end
