(* ===== verification/Env_State.thy ===== *)
theory Env_State
  imports Prelude
begin

text \<open>
  The state that the rule engine keeps in a CLIPS environment
  (\<open>dependencies/clips-d/c\<close>): rules, partial matches, agendas, modules, the focus
  stack and the execution flags. Objects that C code reaches through pointers
  (rules, partial matches, matched entities, modules) live in heaps indexed by
  addresses; a doubly linked chain that only its owner reaches (the activations of
  a module's agenda, its salience groups) is the list of its nodes in \<open>next\<close>
  order, where a node is named by its address.
\<close>

section \<open>Objects\<close>

text \<open>\<open>struct patternEntity\<close>: a fact or an instance; \<open>busyCount\<close> counts the
  partial matches of executing rules that pin it.\<close>

record patternEntity =
  timeTag :: u64
  busyCount :: "32 word"

text \<open>\<open>struct partialMatch\<close>: \<open>binds\<close> lists \<open>binds[i].gm.theMatch\<close>; the outer
  \<open>None\<close> is a null alpha match, the inner one a null \<open>matchingItem\<close>.
  \<open>bcount\<close> is the length of the list.\<close>

record partialMatch =
  binds :: "pointer option list"
  marker :: pointer
  busy :: bool
  owner :: addr
  leftParent :: pointer

text \<open>\<open>struct activation\<close>; \<open>address\<close> is the node's own address.\<close>

record activation =
  address :: addr
  theRule :: addr
  basis :: addr
  salience :: int
  timetag :: u64
  randomID :: int

text \<open>\<open>struct salienceGroup\<close>: the run of activations of one salience,
  from \<open>first\<close> to \<open>last\<close>.\<close>

record salienceGroup =
  g_salience :: int
  g_first :: pointer
  g_last :: pointer

text \<open>\<open>struct defrule\<close>. \<open>disjuncts\<close> are the rules reached through
  \<open>disjunct\<close>, \<open>leftMemory\<close> the buckets of \<open>lastJoin->leftMemory->beta\<close>; \<open>activatesRule\<close> tells whether the join that owns
  them has a \<open>ruleToActivate\<close>.\<close>

record defrule =
  r_name :: string
  r_module :: addr
  r_salience :: int
  complexity :: nat
  afterBreakpoint :: bool
  watchFiring :: bool
  autoFocus :: bool
  executing :: bool
  dynamicSalience :: pointer
  logicalJoin :: pointer
  leftMemory :: "addr list list"
  activatesRule :: bool
  disjuncts :: "addr list"

text \<open>\<open>struct defruleModule\<close>: the rule engine's part of a module.\<close>

record defruleModule =
  groupings :: "salienceGroup list"
  agenda :: "activation list"

text \<open>\<open>struct portItem\<close>: an import or export; a null name stands for all.\<close>

record portItem =
  p_moduleName :: string
  p_constructType :: "string option"
  p_constructName :: "string option"

text \<open>\<open>struct defmodule\<close> with its defrule list and its \<open>defruleModule\<close>.\<close>

record defmodule =
  m_name :: string
  importList :: "portItem list"
  exportList :: "portItem list"
  m_rules :: "addr list"
  m_item :: defruleModule

section \<open>Messages\<close>

text \<open>The texts printed on \<open>WERROR\<close> and \<open>WDIALOG\<close> by the modelled code, as
  values.\<close>

datatype count_relation = EXACTLY | AT_LEAST | NO_MORE_THAN

datatype message =
    ExpectedCountError string count_relation nat
  | ExpectedTypeError1 string nat
  | NonexistantError nat
  | CantFindItem string string
  | SalienceInformationError string
  | SalienceNonIntegerError
  | SalienceRangeError
  | BreakingOnRule string
  | ExecutionHalted string
  | FiringLimitReached
  | NoBreakpointSet string
  | AmbiguousReferenceErrorMessage string string
  | ListItem string
  | Tally nat
  | NoRetractDuringMatching
  | NoAssertDuringMatching
  | CantFindFact int
  | MVRangeMessage string int int int
  | ExpectedTypeError2 string nat
  | MultiIntoSingleFieldSlotError string string
  | InvalidDeftemplateSlotMessage string string

section \<open>The environment\<close>

text \<open>
  The fields of \<open>agendaData\<close>, \<open>engineData\<close>, \<open>defmoduleData\<close> and
  \<open>evaluationData\<close> that the modelled operations read or write. \<open>freeAddress\<close>
  is the next address the allocator hands out; \<open>dialog\<close> logs what is printed on
  \<open>WDIALOG\<close> and \<open>WERROR\<close>.
\<close>

record env =
  rules :: "addr \<Rightarrow> defrule"
  matches :: "addr \<Rightarrow> partialMatch"
  entities :: "addr \<Rightarrow> patternEntity"
  modules :: "addr \<Rightarrow> defmodule"
  ListOfDefmodules :: "addr list"
  CurrentModule :: pointer
  CallModuleChangeFunctions :: bool
  ModuleChangeIndex :: int
  ModuleStack :: "(bool \<times> pointer) list"
  CurrentFocus :: "addr list"
  FocusChanged :: bool
  NumberOfActivations :: u64
  CurrentTimetag :: u64
  AgendaChanged :: bool
  SalienceEvaluation :: int
  Strategy :: int
  ExecutingRule :: pointer
  TheLogicalJoin :: pointer
  TheLogicalBind :: pointer
  GlobalLHSBinds :: pointer
  GlobalRHSBinds :: pointer
  HaltRules :: bool
  HaltExecution :: bool
  EvaluationError :: bool
  ReturnFlag :: bool
  AlreadyRunning :: bool
  CurrentEvaluationDepth :: int
  freeAddress :: addr
  dialog :: "message list"

abbreviation module_item :: "env \<Rightarrow> addr \<Rightarrow> defruleModule" where
  "module_item e m \<equiv> m_item (modules e m)"

definition set_item :: "addr \<Rightarrow> defruleModule \<Rightarrow> env \<Rightarrow> env" where
  "set_item m d e = e\<lparr>modules := (modules e)(m := (modules e m)\<lparr>m_item := d\<rparr>)\<rparr>"

definition set_rule :: "addr \<Rightarrow> defrule \<Rightarrow> env \<Rightarrow> env" where
  "set_rule r d e = e\<lparr>rules := (rules e)(r := d)\<rparr>"

definition set_match :: "addr \<Rightarrow> partialMatch \<Rightarrow> env \<Rightarrow> env" where
  "set_match p d e = e\<lparr>matches := (matches e)(p := d)\<rparr>"

definition print_message :: "message \<Rightarrow> env \<Rightarrow> env" where
  "print_message msg e = e\<lparr>dialog := dialog e @ [msg]\<rparr>"

text \<open>\<open>SetEvaluationError\<close> (\<open>evaluatn.c\<close>): raising the error also halts execution.\<close>

definition SetEvaluationError :: "bool \<Rightarrow> env \<Rightarrow> env" where
  "SetEvaluationError v e =
     (let e1 = e\<lparr>EvaluationError := v\<rparr> in if v then e1\<lparr>HaltExecution := True\<rparr> else e1)"

lemma set_item_frame [frame_simps]:
  "rules (set_item m d e) = rules e"
  "matches (set_item m d e) = matches e"
  "entities (set_item m d e) = entities e"
  "Strategy (set_item m d e) = Strategy e"
  "CurrentFocus (set_item m d e) = CurrentFocus e"
  "CurrentModule (set_item m d e) = CurrentModule e"
  "ListOfDefmodules (set_item m d e) = ListOfDefmodules e"
  "freeAddress (set_item m d e) = freeAddress e"
  "NumberOfActivations (set_item m d e) = NumberOfActivations e"
  "m_rules (modules (set_item m d e) k) = m_rules (modules e k)"
  "m_name (modules (set_item m d e) k) = m_name (modules e k)"
  by (simp_all add: set_item_def)

lemma module_item_set_item [simp]:
  "module_item (set_item m d e) k = (if k = m then d else module_item e k)"
  by (simp add: set_item_def)

section \<open>Walking a chain of activations\<close>

text \<open>The nodes reached from a pointer by following \<open>next\<close>.\<close>

definition chain_from :: "pointer \<Rightarrow> activation list \<Rightarrow> activation list" where
  "chain_from p as = (case p of None \<Rightarrow> []
     | Some x \<Rightarrow> dropWhile (\<lambda>a. address a \<noteq> x) as)"

text \<open>The nodes reached from a pointer by following \<open>prev\<close>.\<close>

definition chain_back :: "pointer \<Rightarrow> activation list \<Rightarrow> activation list" where
  "chain_back p as = (case p of None \<Rightarrow> []
     | Some x \<Rightarrow> dropWhile (\<lambda>a. address a \<noteq> x) (rev as))"

text \<open>Linking a new node after the node at a pointer, at the front for \<open>NULL\<close>.\<close>

fun insert_after :: "pointer \<Rightarrow> activation \<Rightarrow> activation list \<Rightarrow> activation list" where
  "insert_after None n as = n # as"
| "insert_after (Some x) n [] = []"
| "insert_after (Some x) n (a # as) =
     (if address a = x then a # n # as else a # insert_after (Some x) n as)"

definition last_address :: "activation list \<Rightarrow> pointer" where
  "last_address as = (if as = [] then None else Some (address (last as)))"

definition first_address :: "activation list \<Rightarrow> pointer" where
  "first_address as = (if as = [] then None else Some (address (hd as)))"

lemma last_address_append [simp]:
  "last_address (xs @ ys) = (if ys = [] then last_address xs else last_address ys)"
  by (simp add: last_address_def)

lemma last_address_Nil [simp]: "last_address [] = None"
  by (simp add: last_address_def)

lemma last_address_None [simp]: "last_address xs = None \<longleftrightarrow> xs = []"
  by (simp add: last_address_def)

lemma first_address_Nil [simp]: "first_address [] = None"
  by (simp add: first_address_def)

lemma first_address_Cons [simp]: "first_address (x # xs) = Some (address x)"
  by (simp add: first_address_def)

lemma chain_from_append [chain_simps]:
  assumes "distinct (map address (xs @ ys @ zs))" and "ys \<noteq> []"
  shows "chain_from (first_address ys) (xs @ ys @ zs) = ys @ zs"
proof -
  obtain y ys' where ys: "ys = y # ys'" using assms(2) by (cases ys) auto
  have "address y \<notin> address ` set xs" using assms(1) by (simp add: ys)
  then have "\<forall>a \<in> set xs. address a \<noteq> address y" by (metis imageI)
  then show ?thesis
    by (simp add: ys chain_from_def dropWhile_all_append)
qed

lemma chain_back_append [chain_simps]:
  assumes "distinct (map address (xs @ ys @ zs))" and "ys \<noteq> []"
  shows "chain_back (last_address ys) (xs @ ys @ zs) = rev ys @ rev xs"
proof -
  obtain ys' y where ys: "ys = ys' @ [y]" using assms(2) by (cases ys rule: rev_cases) auto
  have "address y \<notin> address ` set zs" using assms(1) by (simp add: ys)
  then have "\<forall>a \<in> set (rev zs). address a \<noteq> address y" by (metis imageI set_rev)
  then show ?thesis
    by (simp add: ys chain_back_def last_address_def dropWhile_all_append)
qed

lemma insert_after_append [chain_simps]:
  assumes "distinct (map address (xs @ zs))"
  shows "insert_after (last_address xs) n (xs @ zs) = xs @ n # zs"
proof (cases xs rule: rev_cases)
  case Nil
  then show ?thesis by (simp add: last_address_def)
next
  case (snoc ys y)
  have step: "distinct (map address (us @ y # zs)) \<Longrightarrow>
      insert_after (Some (address y)) n (us @ y # zs) = us @ y # n # zs" for us
    by (induction us) auto
  from assms snoc have "distinct (map address (ys @ y # zs))" by simp
  from step [OF this] snoc show ?thesis by (simp add: last_address_def)
qed

end
