(* ===== verification/Strategy.thy ===== *)
theory Strategy
  imports Env_State "HOL-Library.List_Lexorder" "HOL-Library.Product_Lexorder"
begin

text \<open>
  Conflict resolution, \<open>crstrtgy.c\<close>: where a new activation goes on the agenda of its
  module under each of the seven strategies. The theory shows that every strategy
  places activations by a strict weak order (interface \<open>placement_order\<close>) and that
  \<open>PlaceActivation\<close> puts the activation at the position that order
  gives inside its salience group, and keeps the group's \<open>first\<close> and \<open>last\<close>
  pointers exact.
\<close>

section \<open>Strategies\<close>

abbreviation (input) DEPTH_STRATEGY :: int where "DEPTH_STRATEGY \<equiv> 0"
abbreviation (input) BREADTH_STRATEGY :: int where "BREADTH_STRATEGY \<equiv> 1"
abbreviation (input) LEX_STRATEGY :: int where "LEX_STRATEGY \<equiv> 2"
abbreviation (input) MEA_STRATEGY :: int where "MEA_STRATEGY \<equiv> 3"
abbreviation (input) COMPLEXITY_STRATEGY :: int where "COMPLEXITY_STRATEGY \<equiv> 4"
abbreviation (input) SIMPLICITY_STRATEGY :: int where "SIMPLICITY_STRATEGY \<equiv> 5"
abbreviation (input) RANDOM_STRATEGY :: int where "RANDOM_STRATEGY \<equiv> 6"

datatype comparison = LESS_THAN | GREATER_THAN | EQUAL

section \<open>Comparing partial matches\<close>

text \<open>\<open>GetMatchingItem(x,i)\<close>: null where the alpha match is null.\<close>

definition GetMatchingItem :: "env \<Rightarrow> activation \<Rightarrow> nat \<Rightarrow> pointer" where
  "GetMatchingItem e x i =
     (let bs = binds (matches e (basis x))
      in if i < length bs then (case bs ! i of None \<Rightarrow> None | Some item \<Rightarrow> item) else None)"

text \<open>The copy loop of \<open>SortPartialMatch\<close>: 0 stands for a negated pattern.\<close>

fun bind_tag :: "env \<Rightarrow> pointer option \<Rightarrow> u64" where
  "bind_tag e (Some (Some x)) = timeTag (entities e x)"
| "bind_tag e _ = 0"

text \<open>The inner loop, \<open>j = 0 .. k-1\<close>: swap neighbours that ascend, and
  report whether any were swapped.\<close>

fun bubble_pass :: "nat \<Rightarrow> u64 list \<Rightarrow> u64 list \<times> bool" where
  "bubble_pass (Suc k) (x # y # ys) =
     (if x < y then (let (r, flag) = bubble_pass k (x # ys) in (y # r, True))
      else (let (r, flag) = bubble_pass k (y # ys) in (x # r, flag)))"
| "bubble_pass _ xs = (xs, False)"

lemma bubble_pass_swaps: "snd (bubble_pass k xs) \<Longrightarrow> 0 < k"
  by (cases k) auto

text \<open>The outer loop, which stops after a pass without a swap.\<close>

function bubble_loop :: "nat \<Rightarrow> u64 list \<Rightarrow> u64 list" where
  "bubble_loop k xs =
     (let (ys, flag) = bubble_pass k xs in if flag then bubble_loop (k - 1) ys else ys)"
  by pat_completeness auto
termination
proof (relation "measure fst", goal_cases)
  case (2 k xs p ys flag)
  then have "0 < k" using bubble_pass_swaps [of k xs] by (metis snd_conv)
  then show ?case by simp
qed simp

declare bubble_loop.simps [simp del]

definition SortPartialMatch :: "env \<Rightarrow> partialMatch \<Rightarrow> u64 list" where
  "SortPartialMatch e pm =
     (let nbinds = map (bind_tag e) (binds pm) in bubble_loop (length nbinds - 1) nbinds)"

text \<open>The comparison loop over the first \<open>mCount\<close> time tags; \<open>None\<close> when it
  runs through.\<close>

fun compare_tags :: "u64 list \<Rightarrow> u64 list \<Rightarrow> comparison option" where
  "compare_tags (x # xs) (y # ys) =
     (if x < y then Some LESS_THAN else if x > y then Some GREATER_THAN
      else compare_tags xs ys)"
| "compare_tags _ _ = None"

definition ComparePartialMatches :: "env \<Rightarrow> activation \<Rightarrow> activation \<Rightarrow> comparison" where
  "ComparePartialMatches e act new =
     (let basis1 = SortPartialMatch e (matches e (basis new));
          basis2 = SortPartialMatch e (matches e (basis act));
          cCount = length (binds (matches e (basis new)));
          oCount = length (binds (matches e (basis act)));
          c1 = complexity (rules e (theRule new));
          c2 = complexity (rules e (theRule act))
      in case compare_tags basis1 basis2 of
           Some c \<Rightarrow> c
         | None \<Rightarrow>
             if cCount < oCount then LESS_THAN
             else if cCount > oCount then GREATER_THAN
             else if c1 < c2 then LESS_THAN
             else if c1 > c2 then GREATER_THAN
             else EQUAL)"

section \<open>Placement conditions\<close>

text \<open>
  Each strategy walks the group and advances past an activation while the new one
  belongs after it. These are the conditions under which the loops advance.
\<close>

definition after_depth :: "activation \<Rightarrow> activation \<Rightarrow> bool" where
  "after_depth new act \<longleftrightarrow> timetag new < timetag act"

definition after_lex :: "env \<Rightarrow> activation \<Rightarrow> activation \<Rightarrow> bool" where
  "after_lex e new act =
     (case ComparePartialMatches e act new of
        LESS_THAN \<Rightarrow> True | GREATER_THAN \<Rightarrow> False | EQUAL \<Rightarrow> timetag new > timetag act)"

text \<open>The test at the end of the group in \<open>PlaceMEAActivation\<close>.\<close>

definition mea_flag_last :: "env \<Rightarrow> activation \<Rightarrow> activation \<Rightarrow> comparison" where
  "mea_flag_last e act new =
     (case (GetMatchingItem e new 0, GetMatchingItem e act 0) of
        (None, None) \<Rightarrow> ComparePartialMatches e act new
      | (Some c, None) \<Rightarrow> GREATER_THAN
      | (None, Some o') \<Rightarrow> LESS_THAN
      | (Some c, Some o') \<Rightarrow>
          (let cWhoset = sint (timeTag (entities e c)); oWhoset = sint (timeTag (entities e o'))
           in if oWhoset < cWhoset then GREATER_THAN
              else if oWhoset > cWhoset then LESS_THAN
              else ComparePartialMatches e act new))"

text \<open>The test inside its loop, where \<open>-1\<close> stands for a missing item.\<close>

definition whoset :: "env \<Rightarrow> activation \<Rightarrow> int" where
  "whoset e x = (case GetMatchingItem e x 0 of None \<Rightarrow> - 1
     | Some i \<Rightarrow> sint (timeTag (entities e i)))"

definition mea_flag :: "env \<Rightarrow> activation \<Rightarrow> activation \<Rightarrow> comparison" where
  "mea_flag e act new =
     (let cWhoset = whoset e new; oWhoset = whoset e act
      in if oWhoset < cWhoset then (if cWhoset > 0 then GREATER_THAN else LESS_THAN)
         else if oWhoset > cWhoset then (if oWhoset > 0 then LESS_THAN else GREATER_THAN)
         else ComparePartialMatches e act new)"

definition after_flag :: "comparison \<Rightarrow> activation \<Rightarrow> activation \<Rightarrow> bool" where
  "after_flag flag new act =
     (case flag of LESS_THAN \<Rightarrow> True | GREATER_THAN \<Rightarrow> False
      | EQUAL \<Rightarrow> timetag new > timetag act)"

definition after_mea :: "env \<Rightarrow> activation \<Rightarrow> activation \<Rightarrow> bool" where
  "after_mea e new act = after_flag (mea_flag e act new) new act"

definition after_complexity :: "env \<Rightarrow> activation \<Rightarrow> activation \<Rightarrow> bool" where
  "after_complexity e new act =
     (let c = complexity (rules e (theRule new)); d = complexity (rules e (theRule act))
      in if c < d then True else if c > d then False else timetag new > timetag act)"

definition after_simplicity :: "env \<Rightarrow> activation \<Rightarrow> activation \<Rightarrow> bool" where
  "after_simplicity e new act =
     (let c = complexity (rules e (theRule new)); d = complexity (rules e (theRule act))
      in if c > d then True else if c < d then False else timetag new > timetag act)"

definition after_random :: "activation \<Rightarrow> activation \<Rightarrow> bool" where
  "after_random new act =
     (if randomID new > randomID act then True
      else if randomID new < randomID act then False
      else timetag new > timetag act)"

section \<open>Placing an activation\<close>

text \<open>\<open>theGroup->prev->last\<close>, null for the first group.\<close>

definition prev_last :: "salienceGroup list \<Rightarrow> nat \<Rightarrow> pointer" where
  "prev_last gs i = (if i = 0 then None else g_last (gs ! (i - 1)))"

text \<open>The loop from \<open>theGroup->first\<close> towards \<open>theGroup->last\<close>.\<close>

fun walk_group :: "(activation \<Rightarrow> bool) \<Rightarrow> pointer \<Rightarrow> pointer \<Rightarrow> activation list \<Rightarrow> pointer" where
  "walk_group go glast lastAct [] = lastAct"
| "walk_group go glast lastAct (a # as) =
     (if go a then
        (if Some (address a) = glast then Some (address a)
         else walk_group go glast (Some (address a)) as)
      else lastAct)"

text \<open>The loop of the breadth strategy, from \<open>theGroup->last\<close> backwards.\<close>

fun walk_group_back :: "u64 \<Rightarrow> pointer \<Rightarrow> pointer \<Rightarrow> pointer \<Rightarrow> activation list \<Rightarrow> pointer" where
  "walk_group_back tag gfirst prevLast lastAct [] = lastAct"
| "walk_group_back tag gfirst prevLast lastAct (a # as) =
     (if tag < timetag a then
        (if Some (address a) = gfirst then prevLast
         else walk_group_back tag gfirst prevLast lastAct as)
      else Some (address a))"

text \<open>"Update the salience group information."\<close>

definition update_group ::
  "activation \<Rightarrow> pointer \<Rightarrow> nat \<Rightarrow> salienceGroup list \<Rightarrow> salienceGroup list" where
  "update_group new lastAct i gs =
     (let g = gs ! i;
          g1 = (if lastAct = None \<or> (0 < i \<and> g_last (gs ! (i - 1)) = lastAct)
                then g\<lparr>g_first := Some (address new)\<rparr> else g);
          g2 = (if g_last g = None \<or> g_last g = lastAct
                then g1\<lparr>g_last := Some (address new)\<rparr> else g1)
      in gs[i := g2])"

definition place_forward ::
  "(activation \<Rightarrow> bool) \<Rightarrow> activation \<Rightarrow> nat \<Rightarrow> defruleModule \<Rightarrow> pointer \<times> salienceGroup list" where
  "place_forward go new i d =
     (let g = groupings d ! i;
          lastAct = walk_group go (g_last g) (prev_last (groupings d) i)
                      (chain_from (g_first g) (agenda d))
      in (lastAct, update_group new lastAct i (groupings d)))"

definition PlaceDepthActivation ::
  "activation \<Rightarrow> nat \<Rightarrow> defruleModule \<Rightarrow> pointer \<times> salienceGroup list" where
  "PlaceDepthActivation new i d = place_forward (after_depth new) new i d"

definition PlaceBreadthActivation ::
  "activation \<Rightarrow> nat \<Rightarrow> defruleModule \<Rightarrow> pointer \<times> salienceGroup list" where
  "PlaceBreadthActivation new i d =
     (let g = groupings d ! i;
          prevLast = prev_last (groupings d) i;
          start = (if g_last g = None then prevLast else g_last g);
          lastAct = walk_group_back (timetag new) (g_first g) prevLast start
                      (chain_back (g_last g) (agenda d))
      in (lastAct, update_group new lastAct i (groupings d)))"

text \<open>\<open>lex\<close> and \<open>mea\<close> try the end of the group first.\<close>

definition end_or_forward ::
  "(activation \<Rightarrow> bool) \<Rightarrow> (activation \<Rightarrow> bool) \<Rightarrow> activation \<Rightarrow> nat \<Rightarrow> defruleModule
     \<Rightarrow> pointer \<times> salienceGroup list" where
  "end_or_forward at_end go new i d =
     (let g = groupings d ! i
      in case chain_from (g_last g) (agenda d) of
           act # _ \<Rightarrow>
             if at_end act
             then (Some (address act), (groupings d)[i := g\<lparr>g_last := Some (address new)\<rparr>])
             else place_forward go new i d
         | [] \<Rightarrow> place_forward go new i d)"

definition PlaceLEXActivation ::
  "env \<Rightarrow> activation \<Rightarrow> nat \<Rightarrow> defruleModule \<Rightarrow> pointer \<times> salienceGroup list" where
  "PlaceLEXActivation e new i d = end_or_forward (after_lex e new) (after_lex e new) new i d"

definition PlaceMEAActivation ::
  "env \<Rightarrow> activation \<Rightarrow> nat \<Rightarrow> defruleModule \<Rightarrow> pointer \<times> salienceGroup list" where
  "PlaceMEAActivation e new i d =
     end_or_forward (\<lambda>act. after_flag (mea_flag_last e act new) new act)
       (after_mea e new) new i d"

definition PlaceComplexityActivation ::
  "env \<Rightarrow> activation \<Rightarrow> nat \<Rightarrow> defruleModule \<Rightarrow> pointer \<times> salienceGroup list" where
  "PlaceComplexityActivation e new i d = place_forward (after_complexity e new) new i d"

definition PlaceSimplicityActivation ::
  "env \<Rightarrow> activation \<Rightarrow> nat \<Rightarrow> defruleModule \<Rightarrow> pointer \<times> salienceGroup list" where
  "PlaceSimplicityActivation e new i d = place_forward (after_simplicity e new) new i d"

definition PlaceRandomActivation ::
  "activation \<Rightarrow> nat \<Rightarrow> defruleModule \<Rightarrow> pointer \<times> salienceGroup list" where
  "PlaceRandomActivation new i d = place_forward (after_random new) new i d"

text \<open>The \<open>switch\<close> of \<open>PlaceActivation\<close>; a value outside the seven strategies
  leaves \<open>placeAfter\<close> null and the group untouched.\<close>

definition place_by_strategy ::
  "env \<Rightarrow> activation \<Rightarrow> nat \<Rightarrow> defruleModule \<Rightarrow> pointer \<times> salienceGroup list" where
  "place_by_strategy e new i d =
     (if Strategy e = DEPTH_STRATEGY then PlaceDepthActivation new i d
      else if Strategy e = BREADTH_STRATEGY then PlaceBreadthActivation new i d
      else if Strategy e = LEX_STRATEGY then PlaceLEXActivation e new i d
      else if Strategy e = MEA_STRATEGY then PlaceMEAActivation e new i d
      else if Strategy e = COMPLEXITY_STRATEGY then PlaceComplexityActivation e new i d
      else if Strategy e = SIMPLICITY_STRATEGY then PlaceSimplicityActivation e new i d
      else if Strategy e = RANDOM_STRATEGY then PlaceRandomActivation new i d
      else (None, groupings d))"

text \<open>The agenda and the groups of a module after \<open>PlaceActivation\<close>.\<close>

definition place_in_module :: "env \<Rightarrow> activation \<Rightarrow> nat \<Rightarrow> defruleModule \<Rightarrow> defruleModule" where
  "place_in_module e new i d =
     (let (placeAfter, gs) =
            (if agenda d \<noteq> [] then place_by_strategy e new i d
             else (None, (groupings d)[i := (groupings d ! i)
                     \<lparr>g_first := Some (address new), g_last := Some (address new)\<rparr>]))
      in \<lparr>groupings = gs, agenda = insert_after placeAfter new (agenda d)\<rparr>)"

definition PlaceActivation :: "addr \<Rightarrow> activation \<Rightarrow> nat \<Rightarrow> env \<Rightarrow> env" where
  "PlaceActivation m new i e =
     set_item m (place_in_module e new i (module_item e m)) (e\<lparr>AgendaChanged := True\<rparr>)"

section \<open>The time tag sort\<close>

lemma bubble_pass_prefix:
  assumes "length p = Suc k"
  shows "\<exists>q m f. bubble_pass k (p @ s) = (q @ m # s, f) \<and> mset (q @ [m]) = mset p
    \<and> (\<forall>x \<in> set q. m \<le> x) \<and> (\<not> f \<longrightarrow> q @ [m] = p \<and> sorted_wrt (\<ge>) p)"
  using assms
proof (induction k arbitrary: p)
  case 0
  then obtain m where "p = [m]" by (metis length_0_conv length_Suc_conv)
  then show ?case by auto
next
  case (Suc k)
  then obtain x y p' where p: "p = x # y # p'" by (metis length_Suc_conv)
  let ?u = "if x < y then x else y" and ?v = "if x < y then y else x"
  have "length (?u # p') = Suc k" using Suc.prems p by simp
  from Suc.IH [OF this] obtain q m f where
    q: "bubble_pass k ((?u # p') @ s) = (q @ m # s, f)" "mset (q @ [m]) = mset (?u # p')"
       "\<forall>z \<in> set q. m \<le> z" "\<not> f \<longrightarrow> q @ [m] = ?u # p' \<and> sorted_wrt (\<ge>) (?u # p')" by blast
  have eq: "bubble_pass (Suc k) (p @ s) = (?v # q @ m # s, x < y \<or> f)"
    using q(1) by (auto simp: p)
  have "?u \<in> set (q @ [m])" using mset_eq_setD [OF q(2)] by simp
  then have m: "m \<le> ?u" using q(3) by auto
  have "m \<le> ?v" using m by (auto split: if_splits)
  moreover have "mset ((?v # q) @ [m]) = mset p" using q(2) by (auto simp: p)
  moreover have "\<not> (x < y \<or> f) \<longrightarrow> (?v # q) @ [m] = p \<and> sorted_wrt (\<ge>) p"
    using q(4) by (auto simp: p)
  ultimately show ?case using eq q(3) by (intro exI [of _ "?v # q"] exI [of _ m]) auto
qed

lemma bubble_loop_sorts:
  assumes "length p = Suc k" and "sorted_wrt (\<ge>) s" and "\<forall>x \<in> set p. \<forall>y \<in> set s. y \<le> x"
  shows "mset (bubble_loop k (p @ s)) = mset (p @ s) \<and> sorted_wrt (\<ge>) (bubble_loop k (p @ s))"
  using assms
proof (induction k arbitrary: p s)
  case (0 p s)
  then obtain m where "p = [m]" by (metis length_0_conv length_Suc_conv)
  then show ?case using 0 by (auto simp: bubble_loop.simps)
next
  case (Suc k p s)
  obtain q m f where q: "bubble_pass (Suc k) (p @ s) = (q @ m # s, f)"
      "mset (q @ [m]) = mset p" "\<forall>x \<in> set q. m \<le> x"
      "\<not> f \<longrightarrow> q @ [m] = p \<and> sorted_wrt (\<ge>) p"
    using bubble_pass_prefix [OF Suc.prems(1)] by blast
  have set_p: "set p = insert m (set q)" using q(2) by (metis mset_eq_setD set_append
    list.simps(15) list.set(1) Un_insert_right sup_bot.right_neutral)
  show ?case
  proof (cases f)
    case True
    have "length q = Suc k" using q(2) Suc.prems(1) by (metis length_append_singleton
      nat.inject size_mset)
    moreover have "sorted_wrt (\<ge>) (m # s)" using Suc.prems set_p by simp
    moreover have "\<forall>x \<in> set q. \<forall>y \<in> set (m # s). y \<le> x" using Suc.prems(3) q(3) set_p by simp
    ultimately have IH: "mset (bubble_loop k (q @ m # s)) = mset (q @ m # s)
        \<and> sorted_wrt (\<ge>) (bubble_loop k (q @ m # s))" by (rule Suc.IH)
    have "mset (q @ m # s) = mset (p @ s)" using q(2) by simp
    then show ?thesis using IH True q(1) by (simp add: bubble_loop.simps [of "Suc k"])
  next
    case False
    then show ?thesis using q Suc.prems
      by (auto simp: bubble_loop.simps [of "Suc k"] sorted_wrt_append)
  qed
qed

lemma SortPartialMatch_sorts:
  assumes "binds pm \<noteq> []"
  shows "mset (SortPartialMatch e pm) = mset (map (bind_tag e) (binds pm))"
    and "sorted_wrt (\<ge>) (SortPartialMatch e pm)"
    and "length (SortPartialMatch e pm) = length (binds pm)"
proof -
  let ?t = "map (bind_tag e) (binds pm)"
  have "length ?t = Suc (length ?t - 1)" using assms by simp
  from bubble_loop_sorts [OF this, of "[]"]
  show "mset (SortPartialMatch e pm) = mset ?t" and "sorted_wrt (\<ge>) (SortPartialMatch e pm)"
    by (auto simp: SortPartialMatch_def)
  then show "length (SortPartialMatch e pm) = length (binds pm)" by (metis length_map size_mset)
qed

section \<open>Every strategy is a strict weak order\<close>

text \<open>
  What \<open>PlaceActivation\<close> needs of a strategy: on well-formed activations, "belongs
  after" is asymmetric, and not belonging after is transitive.
\<close>

locale placement_order =
  fixes after :: "activation \<Rightarrow> activation \<Rightarrow> bool"
    and ok :: "activation \<Rightarrow> bool"
  assumes after_asym: "ok x \<Longrightarrow> ok y \<Longrightarrow> after x y \<Longrightarrow> \<not> after y x"
    and after_negtrans: "ok x \<Longrightarrow> ok y \<Longrightarrow> ok z \<Longrightarrow> \<not> after x y \<Longrightarrow> \<not> after y z \<Longrightarrow> \<not> after x z"
begin

text \<open>In a segment in order, the walk position splits the activations the new one
  belongs after from the rest.\<close>

lemma rest_not_after:
  assumes "sorted_wrt (\<lambda>x y. \<not> after x y) s" and "\<forall>a \<in> set s. ok a" and "ok n"
    and "y \<in> set (dropWhile (after n) s)"
  shows "\<not> after n y"
proof -
  obtain h t where ht: "dropWhile (after n) s = h # t"
    using assms(4) by (cases "dropWhile (after n) s") auto
  have h: "\<not> after n h" using ht by (metis hd_dropWhile list.distinct(1) list.sel(1))
  have "sorted_wrt (\<lambda>x y. \<not> after x y) (h # t)"
    using assms(1) ht by (metis sorted_wrt_append takeWhile_dropWhile_id)
  then have "y = h \<or> \<not> after h y" using assms(4) ht by auto
  moreover have "ok h" and "ok y" using assms(2,4) ht
    by (metis list.set_intros(1) set_dropWhileD)+
  ultimately show ?thesis using h assms(3) after_negtrans by blast
qed

lemma insert_keeps_order:
  assumes "sorted_wrt (\<lambda>x y. \<not> after x y) s" and "\<forall>a \<in> set s. ok a" and "ok n"
  shows "sorted_wrt (\<lambda>x y. \<not> after x y)
    (takeWhile (after n) s @ n # dropWhile (after n) s)"
proof (rule sorted_wrt_insert_at [OF assms(1)])
  show "\<forall>x \<in> set (takeWhile (after n) s). \<not> after x n"
    using assms(2,3) after_asym by (metis set_takeWhileD)
  show "\<forall>x \<in> set (dropWhile (after n) s). \<not> after n x"
    using rest_not_after [OF assms] by blast
qed

lemma after_last_all:
  assumes "sorted_wrt (\<lambda>x y. \<not> after x y) s" and "\<forall>a \<in> set s. ok a" and "ok n"
    and "s \<noteq> []"
  shows "after n (last s) \<longleftrightarrow> takeWhile (after n) s = s"
proof
  assume "after n (last s)"
  then show "takeWhile (after n) s = s"
    using rest_not_after [OF assms(1-3)] assms(4)
    by (metis append_Nil2 last_appendR last_in_set takeWhile_dropWhile_id)
next
  assume "takeWhile (after n) s = s"
  then show "after n (last s)" using assms(4) by (metis last_in_set set_takeWhileD)
qed

end

text \<open>The list comparison of \<open>ComparePartialMatches\<close> is the lexicographic order.\<close>

lemma compare_tags_less: "compare_tags xs ys = Some LESS_THAN \<Longrightarrow> xs < ys"
  by (induction xs ys rule: compare_tags.induct) (auto split: if_splits)

lemma compare_tags_greater: "compare_tags xs ys = Some GREATER_THAN \<Longrightarrow> ys < xs"
  by (induction xs ys rule: compare_tags.induct) (auto split: if_splits)

lemma compare_tags_None:
  "compare_tags xs ys = None \<Longrightarrow>
     (xs < ys \<longleftrightarrow> length xs < length ys) \<and> (ys < xs \<longleftrightarrow> length ys < length xs)"
proof (induction xs arbitrary: ys)
  case Nil
  then show ?case by (cases ys) auto
next
  case (Cons x xs)
  then show ?case by (cases ys) (auto split: if_splits)
qed

lemma compare_tags_Some: "compare_tags xs ys \<noteq> Some EQUAL"
  by (induction xs ys rule: compare_tags.induct) auto

lemma compare_tags_lex:
  "(case compare_tags xs ys of Some c \<Rightarrow> c | None \<Rightarrow>
      if length xs < length ys then LESS_THAN
      else if length xs > length ys then GREATER_THAN else EQUAL)
   = (if xs < ys then LESS_THAN else if ys < xs then GREATER_THAN else EQUAL)"
proof (cases "compare_tags xs ys")
  case None
  then show ?thesis using compare_tags_None [of xs ys] by simp
next
  case (Some c)
  show ?thesis
  proof (cases c)
    case LESS_THAN
    then show ?thesis using Some compare_tags_less [of xs ys] by simp
  next
    case GREATER_THAN
    then have "ys < xs" using Some compare_tags_greater [of xs ys] by simp
    then show ?thesis using Some GREATER_THAN by auto
  next
    case EQUAL
    then show ?thesis using Some compare_tags_Some [of xs ys] by simp
  qed
qed

definition match_key :: "env \<Rightarrow> activation \<Rightarrow> u64 list \<times> nat" where
  "match_key e a = (SortPartialMatch e (matches e (basis a)), complexity (rules e (theRule a)))"

definition has_patterns :: "env \<Rightarrow> activation \<Rightarrow> bool" where
  "has_patterns e a \<longleftrightarrow> binds (matches e (basis a)) \<noteq> []"

lemma ComparePartialMatches_key:
  assumes "has_patterns e a" and "has_patterns e n"
  shows "ComparePartialMatches e a n =
    (if match_key e n < match_key e a then LESS_THAN
     else if match_key e a < match_key e n then GREATER_THAN else EQUAL)"
proof -
  let ?x = "SortPartialMatch e (matches e (basis n))"
  let ?y = "SortPartialMatch e (matches e (basis a))"
  have len: "length (binds (matches e (basis n))) = length ?x"
      "length (binds (matches e (basis a))) = length ?y"
    using assms by (simp_all add: has_patterns_def SortPartialMatch_sorts)
  let ?c = "complexity (rules e (theRule n))" and ?d = "complexity (rules e (theRule a))"
  have "ComparePartialMatches e a n =
      (case (case compare_tags ?x ?y of Some c \<Rightarrow> c | None \<Rightarrow>
          if length ?x < length ?y then LESS_THAN
          else if length ?x > length ?y then GREATER_THAN else EQUAL) of
         LESS_THAN \<Rightarrow> LESS_THAN | GREATER_THAN \<Rightarrow> GREATER_THAN
       | EQUAL \<Rightarrow> if ?c < ?d then LESS_THAN else if ?c > ?d then GREATER_THAN else EQUAL)"
    unfolding ComparePartialMatches_def Let_def len
    by (cases "compare_tags ?x ?y") (auto simp: compare_tags_Some split: comparison.split)
  then show ?thesis unfolding compare_tags_lex match_key_def
    by (cases ?x ?y rule: linorder_cases) auto
qed

lemma after_lex_key:
  assumes "has_patterns e a" and "has_patterns e n"
  shows "after_lex e n a \<longleftrightarrow> match_key e n < match_key e a \<or>
    (match_key e n = match_key e a \<and> timetag n > timetag a)"
  by (auto simp: after_lex_def ComparePartialMatches_key [OF assms])

interpretation depth: placement_order after_depth "\<lambda>_. True"
  by unfold_locales (auto simp: after_depth_def)

interpretation breadth: placement_order "\<lambda>x y. timetag y < timetag x" "\<lambda>_. True"
  by unfold_locales auto

interpretation lex: placement_order "after_lex e" "has_patterns e" for e
proof unfold_locales
  fix x y z
  assume ok: "has_patterns e x" "has_patterns e y"
  then show "after_lex e x y \<Longrightarrow> \<not> after_lex e y x"
    by (metis after_lex_key order.asym order.irrefl)
  assume z: "has_patterns e z"
  show "\<not> after_lex e x y \<Longrightarrow> \<not> after_lex e y z \<Longrightarrow> \<not> after_lex e x z"
    unfolding after_lex_key [OF ok(2,1)] after_lex_key [OF z ok(2)] after_lex_key [OF z ok(1)]
    by (rule key_then_tag_negtrans)
qed

text \<open>For \<open>mea\<close> the first item of a match carries a positive time tag: the tags are
  issued from 1 upwards.\<close>

definition mea_ok :: "env \<Rightarrow> activation \<Rightarrow> bool" where
  "mea_ok e a \<longleftrightarrow> has_patterns e a \<and>
     (case GetMatchingItem e a 0 of None \<Rightarrow> True | Some i \<Rightarrow> 0 < sint (timeTag (entities e i)))"

lemma whoset_ok: "mea_ok e a \<Longrightarrow> whoset e a = - 1 \<or> 0 < whoset e a"
  by (auto simp: mea_ok_def whoset_def split: option.splits)

lemma mea_flags_agree:
  assumes "mea_ok e a" and "mea_ok e n"
  shows "mea_flag_last e a n = mea_flag e a n"
  using assms
  by (auto simp: mea_ok_def mea_flag_def mea_flag_last_def whoset_def Let_def split: option.splits)

lemma after_mea_key:
  assumes "mea_ok e a" and "mea_ok e n"
  shows "after_mea e n a \<longleftrightarrow> whoset e n < whoset e a \<or>
    (whoset e n = whoset e a \<and> after_lex e n a)"
  using whoset_ok [OF assms(1)] whoset_ok [OF assms(2)]
  by (auto simp: after_mea_def mea_flag_def after_flag_def after_lex_def Let_def)

interpretation mea: placement_order "after_mea e" "mea_ok e" for e
proof unfold_locales
  fix x y z
  assume ok: "mea_ok e x" "mea_ok e y"
  then have hp: "has_patterns e x" "has_patterns e y" by (simp_all add: mea_ok_def)
  show "after_mea e x y \<Longrightarrow> \<not> after_mea e y x"
    using ok lex.after_asym [OF hp] by (auto simp: after_mea_key)
  assume z: "mea_ok e z"
  then have "has_patterns e z" by (simp add: mea_ok_def)
  then show "\<not> after_mea e x y \<Longrightarrow> \<not> after_mea e y z \<Longrightarrow> \<not> after_mea e x z"
    using ok z lex.after_negtrans [OF hp, of z] by (auto simp: after_mea_key)
qed

interpretation complexity: placement_order "after_complexity e" "\<lambda>_. True" for e
  by unfold_locales (auto simp: after_complexity_def Let_def split: if_splits)

interpretation simplicity: placement_order "after_simplicity e" "\<lambda>_. True" for e
  by unfold_locales (auto simp: after_simplicity_def Let_def split: if_splits)

interpretation random: placement_order after_random "\<lambda>_. True"
  by unfold_locales (auto simp: after_random_def split: if_splits)

section \<open>The position PlaceActivation gives\<close>

text \<open>The order of the strategy in force.\<close>

definition placed_after :: "env \<Rightarrow> activation \<Rightarrow> activation \<Rightarrow> bool" where
  "placed_after e n a =
     (if Strategy e = DEPTH_STRATEGY then after_depth n a
      else if Strategy e = BREADTH_STRATEGY then timetag a < timetag n
      else if Strategy e = LEX_STRATEGY then after_lex e n a
      else if Strategy e = MEA_STRATEGY then after_mea e n a
      else if Strategy e = COMPLEXITY_STRATEGY then after_complexity e n a
      else if Strategy e = SIMPLICITY_STRATEGY then after_simplicity e n a
      else if Strategy e = RANDOM_STRATEGY then after_random n a
      else False)"

definition valid_strategy :: "env \<Rightarrow> bool" where
  "valid_strategy e \<longleftrightarrow> DEPTH_STRATEGY \<le> Strategy e \<and> Strategy e \<le> RANDOM_STRATEGY"

interpretation strategy: placement_order "placed_after e" "mea_ok e" for e
proof unfold_locales
  fix x y z
  assume "mea_ok e x" "mea_ok e y"
  moreover from this have "has_patterns e x" "has_patterns e y" by (simp_all add: mea_ok_def)
  ultimately show "placed_after e x y \<Longrightarrow> \<not> placed_after e y x"
    using depth.after_asym [of x y] lex.after_asym [of e x y] mea.after_asym [of e x y]
      complexity.after_asym [of e x y] simplicity.after_asym [of e x y]
      random.after_asym [of x y]
    by (auto simp: placed_after_def split: if_splits)
next
  fix x y z
  assume *: "mea_ok e x" "mea_ok e y" "mea_ok e z"
  then have **: "has_patterns e x" "has_patterns e y" "has_patterns e z"
    by (simp_all add: mea_ok_def)
  show "\<not> placed_after e x y \<Longrightarrow> \<not> placed_after e y z \<Longrightarrow> \<not> placed_after e x z"
    using lex.after_negtrans [OF **] mea.after_negtrans [OF *] depth.after_negtrans [of x y z]
      breadth.after_negtrans [of x y z] complexity.after_negtrans [of e x y z]
      simplicity.after_negtrans [of e x y z] random.after_negtrans [of x y z]
    by (simp add: placed_after_def split: if_splits)
qed

text \<open>The agenda split around group \<open>i\<close>: what precedes it, its segment, what follows.\<close>

definition split_at ::
  "defruleModule \<Rightarrow> nat \<Rightarrow> activation list \<Rightarrow> activation list \<Rightarrow> activation list \<Rightarrow> bool" where
  "split_at d i P S Q \<longleftrightarrow>
     agenda d = P @ S @ Q \<and> i < length (groupings d) \<and>
     g_first (groupings d ! i) = first_address S \<and>
     g_last (groupings d ! i) = last_address S \<and>
     (if i = 0 then P = [] else P \<noteq> [] \<and> g_last (groupings d ! (i - 1)) = last_address P) \<and>
     distinct (map address (agenda d))"

lemma split_at_distinct: "split_at d i P S Q \<Longrightarrow> distinct (map address (P @ S @ Q))"
  by (metis split_at_def)

lemma split_at_prev_last: "split_at d i P S Q \<Longrightarrow> prev_last (groupings d) i = last_address P"
  by (auto simp: split_at_def prev_last_def)

lemma walk_group_segment [chain_simps]:
  assumes "distinct (map address S)"
  shows "walk_group go (last_address S) la (S @ (if S = [] then [] else Q)) =
    (if takeWhile go S = [] then la else last_address (takeWhile go S))"
  using assms
proof (induction S arbitrary: la)
  case (Cons a S)
  show ?case
  proof (cases "S = []")
    case False
    then have "address a \<noteq> address (last S)" using Cons.prems by auto
    then have "Some (address a) \<noteq> last_address (a # S)" using False
      by (simp add: last_address_def)
    moreover have "last_address (a # S) = last_address S" using False
      by (simp add: last_address_def)
    ultimately show ?thesis using Cons.IH [of "Some (address a)"] Cons.prems False
      by (auto simp: last_address_def)
  qed (simp add: last_address_def)
qed simp

lemma place_walk:
  assumes "split_at d i P S Q"
  shows "walk_group go (g_last (groupings d ! i)) (prev_last (groupings d) i)
      (chain_from (g_first (groupings d ! i)) (agenda d)) = last_address (P @ takeWhile go S)"
proof -
  have "chain_from (first_address S) (P @ S @ Q) = S @ (if S = [] then [] else Q)"
    using assms chain_from_append [of P S Q] by (auto simp: split_at_def chain_from_def)
  moreover have "distinct (map address S)" using assms by (auto simp: split_at_def)
  ultimately show ?thesis using assms split_at_prev_last [OF assms]
    by (simp add: split_at_def walk_group_segment)
qed

lemma walk_back_segment:
  assumes "sorted_wrt (\<lambda>x y. \<not> timetag y < timetag x) S"
    and "distinct (map address S)" and "S \<noteq> []"
    and "tag \<notin> timetag ` set S"
  shows "walk_group_back tag (first_address S) prevLast la (rev S @ R) =
    (let T = takeWhile (\<lambda>a. timetag a < tag) S in if T = [] then prevLast else last_address T)"
  using assms
proof (induction S arbitrary: R rule: rev_induct)
  case (snoc a S)
  show ?case
  proof (cases "tag < timetag a")
    case True
    show ?thesis
    proof (cases "S = []")
      case False
      then have "first_address (S @ [a]) = first_address S" by (simp add: first_address_def)
      moreover have "Some (address a) \<noteq> first_address S" using snoc.prems(2) False
        by (auto simp: first_address_def)
      moreover have "takeWhile (\<lambda>b. timetag b < tag) (S @ [a]) = takeWhile (\<lambda>b. timetag b < tag) S"
        using True by (simp add: takeWhile_tail)
      ultimately show ?thesis using True snoc.IH [of R] snoc.prems False
        by (simp add: sorted_wrt_append)
    qed (use True in \<open>auto simp: first_address_def\<close>)
  next
    case False
    then have "timetag a < tag" using snoc.prems(4) by force
    then have "\<forall>b \<in> set (S @ [a]). timetag b < tag"
      using snoc.prems(1) by (auto simp: sorted_wrt_append not_less)
    then have "takeWhile (\<lambda>b. timetag b < tag) (S @ [a]) = S @ [a]" by (simp add: takeWhile_eq_all_conv)
    then show ?thesis using False by (simp add: last_address_def)
  qed
qed simp

text \<open>The pointer updates of the group follow the insertion point.\<close>

lemma update_group_at:
  assumes at: "split_at d i P (T @ D) Q"
  shows "update_group new (last_address (P @ T)) i (groupings d) =
    (groupings d)[i := (groupings d ! i)
       \<lparr>g_first := first_address (T @ new # D), g_last := last_address (T @ new # D)\<rparr>]"
proof -
  let ?g = "groupings d ! i" and ?la = "last_address (P @ T)"
  have dist: "distinct (map address (P @ T @ D @ Q))" using split_at_distinct [OF at] by simp
  have first: "(?la = None \<or> (0 < i \<and> g_last (groupings d ! (i - 1)) = ?la)) \<longleftrightarrow> T = []"
  proof (cases "T = []")
    case False
    then have "P \<noteq> [] \<Longrightarrow> address (last P) \<noteq> address (last T)"
      using distinct_map_disjoint [of address P "T @ D @ Q" "last P" "last T"] dist by simp
    then have "last_address P \<noteq> last_address T" using False by (auto simp: last_address_def)
    then show ?thesis using at False by (auto simp: split_at_def split: if_splits)
  qed (use at in \<open>auto simp: split_at_def split: if_splits\<close>)
  have last: "(g_last ?g = None \<or> g_last ?g = ?la) \<longleftrightarrow> D = []"
  proof (cases "D = []")
    case False
    moreover have "P @ T \<noteq> [] \<Longrightarrow> last (P @ T) \<in> set (P @ T)" by (metis last_in_set)
    ultimately have "P @ T \<noteq> [] \<Longrightarrow> address (last (P @ T)) \<noteq> address (last D)"
      using distinct_map_disjoint [of address "P @ T" "D @ Q" "last (P @ T)" "last D"] dist
      by simp
    then have "last_address (P @ T) \<noteq> last_address D"
      using False by (auto simp: last_address_def)
    then show ?thesis using at False by (auto simp: split_at_def)
  qed (use at in \<open>auto simp: split_at_def\<close>)
  have hd: "T \<noteq> [] \<Longrightarrow> first_address (T @ D) = first_address (T @ new # D)"
    by (simp add: first_address_def)
  have tl: "D \<noteq> [] \<Longrightarrow> last_address (T @ D) = last_address (T @ new # D)"
    by (simp add: last_address_def)
  have flds: "g_first ?g = first_address (T @ D)" "g_last ?g = last_address (T @ D)"
    using at by (simp_all add: split_at_def)
  have "(if D = [] then (if T = [] then ?g\<lparr>g_first := Some (address new)\<rparr> else ?g)
           \<lparr>g_last := Some (address new)\<rparr>
         else (if T = [] then ?g\<lparr>g_first := Some (address new)\<rparr> else ?g)) =
      ?g\<lparr>g_first := first_address (T @ new # D), g_last := last_address (T @ new # D)\<rparr>"
    using flds hd tl by (intro salienceGroup.equality) (auto simp: last_address_def)
  then show ?thesis unfolding update_group_def Let_def first last by simp
qed

lemma place_forward_at:
  assumes "split_at d i P S Q"
  shows "place_forward go new i d =
    (last_address (P @ takeWhile go S),
     (groupings d)[i := (groupings d ! i)
       \<lparr>g_first := first_address (takeWhile go S @ new # dropWhile go S),
        g_last := last_address (takeWhile go S @ new # dropWhile go S)\<rparr>])"
proof -
  have "split_at d i P (takeWhile go S @ dropWhile go S) Q" using assms by simp
  from update_group_at [OF this, of new] show ?thesis
    unfolding place_forward_def Let_def place_walk [OF assms] by simp
qed

lemma end_or_forward_at:
  assumes at: "split_at d i P S Q"
    and same: "\<And>a. a \<in> set S \<Longrightarrow> at_end a = go a"
    and ends: "S \<noteq> [] \<Longrightarrow> go (last S) \<Longrightarrow> takeWhile go S = S"
  shows "end_or_forward at_end go new i d = place_forward go new i d"
proof (cases "S = []")
  case True
  then show ?thesis using at by (simp add: end_or_forward_def split_at_def chain_from_def)
next
  case False
  then obtain S' z where S: "S = S' @ [z]" by (cases S rule: rev_cases) auto
  have "distinct (map address ((P @ S') @ [z] @ Q))" using split_at_distinct [OF at] S by simp
  from chain_from_append [OF this]
  have chain: "chain_from (g_last (groupings d ! i)) (agenda d) = z # Q"
    using at S by (simp add: split_at_def last_address_def first_address_def)
  show ?thesis
  proof (cases "go z")
    case True
    then have all: "takeWhile go S = S" using ends S by simp
    then have "dropWhile go S = []" by (metis append_Nil2 same_append_eq takeWhile_dropWhile_id)
    then have "place_forward go new i d = (Some (address z),
        (groupings d)[i := (groupings d ! i)\<lparr>g_last := Some (address new)\<rparr>])"
      using place_forward_at [OF at, of go new] all at S
      by (auto simp: last_address_def first_address_def split_at_def hd_append
          intro!: arg_cong [where f = "list_update (groupings d) i"] salienceGroup.equality)
    then show ?thesis using True same S chain by (simp add: end_or_forward_def)
  next
    case False
    then show ?thesis using same S chain by (simp add: end_or_forward_def)
  qed
qed

lemma PlaceBreadth_at:
  assumes at: "split_at d i P S Q"
    and srt: "sorted_wrt (\<lambda>x y. \<not> timetag y < timetag x) S"
    and fresh: "timetag new \<notin> timetag ` set S"
  shows "PlaceBreadthActivation new i d = place_forward (\<lambda>a. timetag a < timetag new) new i d"
proof -
  let ?T = "takeWhile (\<lambda>a. timetag a < timetag new) S"
  have W: "walk_group_back (timetag new) (first_address S) (last_address P)
      (if last_address S = None then last_address P else last_address S)
      (chain_back (last_address S) (P @ S @ Q)) = last_address (P @ ?T)"
  proof (cases "S = []")
    case False
    have "distinct (map address S)" using split_at_distinct [OF at] by simp
    then show ?thesis
      using walk_back_segment [OF srt _ False fresh] False split_at_distinct [OF at]
        chain_back_append [of P S Q] by (simp add: Let_def)
  qed (simp add: chain_back_def)
  have "agenda d = P @ S @ Q" "g_first (groupings d ! i) = first_address S"
      "g_last (groupings d ! i) = last_address S" using at by (simp_all add: split_at_def)
  note W' = W [folded this split_at_prev_last [OF at]]
  show ?thesis
    unfolding PlaceBreadthActivation_def place_forward_def Let_def place_walk [OF at] W'
    by (rule refl)
qed

lemma place_by_strategy_at:
  assumes at: "split_at d i P S Q" and valid: "valid_strategy e"
    and srt: "sorted_wrt (\<lambda>x y. \<not> placed_after e x y) S"
    and ok: "\<forall>a \<in> set S. mea_ok e a" "mea_ok e new"
    and fresh: "timetag new \<notin> timetag ` set S"
  shows "place_by_strategy e new i d = place_forward (placed_after e new) new i d"
proof -
  have ends: "S \<noteq> [] \<Longrightarrow> placed_after e new (last S) \<Longrightarrow> takeWhile (placed_after e new) S = S"
    using strategy.after_last_all [OF srt ok(1) ok(2)] by blast
  have "Strategy e = 0 \<or> Strategy e = 1 \<or> Strategy e = 2 \<or> Strategy e = 3 \<or>
      Strategy e = 4 \<or> Strategy e = 5 \<or> Strategy e = 6"
    using valid unfolding valid_strategy_def by presburger
  then consider "Strategy e = 0" | "Strategy e = 1" | "Strategy e = 2" | "Strategy e = 3"
    | "Strategy e = 4" | "Strategy e = 5" | "Strategy e = 6" by blast
  then show ?thesis
  proof cases
    case 2
    then have "placed_after e x = (\<lambda>a. timetag a < timetag x)" for x
      by (auto simp: placed_after_def)
    then show ?thesis using 2 srt PlaceBreadth_at [OF at _ fresh]
      by (simp add: place_by_strategy_def)
  next
    case 3
    then have "placed_after e new = after_lex e new" by (auto simp: placed_after_def)
    then show ?thesis using 3 end_or_forward_at [OF at _ ends]
      by (simp add: place_by_strategy_def PlaceLEXActivation_def)
  next
    case 4
    then have pa: "placed_after e new = after_mea e new" by (auto simp: placed_after_def)
    have "a \<in> set S \<Longrightarrow> after_flag (mea_flag_last e a new) new a = placed_after e new a" for a
      using ok by (simp add: pa after_mea_def mea_flags_agree)
    from end_or_forward_at [OF at this ends] show ?thesis using 4 pa
      by (simp add: place_by_strategy_def PlaceMEAActivation_def)
  qed (auto simp: place_by_strategy_def placed_after_def PlaceDepthActivation_def
      PlaceComplexityActivation_def PlaceSimplicityActivation_def PlaceRandomActivation_def
      intro!: arg_cong [where f = "\<lambda>go. place_forward go new i d"])
qed

lemma place_in_module_at:
  assumes at: "split_at d i P S Q" and valid: "valid_strategy e"
    and srt: "sorted_wrt (\<lambda>x y. \<not> placed_after e x y) S"
    and ok: "\<forall>a \<in> set S. mea_ok e a" "mea_ok e new"
    and fresh: "timetag new \<notin> timetag ` set S"
    and S': "S' = takeWhile (placed_after e new) S @ new # dropWhile (placed_after e new) S"
  shows "place_in_module e new i d =
    \<lparr>groupings = (groupings d)[i := (groupings d ! i)
        \<lparr>g_first := first_address S', g_last := last_address S'\<rparr>],
     agenda = P @ S' @ Q\<rparr>"
proof (cases "agenda d = []")
  case True
  then have "P = []" "S = []" "Q = []" using at by (auto simp: split_at_def)
  then show ?thesis using True S' by (simp add: place_in_module_def last_address_def)
next
  case False
  let ?T = "takeWhile (placed_after e new) S" and ?D = "dropWhile (placed_after e new) S"
  have "distinct (map address ((P @ ?T) @ ?D @ Q))"
    using split_at_distinct [OF at] by (metis append.assoc takeWhile_dropWhile_id)
  from insert_after_append [OF this, of new]
  have "insert_after (last_address (P @ ?T)) new (P @ S @ Q) = P @ S' @ Q"
    unfolding S' by (metis append.assoc append_Cons takeWhile_dropWhile_id)
  moreover have "agenda d = P @ S @ Q" using at by (simp add: split_at_def)
  ultimately show ?thesis
    using False place_by_strategy_at [OF at valid srt ok fresh] place_forward_at [OF at]
    by (simp add: place_in_module_def S')
qed

end
