(* ===== verification/Arguments.thy ===== *)
theory Arguments
  imports Env_State
begin

text \<open>
  Argument access for functions called from CLIPS expressions, \<open>argacces.c\<close>. The
  arguments of the call (\<open>CurrentExpression->argList\<close>) are given as the list of
  their values. A failed check reports on \<open>WERROR\<close>, raises the evaluation error
  and halts execution.
\<close>

definition EnvRtnArgCount :: "val list \<Rightarrow> nat" where
  "EnvRtnArgCount args = length args"

definition signal_error :: "message \<Rightarrow> env \<Rightarrow> env" where
  "signal_error msg e = SetEvaluationError True ((print_message msg e)\<lparr>HaltExecution := True\<rparr>)"

definition EnvArgCountCheck ::
  "string \<Rightarrow> count_relation \<Rightarrow> nat \<Rightarrow> val list \<Rightarrow> env \<Rightarrow> int \<times> env" where
  "EnvArgCountCheck name rel expected args e =
     (let n = EnvRtnArgCount args in
      if rel = EXACTLY \<and> n = expected then (int n, e)
      else if rel = AT_LEAST \<and> expected \<le> n then (int n, e)
      else if rel = NO_MORE_THAN \<and> n \<le> expected then (int n, e)
      else (- 1, signal_error (ExpectedCountError name rel expected) e))"

text \<open>The expected types of \<open>EnvArgTypeCheck\<close>.\<close>

datatype arg_type =
    ty_FLOAT | ty_INTEGER | ty_SYMBOL | ty_STRING | ty_MULTIFIELD | ty_EXTERNAL_ADDRESS
  | ty_FACT_ADDRESS | ty_INSTANCE_ADDRESS | ty_INSTANCE_NAME
  | INTEGER_OR_FLOAT | SYMBOL_OR_STRING | INSTANCE_OR_INSTANCE_NAME

fun type_of :: "val \<Rightarrow> arg_type" where
  "type_of (FLOAT _) = ty_FLOAT"
| "type_of (NAN _ _) = ty_FLOAT"
| "type_of (INTEGER _) = ty_INTEGER"
| "type_of (SYMBOL _) = ty_SYMBOL"
| "type_of (STRING _) = ty_STRING"
| "type_of (MULTIFIELD _) = ty_MULTIFIELD"
| "type_of (EXTERNAL_ADDRESS _) = ty_EXTERNAL_ADDRESS"
| "type_of (FACT_ADDRESS _) = ty_FACT_ADDRESS"
| "type_of (INSTANCE_ADDRESS _) = ty_INSTANCE_ADDRESS"
| "type_of (INSTANCE_NAME _) = ty_INSTANCE_NAME"

text \<open>The type tests in their order.\<close>

definition check_type :: "arg_type \<Rightarrow> val \<Rightarrow> val option" where
  "check_type expected v =
     (let t = type_of v in
      if t = expected then Some v
      else if expected = INTEGER_OR_FLOAT \<and> (t = ty_INTEGER \<or> t = ty_FLOAT) then Some v
      else if expected = SYMBOL_OR_STRING \<and> (t = ty_SYMBOL \<or> t = ty_STRING) then Some v
      else if (expected = SYMBOL_OR_STRING \<or> expected = ty_SYMBOL) \<and> t = ty_INSTANCE_NAME
        then Some v
      else if expected = ty_INSTANCE_NAME \<and> (t = ty_INSTANCE_NAME \<or> t = ty_SYMBOL) then Some v
      else if expected = INSTANCE_OR_INSTANCE_NAME \<and>
              (t = ty_INSTANCE_ADDRESS \<or> t = ty_INSTANCE_NAME \<or> t = ty_SYMBOL) then Some v
      else (case (v, expected) of
              (INTEGER i, ty_FLOAT) \<Rightarrow> Some (FLOAT (int_to_double i))
            | (NAN w a, ty_INTEGER) \<Rightarrow> Some (INTEGER (double_to_int w))
            | (FLOAT w, ty_INTEGER) \<Rightarrow> Some (INTEGER (double_to_int w))
            | _ \<Rightarrow> None))"

definition EnvArgTypeCheck ::
  "string \<Rightarrow> nat \<Rightarrow> arg_type \<Rightarrow> val list \<Rightarrow> env \<Rightarrow> val option \<times> env" where
  "EnvArgTypeCheck name pos expected args e =
     (if length args < pos then (None, signal_error (NonexistantError pos) e)
      else if EvaluationError e then (None, e)
      else case check_type expected (args ! (pos - 1)) of
             Some v \<Rightarrow> (Some v, e)
           | None \<Rightarrow> (None, signal_error (ExpectedTypeError1 name pos) e))"

text \<open>\<open>DOToString\<close>: the text of a symbol, string or instance name.\<close>

fun DOToString :: "val \<Rightarrow> string" where
  "DOToString (SYMBOL s) = s"
| "DOToString (STRING s) = s"
| "DOToString (INSTANCE_NAME s) = s"
| "DOToString _ = []"

section \<open>Facts\<close>

lemma signal_error_frame [frame_simps]:
  "CurrentFocus (signal_error m e) = CurrentFocus e"
  "modules (signal_error m e) = modules e"
  "CurrentModule (signal_error m e) = CurrentModule e"
  "ListOfDefmodules (signal_error m e) = ListOfDefmodules e"
  "rules (signal_error m e) = rules e"
  "Strategy (signal_error m e) = Strategy e"
  "SalienceEvaluation (signal_error m e) = SalienceEvaluation e"
  by (simp_all add: signal_error_def SetEvaluationError_def print_message_def)

lemma signal_error_flags [simp]:
  "EvaluationError (signal_error m e)" "HaltExecution (signal_error m e)"
  "dialog (signal_error m e) = dialog e @ [m]"
  by (simp_all add: signal_error_def SetEvaluationError_def print_message_def)

lemma check_type_symbol:
  "check_type ty_SYMBOL v = Some w \<Longrightarrow> w = v \<and> (\<exists>s. v = SYMBOL s \<or> v = INSTANCE_NAME s)"
  by (cases v) (auto simp: check_type_def split: if_splits)

end
