(* ===== verification/Focus.thy ===== *)
theory Focus
  imports Arguments
begin

text \<open>
  The current module (\<open>moduldef.c\<close>) and the focus stack (\<open>engine.c\<close>). The stack
  holds module addresses, top first. Not modelled: the registered
  \<open>AfterModuleChangeFunctions\<close>, which only refresh scope caches, and the trace
  output of \<open>watch focus\<close>.
\<close>

section \<open>The current module\<close>

definition EnvSetCurrentModule :: "addr \<Rightarrow> env \<Rightarrow> env" where
  "EnvSetCurrentModule m e =
     (let e1 = e\<lparr>CurrentModule := Some m\<rparr>
      in if CallModuleChangeFunctions e1
         then e1\<lparr>ModuleChangeIndex := ModuleChangeIndex e1 + 1\<rparr> else e1)"

definition SaveCurrentModule :: "env \<Rightarrow> env" where
  "SaveCurrentModule e =
     e\<lparr>ModuleStack := (CallModuleChangeFunctions e, CurrentModule e) # ModuleStack e,
       CallModuleChangeFunctions := False\<rparr>"

text \<open>An empty stack is a null dereference in the code; no caller reaches it.\<close>

definition RestoreCurrentModule :: "env \<Rightarrow> env" where
  "RestoreCurrentModule e =
     (case ModuleStack e of
        (flag, m) # rest \<Rightarrow> e\<lparr>ModuleStack := rest, CallModuleChangeFunctions := flag,
                              CurrentModule := m\<rparr>
      | [] \<Rightarrow> e)"

fun find_module :: "(addr \<Rightarrow> defmodule) \<Rightarrow> string \<Rightarrow> addr list \<Rightarrow> pointer" where
  "find_module ms name [] = None"
| "find_module ms name (m # rest) =
     (if m_name (ms m) = name then Some m else find_module ms name rest)"

definition EnvFindDefmodule :: "string \<Rightarrow> env \<Rightarrow> pointer" where
  "EnvFindDefmodule name e = find_module (modules e) name (ListOfDefmodules e)"

text \<open>\<open>GetModuleName\<close> (\<open>argacces.c\<close>): the error flag and the module; \<open>*\<close> names
  all modules. \<open>GetConstructName\<close>: the name given as the only argument.\<close>

definition GetModuleName :: "string \<Rightarrow> nat \<Rightarrow> val list \<Rightarrow> env \<Rightarrow> bool \<times> pointer \<times> env" where
  "GetModuleName fname pos args e =
     (if length args < pos then (True, None, signal_error (NonexistantError pos) e)
      else case args ! (pos - 1) of
        SYMBOL s \<Rightarrow>
          (case EnvFindDefmodule s e of
             Some m \<Rightarrow> (False, Some m, e)
           | None \<Rightarrow> if s = ''*'' then (False, None, e)
                     else (True, None, print_message (ExpectedTypeError1 fname pos) e))
      | _ \<Rightarrow> (True, None, print_message (ExpectedTypeError1 fname pos) e))"

definition GetConstructName :: "string \<Rightarrow> val list \<Rightarrow> env \<Rightarrow> string option \<times> env" where
  "GetConstructName fname args e =
     (case args of
        [v] \<Rightarrow> (case v of SYMBOL s \<Rightarrow> (Some s, e)
                | _ \<Rightarrow> (None, print_message (ExpectedTypeError1 fname 1) e))
      | _ \<Rightarrow> (None, print_message (ExpectedCountError fname EXACTLY 1) e))"

definition GetCurrentModuleCommand :: "val list \<Rightarrow> env \<Rightarrow> val \<times> env" where
  "GetCurrentModuleCommand args e =
     (let e1 = snd (EnvArgCountCheck ''get-current-module'' EXACTLY 0 args e)
      in case CurrentModule e1 of
           None \<Rightarrow> (SYMBOL ''FALSE'', e1)
         | Some m \<Rightarrow> (SYMBOL (m_name (modules e1 m)), e1))"

definition SetCurrentModuleCommand :: "val list \<Rightarrow> env \<Rightarrow> val \<times> env" where
  "SetCurrentModuleCommand args e =
     (case CurrentModule e of
        None \<Rightarrow> (SYMBOL ''FALSE'', e)
      | Some old \<Rightarrow>
          (let def = SYMBOL (m_name (modules e old));
               (n, e1) = EnvArgCountCheck ''set-current-module'' EXACTLY 1 args e
           in if n = - 1 then (def, e1)
              else case EnvArgTypeCheck ''set-current-module'' 1 ty_SYMBOL args e1 of
                     (None, e2) \<Rightarrow> (def, e2)
                   | (Some v, e2) \<Rightarrow>
                       (case EnvFindDefmodule (DOToString v) e2 of
                          None \<Rightarrow> (def, print_message (CantFindItem ''defmodule'' (DOToString v)) e2)
                        | Some m \<Rightarrow> (def, EnvSetCurrentModule m e2))))"

section \<open>The focus stack\<close>

definition EnvFocus :: "addr \<Rightarrow> env \<Rightarrow> env" where
  "EnvFocus m e =
     (let e1 = EnvSetCurrentModule m e
      in if CurrentFocus e1 \<noteq> [] \<and> hd (CurrentFocus e1) = m then e1
         else e1\<lparr>CurrentFocus := m # CurrentFocus e1, FocusChanged := True\<rparr>)"

text \<open>The unlinking loop of \<open>RemoveFocus\<close>: whether the module was found, and the
  stack without its first occurrence.\<close>

fun unlink_focus :: "addr \<Rightarrow> addr list \<Rightarrow> bool \<times> addr list" where
  "unlink_focus m [] = (False, [])"
| "unlink_focus m (f # fs) =
     (if f = m then (True, fs)
      else (let (found, rest) = unlink_focus m fs in (found, f # rest)))"

definition RemoveFocus :: "addr \<Rightarrow> env \<Rightarrow> pointer \<times> env" where
  "RemoveFocus m e =
     (if CurrentFocus e = [] then (None, e)
      else
        (let (found, fs) = unlink_focus m (CurrentFocus e);
             currentFocusRemoved = (hd (CurrentFocus e) = m)
         in if \<not> found then (Some (hd (CurrentFocus e)), e)
            else
              (let e1 = e\<lparr>CurrentFocus := fs\<rparr>;
                   e2 = (if fs \<noteq> [] \<and> currentFocusRemoved
                         then EnvSetCurrentModule (hd fs) e1 else e1)
               in (Some m, e2\<lparr>FocusChanged := True\<rparr>))))"

definition EnvPopFocus :: "env \<Rightarrow> pointer \<times> env" where
  "EnvPopFocus e =
     (if CurrentFocus e = [] then (None, e) else RemoveFocus (hd (CurrentFocus e)) e)"

definition EnvGetFocus :: "env \<Rightarrow> pointer" where
  "EnvGetFocus e = (if CurrentFocus e = [] then None else Some (hd (CurrentFocus e)))"

text \<open>\<open>EnvGetNextFocus\<close> on a position of the stack (\<open>None\<close> asks for the top).\<close>

definition EnvGetNextFocus :: "env \<Rightarrow> nat option \<Rightarrow> nat option" where
  "EnvGetNextFocus e p =
     (let i = (case p of None \<Rightarrow> 0 | Some k \<Rightarrow> Suc k)
      in if i < length (CurrentFocus e) then Some i else None)"

lemma unlink_focus_hd: "unlink_focus m (m # fs) = (True, fs)"
  by simp

lemma EnvPopFocus_stack: "CurrentFocus (snd (EnvPopFocus e)) = tl (CurrentFocus e)"
  by (cases "CurrentFocus e")
     (auto simp: EnvPopFocus_def RemoveFocus_def EnvSetCurrentModule_def Let_def)

text \<open>The loop of \<open>EnvClearFocusStack\<close>.\<close>

function pop_all :: "env \<Rightarrow> env" where
  "pop_all e = (if CurrentFocus e \<noteq> [] then pop_all (snd (EnvPopFocus e)) else e)"
  by pat_completeness auto
termination
  by (relation "measure (\<lambda>e. length (CurrentFocus e))") (auto simp: EnvPopFocus_stack)

declare pop_all.simps [simp del]

definition EnvClearFocusStack :: "env \<Rightarrow> env" where
  "EnvClearFocusStack e = (pop_all e)\<lparr>FocusChanged := True\<rparr>"

text \<open>\<open>EnvGetFocusStack\<close>: the multifield of module names, top first.\<close>

definition EnvGetFocusStack :: "env \<Rightarrow> val" where
  "EnvGetFocusStack e = MULTIFIELD (map (\<lambda>m. SYMBOL (m_name (modules e m))) (CurrentFocus e))"

definition ClearFocusStackCommand :: "val list \<Rightarrow> env \<Rightarrow> env" where
  "ClearFocusStackCommand args e =
     (let (n, e1) = EnvArgCountCheck ''list-focus-stack'' EXACTLY 0 args e
      in if n = - 1 then e1 else EnvClearFocusStack e1)"

definition name_or_FALSE :: "env \<Rightarrow> pointer \<Rightarrow> val" where
  "name_or_FALSE e p =
     (case p of None \<Rightarrow> SYMBOL ''FALSE'' | Some m \<Rightarrow> SYMBOL (m_name (modules e m)))"

definition PopFocusFunction :: "val list \<Rightarrow> env \<Rightarrow> val \<times> env" where
  "PopFocusFunction args e =
     (let (n, e1) = EnvArgCountCheck ''pop-focus'' EXACTLY 0 args e;
          (m, e2) = EnvPopFocus e1
      in (name_or_FALSE e2 m, e2))"

definition GetFocusFunction :: "val list \<Rightarrow> env \<Rightarrow> val \<times> env" where
  "GetFocusFunction args e =
     (let (n, e1) = EnvArgCountCheck ''get-focus'' EXACTLY 0 args e
      in (name_or_FALSE e1 (EnvGetFocus e1), e1))"

text \<open>The loop of \<open>FocusCommand\<close>, from the last argument down to the first.\<close>

fun focus_loop :: "nat \<Rightarrow> val list \<Rightarrow> env \<Rightarrow> bool \<times> env" where
  "focus_loop 0 args e = (True, e)"
| "focus_loop (Suc i) args e =
     (case EnvArgTypeCheck ''focus'' (Suc i) ty_SYMBOL args e of
        (None, e1) \<Rightarrow> (False, e1)
      | (Some v, e1) \<Rightarrow>
          (case EnvFindDefmodule (DOToString v) e1 of
             None \<Rightarrow> (False, print_message (CantFindItem ''defmodule'' (DOToString v)) e1)
           | Some m \<Rightarrow> focus_loop i args (EnvFocus m e1)))"

definition FocusCommand :: "val list \<Rightarrow> env \<Rightarrow> bool \<times> env" where
  "FocusCommand args e =
     (let (n, e1) = EnvArgCountCheck ''focus'' AT_LEAST 1 args e
      in if n = - 1 then (False, e1) else focus_loop (nat n) args e1)"

definition EnvGetFocusChanged :: "env \<Rightarrow> bool" where
  "EnvGetFocusChanged e = FocusChanged e"

definition EnvSetFocusChanged :: "bool \<Rightarrow> env \<Rightarrow> env" where
  "EnvSetFocusChanged v e = e\<lparr>FocusChanged := v\<rparr>"

end
