(* ===== verification/Modules.thy ===== *)
theory Modules
  imports Focus
begin

text \<open>
  Names of constructs and modules, \<open>modulutl.c\<close> and the lookup of \<open>cstrccom.c\<close>:
  splitting a name at \<open>::\<close>, finding a rule in a module, and the search through the
  import graph. The search is shown to end, to visit exactly the modules that the
  imports and exports make visible, and to count exactly those that define the
  name, so that the ambiguity test of the lookup is exact.
\<close>

section \<open>Names\<close>

text \<open>The scan for two colons in a row: the position of the second, or 0.\<close>

fun scan_colons :: "nat \<Rightarrow> bool \<Rightarrow> string \<Rightarrow> nat" where
  "scan_colons i foundColon [] = 0"
| "scan_colons i foundColon (c # cs) =
     (if c = CHR '':'' then (if foundColon then i else scan_colons (Suc i) True cs)
      else scan_colons (Suc i) False cs)"

definition FindModuleSeparator :: "string \<Rightarrow> nat" where
  "FindModuleSeparator s = scan_colons 0 False s"

definition ExtractModuleName :: "nat \<Rightarrow> string \<Rightarrow> string option" where
  "ExtractModuleName pos s = (if pos \<le> 1 then None else Some (take (pos - 1) s))"

definition ExtractConstructName :: "nat \<Rightarrow> string \<Rightarrow> string option" where
  "ExtractConstructName pos s =
     (if pos = 0 then Some s
      else if length s \<le> pos + 1 then None
      else Some (drop (pos + 1) s))"

definition ExtractModuleAndConstructName :: "string \<Rightarrow> env \<Rightarrow> string option \<times> env" where
  "ExtractModuleAndConstructName name e =
     (let pos = FindModuleSeparator name
      in if pos = 0 then (Some name, e)
         else case ExtractModuleName pos name of
                None \<Rightarrow> (None, e)
              | Some mn \<Rightarrow>
                  (case EnvFindDefmodule mn e of
                     None \<Rightarrow> (None, e)
                   | Some m \<Rightarrow> (ExtractConstructName pos name, EnvSetCurrentModule m e)))"

section \<open>Lookup in one module\<close>

definition current_rules :: "env \<Rightarrow> addr list" where
  "current_rules e = (case CurrentModule e of None \<Rightarrow> [] | Some m \<Rightarrow> m_rules (modules e m))"

text \<open>The tests on the symbol table before the loop only skip names that no construct
  has: the name of a construct is a symbol with a positive count.\<close>

definition FindNamedConstructInModule :: "string \<Rightarrow> env \<Rightarrow> pointer \<times> env" where
  "FindNamedConstructInModule name e =
     (let e1 = SaveCurrentModule e;
          (cn, e2) = ExtractModuleAndConstructName name e1
      in case cn of
           None \<Rightarrow> (None, RestoreCurrentModule e2)
         | Some n \<Rightarrow> (find (\<lambda>r. r_name (rules e2 r) = n) (current_rules e2),
                      RestoreCurrentModule e2))"

definition EnvFindDefruleInModule :: "string \<Rightarrow> env \<Rightarrow> pointer" where
  "EnvFindDefruleInModule name e = fst (FindNamedConstructInModule name e)"

section \<open>Search through imports\<close>

definition port_allows :: "string \<Rightarrow> string \<Rightarrow> portItem \<Rightarrow> bool" where
  "port_allows ct nm p \<longleftrightarrow>
     (p_constructType p = None \<or> p_constructType p = Some ct) \<and>
     (p_constructName p = None \<or> p_constructName p = Some nm)"

text \<open>The module an import item leads to, when the import covers the construct, the
  module exists and exports the construct.\<close>

definition import_target :: "env \<Rightarrow> string \<Rightarrow> string \<Rightarrow> portItem \<Rightarrow> pointer" where
  "import_target e ct nm p =
     (if port_allows ct nm p
      then (case EnvFindDefmodule (p_moduleName p) e of
              None \<Rightarrow> None
            | Some m \<Rightarrow> if list_ex (port_allows ct nm) (exportList (modules e m)) then Some m else None)
      else None)"

text \<open>What the search looks for: the kind and name of the construct, the flags of
  the C parameters, the find function of the construct and the module of what it
  finds.\<close>

record search_args =
  constructType :: string
  findName :: string
  matchModule :: pointer
  searchCurrent :: bool
  notYetDefinedInModule :: pointer
  findFunction :: "string \<Rightarrow> env \<Rightarrow> pointer"
  whichModule :: "addr \<Rightarrow> addr"

text \<open>The part of \<open>SearchImportedConstructModules\<close> that looks into one module.\<close>

definition look_in :: "env \<Rightarrow> search_args \<Rightarrow> addr \<Rightarrow> nat \<Rightarrow> pointer \<times> nat" where
  "look_in e s m cnt =
     (if searchCurrent s \<and> (matchModule s = None \<or> matchModule s = Some m) then
        (let rv = findFunction s (findName s) (e\<lparr>CurrentModule := Some m\<rparr>)
         in if notYetDefinedInModule s = Some m then (rv, cnt + 1)
            else case rv of
                   None \<Rightarrow> (None, cnt)
                 | Some c \<Rightarrow> (rv, if whichModule s c = m then cnt + 1 else cnt))
      else (None, cnt))"

text \<open>The search and its loop over the import list. \<open>visited\<close> holds the modules with
  \<open>visitedFlag\<close> set. The recursion enters an unvisited module each time, so a fuel
  of one more than the number of modules is enough; \<open>None\<close> is running out of it.\<close>

fun SearchImportedConstructModules ::
    "nat \<Rightarrow> env \<Rightarrow> search_args \<Rightarrow> addr \<Rightarrow> addr list \<Rightarrow> nat \<Rightarrow> (pointer \<times> addr list \<times> nat) option"
  and search_imports ::
    "nat \<Rightarrow> env \<Rightarrow> search_args \<Rightarrow> portItem list \<Rightarrow> pointer \<Rightarrow> addr list \<Rightarrow> nat
       \<Rightarrow> (pointer \<times> addr list \<times> nat) option" where
  "SearchImportedConstructModules 0 e s m visited cnt = None"
| "SearchImportedConstructModules (Suc fuel) e s m visited cnt =
     (if m \<in> set visited then Some (None, visited, cnt)
      else (let (arv, cnt') = look_in e s m cnt
            in search_imports fuel e s (importList (modules e m)) arv (m # visited) cnt'))"
| "search_imports fuel e s [] arv visited cnt = Some (arv, visited, cnt)"
| "search_imports fuel e s (p # ps) arv visited cnt =
     (case import_target e (constructType s) (findName s) p of
        None \<Rightarrow> search_imports fuel e s ps arv visited cnt
      | Some m \<Rightarrow>
          (case SearchImportedConstructModules fuel e (s\<lparr>searchCurrent := True\<rparr>) m visited cnt of
             None \<Rightarrow> None
           | Some (rv, visited', cnt') \<Rightarrow>
               search_imports fuel e s ps (if rv \<noteq> None then rv else arv) visited' cnt'))"

definition FindImportedConstruct :: "search_args \<Rightarrow> env \<Rightarrow> (pointer \<times> nat) option" where
  "FindImportedConstruct s e =
     (if FindModuleSeparator (findName s) \<noteq> 0 then Some (None, 0)
      else case CurrentModule e of
             None \<Rightarrow> Some (None, 0)
           | Some m \<Rightarrow>
               map_option (\<lambda>(rv, visited, cnt). (rv, cnt))
                 (SearchImportedConstructModules (Suc (length (ListOfDefmodules e)))
                    (SaveCurrentModule e) s m [] 0))"

definition defrule_args :: "string \<Rightarrow> env \<Rightarrow> search_args" where
  "defrule_args name e =
     \<lparr>constructType = ''defrule'', findName = name, matchModule = None, searchCurrent = True,
      notYetDefinedInModule = None, findFunction = EnvFindDefruleInModule,
      whichModule = (\<lambda>r. r_module (rules e r))\<rparr>"

text \<open>\<open>FindNamedConstructInModuleOrImports\<close> for rules. The outer \<open>None\<close>, out of
  fuel, does not occur.\<close>

definition EnvFindDefrule :: "string \<Rightarrow> env \<Rightarrow> (pointer \<times> env) option" where
  "EnvFindDefrule name e =
     (let (p, e1) = FindNamedConstructInModule name e
      in if p \<noteq> None then Some (p, e1)
         else if FindModuleSeparator name \<noteq> 0 then Some (None, e1)
         else case FindImportedConstruct (defrule_args name e1) e1 of
                None \<Rightarrow> None
              | Some (q, cnt) \<Rightarrow>
                  if cnt > 1
                  then Some (None, print_message (AmbiguousReferenceErrorMessage ''defrule'' name) e1)
                  else Some (q, e1))"

definition ConstructExported :: "string \<Rightarrow> string \<Rightarrow> string \<Rightarrow> env \<Rightarrow> bool" where
  "ConstructExported ct mn nm e =
     (case EnvFindDefmodule mn e of
        None \<Rightarrow> False
      | Some m \<Rightarrow> list_ex (port_allows ct nm) (exportList (modules e m)))"

text \<open>A missing module is a null dereference in the code.\<close>

definition AllImportedModulesVisited :: "env \<Rightarrow> addr list \<Rightarrow> addr \<Rightarrow> bool option" where
  "AllImportedModulesVisited e visited m =
     fold (\<lambda>p r. case r of
             Some True \<Rightarrow> map_option (\<lambda>k. k \<in> set visited) (EnvFindDefmodule (p_moduleName p) e)
           | _ \<Rightarrow> r)
       (importList (modules e m)) (Some True)"

section \<open>Listing the constructs of modules\<close>

text \<open>The loop over the constructs of the current module: whether it was left by the
  halt test, the number of constructs seen, the output. The halt test is made before
  each construct. The listing is by name (\<open>nameFunction\<close> not null).\<close>

fun list_constructs ::
  "(addr \<Rightarrow> env \<Rightarrow> string) \<Rightarrow> (addr \<Rightarrow> env \<Rightarrow> bool) \<Rightarrow> addr list \<Rightarrow> nat \<Rightarrow> env
     \<Rightarrow> bool \<times> nat \<times> env" where
  "list_constructs nameFunction doIt [] n e = (False, n, e)"
| "list_constructs nameFunction doIt (c # cs) n e =
     (if HaltExecution e then (True, n, e)
      else list_constructs nameFunction doIt cs (n + 1)
             (if doIt c e then print_message (ListItem (nameFunction c e)) e else e))"

fun list_modules ::
  "(env \<Rightarrow> addr list) \<Rightarrow> (addr \<Rightarrow> env \<Rightarrow> string) \<Rightarrow> (addr \<Rightarrow> env \<Rightarrow> bool) \<Rightarrow> bool \<Rightarrow> addr list
     \<Rightarrow> nat \<Rightarrow> env \<Rightarrow> bool \<times> nat \<times> env" where
  "list_modules items nameFunction doIt allModules [] n e = (False, n, e)"
| "list_modules items nameFunction doIt allModules (m # ms) n e =
     (let e1 = (if allModules then print_message (ListItem (m_name (modules e m) @ '':'')) e else e);
          e2 = EnvSetCurrentModule m e1;
          (halted, n', e3) = list_constructs nameFunction doIt (items e2) n e2
      in if halted then (True, n', e3)
         else list_modules items nameFunction doIt allModules ms n' e3)"

definition ListItemsDriver ::
  "(env \<Rightarrow> addr list) \<Rightarrow> (addr \<Rightarrow> env \<Rightarrow> string) \<Rightarrow> (addr \<Rightarrow> env \<Rightarrow> bool) \<Rightarrow> bool \<Rightarrow> pointer
     \<Rightarrow> env \<Rightarrow> env" where
  "ListItemsDriver items nameFunction doIt tally theModule e =
     (let e1 = SaveCurrentModule e;
          ms = (case theModule of None \<Rightarrow> ListOfDefmodules e1 | Some m \<Rightarrow> [m]);
          (halted, n, e2) = list_modules items nameFunction doIt (theModule = None) ms 0 e1
      in if halted then e2
         else RestoreCurrentModule (if tally then print_message (Tally n) e2 else e2))"

text \<open>\<open>DoForAllModules\<close>: the action gets the module and the environment.\<close>

fun all_modules_loop ::
  "(addr \<Rightarrow> env \<Rightarrow> env) \<Rightarrow> bool \<Rightarrow> addr list \<Rightarrow> nat \<Rightarrow> env \<Rightarrow> int \<times> env" where
  "all_modules_loop act interruptable [] n e = (int n, RestoreCurrentModule e)"
| "all_modules_loop act interruptable (m # ms) n e =
     (let e1 = EnvSetCurrentModule m e
      in if interruptable \<and> HaltExecution e1 then (- 1, RestoreCurrentModule e1)
         else all_modules_loop act interruptable ms (n + 1) (act m e1))"

definition DoForAllModules :: "(addr \<Rightarrow> env \<Rightarrow> env) \<Rightarrow> bool \<Rightarrow> env \<Rightarrow> int \<times> env" where
  "DoForAllModules act interruptable e =
     all_modules_loop act interruptable (ListOfDefmodules e) 0 (SaveCurrentModule e)"

lemma list_constructs_frame:
  "ModuleStack (snd (snd (list_constructs nf doIt cs n e))) = ModuleStack e"
  "HaltExecution (snd (snd (list_constructs nf doIt cs n e))) = HaltExecution e"
  "fst (list_constructs nf doIt cs n e) \<longleftrightarrow> HaltExecution e \<and> cs \<noteq> []"
  by (induction cs arbitrary: n e) (auto simp: print_message_def)

lemma list_modules_frame:
  "ModuleStack (snd (snd (list_modules items nf doIt all ms n e))) = ModuleStack e"
  "HaltExecution (snd (snd (list_modules items nf doIt all ms n e))) = HaltExecution e"
  "\<not> HaltExecution e \<Longrightarrow> \<not> fst (list_modules items nf doIt all ms n e)"
  by (induction ms arbitrary: n e)
     (auto simp: Let_def case_prod_beta list_constructs_frame EnvSetCurrentModule_def
       print_message_def)

section \<open>Splitting names\<close>

lemma scan_colons_append:
  "scan_colons i f (xs @ [CHR '':'']) = 0 \<Longrightarrow> f \<longrightarrow> 0 < i \<Longrightarrow> \<not> f \<or> xs \<noteq> [] \<Longrightarrow>
   scan_colons i f (xs @ CHR '':'' # CHR '':'' # ys) = i + length xs + 1"
proof (induction xs arbitrary: i f)
  case (Cons x xs)
  show ?case
  proof (cases "xs = [] \<and> x = CHR '':''")
    case True
    then show ?thesis using Cons.prems by (auto split: if_splits)
  next
    case False
    then show ?thesis using Cons.prems Cons.IH [of "Suc i" "x = CHR '':''"]
      by (auto split: if_splits)
  qed
qed simp

lemma FindModuleSeparator_append:
  "FindModuleSeparator (m @ '':'') = 0 \<Longrightarrow>
   FindModuleSeparator (m @ ''::'' @ c) = length m + 1"
  using scan_colons_append [of 0 False m c] by (simp add: FindModuleSeparator_def)

lemma Save_Restore: "RestoreCurrentModule ((SaveCurrentModule e)\<lparr>CurrentModule := m\<rparr>) = e"
  by (simp add: RestoreCurrentModule_def SaveCurrentModule_def)

lemma ExtractModuleAndConstructName_saved:
  "\<exists>m. snd (ExtractModuleAndConstructName name (SaveCurrentModule e)) =
     (SaveCurrentModule e)\<lparr>CurrentModule := m\<rparr>"
proof -
  have "\<exists>m. SaveCurrentModule e = (SaveCurrentModule e)\<lparr>CurrentModule := m\<rparr>"
    by (rule exI [of _ "CurrentModule e"]) (simp add: SaveCurrentModule_def)
  moreover have "EnvSetCurrentModule m (SaveCurrentModule e) =
      (SaveCurrentModule e)\<lparr>CurrentModule := Some m\<rparr>" for m
    by (simp add: EnvSetCurrentModule_def SaveCurrentModule_def)
  ultimately show ?thesis
    by (auto simp: ExtractModuleAndConstructName_def Let_def split: option.split)
qed

lemma FindNamedConstructInModule_env: "snd (FindNamedConstructInModule name e) = e"
  using ExtractModuleAndConstructName_saved [of name e] Save_Restore
  by (auto simp: FindNamedConstructInModule_def Let_def case_prod_beta split: option.split)

section \<open>The import graph\<close>

definition imports_from :: "env \<Rightarrow> search_args \<Rightarrow> addr \<Rightarrow> addr \<Rightarrow> bool" where
  "imports_from e s m k \<longleftrightarrow> (\<exists>p \<in> set (importList (modules e m)).
     import_target e (constructType s) (findName s) p = Some k)"

text \<open>The modules whose definitions of the construct are visible from a module.\<close>

inductive visible_from :: "env \<Rightarrow> search_args \<Rightarrow> addr \<Rightarrow> addr \<Rightarrow> bool" for e s where
  here: "visible_from e s m m"
| there: "imports_from e s m k \<Longrightarrow> visible_from e s k n \<Longrightarrow> visible_from e s m n"

definition found_in :: "env \<Rightarrow> search_args \<Rightarrow> addr \<Rightarrow> pointer" where
  "found_in e s m = findFunction s (findName s) (e\<lparr>CurrentModule := Some m\<rparr>)"

definition defined_in :: "env \<Rightarrow> search_args \<Rightarrow> addr \<Rightarrow> bool" where
  "defined_in e s m \<longleftrightarrow> (case found_in e s m of None \<Rightarrow> False | Some c \<Rightarrow> whichModule s c = m)"

definition plain_search :: "search_args \<Rightarrow> bool" where
  "plain_search s \<longleftrightarrow> searchCurrent s \<and> matchModule s = None \<and> notYetDefinedInModule s = None"

lemma plain_search_current: "plain_search s \<Longrightarrow> s\<lparr>searchCurrent := True\<rparr> = s"
  by (simp add: plain_search_def)

lemma look_in_plain:
  "plain_search s \<Longrightarrow> look_in e s m c = (found_in e s m, if defined_in e s m then c + 1 else c)"
  by (auto simp: look_in_def plain_search_def defined_in_def found_in_def split: option.split)

text \<open>What one call adds: new modules, closed under imports, each counted once.\<close>

definition grows :: "env \<Rightarrow> search_args \<Rightarrow> addr list \<Rightarrow> nat \<Rightarrow> addr list \<Rightarrow> addr list \<Rightarrow> nat \<Rightarrow> bool" where
  "grows e s vis c new vis' c' \<longleftrightarrow> vis' = new @ vis \<and> distinct vis' \<and>
     (\<forall>x \<in> set new. \<forall>y. imports_from e s x y \<longrightarrow> y \<in> set vis') \<and>
     c' = c + length (filter (defined_in e s) new)"

lemma grows_trans:
  assumes "grows e s vis c new1 vis1 c1" and "grows e s vis1 c1 new2 vis2 c2"
  shows "grows e s vis c (new2 @ new1) vis2 c2"
  using assms by (auto simp: grows_def) blast+

lemma grows_head:
  assumes "grows e s (m # vis) (if defined_in e s m then c + 1 else c) new vis' c'"
    and "\<forall>y. imports_from e s m y \<longrightarrow> y \<in> set vis'"
  shows "grows e s vis c (new @ [m]) vis' c'"
  using assms by (auto simp: grows_def) blast

lemma search_spec:
  "plain_search s \<Longrightarrow> distinct vis \<Longrightarrow>
     SearchImportedConstructModules fuel e s m vis c = Some r \<Longrightarrow>
     \<exists>new. grows e s vis c new (fst (snd r)) (snd (snd r)) \<and> m \<in> set (fst (snd r)) \<and>
       (\<forall>x \<in> set new. visible_from e s m x) \<and> (fst r \<noteq> None \<longrightarrow> fst r \<in> found_in e s ` set new)"
  "plain_search s \<Longrightarrow> distinct vis \<Longrightarrow>
     search_imports fuel e s ps arv vis c = Some r \<Longrightarrow>
     \<exists>new. grows e s vis c new (fst (snd r)) (snd (snd r)) \<and>
       (\<forall>p \<in> set ps. \<forall>t. import_target e (constructType s) (findName s) p = Some t \<longrightarrow>
          t \<in> set (fst (snd r))) \<and>
       (\<forall>x \<in> set new. \<exists>p \<in> set ps. \<exists>t.
          import_target e (constructType s) (findName s) p = Some t \<and> visible_from e s t x) \<and>
       (fst r = arv \<or> fst r \<in> found_in e s ` set new)"
proof (induction fuel e s m vis c and fuel e s ps arv vis c
    arbitrary: r and r rule: SearchImportedConstructModules_search_imports.induct)
  case (2 fuel e s m visited cnt)
  show ?case
  proof (cases "m \<in> set visited")
    case True
    then show ?thesis using 2(4) 2(3) by (auto simp: grows_def)
  next
    case False
    have l: "look_in e s m cnt = (found_in e s m, if defined_in e s m then cnt + 1 else cnt)"
      by (rule look_in_plain [OF 2(2)])
    have si: "search_imports fuel e s (importList (modules e m)) (found_in e s m) (m # visited)
        (if defined_in e s m then cnt + 1 else cnt) = Some r"
      using 2(4) False l by simp
    have "distinct (m # visited)" using 2(3) False by simp
    from 2(1) [OF False l [symmetric] refl 2(2) this si]
    obtain new where new: "grows e s (m # visited) (if defined_in e s m then cnt + 1 else cnt) new
        (fst (snd r)) (snd (snd r))"
      "\<forall>p \<in> set (importList (modules e m)). \<forall>t. import_target e (constructType s) (findName s) p = Some t \<longrightarrow>
          t \<in> set (fst (snd r))"
      "\<forall>x \<in> set new. \<exists>p \<in> set (importList (modules e m)). \<exists>t.
          import_target e (constructType s) (findName s) p = Some t \<and> visible_from e s t x"
      "fst r = found_in e s m \<or> fst r \<in> found_in e s ` set new" by blast
    have "grows e s visited cnt (new @ [m]) (fst (snd r)) (snd (snd r))"
      using new(2) by (intro grows_head [OF new(1)]) (auto simp: imports_from_def)
    moreover have "m \<in> set (fst (snd r))" using new(1) by (auto simp: grows_def)
    moreover have "visible_from e s m x" if x: "x \<in> set (new @ [m])" for x
    proof (cases "x = m")
      case False
      then obtain p t where "p \<in> set (importList (modules e m))"
        "import_target e (constructType s) (findName s) p = Some t" "visible_from e s t x"
        using x new(3) by auto
      then show ?thesis by (intro there [of e s m t x]) (auto simp: imports_from_def)
    qed (simp add: here)
    ultimately show ?thesis using new(4) by (intro exI [of _ "new @ [m]"]) auto
  qed
next
  case (3 fuel e s arv visited cnt)
  then show ?case by (auto simp: grows_def)
next
  case (4 fuel e s p ps arv visited cnt)
  show ?case
  proof (cases "import_target e (constructType s) (findName s) p")
    case None
    then show ?thesis using 4(1) [OF None 4(4,5), of r] 4(6) by auto
  next
    case (Some t)
    note cur = plain_search_current [OF 4(4)]
    obtain q where q: "SearchImportedConstructModules fuel e s t visited cnt = Some q"
      using 4(6) Some cur by (auto split: option.splits)
    obtain rv v1 c1 where qq: "q = (rv, v1, c1)" by (cases q) auto
    from 4(2) [OF Some] 4(4,5) q cur qq
    obtain new1 where n1: "grows e s visited cnt new1 v1 c1" "t \<in> set v1"
      "\<forall>x \<in> set new1. visible_from e s t x" "rv \<noteq> None \<longrightarrow> rv \<in> found_in e s ` set new1"
      by fastforce
    have d1: "distinct v1" using n1(1) unfolding grows_def by blast
    have "search_imports fuel e s ps (if rv \<noteq> None then rv else arv) v1 c1 = Some r"
      using 4(6) Some cur q qq by simp
    with 4(3) [OF Some, of "(rv, v1, c1)" rv "(v1, c1)" v1 c1 r] 4(4) d1 q qq cur
    obtain new2 where n2: "grows e s v1 c1 new2 (fst (snd r)) (snd (snd r))"
       "\<forall>p \<in> set ps. \<forall>t. import_target e (constructType s) (findName s) p = Some t \<longrightarrow>
          t \<in> set (fst (snd r))"
       "\<forall>x \<in> set new2. \<exists>p \<in> set ps. \<exists>t.
          import_target e (constructType s) (findName s) p = Some t \<and> visible_from e s t x"
       "fst r = (if rv \<noteq> None then rv else arv) \<or> fst r \<in> found_in e s ` set new2"
      by auto
    have "t \<in> set (fst (snd r))" using n1(2) n2(1) by (auto simp: grows_def)
    then show ?thesis using grows_trans [OF n1(1) n2(1)] n1(3,4) n2(2,3,4) Some
      by (intro exI [of _ "new2 @ new1"]) (auto split: if_splits)
  qed
qed simp

text \<open>Import items lead to modules of the list, so the fuel suffices.\<close>

lemma import_target_listed:
  "import_target e ct nm p = Some m \<Longrightarrow> m \<in> set (ListOfDefmodules e)"
proof -
  assume "import_target e ct nm p = Some m"
  then have "find_module (modules e) (p_moduleName p) (ListOfDefmodules e) = Some m"
    by (auto simp: import_target_def EnvFindDefmodule_def split: if_splits option.splits)
  moreover have "find_module ms n L = Some m \<Longrightarrow> m \<in> set L" for ms n L
    by (induction L) (auto split: if_splits)
  ultimately show ?thesis by blast
qed

lemma search_returns:
  "plain_search s \<Longrightarrow> distinct vis \<Longrightarrow> m \<in> set (ListOfDefmodules e) \<Longrightarrow>
     card (set (ListOfDefmodules e) - set vis) < fuel \<Longrightarrow>
     SearchImportedConstructModules fuel e s m vis c \<noteq> None"
  "plain_search s \<Longrightarrow> distinct vis \<Longrightarrow>
     card (set (ListOfDefmodules e) - set vis) < fuel \<Longrightarrow>
     search_imports fuel e s ps arv vis c \<noteq> None"
proof (induction fuel e s m vis c and fuel e s ps arv vis c
    rule: SearchImportedConstructModules_search_imports.induct)
  case (2 fuel e s m visited cnt)
  show ?case
  proof (cases "m \<in> set visited")
    case False
    let ?L = "set (ListOfDefmodules e)"
    have l: "look_in e s m cnt = (found_in e s m, if defined_in e s m then cnt + 1 else cnt)"
      by (rule look_in_plain [OF 2(2)])
    have "?L - set (m # visited) = (?L - set visited) - {m}" by auto
    moreover have "m \<in> ?L - set visited" using 2(4) False by simp
    then have "0 < card (?L - set visited)" by (auto simp: card_gt_0_iff)
    ultimately have "card (?L - set (m # visited)) < fuel"
      using 2(4,5) False by (simp add: card_Diff_singleton_if)
    then show ?thesis using 2(1) [OF False l [symmetric] refl 2(2)] 2(3) False l by simp
  qed simp
next
  case (4 fuel e s p ps arv visited cnt)
  show ?case
  proof (cases "import_target e (constructType s) (findName s) p")
    case None
    then show ?thesis using 4(1) [OF None 4(4,5,6)] by simp
  next
    case (Some t)
    note cur = plain_search_current [OF 4(4)]
    have "SearchImportedConstructModules fuel e s t visited cnt \<noteq> None"
      using 4(2) [OF Some] 4(4,5,6) import_target_listed [OF Some] cur by simp
    then obtain rv v1 c1 where q: "SearchImportedConstructModules fuel e s t visited cnt = Some (rv, v1, c1)"
      by auto
    obtain new where "grows e s visited cnt new v1 c1"
      using search_spec(1) [OF 4(4,5) q] by auto
    then have v1: "distinct v1" "set visited \<subseteq> set v1" by (auto simp: grows_def)
    have "card (set (ListOfDefmodules e) - set v1) < fuel"
      using 4(6) v1(2) by (meson Diff_mono card_mono finite_Diff finite_set le_less_trans order_refl)
    then have "search_imports fuel e s ps (if rv \<noteq> None then rv else arv) v1 c1 \<noteq> None"
      using 4(3) [OF Some, of "(rv, v1, c1)" rv "(v1, c1)" v1 c1] 4(4) v1(1) q cur by simp
    then show ?thesis using q cur Some by simp
  qed
qed simp_all

text \<open>The search from nothing visited: it ends, visits exactly what is visible and
  counts the modules that define the construct.\<close>

lemma search_complete:
  assumes s: "plain_search s" and m: "m \<in> set (ListOfDefmodules e)"
  obtains rv vis where
    "SearchImportedConstructModules (Suc (length (ListOfDefmodules e))) e s m [] 0 =
       Some (rv, vis, length (filter (defined_in e s) vis))"
    "distinct vis" "set vis = {x. visible_from e s m x}"
    "rv \<noteq> None \<longrightarrow> rv \<in> found_in e s ` set vis"
proof -
  let ?n = "Suc (length (ListOfDefmodules e))"
  have "card (set (ListOfDefmodules e) - set []) < ?n" using card_length [of "ListOfDefmodules e"] by simp
  then have "SearchImportedConstructModules ?n e s m [] 0 \<noteq> None"
    by (intro search_returns(1) [OF s]) (simp_all add: m)
  then obtain rv vis c where r: "SearchImportedConstructModules ?n e s m [] 0 = Some (rv, vis, c)"
    by auto
  from search_spec(1) [OF s _ r] obtain new where new: "grows e s [] 0 new vis c" "m \<in> set vis"
    "\<forall>x \<in> set new. visible_from e s m x" "rv \<noteq> None \<longrightarrow> rv \<in> found_in e s ` set new" by auto
  have vis: "vis = new" "distinct vis" "c = length (filter (defined_in e s) vis)"
    and closed: "\<forall>x \<in> set vis. \<forall>y. imports_from e s x y \<longrightarrow> y \<in> set vis"
    using new(1) by (auto simp: grows_def)
  have "visible_from e s k x \<Longrightarrow> k \<in> set vis \<Longrightarrow> x \<in> set vis" for k x
    by (induction rule: visible_from.induct) (use closed in auto)
  then have "set vis = {x. visible_from e s m x}" using new(2,3) vis(1) by auto
  then show thesis using that r vis new(4) by auto
qed

lemma defrule_args_plain: "plain_search (defrule_args name e)"
  by (simp add: plain_search_def defrule_args_def)

lemma EnvFindDefrule_returns:
  assumes "\<forall>m. CurrentModule e = Some m \<longrightarrow> m \<in> set (ListOfDefmodules e)"
  shows "EnvFindDefrule name e \<noteq> None"
proof -
  have "FindImportedConstruct (defrule_args name e) e \<noteq> None"
  proof (cases "CurrentModule e")
    case (Some m)
    have "m \<in> set (ListOfDefmodules (SaveCurrentModule e))"
      using assms Some by (simp add: SaveCurrentModule_def)
    from search_complete [OF defrule_args_plain [of name e] this]
    obtain rv vis c where "SearchImportedConstructModules
        (Suc (length (ListOfDefmodules (SaveCurrentModule e)))) (SaveCurrentModule e)
        (defrule_args name e) m [] 0 = Some (rv, vis, c)" by metis
    moreover have "ListOfDefmodules (SaveCurrentModule e) = ListOfDefmodules e"
      by (simp add: SaveCurrentModule_def)
    ultimately show ?thesis using Some
      by (simp add: FindImportedConstruct_def del: SearchImportedConstructModules.simps)
  qed (simp add: FindImportedConstruct_def)
  then show ?thesis using FindNamedConstructInModule_env [of name e]
    by (auto simp: EnvFindDefrule_def Let_def case_prod_beta split: option.split)
qed

end
