(* ===== verification/Agenda.thy ===== *)
theory Agenda
  imports Strategy Modules
begin

text \<open>
  The agenda, \<open>agenda.c\<close>, with the strategy switch of \<open>crstrtgy.c\<close>. An activation
  enters through \<open>AddActivation\<close> and leaves through \<open>RemoveActivation\<close> or
  \<open>DetachActivation\<close>. Two inputs are parameters: \<open>genrand\<close> (the random number
  given to an activation) and the value of a salience expression. Not modelled: the
  trace output of \<open>watch activations\<close>. The invariant and the properties are in
  \<open>Agenda_Invariant\<close>.
\<close>

section \<open>Salience\<close>

abbreviation (input) WHEN_DEFINED :: int where "WHEN_DEFINED \<equiv> 0"
abbreviation (input) WHEN_ACTIVATED :: int where "WHEN_ACTIVATED \<equiv> 1"
abbreviation (input) EVERY_CYCLE :: int where "EVERY_CYCLE \<equiv> 2"
abbreviation (input) MAX_DEFRULE_SALIENCE :: int where "MAX_DEFRULE_SALIENCE \<equiv> 10000"
abbreviation (input) MIN_DEFRULE_SALIENCE :: int where "MIN_DEFRULE_SALIENCE \<equiv> - 10000"

text \<open>The evaluation of a salience expression (\<open>EvaluateExpression\<close>): \<open>None\<close> when
  it ends with the evaluation error raised. It reads the environment and leaves the
  agenda alone.\<close>

type_synonym evaluator = "env \<Rightarrow> addr \<Rightarrow> val option"

definition EnvGetSalienceEvaluation :: "env \<Rightarrow> int" where
  "EnvGetSalienceEvaluation e = SalienceEvaluation e"

definition EnvSetSalienceEvaluation :: "int \<Rightarrow> env \<Rightarrow> int \<times> env" where
  "EnvSetSalienceEvaluation v e = (SalienceEvaluation e, e\<lparr>SalienceEvaluation := v\<rparr>)"

definition SalienceEvaluationName :: "int \<Rightarrow> string" where
  "SalienceEvaluationName s =
     (if s = WHEN_DEFINED then ''when-defined''
      else if s = WHEN_ACTIVATED then ''when-activated''
      else if s = EVERY_CYCLE then ''every-cycle'' else ''unknown'')"

definition SetSalienceEvaluationCommand :: "val list \<Rightarrow> env \<Rightarrow> val \<times> env" where
  "SetSalienceEvaluationCommand args e =
     (let old = SYMBOL (SalienceEvaluationName (SalienceEvaluation e));
          (n, e1) = EnvArgCountCheck ''set-salience-evaluation'' EXACTLY 1 args e
      in if n = - 1 then (old, e1)
         else case EnvArgTypeCheck ''set-salience-evaluation'' 1 ty_SYMBOL args e1 of
           (None, e2) \<Rightarrow> (old, e2)
         | (Some v, e2) \<Rightarrow>
             (if DOToString v = ''when-defined''
              then (old, snd (EnvSetSalienceEvaluation WHEN_DEFINED e2))
              else if DOToString v = ''when-activated''
              then (old, snd (EnvSetSalienceEvaluation WHEN_ACTIVATED e2))
              else if DOToString v = ''every-cycle''
              then (old, snd (EnvSetSalienceEvaluation EVERY_CYCLE e2))
              else (old, print_message (ExpectedTypeError1 ''set-salience-evaluation'' 1) e2)))"

definition GetSalienceEvaluationCommand :: "val list \<Rightarrow> env \<Rightarrow> val \<times> env" where
  "GetSalienceEvaluationCommand args e =
     (let (n, e1) = EnvArgCountCheck ''get-salience-evaluation'' EXACTLY 0 args e
      in (SYMBOL (SalienceEvaluationName (EnvGetSalienceEvaluation e1)), e1))"

definition EvaluateSalience :: "evaluator \<Rightarrow> addr \<Rightarrow> env \<Rightarrow> int \<times> env" where
  "EvaluateSalience ev r e =
     (let rule = rules e r; name = r_name rule in
      if EnvGetSalienceEvaluation e = WHEN_DEFINED then (r_salience rule, e)
      else case dynamicSalience rule of
        None \<Rightarrow> (r_salience rule, e)
      | Some x \<Rightarrow>
          (let e1 = SetEvaluationError False e in
           case ev e1 x of
             None \<Rightarrow> (r_salience rule,
                      print_message (SalienceInformationError name) (SetEvaluationError True e1))
           | Some (INTEGER i) \<Rightarrow>
               (let s = to_int32 i in
                if s > MAX_DEFRULE_SALIENCE \<or> s < MIN_DEFRULE_SALIENCE
                then (r_salience rule, print_message (SalienceInformationError name)
                        (SetEvaluationError True (print_message SalienceRangeError e1)))
                else (s, set_rule r (rule\<lparr>r_salience := s\<rparr>) e1))
           | Some _ \<Rightarrow> (r_salience rule, SetEvaluationError True
                 (print_message (SalienceInformationError name)
                   (print_message SalienceNonIntegerError e1)))))"

section \<open>Salience groups\<close>

text \<open>The search loop shared by the group functions: the position where it stops and
  whether the group there has the salience.\<close>

fun scan_groups :: "int \<Rightarrow> nat \<Rightarrow> salienceGroup list \<Rightarrow> nat \<times> bool" where
  "scan_groups s i [] = (i, False)"
| "scan_groups s i (g # gs) =
     (if g_salience g = s then (i, True)
      else if g_salience g < s then (i, False)
      else scan_groups s (Suc i) gs)"

definition ReuseOrCreateSalienceGroup ::
  "int \<Rightarrow> salienceGroup list \<Rightarrow> nat \<times> salienceGroup list" where
  "ReuseOrCreateSalienceGroup s gs =
     (let (i, found) = scan_groups s 0 gs
      in if found then (i, gs)
         else (i, take i gs @ \<lparr>g_salience = s, g_first = None, g_last = None\<rparr> # drop i gs))"

definition FindSalienceGroup :: "int \<Rightarrow> salienceGroup list \<Rightarrow> nat option" where
  "FindSalienceGroup s gs =
     (let (i, found) = scan_groups s 0 gs in if found then Some i else None)"

definition next_of :: "activation \<Rightarrow> activation list \<Rightarrow> pointer" where
  "next_of a as = first_address (tl (chain_from (Some (address a)) as))"

definition prev_of :: "activation \<Rightarrow> activation list \<Rightarrow> pointer" where
  "prev_of a as = first_address (tl (chain_back (Some (address a)) as))"

definition RemoveActivationFromGroup ::
  "activation \<Rightarrow> defruleModule \<Rightarrow> salienceGroup list" where
  "RemoveActivationFromGroup a d =
     (let gs = groupings d in
      case FindSalienceGroup (salience a) gs of
        None \<Rightarrow> gs
      | Some i \<Rightarrow>
          (let g = gs ! i in
           if g_first g = Some (address a) then
             (if g_last g = Some (address a) then take i gs @ drop (Suc i) gs
              else gs[i := g\<lparr>g_first := next_of a (agenda d)\<rparr>])
           else if g_last g = Some (address a) then
             gs[i := g\<lparr>g_last := prev_of a (agenda d)\<rparr>]
           else gs))"

section \<open>Adding an activation\<close>

text \<open>Finding or making the group of an activation, then placing it.\<close>

definition place_new :: "addr \<Rightarrow> activation \<Rightarrow> env \<Rightarrow> env" where
  "place_new m a e =
     (let (i, gs) = ReuseOrCreateSalienceGroup (salience a) (groupings (module_item e m));
          e1 = set_item m ((module_item e m)\<lparr>groupings := gs\<rparr>) e
      in PlaceActivation m a i e1)"

definition AddActivation :: "evaluator \<Rightarrow> int \<Rightarrow> addr \<Rightarrow> addr \<Rightarrow> env \<Rightarrow> env" where
  "AddActivation ev rand r b e =
     (let e1 = (if autoFocus (rules e r) then EnvFocus (r_module (rules e r)) e else e);
          n = freeAddress e1;
          tag = CurrentTimetag e1;
          e2 = e1\<lparr>freeAddress := n + 1, CurrentTimetag := tag + 1\<rparr>;
          (s, e3) = EvaluateSalience ev r e2;
          a = \<lparr>address = n, theRule = r, basis = b, salience = s, timetag = tag,
               randomID = rand\<rparr>;
          e4 = e3\<lparr>NumberOfActivations := NumberOfActivations e3 + 1\<rparr>;
          e5 = set_match b ((matches e4 b)\<lparr>marker := Some n\<rparr>) e4
      in place_new (r_module (rules e5 r)) a e5)"

section \<open>Removing activations\<close>

text \<open>Unlinking: an activation with a null \<open>prev\<close> is taken for the head.\<close>

definition unlink :: "activation \<Rightarrow> activation list \<Rightarrow> activation list" where
  "unlink a as =
     (if prev_of a as = None then tl as
      else filter (\<lambda>b. address b \<noteq> address a) as)"

definition RemoveActivation :: "activation \<Rightarrow> bool \<Rightarrow> bool \<Rightarrow> env \<Rightarrow> env" where
  "RemoveActivation a updateAgenda updateLinks e =
     (let m = r_module (rules e (theRule a));
          d = module_item e m;
          e1 = (if updateAgenda
                then (set_item m \<lparr>groupings = RemoveActivationFromGroup a d,
                                 agenda = unlink a (agenda d)\<rparr> e)\<lparr>AgendaChanged := True\<rparr>
                else e);
          e2 = (if updateLinks
                then set_match (basis a) ((matches e1 (basis a))\<lparr>marker := None\<rparr>) e1 else e1)
      in e2\<lparr>NumberOfActivations := NumberOfActivations e2 - 1\<rparr>)"

text \<open>\<open>DetachActivation\<close> relinks both neighbours.\<close>

definition DetachActivation :: "activation \<Rightarrow> env \<Rightarrow> env" where
  "DetachActivation a e =
     (let m = r_module (rules e (theRule a)); d = module_item e m
      in (set_item m \<lparr>groupings = RemoveActivationFromGroup a d,
                      agenda = filter (\<lambda>b. address b \<noteq> address a) (agenda d)\<rparr> e)
           \<lparr>AgendaChanged := True\<rparr>)"

fun remove_list :: "activation list \<Rightarrow> env \<Rightarrow> env" where
  "remove_list [] e = e"
| "remove_list (a # as) e = remove_list as (RemoveActivation a True True e)"

text \<open>The module item asked for by \<open>GetDefruleModuleItem(theEnv,NULL)\<close>; a null
  current module is dereferenced by the code and left alone here. The second loop of
  the code frees the salience groups that are left without resetting \<open>groupings\<close>; on
  a well-formed agenda none is left (\<open>RemoveAllActivations_empties\<close>), so the loop is
  not part of the model.\<close>

definition RemoveAllActivations :: "env \<Rightarrow> env" where
  "RemoveAllActivations e =
     (case CurrentModule e of None \<Rightarrow> e
      | Some m \<Rightarrow> remove_list (agenda (module_item e m)) e)"

definition EnvDeleteActivation :: "activation option \<Rightarrow> env \<Rightarrow> bool \<times> env" where
  "EnvDeleteActivation p e =
     (case p of None \<Rightarrow> (True, RemoveAllActivations e)
      | Some a \<Rightarrow> (True, RemoveActivation a True True e))"

definition ClearRuleFromAgenda :: "addr \<Rightarrow> env \<Rightarrow> env" where
  "ClearRuleFromAgenda r e =
     remove_list
       (filter (\<lambda>a. theRule a \<in> set (r # disjuncts (rules e r)))
         (agenda (module_item e (r_module (rules e r))))) e"

definition MoveActivationToTop :: "activation \<Rightarrow> env \<Rightarrow> bool \<times> env" where
  "MoveActivationToTop a e =
     (let m = r_module (rules e (theRule a)); d = module_item e m
      in if first_address (agenda d) = Some (address a) then (False, e)
         else (True, (set_item m (d\<lparr>agenda := a # filter (\<lambda>b. address b \<noteq> address a) (agenda d)\<rparr>) e)
                       \<lparr>AgendaChanged := True\<rparr>))"

section \<open>Reordering and refreshing\<close>

fun place_list :: "addr \<Rightarrow> activation list \<Rightarrow> env \<Rightarrow> env" where
  "place_list m [] e = e"
| "place_list m (a # as) e = place_list m as (place_new m a e)"

definition reorder_module :: "addr \<Rightarrow> env \<Rightarrow> env" where
  "reorder_module m e =
     place_list m (agenda (module_item e m)) (set_item m \<lparr>groupings = [], agenda = []\<rparr> e)"

definition EnvReorderAgenda :: "addr option \<Rightarrow> env \<Rightarrow> env" where
  "EnvReorderAgenda p e =
     (case p of None \<Rightarrow> fold reorder_module (ListOfDefmodules e) e
      | Some m \<Rightarrow> reorder_module m e)"

definition EnvSetStrategy :: "int \<Rightarrow> env \<Rightarrow> int \<times> env" where
  "EnvSetStrategy v e =
     (let old = Strategy e; e1 = e\<lparr>Strategy := v\<rparr>
      in (old, if old \<noteq> Strategy e1 then EnvReorderAgenda None e1 else e1))"

definition EnvGetStrategy :: "env \<Rightarrow> int" where
  "EnvGetStrategy e = Strategy e"

definition GetStrategyName :: "int \<Rightarrow> string" where
  "GetStrategyName s =
     (if s = DEPTH_STRATEGY then ''depth''
      else if s = BREADTH_STRATEGY then ''breadth''
      else if s = LEX_STRATEGY then ''lex''
      else if s = MEA_STRATEGY then ''mea''
      else if s = COMPLEXITY_STRATEGY then ''complexity''
      else if s = SIMPLICITY_STRATEGY then ''simplicity''
      else if s = RANDOM_STRATEGY then ''random''
      else ''unknown'')"

definition strategy_of_name :: "string \<Rightarrow> int option" where
  "strategy_of_name n =
     (if n = ''depth'' then Some DEPTH_STRATEGY
      else if n = ''breadth'' then Some BREADTH_STRATEGY
      else if n = ''lex'' then Some LEX_STRATEGY
      else if n = ''mea'' then Some MEA_STRATEGY
      else if n = ''complexity'' then Some COMPLEXITY_STRATEGY
      else if n = ''simplicity'' then Some SIMPLICITY_STRATEGY
      else if n = ''random'' then Some RANDOM_STRATEGY
      else None)"

definition GetStrategyCommand :: "val list \<Rightarrow> env \<Rightarrow> val \<times> env" where
  "GetStrategyCommand args e =
     (let (n, e1) = EnvArgCountCheck ''get-strategy'' EXACTLY 0 args e
      in (SYMBOL (GetStrategyName (EnvGetStrategy e1)), e1))"

definition SetStrategyCommand :: "val list \<Rightarrow> env \<Rightarrow> val \<times> env" where
  "SetStrategyCommand args e =
     (let oldStrategy = Strategy e;
          (n, e1) = EnvArgCountCheck ''set-strategy'' EXACTLY 1 args e
      in if n = - 1 then (SYMBOL (GetStrategyName (EnvGetStrategy e1)), e1)
         else case EnvArgTypeCheck ''set-strategy'' 1 ty_SYMBOL args e1 of
           (None, e2) \<Rightarrow> (SYMBOL (GetStrategyName (EnvGetStrategy e2)), e2)
         | (Some v, e2) \<Rightarrow>
             (case strategy_of_name (DOToString v) of
                Some s \<Rightarrow> (SYMBOL (GetStrategyName oldStrategy), snd (EnvSetStrategy s e2))
              | None \<Rightarrow> (SYMBOL (GetStrategyName (EnvGetStrategy e2)),
                         print_message (ExpectedTypeError1 ''set-strategy'' 1) e2)))"

text \<open>\<open>EnvRefresh\<close>: activations for the matches of the rule's disjuncts that have
  none; one random number per activation is consumed from \<open>rands\<close>.\<close>

fun refresh_matches :: "evaluator \<Rightarrow> (nat \<Rightarrow> int) \<Rightarrow> addr \<Rightarrow> addr list \<Rightarrow> env \<Rightarrow> env" where
  "refresh_matches ev rands r [] e = e"
| "refresh_matches ev rands r (b # bs) e =
     refresh_matches ev rands r bs
       (if activatesRule (rules e r) \<and> marker (matches e b) = None
        then AddActivation ev (rands (unat (CurrentTimetag e))) r b e else e)"

definition EnvRefresh :: "evaluator \<Rightarrow> (nat \<Rightarrow> int) \<Rightarrow> addr \<Rightarrow> env \<Rightarrow> env" where
  "EnvRefresh ev rands r e =
     fold (\<lambda>q e'. refresh_matches ev rands q (concat (leftMemory (rules e' q))) e')
       (r # disjuncts (rules e r)) e"

text \<open>Recomputing the saliences of an agenda, in its order.\<close>

fun refresh_saliences :: "evaluator \<Rightarrow> activation list \<Rightarrow> env \<Rightarrow> activation list \<times> env" where
  "refresh_saliences ev [] e = ([], e)"
| "refresh_saliences ev (a # as) e =
     (let (s, e1) = EvaluateSalience ev (theRule a) e;
          (as', e2) = refresh_saliences ev as e1
      in (a\<lparr>salience := s\<rparr> # as', e2))"

definition refresh_module :: "evaluator \<Rightarrow> addr \<Rightarrow> env \<Rightarrow> env" where
  "refresh_module ev m e =
     (let e1 = EnvSetCurrentModule m e;
          (as, e2) = refresh_saliences ev (agenda (module_item e1 m)) e1;
          e3 = set_item m ((module_item e2 m)\<lparr>agenda := as\<rparr>) e2
      in EnvReorderAgenda (Some m) e3)"

definition EnvRefreshAgenda :: "evaluator \<Rightarrow> addr option \<Rightarrow> env \<Rightarrow> env" where
  "EnvRefreshAgenda ev p e =
     (let e1 = SaveCurrentModule e;
          (old, e2) = EnvSetSalienceEvaluation WHEN_ACTIVATED e1;
          e3 = (case p of None \<Rightarrow> fold (refresh_module ev) (ListOfDefmodules e2) e2
                | Some m \<Rightarrow> refresh_module ev m e2);
          (_, e4) = EnvSetSalienceEvaluation old e3
      in RestoreCurrentModule e4)"

section \<open>Access routines\<close>

definition EnvGetNextActivation :: "activation option \<Rightarrow> env \<Rightarrow> pointer" where
  "EnvGetNextActivation p e =
     (case p of
        None \<Rightarrow> (case CurrentModule e of None \<Rightarrow> None
                 | Some m \<Rightarrow> first_address (agenda (module_item e m)))
      | Some a \<Rightarrow> next_of a (agenda (module_item e (r_module (rules e (theRule a))))))"

definition EnvGetActivationBasis :: "activation \<Rightarrow> addr" where
  "EnvGetActivationBasis a = basis a"

definition EnvGetActivationRule :: "activation \<Rightarrow> addr" where
  "EnvGetActivationRule a = theRule a"

definition EnvGetActivationSalience :: "activation \<Rightarrow> int" where
  "EnvGetActivationSalience a = salience a"

definition EnvGetActivationName :: "env \<Rightarrow> activation \<Rightarrow> string" where
  "EnvGetActivationName e a = r_name (rules e (theRule a))"

definition EnvSetActivationSalience :: "activation \<Rightarrow> int \<Rightarrow> env \<Rightarrow> int \<times> env" where
  "EnvSetActivationSalience a v e =
     (let m = r_module (rules e (theRule a)); d = module_item e m
      in (salience a, set_item m (d\<lparr>agenda :=
            map (\<lambda>b. if address b = address a then b\<lparr>salience := v\<rparr> else b) (agenda d)\<rparr>) e))"

definition GetNumberOfActivations :: "env \<Rightarrow> u64" where
  "GetNumberOfActivations e = NumberOfActivations e"

definition EnvGetAgendaChanged :: "env \<Rightarrow> bool" where
  "EnvGetAgendaChanged e = AgendaChanged e"

definition EnvSetAgendaChanged :: "bool \<Rightarrow> env \<Rightarrow> env" where
  "EnvSetAgendaChanged v e = e\<lparr>AgendaChanged := v\<rparr>"

definition AgendaClearFunction :: "env \<Rightarrow> env" where
  "AgendaClearFunction e = e\<lparr>CurrentTimetag := 0\<rparr>"

end
