(* ===== verification/Agenda_Invariant.thy ===== *)
theory Agenda_Invariant
  imports Agenda
begin

text \<open>
  The agenda invariant and its preservation. \<open>module_inv\<close> says that a module's agenda
  is ordered by decreasing salience and, within a salience, by the strategy in
  force; that its salience groups are exactly the maximal runs of equal salience,
  each delimited by its \<open>first\<close> and \<open>last\<close> pointers; and that activations are
  distinct. Every operation of the agenda is shown to keep it and to change the
  multiset of activations as it should.
\<close>

section \<open>Segments\<close>

text \<open>The maximal runs of equal salience.\<close>

fun segments :: "activation list \<Rightarrow> activation list list" where
  "segments [] = []"
| "segments (a # as) =
     (case segments as of
        [] \<Rightarrow> [[a]]
      | s # ss \<Rightarrow> if salience (hd s) = salience a then (a # s) # ss else [a] # s # ss)"

definition group_of :: "activation list \<Rightarrow> salienceGroup" where
  "group_of s = \<lparr>g_salience = salience (hd s), g_first = first_address s,
                 g_last = last_address s\<rparr>"

definition seg_ok :: "activation list list \<Rightarrow> bool" where
  "seg_ok segs \<longleftrightarrow>
     (\<forall>s \<in> set segs. s \<noteq> [] \<and> (\<forall>a \<in> set s. salience (hd s) = salience a)) \<and>
     sorted_wrt (>) (map (\<lambda>s. salience (hd s)) segs)"

lemma seg_ok_nonempty: "seg_ok segs \<Longrightarrow> s \<in> set segs \<Longrightarrow> s \<noteq> []"
  by (simp add: seg_ok_def)

lemma seg_ok_same:
  assumes "seg_ok segs" "s \<in> set segs" "a \<in> set s" "b \<in> set s"
  shows "salience a = salience b"
  using assms by (metis seg_ok_def)

lemma seg_ok_append:
  "seg_ok (xs @ ys) \<longleftrightarrow> seg_ok xs \<and> seg_ok ys \<and>
     (\<forall>s \<in> set xs. \<forall>t \<in> set ys. salience (hd t) < salience (hd s))"
  unfolding seg_ok_def by (simp add: sorted_wrt_append ball_Un conj_ac)

lemma seg_ok_insert:
  assumes "seg_ok A" "seg_ok R" "\<forall>s \<in> set A. \<forall>t \<in> set R. salience (hd t) < salience (hd s)"
    and "S \<noteq> []" "\<forall>a \<in> set S. salience a = k"
    and "\<forall>s \<in> set A. k < salience (hd s)" "\<forall>s \<in> set R. salience (hd s) < k"
  shows "seg_ok (A @ S # R)"
proof -
  have k: "salience (hd S) = k" using assms(4,5) by simp
  then have S: "seg_ok [S]" using assms(4,5) by (simp add: seg_ok_def)
  show ?thesis
    using assms(1,2,3,6,7) k S seg_ok_append [of A "[S] @ R"] seg_ok_append [of "[S]" R] by simp
qed

lemma last_address_concat:
  assumes "seg_ok A" and "A \<noteq> []"
  shows "concat A \<noteq> [] \<and> last_address (last A) = last_address (concat A)"
proof -
  obtain B s where A: "A = B @ [s]" using assms(2) by (cases A rule: rev_cases) auto
  then have "s \<noteq> []" using assms(1) by (simp add: seg_ok_nonempty)
  then show ?thesis by (simp add: A)
qed

lemma concat_segments [simp]: "concat (segments as) = as"
  by (induction as) (auto split: list.splits)

lemma segments_nonempty: "s \<in> set (segments as) \<Longrightarrow> s \<noteq> []"
  by (induction as arbitrary: s) (auto split: list.splits if_splits)

lemma segments_hd: "segments (a # as) = s # ss \<Longrightarrow> hd s = a"
  by (auto split: list.splits if_splits)

lemma segments_ok:
  "sorted_wrt (\<lambda>a b. salience a \<ge> salience b) as \<Longrightarrow> seg_ok (segments as)"
proof (induction as)
  case (Cons a as)
  then have ok: "seg_ok (segments as)" by simp
  show ?case
  proof (cases "segments as")
    case Nil
    then show ?thesis by (simp add: seg_ok_def)
  next
    case (Cons s ss)
    then have s: "s \<noteq> []" using segments_nonempty [of s as] by simp
    then have "hd s \<in> set (concat (segments as))" using Cons by simp
    then have le: "salience (hd s) \<le> salience a" using Cons.prems by simp
    then show ?thesis using ok Cons s by (auto simp: seg_ok_def)
  qed
qed (simp add: seg_ok_def)

lemma segments_concat: "seg_ok segs \<Longrightarrow> segments (concat segs) = segs"
proof (induction segs)
  case (Cons s segs)
  then have IH: "segments (concat segs) = segs" by (simp add: seg_ok_def)
  have s: "s \<noteq> []" "\<forall>a \<in> set s. salience (hd s) = salience a"
    using Cons.prems by (auto simp: seg_ok_def)
  have head: "segs = [] \<or> salience (hd (hd segs)) \<noteq> salience (hd s)"
    using Cons.prems by (cases segs) (auto simp: seg_ok_def)
  have "t \<noteq> [] \<Longrightarrow> \<forall>a \<in> set t. salience (hd s) = salience a \<Longrightarrow>
      segments (t @ concat segs) = t # segs" for t
  proof (induction t)
    case (Cons a t)
    show ?case
    proof (cases "t = []")
      case True
      then show ?thesis using IH head Cons.prems by (cases segs) auto
    next
      case False
      then have "segments (t @ concat segs) = t # segs" using Cons by simp
      moreover have "salience (hd t) = salience a" using False Cons.prems
        by (metis hd_in_set list.set_intros)
      ultimately show ?thesis by simp
    qed
  qed simp
  then show ?case using s by simp
qed simp

section \<open>The invariant\<close>

definition agenda_order :: "env \<Rightarrow> activation \<Rightarrow> activation \<Rightarrow> bool" where
  "agenda_order e a b \<longleftrightarrow>
     salience a > salience b \<or> (salience a = salience b \<and> \<not> placed_after e a b)"

definition module_inv :: "env \<Rightarrow> defruleModule \<Rightarrow> bool" where
  "module_inv e d \<longleftrightarrow>
     groupings d = map group_of (segments (agenda d)) \<and>
     sorted_wrt (agenda_order e) (agenda d) \<and>
     distinct (map address (agenda d)) \<and>
     distinct (map timetag (agenda d)) \<and>
     (\<forall>a \<in> set (agenda d). mea_ok e a)"

lemma module_inv_empty: "module_inv e \<lparr>groupings = [], agenda = []\<rparr>"
  by (simp add: module_inv_def)

lemma agenda_order_salience:
  "sorted_wrt (agenda_order e) as \<Longrightarrow> sorted_wrt (\<lambda>a b. salience a \<ge> salience b) as"
  by (rule sorted_wrt_mono_rel) (auto simp: agenda_order_def)

lemma sorted_concat_segs:
  assumes "seg_ok segs"
  shows "sorted_wrt (agenda_order e) (concat segs) \<longleftrightarrow>
    (\<forall>s \<in> set segs. sorted_wrt (\<lambda>x y. \<not> placed_after e x y) s)"
  using assms
proof (induction segs)
  case (Cons s segs)
  have const: "\<forall>a \<in> set s. salience (hd s) = salience a"
    and segs: "seg_ok segs" using Cons.prems by (auto simp: seg_ok_def)
  have less: "\<forall>a \<in> set s. \<forall>b \<in> set (concat segs). salience b < salience a"
    using Cons.prems by (force simp: seg_ok_def)
  have eq: "agenda_order e x y \<longleftrightarrow> \<not> placed_after e x y" if "x \<in> set s" "y \<in> set s" for x y
  proof -
    have "salience x = salience y" using that const by metis
    then show ?thesis by (simp add: agenda_order_def)
  qed
  have "sorted_wrt (agenda_order e) s \<longleftrightarrow> sorted_wrt (\<lambda>x y. \<not> placed_after e x y) s"
  proof
    show "sorted_wrt (agenda_order e) s \<Longrightarrow> sorted_wrt (\<lambda>x y. \<not> placed_after e x y) s"
      by (rule sorted_wrt_mono_rel) (simp_all add: eq)
    show "sorted_wrt (\<lambda>x y. \<not> placed_after e x y) s \<Longrightarrow> sorted_wrt (agenda_order e) s"
      by (rule sorted_wrt_mono_rel) (simp_all add: eq)
  qed
  moreover have "\<forall>a \<in> set s. \<forall>b \<in> set (concat segs). agenda_order e a b"
    using less by (simp add: agenda_order_def)
  ultimately show ?case using Cons.IH [OF segs] by (simp add: sorted_wrt_append)
qed simp

text \<open>The shape that the proofs work with.\<close>

lemma module_inv_segs:
  assumes "module_inv e d"
  obtains segs where "agenda d = concat segs" "groupings d = map group_of segs" "seg_ok segs"
    "\<forall>s \<in> set segs. sorted_wrt (\<lambda>x y. \<not> placed_after e x y) s"
proof
  let ?s = "segments (agenda d)"
  show "agenda d = concat ?s" by simp
  show "groupings d = map group_of ?s" using assms by (simp add: module_inv_def)
  show ok: "seg_ok ?s" using assms
    by (auto simp: module_inv_def intro: segments_ok agenda_order_salience)
  show "\<forall>s \<in> set ?s. sorted_wrt (\<lambda>x y. \<not> placed_after e x y) s"
    using assms sorted_concat_segs [OF ok, of e] by (simp add: module_inv_def)
qed

lemma module_invI:
  assumes "agenda d = concat segs" "groupings d = map group_of segs" "seg_ok segs"
    "\<forall>s \<in> set segs. sorted_wrt (\<lambda>x y. \<not> placed_after e x y) s"
    "distinct (map address (agenda d))" "distinct (map timetag (agenda d))"
    "\<forall>a \<in> set (agenda d). mea_ok e a"
  shows "module_inv e d"
  using assms sorted_concat_segs [OF assms(3), of e] segments_concat [OF assms(3)]
  by (simp add: module_inv_def)

section \<open>What the invariant depends on\<close>

definition same_order :: "env \<Rightarrow> env \<Rightarrow> bool" where
  "same_order e f \<longleftrightarrow> Strategy e = Strategy f \<and>
     (\<forall>r. complexity (rules e r) = complexity (rules f r)) \<and>
     (\<forall>p. binds (matches e p) = binds (matches f p)) \<and>
     (\<forall>p. leftParent (matches e p) = leftParent (matches f p)) \<and>
     (\<forall>x. timeTag (entities e x) = timeTag (entities f x))"

lemma same_orderD:
  assumes "same_order e f"
  shows "Strategy e = Strategy f" "complexity (rules e r) = complexity (rules f r)"
    "binds (matches e p) = binds (matches f p)" "timeTag (entities e x) = timeTag (entities f x)"
  using assms by (simp_all add: same_order_def)

lemma bind_tag_cong: "same_order e f \<Longrightarrow> bind_tag e p = bind_tag f p"
  by (induction e p rule: bind_tag.induct) (simp_all add: same_orderD)

lemma SortPartialMatch_cong:
  "same_order e f \<Longrightarrow> SortPartialMatch e (matches e b) = SortPartialMatch f (matches f b)"
  by (simp add: SortPartialMatch_def same_orderD [of e f] bind_tag_cong [of e f] cong: map_cong)

lemma ComparePartialMatches_cong:
  "same_order e f \<Longrightarrow> ComparePartialMatches e x y = ComparePartialMatches f x y"
  by (simp add: ComparePartialMatches_def SortPartialMatch_cong [of e f] same_orderD [of e f])

lemma GetMatchingItem_cong: "same_order e f \<Longrightarrow> GetMatchingItem e x i = GetMatchingItem f x i"
  by (simp add: GetMatchingItem_def same_orderD [of e f])

lemma whoset_cong: "same_order e f \<Longrightarrow> whoset e x = whoset f x"
  by (simp add: whoset_def GetMatchingItem_cong [of e f] same_orderD [of e f] split: option.split)

lemmas order_congs = ComparePartialMatches_cong GetMatchingItem_cong whoset_cong same_orderD

lemma placed_after_cong: "same_order e f \<Longrightarrow> placed_after e = placed_after f"
  by (intro ext)
     (simp add: placed_after_def after_lex_def after_mea_def mea_flag_def after_complexity_def
       after_simplicity_def Let_def order_congs [of e f])

lemma mea_ok_cong: "same_order e f \<Longrightarrow> mea_ok e = mea_ok f"
  by (intro ext) (simp add: mea_ok_def has_patterns_def order_congs [of e f] split: option.split)

lemma module_inv_cong:
  assumes "same_order e f"
  shows "module_inv e = module_inv f"
proof -
  have "agenda_order e = agenda_order f"
    by (intro ext) (simp add: agenda_order_def placed_after_cong [OF assms])
  then show ?thesis by (intro ext) (simp add: module_inv_def mea_ok_cong [OF assms])
qed

section \<open>Placing keeps the invariant\<close>

lemma scan_groups_segs:
  "scan_groups s k (map group_of segs) =
     (k + length (takeWhile (\<lambda>t. salience (hd t) > s) segs),
      case dropWhile (\<lambda>t. salience (hd t) > s) segs of
        [] \<Rightarrow> False | t # _ \<Rightarrow> salience (hd t) = s)"
  by (induction segs arbitrary: k) (auto simp: group_of_def)

lemma dropWhile_seg_ok:
  assumes "seg_ok segs" and "dropWhile (\<lambda>t. salience (hd t) > s) segs = B"
  shows "seg_ok B" and "t \<in> set (tl B) \<Longrightarrow> salience (hd t) < salience (hd (hd B))"
proof -
  have "segs = takeWhile (\<lambda>t. salience (hd t) > s) segs @ B" using assms(2)
    by (metis takeWhile_dropWhile_id)
  then have "seg_ok (takeWhile (\<lambda>t. salience (hd t) > s) segs @ B)" using assms(1) by simp
  then show B: "seg_ok B" by (auto simp: seg_ok_def sorted_wrt_append)
  then show "t \<in> set (tl B) \<Longrightarrow> salience (hd t) < salience (hd (hd B))"
    by (cases B) (auto simp: seg_ok_def)
qed

text \<open>The group list around the group that \<open>ReuseOrCreateSalienceGroup\<close> returns; the
  segment \<open>S\<close> is empty when the group is new.\<close>

lemma ReuseOrCreate_segs:
  assumes ok: "seg_ok segs"
  obtains A S R where
    "segs = A @ (if S = [] then [] else [S]) @ R"
    "ReuseOrCreateSalienceGroup s (map group_of segs) = (length A,
       map group_of A @ \<lparr>g_salience = s, g_first = first_address S, g_last = last_address S\<rparr>
         # map group_of R)"
    "\<forall>t \<in> set A. s < salience (hd t)" "\<forall>a \<in> set S. salience a = s"
    "\<forall>t \<in> set R. salience (hd t) < s"
proof -
  define A where "A = takeWhile (\<lambda>t. salience (hd t) > s) segs"
  define B where "B = dropWhile (\<lambda>t. salience (hd t) > s) segs"
  have AB: "segs = A @ B" by (simp add: A_def B_def)
  have Agt: "\<forall>t \<in> set A. s < salience (hd t)" by (auto simp: A_def dest: set_takeWhileD)
  have B_ok: "seg_ok B" and B_tl: "\<And>t. t \<in> set (tl B) \<Longrightarrow> salience (hd t) < salience (hd (hd B))"
    using dropWhile_seg_ok [OF ok B_def [symmetric]] by auto
  have scan: "scan_groups s 0 (map group_of segs) =
      (length A, case B of [] \<Rightarrow> False | t # _ \<Rightarrow> salience (hd t) = s)"
    by (simp add: scan_groups_segs A_def B_def)
  have hdB: "B \<noteq> [] \<Longrightarrow> \<not> s < salience (hd (hd B))"
    using hd_dropWhile [of "\<lambda>t. salience (hd t) > s" segs] by (auto simp: B_def)
  show thesis
  proof (cases "\<exists>S R. B = S # R \<and> salience (hd S) = s")
    case True
    then obtain S R where B: "B = S # R" and S: "salience (hd S) = s" by blast
    have "S \<noteq> []" and "\<forall>a \<in> set S. salience a = s" using B_ok B S by (auto simp: seg_ok_def)
    moreover have "group_of S = \<lparr>g_salience = s, g_first = first_address S, g_last = last_address S\<rparr>"
      by (simp add: group_of_def S)
    moreover have "\<forall>t \<in> set R. salience (hd t) < s" using B_tl B S by auto
    ultimately show thesis using AB B S Agt scan
      by (intro that [of A S R]) (auto simp: ReuseOrCreateSalienceGroup_def)
  next
    case False
    then have "scan_groups s 0 (map group_of segs) = (length A, False)"
      using scan by (cases B) auto
    moreover have "\<forall>t \<in> set B. salience (hd t) < s"
      using hdB B_tl False by (cases B) (force simp: not_less)+
    ultimately show thesis using AB Agt
      by (intro that [of A "[]" B]) (auto simp: ReuseOrCreateSalienceGroup_def)
  qed
qed

lemma place_new_env:
  "place_new m a e = set_item m (module_item (place_new m a e) m) (e\<lparr>AgendaChanged := True\<rparr>)"
  by (auto simp: place_new_def PlaceActivation_def set_item_def Let_def split: prod.split
      intro!: env.equality)

lemma place_new_item:
  assumes inv: "module_inv e (module_item e m)" and valid: "valid_strategy e"
    and ok: "mea_ok e a"
    and fresh: "address a \<notin> address ` set (agenda (module_item e m))"
      "timetag a \<notin> timetag ` set (agenda (module_item e m))"
  shows "module_inv e (module_item (place_new m a e) m)"
    and "mset (agenda (module_item (place_new m a e) m)) =
      add_mset a (mset (agenda (module_item e m)))"
proof -
  let ?d = "module_item e m"
  obtain segs where segs: "agenda ?d = concat segs" "groupings ?d = map group_of segs"
    "seg_ok segs" "\<forall>s \<in> set segs. sorted_wrt (\<lambda>x y. \<not> placed_after e x y) s"
    using module_inv_segs [OF inv] by blast
  obtain A S R where spl: "segs = A @ (if S = [] then [] else [S]) @ R"
    and reuse: "ReuseOrCreateSalienceGroup (salience a) (groupings ?d) = (length A,
      map group_of A @ \<lparr>g_salience = salience a, g_first = first_address S,
        g_last = last_address S\<rparr> # map group_of R)"
    and sal: "\<forall>t \<in> set A. salience a < salience (hd t)" "\<forall>b \<in> set S. salience b = salience a"
      "\<forall>t \<in> set R. salience (hd t) < salience a"
    using ReuseOrCreate_segs [OF segs(3), of "salience a"] segs(2) by metis
  let ?go = "placed_after e a"
  define S' where "S' = takeWhile ?go S @ a # dropWhile ?go S"
  let ?g = "\<lparr>g_salience = salience a, g_first = first_address S, g_last = last_address S\<rparr>"
  let ?d1 = "?d\<lparr>groupings := map group_of A @ ?g # map group_of R\<rparr>"
  have ag: "agenda ?d = concat A @ S @ concat R" using segs(1) spl by simp
  have A_ne: "A \<noteq> [] \<Longrightarrow> concat A \<noteq> [] \<and> last_address (last A) = last_address (concat A)"
    using segs(3) spl last_address_concat [of A] by (simp add: seg_ok_append)
  have at: "split_at ?d1 (length A) (concat A) S (concat R)"
    using inv ag A_ne
    by (auto simp: split_at_def module_inv_def nth_append group_of_def last_conv_nth)
  have S_props: "sorted_wrt (\<lambda>x y. \<not> placed_after e x y) S" "\<forall>b \<in> set S. mea_ok e b"
      "timetag a \<notin> timetag ` set S"
    using segs(4) spl inv ag fresh by (auto simp: module_inv_def split: if_splits)
  have eq: "module_item (place_new m a e) m =
      \<lparr>groupings = map group_of A @ ?g\<lparr>g_first := first_address S', g_last := last_address S'\<rparr>
         # map group_of R, agenda = concat A @ S' @ concat R\<rparr>"
  proof -
    let ?e1 = "(set_item m ?d1 e)\<lparr>AgendaChanged := True\<rparr>"
    have so: "same_order e (set_item m ?d1 e)" by (simp add: same_order_def frame_simps)
    have "place_in_module (set_item m ?d1 e) a (length A) ?d1 =
      \<lparr>groupings = (groupings ?d1)[length A := (groupings ?d1 ! length A)
        \<lparr>g_first := first_address S', g_last := last_address S'\<rparr>],
       agenda = concat A @ S' @ concat R\<rparr>"
      using S_props ok valid placed_after_cong [OF so] mea_ok_cong [OF so]
      by (intro place_in_module_at [OF at])
         (simp_all add: valid_strategy_def frame_simps S'_def)
    then show ?thesis unfolding place_new_def reuse PlaceActivation_def
      by (simp add: update_at_length [where f = "\<lambda>g. g\<lparr>g_first := first_address S',
            g_last := last_address S'\<rparr>"])
  qed
  have ne: "S' \<noteq> []" by (simp add: S'_def)
  have S'_sal: "\<forall>b \<in> set S'. salience b = salience a"
    using sal(2) by (auto simp: S'_def dest: set_takeWhileD set_dropWhileD)
  then have hdS': "salience (hd S') = salience a" using ne by simp
  have S'_set: "set S' = insert a (set S)"
    unfolding S'_def by (metis Un_insert_right list.simps(15) set_append takeWhile_dropWhile_id)
  have S'_mset: "mset S' = add_mset a (mset S)"
    unfolding S'_def by (metis mset.simps(2) mset_append takeWhile_dropWhile_id
      union_mset_add_mset_right)
  show mset: "mset (agenda (module_item (place_new m a e) m)) = add_mset a (mset (agenda ?d))"
    using eq ag S'_mset by simp
  have dist: "distinct (map f (concat A @ S' @ concat R))"
    if "distinct (map f (agenda ?d))" "f a \<notin> f ` set (agenda ?d)" for f :: "activation \<Rightarrow> 'x"
  proof -
    have "mset (map f (concat A @ S' @ concat R)) = mset (map f (a # agenda ?d))"
      using mset eq by (metis defruleModule.select_convs(2) mset.simps(2) mset_map)
    moreover have "distinct (map f (a # agenda ?d))" using that by simp
    ultimately show ?thesis by (metis mset_eq_imp_distinct_iff)
  qed
  show "module_inv e (module_item (place_new m a e) m)"
  proof (rule module_invI [where segs = "A @ S' # R"])
    show "agenda (module_item (place_new m a e) m) = concat (A @ S' # R)" by (simp add: eq)
    show "groupings (module_item (place_new m a e) m) = map group_of (A @ S' # R)"
      by (simp add: eq group_of_def hdS')
    show "seg_ok (A @ S' # R)"
    proof (rule seg_ok_insert [where k = "salience a"])
      show "seg_ok A" "seg_ok R" "\<forall>s \<in> set A. \<forall>t \<in> set R. salience (hd t) < salience (hd s)"
        using segs(3) unfolding spl seg_ok_append by simp_all
    qed (use sal(1,3) ne S'_sal in auto)
    show "\<forall>s \<in> set (A @ S' # R). sorted_wrt (\<lambda>x y. \<not> placed_after e x y) s"
      using segs(4) spl strategy.insert_keeps_order [OF S_props(1,2) ok]
      by (auto simp: S'_def)
    show "distinct (map address (agenda (module_item (place_new m a e) m)))"
      using inv fresh(1) dist [of address] by (simp add: eq module_inv_def)
    show "distinct (map timetag (agenda (module_item (place_new m a e) m)))"
      using inv fresh(2) dist [of timetag] by (simp add: eq module_inv_def)
    show "\<forall>b \<in> set (agenda (module_item (place_new m a e) m)). mea_ok e b"
      using inv ag ok S'_set by (auto simp: eq module_inv_def)
  qed
qed

section \<open>Removing keeps the invariant\<close>

lemma first_address_append:
  "first_address (xs @ ys) = (if xs = [] then first_address ys else first_address xs)"
  by (simp add: first_address_def)

lemma first_address_rev: "first_address (rev xs) = last_address xs"
  by (simp add: first_address_def last_address_def hd_rev)

lemma next_of_append:
  "distinct (map address (xs @ a # ys)) \<Longrightarrow> next_of a (xs @ a # ys) = first_address ys"
  using chain_from_append [of xs "[a]" ys] by (simp add: next_of_def)

lemma prev_of_append:
  "distinct (map address (xs @ a # ys)) \<Longrightarrow> prev_of a (xs @ a # ys) = last_address xs"
  using chain_back_append [of xs "[a]" ys]
  by (simp add: prev_of_def last_address_def [of "[a]"] first_address_rev)

lemma filter_address:
  assumes "distinct (map address (xs @ a # ys))"
  shows "filter (\<lambda>b. address b \<noteq> address a) (xs @ a # ys) = xs @ ys"
proof -
  have "address b \<noteq> address a" if "b \<in> set xs" for b
    by (rule distinct_map_disjoint [OF assms that]) simp
  moreover have "address a \<noteq> address b" if "b \<in> set ys" for b
    using that assms by (intro distinct_map_disjoint [of address "xs @ [a]" ys]) simp_all
  ultimately have "\<forall>b \<in> set xs. address b \<noteq> address a" "\<forall>b \<in> set ys. address b \<noteq> address a"
    by metis+
  then show ?thesis by simp
qed

lemma unlink_append: "distinct (map address (xs @ a # ys)) \<Longrightarrow> unlink a (xs @ a # ys) = xs @ ys"
  by (simp add: unlink_def prev_of_append filter_address del: filter_append)

lemma FindSalienceGroup_segs:
  assumes "seg_ok (A @ S # R)" and "a \<in> set S"
  shows "FindSalienceGroup (salience a) (map group_of (A @ S # R)) = Some (length A)"
proof -
  have S: "salience (hd S) = salience a" using assms by (simp add: seg_ok_def)
  have "\<forall>t \<in> set A. salience a < salience (hd t)"
    using assms(1) S unfolding seg_ok_append by simp
  then have "takeWhile (\<lambda>t. salience a < salience (hd t)) (A @ S # R) = A"
      "dropWhile (\<lambda>t. salience a < salience (hd t)) (A @ S # R) = S # R"
    using S by (simp_all add: takeWhile_all_append dropWhile_all_append)
  then show ?thesis using S by (simp add: FindSalienceGroup_def scan_groups_segs del: map_append)
qed

lemma RemoveActivationFromGroup_segs:
  assumes ok: "seg_ok (A @ (S1 @ a # S2) # R)"
    and gs: "groupings d = map group_of (A @ (S1 @ a # S2) # R)"
    and ag: "agenda d = concat A @ (S1 @ a # S2) @ concat R"
    and dist: "distinct (map address (agenda d))"
  shows "RemoveActivationFromGroup a d =
    map group_of (A @ (if S1 @ S2 = [] then [] else [S1 @ S2]) @ R)"
proof -
  let ?S = "S1 @ a # S2"
  have sal: "salience b = salience a" if "b \<in> set ?S" for b
    using that seg_ok_same [OF ok, of ?S b a] by simp
  have find: "FindSalienceGroup (salience a) (groupings d) = Some (length A)"
    unfolding gs by (rule FindSalienceGroup_segs [OF ok]) simp
  have nth: "groupings d ! length A = group_of ?S" by (simp add: gs nth_append)
  have upd: "(groupings d)[length A := x] = map group_of A @ x # map group_of R" for x
    by (simp add: gs list_update_append)
  have "distinct (map address ((concat A @ S1) @ a # (S2 @ concat R)))" using dist ag by simp
  from next_of_append [OF this] prev_of_append [OF this]
  have np: "next_of a (agenda d) = first_address (S2 @ concat R)"
      "prev_of a (agenda d) = last_address (concat A @ S1)" by (simp_all add: ag)
  have dS: "distinct (map address (S1 @ a # S2))" using dist unfolding ag map_append distinct_append
    by blast
  have first: "first_address ?S = Some (address a) \<longleftrightarrow> S1 = []"
  proof (cases "S1 = []")
    case False
    then have "address (hd S1) \<noteq> address a"
      by (intro distinct_map_disjoint [OF dS]) simp_all
    then show ?thesis using False by (simp add: first_address_def)
  qed simp
  have last: "last_address ?S = Some (address a) \<longleftrightarrow> S2 = []"
  proof (cases "S2 = []")
    case False
    moreover have "distinct (map address ((S1 @ [a]) @ S2))" using dS by simp
    ultimately have "address a \<noteq> address (last S2)"
      by (intro distinct_map_disjoint [of address "S1 @ [a]" S2]) simp_all
    then show ?thesis using False by (simp add: last_address_def)
  qed (simp add: last_address_def)
  have hd_sal: "S2 \<noteq> [] \<Longrightarrow> S1 = [] \<Longrightarrow> salience (hd S2) = salience a"
    by (rule sal) simp
  show ?thesis
    unfolding RemoveActivationFromGroup_def Let_def find
    using first last np upd nth hd_sal
    by (cases "S1 = []"; cases "S2 = []")
       (auto simp: group_of_def first_address_append first_address_def [of "_ # _"] gs
         hd_append last_address_def)
qed

definition without :: "activation \<Rightarrow> defruleModule \<Rightarrow> defruleModule" where
  "without a d = \<lparr>groupings = RemoveActivationFromGroup a d,
     agenda = filter (\<lambda>b. address b \<noteq> address a) (agenda d)\<rparr>"

lemma remove_keeps_inv:
  assumes inv: "module_inv e d" and a: "a \<in> set (agenda d)"
  shows "module_inv e (without a d)"
    and "mset (agenda d) = add_mset a (mset (agenda (without a d)))"
    and "unlink a (agenda d) = agenda (without a d)"
proof -
  obtain segs where segs: "agenda d = concat segs" "groupings d = map group_of segs"
    "seg_ok segs" "\<forall>s \<in> set segs. sorted_wrt (\<lambda>x y. \<not> placed_after e x y) s"
    using module_inv_segs [OF inv] by blast
  obtain A R S1 S2 where spl: "segs = A @ (S1 @ a # S2) # R"
    using a segs(1) by (metis (no_types, opaque_lifting) UN_E set_concat split_list)
  let ?M = "if S1 @ S2 = [] then [] else [S1 @ S2]"
  have ag: "agenda d = (concat A @ S1) @ a # (S2 @ concat R)" using segs(1) spl by simp
  have dist: "distinct (map address (agenda d))" "distinct (map timetag (agenda d))"
    using inv by (simp_all add: module_inv_def)
  have W: "agenda (without a d) = (concat A @ S1) @ (S2 @ concat R)"
    using filter_address dist(1) unfolding ag without_def defruleModule.simps by blast
  show "unlink a (agenda d) = agenda (without a d)"
    using unlink_append dist(1) unfolding ag W by blast
  show "mset (agenda d) = add_mset a (mset (agenda (without a d)))" by (simp add: ag W)
  have ok: "seg_ok (A @ (S1 @ a # S2) # R)" using segs(3) spl by simp
  have sal: "\<forall>b \<in> set (S1 @ a # S2). salience b = salience a"
    by (intro ballI seg_ok_same [OF ok, of "S1 @ a # S2"]) auto
  show "module_inv e (without a d)"
  proof (rule module_invI [where segs = "A @ ?M @ R"])
    show "agenda (without a d) = concat (A @ ?M @ R)" by (simp add: W)
    show "groupings (without a d) = map group_of (A @ ?M @ R)"
      using RemoveActivationFromGroup_segs [OF ok] segs(2) ag dist(1) spl
      by (simp add: without_def)
    have parts: "seg_ok A" "seg_ok R" "\<forall>s \<in> set A. \<forall>t \<in> set R. salience (hd t) < salience (hd s)"
        "\<forall>s \<in> set A. salience a < salience (hd s)" "\<forall>s \<in> set R. salience (hd s) < salience a"
    proof -
      have "salience (hd (S1 @ a # S2)) = salience a" using sal by (simp add: hd_append)
      then show "seg_ok A" "seg_ok R" "\<forall>s \<in> set A. \<forall>t \<in> set R. salience (hd t) < salience (hd s)"
        "\<forall>s \<in> set A. salience a < salience (hd s)" "\<forall>s \<in> set R. salience (hd s) < salience a"
        using ok seg_ok_append [of A "[S1 @ a # S2] @ R"] seg_ok_append [of "[S1 @ a # S2]" R]
        by simp_all
    qed
    show "seg_ok (A @ ?M @ R)"
    proof (cases "S1 @ S2 = []")
      case False
      moreover have "\<forall>b \<in> set (S1 @ S2). salience b = salience a" using sal by auto
      ultimately have "seg_ok (A @ (S1 @ S2) # R)"
        by (intro seg_ok_insert [OF parts(1-3) _ _ parts(4,5)])
      then show ?thesis by (simp only: False if_False append_Cons append_Nil)
    qed (use parts(1-3) in \<open>simp add: seg_ok_append\<close>)
    show "\<forall>s \<in> set (A @ ?M @ R). sorted_wrt (\<lambda>x y. \<not> placed_after e x y) s"
      using segs(4) unfolding spl by (auto simp: sorted_wrt_append)
    show "distinct (map address (agenda (without a d)))"
      "distinct (map timetag (agenda (without a d)))"
      using dist unfolding ag W by auto
    show "\<forall>b \<in> set (agenda (without a d)). mea_ok e b"
      using inv by (simp add: module_inv_def without_def)
  qed
qed

end
