(* ===== verification/Agenda_Wf.thy ===== *)
theory Agenda_Wf
  imports Agenda_Invariant
begin

text \<open>
  The agendas of all modules together. \<open>agenda_wf\<close> adds to the invariant of each
  module that an activation sits on the agenda of its rule's module, that its
  address and time tag were handed out, and that \<open>NumberOfActivations\<close> counts them.
  It is kept by every operation that adds, removes or reorders activations.
\<close>

section \<open>Well-formed environments\<close>

definition module_wf :: "env \<Rightarrow> addr \<Rightarrow> bool" where
  "module_wf e m \<longleftrightarrow> module_inv e (module_item e m) \<and>
     (\<forall>a \<in> set (agenda (module_item e m)). r_module (rules e (theRule a)) = m \<and>
        address a < freeAddress e \<and> timetag a < CurrentTimetag e)"

definition agenda_total :: "env \<Rightarrow> nat" where
  "agenda_total e = sum_list (map (\<lambda>m. length (agenda (module_item e m))) (ListOfDefmodules e))"

definition modules_wf :: "env \<Rightarrow> bool" where
  "modules_wf e \<longleftrightarrow> valid_strategy e \<and> distinct (ListOfDefmodules e) \<and>
     (\<forall>m \<in> set (ListOfDefmodules e). module_wf e m)"

definition agenda_wf :: "env \<Rightarrow> bool" where
  "agenda_wf e \<longleftrightarrow> modules_wf e \<and> NumberOfActivations e = word_of_nat (agenda_total e)"

text \<open>Environments that differ in nothing the invariant looks at, and environments
  that differ in the agenda of one module only.\<close>

definition same_setting :: "env \<Rightarrow> env \<Rightarrow> bool" where
  "same_setting e f \<longleftrightarrow> same_order e f \<and> ListOfDefmodules f = ListOfDefmodules e \<and>
     (\<forall>r. r_module (rules f r) = r_module (rules e r)) \<and>
     freeAddress f = freeAddress e \<and> CurrentTimetag f = CurrentTimetag e"

definition same_elsewhere :: "addr \<Rightarrow> env \<Rightarrow> env \<Rightarrow> bool" where
  "same_elsewhere m e f \<longleftrightarrow> same_setting e f \<and> (\<forall>k. k \<noteq> m \<longrightarrow> module_item f k = module_item e k)"

definition same_agenda :: "env \<Rightarrow> env \<Rightarrow> bool" where
  "same_agenda e f \<longleftrightarrow> same_setting e f \<and> (\<forall>k. module_item f k = module_item e k) \<and>
     NumberOfActivations f = NumberOfActivations e"

lemma same_order_refl [simp]: "same_order e e"
  by (simp add: same_order_def)

lemma same_order_trans: "same_order e f \<Longrightarrow> same_order f g \<Longrightarrow> same_order e g"
  by (simp add: same_order_def)

lemma same_setting_refl [simp]: "same_setting e e"
  by (simp add: same_setting_def)

lemma same_setting_trans: "same_setting e f \<Longrightarrow> same_setting f g \<Longrightarrow> same_setting e g"
  by (auto simp: same_setting_def intro: same_order_trans)

lemma same_elsewhere_trans:
  "same_elsewhere m e f \<Longrightarrow> same_elsewhere m f g \<Longrightarrow> same_elsewhere m e g"
  by (auto simp: same_elsewhere_def intro: same_setting_trans)

lemma same_agenda_trans: "same_agenda e f \<Longrightarrow> same_agenda f g \<Longrightarrow> same_agenda e g"
  by (auto simp: same_agenda_def intro: same_setting_trans)

lemma valid_strategy_same: "same_order e f \<Longrightarrow> valid_strategy f = valid_strategy e"
  by (simp add: valid_strategy_def same_order_def)

lemma module_wf_same:
  assumes "same_setting e f" and "module_item f m = module_item e m"
  shows "module_wf f m = module_wf e m"
  using assms module_inv_cong [of e f] by (simp add: module_wf_def same_setting_def)

lemma same_agendaD:
  assumes "same_agenda e f"
  shows "same_order e f" "ListOfDefmodules f = ListOfDefmodules e"
    "r_module (rules f r) = r_module (rules e r)" "freeAddress f = freeAddress e"
    "CurrentTimetag f = CurrentTimetag e" "module_item f k = module_item e k"
    "NumberOfActivations f = NumberOfActivations e"
  using assms by (simp_all add: same_agenda_def same_setting_def)

lemma modules_wf_same:
  assumes "same_agenda e f"
  shows "modules_wf f = modules_wf e"
  using assms module_wf_same [of e f] valid_strategy_same [of e f]
  by (simp add: modules_wf_def same_agenda_def same_setting_def)

lemma agenda_total_same: "same_agenda e f \<Longrightarrow> agenda_total f = agenda_total e"
  by (simp add: agenda_total_def same_agenda_def same_setting_def)

lemma agenda_wf_same: "same_agenda e f \<Longrightarrow> agenda_wf f = agenda_wf e"
  using modules_wf_same [of e f] agenda_total_same [of e f] same_agendaD(7) [of e f]
  by (simp add: agenda_wf_def)

text \<open>Changing one agenda.\<close>

lemma total_change:
  assumes "distinct ms" and "m \<in> set ms" and "\<forall>k. k \<noteq> m \<longrightarrow> f k = g k"
  shows "sum_list (map f ms) + g m = sum_list (map g ms) + (f m :: nat)"
  using assms
proof (induction ms)
  case (Cons k ms)
  show ?case
  proof (cases "k = m")
    case True
    then have "m \<notin> set ms" using Cons.prems(1) by simp
    then have "map f ms = map g ms" using Cons.prems(3) by auto
    then show ?thesis using True by (simp del: map_eq_conv)
  next
    case False
    then show ?thesis using Cons by simp
  qed
qed simp

lemma agenda_total_change:
  assumes "same_elsewhere m e f" and "distinct (ListOfDefmodules e)" and "m \<in> set (ListOfDefmodules e)"
  shows "agenda_total f + length (agenda (module_item e m)) =
    agenda_total e + length (agenda (module_item f m))"
  using assms total_change [of "ListOfDefmodules e" m
      "\<lambda>k. length (agenda (module_item f k))" "\<lambda>k. length (agenda (module_item e k))"]
  by (simp add: agenda_total_def same_elsewhere_def same_setting_def)

lemma modules_wf_change:
  assumes wf: "modules_wf e" and se: "same_elsewhere m e f"
    and inv: "module_inv e (module_item f m)"
    and sub: "set (agenda (module_item f m)) \<subseteq> set (agenda (module_item e m))"
  shows "modules_wf f"
proof -
  have s: "same_setting e f" "same_order e f" "ListOfDefmodules f = ListOfDefmodules e"
    using se by (simp_all add: same_elsewhere_def same_setting_def)
  have "module_wf f k" if "k \<in> set (ListOfDefmodules f)" for k
  proof (cases "k = m")
    case False
    then show ?thesis using that wf se s(3) module_wf_same [OF s(1)]
      by (simp add: modules_wf_def same_elsewhere_def)
  next
    case True
    then have "module_wf e m" using that wf s(3) by (simp add: modules_wf_def)
    then show ?thesis using True inv sub s(1) module_inv_cong [OF s(2)]
      by (auto simp: module_wf_def same_setting_def)
  qed
  then show ?thesis using wf s valid_strategy_same [OF s(2)] by (simp add: modules_wf_def)
qed

section \<open>Frames\<close>

lemma same_order_fields:
  "Strategy f = Strategy e \<Longrightarrow> rules f = rules e \<Longrightarrow> matches f = matches e \<Longrightarrow>
   entities f = entities e \<Longrightarrow> same_order e f"
  by (simp add: same_order_def)

lemma EnvFocus_same_agenda: "same_agenda e (EnvFocus m e)"
  by (auto simp: same_agenda_def same_setting_def same_order_def EnvFocus_def
      EnvSetCurrentModule_def Let_def)

lemma EnvSetCurrentModule_same_agenda: "same_agenda e (EnvSetCurrentModule m e)"
  by (auto simp: same_agenda_def same_setting_def same_order_def EnvSetCurrentModule_def Let_def)

lemma EvaluateSalience_same_agenda: "same_agenda e (snd (EvaluateSalience ev r e))"
  by (auto simp: same_agenda_def same_setting_def same_order_def EvaluateSalience_def Let_def
      SetEvaluationError_def print_message_def set_rule_def split: option.split val.split)

lemma place_new_elsewhere: "same_elsewhere m e (place_new m a e)"
  by (subst place_new_env)
     (auto simp: same_elsewhere_def same_setting_def same_order_def frame_simps set_item_def)

lemma place_new_NumberOfActivations [simp]:
  "NumberOfActivations (place_new m a e) = NumberOfActivations e"
  by (subst place_new_env) (simp add: set_item_def)

section \<open>Removing\<close>

lemma RemoveActivation_elsewhere:
  "m = r_module (rules e (theRule a)) \<Longrightarrow> same_elsewhere m e (RemoveActivation a u l e)"
  by (auto simp: same_elsewhere_def same_setting_def same_order_def RemoveActivation_def Let_def
      set_item_def set_match_def)

lemma RemoveActivation_item:
  assumes "module_inv e (module_item e m)" and "a \<in> set (agenda (module_item e m))"
    and "m = r_module (rules e (theRule a))"
  shows "module_item (RemoveActivation a True l e) m = without a (module_item e m)"
  using assms remove_keeps_inv(3) [OF assms(1,2)]
  by (simp add: RemoveActivation_def Let_def without_def set_match_def set_item_def)

lemma RemoveActivation_modules_wf:
  assumes wf: "modules_wf e" and m: "m \<in> set (ListOfDefmodules e)"
    and a: "a \<in> set (agenda (module_item e m))"
  shows "modules_wf (RemoveActivation a True l e)"
    and "module_item (RemoveActivation a True l e) m = without a (module_item e m)"
    and "same_elsewhere m e (RemoveActivation a True l e)"
    and "agenda_total e = Suc (agenda_total (RemoveActivation a True l e))"
proof -
  have inv: "module_inv e (module_item e m)" and r: "m = r_module (rules e (theRule a))"
    using wf m a by (auto simp: modules_wf_def module_wf_def)
  show item: "module_item (RemoveActivation a True l e) m = without a (module_item e m)"
    by (rule RemoveActivation_item [OF inv a r])
  show se: "same_elsewhere m e (RemoveActivation a True l e)"
    by (rule RemoveActivation_elsewhere [OF r])
  show "modules_wf (RemoveActivation a True l e)"
    by (rule modules_wf_change [OF wf se])
       (auto simp: item remove_keeps_inv(1) [OF inv a], simp add: without_def)
  have "length (agenda (module_item e m)) = Suc (length (agenda (without a (module_item e m))))"
    using remove_keeps_inv(2) [OF inv a] by (metis size_add_mset size_mset)
  then show "agenda_total e = Suc (agenda_total (RemoveActivation a True l e))"
    using agenda_total_change [OF se] wf m item by (simp add: modules_wf_def)
qed

lemma RemoveActivation_count:
  "NumberOfActivations (RemoveActivation a u l e) = NumberOfActivations e - 1"
  by (simp add: RemoveActivation_def Let_def set_item_def set_match_def)

lemma RemoveActivation_wf:
  assumes wf: "agenda_wf e" and m: "m \<in> set (ListOfDefmodules e)"
    and a: "a \<in> set (agenda (module_item e m))"
  shows "agenda_wf (RemoveActivation a True l e)"
proof -
  have "modules_wf e" using wf by (simp add: agenda_wf_def)
  note rem = RemoveActivation_modules_wf [OF this m a, of l]
  show ?thesis using rem(1,4) wf by (simp add: agenda_wf_def RemoveActivation_count)
qed

lemma remove_list_agenda:
  assumes "agenda_wf e" "m \<in> set (ListOfDefmodules e)"
    and "distinct as" "set as \<subseteq> set (agenda (module_item e m))"
  shows "agenda_wf (remove_list as e) \<and> same_elsewhere m e (remove_list as e) \<and>
    agenda (module_item (remove_list as e) m) =
      filter (\<lambda>b. address b \<notin> address ` set as) (agenda (module_item e m))"
  using assms
proof (induction as arbitrary: e)
  case (Cons a as)
  let ?e = "RemoveActivation a True True e"
  have mw: "modules_wf e" and a: "a \<in> set (agenda (module_item e m))"
    using Cons.prems by (simp_all add: agenda_wf_def)
  note rem = RemoveActivation_modules_wf [OF mw Cons.prems(2) a, of True]
  have inv: "module_inv e (module_item e m)" using mw Cons.prems(2)
    by (simp add: modules_wf_def module_wf_def)
  have inj: "inj_on address (set (agenda (module_item e m)))"
    using inv by (simp add: module_inv_def distinct_map)
  have L: "m \<in> set (ListOfDefmodules ?e)"
    using rem(3) Cons.prems(2) by (simp add: same_elsewhere_def same_setting_def)
  have "address b \<noteq> address a" if "b \<in> set as" for b
    using that Cons.prems(3,4) inj_onD [OF inj, of b a] by auto
  then have "set as \<subseteq> set (agenda (module_item ?e m))"
    using Cons.prems(4) by (auto simp: rem(2) without_def)
  from Cons.IH [OF RemoveActivation_wf [OF Cons.prems(1,2) a] L _ this] Cons.prems(3)
  show ?case using same_elsewhere_trans [OF rem(3)]
    by (auto simp: rem(2) without_def intro!: filter_cong)
qed (simp add: same_elsewhere_def)

lemma filter_address_set:
  assumes "distinct (map address xs)" and "set as = {a \<in> set xs. P a}"
  shows "filter (\<lambda>b. address b \<notin> address ` set as) xs = filter (\<lambda>b. \<not> P b) xs"
proof (rule filter_cong)
  fix b assume "b \<in> set xs"
  then show "(address b \<notin> address ` set as) = (\<not> P b)"
    using assms by (auto simp: distinct_map dest: inj_onD)
qed simp

lemma module_inv_distinct: "module_inv e d \<Longrightarrow> distinct (agenda d)"
  by (auto simp: module_inv_def distinct_map)

lemma module_inv_empty_groups:
  "module_inv e d \<Longrightarrow> agenda d = [] \<Longrightarrow> groupings d = []"
  by (simp add: module_inv_def)

lemma agenda_wf_module: "agenda_wf e \<Longrightarrow> m \<in> set (ListOfDefmodules e) \<Longrightarrow> module_inv e (module_item e m)"
  by (simp add: agenda_wf_def modules_wf_def module_wf_def)

lemma RemoveAllActivations_empties:
  assumes wf: "agenda_wf e" and m: "CurrentModule e = Some m" "m \<in> set (ListOfDefmodules e)"
  shows "agenda_wf (RemoveAllActivations e)"
    and "module_item (RemoveAllActivations e) m = \<lparr>groupings = [], agenda = []\<rparr>"
    and "same_elsewhere m e (RemoveAllActivations e)"
proof -
  have inv: "module_inv e (module_item e m)" by (rule agenda_wf_module [OF wf m(2)])
  note rl = remove_list_agenda [OF wf m(2) module_inv_distinct [OF inv] order.refl]
  have eq: "RemoveAllActivations e = remove_list (agenda (module_item e m)) e"
    by (simp add: RemoveAllActivations_def m)
  show wf': "agenda_wf (RemoveAllActivations e)" and se: "same_elsewhere m e (RemoveAllActivations e)"
    using rl eq by simp_all
  have "m \<in> set (ListOfDefmodules (RemoveAllActivations e))"
    using se m(2) by (simp add: same_elsewhere_def same_setting_def)
  from agenda_wf_module [OF wf' this] rl eq
  show "module_item (RemoveAllActivations e) m = \<lparr>groupings = [], agenda = []\<rparr>"
    by (auto intro!: defruleModule.equality dest: module_inv_empty_groups simp: filter_empty_conv)
qed

lemma ClearRuleFromAgenda_agenda:
  assumes wf: "agenda_wf e" and m: "m = r_module (rules e r)" "m \<in> set (ListOfDefmodules e)"
  shows "agenda_wf (ClearRuleFromAgenda r e)" and "same_elsewhere m e (ClearRuleFromAgenda r e)"
    and "agenda (module_item (ClearRuleFromAgenda r e) m) =
      filter (\<lambda>a. theRule a \<notin> set (r # disjuncts (rules e r))) (agenda (module_item e m))"
proof -
  let ?as = "filter (\<lambda>a. theRule a \<in> set (r # disjuncts (rules e r))) (agenda (module_item e m))"
  have inv: "module_inv e (module_item e m)" by (rule agenda_wf_module [OF wf m(2)])
  have eq: "ClearRuleFromAgenda r e = remove_list ?as e"
    by (simp add: ClearRuleFromAgenda_def m(1))
  have "distinct ?as" "set ?as \<subseteq> set (agenda (module_item e m))"
    using module_inv_distinct [OF inv] by auto
  note rl = remove_list_agenda [OF wf m(2) this]
  show "agenda_wf (ClearRuleFromAgenda r e)" "same_elsewhere m e (ClearRuleFromAgenda r e)"
    using rl eq by simp_all
  have "distinct (map address (agenda (module_item e m)))" using inv by (simp add: module_inv_def)
  from filter_address_set [OF this, of ?as "\<lambda>a. theRule a \<in> set (r # disjuncts (rules e r))"] rl eq
  show "agenda (module_item (ClearRuleFromAgenda r e) m) =
      filter (\<lambda>a. theRule a \<notin> set (r # disjuncts (rules e r))) (agenda (module_item e m))"
    by simp
qed

text \<open>The engine detaches an activation before it fires its rule and releases it
  afterwards.\<close>

lemma Detach_Remove:
  assumes "agenda_wf e" "m \<in> set (ListOfDefmodules e)" "a \<in> set (agenda (module_item e m))"
  shows "modules_wf (DetachActivation a e)" "same_elsewhere m e (DetachActivation a e)"
    "module_item (DetachActivation a e) m = without a (module_item e m)"
proof -
  have mw: "modules_wf e" using assms(1) by (simp add: agenda_wf_def)
  have inv: "module_inv e (module_item e m)" and r: "r_module (rules e (theRule a)) = m"
    using mw assms(2,3) by (auto simp: modules_wf_def module_wf_def)
  show item: "module_item (DetachActivation a e) m = without a (module_item e m)"
    using r by (simp add: DetachActivation_def Let_def without_def set_item_def)
  show se: "same_elsewhere m e (DetachActivation a e)" using r
    by (auto simp: same_elsewhere_def same_setting_def same_order_def DetachActivation_def Let_def
        set_item_def)
  show "modules_wf (DetachActivation a e)"
    by (rule modules_wf_change [OF mw se])
       (auto simp: item remove_keeps_inv(1) [OF inv assms(3)], simp add: without_def)
qed

section \<open>Adding\<close>

lemma mea_ok_basis: "mea_ok e a \<longleftrightarrow> mea_ok e b" if "basis a = basis b"
  using that by (simp add: mea_ok_def has_patterns_def GetMatchingItem_def)

definition match_ok :: "env \<Rightarrow> addr \<Rightarrow> bool" where
  "match_ok e b \<longleftrightarrow> (let m = binds (matches e b) in m \<noteq> [] \<and>
     (case hd m of Some (Some i) \<Rightarrow> 0 < sint (timeTag (entities e i)) | _ \<Rightarrow> True))"

lemma match_ok_cong: "same_order e f \<Longrightarrow> match_ok e = match_ok f"
  by (intro ext) (simp add: match_ok_def Let_def same_order_def split: option.split)

text \<open>The activation that \<open>AddActivation\<close> makes.\<close>

definition new_activation :: "evaluator \<Rightarrow> int \<Rightarrow> addr \<Rightarrow> addr \<Rightarrow> env \<Rightarrow> activation" where
  "new_activation ev rand r b e =
     (let e1 = (if autoFocus (rules e r) then EnvFocus (r_module (rules e r)) e else e);
          e2 = e1\<lparr>freeAddress := freeAddress e1 + 1, CurrentTimetag := CurrentTimetag e1 + 1\<rparr>
      in \<lparr>address = freeAddress e, theRule = r, basis = b,
          salience = fst (EvaluateSalience ev r e2), timetag = CurrentTimetag e,
          randomID = rand\<rparr>)"

definition prepared :: "evaluator \<Rightarrow> addr \<Rightarrow> addr \<Rightarrow> env \<Rightarrow> env" where
  "prepared ev r b e =
     (let e1 = (if autoFocus (rules e r) then EnvFocus (r_module (rules e r)) e else e);
          e2 = e1\<lparr>freeAddress := freeAddress e1 + 1, CurrentTimetag := CurrentTimetag e1 + 1\<rparr>;
          e3 = snd (EvaluateSalience ev r e2);
          e4 = e3\<lparr>NumberOfActivations := NumberOfActivations e3 + 1\<rparr>
      in set_match b ((matches e4 b)\<lparr>marker := Some (freeAddress e)\<rparr>) e4)"

lemma EnvFocus_fields [simp]:
  "freeAddress (EnvFocus m e) = freeAddress e" "CurrentTimetag (EnvFocus m e) = CurrentTimetag e"
  by (simp_all add: EnvFocus_def EnvSetCurrentModule_def Let_def)

lemma prepared_fields:
  "same_order e (prepared ev r b e)"
  "ListOfDefmodules (prepared ev r b e) = ListOfDefmodules e"
  "r_module (rules (prepared ev r b e) q) = r_module (rules e q)"
  "freeAddress (prepared ev r b e) = freeAddress e + 1"
  "CurrentTimetag (prepared ev r b e) = CurrentTimetag e + 1"
  "module_item (prepared ev r b e) k = module_item e k"
  "NumberOfActivations (prepared ev r b e) = NumberOfActivations e + 1"
  "marker (matches (prepared ev r b e) b) = Some (freeAddress e)"
proof -
  define e1 where "e1 = (if autoFocus (rules e r) then EnvFocus (r_module (rules e r)) e else e)"
  define e2 where "e2 = e1\<lparr>freeAddress := freeAddress e1 + 1, CurrentTimetag := CurrentTimetag e1 + 1\<rparr>"
  define e3 where "e3 = snd (EvaluateSalience ev r e2)"
  have p: "prepared ev r b e = (let e4 = e3\<lparr>NumberOfActivations := NumberOfActivations e3 + 1\<rparr>
      in set_match b ((matches e4 b)\<lparr>marker := Some (freeAddress e)\<rparr>) e4)"
    by (simp only: prepared_def Let_def e3_def e2_def e1_def)
  have "same_agenda e e1"
    using EnvFocus_same_agenda [of e] by (simp add: same_agenda_def e1_def)
  note f1 = same_agendaD [OF this]
  have "same_agenda e2 e3" unfolding e3_def by (rule EvaluateSalience_same_agenda)
  note f3 = same_agendaD [OF this]
  have "same_order e1 e2" by (simp add: same_order_def e2_def)
  then have "same_order e e3" using f1(1) f3(1) by (metis same_order_trans)
  then show "same_order e (prepared ev r b e)"
    by (rule same_order_trans) (simp add: p Let_def set_match_def same_order_def)
  show "ListOfDefmodules (prepared ev r b e) = ListOfDefmodules e"
    "r_module (rules (prepared ev r b e) q) = r_module (rules e q)"
    "freeAddress (prepared ev r b e) = freeAddress e + 1"
    "CurrentTimetag (prepared ev r b e) = CurrentTimetag e + 1"
    "module_item (prepared ev r b e) k = module_item e k"
    "NumberOfActivations (prepared ev r b e) = NumberOfActivations e + 1"
    "marker (matches (prepared ev r b e) b) = Some (freeAddress e)"
    by (simp_all add: p Let_def set_match_def f1 f3) (simp_all add: e2_def f1)
qed

lemma AddActivation_prepared:
  "AddActivation ev rand r b e =
     place_new (r_module (rules e r)) (new_activation ev rand r b e) (prepared ev r b e)"
proof -
  have "autoFocus (rules e r) \<Longrightarrow> same_agenda e (EnvFocus (r_module (rules e r)) e)"
    by (rule EnvFocus_same_agenda)
  then show ?thesis
    using prepared_fields(3) [of ev r b e r]
    unfolding AddActivation_def new_activation_def prepared_def Let_def
    by (simp add: case_prod_beta set_match_def)
qed

lemma AddActivation_modules:
  assumes wf: "modules_wf e" and m: "m = r_module (rules e r)" "m \<in> set (ListOfDefmodules e)"
    and ok: "match_ok e b" and tag: "CurrentTimetag e \<noteq> - 1"
  shows "modules_wf (AddActivation ev rand r b e)"
    and "mset (agenda (module_item (AddActivation ev rand r b e) m)) =
      add_mset (new_activation ev rand r b e) (mset (agenda (module_item e m)))"
    and "k \<noteq> m \<Longrightarrow> module_item (AddActivation ev rand r b e) k = module_item e k"
    and "agenda_total (AddActivation ev rand r b e) = Suc (agenda_total e)"
    and "NumberOfActivations (AddActivation ev rand r b e) = NumberOfActivations e + 1"
    and "same_order e (AddActivation ev rand r b e)"
    and "ListOfDefmodules (AddActivation ev rand r b e) = ListOfDefmodules e"
proof -
  let ?p = "prepared ev r b e" and ?a = "new_activation ev rand r b e"
  let ?f = "AddActivation ev rand r b e"
  note pf = prepared_fields [where e = e and ev = ev and r = r and b = b]
  have f: "?f = place_new m ?a ?p" by (simp add: AddActivation_prepared m)
  have se: "same_elsewhere m ?p ?f" unfolding f by (rule place_new_elsewhere)
  then have sf: "same_order ?p ?f" "ListOfDefmodules ?f = ListOfDefmodules e"
    "\<And>q. r_module (rules ?f q) = r_module (rules e q)"
    "freeAddress ?f = freeAddress e + 1" "CurrentTimetag ?f = CurrentTimetag e + 1"
    using pf by (simp_all add: same_elsewhere_def same_setting_def)
  show other: "module_item ?f k = module_item e k" if "k \<noteq> m" for k
    using that se pf(6) by (simp add: same_elsewhere_def)
  have inv: "module_inv ?p (module_item ?p m)"
    using wf m(2) module_inv_cong [OF pf(1)] pf(6) by (simp add: modules_wf_def module_wf_def)
  have valid: "valid_strategy ?p"
    using wf valid_strategy_same [OF pf(1)] by (simp add: modules_wf_def)
  have a: "theRule ?a = r" "address ?a = freeAddress e" "timetag ?a = CurrentTimetag e" "basis ?a = b"
    by (simp_all add: new_activation_def Let_def)
  have mea: "mea_ok ?p ?a" using ok match_ok_cong [OF pf(1)]
    by (simp add: mea_ok_def match_ok_def has_patterns_def GetMatchingItem_def a Let_def hd_conv_nth
        split: option.splits)
  have old: "\<forall>x \<in> set (agenda (module_item e m)). r_module (rules e (theRule x)) = m \<and>
      address x < freeAddress e \<and> timetag x < CurrentTimetag e"
    using wf m(2) by (simp add: modules_wf_def module_wf_def)
  then have fresh: "address ?a \<notin> address ` set (agenda (module_item ?p m))"
      "timetag ?a \<notin> timetag ` set (agenda (module_item ?p m))"
    by (auto simp: a pf(6))
  note pn = place_new_item [OF inv valid mea fresh]
  show mset: "mset (agenda (module_item ?f m)) = add_mset ?a (mset (agenda (module_item e m)))"
    using pn(2) unfolding f [symmetric] pf(6) .
  then have set: "set (agenda (module_item ?f m)) = insert ?a (set (agenda (module_item e m)))"
    by (metis set_mset_add_mset_insert set_mset_mset)
  have lt: "CurrentTimetag e < CurrentTimetag e + 1" by (rule word_less_Suc [OF tag])
  have "module_wf ?f j" if j: "j \<in> set (ListOfDefmodules e)" for j
  proof (cases "j = m")
    case True
    have "module_inv ?f (module_item ?f m)"
      using pn(1) module_inv_cong [OF sf(1)] unfolding f [symmetric] by simp
    then show ?thesis using True old lt m(1) set
      by (auto simp: module_wf_def sf a intro: less_trans)
  next
    case False
    have "module_wf e j" using wf j by (simp add: modules_wf_def)
    then show ?thesis using False other lt module_inv_cong [OF pf(1)] module_inv_cong [OF sf(1)]
      by (auto simp: module_wf_def sf intro: less_trans)
  qed
  then show "modules_wf ?f"
    using wf valid valid_strategy_same [OF sf(1)] sf(2) by (simp add: modules_wf_def)
  have "length (agenda (module_item ?f m)) = Suc (length (agenda (module_item e m)))"
    using mset by (metis size_add_mset size_mset)
  moreover have "agenda_total ?p = agenda_total e" by (simp add: agenda_total_def pf)
  ultimately show "agenda_total ?f = Suc (agenda_total e)"
    using agenda_total_change [OF se] wf m(2) pf(2,6) by (simp add: modules_wf_def)
  show "NumberOfActivations ?f = NumberOfActivations e + 1" using pf(7) by (simp add: f)
  show "same_order e ?f" by (rule same_order_trans [OF pf(1) sf(1)])
  show "ListOfDefmodules ?f = ListOfDefmodules e" by (rule sf(2))
qed

lemma AddActivation_wf:
  assumes "agenda_wf e" "r_module (rules e r) \<in> set (ListOfDefmodules e)"
    "match_ok e b" "CurrentTimetag e \<noteq> - 1"
  shows "agenda_wf (AddActivation ev rand r b e)"
  using assms
    AddActivation_modules [OF _ refl assms(2-4), where ev = ev and rand = rand]
  by (simp add: agenda_wf_def)

section \<open>Reordering\<close>

lemma distinct_map_mset:
  "mset xs = mset ys \<Longrightarrow> distinct (map f xs) = distinct (map f ys)"
  by (metis mset_eq_imp_distinct_iff mset_map)

lemma same_order_sym: "same_order e f \<Longrightarrow> same_order f e"
  by (simp add: same_order_def)

lemma place_list_item:
  assumes "module_inv e (module_item e m)" and "valid_strategy e"
    and "\<forall>a \<in> set as. mea_ok e a"
    and "distinct (map address (agenda (module_item e m) @ as))"
    and "distinct (map timetag (agenda (module_item e m) @ as))"
  shows "module_inv e (module_item (place_list m as e) m) \<and>
    mset (agenda (module_item (place_list m as e) m)) = mset (agenda (module_item e m)) + mset as \<and>
    same_elsewhere m e (place_list m as e) \<and>
    NumberOfActivations (place_list m as e) = NumberOfActivations e"
  using assms
proof (induction as arbitrary: e)
  case (Cons a as)
  let ?e = "place_new m a e"
  have fresh: "address a \<notin> address ` set (agenda (module_item e m))"
      "timetag a \<notin> timetag ` set (agenda (module_item e m))"
    using Cons.prems(4,5) by auto
  have ok: "mea_ok e a" using Cons.prems(3) by simp
  note pn = place_new_item [OF Cons.prems(1,2) ok fresh]
  have se: "same_elsewhere m e ?e" by (rule place_new_elsewhere)
  then have so: "same_order e ?e" by (simp add: same_elsewhere_def same_setting_def)
  have "mset (agenda (module_item ?e m) @ as) = mset (agenda (module_item e m) @ a # as)"
    using pn(2) by simp
  note d = distinct_map_mset [OF this]
  have "module_inv ?e (module_item (place_list m as ?e) m) \<and>
    mset (agenda (module_item (place_list m as ?e) m)) = mset (agenda (module_item ?e m)) + mset as \<and>
    same_elsewhere m ?e (place_list m as ?e) \<and>
    NumberOfActivations (place_list m as ?e) = NumberOfActivations ?e"
  proof (rule Cons.IH)
    show "module_inv ?e (module_item ?e m)" using pn(1) module_inv_cong [OF so] by simp
    show "valid_strategy ?e" using Cons.prems(2) valid_strategy_same [OF so] by simp
    show "\<forall>b \<in> set as. mea_ok ?e b" using Cons.prems(3) mea_ok_cong [OF so] by simp
  qed (simp_all only: d Cons.prems(4,5))
  then show ?case using pn(2) module_inv_cong [OF so] same_elsewhere_trans [OF se] by simp
qed (simp add: same_elsewhere_def)

text \<open>Reordering asks nothing of the old order: distinct activations whose matches
  are well formed are enough.\<close>

lemma reorder_module_item:
  assumes valid: "valid_strategy e" and ok: "\<forall>a \<in> set (agenda (module_item e m)). mea_ok e a"
    and dist: "distinct (map address (agenda (module_item e m)))"
      "distinct (map timetag (agenda (module_item e m)))"
  shows "module_inv e (module_item (reorder_module m e) m)"
    and "mset (agenda (module_item (reorder_module m e) m)) = mset (agenda (module_item e m))"
    and "same_elsewhere m e (reorder_module m e)"
    and "NumberOfActivations (reorder_module m e) = NumberOfActivations e"
proof -
  let ?f = "set_item m \<lparr>groupings = [], agenda = []\<rparr> e"
  have so: "same_order e ?f" by (simp add: same_order_def frame_simps)
  have se: "same_elsewhere m e ?f"
    by (simp add: same_elsewhere_def same_setting_def so frame_simps) (simp add: set_item_def)
  have "module_inv ?f (module_item ?f m)" by (simp add: module_inv_empty)
  moreover have "valid_strategy ?f" using valid valid_strategy_same [OF so] by simp
  moreover have "\<forall>a \<in> set (agenda (module_item e m)). mea_ok ?f a"
    using ok mea_ok_cong [OF so] by simp
  ultimately have "module_inv ?f (module_item (reorder_module m e) m) \<and>
      mset (agenda (module_item (reorder_module m e) m)) = mset (agenda (module_item e m)) \<and>
      same_elsewhere m ?f (reorder_module m e) \<and>
      NumberOfActivations (reorder_module m e) = NumberOfActivations ?f"
    using place_list_item [of ?f m "agenda (module_item e m)"] dist
    by (simp add: reorder_module_def)
  then show "module_inv e (module_item (reorder_module m e) m)"
      "mset (agenda (module_item (reorder_module m e) m)) = mset (agenda (module_item e m))"
      "same_elsewhere m e (reorder_module m e)"
      "NumberOfActivations (reorder_module m e) = NumberOfActivations e"
    using module_inv_cong [OF so] same_elsewhere_trans [OF se] by (auto simp: frame_simps)
qed

text \<open>What a strategy change starts from: the invariant without the order.\<close>

definition module_loose :: "env \<Rightarrow> addr \<Rightarrow> bool" where
  "module_loose e m \<longleftrightarrow> distinct (map address (agenda (module_item e m))) \<and>
     distinct (map timetag (agenda (module_item e m))) \<and>
     (\<forall>a \<in> set (agenda (module_item e m)). mea_ok e a \<and> r_module (rules e (theRule a)) = m \<and>
        address a < freeAddress e \<and> timetag a < CurrentTimetag e)"

lemma module_wf_loose: "module_wf e m \<Longrightarrow> module_loose e m"
  by (simp add: module_wf_def module_loose_def module_inv_def)

lemma module_loose_strategy: "module_loose (e\<lparr>Strategy := s\<rparr>) m = module_loose e m"
  by (simp add: module_loose_def mea_ok_def has_patterns_def GetMatchingItem_def cong: option.case_cong)

lemma module_loose_same:
  assumes "same_setting e f" and "module_item f m = module_item e m"
  shows "module_loose f m = module_loose e m"
  using assms mea_ok_cong [of e f] by (simp add: module_loose_def same_setting_def)

lemma reorder_module_wf:
  assumes "valid_strategy e" and "module_loose e m"
  shows "module_wf (reorder_module m e) m"
proof -
  note re = reorder_module_item [of e m]
  have pre: "\<forall>a \<in> set (agenda (module_item e m)). mea_ok e a"
      "distinct (map address (agenda (module_item e m)))"
      "distinct (map timetag (agenda (module_item e m)))"
    using assms(2) by (simp_all add: module_loose_def)
  have ss: "same_setting e (reorder_module m e)"
    using re(3) [OF assms(1) pre] by (simp add: same_elsewhere_def)
  have "set (agenda (module_item (reorder_module m e) m)) = set (agenda (module_item e m))"
    using re(2) [OF assms(1) pre] by (metis set_mset_mset)
  moreover have "same_order e (reorder_module m e)" using ss by (simp add: same_setting_def)
  ultimately show ?thesis
    using re(1) [OF assms(1) pre] assms(2) ss module_inv_cong
    by (auto simp: module_wf_def module_loose_def same_setting_def)
qed

text \<open>A pass over the modules: each step puts one module's agenda in order, keeps its
  activations up to \<open>key\<close> and leaves the other modules alone.\<close>

locale module_pass =
  fixes step :: "addr \<Rightarrow> env \<Rightarrow> env" and key :: "activation \<Rightarrow> activation"
  assumes step_wf: "valid_strategy e \<Longrightarrow> module_loose e m \<Longrightarrow> module_wf (step m e) m"
    and step_elsewhere: "valid_strategy e \<Longrightarrow> module_loose e m \<Longrightarrow> same_elsewhere m e (step m e)"
    and step_keeps: "valid_strategy e \<Longrightarrow> module_loose e m \<Longrightarrow>
      image_mset key (mset (agenda (module_item (step m e) m))) =
      image_mset key (mset (agenda (module_item e m)))"
    and step_count: "valid_strategy e \<Longrightarrow> module_loose e m \<Longrightarrow>
      NumberOfActivations (step m e) = NumberOfActivations e"
begin

lemma pass_modules:
  assumes "valid_strategy e" and "distinct ms" and "\<forall>m \<in> set ms. module_loose e m"
  shows "let f = fold step ms e in same_setting e f \<and>
    (\<forall>m \<in> set ms. module_wf f m) \<and>
    (\<forall>k. image_mset key (mset (agenda (module_item f k))) =
       image_mset key (mset (agenda (module_item e k)))) \<and>
    (\<forall>k. k \<notin> set ms \<longrightarrow> module_item f k = module_item e k) \<and>
    NumberOfActivations f = NumberOfActivations e"
  using assms
proof (induction ms arbitrary: e)
  case (Cons m ms)
  let ?e = "step m e" and ?f = "fold step ms (step m e)"
  have loose: "module_loose e m" using Cons.prems(3) by simp
  note st = Cons.prems(1) loose
  have ss: "same_setting e ?e" and other: "\<And>k. k \<noteq> m \<Longrightarrow> module_item ?e k = module_item e k"
    using step_elsewhere [OF st] by (simp_all add: same_elsewhere_def)
  have so: "same_order e ?e" using ss by (simp add: same_setting_def)
  have keep: "image_mset key (mset (agenda (module_item ?e k))) =
      image_mset key (mset (agenda (module_item e k)))" for k
    using step_keeps [OF st] other [of k] by (cases "k = m") simp_all
  have "let f = ?f in same_setting ?e f \<and> (\<forall>m \<in> set ms. module_wf f m) \<and>
    (\<forall>k. image_mset key (mset (agenda (module_item f k))) =
       image_mset key (mset (agenda (module_item ?e k)))) \<and>
    (\<forall>k. k \<notin> set ms \<longrightarrow> module_item f k = module_item ?e k) \<and>
    NumberOfActivations f = NumberOfActivations ?e"
  proof (rule Cons.IH)
    show "valid_strategy ?e" using Cons.prems(1) valid_strategy_same [OF so] by simp
    show "distinct ms" using Cons.prems(2) by simp
    show "\<forall>k \<in> set ms. module_loose ?e k"
    proof
      fix k assume "k \<in> set ms"
      then have "k \<noteq> m" "module_loose e k" using Cons.prems(2,3) by auto
      then show "module_loose ?e k" using module_loose_same [OF ss other] by blast
    qed
  qed
  then have IH: "same_setting ?e ?f" "\<forall>m \<in> set ms. module_wf ?f m"
      "\<forall>k. image_mset key (mset (agenda (module_item ?f k))) =
        image_mset key (mset (agenda (module_item ?e k)))"
      "\<forall>k. k \<notin> set ms \<longrightarrow> module_item ?f k = module_item ?e k"
      "NumberOfActivations ?f = NumberOfActivations ?e" by (simp_all add: Let_def)
  have "module_wf ?f m"
    using step_wf [OF st] Cons.prems(2) IH(4) module_wf_same [OF IH(1)] by simp
  then show ?case using IH same_setting_trans [OF ss IH(1)] keep other step_count [OF st]
    by (simp add: Let_def)
qed (simp add: Let_def)

lemma pass_all:
  assumes valid: "valid_strategy e" "distinct (ListOfDefmodules e)"
    and loose: "\<forall>m \<in> set (ListOfDefmodules e). module_loose e m"
    and f: "f = fold step (ListOfDefmodules e) e"
  shows "modules_wf f" and "same_setting e f"
    and "image_mset key (mset (agenda (module_item f k))) =
      image_mset key (mset (agenda (module_item e k)))"
    and "NumberOfActivations f = NumberOfActivations e" and "agenda_total f = agenda_total e"
proof -
  note fr = pass_modules [OF valid loose, folded f, unfolded Let_def]
  show ss: "same_setting e f" and "NumberOfActivations f = NumberOfActivations e"
    using fr by simp_all
  show keep: "image_mset key (mset (agenda (module_item f k))) =
      image_mset key (mset (agenda (module_item e k)))" for k
    using fr by simp
  have L: "ListOfDefmodules f = ListOfDefmodules e" "same_order e f"
    using ss by (simp_all add: same_setting_def)
  show "modules_wf f" using fr L valid valid_strategy_same [OF L(2)] by (simp add: modules_wf_def)
  have "length (agenda (module_item f j)) = length (agenda (module_item e j))" for j
    using keep [of j] by (metis size_image_mset size_mset)
  then show "agenda_total f = agenda_total e" using L(1) by (simp add: agenda_total_def)
qed

end

lemma module_looseD:
  "module_loose e m \<Longrightarrow> (\<forall>a \<in> set (agenda (module_item e m)). mea_ok e a) \<and>
     distinct (map address (agenda (module_item e m))) \<and>
     distinct (map timetag (agenda (module_item e m)))"
  by (simp add: module_loose_def)

interpretation reorder: module_pass reorder_module id
  using reorder_module_wf reorder_module_item module_looseD by unfold_locales auto

lemma EnvReorderAgenda_wf:
  assumes "valid_strategy e" "distinct (ListOfDefmodules e)"
    and "\<forall>m \<in> set (ListOfDefmodules e). module_loose e m"
  shows "modules_wf (EnvReorderAgenda None e)" and "same_setting e (EnvReorderAgenda None e)"
    and "mset (agenda (module_item (EnvReorderAgenda None e) k)) = mset (agenda (module_item e k))"
    and "NumberOfActivations (EnvReorderAgenda None e) = NumberOfActivations e"
    and "agenda_total (EnvReorderAgenda None e) = agenda_total e"
  using reorder.pass_all [OF assms, of "EnvReorderAgenda None e"]
  by (simp_all add: EnvReorderAgenda_def)

lemma EnvSetStrategy_wf:
  assumes wf: "agenda_wf e" and v: "0 \<le> v" "v \<le> 6"
  shows "agenda_wf (snd (EnvSetStrategy v e))" "Strategy (snd (EnvSetStrategy v e)) = v"
    "mset (agenda (module_item (snd (EnvSetStrategy v e)) k)) = mset (agenda (module_item e k))"
    "ListOfDefmodules (snd (EnvSetStrategy v e)) = ListOfDefmodules e"
proof -
  let ?e = "e\<lparr>Strategy := v\<rparr>"
  have valid: "valid_strategy ?e" "distinct (ListOfDefmodules ?e)"
    using wf v by (simp_all add: valid_strategy_def agenda_wf_def modules_wf_def)
  have loose: "\<forall>m \<in> set (ListOfDefmodules ?e). module_loose ?e m"
    using wf by (simp add: module_loose_strategy agenda_wf_def modules_wf_def module_wf_loose)
  note re = EnvReorderAgenda_wf [OF valid loose]
  have "same_order ?e (EnvReorderAgenda None ?e)" using re(2) by (simp add: same_setting_def)
  then have st: "Strategy (EnvReorderAgenda None ?e) = v" by (simp add: same_order_def)
  have tot: "agenda_total ?e = agenda_total e" by (simp add: agenda_total_def)
  have eq: "snd (EnvSetStrategy v e) = (if Strategy e = v then e else EnvReorderAgenda None ?e)"
    by (simp add: EnvSetStrategy_def Let_def)
  show "agenda_wf (snd (EnvSetStrategy v e))" using wf re tot by (simp add: eq agenda_wf_def)
  show "Strategy (snd (EnvSetStrategy v e)) = v" using st by (simp add: eq)
  show "mset (agenda (module_item (snd (EnvSetStrategy v e)) k)) = mset (agenda (module_item e k))"
    using re(3) by (simp add: eq)
  show "ListOfDefmodules (snd (EnvSetStrategy v e)) = ListOfDefmodules e" using re(2) by (simp add: eq same_setting_def)
qed

section \<open>Refreshing saliences\<close>

lemma refresh_saliences_same:
  "same_agenda e (snd (refresh_saliences ev as e)) \<and>
   list_all2 (\<lambda>a b. \<exists>s. b = a\<lparr>salience := s\<rparr>) as (fst (refresh_saliences ev as e))"
proof (induction as arbitrary: e)
  case Nil
  then show ?case by (simp add: same_agenda_def)
next
  case (Cons a as)
  let ?e = "snd (EvaluateSalience ev (theRule a) e)"
  have "same_agenda e ?e" by (rule EvaluateSalience_same_agenda)
  from same_agenda_trans [OF this] Cons.IH [of ?e] show ?case
    by (auto simp: case_prod_beta Let_def)
qed

text \<open>The identity of an activation: all but its salience.\<close>

definition ident :: "activation \<Rightarrow> activation" where
  "ident a = a\<lparr>salience := 0\<rparr>"

lemma ident_fields:
  "ident a = ident b \<longleftrightarrow> address a = address b \<and> theRule a = theRule b \<and> basis a = basis b \<and>
     timetag a = timetag b \<and> randomID a = randomID b"
  by (cases a; cases b) (simp add: ident_def)

lemma resalience_map:
  assumes "list_all2 (\<lambda>a b. \<exists>s. b = a\<lparr>salience := s\<rparr>) as bs"
  shows "map ident bs = map ident as"
  using assms by (induction rule: list_all2_induct) (auto simp: ident_def)

lemma ident_map:
  assumes "map ident bs = map ident as" and "\<And>a b. ident a = ident b \<Longrightarrow> f a = f b"
  shows "map f bs = map f as"
  using assms(1)
proof (induction bs arbitrary: as)
  case (Cons b bs)
  then obtain a as' where as: "as = a # as'" and eq: "ident b = ident a"
    and rest: "map ident bs = map ident as'" by (cases as) auto
  have "f b = f a" by (rule assms(2) [OF eq])
  then show ?case using Cons.IH [OF rest] as by simp
qed simp

lemma ident_all:
  assumes "map ident bs = map ident as" and "\<And>a b. ident a = ident b \<Longrightarrow> P a = P b"
  shows "(\<forall>b \<in> set bs. P b) = (\<forall>a \<in> set as. P a)"
proof -
  have "map P bs = map P as" by (rule ident_map [OF assms])
  then have "list_all id (map P bs) = list_all id (map P as)" by simp
  then show ?thesis by (simp add: list_all_iff)
qed

lemma refresh_module_wf:
  assumes valid: "valid_strategy e" and loose: "module_loose e m"
  shows "module_wf (refresh_module ev m e) m"
    and "same_elsewhere m e (refresh_module ev m e)"
    and "image_mset ident (mset (agenda (module_item (refresh_module ev m e) m))) =
      image_mset ident (mset (agenda (module_item e m)))"
    and "NumberOfActivations (refresh_module ev m e) = NumberOfActivations e"
    and "mset (agenda (module_item (refresh_module ev m e) m)) =
      mset (fst (refresh_saliences ev (agenda (module_item e m)) (EnvSetCurrentModule m e)))"
proof -
  define e1 where "e1 = EnvSetCurrentModule m e"
  define e2 where "e2 = snd (refresh_saliences ev (agenda (module_item e1 m)) e1)"
  define as where "as = fst (refresh_saliences ev (agenda (module_item e1 m)) e1)"
  define e3 where "e3 = set_item m ((module_item e2 m)\<lparr>agenda := as\<rparr>) e2"
  have f: "refresh_module ev m e = reorder_module m e3"
    by (simp add: refresh_module_def Let_def case_prod_beta e1_def e2_def e3_def as_def
        EnvReorderAgenda_def)
  have sa1: "same_agenda e e1" unfolding e1_def by (rule EnvSetCurrentModule_same_agenda)
  have "same_agenda e1 e2" using refresh_saliences_same by (auto simp: e2_def)
  then have sa: "same_agenda e e2" by (rule same_agenda_trans [OF sa1])
  have ids: "map ident as = map ident (agenda (module_item e m))"
    using refresh_saliences_same [of e1 ev "agenda (module_item e1 m)"] same_agendaD(6) [OF sa1]
    by (intro resalience_map) (simp add: as_def)
  have se: "same_elsewhere m e e3"
    using sa by (simp add: e3_def same_elsewhere_def same_agenda_def same_setting_def same_order_def
        frame_simps) (simp add: set_item_def)
  have so: "same_order e e3" using se by (simp add: same_elsewhere_def same_setting_def)
  have ag: "agenda (module_item e3 m) = as" by (simp add: e3_def)
  have "map address as = map address (agenda (module_item e m))"
      "map timetag as = map timetag (agenda (module_item e m))"
    by (auto intro!: ident_map [OF ids] simp: ident_fields)
  moreover have "(\<forall>a \<in> set as. mea_ok e a \<and> r_module (rules e (theRule a)) = m \<and>
        address a < freeAddress e \<and> timetag a < CurrentTimetag e) =
      (\<forall>a \<in> set (agenda (module_item e m)). mea_ok e a \<and> r_module (rules e (theRule a)) = m \<and>
        address a < freeAddress e \<and> timetag a < CurrentTimetag e)"
  proof (rule ident_all [OF ids])
    fix a b
    assume *: "ident a = ident b"
    then have "mea_ok e a = mea_ok e b" by (intro mea_ok_basis) (simp add: ident_fields)
    then show "(mea_ok e a \<and> r_module (rules e (theRule a)) = m \<and>
        address a < freeAddress e \<and> timetag a < CurrentTimetag e) =
      (mea_ok e b \<and> r_module (rules e (theRule b)) = m \<and>
        address b < freeAddress e \<and> timetag b < CurrentTimetag e)"
      using * by (simp add: ident_fields)
  qed
  ultimately have loose3: "module_loose e3 m"
    using loose mea_ok_cong [OF so] se
    by (simp add: module_loose_def ag same_elsewhere_def same_setting_def)
  have valid3: "valid_strategy e3" using valid valid_strategy_same [OF so] by simp
  then have pre: "\<forall>a \<in> set (agenda (module_item e3 m)). mea_ok e3 a"
      "distinct (map address (agenda (module_item e3 m)))"
      "distinct (map timetag (agenda (module_item e3 m)))"
    using loose3 by (simp_all add: module_loose_def)
  note re = reorder_module_item [OF valid3 pre]
  show "module_wf (refresh_module ev m e) m" unfolding f by (rule reorder_module_wf [OF valid3 loose3])
  show "same_elsewhere m e (refresh_module ev m e)"
    unfolding f by (rule same_elsewhere_trans [OF se re(3)])
  show "image_mset ident (mset (agenda (module_item (refresh_module ev m e) m))) =
      image_mset ident (mset (agenda (module_item e m)))"
    unfolding f re(2) ag using ids by (metis mset_map)
  show "NumberOfActivations (refresh_module ev m e) = NumberOfActivations e"
    unfolding f re(4) using same_agendaD(7) [OF sa] by (simp add: e3_def frame_simps)
  show "mset (agenda (module_item (refresh_module ev m e) m)) =
      mset (fst (refresh_saliences ev (agenda (module_item e m)) (EnvSetCurrentModule m e)))"
    unfolding f re(2) ag as_def using same_agendaD(6) [OF sa1] by (simp add: e1_def)
qed

interpretation refresh: module_pass "refresh_module ev" ident for ev
  using refresh_module_wf by unfold_locales auto

lemma SaveRestore_same:
  assumes "same_agenda (SaveCurrentModule e) f"
  shows "same_agenda e (RestoreCurrentModule f)"
  using assms
  by (auto simp: same_agenda_def same_setting_def same_order_def SaveCurrentModule_def
      RestoreCurrentModule_def split: list.split prod.split)

lemma SaveCurrentModule_same: "same_agenda e (SaveCurrentModule e)"
  by (simp add: same_agenda_def same_setting_def same_order_def SaveCurrentModule_def)

lemma RestoreCurrentModule_same: "same_agenda e (RestoreCurrentModule e)"
  by (auto simp: same_agenda_def same_setting_def same_order_def
      RestoreCurrentModule_def split: list.split prod.split)

lemma SetSalienceEvaluation_same: "same_agenda e (snd (EnvSetSalienceEvaluation v e))"
  by (simp add: same_agenda_def same_setting_def same_order_def EnvSetSalienceEvaluation_def)

lemma EnvRefreshAgenda_pass:
  assumes wf: "modules_wf e"
  shows "modules_wf (EnvRefreshAgenda ev None e)"
    and "same_setting e (EnvRefreshAgenda ev None e)"
    and "image_mset ident (mset (agenda (module_item (EnvRefreshAgenda ev None e) k))) =
      image_mset ident (mset (agenda (module_item e k)))"
    and "NumberOfActivations (EnvRefreshAgenda ev None e) = NumberOfActivations e"
    and "agenda_total (EnvRefreshAgenda ev None e) = agenda_total e"
proof -
  define e2 where "e2 = snd (EnvSetSalienceEvaluation 1 (SaveCurrentModule e))"
  define e3 where "e3 = fold (refresh_module ev) (ListOfDefmodules e2) e2"
  define e4 where "e4 = RestoreCurrentModule
    (snd (EnvSetSalienceEvaluation (SalienceEvaluation e) e3))"
  have eq: "EnvRefreshAgenda ev None e = e4"
    by (simp add: EnvRefreshAgenda_def e4_def e3_def e2_def Let_def EnvSetSalienceEvaluation_def
        SaveCurrentModule_def)
  have s2: "same_agenda e e2" unfolding e2_def
    by (rule same_agenda_trans [OF SaveCurrentModule_same SetSalienceEvaluation_same])
  have s4: "same_agenda e3 e4" unfolding e4_def
    by (rule same_agenda_trans [OF SetSalienceEvaluation_same RestoreCurrentModule_same])
  have wf2: "modules_wf e2" using wf modules_wf_same [OF s2] by simp
  then have "valid_strategy e2" "distinct (ListOfDefmodules e2)"
    "\<forall>m \<in> set (ListOfDefmodules e2). module_loose e2 m"
    by (simp_all add: modules_wf_def module_wf_loose)
  note p = refresh.pass_all [OF this e3_def]
  show "modules_wf (EnvRefreshAgenda ev None e)" using p(1) modules_wf_same [OF s4] eq by simp
  show "same_setting e (EnvRefreshAgenda ev None e)"
    using s2 p(2) s4 by (auto simp: eq same_agenda_def intro: same_setting_trans)
  show "image_mset ident (mset (agenda (module_item (EnvRefreshAgenda ev None e) k))) =
      image_mset ident (mset (agenda (module_item e k)))"
    using p(3) same_agendaD(6) [OF s2] same_agendaD(6) [OF s4] by (simp add: eq)
  show "NumberOfActivations (EnvRefreshAgenda ev None e) = NumberOfActivations e"
    using p(4) same_agendaD(7) [OF s2] same_agendaD(7) [OF s4] by (simp add: eq)
  show "agenda_total (EnvRefreshAgenda ev None e) = agenda_total e"
    using p(5) agenda_total_same [OF s2] agenda_total_same [OF s4] by (simp add: eq)
qed

lemma EnvRefreshAgenda_wf:
  assumes "agenda_wf e"
  shows "agenda_wf (EnvRefreshAgenda ev None e)"
  using assms EnvRefreshAgenda_pass [of e ev] by (simp add: agenda_wf_def)

text \<open>The salience that a rule is given: the value of its salience expression, if that is an integer in the range after
  the conversion to 32 bits, and otherwise the salience that it has.\<close>

definition refreshed_salience :: "(addr \<Rightarrow> val option) \<Rightarrow> defrule \<Rightarrow> int" where
  "refreshed_salience value r =
     (case dynamicSalience r of
        Some x \<Rightarrow>
          (case value x of
             Some (INTEGER i) \<Rightarrow> if - 10000 \<le> to_int32 i \<and> to_int32 i \<le> 10000 then to_int32 i else r_salience r
           | _ \<Rightarrow> r_salience r)
      | None \<Rightarrow> r_salience r)"

text \<open>The state of a refresh whose salience expressions have fixed values: what the rules will be given does not change.\<close>

definition refreshing :: "(addr \<Rightarrow> val option) \<Rightarrow> env \<Rightarrow> env \<Rightarrow> bool" where
  "refreshing value e f \<longleftrightarrow> SalienceEvaluation f = 1 \<and>
     (\<forall>r. refreshed_salience value (rules f r) = refreshed_salience value (rules e r))"

lemma EvaluateSalience_value:
  assumes "\<And>g x. ev g x = value x" "refreshing value e f"
  shows "fst (EvaluateSalience ev r f) = refreshed_salience value (rules e r)" "refreshing value e (snd (EvaluateSalience ev r f))"
proof -
  have w: "SalienceEvaluation f = 1" "refreshed_salience value (rules f q) = refreshed_salience value (rules e q)" for q
    using assms(2) by (simp_all add: refreshing_def)
  note simps = EvaluateSalience_def EnvGetSalienceEvaluation_def refreshed_salience_def assms(1) Let_def w(1)
    SetEvaluationError_def print_message_def
  have "fst (EvaluateSalience ev r f) = refreshed_salience value (rules e r) \<and> refreshing value e (snd (EvaluateSalience ev r f))"
  proof (cases "dynamicSalience (rules f r)")
    case None
    then have "EvaluateSalience ev r f = (r_salience (rules f r), f)" "refreshed_salience value (rules f r) = r_salience (rules f r)"
      by (simp_all add: simps)
    then show ?thesis using w assms(2) by simp
  next
    case (Some x)
    show ?thesis
    proof (cases "\<exists>i. value x = Some (INTEGER i) \<and> - 10000 \<le> to_int32 i \<and> to_int32 i \<le> 10000")
      case False
      have rest: "rules (snd (EvaluateSalience ev r f)) = rules f" "SalienceEvaluation (snd (EvaluateSalience ev r f)) = SalienceEvaluation f"
        using False Some by (auto simp: simps split: option.split val.split)
      have "fst (EvaluateSalience ev r f) = refreshed_salience value (rules f r)"
        using False Some by (auto simp: simps split: option.split val.split)
      then show ?thesis using rest w by (simp add: refreshing_def)
    next
      case True
      then obtain i where i: "value x = Some (INTEGER i)" "- 10000 \<le> to_int32 i" "to_int32 i \<le> 10000" by blast
      have eq: "EvaluateSalience ev r f =
          (to_int32 i, set_rule r ((rules f r)\<lparr>r_salience := to_int32 i\<rparr>) (SetEvaluationError False f))"
        using i Some by (simp add: simps)
      have "refreshed_salience value (rules f r) = to_int32 i"
        "refreshed_salience value ((rules f r)\<lparr>r_salience := to_int32 i\<rparr>) = to_int32 i"
        using i Some by (simp_all add: refreshed_salience_def)
      then show ?thesis using w by (simp add: eq refreshing_def set_rule_def SetEvaluationError_def)
    qed
  qed
  then show "fst (EvaluateSalience ev r f) = refreshed_salience value (rules e r)" "refreshing value e (snd (EvaluateSalience ev r f))"
    by simp_all
qed

lemma refresh_saliences_value:
  assumes "\<And>g x. ev g x = value x" "refreshing value e f"
  shows "fst (refresh_saliences ev as f) = map (\<lambda>a. a\<lparr>salience := refreshed_salience value (rules e (theRule a))\<rparr>) as \<and>
    refreshing value e (snd (refresh_saliences ev as f))"
  using assms(2)
proof (induction as arbitrary: f)
  case (Cons a as)
  note v = EvaluateSalience_value [of ev, OF assms(1) Cons.prems, of "theRule a"]
  show ?case using Cons.IH [OF v(2)] v(1) by (simp add: case_prod_beta Let_def)
qed simp

text \<open>None of these passes touches the focus stack.\<close>

lemma place_list_focus: "CurrentFocus (place_list m as e) = CurrentFocus e"
proof (induction as arbitrary: e)
  case (Cons a as)
  have "CurrentFocus (place_new m a e) = CurrentFocus e"
    by (subst place_new_env) (simp add: set_item_def)
  then show ?case using Cons by simp
qed simp

lemma EvaluateSalience_focus: "CurrentFocus (snd (EvaluateSalience ev r e)) = CurrentFocus e"
  by (simp add: EvaluateSalience_def Let_def SetEvaluationError_def print_message_def set_rule_def
      split: option.split val.split)

lemma refresh_saliences_focus: "CurrentFocus (snd (refresh_saliences ev as e)) = CurrentFocus e"
proof (induction as arbitrary: e)
  case (Cons a as)
  then show ?case
    using EvaluateSalience_focus [of ev "theRule a" e] by (simp add: case_prod_beta Let_def)
qed simp

lemma reorder_module_focus: "CurrentFocus (reorder_module m e) = CurrentFocus e"
  by (simp add: reorder_module_def place_list_focus frame_simps)

lemma refresh_module_focus: "CurrentFocus (refresh_module ev m e) = CurrentFocus e"
  by (simp add: refresh_module_def Let_def case_prod_beta EnvReorderAgenda_def reorder_module_focus
      frame_simps refresh_saliences_focus EnvSetCurrentModule_def)

lemma fold_keeps: "(\<And>x e. f (g x e) = f e) \<Longrightarrow> f (fold g xs e) = f e"
  by (induction xs arbitrary: e) simp_all

lemma EnvReorderAgenda_focus: "CurrentFocus (EnvReorderAgenda p e) = CurrentFocus e"
  by (cases p)
     (simp_all add: EnvReorderAgenda_def reorder_module_focus
       fold_keeps [of CurrentFocus reorder_module, OF reorder_module_focus])

lemma EnvRefreshAgenda_focus: "CurrentFocus (EnvRefreshAgenda ev None e) = CurrentFocus e"
proof -
  have r: "CurrentFocus (RestoreCurrentModule e) = CurrentFocus e" for e
    by (simp add: RestoreCurrentModule_def split: list.split)
  show ?thesis
    by (simp add: EnvRefreshAgenda_def Let_def case_prod_beta r EnvSetSalienceEvaluation_def
        fold_keeps [of CurrentFocus "refresh_module ev", OF refresh_module_focus]
        SaveCurrentModule_def)
qed

text \<open>Refreshing gives every activation the salience of its rule.\<close>

lemma reorder_module_rules:
  "rules (reorder_module m e) = rules e" "SalienceEvaluation (reorder_module m e) = SalienceEvaluation e"
proof -
  have "rules (place_new m a e) = rules e" "SalienceEvaluation (place_new m a e) = SalienceEvaluation e" for a e
    by (subst place_new_env, simp add: set_item_def)+
  then have "rules (place_list m as e) = rules e" "SalienceEvaluation (place_list m as e) = SalienceEvaluation e" for as e
    by (induction as arbitrary: e) simp_all
  then show "rules (reorder_module m e) = rules e" "SalienceEvaluation (reorder_module m e) = SalienceEvaluation e"
    by (simp_all add: reorder_module_def set_item_def)
qed

definition has_refreshed :: "(addr \<Rightarrow> val option) \<Rightarrow> env \<Rightarrow> activation list \<Rightarrow> bool" where
  "has_refreshed value e as \<longleftrightarrow> (\<forall>a \<in> set as. salience a = refreshed_salience value (rules e (theRule a)))"

lemma refresh_module_value:
  assumes "\<And>g x. ev g x = value x" "refreshing value e f" "valid_strategy f" "module_loose f m"
  shows "refreshing value e (refresh_module ev m f)" "has_refreshed value e (agenda (module_item (refresh_module ev m f) m))"
proof -
  define f1 where "f1 = EnvSetCurrentModule m f"
  define f2 where "f2 = snd (refresh_saliences ev (agenda (module_item f1 m)) f1)"
  define as where "as = fst (refresh_saliences ev (agenda (module_item f1 m)) f1)"
  define f3 where "f3 = set_item m ((module_item f2 m)\<lparr>agenda := as\<rparr>) f2"
  have eq: "refresh_module ev m f = reorder_module m f3"
    by (simp add: refresh_module_def Let_def case_prod_beta f1_def f2_def f3_def as_def EnvReorderAgenda_def)
  have "refreshing value e f1" using assms(2) by (simp add: f1_def EnvSetCurrentModule_def refreshing_def Let_def)
  from refresh_saliences_value [of ev, OF assms(1) this]
  have v: "as = map (\<lambda>a. a\<lparr>salience := refreshed_salience value (rules e (theRule a))\<rparr>) (agenda (module_item f1 m))"
      "refreshing value e f2" by (simp_all add: as_def f2_def)
  then show "refreshing value e (refresh_module ev m f)"
    by (simp add: eq refreshing_def reorder_module_rules f3_def set_item_def)
  have "module_item f1 m = module_item f m" using same_agendaD(6) [OF EnvSetCurrentModule_same_agenda [of f m]] by (simp add: f1_def)
  then have "mset (agenda (module_item (refresh_module ev m f) m)) = mset as"
    using refresh_module_wf(5) [OF assms(3,4), of ev] by (simp add: as_def f1_def)
  then have "set (agenda (module_item (refresh_module ev m f) m)) = set as" by (metis set_mset_mset)
  then show "has_refreshed value e (agenda (module_item (refresh_module ev m f) m))"
    unfolding has_refreshed_def v(1) by auto
qed

lemma refresh_modules_value:
  assumes "\<And>g x. ev g x = value x" "refreshing value e f" "valid_strategy f" "distinct ms" "\<forall>m \<in> set ms. module_loose f m"
  shows "\<forall>m \<in> set ms. has_refreshed value e (agenda (module_item (fold (refresh_module ev) ms f) m))"
  using assms(2-5)
proof (induction ms arbitrary: f)
  case (Cons m ms)
  let ?f = "refresh_module ev m f"
  have loose: "module_loose f m" using Cons.prems(4) by simp
  note v = refresh_module_value [of ev, OF assms(1) Cons.prems(1,2) loose]
  have ss: "same_setting f ?f" and other: "\<And>k. k \<noteq> m \<Longrightarrow> module_item ?f k = module_item f k"
    using refresh_module_wf(2) [OF Cons.prems(2) loose] by (simp_all add: same_elsewhere_def)
  have "same_order f ?f" using ss by (simp add: same_setting_def)
  then have valid: "valid_strategy ?f" using Cons.prems(2) valid_strategy_same [of f ?f] by simp
  have l: "\<forall>k \<in> set ms. module_loose ?f k"
  proof
    fix k assume "k \<in> set ms"
    then have "k \<noteq> m" "module_loose f k" using Cons.prems(3,4) by auto
    then show "module_loose ?f k" using module_loose_same [OF ss other] by blast
  qed
  have "module_item (fold (refresh_module ev) ms ?f) m = module_item ?f m"
    using refresh.pass_modules [OF valid _ l, of ev] Cons.prems(3) by (simp add: Let_def)
  then show ?case using Cons.IH [OF v(1) valid _ l] Cons.prems(3) v(2) by simp
qed simp

text \<open>An activation is determined by its identity and its salience.\<close>

lemma refreshed_agenda:
  assumes "image_mset ident (mset bs) = image_mset ident (mset as)" "has_refreshed value e bs"
  shows "mset bs = image_mset (\<lambda>a. a\<lparr>salience := refreshed_salience value (rules e (theRule a))\<rparr>) (mset as)"
proof -
  let ?g = "\<lambda>a. a\<lparr>salience := refreshed_salience value (rules e (theRule a))\<rparr>"
  have g: "?g (ident a) = ?g a" for a by (simp add: ident_def)
  have "?g b = b" if "b \<in># mset bs" for b using assms(2) that by (simp add: has_refreshed_def)
  then have "image_mset ?g (mset bs) = image_mset id (mset bs)" by (intro image_mset_cong) simp
  then have "mset bs = image_mset ?g (mset bs)" by simp
  also have "\<dots> = image_mset ?g (image_mset ident (mset bs))" unfolding multiset.map_comp comp_def g ..
  also have "\<dots> = image_mset ?g (mset as)" unfolding assms(1) multiset.map_comp comp_def g ..
  finally show ?thesis .
qed

lemma EnvRefreshAgenda_value:
  assumes "modules_wf e" "\<And>g x. ev g x = value x" "k \<in> set (ListOfDefmodules e)"
  shows "mset (agenda (module_item (EnvRefreshAgenda ev None e) k)) =
    image_mset (\<lambda>a. a\<lparr>salience := refreshed_salience value (rules e (theRule a))\<rparr>) (mset (agenda (module_item e k)))"
proof (rule refreshed_agenda [OF EnvRefreshAgenda_pass(3) [OF assms(1)]])
  define e2 where "e2 = snd (EnvSetSalienceEvaluation 1 (SaveCurrentModule e))"
  define e3 where "e3 = fold (refresh_module ev) (ListOfDefmodules e2) e2"
  define e4 where "e4 = RestoreCurrentModule (snd (EnvSetSalienceEvaluation (SalienceEvaluation e) e3))"
  have eq: "EnvRefreshAgenda ev None e = e4"
    by (simp add: EnvRefreshAgenda_def e4_def e3_def e2_def Let_def EnvSetSalienceEvaluation_def SaveCurrentModule_def)
  have s2: "same_agenda e e2" unfolding e2_def
    by (rule same_agenda_trans [OF SaveCurrentModule_same SetSalienceEvaluation_same])
  have s4: "same_agenda e3 e4" unfolding e4_def
    by (rule same_agenda_trans [OF SetSalienceEvaluation_same RestoreCurrentModule_same])
  have "modules_wf e2" using assms(1) modules_wf_same [OF s2] by simp
  then have w: "valid_strategy e2" "distinct (ListOfDefmodules e2)" "\<forall>m \<in> set (ListOfDefmodules e2). module_loose e2 m"
    by (simp_all add: modules_wf_def module_wf_loose)
  have "refreshing value e e2" by (simp add: e2_def refreshing_def EnvSetSalienceEvaluation_def SaveCurrentModule_def)
  moreover have "k \<in> set (ListOfDefmodules e2)" using assms(3) s2 by (simp add: same_agenda_def same_setting_def)
  ultimately have "has_refreshed value e (agenda (module_item e3 k))"
    using refresh_modules_value [of ev, OF assms(2) _ w] by (simp add: e3_def)
  then show "has_refreshed value e (agenda (module_item (EnvRefreshAgenda ev None e) k))"
    using same_agendaD(6) [OF s4] by (simp add: eq)
qed

end
