(* ===== verification/Engine.thy ===== *)
theory Engine
  imports Agenda_Wf
begin

text \<open>
  The execution engine, \<open>engine.c\<close>: the choice of the next activation, the run loop
  with its limit, halting and breakpoints. What a rule's right-hand side does is the
  user's program; it enters as the parameter \<open>actions\<close> of the callbacks, beside the
  functions registered with \<open>EnvAddRunFunction\<close> and \<open>EnvAddBeforeRunFunction\<close>. The
  run loop and the walk along \<open>leftParent\<close> may not end, so both are partial functions
  into \<open>option\<close>. Not modelled: the statistics and trace output of \<open>watch\<close>, and the
  reclaiming of garbage, which frees only unreachable objects.
\<close>

record callbacks =
  actions :: "addr \<Rightarrow> env \<Rightarrow> env option"
  before_run :: "(activation \<Rightarrow> env \<Rightarrow> env) list"
  run_functions :: "(env \<Rightarrow> env) list"
  periodic_tasks :: "env \<Rightarrow> env"
  salience_value :: evaluator

section \<open>The next activation\<close>

text \<open>The loop of \<open>NextActivationToFire\<close>: pop modules with an empty agenda.\<close>

function pop_idle :: "env \<Rightarrow> activation option \<times> env" where
  "pop_idle e =
     (case CurrentFocus e of
        [] \<Rightarrow> (None, e)
      | m # _ \<Rightarrow> (case agenda (module_item e m) of
                    a # _ \<Rightarrow> (Some a, e)
                  | [] \<Rightarrow> pop_idle (snd (EnvPopFocus e))))"
  by pat_completeness auto
termination
  by (relation "measure (\<lambda>e. length (CurrentFocus e))") (auto simp: EnvPopFocus_stack)

declare pop_idle.simps [simp del]

definition NextActivationToFire :: "env \<Rightarrow> activation option \<times> env" where
  "NextActivationToFire e =
     (let e1 = (if CurrentFocus e = []
                then (case EnvFindDefmodule ''MAIN'' e of None \<Rightarrow> e | Some m \<Rightarrow> EnvFocus m e)
                else e)
      in pop_idle e1)"

section \<open>Firing one rule\<close>

text \<open>\<open>incrementBasisCount\<close> and \<open>decrementBasisCount\<close> of the matched items.\<close>

definition change_busy :: "32 word \<Rightarrow> addr \<Rightarrow> env \<Rightarrow> env" where
  "change_busy d x e = e\<lparr>entities := (entities e)
     (x := (entities e x)\<lparr>busyCount := busyCount (entities e x) + d\<rparr>)\<rparr>"

fun count_items :: "32 word \<Rightarrow> pointer option list \<Rightarrow> env \<Rightarrow> env" where
  "count_items d [] e = e"
| "count_items d (None # bs) e = count_items d bs e"
| "count_items d (Some None # bs) e = count_items d bs e"
| "count_items d (Some (Some x) # bs) e = count_items d bs (change_busy d x e)"

partial_function (option) FindLogicalBind :: "env \<Rightarrow> addr \<Rightarrow> pointer \<Rightarrow> pointer option" where
  "FindLogicalBind e j p =
     (case p of
        None \<Rightarrow> Some None
      | Some b \<Rightarrow> if owner (matches e b) = j then Some (Some b)
                  else FindLogicalBind e j (leftParent (matches e b)))"

definition set_busy :: "bool \<Rightarrow> addr \<Rightarrow> env \<Rightarrow> env" where
  "set_busy v b e = set_match b ((matches e b)\<lparr>busy := v\<rparr>) e"

definition set_executing :: "bool \<Rightarrow> env \<Rightarrow> env" where
  "set_executing v e = (case ExecutingRule e of None \<Rightarrow> e
     | Some r \<Rightarrow> set_rule r ((rules e r)\<lparr>executing := v\<rparr>) e)"

text \<open>The activation a pointer denotes now: a function called before the firing may
  have changed its salience.\<close>

definition deref :: "activation \<Rightarrow> env \<Rightarrow> activation" where
  "deref a e = (case find (\<lambda>b. address b = address a)
       (agenda (module_item e (r_module (rules e (theRule a))))) of
     Some b \<Rightarrow> b | None \<Rightarrow> a)"

text \<open>From detaching the activation to pinning the matched items.\<close>

definition start_firing :: "activation \<Rightarrow> env \<Rightarrow> env" where
  "start_firing a e =
     (let e1 = (DetachActivation a e)\<lparr>ExecutingRule := Some (theRule a)\<rparr>;
          b = basis a;
          e2 = set_match b ((matches e1 b)\<lparr>marker := None, busy := True\<rparr>) e1;
          e3 = e2\<lparr>GlobalLHSBinds := Some b, GlobalRHSBinds := None\<rparr>
      in count_items 1 (binds (matches e3 b)) e3)"

text \<open>The logical join of the rule and the match that will support what it asserts.
  The code dereferences the match without a test; a rule with a logical join always
  finds one.\<close>

definition set_logical :: "addr \<Rightarrow> env \<Rightarrow> env option" where
  "set_logical r e =
     (let e1 = e\<lparr>TheLogicalJoin := logicalJoin (rules e r)\<rparr>
      in case TheLogicalJoin e1 of
           None \<Rightarrow> Some (e1\<lparr>TheLogicalBind := None\<rparr>)
         | Some j \<Rightarrow>
             (case FindLogicalBind e1 j (GlobalLHSBinds e1) of
                None \<Rightarrow> None
              | Some p \<Rightarrow> (let e2 = e1\<lparr>TheLogicalBind := p\<rparr>
                           in Some (case p of None \<Rightarrow> e2 | Some b \<Rightarrow> set_busy True b e2))))"

text \<open>The actions may not end, which is \<open>None\<close>.\<close>

definition execute_actions :: "callbacks \<Rightarrow> addr \<Rightarrow> env \<Rightarrow> env option" where
  "execute_actions cb r e =
     (let e1 = e\<lparr>CurrentEvaluationDepth := CurrentEvaluationDepth e + 1\<rparr>;
          e2 = set_executing True (SetEvaluationError False e1)
      in case actions cb r e2 of
           None \<Rightarrow> None
         | Some e3 \<Rightarrow>
             (let e4 = SetEvaluationError False (set_executing False e3)
              in Some (e4\<lparr>CurrentEvaluationDepth := CurrentEvaluationDepth e4 - 1\<rparr>)))"

definition clear_logical :: "env \<Rightarrow> env" where
  "clear_logical e =
     (let e1 = e\<lparr>TheLogicalJoin := None\<rparr>
      in case TheLogicalBind e1 of None \<Rightarrow> e1
         | Some b \<Rightarrow> (set_busy False b e1)\<lparr>TheLogicalBind := None\<rparr>)"

definition report_halt :: "string \<Rightarrow> env \<Rightarrow> env" where
  "report_halt name e =
     (if HaltExecution e \<or>
         (HaltRules e \<and> (case ExecutingRule e of None \<Rightarrow> False | Some r \<Rightarrow> watchFiring (rules e r)))
      then print_message (ExecutionHalted name) e else e)"

text \<open>From releasing the match to the refresh of dynamic saliences.\<close>

definition finish_firing :: "callbacks \<Rightarrow> activation \<Rightarrow> env \<Rightarrow> env" where
  "finish_firing cb a e =
     (let e1 = set_busy False (basis a) e;
          e2 = count_items (- 1) (binds (matches e1 (basis a))) e1;
          e3 = RemoveActivation a False False e2;
          e4 = periodic_tasks cb e3
      in if EnvGetSalienceEvaluation e4 = EVERY_CYCLE
         then EnvRefreshAgenda (salience_value cb) None e4 else e4)"

definition handle_return :: "env \<Rightarrow> env" where
  "handle_return e =
     (let e1 = (if ReturnFlag e
                then (case ExecutingRule e of None \<Rightarrow> e
                      | Some r \<Rightarrow> snd (RemoveFocus (r_module (rules e r)) e))
                else e)
      in e1\<lparr>ReturnFlag := False\<rparr>)"

definition check_breakpoint :: "activation option \<Rightarrow> env \<Rightarrow> env" where
  "check_breakpoint p e =
     (case p of None \<Rightarrow> e
      | Some a \<Rightarrow> if afterBreakpoint (rules e (theRule a))
                  then print_message (BreakingOnRule (EnvGetActivationName e a))
                         (e\<lparr>HaltRules := True\<rparr>)
                  else e)"

text \<open>The body of the run loop: the next activation and the environment after it.\<close>

definition fire_rule :: "callbacks \<Rightarrow> activation \<Rightarrow> env \<Rightarrow> (activation option \<times> env) option" where
  "fire_rule cb a0 e =
     (let e1 = fold (\<lambda>f. f a0) (before_run cb) e;
          a = deref a0 e1;
          e2 = start_firing a e1;
          name = EnvGetActivationName e1 a
      in case set_logical (theRule a) e2 of
           None \<Rightarrow> None
         | Some e3 \<Rightarrow>
             (case execute_actions cb (theRule a) e3 of
                None \<Rightarrow> None
              | Some e' \<Rightarrow>
                  (let e4 = report_halt name (clear_logical e');
                       e5 = fold (\<lambda>f. f) (run_functions cb) (finish_firing cb a e4);
                       (nxt, e6) = NextActivationToFire (handle_return e5)
                   in Some (nxt, check_breakpoint nxt e6))))"

section \<open>The run loop\<close>

text \<open>\<open>runLimit\<close> counts down to 0; a negative limit is no limit. The result holds
  what is left of the limit and the number of rules fired.\<close>

partial_function (option) run_loop ::
  "callbacks \<Rightarrow> activation option \<Rightarrow> int \<Rightarrow> int \<Rightarrow> env \<Rightarrow> (int \<times> int \<times> env) option" where
  "run_loop cb p runLimit rulesFired e =
     (case p of
        None \<Rightarrow> Some (runLimit, rulesFired, e)
      | Some a \<Rightarrow>
          if runLimit = 0 \<or> HaltExecution e \<or> HaltRules e then Some (runLimit, rulesFired, e)
          else
            (case fire_rule cb a e of
               None \<Rightarrow> None
             | Some r \<Rightarrow> run_loop cb (fst r) (if runLimit > 0 then runLimit - 1 else runLimit)
                            (rulesFired + 1) (snd r)))"

declare run_loop.simps [code] FindLogicalBind.simps [code]

text \<open>The end of a run: the run functions when nothing fired, the limit message, the
  execution variables, the current module.\<close>

definition finish_run :: "callbacks \<Rightarrow> int \<Rightarrow> int \<Rightarrow> env \<Rightarrow> env" where
  "finish_run cb runLimit rulesFired e =
     (let e1 = (if rulesFired = 0 then fold (\<lambda>f. f) (run_functions cb) e else e);
          e2 = (if runLimit = rulesFired then print_message FiringLimitReached e1 else e1);
          e3 = e2\<lparr>ExecutingRule := None, HaltRules := False\<rparr>;
          e4 = (case CurrentFocus e3 of [] \<Rightarrow> e3
                | m # _ \<Rightarrow> if CurrentModule e3 \<noteq> Some m then EnvSetCurrentModule m e3 else e3);
          e5 = periodic_tasks cb e4
      in e5\<lparr>AlreadyRunning := False\<rparr>)"

text \<open>The garbage frame is new at the test of \<open>topLevel\<close>, so the test fails and
  \<open>HaltExecution\<close> keeps its value.\<close>

definition EnvRun :: "callbacks \<Rightarrow> int \<Rightarrow> env \<Rightarrow> (int \<times> env) option" where
  "EnvRun cb runLimit e =
     (if AlreadyRunning e then Some (0, e)
      else
        (let e1 = e\<lparr>AlreadyRunning := True, HaltRules := False\<rparr>;
             (p, e2) = NextActivationToFire e1
         in case run_loop cb p runLimit 0 e2 of
              None \<Rightarrow> None
            | Some (lim, fired, e3) \<Rightarrow> Some (fired, finish_run cb lim fired e3)))"

definition DOToLong :: "val \<Rightarrow> int" where
  "DOToLong v = (case v of INTEGER i \<Rightarrow> i | _ \<Rightarrow> 0)"

definition RunCommand :: "callbacks \<Rightarrow> val list \<Rightarrow> env \<Rightarrow> env option" where
  "RunCommand cb args e =
     (let (n, e1) = EnvArgCountCheck ''run'' NO_MORE_THAN 1 args e
      in if n = - 1 then Some e1
         else if n = 0 then map_option snd (EnvRun cb (- 1) e1)
         else case EnvArgTypeCheck ''run'' 1 ty_INTEGER args e1 of
                (None, e2) \<Rightarrow> Some e2
              | (Some v, e2) \<Rightarrow> map_option snd (EnvRun cb (DOToLong v) e2))"

definition EnvHalt :: "env \<Rightarrow> env" where
  "EnvHalt e = e\<lparr>HaltRules := True\<rparr>"

definition EnvSetHaltRules :: "bool \<Rightarrow> env \<Rightarrow> env" where
  "EnvSetHaltRules v e = e\<lparr>HaltRules := v\<rparr>"

definition EnvGetHaltRules :: "env \<Rightarrow> bool" where
  "EnvGetHaltRules e = HaltRules e"

definition HaltCommand :: "val list \<Rightarrow> env \<Rightarrow> env" where
  "HaltCommand args e = EnvHalt (snd (EnvArgCountCheck ''halt'' EXACTLY 0 args e))"

section \<open>Breakpoints\<close>

definition EnvSetBreak :: "addr \<Rightarrow> env \<Rightarrow> env" where
  "EnvSetBreak r e =
     fold (\<lambda>q e'. set_rule q ((rules e' q)\<lparr>afterBreakpoint := True\<rparr>) e')
       (r # disjuncts (rules e r)) e"

fun remove_breaks :: "addr list \<Rightarrow> env \<Rightarrow> bool \<times> env" where
  "remove_breaks [] e = (False, e)"
| "remove_breaks (q # qs) e =
     (if afterBreakpoint (rules e q)
      then (True, snd (remove_breaks qs (set_rule q ((rules e q)\<lparr>afterBreakpoint := False\<rparr>) e)))
      else remove_breaks qs e)"

definition EnvRemoveBreak :: "addr \<Rightarrow> env \<Rightarrow> bool \<times> env" where
  "EnvRemoveBreak r e = remove_breaks (r # disjuncts (rules e r)) e"

text \<open>\<open>EnvGetNextDefrule\<close> started with \<open>NULL\<close> walks the rules of the current module,
  whichever module the outer loop is at.\<close>

definition RemoveAllBreakpoints :: "env \<Rightarrow> env" where
  "RemoveAllBreakpoints e =
     fold (\<lambda>m e'. fold (\<lambda>r e''. snd (EnvRemoveBreak r e'')) (current_rules e') e')
       (ListOfDefmodules e) e"

definition EnvDefruleHasBreakpoint :: "addr \<Rightarrow> env \<Rightarrow> bool" where
  "EnvDefruleHasBreakpoint r e = afterBreakpoint (rules e r)"

text \<open>The rule that a command names. \<open>EnvFindDefrule\<close> always returns (see
  \<open>EnvFindDefrule_returns\<close>); its outer \<open>None\<close> is read as not found.\<close>

definition find_rule :: "string \<Rightarrow> env \<Rightarrow> pointer \<times> env" where
  "find_rule name e = (case EnvFindDefrule name e of None \<Rightarrow> (None, e) | Some r \<Rightarrow> r)"

definition SetBreakCommand :: "val list \<Rightarrow> env \<Rightarrow> env" where
  "SetBreakCommand args e =
     (let (n, e1) = EnvArgCountCheck ''set-break'' EXACTLY 1 args e
      in if n = - 1 then e1
         else case EnvArgTypeCheck ''set-break'' 1 ty_SYMBOL args e1 of
                (None, e2) \<Rightarrow> e2
              | (Some v, e2) \<Rightarrow>
                  (case find_rule (DOToString v) e2 of
                     (None, e3) \<Rightarrow> print_message (CantFindItem ''defrule'' (DOToString v)) e3
                   | (Some r, e3) \<Rightarrow> EnvSetBreak r e3))"

definition RemoveBreakCommand :: "val list \<Rightarrow> env \<Rightarrow> env" where
  "RemoveBreakCommand args e =
     (let (n, e1) = EnvArgCountCheck ''remove-break'' NO_MORE_THAN 1 args e
      in if n = - 1 then e1
         else if n = 0 then RemoveAllBreakpoints e1
         else case EnvArgTypeCheck ''remove-break'' 1 ty_SYMBOL args e1 of
                (None, e2) \<Rightarrow> e2
              | (Some v, e2) \<Rightarrow>
                  (case find_rule (DOToString v) e2 of
                     (None, e3) \<Rightarrow> print_message (CantFindItem ''defrule'' (DOToString v)) e3
                   | (Some r, e3) \<Rightarrow>
                       (case EnvRemoveBreak r e3 of
                          (True, e4) \<Rightarrow> e4
                        | (False, e4) \<Rightarrow> print_message (NoBreakpointSet (DOToString v)) e4)))"

definition EnvShowBreaks :: "pointer \<Rightarrow> env \<Rightarrow> env" where
  "EnvShowBreaks m e =
     ListItemsDriver current_rules (\<lambda>r e. r_name (rules e r)) EnvDefruleHasBreakpoint False m e"

definition ShowBreaksCommand :: "val list \<Rightarrow> env \<Rightarrow> env" where
  "ShowBreaksCommand args e =
     (let (n, e1) = EnvArgCountCheck ''show-breaks'' NO_MORE_THAN 1 args e
      in if n = - 1 then e1
         else if n = 1 then
           (case GetModuleName ''show-breaks'' 1 args e1 of
              (True, _, e2) \<Rightarrow> e2
            | (False, m, e2) \<Rightarrow> EnvShowBreaks m e2)
         else EnvShowBreaks (CurrentModule e1) e1)"

section \<open>Refresh commands\<close>

definition RefreshCommand :: "evaluator \<Rightarrow> (nat \<Rightarrow> int) \<Rightarrow> val list \<Rightarrow> env \<Rightarrow> env" where
  "RefreshCommand ev rands args e =
     (case GetConstructName ''refresh'' args e of
        (None, e1) \<Rightarrow> e1
      | (Some name, e1) \<Rightarrow>
          (case find_rule name e1 of
             (None, e2) \<Rightarrow> print_message (CantFindItem ''defrule'' name) e2
           | (Some r, e2) \<Rightarrow> EnvRefresh ev rands r e2))"

text \<open>A current module that is \<open>NULL\<close> would refresh all modules.\<close>

definition RefreshAgendaCommand :: "evaluator \<Rightarrow> val list \<Rightarrow> env \<Rightarrow> env" where
  "RefreshAgendaCommand ev args e =
     (let (n, e1) = EnvArgCountCheck ''refresh-agenda'' NO_MORE_THAN 1 args e
      in if n = - 1 then e1
         else if n = 1 then
           (case GetModuleName ''refresh-agenda'' 1 args e1 of
              (True, _, e2) \<Rightarrow> e2
            | (False, m, e2) \<Rightarrow> EnvRefreshAgenda ev m e2)
         else EnvRefreshAgenda ev (CurrentModule e1) e1)"

end
