(* ===== verification/Engine_Wf.thy ===== *)
theory Engine_Wf
  imports Engine
begin

text \<open>
  Properties of the engine: what \<open>NextActivationToFire\<close> chooses, that a run keeps the
  agendas well formed, and that a run with a limit ends. The contract that a rule's
  right-hand side and the registered functions have to keep is the locale
  \<open>run_callbacks\<close>; it is interpreted for rules whose right-hand sides are sequences
  of the engine's own commands.
\<close>

section \<open>The next activation\<close>

lemma EnvPopFocus_same_agenda: "same_agenda e (snd (EnvPopFocus e))"
  by (auto simp: same_agenda_def same_setting_def same_order_def EnvPopFocus_def RemoveFocus_def
      EnvSetCurrentModule_def Let_def split: prod.split)

lemma RemoveFocus_same_agenda: "same_agenda e (snd (RemoveFocus m e))"
  by (auto simp: same_agenda_def same_setting_def same_order_def RemoveFocus_def
      EnvSetCurrentModule_def Let_def split: prod.split)

lemma same_agenda_refl [simp]: "same_agenda e e"
  by (simp add: same_agenda_def)

abbreviation idle :: "env \<Rightarrow> addr \<Rightarrow> bool" where
  "idle e m \<equiv> agenda (module_item e m) = []"

lemma pop_idle_spec:
  "same_agenda e (snd (pop_idle e)) \<and>
   CurrentFocus (snd (pop_idle e)) = dropWhile (idle e) (CurrentFocus e) \<and>
   fst (pop_idle e) = (case dropWhile (idle e) (CurrentFocus e) of [] \<Rightarrow> None
      | m # _ \<Rightarrow> Some (hd (agenda (module_item e m))))"
proof (induction e rule: pop_idle.induct)
  case (1 e)
  show ?case
  proof (cases "CurrentFocus e")
    case Nil
    then show ?thesis by (simp add: pop_idle.simps)
  next
    case (Cons m ms)
    show ?thesis
    proof (cases "agenda (module_item e m)")
      case Nil
      let ?e = "snd (EnvPopFocus e)"
      have sa: "same_agenda e ?e" by (rule EnvPopFocus_same_agenda)
      have "idle ?e = idle e" using same_agendaD(6) [OF sa] by simp
      moreover have "CurrentFocus ?e = ms" by (simp add: EnvPopFocus_stack Cons)
      ultimately show ?thesis
        using "1" [OF Cons Nil] same_agenda_trans [OF sa] Cons Nil same_agendaD(6) [OF sa]
        by (simp add: pop_idle.simps [of e] cong: list.case_cong)
    next
      case (Cons a as)
      then show ?thesis using \<open>CurrentFocus e = m # ms\<close> by (simp add: pop_idle.simps [of e])
    qed
  qed
qed

text \<open>The stack that the search starts from.\<close>

definition start_focus :: "env \<Rightarrow> addr list" where
  "start_focus e = (if CurrentFocus e = []
     then (case EnvFindDefmodule ''MAIN'' e of None \<Rightarrow> [] | Some m \<Rightarrow> [m])
     else CurrentFocus e)"

lemma EnvFocus_empty: "CurrentFocus e = [] \<Longrightarrow> CurrentFocus (EnvFocus m e) = [m]"
  by (simp add: EnvFocus_def EnvSetCurrentModule_def Let_def)

lemma NextActivationToFire_spec:
  "same_agenda e (snd (NextActivationToFire e))"
  "CurrentFocus (snd (NextActivationToFire e)) = dropWhile (idle e) (start_focus e)"
  "fst (NextActivationToFire e) = (case dropWhile (idle e) (start_focus e) of [] \<Rightarrow> None
      | m # _ \<Rightarrow> Some (hd (agenda (module_item e m))))"
proof -
  define e1 where "e1 = (if CurrentFocus e = []
     then (case EnvFindDefmodule ''MAIN'' e of None \<Rightarrow> e | Some m \<Rightarrow> EnvFocus m e) else e)"
  have sa: "same_agenda e e1"
    using EnvFocus_same_agenda by (auto simp: e1_def split: option.split)
  have cf: "CurrentFocus e1 = start_focus e"
    by (auto simp: e1_def start_focus_def EnvFocus_empty split: option.split)
  have eq: "NextActivationToFire e = pop_idle e1" by (simp add: NextActivationToFire_def e1_def)
  have "idle e1 = idle e" using same_agendaD(6) [OF sa] by simp
  note ps = pop_idle_spec [of e1, unfolded this cf same_agendaD(6) [OF sa]]
  show "same_agenda e (snd (NextActivationToFire e))"
    "CurrentFocus (snd (NextActivationToFire e)) = dropWhile (idle e) (start_focus e)"
    "fst (NextActivationToFire e) = (case dropWhile (idle e) (start_focus e) of [] \<Rightarrow> None
      | m # _ \<Rightarrow> Some (hd (agenda (module_item e m))))"
    using ps same_agenda_trans [OF sa] by (simp_all add: eq)
qed

lemma find_module_in: "find_module ms name L = Some m \<Longrightarrow> m \<in> set L"
  by (induction L) (auto split: if_splits)

section \<open>Well-formed run states\<close>

text \<open>Chains of \<open>leftParent\<close> end.\<close>

definition left_chains :: "env \<Rightarrow> bool" where
  "left_chains e \<longleftrightarrow> (\<exists>rank :: addr \<Rightarrow> nat. \<forall>b p. leftParent (matches e b) = Some p \<longrightarrow> rank p < rank b)"

text \<open>\<open>k\<close> counts the activations that are detached but not yet released.\<close>

definition run_wf :: "nat \<Rightarrow> env \<Rightarrow> bool" where
  "run_wf k e \<longleftrightarrow> modules_wf e \<and> NumberOfActivations e = word_of_nat (agenda_total e + k) \<and>
     set (CurrentFocus e) \<subseteq> set (ListOfDefmodules e) \<and> left_chains e"

lemma run_wf_agenda: "run_wf 0 e \<Longrightarrow> agenda_wf e"
  by (simp add: run_wf_def agenda_wf_def)

lemma FindLogicalBind_returns:
  assumes "left_chains e"
  shows "FindLogicalBind e j p \<noteq> None"
proof -
  obtain rank :: "addr \<Rightarrow> nat" where r: "\<And>b p. leftParent (matches e b) = Some p \<Longrightarrow> rank p < rank b"
    using assms by (auto simp: left_chains_def)
  have "FindLogicalBind e j (Some b) \<noteq> None" for b
  proof (induction "rank b" arbitrary: b rule: less_induct)
    case less
    show ?case
    proof (cases "leftParent (matches e b)")
      case None
      then show ?thesis by (subst FindLogicalBind.simps) (simp add: FindLogicalBind.simps [of e j None])
    next
      case (Some q)
      then have "FindLogicalBind e j (Some q) \<noteq> None" using less r by blast
      then show ?thesis using Some by (subst FindLogicalBind.simps) simp
    qed
  qed
  then show ?thesis by (cases p) (simp_all add: FindLogicalBind.simps [of e j None])
qed

lemma left_chains_same: "same_order e f \<Longrightarrow> left_chains f = left_chains e"
  by (simp add: left_chains_def same_order_def)

lemma run_wf_setting:
  assumes "run_wf k e" "modules_wf f" "same_setting e f"
    and "NumberOfActivations f = NumberOfActivations e" "agenda_total f = agenda_total e"
    and "set (CurrentFocus f) \<subseteq> set (ListOfDefmodules e)"
  shows "run_wf k f"
  using assms left_chains_same [of e f] by (simp add: run_wf_def same_setting_def)

lemma run_wf_focus:
  assumes "run_wf k e" and "same_agenda e f" and "set (CurrentFocus f) \<subseteq> set (ListOfDefmodules e)"
  shows "run_wf k f"
  using assms modules_wf_same [OF assms(2)] agenda_total_same [OF assms(2)]
  by (intro run_wf_setting [OF assms(1)]) (simp_all add: run_wf_def same_agenda_def)

text \<open>Steps that leave the agendas, the counter and the focus stack alone.\<close>

definition same_run :: "env \<Rightarrow> env \<Rightarrow> bool" where
  "same_run e f \<longleftrightarrow> same_agenda e f \<and> CurrentFocus f = CurrentFocus e"

lemma same_run_trans: "same_run e f \<Longrightarrow> same_run f g \<Longrightarrow> same_run e g"
  using same_agenda_trans by (auto simp: same_run_def)

lemma run_wf_same: "same_run e f \<Longrightarrow> run_wf k e \<Longrightarrow> run_wf k f"
  by (rule run_wf_focus) (auto simp: same_run_def run_wf_def)

section \<open>The pieces of a firing\<close>

lemmas same_run_defs = same_run_def same_agenda_def same_setting_def same_order_def

lemma count_items_same: "same_run e (count_items d bs e)"
proof (induction d bs e rule: count_items.induct)
  case (4 d x bs e)
  have "same_run e (change_busy d x e)" by (simp add: same_run_defs change_busy_def)
  then show ?case using 4 same_run_trans by simp
qed (simp_all add: same_run_defs)

lemma set_busy_same: "same_run e (set_busy v b e)"
  by (simp add: same_run_defs set_busy_def set_match_def)

lemma set_executing_same: "same_run e (set_executing v e)"
  by (simp add: same_run_defs set_executing_def set_rule_def split: option.split)

lemma SetEvaluationError_same: "same_run e (SetEvaluationError v e)"
  by (simp add: same_run_defs SetEvaluationError_def Let_def)

lemma clear_logical_same: "same_run e (clear_logical e)"
  by (simp add: same_run_defs clear_logical_def Let_def set_busy_def set_match_def split: option.split)

lemma report_halt_same: "same_run e (report_halt name e)"
  by (simp add: same_run_defs report_halt_def print_message_def)

lemma check_breakpoint_same: "same_run e (check_breakpoint p e)"
  by (simp add: same_run_defs check_breakpoint_def print_message_def split: option.split)

lemma set_logical_same:
  assumes "set_logical r e = Some f"
  shows "same_run e f"
proof -
  let ?e1 = "e\<lparr>TheLogicalJoin := logicalJoin (rules e r)\<rparr>"
  have b: "same_run e (?e1\<lparr>TheLogicalBind := p\<rparr>)" for p by (simp add: same_run_defs)
  from assms consider "f = ?e1\<lparr>TheLogicalBind := None\<rparr>"
    | p where "f = ?e1\<lparr>TheLogicalBind := p\<rparr>"
    | p q where "f = set_busy True q (?e1\<lparr>TheLogicalBind := p\<rparr>)"
    by (auto simp: set_logical_def Let_def split: option.splits)
  then show ?thesis by cases (use b same_run_trans [OF b set_busy_same] in auto)
qed

lemma set_logical_returns: "left_chains e \<Longrightarrow> set_logical r e \<noteq> None"
proof -
  assume "left_chains e"
  then have "left_chains (e\<lparr>TheLogicalJoin := j\<rparr>)" for j
    by (subst left_chains_same [of e]) (simp_all add: same_order_def)
  then have "FindLogicalBind (e\<lparr>TheLogicalJoin := j\<rparr>) i p \<noteq> None" for i j p
    by (rule FindLogicalBind_returns)
  then have "\<exists>q. FindLogicalBind (e\<lparr>TheLogicalJoin := j\<rparr>) i p = Some q" for i j p by simp
  then obtain q where "FindLogicalBind (e\<lparr>TheLogicalJoin := logicalJoin (rules e r)\<rparr>)
      (the (logicalJoin (rules e r))) (GlobalLHSBinds e) = Some q" by blast
  then show ?thesis
    by (cases "logicalJoin (rules e r)") (simp_all add: set_logical_def Let_def)
qed

lemma start_firing_wf:
  assumes wf: "run_wf 0 e" and m: "m \<in> set (ListOfDefmodules e)"
    and a: "a \<in> set (agenda (module_item e m))"
  shows "run_wf 1 (start_firing a e)"
    and "module_item (start_firing a e) m = without a (module_item e m)"
proof -
  let ?d = "DetachActivation a e"
  have ag: "agenda_wf e" by (rule run_wf_agenda [OF wf])
  note det = Detach_Remove [OF ag m a]
  have inv: "module_inv e (module_item e m)" by (rule agenda_wf_module [OF ag m])
  have "length (agenda (module_item e m)) = Suc (length (agenda (without a (module_item e m))))"
    using remove_keeps_inv(2) [OF inv a] by (metis size_add_mset size_mset)
  then have tot: "agenda_total e = Suc (agenda_total ?d)"
    using agenda_total_change [OF det(2)] m wf det(3) by (simp add: run_wf_def modules_wf_def)
  have "left_chains ?d = left_chains e"
    using det(2) by (intro left_chains_same) (simp add: same_elsewhere_def same_setting_def)
  moreover have "CurrentFocus ?d = CurrentFocus e" "ListOfDefmodules ?d = ListOfDefmodules e"
      "NumberOfActivations ?d = NumberOfActivations e"
    by (simp_all add: DetachActivation_def Let_def set_item_def)
  ultimately have d: "run_wf 1 ?d" using wf det(1) tot by (simp add: run_wf_def)
  let ?e1 = "?d\<lparr>ExecutingRule := Some (theRule a)\<rparr>"
  let ?e2 = "(set_match (basis a) ((matches ?e1 (basis a))\<lparr>marker := None, busy := True\<rparr>) ?e1)
     \<lparr>GlobalLHSBinds := Some (basis a), GlobalRHSBinds := None\<rparr>"
  have "same_run ?d ?e2" by (simp add: same_run_defs set_match_def)
  then have sr: "same_run ?d (start_firing a e)"
    unfolding start_firing_def Let_def by (rule same_run_trans [OF _ count_items_same])
  then show "run_wf 1 (start_firing a e)" using d run_wf_same by blast
  show "module_item (start_firing a e) m = without a (module_item e m)"
    using sr det(3) by (simp add: same_run_def same_agenda_def)
qed

lemma release_wf:
  assumes "run_wf 1 e"
  shows "run_wf 0 (RemoveActivation a False False e)"
proof -
  let ?g = "e\<lparr>NumberOfActivations := NumberOfActivations e - 1\<rparr>"
  have "modules_wf ?g = modules_wf e"
    using module_wf_same [of e ?g] by (simp add: modules_wf_def valid_strategy_def same_setting_def same_order_def)
  moreover have "agenda_total ?g = agenda_total e" by (simp add: agenda_total_def)
  moreover have "left_chains ?g = left_chains e" by (rule left_chains_same) (simp add: same_order_def)
  moreover have "RemoveActivation a False False e = ?g"
    by (simp add: RemoveActivation_def Let_def)
  ultimately show ?thesis using assms by (simp add: run_wf_def)
qed

lemma EnvRefreshAgenda_run:
  assumes "run_wf k e"
  shows "run_wf k (EnvRefreshAgenda ev None e)"
  using assms EnvRefreshAgenda_pass [of e ev]
  by (intro run_wf_setting [OF assms]) (simp_all add: run_wf_def EnvRefreshAgenda_focus)

lemma execute_actions_wf:
  assumes "\<forall>f g. run_wf k f \<longrightarrow> actions cb r f = Some g \<longrightarrow> run_wf k g" and "run_wf k e"
  shows "execute_actions cb r e = Some f \<Longrightarrow> run_wf k f"
    and "execute_actions cb r e = None \<Longrightarrow> \<exists>f. run_wf k f \<and> actions cb r f = None"
proof -
  let ?e1 = "e\<lparr>CurrentEvaluationDepth := CurrentEvaluationDepth e + 1\<rparr>"
  let ?e2 = "set_executing True (SetEvaluationError False ?e1)"
  have "same_run e ?e1" by (simp add: same_run_defs)
  then have "same_run e ?e2"
    using SetEvaluationError_same set_executing_same same_run_trans by blast
  then have 2: "run_wf k ?e2" using assms(2) by (rule run_wf_same)
  show "\<exists>f. run_wf k f \<and> actions cb r f = None" if "execute_actions cb r e = None"
    using that 2 by (auto simp: execute_actions_def Let_def split: option.splits)
  assume "execute_actions cb r e = Some f"
  then obtain e3 where e3: "actions cb r ?e2 = Some e3"
    and f: "f = (SetEvaluationError False (set_executing False e3))
      \<lparr>CurrentEvaluationDepth := CurrentEvaluationDepth (SetEvaluationError False (set_executing False e3)) - 1\<rparr>"
    by (auto simp: execute_actions_def Let_def split: option.splits)
  let ?e4 = "SetEvaluationError False (set_executing False e3)"
  have "run_wf k e3" using assms(1) 2 e3 by blast
  then have "run_wf k ?e4"
    by (rule run_wf_same [OF same_run_trans [OF set_executing_same SetEvaluationError_same]])
  moreover have "same_run ?e4 f" by (simp add: f same_run_defs)
  ultimately show "run_wf k f" by (rule run_wf_same [rotated])
qed

lemma finish_firing_wf:
  assumes "\<And>f. run_wf 0 f \<Longrightarrow> run_wf 0 (periodic_tasks cb f)" and "run_wf 1 e"
  shows "run_wf 0 (finish_firing cb a e)"
proof -
  let ?e1 = "set_busy False (basis a) e"
  have "run_wf 1 (count_items (- 1) (binds (matches ?e1 (basis a))) ?e1)"
    by (rule run_wf_same [OF same_run_trans [OF set_busy_same count_items_same] assms(2)])
  from assms(1) [OF release_wf [OF this]] EnvRefreshAgenda_run show ?thesis
    by (simp add: finish_firing_def Let_def)
qed

lemma unlink_focus_set: "set (snd (unlink_focus m fs)) \<subseteq> set fs"
  by (induction fs) (auto simp: case_prod_beta Let_def)

lemma RemoveFocus_set: "set (CurrentFocus (snd (RemoveFocus m e))) \<subseteq> set (CurrentFocus e)"
  using unlink_focus_set [of m "CurrentFocus e"]
  by (auto simp: RemoveFocus_def EnvSetCurrentModule_def Let_def split: prod.splits)

lemma RemoveFocus_wf: "run_wf k e \<Longrightarrow> run_wf k (snd (RemoveFocus m e))"
  using RemoveFocus_set [of m e]
  by (intro run_wf_focus [OF _ RemoveFocus_same_agenda]) (auto simp: run_wf_def)

lemma handle_return_wf: "run_wf k e \<Longrightarrow> run_wf k (handle_return e)"
proof -
  assume wf: "run_wf k e"
  let ?e1 = "if ReturnFlag e then (case ExecutingRule e of None \<Rightarrow> e
      | Some r \<Rightarrow> snd (RemoveFocus (r_module (rules e r)) e)) else e"
  have "run_wf k ?e1" using wf RemoveFocus_wf by (simp split: option.split)
  moreover have "same_run ?e1 (?e1\<lparr>ReturnFlag := False\<rparr>)" by (simp only: same_run_defs) simp
  ultimately show ?thesis unfolding handle_return_def Let_def by (rule run_wf_same [rotated])
qed

text \<open>An activation that heads the agenda of the module in focus.\<close>

definition focused :: "activation option \<Rightarrow> env \<Rightarrow> bool" where
  "focused p e \<longleftrightarrow> (case p of None \<Rightarrow> True
     | Some a \<Rightarrow> (\<exists>m ms as. CurrentFocus e = m # ms \<and> agenda (module_item e m) = a # as))"

lemma NextActivationToFire_wf:
  assumes wf: "run_wf k e"
  shows "run_wf k (snd (NextActivationToFire e))"
    and "focused (fst (NextActivationToFire e)) (snd (NextActivationToFire e))"
proof -
  note ns = NextActivationToFire_spec [of e]
  have "set (start_focus e) \<subseteq> set (ListOfDefmodules e)"
    using wf by (auto simp: start_focus_def run_wf_def EnvFindDefmodule_def
        dest: find_module_in find_module_in [OF sym] split: option.splits if_splits)
  then have "set (CurrentFocus (snd (NextActivationToFire e))) \<subseteq> set (ListOfDefmodules e)"
    unfolding ns(2) by (auto dest: set_dropWhileD)
  then show "run_wf k (snd (NextActivationToFire e))" by (rule run_wf_focus [OF wf ns(1)])
  show "focused (fst (NextActivationToFire e)) (snd (NextActivationToFire e))"
  proof (cases "dropWhile (idle e) (start_focus e)")
    case Nil
    then show ?thesis unfolding ns(3) Nil by (simp add: focused_def)
  next
    case (Cons m ms)
    then have "\<not> idle e m" using hd_dropWhile [of "idle e" "start_focus e"] by simp
    then obtain a as where a: "agenda (module_item e m) = a # as"
      by (cases "agenda (module_item e m)") auto
    have "fst (NextActivationToFire e) = Some a" by (simp only: ns(3) Cons list.case a list.sel)
    moreover have "CurrentFocus (snd (NextActivationToFire e)) = m # ms" by (simp only: ns(2) Cons)
    ultimately show ?thesis using a same_agendaD(6) [OF ns(1)] by (simp add: focused_def)
  qed
qed

section \<open>The contract of the callbacks\<close>

locale run_callbacks =
  fixes cb :: callbacks
  assumes actions_wf: "run_wf k e \<Longrightarrow> actions cb r e = Some e' \<Longrightarrow> run_wf k e'"
    and before_wf: "f \<in> set (before_run cb) \<Longrightarrow> run_wf 0 e \<Longrightarrow> m \<in> set (ListOfDefmodules e) \<Longrightarrow>
      a \<in> set (agenda (module_item e m)) \<Longrightarrow>
      run_wf 0 (f a e) \<and> m \<in> set (ListOfDefmodules (f a e)) \<and> a \<in> set (agenda (module_item (f a e) m))"
    and run_functions_wf: "g \<in> set (run_functions cb) \<Longrightarrow> run_wf 0 e \<Longrightarrow> run_wf 0 (g e)"
    and periodic_wf: "run_wf 0 e \<Longrightarrow> run_wf 0 (periodic_tasks cb e)"
begin

lemma before_all:
  assumes "set fs \<subseteq> set (before_run cb)" "run_wf 0 e" "m \<in> set (ListOfDefmodules e)"
    "a \<in> set (agenda (module_item e m))"
  shows "run_wf 0 (fold (\<lambda>f. f a) fs e) \<and> m \<in> set (ListOfDefmodules (fold (\<lambda>f. f a) fs e)) \<and>
    a \<in> set (agenda (module_item (fold (\<lambda>f. f a) fs e) m))"
  using assms
proof (induction fs arbitrary: e)
  case (Cons f fs)
  then show ?case using before_wf [of f e m a] by simp
qed simp

lemma run_functions_all:
  "set gs \<subseteq> set (run_functions cb) \<Longrightarrow> run_wf 0 e \<Longrightarrow> run_wf 0 (fold (\<lambda>f. f) gs e)"
  by (induction gs arbitrary: e) (simp_all add: run_functions_wf)

lemma deref_same:
  assumes "run_wf 0 e" "m \<in> set (ListOfDefmodules e)" "a \<in> set (agenda (module_item e m))"
  shows "deref a e = a"
proof -
  have wf: "module_wf e m" using assms by (simp add: run_wf_def modules_wf_def)
  then have r: "r_module (rules e (theRule a)) = m" using assms(3) by (simp add: module_wf_def)
  have inj: "inj_on address (set (agenda (module_item e m)))"
    using wf by (simp add: module_wf_def module_inv_def distinct_map)
  have "find (\<lambda>b. address b = address a) (agenda (module_item e m)) = Some a"
  proof (cases "find (\<lambda>b. address b = address a) (agenda (module_item e m))")
    case None
    then show ?thesis using assms(3) by (auto simp: find_None_iff)
  next
    case (Some b)
    then have "b \<in> set (agenda (module_item e m))" "address b = address a"
      by (auto simp: find_Some_iff)
    then show ?thesis using Some inj assms(3) by (simp add: inj_on_def)
  qed
  then show ?thesis by (simp add: deref_def r)
qed

lemma fire_rule_wf:
  assumes wf: "run_wf 0 e" and m: "m \<in> set (ListOfDefmodules e)"
    and a: "a \<in> set (agenda (module_item e m))"
  shows "fire_rule cb a e = Some (nxt, f) \<Longrightarrow> run_wf 0 f \<and> focused nxt f"
    and "fire_rule cb a e = None \<Longrightarrow> \<exists>g. run_wf 1 g \<and> actions cb (theRule a) g = None"
proof -
  let ?e1 = "fold (\<lambda>f. f a) (before_run cb) e"
  have 1: "run_wf 0 ?e1" "m \<in> set (ListOfDefmodules ?e1)" "a \<in> set (agenda (module_item ?e1 m))"
    using before_all [OF order.refl wf m a] by blast+
  have d: "deref a ?e1 = a" by (rule deref_same [OF 1])
  have 2: "run_wf 1 (start_firing a ?e1)" by (rule start_firing_wf(1) [OF 1])
  then have "set_logical (theRule a) (start_firing a ?e1) \<noteq> None"
    by (intro set_logical_returns) (simp add: run_wf_def)
  then obtain e3 where e3: "set_logical (theRule a) (start_firing a ?e1) = Some e3" by blast
  have 3: "run_wf 1 e3" by (rule run_wf_same [OF set_logical_same [OF e3] 2])
  have "\<forall>f g. run_wf 1 f \<longrightarrow> actions cb (theRule a) f = Some g \<longrightarrow> run_wf 1 g" using actions_wf by blast
  note x = execute_actions_wf [of 1 cb "theRule a", OF this 3]
  show "\<exists>g. run_wf 1 g \<and> actions cb (theRule a) g = None" if "fire_rule cb a e = None"
    using that x(2) by (auto simp: fire_rule_def Let_def d e3 case_prod_beta split: option.splits)
  assume r: "fire_rule cb a e = Some (nxt, f)"
  then obtain e' where e': "execute_actions cb (theRule a) e3 = Some e'"
    by (auto simp: fire_rule_def Let_def d e3 case_prod_beta split: option.splits)
  let ?e4 = "report_halt (EnvGetActivationName ?e1 a) (clear_logical e')"
  let ?e5 = "fold (\<lambda>f. f) (run_functions cb) (finish_firing cb a ?e4)"
  let ?n = "NextActivationToFire (handle_return ?e5)"
  have "run_wf 1 ?e4"
    by (rule run_wf_same [OF same_run_trans [OF clear_logical_same report_halt_same] x(1) [OF e']])
  from run_functions_all [OF order.refl finish_firing_wf [OF periodic_wf this]]
  have "run_wf 0 (handle_return ?e5)" by (rule handle_return_wf)
  note n = NextActivationToFire_wf [OF this]
  have "run_wf 0 (check_breakpoint (fst ?n) (snd ?n))"
    by (rule run_wf_same [OF check_breakpoint_same n(1)])
  moreover have "focused (fst ?n) (check_breakpoint (fst ?n) (snd ?n))"
    using n(2) check_breakpoint_same [of "snd ?n" "fst ?n"]
    by (simp add: focused_def same_run_def same_agenda_def split: option.splits)
  moreover have "nxt = fst ?n" "f = check_breakpoint (fst ?n) (snd ?n)"
    using r by (auto simp: fire_rule_def Let_def d e3 e' case_prod_beta)
  ultimately show "run_wf 0 f \<and> focused nxt f" by simp
qed

lemma focused_in:
  assumes "run_wf 0 e" and "focused (Some a) e"
  obtains m where "m \<in> set (ListOfDefmodules e)" "a \<in> set (agenda (module_item e m))"
  using assms by (auto simp: focused_def run_wf_def)

text \<open>What a run gives back when it returns.\<close>

lemma run_loop_wf:
  assumes "run_loop cb p lim n e = Some r" "run_wf 0 e" "focused p e"
  shows "run_wf 0 (snd (snd r)) \<and> n \<le> fst (snd r) \<and>
    (0 \<le> lim \<longrightarrow> 0 \<le> fst r \<and> fst r + fst (snd r) = lim + n)"
proof -
  have "cb' = cb \<longrightarrow> run_wf 0 e \<longrightarrow> focused p e \<longrightarrow> run_wf 0 (snd (snd r)) \<and> n \<le> fst (snd r) \<and>
      (0 \<le> lim \<longrightarrow> 0 \<le> fst r \<and> fst r + fst (snd r) = lim + n)"
    if "run_loop cb' p lim n e = Some r" for cb'
  proof (rule run_loop.raw_induct [OF _ that], intro impI, goal_cases)
    case (1 rl cb' p lim n e r)
    show ?case
    proof (cases "p = None \<or> lim = 0 \<or> HaltExecution e \<or> HaltRules e")
      case True
      then have "r = (lim, n, e)" using 1(2) by (auto split: option.splits if_splits)
      then show ?thesis using 1(4) by simp
    next
      case False
      then obtain a where p: "p = Some a" by auto
      then obtain m where "m \<in> set (ListOfDefmodules e)" "a \<in> set (agenda (module_item e m))"
        using 1(4,5) focused_in by blast
      note fire = fire_rule_wf(1) [OF 1(4) this]
      obtain nxt f where f: "fire_rule cb a e = Some (nxt, f)" using 1(2,3) False p by (auto split: option.splits)
      note f = f fire [OF f, THEN conjunct1] fire [OF f, THEN conjunct2]
      then have "rl cb nxt (if lim > 0 then lim - 1 else lim) (n + 1) f = Some r"
        using 1(2,3) False p by simp
      from 1(1) [OF this] f(2,3) False show ?thesis by (auto split: if_splits)
    qed
  qed
  then show ?thesis using assms by blast
qed

text \<open>A run with a limit returns if the actions do.\<close>

lemma run_loop_returns:
  assumes "\<And>g r. run_wf 1 g \<Longrightarrow> actions cb r g \<noteq> None" "run_wf 0 e" "focused p e"
  shows "\<exists>r. run_loop cb p (int k) n e = Some r"
  using assms(2,3)
proof (induction k arbitrary: p n e)
  case 0
  then show ?case by (cases p) (simp_all add: run_loop.simps)
next
  case (Suc k)
  show ?case
  proof (cases "p = None \<or> HaltExecution e \<or> HaltRules e")
    case True
    then show ?thesis by (cases p) (simp_all add: run_loop.simps)
  next
    case False
    then obtain a where p: "p = Some a" by auto
    then obtain m where "m \<in> set (ListOfDefmodules e)" "a \<in> set (agenda (module_item e m))"
      using Suc.prems focused_in by blast
    note fire = fire_rule_wf [OF Suc.prems(1) this]
    have "fire_rule cb a e \<noteq> None" using fire(2) assms(1) by blast
    then obtain nxt f where f: "fire_rule cb a e = Some (nxt, f)" by auto
    note f = f fire(1) [OF f, THEN conjunct1] fire(1) [OF f, THEN conjunct2]
    from Suc.IH [OF f(2,3), of "n + 1"] show ?thesis using f(1) False p
      by (simp add: run_loop.simps [of cb "Some a"])
  qed
qed

lemma EnvRun_ready:
  assumes "run_wf 0 e"
  shows "run_wf 0 (snd (NextActivationToFire (e\<lparr>AlreadyRunning := True, HaltRules := False\<rparr>)))"
    and "focused (fst (NextActivationToFire (e\<lparr>AlreadyRunning := True, HaltRules := False\<rparr>)))
      (snd (NextActivationToFire (e\<lparr>AlreadyRunning := True, HaltRules := False\<rparr>)))"
proof -
  have "run_wf 0 (e\<lparr>AlreadyRunning := True, HaltRules := False\<rparr>)"
    by (rule run_wf_same [OF _ assms]) (simp add: same_run_defs)
  from NextActivationToFire_wf [OF this]
  show "run_wf 0 (snd (NextActivationToFire (e\<lparr>AlreadyRunning := True, HaltRules := False\<rparr>)))"
    and "focused (fst (NextActivationToFire (e\<lparr>AlreadyRunning := True, HaltRules := False\<rparr>)))
      (snd (NextActivationToFire (e\<lparr>AlreadyRunning := True, HaltRules := False\<rparr>)))" .
qed

lemma finish_run_wf:
  assumes "run_wf 0 e"
  shows "run_wf 0 (finish_run cb lim n e)"
proof -
  define e1 where "e1 = (if n = 0 then fold (\<lambda>f. f) (run_functions cb) e else e)"
  define e3 where "e3 = (if lim = n then print_message FiringLimitReached e1 else e1)
    \<lparr>ExecutingRule := None, HaltRules := False\<rparr>"
  define e4 where "e4 = (case CurrentFocus e3 of [] \<Rightarrow> e3
    | m # _ \<Rightarrow> if CurrentModule e3 \<noteq> Some m then EnvSetCurrentModule m e3 else e3)"
  have 1: "run_wf 0 e1" using assms run_functions_all by (simp add: e1_def)
  have "same_run e1 e3" by (simp add: e3_def same_run_defs print_message_def)
  moreover have "same_run e3 e4"
    by (simp add: e4_def same_run_defs EnvSetCurrentModule_def Let_def split: list.split)
  ultimately have "run_wf 0 (periodic_tasks cb e4)"
    using 1 run_wf_same periodic_wf by blast
  moreover have "same_run f (f\<lparr>AlreadyRunning := False\<rparr>)" for f by (simp add: same_run_defs)
  moreover have "finish_run cb lim n e = (periodic_tasks cb e4)\<lparr>AlreadyRunning := False\<rparr>"
    by (simp only: finish_run_def e4_def e3_def e1_def Let_def)
  ultimately show ?thesis using run_wf_same by metis
qed

lemma EnvRun_wf:
  assumes "run_wf 0 e" and "EnvRun cb lim e = Some (n, f)"
  shows "run_wf 0 f \<and> 0 \<le> n \<and> (0 \<le> lim \<longrightarrow> n \<le> lim)"
proof (cases "AlreadyRunning e")
  case True
  then show ?thesis using assms by (simp add: EnvRun_def)
next
  case False
  let ?n = "NextActivationToFire (e\<lparr>AlreadyRunning := True, HaltRules := False\<rparr>)"
  obtain r where r: "run_loop cb (fst ?n) lim 0 (snd ?n) = Some r"
      "n = fst (snd r)" "f = finish_run cb (fst r) (fst (snd r)) (snd (snd r))"
    using assms(2) False by (auto simp: EnvRun_def Let_def case_prod_beta split: option.splits)
  from run_loop_wf [OF r(1) EnvRun_ready [OF assms(1)]] finish_run_wf r(2,3) show ?thesis by auto
qed

lemma EnvRun_returns:
  assumes "\<And>g r. run_wf 1 g \<Longrightarrow> actions cb r g \<noteq> None" and "run_wf 0 e" and "0 \<le> lim"
  shows "\<exists>n f. EnvRun cb lim e = Some (n, f)"
proof -
  have "lim = int (nat lim)" using assms(3) by simp
  then obtain r where "run_loop cb (fst (NextActivationToFire (e\<lparr>AlreadyRunning := True, HaltRules := False\<rparr>)))
      lim 0 (snd (NextActivationToFire (e\<lparr>AlreadyRunning := True, HaltRules := False\<rparr>))) = Some r"
    using run_loop_returns [OF assms(1) EnvRun_ready [OF assms(2)]] by metis
  then show ?thesis by (cases r) (simp add: EnvRun_def Let_def case_prod_beta)
qed

end

section \<open>Right-hand sides made of the engine's commands\<close>

text \<open>
  An instance of the contract: a rule's actions are a list of calls of the modelled
  commands, with the effect that asserting and retracting have on the agenda
  (\<open>Activate\<close> for a new match of a rule in a module, \<open>ClearRule\<close> for a rule that
  is removed). \<open>Activate\<close> is issued only for well-formed matches. Such a right-hand
  side always returns, and no functions are registered: this is an instance of the contract, not a
  model of every right-hand side.
\<close>

datatype command =
    Focus "val list" | PopFocus | ClearFocusStack "val list" | Halt "val list"
  | SetStrategy "val list" | SetSalienceEvaluation "val list" | RefreshAgenda
  | Return | Activate addr addr int | ClearRule addr

fun run_command :: "evaluator \<Rightarrow> command \<Rightarrow> env \<Rightarrow> env" where
  "run_command ev (Focus args) e = snd (FocusCommand args e)"
| "run_command ev PopFocus e = snd (PopFocusFunction [] e)"
| "run_command ev (ClearFocusStack args) e = ClearFocusStackCommand args e"
| "run_command ev (Halt args) e = HaltCommand args e"
| "run_command ev (SetStrategy args) e = snd (SetStrategyCommand args e)"
| "run_command ev (SetSalienceEvaluation args) e = snd (SetSalienceEvaluationCommand args e)"
| "run_command ev RefreshAgenda e = EnvRefreshAgenda ev None e"
| "run_command ev Return e = e\<lparr>ReturnFlag := True\<rparr>"
| "run_command ev (Activate r b rand) e =
     (if r_module (rules e r) \<in> set (ListOfDefmodules e) \<and> match_ok e b \<and> CurrentTimetag e \<noteq> - 1
      then AddActivation ev rand r b e else e)"
| "run_command ev (ClearRule r) e =
     (if r_module (rules e r) \<in> set (ListOfDefmodules e) then ClearRuleFromAgenda r e else e)"

definition command_callbacks :: "evaluator \<Rightarrow> (addr \<Rightarrow> command list) \<Rightarrow> callbacks" where
  "command_callbacks ev prog =
     \<lparr>actions = (\<lambda>r e. Some (fold (run_command ev) (prog r) e)), before_run = [],
      run_functions = [], periodic_tasks = id, salience_value = ev\<rparr>"

lemma signal_error_same: "same_run e (signal_error m e)"
  by (simp add: same_run_defs signal_error_def SetEvaluationError_def print_message_def)

lemma same_run_refl [simp]: "same_run e e"
  by (simp add: same_run_def)

lemma print_message_same: "same_run e (print_message m e)"
  by (simp add: same_run_defs print_message_def)

lemma EnvArgCountCheck_same: "same_run e (snd (EnvArgCountCheck name c n args e))"
  using signal_error_same by (auto simp: EnvArgCountCheck_def Let_def)

lemma EnvArgTypeCheck_same: "same_run e (snd (EnvArgTypeCheck name pos ty args e))"
  using signal_error_same by (auto simp: EnvArgTypeCheck_def split: option.split)

lemma EnvFocus_wf:
  "run_wf k e \<Longrightarrow> m \<in> set (ListOfDefmodules e) \<Longrightarrow> run_wf k (EnvFocus m e)"
  by (rule run_wf_focus [OF _ EnvFocus_same_agenda])
     (auto simp: EnvFocus_def EnvSetCurrentModule_def Let_def run_wf_def)

lemma focus_loop_wf: "run_wf k e \<Longrightarrow> run_wf k (snd (focus_loop i args e))"
proof (induction i args e rule: focus_loop.induct)
  case (2 i args e)
  let ?c = "EnvArgTypeCheck ''focus'' (Suc i) ty_SYMBOL args e"
  have c: "run_wf k (snd ?c)" by (rule run_wf_same [OF EnvArgTypeCheck_same 2(2)])
  show ?case
  proof (cases "fst ?c")
    case None
    then show ?thesis using c by (cases ?c) simp
  next
    case (Some v)
    then have eq: "?c = (Some v, snd ?c)" by (cases ?c) simp
    show ?thesis
    proof (cases "EnvFindDefmodule (DOToString v) (snd ?c)")
      case None
      then show ?thesis using run_wf_same [OF print_message_same c] by (subst focus_loop.simps, subst eq) simp
    next
      case (Some m)
      then have "m \<in> set (ListOfDefmodules (snd ?c))" by (auto simp: EnvFindDefmodule_def dest: find_module_in)
      from 2(1) [OF eq [symmetric] refl Some EnvFocus_wf [OF c this]] show ?thesis
        by (subst focus_loop.simps, subst eq) (simp add: Some)
    qed
  qed
qed simp

lemma EnvPopFocus_wf: "run_wf k e \<Longrightarrow> run_wf k (snd (EnvPopFocus e))"
  using RemoveFocus_wf by (simp add: EnvPopFocus_def)

lemma pop_all_wf: "run_wf k e \<Longrightarrow> run_wf k (pop_all e)"
proof (induction e rule: pop_all.induct)
  case (1 e)
  then show ?case using EnvPopFocus_wf by (subst pop_all.simps) simp
qed

lemma EnvSetStrategy_run:
  assumes wf: "run_wf k e" and v: "0 \<le> v" "v \<le> 6"
  shows "run_wf k (snd (EnvSetStrategy v e))"
proof (cases "Strategy e = v")
  case False
  let ?e = "e\<lparr>Strategy := v\<rparr>" and ?f = "EnvReorderAgenda None (e\<lparr>Strategy := v\<rparr>)"
  have pre: "valid_strategy ?e" "distinct (ListOfDefmodules ?e)"
      "\<forall>m \<in> set (ListOfDefmodules ?e). module_loose ?e m"
    using wf v by (simp_all add: valid_strategy_def run_wf_def modules_wf_def module_loose_strategy
        module_wf_loose)
  note re = EnvReorderAgenda_wf [OF pre]
  have "left_chains ?f = left_chains ?e" "ListOfDefmodules ?f = ListOfDefmodules ?e"
    using re(2) left_chains_same [of ?e ?f] by (simp_all add: same_setting_def)
  moreover have "left_chains ?e = left_chains e" by (simp add: left_chains_def)
  moreover have "agenda_total ?e = agenda_total e" by (simp add: agenda_total_def)
  ultimately have "run_wf k ?f" using re wf by (simp add: run_wf_def EnvReorderAgenda_focus)
  then show ?thesis using False by (simp add: EnvSetStrategy_def Let_def)
qed (use wf in \<open>auto simp: EnvSetStrategy_def Let_def\<close>)

lemma strategy_of_name_range: "strategy_of_name n = Some s \<Longrightarrow> 0 \<le> s \<and> s \<le> 6"
  by (auto simp: strategy_of_name_def split: if_splits)

lemma SetStrategyCommand_wf:
  assumes wf: "run_wf k e"
  shows "run_wf k (snd (SetStrategyCommand args e))"
proof -
  let ?a = "EnvArgCountCheck ''set-strategy'' EXACTLY 1 args e"
  let ?c = "EnvArgTypeCheck ''set-strategy'' 1 ty_SYMBOL args (snd ?a)"
  have a: "run_wf k (snd ?a)" by (rule run_wf_same [OF EnvArgCountCheck_same wf])
  have c: "run_wf k (snd ?c)" by (rule run_wf_same [OF EnvArgTypeCheck_same a])
  have s: "run_wf k (snd (EnvSetStrategy s (snd ?c)))" if "strategy_of_name n = Some s" for n s
    using strategy_of_name_range [OF that] by (intro EnvSetStrategy_run [OF c]) simp_all
  show ?thesis using a c s run_wf_same [OF print_message_same c]
    by (simp add: SetStrategyCommand_def Let_def case_prod_beta split: option.split)
qed

lemma SetSalienceEvaluationCommand_wf:
  assumes wf: "run_wf k e"
  shows "run_wf k (snd (SetSalienceEvaluationCommand args e))"
proof -
  let ?a = "EnvArgCountCheck ''set-salience-evaluation'' EXACTLY 1 args e"
  let ?c = "EnvArgTypeCheck ''set-salience-evaluation'' 1 ty_SYMBOL args (snd ?a)"
  have a: "run_wf k (snd ?a)" by (rule run_wf_same [OF EnvArgCountCheck_same wf])
  have c: "run_wf k (snd ?c)" by (rule run_wf_same [OF EnvArgTypeCheck_same a])
  have "same_run f (snd (EnvSetSalienceEvaluation v f))" for v f
    by (simp add: same_run_defs EnvSetSalienceEvaluation_def)
  note s = run_wf_same [OF this c]
  show ?thesis using a c s run_wf_same [OF print_message_same c]
    by (simp add: SetSalienceEvaluationCommand_def Let_def case_prod_beta split: option.split)
qed

lemma AddActivation_run:
  assumes wf: "run_wf k e" and pre: "r_module (rules e r) \<in> set (ListOfDefmodules e)"
    "match_ok e b" "CurrentTimetag e \<noteq> - 1"
  shows "run_wf k (AddActivation ev rand r b e)"
proof -
  let ?f = "AddActivation ev rand r b e"
  have "modules_wf e" using wf by (simp add: run_wf_def)
  note ad = AddActivation_modules [OF this refl pre, where ev = ev and rand = rand]
  have "CurrentFocus ?f = CurrentFocus (prepared ev r b e)"
    by (simp add: AddActivation_prepared, subst place_new_env) (simp add: set_item_def)
  also have "set \<dots> \<subseteq> set (ListOfDefmodules e)"
    using wf pre(1) by (auto simp: prepared_def Let_def set_match_def EvaluateSalience_focus
        EnvFocus_def EnvSetCurrentModule_def run_wf_def)
  finally have "set (CurrentFocus ?f) \<subseteq> set (ListOfDefmodules e)" .
  then show ?thesis using ad wf left_chains_same [OF ad(6)]
    by (simp add: run_wf_def)
qed

lemma remove_list_focus: "CurrentFocus (remove_list as e) = CurrentFocus e"
  by (induction as arbitrary: e)
     (simp_all add: RemoveActivation_def Let_def set_item_def set_match_def)

text \<open>A run state with a detached activation is an agenda state with a smaller count.\<close>

lemma run_wf_shift:
  "run_wf k e \<longleftrightarrow> agenda_wf (e\<lparr>NumberOfActivations := NumberOfActivations e - word_of_nat k\<rparr>) \<and>
     set (CurrentFocus e) \<subseteq> set (ListOfDefmodules e) \<and> left_chains e"
proof -
  let ?g = "e\<lparr>NumberOfActivations := NumberOfActivations e - word_of_nat k\<rparr>"
  have "modules_wf ?g = modules_wf e" using module_wf_same [of e ?g]
    by (simp add: modules_wf_def valid_strategy_def same_setting_def same_order_def)
  moreover have "agenda_total ?g = agenda_total e" by (simp add: agenda_total_def)
  ultimately show ?thesis by (auto simp: run_wf_def agenda_wf_def algebra_simps)
qed

lemma RemoveActivation_shift:
  "RemoveActivation a u l (e\<lparr>NumberOfActivations := n\<rparr>) =
     (RemoveActivation a u l e)\<lparr>NumberOfActivations := n - 1\<rparr>"
  by (simp add: RemoveActivation_def Let_def set_item_def set_match_def)

lemma remove_list_shift:
  "remove_list as (e\<lparr>NumberOfActivations := NumberOfActivations e - j\<rparr>) =
     (remove_list as e)\<lparr>NumberOfActivations := NumberOfActivations (remove_list as e) - j\<rparr>"
proof (induction as arbitrary: e)
  case (Cons a as)
  have "NumberOfActivations e - j - 1 = NumberOfActivations (RemoveActivation a True True e) - j"
    by (simp add: RemoveActivation_count)
  then show ?case using Cons [of "RemoveActivation a True True e"]
    by (simp only: remove_list.simps RemoveActivation_shift)
qed simp

lemma ClearRuleFromAgenda_run:
  assumes wf: "run_wf k e" and r: "r_module (rules e r) \<in> set (ListOfDefmodules e)"
  shows "run_wf k (ClearRuleFromAgenda r e)"
proof -
  let ?g = "e\<lparr>NumberOfActivations := NumberOfActivations e - word_of_nat k\<rparr>"
  let ?f = "ClearRuleFromAgenda r e"
  have g: "agenda_wf ?g" using wf run_wf_shift by blast
  have eq: "ClearRuleFromAgenda r ?g =
      ?f\<lparr>NumberOfActivations := NumberOfActivations ?f - word_of_nat k\<rparr>"
    by (simp add: ClearRuleFromAgenda_def remove_list_shift)
  note cl = ClearRuleFromAgenda_agenda [OF g refl, of r, simplified eq]
  have "same_order ?g ?f" "ListOfDefmodules ?f = ListOfDefmodules e"
    using cl(2) r by (simp_all add: same_elsewhere_def same_setting_def same_order_def)
  then have "left_chains ?f = left_chains e" by (simp add: left_chains_def same_order_def)
  then show ?thesis unfolding run_wf_shift [of k ?f]
    using cl(1) r wf \<open>ListOfDefmodules ?f = _\<close>
    by (simp add: run_wf_def remove_list_focus ClearRuleFromAgenda_def)
qed

lemma run_command_wf: "run_wf k e \<Longrightarrow> run_wf k (run_command ev c e)"
proof (induction c)
  case (Focus args)
  have "run_wf k (snd (EnvArgCountCheck ''focus'' AT_LEAST 1 args e))"
    by (rule run_wf_same [OF EnvArgCountCheck_same Focus])
  then show ?case using focus_loop_wf by (simp add: FocusCommand_def Let_def case_prod_beta)
next
  case PopFocus
  have "run_wf k (snd (EnvArgCountCheck ''pop-focus'' EXACTLY 0 [] e))"
    by (rule run_wf_same [OF EnvArgCountCheck_same PopFocus])
  then show ?case using EnvPopFocus_wf by (simp add: PopFocusFunction_def Let_def case_prod_beta)
next
  case (ClearFocusStack args)
  have "run_wf k (snd (EnvArgCountCheck ''list-focus-stack'' EXACTLY 0 args e))"
    by (rule run_wf_same [OF EnvArgCountCheck_same ClearFocusStack])
  moreover have "same_run f (f\<lparr>FocusChanged := True\<rparr>)" for f by (simp add: same_run_defs)
  ultimately show ?case using pop_all_wf run_wf_same
    by (fastforce simp: ClearFocusStackCommand_def EnvClearFocusStack_def Let_def case_prod_beta)
next
  case (Halt args)
  have "same_run f (EnvHalt f)" for f by (simp add: same_run_defs EnvHalt_def)
  then have "same_run e (HaltCommand args e)"
    unfolding HaltCommand_def by (rule same_run_trans [OF EnvArgCountCheck_same])
  then show ?case using run_wf_same Halt by simp
next
  case Return
  have "same_run e (e\<lparr>ReturnFlag := True\<rparr>)" by (simp add: same_run_defs)
  then show ?case using run_wf_same Return by simp
qed (simp_all add: SetStrategyCommand_wf SetSalienceEvaluationCommand_wf EnvRefreshAgenda_run
    AddActivation_run ClearRuleFromAgenda_run)

interpretation commands: run_callbacks "command_callbacks ev prog" for ev prog
proof unfold_locales
  fix k r e f
  have "run_wf k e \<Longrightarrow> run_wf k (fold (run_command ev) cs e)" for cs
    by (induction cs arbitrary: e) (simp_all add: run_command_wf)
  then show "run_wf k e \<Longrightarrow> actions (command_callbacks ev prog) r e = Some f \<Longrightarrow> run_wf k f"
    by (auto simp: command_callbacks_def)
qed (simp_all add: command_callbacks_def)

end
