(* ===== verification/Demo.thy ===== *)
theory Demo
  imports Engine_Wf
begin

text \<open>
  A small environment on which the properties of the rule engine are exercised: the
  modules \<open>MAIN\<close> and \<open>WORK\<close>, two rules in the first and one in the second, four
  matches with their activations on the agendas (depth strategy, two saliences in
  \<open>MAIN\<close>) and one more match without an activation.
\<close>

definition demo_rule :: "string \<Rightarrow> addr \<Rightarrow> int \<Rightarrow> nat \<Rightarrow> defrule" where
  "demo_rule name m s c =
     \<lparr>r_name = name, r_module = m, r_salience = s, complexity = c, afterBreakpoint = False,
      watchFiring = False, autoFocus = False, executing = False, dynamicSalience = None,
      logicalJoin = None, leftMemory = [], activatesRule = True, disjuncts = []\<rparr>"

definition demo_match :: "addr \<Rightarrow> pointer \<Rightarrow> partialMatch" where
  "demo_match x act = \<lparr>binds = [Some (Some x)], marker = act, busy = False, owner = 0,
     leftParent = None\<rparr>"

definition act :: "addr \<Rightarrow> addr \<Rightarrow> addr \<Rightarrow> int \<Rightarrow> u64 \<Rightarrow> activation" where
  "act n r b s t = \<lparr>address = n, theRule = r, basis = b, salience = s, timetag = t, randomID = 0\<rparr>"

definition demo_main :: defruleModule where
  "demo_main =
     \<lparr>groupings = [\<lparr>g_salience = 10, g_first = Some 0, g_last = Some 0\<rparr>,
                   \<lparr>g_salience = 0, g_first = Some 2, g_last = Some 1\<rparr>],
      agenda = [act 0 0 0 10 0, act 2 1 2 0 2, act 1 1 1 0 1]\<rparr>"

definition demo_work :: defruleModule where
  "demo_work = \<lparr>groupings = [\<lparr>g_salience = 0, g_first = Some 3, g_last = Some 3\<rparr>],
     agenda = [act 3 2 3 0 3]\<rparr>"

definition demo :: env where
  "demo =
     \<lparr>rules = (\<lambda>r. if r = 0 then demo_rule ''start'' 0 10 1
                    else if r = 1 then demo_rule ''step'' 0 0 2
                    else demo_rule ''work'' 1 0 1),
      matches = (\<lambda>b. demo_match b (if b < 4 then Some b else None)),
      entities = (\<lambda>x. \<lparr>timeTag = word_of_nat (x + 1), busyCount = 1\<rparr>),
      modules = (\<lambda>m. if m = 0
         then \<lparr>m_name = ''MAIN'', importList = [], exportList = [\<lparr>p_moduleName = '''',
                 p_constructType = None, p_constructName = None\<rparr>],
               m_rules = [0, 1], m_item = demo_main\<rparr>
         else \<lparr>m_name = ''WORK'', importList = [\<lparr>p_moduleName = ''MAIN'',
                 p_constructType = None, p_constructName = None\<rparr>], exportList = [],
               m_rules = [2], m_item = demo_work\<rparr>),
      ListOfDefmodules = [0, 1], CurrentModule = Some 0, CallModuleChangeFunctions = True,
      ModuleChangeIndex = 0, ModuleStack = [], CurrentFocus = [0], FocusChanged = False,
      NumberOfActivations = 4, CurrentTimetag = 4, AgendaChanged = False,
      SalienceEvaluation = 0, Strategy = 0, ExecutingRule = None, TheLogicalJoin = None,
      TheLogicalBind = None, GlobalLHSBinds = None, GlobalRHSBinds = None,
      HaltRules = False, HaltExecution = False, EvaluationError = False, ReturnFlag = False,
      AlreadyRunning = False, CurrentEvaluationDepth = 0, freeAddress = 4, dialog = []\<rparr>"

definition no_salience :: evaluator where
  "no_salience e x = None"

lemma demo_chains: "left_chains demo"
  by (simp add: left_chains_def demo_def demo_match_def)

lemma demo_module_wf: "module_wf demo 0" "module_wf demo 1"
  by code_simp+

lemma demo_modules: "modules_wf demo"
  using demo_module_wf by (simp add: modules_wf_def demo_def valid_strategy_def)

lemma demo_wf: "agenda_wf demo"
  using demo_modules
  by (simp add: agenda_wf_def agenda_total_def) (simp add: demo_def demo_main_def demo_work_def)

lemma demo_run: "run_wf 0 demo"
  using demo_wf demo_chains by (simp add: run_wf_def agenda_wf_def) (simp add: demo_def)

end
