(* ===== verification/Agenda_Properties.thy ===== *)
theory Agenda_Properties
  imports Demo
begin

text \<open>
  The properties of the agenda and of conflict resolution, stated on the operations of
  \<open>agenda.c\<close> and \<open>crstrtgy.c\<close>, each followed by its instance on the environment
  \<open>demo\<close>.
\<close>

text \<open>C1. \<open>AddActivation\<close> keeps all agendas well formed (ordered by salience and then by
  the strategy in force, with exact salience groups, distinct activations and an exact
  \<open>NumberOfActivations\<close>), adds exactly the new activation to the agenda of the rule's
  module, leaves the other agendas alone and links the match to the activation.\<close>

theorem AddActivation_ordered:
  assumes "agenda_wf e" and "r_module (rules e r) = m" and "m \<in> set (ListOfDefmodules e)"
    and "match_ok e b" and "CurrentTimetag e \<noteq> - 1"
  shows "let f = AddActivation ev rand r b e in
    agenda_wf f \<and>
    mset (agenda (module_item f m)) =
      add_mset (new_activation ev rand r b e) (mset (agenda (module_item e m))) \<and>
    (\<forall>k. k \<noteq> m \<longrightarrow> module_item f k = module_item e k) \<and>
    marker (matches f b) = Some (freeAddress e)"
proof -
  have mw: "modules_wf e" using assms(1) by (simp add: agenda_wf_def)
  note ad = AddActivation_modules [OF mw assms(2) [symmetric] assms(3-5), where ev = ev and rand = rand]
  have "agenda_wf (AddActivation ev rand r b e)"
    using assms by (intro AddActivation_wf) simp_all
  moreover have "matches (AddActivation ev rand r b e) = matches (prepared ev r b e)"
    by (simp add: AddActivation_prepared, subst place_new_env) (simp add: set_item_def)
  ultimately show ?thesis using ad(2,3) prepared_fields(8) [of ev r b e] by (simp add: Let_def)
qed

theorem AddActivation_ordered_witness:
  "agenda_wf (AddActivation no_salience 7 1 4 demo)"
proof -
  have "r_module (rules demo 1) = 0" "match_ok demo 4" "CurrentTimetag demo \<noteq> - 1"
    "0 \<in> set (ListOfDefmodules demo)" by code_simp+
  with AddActivation_ordered [OF demo_wf, of 1 0 4 no_salience 7] show ?thesis by (simp add: Let_def)
qed

text \<open>C4. \<open>EnvSetStrategy\<close> with one of the seven strategies returns the old one and
  reorders every agenda into the order of the new strategy, as a permutation of what it
  was.\<close>

theorem EnvSetStrategy_reorders:
  assumes "agenda_wf e" and "0 \<le> v" and "v \<le> 6"
  shows "let (old, f) = EnvSetStrategy v e in
    old = Strategy e \<and> Strategy f = v \<and> agenda_wf f \<and>
    (\<forall>k. mset (agenda (module_item f k)) = mset (agenda (module_item e k))) \<and>
    (\<forall>k \<in> set (ListOfDefmodules f). sorted_wrt (agenda_order f) (agenda (module_item f k)))"
proof -
  note s = EnvSetStrategy_wf [OF assms]
  have "sorted_wrt (agenda_order (snd (EnvSetStrategy v e))) (agenda (module_item (snd (EnvSetStrategy v e)) k))"
    if "k \<in> set (ListOfDefmodules (snd (EnvSetStrategy v e)))" for k
    using agenda_wf_module [OF s(1) that] by (simp add: module_inv_def)
  moreover have "fst (EnvSetStrategy v e) = Strategy e" by (simp add: EnvSetStrategy_def Let_def)
  ultimately show ?thesis using s by (simp add: case_prod_beta)
qed

theorem EnvSetStrategy_reorders_witness:
  "agenda_wf (snd (EnvSetStrategy 1 demo))"
  using EnvSetStrategy_reorders [OF demo_wf, of 1] by (simp add: case_prod_beta)

text \<open>C5. Removing an activation from the agenda keeps all agendas well formed, removes
  exactly that activation, leaves the other agendas alone and clears the link from its
  match.\<close>

theorem RemoveActivation_removes:
  assumes "agenda_wf e" and "m \<in> set (ListOfDefmodules e)"
    and "a \<in> set (agenda (module_item e m))"
  shows "let f = RemoveActivation a True True e in
    agenda_wf f \<and>
    mset (agenda (module_item e m)) = add_mset a (mset (agenda (module_item f m))) \<and>
    (\<forall>k. k \<noteq> m \<longrightarrow> module_item f k = module_item e k) \<and>
    marker (matches f (basis a)) = None"
proof -
  have mw: "modules_wf e" using assms(1) by (simp add: agenda_wf_def)
  note r = RemoveActivation_modules_wf [OF mw assms(2,3), of True]
  have "marker (matches (RemoveActivation a True True e) (basis a)) = None"
    by (simp add: RemoveActivation_def Let_def set_match_def)
  then show ?thesis
    using RemoveActivation_wf [OF assms, of True] r(2,3)
      remove_keeps_inv(2) [OF agenda_wf_module [OF assms(1,2)] assms(3)]
    by (simp add: Let_def same_elsewhere_def)
qed

theorem RemoveActivation_removes_witness:
  "agenda_wf (RemoveActivation (act 2 1 2 0 2) True True demo)"
proof -
  have "0 \<in> set (ListOfDefmodules demo)" "act 2 1 2 0 2 \<in> set (agenda (module_item demo 0))"
    by (simp_all add: demo_def demo_main_def)
  from RemoveActivation_removes [OF demo_wf this] show ?thesis by (simp add: Let_def)
qed

text \<open>C6. \<open>EnvRefreshAgenda\<close> on all modules puts every agenda back in order and restores the salience evaluation mode; the
  focus stack, the modules and the activations stay as they are, apart from the saliences. When the salience expressions
  have fixed values, each activation has the salience of its rule afterwards: the value of the rule's expression
  if that is an integer which is in the range after its conversion to 32 bits, and otherwise the salience that
  the rule had.\<close>

theorem EnvRefreshAgenda_reorders:
  assumes "agenda_wf e"
  shows "let f = EnvRefreshAgenda ev None e in
    agenda_wf f \<and> SalienceEvaluation f = SalienceEvaluation e \<and> CurrentFocus f = CurrentFocus e \<and>
    ListOfDefmodules f = ListOfDefmodules e \<and>
    (\<forall>k. image_mset ident (mset (agenda (module_item f k))) =
       image_mset ident (mset (agenda (module_item e k)))) \<and>
    ((\<forall>g x. ev g x = value x) \<longrightarrow> (\<forall>k \<in> set (ListOfDefmodules e).
       mset (agenda (module_item f k)) =
       image_mset (\<lambda>a. a\<lparr>salience := refreshed_salience value (rules e (theRule a))\<rparr>) (mset (agenda (module_item e k)))))"
proof -
  have w: "modules_wf e" using assms by (simp add: agenda_wf_def)
  have "SalienceEvaluation (EnvRefreshAgenda ev None e) = SalienceEvaluation e"
    by (simp add: EnvRefreshAgenda_def Let_def EnvSetSalienceEvaluation_def SaveCurrentModule_def RestoreCurrentModule_def
        split: list.split prod.split)
  then show ?thesis
    using EnvRefreshAgenda_wf [OF assms] EnvRefreshAgenda_pass(2,3) [OF w] EnvRefreshAgenda_focus EnvRefreshAgenda_value [OF w]
    by (simp add: Let_def same_setting_def)
qed

text \<open>The rule 1 gets an expression with the value 20, and its two activations overtake that of the rule 0.\<close>

theorem EnvRefreshAgenda_reorders_witness:
  "mset (agenda (module_item (EnvRefreshAgenda (\<lambda>g x. Some (INTEGER 20)) None
       (set_rule 1 ((rules demo 1)\<lparr>dynamicSalience := Some 0\<rparr>) demo)) 0)) =
     {#act 0 0 0 10 0, act 2 1 2 20 2, act 1 1 1 20 1#}"
proof -
  let ?e = "set_rule 1 ((rules demo 1)\<lparr>dynamicSalience := Some 0\<rparr>) demo"
  have "agenda_wf ?e" by code_simp
  then have "mset (agenda (module_item (EnvRefreshAgenda (\<lambda>g x. Some (INTEGER 20)) None ?e) 0)) =
      image_mset (\<lambda>a. a\<lparr>salience := refreshed_salience (\<lambda>x. Some (INTEGER 20)) (rules ?e (theRule a))\<rparr>) (mset (agenda (module_item ?e 0)))"
    using EnvRefreshAgenda_reorders [of ?e "\<lambda>g x. Some (INTEGER 20)" "\<lambda>x. Some (INTEGER 20)"]
    by (simp add: Let_def set_rule_def demo_def)
  also have "\<dots> = {#act 0 0 0 10 0, act 2 1 2 20 2, act 1 1 1 20 1#}"
    by (simp add: set_rule_def demo_def demo_main_def demo_rule_def act_def refreshed_salience_def to_int32_def)
  finally show ?thesis .
qed

text \<open>C7. Clearing a rule removes exactly the activations of the rule and of its
  disjuncts, keeps the order of the others and keeps all agendas well formed.\<close>

theorem ClearRuleFromAgenda_exact:
  assumes "agenda_wf e" and "m = r_module (rules e r)" and "m \<in> set (ListOfDefmodules e)"
  shows "let f = ClearRuleFromAgenda r e in
    agenda_wf f \<and>
    agenda (module_item f m) =
      filter (\<lambda>a. theRule a \<notin> set (r # disjuncts (rules e r))) (agenda (module_item e m)) \<and>
    (\<forall>k. k \<noteq> m \<longrightarrow> module_item f k = module_item e k)"
  using ClearRuleFromAgenda_agenda [OF assms] by (simp add: Let_def same_elsewhere_def)

theorem ClearRuleFromAgenda_exact_witness:
  "agenda (module_item (ClearRuleFromAgenda 1 demo) 0) = [act 0 0 0 10 0]"
proof -
  have *: "0 = r_module (rules demo 1)" "0 \<in> set (ListOfDefmodules demo)"
    by (simp_all add: demo_def demo_rule_def)
  have "filter (\<lambda>a. theRule a \<notin> set (1 # disjuncts (rules demo 1))) (agenda (module_item demo 0))
      = [act 0 0 0 10 0]"
    by (simp add: demo_def demo_main_def demo_rule_def act_def)
  with ClearRuleFromAgenda_exact [OF demo_wf *] show ?thesis by (simp add: Let_def)
qed

text \<open>\<open>RemoveAllActivations\<close> empties the agenda of the current module, leaves no
  salience group behind and does not touch the other modules.\<close>

lemma RemoveAllActivations_clean:
  assumes "agenda_wf e" and "CurrentModule e = Some m" and "m \<in> set (ListOfDefmodules e)"
  shows "let f = RemoveAllActivations e in
    agenda_wf f \<and> module_item f m = \<lparr>groupings = [], agenda = []\<rparr> \<and>
    (\<forall>k. k \<noteq> m \<longrightarrow> module_item f k = module_item e k)"
  using RemoveAllActivations_empties [OF assms] by (simp add: Let_def same_elsewhere_def)

text \<open>C9. The order of every agenda after \<open>EnvSetStrategy\<close>, for each of the seven strategies. Of two activations the one
  that stands earlier has the higher salience; or they have the same salience and it has under \<open>depth\<close> (0) the later
  and under \<open>breadth\<close> (1) the earlier time tag, under \<open>lex\<close> (2) the greater match in the lexicographic order of the
  descending time tags, under \<open>mea\<close> (3) the more recent item for the first pattern and then the greater match, under
  \<open>complexity\<close> (4) the greater and under \<open>simplicity\<close> (5) the smaller complexity, and under \<open>random\<close> (6) the smaller random
  number. What \<open>lex\<close>, \<open>mea\<close>, \<open>complexity\<close>, \<open>simplicity\<close> and \<open>random\<close> leave open goes to the earlier time tag. Two comments of
  \<open>crstrtgy.c\<close> say otherwise: that an activation is placed before those of equal complexity, and under \<open>simplicity\<close>
  after those of greater complexity.\<close>

theorem EnvSetStrategy_order:
  assumes "agenda_wf e" "0 \<le> v" "v \<le> 6" "m \<in> set (ListOfDefmodules e)" "f = snd (EnvSetStrategy v e)"
    and "agenda (module_item f m) = xs @ a # ys @ b # zs"
  shows "salience a > salience b \<or> (salience a = salience b \<and>
    (let older = timetag a < timetag b;
         greater = (match_key f b < match_key f a \<or> match_key f b = match_key f a \<and> older);
         c = complexity (rules f (theRule a)); d = complexity (rules f (theRule b))
     in if v = 0 then timetag b < timetag a
        else if v = 1 then older
        else if v = 2 then greater
        else if v = 3 then whoset f b < whoset f a \<or> whoset f b = whoset f a \<and> greater
        else if v = 4 then d < c \<or> d = c \<and> older
        else if v = 5 then c < d \<or> c = d \<and> older
        else randomID a < randomID b \<or> randomID a = randomID b \<and> older))"
proof -
  note s = EnvSetStrategy_wf [OF assms(1-3), folded assms(5)]
  have "m \<in> set (ListOfDefmodules f)"
    using assms(4) s(4) by simp
  from agenda_wf_module [OF s(1) this]
  have ord: "agenda_order f a b" and tags: "timetag a \<noteq> timetag b" and ok: "mea_ok f a" "mea_ok f b"
    using assms(6) by (simp_all add: module_inv_def sorted_wrt_append)
  then have hp: "has_patterns f a" "has_patterns f b" by (simp_all add: mea_ok_def)
  have v: "Strategy f = v" using s by simp
  let ?greater = "match_key f b < match_key f a \<or> match_key f b = match_key f a \<and> timetag a < timetag b"
  let ?c = "complexity (rules f (theRule a))" and ?d = "complexity (rules f (theRule b))"
  have lex: "\<not> after_lex f a b \<longleftrightarrow> ?greater" using after_lex_key [OF hp(2,1)] tags by (metis neqE order.asym)
  have mea: "\<not> after_mea f a b \<longleftrightarrow> whoset f b < whoset f a \<or> whoset f b = whoset f a \<and> ?greater"
    unfolding after_mea_key [OF ok(2,1)] using lex by auto
  have rest: "\<not> after_depth a b \<longleftrightarrow> timetag b < timetag a" "\<not> timetag b < timetag a \<longleftrightarrow> timetag a < timetag b"
    "\<not> after_complexity f a b \<longleftrightarrow> ?d < ?c \<or> ?d = ?c \<and> timetag a < timetag b"
    "\<not> after_simplicity f a b \<longleftrightarrow> ?c < ?d \<or> ?c = ?d \<and> timetag a < timetag b"
    "\<not> after_random a b \<longleftrightarrow> randomID a < randomID b \<or> randomID a = randomID b \<and> timetag a < timetag b"
    using tags by (auto simp: after_depth_def after_complexity_def after_simplicity_def after_random_def Let_def)
  note o = ord [unfolded agenda_order_def]
  consider "v = 0" | "v = 1" | "v = 2" | "v = 3" | "v = 4" | "v = 5" | "v = 6" using assms(2,3) by fastforce
  then show ?thesis
  proof cases
    case 1
    then have "placed_after f a b = after_depth a b" by (simp add: placed_after_def v)
    then show ?thesis using o rest(1) 1 by simp
  next
    case 2
    then have "placed_after f a b = (timetag b < timetag a)" by (simp add: placed_after_def v)
    then show ?thesis using o rest(2) 2 by simp
  next
    case 3
    then have "placed_after f a b = after_lex f a b" by (simp add: placed_after_def v)
    then show ?thesis using o lex 3 by simp
  next
    case 4
    then have "placed_after f a b = after_mea f a b" by (simp add: placed_after_def v)
    then show ?thesis using o mea 4 by simp
  next
    case 5
    then have "placed_after f a b = after_complexity f a b" by (simp add: placed_after_def v)
    then show ?thesis using o rest(3) 5 by (simp add: Let_def)
  next
    case 6
    then have "placed_after f a b = after_simplicity f a b" by (simp add: placed_after_def v)
    then show ?thesis using o rest(4) 6 by (simp add: Let_def)
  next
    case 7
    then have "placed_after f a b = after_random a b" by (simp add: placed_after_def v)
    then show ?thesis using o rest(5) 7 by simp
  qed
qed

theorem EnvSetStrategy_order_witness:
  "agenda (module_item (snd (EnvSetStrategy 1 demo)) 0) = [act 0 0 0 10 0] @ act 1 1 1 0 1 # [] @ act 2 1 2 0 2 # [] \<and>
    timetag (act 1 1 1 0 1) < timetag (act 2 1 2 0 2)"
proof -
  have *: "0 \<in> set (ListOfDefmodules demo)" by (simp add: demo_def)
  have a: "agenda (module_item (snd (EnvSetStrategy 1 demo)) 0) = [act 0 0 0 10 0] @ act 1 1 1 0 1 # [] @ act 2 1 2 0 2 # []"
    by code_simp
  from EnvSetStrategy_order [OF demo_wf _ _ * refl this] a show ?thesis by (simp add: Let_def act_def)
qed

text \<open>\<open>SortPartialMatch\<close> returns the time tags of the matched items, 0 for a pattern
  without an item, in descending order.\<close>

lemma SortPartialMatch_descending:
  assumes "binds pm \<noteq> []"
  shows "mset (SortPartialMatch e pm) = mset (map (bind_tag e) (binds pm)) \<and>
    sorted_wrt (\<ge>) (SortPartialMatch e pm)"
  using SortPartialMatch_sorts [OF assms] by simp

lemma first_of_segments:
  assumes "as \<noteq> []"
  shows "first_address as = g_first (hd (map group_of (segments as)))"
proof -
  obtain s ss where seg: "segments as = s # ss" using assms concat_segments [of as]
    by (cases "segments as") auto
  then have "s \<noteq> []" using segments_nonempty [of s as] by simp
  moreover have "as = s @ concat ss" using concat_segments [of as] unfolding seg by simp
  ultimately have "hd as = hd s" by simp
  then show ?thesis using assms \<open>s \<noteq> []\<close> unfolding seg by (simp add: group_of_def first_address_def)
qed

text \<open>C24. \<open>MoveActivationToTop\<close> puts an activation first on its agenda and keeps the rest
  in order, but it leaves the salience groups as they were: unless the activation was
  first already, the groups no longer describe the agenda.\<close>

theorem MoveActivationToTop_breaks_groups:
  assumes "agenda_wf e" and "m \<in> set (ListOfDefmodules e)"
    and "agenda (module_item e m) = xs @ a # ys" and "xs \<noteq> []"
  shows "let (moved, f) = MoveActivationToTop a e in
    moved \<and> agenda (module_item f m) = a # xs @ ys \<and>
    groupings (module_item f m) = groupings (module_item e m) \<and> \<not> agenda_wf f"
proof -
  let ?d = "module_item e m" and ?f = "snd (MoveActivationToTop a e)"
  have inv: "module_inv e ?d" by (rule agenda_wf_module [OF assms(1,2)])
  then have gs: "groupings ?d = map group_of (segments (xs @ a # ys))"
    and dist: "distinct (map address (xs @ a # ys))" using assms(3) by (simp_all add: module_inv_def)
  have r: "r_module (rules e (theRule a)) = m"
    using assms(1-3) by (simp add: agenda_wf_def modules_wf_def module_wf_def)
  obtain x xs' where xs: "xs = x # xs'" using assms(4) by (cases xs) auto
  have ne: "address x \<noteq> address a" using dist by (auto simp: xs)
  have fl: "filter (\<lambda>b. address b \<noteq> address a) (xs @ a # ys) = xs @ ys"
    by (rule filter_address [OF dist])
  have item: "module_item ?f m = ?d\<lparr>agenda := a # xs @ ys\<rparr>" "fst (MoveActivationToTop a e)"
    using r ne fl assms(3) by (simp_all add: MoveActivationToTop_def Let_def xs set_item_def)
  have "\<not> module_inv ?f (module_item ?f m)"
  proof
    assume "module_inv ?f (module_item ?f m)"
    then have "groupings ?d = map group_of (segments (a # xs @ ys))" by (simp add: module_inv_def item)
    then have "first_address (a # xs @ ys) = first_address (xs @ a # ys)"
      using gs first_of_segments [of "a # xs @ ys"] first_of_segments [of "xs @ a # ys"] by simp
    then show False using ne by (simp add: xs)
  qed
  moreover have "ListOfDefmodules ?f = ListOfDefmodules e"
    by (simp add: MoveActivationToTop_def Let_def set_item_def)
  ultimately have "\<not> agenda_wf ?f" using assms(2) agenda_wf_module [of ?f m] by auto
  then show ?thesis using item by (simp add: case_prod_beta)
qed

theorem MoveActivationToTop_breaks_groups_witness:
  "\<not> agenda_wf (snd (MoveActivationToTop (act 1 1 1 0 1) demo))"
proof -
  have "0 \<in> set (ListOfDefmodules demo)"
    "agenda (module_item demo 0) = [act 0 0 0 10 0, act 2 1 2 0 2] @ act 1 1 1 0 1 # []"
    by (simp_all add: demo_def demo_main_def)
  from MoveActivationToTop_breaks_groups [OF demo_wf this] show ?thesis by (simp add: case_prod_beta)
qed

text \<open>\<open>get-strategy\<close> returns the name that \<open>set-strategy\<close> was given, and
  \<open>set-strategy\<close> returns the name of the strategy before.\<close>

lemma strategy_commands_roundtrip:
  assumes "agenda_wf e" and "\<not> EvaluationError e" and "strategy_of_name name = Some s"
  shows "let (old, f) = SetStrategyCommand [SYMBOL name] e in
    old = fst (GetStrategyCommand [] e) \<and> fst (GetStrategyCommand [] f) = SYMBOL name \<and> agenda_wf f"
proof -
  have set: "SetStrategyCommand [SYMBOL name] e =
      (SYMBOL (GetStrategyName (Strategy e)), snd (EnvSetStrategy s e))"
    using assms(2,3) by (simp add: SetStrategyCommand_def EnvArgCountCheck_def EnvRtnArgCount_def
        EnvArgTypeCheck_def check_type_def Let_def)
  have get: "fst (GetStrategyCommand [] f) = SYMBOL (GetStrategyName (Strategy f))" for f
    by (simp add: GetStrategyCommand_def EnvArgCountCheck_def EnvRtnArgCount_def EnvGetStrategy_def Let_def)
  have "GetStrategyName s = name"
    using assms(3) by (auto simp: strategy_of_name_def GetStrategyName_def split: if_splits)
  moreover have "0 \<le> s \<and> s \<le> 6" by (rule strategy_of_name_range [OF assms(3)])
  ultimately show ?thesis using EnvSetStrategy_wf [OF assms(1), of s] by (simp add: set get)
qed

end
