(* ===== verification/Join_State.thy ===== *)
theory Join_State
  imports Prelude
begin

text \<open>
  The state of the join network (\<open>network.h\<close>, \<open>match.h\<close>) and the operations of \<open>reteutil.c\<close> on it. Joins,
  pattern node headers and partial matches are reached through pointers and live in heaps. The doubly
  linked chains of partial matches are lists of addresses in the order of their links: a bucket of a beta
  memory and the queue of an alpha memory (\<open>nextInMemory\<close>), the children of a match (\<open>nextLeftChild\<close> when the
  match is in a left memory, \<open>nextRightChild\<close> otherwise) and the matches a match blocks (\<open>nextBlocked\<close>). The rest
  of the environment (agenda, facts, logical support) is the type parameter of the state; what the network
  does with it goes through the operations of \<open>matcher\<close>.
\<close>

section \<open>Objects\<close>

record multifieldMarker =
  whichField :: int
  whichSlotNumber :: int
  startPosition :: int
  endPosition :: int

text \<open>\<open>struct alphaMatch\<close>. It is written once, when it is made, so a binding carries it by value.\<close>

record alphaMatch =
  matchingItem :: addr
  markers :: "multifieldMarker list"
  bucket :: nat

type_synonym bindings = "alphaMatch option list"

text \<open>\<open>marker\<close> is an untyped pointer: the right match that blocks (or satisfies) a left match, or the activation of a
  match of a rule.\<close>

datatype marking = Unmarked | BlockedBy addr | Activated addr

text \<open>\<open>struct partialMatch\<close>; \<open>bcount\<close> is the length of \<open>pmBinds\<close>.\<close>

record partial_match =
  pmBeta :: bool
  pmBusy :: bool
  pmRhs :: bool
  pmBinds :: bindings
  pmHash :: u64
  pmOwner :: addr
  pmMarker :: marking
  pmChildren :: "addr list"
  pmRightParent :: pointer
  pmLeftParent :: pointer
  pmBlockList :: "addr list"

text \<open>\<open>struct betaMemory\<close>: \<open>beta\<close> has one chain for each of the \<open>size\<close> buckets; \<open>last\<close>, which right memories have, points to
  the ends of the chains.\<close>

record betaMemory =
  beta :: "addr list list"
  mem_count :: nat

abbreviation mem_size :: "betaMemory \<Rightarrow> nat" where
  "mem_size m \<equiv> length (beta m)"

record alphaMemoryHash =
  amOwner :: addr
  alphaMemory :: "addr list"

text \<open>\<open>struct patternNodeHeader\<close>: \<open>entryJoins\<close> are the joins reached from \<open>entryJoin\<close> through \<open>rightMatchNode\<close>, and
  \<open>hashChain\<close> the buckets of the alpha memories from \<open>firstHash\<close> to \<open>lastHash\<close>.\<close>

record patternNodeHeader =
  entryJoins :: "addr list"
  hashChain :: "nat list"
  headerHash :: "nat list"
  headerInitialize :: bool

text \<open>Join expressions: a chain of tests, each a primitive of the pattern matcher, an \<open>and\<close>, an \<open>or\<close> or another
  function call. The chain of a null pointer is empty.\<close>

datatype join_test = Primitive nat | AndTest "join_test list" | OrTest "join_test list" | FunctionCall nat

datatype direction = LHS | RHS

datatype entry = NoEntry | PatternEntry addr | JoinEntry addr

text \<open>\<open>struct joinNode\<close> without its memories and its statistics, which the state keeps by join.\<close>

record joinNode =
  firstJoin :: bool
  joinFromTheRight :: bool
  patternIsNegated :: bool
  patternIsExists :: bool
  initialize :: bool
  depth :: nat
  networkTest :: "join_test list"
  secondaryNetworkTest :: "join_test list"
  leftHash :: "nat list"
  rightHash :: "nat list"
  rightSideEntryStructure :: entry
  nextLinks :: "(direction \<times> addr) list"
  lastLevel :: pointer
  ruleToActivate :: pointer

section \<open>The state\<close>

text \<open>\<open>matchLists\<close> has the \<open>patternMatch\<close> list of a fact: the patterns it matches, by their headers, with the alpha
  matches, latest first. \<open>freedMatches\<close> are the matches given back to the pool; addresses are not reused. \<open>netErrors\<close> lists the joins named
  by \<open>JoinNetErrorMessage\<close>, \<open>systemErrors\<close> the calls of \<open>SystemError\<close>.\<close>

record 'e rete =
  joins :: "addr \<Rightarrow> joinNode"
  leftMemories :: "addr \<Rightarrow> betaMemory option"
  rightMemories :: "addr \<Rightarrow> betaMemory option"
  headers :: "addr \<Rightarrow> patternNodeHeader"
  AlphaMemoryTable :: "nat \<Rightarrow> alphaMemoryHash list"
  matchLists :: "addr \<Rightarrow> (addr \<times> addr) list"
  pms :: "addr \<Rightarrow> partial_match"
  nextMatch :: addr
  GarbagePartialMatches :: "addr list"
  freedMatches :: "addr list"
  BetaMemoryResizingFlag :: bool
  IncrementalResetInProgress :: bool
  LeftPrimeJoins :: "addr list"
  RightPrimeJoins :: "addr list"
  memoryLeftAdds :: "addr \<Rightarrow> int"
  memoryRightAdds :: "addr \<Rightarrow> int"
  memoryLeftDeletes :: "addr \<Rightarrow> int"
  memoryRightDeletes :: "addr \<Rightarrow> int"
  memoryCompares :: "addr \<Rightarrow> int"
  netErrors :: "addr list"
  systemErrors :: "nat list"
  environment :: 'e

text \<open>What the network calls in other components: the evaluation of a primitive test, of another function call (whether the
  value is not the symbol \<open>FALSE\<close>, and whether there was an error) and of a hash expression of a join, given the bindings of
  \<open>GlobalLHSBinds\<close> and \<open>GlobalRHSBinds\<close>; of a hash expression of a pattern, given the fact being matched and its markers; the agenda's \<open>AddActivation\<close> (which returns the activation that becomes the
  marker of the match) and \<open>RemoveActivation\<close>; \<open>RemoveLogicalSupport\<close> and \<open>RemovePMDependencies\<close>, which act when the match has
  dependents; and the \<open>isDeleted\<close> and \<open>synchronized\<close> functions of a
  pattern entity.\<close>

datatype hash_result = AtomBucket u64 | AddressValue u64 | OtherValue

record 'e matcher =
  evalPrimitive :: "nat \<Rightarrow> bindings option \<Rightarrow> bindings option \<Rightarrow> bool"
  evalFunction :: "nat \<Rightarrow> bindings option \<Rightarrow> bindings option \<Rightarrow> bool \<times> bool"
  evalHash :: "nat \<Rightarrow> bindings option \<Rightarrow> bindings option \<Rightarrow> hash_result"
  evalPatternHash :: "nat \<Rightarrow> addr \<Rightarrow> multifieldMarker list \<Rightarrow> hash_result"
  addActivation :: "addr \<Rightarrow> addr \<Rightarrow> bindings \<Rightarrow> 'e \<Rightarrow> addr \<times> 'e"
  removeActivation :: "addr \<Rightarrow> 'e \<Rightarrow> 'e"
  removeSupport :: "addr \<Rightarrow> 'e \<Rightarrow> 'e"
  removeDependencies :: "addr \<Rightarrow> 'e \<Rightarrow> 'e"
  isDeleted :: "addr \<Rightarrow> 'e \<Rightarrow> bool"
  isSynchronized :: "addr \<Rightarrow> 'e \<Rightarrow> bool"

definition upd_pm :: "addr \<Rightarrow> (partial_match \<Rightarrow> partial_match) \<Rightarrow> 'e rete \<Rightarrow> 'e rete" where
  "upd_pm p f s = s\<lparr>pms := (pms s)(p := f (pms s p))\<rparr>"

definition memory_of :: "direction \<Rightarrow> addr \<Rightarrow> 'e rete \<Rightarrow> betaMemory" where
  "memory_of d j s = the ((case d of LHS \<Rightarrow> leftMemories s | RHS \<Rightarrow> rightMemories s) j)"

definition set_memory :: "direction \<Rightarrow> addr \<Rightarrow> betaMemory \<Rightarrow> 'e rete \<Rightarrow> 'e rete" where
  "set_memory d j m s = (case d of LHS \<Rightarrow> s\<lparr>leftMemories := (leftMemories s)(j := Some m)\<rparr>
     | RHS \<Rightarrow> s\<lparr>rightMemories := (rightMemories s)(j := Some m)\<rparr>)"

definition bump :: "(addr \<Rightarrow> int) \<Rightarrow> addr \<Rightarrow> addr \<Rightarrow> int" where
  "bump f j = f(j := f j + 1)"

section \<open>New partial matches\<close>

definition InitializePMLinks :: "partial_match \<Rightarrow> partial_match" where
  "InitializePMLinks m = m\<lparr>pmChildren := [], pmRightParent := None, pmLeftParent := None, pmBlockList := [], pmMarker := Unmarked\<rparr>"

definition alloc_match :: "partial_match \<Rightarrow> 'e rete \<Rightarrow> addr \<times> 'e rete" where
  "alloc_match m s = (nextMatch s, s\<lparr>pms := (pms s)(nextMatch s := m), nextMatch := nextMatch s + 1\<rparr>)"

text \<open>A structure of zeros, as \<open>mergeTemplate\<close>.\<close>

definition fresh_match :: "bindings \<Rightarrow> partial_match" where
  "fresh_match bs = \<lparr>pmBeta = True, pmBusy = False, pmRhs = False, pmBinds = bs, pmHash = 0, pmOwner = 0, pmMarker = Unmarked,
     pmChildren = [], pmRightParent = None, pmLeftParent = None, pmBlockList = []\<rparr>"

definition CopyPartialMatch :: "addr \<Rightarrow> 'e rete \<Rightarrow> addr \<times> 'e rete" where
  "CopyPartialMatch p s = alloc_match (InitializePMLinks (fresh_match (pmBinds (pms s p)))) s"

definition CreateEmptyPartialMatch :: "'e rete \<Rightarrow> addr \<times> 'e rete" where
  "CreateEmptyPartialMatch s = alloc_match (InitializePMLinks (fresh_match [None])) s"

text \<open>Only the first binding of the right match is taken.\<close>

definition MergePartialMatches :: "addr \<Rightarrow> pointer \<Rightarrow> 'e rete \<Rightarrow> addr \<times> 'e rete" where
  "MergePartialMatches l r s =
     alloc_match (fresh_match (pmBinds (pms s l) @ [case r of None \<Rightarrow> None | Some p \<Rightarrow> hd (pmBinds (pms s p))])) s"

section \<open>Beta memories\<close>

definition bucket_of :: "u64 \<Rightarrow> betaMemory \<Rightarrow> nat" where
  "bucket_of hv m = unat hv mod mem_size m"

definition upd_bucket :: "nat \<Rightarrow> (addr list \<Rightarrow> addr list) \<Rightarrow> betaMemory \<Rightarrow> betaMemory" where
  "upd_bucket i f m = m\<lparr>beta := (beta m)[i := f (beta m ! i)]\<rparr>"

text \<open>\<open>ResizeBetaMemory\<close> walks the old chains in order and links every match at the end of its new chain.\<close>

definition ResizeBetaMemory :: "(addr \<Rightarrow> u64) \<Rightarrow> betaMemory \<Rightarrow> betaMemory" where
  "ResizeBetaMemory hv m =
     fold (\<lambda>p m'. upd_bucket (bucket_of (hv p) m') (\<lambda>ps. ps @ [p]) m') (concat (beta m))
       (m\<lparr>beta := replicate (mem_size m * 11) []\<rparr>)"

definition INITIAL_BETA_HASH_SIZE :: nat where
  "INITIAL_BETA_HASH_SIZE = 17"

definition ResetBetaMemory :: "betaMemory \<Rightarrow> betaMemory" where
  "ResetBetaMemory m = (if mem_size m = 1 \<or> mem_size m = INITIAL_BETA_HASH_SIZE then m
     else m\<lparr>beta := replicate INITIAL_BETA_HASH_SIZE []\<rparr>)"

definition GetLeftBetaMemory :: "addr \<Rightarrow> u64 \<Rightarrow> 'e rete \<Rightarrow> addr list" where
  "GetLeftBetaMemory j hv s = (let m = memory_of LHS j s in beta m ! bucket_of hv m)"

definition GetRightBetaMemory :: "addr \<Rightarrow> u64 \<Rightarrow> 'e rete \<Rightarrow> addr list" where
  "GetRightBetaMemory j hv s = (let m = memory_of RHS j s in beta m ! bucket_of hv m)"

text \<open>A match enters a left memory at the front of its chain and a right memory at the end.\<close>

definition memory_insert :: "direction \<Rightarrow> addr \<Rightarrow> u64 \<Rightarrow> betaMemory \<Rightarrow> betaMemory" where
  "memory_insert d p hv m =
     (upd_bucket (bucket_of hv m) (\<lambda>ps. if d = LHS then p # ps else ps @ [p]) m)\<lparr>mem_count := mem_count m + 1\<rparr>"

definition push_child :: "pointer \<Rightarrow> addr \<Rightarrow> 'e rete \<Rightarrow> 'e rete" where
  "push_child q p s = (case q of None \<Rightarrow> s | Some a \<Rightarrow> upd_pm a (\<lambda>m. m\<lparr>pmChildren := p # pmChildren m\<rparr>) s)"

definition count_add :: "direction \<Rightarrow> addr \<Rightarrow> 'e rete \<Rightarrow> 'e rete" where
  "count_add d j s = (if d = LHS then s\<lparr>memoryLeftAdds := bump (memoryLeftAdds s) j\<rparr>
     else s\<lparr>memoryRightAdds := bump (memoryRightAdds s) j\<rparr>)"

definition UpdateBetaPMLinks :: "addr \<Rightarrow> pointer \<Rightarrow> pointer \<Rightarrow> addr \<Rightarrow> u64 \<Rightarrow> direction \<Rightarrow> 'e rete \<Rightarrow> 'e rete" where
  "UpdateBetaPMLinks p l r j hv d s =
     (let s1 = upd_pm p (\<lambda>m. m\<lparr>pmRhs := (d = RHS), pmHash := hv\<rparr>) s;
          m1 = memory_insert d p hv (memory_of d j s1);
          s2 = count_add d j (set_memory d j m1 s1);
          s3 = upd_pm p (\<lambda>m. m\<lparr>pmOwner := j\<rparr>) s2;
          s4 = (if r = None then s3 else upd_pm p (\<lambda>m. m\<lparr>pmRightParent := r\<rparr>) (push_child r p s3));
          s5 = (if l = None then s4 else upd_pm p (\<lambda>m. m\<lparr>pmLeftParent := l\<rparr>) (push_child l p s4))
      in if BetaMemoryResizingFlag s5 \<and> mem_size m1 > 1 \<and> mem_count m1 > mem_size m1 * 11
         then set_memory d j (ResizeBetaMemory (\<lambda>q. pmHash (pms s5 q)) m1) s5 else s5)"

section \<open>Blocked matches\<close>

definition AddBlockedLink :: "addr \<Rightarrow> addr \<Rightarrow> 'e rete \<Rightarrow> 'e rete" where
  "AddBlockedLink l r s =
     upd_pm r (\<lambda>m. m\<lparr>pmBlockList := l # pmBlockList m\<rparr>) (upd_pm l (\<lambda>m. m\<lparr>pmMarker := BlockedBy r\<rparr>) s)"

text \<open>Taking a match out of the list of its blocker. The code does the same when the marker is an activation, which would
  overwrite the activation; the callers remove the activation, and so the marker, before.\<close>

definition unlink_blocked :: "addr \<Rightarrow> 'e rete \<Rightarrow> 'e rete" where
  "unlink_blocked p s = (case pmMarker (pms s p) of
       BlockedBy b \<Rightarrow> upd_pm b (\<lambda>m. m\<lparr>pmBlockList := remove1 p (pmBlockList m)\<rparr>) s
     | _ \<Rightarrow> s)"

definition RemoveBlockedLink :: "addr \<Rightarrow> 'e rete \<Rightarrow> 'e rete" where
  "RemoveBlockedLink p s = upd_pm p (\<lambda>m. m\<lparr>pmMarker := Unmarked\<rparr>) (unlink_blocked p s)"

section \<open>Unlinking\<close>

definition drop_child :: "pointer \<Rightarrow> addr \<Rightarrow> 'e rete \<Rightarrow> 'e rete" where
  "drop_child q p s = (case q of None \<Rightarrow> s | Some a \<Rightarrow> upd_pm a (\<lambda>m. m\<lparr>pmChildren := remove1 p (pmChildren m)\<rparr>) s)"

definition UnlinkBetaPartialMatchfromAlphaAndBetaLineage :: "addr \<Rightarrow> 'e rete \<Rightarrow> 'e rete" where
  "UnlinkBetaPartialMatchfromAlphaAndBetaLineage p s =
     (let s1 = upd_pm p (\<lambda>m. m\<lparr>pmRightParent := None\<rparr>) (drop_child (pmRightParent (pms s p)) p s);
          s2 = upd_pm p (\<lambda>m. m\<lparr>pmLeftParent := None\<rparr>) (drop_child (pmLeftParent (pms s1 p)) p s1);
          s3 = upd_pm p (\<lambda>m. m\<lparr>pmMarker := Unmarked\<rparr>) (unlink_blocked p s2);
          rhs = pmRhs (pms s3 p);
          s4 = fold (\<lambda>c. upd_pm c (\<lambda>m. if rhs then m\<lparr>pmRightParent := None\<rparr> else m\<lparr>pmLeftParent := None\<rparr>))
                 (pmChildren (pms s3 p)) s3
      in upd_pm p (\<lambda>m. m\<lparr>pmChildren := []\<rparr>) s4)"

definition memory_remove :: "addr \<Rightarrow> u64 \<Rightarrow> betaMemory \<Rightarrow> betaMemory" where
  "memory_remove p hv m = (upd_bucket (bucket_of hv m) (remove1 p) m)\<lparr>mem_count := mem_count m - 1\<rparr>"

definition count_delete :: "direction \<Rightarrow> addr \<Rightarrow> 'e rete \<Rightarrow> 'e rete" where
  "count_delete d j s = (if d = LHS then s\<lparr>memoryLeftDeletes := bump (memoryLeftDeletes s) j\<rparr>
     else s\<lparr>memoryRightDeletes := bump (memoryRightDeletes s) j\<rparr>)"

definition unlink_from_memory :: "direction \<Rightarrow> addr \<Rightarrow> addr \<Rightarrow> 'e rete \<Rightarrow> 'e rete" where
  "unlink_from_memory d j p s =
     count_delete d j (set_memory d j (memory_remove p (pmHash (pms s p)) (memory_of d j s)) s)"

definition reset_if_empty :: "direction \<Rightarrow> addr \<Rightarrow> 'e rete \<Rightarrow> 'e rete" where
  "reset_if_empty d j s =
     (let m = memory_of d j s
      in if BetaMemoryResizingFlag s \<and> mem_count m = 0 \<and> mem_size m > 1 then set_memory d j (ResetBetaMemory m) s else s)"

definition UnlinkBetaPMFromNodeAndLineage :: "addr \<Rightarrow> addr \<Rightarrow> direction \<Rightarrow> 'e rete \<Rightarrow> 'e rete" where
  "UnlinkBetaPMFromNodeAndLineage j p d s =
     reset_if_empty d j (UnlinkBetaPartialMatchfromAlphaAndBetaLineage p (unlink_from_memory d j p s))"

text \<open>The children of the left parent are left alone: the caller gives them all up.\<close>

definition UnlinkNonLeftLineage :: "addr \<Rightarrow> addr \<Rightarrow> direction \<Rightarrow> 'e rete \<Rightarrow> 'e rete" where
  "UnlinkNonLeftLineage j p d s =
     (let s1 = unlink_from_memory d j p s;
          s2 = drop_child (pmRightParent (pms s1 p)) p s1
      in reset_if_empty d j (unlink_blocked p s2))"

section \<open>Alpha memories\<close>

definition ALPHA_MEMORY_HASH_SIZE :: nat where
  "ALPHA_MEMORY_HASH_SIZE = 63559"

text \<open>The \<open>unsigned\<close> half of the union keeps the low 32 bits of the header's address; the sum wraps.\<close>

definition AlphaMemoryHashValue :: "addr \<Rightarrow> u64 \<Rightarrow> nat" where
  "AlphaMemoryHashValue h off = unat ((of_nat (h mod 2 ^ 32) :: u64) + off) mod ALPHA_MEMORY_HASH_SIZE"

definition FindAlphaMemory :: "addr \<Rightarrow> nat \<Rightarrow> 'e rete \<Rightarrow> alphaMemoryHash option" where
  "FindAlphaMemory h hv s = find (\<lambda>am. amOwner am = h) (AlphaMemoryTable s hv)"

definition GetAlphaMemory :: "addr \<Rightarrow> u64 \<Rightarrow> 'e rete \<Rightarrow> addr list" where
  "GetAlphaMemory h off s = (case FindAlphaMemory h (AlphaMemoryHashValue h off) s of None \<Rightarrow> [] | Some am \<Rightarrow> alphaMemory am)"

text \<open>The tables after the first memory of a header in a bucket is changed.\<close>

fun upd_memory :: "addr \<Rightarrow> (addr list \<Rightarrow> addr list) \<Rightarrow> alphaMemoryHash list \<Rightarrow> alphaMemoryHash list" where
  "upd_memory h f [] = []"
| "upd_memory h f (am # ams) =
     (if amOwner am = h then am\<lparr>alphaMemory := f (alphaMemory am)\<rparr> # ams else am # upd_memory h f ams)"

definition upd_alpha :: "nat \<Rightarrow> (alphaMemoryHash list \<Rightarrow> alphaMemoryHash list) \<Rightarrow> 'e rete \<Rightarrow> 'e rete" where
  "upd_alpha hv f s = s\<lparr>AlphaMemoryTable := (AlphaMemoryTable s)(hv := f (AlphaMemoryTable s hv))\<rparr>"

definition upd_header :: "addr \<Rightarrow> (patternNodeHeader \<Rightarrow> patternNodeHeader) \<Rightarrow> 'e rete \<Rightarrow> 'e rete" where
  "upd_header h f s = s\<lparr>headers := (headers s)(h := f (headers s h))\<rparr>"

text \<open>The owner of the match is set by the caller; a new alpha memory goes to the front of its bucket and to the end of the
  header's chain. \<open>CopyMultifieldMarkers\<close> copies the markers field by field.\<close>

definition new_alpha_memory :: "addr \<Rightarrow> nat \<Rightarrow> 'e rete \<Rightarrow> 'e rete" where
  "new_alpha_memory h hv s = upd_header h (\<lambda>d. d\<lparr>hashChain := hashChain d @ [hv]\<rparr>)
     (upd_alpha hv (\<lambda>ams. \<lparr>amOwner = h, alphaMemory = []\<rparr> # ams) s)"

definition CreateAlphaMatch :: "addr \<Rightarrow> multifieldMarker list \<Rightarrow> addr \<Rightarrow> u64 \<Rightarrow> 'e rete \<Rightarrow> addr \<times> 'e rete" where
  "CreateAlphaMatch item ms h off s =
     (let hv = AlphaMemoryHashValue h off;
          (p, s1) = alloc_match ((fresh_match [Some \<lparr>matchingItem = item, markers = ms, bucket = hv\<rparr>])
                      \<lparr>pmBeta := False, pmHash := off\<rparr>) s;
          s2 = (if FindAlphaMemory h hv s1 = None then new_alpha_memory h hv s1 else s1)
      in (p, upd_alpha hv (upd_memory h (\<lambda>ps. ps @ [p])) s2))"

fun drop_memory :: "addr \<Rightarrow> alphaMemoryHash list \<Rightarrow> alphaMemoryHash list" where
  "drop_memory h [] = []"
| "drop_memory h (am # ams) = (if amOwner am = h then ams else am # drop_memory h ams)"

text \<open>\<open>UnlinkAlphaMemory\<close> takes an empty alpha memory out of its bucket and out of the header's chain.\<close>

definition UnlinkAlphaMemory :: "addr \<Rightarrow> nat \<Rightarrow> 'e rete \<Rightarrow> 'e rete" where
  "UnlinkAlphaMemory h hv s = upd_header h (\<lambda>d. d\<lparr>hashChain := remove1 hv (hashChain d)\<rparr>)
     (upd_alpha hv (drop_memory h) s)"

definition alpha_bucket :: "addr \<Rightarrow> 'e rete \<Rightarrow> nat" where
  "alpha_bucket p s = (case pmBinds (pms s p) of Some am # _ \<Rightarrow> bucket am | _ \<Rightarrow> 0)"

definition RemoveAlphaMemoryMatches :: "addr \<Rightarrow> addr \<Rightarrow> 'e rete \<Rightarrow> 'e rete" where
  "RemoveAlphaMemoryMatches h p s =
     (let hv = alpha_bucket p s;
          s1 = upd_alpha hv (upd_memory h (remove1 p)) s;
          s2 = s1\<lparr>GarbagePartialMatches := p # GarbagePartialMatches s1\<rparr>
      in case FindAlphaMemory h hv s2 of
           Some am \<Rightarrow> if alphaMemory am = [] then UnlinkAlphaMemory h hv s2 else s2
         | None \<Rightarrow> s2)"

section \<open>Hash values\<close>

text \<open>The sum of the hash codes of the values, the \<open>i\<close>th multiplied by \<open>509^i\<close>, modulo \<open>2^64\<close>; a value of another type
  adds nothing.\<close>

fun hash_sum :: "hash_result list \<Rightarrow> u64 \<Rightarrow> u64 \<Rightarrow> u64" where
  "hash_sum [] hv factor = hv"
| "hash_sum (r # rs) hv factor =
     hash_sum rs (case r of AtomBucket b \<Rightarrow> hv + b * factor | AddressValue v \<Rightarrow> hv + v * factor | OtherValue \<Rightarrow> hv) (factor * 509)"

definition BetaMemoryHashValue :: "'e matcher \<Rightarrow> nat list \<Rightarrow> bindings option \<Rightarrow> bindings option \<Rightarrow> u64" where
  "BetaMemoryHashValue h es l r = hash_sum (map (\<lambda>x. evalHash h x l r) es) 0 1"

text \<open>The expressions of a header are evaluated on the fact being matched and its multifield markers.\<close>

definition ComputeRightHashValue :: "'e matcher \<Rightarrow> nat list \<Rightarrow> addr \<Rightarrow> multifieldMarker list \<Rightarrow> u64" where
  "ComputeRightHashValue h es item ms = hash_sum (map (\<lambda>x. evalPatternHash h x item ms) es) 0 1"

end
