(* ===== verification/Join_Network.thy ===== *)
theory Join_Network
  imports Join_State
begin

text \<open>
  Sending partial matches through the join network (\<open>drive.c\<close>) and taking them out of it (\<open>retract.c\<close>). The
  functions of the two files call each other: asserting from the left or from the right drives new matches to the
  joins below, a match that blocks another one gives up the matches made from it, and giving a match up may set
  other matches free. Each function is a definition over its callees; the four calls through which the
  recursion goes are the constructors of \<open>call\<close>, and \<open>network\<close> ties the knot with a bound on the depth of calls
  (\<open>None\<close> when it is exceeded).

  The loops over a memory walk the chain as it is at the start of the loop: what they call changes memories of the
  joins below only. \<open>GlobalLHSBinds\<close>, \<open>GlobalRHSBinds\<close> and \<open>GlobalJoin\<close>, set around an evaluation and restored
  after it, are the arguments of the evaluation.
\<close>

section \<open>Join expressions\<close>

text \<open>The value of a chain under \<open>and\<close> or \<open>or\<close> logic, and whether there was an evaluation error; every error ends the
  evaluation at once, with the value \<open>FALSE\<close>.\<close>

fun eval_tests :: "'e matcher \<Rightarrow> bindings option \<Rightarrow> bindings option \<Rightarrow> bool \<Rightarrow> bool \<Rightarrow> join_test list \<Rightarrow> bool \<times> bool" where
  "eval_tests h l r andLogic result [] = (result, False)"
| "eval_tests h l r andLogic result (t # ts) =
     (let (value, err) = (case t of
            Primitive i \<Rightarrow> (evalPrimitive h i l r, False)
          | OrTest args \<Rightarrow> eval_tests h l r False True args
          | AndTest args \<Rightarrow> eval_tests h l r True True args
          | FunctionCall i \<Rightarrow> evalFunction h i l r)
      in if err then (False, True)
         else if andLogic \<and> \<not> value then (False, False)
         else if \<not> andLogic \<and> value then (True, False)
         else eval_tests h l r andLogic value ts)"

text \<open>An \<open>and\<close> or \<open>or\<close> at the head of the chain is evaluated in place; what follows it in the chain is not.\<close>

fun EvaluateJoinExpression :: "'e matcher \<Rightarrow> join_test list \<Rightarrow> bindings option \<Rightarrow> bindings option \<Rightarrow> bool \<times> bool" where
  "EvaluateJoinExpression h [] l r = (True, False)"
| "EvaluateJoinExpression h (AndTest args # ts) l r = eval_tests h l r True True args"
| "EvaluateJoinExpression h (OrTest args # ts) l r = eval_tests h l r False True args"
| "EvaluateJoinExpression h ts l r = eval_tests h l r True True ts"

text \<open>A test of a join with its error message; the callers reset the error.\<close>

definition join_eval :: "'e matcher \<Rightarrow> addr \<Rightarrow> join_test list \<Rightarrow> bindings option \<Rightarrow> bindings option \<Rightarrow> 'e rete \<Rightarrow> (bool \<times> bool) \<times> 'e rete" where
  "join_eval h j ts l r s =
     (let (value, err) = EvaluateJoinExpression h ts l r
      in ((value, err), if err then s\<lparr>netErrors := netErrors s @ [j]\<rparr> else s))"

definition EvaluateSecondaryNetworkTest :: "'e matcher \<Rightarrow> addr \<Rightarrow> addr \<Rightarrow> 'e rete \<Rightarrow> bool \<times> 'e rete" where
  "EvaluateSecondaryNetworkTest h l j s =
     (if secondaryNetworkTest (joins s j) = [] then (True, s)
      else let ((value, _), s1) = join_eval h j (secondaryNetworkTest (joins s j)) (Some (pmBinds (pms s l))) None s in (value, s1))"

text \<open>The test of a pair: an error counts as a match when the pattern is negated.\<close>

definition pair_test :: "'e matcher \<Rightarrow> addr \<Rightarrow> addr \<Rightarrow> addr \<Rightarrow> 'e rete \<Rightarrow> bool \<times> 'e rete" where
  "pair_test h j l r s =
     (if networkTest (joins s j) = [] then (True, s)
      else let ((value, err), s1) =
             join_eval h j (networkTest (joins s j)) (Some (pmBinds (pms s l))) (Some (pmBinds (pms s r))) s
           in (if err \<and> patternIsNegated (joins s j) then True else value, s1))"

definition secondary_test :: "'e matcher \<Rightarrow> addr \<Rightarrow> addr \<Rightarrow> addr \<Rightarrow> 'e rete \<Rightarrow> bool \<times> 'e rete" where
  "secondary_test h j l r s =
     (let ((value, _), s1) =
        join_eval h j (secondaryNetworkTest (joins s j)) (Some (pmBinds (pms s l))) (Some (pmBinds (pms s r))) s in (value, s1))"

section \<open>Entities of a match\<close>

definition PartialMatchWillBeDeleted :: "'e matcher \<Rightarrow> addr \<Rightarrow> 'e rete \<Rightarrow> bool" where
  "PartialMatchWillBeDeleted h p s =
     list_ex (\<lambda>b. case b of None \<Rightarrow> False | Some am \<Rightarrow> isDeleted h (matchingItem am) (environment s)) (pmBinds (pms s p))"

definition PartialMatchDefunct :: "'e matcher \<Rightarrow> addr \<Rightarrow> 'e rete \<Rightarrow> bool" where
  "PartialMatchDefunct h p s =
     list_ex (\<lambda>b. case b of None \<Rightarrow> False | Some am \<Rightarrow> \<not> isSynchronized h (matchingItem am) (environment s)) (pmBinds (pms s p))"

section \<open>Giving matches back\<close>

text \<open>A busy match goes to the garbage list. The storage of the alpha match and of its markers is not part of the state.\<close>

definition ReturnPartialMatch :: "'e matcher \<Rightarrow> addr \<Rightarrow> 'e rete \<Rightarrow> 'e rete" where
  "ReturnPartialMatch h p s =
     (if pmBusy (pms s p) then s\<lparr>GarbagePartialMatches := p # GarbagePartialMatches s\<rparr>
      else s\<lparr>environment := removeDependencies h p (environment s), freedMatches := p # freedMatches s\<rparr>)"

definition remove_support :: "'e matcher \<Rightarrow> addr \<Rightarrow> 'e rete \<Rightarrow> 'e rete" where
  "remove_support h p s = s\<lparr>environment := removeSupport h p (environment s)\<rparr>"

text \<open>The callers give a single match to \<open>DeletePartialMatches\<close>: its chain link has been cleared.\<close>

definition DeletePartialMatches :: "'e matcher \<Rightarrow> addr list \<Rightarrow> 'e rete \<Rightarrow> 'e rete" where
  "DeletePartialMatches h ps s = fold (\<lambda>p s. ReturnPartialMatch h p (remove_support h p s)) ps s"

definition FlushGarbagePartialMatches :: "'e matcher \<Rightarrow> 'e rete \<Rightarrow> 'e rete" where
  "FlushGarbagePartialMatches h s =
     (fold (\<lambda>p s. ReturnPartialMatch h p (upd_pm p (\<lambda>m. m\<lparr>pmBusy := False\<rparr>) s)) (GarbagePartialMatches s) s)
       \<lparr>GarbagePartialMatches := []\<rparr>"

text \<open>Dropping the activation of a match of a rule.\<close>

definition remove_activation :: "'e matcher \<Rightarrow> addr \<Rightarrow> 'e rete \<Rightarrow> 'e rete" where
  "remove_activation h p s =
     (case (ruleToActivate (joins s (pmOwner (pms s p))), pmMarker (pms s p)) of
        (Some _, Activated a) \<Rightarrow>
          upd_pm p (\<lambda>m. m\<lparr>pmMarker := Unmarked\<rparr>) (s\<lparr>environment := removeActivation h a (environment s)\<rparr>)
      | _ \<Rightarrow> s)"

section \<open>Driving a match to the joins below\<close>

datatype call =
    NetworkAssertLeft addr addr
  | NetworkAssertRight addr addr
  | PosEntryRetractBeta addr addr
  | NegEntryRetractAlpha addr

datatype operation = NETWORK_ASSERT | NETWORK_RETRACT

type_synonym 'e caller = "call \<Rightarrow> 'e rete \<Rightarrow> 'e rete option"

fun fold_option :: "('a \<Rightarrow> 's \<Rightarrow> 's option) \<Rightarrow> 'a list \<Rightarrow> 's \<Rightarrow> 's option" where
  "fold_option f [] s = Some s"
| "fold_option f (x # xs) s = Option.bind (f x s) (fold_option f xs)"

definition enter :: "direction \<Rightarrow> addr \<Rightarrow> addr \<Rightarrow> call" where
  "enter d p j = (if d = LHS then NetworkAssertLeft p j else NetworkAssertRight p j)"

definition link_hash :: "'e matcher \<Rightarrow> direction \<Rightarrow> addr \<Rightarrow> addr \<Rightarrow> 'e rete \<Rightarrow> u64" where
  "link_hash h d j p s = BetaMemoryHashValue h ((if d = LHS then leftHash else rightHash) (joins s j)) (Some (pmBinds (pms s p))) None"

definition PPDrive :: "'e matcher \<Rightarrow> 'e caller \<Rightarrow> addr \<Rightarrow> pointer \<Rightarrow> addr \<Rightarrow> 'e rete \<Rightarrow> 'e rete option" where
  "PPDrive h rec l r j s =
     fold_option (\<lambda>(d, k) s.
       let (p, s1) = MergePartialMatches l r s
       in rec (enter d p k) (UpdateBetaPMLinks p (Some l) r k (link_hash h d k p s1) d s1))
     (nextLinks (joins s j)) s"

definition EPMDrive :: "'e caller \<Rightarrow> addr \<Rightarrow> addr \<Rightarrow> 'e rete \<Rightarrow> 'e rete option" where
  "EPMDrive rec l j s =
     fold_option (\<lambda>(d, k) s.
       let (p, s1) = CreateEmptyPartialMatch s in rec (enter d p k) (UpdateBetaPMLinks p (Some l) None k 0 d s1))
     (nextLinks (joins s j)) s"

section \<open>Asserting\<close>

text \<open>\<open>beta[0]\<close> of a left memory is the first match of its first bucket.\<close>

definition left_parent :: "addr \<Rightarrow> 'e rete \<Rightarrow> addr" where
  "left_parent j s = hd (beta (memory_of LHS j s) ! 0)"

definition drive_first :: "'e matcher \<Rightarrow> 'e caller \<Rightarrow> addr \<Rightarrow> addr \<Rightarrow> 'e rete \<Rightarrow> 'e rete option" where
  "drive_first h rec j r s =
     (let ex = patternIsExists (joins s j); parent = left_parent j s
      in fold_option (\<lambda>(d, k) s.
           let (p, s1) = (if ex then CreateEmptyPartialMatch s else CopyPartialMatch r s);
               hv = link_hash h d k p s1
           in rec (enter d p k)
                (if ex then UpdateBetaPMLinks p (Some parent) None k hv d s1 else UpdateBetaPMLinks p None (Some r) k hv d s1))
         (nextLinks (joins s j)) s)"

definition first_test :: "'e matcher \<Rightarrow> addr \<Rightarrow> addr \<Rightarrow> join_test list \<Rightarrow> 'e rete \<Rightarrow> bool \<times> 'e rete" where
  "first_test h j r ts s =
     (if ts = [] then (True, s)
      else let ((value, _), s1) = join_eval h j ts None (Some (pmBinds (pms s r))) s in (value, s1))"

definition EmptyDrive :: "'e matcher \<Rightarrow> 'e caller \<Rightarrow> addr \<Rightarrow> addr \<Rightarrow> 'e rete \<Rightarrow> 'e rete option" where
  "EmptyDrive h rec j r s =
     (let J = joins s j;
          (ok1, s1) = first_test h j r (networkTest J) s
      in if \<not> ok1 then Some s1
         else let (ok2, s2) = first_test h j r (secondaryNetworkTest J) s1
         in if \<not> ok2 then Some s2
         else if patternIsNegated J \<or> joinFromTheRight J \<and> \<not> patternIsExists J then
           (let parent = left_parent j s2
            in if pmMarker (pms s2 parent) \<noteq> Unmarked then Some s2
               else let s3 = AddBlockedLink parent r s2
               in case pmChildren (pms s3 parent) of [] \<Rightarrow> Some s3 | c # _ \<Rightarrow> rec (PosEntryRetractBeta parent c) s3)
         else if patternIsExists J then
           (let parent = left_parent j s2
            in if pmMarker (pms s2 parent) \<noteq> Unmarked then Some s2
               else drive_first h rec j r (AddBlockedLink parent r s2))
         else drive_first h rec j r s2)"

definition compare_count :: "addr \<Rightarrow> 'e rete \<Rightarrow> 'e rete" where
  "compare_count j s = s\<lparr>memoryCompares := bump (memoryCompares s) j\<rparr>"

text \<open>What a right match does with one match of the left memory.\<close>

definition assert_right_pair :: "'e matcher \<Rightarrow> 'e caller \<Rightarrow> addr \<Rightarrow> addr \<Rightarrow> addr \<Rightarrow> 'e rete \<Rightarrow> 'e rete option" where
  "assert_right_pair h rec j r l s0 =
     (let s = compare_count j s0; J = joins s j
      in if pmHash (pms s l) \<noteq> pmHash (pms s r) then Some s
         else if pmMarker (pms s l) \<noteq> Unmarked then Some s
         else let (ok1, s1) = pair_test h j l r s;
                  (ok2, s2) = (if secondaryNetworkTest J \<noteq> [] \<and> ok1 then secondary_test h j l r s1 else (ok1, s1))
              in if \<not> ok2 then Some s2
                 else if patternIsExists J then PPDrive h rec l None j (AddBlockedLink l r s2)
                 else if patternIsNegated J \<or> joinFromTheRight J then
                   (let s3 = AddBlockedLink l r s2
                    in case pmChildren (pms s3 l) of [] \<Rightarrow> Some s3 | c # _ \<Rightarrow> rec (PosEntryRetractBeta l c) s3)
                 else PPDrive h rec l (Some r) j s2)"

definition assert_right :: "'e matcher \<Rightarrow> 'e caller \<Rightarrow> addr \<Rightarrow> addr \<Rightarrow> 'e rete \<Rightarrow> 'e rete option" where
  "assert_right h rec r j s =
     (if IncrementalResetInProgress s \<and> \<not> initialize (joins s j) then Some s
      else if firstJoin (joins s j) then EmptyDrive h rec j r s
      else fold_option (assert_right_pair h rec j r) (GetLeftBetaMemory j (pmHash (pms s r)) s) s)"

text \<open>A left match against the right matches of its bucket, in order. A \<open>not\<close> or \<open>exists\<close> pattern needs one match only:
  the first one becomes the marker of the left match and ends the loop.\<close>

fun assert_left_pairs :: "'e matcher \<Rightarrow> 'e caller \<Rightarrow> operation \<Rightarrow> addr \<Rightarrow> addr \<Rightarrow> addr list \<Rightarrow> 'e rete \<Rightarrow> 'e rete option" where
  "assert_left_pairs h rec opn l j [] s = Some s"
| "assert_left_pairs h rec opn l j (r # rs) s =
     (if opn = NETWORK_RETRACT \<and> PartialMatchWillBeDeleted h r s then assert_left_pairs h rec opn l j rs s
      else let J = joins s j;
               (ok1, s1) = pair_test h j l r (compare_count j s);
               (ok2, s2) = (if secondaryNetworkTest J \<noteq> [] \<and> ok1 \<and> patternIsExists J then secondary_test h j l r s1 else (ok1, s1))
           in if \<not> ok2 then assert_left_pairs h rec opn l j rs s2
              else if \<not> patternIsNegated J \<and> \<not> patternIsExists J \<and> \<not> joinFromTheRight J then
                Option.bind (PPDrive h rec l (Some r) j s2) (assert_left_pairs h rec opn l j rs)
              else if patternIsExists J then PPDrive h rec l None j (AddBlockedLink l r s2)
              else Some (AddBlockedLink l r s2))"

definition right_matches :: "addr \<Rightarrow> u64 \<Rightarrow> 'e rete \<Rightarrow> addr list" where
  "right_matches j hv s =
     (if joinFromTheRight (joins s j) then GetRightBetaMemory j hv s
      else case rightSideEntryStructure (joins s j) of PatternEntry p \<Rightarrow> GetAlphaMemory p hv s | _ \<Rightarrow> [])"

definition assert_left :: "'e matcher \<Rightarrow> 'e caller \<Rightarrow> operation \<Rightarrow> addr \<Rightarrow> addr \<Rightarrow> 'e rete \<Rightarrow> 'e rete option" where
  "assert_left h rec opn l j s =
     (let J = joins s j
      in if opn = NETWORK_RETRACT \<and> PartialMatchWillBeDeleted h l s then Some s
         else if IncrementalResetInProgress s \<and> \<not> initialize J then Some s
         else case ruleToActivate J of
           Some rule \<Rightarrow>
             (let (a, e) = addActivation h rule l (pmBinds (pms s l)) (environment s)
              in Some (upd_pm l (\<lambda>m. m\<lparr>pmMarker := Activated a\<rparr>) (s\<lparr>environment := e\<rparr>)))
         | None \<Rightarrow>
             if rightSideEntryStructure J = NoEntry then
               (let ((ok, _), s1) =
                  (if networkTest J = [] then ((True, False), s)
                   else join_eval h j (networkTest J) (Some (pmBinds (pms s l))) None s)
                in if ok then PPDrive h rec l None j s1 else Some s1)
             else Option.bind (assert_left_pairs h rec opn l j (right_matches j (pmHash (pms s l)) s) s) (\<lambda>s1.
               if (patternIsNegated J \<or> joinFromTheRight J) \<and> \<not> patternIsExists J \<and> pmMarker (pms s1 l) = Unmarked then
                 (let (ok, s2) = EvaluateSecondaryNetworkTest h l j s1
                  in if ok then PPDrive h rec l None j s2 else Some s2)
               else Some s1))"

section \<open>Retracting\<close>

text \<open>The matches after a match in its chain.\<close>

definition chain_after :: "addr \<Rightarrow> 'e rete \<Rightarrow> addr list" where
  "chain_after p s =
     (let m = pms s p;
          ps = (if pmBeta m then (let b = memory_of (if pmRhs m then RHS else LHS) (pmOwner m) s in beta b ! bucket_of (pmHash m) b)
                else case FindAlphaMemory (pmOwner m) (alpha_bucket p s) s of None \<Rightarrow> [] | Some am \<Rightarrow> alphaMemory am)
      in drop 1 (dropWhile (\<lambda>q. q \<noteq> p) ps))"

text \<open>Here an error counts as a conflict whatever the pattern.\<close>

definition conflicts :: "'e matcher \<Rightarrow> operation \<Rightarrow> addr \<Rightarrow> addr \<Rightarrow> addr \<Rightarrow> addr \<Rightarrow> 'e rete \<Rightarrow> bool \<times> 'e rete" where
  "conflicts h opn j l skip r s =
     (if r = skip then (False, s)
      else if PartialMatchDefunct h r s then (False, s)
      else if opn = NETWORK_RETRACT \<and> PartialMatchWillBeDeleted h r s then (False, s)
      else if networkTest (joins s j) = [] then (True, s)
      else let ((value, err), s1) =
             join_eval h j (networkTest (joins s j)) (Some (pmBinds (pms s l))) (Some (pmBinds (pms s r))) s
           in (value \<or> err, s1))"

fun FindNextConflictingMatch :: "'e matcher \<Rightarrow> operation \<Rightarrow> addr \<Rightarrow> addr list \<Rightarrow> addr \<Rightarrow> addr \<Rightarrow> 'e rete \<Rightarrow> bool \<times> 'e rete" where
  "FindNextConflictingMatch h opn l [] j skip s = (False, s)"
| "FindNextConflictingMatch h opn l (r # rs) j skip s =
     (let (c, s1) = conflicts h opn j l skip r (compare_count j s)
      in if c then (True, AddBlockedLink l r s1) else FindNextConflictingMatch h opn l rs j skip s1)"

definition NegEntryRetractBeta :: "'e matcher \<Rightarrow> 'e caller \<Rightarrow> operation \<Rightarrow> addr \<Rightarrow> addr \<Rightarrow> addr \<Rightarrow> 'e rete \<Rightarrow> 'e rete option" where
  "NegEntryRetractBeta h rec opn j a l s =
     (let J = joins s j;
          s1 = RemoveBlockedLink l s;
          (found, s2) = FindNextConflictingMatch h opn l (chain_after a s1) j a s1
      in if found then Some s2
         else if patternIsExists J then
           (case pmChildren (pms s2 l) of [] \<Rightarrow> Some s2 | c # _ \<Rightarrow> rec (PosEntryRetractBeta l c) s2)
         else let (ok, s3) = EvaluateSecondaryNetworkTest h l j s2
         in if \<not> ok then Some s3
            else if firstJoin J \<and> (patternIsNegated J \<or> joinFromTheRight J) then EPMDrive rec l j s3
            else if opn = NETWORK_RETRACT \<and> PartialMatchWillBeDeleted h l s3 then Some s3
            else PPDrive h rec l None j s3)"

text \<open>The head of the list of blocked matches, until the list is empty. A blocked match of another kind of join is a
  system error, and skipped.\<close>

fun skip_errors :: "addr list \<Rightarrow> 'e rete \<Rightarrow> pointer \<times> 'e rete" where
  "skip_errors [] s = (None, s)"
| "skip_errors (l # ls) s =
     (let J = joins s (pmOwner (pms s l))
      in if \<not> patternIsNegated J \<and> \<not> patternIsExists J \<and> \<not> joinFromTheRight J
         then skip_errors ls (s\<lparr>systemErrors := systemErrors s @ [117]\<rparr>) else (Some l, s))"

definition neg_retract_alpha :: "'e matcher \<Rightarrow> 'e caller \<Rightarrow> operation \<Rightarrow> addr \<Rightarrow> 'e rete \<Rightarrow> 'e rete option" where
  "neg_retract_alpha h rec opn a s =
     (case skip_errors (pmBlockList (pms s a)) s of
        (None, s1) \<Rightarrow> Some s1
      | (Some l, s1) \<Rightarrow>
          Option.bind (NegEntryRetractBeta h rec opn (pmOwner (pms s1 l)) a l s1) (rec (NegEntryRetractAlpha a)))"

text \<open>The sibling after a match among the children of its left parent.\<close>

definition next_sibling :: "addr \<Rightarrow> 'e rete \<Rightarrow> pointer" where
  "next_sibling p s = (case pmLeftParent (pms s p) of None \<Rightarrow> None
     | Some q \<Rightarrow> (case drop 1 (dropWhile (\<lambda>c. c \<noteq> p) (pmChildren (pms s q))) of [] \<Rightarrow> None | c # _ \<Rightarrow> Some c))"

text \<open>One step of the walk over the descendants of \<open>parent\<close>, leaves first: down to the first child, or give the match up and go
  on with its sibling or, when it was the last one, with its parent.\<close>

definition pos_retract_beta :: "'e matcher \<Rightarrow> 'e caller \<Rightarrow> addr \<Rightarrow> addr \<Rightarrow> 'e rete \<Rightarrow> 'e rete option" where
  "pos_retract_beta h rec parent b s =
     (case pmChildren (pms s b) of
        c # _ \<Rightarrow> rec (PosEntryRetractBeta parent c) s
      | [] \<Rightarrow>
          (let up = the (pmLeftParent (pms s b));
               (temp, s1) = (case next_sibling b s of Some c \<Rightarrow> (c, s)
                  | None \<Rightarrow> (up, upd_pm up (\<lambda>m. m\<lparr>pmChildren := []\<rparr>) s))
           in Option.bind (if pmBlockList (pms s1 b) \<noteq> [] then rec (NegEntryRetractAlpha b) s1 else Some (remove_activation h b s1)) (\<lambda>s2.
             let s3 = UnlinkNonLeftLineage (pmOwner (pms s2 b)) b (if pmRhs (pms s2 b) then RHS else LHS) s2;
                 s4 = ReturnPartialMatch h b (remove_support h b s3)
             in if temp = parent then Some s4 else rec (PosEntryRetractBeta parent temp) s4)))"

section \<open>The network\<close>

primrec network :: "'e matcher \<Rightarrow> operation \<Rightarrow> nat \<Rightarrow> call \<Rightarrow> 'e rete \<Rightarrow> 'e rete option" where
  "network h opn 0 c s = None"
| "network h opn (Suc n) c s =
     (case c of
        NetworkAssertLeft l j \<Rightarrow> assert_left h (network h opn n) opn l j s
      | NetworkAssertRight r j \<Rightarrow> assert_right h (network h opn n) r j s
      | PosEntryRetractBeta p b \<Rightarrow> pos_retract_beta h (network h opn n) p b s
      | NegEntryRetractAlpha a \<Rightarrow> neg_retract_alpha h (network h opn n) opn a s)"

text \<open>\<open>NetworkAssert\<close>: a new match of a pattern enters a join from the right.\<close>

definition NetworkAssert :: "'e matcher \<Rightarrow> 'e caller \<Rightarrow> addr \<Rightarrow> addr \<Rightarrow> 'e rete \<Rightarrow> 'e rete option" where
  "NetworkAssert h rec r j s =
     (if IncrementalResetInProgress s \<and> \<not> initialize (joins s j) then Some s
      else if firstJoin (joins s j) then EmptyDrive h rec j r s
      else rec (NetworkAssertRight r j) s)"

text \<open>Every child of the match, in any join: what was made from the child goes first, then the child itself. The next child is
  read before the child is unlinked.\<close>

definition next_right :: "addr \<Rightarrow> 'e rete \<Rightarrow> pointer" where
  "next_right p s = (case pmRightParent (pms s p) of None \<Rightarrow> None
     | Some q \<Rightarrow> (case drop 1 (dropWhile (\<lambda>c. c \<noteq> p) (pmChildren (pms s q))) of [] \<Rightarrow> None | c # _ \<Rightarrow> Some c))"

definition remove_child :: "'e matcher \<Rightarrow> addr \<Rightarrow> 'e rete \<Rightarrow> 'e rete" where
  "remove_child h b s =
     (let s1 = remove_activation h b s;
          s2 = UnlinkBetaPMFromNodeAndLineage (pmOwner (pms s1 b)) b (if pmRhs (pms s1 b) then RHS else LHS) s1
      in DeletePartialMatches h [b] s2)"

primrec retract_children :: "'e matcher \<Rightarrow> operation \<Rightarrow> nat \<Rightarrow> nat \<Rightarrow> addr \<Rightarrow> 'e rete \<Rightarrow> 'e rete option" where
  "retract_children h opn n 0 b s = None"
| "retract_children h opn n (Suc i) b s =
     Option.bind (case pmChildren (pms s b) of [] \<Rightarrow> Some s | c # _ \<Rightarrow> network h opn n (PosEntryRetractBeta b c) s) (\<lambda>s1.
     Option.bind (if pmRhs (pms s1 b) then network h opn n (NegEntryRetractAlpha b) s1 else Some s1) (\<lambda>s2.
       let s3 = remove_child h b s2
       in case next_right b s2 of None \<Rightarrow> Some s3 | Some c \<Rightarrow> retract_children h opn n i c s3))"

definition PosEntryRetractAlpha :: "'e matcher \<Rightarrow> operation \<Rightarrow> nat \<Rightarrow> addr \<Rightarrow> 'e rete \<Rightarrow> 'e rete option" where
  "PosEntryRetractAlpha h opn n a s =
     (case pmChildren (pms s a) of [] \<Rightarrow> Some s | c # _ \<Rightarrow> retract_children h opn n n c s)"

text \<open>A \<open>patternMatch\<close> names the header and the alpha match.\<close>

definition retract_match :: "'e matcher \<Rightarrow> nat \<Rightarrow> addr \<times> addr \<Rightarrow> 'e rete \<Rightarrow> 'e rete option" where
  "retract_match h n ma s = (case ma of (p, a) \<Rightarrow>
     Option.bind (PosEntryRetractAlpha h NETWORK_RETRACT n a s) (\<lambda>s1.
     Option.bind (if pmBlockList (pms s1 a) \<noteq> [] then network h NETWORK_RETRACT n (NegEntryRetractAlpha a) s1 else Some s1) (\<lambda>s2.
       Some (RemoveAlphaMemoryMatches p a s2))))"

definition NetworkRetract :: "'e matcher \<Rightarrow> nat \<Rightarrow> (addr \<times> addr) list \<Rightarrow> 'e rete \<Rightarrow> 'e rete option" where
  "NetworkRetract h n ms s = fold_option (retract_match h n) ms s"

text \<open>A pattern of the pattern network is satisfied (\<open>ProcessFactAlphaMatch\<close>): the match is stored, added to the list of the
  fact and sent to the joins of the pattern.\<close>

definition add_match :: "addr \<Rightarrow> addr \<Rightarrow> addr \<Rightarrow> 'e rete \<Rightarrow> 'e rete" where
  "add_match f p a s = s\<lparr>matchLists := (matchLists s)(f := (p, a) # matchLists s f)\<rparr>"

definition ProcessFactAlphaMatch :: "'e matcher \<Rightarrow> nat \<Rightarrow> addr \<Rightarrow> multifieldMarker list \<Rightarrow> addr \<Rightarrow> 'e rete \<Rightarrow> (addr \<times> 'e rete) option" where
  "ProcessFactAlphaMatch h n f ms p s =
     (let hv = ComputeRightHashValue h (headerHash (headers s p)) f ms;
          (a, s1) = CreateAlphaMatch f ms p hv s;
          s2 = add_match f p a (upd_pm a (\<lambda>m. m\<lparr>pmOwner := p\<rparr>) s1)
      in map_option (Pair a) (fold_option (NetworkAssert h (network h NETWORK_ASSERT n) a) (entryJoins (headers s2 p)) s2))"

end
