(* ===== verification/Join_Spec.thy ===== *)
theory Join_Spec
  imports Join_Network
begin

text \<open>
  What the join network has to compute. A rule without joins from the right is a path of joins; the matches that
  leave a join are those that entered it, each extended with every right match that passes the test of the join, or, for a
  negated or an existential pattern, with an empty binding if no, or some, right match passes it. \<open>outs\<close> computes
  them from the contents of the alpha memories alone.
\<close>

section \<open>Tests without a state\<close>

definition pair_ok :: "'e matcher \<Rightarrow> joinNode \<Rightarrow> bindings \<Rightarrow> bindings \<Rightarrow> bool" where
  "pair_ok h J l r \<longleftrightarrow> networkTest J = [] \<or>
     (case EvaluateJoinExpression h (networkTest J) (Some l) (Some r) of (v, e) \<Rightarrow> v \<or> e \<and> patternIsNegated J)"

definition sec_ok :: "'e matcher \<Rightarrow> joinNode \<Rightarrow> bindings \<Rightarrow> bool" where
  "sec_ok h J l \<longleftrightarrow> secondaryNetworkTest J = [] \<or> fst (EvaluateJoinExpression h (secondaryNetworkTest J) (Some l) None)"

definition left_ok :: "'e matcher \<Rightarrow> joinNode \<Rightarrow> bindings \<Rightarrow> bool" where
  "left_ok h J l \<longleftrightarrow> networkTest J = [] \<or> fst (EvaluateJoinExpression h (networkTest J) (Some l) None)"

definition first_ok :: "'e matcher \<Rightarrow> joinNode \<Rightarrow> bindings \<Rightarrow> bool" where
  "first_ok h J r \<longleftrightarrow> (networkTest J = [] \<or> fst (EvaluateJoinExpression h (networkTest J) None (Some r))) \<and>
     (secondaryNetworkTest J = [] \<or> fst (EvaluateJoinExpression h (secondaryNetworkTest J) None (Some r)))"

section \<open>The matches that leave a join\<close>

text \<open>\<open>A\<close> gives the alpha matches of a pattern.\<close>

definition entry_matches :: "(addr \<Rightarrow> alphaMatch list) \<Rightarrow> joinNode \<Rightarrow> bindings list" where
  "entry_matches A J = (case rightSideEntryStructure J of PatternEntry p \<Rightarrow> map (\<lambda>a. [Some a]) (A p) | _ \<Rightarrow> [])"

definition first_out :: "'e matcher \<Rightarrow> (addr \<Rightarrow> alphaMatch list) \<Rightarrow> joinNode \<Rightarrow> bindings list" where
  "first_out h A J =
     (let rs = entry_matches A J
      in if patternIsNegated J then (if rs = [] \<and> sec_ok h J [None] then [[None]] else [])
         else if patternIsExists J then (if rs \<noteq> [] \<and> sec_ok h J [None] then [[None]] else [])
         else filter (first_ok h J) rs)"

definition extend :: "'e matcher \<Rightarrow> (addr \<Rightarrow> alphaMatch list) \<Rightarrow> joinNode \<Rightarrow> bindings \<Rightarrow> bindings list" where
  "extend h A J l =
     (let rs = filter (pair_ok h J l) (entry_matches A J)
      in if rightSideEntryStructure J = NoEntry then (if left_ok h J l then [l @ [None]] else [])
         else if patternIsNegated J then (if rs = [] \<and> sec_ok h J l then [l @ [None]] else [])
         else if patternIsExists J then (if rs \<noteq> [] \<and> sec_ok h J l then [l @ [None]] else [])
         else map (\<lambda>r. l @ r) rs)"

text \<open>A path is the list of the joins from a join up to the first one.\<close>

fun outs :: "'e matcher \<Rightarrow> (addr \<Rightarrow> alphaMatch list) \<Rightarrow> joinNode list \<Rightarrow> bindings list" where
  "outs h A [] = []"
| "outs h A [J] = first_out h A J"
| "outs h A (J # Js) = concat (map (extend h A J) (outs h A Js))"

inductive path :: "(addr \<Rightarrow> joinNode) \<Rightarrow> addr \<Rightarrow> addr list \<Rightarrow> bool" where
  first: "lastLevel (N j) = None \<Longrightarrow> path N j [j]"
| above: "lastLevel (N j) = Some i \<Longrightarrow> path N i js \<Longrightarrow> path N j (j # js)"

inductive below :: "(addr \<Rightarrow> joinNode) \<Rightarrow> addr \<Rightarrow> addr \<Rightarrow> bool" where
  link: "lastLevel (N k) = Some j \<Longrightarrow> below N j k"
| deep: "below N j i \<Longrightarrow> lastLevel (N k) = Some i \<Longrightarrow> below N j k"

section \<open>Well-formed networks\<close>

definition terminal :: "joinNode \<Rightarrow> bool" where
  "terminal J \<longleftrightarrow> ruleToActivate J \<noteq> None"

definition positive :: "joinNode \<Rightarrow> bool" where
  "positive J \<longleftrightarrow> \<not> patternIsNegated J \<and> \<not> patternIsExists J"

text \<open>Whether the join has a left memory.\<close>

definition has_left :: "joinNode \<Rightarrow> bool" where
  "has_left J \<longleftrightarrow> \<not> (firstJoin J \<and> positive J)"

text \<open>The links of a join; a path ends in the join that activates the rule, which has neither pattern nor test. The join after a first
  pattern that binds nothing has no variable to hash on.\<close>

definition join_links_ok :: "addr set \<Rightarrow> (addr \<Rightarrow> joinNode) \<Rightarrow> addr \<Rightarrow> bool" where
  "join_links_ok Js N j \<longleftrightarrow>
     (firstJoin (N j) \<longleftrightarrow> lastLevel (N j) = None) \<and>
     (\<forall>i. lastLevel (N j) = Some i \<longrightarrow> i \<in> Js \<and> depth (N i) < depth (N j) \<and> (LHS, j) \<in> set (nextLinks (N i))) \<and>
     distinct (nextLinks (N j)) \<and>
     (\<forall>(d, k) \<in> set (nextLinks (N j)). d = LHS \<and> k \<in> Js \<and> lastLevel (N k) = Some j \<and>
        (firstJoin (N j) \<and> \<not> positive (N j) \<longrightarrow> leftHash (N k) = [])) \<and>
     (terminal (N j) \<longrightarrow> nextLinks (N j) = [] \<and> \<not> firstJoin (N j) \<and> positive (N j) \<and> rightSideEntryStructure (N j) = NoEntry)"

text \<open>The shape of the tests that the rule compiler generates: a join from the right is excluded; a \<open>test\<close> condition after a
  negated or existential pattern becomes the secondary test, which reads no variable of the pattern; and a negated or existential first pattern has
  no join test.\<close>

definition tests_ok :: "'e matcher \<Rightarrow> joinNode \<Rightarrow> bool" where
  "tests_ok h J \<longleftrightarrow>
     \<not> joinFromTheRight J \<and> \<not> (patternIsNegated J \<and> patternIsExists J) \<and>
     (rightSideEntryStructure J = NoEntry \<or> (\<exists>p. rightSideEntryStructure J = PatternEntry p)) \<and>
     (rightSideEntryStructure J = NoEntry \<longrightarrow> positive J) \<and>
     (positive J \<longrightarrow> secondaryNetworkTest J = []) \<and>
     (firstJoin J \<longrightarrow> leftHash J = [] \<and> rightSideEntryStructure J \<noteq> NoEntry \<and> (\<not> positive J \<longrightarrow> networkTest J = [])) \<and>
     (\<forall>l r. fst (EvaluateJoinExpression h (secondaryNetworkTest J) (Some l) (Some r)) =
        fst (EvaluateJoinExpression h (secondaryNetworkTest J) (Some l) None)) \<and>
     (\<forall>r. fst (EvaluateJoinExpression h (secondaryNetworkTest J) None (Some r)) =
        fst (EvaluateJoinExpression h (secondaryNetworkTest J) (Some [None]) None)) \<and>
     (patternIsExists J \<longrightarrow> (\<forall>l r. \<not> snd (EvaluateJoinExpression h (networkTest J) l r)))"

text \<open>The hash code of an alpha match, and the equality of the hash codes that a join test implies: the hash expressions are generated
  from equality tests of the join. A first join compares with nothing, so its pattern is not hashed.\<close>

definition alpha_hash :: "'e matcher \<Rightarrow> patternNodeHeader \<Rightarrow> alphaMatch \<Rightarrow> u64" where
  "alpha_hash h H am = ComputeRightHashValue h (headerHash H) (matchingItem am) (markers am)"

definition left_hash :: "'e matcher \<Rightarrow> joinNode \<Rightarrow> bindings \<Rightarrow> u64" where
  "left_hash h J l = BetaMemoryHashValue h (leftHash J) (Some l) None"

definition hash_ok :: "'e matcher \<Rightarrow> (addr \<Rightarrow> patternNodeHeader) \<Rightarrow> joinNode \<Rightarrow> bool" where
  "hash_ok h H J \<longleftrightarrow> (\<forall>p. rightSideEntryStructure J = PatternEntry p \<longrightarrow>
     (firstJoin J \<longrightarrow> headerHash (H p) = []) \<and>
     (\<not> firstJoin J \<longrightarrow> (\<forall>l am. pair_ok h J l [Some am] \<longrightarrow> left_hash h J l = alpha_hash h (H p) am)))"

text \<open>The joins of a pattern, and that a join comes before the joins above it.\<close>

definition entry_ok :: "addr set \<Rightarrow> (addr \<Rightarrow> joinNode) \<Rightarrow> (addr \<Rightarrow> patternNodeHeader) \<Rightarrow> addr \<Rightarrow> bool" where
  "entry_ok Js N H p \<longleftrightarrow> distinct (entryJoins (H p)) \<and>
     set (entryJoins (H p)) = {j \<in> Js. rightSideEntryStructure (N j) = PatternEntry p} \<and>
     sorted_wrt (\<lambda>j k. \<not> below N j k) (entryJoins (H p))"

definition net_ok :: "'e matcher \<Rightarrow> addr set \<Rightarrow> (addr \<Rightarrow> joinNode) \<Rightarrow> (addr \<Rightarrow> patternNodeHeader) \<Rightarrow> bool" where
  "net_ok h Js N H \<longleftrightarrow> finite Js \<and> (\<forall>j \<in> Js. join_links_ok Js N j \<and> tests_ok h (N j) \<and> hash_ok h H (N j)) \<and> (\<forall>p. entry_ok Js N H p)"

text \<open>The other components: retraction marks do not change during matching, and every match is synchronized with its fact.\<close>

definition matcher_ok :: "'e matcher \<Rightarrow> bool" where
  "matcher_ok h \<longleftrightarrow>
     (\<forall>f r l b e. isDeleted h f (snd (addActivation h r l b e)) = isDeleted h f e) \<and>
     (\<forall>f a e. isDeleted h f (removeActivation h a e) = isDeleted h f e) \<and>
     (\<forall>f p e. isDeleted h f (removeSupport h p e) = isDeleted h f e) \<and>
     (\<forall>f p e. isDeleted h f (removeDependencies h p e) = isDeleted h f e) \<and>
     (\<forall>f e. isSynchronized h f e)"

end
