(* ===== verification/Join_Logic.thy ===== *)
theory Join_Logic
  imports Join_Spec
begin

text \<open>
  Total correctness for the functions of the join network: \<open>reaches h opn B Q\<close> says that the body \<open>B\<close>, whose recursive calls
  are those of the network, returns for every large enough bound on the depth of calls, always in the same state, and that
  this state satisfies \<open>Q\<close>.
\<close>

definition reaches :: "'e matcher \<Rightarrow> operation \<Rightarrow> ('e caller \<Rightarrow> 's option) \<Rightarrow> ('s \<Rightarrow> bool) \<Rightarrow> bool" where
  "reaches h opn B Q \<longleftrightarrow> (\<exists>t m. Q t \<and> (\<forall>n \<ge> m. B (network h opn n) = Some t))"

lemma reaches_return: "Q t \<Longrightarrow> reaches h opn (\<lambda>rec. Some t) Q"
  by (auto simp: reaches_def)

lemma reaches_mono: "reaches h opn B P \<Longrightarrow> (\<And>t. P t \<Longrightarrow> Q t) \<Longrightarrow> reaches h opn B Q"
  by (auto simp: reaches_def)

lemma reaches_bind:
  assumes "reaches h opn B P" and "\<And>t. P t \<Longrightarrow> reaches h opn (\<lambda>rec. F rec t) Q"
  shows "reaches h opn (\<lambda>rec. Option.bind (B rec) (F rec)) Q"
proof -
  obtain t m where t: "P t" "\<And>n. n \<ge> m \<Longrightarrow> B (network h opn n) = Some t" using assms(1) by (auto simp: reaches_def)
  obtain u m' where u: "Q u" "\<And>n. n \<ge> m' \<Longrightarrow> F (network h opn n) t = Some u" using assms(2) [OF t(1)] by (auto simp: reaches_def)
  have "Option.bind (B (network h opn n)) (F (network h opn n)) = Some u" if "n \<ge> max m m'" for n
    using that t(2) [of n] u(2) [of n] by simp
  then show ?thesis using u(1) unfolding reaches_def by blast
qed

text \<open>A call takes one more level.\<close>

lemma reaches_call:
  assumes "reaches h opn (\<lambda>rec. case c of
        NetworkAssertLeft l j \<Rightarrow> assert_left h rec opn l j s
      | NetworkAssertRight r j \<Rightarrow> assert_right h rec r j s
      | PosEntryRetractBeta p b \<Rightarrow> pos_retract_beta h rec p b s
      | NegEntryRetractAlpha a \<Rightarrow> neg_retract_alpha h rec opn a s) Q"
  shows "reaches h opn (\<lambda>rec. rec c s) Q"
proof -
  obtain t m where t: "Q t" "\<And>n. n \<ge> m \<Longrightarrow> network h opn (Suc n) c s = Some t"
    using assms by (auto simp: reaches_def)
  have "network h opn n c s = Some t" if "n \<ge> Suc m" for n using t(2) [of "n - 1"] that by (cases n) auto
  then show ?thesis using t(1) unfolding reaches_def by blast
qed

lemmas reaches_left = reaches_call [where c = "NetworkAssertLeft l j" for l j, simplified]
lemmas reaches_right = reaches_call [where c = "NetworkAssertRight r j" for r j, simplified]
lemmas reaches_pos = reaches_call [where c = "PosEntryRetractBeta p b" for p b, simplified]
lemmas reaches_neg = reaches_call [where c = "NegEntryRetractAlpha a" for a, simplified]

text \<open>A loop with an invariant over what it has done.\<close>

lemma reaches_fold:
  assumes "I [] s" and "\<And>ys x zs t. xs = ys @ x # zs \<Longrightarrow> I ys t \<Longrightarrow> reaches h opn (\<lambda>rec. f rec x t) (I (ys @ [x]))"
  shows "reaches h opn (\<lambda>rec. fold_option (f rec) xs s) (I xs)"
proof -
  have "reaches h opn (\<lambda>rec. fold_option (f rec) zs t) (I xs)" if "xs = ys @ zs" "I ys t" for ys zs t
    using that
  proof (induction zs arbitrary: ys t)
    case Nil
    then show ?case by (simp add: reaches_return)
  next
    case (Cons x zs)
    show ?case
      unfolding fold_option.simps
    proof (rule reaches_bind)
      show "reaches h opn (\<lambda>rec. f rec x t) (I (ys @ [x]))" by (rule assms(2) [OF Cons.prems])
      show "reaches h opn (\<lambda>rec. fold_option (f rec) zs t') (I xs)" if "I (ys @ [x]) t'" for t'
        using Cons.IH [of "ys @ [x]" t'] Cons.prems(1) that by simp
    qed
  qed
  from this [of "[]" xs s] assms(1) show ?thesis by simp
qed

text \<open>What a body reaches does not depend on how deep the calls may go.\<close>

lemma reaches_network:
  "reaches h opn (\<lambda>rec. rec c s) Q \<Longrightarrow> \<exists>t m. Q t \<and> (\<forall>n \<ge> m. network h opn n c s = Some t)"
  by (simp add: reaches_def)

end
