(* ===== verification/Join_Memories.thy ===== *)
theory Join_Memories
  imports Join_State
begin

text \<open>
  The hash tables of \<open>reteutil.c\<close>: beta memories, which grow and shrink, and alpha memories. \<open>memory_ok\<close> is the
  invariant of a beta memory; inserting, removing, resizing and resetting keep it and do to the mem_contents what they
  should. \<open>alpha_ok\<close> is the invariant of the table of alpha memories, which behaves as one queue for every header and bucket.
\<close>

section \<open>Beta memories\<close>

definition mem_contents :: "betaMemory \<Rightarrow> addr list" where
  "mem_contents m = concat (beta m)"

definition in_buckets :: "(addr \<Rightarrow> u64) \<Rightarrow> betaMemory \<Rightarrow> bool" where
  "in_buckets hv m \<longleftrightarrow> (\<forall>i < mem_size m. \<forall>p \<in> set (beta m ! i). bucket_of (hv p) m = i)"

definition memory_ok :: "(addr \<Rightarrow> u64) \<Rightarrow> betaMemory \<Rightarrow> bool" where
  "memory_ok hv m \<longleftrightarrow> beta m \<noteq> [] \<and> mem_count m = length (mem_contents m) \<and> distinct (mem_contents m) \<and> in_buckets hv m"

lemma bucket_of_less: "beta m \<noteq> [] \<Longrightarrow> bucket_of hv m < mem_size m"
  by (simp add: bucket_of_def)

lemma mem_size_upd_bucket [simp]: "mem_size (upd_bucket i f m) = mem_size m"
  by (simp add: upd_bucket_def)

lemma bucket_of_upd [simp]: "bucket_of hv (upd_bucket i f m) = bucket_of hv m" "bucket_of hv (m\<lparr>mem_count := c\<rparr>) = bucket_of hv m"
  by (simp_all add: bucket_of_def upd_bucket_def)

lemma mset_concat_update:
  "i < length xss \<Longrightarrow> mset (concat (xss[i := ys])) + mset (xss ! i) = mset (concat xss) + mset ys"
  by (induction xss arbitrary: i) (auto split: nat.splits simp: nth_Cons')

lemma set_concat_nth: "p \<in> set (concat xss) \<longleftrightarrow> (\<exists>i < length xss. p \<in> set (xss ! i))"
  by (simp, metis in_set_conv_nth)

lemma mem_contents_bucket:
  assumes "in_buckets hv m" "p \<in> set (mem_contents m)"
  shows "p \<in> set (beta m ! bucket_of (hv p) m)"
  using assms by (auto simp: mem_contents_def in_buckets_def in_set_conv_nth [of _ "beta m"]) 

lemma mem_contents_upd:
  "i < mem_size m \<Longrightarrow> mset (mem_contents (upd_bucket i f m)) + mset (beta m ! i) = mset (mem_contents m) + mset (f (beta m ! i))"
  by (simp add: mem_contents_def upd_bucket_def mset_concat_update)

lemma in_buckets_upd:
  assumes "in_buckets hv m" "i < mem_size m" "\<And>p. p \<in> set (f (beta m ! i)) \<Longrightarrow> p \<in> set (beta m ! i) \<or> bucket_of (hv p) m = i"
  shows "in_buckets hv (upd_bucket i f m)"
  using assms unfolding in_buckets_def bucket_of_upd by (auto simp: upd_bucket_def nth_list_update)

lemma in_buckets_count [simp]: "in_buckets hv (m\<lparr>mem_count := c\<rparr>) = in_buckets hv m" "mem_contents (m\<lparr>mem_count := c\<rparr>) = mem_contents m"
  by (simp_all add: in_buckets_def bucket_of_def mem_contents_def)

lemma mset_contents_insert:
  assumes "beta m \<noteq> []"
  shows "mset (mem_contents (memory_insert d p hv m)) = add_mset p (mset (mem_contents m))"
  using mem_contents_upd [OF bucket_of_less [OF assms], where f = "\<lambda>ps. if d = LHS then p # ps else ps @ [p]", of hv]
  by (cases d) (simp_all add: memory_insert_def)

lemma memory_ok_mset:
  assumes "mset (mem_contents m') = mset ps" "distinct ps" "beta m' \<noteq> []" "mem_count m' = length ps" "in_buckets hv m'"
  shows "memory_ok hv m'" "set (mem_contents m') = set ps"
proof -
  show "set (mem_contents m') = set ps" using assms(1) by (rule mset_eq_setD)
  have "length (mem_contents m') = length ps" using assms(1) by (rule mset_eq_length)
  moreover have "distinct (mem_contents m')" using assms(1,2) by (metis distinct_count_atmost_1 set_mset_mset)
  ultimately show "memory_ok hv m'" using assms by (simp add: memory_ok_def)
qed

lemma memory_insert_ok:
  assumes "memory_ok hv m" "p \<notin> set (mem_contents m)"
  shows "memory_ok hv (memory_insert d p (hv p) m)" "set (mem_contents (memory_insert d p (hv p) m)) = insert p (set (mem_contents m))"
proof -
  let ?m = "memory_insert d p (hv p) m"
  have ne: "beta m \<noteq> []" and b: "in_buckets hv m" using assms(1) by (auto simp: memory_ok_def)
  have "mset (mem_contents ?m) = mset (p # mem_contents m)" by (simp add: mset_contents_insert [OF ne])
  moreover have "distinct (p # mem_contents m)" using assms by (simp add: memory_ok_def)
  moreover have "beta ?m \<noteq> []" using ne by (simp add: memory_insert_def upd_bucket_def)
  moreover have "mem_count ?m = length (p # mem_contents m)" using assms(1) by (simp add: memory_insert_def memory_ok_def)
  moreover have "in_buckets hv ?m"
    unfolding memory_insert_def in_buckets_count
    by (rule in_buckets_upd [OF b bucket_of_less [OF ne]]) (auto split: if_splits)
  ultimately show "memory_ok hv ?m" "set (mem_contents ?m) = insert p (set (mem_contents m))"
    using memory_ok_mset [of ?m "p # mem_contents m" hv] by simp_all
qed

lemma memory_remove_ok:
  assumes "memory_ok hv m" "p \<in> set (mem_contents m)"
  shows "memory_ok hv (memory_remove p (hv p) m)" "set (mem_contents (memory_remove p (hv p) m)) = set (mem_contents m) - {p}"
proof -
  let ?m = "memory_remove p (hv p) m" and ?i = "bucket_of (hv p) m"
  have ne: "beta m \<noteq> []" and b: "in_buckets hv m" and d: "distinct (mem_contents m)" using assms(1) by (auto simp: memory_ok_def)
  have p: "p \<in> set (beta m ! ?i)" by (rule mem_contents_bucket [OF b assms(2)])
  have "mset (mem_contents ?m) + mset (beta m ! ?i) = mset (mem_contents m) + mset (remove1 p (beta m ! ?i))"
    using mem_contents_upd [OF bucket_of_less [OF ne], where f = "remove1 p", of "hv p"] by (simp add: memory_remove_def)
  moreover have "add_mset p (mset (remove1 p (beta m ! ?i))) = mset (beta m ! ?i)" using p by simp
  ultimately have "add_mset p (mset (mem_contents ?m)) + mset (remove1 p (beta m ! ?i)) = mset (mem_contents m) + mset (remove1 p (beta m ! ?i))"
    by (metis union_mset_add_mset_left union_mset_add_mset_right)
  then have "add_mset p (mset (mem_contents ?m)) = mset (mem_contents m)" by (rule add_right_imp_eq)
  then have "mset (mem_contents ?m) = mset (remove1 p (mem_contents m))" by (metis add_mset_remove_trivial mset_remove1)
  moreover have "distinct (remove1 p (mem_contents m))" using d by simp
  moreover have "beta ?m \<noteq> []" using ne by (simp add: memory_remove_def upd_bucket_def)
  moreover have "mem_count ?m = length (remove1 p (mem_contents m))" using assms by (simp add: memory_remove_def memory_ok_def length_remove1)
  moreover have "in_buckets hv ?m"
    unfolding memory_remove_def in_buckets_count
    by (rule in_buckets_upd [OF b bucket_of_less [OF ne]]) (use set_remove1_subset in fastforce)
  ultimately show "memory_ok hv ?m" "set (mem_contents ?m) = set (mem_contents m) - {p}"
    using memory_ok_mset [of ?m "remove1 p (mem_contents m)" hv] d by simp_all
qed

text \<open>Resizing relinks every match and keeps the number of matches.\<close>

lemma resize_step:
  fixes m :: betaMemory and p :: addr
  assumes "beta m \<noteq> []" "in_buckets hv m"
  defines "m' \<equiv> upd_bucket (bucket_of (hv p) m) (\<lambda>ps. ps @ [p]) m"
  shows "beta m' \<noteq> []" "in_buckets hv m'" "mset (mem_contents m') = add_mset p (mset (mem_contents m))" "mem_count m' = mem_count m"
proof -
  show "beta m' \<noteq> []" using assms(1) by (simp add: m'_def upd_bucket_def)
  show "in_buckets hv m'"
    unfolding m'_def by (rule in_buckets_upd [OF assms(2) bucket_of_less [OF assms(1)]]) auto
  show "mset (mem_contents m') = add_mset p (mset (mem_contents m))"
    using mem_contents_upd [OF bucket_of_less [OF assms(1)], where f = "\<lambda>ps. ps @ [p]", of "hv p"] by (simp add: m'_def)
  show "mem_count m' = mem_count m" by (simp add: m'_def upd_bucket_def)
qed

lemma resize_fold:
  fixes qs :: "addr list"
  assumes "beta m \<noteq> []" "in_buckets hv m"
  defines "m' \<equiv> fold (\<lambda>p m'. upd_bucket (bucket_of (hv p) m') (\<lambda>ps. ps @ [p]) m') qs m"
  shows "beta m' \<noteq> [] \<and> in_buckets hv m' \<and> mset (mem_contents m') = mset qs + mset (mem_contents m) \<and> mem_count m' = mem_count m"
  using assms(1,2) unfolding m'_def
proof (induction qs arbitrary: m)
  case (Cons q qs)
  show ?case using Cons.IH [OF resize_step(1,2) [OF Cons.prems]] resize_step(3,4) [OF Cons.prems] by simp
qed simp

lemma ResizeBetaMemory_ok:
  assumes "memory_ok hv m"
  shows "memory_ok hv (ResizeBetaMemory hv m)" "set (mem_contents (ResizeBetaMemory hv m)) = set (mem_contents m)"
proof -
  let ?e = "m\<lparr>beta := replicate (mem_size m * 11) []\<rparr>" and ?m = "ResizeBetaMemory hv m"
  have "beta ?e \<noteq> []" "in_buckets hv ?e" "mem_contents ?e = []"
    using assms by (auto simp: memory_ok_def in_buckets_def mem_contents_def)
  then have "beta ?m \<noteq> []" "in_buckets hv ?m" "mset (mem_contents ?m) = mset (mem_contents m)" "mem_count ?m = mem_count m"
    using resize_fold [of ?e hv "mem_contents m"] by (simp_all add: ResizeBetaMemory_def mem_contents_def [of m])
  then show "memory_ok hv ?m" "set (mem_contents ?m) = set (mem_contents m)"
    using memory_ok_mset [of ?m "mem_contents m" hv] assms by (simp_all add: memory_ok_def)
qed

lemma ResetBetaMemory_ok:
  assumes "memory_ok hv m" "mem_count m = 0"
  shows "memory_ok hv (ResetBetaMemory m)" "set (mem_contents (ResetBetaMemory m)) = set (mem_contents m)"
proof -
  have c: "mem_contents m = []" using assms by (simp add: memory_ok_def)
  show "memory_ok hv (ResetBetaMemory m)" "set (mem_contents (ResetBetaMemory m)) = set (mem_contents m)"
    using assms c by (auto simp: ResetBetaMemory_def memory_ok_def mem_contents_def in_buckets_def INITIAL_BETA_HASH_SIZE_def)
qed

lemma memory_ok_cong: "(\<And>p. p \<in> set (mem_contents m) \<Longrightarrow> hv p = hv' p) \<Longrightarrow> memory_ok hv m \<Longrightarrow> memory_ok hv' m"
  unfolding memory_ok_def in_buckets_def mem_contents_def set_concat_nth by (metis (no_types, lifting))

section \<open>Alpha memories\<close>

definition queue :: "'e rete \<Rightarrow> addr \<Rightarrow> nat \<Rightarrow> addr list" where
  "queue s p hv = (case FindAlphaMemory p hv s of None \<Rightarrow> [] | Some am \<Rightarrow> alphaMemory am)"

text \<open>A header has at most one memory in a bucket.\<close>

definition alpha_ok :: "'e rete \<Rightarrow> bool" where
  "alpha_ok s \<longleftrightarrow> (\<forall>hv. distinct (map amOwner (AlphaMemoryTable s hv)))"

lemma queue_GetAlphaMemory: "GetAlphaMemory p off s = queue s p (AlphaMemoryHashValue p off)"
  by (simp add: GetAlphaMemory_def queue_def)

lemma queue_cong: "AlphaMemoryTable s = AlphaMemoryTable t \<Longrightarrow> queue s = queue t"
  by (simp add: queue_def FindAlphaMemory_def fun_eq_iff)

lemma find_upd_memory:
  "find (\<lambda>am. amOwner am = q) (upd_memory p f ams) =
     (if q = p then map_option (\<lambda>am. am\<lparr>alphaMemory := f (alphaMemory am)\<rparr>) (find (\<lambda>am. amOwner am = q) ams)
      else find (\<lambda>am. amOwner am = q) ams)"
  by (induction ams) auto

lemma owners_upd_memory [simp]: "map amOwner (upd_memory p f ams) = map amOwner ams"
  by (induction ams) auto

lemma queue_upd_memory:
  "queue (upd_alpha hv (upd_memory p f) s) q hv' =
     (if q = p \<and> hv' = hv \<and> FindAlphaMemory p hv s \<noteq> None then f (queue s p hv) else queue s q hv')"
  by (auto simp: queue_def FindAlphaMemory_def upd_alpha_def find_upd_memory split: option.splits)

lemma find_drop_memory:
  "distinct (map amOwner ams) \<Longrightarrow>
     find (\<lambda>am. amOwner am = q) (drop_memory p ams) = (if q = p then None else find (\<lambda>am. amOwner am = q) ams)"
  by (induction ams) (auto simp: find_None_iff; metis imageI)+

lemma owners_drop_memory: "distinct (map amOwner ams) \<Longrightarrow> distinct (map amOwner (drop_memory p ams))"
proof (induction ams)
  case (Cons am ams)
  have "set (map amOwner (drop_memory p ams)) \<subseteq> set (map amOwner ams)" by (induction ams) auto
  with Cons show ?case by auto
qed simp

lemma UnlinkAlphaMemory_queue:
  assumes "alpha_ok s" "queue s p hv = []"
  shows "queue (UnlinkAlphaMemory p hv s) = queue s" "alpha_ok (UnlinkAlphaMemory p hv s)"
proof -
  have d: "distinct (map amOwner (AlphaMemoryTable s hv'))" for hv' using assms(1) by (simp add: alpha_ok_def)
  show "queue (UnlinkAlphaMemory p hv s) = queue s"
    using assms(2) by (auto simp: queue_def FindAlphaMemory_def UnlinkAlphaMemory_def upd_header_def upd_alpha_def fun_eq_iff
        find_drop_memory [OF d] split: option.splits)
  show "alpha_ok (UnlinkAlphaMemory p hv s)"
    using d by (simp add: alpha_ok_def UnlinkAlphaMemory_def upd_header_def upd_alpha_def owners_drop_memory)
qed

lemma new_alpha_memory_queue:
  assumes "FindAlphaMemory p hv s = None"
  shows "queue (new_alpha_memory p hv s) = queue s" "alpha_ok s \<Longrightarrow> alpha_ok (new_alpha_memory p hv s)"
    "FindAlphaMemory p hv (new_alpha_memory p hv s) \<noteq> None"
proof -
  have n: "p \<notin> amOwner ` set (AlphaMemoryTable s hv)" using assms by (auto simp: FindAlphaMemory_def find_None_iff)
  show "queue (new_alpha_memory p hv s) = queue s"
    using assms by (auto simp: queue_def FindAlphaMemory_def new_alpha_memory_def upd_header_def upd_alpha_def fun_eq_iff split: option.splits)
  show "alpha_ok s \<Longrightarrow> alpha_ok (new_alpha_memory p hv s)"
    using n by (simp add: alpha_ok_def new_alpha_memory_def upd_header_def upd_alpha_def)
  show "FindAlphaMemory p hv (new_alpha_memory p hv s) \<noteq> None"
    by (simp add: FindAlphaMemory_def new_alpha_memory_def upd_header_def upd_alpha_def)
qed

lemma alpha_ok_upd: "alpha_ok s \<Longrightarrow> alpha_ok (upd_alpha hv (upd_memory p f) s)"
  by (simp add: alpha_ok_def upd_alpha_def)

text \<open>A new match goes to the end of the queue of its header and bucket.\<close>

lemma CreateAlphaMatch_queue:
  assumes "CreateAlphaMatch item ms p off s = (a, s')"
  shows "queue s' q hv = queue s q hv @ (if q = p \<and> hv = AlphaMemoryHashValue p off then [a] else [])"
    "alpha_ok s \<Longrightarrow> alpha_ok s'"
proof -
  let ?hv = "AlphaMemoryHashValue p off"
  let ?m = "(fresh_match [Some \<lparr>matchingItem = item, markers = ms, bucket = ?hv\<rparr>])\<lparr>pmBeta := False, pmHash := off\<rparr>"
  let ?s1 = "snd (alloc_match ?m s)"
  let ?s2 = "if FindAlphaMemory p ?hv ?s1 = None then new_alpha_memory p ?hv ?s1 else ?s1"
  have a: "a = nextMatch s" and s': "s' = upd_alpha ?hv (upd_memory p (\<lambda>ps. ps @ [a])) ?s2"
    using assms by (auto simp: CreateAlphaMatch_def alloc_match_def Let_def)
  have t: "AlphaMemoryTable ?s1 = AlphaMemoryTable s" by (simp add: alloc_match_def)
  have q1: "queue ?s1 = queue s" by (rule queue_cong [OF t])
  have q2: "queue ?s2 = queue s" using new_alpha_memory_queue(1) [of p ?hv ?s1] q1 by auto
  have f: "FindAlphaMemory p ?hv ?s2 \<noteq> None" using new_alpha_memory_queue(3) [of p ?hv ?s1] by auto
  show "queue s' q hv = queue s q hv @ (if q = p \<and> hv = ?hv then [a] else [])"
    unfolding s' queue_upd_memory using f q2 by auto
  assume "alpha_ok s"
  then have "alpha_ok ?s1" using t by (simp add: alpha_ok_def)
  then have "alpha_ok ?s2" using new_alpha_memory_queue(2) [of p ?hv ?s1] by auto
  then show "alpha_ok s'" unfolding s' by (rule alpha_ok_upd)
qed

lemma RemoveAlphaMemoryMatches_queue:
  assumes "alpha_ok s"
  shows "queue (RemoveAlphaMemoryMatches p a s) q hv =
      (if q = p \<and> hv = alpha_bucket a s then remove1 a (queue s q hv) else queue s q hv)"
    "alpha_ok (RemoveAlphaMemoryMatches p a s)"
proof -
  let ?hv = "alpha_bucket a s"
  let ?s1 = "upd_alpha ?hv (upd_memory p (remove1 a)) s"
  let ?s2 = "?s1\<lparr>GarbagePartialMatches := a # GarbagePartialMatches ?s1\<rparr>"
  have q2: "queue ?s2 = queue ?s1" by (rule queue_cong) simp
  have ok: "alpha_ok ?s2" using assms by (simp add: alpha_ok_def upd_alpha_def)
  have r: "RemoveAlphaMemoryMatches p a s = (if queue ?s2 p ?hv = [] \<and> FindAlphaMemory p ?hv ?s2 \<noteq> None then UnlinkAlphaMemory p ?hv ?s2 else ?s2)"
    by (auto simp: RemoveAlphaMemoryMatches_def Let_def queue_def split: option.splits)
  have "queue (RemoveAlphaMemoryMatches p a s) = queue ?s2"
    unfolding r using UnlinkAlphaMemory_queue(1) [OF ok] by simp
  moreover have "queue s p ?hv = []" if "FindAlphaMemory p ?hv s = None" using that by (simp add: queue_def)
  ultimately show "queue (RemoveAlphaMemoryMatches p a s) q hv =
      (if q = p \<and> hv = ?hv then remove1 a (queue s q hv) else queue s q hv)"
    unfolding q2 queue_upd_memory by auto
  show "alpha_ok (RemoveAlphaMemoryMatches p a s)"
    unfolding r using UnlinkAlphaMemory_queue(2) [OF ok] ok by simp
qed

end
