(* ===== verification/Join_Invariant.thy ===== *)
theory Join_Invariant
  imports Join_Logic Join_Memories
begin

text \<open>
  The invariant of the join network. Every match of a memory stands for a pair of parents, and the pairs of a
  memory are exactly those that the join above it has to pass on (\<open>due\<close>). While matches are on their way the
  invariant has exceptions: \<open>D\<close> are the pairs not yet driven to a join, \<open>M\<close> the right matches not yet compared with, or not yet taken from, a left match of a
  negated or existential pattern, \<open>G\<close> the matches that are to be given up, and \<open>Z\<close> those whose list of children is being
  cleared. The operations of \<open>reteutil.c\<close> that change links are shown to keep it.
\<close>

section \<open>Contents of the network\<close>

abbreviation bnd :: "'e rete \<Rightarrow> addr \<Rightarrow> bindings" where
  "bnd s p \<equiv> pmBinds (pms s p)"

abbreviation mark :: "'e rete \<Rightarrow> addr \<Rightarrow> marking" where
  "mark s p \<equiv> pmMarker (pms s p)"

definition lmem :: "'e rete \<Rightarrow> addr \<Rightarrow> addr set" where
  "lmem s j = (case leftMemories s j of None \<Rightarrow> {} | Some m \<Rightarrow> set (mem_contents m))"

definition alphas :: "'e rete \<Rightarrow> addr \<Rightarrow> addr set" where
  "alphas s p = {a. \<exists>hv. a \<in> set (queue s p hv)}"

definition entry_alphas :: "'e rete \<Rightarrow> joinNode \<Rightarrow> addr set" where
  "entry_alphas s J = (case rightSideEntryStructure J of PatternEntry p \<Rightarrow> alphas s p | _ \<Rightarrow> {})"

definition parents :: "'e rete \<Rightarrow> addr \<Rightarrow> pointer \<times> pointer" where
  "parents s c = (pmLeftParent (pms s c), pmRightParent (pms s c))"

text \<open>The parents that a match below a join can have, and those it must have.\<close>

definition slots :: "'e rete \<Rightarrow> addr \<Rightarrow> (pointer \<times> pointer) set" where
  "slots s j = (let J = joins s j in
     if firstJoin J \<and> positive J then {None} \<times> (Some ` entry_alphas s J)
     else if rightSideEntryStructure J = NoEntry \<or> \<not> positive J then (Some ` lmem s j) \<times> {None}
     else (Some ` lmem s j) \<times> (Some ` entry_alphas s J))"

definition wanted :: "'e matcher \<Rightarrow> 'e rete \<Rightarrow> addr \<Rightarrow> pointer \<times> pointer \<Rightarrow> bool" where
  "wanted h s j xy = (let J = joins s j; l = the (fst xy); a = the (snd xy) in
     if firstJoin J \<and> positive J then first_ok h J (bnd s a)
     else if rightSideEntryStructure J = NoEntry then left_ok h J (bnd s l)
     else if patternIsNegated J then mark s l = Unmarked \<and> sec_ok h J (bnd s l)
     else if patternIsExists J then mark s l \<noteq> Unmarked
     else pair_ok h J (bnd s l) (bnd s a))"

definition free_of :: "addr set \<Rightarrow> pointer \<times> pointer \<Rightarrow> bool" where
  "free_of G xy \<longleftrightarrow> (\<forall>g \<in> G. fst xy \<noteq> Some g \<and> snd xy \<noteq> Some g)"

definition due :: "'e matcher \<Rightarrow> addr set \<Rightarrow> 'e rete \<Rightarrow> addr \<Rightarrow> (pointer \<times> pointer) set" where
  "due h G s j = {xy \<in> slots s j. wanted h s j xy \<and> free_of G xy}"

definition child_binds :: "'e rete \<Rightarrow> addr \<Rightarrow> pointer \<times> pointer \<Rightarrow> bindings" where
  "child_binds s j xy = (case xy of
       (None, Some a) \<Rightarrow> bnd s a
     | (Some l, Some a) \<Rightarrow> bnd s l @ [hd (bnd s a)]
     | (Some l, None) \<Rightarrow> if firstJoin (joins s j) then [None] else bnd s l @ [None]
     | _ \<Rightarrow> [])"

section \<open>The invariant\<close>

definition static_ok :: "'e matcher \<Rightarrow> addr set \<Rightarrow> 'e rete \<Rightarrow> bool" where
  "static_ok h Js s \<longleftrightarrow> net_ok h Js (joins s) (headers s) \<and> \<not> IncrementalResetInProgress s \<and> alpha_ok s"

definition left_match_ok :: "'e matcher \<Rightarrow> 'e rete \<Rightarrow> addr \<Rightarrow> addr \<Rightarrow> bool" where
  "left_match_ok h s j p \<longleftrightarrow> p < nextMatch s \<and> pmBeta (pms s p) \<and> \<not> pmRhs (pms s p) \<and> pmOwner (pms s p) = j \<and>
     pmHash (pms s p) = left_hash h (joins s j) (bnd s p) \<and> pmBlockList (pms s p) = [] \<and>
     (firstJoin (joins s j) \<longrightarrow> bnd s p = [None] \<and> pmLeftParent (pms s p) = None \<and> pmRightParent (pms s p) = None)"

definition left_memory_ok :: "'e matcher \<Rightarrow> 'e rete \<Rightarrow> addr \<Rightarrow> bool" where
  "left_memory_ok h s j \<longleftrightarrow>
     (if has_left (joins s j) then \<exists>m. leftMemories s j = Some m \<and> memory_ok (\<lambda>p. pmHash (pms s p)) m
      else leftMemories s j = None) \<and>
     (\<forall>p \<in> lmem s j. left_match_ok h s j p) \<and>
     (firstJoin (joins s j) \<and> has_left (joins s j) \<longrightarrow> (\<exists>q m. leftMemories s j = Some m \<and> beta m = [[q]]))"

definition memories_ok :: "'e matcher \<Rightarrow> addr set \<Rightarrow> 'e rete \<Rightarrow> bool" where
  "memories_ok h Js s \<longleftrightarrow> (\<forall>j \<in> Js. left_memory_ok h s j)"

definition alpha_match_ok :: "'e matcher \<Rightarrow> 'e rete \<Rightarrow> addr \<Rightarrow> nat \<Rightarrow> addr \<Rightarrow> bool" where
  "alpha_match_ok h s p hv a \<longleftrightarrow> a < nextMatch s \<and> \<not> pmBeta (pms s a) \<and> pmOwner (pms s a) = p \<and>
     (\<exists>am. bnd s a = [Some am] \<and> bucket am = hv \<and> pmHash (pms s a) = alpha_hash h (headers s p) am) \<and>
     AlphaMemoryHashValue p (pmHash (pms s a)) = hv"

definition queues_ok :: "'e matcher \<Rightarrow> 'e rete \<Rightarrow> bool" where
  "queues_ok h s \<longleftrightarrow> (\<forall>p hv. distinct (queue s p hv) \<and> (\<forall>a \<in> set (queue s p hv). alpha_match_ok h s p hv a))"

definition family_ok :: "'e matcher \<Rightarrow> (addr \<times> pointer \<times> pointer) set \<Rightarrow> addr set \<Rightarrow> 'e rete \<Rightarrow> addr \<Rightarrow> addr \<Rightarrow> bool" where
  "family_ok h D G s j k \<longleftrightarrow> inj_on (parents s) (lmem s k) \<and>
     parents s ` (lmem s k - G) = due h G s j - {xy. (k, xy) \<in> D} \<and>
     (\<forall>c \<in> lmem s k. parents s c \<in> slots s j \<and> bnd s c = child_binds s j (parents s c) \<and>
        (\<not> free_of G (parents s c) \<longrightarrow> c \<in> G))"

definition families_ok :: "'e matcher \<Rightarrow> addr set \<Rightarrow> (addr \<times> pointer \<times> pointer) set \<Rightarrow> addr set \<Rightarrow> 'e rete \<Rightarrow> bool" where
  "families_ok h Js D G s \<longleftrightarrow> (\<forall>k \<in> Js. \<forall>j. lastLevel (joins s k) = Some j \<longrightarrow> family_ok h D G s j k)"

definition left_kids :: "addr set \<Rightarrow> 'e rete \<Rightarrow> addr \<Rightarrow> addr set" where
  "left_kids Js s l = {c. \<exists>k \<in> Js. c \<in> lmem s k \<and> pmLeftParent (pms s c) = Some l}"

definition right_kids :: "addr set \<Rightarrow> 'e rete \<Rightarrow> addr \<Rightarrow> addr set" where
  "right_kids Js s a = {c. \<exists>k \<in> Js. c \<in> lmem s k \<and> pmRightParent (pms s c) = Some a}"

definition blocked_by :: "addr set \<Rightarrow> 'e rete \<Rightarrow> addr \<Rightarrow> addr set" where
  "blocked_by Js s a = {l. \<exists>j \<in> Js. l \<in> lmem s j \<and> mark s l = BlockedBy a}"

definition children_ok :: "addr set \<Rightarrow> addr set \<Rightarrow> 'e rete \<Rightarrow> bool" where
  "children_ok Js Z s \<longleftrightarrow>
     (\<forall>j \<in> Js. \<forall>l \<in> lmem s j. l \<notin> Z \<longrightarrow> distinct (pmChildren (pms s l)) \<and> set (pmChildren (pms s l)) = left_kids Js s l) \<and>
     (\<forall>p. \<forall>a \<in> alphas s p. distinct (pmChildren (pms s a)) \<and> set (pmChildren (pms s a)) = right_kids Js s a)"

definition blocks_ok :: "addr set \<Rightarrow> 'e rete \<Rightarrow> bool" where
  "blocks_ok Js s \<longleftrightarrow> (\<forall>p. \<forall>a \<in> alphas s p.
     distinct (pmBlockList (pms s a)) \<and> set (pmBlockList (pms s a)) = blocked_by Js s a)"

definition precedes :: "'e rete \<Rightarrow> addr \<Rightarrow> addr \<Rightarrow> bool" where
  "precedes s b a \<longleftrightarrow> (\<exists>p hv xs ys zs. queue s p hv = xs @ b # ys @ a # zs)"

text \<open>The marker of a left match is the first right match that passes the test; without a marker none does, if the secondary test
  lets the left match through at all. A marker that is to be given up is an exception, too.\<close>

definition mark_ok :: "'e matcher \<Rightarrow> (addr \<times> addr) set \<Rightarrow> addr set \<Rightarrow> 'e rete \<Rightarrow> addr \<Rightarrow> addr \<Rightarrow> bool" where
  "mark_ok h M G s j l \<longleftrightarrow> (let J = joins s j in
     if terminal J then \<forall>a. mark s l \<noteq> BlockedBy a
     else if positive J then mark s l = Unmarked
     else (\<forall>a. mark s l \<noteq> Activated a) \<and>
       (\<forall>a. mark s l = BlockedBy a \<longrightarrow> a \<in> entry_alphas s J \<and> pair_ok h J (bnd s l) (bnd s a) \<and>
          (patternIsExists J \<longrightarrow> sec_ok h J (bnd s l)) \<and> (a \<in> G \<longrightarrow> (l, a) \<in> M) \<and>
          (\<forall>b. precedes s b a \<longrightarrow> b \<notin> G \<longrightarrow> pair_ok h J (bnd s l) (bnd s b) \<longrightarrow> (l, b) \<in> M)) \<and>
       (mark s l = Unmarked \<longrightarrow> sec_ok h J (bnd s l) \<longrightarrow>
          (\<forall>a \<in> entry_alphas s J - G. pair_ok h J (bnd s l) (bnd s a) \<longrightarrow> (l, a) \<in> M)))"

definition marks_ok :: "'e matcher \<Rightarrow> addr set \<Rightarrow> (addr \<times> addr) set \<Rightarrow> addr set \<Rightarrow> 'e rete \<Rightarrow> bool" where
  "marks_ok h Js M G s \<longleftrightarrow> (\<forall>j \<in> Js. \<forall>l \<in> lmem s j. mark_ok h M G s j l)"

definition bounds_ok :: "(addr \<times> pointer \<times> pointer) set \<Rightarrow> (addr \<times> addr) set \<Rightarrow> addr set \<Rightarrow> 'e rete \<Rightarrow> bool" where
  "bounds_ok D M G s \<longleftrightarrow> (\<forall>k l y. (k, Some l, y) \<in> D \<longrightarrow> l < nextMatch s) \<and> (\<forall>l a. (l, a) \<in> M \<longrightarrow> l < nextMatch s) \<and>
     (\<forall>g \<in> G. g < nextMatch s)"

definition net_inv :: "'e matcher \<Rightarrow> addr set \<Rightarrow> (addr \<times> pointer \<times> pointer) set \<Rightarrow> (addr \<times> addr) set \<Rightarrow> addr set \<Rightarrow> addr set \<Rightarrow>
    'e rete \<Rightarrow> bool" where
  "net_inv h Js D M G Z s \<longleftrightarrow> static_ok h Js s \<and> memories_ok h Js s \<and> queues_ok h s \<and> families_ok h Js D G s \<and>
     children_ok Js Z s \<and> blocks_ok Js s \<and> marks_ok h Js M G s \<and> bounds_ok D M G s"

text \<open>Nothing is pending: the network is up to date.\<close>

definition rete_ok :: "'e matcher \<Rightarrow> addr set \<Rightarrow> 'e rete \<Rightarrow> bool" where
  "rete_ok h Js s \<longleftrightarrow> net_inv h Js {} {} {} {} s"

lemma inv_parts:
  assumes "net_inv h Js D M G Z s"
  shows "static_ok h Js s" "memories_ok h Js s" "queues_ok h s" "families_ok h Js D G s" "children_ok Js Z s"
    "blocks_ok Js s" "marks_ok h Js M G s" "bounds_ok D M G s"
  using assms by (simp_all add: net_inv_def)

section \<open>What the invariant reads\<close>

definition view :: "'e rete \<Rightarrow> (addr \<Rightarrow> joinNode) \<times> (addr \<Rightarrow> patternNodeHeader) \<times> (nat \<Rightarrow> alphaMemoryHash list) \<times> bool \<times>
    (addr \<Rightarrow> betaMemory option) \<times> (addr \<Rightarrow> partial_match) \<times> addr" where
  "view s = (joins s, headers s, AlphaMemoryTable s, IncrementalResetInProgress s, leftMemories s, pms s, nextMatch s)"

lemma view_fields:
  assumes "view s = view t"
  shows "joins s = joins t" "headers s = headers t" "AlphaMemoryTable s = AlphaMemoryTable t"
    "IncrementalResetInProgress s = IncrementalResetInProgress t" "leftMemories s = leftMemories t" "pms s = pms t"
    "nextMatch s = nextMatch t" "queue s = queue t"
  using assms queue_cong [of s t] by (simp_all add: view_def)

lemma lmem_cong: "leftMemories s = leftMemories t \<Longrightarrow> lmem s = lmem t"
  by (simp add: lmem_def fun_eq_iff)

lemma alphas_cong: "queue s = queue t \<Longrightarrow> alphas s = alphas t"
  by (simp add: alphas_def fun_eq_iff)

lemma view_inv: "view s = view t \<Longrightarrow> net_inv h Js D M G Z s \<longleftrightarrow> net_inv h Js D M G Z t"
proof -
  assume a: "view s = view t"
  note f = view_fields [OF a]
  have l: "lmem s = lmem t" by (rule lmem_cong [OF f(5)])
  have q: "alphas s = alphas t" by (rule alphas_cong [OF f(8)])
  have e: "entry_alphas s = entry_alphas t" by (rule ext) (simp add: entry_alphas_def q split: entry.split)
  have p: "parents s = parents t" by (intro ext) (unfold parents_def f, rule refl)
  have sl: "slots s = slots t" by (intro ext) (unfold slots_def f l e, rule refl)
  have w: "wanted h s = wanted h t" by (intro ext) (unfold wanted_def f, rule refl)
  have d: "due h G s = due h G t" by (intro ext) (unfold due_def sl w, rule refl)
  have cb: "child_binds s = child_binds t" by (intro ext) (unfold child_binds_def f, rule refl)
  have fam: "family_ok h D G s = family_ok h D G t" by (intro ext) (unfold family_ok_def f l p d sl cb, rule refl)
  have lm: "left_match_ok h s = left_match_ok h t" by (intro ext) (unfold left_match_ok_def f, rule refl)
  have am: "alpha_match_ok h s = alpha_match_ok h t" by (intro ext) (unfold alpha_match_ok_def f, rule refl)
  have pr: "precedes s = precedes t" by (intro ext) (unfold precedes_def f, rule refl)
  have mk: "mark_ok h M G s = mark_ok h M G t" by (intro ext) (unfold mark_ok_def f e pr, rule refl)
  show ?thesis
    unfolding net_inv_def static_ok_def memories_ok_def left_memory_ok_def queues_ok_def families_ok_def children_ok_def blocks_ok_def marks_ok_def
      bounds_ok_def left_kids_def right_kids_def blocked_by_def alpha_ok_def
    by (simp only: f l q fam lm am mk)
qed

end
