(* ===== verification/Join_Links.thy ===== *)
theory Join_Links
  imports Join_Invariant
begin

text \<open>
  The link operations of \<open>reteutil.c\<close> and the invariant of the network: a new child, a blocked link, a match taken
  out of its memory.
\<close>

section \<open>Consequences of the invariant\<close>

lemma net_links:
  assumes "net_ok h Js N H" "j \<in> Js"
  shows "firstJoin (N j) \<longleftrightarrow> lastLevel (N j) = None"
    "lastLevel (N j) = Some i \<Longrightarrow> i \<in> Js \<and> depth (N i) < depth (N j) \<and> (LHS, j) \<in> set (nextLinks (N i))"
    "distinct (nextLinks (N j))"
    "(d, k) \<in> set (nextLinks (N j)) \<Longrightarrow> d = LHS \<and> k \<in> Js \<and> lastLevel (N k) = Some j \<and>
       (firstJoin (N j) \<and> \<not> positive (N j) \<longrightarrow> leftHash (N k) = [])"
    "terminal (N j) \<Longrightarrow> nextLinks (N j) = [] \<and> \<not> firstJoin (N j) \<and> positive (N j) \<and> rightSideEntryStructure (N j) = NoEntry"
  using assms unfolding net_ok_def join_links_ok_def by auto

lemma net_tests:
  assumes "net_ok h Js N H" "j \<in> Js"
  shows "\<not> joinFromTheRight (N j)" "\<not> (patternIsNegated (N j) \<and> patternIsExists (N j))"
    "rightSideEntryStructure (N j) = NoEntry \<or> (\<exists>p. rightSideEntryStructure (N j) = PatternEntry p)"
    "rightSideEntryStructure (N j) = NoEntry \<Longrightarrow> positive (N j)" "positive (N j) \<Longrightarrow> secondaryNetworkTest (N j) = []"
    "firstJoin (N j) \<Longrightarrow> leftHash (N j) = [] \<and> rightSideEntryStructure (N j) \<noteq> NoEntry \<and> (\<not> positive (N j) \<longrightarrow> networkTest (N j) = [])"
    "fst (EvaluateJoinExpression h (secondaryNetworkTest (N j)) (Some l) (Some r)) =
       fst (EvaluateJoinExpression h (secondaryNetworkTest (N j)) (Some l) None)"
    "fst (EvaluateJoinExpression h (secondaryNetworkTest (N j)) None (Some r)) =
       fst (EvaluateJoinExpression h (secondaryNetworkTest (N j)) (Some [None]) None)"
    "patternIsExists (N j) \<Longrightarrow> \<not> snd (EvaluateJoinExpression h (networkTest (N j)) l' r')"
  using assms unfolding net_ok_def tests_ok_def by blast+

lemma net_hash:
  assumes "net_ok h Js N H" "j \<in> Js" "rightSideEntryStructure (N j) = PatternEntry p"
  shows "firstJoin (N j) \<Longrightarrow> headerHash (H p) = []"
    "\<not> firstJoin (N j) \<Longrightarrow> pair_ok h (N j) l [Some am] \<Longrightarrow> left_hash h (N j) l = alpha_hash h (H p) am"
  using assms unfolding net_ok_def hash_ok_def by blast+

lemma inv_net: "net_inv h Js D M G Z s \<Longrightarrow> net_ok h Js (joins s) (headers s)"
  by (simp add: net_inv_def static_ok_def)

lemma lmem_match: "net_inv h Js D M G Z s \<Longrightarrow> j \<in> Js \<Longrightarrow> l \<in> lmem s j \<Longrightarrow> left_match_ok h s j l"
  by (auto simp: net_inv_def memories_ok_def left_memory_ok_def)

lemma inv_memory:
  assumes "net_inv h Js D M G Z s" "j \<in> Js" "has_left (joins s j)"
  shows "\<exists>m. leftMemories s j = Some m \<and> memory_ok (\<lambda>p. pmHash (pms s p)) m"
proof -
  have "left_memory_ok h s j" using assms(1,2) by (simp add: net_inv_def memories_ok_def)
  then show ?thesis using assms(3) by (simp add: left_memory_ok_def)
qed

lemma lmem_less: "net_inv h Js D M G Z s \<Longrightarrow> j \<in> Js \<Longrightarrow> l \<in> lmem s j \<Longrightarrow> l < nextMatch s"
  using lmem_match unfolding left_match_ok_def by blast

lemma lmem_unique: "net_inv h Js D M G Z s \<Longrightarrow> j \<in> Js \<Longrightarrow> i \<in> Js \<Longrightarrow> l \<in> lmem s j \<Longrightarrow> l \<in> lmem s i \<Longrightarrow> i = j"
  using lmem_match by (metis left_match_ok_def)

lemma alphas_match:
  assumes "net_inv h Js D M G Z s" "a \<in> alphas s p"
  shows "a < nextMatch s" "\<not> pmBeta (pms s a)" "pmOwner (pms s a) = p"
    "\<exists>am. bnd s a = [Some am] \<and> pmHash (pms s a) = alpha_hash h (headers s p) am \<and>
       bucket am = AlphaMemoryHashValue p (pmHash (pms s a)) \<and> a \<in> set (queue s p (bucket am))"
proof -
  obtain hv where hv: "a \<in> set (queue s p hv)" using assms(2) by (auto simp: alphas_def)
  then have "alpha_match_ok h s p hv a" using assms(1) by (auto simp: net_inv_def queues_ok_def)
  then show "a < nextMatch s" "\<not> pmBeta (pms s a)" "pmOwner (pms s a) = p"
    "\<exists>am. bnd s a = [Some am] \<and> pmHash (pms s a) = alpha_hash h (headers s p) am \<and>
       bucket am = AlphaMemoryHashValue p (pmHash (pms s a)) \<and> a \<in> set (queue s p (bucket am))"
    using hv by (auto simp: alpha_match_ok_def)
qed

lemma lmem_not_alpha: "net_inv h Js D M G Z s \<Longrightarrow> j \<in> Js \<Longrightarrow> l \<in> lmem s j \<Longrightarrow> l \<notin> alphas s p"
  using lmem_match alphas_match(2) by (metis left_match_ok_def)

lemma entry_alphas_less: "net_inv h Js D M G Z s \<Longrightarrow> a \<in> entry_alphas s J \<Longrightarrow> a < nextMatch s"
  using alphas_match(1) by (auto simp: entry_alphas_def split: entry.splits)

lemma entry_alphas_alpha: "a \<in> entry_alphas s J \<Longrightarrow> \<exists>p. rightSideEntryStructure J = PatternEntry p \<and> a \<in> alphas s p"
  by (auto simp: entry_alphas_def split: entry.splits)

lemma lmem_family:
  assumes "net_inv h Js D M G Z s" "k \<in> Js" "lastLevel (joins s k) = Some j"
  shows "family_ok h D G s j k"
  using assms by (auto simp: net_inv_def families_ok_def)

lemma lmem_parent:
  assumes "net_inv h Js D M G Z s" "k \<in> Js" "c \<in> lmem s k" "pmLeftParent (pms s c) = Some l"
  shows "\<exists>j. lastLevel (joins s k) = Some j \<and> l \<in> lmem s j"
proof (cases "lastLevel (joins s k)")
  case None
  then have "firstJoin (joins s k)" using net_links(1) [OF inv_net [OF assms(1)] assms(2)] by simp
  then show ?thesis using lmem_match [OF assms(1-3)] assms(4) by (simp add: left_match_ok_def)
next
  case (Some j)
  then have "parents s c \<in> slots s j" using lmem_family [OF assms(1,2)] assms(3) by (auto simp: family_ok_def)
  then show ?thesis using Some assms(4) by (auto simp: parents_def slots_def Let_def split: if_splits)
qed

lemma lmem_right_parent:
  assumes "net_inv h Js D M G Z s" "k \<in> Js" "c \<in> lmem s k" "pmRightParent (pms s c) = Some a"
  shows "\<exists>p. a \<in> alphas s p"
proof (cases "lastLevel (joins s k)")
  case None
  then have "firstJoin (joins s k)" using net_links(1) [OF inv_net [OF assms(1)] assms(2)] by simp
  then show ?thesis using lmem_match [OF assms(1-3)] assms(4) by (simp add: left_match_ok_def)
next
  case (Some j)
  then have "parents s c \<in> slots s j" using lmem_family [OF assms(1,2)] assms(3) by (auto simp: family_ok_def)
  then show ?thesis using assms(4) by (auto simp: parents_def slots_def Let_def split: if_splits dest: entry_alphas_alpha)
qed

lemma net_depth:
  assumes "net_inv h Js D M G Z s" "k \<in> Js" "lastLevel (joins s k) = Some j"
  shows "j \<in> Js" "j \<noteq> k" "depth (joins s j) < depth (joins s k)" "(LHS, k) \<in> set (nextLinks (joins s j))"
  using net_links(2) [OF inv_net [OF assms(1)] assms(2,3)] by auto

lemma slots_bound:
  assumes "net_inv h Js D M G Z s" "j \<in> Js" "(x, y) \<in> slots s j"
  shows "x = Some l \<Longrightarrow> l < nextMatch s \<and> l \<in> lmem s j" "y = Some a \<Longrightarrow> a < nextMatch s \<and> a \<in> entry_alphas s (joins s j)"
    "x = Some l \<Longrightarrow> y \<noteq> Some l" "x \<noteq> None \<or> y \<noteq> None"
proof -
  have 1: "x = Some l \<Longrightarrow> l \<in> lmem s j" for l using assms(3) by (auto simp: slots_def Let_def split: if_splits)
  have 2: "y = Some a \<Longrightarrow> a \<in> entry_alphas s (joins s j)" for a using assms(3) by (auto simp: slots_def Let_def split: if_splits)
  show "x = Some l \<Longrightarrow> l < nextMatch s \<and> l \<in> lmem s j" using 1 lmem_less [OF assms(1,2)] by blast
  show "y = Some a \<Longrightarrow> a < nextMatch s \<and> a \<in> entry_alphas s (joins s j)" using 2 entry_alphas_less [OF assms(1)] by blast
  show "x = Some l \<Longrightarrow> y \<noteq> Some l"
    using 1 2 lmem_not_alpha [OF assms(1,2)] entry_alphas_alpha by metis
  show "x \<noteq> None \<or> y \<noteq> None" using assms(3) by (auto simp: slots_def Let_def split: if_splits)
qed

section \<open>What stays when the fixed fields stay\<close>

definition same_core :: "'e rete \<Rightarrow> 'e rete \<Rightarrow> addr \<Rightarrow> bool" where
  "same_core s s' p \<longleftrightarrow> bnd s' p = bnd s p \<and> pmHash (pms s' p) = pmHash (pms s p) \<and> pmOwner (pms s' p) = pmOwner (pms s p) \<and>
     pmBeta (pms s' p) = pmBeta (pms s p) \<and> pmRhs (pms s' p) = pmRhs (pms s p)"

lemma left_match_keep:
  assumes "left_match_ok h s j p" "same_core s s' p" "pmBlockList (pms s' p) = pmBlockList (pms s p)" "parents s' p = parents s p"
    "joins s' = joins s" "nextMatch s \<le> nextMatch s'"
  shows "left_match_ok h s' j p"
  using assms by (auto simp: left_match_ok_def same_core_def parents_def)

lemma left_memory_keep:
  assumes "left_memory_ok h s j" "leftMemories s' j = leftMemories s j" "joins s' = joins s" "nextMatch s \<le> nextMatch s'"
    and "\<And>p. p \<in> lmem s j \<Longrightarrow> same_core s s' p \<and> pmBlockList (pms s' p) = pmBlockList (pms s p) \<and> parents s' p = parents s p"
  shows "left_memory_ok h s' j"
proof -
  have l: "lmem s' j = lmem s j" using assms(2) by (simp add: lmem_def)
  have "left_match_ok h s' j p" if "p \<in> lmem s j" for p
    using assms(1) assms(5) [OF that] that left_match_keep [OF _ _ _ _ assms(3,4)] by (auto simp: left_memory_ok_def)
  moreover have "memory_ok (\<lambda>p. pmHash (pms s' p)) m" if "leftMemories s j = Some m" "memory_ok (\<lambda>p. pmHash (pms s p)) m" for m
    by (rule memory_ok_cong [OF _ that(2)]) (use assms(5) that(1) in \<open>simp add: lmem_def same_core_def\<close>)
  ultimately show ?thesis using assms(1-3) unfolding left_memory_ok_def l by (auto split: if_splits)
qed

lemma queues_keep:
  assumes "queues_ok h s" "queue s' = queue s" "headers s' = headers s" "nextMatch s \<le> nextMatch s'"
    and "\<And>p a. a \<in> alphas s p \<Longrightarrow> same_core s s' a"
  shows "queues_ok h s'"
proof -
  have "alpha_match_ok h s' p hv a" if "a \<in> set (queue s p hv)" for p hv a
  proof -
    have "alpha_match_ok h s p hv a" using assms(1) that by (simp add: queues_ok_def)
    moreover have "same_core s s' a" using assms(5) that by (auto simp: alphas_def)
    ultimately show ?thesis using assms(3,4) by (auto simp: alpha_match_ok_def same_core_def)
  qed
  then show ?thesis using assms(1,2) by (simp add: queues_ok_def)
qed

lemma wanted_keep:
  assumes "joins s' = joins s" "xy \<in> slots s i"
    and "\<And>l. fst xy = Some l \<Longrightarrow> bnd s' l = bnd s l" "\<And>a. snd xy = Some a \<Longrightarrow> bnd s' a = bnd s a"
    and "\<And>l. fst xy = Some l \<Longrightarrow> positive (joins s i) \<or> mark s' l = mark s l"
  shows "wanted h s' i xy = wanted h s i xy" "child_binds s' i xy = child_binds s i xy"
proof -
  show "child_binds s' i xy = child_binds s i xy"
    using assms(1,3,4) by (cases xy) (auto simp: child_binds_def split: option.split)
  show "wanted h s' i xy = wanted h s i xy"
    using assms by (cases xy) (auto simp: wanted_def slots_def Let_def positive_def split: if_splits)
qed

section \<open>A new child\<close>

definition new_child :: "'e matcher \<Rightarrow> pointer \<Rightarrow> pointer \<Rightarrow> bindings \<Rightarrow> addr \<Rightarrow> 'e rete \<Rightarrow> 'e rete" where
  "new_child h x y bs k s =
     UpdateBetaPMLinks (nextMatch s) x y k (left_hash h (joins s k) bs) LHS (snd (alloc_match (fresh_match bs) s))"

definition child_match :: "'e matcher \<Rightarrow> joinNode \<Rightarrow> pointer \<Rightarrow> pointer \<Rightarrow> bindings \<Rightarrow> addr \<Rightarrow> partial_match" where
  "child_match h K x y bs k = (fresh_match bs)\<lparr>pmHash := left_hash h K bs, pmOwner := k, pmRightParent := y, pmLeftParent := x\<rparr>"

lemma upd_pm_fields [simp]:
  "joins (upd_pm p f s) = joins s" "headers (upd_pm p f s) = headers s" "AlphaMemoryTable (upd_pm p f s) = AlphaMemoryTable s"
  "leftMemories (upd_pm p f s) = leftMemories s" "rightMemories (upd_pm p f s) = rightMemories s"
  "nextMatch (upd_pm p f s) = nextMatch s" "IncrementalResetInProgress (upd_pm p f s) = IncrementalResetInProgress s"
  "BetaMemoryResizingFlag (upd_pm p f s) = BetaMemoryResizingFlag s" "environment (upd_pm p f s) = environment s"
  "pms (upd_pm p f s) q = (if q = p then f (pms s p) else pms s q)" "memory_of d j (upd_pm p f s) = memory_of d j s"
  by (simp_all add: upd_pm_def memory_of_def split: direction.split)

lemma set_memory_fields [simp]:
  "joins (set_memory d j m s) = joins s" "headers (set_memory d j m s) = headers s"
  "AlphaMemoryTable (set_memory d j m s) = AlphaMemoryTable s"
  "leftMemories (set_memory LHS j m s) = (leftMemories s)(j := Some m)"
  "nextMatch (set_memory d j m s) = nextMatch s" "IncrementalResetInProgress (set_memory d j m s) = IncrementalResetInProgress s"
  "BetaMemoryResizingFlag (set_memory d j m s) = BetaMemoryResizingFlag s" "environment (set_memory d j m s) = environment s"
  "pms (set_memory d j m s) = pms s"
  by (simp_all add: set_memory_def split: direction.split)

lemma count_fields [simp]:
  "joins (count_add d j s) = joins s" "headers (count_add d j s) = headers s" "AlphaMemoryTable (count_add d j s) = AlphaMemoryTable s"
  "leftMemories (count_add d j s) = leftMemories s" "nextMatch (count_add d j s) = nextMatch s"
  "IncrementalResetInProgress (count_add d j s) = IncrementalResetInProgress s"
  "BetaMemoryResizingFlag (count_add d j s) = BetaMemoryResizingFlag s" "environment (count_add d j s) = environment s"
  "pms (count_add d j s) = pms s"
  by (simp_all add: count_add_def)

lemma push_child_fields [simp]:
  "joins (push_child q p s) = joins s" "headers (push_child q p s) = headers s" "AlphaMemoryTable (push_child q p s) = AlphaMemoryTable s"
  "leftMemories (push_child q p s) = leftMemories s" "nextMatch (push_child q p s) = nextMatch s"
  "IncrementalResetInProgress (push_child q p s) = IncrementalResetInProgress s"
  "BetaMemoryResizingFlag (push_child q p s) = BetaMemoryResizingFlag s" "environment (push_child q p s) = environment s"
  by (simp_all add: push_child_def split: option.split)

lemma pms_push_child: "pms (push_child q p s) = (\<lambda>x. if Some x = q then (pms s x)\<lparr>pmChildren := p # pmChildren (pms s x)\<rparr> else pms s x)"
  by (auto simp: push_child_def upd_pm_def split: option.split)

text \<open>The state after a new child has been linked.\<close>

definition linked :: "'e matcher \<Rightarrow> pointer \<Rightarrow> pointer \<Rightarrow> bindings \<Rightarrow> addr \<Rightarrow> 'e rete \<Rightarrow> 'e rete \<Rightarrow> bool" where
  "linked h x y bs k s s' \<longleftrightarrow>
     joins s' = joins s \<and> headers s' = headers s \<and> AlphaMemoryTable s' = AlphaMemoryTable s \<and>
     IncrementalResetInProgress s' = IncrementalResetInProgress s \<and> environment s' = environment s \<and>
     nextMatch s' = Suc (nextMatch s) \<and>
     pms s' = (\<lambda>p. if p = nextMatch s then child_match h (joins s k) x y bs k
        else if Some p = x \<or> Some p = y then (pms s p)\<lparr>pmChildren := nextMatch s # pmChildren (pms s p)\<rparr> else pms s p) \<and>
     (\<exists>m. leftMemories s' = (leftMemories s)(k := Some m) \<and> memory_ok (\<lambda>p. pmHash (pms s' p)) m \<and>
        set (mem_contents m) = insert (nextMatch s) (lmem s k))"


lemma if_both: "P a \<Longrightarrow> P b \<Longrightarrow> P (if c then a else b)"
  by simp

lemma new_child_linked:
  assumes m: "leftMemories s k = Some m" "memory_ok (\<lambda>p. pmHash (pms s p)) m"
    and c: "nextMatch s \<notin> lmem s k" and x: "x \<noteq> Some (nextMatch s)" "y \<noteq> Some (nextMatch s)" "x = None \<or> x \<noteq> y"
  shows "linked h x y bs k s (new_child h x y bs k s)"
proof -
  let ?c = "nextMatch s" and ?hv = "left_hash h (joins s k) bs"
  define s0 where "s0 = snd (alloc_match (fresh_match bs) s)"
  define s1 where "s1 = upd_pm ?c (\<lambda>m. m\<lparr>pmRhs := (LHS = RHS), pmHash := ?hv\<rparr>) s0"
  define m1 where "m1 = memory_insert LHS ?c ?hv (memory_of LHS k s1)"
  define s2 where "s2 = count_add LHS k (set_memory LHS k m1 s1)"
  define s3 where "s3 = upd_pm ?c (\<lambda>m. m\<lparr>pmOwner := k\<rparr>) s2"
  define s4 where "s4 = (if y = None then s3 else upd_pm ?c (\<lambda>m. m\<lparr>pmRightParent := y\<rparr>) (push_child y ?c s3))"
  define s5 where "s5 = (if x = None then s4 else upd_pm ?c (\<lambda>m. m\<lparr>pmLeftParent := x\<rparr>) (push_child x ?c s4))"
  have s0: "joins s0 = joins s" "headers s0 = headers s" "AlphaMemoryTable s0 = AlphaMemoryTable s" "leftMemories s0 = leftMemories s"
    "IncrementalResetInProgress s0 = IncrementalResetInProgress s" "environment s0 = environment s" "nextMatch s0 = Suc ?c"
    "pms s0 = (pms s)(?c := fresh_match bs)"
    by (simp_all add: s0_def alloc_match_def)
  have mem: "memory_of LHS k s1 = m" using m(1) by (simp add: memory_of_def s1_def s0)
  have s5: "joins s5 = joins s" "headers s5 = headers s" "AlphaMemoryTable s5 = AlphaMemoryTable s"
    "leftMemories s5 = (leftMemories s)(k := Some m1)"
    "IncrementalResetInProgress s5 = IncrementalResetInProgress s" "environment s5 = environment s" "nextMatch s5 = Suc ?c"
    by (simp_all add: s5_def s4_def s3_def s2_def s1_def s0)
  have p5: "pms s5 = (\<lambda>p. if p = ?c then child_match h (joins s k) x y bs k
        else if Some p = x \<or> Some p = y then (pms s p)\<lparr>pmChildren := ?c # pmChildren (pms s p)\<rparr> else pms s p)"
    using x by (auto simp: fun_eq_iff s5_def s4_def s3_def s2_def s1_def s0 pms_push_child child_match_def fresh_match_def)
  have new: "new_child h x y bs k s =
      (if BetaMemoryResizingFlag s5 \<and> mem_size m1 > 1 \<and> mem_count m1 > mem_size m1 * 11
       then set_memory LHS k (ResizeBetaMemory (\<lambda>q. pmHash (pms s5 q)) m1) s5 else s5)"
    unfolding new_child_def UpdateBetaPMLinks_def Let_def s5_def s4_def s3_def s2_def m1_def s1_def s0_def by (rule refl)
  let ?hash = "\<lambda>p. pmHash (pms s5 p)"
  have cm: "set (mem_contents m) = lmem s k" using m(1) by (simp add: lmem_def)
  have hc: "?hash ?c = ?hv" by (simp add: p5 child_match_def)
  have "?hash p = pmHash (pms s p)" if "p \<noteq> ?c" for p using that by (simp add: p5)
  then have "memory_ok ?hash m" using memory_ok_cong [OF _ m(2), of ?hash] c cm by metis
  then have m1: "memory_ok ?hash m1" "set (mem_contents m1) = insert ?c (lmem s k)"
    using memory_insert_ok [of ?hash m ?c LHS] c cm unfolding hc m1_def mem by auto
  have l1: "linked h x y bs k s s5" using s5 p5 m1 unfolding linked_def by blast
  define R where "R = ResizeBetaMemory ?hash m1"
  have R: "memory_ok ?hash R" "set (mem_contents R) = insert ?c (lmem s k)"
    using ResizeBetaMemory_ok [OF m1(1)] m1(2) unfolding R_def by auto
  have l2: "linked h x y bs k s (set_memory LHS k R s5)"
    unfolding linked_def set_memory_fields s5 fun_upd_upd
    by (intro conjI exI [of _ R] refl p5 R)
  show ?thesis unfolding new R_def [symmetric] by (rule if_both [of "linked h x y bs k s", OF l2 l1])
qed

lemma linked_lmem:
  assumes "linked h x y bs k s s'"
  shows "lmem s' i = (if i = k then insert (nextMatch s) (lmem s k) else lmem s i)"
proof -
  obtain m where "leftMemories s' = (leftMemories s)(k := Some m)" "set (mem_contents m) = insert (nextMatch s) (lmem s k)"
    using assms unfolding linked_def by blast
  then show ?thesis by (simp add: lmem_def)
qed

lemma linked_pms:
  assumes "linked h x y bs k s s'"
  shows "pms s' p = (if p = nextMatch s then child_match h (joins s k) x y bs k
        else if Some p = x \<or> Some p = y then (pms s p)\<lparr>pmChildren := nextMatch s # pmChildren (pms s p)\<rparr> else pms s p)"
    "joins s' = joins s" "headers s' = headers s" "nextMatch s' = Suc (nextMatch s)" "environment s' = environment s"
    "IncrementalResetInProgress s' = IncrementalResetInProgress s" "AlphaMemoryTable s' = AlphaMemoryTable s"
  using assms unfolding linked_def by meson+

lemma linked_queue:
  assumes "linked h x y bs k s s'"
  shows "queue s' = queue s" "alphas s' = alphas s" "entry_alphas s' = entry_alphas s" "precedes s' = precedes s" "alpha_ok s' = alpha_ok s"
proof -
  show q: "queue s' = queue s" using assms by (intro queue_cong) (simp add: linked_pms(7))
  show a: "alphas s' = alphas s" by (rule alphas_cong [OF q])
  show "entry_alphas s' = entry_alphas s" by (rule ext) (simp add: entry_alphas_def a split: entry.split)
  show "precedes s' = precedes s" by (intro ext) (simp add: precedes_def q)
  show "alpha_ok s' = alpha_ok s" by (simp add: alpha_ok_def linked_pms(7) [OF assms])
qed

lemma linked_old:
  assumes "linked h x y bs k s s'" "p \<noteq> nextMatch s"
  shows "bnd s' p = bnd s p" "mark s' p = mark s p" "pmHash (pms s' p) = pmHash (pms s p)" "pmOwner (pms s' p) = pmOwner (pms s p)"
    "pmBeta (pms s' p) = pmBeta (pms s p)" "pmRhs (pms s' p) = pmRhs (pms s p)" "parents s' p = parents s p"
    "pmLeftParent (pms s' p) = pmLeftParent (pms s p)" "pmRightParent (pms s' p) = pmRightParent (pms s p)"
    "pmBlockList (pms s' p) = pmBlockList (pms s p)"
    "pmChildren (pms s' p) = (if Some p = x \<or> Some p = y then nextMatch s # pmChildren (pms s p) else pmChildren (pms s p))"
  using assms(2) by (auto simp: linked_pms(1) [OF assms(1)] parents_def)

lemma linked_new:
  assumes "linked h x y bs k s s'"
  shows "pms s' (nextMatch s) = child_match h (joins s k) x y bs k" "parents s' (nextMatch s) = (x, y)" "bnd s' (nextMatch s) = bs"
  by (auto simp: linked_pms(1) [OF assms] parents_def child_match_def fresh_match_def)

text \<open>A child of a pair that was due: what is pending below it is added to the exceptions.\<close>

definition adds :: "'e matcher \<Rightarrow> addr set \<Rightarrow> (addr \<times> pointer \<times> pointer) set \<Rightarrow> (addr \<times> addr) set \<Rightarrow> addr set \<Rightarrow> addr set \<Rightarrow>
    pointer \<Rightarrow> pointer \<Rightarrow> addr \<Rightarrow> addr \<Rightarrow> 'e rete \<Rightarrow> 'e rete \<Rightarrow> bool" where
  "adds h Js D M G Z x y j k s s' \<longleftrightarrow> net_inv h Js D M G Z s \<and> k \<in> Js \<and> lastLevel (joins s k) = Some j \<and>
     (x, y) \<in> due h G s j \<and> (k, x, y) \<in> D \<and> (x, y) \<notin> parents s ` lmem s k \<and> linked h x y (child_binds s j (x, y)) k s s'"

definition pending_left :: "addr \<Rightarrow> (addr \<times> pointer \<times> pointer) set" where
  "pending_left c = {(k, x, y). x = Some c}"

definition pending_marks :: "addr \<Rightarrow> (addr \<times> addr) set" where
  "pending_marks c = {(l, a). l = c}"

lemma addsD:
  assumes "adds h Js D M G Z x y j k s s'"
  shows "net_inv h Js D M G Z s" "k \<in> Js" "lastLevel (joins s k) = Some j" "(x, y) \<in> due h G s j" "(k, x, y) \<in> D"
    "linked h x y (child_binds s j (x, y)) k s s'" "j \<in> Js" "j \<noteq> k" "x \<noteq> Some (nextMatch s)" "y \<noteq> Some (nextMatch s)"
    "i \<in> Js \<Longrightarrow> nextMatch s \<notin> lmem s i" "nextMatch s \<notin> alphas s p" "nextMatch s \<notin> G"
proof -
  show i: "net_inv h Js D M G Z s" and k: "k \<in> Js" "lastLevel (joins s k) = Some j" and d: "(x, y) \<in> due h G s j"
    and "(k, x, y) \<in> D" and "linked h x y (child_binds s j (x, y)) k s s'"
    using assms by (simp_all add: adds_def)
  show j: "j \<in> Js" "j \<noteq> k" using net_depth [OF i k] by auto
  have "(x, y) \<in> slots s j" using d by (simp add: due_def)
  from slots_bound [OF i j(1) this] show "x \<noteq> Some (nextMatch s)" "y \<noteq> Some (nextMatch s)" by auto
  show "i \<in> Js \<Longrightarrow> nextMatch s \<notin> lmem s i" using lmem_less [OF i] by blast
  show "nextMatch s \<notin> alphas s p" using alphas_match(1) [OF i] by blast
  show "nextMatch s \<notin> G" using inv_parts(8) [OF i] by (auto simp: bounds_ok_def)
qed

lemma adds_memories:
  assumes a: "adds h Js D M G Z x y j k s s'"
  shows "memories_ok h Js s'"
proof -
  note A = addsD [OF a] note L = A(6)
  note old = linked_old [OF L] and new = linked_new [OF L] and f = linked_pms [OF L] and lm = linked_lmem [OF L]
  have M: "left_memory_ok h s i" if "i \<in> Js" for i using inv_parts(2) [OF A(1)] that by (simp add: memories_ok_def)
  have nf: "\<not> firstJoin (joins s k)" using net_links(1) [OF inv_net [OF A(1)] A(2)] A(3) by simp
  obtain m where m: "leftMemories s' = (leftMemories s)(k := Some m)" "memory_ok (\<lambda>p. pmHash (pms s' p)) m"
    using L unfolding linked_def by blast
  have "left_memory_ok h s' i" if i: "i \<in> Js" for i
  proof (cases "i = k")
    case False
    have "p \<noteq> nextMatch s" if "p \<in> lmem s i" for p using A(11) [OF i] that by blast
    then show ?thesis
      using old f(2,4) m(1) False by (intro left_memory_keep [OF M [OF i]]) (auto simp: same_core_def)
  next
    case True
    have "left_match_ok h s' k p" if "p \<in> lmem s' k" for p
    proof (cases "p = nextMatch s")
      case True
      then show ?thesis using nf new f(2,4) by (simp add: left_match_ok_def child_match_def fresh_match_def)
    next
      case False
      then have "left_match_ok h s k p" using that lm M [OF A(2)] by (auto simp: left_memory_ok_def)
      then show ?thesis using old [OF False] f(2,4) by (intro left_match_keep [of h s k p s']) (auto simp: same_core_def)
    qed
    then show ?thesis using True m nf f(2) by (simp add: left_memory_ok_def has_left_def)
  qed
  then show ?thesis by (simp add: memories_ok_def)
qed

lemma adds_queues:
  assumes a: "adds h Js D M G Z x y j k s s'"
  shows "queues_ok h s'"
proof -
  note A = addsD [OF a] note L = A(6)
  have "b \<noteq> nextMatch s" if "b \<in> alphas s p" for b p using A(12) that by blast
  then show ?thesis
    using linked_old [OF L] linked_pms(3,4) [OF L] linked_queue(1) [OF L]
    by (intro queues_keep [OF inv_parts(3) [OF A(1)]]) (auto simp: same_core_def)
qed


lemma adds_slots:
  assumes a: "adds h Js D M G Z x y j k s s'" and i: "i \<in> Js"
  shows "slots s i \<subseteq> slots s' i" "fst xy \<noteq> Some (nextMatch s) \<Longrightarrow> xy \<in> slots s' i \<longleftrightarrow> xy \<in> slots s i"
    "i \<noteq> k \<Longrightarrow> slots s' i = slots s i" "xy \<in> slots s i \<Longrightarrow> fst xy \<noteq> Some (nextMatch s)"
proof -
  note A = addsD [OF a] note L = A(6)
  note f = linked_pms(2) [OF L] linked_queue(3) [OF L] linked_lmem [OF L]
  show "slots s i \<subseteq> slots s' i" by (auto simp: slots_def Let_def f)
  show "fst xy \<noteq> Some (nextMatch s) \<Longrightarrow> xy \<in> slots s' i \<longleftrightarrow> xy \<in> slots s i"
    by (cases xy) (auto simp: slots_def Let_def f)
  show "i \<noteq> k \<Longrightarrow> slots s' i = slots s i" by (auto simp: slots_def Let_def f)
  show "xy \<in> slots s i \<Longrightarrow> fst xy \<noteq> Some (nextMatch s)" using A(11) [OF i] by (auto simp: slots_def Let_def split: if_splits)
qed

lemma adds_wanted:
  assumes a: "adds h Js D M G Z x y j k s s'" and i: "i \<in> Js" and xy: "xy \<in> slots s i"
  shows "wanted h s' i xy = wanted h s i xy" "child_binds s' i xy = child_binds s i xy"
proof -
  note A = addsD [OF a] note L = A(6)
  obtain u v where uv: "xy = (u, v)" by (cases xy)
  have l: "l \<noteq> nextMatch s" if "fst xy = Some l" for l using slots_bound(1) [OF A(1) i] xy that uv by fastforce
  have b: "b \<noteq> nextMatch s" if "snd xy = Some b" for b using slots_bound(2) [OF A(1) i] xy that uv by fastforce
  note w = wanted_keep [OF linked_pms(2) [OF L] xy]
  show "wanted h s' i xy = wanted h s i xy"
    by (rule w(1)) (simp_all add: l b linked_old(1,2) [OF L])
  show "child_binds s' i xy = child_binds s i xy"
    by (rule w(2)) (simp_all add: l b linked_old(1,2) [OF L])
qed

lemma adds_due:
  assumes a: "adds h Js D M G Z x y j k s s'" and i: "i \<in> Js"
  shows "fst xy \<noteq> Some (nextMatch s) \<Longrightarrow> xy \<in> due h G s' i \<longleftrightarrow> xy \<in> due h G s i"
    "i \<noteq> k \<Longrightarrow> due h G s' i = due h G s i"
    "xy \<in> due h G s i \<Longrightarrow> fst xy \<noteq> Some (nextMatch s)"
proof -
  note S = adds_slots [OF a i] and W = adds_wanted(1) [OF a i]
  show 1: "fst xy \<noteq> Some (nextMatch s) \<Longrightarrow> xy \<in> due h G s' i \<longleftrightarrow> xy \<in> due h G s i" for xy
    unfolding due_def mem_Collect_eq using S(2) W by blast
  show 3: "xy \<in> due h G s i \<Longrightarrow> fst xy \<noteq> Some (nextMatch s)" for xy
    unfolding due_def using S(4) by blast
  show "i \<noteq> k \<Longrightarrow> due h G s' i = due h G s i"
    using S(3) W unfolding due_def by blast
qed

lemma adds_families:
  assumes a: "adds h Js D M G Z x y j k s s'"
  shows "families_ok h Js (D - {(k, x, y)} \<union> pending_left (nextMatch s)) G s'"
proof -
  note A = addsD [OF a] note L = A(6)
  let ?c = "nextMatch s" and ?D = "D - {(k, x, y)} \<union> pending_left (nextMatch s)"
  have "family_ok h ?D G s' j' k'" if k': "k' \<in> Js" "lastLevel (joins s k') = Some j'" for k' j'
  proof -
    have F: "family_ok h D G s j' k'" by (rule lmem_family [OF A(1) k'])
    have j': "j' \<in> Js" using net_depth(1) [OF A(1) k'] .
    have old: "parents s' p = parents s p" "bnd s' p = bnd s p" if "p \<in> lmem s k'" for p
      using linked_old [OF L] A(11) [OF k'(1)] that by metis+
    have pc: "parents s' ?c = (x, y)" "bnd s' ?c = child_binds s j (x, y)" using linked_new [OF L] by auto
    have notin: "(x, y) \<notin> parents s ` lmem s k'" if "k' = k" using a that by (simp add: adds_def)
    have old_slots: "parents s p \<in> slots s' j' \<and> bnd s p = child_binds s' j' (parents s p)" if "p \<in> lmem s k'" for p
      using F that adds_slots(1) [OF a j'] adds_wanted(2) [OF a j'] by (auto simp: family_ok_def)
    have pend: "(k', xy) \<in> pending_left ?c \<longleftrightarrow> fst xy = Some ?c" for xy by (cases xy) (simp add: pending_left_def)
    have due: "due h G s' j' - {xy. (k', xy) \<in> ?D} = due h G s j' - {xy. (k', xy) \<in> D - {(k, x, y)}}"
    proof (rule set_eqI)
      fix xy show "xy \<in> due h G s' j' - {xy. (k', xy) \<in> ?D} \<longleftrightarrow> xy \<in> due h G s j' - {xy. (k', xy) \<in> D - {(k, x, y)}}"
        using adds_due(1,3) [OF a j', of xy] pend [of xy] by (cases "fst xy = Some ?c") auto
    qed
    show ?thesis
    proof (cases "k' = k")
      case False
      then have lm: "lmem s' k' = lmem s k'" by (simp add: linked_lmem [OF L])
      have "parents s' ` (lmem s k' - G) = parents s ` (lmem s k' - G)" using old(1) by (intro image_cong) auto
      moreover have "inj_on (parents s') (lmem s k')" using F old(1) inj_on_cong [of "lmem s k'" "parents s'" "parents s"] by (auto simp: family_ok_def)
      moreover have "due h G s j' - {xy. (k', xy) \<in> D - {(k, x, y)}} = due h G s j' - {xy. (k', xy) \<in> D}" using False by auto
      ultimately show ?thesis using F old old_slots unfolding family_ok_def lm due by simp
    next
      case True
      then have jj: "j' = j" using k'(2) A(3) by simp
      have lm: "lmem s' k' = insert ?c (lmem s k')" using True by (simp add: linked_lmem [OF L])
      have xy: "(x, y) \<in> due h G s j'" "(x, y) \<in> slots s j'" "free_of G (x, y)" using A(4) jj by (auto simp: due_def)
      have eq: "parents s' ` (lmem s k' - G) = parents s ` (lmem s k' - G)" "parents s' ` lmem s k' = parents s ` lmem s k'"
        using old(1) by (intro image_cong; simp)+
      have par: "parents s' ` (lmem s' k' - G) = insert (x, y) (parents s ` (lmem s k' - G))"
        using pc(1) A(13) unfolding lm eq(1) [symmetric] by (simp add: insert_Diff_if)
      have "due h G s j' - {xy. (k', xy) \<in> D - {(k, x, y)}} = insert (x, y) (due h G s j' - {xy. (k', xy) \<in> D})"
        using xy(1) True by auto
      moreover have "inj_on (parents s') (lmem s k')" using F old(1) inj_on_cong [of "lmem s k'" "parents s'" "parents s"] by (auto simp: family_ok_def)
      then have "inj_on (parents s') (lmem s' k')"
        unfolding lm using notin [OF True] pc(1) eq(2) A(11) [OF k'(1)] by (simp add: inj_on_insert)
      moreover have "parents s' ?c \<in> slots s' j' \<and> bnd s' ?c = child_binds s' j' (parents s' ?c)"
        using pc xy(2) jj adds_slots(1) [OF a j'] adds_wanted(2) [OF a j' xy(2)] by auto
      ultimately show ?thesis
        using F par xy(3) pc(1) old old_slots unfolding family_ok_def lm due by simp
    qed
  qed
  then show ?thesis by (simp add: families_ok_def linked_pms(2) [OF L])
qed


lemma adds_kids:
  assumes a: "adds h Js D M G Z x y j k s s'"
  shows "left_kids Js s' l = left_kids Js s l \<union> (if x = Some l then {nextMatch s} else {})"
    "right_kids Js s' b = right_kids Js s b \<union> (if y = Some b then {nextMatch s} else {})"
    "blocked_by Js s' b = blocked_by Js s b"
    "nextMatch s \<notin> left_kids Js s l" "nextMatch s \<notin> right_kids Js s b"
proof -
  note A = addsD [OF a] note L = A(6)
  have new: "pmLeftParent (pms s' (nextMatch s)) = x" "pmRightParent (pms s' (nextMatch s)) = y" "mark s' (nextMatch s) = Unmarked"
    using linked_new(1) [OF L] by (simp_all add: child_match_def fresh_match_def)
  have lm: "c \<in> lmem s' i \<longleftrightarrow> c \<in> lmem s i \<or> i = k \<and> c = nextMatch s" for c i by (auto simp: linked_lmem [OF L])
  have old: "c \<noteq> nextMatch s" if "i \<in> Js" "c \<in> lmem s i" for c i using A(11) that by blast
  show "left_kids Js s' l = left_kids Js s l \<union> (if x = Some l then {nextMatch s} else {})"
    using new(1) A(2) old linked_old(8) [OF L] unfolding left_kids_def lm by (auto split: if_splits)
  show "right_kids Js s' b = right_kids Js s b \<union> (if y = Some b then {nextMatch s} else {})"
    using new(2) A(2) old linked_old(9) [OF L] unfolding right_kids_def lm by (auto split: if_splits)
  show "blocked_by Js s' b = blocked_by Js s b"
    using new(3) old linked_old(2) [OF L] unfolding blocked_by_def lm by auto
  show "nextMatch s \<notin> left_kids Js s l" "nextMatch s \<notin> right_kids Js s b"
    using A(11) by (auto simp: left_kids_def right_kids_def)
qed

lemma adds_children:
  assumes a: "adds h Js D M G Z x y j k s s'"
  shows "children_ok Js Z s'"
proof -
  note A = addsD [OF a] note L = A(6)
  note K = adds_kids [OF a]
  have C: "children_ok Js Z s" by (rule inv_parts(5) [OF A(1)])
  have sl: "(x, y) \<in> slots s j" using A(4) by (simp add: due_def)
  have nk: "left_kids Js s (nextMatch s) = {}"
  proof -
    have "pmLeftParent (pms s c) \<noteq> Some (nextMatch s)" if "i \<in> Js" "c \<in> lmem s i" for i c
      using lmem_parent [OF A(1) that] A(11) net_depth(1) [OF A(1) that(1)] by blast
    then show ?thesis by (auto simp: left_kids_def)
  qed
  have "distinct (pmChildren (pms s' l)) \<and> set (pmChildren (pms s' l)) = left_kids Js s' l"
    if i: "i \<in> Js" "l \<in> lmem s' i" "l \<notin> Z" for i l
  proof (cases "l = nextMatch s")
    case True
    then show ?thesis using K(1) [of l] nk A(9) linked_new(1) [OF L] by (simp add: child_match_def fresh_match_def)
  next
    case False
    then have l: "l \<in> lmem s i" using i(2) by (simp add: linked_lmem [OF L] split: if_splits)
    then have "y \<noteq> Some l"
      using slots_bound(2) [OF A(1,7) sl] entry_alphas_alpha lmem_not_alpha [OF A(1) i(1) l] by blast
    then show ?thesis using C i(1,3) l False K(1,4) [of l] linked_old(11) [OF L False] by (auto simp: children_ok_def)
  qed
  moreover have "distinct (pmChildren (pms s' b)) \<and> set (pmChildren (pms s' b)) = right_kids Js s' b" if b: "b \<in> alphas s p" for b p
  proof -
    have ne: "b \<noteq> nextMatch s" using A(12) b by blast
    have "x \<noteq> Some b" using slots_bound(1) [OF A(1,7) sl] lmem_not_alpha [OF A(1,7)] b by blast
    then show ?thesis using C b K(2,5) [of b] linked_old(11) [OF L ne] by (auto simp: children_ok_def)
  qed
  ultimately show ?thesis by (simp add: children_ok_def linked_queue(2) [OF L])
qed

lemma adds_blocks:
  assumes a: "adds h Js D M G Z x y j k s s'"
  shows "blocks_ok Js s'"
proof -
  note A = addsD [OF a] note L = A(6)
  have "pmBlockList (pms s' b) = pmBlockList (pms s b)" if "b \<in> alphas s p" for b p
    using linked_old(10) [OF L] A(12) that by metis
  then show ?thesis using inv_parts(6) [OF A(1)] by (simp add: blocks_ok_def adds_kids(3) [OF a] linked_queue(2) [OF L])
qed

lemma mark_ok_keep:
  assumes "mark_ok h M G s j l" "joins s' = joins s" "entry_alphas s' = entry_alphas s" "precedes s' = precedes s"
    and "mark s' l = mark s l" "bnd s' l = bnd s l" "\<And>a p. a \<in> alphas s p \<Longrightarrow> bnd s' a = bnd s a"
    and "\<And>b. (l, b) \<in> M \<Longrightarrow> (l, b) \<in> M'"
  shows "mark_ok h M' G s' j l"
proof -
  have e: "bnd s' a = bnd s a" if "a \<in> entry_alphas s J" for a J using assms(7) entry_alphas_alpha [OF that] by blast
  have p: "bnd s' b = bnd s b" if "precedes s b a" for a b
  proof -
    obtain p hv xs ys zs where "queue s p hv = xs @ b # ys @ a # zs" using \<open>precedes s b a\<close> by (auto simp: precedes_def)
    then have "b \<in> alphas s p" unfolding alphas_def by (metis (mono_tags, lifting) in_set_conv_decomp mem_Collect_eq)
    then show ?thesis by (rule assms(7))
  qed
  show ?thesis
    using assms(1,8) e p unfolding mark_ok_def Let_def assms(2-6) by (auto split: if_splits)
qed

lemma adds_marks:
  assumes a: "adds h Js D M G Z x y j k s s'"
  shows "marks_ok h Js (M \<union> pending_marks (nextMatch s)) G s'"
proof -
  note A = addsD [OF a] note L = A(6)
  have "mark_ok h (M \<union> pending_marks (nextMatch s)) G s' i l" if i: "i \<in> Js" "l \<in> lmem s' i" for i l
  proof (cases "l = nextMatch s")
    case True
    then show ?thesis using linked_new(1) [OF L] by (simp add: mark_ok_def child_match_def fresh_match_def pending_marks_def Let_def)
  next
    case False
    then have "l \<in> lmem s i" using i(2) by (simp add: linked_lmem [OF L] split: if_splits)
    then have m: "mark_ok h M G s i l" using inv_parts(7) [OF A(1)] i(1) by (simp add: marks_ok_def)
    show ?thesis
    proof (rule mark_ok_keep [OF m linked_pms(2) [OF L] linked_queue(3,4) [OF L] linked_old(2,1) [OF L False]])
      show "bnd s' b = bnd s b" if "b \<in> alphas s p" for b p using linked_old(1) [OF L] A(12) that by metis
    qed simp
  qed
  then show ?thesis by (simp add: marks_ok_def)
qed

theorem adds_inv:
  assumes a: "adds h Js D M G Z x y j k s s'"
  shows "net_inv h Js (D - {(k, x, y)} \<union> pending_left (nextMatch s)) (M \<union> pending_marks (nextMatch s)) G Z s'"
proof -
  note A = addsD [OF a] note L = A(6)
  have "static_ok h Js s'"
    using inv_parts(1) [OF A(1)] linked_pms [OF L] linked_queue(5) [OF L] by (simp add: static_ok_def)
  moreover have "bounds_ok (D - {(k, x, y)} \<union> pending_left (nextMatch s)) (M \<union> pending_marks (nextMatch s)) G s'"
    using inv_parts(8) [OF A(1)] linked_pms(4) [OF L] unfolding bounds_ok_def pending_left_def pending_marks_def
    by (auto intro: less_SucI)
  ultimately show ?thesis
    using adds_memories [OF a] adds_queues [OF a] adds_families [OF a] adds_children [OF a] adds_blocks [OF a] adds_marks [OF a]
    by (simp add: net_inv_def)
qed

section \<open>Exceptions\<close>

text \<open>Only the pairs that are due matter among the exceptions.\<close>

lemma families_D:
  assumes "families_ok h Js D G s"
    and "\<And>k j xy. k \<in> Js \<Longrightarrow> lastLevel (joins s k) = Some j \<Longrightarrow> xy \<in> due h G s j \<Longrightarrow> (k, xy) \<in> D \<longleftrightarrow> (k, xy) \<in> D'"
  shows "families_ok h Js D' G s"
proof -
  have "due h G s j - {xy. (k, xy) \<in> D} = due h G s j - {xy. (k, xy) \<in> D'}"
    if "k \<in> Js" "lastLevel (joins s k) = Some j" for k j using assms(2) [OF that] by blast
  then show ?thesis using assms(1) by (simp add: families_ok_def family_ok_def)
qed

lemma inv_D:
  assumes "net_inv h Js D M G Z s"
    and "\<And>k j xy. k \<in> Js \<Longrightarrow> lastLevel (joins s k) = Some j \<Longrightarrow> xy \<in> due h G s j \<Longrightarrow> (k, xy) \<in> D \<longleftrightarrow> (k, xy) \<in> D'"
    and "\<And>k l y. (k, Some l, y) \<in> D' \<Longrightarrow> l < nextMatch s"
  shows "net_inv h Js D' M G Z s"
  using assms(1,3) families_D [OF inv_parts(4) [OF assms(1)] assms(2)] by (simp add: net_inv_def bounds_ok_def)

lemma inv_M:
  assumes "net_inv h Js D M G Z s" "\<And>j l. j \<in> Js \<Longrightarrow> l \<in> lmem s j \<Longrightarrow> mark_ok h M' G s j l" "\<And>l a. (l, a) \<in> M' \<Longrightarrow> l < nextMatch s"
  shows "net_inv h Js D M' G Z s"
  using assms by (simp add: net_inv_def bounds_ok_def marks_ok_def)

lemma inv_Z:
  assumes "net_inv h Js D M G Z s" "Z \<subseteq> Z'"
  shows "net_inv h Js D M G Z' s"
proof -
  have "children_ok Js Z' s" using inv_parts(5) [OF assms(1)] assms(2) unfolding children_ok_def by blast
  then show ?thesis using assms(1) by (simp add: net_inv_def)
qed

section \<open>Markers\<close>

text \<open>Two states that differ in the marker of a match and in the lists of blocked matches.\<close>

definition remarked :: "addr \<Rightarrow> 'e rete \<Rightarrow> 'e rete \<Rightarrow> bool" where
  "remarked l s s' \<longleftrightarrow> joins s' = joins s \<and> headers s' = headers s \<and> AlphaMemoryTable s' = AlphaMemoryTable s \<and>
     leftMemories s' = leftMemories s \<and> IncrementalResetInProgress s' = IncrementalResetInProgress s \<and> nextMatch s' = nextMatch s \<and>
     environment s' = environment s \<and>
     (\<forall>p. same_core s s' p \<and> parents s' p = parents s p \<and> pmChildren (pms s' p) = pmChildren (pms s p)) \<and>
     (\<forall>p. p \<noteq> l \<longrightarrow> mark s' p = mark s p)"

lemma remarked_fields:
  assumes "remarked l s s'"
  shows "joins s' = joins s" "headers s' = headers s" "leftMemories s' = leftMemories s" "nextMatch s' = nextMatch s"
    "lmem s' = lmem s" "queue s' = queue s" "alphas s' = alphas s" "entry_alphas s' = entry_alphas s" "precedes s' = precedes s"
    "same_core s s' p" "bnd s' p = bnd s p" "parents s' p = parents s p" "pmLeftParent (pms s' p) = pmLeftParent (pms s p)"
    "pmRightParent (pms s' p) = pmRightParent (pms s p)" "pmChildren (pms s' p) = pmChildren (pms s p)"
    "p \<noteq> l \<Longrightarrow> mark s' p = mark s p" "static_ok h Js s' = static_ok h Js s" "slots s' = slots s" "environment s' = environment s"
proof -
  show f: "joins s' = joins s" "headers s' = headers s" "leftMemories s' = leftMemories s" "nextMatch s' = nextMatch s" "environment s' = environment s"
    "same_core s s' p" "parents s' p = parents s p" "pmChildren (pms s' p) = pmChildren (pms s p)" "p \<noteq> l \<Longrightarrow> mark s' p = mark s p"
    using assms by (simp_all add: remarked_def)
  show l: "lmem s' = lmem s" by (rule lmem_cong [OF f(3)])
  show q: "queue s' = queue s" using assms by (intro queue_cong) (simp add: remarked_def)
  show a: "alphas s' = alphas s" by (rule alphas_cong [OF q])
  show e: "entry_alphas s' = entry_alphas s" by (rule ext) (simp add: entry_alphas_def a split: entry.split)
  show "precedes s' = precedes s" by (intro ext) (simp add: precedes_def q)
  show "bnd s' p = bnd s p" using f(6) by (simp add: same_core_def)
  show "pmLeftParent (pms s' p) = pmLeftParent (pms s p)" "pmRightParent (pms s' p) = pmRightParent (pms s p)"
    using f(7) by (simp_all add: parents_def)
  show "static_ok h Js s' = static_ok h Js s" using assms by (simp add: static_ok_def remarked_def alpha_ok_def)
  show "slots s' = slots s" by (intro ext) (unfold slots_def f(1) l e, rule refl)
qed

lemma remarked_families:
  assumes r: "remarked l s s'" and i: "net_inv h Js D M G Z s" and j: "j \<in> Js" "l \<in> lmem s j"
    and p: "\<And>k. k \<in> Js \<Longrightarrow> lastLevel (joins s k) = Some j \<Longrightarrow> \<not> positive (joins s j) \<Longrightarrow>
      ((Some l, None) \<in> due h G s' j) \<noteq> ((Some l, None) \<in> due h G s j) \<Longrightarrow> (k, Some l, None) \<in> D"
  shows "families_ok h Js D G s'"
proof -
  note f = remarked_fields [OF r]
  have w: "wanted h s' i xy = wanted h s i xy" "child_binds s' i xy = child_binds s i xy"
    if "i \<in> Js" "xy \<in> slots s i" "i \<noteq> j \<or> fst xy \<noteq> Some l \<or> positive (joins s j)" for i xy
  proof -
    have m: "positive (joins s i) \<or> mark s' l' = mark s l'" if "fst xy = Some l'" for l'
    proof (cases "l' = l")
      case True
      then have "i = j"
        using slots_bound(1) [OF \<open>net_inv h Js D M G Z s\<close> \<open>i \<in> Js\<close>, of "fst xy" "snd xy" l] lmem_unique [OF \<open>net_inv h Js D M G Z s\<close> j(1) \<open>i \<in> Js\<close> j(2)]
          \<open>xy \<in> slots s i\<close> that by (cases xy) auto
      then show ?thesis using \<open>i \<noteq> j \<or> fst xy \<noteq> Some l \<or> positive (joins s j)\<close> that True by auto
    qed (simp add: f(16))
    show "wanted h s' i xy = wanted h s i xy" "child_binds s' i xy = child_binds s i xy"
      by (rule wanted_keep [OF f(1) that(2) f(11) f(11) m]; assumption)+
  qed
  have cb: "child_binds s' i xy = child_binds s i xy" for i xy
    unfolding child_binds_def f(1,11) by (rule refl)
  have "due h G s' i - {xy. (k, xy) \<in> D} = due h G s i - {xy. (k, xy) \<in> D}" if k: "k \<in> Js" "lastLevel (joins s k) = Some i" for k i
  proof -
    have iJ: "i \<in> Js" using net_depth(1) [OF i k] .
    have "xy \<in> due h G s' i \<longleftrightarrow> xy \<in> due h G s i" if "(k, xy) \<notin> D" for xy
    proof (cases "i = j \<and> fst xy = Some l \<and> \<not> positive (joins s j) \<and> xy \<in> slots s i")
      case True
      then have "xy = (Some l, None)" by (cases xy) (auto simp: slots_def Let_def split: if_splits)
      then show ?thesis using p [OF k(1)] k(2) True that by auto
    next
      case False
      then show ?thesis using w(1) [OF iJ, of xy] f(18) by (auto simp: due_def)
    qed
    then show ?thesis by blast
  qed
  moreover have "parents s' = parents s" by (rule ext) (rule f(12))
  ultimately show ?thesis
    using inv_parts(4) [OF i] by (simp add: families_ok_def family_ok_def f(1,5,11,18) cb)
qed

lemma remarked_inv:
  assumes r: "remarked l s s'" and i: "net_inv h Js D M G Z s" and j: "j \<in> Js" "l \<in> lmem s j"
    and p: "\<And>k. k \<in> Js \<Longrightarrow> lastLevel (joins s k) = Some j \<Longrightarrow> \<not> positive (joins s j) \<Longrightarrow>
      ((Some l, None) \<in> due h G s' j) \<noteq> ((Some l, None) \<in> due h G s j) \<Longrightarrow> (k, Some l, None) \<in> D"
    and b: "\<And>i q. i \<in> Js \<Longrightarrow> q \<in> lmem s i \<Longrightarrow> pmBlockList (pms s' q) = pmBlockList (pms s q)"
    and bl: "\<And>a q. a \<in> alphas s q \<Longrightarrow> distinct (pmBlockList (pms s' a)) \<and> set (pmBlockList (pms s' a)) = blocked_by Js s' a"
    and m: "mark_ok h M' G s' j l" and M: "\<And>q a. q \<noteq> l \<Longrightarrow> (q, a) \<in> M \<longleftrightarrow> (q, a) \<in> M'"
  shows "net_inv h Js D M' G Z s'"
proof -
  note f = remarked_fields [OF r]
  have "memories_ok h Js s'"
    using inv_parts(2) [OF i] f b by (auto simp: memories_ok_def intro!: left_memory_keep [of h s _ s'])
  moreover have "queues_ok h s'" by (rule queues_keep [OF inv_parts(3) [OF i] f(6,2)]) (simp_all add: f)
  moreover have "children_ok Js Z s'"
    using inv_parts(5) [OF i] by (simp add: children_ok_def left_kids_def right_kids_def f)
  moreover have "blocks_ok Js s'" using bl by (simp add: blocks_ok_def f(7))
  moreover have "mark_ok h M' G s' i' q" if "i' \<in> Js" "q \<in> lmem s i'" for i' q
  proof (cases "q = l")
    case True
    then show ?thesis using m lmem_unique [OF i j(1) that(1) j(2)] that(2) by blast
  next
    case False
    have "mark_ok h M G s i' q" using inv_parts(7) [OF i] that by (simp add: marks_ok_def)
    then show ?thesis by (rule mark_ok_keep [OF _ f(1,8,9) f(16) [OF False] f(11)]) (simp_all add: f(11) M [OF False])
  qed
  moreover have "bounds_ok D M' G s'"
    using inv_parts(8) [OF i] M lmem_less [OF i j] unfolding bounds_ok_def f(4) by metis
  ultimately show ?thesis
    using remarked_families [OF r i j p] inv_parts(1) [OF i] by (simp add: net_inv_def f(5,17) marks_ok_def)
qed

text \<open>A left match is marked with a right match that passes the test, the first one to do so.\<close>

lemma AddBlockedLink_remarked: "l \<noteq> r \<Longrightarrow> remarked l s (AddBlockedLink l r s)"
  by (simp add: remarked_def AddBlockedLink_def same_core_def parents_def)

lemma AddBlockedLink_fields:
  "l \<noteq> r \<Longrightarrow> mark (AddBlockedLink l r s) l = BlockedBy r"
  "pmBlockList (pms (AddBlockedLink l r s) p) = (if p = r then l # pmBlockList (pms s p) else pmBlockList (pms s p))"
  by (auto simp: AddBlockedLink_def)

lemma block_inv:
  assumes i: "net_inv h Js D M G Z s" and j: "j \<in> Js" "l \<in> lmem s j" "\<not> positive (joins s j)" "mark s l = Unmarked"
    and r: "r \<in> entry_alphas s (joins s j)" "pair_ok h (joins s j) (bnd s l) (bnd s r)"
      "patternIsExists (joins s j) \<Longrightarrow> sec_ok h (joins s j) (bnd s l)"
      "\<And>b. precedes s b r \<Longrightarrow> b \<notin> G \<Longrightarrow> \<not> pair_ok h (joins s j) (bnd s l) (bnd s b)" "r \<notin> G"
    and p: "\<And>k. k \<in> Js \<Longrightarrow> lastLevel (joins s k) = Some j \<Longrightarrow> (k, Some l, None) \<in> D"
  shows "net_inv h Js D (M - pending_marks l) G Z (AddBlockedLink l r s)"
proof -
  let ?s = "AddBlockedLink l r s"
  obtain q where q: "r \<in> alphas s q" using entry_alphas_alpha [OF r(1)] by blast
  have lr: "l \<noteq> r" using lmem_not_alpha [OF i j(1,2)] q by blast
  note R = AddBlockedLink_remarked [OF lr, of s]
  note f = remarked_fields [OF R]
  have nt: "\<not> terminal (joins s j)" using net_links(5) [OF inv_net [OF i] j(1)] j(3) by blast
  have mk: "mark ?s l = BlockedBy r" by (rule AddBlockedLink_fields(1) [OF lr])
  have bb: "blocked_by Js ?s a = blocked_by Js s a \<union> (if a = r then {l} else {})" for a
  proof -
    have "mark ?s p = BlockedBy a \<longleftrightarrow> (if p = l then a = r else mark s p = BlockedBy a)" for p using mk f(16) by auto
    then show ?thesis using j unfolding blocked_by_def f(5) by auto
  qed
  have bs: "distinct (pmBlockList (pms s a))" "set (pmBlockList (pms s a)) = blocked_by Js s a" if "a \<in> alphas s q'" for a q'
    using inv_parts(6) [OF i] that by (auto simp: blocks_ok_def)
  have nl: "l \<notin> blocked_by Js s r" using j(4) by (auto simp: blocked_by_def)
  show ?thesis
  proof (rule remarked_inv [OF R i j(1,2) p])
    show "pmBlockList (pms ?s q') = pmBlockList (pms s q')" if "i' \<in> Js" "q' \<in> lmem s i'" for i' q'
      using lmem_not_alpha [OF i that] q by (auto simp: AddBlockedLink_fields(2))
    show "distinct (pmBlockList (pms ?s a)) \<and> set (pmBlockList (pms ?s a)) = blocked_by Js ?s a" if "a \<in> alphas s q'" for a q'
      using bs [OF that] nl unfolding bb AddBlockedLink_fields(2) by auto
    show "mark_ok h (M - pending_marks l) G ?s j l"
      using nt j(3) mk r unfolding mark_ok_def Let_def f(1,8,9,11) by auto
  qed (simp_all add: pending_marks_def)
qed

text \<open>A marker is taken away; whatever was blocked by it is pending.\<close>

lemma RemoveBlockedLink_remarked: "remarked l s (RemoveBlockedLink l s)"
  by (simp add: remarked_def RemoveBlockedLink_def unlink_blocked_def same_core_def parents_def split: marking.split)

lemma RemoveBlockedLink_fields:
  assumes "mark s l = BlockedBy r"
  shows "mark (RemoveBlockedLink l s) l = Unmarked"
  "pmBlockList (pms (RemoveBlockedLink l s) p) = (if p = r then remove1 l (pmBlockList (pms s p)) else pmBlockList (pms s p))"
  using assms by (auto simp: RemoveBlockedLink_def unlink_blocked_def)

lemma remark_inv:
  assumes i: "net_inv h Js D M G Z s" and j: "j \<in> Js" "l \<in> lmem s j" "\<not> positive (joins s j)" "mark s l = BlockedBy r"
    and p: "\<And>k. k \<in> Js \<Longrightarrow> lastLevel (joins s k) = Some j \<Longrightarrow>
      ((Some l, None) \<in> due h G (RemoveBlockedLink l s) j) \<noteq> ((Some l, None) \<in> due h G s j) \<Longrightarrow> (k, Some l, None) \<in> D"
    and m: "mark_ok h M' G (RemoveBlockedLink l s) j l" and M: "\<And>q a. q \<noteq> l \<Longrightarrow> (q, a) \<in> M \<longleftrightarrow> (q, a) \<in> M'"
  shows "net_inv h Js D M' G Z (RemoveBlockedLink l s)"
proof -
  let ?s = "RemoveBlockedLink l s"
  note R = RemoveBlockedLink_remarked [of l s]
  note f = remarked_fields [OF R]
  have nt: "\<not> terminal (joins s j)" using net_links(5) [OF inv_net [OF i] j(1)] j(3) by blast
  have "mark_ok h M G s j l" using inv_parts(7) [OF i] j by (simp add: marks_ok_def)
  then have "r \<in> entry_alphas s (joins s j)" using nt j(3,4) by (simp add: mark_ok_def Let_def)
  then obtain q where q: "r \<in> alphas s q" using entry_alphas_alpha by blast
  have mk: "mark ?s l = Unmarked" by (rule RemoveBlockedLink_fields(1) [OF j(4)])
  have bb: "blocked_by Js ?s a = blocked_by Js s a - {l}" for a
  proof -
    have "mark ?s p = BlockedBy a \<longleftrightarrow> p \<noteq> l \<and> mark s p = BlockedBy a" for p using mk f(16) by (cases "p = l") auto
    then show ?thesis unfolding blocked_by_def f(5) by auto
  qed
  have bs: "distinct (pmBlockList (pms s a))" "set (pmBlockList (pms s a)) = blocked_by Js s a" if "a \<in> alphas s q'" for a q'
    using inv_parts(6) [OF i] that by (auto simp: blocks_ok_def)
  have nl: "l \<notin> blocked_by Js s a" if "a \<noteq> r" for a using j(4) that by (auto simp: blocked_by_def)
  show ?thesis
  proof (rule remarked_inv [OF R i j(1,2) p])
    show "pmBlockList (pms ?s q') = pmBlockList (pms s q')" if "i' \<in> Js" "q' \<in> lmem s i'" for i' q'
      using lmem_not_alpha [OF i that] q by (auto simp: RemoveBlockedLink_fields(2) [OF j(4)])
    show "distinct (pmBlockList (pms ?s a)) \<and> set (pmBlockList (pms ?s a)) = blocked_by Js ?s a" if "a \<in> alphas s q'" for a q'
      using bs [OF that] nl [of a] unfolding bb RemoveBlockedLink_fields(2) [OF j(4)] by (auto simp: set_remove1_eq)
  qed (simp_all add: m M)
qed

end
