(* ===== verification/Join_Unlinks.thy ===== *)
theory Join_Unlinks
  imports Join_Links
begin

text \<open>
  Giving matches up: the descendants of a match become exceptions, and a match without descendants is taken out of
  its memory.
\<close>

section \<open>Descendants\<close>

inductive_set desc :: "addr set \<Rightarrow> 'e rete \<Rightarrow> addr \<Rightarrow> addr set" for Js :: "addr set" and s :: "'e rete" and l :: addr where
  kid: "c \<in> left_kids Js s l \<Longrightarrow> c \<in> desc Js s l"
| step: "b \<in> desc Js s l \<Longrightarrow> c \<in> left_kids Js s b \<Longrightarrow> c \<in> desc Js s l"

lemma desc_lmem: "c \<in> desc Js s l \<Longrightarrow> \<exists>k \<in> Js. c \<in> lmem s k"
  by (induction rule: desc.induct) (auto simp: left_kids_def)

lemma desc_left: "k \<in> Js \<Longrightarrow> c \<in> lmem s k \<Longrightarrow> pmLeftParent (pms s c) = Some b \<Longrightarrow> b = l \<or> b \<in> desc Js s l \<Longrightarrow> c \<in> desc Js s l"
  using desc.kid [of c Js s l] desc.step [of b Js s l c] by (auto simp: left_kids_def)

lemma desc_parent: "c \<in> desc Js s l \<Longrightarrow> \<exists>b. pmLeftParent (pms s c) = Some b \<and> (b = l \<or> b \<in> desc Js s l)"
  by (erule desc.cases) (auto simp: left_kids_def)

lemma desc_not_alpha: "net_inv h Js D M G Z s \<Longrightarrow> c \<in> desc Js s l \<Longrightarrow> c \<notin> alphas s p"
  using desc_lmem lmem_not_alpha by metis

lemma mark_ok_G:
  assumes m: "mark_ok h M G s j l" and a: "\<And>a. mark s l = BlockedBy a \<Longrightarrow> a \<in> G' \<Longrightarrow> a \<notin> G \<Longrightarrow> (l, a) \<in> M" and G: "G \<subseteq> G'"
  shows "mark_ok h M G' s j l"
proof -
  have "b \<notin> G" if "b \<notin> G'" for b using G that by blast
  then show ?thesis using m a unfolding mark_ok_def Let_def by (auto split: if_splits)
qed

lemma doom_inv:
  assumes i: "net_inv h Js D M G Z s" and j: "j \<in> Js" "l \<in> lmem s j"
  shows "net_inv h Js (D \<union> pending_left l) M (G \<union> desc Js s l) Z s"
proof -
  let ?G = "G \<union> desc Js s l" and ?D = "D \<union> pending_left l"
  have pend: "(k, xy) \<in> pending_left l \<longleftrightarrow> fst xy = Some l" for k xy by (cases xy) (simp add: pending_left_def)
  have "family_ok h ?D ?G s j' k" if k: "k \<in> Js" "lastLevel (joins s k) = Some j'" for k j'
  proof -
    have F: "family_ok h D G s j' k" by (rule lmem_family [OF i k])
    have right: "snd (parents s c) \<noteq> Some d" if "c \<in> lmem s k" "d \<in> desc Js s l" for c d
      using lmem_right_parent [OF i k(1) that(1)] desc_not_alpha [OF i that(2)] by (auto simp: parents_def)
    have free: "free_of ?G (parents s c) \<longleftrightarrow> free_of G (parents s c) \<and> (\<forall>d \<in> desc Js s l. fst (parents s c) \<noteq> Some d)" if "c \<in> lmem s k" for c
      using right [OF that] by (auto simp: free_of_def)
    have indesc: "c \<in> desc Js s l \<longleftrightarrow> fst (parents s c) = Some l \<or> (\<exists>d \<in> desc Js s l. fst (parents s c) = Some d)" if "c \<in> lmem s k" for c
      using desc_parent [of c Js s l] desc_left [OF k(1) that] by (auto simp: parents_def)
    have "parents s ` (lmem s k - ?G) = due h ?G s j' - {xy. (k, xy) \<in> ?D}"
    proof (intro equalityI subsetI)
      fix xy assume "xy \<in> parents s ` (lmem s k - ?G)"
      then obtain c where c: "c \<in> lmem s k" "c \<notin> G" "c \<notin> desc Js s l" "xy = parents s c" by auto
      then have "xy \<in> due h G s j' - {xy. (k, xy) \<in> D}" using F by (auto simp: family_ok_def)
      then show "xy \<in> due h ?G s j' - {xy. (k, xy) \<in> ?D}"
        using c(3) free [OF c(1)] indesc [OF c(1)] pend [of k xy] unfolding c(4) by (auto simp: due_def)
    next
      fix xy assume xy: "xy \<in> due h ?G s j' - {xy. (k, xy) \<in> ?D}"
      then have "xy \<in> due h G s j' - {xy. (k, xy) \<in> D}" by (auto simp: due_def free_of_def)
      then obtain c where c: "c \<in> lmem s k" "c \<notin> G" "xy = parents s c" using F by (auto simp: family_ok_def)
      have "c \<notin> desc Js s l" using xy free [OF c(1)] indesc [OF c(1)] pend [of k xy] unfolding c(3) by (auto simp: due_def)
      then show "xy \<in> parents s ` (lmem s k - ?G)" using c by auto
    qed
    moreover have "c \<in> ?G" if "c \<in> lmem s k" "\<not> free_of ?G (parents s c)" for c
      using F that free [OF that(1)] indesc [OF that(1)] by (auto simp: family_ok_def)
    ultimately show ?thesis using F by (simp add: family_ok_def)
  qed
  then have "families_ok h Js ?D ?G s" by (simp add: families_ok_def)
  moreover have "marks_ok h Js M ?G s"
  proof -
    have "mark_ok h M ?G s j' l'" if l': "j' \<in> Js" "l' \<in> lmem s j'" for j' l'
    proof (rule mark_ok_G)
      show o: "mark_ok h M G s j' l'" using inv_parts(7) [OF i] l' by (simp add: marks_ok_def)
      show "(l', a) \<in> M" if "mark s l' = BlockedBy a" "a \<in> ?G" "a \<notin> G" for a
        using o that desc_not_alpha [OF i, of a l] entry_alphas_alpha [of a s "joins s j'"] by (auto simp: mark_ok_def Let_def split: if_splits)
    qed simp
    then show ?thesis by (simp add: marks_ok_def)
  qed
  moreover have "bounds_ok ?D M ?G s"
    using inv_parts(8) [OF i] lmem_less [OF i j] desc_lmem lmem_less [OF i] by (auto simp: bounds_ok_def pending_left_def) blast
  ultimately show ?thesis using i by (simp add: net_inv_def)
qed

section \<open>Taking a match out\<close>

text \<open>The state after a match has been taken out of its memory; \<open>up\<close> tells whether it has also left the children of its left
  parent.\<close>

definition unlinked :: "bool \<Rightarrow> addr \<Rightarrow> addr \<Rightarrow> 'e rete \<Rightarrow> 'e rete \<Rightarrow> bool" where
  "unlinked up b k s s' \<longleftrightarrow> joins s' = joins s \<and> headers s' = headers s \<and> AlphaMemoryTable s' = AlphaMemoryTable s \<and>
     IncrementalResetInProgress s' = IncrementalResetInProgress s \<and> nextMatch s' = nextMatch s \<and> environment s' = environment s \<and>
     (\<exists>m. leftMemories s' = (leftMemories s)(k := Some m) \<and> memory_ok (\<lambda>p. pmHash (pms s p)) m \<and> set (mem_contents m) = lmem s k - {b}) \<and>
     (\<forall>p. same_core s s' p) \<and>
     (\<forall>p. p \<noteq> b \<longrightarrow> parents s' p = parents s p \<and> mark s' p = mark s p \<and>
        pmBlockList (pms s' p) = (if mark s b = BlockedBy p then remove1 b (pmBlockList (pms s p)) else pmBlockList (pms s p)) \<and>
        pmChildren (pms s' p) = (if pmRightParent (pms s b) = Some p \<or> up \<and> pmLeftParent (pms s b) = Some p
           then remove1 b (pmChildren (pms s p)) else pmChildren (pms s p)))"

lemma unlinked_fields:
  assumes "unlinked up b k s s'"
  shows "joins s' = joins s" "headers s' = headers s" "nextMatch s' = nextMatch s" "environment s' = environment s"
    "queue s' = queue s" "alphas s' = alphas s" "entry_alphas s' = entry_alphas s" "precedes s' = precedes s"
    "static_ok h Js s' = static_ok h Js s" "lmem s' i = (if i = k then lmem s k - {b} else lmem s i)"
    "same_core s s' p" "bnd s' p = bnd s p" "pmHash (pms s' p) = pmHash (pms s p)"
    "p \<noteq> b \<Longrightarrow> parents s' p = parents s p" "p \<noteq> b \<Longrightarrow> mark s' p = mark s p"
    "p \<noteq> b \<Longrightarrow> pmBlockList (pms s' p) = (if mark s b = BlockedBy p then remove1 b (pmBlockList (pms s p)) else pmBlockList (pms s p))"
    "p \<noteq> b \<Longrightarrow> pmChildren (pms s' p) = (if pmRightParent (pms s b) = Some p \<or> up \<and> pmLeftParent (pms s b) = Some p
       then remove1 b (pmChildren (pms s p)) else pmChildren (pms s p))"
    "p \<noteq> b \<Longrightarrow> pmLeftParent (pms s' p) = pmLeftParent (pms s p)" "p \<noteq> b \<Longrightarrow> pmRightParent (pms s' p) = pmRightParent (pms s p)"
proof -
  show f: "joins s' = joins s" "headers s' = headers s" "nextMatch s' = nextMatch s" "environment s' = environment s" "same_core s s' p"
    and par: "p \<noteq> b \<Longrightarrow> parents s' p = parents s p" and "p \<noteq> b \<Longrightarrow> mark s' p = mark s p"
    and "p \<noteq> b \<Longrightarrow> pmBlockList (pms s' p) = (if mark s b = BlockedBy p then remove1 b (pmBlockList (pms s p)) else pmBlockList (pms s p))"
    and "p \<noteq> b \<Longrightarrow> pmChildren (pms s' p) = (if pmRightParent (pms s b) = Some p \<or> up \<and> pmLeftParent (pms s b) = Some p
       then remove1 b (pmChildren (pms s p)) else pmChildren (pms s p))"
    using assms by (simp_all add: unlinked_def)
  show "p \<noteq> b \<Longrightarrow> pmLeftParent (pms s' p) = pmLeftParent (pms s p)" "p \<noteq> b \<Longrightarrow> pmRightParent (pms s' p) = pmRightParent (pms s p)"
    using par by (simp_all add: parents_def)
  show q: "queue s' = queue s" using assms by (intro queue_cong) (simp add: unlinked_def)
  show a: "alphas s' = alphas s" by (rule alphas_cong [OF q])
  show "entry_alphas s' = entry_alphas s" by (rule ext) (simp add: entry_alphas_def a split: entry.split)
  show "precedes s' = precedes s" by (intro ext) (simp add: precedes_def q)
  show "static_ok h Js s' = static_ok h Js s" using assms by (simp add: static_ok_def unlinked_def alpha_ok_def)
  show "bnd s' p = bnd s p" "pmHash (pms s' p) = pmHash (pms s p)" using f(5) by (simp_all add: same_core_def)
  obtain m where "leftMemories s' = (leftMemories s)(k := Some m)" "set (mem_contents m) = lmem s k - {b}" using assms by (auto simp: unlinked_def)
  then show "lmem s' i = (if i = k then lmem s k - {b} else lmem s i)" by (simp add: lmem_def)
qed

definition deletes :: "'e matcher \<Rightarrow> addr set \<Rightarrow> (addr \<times> pointer \<times> pointer) set \<Rightarrow> (addr \<times> addr) set \<Rightarrow> addr set \<Rightarrow> addr set \<Rightarrow>
    bool \<Rightarrow> addr \<Rightarrow> addr \<Rightarrow> 'e rete \<Rightarrow> 'e rete \<Rightarrow> bool" where
  "deletes h Js D M G Z up b k s s' \<longleftrightarrow> net_inv h Js D M G Z s \<and> unlinked up b k s s' \<and> k \<in> Js \<and> \<not> firstJoin (joins s k) \<and>
     b \<in> lmem s k \<and> b \<in> G \<and> left_kids Js s b = {} \<and> (up \<or> (\<forall>u. pmLeftParent (pms s b) = Some u \<longrightarrow> u \<in> Z))"

lemma deletes_lmem:
  assumes d: "deletes h Js D M G Z up b k s s'" and i: "i \<in> Js"
  shows "lmem s' i = lmem s i - {b}"
proof -
  have U: "unlinked up b k s s'" using d by (simp add: deletes_def)
  have "i = k" if "b \<in> lmem s i" using lmem_unique [of h Js D M G Z s k i b] d i that by (auto simp: deletes_def)
  then show ?thesis unfolding unlinked_fields(10) [OF U] by auto
qed

lemma deletes_memories:
  assumes d: "deletes h Js D M G Z up b k s s'"
  shows "memories_ok h Js s'"
proof -
  have I: "net_inv h Js D M G Z s" and U: "unlinked up b k s s'" and k: "k \<in> Js" "\<not> firstJoin (joins s k)" using d by (simp_all add: deletes_def)
  note f = unlinked_fields [OF U]
  have M: "left_memory_ok h s i" if "i \<in> Js" for i using inv_parts(2) [OF I] that by (simp add: memories_ok_def)
  obtain m where m: "leftMemories s' = (leftMemories s)(k := Some m)" "memory_ok (\<lambda>p. pmHash (pms s p)) m" using U by (auto simp: unlinked_def)
  have bl: "pmBlockList (pms s' p) = pmBlockList (pms s p)" if "i \<in> Js" "p \<in> lmem s i" "p \<noteq> b" for i p
    using lmem_match [OF I that(1,2)] f(16) [OF that(3)] by (simp add: left_match_ok_def)
  have "left_memory_ok h s' i" if i: "i \<in> Js" for i
  proof (cases "i = k")
    case False
    have "b \<notin> lmem s i" using deletes_lmem [OF d i] False f(10) [of i] by auto
    then have "p \<noteq> b" if "p \<in> lmem s i" for p using that by blast
    then show ?thesis
      using f m(1) False bl [OF i] by (intro left_memory_keep [OF M [OF i]]) auto
  next
    case True
    have "left_match_ok h s' k p" if "p \<in> lmem s' k" for p
    proof -
      have p: "p \<in> lmem s k" "p \<noteq> b" using that f(10) by auto
      then have "left_match_ok h s k p" using M [OF k(1)] by (auto simp: left_memory_ok_def)
      then show ?thesis using f p bl [OF k(1) p] by (intro left_match_keep [of h s k p s']) auto
    qed
    then show ?thesis using True m k(2) f by (simp add: left_memory_ok_def has_left_def)
  qed
  then show ?thesis by (simp add: memories_ok_def)
qed

lemma deletes_families:
  assumes d: "deletes h Js D M G Z up b k s s'"
  shows "families_ok h Js D G s'"
proof -
  have I: "net_inv h Js D M G Z s" and U: "unlinked up b k s s'" and b: "b \<in> G" "left_kids Js s b = {}" using d by (simp_all add: deletes_def)
  note f = unlinked_fields [OF U]
  have "family_ok h D G s' j' k'" if k': "k' \<in> Js" "lastLevel (joins s k') = Some j'" for k' j'
  proof -
    have F: "family_ok h D G s j' k'" by (rule lmem_family [OF I k'])
    have j': "j' \<in> Js" using net_depth(1) [OF I k'] .
    note lk = deletes_lmem [OF d k'(1)] and lj = deletes_lmem [OF d j']
    have sl: "xy \<in> slots s' j' \<longleftrightarrow> xy \<in> slots s j' \<and> fst xy \<noteq> Some b" for xy
      by (cases xy) (auto simp: slots_def Let_def f(1,7) lj)
    have w: "wanted h s' j' xy = wanted h s j' xy" if "xy \<in> slots s j'" "fst xy \<noteq> Some b" for xy
      by (rule wanted_keep [OF f(1) that(1) f(12) f(12)]) (use f(15) that(2) in auto)
    have cb: "child_binds s' j' xy = child_binds s j' xy" for xy unfolding child_binds_def f(1,12) by (rule refl)
    have due: "due h G s' j' = due h G s j'"
      using sl w b(1) by (auto simp: due_def free_of_def)
    have nb: "fst (parents s c) \<noteq> Some b" if "c \<in> lmem s k'" for c
      using b(2) that k'(1) by (auto simp: left_kids_def parents_def)
    have par: "parents s' c = parents s c" if "c \<in> lmem s k' - {b}" for c using f(14) that by blast
    have "parents s' ` (lmem s k' - {b} - G) = parents s ` (lmem s k' - {b} - G)" using par by (intro image_cong) auto
    moreover have "lmem s k' - {b} - G = lmem s k' - G" using b(1) by auto
    moreover have "inj_on (parents s') (lmem s k' - {b})"
      using F par inj_on_cong [of "lmem s k' - {b}" "parents s'" "parents s"] by (auto simp: family_ok_def intro: inj_on_subset)
    ultimately show ?thesis
      using F nb par sl unfolding family_ok_def lk due cb f(12) by auto
  qed
  then show ?thesis by (simp add: families_ok_def f(1))
qed

lemma deletes_kids:
  assumes d: "deletes h Js D M G Z up b k s s'"
  shows "left_kids Js s' l = left_kids Js s l - {b}" "right_kids Js s' a = right_kids Js s a - {b}"
    "blocked_by Js s' a = blocked_by Js s a - {b}"
proof -
  have U: "unlinked up b k s s'" using d by (simp add: deletes_def)
  note f = unlinked_fields [OF U]
  have lm: "c \<in> lmem s' i \<longleftrightarrow> c \<in> lmem s i \<and> c \<noteq> b" if "i \<in> Js" for i c using deletes_lmem [OF d that] by auto
  show "left_kids Js s' l = left_kids Js s l - {b}" using f(18) lm unfolding left_kids_def by auto
  show "right_kids Js s' a = right_kids Js s a - {b}" using f(19) lm unfolding right_kids_def by auto
  show "blocked_by Js s' a = blocked_by Js s a - {b}" using f(15) lm unfolding blocked_by_def by auto
qed

lemma deletes_children:
  assumes d: "deletes h Js D M G Z up b k s s'"
  shows "children_ok Js Z s'" "blocks_ok Js s'"
proof -
  have I: "net_inv h Js D M G Z s" and U: "unlinked up b k s s'" and k: "k \<in> Js" "b \<in> lmem s k"
    and z: "up \<or> (\<forall>u. pmLeftParent (pms s b) = Some u \<longrightarrow> u \<in> Z)" using d by (simp_all add: deletes_def)
  note f = unlinked_fields [OF U] and K = deletes_kids [OF d]
  have C: "children_ok Js Z s" by (rule inv_parts(5) [OF I])
  have ba: "a \<noteq> b" if "a \<in> alphas s p" for a p using lmem_not_alpha [OF I k] that by blast
  have "distinct (pmChildren (pms s' l)) \<and> set (pmChildren (pms s' l)) = left_kids Js s' l" if l: "i \<in> Js" "l \<in> lmem s' i" "l \<notin> Z" for i l
  proof -
    have l': "l \<in> lmem s i" "l \<noteq> b" using l deletes_lmem [OF d l(1)] by auto
    have c: "distinct (pmChildren (pms s l))" "set (pmChildren (pms s l)) = left_kids Js s l" using C l l' by (auto simp: children_ok_def)
    have "pmRightParent (pms s b) \<noteq> Some l" using lmem_right_parent [OF I k] lmem_not_alpha [OF I l(1) l'(1)] by blast
    moreover have "b \<in> left_kids Js s l \<longleftrightarrow> pmLeftParent (pms s b) = Some l" using k by (auto simp: left_kids_def)
    moreover have "pmLeftParent (pms s b) = Some l \<Longrightarrow> up" using z l(3) by blast
    ultimately show ?thesis using c l'(2) unfolding K f(17) [OF l'(2)] by (auto simp: set_remove1_eq)
  qed
  moreover have "distinct (pmChildren (pms s' a)) \<and> set (pmChildren (pms s' a)) = right_kids Js s' a" if a: "a \<in> alphas s p" for a p
  proof -
    have c: "distinct (pmChildren (pms s a))" "set (pmChildren (pms s a)) = right_kids Js s a" using C a by (auto simp: children_ok_def)
    have "pmLeftParent (pms s b) \<noteq> Some a"
      using lmem_parent [OF I k] net_depth(1) [OF I k(1)] lmem_not_alpha [OF I] a by blast
    moreover have "b \<in> right_kids Js s a \<longleftrightarrow> pmRightParent (pms s b) = Some a" using k by (auto simp: right_kids_def)
    ultimately show ?thesis using c unfolding K f(17) [OF ba [OF a]] by (auto simp: set_remove1_eq)
  qed
  ultimately show "children_ok Js Z s'" by (simp add: children_ok_def f(6))
  have "distinct (pmBlockList (pms s' a)) \<and> set (pmBlockList (pms s' a)) = blocked_by Js s' a" if a: "a \<in> alphas s p" for a p
  proof -
    have c: "distinct (pmBlockList (pms s a))" "set (pmBlockList (pms s a)) = blocked_by Js s a"
      using inv_parts(6) [OF I] a by (auto simp: blocks_ok_def)
    have "b \<in> blocked_by Js s a \<longleftrightarrow> mark s b = BlockedBy a" using k by (auto simp: blocked_by_def)
    then show ?thesis using c unfolding K f(16) [OF ba [OF a]] by (auto simp: set_remove1_eq)
  qed
  then show "blocks_ok Js s'" by (simp add: blocks_ok_def f(6))
qed

theorem deletes_inv:
  assumes d: "deletes h Js D M G Z up b k s s'"
  shows "net_inv h Js D M G Z s'"
proof -
  have I: "net_inv h Js D M G Z s" and U: "unlinked up b k s s'" using d by (simp_all add: deletes_def)
  note f = unlinked_fields [OF U]
  have "queues_ok h s'" by (rule queues_keep [OF inv_parts(3) [OF I] f(5,2)]) (simp_all add: f)
  moreover have "mark_ok h M G s' i l" if l: "i \<in> Js" "l \<in> lmem s' i" for i l
  proof -
    have l': "l \<in> lmem s i" "l \<noteq> b" using l deletes_lmem [OF d l(1)] by auto
    have "mark_ok h M G s i l" using inv_parts(7) [OF I] l(1) l'(1) by (simp add: marks_ok_def)
    then show ?thesis by (rule mark_ok_keep [OF _ f(1,7,8) f(15) [OF l'(2)] f(12)]) (simp_all add: f(12))
  qed
  moreover have "bounds_ok D M G s'" using inv_parts(8) [OF I] by (simp add: bounds_ok_def f(3))
  ultimately show ?thesis
    using inv_parts(1) [OF I] deletes_memories [OF d] deletes_families [OF d] deletes_children [OF d]
    by (simp add: net_inv_def f(9) marks_ok_def)
qed

section \<open>The unlinking operations\<close>

lemma drop_child_fields [simp]:
  "joins (drop_child q p s) = joins s" "headers (drop_child q p s) = headers s" "AlphaMemoryTable (drop_child q p s) = AlphaMemoryTable s"
  "leftMemories (drop_child q p s) = leftMemories s" "nextMatch (drop_child q p s) = nextMatch s"
  "IncrementalResetInProgress (drop_child q p s) = IncrementalResetInProgress s" "environment (drop_child q p s) = environment s"
  "BetaMemoryResizingFlag (drop_child q p s) = BetaMemoryResizingFlag s"
  "pms (drop_child q p s) x = (if q = Some x then (pms s x)\<lparr>pmChildren := remove1 p (pmChildren (pms s x))\<rparr> else pms s x)"
  by (simp_all add: drop_child_def upd_pm_def split: option.split)

lemma unlink_blocked_fields [simp]:
  "joins (unlink_blocked p s) = joins s" "headers (unlink_blocked p s) = headers s" "AlphaMemoryTable (unlink_blocked p s) = AlphaMemoryTable s"
  "leftMemories (unlink_blocked p s) = leftMemories s" "nextMatch (unlink_blocked p s) = nextMatch s"
  "IncrementalResetInProgress (unlink_blocked p s) = IncrementalResetInProgress s" "environment (unlink_blocked p s) = environment s"
  "BetaMemoryResizingFlag (unlink_blocked p s) = BetaMemoryResizingFlag s"
  "pms (unlink_blocked p s) x = (if mark s p = BlockedBy x then (pms s x)\<lparr>pmBlockList := remove1 p (pmBlockList (pms s x))\<rparr> else pms s x)"
  by (simp_all add: unlink_blocked_def upd_pm_def split: marking.split)

lemma unlink_from_memory_fields:
  "joins (unlink_from_memory LHS k b s) = joins s" "headers (unlink_from_memory LHS k b s) = headers s"
  "AlphaMemoryTable (unlink_from_memory LHS k b s) = AlphaMemoryTable s" "nextMatch (unlink_from_memory LHS k b s) = nextMatch s"
  "IncrementalResetInProgress (unlink_from_memory LHS k b s) = IncrementalResetInProgress s"
  "environment (unlink_from_memory LHS k b s) = environment s" "pms (unlink_from_memory LHS k b s) = pms s"
  "leftMemories (unlink_from_memory LHS k b s) =
     (leftMemories s)(k := Some (memory_remove b (pmHash (pms s b)) (the (leftMemories s k))))"
  by (simp_all add: unlink_from_memory_def count_delete_def memory_of_def)

lemma reset_if_empty_fields:
  assumes "leftMemories s k = Some m" "memory_ok hv m"
  shows "joins (reset_if_empty LHS k s) = joins s" "headers (reset_if_empty LHS k s) = headers s"
    "AlphaMemoryTable (reset_if_empty LHS k s) = AlphaMemoryTable s" "nextMatch (reset_if_empty LHS k s) = nextMatch s"
    "IncrementalResetInProgress (reset_if_empty LHS k s) = IncrementalResetInProgress s"
    "environment (reset_if_empty LHS k s) = environment s" "pms (reset_if_empty LHS k s) = pms s"
    "\<exists>m'. leftMemories (reset_if_empty LHS k s) = (leftMemories s)(k := Some m') \<and> memory_ok hv m' \<and> set (mem_contents m') = set (mem_contents m)"
proof -
  have m: "memory_of LHS k s = m" using assms(1) by (simp add: memory_of_def)
  show "joins (reset_if_empty LHS k s) = joins s" "headers (reset_if_empty LHS k s) = headers s"
    "AlphaMemoryTable (reset_if_empty LHS k s) = AlphaMemoryTable s" "nextMatch (reset_if_empty LHS k s) = nextMatch s"
    "IncrementalResetInProgress (reset_if_empty LHS k s) = IncrementalResetInProgress s"
    "environment (reset_if_empty LHS k s) = environment s" "pms (reset_if_empty LHS k s) = pms s"
    by (simp_all add: reset_if_empty_def m)
  show "\<exists>m'. leftMemories (reset_if_empty LHS k s) = (leftMemories s)(k := Some m') \<and> memory_ok hv m' \<and> set (mem_contents m') = set (mem_contents m)"
  proof (cases "BetaMemoryResizingFlag s \<and> mem_count m = 0 \<and> mem_size m > 1")
    case True
    then show ?thesis using ResetBetaMemory_ok [OF assms(2)] by (auto simp: reset_if_empty_def m)
  next
    case False
    then have "reset_if_empty LHS k s = s" by (auto simp: reset_if_empty_def m Let_def)
    moreover have "(leftMemories s)(k := Some m) = leftMemories s" using assms(1) by (simp add: fun_upd_idem)
    ultimately show ?thesis using assms(2) by metis
  qed
qed

text \<open>The memory part is common to both operations.\<close>

lemma unlinkedI:
  assumes m: "leftMemories s k = Some m" "memory_ok (\<lambda>p. pmHash (pms s p)) m" "b \<in> lmem s k"
    and t: "joins t = joins s" "headers t = headers s" "AlphaMemoryTable t = AlphaMemoryTable s" "nextMatch t = nextMatch s"
      "IncrementalResetInProgress t = IncrementalResetInProgress s" "environment t = environment s"
      "leftMemories t = leftMemories (unlink_from_memory LHS k b s)"
    and core: "\<And>p. same_core s t p"
    and rest: "\<And>p. p \<noteq> b \<Longrightarrow> parents t p = parents s p \<and> mark t p = mark s p \<and>
        pmBlockList (pms t p) = (if mark s b = BlockedBy p then remove1 b (pmBlockList (pms s p)) else pmBlockList (pms s p)) \<and>
        pmChildren (pms t p) = (if pmRightParent (pms s b) = Some p \<or> up \<and> pmLeftParent (pms s b) = Some p
           then remove1 b (pmChildren (pms s p)) else pmChildren (pms s p))"
  shows "unlinked up b k s (reset_if_empty LHS k t)"
proof -
  let ?h = "\<lambda>p. pmHash (pms s p)"
  define m1 where "m1 = memory_remove b (?h b) m"
  have b: "b \<in> set (mem_contents m)" using m(1,3) by (simp add: lmem_def)
  have m1: "memory_ok ?h m1" "set (mem_contents m1) = lmem s k - {b}"
    using memory_remove_ok [OF m(2) b] m(1) by (simp_all add: m1_def lmem_def)
  have t1: "leftMemories t = (leftMemories s)(k := Some m1)" using t(7) m(1) by (simp add: unlink_from_memory_fields m1_def)
  then have "leftMemories t k = Some m1" by simp
  note r = reset_if_empty_fields [OF this m1(1)]
  obtain m' where m': "leftMemories (reset_if_empty LHS k t) = (leftMemories s)(k := Some m')" "memory_ok ?h m'" "set (mem_contents m') = lmem s k - {b}"
    using r(8) t1 m1(2) by auto
  show ?thesis
    unfolding unlinked_def r(1-7) t(1-6)
    using m' core rest by (auto simp: same_core_def parents_def r(7))
qed

lemma UnlinkNonLeftLineage_unlinked:
  assumes m: "leftMemories s k = Some m" "memory_ok (\<lambda>p. pmHash (pms s p)) m" "b \<in> lmem s k"
  shows "unlinked False b k s (UnlinkNonLeftLineage k b LHS s)"
  unfolding UnlinkNonLeftLineage_def Let_def
  by (rule unlinkedI [OF m]) (auto simp: unlink_from_memory_fields same_core_def parents_def)

lemma UnlinkBetaPMFromNodeAndLineage_unlinked:
  assumes m: "leftMemories s k = Some m" "memory_ok (\<lambda>p. pmHash (pms s p)) m" "b \<in> lmem s k"
    and c: "pmChildren (pms s b) = []" "pmRightParent (pms s b) = None \<or> pmLeftParent (pms s b) \<noteq> pmRightParent (pms s b)"
      "pmRightParent (pms s b) \<noteq> Some b"
  shows "unlinked True b k s (UnlinkBetaPMFromNodeAndLineage k b LHS s)"
  unfolding UnlinkBetaPMFromNodeAndLineage_def UnlinkBetaPartialMatchfromAlphaAndBetaLineage_def Let_def
  by (rule unlinkedI [OF m]) (use c in \<open>auto simp: unlink_from_memory_fields same_core_def parents_def\<close>)

end
