(* ===== verification/Join_Drive.thy ===== *)
theory Join_Drive
  imports Join_Unlinks
begin

text \<open>
  Driving a match down: a match that enters a join from the left, with everything below it pending, is compared with the right
  memory of the join and driven on, and nothing below it is pending any more.
\<close>

section \<open>Quiet operations\<close>

text \<open>Tests and counters leave what the invariant reads, and the environment, alone.\<close>

definition silent :: "'e rete \<Rightarrow> 'e rete \<Rightarrow> bool" where
  "silent s t \<longleftrightarrow> view t = view s \<and> environment t = environment s"

lemma silent_refl [simp]: "silent s s"
  by (simp add: silent_def)

lemma silent_trans: "silent s t \<Longrightarrow> silent t u \<Longrightarrow> silent s u"
  by (simp add: silent_def)

lemma silent_inv: "silent s t \<Longrightarrow> net_inv h Js D M G Z t = net_inv h Js D M G Z s"
  using view_inv by (metis silent_def)

lemma compare_count_silent [simp]: "silent s (compare_count j s)"
  by (simp add: silent_def view_def compare_count_def)

lemma compare_count_fields [simp]: "joins (compare_count j s) = joins s" "pms (compare_count j s) = pms s"
  by (simp_all add: compare_count_def)

lemma join_eval_silent: "silent s (snd (join_eval h j ts l r s))" "fst (join_eval h j ts l r s) = EvaluateJoinExpression h ts l r"
  by (auto simp: join_eval_def silent_def view_def split: prod.split)

lemma pair_test_value: "fst (pair_test h j l r s) = pair_ok h (joins s j) (bnd s l) (bnd s r)" "silent s (snd (pair_test h j l r s))"
  by (auto simp: pair_test_def pair_ok_def Let_def case_prod_unfold join_eval_silent)

lemma secondary_value:
  "fst (EvaluateSecondaryNetworkTest h l j s) = sec_ok h (joins s j) (bnd s l)" "silent s (snd (EvaluateSecondaryNetworkTest h l j s))"
  by (simp_all add: EvaluateSecondaryNetworkTest_def sec_ok_def Let_def case_prod_unfold join_eval_silent)

lemma secondary_test_value:
  "fst (secondary_test h j l r s) = fst (EvaluateJoinExpression h (secondaryNetworkTest (joins s j)) (Some (bnd s l)) (Some (bnd s r)))"
  "silent s (snd (secondary_test h j l r s))"
  by (simp_all add: secondary_test_def Let_def case_prod_unfold join_eval_silent)

lemma first_test_value:
  "fst (first_test h j r ts s) = (ts = [] \<or> fst (EvaluateJoinExpression h ts None (Some (bnd s r))))" "silent s (snd (first_test h j r ts s))"
  by (simp_all add: first_test_def Let_def case_prod_unfold join_eval_silent)

lemma silent_fields:
  assumes "silent s t"
  shows "joins t = joins s" "headers t = headers s" "AlphaMemoryTable t = AlphaMemoryTable s" "leftMemories t = leftMemories s" "pms t = pms s" "nextMatch t = nextMatch s"
    "queue t = queue s" "lmem t = lmem s" "environment t = environment s" "alphas t = alphas s" "entry_alphas t = entry_alphas s"
    "due h G t = due h G s" "precedes t = precedes s"
proof -
  have v: "view t = view s" and "environment t = environment s" using assms by (simp_all add: silent_def)
  note f = view_fields [OF v]
  show f': "joins t = joins s" "headers t = headers s" "AlphaMemoryTable t = AlphaMemoryTable s" "leftMemories t = leftMemories s" "pms t = pms s" "nextMatch t = nextMatch s"
    "queue t = queue s" "environment t = environment s" by fact+
  show l: "lmem t = lmem s" by (rule lmem_cong [OF f(5)])
  show a: "alphas t = alphas s" by (rule alphas_cong [OF f(8)])
  show e: "entry_alphas t = entry_alphas s" by (rule ext) (simp add: entry_alphas_def a split: entry.split)
  have sl: "slots t = slots s" by (intro ext) (unfold slots_def f'(1) l e, rule refl)
  have w: "wanted h t = wanted h s" by (intro ext) (unfold wanted_def f'(1,5), rule refl)
  show "due h G t = due h G s" by (intro ext) (unfold due_def sl w, rule refl)
  show "precedes t = precedes s" by (intro ext) (unfold precedes_def f'(7), rule refl)
qed

section \<open>What a step leaves alone\<close>

text \<open>Outside the joins below \<open>j\<close> the memories stay, and so do the markers and children of the matches outside \<open>X\<close>. A match of a memory is
  new, or it was there before and has its parents.\<close>

definition frame :: "'e matcher \<Rightarrow> addr set \<Rightarrow> addr \<Rightarrow> addr set \<Rightarrow> 'e rete \<Rightarrow> 'e rete \<Rightarrow> bool" where
  "frame h Js j X s t \<longleftrightarrow> joins t = joins s \<and> headers t = headers s \<and> AlphaMemoryTable t = AlphaMemoryTable s \<and> nextMatch s \<le> nextMatch t \<and>
     (\<forall>p < nextMatch s. same_core s t p) \<and>
     (\<forall>i \<in> Js. \<not> below (joins s) j i \<longrightarrow> lmem t i = lmem s i \<and>
        (\<forall>l \<in> lmem s i. l \<notin> X \<longrightarrow> mark t l = mark s l \<and> pmChildren (pms t l) = pmChildren (pms s l))) \<and>
     (\<forall>i \<in> Js. \<forall>c \<in> lmem t i. nextMatch s \<le> c \<or> c \<in> lmem s i \<and> parents t c = parents s c) \<and>
     (\<forall>f. isDeleted h f (environment t) = isDeleted h f (environment s))"

lemma frame_fields:
  assumes "frame h Js j X s t"
  shows "joins t = joins s" "headers t = headers s" "nextMatch s \<le> nextMatch t" "p < nextMatch s \<Longrightarrow> same_core s t p"
    "p < nextMatch s \<Longrightarrow> bnd t p = bnd s p" "p < nextMatch s \<Longrightarrow> pmHash (pms t p) = pmHash (pms s p)"
    "i \<in> Js \<Longrightarrow> \<not> below (joins s) j i \<Longrightarrow> lmem t i = lmem s i"
    "i \<in> Js \<Longrightarrow> \<not> below (joins s) j i \<Longrightarrow> l \<in> lmem s i \<Longrightarrow> l \<notin> X \<Longrightarrow> mark t l = mark s l \<and> pmChildren (pms t l) = pmChildren (pms s l)"
    "isDeleted h f (environment t) = isDeleted h f (environment s)" "queue t = queue s" "alphas t = alphas s" "entry_alphas t = entry_alphas s"
    "precedes t = precedes s"
    "i \<in> Js \<Longrightarrow> c \<in> lmem t i \<Longrightarrow> nextMatch s \<le> c \<or> c \<in> lmem s i \<and> parents t c = parents s c"
proof -
  show "joins t = joins s" "headers t = headers s" "nextMatch s \<le> nextMatch t" "p < nextMatch s \<Longrightarrow> same_core s t p"
    "i \<in> Js \<Longrightarrow> c \<in> lmem t i \<Longrightarrow> nextMatch s \<le> c \<or> c \<in> lmem s i \<and> parents t c = parents s c"
    "i \<in> Js \<Longrightarrow> \<not> below (joins s) j i \<Longrightarrow> lmem t i = lmem s i"
    "i \<in> Js \<Longrightarrow> \<not> below (joins s) j i \<Longrightarrow> l \<in> lmem s i \<Longrightarrow> l \<notin> X \<Longrightarrow> mark t l = mark s l \<and> pmChildren (pms t l) = pmChildren (pms s l)"
    "isDeleted h f (environment t) = isDeleted h f (environment s)"
    using assms by (simp_all add: frame_def)
  then show "p < nextMatch s \<Longrightarrow> bnd t p = bnd s p" "p < nextMatch s \<Longrightarrow> pmHash (pms t p) = pmHash (pms s p)" by (simp_all add: same_core_def)
  show q: "queue t = queue s" using assms by (intro queue_cong) (simp add: frame_def)
  show a: "alphas t = alphas s" by (rule alphas_cong [OF q])
  show "entry_alphas t = entry_alphas s" by (rule ext) (simp add: entry_alphas_def a split: entry.split)
  show "precedes t = precedes s" by (intro ext) (simp add: precedes_def q)
qed

lemma frame_refl: "frame h Js j X s s"
  by (simp add: frame_def same_core_def)

lemma frame_trans:
  assumes "frame h Js j X s t" "frame h Js j X t u"
  shows "frame h Js j X s u"
proof -
  note s = frame_fields [OF assms(1)] and t = frame_fields [OF assms(2)]
  have "same_core s u p" if "p < nextMatch s" for p using s(4) [OF that] t(4) [of p] that s(3) by (auto simp: same_core_def)
  moreover have "lmem u i = lmem s i \<and> (\<forall>l \<in> lmem s i. l \<notin> X \<longrightarrow> mark u l = mark s l \<and> pmChildren (pms u l) = pmChildren (pms s l))"
    if "i \<in> Js" "\<not> below (joins s) j i" for i using s(7,8) [OF that] t(7,8) [of i] that s(1) by simp
  moreover have "nextMatch s \<le> c \<or> c \<in> lmem s i \<and> parents u c = parents s c" if "i \<in> Js" "c \<in> lmem u i" for i c
    using s(14) [OF that(1), of c] t(14) [OF that] s(3) by auto
  ultimately show ?thesis using assms s(1,3) t(3) unfolding frame_def by auto
qed

lemma frame_silent: "frame h Js j X s t \<Longrightarrow> silent t u \<Longrightarrow> frame h Js j X s u"
  using silent_fields [of t u] unfolding frame_def same_core_def parents_def by simp

lemma silent_frame: "silent s t \<Longrightarrow> frame h Js j X s t"
  by (rule frame_silent [OF frame_refl])

lemma frame_X: "frame h Js j X s t \<Longrightarrow> X \<subseteq> Y \<Longrightarrow> frame h Js j Y s t"
  unfolding frame_def by blast

lemma below_trans: "below N j k \<Longrightarrow> below N k i \<Longrightarrow> below N j i"
  by (rotate_tac, induction rule: below.induct) (auto intro: below.intros)

lemma below_depth: "below N j k \<Longrightarrow> net_ok h Js N H \<Longrightarrow> k \<in> Js \<Longrightarrow> j \<in> Js \<and> depth (N j) < depth (N k)"
proof (induction rule: below.induct)
  case (link N k j)
  then show ?case using net_links(2) by metis
next
  case (deep N j i k)
  then show ?case using net_links(2) by (metis order.strict_trans)
qed

text \<open>What happens below a child is below the parent.\<close>

lemma frame_below:
  assumes "frame h Js k X s t" "lastLevel (joins s k) = Some j" "k \<in> Js" "net_inv h Js D M G Z s" "X \<subseteq> lmem s k"
  shows "frame h Js j Y s t"
proof -
  note s = frame_fields [OF assms(1)]
  have jk: "below (joins s) j k" using assms(2) by (rule below.link)
  have "lmem t i = lmem s i \<and> (\<forall>l \<in> lmem s i. l \<notin> Y \<longrightarrow> mark t l = mark s l \<and> pmChildren (pms t l) = pmChildren (pms s l))"
    if i: "i \<in> Js" "\<not> below (joins s) j i" for i
  proof -
    have "\<not> below (joins s) k i" "i \<noteq> k" using i(2) jk below_trans by blast+
    moreover have "l \<notin> X" if "l \<in> lmem s i" for l using assms(5) lmem_unique [OF assms(4,3) i(1)] that \<open>i \<noteq> k\<close> by blast
    ultimately show ?thesis using s(7,8) [OF i(1)] by blast
  qed
  then show ?thesis using assms(1) unfolding frame_def by auto
qed

section \<open>Matches that are passed over\<close>

text \<open>During a retraction the matches of the retracted fact are to be given up, and they are passed over; during an assertion no match is.\<close>

definition deleted_binds :: "'e matcher \<Rightarrow> 'e rete \<Rightarrow> bindings \<Rightarrow> bool" where
  "deleted_binds h s bs \<longleftrightarrow> list_ex (\<lambda>b. case b of None \<Rightarrow> False | Some am \<Rightarrow> isDeleted h (matchingItem am) (environment s)) bs"

lemma PartialMatchWillBeDeleted_binds: "PartialMatchWillBeDeleted h p s = deleted_binds h s (bnd s p)"
  by (simp add: PartialMatchWillBeDeleted_def deleted_binds_def)

lemma deleted_binds_simps [simp]:
  "deleted_binds h s (bs @ cs) \<longleftrightarrow> deleted_binds h s bs \<or> deleted_binds h s cs" "\<not> deleted_binds h s [None]" "\<not> deleted_binds h s []"
  by (simp_all add: deleted_binds_def)

lemma deleted_binds_cong: "(\<And>f. isDeleted h f (environment t) = isDeleted h f (environment s)) \<Longrightarrow> deleted_binds h t bs = deleted_binds h s bs"
  unfolding deleted_binds_def by (induction bs) (auto split: option.split)

definition skips :: "'e matcher \<Rightarrow> addr set \<Rightarrow> operation \<Rightarrow> addr set \<Rightarrow> 'e rete \<Rightarrow> bool" where
  "skips h Js opn G s \<longleftrightarrow> (\<forall>a. (\<exists>p. a \<in> alphas s p) \<or> (\<exists>j \<in> Js. a \<in> lmem s j) \<longrightarrow>
     (opn = NETWORK_RETRACT \<and> PartialMatchWillBeDeleted h a s \<longleftrightarrow> a \<in> G))"

lemma skips_silent: "skips h Js opn G s \<Longrightarrow> silent s t \<Longrightarrow> skips h Js opn G t"
  using silent_fields [of s t] by (auto simp: skips_def PartialMatchWillBeDeleted_def)

lemma child_binds_deleted:
  assumes i: "net_inv h Js D M G Z s" and j: "j \<in> Js" and sl: "(x, y) \<in> slots s j"
  shows "deleted_binds h s (child_binds s j (x, y)) \<longleftrightarrow>
    (\<exists>l. x = Some l \<and> deleted_binds h s (bnd s l)) \<or> (\<exists>a. y = Some a \<and> deleted_binds h s (bnd s a))"
proof -
  have hd: "[hd (bnd s a)] = bnd s a" if "y = Some a" for a
    using slots_bound(2) [OF i j sl that] entry_alphas_alpha alphas_match(4) [OF i] by fastforce
  have f: "\<not> deleted_binds h s (bnd s l)" if "x = Some l" "firstJoin (joins s j)" for l
    using lmem_match [OF i j] slots_bound(1) [OF i j sl that(1)] that(2) by (auto simp: left_match_ok_def)
  show ?thesis
    using hd f by (cases x; cases y) (auto simp: child_binds_def)
qed

lemma skips_new:
  assumes a: "adds h Js D M G Z x y j k s t" and sk: "skips h Js opn G s"
  shows "skips h Js opn G t"
proof -
  note A = addsD [OF a] note L = A(6)
  have e: "deleted_binds h t = deleted_binds h s" by (rule ext) (rule deleted_binds_cong, simp add: linked_pms(5) [OF L])
  have sl: "(x, y) \<in> slots s j" and fr: "free_of G (x, y)" using A(4) by (auto simp: due_def)
  have x: "(opn = NETWORK_RETRACT \<and> deleted_binds h s (bnd s l)) = False" if "x = Some l" for l
    using sk slots_bound(1) [OF A(1,7) sl that] fr that A(7) by (auto simp: skips_def PartialMatchWillBeDeleted_binds free_of_def)
  have y: "(opn = NETWORK_RETRACT \<and> deleted_binds h s (bnd s b)) = False" if "y = Some b" for b
    using sk slots_bound(2) [OF A(1,7) sl that] entry_alphas_alpha fr that by (auto simp: skips_def PartialMatchWillBeDeleted_binds free_of_def) blast
  have new: "\<not> (opn = NETWORK_RETRACT \<and> deleted_binds h s (child_binds s j (x, y)))"
    unfolding child_binds_deleted [OF A(1,7) sl] using x y by blast
  have "opn = NETWORK_RETRACT \<and> PartialMatchWillBeDeleted h p t \<longleftrightarrow> p \<in> G"
    if p: "(\<exists>q. p \<in> alphas t q) \<or> (\<exists>i \<in> Js. p \<in> lmem t i)" for p
  proof (cases "p = nextMatch s")
    case True
    then show ?thesis using new A(13) linked_new(3) [OF L] by (simp add: PartialMatchWillBeDeleted_binds e)
  next
    case False
    have "(\<exists>q. p \<in> alphas s q) \<or> (\<exists>i \<in> Js. p \<in> lmem s i)"
      using p False by (auto simp: linked_queue(2) [OF L] linked_lmem [OF L] split: if_splits)
    then show ?thesis using sk unfolding skips_def PartialMatchWillBeDeleted_binds e linked_old(1) [OF L False] by blast
  qed
  then show ?thesis by (simp add: skips_def)
qed

text \<open>A match to be given up has a parent that is.\<close>

lemma skips_tight:
  assumes i: "net_inv h Js D M G Z s" and sk: "skips h Js opn G s" and k: "k \<in> Js" "lastLevel (joins s k) = Some j" "c \<in> lmem s k" "c \<in> G"
  shows "\<not> free_of G (parents s c)"
proof -
  have j: "j \<in> Js" using net_depth(1) [OF i k(1,2)] .
  obtain x y where xy: "parents s c = (x, y)" by fastforce
  have F: "(x, y) \<in> slots s j" "bnd s c = child_binds s j (x, y)" using lmem_family [OF i k(1,2)] k(3) xy by (auto simp: family_ok_def)
  have op: "opn = NETWORK_RETRACT" "deleted_binds h s (bnd s c)"
    using sk k by (auto simp: skips_def PartialMatchWillBeDeleted_binds)
  then consider l where "x = Some l" "deleted_binds h s (bnd s l)" | a where "y = Some a" "deleted_binds h s (bnd s a)"
    using child_binds_deleted [OF i j F(1)] F(2) by auto
  then show ?thesis
  proof cases
    case 1
    then have "l \<in> G" using sk op(1) slots_bound(1) [OF i j F(1)] j by (auto simp: skips_def PartialMatchWillBeDeleted_binds)
    then show ?thesis using 1 xy by (auto simp: free_of_def)
  next
    case 2
    then have "a \<in> G" using sk op(1) slots_bound(2) [OF i j F(1)] entry_alphas_alpha by (auto simp: skips_def PartialMatchWillBeDeleted_binds) blast
    then show ?thesis using 2 xy by (auto simp: free_of_def)
  qed
qed

lemma pending_not_there:
  assumes i: "net_inv h Js D M G Z s" and sk: "skips h Js opn G s" and k: "k \<in> Js" "lastLevel (joins s k) = Some j"
    and "xy \<in> due h G s j" "(k, xy) \<in> D"
  shows "xy \<notin> parents s ` lmem s k"
proof
  assume "xy \<in> parents s ` lmem s k"
  then obtain c where c: "c \<in> lmem s k" "xy = parents s c" by blast
  have "c \<in> G" using lmem_family [OF i k] c assms(6) by (auto simp: family_ok_def)
  then show False using skips_tight [OF i sk k c(1)] c(2) assms(5) by (simp add: due_def)
qed

section \<open>Driving pairs to the joins below\<close>

text \<open>What is shown of an assertion from the left.\<close>

definition left_spec :: "'e matcher \<Rightarrow> addr set \<Rightarrow> operation \<Rightarrow> (addr \<Rightarrow> joinNode) \<Rightarrow> addr \<Rightarrow> bool" where
  "left_spec h Js opn N k \<longleftrightarrow> (\<forall>D M G s c. joins s = N \<longrightarrow> net_inv h Js D M G {} s \<longrightarrow> skips h Js opn G s \<longrightarrow> c \<in> lmem s k \<longrightarrow> c \<notin> G \<longrightarrow>
     pending_left c \<subseteq> D \<longrightarrow> pending_marks c \<subseteq> M \<longrightarrow> mark s c = Unmarked \<longrightarrow>
     reaches h opn (\<lambda>rec. rec (NetworkAssertLeft c k) s) (\<lambda>t. net_inv h Js (D - pending_left c) (M - pending_marks c) G {} t \<and>
       skips h Js opn G t \<and> frame h Js k {c} s t))"

lemma due_frame:
  assumes i: "net_inv h Js D M G Z s" and fr: "frame h Js j X s t" and j: "j \<in> Js"
    and m: "\<And>l. x = Some l \<Longrightarrow> mark t l = mark s l" and d: "(x, y) \<in> due h G s j"
  shows "(x, y) \<in> due h G t j" "child_binds t j (x, y) = child_binds s j (x, y)"
proof -
  note f = frame_fields [OF fr]
  have sl: "(x, y) \<in> slots s j" using d by (simp add: due_def)
  have nb: "\<not> below (joins s) j j" using below_depth [OF _ inv_net [OF i] j] by blast
  have slots: "slots t j = slots s j" unfolding slots_def f(1,12) f(7) [OF j nb] by (rule refl)
  have b: "bnd t l = bnd s l" if "x = Some l" for l using slots_bound(1) [OF i j sl that] f(5) by blast
  have b': "bnd t a = bnd s a" if "y = Some a" for a using slots_bound(2) [OF i j sl that] f(5) by blast
  have "wanted h t j (x, y) = wanted h s j (x, y)" by (rule wanted_keep(1) [OF f(1) sl]) (use m b b' in auto)
  moreover have "child_binds t j (x, y) = child_binds s j (x, y)" by (rule wanted_keep(2) [OF f(1) sl]) (use m b b' in auto)
  ultimately show "(x, y) \<in> due h G t j" "child_binds t j (x, y) = child_binds s j (x, y)" using d slots by (auto simp: due_def)
qed

lemma linked_frame:
  assumes a: "adds h Js D M G Z x y j k s t"
  shows "frame h Js j {l. x = Some l} s t"
proof -
  note A = addsD [OF a] note L = A(6)
  have sl: "(x, y) \<in> slots s j" using A(4) by (simp add: due_def)
  have "same_core s t p" if "p < nextMatch s" for p using linked_old(1-6) [OF L, of p] that by (simp add: same_core_def)
  moreover have "lmem t i = lmem s i \<and> (\<forall>l \<in> lmem s i. l \<notin> {l. x = Some l} \<longrightarrow> mark t l = mark s l \<and> pmChildren (pms t l) = pmChildren (pms s l))"
    if i: "i \<in> Js" "\<not> below (joins s) j i" for i
  proof -
    have "i \<noteq> k" using i(2) A(3) below.link by blast
    moreover have "mark t l = mark s l \<and> pmChildren (pms t l) = pmChildren (pms s l)" if l: "l \<in> lmem s i" "x \<noteq> Some l" for l
    proof -
      have "l \<noteq> nextMatch s" using A(11) [OF i(1)] l(1) by blast
      moreover have "y \<noteq> Some l" using slots_bound(2) [OF A(1,7) sl] entry_alphas_alpha lmem_not_alpha [OF A(1) i(1) l(1)] by blast
      ultimately show ?thesis using l(2) linked_old(2,11) [OF L] by simp
    qed
    ultimately show ?thesis using linked_lmem [OF L] by simp
  qed
  moreover have "nextMatch s \<le> c \<or> c \<in> lmem s i \<and> parents t c = parents s c" if "i \<in> Js" "c \<in> lmem t i" for i c
    using that(2) linked_old(7) [OF L, of c] by (cases "c = nextMatch s") (auto simp: linked_lmem [OF L] split: if_splits)
  ultimately show ?thesis using linked_pms [OF L] by (simp add: frame_def)
qed

lemma pending_fresh:
  assumes "net_inv h Js D M G Z s"
  shows "D - E \<union> pending_left (nextMatch s) - pending_left (nextMatch s) = D - E" "M \<union> pending_marks (nextMatch s) - pending_marks (nextMatch s) = M"
  using inv_parts(8) [OF assms] by (auto simp: bounds_ok_def pending_left_def pending_marks_def)

text \<open>One link: the new match is made and sent to the join.\<close>

lemma drive_step:
  assumes i: "net_inv h Js D M G {} s" and sk: "skips h Js opn G s" and k: "k \<in> Js" "lastLevel (joins s k) = Some j"
    and d: "(x, y) \<in> due h G s j" "(k, x, y) \<in> D" and spec: "left_spec h Js opn (joins s) k"
  shows "reaches h opn (\<lambda>rec. rec (NetworkAssertLeft (nextMatch s) k) (new_child h x y (child_binds s j (x, y)) k s))
    (\<lambda>t. net_inv h Js (D - {(k, x, y)}) M G {} t \<and> skips h Js opn G t \<and> frame h Js j {l. x = Some l} s t \<and>
       (\<forall>l. x = Some l \<longrightarrow> mark t l = mark s l))"
proof -
  let ?c = "nextMatch s" and ?t = "new_child h x y (child_binds s j (x, y)) k s"
  have j: "j \<in> Js" "j \<noteq> k" using net_depth [OF i k] by auto
  have sl: "(x, y) \<in> slots s j" using d by (simp add: due_def)
  have "has_left (joins s k)" using net_links(1) [OF inv_net [OF i] k(1)] k(2) by (simp add: has_left_def)
  then obtain m where m: "leftMemories s k = Some m" "memory_ok (\<lambda>p. pmHash (pms s p)) m"
    using inv_memory [OF i k(1)] by blast
  have c: "?c \<notin> lmem s k" using lmem_less [OF i k(1)] by blast
  have x: "x \<noteq> Some ?c" "y \<noteq> Some ?c" "x = None \<or> x \<noteq> y" using slots_bound [OF i j(1) sl] by (auto; blast)+
  have a: "adds h Js D M G {} x y j k s ?t"
    unfolding adds_def using i k d pending_not_there [OF i sk k d] new_child_linked [OF m c x] by simp
  note L = addsD(6) [OF a]
  have nc: "?c \<in> lmem ?t k" "mark ?t ?c = Unmarked" "?c \<notin> G"
    using linked_lmem [OF L] linked_new(1) [OF L] addsD(13) [OF a] by (simp_all add: child_match_def fresh_match_def)
  have inv: "net_inv h Js (D - {(k, x, y)} \<union> pending_left ?c) (M \<union> pending_marks ?c) G {} ?t" by (rule adds_inv [OF a])
  have ft: "frame h Js j {l. x = Some l} s ?t" by (rule linked_frame [OF a])
  have ll: "lastLevel (joins ?t k) = Some j" using linked_pms(2) [OF L] k(2) by simp
  have "reaches h opn (\<lambda>rec. rec (NetworkAssertLeft ?c k) ?t) (\<lambda>t. net_inv h Js (D - {(k, x, y)} \<union> pending_left ?c - pending_left ?c)
      (M \<union> pending_marks ?c - pending_marks ?c) G {} t \<and> skips h Js opn G t \<and> frame h Js k {?c} ?t t)"
    using spec inv skips_new [OF a sk] nc linked_pms(2) [OF L] unfolding left_spec_def by blast
  then show ?thesis
    unfolding pending_fresh [OF i]
  proof (rule reaches_mono)
    fix t assume t: "net_inv h Js (D - {(k, x, y)}) M G {} t \<and> skips h Js opn G t \<and> frame h Js k {?c} ?t t"
    then have fk: "frame h Js k {?c} ?t t" by blast
    have fj: "frame h Js j {l. x = Some l} ?t t" by (rule frame_below [OF fk ll k(1) inv]) (use nc in simp)
    have "mark t l = mark s l" if l: "x = Some l" for l
    proof -
      have lj: "l \<in> lmem s j" "l \<noteq> ?c" using slots_bound(1) [OF i j(1) sl l] by auto
      then have "l \<in> lmem ?t j" using linked_lmem [OF L] j(2) by simp
      moreover have "\<not> below (joins ?t) k j"
        using below_depth [OF _ inv_net [OF inv] j(1), of k] net_links(2) [OF inv_net [OF inv] k(1) ll] by fastforce
      ultimately have "mark t l = mark ?t l" using frame_fields(8) [OF fk j(1)] lj(2) by simp
      then show ?thesis using linked_old(2) [OF L lj(2)] by simp
    qed
    then show "net_inv h Js (D - {(k, x, y)}) M G {} t \<and> skips h Js opn G t \<and> frame h Js j {l. x = Some l} s t \<and>
       (\<forall>l. x = Some l \<longrightarrow> mark t l = mark s l)" using t frame_trans [OF ft fj] by blast
  qed
qed


definition to_children :: "(addr \<Rightarrow> joinNode) \<Rightarrow> addr \<Rightarrow> pointer \<times> pointer \<Rightarrow> (addr \<times> pointer \<times> pointer) set" where
  "to_children N j xy = {k. lastLevel (N k) = Some j} \<times> {xy}"

text \<open>All links of a join.\<close>

lemma drive_links:
  assumes i: "net_inv h Js D M G {} s" and sk: "skips h Js opn G s" and j: "j \<in> Js" and d: "(x, y) \<in> due h G s j"
    and D: "\<And>k. k \<in> Js \<Longrightarrow> lastLevel (joins s k) = Some j \<Longrightarrow> (k, x, y) \<in> D"
    and spec: "\<And>k. k \<in> Js \<Longrightarrow> lastLevel (joins s k) = Some j \<Longrightarrow> left_spec h Js opn (joins s) k"
    and step: "\<And>rec k t. (LHS, k) \<in> set (nextLinks (joins s j)) \<Longrightarrow>
        frame h Js j {l. x = Some l} s t \<Longrightarrow>
        f rec (LHS, k) t = rec (NetworkAssertLeft (nextMatch t) k) (new_child h x y (child_binds t j (x, y)) k t)"
  shows "reaches h opn (\<lambda>rec. fold_option (f rec) (nextLinks (joins s j)) s)
    (\<lambda>t. net_inv h Js (D - to_children (joins s) j (x, y)) M G {} t \<and> skips h Js opn G t \<and> frame h Js j {l. x = Some l} s t \<and>
       (\<forall>l. x = Some l \<longrightarrow> mark t l = mark s l))"
proof -
  let ?ls = "nextLinks (joins s j)" and ?X = "{l. x = Some l}"
  define I where "I ys t \<longleftrightarrow> net_inv h Js (D - snd ` set ys \<times> {(x, y)}) M G {} t \<and> skips h Js opn G t \<and> frame h Js j ?X s t \<and>
       (\<forall>l. x = Some l \<longrightarrow> mark t l = mark s l)" for ys :: "(direction \<times> addr) list" and t
  have "reaches h opn (\<lambda>rec. fold_option (f rec) ?ls s) (I ?ls)"
  proof (rule reaches_fold)
    show "I [] s" using i sk by (simp add: I_def frame_refl)
    fix ys e zs t assume xs: "?ls = ys @ e # zs" and I: "I ys t"
    obtain dr k where e: "e = (dr, k)" by (cases e)
    have mem: "(dr, k) \<in> set ?ls" using xs e by simp
    then have k: "dr = LHS" "k \<in> Js" "lastLevel (joins s k) = Some j" using net_links(4) [OF inv_net [OF i] j] by auto
    have dist: "distinct (map snd ?ls)"
      using net_links(3) [OF inv_net [OF i] j] net_links(4) [OF inv_net [OF i] j] by (auto simp: distinct_map inj_on_def)
    then have new: "k \<notin> snd ` set ys" unfolding xs e by auto
    have t: "net_inv h Js (D - snd ` set ys \<times> {(x, y)}) M G {} t" "skips h Js opn G t" "frame h Js j ?X s t" "\<And>l. x = Some l \<Longrightarrow> mark t l = mark s l"
      using I by (auto simp: I_def)
    note ft = frame_fields [OF t(3)]
    have kt: "lastLevel (joins t k) = Some j" using k(3) ft(1) by simp
    have dt: "(x, y) \<in> due h G t j" by (rule due_frame [OF i t(3) j t(4) d])
    have Dt: "(k, x, y) \<in> D - snd ` set ys \<times> {(x, y)}" using D [OF k(2,3)] new by simp
    have fe: "f rec e t = rec (NetworkAssertLeft (nextMatch t) k) (new_child h x y (child_binds t j (x, y)) k t)" for rec
      using step [of k t rec] mem t(3) unfolding e k(1) by simp
    show "reaches h opn (\<lambda>rec. f rec e t) (I (ys @ [e]))"
      unfolding fe
    proof (rule reaches_mono [OF drive_step [OF t(1,2) k(2) kt dt Dt spec [OF k(2,3), folded ft(1)]]])
      fix u assume u: "net_inv h Js (D - snd ` set ys \<times> {(x, y)} - {(k, x, y)}) M G {} u \<and> skips h Js opn G u \<and> frame h Js j ?X t u \<and>
         (\<forall>l. x = Some l \<longrightarrow> mark u l = mark t l)"
      have "D - snd ` set ys \<times> {(x, y)} - {(k, x, y)} = D - snd ` set (ys @ [e]) \<times> {(x, y)}" by (auto simp: e)
      then show "I (ys @ [e]) u" using u t(4) frame_trans [OF t(3)] by (auto simp: I_def)
    qed
  qed
  then show ?thesis
  proof (rule reaches_mono)
    fix t assume I: "I ?ls t"
    have "net_inv h Js (D - to_children (joins s) j (x, y)) M G {} t"
    proof (rule inv_D)
      show "net_inv h Js (D - snd ` set ?ls \<times> {(x, y)}) M G {} t" using I by (simp add: I_def)
      show "(k, xy) \<in> D - snd ` set ?ls \<times> {(x, y)} \<longleftrightarrow> (k, xy) \<in> D - to_children (joins s) j (x, y)"
        if k: "k \<in> Js" "lastLevel (joins t k) = Some j'" "xy \<in> due h G t j'" for k j' xy
      proof -
        have "joins t = joins s" using I frame_fields(1) by (auto simp: I_def)
        then have "k \<in> snd ` set ?ls \<longleftrightarrow> lastLevel (joins s k) = Some j"
          using net_links(2) [OF inv_net [OF i] k(1)] net_links(4) [OF inv_net [OF i] j] by force
        then show ?thesis by (auto simp: to_children_def)
      qed
      show "l < nextMatch t" if "(k, Some l, y') \<in> D - to_children (joins s) j (x, y)" for k l y'
        using inv_parts(8) [OF i] that I frame_fields(3) [of h Js j ?X s t] by (auto simp: bounds_ok_def I_def) (meson order_less_le_trans)
    qed
    then show "net_inv h Js (D - to_children (joins s) j (x, y)) M G {} t \<and> skips h Js opn G t \<and> frame h Js j ?X s t \<and> (\<forall>l. x = Some l \<longrightarrow> mark t l = mark s l)"
      using I by (auto simp: I_def)
  qed
qed


text \<open>What holds after a pair has been driven from a join.\<close>

definition driven :: "'e matcher \<Rightarrow> addr set \<Rightarrow> operation \<Rightarrow> (addr \<times> pointer \<times> pointer) set \<Rightarrow> (addr \<times> addr) set \<Rightarrow> addr set \<Rightarrow>
    addr \<Rightarrow> pointer \<times> pointer \<Rightarrow> 'e rete \<Rightarrow> 'e rete \<Rightarrow> bool" where
  "driven h Js opn D M G j xy s t \<longleftrightarrow> net_inv h Js (D - to_children (joins s) j xy) M G {} t \<and> skips h Js opn G t \<and>
     frame h Js j {l. fst xy = Some l} s t \<and> (\<forall>l. fst xy = Some l \<longrightarrow> mark t l = mark s l)"

text \<open>A pair that is due and pending at every join below.\<close>

definition drivable :: "'e matcher \<Rightarrow> addr set \<Rightarrow> operation \<Rightarrow> (addr \<times> pointer \<times> pointer) set \<Rightarrow> (addr \<times> addr) set \<Rightarrow> addr set \<Rightarrow>
    addr \<Rightarrow> pointer \<times> pointer \<Rightarrow> 'e rete \<Rightarrow> bool" where
  "drivable h Js opn D M G j xy s \<longleftrightarrow> net_inv h Js D M G {} s \<and> skips h Js opn G s \<and> j \<in> Js \<and> xy \<in> due h G s j \<and>
     (\<forall>k \<in> Js. lastLevel (joins s k) = Some j \<longrightarrow> (k, xy) \<in> D \<and> left_spec h Js opn (joins s) k)"

lemma drivable_links:
  assumes d: "drivable h Js opn D M G j (x, y) s"
    and step: "\<And>rec k t. (LHS, k) \<in> set (nextLinks (joins s j)) \<Longrightarrow> joins t = joins s \<Longrightarrow>
        f rec (LHS, k) t = rec (NetworkAssertLeft (nextMatch t) k) (new_child h x y (child_binds t j (x, y)) k t)"
  shows "reaches h opn (\<lambda>rec. fold_option (f rec) (nextLinks (joins s j)) s) (driven h Js opn D M G j (x, y) s)"
proof -
  have a: "net_inv h Js D M G {} s" "skips h Js opn G s" "j \<in> Js" "(x, y) \<in> due h G s j"
    "\<And>k. k \<in> Js \<Longrightarrow> lastLevel (joins s k) = Some j \<Longrightarrow> (k, x, y) \<in> D" "\<And>k. k \<in> Js \<Longrightarrow> lastLevel (joins s k) = Some j \<Longrightarrow> left_spec h Js opn (joins s) k"
    using d by (auto simp: drivable_def)
  have st: "f rec (LHS, k) t = rec (NetworkAssertLeft (nextMatch t) k) (new_child h x y (child_binds t j (x, y)) k t)"
    if "(LHS, k) \<in> set (nextLinks (joins s j))" "frame h Js j {l. x = Some l} s t" for rec k t
    by (rule step [OF that(1) frame_fields(1) [OF that(2)]])
  show ?thesis
    by (rule reaches_mono [OF drive_links [OF a st]]) (simp_all add: driven_def)
qed

lemma snd_alloc: "alloc_match m t = (nextMatch t, snd (alloc_match m t))"
  by (simp add: alloc_match_def)

lemma new_childI:
  assumes "joins t = N" "hv = left_hash h (N k) bs"
  shows "UpdateBetaPMLinks (nextMatch t) x y k hv LHS (snd (alloc_match (fresh_match bs) t)) = new_child h x y bs k t"
  using assms by (simp add: new_child_def)

lemma link_hash_alloc: "link_hash h LHS k (nextMatch t) (snd (alloc_match (fresh_match bs) t)) = left_hash h (joins t k) bs"
  by (simp add: link_hash_def left_hash_def alloc_match_def fresh_match_def)

lemma InitializePMLinks_fresh: "InitializePMLinks (fresh_match bs) = fresh_match bs"
  by (simp add: InitializePMLinks_def fresh_match_def)

lemma PPDrive_driven:
  fixes h :: "'e matcher" and s :: "'e rete"
  assumes d: "drivable h Js opn D M G j (Some l, r) s" and nf: "\<not> firstJoin (joins s j)"
  shows "reaches h opn (\<lambda>rec. PPDrive h rec l r j s) (driven h Js opn D M G j (Some l, r) s)"
  unfolding PPDrive_def
proof (rule drivable_links [OF d])
  fix rec :: "'e caller" and k and t :: "'e rete" assume t: "joins t = joins s"
  have "child_binds t j (Some l, r) = bnd t l @ [case r of None \<Rightarrow> None | Some p \<Rightarrow> hd (bnd t p)]"
    using nf t by (simp add: child_binds_def split: option.split)
  then show "(case (LHS, k) of (d, k) \<Rightarrow> \<lambda>s. let (p, s1) = MergePartialMatches l r s
       in rec (enter d p k) (UpdateBetaPMLinks p (Some l) r k (link_hash h d k p s1) d s1)) t =
     rec (NetworkAssertLeft (nextMatch t) k) (new_child h (Some l) r (child_binds t j (Some l, r)) k t)"
    by (subst MergePartialMatches_def, subst snd_alloc) (simp add: enter_def link_hash_alloc new_child_def)
qed

lemma EPMDrive_driven:
  fixes h :: "'e matcher" and s :: "'e rete"
  assumes d: "drivable h Js opn D M G j (Some l, None) s" and f: "firstJoin (joins s j)" "\<not> positive (joins s j)"
  shows "reaches h opn (\<lambda>rec. EPMDrive rec l j s) (driven h Js opn D M G j (Some l, None) s)"
  unfolding EPMDrive_def
proof (rule drivable_links [OF d])
  fix rec :: "'e caller" and k and t :: "'e rete" assume k: "(LHS, k) \<in> set (nextLinks (joins s j))" and t: "joins t = joins s"
  have i: "net_inv h Js D M G {} s" "j \<in> Js" using d by (auto simp: drivable_def)
  have hash: "leftHash (joins s k) = []" using net_links(4) [OF inv_net [OF i(1)] i(2) k] f by blast
  have "child_binds t j (Some l, None) = [None]" using f t by (simp add: child_binds_def)
  moreover have "left_hash h (joins t k) [None] = 0" using hash t by (simp add: left_hash_def BetaMemoryHashValue_def)
  ultimately show "(case (LHS, k) of (d, k) \<Rightarrow> \<lambda>s. let (p, s1) = CreateEmptyPartialMatch s
       in rec (enter d p k) (UpdateBetaPMLinks p (Some l) None k 0 d s1)) t =
     rec (NetworkAssertLeft (nextMatch t) k) (new_child h (Some l) None (child_binds t j (Some l, None)) k t)"
    by (subst CreateEmptyPartialMatch_def, subst snd_alloc) (simp add: enter_def new_child_def InitializePMLinks_fresh)
qed

lemma drive_first_driven:
  fixes h :: "'e matcher" and s :: "'e rete"
  assumes d: "drivable h Js opn D M G j xy s" and f: "firstJoin (joins s j)"
    and xy: "xy = (if patternIsExists (joins s j) then (Some (left_parent j s), None) else (None, Some r))"
  shows "reaches h opn (\<lambda>rec. drive_first h rec j r s) (driven h Js opn D M G j xy s)"
proof (cases "patternIsExists (joins s j)")
  case True
  then have xy: "xy = (Some (left_parent j s), None)" using xy by simp
  show ?thesis
    unfolding drive_first_def Let_def xy
  proof (rule drivable_links [OF d [unfolded xy]])
    fix rec :: "'e caller" and k and t :: "'e rete" assume t: "joins t = joins s"
    have "child_binds t j (Some (left_parent j s), None) = [None]" using f t by (simp add: child_binds_def)
    then show "(case (LHS, k) of (d, k) \<Rightarrow> \<lambda>sa. case if patternIsExists (joins s j) then CreateEmptyPartialMatch sa else CopyPartialMatch r sa of
          (p, s1) \<Rightarrow> rec (enter d p k) (if patternIsExists (joins s j) then UpdateBetaPMLinks p (Some (left_parent j s)) None k (link_hash h d k p s1) d s1
            else UpdateBetaPMLinks p None (Some r) k (link_hash h d k p s1) d s1)) t =
       rec (NetworkAssertLeft (nextMatch t) k) (new_child h (Some (left_parent j s)) None (child_binds t j (Some (left_parent j s), None)) k t)"
      unfolding prod.case if_P [OF True]
      by (subst CreateEmptyPartialMatch_def, subst snd_alloc) (simp add: enter_def new_child_def InitializePMLinks_fresh link_hash_alloc)
  qed
next
  case False
  then have xy: "xy = (None, Some r)" using xy by simp
  show ?thesis
    unfolding drive_first_def Let_def xy
  proof (rule drivable_links [OF d [unfolded xy]])
    fix rec :: "'e caller" and k and t :: "'e rete" assume t: "joins t = joins s"
    have "child_binds t j (None, Some r) = bnd t r" by (simp add: child_binds_def)
    then show "(case (LHS, k) of (d, k) \<Rightarrow> \<lambda>sa. case if patternIsExists (joins s j) then CreateEmptyPartialMatch sa else CopyPartialMatch r sa of
          (p, s1) \<Rightarrow> rec (enter d p k) (if patternIsExists (joins s j) then UpdateBetaPMLinks p (Some (left_parent j s)) None k (link_hash h d k p s1) d s1
            else UpdateBetaPMLinks p None (Some r) k (link_hash h d k p s1) d s1)) t =
       rec (NetworkAssertLeft (nextMatch t) k) (new_child h None (Some r) (child_binds t j (None, Some r)) k t)"
      unfolding prod.case if_not_P [OF False]
      by (subst CopyPartialMatch_def, subst snd_alloc) (simp add: enter_def new_child_def InitializePMLinks_fresh link_hash_alloc)
  qed
qed

end
