(* ===== verification/Join_Left.thy ===== *)
theory Join_Left
  imports Join_Drive
begin

text \<open>
  Assertions from the left: a match that enters a join with everything below it pending is compared with the right matches of its
  bucket and driven on, after which nothing below it is pending.
\<close>

section \<open>Settled matches\<close>

text \<open>The pairs of a left match are no longer pending when those that are due have been driven.\<close>

lemma settle_D:
  assumes i: "net_inv h Js D M G Z s" and c: "k \<in> Js" "c \<in> lmem s k"
    and d: "\<And>k' y. k' \<in> Js \<Longrightarrow> lastLevel (joins s k') = Some k \<Longrightarrow> (Some c, y) \<in> due h G s k \<Longrightarrow> (k', Some c, y) \<notin> D"
  shows "net_inv h Js (D - pending_left c) M G Z s"
proof (rule inv_D [OF i])
  show "l < nextMatch s" if "(k', Some l, y) \<in> D - pending_left c" for k' l y
    using inv_parts(8) [OF i] that by (auto simp: bounds_ok_def)
  fix k' j xy assume a: "k' \<in> Js" "lastLevel (joins s k') = Some j" "xy \<in> due h G s j"
  obtain x y where xy: "xy = (x, y)" by (cases xy)
  have "(k', xy) \<notin> D" if x: "x = Some c"
  proof -
    have j: "j \<in> Js" by (rule net_depth(1) [OF i a(1,2)])
    have "(x, y) \<in> slots s j" using a(3) xy by (simp add: due_def)
    then have "j = k" using slots_bound(1) [OF i j _ x] lmem_unique [OF i c(1) j c(2)] by blast
    then show ?thesis using d [OF a(1)] a xy x by simp
  qed
  then show "(k', xy) \<in> D \<longleftrightarrow> (k', xy) \<in> D - pending_left c" by (auto simp: xy pending_left_def)
qed

lemma settle_M:
  assumes i: "net_inv h Js D M G Z s" and c: "k \<in> Js" "c \<in> lmem s k" and m: "mark_ok h (M - pending_marks c) G s k c"
  shows "net_inv h Js D (M - pending_marks c) G Z s"
proof (rule inv_M [OF i])
  show "l < nextMatch s" if "(l, a) \<in> M - pending_marks c" for l a
    using inv_parts(8) [OF i] that by (auto simp: bounds_ok_def)
  fix j l assume l: "j \<in> Js" "l \<in> lmem s j"
  have o: "mark_ok h M G s j l" using inv_parts(7) [OF i] l by (simp add: marks_ok_def)
  show "mark_ok h (M - pending_marks c) G s j l"
  proof (cases "l = c")
    case True
    then show ?thesis using m lmem_unique [OF i c(1) l(1) c(2)] l(2) by simp
  next
    case False
    show ?thesis by (rule mark_ok_keep [OF o]) (simp_all add: False pending_marks_def)
  qed
qed

lemma inv_mark: "net_inv h Js D M G Z s \<Longrightarrow> j \<in> Js \<Longrightarrow> l \<in> lmem s j \<Longrightarrow> mark_ok h M G s j l"
  by (simp add: net_inv_def marks_ok_def)

lemma settle_positive:
  assumes i: "net_inv h Js D M G Z s" and c: "k \<in> Js" "c \<in> lmem s k" "positive (joins s k)"
  shows "net_inv h Js D (M - pending_marks c) G Z s"
  by (rule settle_M [OF i c(1,2)]) (use inv_mark [OF i c(1,2)] c(3) in \<open>simp add: mark_ok_def Let_def split: if_splits\<close>)

section \<open>The bucket of a left match\<close>

lemma left_bucket:
  assumes i: "net_inv h Js D M G Z s" and k: "k \<in> Js" "c \<in> lmem s k" "\<not> firstJoin (joins s k)" "rightSideEntryStructure (joins s k) = PatternEntry p"
    and a: "a \<in> entry_alphas s (joins s k)" "pair_ok h (joins s k) (bnd s c) (bnd s a)"
  shows "a \<in> set (right_matches k (pmHash (pms s c)) s)"
proof -
  have ap: "a \<in> alphas s p" using a(1) k(4) by (simp add: entry_alphas_def)
  obtain am where am: "bnd s a = [Some am]" "pmHash (pms s a) = alpha_hash h (headers s p) am"
      "bucket am = AlphaMemoryHashValue p (pmHash (pms s a))" "a \<in> set (queue s p (bucket am))"
    using alphas_match(4) [OF i ap] by blast
  have "left_hash h (joins s k) (bnd s c) = alpha_hash h (headers s p) am"
    using net_hash(2) [OF inv_net [OF i] k(1,4,3)] a(2) am(1) by simp
  then have "pmHash (pms s c) = pmHash (pms s a)" using lmem_match [OF i k(1,2)] am(2) by (simp add: left_match_ok_def)
  then show ?thesis
    using am(3,4) k(4) net_tests(1) [OF inv_net [OF i] k(1)] by (simp add: right_matches_def queue_GetAlphaMemory)
qed

lemma right_matches_queue:
  assumes i: "net_inv h Js D M G Z s" and k: "k \<in> Js" "rightSideEntryStructure (joins s k) = PatternEntry p"
  shows "right_matches k hv s = queue s p (AlphaMemoryHashValue p hv)" "set (right_matches k hv s) \<subseteq> entry_alphas s (joins s k)"
    "distinct (right_matches k hv s)"
proof -
  show r: "right_matches k hv s = queue s p (AlphaMemoryHashValue p hv)"
    using k(2) net_tests(1) [OF inv_net [OF i] k(1)] by (simp add: right_matches_def queue_GetAlphaMemory)
  show "set (right_matches k hv s) \<subseteq> entry_alphas s (joins s k)" using k(2) by (auto simp: r entry_alphas_def alphas_def)
  show "distinct (right_matches k hv s)" using inv_parts(3) [OF i] by (simp add: r queues_ok_def)
qed

lemma precedes_prefix:
  assumes i: "net_inv h Js D M G Z s" and q: "queue s p hv = ys @ r # zs" and b: "precedes s b r"
  shows "b \<in> set ys"
proof -
  obtain p' hv' xs' ys' zs' where q': "queue s p' hv' = xs' @ b # ys' @ r # zs'" using b by (auto simp: precedes_def)
  have ok: "alpha_match_ok h s p' hv' r" "alpha_match_ok h s p hv r" using inv_parts(3) [OF i] q q' by (auto simp: queues_ok_def)
  then have "p' = p" "hv' = hv" by (auto simp: alpha_match_ok_def)
  then have e: "ys @ r # zs = (xs' @ b # ys') @ r # zs'" using q q' by simp
  have "distinct (queue s p hv)" using inv_parts(3) [OF i] by (simp add: queues_ok_def)
  then have d: "distinct (ys @ r # zs)" by (simp only: q)
  have "r \<notin> set ys" "r \<notin> set zs" "r \<notin> set (xs' @ b # ys')" "r \<notin> set zs'" using d d [unfolded e] by auto
  then have "ys = xs' @ b # ys'" using e append_Cons_eq_iff by metis
  then show ?thesis by simp
qed

section \<open>The cases of an assertion from the left\<close>

definition left_start :: "'e matcher \<Rightarrow> addr set \<Rightarrow> operation \<Rightarrow> (addr \<times> pointer \<times> pointer) set \<Rightarrow> (addr \<times> addr) set \<Rightarrow> addr set \<Rightarrow>
    addr \<Rightarrow> addr \<Rightarrow> 'e rete \<Rightarrow> bool" where
  "left_start h Js opn D M G k c s \<longleftrightarrow> net_inv h Js D M G {} s \<and> skips h Js opn G s \<and> k \<in> Js \<and> \<not> firstJoin (joins s k) \<and>
     c \<in> lmem s k \<and> c \<notin> G \<and>
     (\<forall>k' \<in> Js. lastLevel (joins s k') = Some k \<longrightarrow> left_spec h Js opn (joins s) k')"

definition left_done :: "'e matcher \<Rightarrow> addr set \<Rightarrow> operation \<Rightarrow> (addr \<times> pointer \<times> pointer) set \<Rightarrow> (addr \<times> addr) set \<Rightarrow> addr set \<Rightarrow>
    addr \<Rightarrow> addr \<Rightarrow> 'e rete \<Rightarrow> 'e rete \<Rightarrow> bool" where
  "left_done h Js opn D M G k c s t \<longleftrightarrow> net_inv h Js (D - pending_left c) (M - pending_marks c) G {} t \<and> skips h Js opn G t \<and> frame h Js k {c} s t"

lemma left_startD:
  assumes "left_start h Js opn D M G k c s"
  shows "net_inv h Js D M G {} s" "skips h Js opn G s" "k \<in> Js" "\<not> firstJoin (joins s k)" "c \<in> lmem s k" "c \<notin> G"
    "k' \<in> Js \<Longrightarrow> lastLevel (joins s k') = Some k \<Longrightarrow> left_spec h Js opn (joins s) k'"
  using assms by (simp_all add: left_start_def)

lemma left_start_silent:
  assumes "left_start h Js opn D M G k c s" "silent s t"
  shows "left_start h Js opn D M G k c t"
  using assms silent_inv [OF assms(2)] silent_fields [OF assms(2)] skips_silent [OF _ assms(2)] unfolding left_start_def by simp

lemma not_below_self: "net_inv h Js D M G Z s \<Longrightarrow> j \<in> Js \<Longrightarrow> \<not> below (joins s) j j"
  using below_depth [OF _ inv_net] by blast

text \<open>The pairs that may be due for a left match.\<close>

lemma due_left:
  assumes i: "net_inv h Js D M G Z s" and k: "k \<in> Js" "\<not> firstJoin (joins s k)" and d: "(Some c, y) \<in> due h G s k"
  shows "rightSideEntryStructure (joins s k) = NoEntry \<Longrightarrow> y = None \<and> left_ok h (joins s k) (bnd s c)"
    "\<not> positive (joins s k) \<Longrightarrow> y = None \<and> (patternIsNegated (joins s k) \<longrightarrow> mark s c = Unmarked \<and> sec_ok h (joins s k) (bnd s c)) \<and>
       (patternIsExists (joins s k) \<longrightarrow> mark s c \<noteq> Unmarked)"
    "rightSideEntryStructure (joins s k) = PatternEntry p \<Longrightarrow> positive (joins s k) \<Longrightarrow>
       \<exists>a \<in> entry_alphas s (joins s k). y = Some a \<and> pair_ok h (joins s k) (bnd s c) (bnd s a) \<and> a \<notin> G"
  using d k(2) net_tests(2,4) [OF inv_net [OF i] k(1)] by (auto simp: due_def slots_def wanted_def Let_def positive_def free_of_def split: if_splits)

lemma due_leftI:
  assumes i: "net_inv h Js D M G Z s" and k: "k \<in> Js" "\<not> firstJoin (joins s k)" and c: "c \<in> lmem s k" "c \<notin> G"
  shows "rightSideEntryStructure (joins s k) = NoEntry \<Longrightarrow> left_ok h (joins s k) (bnd s c) \<Longrightarrow> (Some c, None) \<in> due h G s k"
    "patternIsNegated (joins s k) \<Longrightarrow> mark s c = Unmarked \<Longrightarrow> sec_ok h (joins s k) (bnd s c) \<Longrightarrow> (Some c, None) \<in> due h G s k"
    "patternIsExists (joins s k) \<Longrightarrow> mark s c \<noteq> Unmarked \<Longrightarrow> (Some c, None) \<in> due h G s k"
    "rightSideEntryStructure (joins s k) = PatternEntry p \<Longrightarrow> positive (joins s k) \<Longrightarrow> a \<in> entry_alphas s (joins s k) \<Longrightarrow> a \<notin> G \<Longrightarrow>
       pair_ok h (joins s k) (bnd s c) (bnd s a) \<Longrightarrow> (Some c, Some a) \<in> due h G s k"
  using k(2) c net_tests(2,4) [OF inv_net [OF i] k(1)] by (auto simp: due_def slots_def wanted_def Let_def positive_def free_of_def)


text \<open>A pair without right match is the only one that may be due for a match at a join without pattern, or with a negated or existential one.\<close>

definition left_settled :: "'e matcher \<Rightarrow> addr set \<Rightarrow> operation \<Rightarrow> (addr \<times> pointer \<times> pointer) set \<Rightarrow> (addr \<times> addr) set \<Rightarrow> addr set \<Rightarrow>
    addr \<Rightarrow> addr \<Rightarrow> 'e rete \<Rightarrow> 'e rete \<Rightarrow> bool" where
  "left_settled h Js opn D M G k c s t \<longleftrightarrow> net_inv h Js (D - pending_left c) M G {} t \<and> skips h Js opn G t \<and> frame h Js k {c} s t"

lemma drive_none:
  assumes st: "left_start h Js opn D M G k c s" and p: "pending_left c \<subseteq> D" and d: "(Some c, None) \<in> due h G s k"
    and single: "rightSideEntryStructure (joins s k) = NoEntry \<or> \<not> positive (joins s k)"
  shows "reaches h opn (\<lambda>rec. PPDrive h rec c None k s) (left_settled h Js opn D M G k c s)"
proof -
  note S = left_startD [OF st]
  have "drivable h Js opn D M G k (Some c, None) s"
    using S(1-3,7) d p by (auto simp: drivable_def pending_left_def)
  from PPDrive_driven [OF this S(4)] show ?thesis
  proof (rule reaches_mono)
    fix t assume t: "driven h Js opn D M G k (Some c, None) s t"
    then have it: "net_inv h Js (D - to_children (joins s) k (Some c, None)) M G {} t" and ft: "frame h Js k {c} s t" and sk: "skips h Js opn G t"
      by (simp_all add: driven_def)
    note f = frame_fields [OF ft]
    have ct: "c \<in> lmem t k" using f(7) [OF S(3) not_below_self [OF S(1,3)]] S(5) by simp
    have "net_inv h Js (D - to_children (joins s) k (Some c, None) - pending_left c) M G {} t"
    proof (rule settle_D [OF it S(3) ct])
      fix k' y assume k': "k' \<in> Js" "lastLevel (joins t k') = Some k" "(Some c, y) \<in> due h G t k"
      have "y = None" using due_left(1,2) [OF it S(3) _ k'(3)] S(4) single by (auto simp: f(1))
      then show "(k', Some c, y) \<notin> D - to_children (joins s) k (Some c, None)" using k'(2) by (simp add: to_children_def f(1))
    qed
    moreover have "D - to_children (joins s) k (Some c, None) - pending_left c = D - pending_left c"
      by (auto simp: to_children_def pending_left_def)
    ultimately show "left_settled h Js opn D M G k c s t" using sk ft by (simp add: left_settled_def)
  qed
qed

lemma drive_nothing:
  assumes st: "left_start h Js opn D M G k c s" and d: "\<And>y. (Some c, y) \<notin> due h G s k"
  shows "left_settled h Js opn D M G k c s s"
  using settle_D [OF left_startD(1,3,5) [OF st]] d left_startD(2) [OF st] by (simp add: left_settled_def frame_refl)

lemma settled_silent: "left_settled h Js opn D M G k c s t \<Longrightarrow> silent r s \<Longrightarrow> left_settled h Js opn D M G k c r t"
  using frame_trans [OF silent_frame [of r s h Js k "{c}"]] by (auto simp: left_settled_def)

lemma settled_done:
  assumes "left_settled h Js opn D M G k c s t" "k \<in> Js" "c \<in> lmem s k" "positive (joins s k)" "net_inv h Js D M G {} s"
  shows "left_done h Js opn D M G k c s t"
proof -
  have t: "net_inv h Js (D - pending_left c) M G {} t" "frame h Js k {c} s t" using assms(1) by (simp_all add: left_settled_def)
  have "c \<in> lmem t k" "positive (joins t k)"
    using frame_fields(1,7) [OF t(2)] assms(2-4) not_below_self [OF assms(5,2)] by simp_all
  from settle_positive [OF t(1) assms(2) this] show ?thesis using assms(1) by (simp add: left_done_def left_settled_def)
qed

text \<open>A join without pattern tests the left match alone.\<close>

lemma left_no_entry:
  assumes st: "left_start h Js opn D M G k c s" and p: "pending_left c \<subseteq> D" and e: "rightSideEntryStructure (joins s k) = NoEntry"
  shows "reaches h opn (\<lambda>rec. let ((ok, _), s1) =
        (if networkTest (joins s k) = [] then ((True, False), s)
         else join_eval h k (networkTest (joins s k)) (Some (bnd s c)) None s)
      in if ok then PPDrive h rec c None k s1 else Some s1) (left_done h Js opn D M G k c s)"
proof -
  note S = left_startD [OF st]
  have pos: "positive (joins s k)" by (rule net_tests(4) [OF inv_net [OF S(1)] S(3) e])
  define r where "r = (if networkTest (joins s k) = [] then ((True, False), s)
         else join_eval h k (networkTest (joins s k)) (Some (bnd s c)) None s)"
  have q: "silent s (snd r)" and ok: "fst (fst r) = left_ok h (joins s k) (bnd s c)"
    by (simp_all add: r_def left_ok_def join_eval_silent)
  note sq = left_start_silent [OF st q] and f = silent_fields [OF q]
  have "reaches h opn (\<lambda>rec. if fst (fst r) then PPDrive h rec c None k (snd r) else Some (snd r)) (left_settled h Js opn D M G k c (snd r))"
  proof (cases "fst (fst r)")
    case True
    have "(Some c, None) \<in> due h G (snd r) k"
      using due_leftI(1) [OF S(1,3,4,5,6) e] True ok by (simp add: f(12))
    from drive_none [OF sq p this] show ?thesis using True e by (simp add: f(1))
  next
    case False
    have "(Some c, y) \<notin> due h G (snd r) k" for y using due_left(1) [OF S(1,3,4) _ e] False ok by (auto simp: f(12))
    from drive_nothing [OF sq this] show ?thesis using False by (simp add: reaches_return)
  qed
  then have "reaches h opn (\<lambda>rec. if fst (fst r) then PPDrive h rec c None k (snd r) else Some (snd r)) (left_done h Js opn D M G k c s)"
    by (rule reaches_mono) (rule settled_done [OF settled_silent [OF _ q] S(3,5) pos S(1)])
  then show ?thesis unfolding r_def [symmetric] Let_def case_prod_unfold .
qed

text \<open>A positive pattern: every right match of the bucket that passes the test is driven.\<close>

definition pairs_to :: "(addr \<Rightarrow> joinNode) \<Rightarrow> addr \<Rightarrow> addr \<Rightarrow> addr set \<Rightarrow> (addr \<times> pointer \<times> pointer) set" where
  "pairs_to N k c R = {k'. lastLevel (N k') = Some k} \<times> ({Some c} \<times> Some ` R)"

definition loop_done :: "'e matcher \<Rightarrow> addr set \<Rightarrow> operation \<Rightarrow> (addr \<times> pointer \<times> pointer) set \<Rightarrow> (addr \<times> addr) set \<Rightarrow> addr set \<Rightarrow>
    addr \<Rightarrow> addr \<Rightarrow> addr set \<Rightarrow> 'e rete \<Rightarrow> 'e rete \<Rightarrow> bool" where
  "loop_done h Js opn D M G k c R s t \<longleftrightarrow> net_inv h Js (D - pairs_to (joins s) k c R) M G {} t \<and> skips h Js opn G t \<and> frame h Js k {c} s t \<and>
     mark t c = mark s c"

lemma loop_start:
  assumes st: "left_start h Js opn D M G k c s" and d: "loop_done h Js opn D M G k c R s t"
  shows "left_start h Js opn (D - pairs_to (joins s) k c R) M G k c t"
proof -
  note S = left_startD [OF st]
  have t: "net_inv h Js (D - pairs_to (joins s) k c R) M G {} t" "skips h Js opn G t" "frame h Js k {c} s t" using d by (simp_all add: loop_done_def)
  note f = frame_fields [OF t(3)]
  have "c \<in> lmem t k" using f(7) [OF S(3) not_below_self [OF S(1,3)]] S(5) by simp
  then show ?thesis using t(1,2) S by (simp add: left_start_def f(1))
qed

lemma loop_trans:
  assumes "loop_done h Js opn D M G k c R s t" "loop_done h Js opn (D - pairs_to (joins s) k c R) M G k c Q t u"
  shows "loop_done h Js opn D M G k c (R \<union> Q) s u"
proof -
  have f: "frame h Js k {c} s t" using assms(1) by (simp add: loop_done_def)
  have "D - pairs_to (joins s) k c R - pairs_to (joins t) k c Q = D - pairs_to (joins s) k c (R \<union> Q)"
    using frame_fields(1) [OF f] by (auto simp: pairs_to_def)
  then show ?thesis using assms frame_trans [OF f] by (simp add: loop_done_def)
qed

lemma loop_not_due:
  assumes st: "left_start h Js opn D M G k c s" and n: "\<And>r. r \<in> R \<Longrightarrow> (Some c, Some r) \<notin> due h G s k" and q: "silent s t"
  shows "loop_done h Js opn D M G k c R s t"
proof -
  note S = left_startD [OF st] and S' = left_startD [OF left_start_silent [OF st q]]
  have "net_inv h Js (D - pairs_to (joins s) k c R) M G {} s"
  proof (rule inv_D [OF S(1)])
    show "l < nextMatch s" if "(k', Some l, y) \<in> D - pairs_to (joins s) k c R" for k' l y
      using inv_parts(8) [OF S(1)] that by (auto simp: bounds_ok_def)
    show "(k', xy) \<in> D \<longleftrightarrow> (k', xy) \<in> D - pairs_to (joins s) k c R"
      if "k' \<in> Js" "lastLevel (joins s k') = Some j" "xy \<in> due h G s j" for k' j xy
      using n that by (auto simp: pairs_to_def)
  qed
  then show ?thesis
    using silent_inv [OF q] silent_frame [OF q] S'(2) silent_fields [OF q] by (simp add: loop_done_def)
qed

lemma loop_drive:
  assumes st: "left_start h Js opn D M G k c s" and p: "\<And>k'. (k', Some c, Some r) \<in> D" and d: "(Some c, Some r) \<in> due h G s k"
  shows "reaches h opn (\<lambda>rec. PPDrive h rec c (Some r) k s) (loop_done h Js opn D M G k c {r} s)"
proof -
  note S = left_startD [OF st]
  have "drivable h Js opn D M G k (Some c, Some r) s" using S(1-3,7) d p by (simp add: drivable_def)
  from PPDrive_driven [OF this S(4)] show ?thesis
  proof (rule reaches_mono)
    fix t assume t: "driven h Js opn D M G k (Some c, Some r) s t"
    have "to_children (joins s) k (Some c, Some r) = pairs_to (joins s) k c {r}" by (auto simp: to_children_def pairs_to_def)
    then show "loop_done h Js opn D M G k c {r} s t" using t by (simp add: driven_def loop_done_def)
  qed
qed

text \<open>The test of a pair in an assertion from the left.\<close>

definition left_pair :: "'e matcher \<Rightarrow> joinNode \<Rightarrow> bindings \<Rightarrow> bindings \<Rightarrow> bool" where
  "left_pair h J l r \<longleftrightarrow> pair_ok h J l r \<and> (patternIsExists J \<longrightarrow> sec_ok h J l)"

lemma left_pair_test:
  fixes c r :: addr
  assumes n: "net_ok h Js (joins s) H" and k: "k \<in> Js"
  defines "u \<equiv> compare_count k s"
  defines "t \<equiv> (if secondaryNetworkTest (joins s k) \<noteq> [] \<and> fst (pair_test h k c r u) \<and> patternIsExists (joins s k)
    then secondary_test h k c r (snd (pair_test h k c r u)) else pair_test h k c r u)"
  shows "fst t = left_pair h (joins s k) (bnd s c) (bnd s r)" "silent s (snd t)"
proof -
  have u: "silent s u" "joins u = joins s" "pms u = pms s" by (simp_all add: u_def)
  have q: "silent u (snd (pair_test h k c r u))" by (rule pair_test_value(2))
  note f = silent_fields [OF q]
  show "silent s (snd t)"
    using silent_trans [OF u(1) q] silent_trans [OF silent_trans [OF u(1) q] secondary_test_value(2)] by (simp add: t_def)
  show "fst t = left_pair h (joins s k) (bnd s c) (bnd s r)"
    using net_tests(7) [OF n k, of "bnd s c" "bnd s r"]
    by (auto simp: t_def left_pair_def sec_ok_def pair_test_value(1) secondary_test_value(1) f u)
qed

lemma assert_left_step:
  assumes n: "net_ok h Js (joins s) H" and k: "k \<in> Js"
  shows "\<exists>t. silent s t \<and> (\<forall>rec. assert_left_pairs h rec opn c k (r # rs) s =
    (if opn = NETWORK_RETRACT \<and> PartialMatchWillBeDeleted h r s then assert_left_pairs h rec opn c k rs s
     else if \<not> left_pair h (joins s k) (bnd s c) (bnd s r) then assert_left_pairs h rec opn c k rs t
     else if positive (joins s k) then Option.bind (PPDrive h rec c (Some r) k t) (assert_left_pairs h rec opn c k rs)
     else if patternIsExists (joins s k) then PPDrive h rec c None k (AddBlockedLink c r t)
     else Some (AddBlockedLink c r t)))"
proof -
  define t where "t = (let p = pair_test h k c r (compare_count k s) in if secondaryNetworkTest (joins s k) \<noteq> [] \<and> fst p \<and> patternIsExists (joins s k)
    then secondary_test h k c r (snd p) else p)"
  have t: "fst t = left_pair h (joins s k) (bnd s c) (bnd s r)" "silent s (snd t)"
    unfolding t_def Let_def by (rule left_pair_test [OF n k])+
  have "assert_left_pairs h rec opn c k (r # rs) s =
    (if opn = NETWORK_RETRACT \<and> PartialMatchWillBeDeleted h r s then assert_left_pairs h rec opn c k rs s
     else if \<not> left_pair h (joins s k) (bnd s c) (bnd s r) then assert_left_pairs h rec opn c k rs (snd t)
     else if positive (joins s k) then Option.bind (PPDrive h rec c (Some r) k (snd t)) (assert_left_pairs h rec opn c k rs)
     else if patternIsExists (joins s k) then PPDrive h rec c None k (AddBlockedLink c r (snd t))
     else Some (AddBlockedLink c r (snd t)))" for rec
    unfolding t(1) [symmetric] using net_tests(1) [OF n k] by (simp add: t_def Let_def case_prod_unfold positive_def prod.expand)
  then show ?thesis using t(2) by blast
qed

lemma willBeDeleted_G:
  assumes "skips h Js opn G s" "r \<in> alphas s p \<or> k \<in> Js \<and> r \<in> lmem s k"
  shows "opn = NETWORK_RETRACT \<and> PartialMatchWillBeDeleted h r s \<longleftrightarrow> r \<in> G"
  using assms unfolding skips_def by blast

lemma positive_loop:
  assumes st: "left_start h Js opn D M G k c s" and pos: "positive (joins s k)" and e: "rightSideEntryStructure (joins s k) = PatternEntry p"
    and rs: "set rs \<subseteq> entry_alphas s (joins s k)" "distinct rs" and D: "\<And>k' r. r \<in> set rs \<Longrightarrow> (k', Some c, Some r) \<in> D"
  shows "reaches h opn (\<lambda>rec. assert_left_pairs h rec opn c k rs s) (loop_done h Js opn D M G k c (set rs) s)"
  using assms
proof (induction rs arbitrary: s D)
  case Nil
  then show ?case using loop_not_due [OF Nil(1), of "{}" s] by (simp add: reaches_return)
next
  case (Cons r rs)
  note S = left_startD [OF Cons.prems(1)]
  have r: "r \<in> entry_alphas s (joins s k)" "r \<in> alphas s p" "r \<notin> set rs" using Cons.prems(3-5) by (auto simp: entry_alphas_def)
  have rest: "reaches h opn (\<lambda>rec. assert_left_pairs h rec opn c k rs t) (loop_done h Js opn D M G k c (set (r # rs)) s)"
    if t: "loop_done h Js opn D M G k c {r} s t" for t
  proof -
    have f: "joins t = joins s" "entry_alphas t = entry_alphas s" using t frame_fields(1,12) by (auto simp: loop_done_def)
    have "reaches h opn (\<lambda>rec. assert_left_pairs h rec opn c k rs t) (loop_done h Js opn (D - pairs_to (joins s) k c {r}) M G k c (set rs) t)"
      by (rule Cons.IH [OF loop_start [OF Cons.prems(1) t]]) (use Cons.prems r(3) in \<open>auto simp: f pairs_to_def\<close>)
    then show ?thesis by (rule reaches_mono) (use loop_trans [OF t, of "set rs"] in simp)
  qed
  obtain t where q: "silent s t" and step: "\<And>rec. assert_left_pairs h rec opn c k (r # rs) s =
    (if opn = NETWORK_RETRACT \<and> PartialMatchWillBeDeleted h r s then assert_left_pairs h rec opn c k rs s
     else if \<not> left_pair h (joins s k) (bnd s c) (bnd s r) then assert_left_pairs h rec opn c k rs t
     else if positive (joins s k) then Option.bind (PPDrive h rec c (Some r) k t) (assert_left_pairs h rec opn c k rs)
     else if patternIsExists (joins s k) then PPDrive h rec c None k (AddBlockedLink c r t)
     else Some (AddBlockedLink c r t))"
    using assert_left_step [OF inv_net [OF S(1)] S(3)] by blast
  have skip: "opn = NETWORK_RETRACT \<and> PartialMatchWillBeDeleted h r s \<longleftrightarrow> r \<in> G" by (rule willBeDeleted_G [OF S(2)]) (rule disjI1 [OF r(2)])
  have pr: "left_pair h (joins s k) (bnd s c) (bnd s r) = pair_ok h (joins s k) (bnd s c) (bnd s r)"
    using Cons.prems(2) by (simp add: left_pair_def positive_def)
  note nd = due_left(3) [OF S(1,3,4) _ Cons.prems(3,2)]
  show ?case
  proof (cases "r \<in> G \<or> \<not> pair_ok h (joins s k) (bnd s c) (bnd s r)")
    case True
    then have "(Some c, Some r) \<notin> due h G s k" using nd by auto
    then have "reaches h opn (\<lambda>rec. assert_left_pairs h rec opn c k rs u) (loop_done h Js opn D M G k c (set (r # rs)) s)" if "silent s u" for u
      using rest [OF loop_not_due [OF Cons.prems(1) _ that]] by simp
    from this [OF q] this [OF silent_refl] show ?thesis unfolding step skip pr using True by (cases "r \<in> G") simp_all
  next
    case False
    have d: "(Some c, Some r) \<in> due h G t k"
      using due_leftI(4) [OF S(1,3,4,5,6) Cons.prems(3,2) r(1)] False by (simp add: silent_fields(12) [OF q])
    have dr: "reaches h opn (\<lambda>rec. PPDrive h rec c (Some r) k t) (loop_done h Js opn D M G k c {r} t)"
      by (rule loop_drive [OF left_start_silent [OF Cons.prems(1) q] _ d]) (use Cons.prems(6) in simp)
    have "loop_done h Js opn D M G k c {r} s u" if "loop_done h Js opn D M G k c {r} t u" for u
      using that frame_trans [OF silent_frame [OF q]] silent_fields(1,5) [OF q] unfolding loop_done_def by metis
    then have "reaches h opn (\<lambda>rec. Option.bind (PPDrive h rec c (Some r) k t) (assert_left_pairs h rec opn c k rs)) (loop_done h Js opn D M G k c (set (r # rs)) s)"
      by (intro reaches_bind [OF dr] rest)
    then show ?thesis unfolding step skip pr using False Cons.prems(2) by simp
  qed
qed

text \<open>A negated or existential pattern: the first right match that passes the test becomes the marker.\<close>

lemma marker_loop:
  assumes n: "net_ok h Js (joins s) H" "k \<in> Js" "\<not> positive (joins s k)"
    and sk: "\<And>r. r \<in> set rs \<Longrightarrow> opn = NETWORK_RETRACT \<and> PartialMatchWillBeDeleted h r s \<longleftrightarrow> r \<in> G"
  shows "(\<exists>t. silent s t \<and> (\<forall>r \<in> set rs. r \<notin> G \<longrightarrow> \<not> left_pair h (joins s k) (bnd s c) (bnd s r)) \<and> (\<forall>rec. assert_left_pairs h rec opn c k rs s = Some t)) \<or>
    (\<exists>ys r zs t. rs = ys @ r # zs \<and> silent s t \<and> r \<notin> G \<and> left_pair h (joins s k) (bnd s c) (bnd s r) \<and>
       (\<forall>b \<in> set ys. b \<notin> G \<longrightarrow> \<not> left_pair h (joins s k) (bnd s c) (bnd s b)) \<and>
       (\<forall>rec. assert_left_pairs h rec opn c k rs s =
          (if patternIsExists (joins s k) then PPDrive h rec c None k (AddBlockedLink c r t) else Some (AddBlockedLink c r t))))"
  using assms
proof (induction rs arbitrary: s)
  case Nil
  then show ?case by (auto intro: silent_refl)
next
  case (Cons r rs)
  obtain t where q: "silent s t" and step: "\<And>rec. assert_left_pairs h rec opn c k (r # rs) s =
    (if opn = NETWORK_RETRACT \<and> PartialMatchWillBeDeleted h r s then assert_left_pairs h rec opn c k rs s
     else if \<not> left_pair h (joins s k) (bnd s c) (bnd s r) then assert_left_pairs h rec opn c k rs t
     else if positive (joins s k) then Option.bind (PPDrive h rec c (Some r) k t) (assert_left_pairs h rec opn c k rs)
     else if patternIsExists (joins s k) then PPDrive h rec c None k (AddBlockedLink c r t)
     else Some (AddBlockedLink c r t))"
    using assert_left_step [OF Cons.prems(1,2)] by blast
  have skip: "opn = NETWORK_RETRACT \<and> PartialMatchWillBeDeleted h r s \<longleftrightarrow> r \<in> G" using Cons.prems(4) by simp
  show ?case
  proof (cases "r \<in> G \<or> \<not> left_pair h (joins s k) (bnd s c) (bnd s r)")
    case False
    then show ?thesis unfolding step skip using q Cons.prems(3) by (intro disjI2) (rule exI [of _ "[]"], auto)
  next
    case True
    define u where "u = (if r \<in> G then s else t)"
    have u: "silent s u" using q by (simp add: u_def)
    note f = silent_fields [OF u]
    have st: "assert_left_pairs h rec opn c k (r # rs) s = assert_left_pairs h rec opn c k rs u" for rec
      unfolding step skip u_def using True by (cases "r \<in> G") simp_all
    have "PartialMatchWillBeDeleted h q u = PartialMatchWillBeDeleted h q s" for q unfolding PartialMatchWillBeDeleted_def f(5,9) by (rule refl)
    then have "(\<exists>t. silent u t \<and> (\<forall>r \<in> set rs. r \<notin> G \<longrightarrow> \<not> left_pair h (joins s k) (bnd s c) (bnd s r)) \<and> (\<forall>rec. assert_left_pairs h rec opn c k rs u = Some t)) \<or>
      (\<exists>ys r zs t. rs = ys @ r # zs \<and> silent u t \<and> r \<notin> G \<and> left_pair h (joins s k) (bnd s c) (bnd s r) \<and>
       (\<forall>b \<in> set ys. b \<notin> G \<longrightarrow> \<not> left_pair h (joins s k) (bnd s c) (bnd s b)) \<and>
       (\<forall>rec. assert_left_pairs h rec opn c k rs u =
          (if patternIsExists (joins s k) then PPDrive h rec c None k (AddBlockedLink c r t) else Some (AddBlockedLink c r t))))"
      using Cons.IH [of u] Cons.prems by (simp add: f)
    then show ?thesis
    proof (elim disjE exE conjE)
      fix w assume "silent u w" "\<forall>r \<in> set rs. r \<notin> G \<longrightarrow> \<not> left_pair h (joins s k) (bnd s c) (bnd s r)"
        "\<forall>rec. assert_left_pairs h rec opn c k rs u = Some w"
      then show ?thesis unfolding st using True silent_trans [OF u] by auto
    next
      fix ys r' zs w
      assume w: "rs = ys @ r' # zs" "silent u w" "r' \<notin> G" "left_pair h (joins s k) (bnd s c) (bnd s r')"
        "\<forall>b \<in> set ys. b \<notin> G \<longrightarrow> \<not> left_pair h (joins s k) (bnd s c) (bnd s b)"
        "\<forall>rec. assert_left_pairs h rec opn c k rs u =
          (if patternIsExists (joins s k) then PPDrive h rec c None k (AddBlockedLink c r' w) else Some (AddBlockedLink c r' w))"
      have "r # rs = (r # ys) @ r' # zs" using w(1) by simp
      moreover have "\<forall>b \<in> set (r # ys). b \<notin> G \<longrightarrow> \<not> left_pair h (joins s k) (bnd s c) (bnd s b)" using w(5) True by auto
      ultimately show ?thesis unfolding st using w(3,4,6) silent_trans [OF u w(2)] by blast
    qed
  qed
qed

lemma remarked_frame:
  assumes r: "remarked c s t"
  shows "frame h Js k {c} s t" "skips h Js opn G s \<Longrightarrow> skips h Js opn G t"
    "left_start h Js opn D M G k c s \<Longrightarrow> net_inv h Js D M' G {} t \<Longrightarrow> left_start h Js opn D M' G k c t"
proof -
  note f = remarked_fields [OF r]
  show "frame h Js k {c} s t" using r by (simp add: frame_def remarked_def f)
  show sk: "skips h Js opn G t" if "skips h Js opn G s" using that by (simp add: skips_def PartialMatchWillBeDeleted_def f)
  show "left_start h Js opn D M' G k c t" if "left_start h Js opn D M G k c s" "net_inv h Js D M' G {} t"
    using that sk by (simp add: left_start_def f)
qed

lemma settled_frame: "left_settled h Js opn D M G k c s t \<Longrightarrow> frame h Js k {c} r s \<Longrightarrow> left_settled h Js opn D M G k c r t"
  using frame_trans [of h Js k "{c}" r s t] by (auto simp: left_settled_def)

lemma left_nonpositive:
  assumes st: "left_start h Js opn D M G k c s" and p: "pending_left c \<subseteq> D" and m: "mark s c = Unmarked"
    and e: "rightSideEntryStructure (joins s k) = PatternEntry q" and neg: "\<not> positive (joins s k)"
  shows "reaches h opn (\<lambda>rec. Option.bind (assert_left_pairs h rec opn c k (right_matches k (pmHash (pms s c)) s) s) (\<lambda>s1.
      if (patternIsNegated (joins s k) \<or> joinFromTheRight (joins s k)) \<and> \<not> patternIsExists (joins s k) \<and> mark s1 c = Unmarked then
        (let (ok, s2) = EvaluateSecondaryNetworkTest h c k s1 in if ok then PPDrive h rec c None k s2 else Some s2)
      else Some s1)) (left_settled h Js opn D (M - pending_marks c) G k c s)" (is "reaches h opn ?B ?Q")
proof -
  note S = left_startD [OF st]
  let ?rs = "right_matches k (pmHash (pms s c)) s" and ?M = "M - pending_marks c"
  note R = right_matches_queue [OF S(1,3) e, of "pmHash (pms s c)"]
  note T = net_tests [OF inv_net [OF S(1)] S(3)]
  have xor: "patternIsNegated (joins s k) \<longleftrightarrow> \<not> patternIsExists (joins s k)" using neg T(2) by (auto simp: positive_def)
  have nt: "\<not> terminal (joins s k)" using net_links(5) [OF inv_net [OF S(1)] S(3)] neg by blast
  have sk: "opn = NETWORK_RETRACT \<and> PartialMatchWillBeDeleted h r s \<longleftrightarrow> r \<in> G" if "r \<in> set ?rs" for r
  proof -
    have "r \<in> alphas s q" using R(2) that e by (auto simp: entry_alphas_def)
    then show ?thesis by (rule willBeDeleted_G [OF S(2) disjI1])
  qed
  consider (none) t where "silent s t" "\<And>r. r \<in> set ?rs \<Longrightarrow> r \<notin> G \<Longrightarrow> \<not> left_pair h (joins s k) (bnd s c) (bnd s r)"
      "\<And>rec. assert_left_pairs h rec opn c k ?rs s = Some t"
    | (found) ys r zs t where "?rs = ys @ r # zs" "silent s t" "r \<notin> G" "left_pair h (joins s k) (bnd s c) (bnd s r)"
       "\<And>b. b \<in> set ys \<Longrightarrow> b \<notin> G \<Longrightarrow> \<not> left_pair h (joins s k) (bnd s c) (bnd s b)"
       "\<And>rec. assert_left_pairs h rec opn c k ?rs s =
          (if patternIsExists (joins s k) then PPDrive h rec c None k (AddBlockedLink c r t) else Some (AddBlockedLink c r t))"
    using marker_loop [OF inv_net [OF S(1)] S(3) neg sk, of ?rs] by blast
  then show ?thesis
  proof cases
    case none
    note f = silent_fields [OF none(1)] and st' = left_start_silent [OF st none(1)]
    note S' = left_startD [OF st']
    have "mark_ok h ?M G t k c"
    proof -
      have "\<not> pair_ok h (joins s k) (bnd s c) (bnd s a)" if "a \<in> entry_alphas s (joins s k) - G" "sec_ok h (joins s k) (bnd s c)" for a
        using left_bucket [OF S(1,3,5,4) e, of a] none(2) [of a] that by (auto simp: left_pair_def)
      then show ?thesis using nt neg m unfolding mark_ok_def Let_def f by auto
    qed
    then have inv: "net_inv h Js D ?M G {} t" by (rule settle_M [OF S'(1,3,5)])
    have st'': "left_start h Js opn D ?M G k c t" using inv st' by (simp add: left_start_def)
    have "reaches h opn (\<lambda>rec. if \<not> patternIsExists (joins s k) then
        (let (ok, s2) = EvaluateSecondaryNetworkTest h c k t in if ok then PPDrive h rec c None k s2 else Some s2)
      else Some t) (left_settled h Js opn D ?M G k c t)"
    proof (cases "patternIsExists (joins s k)")
      case True
      have "(Some c, y) \<notin> due h G t k" for y using due_left(2) [OF S(1,3,4) _ neg] True m by (auto simp: f)
      then show ?thesis using True by (simp add: reaches_return drive_nothing [OF st''])
    next
      case False
      let ?u = "snd (EvaluateSecondaryNetworkTest h c k t)"
      note q = secondary_value(2) [of t h c k] and ok = secondary_value(1) [of h c k t]
      note g = silent_fields [OF q] and st3 = left_start_silent [OF st'' q]
      have "reaches h opn (\<lambda>rec. if sec_ok h (joins s k) (bnd s c) then PPDrive h rec c None k ?u else Some ?u) (left_settled h Js opn D ?M G k c ?u)"
      proof (cases "sec_ok h (joins s k) (bnd s c)")
        case True
        have "(Some c, None) \<in> due h G ?u k" using due_leftI(2) [OF S(1,3,4,5,6)] xor False m True by (simp add: f g)
        from drive_none [OF st3 p this] show ?thesis using True neg by (simp add: f g)
      next
        case no: False
        have "(Some c, y) \<notin> due h G ?u k" for y using due_left(2) [OF S(1,3,4) _ neg] no xor False by (auto simp: f g)
        then show ?thesis using no by (simp add: reaches_return drive_nothing [OF st3])
      qed
      then have "reaches h opn (\<lambda>rec. if sec_ok h (joins s k) (bnd s c) then PPDrive h rec c None k ?u else Some ?u) (left_settled h Js opn D ?M G k c t)"
        by (rule reaches_mono) (rule settled_silent [OF _ q])
      then show ?thesis using False by (simp add: case_prod_unfold Let_def ok f)
    qed
    then have "reaches h opn (\<lambda>rec. if \<not> patternIsExists (joins s k) then
        (let (ok, s2) = EvaluateSecondaryNetworkTest h c k t in if ok then PPDrive h rec c None k s2 else Some s2)
      else Some t) ?Q" by (rule reaches_mono) (rule settled_silent [OF _ none(1)])
    then show ?thesis using xor m T(1) by (simp add: none(3) f)
  next
    case found
    note f = silent_fields [OF found(2)] and st' = left_start_silent [OF st found(2)]
    note S' = left_startD [OF st']
    let ?u = "AddBlockedLink c r t"
    have r: "r \<in> entry_alphas s (joins s k)" using R(2) found(1) by auto
    have cr: "c \<noteq> r" using entry_alphas_alpha [OF r] lmem_not_alpha [OF S(1,3,5)] by auto
    note rm = AddBlockedLink_remarked [OF cr, of t]
    note g = remarked_fields [OF rm]
    have mk: "mark ?u c = BlockedBy r" by (rule AddBlockedLink_fields(1) [OF cr])
    have inv: "net_inv h Js D ?M G {} ?u"
    proof (rule block_inv [OF S'(1,3,5)])
      show "\<not> positive (joins t k)" "mark t c = Unmarked" "r \<in> entry_alphas t (joins t k)" "pair_ok h (joins t k) (bnd t c) (bnd t r)"
        "patternIsExists (joins t k) \<Longrightarrow> sec_ok h (joins t k) (bnd t c)"
        using neg m r found(4) by (simp_all add: f left_pair_def)
      show "r \<notin> G" by (rule found(3))
      show "(k', Some c, None) \<in> D" for k' using p by (auto simp: pending_left_def)
      show "\<not> pair_ok h (joins t k) (bnd t c) (bnd t b)" if b: "precedes t b r" "b \<notin> G" for b
        using precedes_prefix [OF S(1) found(1) [unfolded R(1)], of b] found(4) found(5) [of b] b by (auto simp: f left_pair_def)
    qed
    have st2: "left_start h Js opn D ?M G k c ?u" by (rule remarked_frame(3) [OF rm st' inv])
    have fr: "frame h Js k {c} s ?u" by (rule frame_trans [OF silent_frame [OF found(2)] remarked_frame(1) [OF rm]])
    show ?thesis
    proof (cases "patternIsExists (joins s k)")
      case True
      have "(Some c, None) \<in> due h G ?u k" using due_leftI(3) [OF inv S(3) _ left_startD(5,6) [OF st2]] S(4) True mk by (simp add: g f)
      from drive_none [OF st2 p this] have "reaches h opn (\<lambda>rec. PPDrive h rec c None k ?u) ?Q"
        using neg by (intro reaches_mono [OF _ settled_frame [OF _ fr]]) (simp_all add: f g)
      then have "reaches h opn (\<lambda>rec. Option.bind (PPDrive h rec c None k ?u) Some) ?Q" by simp
      then show ?thesis using True by (simp add: found(6))
    next
      case False
      have "(Some c, y) \<notin> due h G ?u k" for y using due_left(2) [OF inv S(3)] mk False xor neg S(4) by (auto simp: f g)
      from settled_frame [OF drive_nothing [OF st2 this] fr] show ?thesis using False mk by (simp add: found(6) reaches_return)
    qed
  qed
qed

section \<open>Assertions from the left\<close>

lemma left_positive:
  assumes st: "left_start h Js opn D M G k c s" and p: "pending_left c \<subseteq> D" 
    and e: "rightSideEntryStructure (joins s k) = PatternEntry q" and pos: "positive (joins s k)"
  shows "reaches h opn (\<lambda>rec. assert_left_pairs h rec opn c k (right_matches k (pmHash (pms s c)) s) s) (left_done h Js opn D M G k c s)"
proof -
  note S = left_startD [OF st]
  let ?rs = "right_matches k (pmHash (pms s c)) s"
  note R = right_matches_queue [OF S(1,3) e, of "pmHash (pms s c)"]
  have "reaches h opn (\<lambda>rec. assert_left_pairs h rec opn c k ?rs s) (loop_done h Js opn D M G k c (set ?rs) s)"
    by (rule positive_loop [OF st pos e R(2,3)]) (use p in \<open>auto simp: pending_left_def\<close>)
  then show ?thesis
  proof (rule reaches_mono)
    fix t assume t: "loop_done h Js opn D M G k c (set ?rs) s t"
    note T = left_startD [OF loop_start [OF st t]]
    have fr: "frame h Js k {c} s t" using t by (simp add: loop_done_def)
    note f = frame_fields [OF fr]
    have "net_inv h Js (D - pairs_to (joins s) k c (set ?rs) - pending_left c) M G {} t"
    proof (rule settle_D [OF T(1,3,5)])
      fix k' y assume k': "k' \<in> Js" "lastLevel (joins t k') = Some k" "(Some c, y) \<in> due h G t k"
      then obtain a where a: "a \<in> entry_alphas s (joins s k)" "y = Some a" "pair_ok h (joins s k) (bnd t c) (bnd t a)"
        using due_left(3) [OF T(1,3,4) k'(3)] e pos by (auto simp: f(1,12))
      have "c < nextMatch s" "a < nextMatch s" using lmem_less [OF S(1,3,5)] entry_alphas_less [OF S(1) a(1)] by auto
      then have "pair_ok h (joins s k) (bnd s c) (bnd s a)" using a(3) by (simp add: f(5))
      then have "a \<in> set ?rs" by (rule left_bucket [OF S(1,3,5,4) e a(1)])
      then show "(k', Some c, y) \<notin> D - pairs_to (joins s) k c (set ?rs)" using k'(2) a(2) by (simp add: pairs_to_def f(1))
    qed
    moreover have "D - pairs_to (joins s) k c (set ?rs) - pending_left c = D - pending_left c"
      by (auto simp: pairs_to_def pending_left_def)
    ultimately have "left_settled h Js opn D M G k c s t" using T(2) fr by (simp add: left_settled_def)
    then show "left_done h Js opn D M G k c s t" by (rule settled_done [OF _ S(3,5) pos S(1)])
  qed
qed

text \<open>The join of a rule activates it.\<close>

lemma matcher_deleted:
  assumes "matcher_ok h"
  shows "isDeleted h f (snd (addActivation h r l b e)) = isDeleted h f e" "isDeleted h f (removeActivation h a e) = isDeleted h f e"
    "isDeleted h f (removeSupport h p e) = isDeleted h f e" "isDeleted h f (removeDependencies h p e) = isDeleted h f e" "isSynchronized h f e"
  using assms by (simp_all add: matcher_ok_def)

lemma environment_keep:
  assumes "\<And>f. isDeleted h f e = isDeleted h f (environment s)"
  shows "frame h Js k X s (s\<lparr>environment := e\<rparr>)" "skips h Js opn G s \<Longrightarrow> skips h Js opn G (s\<lparr>environment := e\<rparr>)"
    "net_inv h Js D M G Z (s\<lparr>environment := e\<rparr>) = net_inv h Js D M G Z s"
proof -
  let ?t = "s\<lparr>environment := e\<rparr>"
  have v: "view ?t = view s" by (simp add: view_def)
  show "net_inv h Js D M G Z ?t = net_inv h Js D M G Z s" by (rule view_inv [OF v])
  have l: "lmem ?t = lmem s" by (rule lmem_cong) simp
  have a: "alphas ?t = alphas s" by (intro alphas_cong queue_cong) simp
  show "frame h Js k X s ?t" using assms by (simp add: frame_def same_core_def parents_def l)
  have "deleted_binds h ?t = deleted_binds h s" by (rule ext) (rule deleted_binds_cong, simp add: assms)
  then show "skips h Js opn G s \<Longrightarrow> skips h Js opn G ?t" by (simp add: skips_def PartialMatchWillBeDeleted_binds l a)
qed

lemma left_terminal:
  assumes ok: "matcher_ok h" and st: "left_start h Js opn D M G k c s" and m: "mark s c = Unmarked" and r: "ruleToActivate (joins s k) = Some rule"
  shows "left_done h Js opn D M G k c s (upd_pm c (\<lambda>m. m\<lparr>pmMarker := Activated a\<rparr>)
    (s\<lparr>environment := snd (addActivation h rule c (bnd s c) (environment s))\<rparr>))" (is "left_done h Js opn D M G k c s ?t")
proof -
  note S = left_startD [OF st]
  let ?s = "s\<lparr>environment := snd (addActivation h rule c (bnd s c) (environment s))\<rparr>"
  have del: "isDeleted h f (snd (addActivation h rule c (bnd s c) (environment s))) = isDeleted h f (environment s)" for f
    by (rule matcher_deleted(1) [OF ok])
  note E = environment_keep [OF del]
  have T: "terminal (joins s k)" using r by (simp add: terminal_def)
  note L = net_links(5) [OF inv_net [OF S(1)] S(3) T]
  have nk: "lastLevel (joins s k') \<noteq> Some k" if "k' \<in> Js" for k'
    using net_links(2) [OF inv_net [OF S(1)] that, of k] L by auto
  have rm: "remarked c ?s ?t" by (simp add: remarked_def same_core_def parents_def)
  note f = remarked_fields [OF rm]
  have iv: "net_inv h Js D M G {} ?s" using E(3) S(1) by simp
  have ls: "lmem ?s = lmem s" by (rule lmem_cong) simp
  have bl: "pmBlockList (pms ?t p) = pmBlockList (pms s p)" for p by simp
  have bb: "blocked_by Js ?t b = blocked_by Js s b" for b
  proof -
    have "mark ?t l = BlockedBy b \<longleftrightarrow> mark s l = BlockedBy b" for l using m by simp
    then show ?thesis unfolding blocked_by_def f(5) ls by simp
  qed
  have as: "alphas ?s = alphas s" by (intro alphas_cong queue_cong) simp
  have "net_inv h Js D (M - pending_marks c) G {} ?t"
  proof (rule remarked_inv [OF rm iv S(3)])
    show "c \<in> lmem ?s k" using S(5) by (simp add: ls)
    show "(k', Some c, None) \<in> D" if "lastLevel (joins ?s k') = Some k" "k' \<in> Js" for k' using nk that by simp
    show "distinct (pmBlockList (pms ?t a)) \<and> set (pmBlockList (pms ?t a)) = blocked_by Js ?t a" if "a \<in> alphas ?s q" for a q
      using inv_parts(6) [OF S(1)] that unfolding bl bb as by (simp add: blocks_ok_def)
    show "mark_ok h (M - pending_marks c) G ?t k c" using T by (simp add: mark_ok_def)
  qed (simp_all add: pending_marks_def)
  moreover have "net_inv h Js (D - pending_left c) (M - pending_marks c) G {} ?t" if "net_inv h Js D (M - pending_marks c) G {} ?t"
    by (rule settle_D [OF that S(3)]) (use S(5) nk in \<open>simp_all add: f(5) ls\<close>)
  ultimately show ?thesis
    using remarked_frame(1,2) [OF rm] E(1,2) S(2) frame_trans unfolding left_done_def by blast
qed

theorem left_spec_all:
  assumes ok: "matcher_ok h" and k: "k \<in> Js" "lastLevel (N k) \<noteq> None"
  shows "left_spec h Js opn N k"
  using k
proof (induction "Max ((\<lambda>i. depth (N i)) ` Js) - depth (N k)" arbitrary: k rule: less_induct)
  case less
  show ?case
    unfolding left_spec_def
  proof (intro allI impI)
    fix D M G c and s :: "'a rete"
    assume N: "joins s = N" and i: "net_inv h Js D M G {} s" and sk: "skips h Js opn G s" and c: "c \<in> lmem s k" "c \<notin> G"
      and p: "pending_left c \<subseteq> D" "pending_marks c \<subseteq> M" and m: "mark s c = Unmarked"
    let ?J = "joins s k"
    have fin: "finite Js" using inv_net [OF i] by (simp add: net_ok_def)
    have "left_spec h Js opn N k'" if k': "k' \<in> Js" "lastLevel (joins s k') = Some k" for k'
    proof (rule less.hyps)
      have "depth (N k) < depth (N k')" using net_depth(3) [OF i k'] by (simp add: N)
      moreover have "depth (N k') \<le> Max ((\<lambda>i. depth (N i)) ` Js)" using fin k'(1) by (intro Max_ge) auto
      ultimately show "Max ((\<lambda>i. depth (N i)) ` Js) - depth (N k') < Max ((\<lambda>i. depth (N i)) ` Js) - depth (N k)" by linarith
    qed (use k' N in auto)
    moreover have nf: "\<not> firstJoin ?J" using net_links(1) [OF inv_net [OF i] less.prems(1)] less.prems(2) N by simp
    ultimately have st: "left_start h Js opn D M G k c s" using i sk c less.prems(1) N by (simp add: left_start_def)
    have skip: "\<not> (opn = NETWORK_RETRACT \<and> PartialMatchWillBeDeleted h c s)"
      using willBeDeleted_G [OF sk, of c undefined k] less.prems(1) c by simp
    have inc: "\<not> (IncrementalResetInProgress s \<and> \<not> initialize ?J)" using inv_parts(1) [OF i] by (simp add: static_ok_def)
    have B: "assert_left h rec opn c k s = (case ruleToActivate ?J of
           Some rule \<Rightarrow> Some (upd_pm c (\<lambda>m. m\<lparr>pmMarker := Activated (fst (addActivation h rule c (bnd s c) (environment s)))\<rparr>)
             (s\<lparr>environment := snd (addActivation h rule c (bnd s c) (environment s))\<rparr>))
         | None \<Rightarrow>
             if rightSideEntryStructure ?J = NoEntry then
               (let ((ok, _), s1) = (if networkTest ?J = [] then ((True, False), s) else join_eval h k (networkTest ?J) (Some (bnd s c)) None s)
                in if ok then PPDrive h rec c None k s1 else Some s1)
             else Option.bind (assert_left_pairs h rec opn c k (right_matches k (pmHash (pms s c)) s) s) (\<lambda>s1.
               if (patternIsNegated ?J \<or> joinFromTheRight ?J) \<and> \<not> patternIsExists ?J \<and> mark s1 c = Unmarked then
                 (let (ok, s2) = EvaluateSecondaryNetworkTest h c k s1
                  in if ok then PPDrive h rec c None k s2 else Some s2)
               else Some s1))" for rec
      unfolding assert_left_def Let_def case_prod_unfold if_not_P [OF skip] if_not_P [OF inc] by (rule refl)
    have "reaches h opn (\<lambda>rec. assert_left h rec opn c k s) (left_done h Js opn D M G k c s)"
    proof (cases "ruleToActivate ?J")
      case (Some rule)
      then show ?thesis unfolding B using left_terminal [OF ok st m Some] by (simp add: reaches_return)
    next
      case None
      consider "rightSideEntryStructure ?J = NoEntry" | q where "rightSideEntryStructure ?J = PatternEntry q" "positive ?J"
        | q where "rightSideEntryStructure ?J = PatternEntry q" "\<not> positive ?J"
        using net_tests(3) [OF inv_net [OF i] less.prems(1)] by blast
      then show ?thesis
      proof cases
        case 1
        then show ?thesis unfolding B using None left_no_entry [OF st p(1) 1] by simp
      next
        case 2
        have "\<not> patternIsNegated ?J" "\<not> joinFromTheRight ?J"
          using 2(2) net_tests(1) [OF inv_net [OF i] less.prems(1)] by (simp_all add: positive_def)
        then show ?thesis unfolding B using None left_positive [OF st p(1) 2] 2(1) by simp
      next
        case 3
        have "left_done h Js opn D M G k c s t" if "left_settled h Js opn D (M - pending_marks c) G k c s t" for t
          using that by (simp add: left_settled_def left_done_def)
        with left_nonpositive [OF st p(1) m 3] show ?thesis unfolding B using None 3(1) by (auto intro: reaches_mono)
      qed
    qed
    then show "reaches h opn (\<lambda>rec. rec (NetworkAssertLeft c k) s) (\<lambda>t. net_inv h Js (D - pending_left c) (M - pending_marks c) G {} t \<and>
       skips h Js opn G t \<and> frame h Js k {c} s t)" unfolding left_done_def by (rule reaches_left)
  qed
qed

end
