(* ===== verification/Join_Retract.thy ===== *)
theory Join_Retract
  imports Join_Left
begin

text \<open>
  Giving up what was made from a match: \<open>PosEntryRetractBeta\<close> walks over the descendants of a match, leaves first, and takes each one
  out of the network.
\<close>

section \<open>Matches that are gone\<close>

text \<open>The matches of \<open>X\<close> have left the memories and the children of the alpha matches; the other left matches are as before, but for the
  children of those in \<open>B\<close>.\<close>

definition gone :: "'e matcher \<Rightarrow> addr set \<Rightarrow> addr set \<Rightarrow> addr set \<Rightarrow> 'e rete \<Rightarrow> 'e rete \<Rightarrow> bool" where
  "gone h Js X B s t \<longleftrightarrow> joins t = joins s \<and> headers t = headers s \<and> AlphaMemoryTable t = AlphaMemoryTable s \<and> nextMatch t = nextMatch s \<and>
     (\<forall>p. same_core s t p) \<and>
     (\<forall>i \<in> Js. lmem t i = lmem s i - X \<and>
        (\<forall>p \<in> lmem s i - X. parents t p = parents s p \<and> mark t p = mark s p \<and> (p \<notin> B \<longrightarrow> pmChildren (pms t p) = pmChildren (pms s p)))) \<and>
     (\<forall>p. \<forall>a \<in> alphas s p. pmChildren (pms t a) = filter (\<lambda>c. c \<notin> X) (pmChildren (pms s a))) \<and>
     (\<forall>f. isDeleted h f (environment t) = isDeleted h f (environment s))"

lemma gone_fields:
  assumes "gone h Js X B s t"
  shows "joins t = joins s" "headers t = headers s" "nextMatch t = nextMatch s" "same_core s t p" "bnd t p = bnd s p"
    "i \<in> Js \<Longrightarrow> lmem t i = lmem s i - X" "i \<in> Js \<Longrightarrow> p \<in> lmem s i \<Longrightarrow> p \<notin> X \<Longrightarrow> mark t p = mark s p"
    "i \<in> Js \<Longrightarrow> p \<in> lmem s i \<Longrightarrow> p \<notin> X \<Longrightarrow> parents t p = parents s p"
    "i \<in> Js \<Longrightarrow> p \<in> lmem s i \<Longrightarrow> p \<notin> X \<Longrightarrow> p \<notin> B \<Longrightarrow> pmChildren (pms t p) = pmChildren (pms s p)"
    "isDeleted h f (environment t) = isDeleted h f (environment s)" "queue t = queue s" "alphas t = alphas s" "entry_alphas t = entry_alphas s"
    "precedes t = precedes s" "a \<in> alphas s q \<Longrightarrow> pmChildren (pms t a) = filter (\<lambda>c. c \<notin> X) (pmChildren (pms s a))"
proof -
  show "joins t = joins s" "headers t = headers s" "nextMatch t = nextMatch s" and c: "same_core s t p"
    and "a \<in> alphas s q \<Longrightarrow> pmChildren (pms t a) = filter (\<lambda>c. c \<notin> X) (pmChildren (pms s a))"
    "i \<in> Js \<Longrightarrow> lmem t i = lmem s i - X" "i \<in> Js \<Longrightarrow> p \<in> lmem s i \<Longrightarrow> p \<notin> X \<Longrightarrow> mark t p = mark s p"
    "i \<in> Js \<Longrightarrow> p \<in> lmem s i \<Longrightarrow> p \<notin> X \<Longrightarrow> parents t p = parents s p"
    "i \<in> Js \<Longrightarrow> p \<in> lmem s i \<Longrightarrow> p \<notin> X \<Longrightarrow> p \<notin> B \<Longrightarrow> pmChildren (pms t p) = pmChildren (pms s p)"
    "isDeleted h f (environment t) = isDeleted h f (environment s)"
    using assms unfolding gone_def by blast+
  show "bnd t p = bnd s p" using c by (simp add: same_core_def)
  show q: "queue t = queue s" using assms by (intro queue_cong) (simp add: gone_def)
  show a: "alphas t = alphas s" by (rule alphas_cong [OF q])
  show "entry_alphas t = entry_alphas s" by (rule ext) (simp add: entry_alphas_def a split: entry.split)
  show "precedes t = precedes s" by (intro ext) (simp add: precedes_def q)
qed

lemma gone_refl: "gone h Js {} B s s"
  by (simp add: gone_def same_core_def)

lemma gone_trans:
  assumes "gone h Js X A s t" "gone h Js Y B t u"
  shows "gone h Js (X \<union> Y) (A \<union> B) s u"
proof -
  note s = gone_fields [OF assms(1)] and t = gone_fields [OF assms(2)]
  have "same_core s u p" for p using s(4) [of p] t(4) [of p] by (simp add: same_core_def)
  moreover have "lmem u i = lmem s i - (X \<union> Y) \<and> (\<forall>p \<in> lmem s i - (X \<union> Y). parents u p = parents s p \<and> mark u p = mark s p \<and>
      (p \<notin> A \<union> B \<longrightarrow> pmChildren (pms u p) = pmChildren (pms s p)))" if i: "i \<in> Js" for i
    using s(6-9) [OF i] t(6-9) [OF i] by (simp add: set_diff_eq)
  moreover have "AlphaMemoryTable u = AlphaMemoryTable s" using assms by (simp add: gone_def)
  moreover have "pmChildren (pms u a) = filter (\<lambda>c. c \<notin> X \<union> Y) (pmChildren (pms s a))" if "a \<in> alphas s p" for a p
    using s(15) [OF that] t(15) [of a p] that s(12) by (simp add: conj_commute)
  ultimately show ?thesis using s(1-3,10) t(1-3,10) by (simp add: gone_def)
qed

lemma gone_weaken: "gone h Js X A s t \<Longrightarrow> A - X \<subseteq> B \<Longrightarrow> gone h Js X B s t"
  unfolding gone_def by blast

lemma gone_kids:
  assumes g: "gone h Js X B s t"
  shows "left_kids Js t l = left_kids Js s l - X"
proof -
  note f = gone_fields [OF g]
  have "c \<in> lmem t k \<and> pmLeftParent (pms t c) = Some l \<longleftrightarrow> (c \<in> lmem s k \<and> pmLeftParent (pms s c) = Some l) \<and> c \<notin> X" if "k \<in> Js" for c k
    using f(6,8) [OF that] by (auto simp: parents_def)
  then show ?thesis unfolding left_kids_def by blast
qed

lemma gone_skips:
  assumes g: "gone h Js X B s t" and sk: "skips h Js opn G s"
  shows "skips h Js opn G t"
proof -
  note f = gone_fields [OF g]
  have d: "deleted_binds h t = deleted_binds h s" by (rule ext) (rule deleted_binds_cong, rule f(10))
  show ?thesis using sk f(6) unfolding skips_def PartialMatchWillBeDeleted_binds d f(5,12) by blast
qed

lemma gone_frame:
  assumes g: "gone h Js X {b} s t" and x: "\<And>i. i \<in> Js \<Longrightarrow> \<not> below (joins s) j i \<Longrightarrow> lmem s i \<inter> X = {}"
  shows "frame h Js j {b} s t"
proof -
  note f = gone_fields [OF g]
  have "lmem t i = lmem s i \<and> (\<forall>l \<in> lmem s i. l \<notin> {b} \<longrightarrow> mark t l = mark s l \<and> pmChildren (pms t l) = pmChildren (pms s l))"
    if "i \<in> Js" "\<not> below (joins s) j i" for i using f(6,7,9) [OF that(1)] x [OF that] by blast
  then show ?thesis using g f(1-4,8,10) by (auto simp: frame_def gone_def)
qed

section \<open>Matches to be given up that are gone\<close>

lemma inv_G:
  assumes i: "net_inv h Js D M G Z s" and G: "G' \<subseteq> G" "\<And>g. g \<in> G \<Longrightarrow> g \<notin> G' \<Longrightarrow> (\<forall>j \<in> Js. g \<notin> lmem s j) \<and> (\<forall>p. g \<notin> alphas s p)"
  shows "net_inv h Js D M G' Z s"
proof -
  have fr: "free_of G' xy \<longleftrightarrow> free_of G xy" if j: "j \<in> Js" "xy \<in> slots s j" for j xy
  proof -
    obtain x y where xy: "xy = (x, y)" by (cases xy)
    have "g \<in> G'" if "g \<in> G" "x = Some g \<or> y = Some g" for g
      using slots_bound(1,2) [OF i j(1) j(2) [unfolded xy], of g] entry_alphas_alpha G(2) [OF that(1)] that(2) j(1) by blast
    then show ?thesis using G(1) by (auto simp: free_of_def xy)
  qed
  have "family_ok h D G' s j k" if k: "k \<in> Js" "lastLevel (joins s k) = Some j" for j k
  proof -
    have F: "family_ok h D G s j k" by (rule lmem_family [OF i k])
    have j: "j \<in> Js" by (rule net_depth(1) [OF i k])
    have "due h G' s j = due h G s j" using fr [OF j] by (auto simp: due_def)
    moreover have "lmem s k - G' = lmem s k - G" using G k(1) by blast
    moreover have "c \<in> G'" if "c \<in> lmem s k" "c \<in> G" for c using G(2) that k(1) by blast
    ultimately show ?thesis using F fr [OF j] unfolding family_ok_def by simp
  qed
  moreover have "mark_ok h M G' s j l" if l: "j \<in> Js" "l \<in> lmem s j" for j l
  proof -
    have "b \<notin> G" if "b \<notin> G'" "b \<in> alphas s p" for b p using G(2) that by blast
    moreover have "\<exists>p. b \<in> alphas s p" if "precedes s b a" for a b using that by (auto simp: precedes_def alphas_def) (metis in_set_conv_decomp)
    moreover have "\<exists>p. b \<in> alphas s p" if "b \<in> entry_alphas s J" for b J using entry_alphas_alpha [OF that] by blast
    ultimately have "precedes s b a \<Longrightarrow> b \<notin> G' \<Longrightarrow> b \<notin> G" "b \<in> entry_alphas s J \<Longrightarrow> b \<notin> G' \<Longrightarrow> b \<notin> G" for a b J by blast+
    moreover have "a \<in> G' \<Longrightarrow> a \<in> G" for a using G(1) by blast
    ultimately show ?thesis using inv_mark [OF i l] unfolding mark_ok_def Let_def by (auto split: if_splits)
  qed
  moreover have "bounds_ok D M G' s" using inv_parts(8) [OF i] G(1) by (auto simp: bounds_ok_def)
  ultimately show ?thesis using i by (simp add: net_inv_def families_ok_def marks_ok_def)
qed

section \<open>Children lists\<close>

lemma set_children_inv:
  assumes i: "net_inv h Js D M G Z s" and b: "b \<in> Z" "j \<in> Js" "b \<in> lmem s j"
  shows "net_inv h Js D M G Z (upd_pm b (\<lambda>m. m\<lparr>pmChildren := cs\<rparr>) s)"
    "gone h Js {} {b} s (upd_pm b (\<lambda>m. m\<lparr>pmChildren := cs\<rparr>) s)"
proof -
  let ?t = "upd_pm b (\<lambda>m. m\<lparr>pmChildren := cs\<rparr>) s"
  have l: "lmem ?t = lmem s" by (rule lmem_cong) simp
  have q: "queue ?t = queue s" by (rule queue_cong) simp
  have a: "alphas ?t = alphas s" by (rule alphas_cong [OF q])
  have e: "entry_alphas ?t = entry_alphas s" by (rule ext) (simp add: entry_alphas_def a split: entry.split)
  have pr: "precedes ?t = precedes s" by (intro ext) (simp add: precedes_def q)
  have core: "same_core s ?t p" for p by (simp add: same_core_def)
  have par: "parents ?t = parents s" by (rule ext) (simp add: parents_def)
  have m: "mark ?t p = mark s p" "bnd ?t p = bnd s p" "pmBlockList (pms ?t p) = pmBlockList (pms s p)"
    "pmLeftParent (pms ?t p) = pmLeftParent (pms s p)" "pmRightParent (pms ?t p) = pmRightParent (pms s p)" for p by simp_all
  have "pmChildren (pms ?t p) = pmChildren (pms s p)" if "p \<in> alphas s q" for p q using lmem_not_alpha [OF i b(2,3)] that by auto
  then show "gone h Js {} {b} s ?t" using core by (simp add: gone_def l par)
  have "memories_ok h Js ?t"
    using inv_parts(2) [OF i] core by (auto simp: memories_ok_def parents_def intro!: left_memory_keep [of h s _ ?t])
  moreover have "queues_ok h ?t" by (rule queues_keep [OF inv_parts(3) [OF i] q]) (simp_all add: core)
  moreover have "families_ok h Js D G ?t"
  proof -
    have sl: "slots ?t = slots s" by (intro ext) (unfold slots_def l e upd_pm_fields(1), rule refl)
    have w: "wanted h ?t = wanted h s" by (intro ext) (unfold wanted_def m upd_pm_fields(1), rule refl)
    have d: "due h G ?t = due h G s" by (intro ext) (unfold due_def sl w, rule refl)
    have cb: "child_binds ?t = child_binds s" by (intro ext) (unfold child_binds_def m upd_pm_fields(1), rule refl)
    show ?thesis using inv_parts(4) [OF i] unfolding families_ok_def family_ok_def l par sl d cb m upd_pm_fields(1) .
  qed
  moreover have "children_ok Js Z ?t"
  proof -
    have "pmChildren (pms ?t p) = pmChildren (pms s p)" if "p \<noteq> b" for p using that by simp
    moreover have "p \<noteq> b" if "p \<in> alphas s q" for p q using lmem_not_alpha [OF i b(2,3)] that by blast
    moreover have "p \<noteq> b" if "p \<notin> Z" for p using b(1) that by blast
    ultimately show ?thesis
      using inv_parts(5) [OF i] unfolding children_ok_def left_kids_def right_kids_def l a m by simp
  qed
  moreover have "blocks_ok Js ?t" using inv_parts(6) [OF i] unfolding blocks_ok_def blocked_by_def l a m .
  moreover have "marks_ok h Js M G ?t" using inv_parts(7) [OF i] unfolding marks_ok_def mark_ok_def l e pr m upd_pm_fields(1) .
  moreover have "static_ok h Js ?t" "bounds_ok D M G ?t"
    using inv_parts(1,8) [OF i] by (simp_all add: static_ok_def alpha_ok_def bounds_ok_def)
  ultimately show "net_inv h Js D M G Z ?t" by (simp add: net_inv_def)
qed

lemma children_done:
  assumes i: "net_inv h Js D M G (insert b Z) s" and b: "pmChildren (pms s b) = []" "left_kids Js s b = {}"
  shows "net_inv h Js D M G Z s"
proof -
  have "children_ok Js Z s" using inv_parts(5) [OF i] b unfolding children_ok_def by (metis distinct.simps(1) empty_set insert_iff)
  then show ?thesis using i by (simp add: net_inv_def)
qed

lemma inv_children:
  "net_inv h Js D M G Z s \<Longrightarrow> j \<in> Js \<Longrightarrow> l \<in> lmem s j \<Longrightarrow> l \<notin> Z \<Longrightarrow> distinct (pmChildren (pms s l)) \<and> set (pmChildren (pms s l)) = left_kids Js s l"
  by (auto simp: net_inv_def children_ok_def)

section \<open>A match without children\<close>

lemma blocks_upd_marker:
  assumes i: "net_inv h Js D M G Z s" and c: "k \<in> Js" "c \<in> lmem s k" "terminal (joins s k)" and m: "\<And>a. mk \<noteq> BlockedBy a"
  shows "net_inv h Js D M G Z (upd_pm c (\<lambda>m. m\<lparr>pmMarker := mk\<rparr>) s)"
proof -
  let ?t = "upd_pm c (\<lambda>m. m\<lparr>pmMarker := mk\<rparr>) s"
  have rm: "remarked c s ?t" by (simp add: remarked_def same_core_def parents_def)
  note f = remarked_fields [OF rm]
  have "mark s c \<noteq> BlockedBy b" for b using inv_mark [OF i c(1,2)] c(3) by (simp add: mark_ok_def)
  then have "mark ?t l = BlockedBy b \<longleftrightarrow> mark s l = BlockedBy b" for l b using m by auto
  then have bb: "blocked_by Js ?t b = blocked_by Js s b" for b unfolding blocked_by_def f(5) by simp
  show ?thesis
  proof (rule remarked_inv [OF rm i c(1,2)])
    show "(k', Some c, None) \<in> D" if "\<not> positive (joins s k)" for k' using net_links(5) [OF inv_net [OF i] c(1,3)] that by blast
    show "distinct (pmBlockList (pms ?t a)) \<and> set (pmBlockList (pms ?t a)) = blocked_by Js ?t a" if "a \<in> alphas s q" for a q
      using inv_parts(6) [OF i] that unfolding bb by (auto simp: blocks_ok_def)
    show "mark_ok h M G ?t k c" using c(3) m by (simp add: mark_ok_def)
  qed simp_all
qed

lemma environment_gone:
  assumes "view t = view s" "\<And>f. isDeleted h f (environment t) = isDeleted h f (environment s)"
  shows "net_inv h Js D M G Z t = net_inv h Js D M G Z s" "gone h Js {} B s t"
proof -
  show "net_inv h Js D M G Z t = net_inv h Js D M G Z s" by (rule view_inv [OF assms(1)])
  note f = view_fields [OF assms(1)]
  have "lmem t = lmem s" by (rule lmem_cong [OF f(5)])
  then show "gone h Js {} B s t" using assms(2) by (simp add: gone_def same_core_def parents_def f)
qed

lemma remove_activation_inv:
  assumes ok: "matcher_ok h" and i: "net_inv h Js D M G Z s" and c: "k \<in> Js" "c \<in> lmem s k"
  shows "net_inv h Js D M G Z (remove_activation h c s)" "joins (remove_activation h c s) = joins s" "lmem (remove_activation h c s) = lmem s" "leftMemories (remove_activation h c s) = leftMemories s"
    "same_core s (remove_activation h c s) p" "parents (remove_activation h c s) p = parents s p"
    "p \<noteq> c \<Longrightarrow> mark (remove_activation h c s) p = mark s p" "pmChildren (pms (remove_activation h c s) p) = pmChildren (pms s p)"
    "headers (remove_activation h c s) = headers s" "AlphaMemoryTable (remove_activation h c s) = AlphaMemoryTable s"
    "nextMatch (remove_activation h c s) = nextMatch s" 
    "isDeleted h f (environment (remove_activation h c s)) = isDeleted h f (environment s)"
proof -
  have o: "pmOwner (pms s c) = k" using lmem_match [OF i c] by (simp add: left_match_ok_def)
  define t where "t = remove_activation h c s"
  have "t = s \<or> (\<exists>a. terminal (joins s k) \<and> t = upd_pm c (\<lambda>m. m\<lparr>pmMarker := Unmarked\<rparr>) (s\<lparr>environment := removeActivation h a (environment s)\<rparr>))"
    unfolding t_def remove_activation_def o by (auto simp: terminal_def split: option.split marking.split)
  then consider "t = s" | a where "terminal (joins s k)" "t = upd_pm c (\<lambda>m. m\<lparr>pmMarker := Unmarked\<rparr>) (s\<lparr>environment := removeActivation h a (environment s)\<rparr>)"
    by blast
  then have "net_inv h Js D M G Z t \<and> joins t = joins s \<and> lmem t = lmem s \<and> leftMemories t = leftMemories s \<and>
     same_core s t p \<and> parents t p = parents s p \<and> (p \<noteq> c \<longrightarrow> mark t p = mark s p) \<and> pmChildren (pms t p) = pmChildren (pms s p) \<and>
     headers t = headers s \<and> AlphaMemoryTable t = AlphaMemoryTable s \<and> nextMatch t = nextMatch s \<and>
     isDeleted h f (environment t) = isDeleted h f (environment s)"
  proof cases
    case 1
    then show ?thesis using i by (simp add: same_core_def)
  next
    case 2
    let ?s = "s\<lparr>environment := removeActivation h a (environment s)\<rparr>"
    have "net_inv h Js D M G Z ?s" using i environment_gone(1) [of ?s s] by (simp add: view_def matcher_deleted [OF ok])
    moreover have l: "lmem ?s = lmem s" "lmem t = lmem s" by (rule lmem_cong, simp add: 2)+
    ultimately have "net_inv h Js D M G Z t" unfolding 2(2) using c 2(1) by (intro blocks_upd_marker) simp_all
    then show ?thesis using 2(1) l by (simp add: 2(2) same_core_def parents_def matcher_deleted [OF ok])
  qed
  then show "net_inv h Js D M G Z (remove_activation h c s)" "joins (remove_activation h c s) = joins s" "lmem (remove_activation h c s) = lmem s" "leftMemories (remove_activation h c s) = leftMemories s"
    "same_core s (remove_activation h c s) p" "parents (remove_activation h c s) p = parents s p"
    "p \<noteq> c \<Longrightarrow> mark (remove_activation h c s) p = mark s p" "pmChildren (pms (remove_activation h c s) p) = pmChildren (pms s p)"
    "headers (remove_activation h c s) = headers s" "AlphaMemoryTable (remove_activation h c s) = AlphaMemoryTable s"
    "nextMatch (remove_activation h c s) = nextMatch s" 
    "isDeleted h f (environment (remove_activation h c s)) = isDeleted h f (environment s)"
    unfolding t_def by blast+
qed

lemma ReturnPartialMatch_view:
  "view (ReturnPartialMatch h p (remove_support h p s)) = view s"
  "matcher_ok h \<Longrightarrow> isDeleted h f (environment (ReturnPartialMatch h p (remove_support h p s))) = isDeleted h f (environment s)"
  by (simp_all add: ReturnPartialMatch_def remove_support_def view_def matcher_deleted)

definition give_up :: "'e matcher \<Rightarrow> addr \<Rightarrow> 'e rete \<Rightarrow> 'e rete" where
  "give_up h b s = (let s1 = remove_activation h b s;
       s2 = UnlinkNonLeftLineage (pmOwner (pms s1 b)) b (if pmRhs (pms s1 b) then RHS else LHS) s1
     in ReturnPartialMatch h b (remove_support h b s2))"

lemma not_first:
  assumes i: "net_inv h Js D M G Z s" and b: "k \<in> Js" "b \<in> lmem s k" "pmLeftParent (pms s b) \<noteq> None \<or> pmRightParent (pms s b) \<noteq> None"
  shows "\<not> firstJoin (joins s k)"
  using lmem_match [OF i b(1,2)] b(3) by (auto simp: left_match_ok_def)

text \<open>A match without children that is to be given up leaves the network: its activation, its links and its memory. \<open>up\<close> tells whether it also
  leaves the children of its left parent.\<close>

lemma take_out:
  assumes ok: "matcher_ok h" and i: "net_inv h Js D M G Z s" and b: "k \<in> Js" "b \<in> lmem s k" "b \<in> G" "left_kids Js s b = {}"
    and nf: "\<not> firstJoin (joins s k)" and u: "up \<or> (\<forall>u. pmLeftParent (pms s b) = Some u \<longrightarrow> u \<in> Z)"
    and U: "unlinked up b k (remove_activation h b s) v"
  shows "net_inv h Js D M G Z (ReturnPartialMatch h b (remove_support h b v))" (is "net_inv h Js D M G Z ?w")
    "gone h Js {b} {l. up \<and> pmLeftParent (pms s b) = Some l} s (ReturnPartialMatch h b (remove_support h b v))"
proof -
  define t where "t = remove_activation h b s"
  note R = remove_activation_inv [OF ok i b(1,2), folded t_def] and f = unlinked_fields [OF U [folded t_def]]
  have bt: "b \<in> lmem t k" using b(2) R(3) by simp
  have lp: "pmLeftParent (pms t p) = pmLeftParent (pms s p)" for p using R(6) [of p] by (simp add: parents_def)
  have kids: "left_kids Js t l = left_kids Js s l" for l by (simp add: left_kids_def R(3) lp)
  have d: "deletes h Js D M G Z up b k t v"
    using R(1,2) U [folded t_def] b(1,3,4) nf bt u by (simp add: deletes_def kids lp)
  have vw: "view ?w = view v" "isDeleted h f (environment ?w) = isDeleted h f (environment v)" for f
    using ReturnPartialMatch_view(1) ReturnPartialMatch_view(2) [OF ok] by simp_all
  show "net_inv h Js D M G Z ?w" using deletes_inv [OF d] environment_gone(1) [OF vw] by simp
  let ?B = "{l. up \<and> pmLeftParent (pms s b) = Some l}"
  have "gone h Js {b} ?B s v"
  proof -
    have "same_core s v p" for p using R(5) [of p] f(11) [of p] by (simp add: same_core_def)
    moreover have "lmem v j = lmem s j - {b} \<and> (\<forall>p \<in> lmem s j - {b}. parents v p = parents s p \<and> mark v p = mark s p \<and>
        (p \<notin> ?B \<longrightarrow> pmChildren (pms v p) = pmChildren (pms s p)))" if j: "j \<in> Js" for j
    proof -
      have "pmChildren (pms v p) = pmChildren (pms s p)" if p: "p \<in> lmem s j" "p \<noteq> b" "p \<notin> ?B" for p
      proof -
        have "pmRightParent (pms t b) \<noteq> Some p"
          using lmem_right_parent [OF R(1) b(1) bt] lmem_not_alpha [OF R(1) j] p(1) R(3) by metis
        then show ?thesis using f(17) [OF p(2)] R(8) p(3) lp by auto
      qed
      then show ?thesis using deletes_lmem [OF d j] f(14,15) R(3,6,7) by auto
    qed
    moreover have "AlphaMemoryTable v = AlphaMemoryTable s" using U R(10) by (simp add: unlinked_def t_def)
    moreover have "pmChildren (pms v a) = filter (\<lambda>c. c \<notin> {b}) (pmChildren (pms s a))" if a: "a \<in> alphas s p" for a p
    proof -
      have at: "a \<in> alphas t p" using a alphas_cong [OF queue_cong, of t s] R(10) by simp
      have ab: "a \<noteq> b" using lmem_not_alpha [OF i b(1,2)] a by blast
      have "pmLeftParent (pms t b) \<noteq> Some a" using lmem_parent [OF R(1) b(1) bt, of a] lmem_not_alpha [OF R(1) _ _, of _ a p] at net_depth(1) [OF R(1) b(1)] by blast
      moreover have "distinct (pmChildren (pms t a))" "b \<in> set (pmChildren (pms t a)) \<longleftrightarrow> pmRightParent (pms t b) = Some a"
        using inv_parts(5) [OF R(1)] at bt b(1) by (auto simp: children_ok_def right_kids_def)
      ultimately have "pmChildren (pms v a) = filter (\<lambda>c. c \<noteq> b) (pmChildren (pms t a))"
        using f(17) [OF ab] by (auto simp: distinct_remove1_removeAll removeAll_filter_not_eq intro!: filter_True [symmetric] filter_cong)
      then show ?thesis using R(8) by simp
    qed
    ultimately show ?thesis using f(1-4) R(2,9,11,12) by (simp add: gone_def)
  qed
  from gone_trans [OF this environment_gone(2) [OF vw, of Js "{}"]] show "gone h Js {b} ?B s ?w" by simp
qed

lemma give_up_inv:
  assumes ok: "matcher_ok h" and i: "net_inv h Js D M G Z s" and b: "k \<in> Js" "b \<in> lmem s k" "b \<in> G" "left_kids Js s b = {}"
    and u: "pmLeftParent (pms s b) = Some u" "u \<in> Z"
  shows "net_inv h Js D M G Z (give_up h b s)" "gone h Js {b} {} s (give_up h b s)"
proof -
  define t where "t = remove_activation h b s"
  note R = remove_activation_inv [OF ok i b(1,2), folded t_def]
  have nf: "\<not> firstJoin (joins s k)" using not_first [OF i b(1,2)] u(1) by simp
  then have "has_left (joins t k)" using R(2) by (simp add: has_left_def)
  then obtain m where m: "leftMemories t k = Some m" "memory_ok (\<lambda>p. pmHash (pms t p)) m" using inv_memory [OF R(1) b(1)] by blast
  have bt: "b \<in> lmem t k" using b(2) R(3) by simp
  have U: "unlinked False b k (remove_activation h b s) (UnlinkNonLeftLineage k b LHS t)" unfolding t_def [symmetric] by (rule UnlinkNonLeftLineage_unlinked [OF m bt])
  have own: "pmOwner (pms t b) = k" "\<not> pmRhs (pms t b)" using lmem_match [OF R(1) b(1) bt] by (simp_all add: left_match_ok_def)
  have w: "give_up h b s = ReturnPartialMatch h b (remove_support h b (UnlinkNonLeftLineage k b LHS t))" using own by (simp add: give_up_def t_def [symmetric])
  have z: "False \<or> (\<forall>u. pmLeftParent (pms s b) = Some u \<longrightarrow> u \<in> Z)" using u by simp
  note T = take_out [OF ok i b nf z U]
  show "net_inv h Js D M G Z (give_up h b s)" "gone h Js {b} {} s (give_up h b s)" using T by (simp_all add: w)
qed

section \<open>The walk\<close>

lemma pos_retract_leaf:
  assumes "pmChildren (pms s b) = []" "pmBlockList (pms s b) = []" "pmLeftParent (pms s b) = Some u" "u \<noteq> b"
  shows "pos_retract_beta h rec parent b s = (case next_sibling b s of
      Some c \<Rightarrow> if c = parent then Some (give_up h b s) else rec (PosEntryRetractBeta parent c) (give_up h b s)
    | None \<Rightarrow> let t = give_up h b (upd_pm u (\<lambda>m. m\<lparr>pmChildren := []\<rparr>) s) in if u = parent then Some t else rec (PosEntryRetractBeta parent u) t)"
  using assms by (simp add: pos_retract_beta_def give_up_def Let_def split: option.split)

lemma desc_depth:
  assumes i: "net_inv h Js D M G Z s" and b: "k \<in> Js" "b \<in> lmem s k" and c: "c \<in> desc Js s b"
  shows "\<exists>j \<in> Js. c \<in> lmem s j \<and> below (joins s) k j"
  using c
proof (induction rule: desc.induct)
  case (kid c)
  then obtain j where j: "j \<in> Js" "c \<in> lmem s j" "pmLeftParent (pms s c) = Some b" by (auto simp: left_kids_def)
  then have "lastLevel (joins s j) = Some k" using lmem_parent [OF i j] lmem_unique [OF i b(1) net_depth(1) [OF i j(1)] b(2)] by auto
  then show ?case using j below.link by blast
next
  case (step d c)
  then obtain j where j: "j \<in> Js" "c \<in> lmem s j" "pmLeftParent (pms s c) = Some d" by (auto simp: left_kids_def)
  obtain j' where j': "j' \<in> Js" "d \<in> lmem s j'" "below (joins s) k j'" using step by blast
  have "lastLevel (joins s j) = Some j'" using lmem_parent [OF i j] lmem_unique [OF i j'(1) net_depth(1) [OF i j(1)] j'(2)] by auto
  then show ?case using j j'(3) below.deep by blast
qed

lemma not_own_desc:
  assumes i: "net_inv h Js D M G Z s" and b: "k \<in> Js" "b \<in> lmem s k"
  shows "b \<notin> desc Js s b"
  using desc_depth [OF i b] lmem_unique [OF i b(1) _ b(2)] not_below_self [OF i b(1)] by blast

lemma desc_split:
  assumes g: "gone h Js (insert c (desc Js s c)) B s t" and c: "c \<in> left_kids Js s b"
  shows "desc Js s b = insert c (desc Js s c) \<union> desc Js t b"
proof (intro equalityI subsetI)
  let ?X = "insert c (desc Js s c)"
  note K = gone_kids [OF g]
  fix x assume "x \<in> desc Js s b"
  then show "x \<in> ?X \<union> desc Js t b"
  proof (induction rule: desc.induct)
    case (kid x)
    then show ?case using desc.kid [of x Js t b] K [of b] by blast
  next
    case (step y x)
    have "x \<in> desc Js s c" if "y \<in> ?X" using that step.hyps(2) desc.kid [of x Js s c] desc.step [of y Js s c x] by blast
    moreover have "x \<in> ?X \<or> x \<in> left_kids Js t y" using step.hyps(2) K [of y] by blast
    ultimately show ?case using step.IH desc.step [of y Js t b x] by blast
  qed
next
  note K = gone_kids [OF g]
  fix x assume "x \<in> insert c (desc Js s c) \<union> desc Js t b"
  then consider "x = c" | "x \<in> desc Js s c" | "x \<in> desc Js t b" by blast
  then show "x \<in> desc Js s b"
  proof cases
    case 1
    then show ?thesis using c by (simp add: desc.kid)
  next
    case 2
    then show ?thesis
    proof induction
      case (kid x)
      show ?case by (rule desc.step [OF desc.kid [OF c] kid])
    next
      case (step y x)
      show ?case by (rule desc.step [OF step.IH step.hyps(2)])
    qed
  next
    case 3
    then show ?thesis
    proof induction
      case (kid x)
      then show ?case using K [of b] desc.kid [of x Js s b] by blast
    next
      case (step y x)
      then show ?case using K [of y] desc.step [of y Js s b x] by blast
    qed
  qed
qed

text \<open>The walk is at the children of \<open>b\<close>, in the subtree of \<open>parent\<close>; the children lists of the matches of \<open>B\<close> and \<open>Z\<close> are out of date.\<close>

definition walk_ok :: "'e matcher \<Rightarrow> addr set \<Rightarrow> (addr \<times> pointer \<times> pointer) set \<Rightarrow> (addr \<times> addr) set \<Rightarrow> addr set \<Rightarrow> addr set \<Rightarrow> addr set \<Rightarrow>
    addr \<Rightarrow> addr \<Rightarrow> addr \<Rightarrow> 'e rete \<Rightarrow> bool" where
  "walk_ok h Js D M G B Z parent k b s \<longleftrightarrow> net_inv h Js D M G (B \<union> Z) s \<and> k \<in> Js \<and> b \<in> lmem s k \<and> desc Js s b \<subseteq> G \<and>
     (\<forall>z \<in> Z. \<forall>i \<in> Js. z \<in> lmem s i \<longrightarrow> depth (joins s i) < depth (joins s k)) \<and>
     (\<forall>i \<in> Js. parent \<in> lmem s i \<longrightarrow> depth (joins s i) \<le> depth (joins s k))"

definition cleared :: "'e matcher \<Rightarrow> addr set \<Rightarrow> (addr \<times> pointer \<times> pointer) set \<Rightarrow> (addr \<times> addr) set \<Rightarrow> addr set \<Rightarrow> addr set \<Rightarrow>
    addr \<Rightarrow> 'e rete \<Rightarrow> 'e rete \<Rightarrow> bool" where
  "cleared h Js D M G Z b s t \<longleftrightarrow> net_inv h Js D M G Z t \<and> gone h Js (desc Js s b) {b} s t \<and> pmChildren (pms t b) = []"

lemma walk_okD:
  assumes "walk_ok h Js D M G B Z parent k b s"
  shows "net_inv h Js D M G (B \<union> Z) s" "k \<in> Js" "b \<in> lmem s k" "desc Js s b \<subseteq> G"
    "z \<in> Z \<Longrightarrow> i \<in> Js \<Longrightarrow> z \<in> lmem s i \<Longrightarrow> depth (joins s i) < depth (joins s k)"
    "i \<in> Js \<Longrightarrow> parent \<in> lmem s i \<Longrightarrow> depth (joins s i) \<le> depth (joins s k)" "b \<notin> Z"
  using assms unfolding walk_ok_def by blast+

lemma walk_kid:
  assumes w: "walk_ok h Js D M G B Z parent k b s" "B \<subseteq> {b}" and c: "c \<in> left_kids Js s b"
  shows "\<exists>k'. lastLevel (joins s k') = Some k \<and> walk_ok h Js D M G {} (insert b Z) parent k' c s" "pmLeftParent (pms s c) = Some b" "c \<noteq> parent" "c \<noteq> b"
    "c \<notin> insert b Z" "b \<notin> desc Js s c"
proof -
  note W = walk_okD [OF w(1)]
  obtain k' where k': "k' \<in> Js" "c \<in> lmem s k'" "pmLeftParent (pms s c) = Some b" using c by (auto simp: left_kids_def)
  then have ll: "lastLevel (joins s k') = Some k" using lmem_parent [OF W(1) k'] lmem_unique [OF W(1,2) net_depth(1) [OF W(1) k'(1)] W(3)] by auto
  note dp = net_depth(3) [OF W(1) k'(1) ll]
  show "pmLeftParent (pms s c) = Some b" by (rule k'(3))
  show "c \<noteq> parent" using W(6) [OF k'(1)] k'(2) dp by force
  show cb: "c \<noteq> b" using lmem_unique [OF W(1,2) k'(1) W(3)] k'(2) dp by blast
  show "c \<notin> insert b Z" using cb W(5) [of c k'] k' dp by force
  show "b \<notin> desc Js s c"
    using desc_depth [OF W(1) k'(1,2), of b] lmem_unique [OF W(1,2) _ W(3)] below_depth [OF _ inv_net [OF W(1)] W(2), of k'] dp by fastforce
  have "walk_ok h Js D M G {} (insert b Z) parent k' c s"
    unfolding walk_ok_def
  proof (intro conjI ballI impI)
    show "net_inv h Js D M G ({} \<union> insert b Z) s" by (rule inv_Z [OF W(1)]) (use w(2) in auto)
    show "desc Js s c \<subseteq> G" 
    proof -
      have "x \<in> desc Js s b" if "x \<in> desc Js s c" for x using that by induction (use c desc.intros in metis)+
      then show ?thesis using W(4) by blast
    qed
    show "depth (joins s i) < depth (joins s k')" if "z \<in> insert b Z" "i \<in> Js" "z \<in> lmem s i" for z i
      using that dp W(5) [of z i] lmem_unique [OF W(1,2) that(2) W(3)] by fastforce
    show "depth (joins s i) \<le> depth (joins s k')" if "i \<in> Js" "parent \<in> lmem s i" for i using W(6) [OF that] dp by simp
  qed (use k' in auto)
  then show "\<exists>k'. lastLevel (joins s k') = Some k \<and> walk_ok h Js D M G {} (insert b Z) parent k' c s" using ll by blast
qed

text \<open>What the walk relies on when it goes down: once the subtree of a match is gone, the walk returns to the match.\<close>

definition walk_spec :: "'e matcher \<Rightarrow> addr set \<Rightarrow> operation \<Rightarrow> (addr \<Rightarrow> joinNode) \<Rightarrow> (addr \<times> pointer \<times> pointer) set \<Rightarrow> (addr \<times> addr) set \<Rightarrow> addr set \<Rightarrow>
    addr \<Rightarrow> ('e rete \<Rightarrow> bool) \<Rightarrow> addr \<Rightarrow> bool" where
  "walk_spec h Js opn N D M G parent Q k \<longleftrightarrow> (\<forall>s b Z c cs. joins s = N \<longrightarrow> walk_ok h Js D M G {} Z parent k b s \<longrightarrow> pmChildren (pms s b) = c # cs \<longrightarrow>
     (\<forall>t. cleared h Js D M G Z b s t \<longrightarrow> reaches h opn (\<lambda>rec. if b = parent then Some t else rec (PosEntryRetractBeta parent b) t) Q) \<longrightarrow>
     reaches h opn (\<lambda>rec. rec (PosEntryRetractBeta parent c) s) Q)"

lemma walk_down:
  assumes w: "walk_ok h Js D M G {} Z parent k c s" and n: "c \<noteq> parent" and spec: "walk_spec h Js opn (joins s) D M G parent Q k"
    and q: "\<And>t. cleared h Js D M G Z c s t \<Longrightarrow> reaches h opn (\<lambda>rec. rec (PosEntryRetractBeta parent c) t) Q"
  shows "reaches h opn (\<lambda>rec. rec (PosEntryRetractBeta parent c) s) Q"
proof (cases "pmChildren (pms s c)")
  case Nil
  note W = walk_okD [OF w]
  have "left_kids Js s c = {}" using inv_children [OF W(1-3)] W(7) Nil by simp
  then have "desc Js s c = {}" by (auto elim: desc.induct)
  then show ?thesis using q [of s] W(1) Nil by (simp add: cleared_def gone_refl)
next
  case (Cons d ds)
  have "reaches h opn (\<lambda>rec. rec (PosEntryRetractBeta parent d) s) Q"
    using spec w Cons q n unfolding walk_spec_def by auto
  then have "reaches h opn (\<lambda>rec. pos_retract_beta h rec parent c s) Q" by (simp add: pos_retract_beta_def Cons)
  then show ?thesis by (rule reaches_pos)
qed

lemma dropWhile_at: "distinct (ps @ c # cs) \<Longrightarrow> drop 1 (dropWhile (\<lambda>x. x \<noteq> c) (ps @ c # cs)) = cs"
  by (induction ps) auto

text \<open>One child: its subtree goes, then the child.\<close>

lemma walk_child:
  assumes w: "walk_ok h Js D M G {b} Z parent k b s" and c: "c \<in> left_kids Js s b" and t: "cleared h Js D M G (insert b Z) c s t"
    and ch: "pmChildren (pms s b) = ps @ c # cs" "distinct (ps @ c # cs)" "left_kids Js s b = set (c # cs)"
  shows "net_inv h Js D M G (insert b Z) t" "b \<in> lmem t k" "pmChildren (pms t b) = ps @ c # cs" "left_kids Js t c = {}" "pmChildren (pms t c) = []"
    "pmBlockList (pms t c) = []" "pmLeftParent (pms t c) = Some b" "\<exists>k'. k' \<in> Js \<and> c \<in> lmem t k'" "c \<in> G" "left_kids Js t b = set (c # cs)"
    "next_sibling c t = (case cs of [] \<Rightarrow> None | c' # _ \<Rightarrow> Some c')"
proof -
  note W = walk_okD [OF w] and K = walk_kid [OF w subset_refl c]
  have g: "gone h Js (desc Js s c) {c} s t" and it: "net_inv h Js D M G (insert b Z) t" and e: "pmChildren (pms t c) = []"
    using t by (simp_all add: cleared_def)
  note f = gone_fields [OF g]
  obtain k' where k': "lastLevel (joins s k') = Some k" "walk_ok h Js D M G {} (insert b Z) parent k' c s" using K(1) by blast
  note W' = walk_okD [OF k'(2)]
  have nc: "c \<notin> desc Js s c" by (rule not_own_desc [OF W'(1-3)])
  show "net_inv h Js D M G (insert b Z) t" "pmChildren (pms t c) = []" by fact+
  show "b \<in> lmem t k" using f(6) [OF W(2)] W(3) K(6) by simp
  show cb: "pmChildren (pms t b) = ps @ c # cs" using f(9) [OF W(2,3) K(6)] K(4) ch(1) by simp
  have ct: "c \<in> lmem t k'" using f(6) [OF W'(2)] W'(3) nc by simp
  then show "\<exists>k'. k' \<in> Js \<and> c \<in> lmem t k'" using W'(2) by blast
  show "left_kids Js t c = {}" using inv_children [OF it W'(2) ct K(5)] e by simp
  show "pmBlockList (pms t c) = []" using lmem_match [OF it W'(2) ct] by (simp add: left_match_ok_def)
  show lp: "pmLeftParent (pms t c) = Some b" using f(8) [OF W'(2,3) nc] K(2) by (simp add: parents_def)
  show "c \<in> G" using W(4) desc.kid [OF c] by blast
  have "set (c # cs) \<inter> desc Js s c = {}"
  proof -
    have False if "x \<in> left_kids Js s b" "x \<in> desc Js s c" for x
      using desc_parent [OF that(2)] that(1) K(4,6) by (auto simp: left_kids_def)
    then show ?thesis using ch(3) by blast
  qed
  then show "left_kids Js t b = set (c # cs)" using gone_kids [OF g, of b] ch(3) by blast
  show "next_sibling c t = (case cs of [] \<Rightarrow> None | c' # _ \<Rightarrow> Some c')"
    unfolding next_sibling_def lp option.case cb dropWhile_at [OF ch(2)] by (rule refl)
qed

lemma walk_gone:
  assumes w: "walk_ok h Js D M G {b} Z parent k b s" and c: "c \<in> left_kids Js s b" and t: "gone h Js (desc Js s c) {c} s t"
    and u: "gone h Js {c} B t u"
  shows "gone h Js (insert c (desc Js s c)) B s u" "desc Js s b = insert c (desc Js s c) \<union> desc Js u b"
proof -
  show g: "gone h Js (insert c (desc Js s c)) B s u"
    using gone_weaken [OF gone_trans [OF t u], of B] by auto
  show "desc Js s b = insert c (desc Js s c) \<union> desc Js u b" by (rule desc_split [OF g c])
qed

lemma walk_loop:
  assumes ok: "matcher_ok h" and w: "walk_ok h Js D M G {b} Z parent k b s"
    and ch: "pmChildren (pms s b) = ps @ c # cs" "distinct (ps @ c # cs)" "left_kids Js s b = set (c # cs)"
    and spec: "\<And>k'. k' \<in> Js \<Longrightarrow> lastLevel (joins s k') = Some k \<Longrightarrow> walk_spec h Js opn (joins s) D M G parent Q k'"
    and q: "\<And>t. cleared h Js D M G Z b s t \<Longrightarrow> reaches h opn (\<lambda>rec. if b = parent then Some t else rec (PosEntryRetractBeta parent b) t) Q"
  shows "reaches h opn (\<lambda>rec. rec (PosEntryRetractBeta parent c) s) Q"
  using w ch spec q
proof (induction cs arbitrary: ps c s)
  case Nil
  let ?s = s
  have c: "c \<in> left_kids Js s b" using Nil.prems(4) by simp
  note K = walk_kid [OF Nil.prems(1) subset_refl c]
  obtain k' where k': "lastLevel (joins s k') = Some k" "walk_ok h Js D M G {} (insert b Z) parent k' c s" using K(1) by blast
  show ?case
  proof (rule walk_down [OF k'(2) K(3) Nil.prems(5) [OF walk_okD(2) [OF k'(2)] k'(1)]])
    fix t assume t: "cleared h Js D M G (insert b Z) c s t"
    note C = walk_child [OF Nil.prems(1) c t Nil.prems(2-4)]
    obtain j where j: "j \<in> Js" "c \<in> lmem t j" using C(8) by blast
    let ?t = "upd_pm b (\<lambda>m. m\<lparr>pmChildren := []\<rparr>) t"
    note E = set_children_inv [OF C(1) _ walk_okD(2) [OF Nil.prems(1)] C(2), of "[]"]
    have kids: "left_kids Js ?t l = left_kids Js t l" for l using gone_kids [OF E(2), of l] by simp
    have ct: "c \<in> lmem ?t j" using gone_fields(6) [OF E(2) j(1)] j(2) by simp
    have lp: "pmLeftParent (pms ?t c) = Some b" using C(7) by auto
    let ?u = "give_up h c ?t"
    have U: "net_inv h Js D M G (insert b Z) ?u" "gone h Js {c} {} ?t ?u"
      by (rule give_up_inv [OF ok E(1) j(1) ct C(9) _ lp]; simp add: kids C(4))+
    have g: "gone h Js {c} {b} t ?u" using gone_trans [OF E(2) U(2)] by simp
    have t': "gone h Js (desc Js s c) {c} s t" using t by (simp add: cleared_def)
    note H = walk_gone [OF Nil.prems(1) c t' g]
    have bu: "pmChildren (pms ?u b) = []"
      using gone_fields(9) [OF U(2) walk_okD(2) [OF Nil.prems(1)], of b] gone_fields(6) [OF E(2) walk_okD(2) [OF Nil.prems(1)]] C(2) K(4) by simp
    have lk: "left_kids Js ?u b = {}" using gone_kids [OF g, of b] C(10) by simp
    then have "desc Js ?u b = {}" by (auto elim: desc.induct)
    then have "cleared h Js D M G Z b s ?u" using H children_done [OF U(1) bu lk] bu by (simp add: cleared_def)
    from Nil.prems(6) [OF this] have "reaches h opn (\<lambda>rec. pos_retract_beta h rec parent c t) Q"
      using pos_retract_leaf [OF C(5,6,7)] K(4) C(11) by (simp add: Let_def)
    then show "reaches h opn (\<lambda>rec. rec (PosEntryRetractBeta parent c) t) Q" by (rule reaches_pos)
  qed
next
  case (Cons c' cs)
  have c: "c \<in> left_kids Js s b" "c' \<in> left_kids Js s b" using Cons.prems(4) by simp_all
  note W = walk_okD [OF Cons.prems(1)] and K = walk_kid [OF Cons.prems(1) subset_refl c(1)]
  obtain k' where k': "lastLevel (joins s k') = Some k" "walk_ok h Js D M G {} (insert b Z) parent k' c s" using K(1) by blast
  show ?case
  proof (rule walk_down [OF k'(2) K(3) Cons.prems(5) [OF walk_okD(2) [OF k'(2)] k'(1)]])
    fix t assume t: "cleared h Js D M G (insert b Z) c s t"
    note C = walk_child [OF Cons.prems(1) c(1) t Cons.prems(2-4)]
    obtain j where j: "j \<in> Js" "c \<in> lmem t j" using C(8) by blast
    let ?u = "give_up h c t"
    have U: "net_inv h Js D M G (insert b Z) ?u" "gone h Js {c} {} t ?u"
      by (rule give_up_inv [OF ok C(1) j C(9,4,7)]; simp)+
    have t': "gone h Js (desc Js s c) {c} s t" using t by (simp add: cleared_def)
    note H = walk_gone [OF Cons.prems(1) c(1) t' U(2)]
    note f = gone_fields [OF H(1)]
    have bu: "b \<notin> insert c (desc Js s c)" using K(4,6) by auto
    have "walk_ok h Js D M G {b} Z parent k b ?u"
      unfolding walk_ok_def f(1) using U(1) W f(6) bu H(2) by auto
    moreover have "pmChildren (pms ?u b) = (ps @ [c]) @ c' # cs" using f(9) [OF W(2,3) bu] Cons.prems(2) by simp
    moreover have "distinct ((ps @ [c]) @ c' # cs)" using Cons.prems(3) by simp
    moreover have "left_kids Js ?u b = set (c' # cs)" using gone_kids [OF U(2), of b] C(10) Cons.prems(3) by auto
    moreover have "walk_spec h Js opn (joins ?u) D M G parent Q k'" if "k' \<in> Js" "lastLevel (joins ?u k') = Some k" for k'
      using Cons.prems(5) that by (simp add: f(1))
    moreover have "reaches h opn (\<lambda>rec. if b = parent then Some v else rec (PosEntryRetractBeta parent b) v) Q" if "cleared h Js D M G Z b ?u v" for v
    proof (rule Cons.prems(6))
      show "cleared h Js D M G Z b s v" using that H gone_trans [OF H(1)] by (simp add: cleared_def)
    qed
    ultimately have "reaches h opn (\<lambda>rec. rec (PosEntryRetractBeta parent c') ?u) Q" by (rule Cons.IH)
    moreover have "c' \<noteq> parent" by (rule walk_kid(3) [OF Cons.prems(1) subset_refl c(2)])
    ultimately have "reaches h opn (\<lambda>rec. pos_retract_beta h rec parent c t) Q"
      using pos_retract_leaf [OF C(5,6,7)] K(4) C(11) by simp
    then show "reaches h opn (\<lambda>rec. rec (PosEntryRetractBeta parent c) t) Q" by (rule reaches_pos)
  qed
qed

lemma walk_spec_all:
  assumes ok: "matcher_ok h" and k: "k \<in> Js"
  shows "walk_spec h Js opn N D M G parent Q k"
  using k
proof (induction "Max ((\<lambda>i. depth (N i)) ` Js) - depth (N k)" arbitrary: k rule: less_induct)
  case less
  show ?case
    unfolding walk_spec_def
  proof (intro allI impI)
    fix b Z c cs and s :: "'a rete"
    assume N: "joins s = N" and w: "walk_ok h Js D M G {} Z parent k b s" and ch: "pmChildren (pms s b) = c # cs"
      and q: "\<forall>t. cleared h Js D M G Z b s t \<longrightarrow> reaches h opn (\<lambda>rec. if b = parent then Some t else rec (PosEntryRetractBeta parent b) t) Q"
    note W = walk_okD [OF w]
    have fin: "finite Js" using inv_net [OF W(1)] by (simp add: net_ok_def)
    show "reaches h opn (\<lambda>rec. rec (PosEntryRetractBeta parent c) s) Q"
    proof (rule walk_loop [OF ok, where ps = "[]" and s = s and b = b and k = k and Z = Z])
      show "walk_ok h Js D M G {b} Z parent k b s" using w inv_Z [OF W(1), of "insert b Z"] by (auto simp: walk_ok_def)
      show "pmChildren (pms s b) = [] @ c # cs" "distinct ([] @ c # cs)" "left_kids Js s b = set (c # cs)"
        using inv_children [OF W(1-3)] W(7) ch by auto
      show "walk_spec h Js opn (joins s) D M G parent Q k'" if k': "k' \<in> Js" "lastLevel (joins s k') = Some k" for k'
        unfolding N
      proof (rule less.hyps [OF _ k'(1)])
        have "depth (N k) < depth (N k')" using net_depth(3) [OF W(1) k'] by (simp add: N)
        moreover have "depth (N k') \<le> Max ((\<lambda>i. depth (N i)) ` Js)" using fin k'(1) by (intro Max_ge) auto
        ultimately show "Max ((\<lambda>i. depth (N i)) ` Js) - depth (N k') < Max ((\<lambda>i. depth (N i)) ` Js) - depth (N k)" by linarith
      qed
    qed (use q in blast)
  qed
qed

text \<open>Everything made from a left match is given up.\<close>

lemma retract_kids:
  assumes ok: "matcher_ok h" and i: "net_inv h Js D M (G \<union> desc Js s l) {} s" and l: "j \<in> Js" "l \<in> lmem s j"
  shows "reaches h opn (\<lambda>rec. case pmChildren (pms s l) of [] \<Rightarrow> Some s | c # _ \<Rightarrow> rec (PosEntryRetractBeta l c) s) (cleared h Js D M G {} l s)"
proof -
  let ?G = "G \<union> desc Js s l"
  have fin: "cleared h Js D M G {} l s t" if t: "cleared h Js D M ?G {} l s t" for t
  proof -
    have g: "gone h Js (desc Js s l) {l} s t" and it: "net_inv h Js D M ?G {} t" using t by (simp_all add: cleared_def)
    have "net_inv h Js D M G {} t"
      by (rule inv_G [OF it]) (use gone_fields(6,12) [OF g] desc_not_alpha [OF i] in auto)
    then show ?thesis using t by (simp add: cleared_def)
  qed
  show ?thesis
  proof (cases "pmChildren (pms s l)")
    case Nil
    have "left_kids Js s l = {}" using inv_children [OF i l] Nil by simp
    then have "desc Js s l = {}" by (auto elim: desc.induct)
    then show ?thesis using Nil fin [of s] i by (simp add: reaches_return cleared_def gone_refl)
  next
    case (Cons c cs)
    have "depth (joins s i') \<le> depth (joins s j)" if "i' \<in> Js" "l \<in> lmem s i'" for i' using lmem_unique [OF i l(1) that(1) l(2) that(2)] by simp
    then have w: "walk_ok h Js D M ?G {} {} l j l s" using i l unfolding walk_ok_def by simp
    have "reaches h opn (\<lambda>rec. if l = l then Some t else rec (PosEntryRetractBeta l l) t) (cleared h Js D M G {} l s)"
      if "cleared h Js D M ?G {} l s t" for t using fin [OF that] by (simp add: reaches_return)
    with walk_spec_all [OF ok l(1), of opn "joins s" D M ?G l "cleared h Js D M G {} l s"] w Cons
    have "reaches h opn (\<lambda>rec. rec (PosEntryRetractBeta l c) s) (cleared h Js D M G {} l s)" unfolding walk_spec_def by blast
    then show ?thesis using Cons by simp
  qed
qed

end
