(* ===== verification/Join_Right.thy ===== *)
theory Join_Right
  imports Join_Retract
begin

text \<open>
  Assertions from the right: a new right match, the last one of its queue, is compared with the left matches of its bucket. It is joined
  with those of a positive pattern; for a negated pattern it blocks a left match and what was made from it is given up; for an existential one it
  satisfies a left match, which is driven on.
\<close>

section \<open>The exceptions of a new right match\<close>

definition right_pairs :: "(addr \<Rightarrow> joinNode) \<Rightarrow> addr \<Rightarrow> addr \<Rightarrow> addr set \<Rightarrow> (addr \<times> pointer \<times> pointer) set" where
  "right_pairs N j a L = {k. lastLevel (N k) = Some j} \<times> ((Some ` L) \<times> {Some a})"

definition right_start :: "'e matcher \<Rightarrow> addr set \<Rightarrow> (addr \<times> pointer \<times> pointer) set \<Rightarrow> (addr \<times> addr) set \<Rightarrow> addr \<Rightarrow> addr \<Rightarrow> 'e rete \<Rightarrow> bool" where
  "right_start h Js D M j a s \<longleftrightarrow> net_inv h Js D M {} {} s \<and> j \<in> Js \<and> a \<in> entry_alphas s (joins s j) \<and> (\<forall>b. \<not> precedes s a b) \<and>
     D \<subseteq> UNIV \<times> (UNIV \<times> {Some a}) \<and> M \<subseteq> UNIV \<times> {a}"

definition right_done :: "'e matcher \<Rightarrow> addr set \<Rightarrow> (addr \<times> pointer \<times> pointer) set \<Rightarrow> (addr \<times> addr) set \<Rightarrow> addr \<Rightarrow> addr \<Rightarrow> addr set \<Rightarrow>
    'e rete \<Rightarrow> 'e rete \<Rightarrow> bool" where
  "right_done h Js D M j a L s t \<longleftrightarrow> net_inv h Js (D - right_pairs (joins s) j a L) (M - L \<times> {a}) {} {} t \<and> frame h Js j L s t"

lemma right_startD:
  assumes "right_start h Js D M j a s"
  shows "net_inv h Js D M {} {} s" "j \<in> Js" "a \<in> entry_alphas s (joins s j)" "\<not> precedes s a b" "D \<subseteq> UNIV \<times> (UNIV \<times> {Some a})" "M \<subseteq> UNIV \<times> {a}"
  using assms by (simp_all add: right_start_def)

lemma skips_assert: "skips h Js NETWORK_ASSERT {} s"
  by (simp add: skips_def)

lemma inv_M_mono:
  assumes "net_inv h Js D M G Z s" "M \<subseteq> M'" "\<And>l a. (l, a) \<in> M' \<Longrightarrow> l < nextMatch s"
  shows "net_inv h Js D M' G Z s"
proof (rule inv_M [OF assms(1) _ assms(3)])
  fix j l assume "j \<in> Js" "l \<in> lmem s j"
  from inv_mark [OF assms(1) this] show "mark_ok h M' G s j l"
    using assms(2) unfolding mark_ok_def Let_def by (auto split: if_splits)
qed

lemma inv_bounds:
  assumes "net_inv h Js D M G Z s"
  shows "(k, Some l, y) \<in> D \<Longrightarrow> l < nextMatch s" "(l, a) \<in> M \<Longrightarrow> l < nextMatch s" "g \<in> G \<Longrightarrow> g < nextMatch s"
  using inv_parts(8) [OF assms] by (auto simp: bounds_ok_def)

text \<open>Comparing with the new match is over for a left match that has a marker, or that does not go with it.\<close>

lemma right_mark:
  assumes st: "right_start h Js D M j a s" and l: "l \<in> lmem s j"
    and m: "mark s l = Unmarked \<Longrightarrow> \<not> positive (joins s j) \<Longrightarrow> \<not> (pair_ok h (joins s j) (bnd s l) (bnd s a) \<and> sec_ok h (joins s j) (bnd s l))"
  shows "mark_ok h (M - {l} \<times> {a}) {} s j l"
proof -
  note S = right_startD [OF st]
  have "(l, b) \<notin> M" if "precedes s b c" for b c using S(4,6) that by blast
  moreover have "(l, b) \<in> M - {l} \<times> {a} \<longleftrightarrow> (l, b) \<in> M \<and> b \<noteq> a" for b by blast
  ultimately show ?thesis using inv_mark [OF S(1,2) l] m S(6) unfolding mark_ok_def Let_def by (auto split: if_splits)
qed

lemma right_skip:
  assumes st: "right_start h Js D M j a s" and L: "L \<subseteq> lmem s j"
    and m: "\<And>l. l \<in> L \<Longrightarrow> mark s l = Unmarked \<Longrightarrow> \<not> positive (joins s j) \<Longrightarrow> \<not> (pair_ok h (joins s j) (bnd s l) (bnd s a) \<and> sec_ok h (joins s j) (bnd s l))"
    and d: "\<And>l. l \<in> L \<Longrightarrow> (Some l, Some a) \<notin> due h {} s j" and q: "silent s t"
  shows "right_done h Js D M j a L s t"
proof -
  note S = right_startD [OF st]
  have D: "net_inv h Js (D - right_pairs (joins s) j a L) M {} {} s"
  proof (rule inv_D [OF S(1)])
    show "(k, xy) \<in> D \<longleftrightarrow> (k, xy) \<in> D - right_pairs (joins s) j a L" if "k \<in> Js" "lastLevel (joins s k) = Some i" "xy \<in> due h {} s i" for k i xy
      using d that by (auto simp: right_pairs_def)
  qed (use inv_bounds(1) [OF S(1)] in auto)
  have "net_inv h Js (D - right_pairs (joins s) j a L) (M - L \<times> {a}) {} {} s"
  proof (rule inv_M [OF D])
    fix i l assume l: "i \<in> Js" "l \<in> lmem s i"
    show "mark_ok h (M - L \<times> {a}) {} s i l"
    proof (cases "l \<in> L")
      case True
      then have i: "i = j" "l \<in> lmem s j" using L lmem_unique [OF S(1,2) l(1) _ l(2)] by blast+
      have "mark_ok h (M - {l} \<times> {a}) {} s j l" by (rule right_mark [OF st i(2)]) (use True m in auto)
      then show ?thesis unfolding i(1) by (rule mark_ok_keep) (simp_all add: True)
    next
      case False
      from inv_mark [OF S(1) l] show ?thesis by (rule mark_ok_keep) (simp_all add: False)
    qed
  qed (use inv_bounds(2) [OF S(1)] in auto)
  then show ?thesis using silent_inv [OF q] silent_frame [OF q] by (simp add: right_done_def)
qed

lemma right_trans:
  assumes "right_done h Js D M j a K s t" "right_done h Js (D - right_pairs (joins s) j a K) (M - K \<times> {a}) j a L t u"
  shows "right_done h Js D M j a (K \<union> L) s u"
proof -
  have f: "frame h Js j K s t" "frame h Js j L t u" using assms by (simp_all add: right_done_def)
  have "joins t = joins s" by (rule frame_fields(1) [OF f(1)])
  then have "D - right_pairs (joins s) j a K - right_pairs (joins t) j a L = D - right_pairs (joins s) j a (K \<union> L)"
    "M - K \<times> {a} - L \<times> {a} = M - (K \<union> L) \<times> {a}" by (auto simp: right_pairs_def)
  moreover have "frame h Js j (K \<union> L) s u" by (rule frame_trans [OF frame_X [OF f(1)] frame_X [OF f(2)]]) auto
  ultimately show ?thesis using assms(2) by (simp add: right_done_def)
qed

lemma right_start_done:
  assumes st: "right_start h Js D M j a s" and d: "right_done h Js D M j a L s t"
  shows "right_start h Js (D - right_pairs (joins s) j a L) (M - L \<times> {a}) j a t"
proof -
  note S = right_startD [OF st]
  have f: "frame h Js j L s t" using d by (simp add: right_done_def)
  note F = frame_fields [OF f]
  show ?thesis using d S unfolding right_start_def right_done_def F(1,12,13) by blast
qed

section \<open>One left match\<close>

text \<open>The new match is the first one to go with a left match of a negated or existential pattern.\<close>

definition right_hit :: "'e matcher \<Rightarrow> addr \<Rightarrow> addr \<Rightarrow> addr \<Rightarrow> 'e rete \<Rightarrow> bool" where
  "right_hit h j a l s \<longleftrightarrow> l \<in> lmem s j \<and> \<not> positive (joins s j) \<and> mark s l = Unmarked \<and>
     pair_ok h (joins s j) (bnd s l) (bnd s a) \<and> sec_ok h (joins s j) (bnd s l)"

lemma right_block:
  assumes st: "right_start h Js D M j a s" and hit: "right_hit h j a l s" and i: "net_inv h Js D' M G {} s"
    and p: "\<And>k. k \<in> Js \<Longrightarrow> lastLevel (joins s k) = Some j \<Longrightarrow> (k, Some l, None) \<in> D'" and G: "a \<notin> G"
  shows "net_inv h Js D' (M - {l} \<times> {a}) G {} (AddBlockedLink l a s)" "l \<noteq> a" "remarked l s (AddBlockedLink l a s)"
    "mark (AddBlockedLink l a s) l = BlockedBy a"
proof -
  note S = right_startD [OF st]
  have H: "l \<in> lmem s j" "\<not> positive (joins s j)" "mark s l = Unmarked" "pair_ok h (joins s j) (bnd s l) (bnd s a)" "sec_ok h (joins s j) (bnd s l)"
    using hit by (simp_all add: right_hit_def)
  show la: "l \<noteq> a" using entry_alphas_alpha [OF S(3)] lmem_not_alpha [OF S(1,2) H(1)] by auto
  show "remarked l s (AddBlockedLink l a s)" "mark (AddBlockedLink l a s) l = BlockedBy a"
    using AddBlockedLink_remarked [OF la] AddBlockedLink_fields(1) [OF la] by auto
  note f = remarked_fields [OF AddBlockedLink_remarked [OF la, of s]]
  have nt: "\<not> terminal (joins s j)" using net_links(5) [OF inv_net [OF S(1)] S(2)] H(2) by blast
  obtain p where p': "rightSideEntryStructure (joins s j) = PatternEntry p" "a \<in> alphas s p" using entry_alphas_alpha [OF S(3)] by blast
  have first: "\<not> pair_ok h (joins s j) (bnd s l) (bnd s b)" if b: "precedes s b a" for b
  proof -
    obtain hv ys zs where q: "queue s p hv = ys @ a # zs" using p'(2) by (auto simp: alphas_def in_set_conv_decomp)
    from precedes_prefix [OF S(1) q b] have "b \<in> set (queue s p hv)" using q by simp
    then have "b \<in> alphas s p" by (auto simp: alphas_def)
    then have "b \<in> entry_alphas s (joins s j)" using p'(1) by (simp add: entry_alphas_def)
    moreover have "(l, b) \<notin> M" using S(4,6) b by blast
    ultimately show ?thesis using inv_mark [OF S(1,2) H(1)] nt H(2,3,5) by (auto simp: mark_ok_def Let_def)
  qed
  have "net_inv h Js D' (M - pending_marks l) G {} (AddBlockedLink l a s)"
    by (rule block_inv [OF i S(2) H(1-3) S(3) H(4) H(5) first G p])
  then show "net_inv h Js D' (M - {l} \<times> {a}) G {} (AddBlockedLink l a s)"
    by (rule inv_M_mono) (use inv_bounds(2) [OF i] in \<open>auto simp: pending_marks_def f(4)\<close>)
qed

lemma remarked_desc:
  assumes "remarked l s t"
  shows "desc Js t = desc Js s"
proof -
  note f = remarked_fields [OF assms]
  have k: "left_kids Js t b = left_kids Js s b" for b by (simp add: left_kids_def f)
  have "c \<in> desc Js t b \<longleftrightarrow> c \<in> desc Js s b" for b c
  proof
    show "c \<in> desc Js s b" if "c \<in> desc Js t b" using that by induction (use k desc.intros in metis)+
    show "c \<in> desc Js t b" if "c \<in> desc Js s b" using that by induction (use k desc.intros in metis)+
  qed
  then show ?thesis by blast
qed

lemma right_result:
  assumes st: "right_start h Js D M j a s" and l: "l \<in> lmem s j"
    and t: "net_inv h Js D' (M - {l} \<times> {a}) {} {} t" "frame h Js j {l} s t"
    and D: "\<And>k y. k \<in> Js \<Longrightarrow> lastLevel (joins s k) = Some j \<Longrightarrow> (Some l, y) \<in> due h {} t j \<Longrightarrow> (k, Some l, y) \<notin> D'"
      "D - pending_left l \<subseteq> D'" "D' - pending_left l \<subseteq> D"
      "\<And>k y. k \<in> Js \<Longrightarrow> lastLevel (joins s k) = Some j \<Longrightarrow> (Some l, Some y) \<in> due h {} t j \<Longrightarrow> y = a"
  shows "right_done h Js D M j a {l} s t"
proof -
  note S = right_startD [OF st] and F = frame_fields [OF t(2)]
  have lt: "l \<in> lmem t j" using F(7) [OF S(2) not_below_self [OF S(1,2)]] l by simp
  have "net_inv h Js (D - right_pairs (joins s) j a {l}) (M - {l} \<times> {a}) {} {} t"
  proof (rule inv_D [OF t(1)])
    fix k i xy assume a: "k \<in> Js" "lastLevel (joins t k) = Some i" "xy \<in> due h {} t i"
    obtain x y where xy: "xy = (x, y)" by (cases xy)
    show "(k, xy) \<in> D' \<longleftrightarrow> (k, xy) \<in> D - right_pairs (joins s) j a {l}"
    proof (cases "x = Some l")
      case True
      have iJ: "i \<in> Js" by (rule net_depth(1) [OF t(1) a(1,2)])
      have "(x, y) \<in> slots t i" using a(3) xy by (simp add: due_def)
      then have i: "i = j" using slots_bound(1) [OF t(1) iJ _ True] lmem_unique [OF t(1) S(2) iJ lt] by blast
      have "(k, xy) \<notin> D'" using D(1) [OF a(1)] a(2,3) xy True i by (simp add: F(1))
      moreover have "(k, xy) \<in> right_pairs (joins s) j a {l}" if "(k, xy) \<in> D"
        using that S(5) a(2) xy True i by (auto simp: right_pairs_def F(1))
      ultimately show ?thesis by blast
    next
      case False
      then have "(k, xy) \<notin> right_pairs (joins s) j a {l}" "(k, xy) \<notin> pending_left l" by (auto simp: right_pairs_def pending_left_def xy)
      then show ?thesis using D(2,3) by blast
    qed
  next
    show "l' < nextMatch t" if "(k, Some l', y) \<in> D - right_pairs (joins s) j a {l}" for k l' y
      using inv_bounds(1) [OF S(1)] that F(3) by (meson DiffD1 order_less_le_trans)
  qed
  then show ?thesis using t(2) by (simp add: right_done_def)
qed

text \<open>A negated pattern: what was made from the left match is given up.\<close>

lemma right_negated:
  assumes ok: "matcher_ok h" and st: "right_start h Js D M j a s" and hit: "right_hit h j a l s" and n: "patternIsNegated (joins s j)"
  shows "reaches h NETWORK_ASSERT (\<lambda>rec. let t = AddBlockedLink l a s in case pmChildren (pms t l) of [] \<Rightarrow> Some t | c # _ \<Rightarrow> rec (PosEntryRetractBeta l c) t)
    (right_done h Js D M j a {l} s)"
proof -
  note S = right_startD [OF st]
  have l: "l \<in> lmem s j" "\<not> positive (joins s j)" using hit by (simp_all add: right_hit_def)
  let ?D = "D \<union> pending_left l" and ?t = "AddBlockedLink l a s" and ?M = "M - {l} \<times> {a}"
  have P: "(k, Some l, None) \<in> ?D" for k by (simp add: pending_left_def)
  have aG: "a \<notin> {} \<union> desc Js s l" using desc_not_alpha [OF S(1), of a l] entry_alphas_alpha [OF S(3)] by auto
  note B = right_block [OF st hit doom_inv [OF S(1,2) l(1)] P aG]
  have i: "net_inv h Js ?D ?M ({} \<union> desc Js ?t l) {} ?t" unfolding remarked_desc [OF B(3)] by (rule B(1))
  note f = remarked_fields [OF B(3)]
  have lt: "l \<in> lmem ?t j" using l(1) by (simp add: f(5))
  show ?thesis
    unfolding Let_def
  proof (rule reaches_mono [OF retract_kids [OF ok i S(2) lt]])
    fix u assume u: "cleared h Js ?D ?M {} {} l ?t u"
    then have iu: "net_inv h Js ?D ?M {} {} u" and g: "gone h Js (desc Js ?t l) {l} ?t u" by (simp_all add: cleared_def)
    note gf = gone_fields [OF g]
    have nd: "l \<notin> desc Js ?t l" by (rule not_own_desc [OF i S(2) lt])
    have mk: "mark u l = BlockedBy a" using gf(7) [OF S(2) lt nd] B(4) by simp
    have fr: "frame h Js j {l} s u"
    proof (rule frame_trans [OF remarked_frame(1) [OF B(3)] gone_frame [OF g]])
      show "lmem ?t i \<inter> desc Js ?t l = {}" if "i \<in> Js" "\<not> below (joins ?t) j i" for i
        using desc_depth [OF i S(2) lt] lmem_unique [OF i] that by blast
    qed
    have nodue: "(Some l, y) \<notin> due h {} u j" for y
      using mk n l(2) net_tests(4) [OF inv_net [OF S(1)] S(2)] by (auto simp: due_def wanted_def slots_def Let_def positive_def gf(1) f(1))
    show "right_done h Js D M j a {l} s u"
      by (rule right_result [OF st l(1) iu fr]) (use nodue in auto)
  qed
qed

text \<open>An existential pattern: the left match is driven on, by \<open>F\<close>.\<close>

lemma right_exists:
  assumes ok: "matcher_ok h" and st: "right_start h Js D M j a s" and hit: "right_hit h j a l s" and n: "patternIsExists (joins s j)"
    and drive: "\<And>D' M' t. drivable h Js NETWORK_ASSERT D' M' {} j (Some l, None) t \<Longrightarrow> remarked l s t \<Longrightarrow> leftMemories t = leftMemories s \<Longrightarrow>
       reaches h NETWORK_ASSERT (\<lambda>rec. F rec t) (driven h Js NETWORK_ASSERT D' M' {} j (Some l, None) t)"
  shows "reaches h NETWORK_ASSERT (\<lambda>rec. F rec (AddBlockedLink l a s)) (right_done h Js D M j a {l} s)"
proof -
  note S = right_startD [OF st]
  have l: "l \<in> lmem s j" "\<not> positive (joins s j)" "mark s l = Unmarked" using hit by (simp_all add: right_hit_def)
  let ?P = "to_children (joins s) j (Some l, None)"
  let ?D = "D \<union> ?P" and ?t = "AddBlockedLink l a s" and ?M = "M - {l} \<times> {a}"
  have nn: "\<not> patternIsNegated (joins s j)" "rightSideEntryStructure (joins s j) \<noteq> NoEntry" using net_tests(2,4) [OF inv_net [OF S(1)] S(2)] n l(2) by blast+
  have iD: "net_inv h Js ?D M {} {} s"
  proof (rule inv_D [OF S(1)])
    show "(k, xy) \<in> D \<longleftrightarrow> (k, xy) \<in> ?D" if "k \<in> Js" "lastLevel (joins s k) = Some i" "xy \<in> due h {} s i" for k i xy
      using that l n nn by (auto simp: to_children_def due_def wanted_def Let_def)
  qed (use inv_bounds(1) [OF S(1)] lmem_less [OF S(1,2) l(1)] in \<open>auto simp: to_children_def\<close>)
  have P: "(k, Some l, None) \<in> ?D" if "lastLevel (joins s k) = Some j" for k using that by (simp add: to_children_def)
  have aG: "a \<notin> {}" by simp
  note B = right_block [OF st hit iD P aG]
  have i: "net_inv h Js ?D ?M {} {} ?t" by (rule B(1))
  note f = remarked_fields [OF B(3)]
  have "(Some l, None) \<in> due h {} ?t j"
    using n nn l B(4) by (simp add: due_def wanted_def slots_def Let_def positive_def free_of_def f(1,5))
  moreover have "left_spec h Js NETWORK_ASSERT (joins ?t) k" if "k \<in> Js" "lastLevel (joins ?t k) = Some j" for k
    by (rule left_spec_all [OF ok that(1)]) (use that in auto)
  ultimately have "drivable h Js NETWORK_ASSERT ?D ?M {} j (Some l, None) ?t"
    using i S(2) skips_assert by (simp add: drivable_def to_children_def f(1))
  from drive [OF this B(3) f(3)] show ?thesis
  proof (rule reaches_mono)
    fix u assume u: "driven h Js NETWORK_ASSERT ?D ?M {} j (Some l, None) ?t u"
    then have iu: "net_inv h Js (?D - to_children (joins ?t) j (Some l, None)) ?M {} {} u" and fu: "frame h Js j {l} ?t u"
      by (simp_all add: driven_def)
    have D: "?D - to_children (joins ?t) j (Some l, None) = D" using S(5) by (auto simp: to_children_def f(1))
    have fr: "frame h Js j {l} s u" by (rule frame_trans [OF remarked_frame(1) [OF B(3)] fu])
    have y: "y = None" if "(Some l, y) \<in> due h {} u j" for y
      using that l(2) by (auto simp: due_def slots_def Let_def positive_def frame_fields(1) [OF fr] split: if_splits)
    show "right_done h Js D M j a {l} s u"
      by (rule right_result [OF st l(1) iu [unfolded D] fr]) (use y S(5) in auto)
  qed
qed

text \<open>A positive pattern: the pair is driven on.\<close>

lemma right_positive:
  assumes ok: "matcher_ok h" and st: "right_start h Js D M j a s" and l: "l \<in> lmem s j" and pos: "positive (joins s j)" "\<not> firstJoin (joins s j)"
    and p: "pair_ok h (joins s j) (bnd s l) (bnd s a)" and D: "\<And>k. lastLevel (joins s k) = Some j \<Longrightarrow> (k, Some l, Some a) \<in> D"
  shows "reaches h NETWORK_ASSERT (\<lambda>rec. PPDrive h rec l (Some a) j s) (right_done h Js D M j a {l} s)"
proof -
  note S = right_startD [OF st]
  obtain q where q: "rightSideEntryStructure (joins s j) = PatternEntry q" using entry_alphas_alpha [OF S(3)] by blast
  have d: "(Some l, Some a) \<in> due h {} s j" by (rule due_leftI(4) [OF S(1,2) pos(2) l _ q pos(1) S(3) _ p]) simp_all
  have "left_spec h Js NETWORK_ASSERT (joins s) k" if "k \<in> Js" "lastLevel (joins s k) = Some j" for k
    by (rule left_spec_all [OF ok that(1)]) (use that in auto)
  then have "drivable h Js NETWORK_ASSERT D M {} j (Some l, Some a) s"
    using S(1,2) skips_assert d D by (simp add: drivable_def)
  from PPDrive_driven [OF this pos(2)] show ?thesis
  proof (rule reaches_mono)
    fix t assume t: "driven h Js NETWORK_ASSERT D M {} j (Some l, Some a) s t"
    then have it: "net_inv h Js (D - right_pairs (joins s) j a {l}) M {} {} t" and fr: "frame h Js j {l} s t"
      by (simp_all add: driven_def right_pairs_def to_children_def)
    note f = frame_fields [OF fr]
    have lt: "l \<in> lmem t j" using f(7) [OF S(2) not_below_self [OF S(1,2)]] l by simp
    have "net_inv h Js (D - right_pairs (joins s) j a {l}) (M - {l} \<times> {a}) {} {} t"
    proof (rule inv_M [OF it])
      fix i l' assume l': "i \<in> Js" "l' \<in> lmem t i"
      show "mark_ok h (M - {l} \<times> {a}) {} t i l'"
      proof (cases "l' = l")
        case True
        have "i = j" using lmem_unique [OF it S(2) l'(1) lt] l'(2) True by simp
        then show ?thesis using inv_mark [OF it l'] pos(1) by (auto simp: mark_ok_def Let_def f(1) split: if_splits)
      next
        case False
        from inv_mark [OF it l'] show ?thesis by (rule mark_ok_keep) (simp_all add: False)
      qed
    qed (use inv_bounds(2) [OF it] in auto)
    then show "right_done h Js D M j a {l} s t" using fr by (simp add: right_done_def)
  qed
qed

text \<open>The tests of a pair.\<close>

lemma right_pair_test:
  fixes l a :: addr
  assumes n: "net_ok h Js (joins s) H" and j: "j \<in> Js"
  defines "u \<equiv> compare_count j s"
  defines "t \<equiv> (if secondaryNetworkTest (joins s j) \<noteq> [] \<and> fst (pair_test h j l a u)
    then secondary_test h j l a (snd (pair_test h j l a u)) else pair_test h j l a u)"
  shows "fst t = (pair_ok h (joins s j) (bnd s l) (bnd s a) \<and> sec_ok h (joins s j) (bnd s l))" "silent s (snd t)"
proof -
  have u: "silent s u" "joins u = joins s" "pms u = pms s" by (simp_all add: u_def)
  have q: "silent u (snd (pair_test h j l a u))" by (rule pair_test_value(2))
  note f = silent_fields [OF q]
  show "silent s (snd t)"
    using silent_trans [OF u(1) q] silent_trans [OF silent_trans [OF u(1) q] secondary_test_value(2)] by (simp add: t_def)
  show "fst t = (pair_ok h (joins s j) (bnd s l) (bnd s a) \<and> sec_ok h (joins s j) (bnd s l))"
    using net_tests(7) [OF n j, of "bnd s l" "bnd s a"]
    by (auto simp: t_def sec_ok_def pair_test_value(1) secondary_test_value(1) f u)
qed

lemma assert_right_step:
  assumes n: "net_ok h Js (joins s) H" and j: "j \<in> Js"
  shows "\<exists>u. silent s u \<and> (\<forall>rec. assert_right_pair h rec j a l s =
    (if pmHash (pms s l) \<noteq> pmHash (pms s a) \<or> mark s l \<noteq> Unmarked \<or> \<not> (pair_ok h (joins s j) (bnd s l) (bnd s a) \<and> sec_ok h (joins s j) (bnd s l)) then Some u
     else if positive (joins s j) then PPDrive h rec l (Some a) j u
     else if patternIsExists (joins s j) then PPDrive h rec l None j (AddBlockedLink l a u)
     else let t = AddBlockedLink l a u in case pmChildren (pms t l) of [] \<Rightarrow> Some t | c # _ \<Rightarrow> rec (PosEntryRetractBeta l c) t))"
proof -
  define t where "t = (let p = pair_test h j l a (compare_count j s) in if secondaryNetworkTest (joins s j) \<noteq> [] \<and> fst p
    then secondary_test h j l a (snd p) else p)"
  have t: "fst t = (pair_ok h (joins s j) (bnd s l) (bnd s a) \<and> sec_ok h (joins s j) (bnd s l))" "silent s (snd t)"
    unfolding t_def Let_def by (rule right_pair_test [OF n j])+
  define u where "u = (if pmHash (pms s l) \<noteq> pmHash (pms s a) \<or> mark s l \<noteq> Unmarked then compare_count j s else snd t)"
  have "silent s u" using t(2) by (simp add: u_def)
  moreover have "assert_right_pair h rec j a l s =
    (if pmHash (pms s l) \<noteq> pmHash (pms s a) \<or> mark s l \<noteq> Unmarked \<or> \<not> (pair_ok h (joins s j) (bnd s l) (bnd s a) \<and> sec_ok h (joins s j) (bnd s l)) then Some u
     else if positive (joins s j) then PPDrive h rec l (Some a) j u
     else if patternIsExists (joins s j) then PPDrive h rec l None j (AddBlockedLink l a u)
     else let t = AddBlockedLink l a u in case pmChildren (pms t l) of [] \<Rightarrow> Some t | c # _ \<Rightarrow> rec (PosEntryRetractBeta l c) t)" for rec
    unfolding t(1) [symmetric] u_def using net_tests(1) [OF n j]
    by (cases "pmHash (pms s l) \<noteq> pmHash (pms s a) \<or> mark s l \<noteq> Unmarked")
      (auto simp: t_def assert_right_pair_def Let_def case_prod_unfold positive_def prod.expand)
  ultimately show ?thesis by blast
qed

lemma right_start_silent: "right_start h Js D M j a s \<Longrightarrow> silent s t \<Longrightarrow> right_start h Js D M j a t"
  using silent_inv [of s t] silent_fields [of s t] by (simp add: right_start_def)

lemma right_done_silent: "right_done h Js D M j a L t u \<Longrightarrow> silent s t \<Longrightarrow> right_done h Js D M j a L s u"
  using silent_fields(1) [of s t] frame_trans [OF silent_frame [of s t]] by (auto simp: right_done_def)

lemma no_hash_no_pair:
  assumes st: "right_start h Js D M j a s" and l: "l \<in> lmem s j" "\<not> firstJoin (joins s j)" and ne: "pmHash (pms s l) \<noteq> pmHash (pms s a)"
  shows "\<not> pair_ok h (joins s j) (bnd s l) (bnd s a)"
proof
  note S = right_startD [OF st]
  assume p: "pair_ok h (joins s j) (bnd s l) (bnd s a)"
  obtain q where q: "rightSideEntryStructure (joins s j) = PatternEntry q" "a \<in> alphas s q" using entry_alphas_alpha [OF S(3)] by blast
  obtain am where am: "bnd s a = [Some am]" "pmHash (pms s a) = alpha_hash h (headers s q) am" using alphas_match(4) [OF S(1) q(2)] by blast
  have "left_hash h (joins s j) (bnd s l) = alpha_hash h (headers s q) am" using net_hash(2) [OF inv_net [OF S(1)] S(2) q(1) l(2)] p am(1) by simp
  then show False using lmem_match [OF S(1,2) l(1)] am(2) ne by (simp add: left_match_ok_def)
qed

lemma right_one:
  assumes ok: "matcher_ok h" and st: "right_start h Js D M j a s" and l: "l \<in> lmem s j" "\<not> firstJoin (joins s j)"
    and D: "\<And>k. positive (joins s j) \<Longrightarrow> lastLevel (joins s k) = Some j \<Longrightarrow> (k, Some l, Some a) \<in> D"
  shows "reaches h NETWORK_ASSERT (\<lambda>rec. assert_right_pair h rec j a l s) (right_done h Js D M j a {l} s)"
proof -
  note S = right_startD [OF st]
  let ?J = "joins s j" and ?go = "pair_ok h (joins s j) (bnd s l) (bnd s a) \<and> sec_ok h (joins s j) (bnd s l)"
  obtain u where q: "silent s u" and step: "\<And>rec. assert_right_pair h rec j a l s =
    (if pmHash (pms s l) \<noteq> pmHash (pms s a) \<or> mark s l \<noteq> Unmarked \<or> \<not> ?go then Some u
     else if positive ?J then PPDrive h rec l (Some a) j u
     else if patternIsExists ?J then PPDrive h rec l None j (AddBlockedLink l a u)
     else let t = AddBlockedLink l a u in case pmChildren (pms t l) of [] \<Rightarrow> Some t | c # _ \<Rightarrow> rec (PosEntryRetractBeta l c) t)"
    using assert_right_step [OF inv_net [OF S(1)] S(2), where a = a and l = l] by blast
  note f = silent_fields [OF q] and st' = right_start_silent [OF st q]
  obtain e where e: "rightSideEntryStructure ?J = PatternEntry e" using entry_alphas_alpha [OF S(3)] by blast
  have nt: "\<not> terminal ?J" using net_links(5) [OF inv_net [OF S(1)] S(2)] e by auto
  show ?thesis
  proof (cases "pmHash (pms s l) \<noteq> pmHash (pms s a) \<or> mark s l \<noteq> Unmarked \<or> \<not> ?go")
    case True
    have "right_done h Js D M j a {l} s u"
    proof (rule right_skip [OF st _ _ _ q])
      show "{l} \<subseteq> lmem s j" using l(1) by simp
      have n: "\<not> ?go" if "mark s l = Unmarked" using True that no_hash_no_pair [OF st l] by blast
      then show "\<not> (pair_ok h ?J (bnd s l') (bnd s a) \<and> sec_ok h ?J (bnd s l'))" if "l' \<in> {l}" "mark s l' = Unmarked" for l' using that by simp
      have "mark s l = Unmarked \<and> sec_ok h ?J (bnd s l)" if "positive ?J"
        using inv_mark [OF S(1,2) l(1)] nt that net_tests(5) [OF inv_net [OF S(1)] S(2)] by (simp add: mark_ok_def sec_ok_def)
      then show "(Some l', Some a) \<notin> due h {} s j" if "l' \<in> {l}" for l'
        using that n due_left(2,3) [OF S(1,2) l(2), of l "Some a"] e by auto
    qed
    then show ?thesis unfolding step using True by (simp add: reaches_return)
  next
    case False
    have hit: "right_hit h j a l u" if "\<not> positive ?J" using False that l(1) by (simp add: right_hit_def f)
    consider "positive ?J" | "\<not> positive ?J" "patternIsExists ?J" | "\<not> positive ?J" "\<not> patternIsExists ?J" by blast
    then have "reaches h NETWORK_ASSERT (\<lambda>rec. assert_right_pair h rec j a l s) (right_done h Js D M j a {l} u)"
    proof cases
      case 1
      have "reaches h NETWORK_ASSERT (\<lambda>rec. PPDrive h rec l (Some a) j u) (right_done h Js D M j a {l} u)"
        by (rule right_positive [OF ok st']) (use l 1 False D in \<open>simp_all add: f\<close>)
      then show ?thesis unfolding step using False 1 by simp
    next
      case 2
      have "reaches h NETWORK_ASSERT (\<lambda>rec. PPDrive h rec l None j (AddBlockedLink l a u)) (right_done h Js D M j a {l} u)"
        using l(2) by (intro right_exists [OF ok st' hit [OF 2(1)]]) (simp_all add: 2(2) f PPDrive_driven remarked_fields(1))
      then show ?thesis unfolding step using False 2 by simp
    next
      case 3
      have "reaches h NETWORK_ASSERT (\<lambda>rec. let t = AddBlockedLink l a u in case pmChildren (pms t l) of [] \<Rightarrow> Some t | c # _ \<Rightarrow> rec (PosEntryRetractBeta l c) t)
          (right_done h Js D M j a {l} u)"
        by (rule right_negated [OF ok st' hit [OF 3(1)]]) (use 3 in \<open>simp add: positive_def f\<close>)
      then show ?thesis unfolding step using False 3 by simp
    qed
    then show ?thesis by (rule reaches_mono) (rule right_done_silent [OF _ q])
  qed
qed

text \<open>All left matches: those outside the bucket do not go with the new match.\<close>

lemma left_memory_bucket:
  assumes i: "net_inv h Js D M G Z s" and j: "j \<in> Js" "has_left (joins s j)"
  shows "set (GetLeftBetaMemory j hv s) \<subseteq> lmem s j" "l \<in> lmem s j \<Longrightarrow> pmHash (pms s l) = hv \<Longrightarrow> l \<in> set (GetLeftBetaMemory j hv s)"
    "distinct (GetLeftBetaMemory j hv s)"
proof -
  obtain m where m: "leftMemories s j = Some m" "memory_ok (\<lambda>p. pmHash (pms s p)) m" using inv_memory [OF i j] by blast
  have g: "GetLeftBetaMemory j hv s = beta m ! bucket_of hv m" using m(1) by (simp add: GetLeftBetaMemory_def memory_of_def)
  have ne: "beta m \<noteq> []" and d: "distinct (mem_contents m)" and b: "in_buckets (\<lambda>p. pmHash (pms s p)) m" using m(2) by (simp_all add: memory_ok_def)
  have lt: "bucket_of hv m < mem_size m" by (rule bucket_of_less [OF ne])
  have s: "lmem s j = set (mem_contents m)" using m(1) by (simp add: lmem_def)
  show "set (GetLeftBetaMemory j hv s) \<subseteq> lmem s j" using lt nth_mem unfolding g s mem_contents_def by fastforce
  show "distinct (GetLeftBetaMemory j hv s)" using d lt unfolding g mem_contents_def by (simp add: distinct_concat_iff)
  show "l \<in> set (GetLeftBetaMemory j hv s)" if "l \<in> lmem s j" "pmHash (pms s l) = hv"
    using mem_contents_bucket [OF b, of l] that unfolding g s by simp
qed

lemma right_loop:
  assumes ok: "matcher_ok h" and st: "right_start h Js D M j a s" and nf: "\<not> firstJoin (joins s j)"
    and D: "\<And>k l. positive (joins s j) \<Longrightarrow> lastLevel (joins s k) = Some j \<Longrightarrow> l \<in> lmem s j \<Longrightarrow> (k, Some l, Some a) \<in> D"
  shows "reaches h NETWORK_ASSERT (\<lambda>rec. fold_option (assert_right_pair h rec j a) (GetLeftBetaMemory j (pmHash (pms s a)) s) s)
    (right_done h Js D M j a (lmem s j) s)"
proof -
  note S = right_startD [OF st]
  let ?ls = "GetLeftBetaMemory j (pmHash (pms s a)) s"
  have hl: "has_left (joins s j)" using nf by (simp add: has_left_def)
  note B = left_memory_bucket [OF S(1,2) hl, where hv = "pmHash (pms s a)"]
  have "reaches h NETWORK_ASSERT (\<lambda>rec. fold_option (assert_right_pair h rec j a) ?ls s) (right_done h Js D M j a (set ?ls) s)"
  proof (rule reaches_fold [where I = "\<lambda>ys. right_done h Js D M j a (set ys) s"])
    show "right_done h Js D M j a (set []) s s" by (rule right_skip [OF st]) simp_all
    fix ys l zs t assume ls: "?ls = ys @ l # zs" and t: "right_done h Js D M j a (set ys) s t"
    have fr: "frame h Js j (set ys) s t" using t by (simp add: right_done_def)
    note F = frame_fields [OF fr]
    have lj: "lmem t j = lmem s j" by (rule F(7) [OF S(2) not_below_self [OF S(1,2)]])
    have l: "l \<in> lmem s j" "l \<notin> set ys" using B(1,3) ls by auto
    have "reaches h NETWORK_ASSERT (\<lambda>rec. assert_right_pair h rec j a l t)
        (right_done h Js (D - right_pairs (joins s) j a (set ys)) (M - set ys \<times> {a}) j a {l} t)"
      by (rule right_one [OF ok right_start_done [OF st t]]) (use l nf D in \<open>auto simp: lj F(1) right_pairs_def\<close>)
    then show "reaches h NETWORK_ASSERT (\<lambda>rec. assert_right_pair h rec j a l t) (right_done h Js D M j a (set (ys @ [l])) s)"
      by (rule reaches_mono) (use right_trans [OF t, of "{l}"] in simp)
  qed
  then show ?thesis
  proof (rule reaches_mono)
    fix t assume t: "right_done h Js D M j a (set ?ls) s t"
    have fr: "frame h Js j (set ?ls) s t" using t by (simp add: right_done_def)
    note F = frame_fields [OF fr]
    have lj: "lmem t j = lmem s j" by (rule F(7) [OF S(2) not_below_self [OF S(1,2)]])
    have at: "a < nextMatch s" by (rule entry_alphas_less [OF S(1,3)])
    note T = right_start_done [OF st t]
    have np: "\<not> pair_ok h (joins t j) (bnd t l) (bnd t a)" if "l \<in> lmem s j - set ?ls" for l
      using no_hash_no_pair [OF st _ nf, of l] B(2) [of l] that lmem_less [OF S(1,2), of l] at by (auto simp: F(1,5))
    have "right_done h Js (D - right_pairs (joins s) j a (set ?ls)) (M - set ?ls \<times> {a}) j a (lmem s j - set ?ls) t t"
    proof (rule right_skip [OF T])
      show "(Some l, Some a) \<notin> due h {} t j" if "l \<in> lmem s j - set ?ls" for l
      proof
        assume d: "(Some l, Some a) \<in> due h {} t j"
        obtain e where e: "rightSideEntryStructure (joins s j) = PatternEntry e" using entry_alphas_alpha [OF S(3)] by blast
        show False using due_left(2,3) [OF right_startD(1,2) [OF T] _ d] np [OF that] nf e by (cases "positive (joins s j)") (auto simp: F(1))
      qed
    qed (use np lj in auto)
    from right_trans [OF t this] show "right_done h Js D M j a (lmem s j) s t" using B(1) by (simp add: Un_absorb1)
  qed
qed

section \<open>The first join\<close>

text \<open>The left memory of a first join with a negated or existential pattern holds one match, made when the join was.\<close>

lemma first_memory:
  assumes i: "net_inv h Js D M G Z s" and j: "j \<in> Js" "firstJoin (joins s j)"
  shows "positive (joins s j) \<Longrightarrow> lmem s j = {}" "\<not> positive (joins s j) \<Longrightarrow> lmem s j = {left_parent j s}"
    "\<not> positive (joins s j) \<Longrightarrow> bnd s (left_parent j s) = [None]"
proof -
  have L: "left_memory_ok h s j" using inv_parts(2) [OF i] j(1) by (simp add: memories_ok_def)
  show "lmem s j = {}" if "positive (joins s j)" using L that j(2) by (simp add: left_memory_ok_def has_left_def lmem_def)
  show 1: "lmem s j = {left_parent j s}" if n: "\<not> positive (joins s j)"
  proof -
    obtain q m where "leftMemories s j = Some m" "beta m = [[q]]" using L j(2) n by (auto simp: left_memory_ok_def has_left_def)
    then show ?thesis by (simp add: lmem_def mem_contents_def left_parent_def memory_of_def)
  qed
  show "bnd s (left_parent j s) = [None]" if "\<not> positive (joins s j)"
    using lmem_match [OF i j(1), of "left_parent j s"] 1 [OF that] j(2) by (simp add: left_match_ok_def)
qed

lemma left_parent_cong: "leftMemories t = leftMemories s \<Longrightarrow> left_parent j t = left_parent j s"
  by (simp add: left_parent_def memory_of_def)

definition right_finished :: "'e matcher \<Rightarrow> addr set \<Rightarrow> (addr \<times> pointer \<times> pointer) set \<Rightarrow> (addr \<times> addr) set \<Rightarrow> addr \<Rightarrow> addr \<Rightarrow> 'e rete \<Rightarrow> 'e rete \<Rightarrow> bool" where
  "right_finished h Js D M j a s t \<longleftrightarrow> net_inv h Js (D - {k. lastLevel (joins s k) = Some j} \<times> (UNIV \<times> {Some a})) (M - lmem s j \<times> {a}) {} {} t \<and>
     frame h Js j (lmem s j) s t"

lemma right_finish:
  assumes st: "right_start h Js D M j a s" and d: "right_done h Js D M j a (lmem s j) s t" and n: "\<not> (firstJoin (joins s j) \<and> positive (joins s j))"
  shows "right_finished h Js D M j a s t"
proof -
  note S = right_startD [OF st]
  have it: "net_inv h Js (D - right_pairs (joins s) j a (lmem s j)) (M - lmem s j \<times> {a}) {} {} t" and fr: "frame h Js j (lmem s j) s t"
    using d by (simp_all add: right_done_def)
  note F = frame_fields [OF fr]
  have lj: "lmem t j = lmem s j" by (rule F(7) [OF S(2) not_below_self [OF S(1,2)]])
  have "net_inv h Js (D - {k. lastLevel (joins s k) = Some j} \<times> (UNIV \<times> {Some a})) (M - lmem s j \<times> {a}) {} {} t"
  proof (rule inv_D [OF it])
    fix k i xy assume k: "k \<in> Js" "lastLevel (joins t k) = Some i" "xy \<in> due h {} t i"
    have "xy \<in> slots t i" using k(3) by (simp add: due_def)
    then have "fst xy \<in> Some ` lmem s j" if "i = j" using that n lj by (auto simp: slots_def Let_def F(1) split: if_splits)
    then show "(k, xy) \<in> D - right_pairs (joins s) j a (lmem s j) \<longleftrightarrow> (k, xy) \<in> D - {k. lastLevel (joins s k) = Some j} \<times> (UNIV \<times> {Some a})"
      using k(2) by (cases xy) (auto simp: right_pairs_def F(1))
  next
    show "l < nextMatch t" if "(k, Some l, y) \<in> D - {k. lastLevel (joins s k) = Some j} \<times> (UNIV \<times> {Some a})" for k l y
      using inv_bounds(1) [OF S(1)] that F(3) by (meson DiffD1 order_less_le_trans)
  qed
  then show ?thesis using fr by (simp add: right_finished_def)
qed

lemma first_positive:
  assumes ok: "matcher_ok h" and st: "right_start h Js D M j a s" and f: "firstJoin (joins s j)" "positive (joins s j)"
    and D: "\<And>k. lastLevel (joins s k) = Some j \<Longrightarrow> (k, None, Some a) \<in> D" and p: "first_ok h (joins s j) (bnd s a)"
  shows "reaches h NETWORK_ASSERT (\<lambda>rec. drive_first h rec j a s) (right_finished h Js D M j a s)"
proof -
  note S = right_startD [OF st]
  have xy: "(None, Some a) = (if patternIsExists (joins s j) then (Some (left_parent j s), None) else (None, Some a))" using f(2) by (simp add: positive_def)
  have "(None, Some a) \<in> due h {} s j" using f p S(3) by (simp add: due_def slots_def wanted_def Let_def free_of_def)
  moreover have "left_spec h Js NETWORK_ASSERT (joins s) k" if "k \<in> Js" "lastLevel (joins s k) = Some j" for k
    by (rule left_spec_all [OF ok that(1)]) (use that in auto)
  ultimately have "drivable h Js NETWORK_ASSERT D M {} j (None, Some a) s" using S(1,2) skips_assert D by (simp add: drivable_def)
  from drive_first_driven [OF this f(1) xy] show ?thesis
  proof (rule reaches_mono)
    fix t assume "driven h Js NETWORK_ASSERT D M {} j (None, Some a) s t"
    then have it: "net_inv h Js (D - to_children (joins s) j (None, Some a)) M {} {} t" and fr: "frame h Js j {} s t" by (simp_all add: driven_def)
    note F = frame_fields [OF fr]
    have "net_inv h Js (D - {k. lastLevel (joins s k) = Some j} \<times> (UNIV \<times> {Some a})) M {} {} t"
    proof (rule inv_D [OF it])
      fix k i xy assume k: "k \<in> Js" "lastLevel (joins t k) = Some i" "xy \<in> due h {} t i"
      have "xy \<in> slots t i" using k(3) by (simp add: due_def)
      then have "fst xy = None" if "i = j" using that f by (auto simp: slots_def Let_def F(1) split: if_splits)
      then show "(k, xy) \<in> D - to_children (joins s) j (None, Some a) \<longleftrightarrow> (k, xy) \<in> D - {k. lastLevel (joins s k) = Some j} \<times> (UNIV \<times> {Some a})"
        using k(2) by (cases xy) (auto simp: to_children_def F(1))
    next
      show "l < nextMatch t" if "(k, Some l, y) \<in> D - {k. lastLevel (joins s k) = Some j} \<times> (UNIV \<times> {Some a})" for k l y
        using inv_bounds(1) [OF S(1)] that F(3) by (meson DiffD1 order_less_le_trans)
    qed
    then show "right_finished h Js D M j a s t" using fr first_memory(1) [OF S(1,2) f] by (simp add: right_finished_def)
  qed
qed

lemma first_nothing:
  assumes st: "right_start h Js D M j a s" and f: "firstJoin (joins s j)" "positive (joins s j)" and p: "\<not> first_ok h (joins s j) (bnd s a)" and q: "silent s t"
  shows "right_finished h Js D M j a s t"
proof -
  note S = right_startD [OF st]
  have nd: "(x, Some a) \<notin> due h {} s j" for x using f p by (auto simp: due_def wanted_def slots_def Let_def)
  have "net_inv h Js (D - {k. lastLevel (joins s k) = Some j} \<times> (UNIV \<times> {Some a})) M {} {} s"
    by (rule inv_D [OF S(1)]) (use nd inv_bounds(1) [OF S(1)] in auto)
  then show ?thesis
    using silent_inv [OF q] silent_frame [OF q] first_memory(1) [OF S(1,2) f] by (simp add: right_finished_def)
qed

lemma EmptyDrive_step:
  assumes n: "net_ok h Js (joins s) H" and j: "j \<in> Js"
  shows "\<exists>u. silent s u \<and> (\<forall>rec. EmptyDrive h rec j a s =
    (if \<not> first_ok h (joins s j) (bnd s a) then Some u
     else if positive (joins s j) then drive_first h rec j a u
     else if mark s (left_parent j s) \<noteq> Unmarked then Some u
     else if patternIsExists (joins s j) then drive_first h rec j a (AddBlockedLink (left_parent j s) a u)
     else let t = AddBlockedLink (left_parent j s) a u
       in case pmChildren (pms t (left_parent j s)) of [] \<Rightarrow> Some t | c # _ \<Rightarrow> rec (PosEntryRetractBeta (left_parent j s) c) t))"
proof -
  let ?J = "joins s j"
  define r where "r = first_test h j a (networkTest ?J) s"
  define w where "w = first_test h j a (secondaryNetworkTest ?J) (snd r)"
  have r: "fst r = (networkTest ?J = [] \<or> fst (EvaluateJoinExpression h (networkTest ?J) None (Some (bnd s a))))" "silent s (snd r)"
    unfolding r_def by (rule first_test_value)+
  have w: "fst w = (secondaryNetworkTest ?J = [] \<or> fst (EvaluateJoinExpression h (secondaryNetworkTest ?J) None (Some (bnd s a))))" "silent (snd r) (snd w)"
    unfolding w_def using first_test_value(1) [of h j a "secondaryNetworkTest ?J" "snd r"] first_test_value(2) [of "snd r" h j a "secondaryNetworkTest ?J"] by (simp_all add: silent_fields(5) [OF r(2)])
  have fo: "first_ok h ?J (bnd s a) \<longleftrightarrow> fst r \<and> fst w" using r(1) w(1) by (simp add: first_ok_def)
  define u where "u = (if fst r then snd w else snd r)"
  have q: "silent s u" using r(2) silent_trans [OF r(2) w(2)] by (simp add: u_def)
  note f = silent_fields [OF silent_trans [OF r(2) w(2)]]
  have lp: "left_parent j (snd w) = left_parent j s" by (rule left_parent_cong [OF f(4)])
  have "EmptyDrive h rec j a s = (if \<not> fst r then Some (snd r) else if \<not> fst w then Some (snd w)
     else if positive ?J then drive_first h rec j a (snd w)
     else if mark s (left_parent j s) \<noteq> Unmarked then Some (snd w)
     else if patternIsExists ?J then drive_first h rec j a (AddBlockedLink (left_parent j s) a (snd w))
     else let t = AddBlockedLink (left_parent j s) a (snd w)
       in case pmChildren (pms t (left_parent j s)) of [] \<Rightarrow> Some t | c # _ \<Rightarrow> rec (PosEntryRetractBeta (left_parent j s) c) t)" for rec
    using net_tests(1,2) [OF n j] by (auto simp: EmptyDrive_def Let_def case_prod_unfold r_def [symmetric] w_def [symmetric] positive_def lp f(5))
  then show ?thesis using q unfolding fo u_def by (intro exI [of _ u]) (simp add: u_def)
qed

lemma first_spec:
  assumes ok: "matcher_ok h" and st: "right_start h Js D M j a s" and f: "firstJoin (joins s j)"
    and D: "\<And>k. positive (joins s j) \<Longrightarrow> lastLevel (joins s k) = Some j \<Longrightarrow> (k, None, Some a) \<in> D"
  shows "reaches h NETWORK_ASSERT (\<lambda>rec. EmptyDrive h rec j a s) (right_finished h Js D M j a s)"
proof -
  note S = right_startD [OF st]
  let ?J = "joins s j" and ?l = "left_parent j s"
  obtain u where q: "silent s u" and step: "\<And>rec. EmptyDrive h rec j a s =
    (if \<not> first_ok h ?J (bnd s a) then Some u
     else if positive ?J then drive_first h rec j a u
     else if mark s ?l \<noteq> Unmarked then Some u
     else if patternIsExists ?J then drive_first h rec j a (AddBlockedLink ?l a u)
     else let t = AddBlockedLink ?l a u in case pmChildren (pms t ?l) of [] \<Rightarrow> Some t | c # _ \<Rightarrow> rec (PosEntryRetractBeta ?l c) t)"
    using EmptyDrive_step [OF inv_net [OF S(1)] S(2), where a = a] by blast
  note g = silent_fields [OF q] and st' = right_start_silent [OF st q]
  show ?thesis
  proof (cases "positive ?J")
    case True
    have fin: "right_finished h Js D M j a s t" if "right_finished h Js D M j a u t" for t
      using that frame_trans [OF silent_frame [OF q]] by (auto simp: right_finished_def g)
    have "reaches h NETWORK_ASSERT (\<lambda>rec. drive_first h rec j a u) (right_finished h Js D M j a s)" if "first_ok h ?J (bnd s a)"
      by (rule reaches_mono [OF first_positive [OF ok st']]) (use f True D that fin in \<open>simp_all add: g\<close>)
    moreover have "right_finished h Js D M j a s u" if "\<not> first_ok h ?J (bnd s a)" by (rule first_nothing [OF st f True that q])
    ultimately show ?thesis unfolding step using True by (cases "first_ok h ?J (bnd s a)") (simp_all add: reaches_return)
  next
    case False
    note FM = first_memory(2,3) [OF S(1,2) f False]
    have l: "?l \<in> lmem s j" by (simp add: FM)
    have nt: "networkTest ?J = []" using net_tests(6) [OF inv_net [OF S(1)] S(2) f] False by simp
    have fo: "first_ok h ?J (bnd s a) \<longleftrightarrow> sec_ok h ?J (bnd s ?l)"
      using net_tests(8) [OF inv_net [OF S(1)] S(2)] by (simp add: first_ok_def sec_ok_def nt FM(2))
    have po: "pair_ok h ?J (bnd s ?l) (bnd s a)" by (simp add: pair_ok_def nt)
    have lu: "left_parent j u = ?l" by (rule left_parent_cong [OF g(4)])
    have hit: "right_hit h j a ?l u" if "first_ok h ?J (bnd s a)" "mark s ?l = Unmarked"
      using that l False po fo by (simp add: right_hit_def g)
    have "reaches h NETWORK_ASSERT (\<lambda>rec. EmptyDrive h rec j a s) (right_done h Js D M j a {?l} s)"
    proof (cases "first_ok h ?J (bnd s a) \<and> mark s ?l = Unmarked")
      case no: False
      have "right_done h Js D M j a {?l} s u"
        by (rule right_skip [OF st _ _ _ q]) (use no fo l False in \<open>auto simp: due_def slots_def Let_def\<close>)
      then show ?thesis unfolding step using no False by (cases "first_ok h ?J (bnd s a)") (simp_all add: reaches_return)
    next
      case yes: True
      have "reaches h NETWORK_ASSERT (\<lambda>rec. EmptyDrive h rec j a s) (right_done h Js D M j a {?l} u)"
      proof (cases "patternIsExists ?J")
        case True
        have "reaches h NETWORK_ASSERT (\<lambda>rec. drive_first h rec j a (AddBlockedLink ?l a u)) (right_done h Js D M j a {?l} u)"
        proof (rule right_exists [OF ok st' hit])
          fix D' M' t
          assume d: "drivable h Js NETWORK_ASSERT D' M' {} j (Some ?l, None) t" and r: "remarked ?l u t" and lm: "leftMemories t = leftMemories u"
          show "reaches h NETWORK_ASSERT (\<lambda>rec. drive_first h rec j a t) (driven h Js NETWORK_ASSERT D' M' {} j (Some ?l, None) t)"
            by (rule drive_first_driven [OF d]) (use f True left_parent_cong [OF lm, of j] lu in \<open>simp_all add: remarked_fields(1) [OF r] g\<close>)
        qed (use yes True in \<open>simp_all add: g\<close>)
        then show ?thesis unfolding step using yes False True by simp
      next
        case ne: False
        have "reaches h NETWORK_ASSERT (\<lambda>rec. let t = AddBlockedLink ?l a u in case pmChildren (pms t ?l) of [] \<Rightarrow> Some t | c # _ \<Rightarrow> rec (PosEntryRetractBeta ?l c) t)
            (right_done h Js D M j a {?l} u)"
          by (rule right_negated [OF ok st' hit]) (use yes False ne in \<open>simp_all add: positive_def g\<close>)
        then show ?thesis unfolding step using yes False ne by simp
      qed
      then show ?thesis by (rule reaches_mono) (rule right_done_silent [OF _ q])
    qed
    then show ?thesis by (rule reaches_mono) (use right_finish [OF st] False in \<open>simp add: FM(1)\<close>)
  qed
qed

section \<open>Assertions from the right\<close>

theorem right_spec:
  assumes ok: "matcher_ok h" and st: "right_start h Js D M j a s"
    and D: "\<And>k x. positive (joins s j) \<Longrightarrow> lastLevel (joins s k) = Some j \<Longrightarrow> x \<in> insert None (Some ` lmem s j) \<Longrightarrow> (k, x, Some a) \<in> D"
  shows "reaches h NETWORK_ASSERT (\<lambda>rec. rec (NetworkAssertRight a j) s) (right_finished h Js D M j a s)"
proof (rule reaches_right)
  note S = right_startD [OF st]
  have inc: "\<not> (IncrementalResetInProgress s \<and> \<not> initialize (joins s j))" using inv_parts(1) [OF S(1)] by (simp add: static_ok_def)
  show "reaches h NETWORK_ASSERT (\<lambda>rec. assert_right h rec a j s) (right_finished h Js D M j a s)"
  proof (cases "firstJoin (joins s j)")
    case True
    then show ?thesis unfolding assert_right_def if_not_P [OF inc] using first_spec [OF ok st True] D by simp
  next
    case False
    have "reaches h NETWORK_ASSERT (\<lambda>rec. fold_option (assert_right_pair h rec j a) (GetLeftBetaMemory j (pmHash (pms s a)) s) s)
        (right_done h Js D M j a (lmem s j) s)" by (rule right_loop [OF ok st False]) (use D in simp)
    then show ?thesis unfolding assert_right_def if_not_P [OF inc] using False by (auto intro: reaches_mono right_finish [OF st])
  qed
qed

lemma NetworkAssert_spec:
  assumes ok: "matcher_ok h" and st: "right_start h Js D M j a s"
    and D: "\<And>k x. positive (joins s j) \<Longrightarrow> lastLevel (joins s k) = Some j \<Longrightarrow> x \<in> insert None (Some ` lmem s j) \<Longrightarrow> (k, x, Some a) \<in> D"
  shows "reaches h NETWORK_ASSERT (\<lambda>rec. NetworkAssert h rec a j s) (right_finished h Js D M j a s)"
proof -
  have inc: "\<not> (IncrementalResetInProgress s \<and> \<not> initialize (joins s j))" using inv_parts(1) [OF right_startD(1) [OF st]] by (simp add: static_ok_def)
  show ?thesis
  proof (cases "firstJoin (joins s j)")
    case True
    show ?thesis unfolding NetworkAssert_def if_not_P [OF inc] if_P [OF True] by (rule first_spec [OF ok st True]) (rule D, simp_all)
  next
    case False
    show ?thesis unfolding NetworkAssert_def if_not_P [OF inc] if_not_P [OF False] by (rule right_spec [OF ok st D])
  qed
qed

end
