(* ===== verification/Join_Lists.thy ===== *)
theory Join_Lists
  imports Join_Network
begin

text \<open>
  The lists of the patterns that a fact matches: only a new alpha match changes them, so they are the same after any call into the
  network.
\<close>

section \<open>Operations of the memories\<close>

lemma lists_reteutil [simp]:
  "matchLists (upd_pm p f s) = matchLists s" "matchLists (set_memory d j m s) = matchLists s" "matchLists (count_add d j s) = matchLists s"
  "matchLists (count_delete d j s) = matchLists s" "matchLists (upd_alpha hv g s) = matchLists s" "matchLists (upd_header p k s) = matchLists s"
  "matchLists (push_child q p s) = matchLists s" "matchLists (drop_child q p s) = matchLists s"
  "matchLists (unlink_blocked p s) = matchLists s" "matchLists (snd (alloc_match m' s)) = matchLists s" "matchLists (compare_count j s) = matchLists s"
  by (simp_all add: upd_pm_def set_memory_def count_add_def count_delete_def upd_alpha_def upd_header_def push_child_def drop_child_def
      unlink_blocked_def alloc_match_def compare_count_def split: direction.split option.split marking.split)

lemma lists_links [simp]:
  "matchLists (UpdateBetaPMLinks p x y j hv d s) = matchLists s" "matchLists (AddBlockedLink l r s) = matchLists s"
  "matchLists (RemoveBlockedLink l s) = matchLists s"
  by (simp_all add: UpdateBetaPMLinks_def AddBlockedLink_def RemoveBlockedLink_def Let_def)

lemma lists_unlinks [simp]:
  "matchLists (unlink_from_memory d j p s) = matchLists s" "matchLists (reset_if_empty d j s) = matchLists s"
  "matchLists (UnlinkNonLeftLineage j p d s) = matchLists s"
  by (simp_all add: unlink_from_memory_def reset_if_empty_def UnlinkNonLeftLineage_def Let_def)

lemma lists_fold: "(\<And>x s. matchLists (f x s) = matchLists s) \<Longrightarrow> matchLists (fold f xs s) = matchLists s"
  by (induction xs arbitrary: s) auto

lemma lists_lineage [simp]:
  "matchLists (UnlinkBetaPartialMatchfromAlphaAndBetaLineage p s) = matchLists s"
  "matchLists (UnlinkBetaPMFromNodeAndLineage j p d s) = matchLists s"
  by (simp_all add: UnlinkBetaPMFromNodeAndLineage_def UnlinkBetaPartialMatchfromAlphaAndBetaLineage_def Let_def lists_fold)

lemma lists_give_back [simp]:
  "matchLists (ReturnPartialMatch h p s) = matchLists s" "matchLists (remove_support h p s) = matchLists s"
  "matchLists (remove_activation h p s) = matchLists s" "matchLists (DeletePartialMatches h ps s) = matchLists s"
  by (simp_all add: ReturnPartialMatch_def remove_support_def remove_activation_def DeletePartialMatches_def lists_fold
      split: option.split marking.split)

lemma lists_alpha [simp]: "matchLists (RemoveAlphaMemoryMatches p a s) = matchLists s"
  by (simp add: RemoveAlphaMemoryMatches_def UnlinkAlphaMemory_def Let_def split: option.split)

section \<open>Tests\<close>

lemma lists_tests [simp]:
  "matchLists (snd (join_eval h j ts x y s)) = matchLists s"
  "matchLists (snd (EvaluateSecondaryNetworkTest h l j s)) = matchLists s" "matchLists (snd (pair_test h j l r s)) = matchLists s"
  "matchLists (snd (secondary_test h j l r s)) = matchLists s" "matchLists (snd (first_test h j r ts s)) = matchLists s"
proof -
  show j: "matchLists (snd (join_eval h j ts x y s)) = matchLists s" for ts x y by (simp add: join_eval_def split: prod.split)
  show "matchLists (snd (EvaluateSecondaryNetworkTest h l j s)) = matchLists s" "matchLists (snd (pair_test h j l r s)) = matchLists s"
    "matchLists (snd (secondary_test h j l r s)) = matchLists s" "matchLists (snd (first_test h j r ts s)) = matchLists s"
    by (simp_all add: EvaluateSecondaryNetworkTest_def pair_test_def secondary_test_def first_test_def case_prod_unfold Let_def j)
qed

lemma lists_conflict [simp]: "matchLists (snd (FindNextConflictingMatch h opn l rs j a s)) = matchLists s"
proof -
  have c: "matchLists (snd (conflicts h opn j l a r s)) = matchLists s" for r s
    by (simp add: conflicts_def Let_def case_prod_unfold)
  show ?thesis by (induction rs arbitrary: s) (simp_all add: Let_def case_prod_unfold c)
qed

section \<open>Calls\<close>

text \<open>A function that may fail keeps the lists if it returns.\<close>

definition keeps :: "('e rete \<Rightarrow> 'e rete option) \<Rightarrow> bool" where
  "keeps B \<longleftrightarrow> (\<forall>s t. B s = Some t \<longrightarrow> matchLists t = matchLists s)"

lemma keepsD: "keeps B \<Longrightarrow> B s = Some t \<Longrightarrow> matchLists t = matchLists s"
  by (simp add: keeps_def)

lemma fold_option_lists:
  assumes "\<And>x. keeps (f x)" "fold_option f xs s = Some t"
  shows "matchLists t = matchLists s"
  using assms(2) by (induction xs arbitrary: s) (auto simp: bind_eq_Some_conv dest!: keepsD [OF assms(1)])

lemma PPDrive_lists:
  assumes "\<And>c. keeps (rec c)" "PPDrive h rec l r j s = Some t"
  shows "matchLists t = matchLists s"
proof (rule fold_option_lists [OF _ assms(2) [unfolded PPDrive_def]])
  show "keeps (case x of (d, k) \<Rightarrow> \<lambda>s. let (p, s1) = MergePartialMatches l r s
       in rec (enter d p k) (UpdateBetaPMLinks p (Some l) r k (link_hash h d k p s1) d s1))" for x
    by (auto simp: keeps_def case_prod_unfold MergePartialMatches_def Let_def dest: keepsD [OF assms(1)])
qed

lemma EPMDrive_lists:
  assumes "\<And>c. keeps (rec c)" "EPMDrive rec l j s = Some t"
  shows "matchLists t = matchLists s"
proof (rule fold_option_lists [OF _ assms(2) [unfolded EPMDrive_def]])
  show "keeps (case x of (d, k) \<Rightarrow> \<lambda>s. let (p, s1) = CreateEmptyPartialMatch s
       in rec (enter d p k) (UpdateBetaPMLinks p (Some l) None k 0 d s1))" for x
    by (auto simp: keeps_def case_prod_unfold CreateEmptyPartialMatch_def Let_def dest: keepsD [OF assms(1)])
qed

lemma drive_first_lists:
  assumes r: "\<And>c. keeps (rec c)" and d: "drive_first h rec j r s = Some t"
  shows "matchLists t = matchLists s"
proof (rule fold_option_lists [OF _ d [unfolded drive_first_def Let_def]])
  show "keeps (case x of (d, k) \<Rightarrow> \<lambda>sa. case if patternIsExists (joins s j) then CreateEmptyPartialMatch sa else CopyPartialMatch r sa of
       (p, s1) \<Rightarrow> rec (enter d p k) (if patternIsExists (joins s j) then UpdateBetaPMLinks p (Some (left_parent j s)) None k (link_hash h d k p s1) d s1
         else UpdateBetaPMLinks p None (Some r) k (link_hash h d k p s1) d s1))" for x
    by (auto simp: keeps_def case_prod_unfold CreateEmptyPartialMatch_def CopyPartialMatch_def dest!: keepsD [OF r])
qed

lemma EmptyDrive_lists:
  assumes r: "\<And>c. keeps (rec c)" and d: "EmptyDrive h rec j a s = Some t"
  shows "matchLists t = matchLists s"
  using d unfolding EmptyDrive_def Let_def case_prod_unfold
  by (auto split: if_splits list.splits dest!: keepsD [OF r] drive_first_lists [OF r])

lemma assert_right_lists:
  assumes r: "\<And>c. keeps (rec c)" and d: "assert_right h rec a j s = Some t"
  shows "matchLists t = matchLists s"
proof -
  have k: "keeps (assert_right_pair h rec j a l)" for l
    unfolding keeps_def assert_right_pair_def Let_def case_prod_unfold
    by (auto split: if_splits list.splits dest!: keepsD [OF r] PPDrive_lists [OF r])
  show ?thesis
    using d EmptyDrive_lists [OF r] fold_option_lists [OF k] by (auto simp: assert_right_def split: if_splits)
qed

lemma assert_left_pairs_lists:
  assumes r: "\<And>c. keeps (rec c)" and d: "assert_left_pairs h rec opn l j rs s = Some t"
  shows "matchLists t = matchLists s"
  using d
proof (induction rs arbitrary: s)
  case (Cons x rs)
  then show ?case
    by (auto simp: Let_def case_prod_unfold bind_eq_Some_conv split: if_splits dest!: PPDrive_lists [OF r])
qed simp

lemma assert_left_lists:
  assumes r: "\<And>c. keeps (rec c)" and d: "assert_left h rec opn l j s = Some t"
  shows "matchLists t = matchLists s"
  using d unfolding assert_left_def Let_def case_prod_unfold
  by (auto simp: bind_eq_Some_conv split: if_splits option.splits dest!: PPDrive_lists [OF r] assert_left_pairs_lists [OF r])

lemma skip_errors_lists: "matchLists (snd (skip_errors ls s)) = matchLists s"
  by (induction ls arbitrary: s) (simp_all add: Let_def)

lemma neg_retract_alpha_lists:
  assumes r: "\<And>c. keeps (rec c)" and d: "neg_retract_alpha h rec opn a s = Some t"
  shows "matchLists t = matchLists s"
proof -
  have "matchLists t = matchLists s" if "NegEntryRetractBeta h rec opn j a l s = Some t" for j l and s t
    using that unfolding NegEntryRetractBeta_def Let_def case_prod_unfold
    by (auto split: if_splits list.splits dest!: keepsD [OF r] PPDrive_lists [OF r] EPMDrive_lists [OF r])
  then show ?thesis
    using d skip_errors_lists [of "pmBlockList (pms s a)" s] unfolding neg_retract_alpha_def
    by (auto simp: bind_eq_Some_conv split: prod.splits option.splits dest!: keepsD [OF r])
qed

lemma pos_retract_beta_lists:
  assumes r: "\<And>c. keeps (rec c)" and d: "pos_retract_beta h rec p b s = Some t"
  shows "matchLists t = matchLists s"
  using d unfolding pos_retract_beta_def Let_def
  by (auto simp: bind_eq_Some_conv split: if_splits list.splits option.splits dest!: keepsD [OF r])

theorem network_lists: "network h opn n c s = Some t \<Longrightarrow> matchLists t = matchLists s"
proof (induction n arbitrary: c s t)
  case (Suc n)
  have r: "keeps (network h opn n c)" for c using Suc.IH by (simp add: keeps_def)
  show ?case
    using Suc.prems
    by (auto split: call.splits dest: assert_left_lists [OF r] assert_right_lists [OF r] pos_retract_beta_lists [OF r] neg_retract_alpha_lists [OF r])
qed simp

lemma NetworkAssert_lists:
  assumes "fold_option (NetworkAssert h (network h opn n) a) js s = Some t"
  shows "matchLists t = matchLists s"
proof (rule fold_option_lists [OF _ assms])
  have r: "keeps (network h opn n c)" for c using network_lists by (auto simp: keeps_def)
  show "keeps (NetworkAssert h (network h opn n) a j)" for j
    using keepsD [OF r] EmptyDrive_lists [OF r] by (auto simp: keeps_def NetworkAssert_def)
qed

end
