(* ===== verification/Join_Assert.thy ===== *)
theory Join_Assert
  imports Join_Right Join_Lists
begin

text \<open>
  A pattern is satisfied: the new alpha match is stored and sent to the joins of the pattern, after which the network is up to date.
\<close>

section \<open>A new alpha match\<close>

lemma net_ok_headers:
  assumes "net_ok h Js N H" "\<And>p. entryJoins (H' p) = entryJoins (H p) \<and> headerHash (H' p) = headerHash (H p)"
  shows "net_ok h Js N H'"
  using assms by (simp add: net_ok_def hash_ok_def entry_ok_def alpha_hash_def)

definition new_alpha :: "'e matcher \<Rightarrow> addr \<Rightarrow> multifieldMarker list \<Rightarrow> addr \<Rightarrow> 'e rete \<Rightarrow> 'e rete" where
  "new_alpha h f ms p s = add_match f p (nextMatch s) (upd_pm (nextMatch s) (\<lambda>m. m\<lparr>pmOwner := p\<rparr>)
     (snd (CreateAlphaMatch f ms p (ComputeRightHashValue h (headerHash (headers s p)) f ms) s)))"

definition alpha_match :: "'e matcher \<Rightarrow> addr \<Rightarrow> multifieldMarker list \<Rightarrow> addr \<Rightarrow> 'e rete \<Rightarrow> alphaMatch" where
  "alpha_match h f ms p s = \<lparr>matchingItem = f, markers = ms,
     bucket = AlphaMemoryHashValue p (ComputeRightHashValue h (headerHash (headers s p)) f ms)\<rparr>"

lemma new_alpha_fields:
  fixes s :: "'e rete" and h :: "'e matcher" and f p :: addr and ms :: "multifieldMarker list"
  defines "t \<equiv> new_alpha h f ms p s" and "a \<equiv> nextMatch s" and "am \<equiv> alpha_match h f ms p s"
  shows "joins t = joins s" "leftMemories t = leftMemories s" "nextMatch t = Suc a" "environment t = environment s"
    "IncrementalResetInProgress t = IncrementalResetInProgress s" "entryJoins (headers t q) = entryJoins (headers s q)"
    "headerHash (headers t q) = headerHash (headers s q)"
    "pms t = (pms s)(a := (fresh_match [Some am])\<lparr>pmBeta := False, pmHash := ComputeRightHashValue h (headerHash (headers s p)) f ms, pmOwner := p\<rparr>)"
    "queue t q hv = queue s q hv @ (if q = p \<and> hv = bucket am then [a] else [])" "alpha_ok s \<Longrightarrow> alpha_ok t"
proof -
  let ?hv = "ComputeRightHashValue h (headerHash (headers s p)) f ms"
  obtain s' where s': "CreateAlphaMatch f ms p ?hv s = (a, s')"
    by (cases "CreateAlphaMatch f ms p ?hv s") (auto simp: CreateAlphaMatch_def alloc_match_def Let_def a_def)
  have t: "t = add_match f p a (upd_pm a (\<lambda>m. m\<lparr>pmOwner := p\<rparr>) s')" by (simp add: t_def new_alpha_def s' a_def)
  have x: "s' = snd (CreateAlphaMatch f ms p ?hv s)" using s' by simp
  note d = add_match_def CreateAlphaMatch_def Let_def alloc_match_def upd_alpha_def new_alpha_memory_def upd_header_def case_prod_unfold
  show "joins t = joins s" "leftMemories t = leftMemories s" "nextMatch t = Suc a" "environment t = environment s"
    "IncrementalResetInProgress t = IncrementalResetInProgress s" "entryJoins (headers t q) = entryJoins (headers s q)"
    "headerHash (headers t q) = headerHash (headers s q)"
    by (simp_all add: t x d a_def)
  show "pms t = (pms s)(a := (fresh_match [Some am])\<lparr>pmBeta := False, pmHash := ?hv, pmOwner := p\<rparr>)"
    by (rule ext) (simp add: t x d a_def am_def alpha_match_def upd_pm_def)
  have "queue t = queue s'" by (rule queue_cong) (simp add: t add_match_def)
  then show "queue t q hv = queue s q hv @ (if q = p \<and> hv = bucket am then [a] else [])"
    using CreateAlphaMatch_queue(1) [OF s', of q hv] by (simp add: am_def alpha_match_def)
  show "alpha_ok s \<Longrightarrow> alpha_ok t" using CreateAlphaMatch_queue(2) [OF s'] by (simp add: t alpha_ok_def add_match_def)
qed

lemma new_alpha_sets:
  fixes s :: "'e rete" and h :: "'e matcher" and f p :: addr and ms :: "multifieldMarker list"
  defines "t \<equiv> new_alpha h f ms p s" and "a \<equiv> nextMatch s"
  shows "lmem t = lmem s" "alphas t q = (if q = p then insert a (alphas s q) else alphas s q)"
    "entry_alphas t J = (if rightSideEntryStructure J = PatternEntry p then insert a (entry_alphas s J) else entry_alphas s J)"
    "precedes t b c \<Longrightarrow> c = a \<or> precedes s b c" "x \<noteq> a \<Longrightarrow> pms t x = pms s x"
proof -
  note f = new_alpha_fields [where s = s and h = h and f = f and ms = ms and p = p, folded t_def a_def]
  show "lmem t = lmem s" by (rule lmem_cong [OF f(2)])
  show al: "alphas t q = (if q = p then insert a (alphas s q) else alphas s q)" for q by (auto simp: alphas_def f(9))
  show "entry_alphas t J = (if rightSideEntryStructure J = PatternEntry p then insert a (entry_alphas s J) else entry_alphas s J)"
    by (auto simp: entry_alphas_def al split: entry.splits)
  show "x \<noteq> a \<Longrightarrow> pms t x = pms s x" by (simp add: f(8))
  show "c = a \<or> precedes s b c" if pr: "precedes t b c"
  proof -
    obtain q hv xs ys zs where q: "queue t q hv = xs @ b # ys @ c # zs" using pr by (auto simp: precedes_def)
    show ?thesis
    proof (cases zs rule: rev_cases)
      case Nil
      show ?thesis
      proof (cases "q = p \<and> hv = bucket (alpha_match h f ms p s)")
        case True
        then have "queue s q hv @ [a] = (xs @ b # ys) @ [c]" using q Nil f(9) [of q hv] by simp
        then show ?thesis by simp
      next
        case False
        then have "queue s q hv = xs @ b # ys @ c # zs" using q f(9) [of q hv] by auto
        then show ?thesis by (auto simp: precedes_def)
      qed
    next
      case (snoc zs' z)
      have "\<exists>zs''. queue s q hv = xs @ b # ys @ c # zs''"
      proof (cases "q = p \<and> hv = bucket (alpha_match h f ms p s)")
        case True
        then have "queue s q hv @ [a] = (xs @ b # ys @ c # zs') @ [z]" using q snoc f(9) [of q hv] by simp
        then show ?thesis by blast
      next
        case False
        then show ?thesis using q f(9) [of q hv] by auto
      qed
      then show ?thesis by (auto simp: precedes_def)
    qed
  qed
qed

definition new_pairs :: "'e rete \<Rightarrow> (addr \<times> pointer \<times> pointer) set" where
  "new_pairs s = UNIV \<times> (insert None (Some ` {..< nextMatch s}) \<times> {Some (nextMatch s)})"

definition new_marks :: "'e rete \<Rightarrow> (addr \<times> addr) set" where
  "new_marks s = {..< nextMatch s} \<times> {nextMatch s}"

lemma new_alpha_inv:
  assumes i: "net_inv h Js {} {} {} {} s"
  shows "net_inv h Js (new_pairs s) (new_marks s) {} {} (new_alpha h f ms p s)" (is "net_inv h Js ?D ?M {} {} ?t")
proof -
  let ?a = "nextMatch s"
  note f = new_alpha_fields [where s = s and h = h and f = f and ms = ms and p = p]
  note e = new_alpha_sets [where s = s and h = h and f = f and ms = ms and p = p]
  have la: "l \<noteq> ?a" if "j \<in> Js" "l \<in> lmem s j" for j l using lmem_less [OF i that] by simp
  have aa: "b \<noteq> ?a" if "b \<in> alphas s q" for b q using alphas_match(1) [OF i that] by simp
  have par: "parents ?t x = parents s x" if "x \<noteq> ?a" for x using e(5) [OF that] by (simp add: parents_def)
  have "static_ok h Js ?t"
    using inv_parts(1) [OF i] net_ok_headers [of h Js "joins s" "headers s" "headers ?t"] f(6,7,10) by (simp add: static_ok_def f(1,5))
  moreover have "memories_ok h Js ?t"
  proof -
    have "left_memory_ok h ?t j" if "j \<in> Js" for j
      using inv_parts(2) [OF i] that la [OF that] e(5) par
      by (intro left_memory_keep [of h s j ?t]) (auto simp: memories_ok_def f(1,2,3) same_core_def)
    then show ?thesis by (simp add: memories_ok_def)
  qed
  moreover have "queues_ok h ?t"
  proof -
    have "distinct (queue ?t q hv) \<and> (\<forall>b \<in> set (queue ?t q hv). alpha_match_ok h ?t q hv b)" for q hv
    proof -
      have old: "distinct (queue s q hv)" "\<And>b. b \<in> set (queue s q hv) \<Longrightarrow> alpha_match_ok h s q hv b \<and> b \<noteq> ?a"
        using inv_parts(3) [OF i] by (auto simp: queues_ok_def alpha_match_ok_def)
      then have "alpha_match_ok h ?t q hv b" if "b \<in> set (queue s q hv)" for b
        using old(2) [OF that] by (auto simp: alpha_match_ok_def e(5) f(3,7) alpha_hash_def)
      moreover have "alpha_match_ok h ?t p (bucket (alpha_match h f ms p s)) ?a"
        by (simp add: alpha_match_ok_def f(3,7,8) alpha_hash_def alpha_match_def fresh_match_def)
      ultimately show ?thesis using old by (auto simp: f(9))
    qed
    then show ?thesis by (simp add: queues_ok_def)
  qed
  moreover have "families_ok h Js ?D {} ?t"
  proof -
    have "family_ok h ?D {} ?t j k" if k: "k \<in> Js" "lastLevel (joins s k) = Some j" for j k
    proof -
      have F: "family_ok h {} {} s j k" by (rule lmem_family [OF i k])
      have j: "j \<in> Js" by (rule net_depth(1) [OF i k])
      have sub: "slots s j \<subseteq> slots ?t j" by (auto simp: slots_def Let_def f(1) e(1,3))
      have new: "snd xy = Some ?a" "fst xy \<in> insert None (Some ` {..< ?a})" if "xy \<in> slots ?t j" "xy \<notin> slots s j" for xy
        using that lmem_less [OF i j] by (cases xy; auto simp: slots_def Let_def f(1) e(1,3) split: if_splits)+
      have no: "snd xy \<noteq> Some ?a" "fst xy \<noteq> Some ?a" if "xy \<in> slots s j" for xy
        using slots_bound(1,2) [OF i j, of "fst xy" "snd xy" ?a] that by (cases xy; auto)+
      have w: "wanted h ?t j xy = wanted h s j xy" "child_binds ?t j xy = child_binds s j xy" if "xy \<in> slots s j" for xy
        by (rule wanted_keep [OF f(1) that]; use no [OF that] e(5) in fastforce)+
      have due: "due h {} ?t j - {xy. (k, xy) \<in> ?D} = due h {} s j"
      proof -
        have nD: "(k, xy) \<notin> ?D" if "xy \<in> slots s j" for xy using no(1) [OF that] by (cases xy) (auto simp: new_pairs_def)
        have yD: "(k, xy) \<in> ?D" if "xy \<in> slots ?t j" "xy \<notin> slots s j" for xy using new [OF that] by (cases xy) (auto simp: new_pairs_def)
        have fr: "free_of {} xy" for xy by (simp add: free_of_def)
        show ?thesis unfolding due_def using sub nD yD w(1) fr by blast
      qed
      have p: "parents ?t c = parents s c" "bnd ?t c = bnd s c" if "c \<in> lmem s k" for c using la [OF k(1) that] par e(5) by auto
      have "inj_on (parents ?t) (lmem s k)" "parents ?t ` lmem s k = parents s ` lmem s k"
        using F p(1) by (auto simp: family_ok_def inj_on_def image_def)
      then show ?thesis using F p w(2) sub unfolding family_ok_def e(1) due by (auto simp: p)
    qed
    then show ?thesis by (simp add: families_ok_def f(1))
  qed
  moreover have "children_ok Js {} ?t" "blocks_ok Js ?t"
  proof -
    have k: "left_kids Js ?t l = left_kids Js s l" "right_kids Js ?t l = right_kids Js s l" "blocked_by Js ?t l = blocked_by Js s l" for l
      unfolding left_kids_def right_kids_def blocked_by_def e(1) using la e(5) by metis+
    have none: "right_kids Js s ?a = {}" "blocked_by Js s ?a = {}"
    proof -
      show "right_kids Js s ?a = {}" using lmem_right_parent [OF i] aa unfolding right_kids_def by blast
      have "mark s l \<noteq> BlockedBy ?a" if "j \<in> Js" "l \<in> lmem s j" for j l
        using inv_mark [OF i that] entry_alphas_less [OF i, of ?a] by (auto simp: mark_ok_def Let_def split: if_splits)
      then show "blocked_by Js s ?a = {}" by (auto simp: blocked_by_def)
    qed
    have "pmChildren (pms ?t ?a) = []" "pmBlockList (pms ?t ?a) = []" by (simp_all add: f(8) fresh_match_def)
    then show "children_ok Js {} ?t" "blocks_ok Js ?t"
      using inv_parts(5,6) [OF i] la aa e(5) none unfolding children_ok_def blocks_ok_def e(1) k e(2) by (auto split: if_splits)
  qed
  moreover have "marks_ok h Js ?M {} ?t"
  proof -
    have "mark_ok h ?M {} ?t j l" if l: "j \<in> Js" "l \<in> lmem s j" for j l
    proof -
      have o: "mark_ok h {} {} s j l" by (rule inv_mark [OF i l])
      have lt: "l < ?a" "pms ?t l = pms s l" using lmem_less [OF i l] la [OF l] e(5) by auto
      have ea: "bnd ?t b = bnd s b" "b \<noteq> ?a" if "b \<in> entry_alphas s J" for b J using entry_alphas_less [OF i that] e(5) by auto
      have pr: "bnd ?t b = bnd s b" if "precedes s b c" for b c
      proof -
        obtain q hv xs ys zs where "queue s q hv = xs @ b # ys @ c # zs" using \<open>precedes s b c\<close> by (auto simp: precedes_def)
        then have "b \<in> alphas s q" unfolding alphas_def by (metis (mono_tags, lifting) in_set_conv_decomp mem_Collect_eq)
        then show ?thesis using aa e(5) by metis
      qed
      have pr': "precedes s b c \<and> bnd ?t b = bnd s b" if "precedes ?t b c" "c \<in> entry_alphas s J" for b c J
        using e(4) [OF that(1)] ea(2) [OF that(2)] pr by blast
      show ?thesis
        using o lt ea unfolding mark_ok_def Let_def f(1) e(3) new_marks_def
        by (auto split: if_splits dest!: pr')
    qed
    then show ?thesis by (simp add: marks_ok_def e(1))
  qed
  moreover have "bounds_ok ?D ?M {} ?t" by (auto simp: bounds_ok_def new_pairs_def new_marks_def f(3))
  ultimately show ?thesis by (simp add: net_inv_def)
qed

section \<open>Sending the match to the joins of its pattern\<close>

text \<open>What is pending when the joins of \<open>K\<close> have been served.\<close>

definition pending_pairs :: "'e rete \<Rightarrow> addr \<Rightarrow> addr set \<Rightarrow> (addr \<times> pointer \<times> pointer) set" where
  "pending_pairs s a K = {k. lastLevel (joins s k) \<notin> Some ` K} \<times> (insert None (Some ` {..< a}) \<times> {Some a})"

definition unmarked_by :: "'e rete \<Rightarrow> addr \<Rightarrow> addr set \<Rightarrow> (addr \<times> addr) set" where
  "unmarked_by s a K = {l. l < a \<and> pmOwner (pms s l) \<notin> K} \<times> {a}"

definition served :: "'e matcher \<Rightarrow> addr set \<Rightarrow> addr \<Rightarrow> 'e rete \<Rightarrow> addr list \<Rightarrow> 'e rete \<Rightarrow> bool" where
  "served h Js a s ys t \<longleftrightarrow> net_inv h Js (pending_pairs s a (set ys)) (unmarked_by s a (set ys)) {} {} t \<and>
     joins t = joins s \<and> headers t = headers s \<and> queue t = queue s \<and> nextMatch s \<le> nextMatch t \<and> (\<forall>x < nextMatch s. same_core s t x) \<and>
     (\<forall>i \<in> Js. (\<forall>j \<in> set ys. \<not> below (joins s) j i) \<longrightarrow> lmem t i = lmem s i)"

lemma serve_join:
  assumes ok: "matcher_ok h" and i: "net_inv h Js (pending_pairs s a {}) (unmarked_by s a {}) {} {} s" and a: "nextMatch s = Suc a" "a \<in> alphas s p"
    "\<And>b. \<not> precedes s a b" and js: "entryJoins (headers s p) = ys @ j # zs" and t: "served h Js a s ys t"
  shows "reaches h NETWORK_ASSERT (\<lambda>rec. NetworkAssert h rec a j t) (served h Js a s (ys @ [j]))"
proof -
  have T: "net_inv h Js (pending_pairs s a (set ys)) (unmarked_by s a (set ys)) {} {} t" "joins t = joins s" "headers t = headers s" "queue t = queue s"
      "nextMatch s \<le> nextMatch t" "\<And>x. x < nextMatch s \<Longrightarrow> same_core s t x"
      "\<And>i. i \<in> Js \<Longrightarrow> (\<forall>j \<in> set ys. \<not> below (joins s) j i) \<Longrightarrow> lmem t i = lmem s i"
    using t by (auto simp: served_def)
  have E: "entry_ok Js (joins s) (headers s) p" using inv_net [OF i] by (simp add: net_ok_def)
  have j: "j \<in> Js" "rightSideEntryStructure (joins s j) = PatternEntry p" "j \<notin> set ys" "\<And>i. i \<in> set zs \<Longrightarrow> \<not> below (joins s) j i"
      "\<And>i. i \<in> set ys \<Longrightarrow> \<not> below (joins s) i j"
    using E js by (auto simp: entry_ok_def sorted_wrt_append)
  have lj: "lmem t j = lmem s j" using T(7) j(1,5) by blast
  have al: "alphas t = alphas s" "precedes t = precedes s" using T(4) by (auto simp: alphas_def precedes_def fun_eq_iff)
  have st: "right_start h Js (pending_pairs s a (set ys)) (unmarked_by s a (set ys)) j a t"
    using T(1) j(1,2) a(2,3) by (auto simp: right_start_def T(2) al entry_alphas_def pending_pairs_def unmarked_by_def)
  have less: "l < a" if "l \<in> lmem s i'" "i' \<in> Js" for l i'
  proof -
    have "l \<noteq> a" using lmem_not_alpha [OF i that(2,1), of p] a(2) by blast
    then show ?thesis using lmem_less [OF i that(2,1)] a(1) by simp
  qed
  have "reaches h NETWORK_ASSERT (\<lambda>rec. NetworkAssert h rec a j t)
      (right_finished h Js (pending_pairs s a (set ys)) (unmarked_by s a (set ys)) j a t)"
    by (rule NetworkAssert_spec [OF ok st]) (use less j(1,3) in \<open>auto simp: lj pending_pairs_def T(2)\<close>)
  then show ?thesis
  proof (rule reaches_mono)
    fix u assume u: "right_finished h Js (pending_pairs s a (set ys)) (unmarked_by s a (set ys)) j a t u"
    have iu: "net_inv h Js (pending_pairs s a (set ys) - {k. lastLevel (joins t k) = Some j} \<times> (UNIV \<times> {Some a})) (unmarked_by s a (set ys) - lmem t j \<times> {a}) {} {} u"
      and fr: "frame h Js j (lmem t j) t u" using u by (simp_all add: right_finished_def)
    note F = frame_fields [OF fr]
    have core: "same_core s u x" if "x < nextMatch s" for x using T(6) [OF that] F(4) [of x] T(5) that by (simp add: same_core_def)
    have D: "pending_pairs s a (set ys) - {k. lastLevel (joins t k) = Some j} \<times> (UNIV \<times> {Some a}) = pending_pairs s a (set (ys @ [j]))"
      by (auto simp: pending_pairs_def T(2))
    have lju: "lmem u j = lmem t j" by (rule F(7) [OF j(1)]) (use not_below_self [OF T(1) j(1)] in simp)
    have "net_inv h Js (pending_pairs s a (set (ys @ [j]))) (unmarked_by s a (set (ys @ [j]))) {} {} u"
    proof (rule inv_M [OF iu [unfolded D]])
      fix i' l assume l: "i' \<in> Js" "l \<in> lmem u i'"
      from inv_mark [OF iu l] show "mark_ok h (unmarked_by s a (set (ys @ [j]))) {} u i' l"
      proof (rule mark_ok_keep)
        fix b assume b: "(l, b) \<in> unmarked_by s a (set ys) - lmem t j \<times> {a}"
        then have la: "l < a" "pmOwner (pms s l) \<notin> set ys" "b = a" "l \<notin> lmem t j" by (auto simp: unmarked_by_def)
        have "pmOwner (pms u l) = i'" using lmem_match [OF iu l] by (simp add: left_match_ok_def)
        then have "pmOwner (pms s l) = i'" using core [of l] la(1) a(1) by (simp add: same_core_def)
        moreover have "i' \<noteq> j" using l(2) la(4) lju by auto
        ultimately show "(l, b) \<in> unmarked_by s a (set (ys @ [j]))" using la by (auto simp: unmarked_by_def)
      qed simp_all
    next
      show "l < nextMatch u" if "(l, b) \<in> unmarked_by s a (set (ys @ [j]))" for l b
        using that a(1) T(5) F(3) by (auto simp: unmarked_by_def)
    qed
    moreover have "lmem u i' = lmem s i'" if "i' \<in> Js" "\<forall>j' \<in> set (ys @ [j]). \<not> below (joins s) j' i'" for i'
      using F(7) [OF that(1)] T(7) [OF that(1)] that(2) by (simp add: T(2))
    ultimately show "served h Js a s (ys @ [j]) u" using F(1-3,10) T(2-5) core by (simp add: served_def)
  qed
qed

lemma served_all:
  assumes t: "served h Js a s (entryJoins (headers s p)) t" and a: "nextMatch s = Suc a" "a \<in> alphas s p" and i: "net_inv h Js D M {} {} s"
  shows "net_inv h Js {} {} {} {} t"
proof -
  let ?K = "set (entryJoins (headers s p))"
  have T: "net_inv h Js (pending_pairs s a ?K) (unmarked_by s a ?K) {} {} t" "joins t = joins s" "queue t = queue s"
      "\<And>x. x < nextMatch s \<Longrightarrow> same_core s t x"
    using t by (auto simp: served_def)
  have K: "?K = {j \<in> Js. rightSideEntryStructure (joins s j) = PatternEntry p}" using inv_net [OF i] by (simp add: net_ok_def entry_ok_def)
  have at: "alphas t = alphas s" using T(3) by (simp add: alphas_def fun_eq_iff)
  have own: "i' \<in> ?K" if "i' \<in> Js" "a \<in> entry_alphas t (joins s i')" for i'
    using entry_alphas_alpha [OF that(2)] alphas_match(3) [OF i] a(2) that(1) unfolding K at by auto
  have D: "net_inv h Js {} (unmarked_by s a ?K) {} {} t"
  proof (rule inv_D [OF T(1)])
    fix k i' xy assume k: "k \<in> Js" "lastLevel (joins t k) = Some i'" "xy \<in> due h {} t i'"
    have i': "i' \<in> Js" by (rule net_depth(1) [OF T(1) k(1,2)])
    have "xy \<in> slots t i'" using k(3) by (simp add: due_def)
    then have "i' \<in> ?K" if "snd xy = Some a" using slots_bound(2) [OF T(1) i', of "fst xy" "snd xy" a] that own [OF i'] by (cases xy) (simp add: T(2))
    then show "(k, xy) \<in> pending_pairs s a ?K \<longleftrightarrow> (k, xy) \<in> {}" using k(2) by (cases xy) (auto simp: pending_pairs_def T(2))
  qed simp
  show ?thesis
  proof (rule inv_M [OF D])
    fix i' l assume l: "i' \<in> Js" "l \<in> lmem t i'"
    have o: "mark_ok h (unmarked_by s a ?K) {} t i' l" by (rule inv_mark [OF D l])
    show "mark_ok h {} {} t i' l"
    proof (cases "i' \<in> ?K")
      case True
      have "(l, b) \<notin> unmarked_by s a ?K" for b
      proof
        assume b: "(l, b) \<in> unmarked_by s a ?K"
        then have "l < nextMatch s" using a(1) by (auto simp: unmarked_by_def)
        then have "pmOwner (pms s l) = i'" using lmem_match [OF D l] T(4) by (simp add: left_match_ok_def same_core_def)
        then show False using b True by (auto simp: unmarked_by_def)
      qed
      then show ?thesis by (intro mark_ok_keep [OF o]) simp_all
    next
      case False
      then have na: "a \<notin> entry_alphas t (joins t i')" using own [OF l(1)] by (auto simp: T(2))
      have M: "b = a" if "(l, b) \<in> unmarked_by s a ?K" for b using that by (auto simp: unmarked_by_def)
      have pr: "c \<notin> entry_alphas t (joins t i')" if "precedes t a c" for c
      proof
        assume c: "c \<in> entry_alphas t (joins t i')"
        obtain q hv xs ys zs where q: "queue t q hv = xs @ a # ys @ c # zs" using \<open>precedes t a c\<close> by (auto simp: precedes_def)
        then have "c \<in> alphas t q" "a \<in> alphas t q" unfolding alphas_def by (auto intro!: exI [of _ hv])
        moreover obtain q' where "rightSideEntryStructure (joins t i') = PatternEntry q'" "c \<in> alphas t q'" using entry_alphas_alpha [OF c] by blast
        ultimately have "a \<in> entry_alphas t (joins t i')" using alphas_match(3) [OF D] by (auto simp: entry_alphas_def)
        then show False using na by simp
      qed
      have "(l, b) \<notin> unmarked_by s a ?K" if "precedes t b c" "c \<in> entry_alphas t (joins t i')" for b c using M pr that by blast
      moreover have "(l, b) \<notin> unmarked_by s a ?K" if "b \<in> entry_alphas t (joins t i')" for b using M na that by blast
      ultimately show ?thesis using o unfolding mark_ok_def Let_def by (auto split: if_splits)
    qed
  qed simp
qed

section \<open>The matches of a pattern\<close>

text \<open>The alpha matches that are stored for a pattern.\<close>

definition alpha_of :: "'e rete \<Rightarrow> addr \<Rightarrow> alphaMatch" where
  "alpha_of s a = the (hd (bnd s a))"

definition stored_matches :: "'e rete \<Rightarrow> addr \<Rightarrow> alphaMatch multiset" where
  "stored_matches s p = image_mset (alpha_of s) (mset_set (alphas s p))"

lemma alphas_finite: "net_inv h Js D M G Z s \<Longrightarrow> finite (alphas s p)"
  by (rule finite_subset [of _ "{..< nextMatch s}"]) (auto dest: alphas_match(1))

lemma stored_matches_keep:
  assumes "alphas t = alphas s" "\<And>a. a \<in> alphas s p \<Longrightarrow> bnd t a = bnd s a"
  shows "stored_matches t p = stored_matches s p"
  unfolding stored_matches_def assms(1) by (cases "finite (alphas s p)") (auto simp: alpha_of_def assms(2) intro!: image_mset_cong)

lemma new_alpha_stored:
  assumes i: "net_inv h Js D M G Z s"
  shows "stored_matches (new_alpha h f ms p s) q = stored_matches s q + (if q = p then {#alpha_match h f ms p s#} else {#})"
proof -
  let ?t = "new_alpha h f ms p s"
  note g = new_alpha_fields [where s = s and h = h and f = f and ms = ms and p = p]
  note e = new_alpha_sets [where s = s and h = h and f = f and ms = ms and p = p]
  have n: "nextMatch s \<notin> alphas s q" for q using alphas_match(1) [OF i] by blast
  have old: "alpha_of ?t a = alpha_of s a" if "a \<in> alphas s q'" for a q'
  proof -
    have "a \<noteq> nextMatch s" using n that by blast
    then show ?thesis using e(5) [of a] by (simp add: alpha_of_def)
  qed
  have o: "image_mset (alpha_of ?t) (mset_set (alphas s q)) = stored_matches s q" for q
    unfolding stored_matches_def using alphas_finite [OF i, of q] old by (intro image_mset_cong) simp
  have new: "alpha_of ?t (nextMatch s) = alpha_match h f ms p s" by (simp add: alpha_of_def g(8) fresh_match_def)
  show ?thesis
    using n [of p] alphas_finite [OF i, of p] o new by (auto simp: stored_matches_def e(2))
qed

section \<open>The patterns that a fact matches\<close>

text \<open>The list of a fact names its alpha matches, each once.\<close>

definition list_ok :: "'e rete \<Rightarrow> addr \<Rightarrow> bool" where
  "list_ok s f \<longleftrightarrow> distinct (matchLists s f) \<and> set (matchLists s f) = {(p, a). a \<in> alphas s p \<and> matchingItem (alpha_of s a) = f}"

lemma list_ok_keep:
  assumes "list_ok s f" "matchLists t f = matchLists s f" "alphas t = alphas s" "\<And>p a. a \<in> alphas s p \<Longrightarrow> bnd t a = bnd s a"
  shows "list_ok t f"
proof -
  have "alpha_of t a = alpha_of s a" if "a \<in> alphas s p" for p a using assms(4) [OF that] by (simp add: alpha_of_def)
  then show ?thesis using assms(1-3) by (auto simp: list_ok_def)
qed

lemma new_alpha_list:
  assumes i: "net_inv h Js D M G Z s" and l: "list_ok s g"
  shows "list_ok (new_alpha h f ms p s) g"
proof -
  let ?t = "new_alpha h f ms p s"
  note e = new_alpha_sets [where s = s and h = h and f = f and ms = ms and p = p]
  have n: "nextMatch s \<notin> alphas s q" for q using alphas_match(1) [OF i] by blast
  have old: "alpha_of ?t a = alpha_of s a" if "a \<in> alphas s q" for a q
    using e(5) [of a] n [of q] that by (metis alpha_of_def)
  have new: "matchingItem (alpha_of ?t (nextMatch s)) = f" by (simp add: alpha_of_def new_alpha_fields(8) fresh_match_def alpha_match_def)
  have m: "matchLists ?t g = (if g = f then [(p, nextMatch s)] else []) @ matchLists s g"
    by (simp add: new_alpha_def add_match_def CreateAlphaMatch_def Let_def case_prod_unfold new_alpha_memory_def)
  have "{(q, a). a \<in> alphas ?t q \<and> matchingItem (alpha_of ?t a) = g} =
      (if g = f then {(p, nextMatch s)} else {}) \<union> {(q, a). a \<in> alphas s q \<and> matchingItem (alpha_of s a) = g}"
    using n old new by (auto simp: e(2) split: if_splits)
  moreover have "(p, nextMatch s) \<notin> set (matchLists s g)" using l n by (auto simp: list_ok_def)
  ultimately show ?thesis using l unfolding list_ok_def m by auto
qed

section \<open>A satisfied pattern\<close>

text \<open>Storing a match of a pattern and sending it to the joins of the pattern returns, in an up-to-date network in which the pattern
  has one match more.\<close>

theorem process_alpha_match:
  assumes ok: "matcher_ok h" and i: "rete_ok h Js s"
  shows "\<exists>t m. rete_ok h Js t \<and> joins t = joins s \<and>
     (\<forall>q. stored_matches t q = stored_matches s q + (if q = p then {#alpha_match h f ms p s#} else {#})) \<and>
     (\<forall>g. list_ok s g \<longrightarrow> list_ok t g) \<and> (\<forall>n \<ge> m. ProcessFactAlphaMatch h n f ms p s = Some (nextMatch s, t))"
proof -
  let ?a = "nextMatch s" and ?t = "new_alpha h f ms p s"
  note g = new_alpha_fields [where s = s and h = h and f = f and ms = ms and p = p]
  note e = new_alpha_sets [where s = s and h = h and f = f and ms = ms and p = p]
  have iv: "net_inv h Js {} {} {} {} s" using i by (simp add: rete_ok_def)
  have "net_inv h Js (new_pairs s) (new_marks s) {} {} ?t" by (rule new_alpha_inv [OF iv])
  then have it: "net_inv h Js (pending_pairs ?t ?a {}) (unmarked_by ?t ?a {}) {} {} ?t"
    by (simp add: new_pairs_def new_marks_def pending_pairs_def unmarked_by_def lessThan_def)
  have a: "nextMatch ?t = Suc ?a" "?a \<in> alphas ?t p" by (simp_all add: g(3) e(2))
  have last: "\<not> precedes ?t ?a b" for b
  proof
    assume pr: "precedes ?t ?a b"
    obtain q hv xs ys zs where q: "queue ?t q hv = xs @ ?a # ys @ b # zs" using pr by (auto simp: precedes_def)
    have "distinct (queue ?t q hv)" using inv_parts(3) [OF it] by (simp add: queues_ok_def)
    then have "b \<noteq> ?a" unfolding q by auto
    then have "precedes s ?a b" using e(4) [OF pr] by blast
    then obtain q hv xs ys zs where "queue s q hv = xs @ ?a # ys @ b # zs" by (auto simp: precedes_def)
    then have "?a \<in> alphas s q" unfolding alphas_def by (auto intro!: exI [of _ hv])
    then show False using alphas_match(1) [OF iv] by blast
  qed
  have "reaches h NETWORK_ASSERT (\<lambda>rec. fold_option (NetworkAssert h rec ?a) (entryJoins (headers ?t p)) ?t)
      (served h Js ?a ?t (entryJoins (headers ?t p)))"
  proof (rule reaches_fold [where I = "served h Js ?a ?t"])
    show "served h Js ?a ?t [] ?t" using it by (simp add: served_def same_core_def)
  qed (rule serve_join [OF ok it a last])
  then obtain t m where t: "served h Js ?a ?t (entryJoins (headers ?t p)) t"
      "\<And>n. n \<ge> m \<Longrightarrow> fold_option (NetworkAssert h (network h NETWORK_ASSERT n) ?a) (entryJoins (headers ?t p)) ?t = Some t"
    by (auto simp: reaches_def)
  have "rete_ok h Js t" using served_all [OF t(1) a it] by (simp add: rete_ok_def)
  moreover have T: "joins t = joins s" "queue t = queue ?t" "\<And>x. x < nextMatch ?t \<Longrightarrow> bnd t x = bnd ?t x"
    using t(1) g(1) by (simp_all add: served_def same_core_def)
  moreover have "stored_matches t q = stored_matches s q + (if q = p then {#alpha_match h f ms p s#} else {#})" for q
  proof -
    have "stored_matches t q = stored_matches ?t q" by (rule stored_matches_keep [OF alphas_cong [OF T(2)]]) (use T(3) alphas_match(1) [OF it] in blast)
    then show ?thesis using new_alpha_stored [OF iv] by simp
  qed
  moreover have "list_ok t g" if "list_ok s g" for g
  proof (rule list_ok_keep [OF new_alpha_list [OF iv that]])
    show "matchLists t g = matchLists ?t g" using NetworkAssert_lists [OF t(2) [OF order_refl]] by simp
    show "alphas t = alphas ?t" by (rule alphas_cong [OF T(2)])
    show "bnd t a = bnd ?t a" if "a \<in> alphas ?t q" for q a using T(3) alphas_match(1) [OF it that] by blast
  qed
  moreover have "ProcessFactAlphaMatch h n f ms p s = Some (?a, t)" if "n \<ge> m" for n
  proof -
    have "fst (CreateAlphaMatch f ms p hv s) = ?a" for hv by (simp add: CreateAlphaMatch_def alloc_match_def Let_def)
    then show ?thesis using t(2) [OF that] by (simp add: ProcessFactAlphaMatch_def Let_def case_prod_unfold new_alpha_def)
  qed
  ultimately show ?thesis by blast
qed

end
