(* ===== verification/Join_Complete.thy ===== *)
theory Join_Complete
  imports Join_Assert
begin

text \<open>
  In an up-to-date network the matches of a left memory are those that the joins above it give for the stored alpha matches.
\<close>

section \<open>Bindings of a memory\<close>

definition memory_binds :: "'e rete \<Rightarrow> addr \<Rightarrow> bindings multiset" where
  "memory_binds s k = image_mset (bnd s) (mset_set (lmem s k))"

lemma lmem_finite: "net_inv h Js D M G Z s \<Longrightarrow> j \<in> Js \<Longrightarrow> finite (lmem s j)"
  by (rule finite_subset [of _ "{..< nextMatch s}"]) (auto dest: lmem_less)

lemma memory_due:
  assumes i: "rete_ok h Js s" and k: "k \<in> Js" "lastLevel (joins s k) = Some j"
  shows "memory_binds s k = image_mset (child_binds s j) (mset_set (due h {} s j))" "finite (due h {} s j)"
proof -
  have iv: "net_inv h Js {} {} {} {} s" using i by (simp add: rete_ok_def)
  have F: "inj_on (parents s) (lmem s k)" "parents s ` lmem s k = due h {} s j" "\<And>c. c \<in> lmem s k \<Longrightarrow> bnd s c = child_binds s j (parents s c)"
    using lmem_family [OF iv k] by (simp_all add: family_ok_def)
  have fin: "finite (lmem s k)" by (rule lmem_finite [OF iv k(1)])
  show "finite (due h {} s j)" using fin unfolding F(2) [symmetric] by simp
  have "memory_binds s k = image_mset (child_binds s j \<circ> parents s) (mset_set (lmem s k))"
    unfolding memory_binds_def using F(3) fin by (intro image_mset_cong) simp
  also have "\<dots> = image_mset (child_binds s j) (image_mset (parents s) (mset_set (lmem s k)))" by (simp add: multiset.map_comp)
  also have "image_mset (parents s) (mset_set (lmem s k)) = mset_set (due h {} s j)" unfolding F(2) [symmetric] by (rule image_mset_mset_set [OF F(1)])
  finally show "memory_binds s k = image_mset (child_binds s j) (mset_set (due h {} s j))" .
qed

section \<open>Markers\<close>

text \<open>A left match of a negated or existential pattern has a marker if, and only if, a right match passes the test, as far as the secondary test lets it through.\<close>

lemma marker_iff:
  assumes i: "rete_ok h Js s" and j: "j \<in> Js" "l \<in> lmem s j" "\<not> positive (joins s j)"
  shows "patternIsNegated (joins s j) \<Longrightarrow> (mark s l = Unmarked \<and> sec_ok h (joins s j) (bnd s l)) \<longleftrightarrow>
      sec_ok h (joins s j) (bnd s l) \<and> (\<forall>a \<in> entry_alphas s (joins s j). \<not> pair_ok h (joins s j) (bnd s l) (bnd s a))"
    "patternIsExists (joins s j) \<Longrightarrow> mark s l \<noteq> Unmarked \<longleftrightarrow>
      sec_ok h (joins s j) (bnd s l) \<and> (\<exists>a \<in> entry_alphas s (joins s j). pair_ok h (joins s j) (bnd s l) (bnd s a))"
proof -
  have iv: "net_inv h Js {} {} {} {} s" using i by (simp add: rete_ok_def)
  have nt: "\<not> terminal (joins s j)" using net_links(5) [OF inv_net [OF iv] j(1)] j(3) by blast
  have m: "(\<forall>a. mark s l \<noteq> Activated a)"
    "\<And>a. mark s l = BlockedBy a \<Longrightarrow> a \<in> entry_alphas s (joins s j) \<and> pair_ok h (joins s j) (bnd s l) (bnd s a) \<and> (patternIsExists (joins s j) \<longrightarrow> sec_ok h (joins s j) (bnd s l))"
    "mark s l = Unmarked \<Longrightarrow> sec_ok h (joins s j) (bnd s l) \<Longrightarrow> a \<in> entry_alphas s (joins s j) \<Longrightarrow> \<not> pair_ok h (joins s j) (bnd s l) (bnd s a)" for a
    using inv_mark [OF iv j(1,2)] nt j(3) by (auto simp: mark_ok_def Let_def)
  show "patternIsNegated (joins s j) \<Longrightarrow> (mark s l = Unmarked \<and> sec_ok h (joins s j) (bnd s l)) \<longleftrightarrow>
      sec_ok h (joins s j) (bnd s l) \<and> (\<forall>a \<in> entry_alphas s (joins s j). \<not> pair_ok h (joins s j) (bnd s l) (bnd s a))"
    using m by (cases "mark s l") auto
  show "patternIsExists (joins s j) \<Longrightarrow> mark s l \<noteq> Unmarked \<longleftrightarrow>
      sec_ok h (joins s j) (bnd s l) \<and> (\<exists>a \<in> entry_alphas s (joins s j). pair_ok h (joins s j) (bnd s l) (bnd s a))"
    using m by (cases "mark s l") auto
qed

section \<open>The right matches of a join\<close>

definition shows_alphas :: "'e rete \<Rightarrow> (addr \<Rightarrow> alphaMatch list) \<Rightarrow> bool" where
  "shows_alphas s A \<longleftrightarrow> (\<forall>p. mset (A p) = stored_matches s p)"

lemma entry_matches_stored:
  assumes i: "net_inv h Js D M G Z s" and A: "shows_alphas s A"
  shows "mset (entry_matches A J) = image_mset (bnd s) (mset_set (entry_alphas s J))"
proof (cases "rightSideEntryStructure J")
  case (PatternEntry p)
  have b: "bnd s a = [Some (alpha_of s a)]" if "a \<in> alphas s p" for a using alphas_match(4) [OF i that] by (auto simp: alpha_of_def)
  have "mset (entry_matches A J) = image_mset (\<lambda>a. [Some (alpha_of s a)]) (mset_set (alphas s p))"
    using A PatternEntry by (simp add: entry_matches_def shows_alphas_def stored_matches_def multiset.map_comp comp_def)
  also have "\<dots> = image_mset (bnd s) (mset_set (alphas s p))" using b alphas_finite [OF i, of p] by (intro image_mset_cong) simp
  finally show ?thesis using PatternEntry by (simp add: entry_alphas_def)
qed (simp_all add: entry_matches_def entry_alphas_def)

lemma filter_matches:
  assumes i: "net_inv h Js D M G Z s" and A: "shows_alphas s A"
  shows "mset (filter P (entry_matches A J)) = image_mset (bnd s) (mset_set {a \<in> entry_alphas s J. P (bnd s a)})"
    "filter P (entry_matches A J) = [] \<longleftrightarrow> (\<forall>a \<in> entry_alphas s J. \<not> P (bnd s a))"
proof -
  have fin: "finite (entry_alphas s J)" using alphas_finite [OF i] by (simp add: entry_alphas_def split: entry.split)
  show 1: "mset (filter P (entry_matches A J)) = image_mset (bnd s) (mset_set {a \<in> entry_alphas s J. P (bnd s a)})"
    unfolding mset_filter entry_matches_stored [OF i A] using fin by (simp add: filter_mset_image_mset filter_mset_mset_set)
  have "filter P (entry_matches A J) = [] \<longleftrightarrow> mset (filter P (entry_matches A J)) = {#}" by (rule mset_zero_iff [symmetric])
  also have "\<dots> \<longleftrightarrow> {a \<in> entry_alphas s J. P (bnd s a)} = {}" unfolding 1 using fin by (simp add: mset_set_empty_iff)
  finally show "filter P (entry_matches A J) = [] \<longleftrightarrow> (\<forall>a \<in> entry_alphas s J. \<not> P (bnd s a))" by blast
qed

section \<open>What leaves a join\<close>

lemma first_due:
  assumes i: "rete_ok h Js s" and j: "j \<in> Js" "firstJoin (joins s j)" and A: "shows_alphas s A"
  shows "image_mset (child_binds s j) (mset_set (due h {} s j)) = mset (first_out h A (joins s j))"
proof -
  have iv: "net_inv h Js {} {} {} {} s" using i by (simp add: rete_ok_def)
  let ?J = "joins s j" and ?l = "left_parent j s"
  note T = net_tests [OF inv_net [OF iv] j(1)]
  show ?thesis
  proof (cases "positive ?J")
    case True
    let ?S = "{a \<in> entry_alphas s ?J. first_ok h ?J (bnd s a)}"
    have d: "due h {} s j = (\<lambda>a. (None, Some a)) ` ?S"
      using j(2) True by (auto simp: due_def slots_def wanted_def Let_def free_of_def)
    have "mset_set (due h {} s j) = image_mset (\<lambda>a. (None, Some a)) (mset_set ?S)" unfolding d by (subst image_mset_mset_set) (simp_all add: inj_on_def)
    then have "image_mset (child_binds s j) (mset_set (due h {} s j)) = image_mset (bnd s) (mset_set ?S)"
      by (simp add: multiset.map_comp comp_def child_binds_def)
    then show ?thesis using True filter_matches(1) [OF iv A] by (simp add: first_out_def positive_def Let_def)
  next
    case False
    note FM = first_memory(2,3) [OF iv j False]
    have nt: "networkTest ?J = []" "rightSideEntryStructure ?J \<noteq> NoEntry" using T(6) [OF j(2)] False by auto
    have po: "pair_ok h ?J l r" for l r by (simp add: pair_ok_def nt)
    have l: "?l \<in> lmem s j" by (simp add: FM)
    have d: "due h {} s j = (if wanted h s j (Some ?l, None) then {(Some ?l, None)} else {})"
      using j(2) False nt by (auto simp: due_def slots_def Let_def free_of_def FM(1))
    have empty: "entry_matches A ?J = [] \<longleftrightarrow> entry_alphas s ?J = {}"
      using filter_matches(2) [OF iv A, of "\<lambda>_. True" ?J] by simp
    have "wanted h s j (Some ?l, None) \<longleftrightarrow> (if patternIsNegated ?J then entry_matches A ?J = [] \<and> sec_ok h ?J [None]
        else entry_matches A ?J \<noteq> [] \<and> sec_ok h ?J [None])"
      using marker_iff [OF i j(1) l False] False nt by (auto simp: wanted_def Let_def positive_def empty FM(2) po)
    then show ?thesis unfolding d using False j(2) by (auto simp: first_out_def Let_def positive_def child_binds_def)
  qed
qed

text \<open>The pairs of one left match.\<close>

lemma due_of_left:
  assumes i: "rete_ok h Js s" and j: "j \<in> Js" "\<not> firstJoin (joins s j)" "l \<in> lmem s j" and A: "shows_alphas s A"
  shows "image_mset (child_binds s j) (mset_set {xy \<in> due h {} s j. fst xy = Some l}) = mset (extend h A (joins s j) (bnd s l))"
proof -
  have iv: "net_inv h Js {} {} {} {} s" using i by (simp add: rete_ok_def)
  let ?J = "joins s j" and ?D = "{xy \<in> due h {} s j. fst xy = Some l}"
  note T = net_tests [OF inv_net [OF iv] j(1)]
  show ?thesis
  proof (cases "rightSideEntryStructure ?J = NoEntry \<or> \<not> positive ?J")
    case True
    have d: "?D = (if wanted h s j (Some l, None) then {(Some l, None)} else {})"
      using j True by (auto simp: due_def slots_def Let_def free_of_def)
    have "wanted h s j (Some l, None) \<longleftrightarrow> extend h A ?J (bnd s l) = [bnd s l @ [None]]"
      "\<not> wanted h s j (Some l, None) \<Longrightarrow> extend h A ?J (bnd s l) = []"
    proof -
      have e: "filter (pair_ok h ?J (bnd s l)) (entry_matches A ?J) = [] \<longleftrightarrow> (\<forall>a \<in> entry_alphas s ?J. \<not> pair_ok h ?J (bnd s l) (bnd s a))"
        by (rule filter_matches(2) [OF iv A])
      consider (none) "rightSideEntryStructure ?J = NoEntry" "positive ?J" | (neg) "rightSideEntryStructure ?J \<noteq> NoEntry" "patternIsNegated ?J" "\<not> positive ?J"
        | (ex) "rightSideEntryStructure ?J \<noteq> NoEntry" "\<not> patternIsNegated ?J" "patternIsExists ?J" "\<not> positive ?J"
        using True T(2,4) by (auto simp: positive_def)
      then have "(wanted h s j (Some l, None) \<longleftrightarrow> extend h A ?J (bnd s l) = [bnd s l @ [None]]) \<and>
         (\<not> wanted h s j (Some l, None) \<longrightarrow> extend h A ?J (bnd s l) = [])"
      proof cases
        case none
        then show ?thesis using j(2) by (simp add: wanted_def extend_def Let_def)
      next
        case neg
        then show ?thesis using j(2) marker_iff(1) [OF i j(1,3) neg(3,2)] by (auto simp: wanted_def extend_def Let_def e)
      next
        case ex
        then show ?thesis using j(2) marker_iff(2) [OF i j(1,3) ex(4,3)] by (auto simp: wanted_def extend_def Let_def e)
      qed
      then show "wanted h s j (Some l, None) \<longleftrightarrow> extend h A ?J (bnd s l) = [bnd s l @ [None]]"
        "\<not> wanted h s j (Some l, None) \<Longrightarrow> extend h A ?J (bnd s l) = []" by blast+
    qed
    then show ?thesis unfolding d using j(2) by (simp add: child_binds_def)
  next
    case False
    let ?S = "{a \<in> entry_alphas s ?J. pair_ok h ?J (bnd s l) (bnd s a)}"
    have d: "?D = (\<lambda>a. (Some l, Some a)) ` ?S"
      using j False by (auto simp: due_def slots_def wanted_def Let_def free_of_def positive_def)
    have "mset_set ?D = image_mset (\<lambda>a. (Some l, Some a)) (mset_set ?S)" unfolding d by (subst image_mset_mset_set) (simp_all add: inj_on_def)
    then have "image_mset (child_binds s j) (mset_set ?D) = image_mset (\<lambda>a. bnd s l @ [hd (bnd s a)]) (mset_set ?S)"
      by (simp add: multiset.map_comp comp_def child_binds_def)
    also have "\<dots> = image_mset (\<lambda>a. bnd s l @ bnd s a) (mset_set ?S)"
    proof (rule image_mset_cong)
      fix a assume a: "a \<in># mset_set ?S"
      have "finite ?S" using a by (rule_tac ccontr) simp
      then have "a \<in> entry_alphas s ?J" using a by simp
      then show "bnd s l @ [hd (bnd s a)] = bnd s l @ bnd s a" using entry_alphas_alpha alphas_match(4) [OF iv] by fastforce
    qed
    also have "\<dots> = mset (map (\<lambda>r. bnd s l @ r) (filter (pair_ok h ?J (bnd s l)) (entry_matches A ?J)))"
      using filter_matches(1) [OF iv A, of "pair_ok h ?J (bnd s l)" ?J] by (simp add: multiset.map_comp comp_def)
    finally show ?thesis using False by (simp add: extend_def Let_def positive_def)
  qed
qed

lemma due_by_left:
  assumes i: "rete_ok h Js s" and j: "j \<in> Js" "\<not> firstJoin (joins s j)" and fin: "finite (due h {} s j)"
  shows "mset_set (due h {} s j) = (\<Sum>l \<in># mset_set (lmem s j). mset_set {xy \<in> due h {} s j. fst xy = Some l})"
proof -
  have iv: "net_inv h Js {} {} {} {} s" using i by (simp add: rete_ok_def)
  have L: "finite (lmem s j)" by (rule lmem_finite [OF iv j(1)])
  have U: "due h {} s j = {xy \<in> due h {} s j. fst xy \<in> Some ` lmem s j}"
    using j(2) by (auto simp: due_def slots_def Let_def split: if_splits)
  have "mset_set {xy \<in> due h {} s j. fst xy \<in> Some ` K} = (\<Sum>l \<in># mset_set K. mset_set {xy \<in> due h {} s j. fst xy = Some l})" if "finite K" for K
    using that
  proof induction
    case (insert l K)
    have "{xy \<in> due h {} s j. fst xy \<in> Some ` insert l K} = {xy \<in> due h {} s j. fst xy = Some l} \<union> {xy \<in> due h {} s j. fst xy \<in> Some ` K}" by auto
    moreover have "{xy \<in> due h {} s j. fst xy = Some l} \<inter> {xy \<in> due h {} s j. fst xy \<in> Some ` K} = {}" using insert.hyps(2) by auto
    ultimately show ?case using insert fin by (simp add: mset_set_Union)
  qed simp
  from this [OF L] show ?thesis using U by simp
qed

lemma mset_concat_map: "mset (concat (map f xs)) = (\<Sum>x \<in># mset xs. mset (f x))"
  by (induction xs) auto

lemma image_mset_sum: "image_mset f (\<Sum>x \<in># M. g x) = (\<Sum>x \<in># M. image_mset f (g x))"
  by (induction M) auto

lemma sum_mset_set_cong: "finite L \<Longrightarrow> (\<And>x. x \<in> L \<Longrightarrow> f x = g x) \<Longrightarrow> (\<Sum>x \<in># mset_set L. f x) = (\<Sum>x \<in># mset_set L. g x)"
  by (intro arg_cong [where f = sum_mset] image_mset_cong) simp

section \<open>The memories are complete\<close>

text \<open>A memory below a join holds what the path of joins up to it gives.\<close>

theorem memory_complete:
  assumes i: "rete_ok h Js s" and A: "shows_alphas s A" and k: "k \<in> Js" "lastLevel (joins s k) = Some j" and p: "path (joins s) j js"
  shows "memory_binds s k = mset (outs h A (map (joins s) js))"
  using p k
proof (induction "joins s" j js arbitrary: k rule: path.induct)
  case (first j)
  have iv: "net_inv h Js {} {} {} {} s" using i by (simp add: rete_ok_def)
  have j: "j \<in> Js" by (rule net_depth(1) [OF iv first.prems])
  have "firstJoin (joins s j)" using net_links(1) [OF inv_net [OF iv] j] first.hyps by simp
  then show ?case using memory_due(1) [OF i first.prems] first_due [OF i j _ A] by simp
next
  case (above j i' js)
  have iv: "net_inv h Js {} {} {} {} s" using i by (simp add: rete_ok_def)
  have j: "j \<in> Js" by (rule net_depth(1) [OF iv above.prems])
  have nf: "\<not> firstJoin (joins s j)" using net_links(1) [OF inv_net [OF iv] j] above.hyps(1) by simp
  obtain J Js' where js: "js = J # Js'" using above.hyps(2) by (cases rule: path.cases) auto
  have "memory_binds s k = image_mset (child_binds s j) (mset_set (due h {} s j))" by (rule memory_due(1) [OF i above.prems])
  also have "\<dots> = (\<Sum>l \<in># mset_set (lmem s j). mset (extend h A (joins s j) (bnd s l)))"
    unfolding due_by_left [OF i j nf memory_due(2) [OF i above.prems]] image_mset_sum
    by (rule sum_mset_set_cong [OF lmem_finite [OF iv j]]) (rule due_of_left [OF i j nf _ A])
  also have "\<dots> = (\<Sum>x \<in># memory_binds s j. mset (extend h A (joins s j) x))" by (simp add: memory_binds_def multiset.map_comp comp_def)
  also have "memory_binds s j = mset (outs h A (map (joins s) js))" by (rule above.hyps(3) [OF j above.hyps(1)])
  finally show ?case by (simp add: js mset_concat_map)
qed

inductive_simps path_iff: "path N j js"

lemma path_exists:
  assumes n: "net_ok h Js N H" and j: "j \<in> Js"
  shows "\<exists>js. path N j js"
  using j
proof (induction "depth (N j)" arbitrary: j rule: less_induct)
  case less
  show ?case
  proof (cases "lastLevel (N j)")
    case None
    then show ?thesis using path.first by blast
  next
    case (Some i)
    then have "i \<in> Js" "depth (N i) < depth (N j)" using net_links(2) [OF n less.prems] by auto
    then show ?thesis using less.hyps path.above Some by blast
  qed
qed

text \<open>The memory of every join below another one holds, each as often as there are such combinations, exactly the matches that the joins above it
  give for the alpha matches \<open>A\<close>.\<close>

definition memories_hold :: "'e matcher \<Rightarrow> addr set \<Rightarrow> (addr \<Rightarrow> alphaMatch list) \<Rightarrow> 'e rete \<Rightarrow> bool" where
  "memories_hold h Js A s \<longleftrightarrow> (\<forall>k \<in> Js. \<forall>j. lastLevel (joins s k) = Some j \<longrightarrow>
     (\<exists>js. path (joins s) j js \<and> memory_binds s k = mset (outs h A (map (joins s) js))))"

theorem network_complete:
  assumes i: "rete_ok h Js s" and A: "shows_alphas s A"
  shows "memories_hold h Js A s"
proof -
  have "\<exists>js. path (joins s) j js \<and> memory_binds s k = mset (outs h A (map (joins s) js))" if k: "k \<in> Js" "lastLevel (joins s k) = Some j" for k j
  proof -
    have iv: "net_inv h Js {} {} {} {} s" using i by (simp add: rete_ok_def)
    obtain js where "path (joins s) j js" using path_exists [OF inv_net [OF iv] net_depth(1) [OF iv k]] by blast
    then show ?thesis using memory_complete [OF i A k] by blast
  qed
  then show ?thesis by (simp add: memories_hold_def)
qed

end
