(* ===== verification/Join_Withdraw.thy ===== *)
theory Join_Withdraw
  imports Join_Assert
begin

text \<open>
  Retracting a fact: every alpha match of the fact is taken out of the network, with all that was made from it, and the matches of
  negated and existential patterns that it blocked or satisfied are looked at again.
\<close>

section \<open>The matches that are to be given up\<close>

definition doomed :: "'e matcher \<Rightarrow> addr set \<Rightarrow> 'e rete \<Rightarrow> addr set" where
  "doomed h Js s = {x. ((\<exists>p. x \<in> alphas s p) \<or> (\<exists>j \<in> Js. x \<in> lmem s j)) \<and> PartialMatchWillBeDeleted h x s}"

lemma doomed_skips: "skips h Js NETWORK_RETRACT (doomed h Js s) s"
  by (simp add: skips_def doomed_def)

lemma doomed_parents:
  assumes i: "net_inv h Js D M G Z s" and k: "k \<in> Js" "lastLevel (joins s k) = Some j" "c \<in> lmem s k"
  shows "c \<in> doomed h Js s \<longleftrightarrow> \<not> free_of (doomed h Js s) (parents s c)"
proof -
  have j: "j \<in> Js" by (rule net_depth(1) [OF i k(1,2)])
  obtain x y where xy: "parents s c = (x, y)" by fastforce
  have F: "(x, y) \<in> slots s j" "bnd s c = child_binds s j (x, y)" using lmem_family [OF i k(1,2)] k(3) xy by (auto simp: family_ok_def)
  have l: "l \<in> doomed h Js s \<longleftrightarrow> deleted_binds h s (bnd s l)" if "x = Some l" for l
    using slots_bound(1) [OF i j F(1) that] j by (auto simp: doomed_def PartialMatchWillBeDeleted_binds)
  have a: "a \<in> doomed h Js s \<longleftrightarrow> deleted_binds h s (bnd s a)" if "y = Some a" for a
    using slots_bound(2) [OF i j F(1) that] entry_alphas_alpha by (auto simp: doomed_def PartialMatchWillBeDeleted_binds) blast
  have "c \<in> doomed h Js s \<longleftrightarrow> deleted_binds h s (child_binds s j (x, y))"
    using k by (auto simp: doomed_def PartialMatchWillBeDeleted_binds F(2))
  also have "\<dots> \<longleftrightarrow> \<not> free_of (doomed h Js s) (x, y)"
    unfolding child_binds_deleted [OF i j F(1)] free_of_def using l a by auto
  finally show ?thesis by (simp add: xy)
qed

lemma doomed_inv:
  assumes i: "net_inv h Js {} {} {} {} s"
  shows "net_inv h Js {} ({..< nextMatch s} \<times> doomed h Js s) (doomed h Js s) {} s" (is "net_inv h Js {} ?M ?G {} s")
proof -
  have "family_ok h {} ?G s j k" if k: "k \<in> Js" "lastLevel (joins s k) = Some j" for j k
  proof -
    have F: "family_ok h {} {} s j k" by (rule lmem_family [OF i k])
    have "due h ?G s j = {xy \<in> due h {} s j. free_of ?G xy}" by (auto simp: due_def free_of_def)
    moreover have "lmem s k - ?G = {c \<in> lmem s k. free_of ?G (parents s c)}" using doomed_parents [OF i k] by blast
    moreover have "parents s ` {c \<in> lmem s k. free_of ?G (parents s c)} = {xy \<in> parents s ` lmem s k. free_of ?G xy}" by blast
    ultimately show ?thesis using F doomed_parents [OF i k] unfolding family_ok_def by simp
  qed
  moreover have "mark_ok h ?M ?G s j l" if l: "j \<in> Js" "l \<in> lmem s j" for j l
  proof (rule mark_ok_G)
    show "mark_ok h ?M {} s j l" by (rule mark_ok_keep [OF inv_mark [OF i l]]) simp_all
  qed (use lmem_less [OF i l] in auto)
  moreover have "bounds_ok {} ?M ?G s"
    using lmem_less [OF i] alphas_match(1) [OF i] by (auto simp: bounds_ok_def doomed_def)
  ultimately show ?thesis using i by (simp add: net_inv_def families_ok_def marks_ok_def)
qed

section \<open>What was made from an alpha match\<close>

lemma remove_child_inv:
  assumes ok: "matcher_ok h" and i: "net_inv h Js D M G {} s" and b: "k \<in> Js" "b \<in> lmem s k" "b \<in> G" "left_kids Js s b = {}"
    and a: "pmRightParent (pms s b) = Some a"
  shows "net_inv h Js D M G {} (remove_child h b s)" "gone h Js {b} {l. pmLeftParent (pms s b) = Some l} s (remove_child h b s)"
proof -
  define t where "t = remove_activation h b s"
  note R = remove_activation_inv [OF ok i b(1,2), folded t_def]
  have nf: "\<not> firstJoin (joins s k)" using not_first [OF i b(1,2)] a by simp
  then have "has_left (joins t k)" using R(2) by (simp add: has_left_def)
  then obtain m where m: "leftMemories t k = Some m" "memory_ok (\<lambda>p. pmHash (pms t p)) m" using inv_memory [OF R(1) b(1)] by blast
  have bt: "b \<in> lmem t k" using b(2) R(3) by simp
  have par: "pmRightParent (pms t b) = Some a" "pmLeftParent (pms t b) = pmLeftParent (pms s b)" using R(6) [of b] a by (simp_all add: parents_def)
  obtain p where p: "a \<in> alphas t p" using lmem_right_parent [OF R(1) b(1) bt par(1)] by blast
  have ab: "a \<noteq> b" using lmem_not_alpha [OF R(1) b(1) bt] p by blast
  have "pmLeftParent (pms t b) \<noteq> Some a" using lmem_parent [OF R(1) b(1) bt, of a] lmem_not_alpha [OF R(1), of _ a p] p net_depth(1) [OF R(1) b(1)] by blast
  moreover have "pmChildren (pms t b) = []" using inv_children [OF i b(1,2)] b(4) R(8) by simp
  ultimately have U: "unlinked True b k (remove_activation h b s) (UnlinkBetaPMFromNodeAndLineage k b LHS t)"
    unfolding t_def [symmetric] using par(1) ab by (intro UnlinkBetaPMFromNodeAndLineage_unlinked [OF m bt]) auto
  have own: "pmOwner (pms t b) = k" "\<not> pmRhs (pms t b)" using lmem_match [OF R(1) b(1) bt] by (simp_all add: left_match_ok_def)
  have w: "remove_child h b s = ReturnPartialMatch h b (remove_support h b (UnlinkBetaPMFromNodeAndLineage k b LHS t))"
    using own by (simp add: remove_child_def t_def [symmetric] DeletePartialMatches_def)
  have z: "True \<or> (\<forall>u. pmLeftParent (pms s b) = Some u \<longrightarrow> u \<in> {})" by simp
  note T = take_out [OF ok i b nf z U]
  show "net_inv h Js D M G {} (remove_child h b s)" "gone h Js {b} {l. pmLeftParent (pms s b) = Some l} s (remove_child h b s)"
    using T by (simp_all add: w)
qed

lemma desc_doomed:
  assumes i: "net_inv h Js D M G Z s" and b: "b \<in> G"
  shows "desc Js s b \<subseteq> G"
proof
  have kid: "c \<in> G" if c: "c \<in> left_kids Js s d" and d: "d \<in> G" for c d
  proof -
    obtain k where k: "k \<in> Js" "c \<in> lmem s k" "pmLeftParent (pms s c) = Some d" using c by (auto simp: left_kids_def)
    then obtain j where "lastLevel (joins s k) = Some j" using lmem_parent [OF i k] by blast
    then show ?thesis using lmem_family [OF i k(1)] k d by (fastforce simp: family_ok_def free_of_def parents_def)
  qed
  fix x assume "x \<in> desc Js s b"
  then show "x \<in> G" by induction (use kid b in blast)+
qed

lemma right_kid:
  assumes i: "net_inv h Js D M G Z s" and b: "b \<in> right_kids Js s a" and a: "a \<in> G"
  shows "b \<in> G" "\<exists>k \<in> Js. b \<in> lmem s k \<and> \<not> pmRhs (pms s b)" "pmRightParent (pms s b) = Some a"
proof -
  obtain k where k: "k \<in> Js" "b \<in> lmem s k" "pmRightParent (pms s b) = Some a" using b by (auto simp: right_kids_def)
  then obtain j where "lastLevel (joins s k) = Some j" using not_first [OF i k(1,2)] net_links(1) [OF inv_net [OF i] k(1)] by auto
  then show "b \<in> G" using lmem_family [OF i k(1)] k a by (fastforce simp: family_ok_def free_of_def parents_def)
  show "\<exists>k \<in> Js. b \<in> lmem s k \<and> \<not> pmRhs (pms s b)" using k lmem_match [OF i k(1,2)] by (auto simp: left_match_ok_def)
  show "pmRightParent (pms s b) = Some a" by fact
qed

lemma alpha_children:
  "net_inv h Js D M G Z s \<Longrightarrow> a \<in> alphas s p \<Longrightarrow> distinct (pmChildren (pms s a)) \<and> set (pmChildren (pms s a)) = right_kids Js s a"
  by (auto simp: net_inv_def children_ok_def)

text \<open>One child of the alpha match: what was made from it goes, then the child; the next one is at the head of the list.\<close>

lemma retract_child:
  assumes ok: "matcher_ok h" and i: "net_inv h Js D M G {} s" and a: "a \<in> alphas s p" "a \<in> G" "pmChildren (pms s a) = b # bs"
  shows "\<exists>t u X B bs'. net_inv h Js D M G {} u \<and> gone h Js X B s u \<and> pmChildren (pms u a) = bs' \<and> length bs' \<le> length bs \<and>
     \<not> pmRhs (pms t b) \<and> next_right b t = (case bs' of [] \<Rightarrow> None | c # _ \<Rightarrow> Some c) \<and> u = remove_child h b t \<and>
     (\<exists>m. \<forall>n \<ge> m. (case pmChildren (pms s b) of [] \<Rightarrow> Some s | c # _ \<Rightarrow> network h opn n (PosEntryRetractBeta b c) s) = Some t)"
proof -
  have ch: "distinct (b # bs)" "b \<in> right_kids Js s a" using alpha_children [OF i a(1)] a(3) by auto
  note K = right_kid [OF i ch(2) a(2)]
  obtain k where k: "k \<in> Js" "b \<in> lmem s k" using K(2) by blast
  have G: "G \<union> desc Js s b = G" using desc_doomed [OF i K(1)] by blast
  obtain t m where t: "cleared h Js D M G {} b s t"
      "\<And>n. n \<ge> m \<Longrightarrow> (case pmChildren (pms s b) of [] \<Rightarrow> Some s | c # _ \<Rightarrow> network h opn n (PosEntryRetractBeta b c) s) = Some t"
    using retract_kids [OF ok _ k, of D M G opn] i unfolding G reaches_def by blast
  have it: "net_inv h Js D M G {} t" and g: "gone h Js (desc Js s b) {b} s t" and e: "pmChildren (pms t b) = []"
    using t(1) by (simp_all add: cleared_def)
  note f = gone_fields [OF g]
  have nb: "b \<notin> desc Js s b" by (rule not_own_desc [OF i k])
  have bt: "b \<in> lmem t k" using f(6) [OF k(1)] k(2) nb by simp
  have kids: "left_kids Js t b = {}" using inv_children [OF it k(1) bt] e by simp
  have rp: "pmRightParent (pms t b) = Some a" using f(8) [OF k nb] K(3) by (simp add: parents_def)
  let ?bs = "filter (\<lambda>c. c \<notin> desc Js s b) bs"
  have at: "pmChildren (pms t a) = b # ?bs" using f(15) [OF a(1)] a(3) nb by simp
  note R = remove_child_inv [OF ok it k(1) bt K(1) kids rp]
  have "a \<in> alphas t p" using a(1) f(12) by simp
  then have "pmChildren (pms (remove_child h b t) a) = filter (\<lambda>c. c \<noteq> b) (b # ?bs)" using gone_fields(15) [OF R(2)] at by simp
  also have "\<dots> = ?bs" using ch(1) by (auto intro: filter_cong)
  finally have au: "pmChildren (pms (remove_child h b t) a) = ?bs" .
  have "next_right b t = (case ?bs of [] \<Rightarrow> None | c # _ \<Rightarrow> Some c)" by (simp add: next_right_def rp at)
  moreover have "\<not> pmRhs (pms t b)" using lmem_match [OF it k(1) bt] by (simp add: left_match_ok_def)
  ultimately show ?thesis using R(1) gone_trans [OF g R(2)] au t(2) by (intro exI conjI allI impI) (auto simp: length_filter_le)
qed

lemma retract_children_inv:
  assumes ok: "matcher_ok h" and i: "net_inv h Js D M G {} s" and a: "a \<in> alphas s p" "a \<in> G" "pmChildren (pms s a) = b # bs"
  shows "\<exists>t X B m. net_inv h Js D M G {} t \<and> gone h Js X B s t \<and> pmChildren (pms t a) = [] \<and>
     (\<forall>n \<ge> m. \<forall>c > length bs. retract_children h opn n c b s = Some t)"
  using i a
proof (induction "length bs" arbitrary: s b bs rule: less_induct)
  case less
  obtain t u X B bs' m where u: "net_inv h Js D M G {} u" "gone h Js X B s u" "pmChildren (pms u a) = bs'" "length bs' \<le> length bs"
      "\<not> pmRhs (pms t b)" "next_right b t = (case bs' of [] \<Rightarrow> None | c # _ \<Rightarrow> Some c)" "u = remove_child h b t"
      "\<And>n. n \<ge> m \<Longrightarrow> (case pmChildren (pms s b) of [] \<Rightarrow> Some s | c # _ \<Rightarrow> network h opn n (PosEntryRetractBeta b c) s) = Some t"
    using retract_child [OF ok less.prems, of opn] by metis
  have step: "retract_children h opn n (Suc c) b s = (case bs' of [] \<Rightarrow> Some u | x # _ \<Rightarrow> retract_children h opn n c x u)" if "n \<ge> m" for n c
    using u(5-7) u(8) [OF that] by (simp add: Let_def split: list.split)
  show ?case
  proof (cases bs')
    case Nil
    have "retract_children h opn n c b s = Some u" if "n \<ge> m" "c > length bs" for n c using step [OF that(1), of "c - 1"] that(2) Nil by simp
    then show ?thesis using u(1-3) Nil by blast
  next
    case (Cons x xs)
    have au: "a \<in> alphas u p" using less.prems(2) gone_fields(12) [OF u(2)] by simp
    have "length xs < length bs" using u(4) Cons by simp
    from less.hyps [OF this u(1) au less.prems(3)] u(3) Cons
    obtain v Y C m' where v: "net_inv h Js D M G {} v" "gone h Js Y C u v" "pmChildren (pms v a) = []"
        "\<And>n c. n \<ge> m' \<Longrightarrow> c > length xs \<Longrightarrow> retract_children h opn n c x u = Some v" by blast
    have "retract_children h opn n c b s = Some v" if "n \<ge> max m m'" "c > length bs" for n c
      using step [of n "c - 1"] v(4) [of n "c - 1"] that u(4) Cons by simp
    then show ?thesis using v gone_trans [OF u(2) v(2)] by blast
  qed
qed

lemma PosEntryRetractAlpha_inv:
  assumes ok: "matcher_ok h" and i: "net_inv h Js D M G {} s" and a: "a \<in> alphas s p" "a \<in> G"
  shows "\<exists>t X B m. net_inv h Js D M G {} t \<and> gone h Js X B s t \<and> right_kids Js t a = {} \<and> (\<forall>n \<ge> m. PosEntryRetractAlpha h opn n a s = Some t)"
proof (cases "pmChildren (pms s a)")
  case Nil
  then have "right_kids Js s a = {}" using alpha_children [OF i a(1)] by simp
  then show ?thesis using i gone_refl [of h Js "{}" s] Nil unfolding PosEntryRetractAlpha_def by force
next
  case (Cons b bs)
  obtain t X B m where t: "net_inv h Js D M G {} t" "gone h Js X B s t" "pmChildren (pms t a) = []"
      "\<And>n c. n \<ge> m \<Longrightarrow> c > length bs \<Longrightarrow> retract_children h opn n c b s = Some t"
    using retract_children_inv [OF ok i a Cons] by blast
  have at: "a \<in> alphas t p" using a(1) gone_fields(12) [OF t(2)] by simp
  have "right_kids Js t a = {}" using alpha_children [OF t(1) at] t(3) by simp
  moreover have "PosEntryRetractAlpha h opn n a s = Some t" if "n \<ge> max m (Suc (length bs))" for n
    using t(4) [of n n] that by (simp add: PosEntryRetractAlpha_def Cons)
  ultimately show ?thesis using t(1,2) by blast
qed


section \<open>Looking for another right match\<close>

lemma due_nonpositive:
  assumes i: "net_inv h Js D M G Z s" and j: "j \<in> Js" "\<not> positive (joins s j)"
  shows "(Some l, y) \<in> due h G s j \<longleftrightarrow> y = None \<and> l \<in> lmem s j \<and> l \<notin> G \<and>
    (if patternIsNegated (joins s j) then mark s l = Unmarked \<and> sec_ok h (joins s j) (bnd s l) else mark s l \<noteq> Unmarked)"
  using j(2) net_tests(2,4) [OF inv_net [OF i] j(1)] by (auto simp: due_def slots_def wanted_def Let_def positive_def free_of_def)

definition rival :: "'e matcher \<Rightarrow> addr set \<Rightarrow> 'e rete \<Rightarrow> addr \<Rightarrow> addr \<Rightarrow> addr \<Rightarrow> bool" where
  "rival h G s j l r \<longleftrightarrow> r \<notin> G \<and> pair_ok h (joins s j) (bnd s l) (bnd s r)"

text \<open>The right matches that go with a left match are in one queue; the marker is one of them, and no other one stands before it.\<close>

lemma rivals_queue:
  assumes i: "net_inv h Js D M G Z s" and j: "j \<in> Js" "l \<in> lmem s j" "\<not> positive (joins s j)" and a: "mark s l = BlockedBy a" "a \<in> G"
    and M: "M \<subseteq> UNIV \<times> G"
  shows "\<exists>p hv xs ys. queue s p hv = xs @ a # ys \<and> rightSideEntryStructure (joins s j) = PatternEntry p \<and>
     (\<forall>r \<in> entry_alphas s (joins s j). rival h G s j l r \<longrightarrow> r \<in> set ys) \<and> (\<forall>b \<in> set xs. \<not> rival h G s j l b)"
proof -
  let ?J = "joins s j"
  have nt: "\<not> terminal ?J" using net_links(5) [OF inv_net [OF i] j(1)] j(3) by blast
  have m: "a \<in> entry_alphas s ?J" "pair_ok h ?J (bnd s l) (bnd s a)"
      "\<And>b. precedes s b a \<Longrightarrow> b \<notin> G \<Longrightarrow> \<not> pair_ok h ?J (bnd s l) (bnd s b)"
    using inv_mark [OF i j(1,2)] nt j(3) a M by (auto simp: mark_ok_def Let_def)
  obtain p where p: "rightSideEntryStructure ?J = PatternEntry p" using entry_alphas_alpha [OF m(1)] by blast
  have one: "\<exists>hv. \<forall>r \<in> entry_alphas s ?J. pair_ok h ?J (bnd s l) (bnd s r) \<longrightarrow> r \<in> set (queue s p hv)"
  proof (cases "firstJoin ?J")
    case True
    have "r \<in> set (queue s p (AlphaMemoryHashValue p 0))" if "r \<in> entry_alphas s ?J" for r
    proof -
      have "r \<in> alphas s p" using that p by (simp add: entry_alphas_def)
      then obtain am where am: "pmHash (pms s r) = alpha_hash h (headers s p) am" "bucket am = AlphaMemoryHashValue p (pmHash (pms s r))" "r \<in> set (queue s p (bucket am))"
        using alphas_match(4) [OF i] by blast
      have "alpha_hash h (headers s p) am = 0" using net_hash(1) [OF inv_net [OF i] j(1) p True] by (simp add: alpha_hash_def ComputeRightHashValue_def)
      then show ?thesis using am by simp
    qed
    then show ?thesis by blast
  next
    case False
    show ?thesis using left_bucket [OF i j(1,2) False p] right_matches_queue(1) [OF i j(1) p] by metis
  qed
  then obtain hv where hv: "\<And>r. r \<in> entry_alphas s ?J \<Longrightarrow> pair_ok h ?J (bnd s l) (bnd s r) \<Longrightarrow> r \<in> set (queue s p hv)" by blast
  obtain xs ys where q: "queue s p hv = xs @ a # ys" using split_list [OF hv [OF m(1,2)]] by blast
  have before: "\<not> pair_ok h ?J (bnd s l) (bnd s b)" if "b \<in> set xs" "b \<notin> G" for b
  proof -
    obtain us vs where "xs = us @ b # vs" using split_list \<open>b \<in> set xs\<close> by metis
    then have "queue s p hv = us @ b # vs @ a # ys" using q by simp
    then have "precedes s b a" unfolding precedes_def by blast
    then show ?thesis using m(3) that(2) by blast
  qed
  then have "r \<in> set ys" if "r \<in> entry_alphas s ?J" "rival h G s j l r" for r
    using hv [of r] that q a(2) by (auto simp: rival_def)
  moreover have "\<not> rival h G s j l b" if "b \<in> set xs" for b using before [OF that] by (auto simp: rival_def)
  ultimately show ?thesis using q p by blast
qed

lemma conflicts_value:
  assumes n: "net_ok h Js (joins s) H" and j: "j \<in> Js" "\<not> positive (joins s j)" and ok: "matcher_ok h"
    and sk: "opn = NETWORK_RETRACT \<and> PartialMatchWillBeDeleted h r s \<longleftrightarrow> r \<in> G" and a: "a \<in> G"
  shows "fst (conflicts h opn j l a r s) \<longleftrightarrow> rival h G s j l r" "silent s (snd (conflicts h opn j l a r s))"
proof -
  have d: "\<not> PartialMatchDefunct h r s"
    using matcher_deleted(5) [OF ok] by (auto simp: PartialMatchDefunct_def list_ex_iff split: option.splits)
  have e: "patternIsNegated (joins s j) \<or> \<not> snd (EvaluateJoinExpression h (networkTest (joins s j)) x y)" for x y
    using net_tests(9) [OF n j(1)] j(2) by (auto simp: positive_def)
  show "fst (conflicts h opn j l a r s) \<longleftrightarrow> rival h G s j l r"
    using d e sk a by (auto simp: rival_def conflicts_def Let_def case_prod_unfold join_eval_silent pair_ok_def)
  show "silent s (snd (conflicts h opn j l a r s))" by (simp add: conflicts_def Let_def case_prod_unfold join_eval_silent)
qed

lemma rival_silent: "silent s t \<Longrightarrow> rival h G t j l r = rival h G s j l r"
  by (simp add: rival_def silent_fields)

lemma find_next:
  assumes n: "net_ok h Js (joins s) H" and j: "j \<in> Js" "\<not> positive (joins s j)" and ok: "matcher_ok h"
    and sk: "\<And>r. r \<in> set rs \<Longrightarrow> opn = NETWORK_RETRACT \<and> PartialMatchWillBeDeleted h r s \<longleftrightarrow> r \<in> G" and a: "a \<in> G"
  shows "(\<exists>t. silent s t \<and> FindNextConflictingMatch h opn l rs j a s = (False, t) \<and> (\<forall>r \<in> set rs. \<not> rival h G s j l r)) \<or>
    (\<exists>t us r vs. silent s t \<and> FindNextConflictingMatch h opn l rs j a s = (True, AddBlockedLink l r t) \<and> rs = us @ r # vs \<and> rival h G s j l r \<and>
       (\<forall>u \<in> set us. \<not> rival h G s j l u))"
  using n j sk
proof (induction rs arbitrary: s)
  case Nil
  then show ?case by (intro disjI1 exI [of _ s]) simp
next
  case (Cons r rs)
  let ?c = "compare_count j s"
  have W: "PartialMatchWillBeDeleted h x t = PartialMatchWillBeDeleted h x s" if "silent s t" for x t
    unfolding PartialMatchWillBeDeleted_def silent_fields(5,9) [OF that] by (rule refl)
  have skr: "opn = NETWORK_RETRACT \<and> PartialMatchWillBeDeleted h r ?c \<longleftrightarrow> r \<in> G" using Cons.prems(4) [of r] W [of ?c] by simp
  note V = conflicts_value [of h Js ?c H j opn r G a l, simplified, OF Cons.prems(1-3) ok skr a]
  let ?t = "snd (conflicts h opn j l a r ?c)"
  have q: "silent s ?t" by (rule silent_trans [OF compare_count_silent V(2)])
  have r: "rival h G ?c j l r = rival h G s j l r" by (rule rival_silent) simp
  show ?case
  proof (cases "rival h G s j l r")
    case True
    then have "FindNextConflictingMatch h opn l (r # rs) j a s = (True, AddBlockedLink l r ?t)" using V(1) r by (simp add: Let_def case_prod_unfold)
    then show ?thesis using True q by (intro disjI2 exI [of _ ?t] exI [of _ "[]"] exI [of _ r] exI [of _ rs]) simp
  next
    case False
    then have e: "FindNextConflictingMatch h opn l (r # rs) j a s = FindNextConflictingMatch h opn l rs j a ?t" using V(1) r by (simp add: Let_def case_prod_unfold)
    have sk: "opn = NETWORK_RETRACT \<and> PartialMatchWillBeDeleted h x ?t \<longleftrightarrow> x \<in> G" if "x \<in> set rs" for x using Cons.prems(4) [of x] W [OF q] that by simp
    have "net_ok h Js (joins ?t) H" "\<not> positive (joins ?t j)" using Cons.prems(1,3) by (simp_all add: silent_fields [OF q])
    from Cons.IH [OF this(1) Cons.prems(2) this(2) sk]
    consider (none) t where "silent ?t t" "FindNextConflictingMatch h opn l rs j a ?t = (False, t)" "\<forall>r \<in> set rs. \<not> rival h G s j l r"
      | (found) t us x vs where "silent ?t t" "FindNextConflictingMatch h opn l rs j a ?t = (True, AddBlockedLink l x t)" "rs = us @ x # vs"
        "rival h G s j l x" "\<forall>u \<in> set us. \<not> rival h G s j l u"
      unfolding rival_silent [OF q] by blast
    then show ?thesis
    proof cases
      case none
      then show ?thesis using False silent_trans [OF q none(1)] e by (intro disjI1 exI [of _ t]) simp
    next
      case found
      then show ?thesis using False silent_trans [OF q found(1)] e by (intro disjI2 exI [of _ t] exI [of _ "r # us"] exI [of _ x] exI [of _ vs]) simp
    qed
  qed
qed

section \<open>A left match whose marker goes\<close>

lemma silent_remarked: "silent s t \<Longrightarrow> remarked l s t"
  by (auto simp: remarked_def silent_def view_def same_core_def parents_def)

lemma remarked_trans: "remarked l s t \<Longrightarrow> remarked l t u \<Longrightarrow> remarked l s u"
  by (simp add: remarked_def same_core_def)

definition freeing :: "'e matcher \<Rightarrow> addr set \<Rightarrow> (addr \<times> addr) set \<Rightarrow> addr set \<Rightarrow> addr \<Rightarrow> addr \<Rightarrow> addr \<Rightarrow> 'e rete \<Rightarrow> bool" where
  "freeing h Js M G j a l s \<longleftrightarrow> net_inv h Js {} M G {} s \<and> skips h Js NETWORK_RETRACT G s \<and> j \<in> Js \<and> l \<in> lmem s j \<and> \<not> positive (joins s j) \<and>
     mark s l = BlockedBy a \<and> a \<in> G \<and> M \<subseteq> UNIV \<times> G"

definition freed :: "'e matcher \<Rightarrow> addr set \<Rightarrow> (addr \<times> addr) set \<Rightarrow> addr set \<Rightarrow> addr \<Rightarrow> addr \<Rightarrow> 'e rete \<Rightarrow> 'e rete \<Rightarrow> bool" where
  "freed h Js M G j l s t \<longleftrightarrow> net_inv h Js {} (M - pending_marks l) G {} t \<and> skips h Js NETWORK_RETRACT G t \<and> frame h Js j {l} s t"

lemma freeingD:
  assumes "freeing h Js M G j a l s"
  shows "net_inv h Js {} M G {} s" "skips h Js NETWORK_RETRACT G s" "j \<in> Js" "l \<in> lmem s j" "\<not> positive (joins s j)" "mark s l = BlockedBy a" "a \<in> G"
    "M \<subseteq> UNIV \<times> G"
  using assms by (simp_all add: freeing_def)

lemma freeing_marker:
  assumes "freeing h Js M G j a l s"
  shows "a \<in> entry_alphas s (joins s j)" "patternIsExists (joins s j) \<Longrightarrow> sec_ok h (joins s j) (bnd s l)" "l \<noteq> a" "\<not> terminal (joins s j)"
proof -
  note S = freeingD [OF assms]
  show nt: "\<not> terminal (joins s j)" using net_links(5) [OF inv_net [OF S(1)] S(3)] S(5) by blast
  show a: "a \<in> entry_alphas s (joins s j)" and "patternIsExists (joins s j) \<Longrightarrow> sec_ok h (joins s j) (bnd s l)"
    using inv_mark [OF S(1,3,4)] nt S(5,6) by (auto simp: mark_ok_def Let_def)
  show "l \<noteq> a" using entry_alphas_alpha [OF a] lmem_not_alpha [OF S(1,3,4)] by blast
qed

text \<open>Another right match takes the place of the marker.\<close>

lemma free_found:
  assumes fr: "freeing h Js M G j a l s" and q: "silent (RemoveBlockedLink l s) u" and r: "r \<in> entry_alphas s (joins s j)" "rival h G s j l r"
    and first: "\<And>b. precedes s b r \<Longrightarrow> \<not> rival h G s j l b"
  shows "freed h Js M G j l s (AddBlockedLink l r u)"
proof -
  note S = freeingD [OF fr] and A = freeing_marker [OF fr]
  let ?t = "AddBlockedLink l r u"
  obtain p where p: "r \<in> alphas s p" using entry_alphas_alpha [OF r(1)] by blast
  have lr: "l \<noteq> r" using p lmem_not_alpha [OF S(1,3,4)] by blast
  have ra: "r \<noteq> a" "r \<notin> G" using r(2) S(7) by (auto simp: rival_def)
  have rm: "remarked l s ?t"
    by (rule remarked_trans [OF RemoveBlockedLink_remarked remarked_trans [OF silent_remarked [OF q] AddBlockedLink_remarked [OF lr]]])
  note f = remarked_fields [OF rm]
  have mk: "mark ?t l = BlockedBy r" by (rule AddBlockedLink_fields(1) [OF lr])
  have bl: "pmBlockList (pms ?t x) = (if x = r then l # pmBlockList (pms s x) else if x = a then remove1 l (pmBlockList (pms s x)) else pmBlockList (pms s x))" for x
    using ra(1) by (simp add: AddBlockedLink_fields(2) silent_fields(5) [OF q] RemoveBlockedLink_fields(2) [OF S(6)])
  have bb: "blocked_by Js ?t x = (if x = r then insert l (blocked_by Js s x) else blocked_by Js s x - {l})" for x
  proof -
    have "mark ?t y = BlockedBy x \<longleftrightarrow> (if y = l then x = r else mark s y = BlockedBy x)" for y using mk f(16) by auto
    then show ?thesis using S(3,4) unfolding blocked_by_def f(5) by auto
  qed
  have bs: "distinct (pmBlockList (pms s x))" "set (pmBlockList (pms s x)) = blocked_by Js s x" if "x \<in> alphas s q'" for x q'
    using inv_parts(6) [OF S(1)] that by (auto simp: blocks_ok_def)
  have nl: "l \<notin> blocked_by Js s x" if "x \<noteq> a" for x using S(6) that by (auto simp: blocked_by_def)
  have "net_inv h Js {} (M - pending_marks l) G {} ?t"
  proof (rule remarked_inv [OF rm S(1,3,4)])
    show "(k, Some l, None) \<in> {}" if "((Some l, None) \<in> due h G ?t j) \<noteq> ((Some l, None) \<in> due h G s j)" for k
    proof -
      have "((Some l, None) \<in> due h G ?t j) = ((Some l, None) \<in> due h G s j)"
        unfolding due_def slots_def wanted_def Let_def mem_Collect_eq f(1,5,8,11) fst_conv option.sel mk S(6) using S(5) by (auto simp: positive_def)
      then show ?thesis using that by blast
    qed
    show "pmBlockList (pms ?t x) = pmBlockList (pms s x)" if "i \<in> Js" "x \<in> lmem s i" for i x
      using lmem_not_alpha [OF S(1) that] p entry_alphas_alpha [OF A(1)] by (auto simp: bl)
    show "distinct (pmBlockList (pms ?t x)) \<and> set (pmBlockList (pms ?t x)) = blocked_by Js ?t x" if "x \<in> alphas s q'" for x q'
      using bs [OF that] nl [of x] ra(1) unfolding bb bl by (auto simp: set_remove1_eq)
    show "mark_ok h (M - pending_marks l) G ?t j l"
      using A S(5) r ra(2) first unfolding mark_ok_def Let_def f(1,8,9,11) mk rival_def by auto
  qed (simp_all add: pending_marks_def)
  then show ?thesis using remarked_frame(1,2) [OF rm] S(2) by (simp add: freed_def)
qed

text \<open>No other right match goes with the left match.\<close>

lemma free_mark:
  assumes fr: "freeing h Js M G j a l s" and none: "\<And>r. r \<in> entry_alphas s (joins s j) \<Longrightarrow> \<not> rival h G s j l r" and G: "G \<subseteq> G'"
  shows "mark_ok h M' G' (RemoveBlockedLink l s) j l"
proof -
  note S = freeingD [OF fr] and A = freeing_marker [OF fr]
  note f = remarked_fields [OF RemoveBlockedLink_remarked [of l s]]
  show ?thesis
    using A(4) S(5) RemoveBlockedLink_fields(1) [OF S(6)] none G unfolding mark_ok_def Let_def f(1,8,9,11) rival_def by auto
qed

text \<open>An existential pattern: what was made from the left match is given up.\<close>

lemma free_exists:
  assumes ok: "matcher_ok h" and fr: "freeing h Js M G j a l s" and q: "silent (RemoveBlockedLink l s) u"
    and none: "\<And>r. r \<in> entry_alphas s (joins s j) \<Longrightarrow> \<not> rival h G s j l r" and e: "patternIsExists (joins s j)"
  shows "reaches h NETWORK_RETRACT (\<lambda>rec. case pmChildren (pms u l) of [] \<Rightarrow> Some u | c # _ \<Rightarrow> rec (PosEntryRetractBeta l c) u) (freed h Js M G j l s)"
proof -
  note S = freeingD [OF fr]
  let ?M = "M - pending_marks l"
  have D: "net_inv h Js (pending_left l) M (G \<union> desc Js s l) {} s" using doom_inv [OF S(1,3,4)] by simp
  have "net_inv h Js (pending_left l) ?M (G \<union> desc Js s l) {} (RemoveBlockedLink l s)"
    by (rule remark_inv [OF D S(3-6) _ free_mark [OF fr none]]) (auto simp: pending_left_def pending_marks_def)
  then have iu: "net_inv h Js (pending_left l) ?M (G \<union> desc Js s l) {} u" using silent_inv [OF q] by simp
  have rm: "remarked l s u" by (rule remarked_trans [OF RemoveBlockedLink_remarked silent_remarked [OF q]])
  note f = remarked_fields [OF rm]
  have lu: "l \<in> lmem u j" using S(4) f(5) by simp
  have mu: "mark u l = Unmarked" using RemoveBlockedLink_fields(1) [OF S(6)] silent_fields(5) [OF q] by simp
  show ?thesis
  proof (rule reaches_mono [OF retract_kids [OF ok iu [folded remarked_desc [OF rm, of Js]] S(3) lu]])
    fix t assume t: "cleared h Js (pending_left l) ?M G {} l u t"
    then have it: "net_inv h Js (pending_left l) ?M G {} t" and g: "gone h Js (desc Js u l) {l} u t" by (simp_all add: cleared_def)
    note gf = gone_fields [OF g]
    have nd: "l \<notin> desc Js u l" by (rule not_own_desc [OF iu S(3) lu])
    have lt: "l \<in> lmem t j" "mark t l = Unmarked" using gf(6,7) [OF S(3)] lu nd mu by simp_all
    have np: "\<not> positive (joins t j)" "patternIsExists (joins t j)" "\<not> patternIsNegated (joins t j)"
      using S(5) e net_tests(2) [OF inv_net [OF S(1)] S(3)] by (simp_all add: gf(1) f(1))
    have "net_inv h Js (pending_left l - pending_left l) ?M G {} t"
      by (rule settle_D [OF it S(3) lt(1)]) (use due_nonpositive [OF it S(3) np(1)] np(3) lt(2) in simp)
    then have "net_inv h Js {} ?M G {} t" by simp
    moreover have "frame h Js j {l} s t"
    proof (rule frame_trans [OF remarked_frame(1) [OF rm] gone_frame [OF g]])
      show "lmem u i \<inter> desc Js u l = {}" if "i \<in> Js" "\<not> below (joins u) j i" for i
        using desc_depth [OF iu S(3) lu] lmem_unique [OF iu] that by blast
    qed
    ultimately show "freed h Js M G j l s t" using gone_skips [OF g remarked_frame(2) [OF rm S(2)]] by (simp add: freed_def)
  qed
qed

text \<open>A negated pattern: the left match is driven on if the secondary test lets it through and it is not to be given up itself.\<close>

lemma free_nothing:
  assumes fr: "freeing h Js M G j a l s" and q: "silent (RemoveBlockedLink l s) u"
    and none: "\<And>r. r \<in> entry_alphas s (joins s j) \<Longrightarrow> \<not> rival h G s j l r" and n: "patternIsNegated (joins s j)"
    and no: "\<not> sec_ok h (joins s j) (bnd s l) \<or> l \<in> G"
  shows "freed h Js M G j l s u"
proof -
  note S = freeingD [OF fr]
  let ?s = "RemoveBlockedLink l s"
  note f = remarked_fields [OF RemoveBlockedLink_remarked [of l s]]
  have "(Some l, None) \<notin> due h G s j" using due_nonpositive [OF S(1,3,5)] n S(6) by simp
  moreover have "(Some l, None) \<notin> due h G ?s j"
    unfolding due_def slots_def wanted_def Let_def mem_Collect_eq f(1,5,8,11) fst_conv option.sel free_of_def
    using S(5) n no net_tests(4) [OF inv_net [OF S(1)] S(3)] by (auto simp: positive_def)
  ultimately have "net_inv h Js {} (M - pending_marks l) G {} ?s"
    by (intro remark_inv [OF S(1,3-6) _ free_mark [OF fr none]]) (auto simp: pending_marks_def)
  then have "net_inv h Js {} (M - pending_marks l) G {} u" using silent_inv [OF q] by simp
  moreover have rm: "remarked l s u" by (rule remarked_trans [OF RemoveBlockedLink_remarked silent_remarked [OF q]])
  ultimately show ?thesis using remarked_frame(1,2) [OF rm] S(2) by (simp add: freed_def)
qed

lemma free_drive:
  assumes ok: "matcher_ok h" and fr: "freeing h Js M G j a l s" and q: "silent (RemoveBlockedLink l s) u"
    and none: "\<And>r. r \<in> entry_alphas s (joins s j) \<Longrightarrow> \<not> rival h G s j l r" and n: "patternIsNegated (joins s j)"
    and yes: "sec_ok h (joins s j) (bnd s l)" "l \<notin> G"
  shows "reaches h NETWORK_RETRACT (\<lambda>rec. if firstJoin (joins s j) then EPMDrive rec l j u else PPDrive h rec l None j u) (freed h Js M G j l s)"
proof -
  note S = freeingD [OF fr]
  let ?s = "RemoveBlockedLink l s" and ?M = "M - pending_marks l" and ?D = "to_children (joins s) j (Some l, None)"
  have nd: "(Some l, None) \<notin> due h G s j" using due_nonpositive [OF S(1,3,5)] n S(6) by simp
  have "net_inv h Js ?D M G {} s"
  proof (rule inv_D [OF S(1)])
    show "(k, xy) \<in> {} \<longleftrightarrow> (k, xy) \<in> ?D" if "k \<in> Js" "lastLevel (joins s k) = Some i" "xy \<in> due h G s i" for k i xy
      using that(2,3) nd by (auto simp: to_children_def)
  qed (use lmem_less [OF S(1,3,4)] in \<open>auto simp: to_children_def\<close>)
  from remark_inv [OF this S(3-6) _ free_mark [OF fr none subset_refl, of ?M]]
  have "net_inv h Js ?D ?M G {} ?s" by (auto simp: to_children_def pending_marks_def)
  then have iu: "net_inv h Js ?D ?M G {} u" using silent_inv [OF q] by simp
  have rm: "remarked l s u" by (rule remarked_trans [OF RemoveBlockedLink_remarked silent_remarked [OF q]])
  note f = remarked_fields [OF rm]
  have mu: "mark u l = Unmarked" using RemoveBlockedLink_fields(1) [OF S(6)] silent_fields(5) [OF q] by simp
  have np: "\<not> positive (joins u j)" using S(5) by (simp add: f(1))
  have due: "(Some l, None) \<in> due h G u j"
    unfolding due_nonpositive [OF iu S(3) np] using S(4) yes n mu by (simp add: f(1,5,11))
  have dr: "drivable h Js NETWORK_RETRACT ?D ?M G j (Some l, None) u"
    using iu remarked_frame(2) [OF rm S(2)] S(3) due left_spec_all [OF ok] by (auto simp: drivable_def to_children_def f(1))
  have "reaches h NETWORK_RETRACT (\<lambda>rec. if firstJoin (joins s j) then EPMDrive rec l j u else PPDrive h rec l None j u)
      (driven h Js NETWORK_RETRACT ?D ?M G j (Some l, None) u)"
    using EPMDrive_driven [OF dr] PPDrive_driven [OF dr] np by (cases "firstJoin (joins s j)") (simp_all add: f(1))
  then show ?thesis
  proof (rule reaches_mono)
    fix t assume t: "driven h Js NETWORK_RETRACT ?D ?M G j (Some l, None) u t"
    then have "frame h Js j {l} u t" by (simp add: driven_def)
    from frame_trans [OF remarked_frame(1) [OF rm] this] show "freed h Js M G j l s t" using t by (simp add: freed_def driven_def f(1))
  qed
qed

end
