(* ===== verification/Join_Removal.thy ===== *)
theory Join_Removal
  imports Join_Withdraw
begin

text \<open>
  A blocked match whose blocker is retracted finds another one or is sent on, the matches of the retracted fact leave their alpha memories, and when
  the last of them is gone the network is up to date for the facts that are left.
\<close>

section \<open>One blocked match\<close>

lemma chain_after_queue:
  assumes i: "net_inv h Js D M G Z s" and q: "queue s p hv = xs @ a # ys" and t: "queue t = queue s" "same_core s t a"
  shows "chain_after a t = ys"
proof -
  have "a \<in> set (queue s p hv)" using q by simp
  then have ok: "alpha_match_ok h s p hv a" and d: "distinct (xs @ a # ys)" using inv_parts(3) [OF i] q unfolding queues_ok_def by (blast, metis)
  have o: "pmOwner (pms t a) = p" "alpha_bucket a t = hv" "\<not> pmBeta (pms t a)"
    using ok t(2) by (auto simp: alpha_match_ok_def same_core_def alpha_bucket_def)
  have "(case FindAlphaMemory p hv t of None \<Rightarrow> [] | Some am \<Rightarrow> alphaMemory am) = xs @ a # ys"
    using q t(1) by (simp add: queue_def [symmetric])
  then show ?thesis using o dropWhile_at [OF d] by (simp add: chain_after_def Let_def)
qed

lemma NegEntryRetractBeta_freed:
  assumes ok: "matcher_ok h" and fr: "freeing h Js M G j a l s"
  shows "reaches h NETWORK_RETRACT (\<lambda>rec. NegEntryRetractBeta h rec NETWORK_RETRACT j a l s) (freed h Js M G j l s)"
proof -
  note S = freeingD [OF fr]
  let ?s = "RemoveBlockedLink l s" and ?J = "joins s j"
  note rm = RemoveBlockedLink_remarked [of l s]
  note f = remarked_fields [OF rm]
  obtain p hv xs ys where q: "queue s p hv = xs @ a # ys" "rightSideEntryStructure ?J = PatternEntry p"
      "\<And>r. r \<in> entry_alphas s ?J \<Longrightarrow> rival h G s j l r \<Longrightarrow> r \<in> set ys" "\<And>b. b \<in> set xs \<Longrightarrow> \<not> rival h G s j l b"
    using rivals_queue [OF S(1,3-8)] by blast
  have ch: "chain_after a ?s = ys" by (rule chain_after_queue [OF S(1) q(1) f(6,10)])
  have al: "r \<in> alphas s p" if "r \<in> set ys" for r using that q(1) by (auto simp: alphas_def intro!: exI [of _ hv])
  have ea: "r \<in> entry_alphas s ?J" if "r \<in> set ys" for r using al [OF that] q(2) by (simp add: entry_alphas_def)
  have sk: "NETWORK_RETRACT = NETWORK_RETRACT \<and> PartialMatchWillBeDeleted h r ?s \<longleftrightarrow> r \<in> G" if "r \<in> set ys" for r
    using al [OF that] by (intro willBeDeleted_G [OF remarked_frame(2) [OF rm S(2)], of r p]) (simp add: f(7))
  have ri: "rival h G ?s j l = rival h G s j l" by (rule ext) (simp add: rival_def f(1,11))
  have n: "net_ok h Js (joins ?s) (headers s)" "\<not> positive (joins ?s j)" using inv_net [OF S(1)] S(5) by (simp_all add: f(1))
  have xor: "patternIsNegated ?J \<longleftrightarrow> \<not> patternIsExists ?J" using S(5) net_tests(2) [OF inv_net [OF S(1)] S(3)] by (auto simp: positive_def)
  have nr: "\<not> joinFromTheRight ?J" using net_tests(1) [OF inv_net [OF S(1)] S(3)] .
  from find_next [where rs = ys and l = l, OF n(1) S(3) n(2) ok sk S(7)]
  consider (none) u where "silent ?s u" "FindNextConflictingMatch h NETWORK_RETRACT l ys j a ?s = (False, u)" "\<And>r. r \<in> set ys \<Longrightarrow> \<not> rival h G s j l r"
    | (found) u us r vs where "silent ?s u" "FindNextConflictingMatch h NETWORK_RETRACT l ys j a ?s = (True, AddBlockedLink l r u)" "ys = us @ r # vs"
        "rival h G s j l r" "\<And>b. b \<in> set us \<Longrightarrow> \<not> rival h G s j l b"
    unfolding ri by blast
  then show ?thesis
  proof cases
    case found
    have "\<not> rival h G s j l b" if "precedes s b r" for b
    proof -
      have "b \<in> set (xs @ a # us)" by (rule precedes_prefix [OF S(1) _ that, of p hv _ vs]) (simp add: q(1) found(3))
      then show ?thesis using q(4) found(5) S(7) by (auto simp: rival_def)
    qed
    then have "freed h Js M G j l s (AddBlockedLink l r u)" using ea [of r] found by (intro free_found [OF fr found(1)]) auto
    then show ?thesis by (simp add: NegEntryRetractBeta_def Let_def ch found(2) reaches_return)
  next
    case none
    have nor: "\<not> rival h G s j l r" if "r \<in> entry_alphas s ?J" for r using q(3) [OF that] none(3) by blast
    note g = silent_fields [OF none(1)]
    show ?thesis
    proof (cases "patternIsExists ?J")
      case True
      show ?thesis
        using free_exists [OF ok fr none(1) nor True] True by (simp add: NegEntryRetractBeta_def Let_def ch none(2))
    next
      case False
      then have ne: "patternIsNegated ?J" using xor by blast
      let ?u = "snd (EvaluateSecondaryNetworkTest h l j u)"
      have sv: "fst (EvaluateSecondaryNetworkTest h l j u) = sec_ok h ?J (bnd s l)" by (simp add: secondary_value(1) g(1,5) f(1,11))
      have q': "silent ?s ?u" by (rule silent_trans [OF none(1) secondary_value(2)])
      have fl: "l \<notin> G" if "firstJoin ?J"
      proof -
        have "bnd s l = [None]" using lmem_match [OF S(1,3,4)] that by (simp add: left_match_ok_def)
        then show ?thesis using S(2-4) by (auto simp: skips_def PartialMatchWillBeDeleted_binds)
      qed
      have wd: "PartialMatchWillBeDeleted h l ?u \<longleftrightarrow> l \<in> G"
        using willBeDeleted_G [OF skips_silent [OF remarked_frame(2) [OF rm S(2)] q'], of l _ j] S(3,4) by (simp add: silent_fields(8) [OF q'] f(5))
      have e: "NegEntryRetractBeta h rec NETWORK_RETRACT j a l s = (if \<not> sec_ok h ?J (bnd s l) \<or> l \<in> G then Some ?u
          else if firstJoin ?J then EPMDrive rec l j ?u else PPDrive h rec l None j ?u)" for rec
        using False ne fl by (simp add: NegEntryRetractBeta_def Let_def ch none(2) case_prod_unfold sv wd)
      show ?thesis
      proof (cases "\<not> sec_ok h ?J (bnd s l) \<or> l \<in> G")
        case True
        then show ?thesis using free_nothing [OF fr q' nor ne True] by (simp add: e reaches_return)
      next
        case no: False
        then show ?thesis using free_drive [OF ok fr q' nor ne] by (simp add: e)
      qed
    qed
  qed
qed

section \<open>All blocked matches\<close>

text \<open>Whatever the network does for a retraction, alpha memories stay, old matches are as they were, and no old one moves.\<close>

definition stays :: "'e matcher \<Rightarrow> addr set \<Rightarrow> 'e rete \<Rightarrow> 'e rete \<Rightarrow> bool" where
  "stays h Js s t \<longleftrightarrow> joins t = joins s \<and> headers t = headers s \<and> AlphaMemoryTable t = AlphaMemoryTable s \<and> nextMatch s \<le> nextMatch t \<and>
     (\<forall>p < nextMatch s. same_core s t p) \<and>
     (\<forall>i \<in> Js. \<forall>c \<in> lmem t i. nextMatch s \<le> c \<or> c \<in> lmem s i \<and> parents t c = parents s c) \<and>
     (\<forall>f. isDeleted h f (environment t) = isDeleted h f (environment s))"

lemma frame_stays: "frame h Js j X s t \<Longrightarrow> stays h Js s t"
  by (simp add: frame_def stays_def)

lemma gone_stays: "gone h Js X B s t \<Longrightarrow> stays h Js s t"
  by (auto simp: gone_def stays_def)

lemma stays_refl: "stays h Js s s"
  by (simp add: stays_def same_core_def)

lemma stays_trans:
  assumes "stays h Js s t" "stays h Js t u"
  shows "stays h Js s u"
proof -
  have "same_core s u p" if "p < nextMatch s" for p using assms that by (auto simp: stays_def same_core_def)
  moreover have "nextMatch s \<le> c \<or> c \<in> lmem s i \<and> parents u c = parents s c" if "i \<in> Js" "c \<in> lmem u i" for i c
    using assms that unfolding stays_def by (metis order_trans)
  ultimately show ?thesis using assms by (auto simp: stays_def)
qed

lemma stays_alphas: "stays h Js s t \<Longrightarrow> queue t = queue s" "stays h Js s t \<Longrightarrow> alphas t = alphas s"
proof -
  show q: "stays h Js s t \<Longrightarrow> queue t = queue s" by (rule queue_cong) (simp add: stays_def)
  then show "stays h Js s t \<Longrightarrow> alphas t = alphas s" by (intro alphas_cong) simp
qed

lemma inv_blocks:
  assumes "net_inv h Js D M G Z s" "a \<in> alphas s p"
  shows "distinct (pmBlockList (pms s a))" "set (pmBlockList (pms s a)) = blocked_by Js s a"
  using inv_parts(6) [OF assms(1)] assms(2) unfolding blocks_ok_def by blast+

lemma blocked_head:
  assumes i: "net_inv h Js {} M G {} s" and a: "a \<in> alphas s p" "a \<in> G" and l: "pmBlockList (pms s a) = l # ls"
  shows "\<exists>j. j \<in> Js \<and> l \<in> lmem s j \<and> pmOwner (pms s l) = j \<and> mark s l = BlockedBy a \<and> \<not> positive (joins s j) \<and> (l, a) \<in> M"
proof -
  have "l \<in> blocked_by Js s a" using inv_blocks(2) [OF i a(1)] l by auto
  then obtain j where j: "j \<in> Js" "l \<in> lmem s j" "mark s l = BlockedBy a" by (auto simp: blocked_by_def)
  then have "\<not> positive (joins s j)" "(l, a) \<in> M"
    using inv_mark [OF i j(1,2)] a(2) net_links(5) [OF inv_net [OF i] j(1)] by (auto simp: mark_ok_def Let_def split: if_splits)
  then show ?thesis using j lmem_match [OF i j(1,2)] by (auto simp: left_match_ok_def)
qed

lemma neg_retract_all:
  assumes ok: "matcher_ok h" and i: "net_inv h Js {} M G {} s" and sk: "skips h Js NETWORK_RETRACT G s" and a: "a \<in> alphas s p" "a \<in> G"
    and M: "M \<subseteq> UNIV \<times> G"
  shows "reaches h NETWORK_RETRACT (\<lambda>rec. rec (NegEntryRetractAlpha a) s)
    (\<lambda>t. \<exists>M' \<subseteq> M. net_inv h Js {} M' G {} t \<and> skips h Js NETWORK_RETRACT G t \<and> blocked_by Js t a = {} \<and> stays h Js s t)"
  using i sk a M
proof (induction "card {l. (l, a) \<in> M}" arbitrary: M s rule: less_induct)
  case less
  let ?Q = "\<lambda>s t. \<exists>M' \<subseteq> M. net_inv h Js {} M' G {} t \<and> skips h Js NETWORK_RETRACT G t \<and> blocked_by Js t a = {} \<and> stays h Js s t"
  show ?case
  proof (rule reaches_neg, cases "pmBlockList (pms s a)")
    case Nil
    then have "blocked_by Js s a = {}" using inv_blocks(2) [OF less.prems(1,3)] by simp
    then have "?Q s s" using less.prems stays_refl by blast
    then show "reaches h NETWORK_RETRACT (\<lambda>rec. neg_retract_alpha h rec NETWORK_RETRACT a s) (?Q s)"
      using Nil by (simp add: neg_retract_alpha_def reaches_return)
  next
    case (Cons l ls)
    obtain j where j: "j \<in> Js" "l \<in> lmem s j" "pmOwner (pms s l) = j" "mark s l = BlockedBy a" "\<not> positive (joins s j)" "(l, a) \<in> M"
      using blocked_head [OF less.prems(1,3,4) Cons] by blast
    have fr: "freeing h Js M G j a l s" using less.prems j by (simp add: freeing_def)
    have e: "neg_retract_alpha h rec NETWORK_RETRACT a s =
        Option.bind (NegEntryRetractBeta h rec NETWORK_RETRACT j a l s) (rec (NegEntryRetractAlpha a))" for rec
      using j(5) by (auto simp: neg_retract_alpha_def Cons j(3) positive_def Let_def)
    show "reaches h NETWORK_RETRACT (\<lambda>rec. neg_retract_alpha h rec NETWORK_RETRACT a s) (?Q s)"
      unfolding e
    proof (rule reaches_bind [OF NegEntryRetractBeta_freed [OF ok fr]])
      fix t assume t: "freed h Js M G j l s t"
      let ?M = "M - pending_marks l"
      have it: "net_inv h Js {} ?M G {} t" "skips h Js NETWORK_RETRACT G t" "stays h Js s t" using t frame_stays by (auto simp: freed_def)
      have at: "a \<in> alphas t p" using less.prems(3) stays_alphas(2) [OF it(3)] by simp
      have "finite {l. (l, a) \<in> M}" by (rule finite_subset [of _ "{..< nextMatch s}"]) (use inv_bounds(2) [OF less.prems(1)] in auto)
      then have "card {l'. (l', a) \<in> ?M} < card {l. (l, a) \<in> M}" using j(6) by (intro psubset_card_mono) (auto simp: pending_marks_def)
      from less.hyps [OF this it(1,2) at less.prems(4)] less.prems(5)
      have "reaches h NETWORK_RETRACT (\<lambda>rec. rec (NegEntryRetractAlpha a) t)
          (\<lambda>u. \<exists>M' \<subseteq> ?M. net_inv h Js {} M' G {} u \<and> skips h Js NETWORK_RETRACT G u \<and> blocked_by Js u a = {} \<and> stays h Js t u)" by blast
      then show "reaches h NETWORK_RETRACT (\<lambda>rec. rec (NegEntryRetractAlpha a) t) (?Q s)"
        by (rule reaches_mono) (use stays_trans [OF it(3)] in blast)
    qed
  qed
qed

section \<open>The alpha match leaves its memory\<close>

lemma filter_split: "filter P xs = ys @ zs \<Longrightarrow> \<exists>us vs. xs = us @ vs \<and> filter P us = ys \<and> filter P vs = zs"
proof (induction xs arbitrary: ys)
  case (Cons x xs)
  show ?case
  proof (cases "P x \<and> ys \<noteq> []")
    case True
    then obtain y ys' where ys: "ys = y # ys'" "x = y" "filter P xs = ys' @ zs" using Cons.prems by (cases ys) auto
    then obtain us vs where "xs = us @ vs" "filter P us = ys'" "filter P vs = zs" using Cons.IH by blast
    then show ?thesis using True ys by (intro exI [of _ "x # us"] exI [of _ vs]) simp
  next
    case False
    show ?thesis
    proof (cases "P x")
      case True
      then show ?thesis using False Cons.prems by (intro exI [of _ "[]"] exI [of _ "x # xs"]) simp
    next
      case no: False
      then obtain us vs where "xs = us @ vs" "filter P us = ys" "filter P vs = zs" using Cons by auto
      then show ?thesis using no by (intro exI [of _ "x # us"] exI [of _ vs]) simp
    qed
  qed
qed simp

lemma filter_order:
  assumes "filter P xs = us @ b # vs @ c # ws"
  shows "\<exists>us vs ws. xs = us @ b # vs @ c # ws"
proof -
  obtain x1 x2 where x: "xs = x1 @ x2" "filter P x2 = b # vs @ c # ws" using filter_split [OF assms] by blast
  obtain y1 y2 where y: "x2 = y1 @ b # y2" "filter P y2 = vs @ c # ws" using filter_eq_ConsD [OF x(2)] by auto
  obtain z1 z2 where z: "y2 = z1 @ z2" "filter P z2 = c # ws" using filter_split [OF y(2)] by blast
  obtain v1 v2 where "z2 = v1 @ c # v2" using filter_eq_ConsD [OF z(2)] by auto
  then have "xs = (x1 @ y1) @ b # (z1 @ v1) @ c # v2" using x y z by simp
  then show ?thesis by blast
qed

lemma queue_match: "net_inv h Js D M G Z s \<Longrightarrow> a \<in> set (queue s p hv) \<Longrightarrow> alpha_match_ok h s p hv a"
  by (simp add: net_inv_def queues_ok_def)

lemma remove_alpha_fields:
  assumes i: "net_inv h Js D M G Z s" and a: "a \<in> alphas s p"
  defines "t \<equiv> RemoveAlphaMemoryMatches p a s"
  shows "joins t = joins s" "leftMemories t = leftMemories s" "pms t = pms s" "nextMatch t = nextMatch s" "environment t = environment s"
    "IncrementalResetInProgress t = IncrementalResetInProgress s" "entryJoins (headers t q) = entryJoins (headers s q)"
    "headerHash (headers t q) = headerHash (headers s q)" "queue t q hv = filter (\<lambda>x. x \<noteq> a) (queue s q hv)" "alpha_ok t"
proof -
  note d = t_def RemoveAlphaMemoryMatches_def Let_def UnlinkAlphaMemory_def upd_alpha_def upd_header_def
  show "joins t = joins s" "leftMemories t = leftMemories s" "pms t = pms s" "nextMatch t = nextMatch s" "environment t = environment s"
    "IncrementalResetInProgress t = IncrementalResetInProgress s" "entryJoins (headers t q) = entryJoins (headers s q)"
    "headerHash (headers t q) = headerHash (headers s q)"
    by (simp_all add: d split: option.split)
  have aok: "alpha_ok s" using inv_parts(1) [OF i] by (simp add: static_ok_def)
  show "alpha_ok t" unfolding t_def by (rule RemoveAlphaMemoryMatches_queue(2) [OF aok])
  obtain hv' where hv': "a \<in> set (queue s p hv')" using a by (auto simp: alphas_def)
  note A = queue_match [OF i hv']
  then have ab: "alpha_bucket a s = hv'" by (auto simp: alpha_match_ok_def alpha_bucket_def)
  have dist: "distinct (queue s q hv)" using inv_parts(3) [OF i] by (simp add: queues_ok_def)
  have "a \<notin> set (queue s q hv)" if "\<not> (q = p \<and> hv = hv')"
    using A queue_match [OF i, of a q hv] that by (auto simp: alpha_match_ok_def)
  then show "queue t q hv = filter (\<lambda>x. x \<noteq> a) (queue s q hv)"
    unfolding t_def RemoveAlphaMemoryMatches_queue(1) [OF aok] ab using dist
    by (auto simp: distinct_remove1_removeAll removeAll_filter_not_eq intro!: filter_True [symmetric] filter_cong)
qed

lemma remove_alpha_sets:
  assumes i: "net_inv h Js D M G Z s" and a: "a \<in> alphas s p"
  defines "t \<equiv> RemoveAlphaMemoryMatches p a s"
  shows "lmem t = lmem s" "alphas t q = alphas s q - {a}" "entry_alphas t J = entry_alphas s J - {a}" "precedes t b c \<Longrightarrow> precedes s b c" "parents t = parents s"
    "wanted h t = wanted h s" "child_binds t = child_binds s" "slots t j = {xy \<in> slots s j. snd xy \<noteq> Some a}"
proof -
  note f = remove_alpha_fields [OF i a, folded t_def]
  show l: "lmem t = lmem s" by (rule lmem_cong [OF f(2)])
  show al: "alphas t q = alphas s q - {a}" for q by (auto simp: alphas_def f(9))
  show e: "entry_alphas t J = entry_alphas s J - {a}" for J by (simp add: entry_alphas_def al split: entry.split)
  show "precedes s b c" if "precedes t b c" using that filter_order unfolding precedes_def f(9) by metis
  show "parents t = parents s" by (rule ext) (simp add: parents_def f(3))
  show "wanted h t = wanted h s" by (intro ext) (unfold wanted_def f(1,3), rule refl)
  have "child_binds t j xy = child_binds s j xy" for j xy unfolding child_binds_def f(1,3) by (rule refl)
  then show "child_binds t = child_binds s" by (intro ext)
  show "slots t j = {xy \<in> slots s j. snd xy \<noteq> Some a}"
  proof (rule set_eqI)
    fix xy :: "pointer \<times> pointer"
    obtain x y where xy: "xy = (x, y)" by (cases xy)
    show "xy \<in> slots t j \<longleftrightarrow> xy \<in> {xy \<in> slots s j. snd xy \<noteq> Some a}"
      unfolding xy slots_def Let_def f(1) l e by (simp add: image_iff) blast
  qed
qed

lemma remove_alpha_inv:
  assumes i: "net_inv h Js D M G Z s" and a: "a \<in> alphas s p" "a \<in> G" and r: "right_kids Js s a = {}" "blocked_by Js s a = {}"
  shows "net_inv h Js D M G Z (RemoveAlphaMemoryMatches p a s)" (is "net_inv h Js D M G Z ?t")
proof -
  note f = remove_alpha_fields [OF i a(1)] and e = remove_alpha_sets [OF i a(1)]
  have "static_ok h Js ?t"
    using inv_parts(1) [OF i] net_ok_headers [of h Js "joins s" "headers s" "headers ?t"] f(7,8,10) by (simp add: static_ok_def f(1,6))
  moreover have "memories_ok h Js ?t"
    using inv_parts(2) [OF i] by (auto simp: memories_ok_def f(1-4) same_core_def e(5) intro!: left_memory_keep [of h s _ ?t])
  moreover have "queues_ok h ?t"
    using inv_parts(3) [OF i] by (auto simp: queues_ok_def f(9) alpha_match_ok_def f(3,4,8) alpha_hash_def)
  moreover have "families_ok h Js D G ?t"
  proof -
    have "family_ok h D G ?t j k" if k: "k \<in> Js" "lastLevel (joins s k) = Some j" for j k
    proof -
      have F: "family_ok h D G s j k" by (rule lmem_family [OF i k])
      have "due h G ?t j = due h G s j" using a(2) by (auto simp: due_def e(6,8) free_of_def)
      moreover have "snd (parents s c) \<noteq> Some a" if "c \<in> lmem s k" for c using r(1) that k(1) by (auto simp: right_kids_def parents_def)
      ultimately show ?thesis using F unfolding family_ok_def e(1,5,7,8) f(3) by simp
    qed
    then show ?thesis by (simp add: families_ok_def f(1))
  qed
  moreover have "children_ok Js Z ?t" "blocks_ok Js ?t"
    using inv_parts(5,6) [OF i] unfolding children_ok_def blocks_ok_def left_kids_def right_kids_def blocked_by_def e(1,2) f(3) by blast+
  moreover have "mark_ok h M G ?t j l" if l: "j \<in> Js" "l \<in> lmem s j" for j l
  proof -
    have "mark s l \<noteq> BlockedBy a" using r(2) l by (auto simp: blocked_by_def)
    then show ?thesis using inv_mark [OF i l] e(4) unfolding mark_ok_def Let_def e(3) f(1,3) by (auto split: if_splits)
  qed
  moreover have "bounds_ok D M G ?t" using inv_parts(8) [OF i] by (simp add: bounds_ok_def f(4))
  ultimately show ?thesis by (simp add: net_inv_def marks_ok_def e(1))
qed

section \<open>All matches of a fact\<close>

text \<open>The alpha matches of \<open>A\<close> have left; the others, and the tests of a retraction, are as before.\<close>

definition withdrawn :: "'e matcher \<Rightarrow> addr set \<Rightarrow> 'e rete \<Rightarrow> 'e rete \<Rightarrow> bool" where
  "withdrawn h A s t \<longleftrightarrow> joins t = joins s \<and> nextMatch s \<le> nextMatch t \<and> (\<forall>q. alphas t q = alphas s q - A) \<and>
     (\<forall>x < nextMatch s. same_core s t x) \<and> (\<forall>f. isDeleted h f (environment t) = isDeleted h f (environment s)) \<and> matchLists t = matchLists s"

lemma withdrawn_trans: "withdrawn h A s t \<Longrightarrow> withdrawn h B t u \<Longrightarrow> withdrawn h (A \<union> B) s u"
  by (auto simp: withdrawn_def same_core_def)

definition retracting :: "'e matcher \<Rightarrow> addr set \<Rightarrow> addr set \<Rightarrow> 'e rete \<Rightarrow> bool" where
  "retracting h Js G s \<longleftrightarrow> (\<exists>M. net_inv h Js {} M G {} s \<and> M \<subseteq> UNIV \<times> G) \<and> skips h Js NETWORK_RETRACT G s"

lemma network_keeps: "keeps (network h opn n c)"
  using network_lists by (auto simp: keeps_def)

lemma retract_children_lists: "retract_children h opn n c b s = Some t \<Longrightarrow> matchLists t = matchLists s"
proof (induction c arbitrary: b s)
  case (Suc c)
  obtain s1 s2 where s1: "(case pmChildren (pms s b) of [] \<Rightarrow> Some s | x # _ \<Rightarrow> network h opn n (PosEntryRetractBeta b x) s) = Some s1"
      and s2: "(if pmRhs (pms s1 b) then network h opn n (NegEntryRetractAlpha b) s1 else Some s1) = Some s2"
      and t: "(case next_right b s2 of None \<Rightarrow> Some (remove_child h b s2) | Some x \<Rightarrow> retract_children h opn n c x (remove_child h b s2)) = Some t"
    using Suc.prems unfolding retract_children.simps Let_def bind_eq_Some_conv by blast
  have "matchLists s1 = matchLists s" using s1 keepsD [OF network_keeps] by (cases "pmChildren (pms s b)") auto
  moreover have "matchLists s2 = matchLists s1" using s2 keepsD [OF network_keeps] by (cases "pmRhs (pms s1 b)") auto
  moreover have "matchLists (remove_child h b s2) = matchLists s2" by (simp add: remove_child_def Let_def)
  moreover have "matchLists t = matchLists (remove_child h b s2)" using t Suc.IH by (cases "next_right b s2") auto
  ultimately show ?case by simp
qed simp

lemma retract_match_lists:
  assumes "retract_match h n (p, a) s = Some t"
  shows "matchLists t = matchLists s"
proof -
  obtain s1 s2 where s1: "PosEntryRetractAlpha h NETWORK_RETRACT n a s = Some s1"
      and s2: "(if pmBlockList (pms s1 a) \<noteq> [] then network h NETWORK_RETRACT n (NegEntryRetractAlpha a) s1 else Some s1) = Some s2"
      and t: "t = RemoveAlphaMemoryMatches p a s2"
    using assms unfolding retract_match_def prod.case bind_eq_Some_conv by blast
  have "matchLists s1 = matchLists s" using s1 retract_children_lists unfolding PosEntryRetractAlpha_def by (cases "pmChildren (pms s a)") auto
  moreover have "matchLists s2 = matchLists s1" using s2 keepsD [OF network_keeps] by (cases "pmBlockList (pms s1 a) = []") auto
  ultimately show ?thesis by (simp add: t)
qed

lemma retract_match_inv:
  assumes ok: "matcher_ok h" and r: "retracting h Js G s" and a: "a \<in> alphas s p" "a \<in> G"
  shows "\<exists>t m. retracting h Js G t \<and> withdrawn h {a} s t \<and> (\<forall>n \<ge> m. retract_match h n (p, a) s = Some t)"
proof -
  obtain M where i: "net_inv h Js {} M G {} s" "M \<subseteq> UNIV \<times> G" and sk: "skips h Js NETWORK_RETRACT G s" using r by (auto simp: retracting_def)
  obtain s1 X B m1 where s1: "net_inv h Js {} M G {} s1" "gone h Js X B s s1" "right_kids Js s1 a = {}"
      "\<And>n. n \<ge> m1 \<Longrightarrow> PosEntryRetractAlpha h NETWORK_RETRACT n a s = Some s1"
    using PosEntryRetractAlpha_inv [OF ok i(1) a] by blast
  have a1: "a \<in> alphas s1 p" and sk1: "skips h Js NETWORK_RETRACT G s1" using a(1) gone_fields(12) [OF s1(2)] gone_skips [OF s1(2) sk] by simp_all
  obtain s2 M' m2 where s2: "M' \<subseteq> M" "net_inv h Js {} M' G {} s2" "skips h Js NETWORK_RETRACT G s2" "blocked_by Js s2 a = {}" "stays h Js s1 s2"
      "\<And>n. n \<ge> m2 \<Longrightarrow> (if pmBlockList (pms s1 a) \<noteq> [] then network h NETWORK_RETRACT n (NegEntryRetractAlpha a) s1 else Some s1) = Some s2"
  proof (cases "pmBlockList (pms s1 a) = []")
    case True
    then have "blocked_by Js s1 a = {}" using inv_blocks(2) [OF s1(1) a1] by simp
    then show ?thesis using that [of M s1 0] s1(1) sk1 stays_refl [of h Js s1] True by simp
  next
    case False
    then show ?thesis using neg_retract_all [OF ok s1(1) sk1 a1 a(2) i(2)] that unfolding reaches_def by auto
  qed
  have a2: "a \<in> alphas s2 p" using a1 stays_alphas(2) [OF s2(5)] by simp
  have rk: "right_kids Js s2 a = {}"
  proof -
    have False if c: "c \<in> right_kids Js s2 a" for c
    proof -
      obtain k where k: "k \<in> Js" "c \<in> lmem s2 k" "pmRightParent (pms s2 c) = Some a" using c by (auto simp: right_kids_def)
      have "c < nextMatch s1" using right_kid(1) [OF s2(2) c a(2)] inv_bounds(3) [OF s1(1)] by blast
      then have "c \<in> lmem s1 k" "parents s2 c = parents s1 c" using s2(5) k(1,2) unfolding stays_def by (meson leD)+
      then have "c \<in> right_kids Js s1 a" using k(1,3) by (auto simp: right_kids_def parents_def)
      then show False using s1(3) by simp
    qed
    then show ?thesis by blast
  qed
  let ?t = "RemoveAlphaMemoryMatches p a s2"
  note e = remove_alpha_sets [OF s2(2) a2] and f = remove_alpha_fields [OF s2(2) a2]
  have "skips h Js NETWORK_RETRACT G ?t"
    using s2(3) unfolding skips_def e(1,2) PartialMatchWillBeDeleted_def f(3,5) by blast
  then have t: "retracting h Js G ?t" using remove_alpha_inv [OF s2(2) a2 a(2) rk s2(4)] s2(1) i(2) unfolding retracting_def by blast
  have run: "retract_match h n (p, a) s = Some ?t" if "n \<ge> max m1 m2" for n
    using s1(4) [of n] s2(6) [of n] that by (simp add: retract_match_def)
  have st: "stays h Js s s2" by (rule stays_trans [OF gone_stays [OF s1(2)] s2(5)])
  have "withdrawn h {a} s ?t"
    using st e(2) f(1,3,4,5) stays_alphas(2) [OF st] retract_match_lists [OF run [OF order_refl]] by (auto simp: withdrawn_def stays_def same_core_def)
  then show ?thesis using t run by blast
qed

lemma retract_all:
  assumes ok: "matcher_ok h" and r: "retracting h Js G s" and ms: "distinct ms" "\<And>p a. (p, a) \<in> set ms \<Longrightarrow> a \<in> alphas s p \<and> a \<in> G"
  shows "\<exists>t m. retracting h Js G t \<and> withdrawn h (snd ` set ms) s t \<and> (\<forall>n \<ge> m. NetworkRetract h n ms s = Some t)"
  using r ms
proof (induction ms arbitrary: s)
  case Nil
  have "withdrawn h {} s s" by (simp add: withdrawn_def same_core_def)
  then show ?case using Nil by (auto simp: NetworkRetract_def)
next
  case (Cons x ms)
  obtain p a where x: "x = (p, a)" by (cases x)
  have a: "a \<in> alphas s p" "a \<in> G" using Cons.prems(3) x by auto
  obtain t m where t: "retracting h Js G t" "withdrawn h {a} s t" "\<And>n. n \<ge> m \<Longrightarrow> retract_match h n (p, a) s = Some t"
    using retract_match_inv [OF ok Cons.prems(1) a] by blast
  obtain M where i: "net_inv h Js {} M G {} s" using Cons.prems(1) by (auto simp: retracting_def)
  have al: "alphas t q = alphas s q - {a}" for q using t(2) by (simp add: withdrawn_def)
  have "b \<in> alphas t q \<and> b \<in> G" if b: "(q, b) \<in> set ms" for q b
  proof -
    have bs: "b \<in> alphas s q" "b \<in> G" using Cons.prems(3) b by auto
    have "b \<noteq> a" using alphas_match(3) [OF i bs(1)] alphas_match(3) [OF i a(1)] Cons.prems(2) b x by auto
    then show ?thesis using bs al by simp
  qed
  then obtain u m' where u: "retracting h Js G u" "withdrawn h (snd ` set ms) t u" "\<And>n. n \<ge> m' \<Longrightarrow> NetworkRetract h n ms t = Some u"
    using Cons.IH [OF t(1)] Cons.prems(2) by auto
  have "withdrawn h (snd ` set (x # ms)) s u" using withdrawn_trans [OF t(2) u(2)] by (simp add: x)
  moreover have "NetworkRetract h n (x # ms) s = Some u" if "n \<ge> max m m'" for n
    using t(3) [of n] u(3) [of n] that by (simp add: NetworkRetract_def x)
  ultimately show ?case using u(1) by blast
qed

section \<open>The network is up to date\<close>

text \<open>When the alpha matches to be given up are gone, so is everything that was made from them.\<close>

lemma none_doomed:
  assumes i: "net_inv h Js D M G Z s" and sk: "skips h Js opn G s" and G: "\<And>g p. g \<in> G \<Longrightarrow> g \<notin> alphas s p"
  shows "j \<in> Js \<Longrightarrow> c \<in> lmem s j \<Longrightarrow> c \<notin> G"
proof (induction "depth (joins s j)" arbitrary: j c rule: less_induct)
  case less
  show ?case
  proof
    assume c: "c \<in> G"
    show False
    proof (cases "lastLevel (joins s j)")
      case None
      then have "bnd s c = [None]" using lmem_match [OF i less.prems] net_links(1) [OF inv_net [OF i] less.prems(1)] by (simp add: left_match_ok_def)
      then show False using sk c less.prems by (auto simp: skips_def PartialMatchWillBeDeleted_binds)
    next
      case (Some k)
      have k: "k \<in> Js" "depth (joins s k) < depth (joins s j)" using net_depth(1,3) [OF i less.prems(1) Some] .
      obtain x y where xy: "parents s c = (x, y)" by fastforce
      have sl: "(x, y) \<in> slots s k" using lmem_family [OF i less.prems(1) Some] less.prems(2) xy by (auto simp: family_ok_def)
      have "x \<noteq> Some g" if "g \<in> G" for g using slots_bound(1) [OF i k(1) sl] less.hyps [OF k(2,1)] that by blast
      moreover have "y \<noteq> Some g" if "g \<in> G" for g using slots_bound(2) [OF i k(1) sl] entry_alphas_alpha G [OF that] by blast
      ultimately show False using skips_tight [OF i sk less.prems(1) Some less.prems(2) c] xy by (auto simp: free_of_def)
    qed
  qed
qed

lemma retracting_done:
  assumes r: "retracting h Js G s" and G: "\<And>g p. g \<in> G \<Longrightarrow> g \<notin> alphas s p"
  shows "rete_ok h Js s"
proof -
  obtain M where i: "net_inv h Js {} M G {} s" "M \<subseteq> UNIV \<times> G" and sk: "skips h Js NETWORK_RETRACT G s" using r by (auto simp: retracting_def)
  have i': "net_inv h Js {} M {} {} s" by (rule inv_G [OF i(1)]) (use none_doomed [OF i(1) sk G] G in auto)
  have "mark_ok h {} {} s j l" if l: "j \<in> Js" "l \<in> lmem s j" for j l
  proof -
    have "b \<notin> G" if "precedes s b a" for a b
    proof -
      obtain p hv xs ys zs where "queue s p hv = xs @ b # ys @ a # zs" using \<open>precedes s b a\<close> by (auto simp: precedes_def)
      then have "b \<in> alphas s p" by (auto simp: alphas_def intro!: exI [of _ hv])
      then show ?thesis using G by blast
    qed
    moreover have "b \<notin> G" if "b \<in> entry_alphas s J" for b J using entry_alphas_alpha [OF that] G by blast
    ultimately have "precedes s b a \<Longrightarrow> (l, b) \<notin> M" "b \<in> entry_alphas s J \<Longrightarrow> (l, b) \<notin> M" for a b J using i(2) by blast+
    then show ?thesis using inv_mark [OF i' l] unfolding mark_ok_def Let_def by (auto split: if_splits)
  qed
  then show ?thesis unfolding rete_ok_def by (intro inv_M [OF i']) auto
qed

text \<open>Retracting returns, in an up-to-date network that has lost the alpha matches of the retracted facts and no other ones.\<close>

theorem network_retract:
  assumes ok: "matcher_ok h" and i: "rete_ok h Js s" and ms: "distinct ms" "set ms = {(p, a). a \<in> alphas s p \<and> PartialMatchWillBeDeleted h a s}"
  shows "\<exists>t m. rete_ok h Js t \<and> withdrawn h (snd ` set ms) s t \<and> (\<forall>n \<ge> m. NetworkRetract h n ms s = Some t)"
proof -
  let ?G = "doomed h Js s"
  have iv: "net_inv h Js {} {} {} {} s" using i by (simp add: rete_ok_def)
  have r: "retracting h Js ?G s" using doomed_inv [OF iv] doomed_skips by (auto simp: retracting_def)
  have "a \<in> alphas s p \<and> a \<in> ?G" if "(p, a) \<in> set ms" for p a using that ms(2) by (auto simp: doomed_def)
  then obtain t m where t: "retracting h Js ?G t" "withdrawn h (snd ` set ms) s t" "\<And>n. n \<ge> m \<Longrightarrow> NetworkRetract h n ms s = Some t"
    using retract_all [OF ok r ms(1)] by blast
  have "g \<notin> alphas t p" if "g \<in> ?G" for g p
  proof
    assume "g \<in> alphas t p"
    then have g: "g \<in> alphas s p" "g \<notin> snd ` set ms" using t(2) by (auto simp: withdrawn_def)
    then have "(p, g) \<in> set ms" using ms(2) that by (auto simp: doomed_def)
    then show False using g(2) by force
  qed
  then have "rete_ok h Js t" by (rule retracting_done [OF t(1)])
  then show ?thesis using t by blast
qed

section \<open>Retracting a fact\<close>

text \<open>The fact, of those that have alpha matches, that is marked as deleted.\<close>

definition deleted_fact :: "'e matcher \<Rightarrow> addr \<Rightarrow> 'e rete \<Rightarrow> bool" where
  "deleted_fact h f s \<longleftrightarrow> (\<forall>p. \<forall>a \<in> alphas s p. isDeleted h (matchingItem (alpha_of s a)) (environment s) \<longleftrightarrow> matchingItem (alpha_of s a) = f)"

lemma alpha_will_be_deleted:
  assumes i: "net_inv h Js D M G Z s" and a: "a \<in> alphas s p"
  shows "PartialMatchWillBeDeleted h a s \<longleftrightarrow> isDeleted h (matchingItem (alpha_of s a)) (environment s)"
  using alphas_match(4) [OF i a] by (auto simp: PartialMatchWillBeDeleted_def alpha_of_def)

theorem retract_fact:
  assumes ok: "matcher_ok h" and i: "rete_ok h Js s" and l: "list_ok s f" and d: "deleted_fact h f s"
  shows "\<exists>t m. rete_ok h Js t \<and> joins t = joins s \<and> (\<forall>q. stored_matches t q = filter_mset (\<lambda>am. matchingItem am \<noteq> f) (stored_matches s q)) \<and>
     (\<forall>g. g \<noteq> f \<longrightarrow> list_ok s g \<longrightarrow> list_ok t g) \<and> (\<forall>n \<ge> m. NetworkRetract h n (matchLists s f) s = Some t)"
proof -
  let ?ms = "matchLists s f"
  have iv: "net_inv h Js {} {} {} {} s" using i by (simp add: rete_ok_def)
  have del: "PartialMatchWillBeDeleted h a s \<longleftrightarrow> matchingItem (alpha_of s a) = f" if "a \<in> alphas s p" for a p
    using alpha_will_be_deleted [OF iv that] d that by (auto simp: deleted_fact_def)
  have ms: "distinct ?ms" "set ?ms = {(p, a). a \<in> alphas s p \<and> PartialMatchWillBeDeleted h a s}" using l del by (auto simp: list_ok_def)
  obtain t m where t: "rete_ok h Js t" "withdrawn h (snd ` set ?ms) s t" "\<And>n. n \<ge> m \<Longrightarrow> NetworkRetract h n ?ms s = Some t"
    using network_retract [OF ok i ms] by blast
  have w: "joins t = joins s" "\<And>q. alphas t q = alphas s q - snd ` set ?ms" "\<And>x. x < nextMatch s \<Longrightarrow> bnd t x = bnd s x" "matchLists t = matchLists s"
    using t(2) by (simp_all add: withdrawn_def same_core_def)
  have al: "alphas t q = {a \<in> alphas s q. matchingItem (alpha_of s a) \<noteq> f}" for q
    unfolding w(2) using l by (force simp: list_ok_def)
  have of_t: "alpha_of t a = alpha_of s a" if "a \<in> alphas s q" for a q using w(3) [OF alphas_match(1) [OF iv that]] by (simp add: alpha_of_def)
  have "stored_matches t q = filter_mset (\<lambda>am. matchingItem am \<noteq> f) (stored_matches s q)" for q
  proof -
    have fin: "finite (alphas s q)" by (rule alphas_finite [OF iv])
    have "stored_matches t q = image_mset (alpha_of s) (mset_set {a \<in> alphas s q. matchingItem (alpha_of s a) \<noteq> f})"
      unfolding stored_matches_def al using of_t fin by (intro image_mset_cong) auto
    also have "\<dots> = filter_mset (\<lambda>am. matchingItem am \<noteq> f) (stored_matches s q)"
      using fin by (simp add: stored_matches_def filter_mset_image_mset filter_mset_mset_set)
    finally show ?thesis .
  qed
  moreover have "list_ok t g" if "g \<noteq> f" "list_ok s g" for g
  proof -
    have "{(p, a). a \<in> alphas t p \<and> matchingItem (alpha_of t a) = g} = {(p, a). a \<in> alphas s p \<and> matchingItem (alpha_of s a) = g}"
      using of_t that(1) by (auto simp: al)
    then show ?thesis using that(2) by (simp add: list_ok_def w(4))
  qed
  ultimately show ?thesis using t(1,3) w(1) by blast
qed

end
