(* ===== verification/Join_Properties.thy ===== *)
theory Join_Properties
  imports Join_Complete Join_Removal
begin

text \<open>
  The properties of the join network, and a network on which they are instantiated: a rule with pattern 10 and the negation of pattern
  11, whose facts have to agree modulo 8.
\<close>

section \<open>A network\<close>

definition demo_item :: "bindings option \<Rightarrow> nat option" where
  "demo_item b = (case b of Some (Some am # _) \<Rightarrow> Some (matchingItem am mod 8) | _ \<Rightarrow> None)"

text \<open>The environment lists the rules that were activated and the facts that are to be retracted.\<close>

definition demo_matcher :: "(addr list \<times> addr list) matcher" where
  "demo_matcher = \<lparr>evalPrimitive = \<lambda>i l r. demo_item l \<noteq> None \<and> demo_item l = demo_item r, evalFunction = \<lambda>i l r. (True, False),
     evalHash = \<lambda>i l r. case demo_item l of None \<Rightarrow> OtherValue | Some n \<Rightarrow> AddressValue (of_nat n),
     evalPatternHash = \<lambda>i f ms. AddressValue (of_nat (f mod 8)), addActivation = \<lambda>r p b (es, ds). (length es, (es @ [r], ds)),
     removeActivation = \<lambda>a e. e, removeSupport = \<lambda>p e. e, removeDependencies = \<lambda>p e. e, isDeleted = \<lambda>f e. f \<in> set (snd e), isSynchronized = \<lambda>f e. True\<rparr>"

definition demo_join :: "addr \<Rightarrow> joinNode" where
  "demo_join j = \<lparr>firstJoin = (j = 1), joinFromTheRight = False, patternIsNegated = (j = 2), patternIsExists = False, initialize = True, depth = j,
     networkTest = (if j = 2 then [Primitive 0] else []), secondaryNetworkTest = [], leftHash = (if j = 2 then [0] else []), rightHash = [],
     rightSideEntryStructure = (if j = 1 then PatternEntry 10 else if j = 2 then PatternEntry 11 else NoEntry),
     nextLinks = (if j = 1 then [(LHS, 2)] else if j = 2 then [(LHS, 3)] else []),
     lastLevel = (if j = 2 then Some 1 else if j = 3 then Some 2 else None), ruleToActivate = (if j = 3 then Some 100 else None)\<rparr>"

definition demo_header :: "addr \<Rightarrow> patternNodeHeader" where
  "demo_header p = \<lparr>entryJoins = (if p = 10 then [1] else if p = 11 then [2] else []), hashChain = [], headerHash = (if p = 11 then [0] else []),
     headerInitialize = False\<rparr>"

definition demo_net :: "(addr list \<times> addr list) rete" where
  "demo_net = \<lparr>joins = demo_join, leftMemories = [2 \<mapsto> \<lparr>beta = replicate 17 [], mem_count = 0\<rparr>, 3 \<mapsto> \<lparr>beta = [[]], mem_count = 0\<rparr>], rightMemories = Map.empty,
     headers = demo_header, AlphaMemoryTable = \<lambda>_. [], matchLists = \<lambda>_. [], pms = \<lambda>_. fresh_match [], nextMatch = 0, GarbagePartialMatches = [], freedMatches = [],
     BetaMemoryResizingFlag = True, IncrementalResetInProgress = False, LeftPrimeJoins = [], RightPrimeJoins = [],
     memoryLeftAdds = \<lambda>_. 0, memoryRightAdds = \<lambda>_. 0, memoryLeftDeletes = \<lambda>_. 0, memoryRightDeletes = \<lambda>_. 0, memoryCompares = \<lambda>_. 0,
     netErrors = [], systemErrors = [], environment = ([], [])\<rparr>"

lemma demo_matcher_ok: "matcher_ok demo_matcher"
  by (simp add: matcher_ok_def demo_matcher_def case_prod_unfold)

lemma demo_net_ok: "net_ok demo_matcher {1, 2, 3} demo_join demo_header"
proof -
  have l: "join_links_ok {1, 2, 3} demo_join j" if "j \<in> {1, 2, 3}" for j
    using that by (auto simp: join_links_ok_def demo_join_def terminal_def positive_def)
  have t: "tests_ok demo_matcher (demo_join j)" if "j \<in> {1, 2, 3}" for j
    using that by (auto simp: tests_ok_def demo_join_def positive_def)
  have "left_hash demo_matcher (demo_join 2) l = alpha_hash demo_matcher (demo_header 11) am" if "pair_ok demo_matcher (demo_join 2) l [Some am]" for l am
  proof -
    have e: "evalPrimitive demo_matcher i x y \<longleftrightarrow> demo_item x \<noteq> None \<and> demo_item x = demo_item y" for i x y by (simp add: demo_matcher_def)
    have "demo_item (Some l) = demo_item (Some [Some am])"
      using that by (simp add: pair_ok_def demo_join_def e split: if_splits)
    then have "demo_item (Some l) = Some (matchingItem am mod 8)" by (simp add: demo_item_def)
    then show ?thesis
      by (simp add: left_hash_def alpha_hash_def BetaMemoryHashValue_def ComputeRightHashValue_def demo_join_def demo_header_def demo_matcher_def)
  qed
  then have "hash_ok demo_matcher demo_header (demo_join j)" if "j \<in> {1, 2, 3}" for j
    using that by (auto simp: hash_ok_def) (auto simp: demo_join_def demo_header_def)
  moreover have "entry_ok {1, 2, 3} demo_join demo_header p" for p
    by (auto simp: entry_ok_def demo_join_def demo_header_def)
  ultimately show ?thesis using l t by (simp add: net_ok_def)
qed

lemma demo_rete_ok: "rete_ok demo_matcher {1, 2, 3} demo_net"
proof -
  have q: "queue demo_net p hv = []" for p hv by (simp add: queue_def FindAlphaMemory_def demo_net_def)
  then have a: "alphas demo_net p = {}" "entry_alphas demo_net J = {}" for p J by (auto simp: alphas_def entry_alphas_def split: entry.split)
  have l: "lmem demo_net j = {}" for j by (simp add: lmem_def demo_net_def mem_contents_def)
  have f: "joins demo_net = demo_join" "headers demo_net = demo_header" by (simp_all add: demo_net_def)
  have d: "due demo_matcher {} demo_net j = {}" for j by (auto simp: due_def slots_def Let_def a l)
  have "static_ok demo_matcher {1, 2, 3} demo_net" using demo_net_ok by (simp add: static_ok_def alpha_ok_def f) (simp add: demo_net_def)
  moreover have "memories_ok demo_matcher {1, 2, 3} demo_net"
    by (auto simp: memories_ok_def left_memory_ok_def l) (auto simp: demo_net_def demo_join_def has_left_def positive_def memory_ok_def mem_contents_def in_buckets_def)
  moreover have "families_ok demo_matcher {1, 2, 3} {} {} demo_net" by (simp add: families_ok_def family_ok_def l d)
  ultimately show ?thesis
    by (simp add: rete_ok_def net_inv_def queues_ok_def q children_ok_def blocks_ok_def marks_ok_def bounds_ok_def l a)
qed

lemma demo_stored: "stored_matches demo_net p = {#}" "alphas demo_net p = {}"
  by (simp_all add: stored_matches_def alphas_def queue_def FindAlphaMemory_def demo_net_def)

lemma demo_lists: "list_ok demo_net g" "matchLists demo_net g = []"
  by (simp_all add: list_ok_def demo_stored) (simp_all add: demo_net_def)

lemma demo_path: "path demo_join 2 js \<longleftrightarrow> js = [2, 1]"
proof -
  have "path demo_join 1 xs \<longleftrightarrow> xs = [1]" for xs by (subst path_iff) (simp add: demo_join_def)
  moreover have "path demo_join 2 xs \<longleftrightarrow> (\<exists>xs'. xs = 2 # xs' \<and> path demo_join 1 xs')" for xs by (subst path_iff) (simp add: demo_join_def)
  ultimately show ?thesis by simp
qed

text \<open>What the rule of the network gets from a match of pattern 10: the match, unless one of pattern 11 agrees with it.\<close>

lemma demo_outs:
  "outs demo_matcher A (map demo_join [2, 1]) = map (\<lambda>am. [Some am, None])
     (filter (\<lambda>am. \<forall>bm \<in> set (A 11). matchingItem bm mod 8 \<noteq> matchingItem am mod 8) (A 10))"
proof -
  have f: "first_out demo_matcher A (demo_join 1) = map (\<lambda>am. [Some am]) (A 10)"
    by (simp add: first_out_def entry_matches_def first_ok_def demo_join_def Let_def)
  have q: "pair_ok demo_matcher (demo_join 2) [Some am] [Some bm] \<longleftrightarrow> matchingItem bm mod 8 = matchingItem am mod 8" for am bm
    by (auto simp: pair_ok_def demo_join_def demo_matcher_def demo_item_def)
  have e: "extend demo_matcher A (demo_join 2) [Some am] =
      (if \<forall>bm \<in> set (A 11). matchingItem bm mod 8 \<noteq> matchingItem am mod 8 then [[Some am, None]] else [])" for am
  proof -
    have "filter (pair_ok demo_matcher (demo_join 2) [Some am]) (map (\<lambda>bm. [Some bm]) (A 11)) = [] \<longleftrightarrow>
        (\<forall>bm \<in> set (A 11). matchingItem bm mod 8 \<noteq> matchingItem am mod 8)"
      by (simp add: filter_empty_conv q)
    moreover have "entry_matches A (demo_join 2) = map (\<lambda>bm. [Some bm]) (A 11)" "sec_ok demo_matcher (demo_join 2) l"
      "patternIsNegated (demo_join 2)" "rightSideEntryStructure (demo_join 2) \<noteq> NoEntry" for l
      by (simp_all add: entry_matches_def sec_ok_def demo_join_def)
    ultimately show ?thesis by (simp add: extend_def Let_def)
  qed
  have "concat (map (\<lambda>am. if P am then [[Some am, None]] else []) xs) = map (\<lambda>am. [Some am, None]) (filter P xs)" for P and xs :: "alphaMatch list"
    by (induction xs) simp_all
  then show ?thesis using f by (simp add: e comp_def)
qed

lemma demo_memory:
  assumes "rete_ok demo_matcher {1, 2, 3} s" "joins s = demo_join" "shows_alphas s A"
  shows "memory_binds s 3 = mset (outs demo_matcher A (map demo_join [2, 1]))"
  using memory_complete [OF assms(1,3), of 3 2 "[2, 1]"] demo_path [of "[2, 1]"] by (simp add: assms(2) demo_join_def)

lemma environment_inv [simp]: "rete_ok h Js (s\<lparr>environment := e\<rparr>) \<longleftrightarrow> rete_ok h Js s"
  unfolding rete_ok_def by (rule view_inv) (simp add: view_def)

lemma environment_alphas [simp]:
  "alphas (s\<lparr>environment := e\<rparr>) = alphas s" "alpha_of (s\<lparr>environment := e\<rparr>) = alpha_of s"
  "stored_matches (s\<lparr>environment := e\<rparr>) = stored_matches s" "list_ok (s\<lparr>environment := e\<rparr>) = list_ok s"
  "shows_alphas (s\<lparr>environment := e\<rparr>) = shows_alphas s"
proof -
  have "view (s\<lparr>environment := e\<rparr>) = view s" by (simp add: view_def)
  note f = view_fields [OF this]
  show a: "alphas (s\<lparr>environment := e\<rparr>) = alphas s" by (rule alphas_cong [OF f(8)])
  show b: "alpha_of (s\<lparr>environment := e\<rparr>) = alpha_of s" by (simp add: alpha_of_def fun_eq_iff)
  show c: "stored_matches (s\<lparr>environment := e\<rparr>) = stored_matches s" by (simp add: stored_matches_def fun_eq_iff a b)
  show "list_ok (s\<lparr>environment := e\<rparr>) = list_ok s" by (simp add: list_ok_def fun_eq_iff a b)
  show "shows_alphas (s\<lparr>environment := e\<rparr>) = shows_alphas s" by (simp add: shows_alphas_def fun_eq_iff c)
qed

lemma stored_item: "am \<in># stored_matches s p \<Longrightarrow> \<exists>a. a \<in> alphas s p \<and> alpha_of s a = am"
  by (cases "finite (alphas s p)") (auto simp: stored_matches_def)

lemma alphas_exist: "\<exists>A. shows_alphas s A"
proof -
  have "\<forall>p. \<exists>xs. mset xs = stored_matches s p" by (simp add: ex_mset)
  then show ?thesis unfolding shows_alphas_def by (rule choice)
qed

section \<open>Properties\<close>

text \<open>C2. When the network is up to date, storing a new match of a pattern and sending it to the joins of the pattern returns, and the network is
  up to date again: the memory of every join below another one holds, each as often as there are such combinations, exactly the matches that the joins above it
  give for the alpha matches stored before and the new one.\<close>

theorem ProcessFactAlphaMatch_complete:
  assumes "matcher_ok h" "rete_ok h Js s" "shows_alphas s A"
  shows "\<exists>t m. rete_ok h Js t \<and> joins t = joins s \<and> (\<forall>n \<ge> m. ProcessFactAlphaMatch h n f ms p s = Some (nextMatch s, t)) \<and>
     (\<forall>k \<in> Js. \<forall>j. lastLevel (joins t k) = Some j \<longrightarrow> (\<exists>js. path (joins t) j js \<and>
        memory_binds t k = mset (outs h (A(p := alpha_match h f ms p s # A p)) (map (joins t) js))))"
proof -
  obtain t m where t: "rete_ok h Js t" "joins t = joins s" "\<And>n. n \<ge> m \<Longrightarrow> ProcessFactAlphaMatch h n f ms p s = Some (nextMatch s, t)"
      "\<And>q. stored_matches t q = stored_matches s q + (if q = p then {#alpha_match h f ms p s#} else {#})"
    using process_alpha_match [OF assms(1,2)] by blast
  have "shows_alphas t (A(p := alpha_match h f ms p s # A p))" using assms(3) t(4) by (simp add: shows_alphas_def)
  from network_complete [OF t(1) this] show ?thesis using t(1-3) unfolding memories_hold_def by blast
qed

theorem ProcessFactAlphaMatch_complete_witness:
  "matcher_ok demo_matcher \<and> rete_ok demo_matcher {1, 2, 3} demo_net \<and> shows_alphas demo_net (\<lambda>_. []) \<and>
   (\<exists>t m. rete_ok demo_matcher {1, 2, 3} t \<and> (\<forall>n \<ge> m. ProcessFactAlphaMatch demo_matcher n 5 [] 10 demo_net = Some (0, t)) \<and>
     memory_binds t 3 = {#[Some \<lparr>matchingItem = 5, markers = [], bucket = 10\<rparr>, None]#})"
proof -
  have s: "shows_alphas demo_net (\<lambda>_. [])"
    by (simp add: shows_alphas_def stored_matches_def alphas_def queue_def FindAlphaMemory_def demo_net_def)
  have am: "alpha_match demo_matcher 5 [] 10 demo_net = \<lparr>matchingItem = 5, markers = [], bucket = 10\<rparr>"
    by (simp add: alpha_match_def demo_net_def demo_header_def ComputeRightHashValue_def AlphaMemoryHashValue_def ALPHA_MEMORY_HASH_SIZE_def)
  have d: "joins demo_net = demo_join" "nextMatch demo_net = 0" by (simp_all add: demo_net_def)
  obtain t m where t: "rete_ok demo_matcher {1, 2, 3} t" "joins t = demo_join" "\<forall>n \<ge> m. ProcessFactAlphaMatch demo_matcher n 5 [] 10 demo_net = Some (0, t)"
      "\<forall>k \<in> {1, 2, 3}. \<forall>j. lastLevel (joins t k) = Some j \<longrightarrow> (\<exists>js. path (joins t) j js \<and>
        memory_binds t k = mset (outs demo_matcher ((\<lambda>_. [])(10 := [\<lparr>matchingItem = 5, markers = [], bucket = 10\<rparr>])) (map (joins t) js)))"
    using ProcessFactAlphaMatch_complete [OF demo_matcher_ok demo_rete_ok s, of 5 "[]" 10] unfolding am d by blast
  have "lastLevel (joins t 3) = Some 2" by (simp add: t(2) demo_join_def)
  then obtain js where js: "path demo_join 2 js" "memory_binds t 3 = mset (outs demo_matcher ((\<lambda>_. [])(10 := [\<lparr>matchingItem = 5, markers = [], bucket = 10\<rparr>])) (map demo_join js))"
    using t(2,4) by auto
  then have "memory_binds t 3 = {#[Some \<lparr>matchingItem = 5, markers = [], bucket = 10\<rparr>, None]#}"
    unfolding demo_path by (simp only: demo_outs) simp
  then show ?thesis using demo_matcher_ok demo_rete_ok s t by blast
qed

text \<open>C3. Retracting the only fact that is marked as deleted, by the list of its alpha matches, returns, and the network is up to date again: every memory
  holds exactly the matches that the joins above it give for the alpha matches of the other facts, also those that a match of the retracted fact had blocked.\<close>

theorem NetworkRetract_complete:
  assumes "matcher_ok h" "rete_ok h Js s" "shows_alphas s A" "list_ok s f" "deleted_fact h f s"
  shows "\<exists>t m. rete_ok h Js t \<and> joins t = joins s \<and> (\<forall>n \<ge> m. NetworkRetract h n (matchLists s f) s = Some t) \<and>
     (\<forall>p. stored_matches t p = mset (filter (\<lambda>am. matchingItem am \<noteq> f) (A p))) \<and>
     (\<forall>k \<in> Js. \<forall>j. lastLevel (joins t k) = Some j \<longrightarrow> (\<exists>js. path (joins t) j js \<and>
        memory_binds t k = mset (outs h (\<lambda>p. filter (\<lambda>am. matchingItem am \<noteq> f) (A p)) (map (joins t) js))))"
proof -
  obtain t m where t: "rete_ok h Js t" "joins t = joins s" "\<And>q. stored_matches t q = filter_mset (\<lambda>am. matchingItem am \<noteq> f) (stored_matches s q)"
      "\<And>n. n \<ge> m \<Longrightarrow> NetworkRetract h n (matchLists s f) s = Some t"
    using retract_fact [OF assms(1,2,4,5)] by blast
  have m: "stored_matches t p = mset (filter (\<lambda>am. matchingItem am \<noteq> f) (A p))" for p
    using assms(3) by (simp add: t(3) shows_alphas_def)
  then have "shows_alphas t (\<lambda>p. filter (\<lambda>am. matchingItem am \<noteq> f) (A p))" by (simp add: shows_alphas_def)
  from network_complete [OF t(1) this] show ?thesis using t(1,2,4) m unfolding memories_hold_def by blast
qed

text \<open>The match of fact 5 is blocked by fact 13, which is retracted.\<close>

theorem NetworkRetract_complete_witness:
  "\<exists>s b. matcher_ok demo_matcher \<and> rete_ok demo_matcher {1, 2, 3} s \<and> list_ok s 13 \<and> deleted_fact demo_matcher 13 s \<and>
     shows_alphas s ((\<lambda>_. [])(10 := [\<lparr>matchingItem = 5, markers = [], bucket = 10\<rparr>], 11 := [b])) \<and> matchingItem b = 13 \<and> memory_binds s 3 = {#} \<and>
     (\<exists>t m. rete_ok demo_matcher {1, 2, 3} t \<and> (\<forall>n \<ge> m. NetworkRetract demo_matcher n (matchLists s 13) s = Some t) \<and>
       memory_binds t 3 = {#[Some \<lparr>matchingItem = 5, markers = [], bucket = 10\<rparr>, None]#})"
proof -
  let ?a = "\<lparr>matchingItem = 5, markers = [], bucket = 10\<rparr>"
  note p = process_alpha_match [OF demo_matcher_ok]
  have am: "alpha_match demo_matcher 5 [] 10 demo_net = ?a"
    by (simp add: alpha_match_def demo_net_def demo_header_def ComputeRightHashValue_def AlphaMemoryHashValue_def ALPHA_MEMORY_HASH_SIZE_def)
  obtain s1 where s1: "rete_ok demo_matcher {1, 2, 3} s1" "joins s1 = demo_join" "\<And>g. list_ok s1 g"
      "\<And>q. stored_matches s1 q = (if q = 10 then {#?a#} else {#})"
    using p [OF demo_rete_ok, of 10 5 "[]"] demo_lists unfolding am by (auto simp: demo_stored) (simp add: demo_net_def)
  let ?b = "alpha_match demo_matcher 13 [] 11 s1"
  obtain s2 where s2: "rete_ok demo_matcher {1, 2, 3} s2" "joins s2 = demo_join" "\<And>g. list_ok s2 g"
      "\<And>q. stored_matches s2 q = (if q = 10 then {#?a#} else {#}) + (if q = 11 then {#?b#} else {#})"
    using p [OF s1(1), of 11 13 "[]"] s1(2-4) by auto
  let ?s = "s2\<lparr>environment := ([], [13])\<rparr>" and ?A = "(\<lambda>_. [])(10 := [?a], 11 := [?b])"
  have b: "matchingItem ?b = 13" by (simp add: alpha_match_def)
  have A: "shows_alphas ?s ?A" using s2(4) by (simp add: shows_alphas_def)
  have d: "deleted_fact demo_matcher 13 ?s" by (simp add: deleted_fact_def demo_matcher_def)
  have r: "rete_ok demo_matcher {1, 2, 3} ?s" "joins ?s = demo_join" "list_ok ?s 13" using s2 by simp_all
  have e: "memory_binds ?s 3 = {#}" using demo_memory [OF r(1,2) A] unfolding demo_outs by (simp add: b)
  obtain t m where t: "rete_ok demo_matcher {1, 2, 3} t" "joins t = demo_join" "\<forall>n \<ge> m. NetworkRetract demo_matcher n (matchLists ?s 13) ?s = Some t"
      "\<And>k j. k \<in> {1, 2, 3} \<Longrightarrow> lastLevel (joins t k) = Some j \<Longrightarrow> \<exists>js. path (joins t) j js \<and>
        memory_binds t k = mset (outs demo_matcher (\<lambda>p. filter (\<lambda>am. matchingItem am \<noteq> 13) (?A p)) (map (joins t) js))"
    using NetworkRetract_complete [OF demo_matcher_ok r(1) A r(3) d] unfolding r(2) by blast
  have "memory_binds t 3 = mset (outs demo_matcher (\<lambda>p. filter (\<lambda>am. matchingItem am \<noteq> 13) (?A p)) (map demo_join [2, 1]))"
    using t(4) [of 3 2] demo_path unfolding t(2) by (auto simp: demo_join_def)
  then have "memory_binds t 3 = {#[Some ?a, None]#}" unfolding demo_outs by (simp add: b)
  then show ?thesis using demo_matcher_ok r d A b e t(1,3) by blast
qed

text \<open>A fact that had no match is matched by a pattern and retracted again, when it is the only fact that is marked as deleted: both calls return, and the
  alpha memories and the memories of all joins are what they were.\<close>

theorem assert_retract_memories:
  assumes "matcher_ok h" "rete_ok h Js s" "list_ok s f" "matchLists s f = []" "\<And>g. isDeleted h g e \<longleftrightarrow> g = f"
  shows "\<exists>t u m. (\<forall>n \<ge> m. ProcessFactAlphaMatch h n f ms p s = Some (nextMatch s, t)) \<and>
     (\<forall>n \<ge> m. NetworkRetract h n (matchLists t f) (t\<lparr>environment := e\<rparr>) = Some u) \<and> rete_ok h Js u \<and> joins u = joins s \<and>
     (\<forall>q. stored_matches u q = stored_matches s q) \<and> (\<forall>k \<in> Js. lastLevel (joins s k) \<noteq> None \<longrightarrow> memory_binds u k = memory_binds s k)"
proof -
  obtain t m where t: "rete_ok h Js t" "joins t = joins s" "list_ok t f"
      "\<And>q. stored_matches t q = stored_matches s q + (if q = p then {#alpha_match h f ms p s#} else {#})"
      "\<And>n. n \<ge> m \<Longrightarrow> ProcessFactAlphaMatch h n f ms p s = Some (nextMatch s, t)"
    using process_alpha_match [OF assms(1,2)] assms(3) by blast
  let ?t = "t\<lparr>environment := e\<rparr>"
  have "rete_ok h Js ?t" "list_ok ?t f" "deleted_fact h f ?t" using t(1,3) assms(5) by (simp_all add: deleted_fact_def)
  from retract_fact [OF assms(1) this] obtain u k where u: "rete_ok h Js u" "joins u = joins s"
      "\<And>q. stored_matches u q = filter_mset (\<lambda>am. matchingItem am \<noteq> f) (stored_matches t q)"
      "\<And>n. n \<ge> k \<Longrightarrow> NetworkRetract h n (matchLists t f) ?t = Some u"
    using t(2) by auto
  have "matchingItem am \<noteq> f" if "am \<in># stored_matches s q" for am q
    using stored_item [OF that] assms(3,4) by (auto simp: list_ok_def)
  then have "filter_mset (\<lambda>am. matchingItem am \<noteq> f) (stored_matches s q) = stored_matches s q" for q by (simp add: filter_mset_eq_conv)
  then have m: "stored_matches u q = stored_matches s q" for q by (simp add: u(3) t(4) alpha_match_def)
  obtain A where A: "shows_alphas s A" using alphas_exist by blast
  then have Au: "shows_alphas u A" by (simp add: shows_alphas_def m)
  have "memory_binds u k = memory_binds s k" if k: "k \<in> Js" "lastLevel (joins s k) = Some j" for k j
  proof -
    obtain js where "path (joins s) j js" using network_complete [OF assms(2) A] k unfolding memories_hold_def by blast
    then show ?thesis using memory_complete [OF assms(2) A k] memory_complete [OF u(1) Au k(1)] k(2) by (simp add: u(2))
  qed
  then show ?thesis using t(5) u m by (intro exI [of _ t] exI [of _ u] exI [of _ "max m k"]) auto
qed

theorem assert_retract_memories_witness:
  "matcher_ok demo_matcher \<and> rete_ok demo_matcher {1, 2, 3} demo_net \<and> list_ok demo_net 5 \<and> matchLists demo_net 5 = [] \<and>
   (\<exists>t u m. (\<forall>n \<ge> m. ProcessFactAlphaMatch demo_matcher n 5 [] 10 demo_net = Some (0, t)) \<and>
     (\<forall>n \<ge> m. NetworkRetract demo_matcher n (matchLists t 5) (t\<lparr>environment := ([], [5])\<rparr>) = Some u) \<and> rete_ok demo_matcher {1, 2, 3} u \<and>
     memory_binds u 3 = {#})"
proof -
  have d: "isDeleted demo_matcher g ([], [5]) \<longleftrightarrow> g = 5" for g by (simp add: demo_matcher_def)
  have e: "memory_binds demo_net 3 = {#}" by (simp add: memory_binds_def lmem_def demo_net_def mem_contents_def)
  have "nextMatch demo_net = 0" "lastLevel (joins demo_net 3) \<noteq> None" by (simp_all add: demo_net_def demo_join_def)
  then show ?thesis
    using assert_retract_memories [OF demo_matcher_ok demo_rete_ok demo_lists d, of "[]" 10] demo_matcher_ok demo_rete_ok demo_lists e by auto
qed

end
