(* ===== verification/Engine_Properties.thy ===== *)
theory Engine_Properties
  imports Demo
begin

text \<open>
  The properties of the engine, the focus stack, salience evaluation and breakpoints,
  each followed by its instance on the environment \<open>demo\<close>.
\<close>

section \<open>Choosing and firing\<close>

text \<open>C10. \<open>NextActivationToFire\<close> returns an activation exactly when some module of the
  focus stack (or \<open>MAIN\<close>, if the stack is empty) has a non-empty agenda; then it is the
  first of the topmost such module, no activation of that module belongs before it,
  and exactly the modules above it have been popped. All agendas stay as they are.\<close>

theorem NextActivationToFire_best:
  assumes "run_wf 0 e"
  shows "let (p, f) = NextActivationToFire e; ms = dropWhile (\<lambda>m. agenda (module_item e m) = []) (start_focus e)
    in (\<forall>k. module_item f k = module_item e k) \<and> CurrentFocus f = ms \<and>
       (case p of
          None \<Rightarrow> ms = []
        | Some a \<Rightarrow> ms \<noteq> [] \<and> hd (agenda (module_item e (hd ms))) = a \<and>
            (\<forall>b \<in> set (agenda (module_item e (hd ms))). b = a \<or> agenda_order e a b))"
proof -
  let ?ms = "dropWhile (idle e) (start_focus e)"
  note ns = NextActivationToFire_spec [of e]
  show ?thesis
  proof (cases ?ms)
    case Nil
    have "fst (NextActivationToFire e) = None" by (simp only: ns(3) Nil list.case)
    then show ?thesis using ns(2) same_agendaD(6) [OF ns(1)] Nil by (simp add: case_prod_beta Let_def del: dropWhile_eq_Nil_conv)
  next
    case (Cons m ms)
    have ne: "\<not> idle e m" using hd_dropWhile [of "idle e" "start_focus e"] Cons by simp
    have "m \<in> set (start_focus e)" using Cons by (metis list.set_intros(1) set_dropWhileD)
    then have "m \<in> set (ListOfDefmodules e)"
      using assms by (auto simp: start_focus_def run_wf_def EnvFindDefmodule_def
          dest: find_module_in find_module_in [OF sym] split: option.splits if_splits)
    then have "module_inv e (module_item e m)" by (rule agenda_wf_module [OF run_wf_agenda [OF assms]])
    then have "\<forall>b \<in> set (agenda (module_item e m)).
        b = hd (agenda (module_item e m)) \<or> agenda_order e (hd (agenda (module_item e m))) b"
      using ne by (cases "agenda (module_item e m)") (auto simp: module_inv_def)
    moreover have "fst (NextActivationToFire e) = Some (hd (agenda (module_item e m)))"
      by (simp only: ns(3) Cons list.case)
    ultimately show ?thesis using ns(2) same_agendaD(6) [OF ns(1)] Cons
      by (simp add: case_prod_beta Let_def)
  qed
qed

theorem NextActivationToFire_best_witness:
  "fst (NextActivationToFire demo) = Some (act 0 0 0 10 0)"
proof -
  have ms: "dropWhile (\<lambda>m. agenda (module_item demo m) = []) (start_focus demo) = [0]"
    "agenda (module_item demo 0) = [act 0 0 0 10 0, act 2 1 2 0 2, act 1 1 1 0 1]"
    by (simp_all add: start_focus_def demo_def demo_main_def)
  from NextActivationToFire_best [OF demo_run, unfolded ms(1)] ms(2) show ?thesis
    by (cases "fst (NextActivationToFire demo)") (simp_all add: case_prod_beta Let_def)
qed

text \<open>C11. A run of rules whose actions are engine commands keeps every agenda well
  formed, and with a limit it fires no more rules than the limit.\<close>

theorem EnvRun_keeps_agendas:
  assumes "run_wf 0 e" and "EnvRun (command_callbacks ev prog) limit e = Some (fired, f)"
  shows "agenda_wf f \<and> 0 \<le> fired \<and> (0 \<le> limit \<longrightarrow> fired \<le> limit)"
  using commands.EnvRun_wf [OF assms] run_wf_agenda by blast

text \<open>C12. A run with a limit returns and fires at most that many rules, if right-hand sides return. This is for any
  callbacks that keep the state of a run well formed; the functions that are registered to be called during a run are
  assumed to return. If a right-hand side does not return, neither need the run.\<close>

theorem EnvRun_limit_returns:
  assumes "run_callbacks cb" and "\<And>g r. run_wf 1 g \<Longrightarrow> actions cb r g \<noteq> None" and "run_wf 0 e" and "0 \<le> limit"
  shows "\<exists>fired f. EnvRun cb limit e = Some (fired, f) \<and> run_wf 0 f \<and> fired \<le> limit"
proof -
  obtain fired f where r: "EnvRun cb limit e = Some (fired, f)"
    using run_callbacks.EnvRun_returns [OF assms] by blast
  then show ?thesis using run_callbacks.EnvRun_wf [OF assms(1,3) r] assms(4) by blast
qed

text \<open>The rules of the first run refresh the agenda; a right-hand side of the second does not return.\<close>

theorem EnvRun_limit_returns_witness:
  "(\<exists>fired f. EnvRun (command_callbacks no_salience (\<lambda>_. [RefreshAgenda])) 2 demo = Some (fired, f) \<and> run_wf 0 f \<and>
     fired \<le> 2) \<and>
   EnvRun ((command_callbacks no_salience (\<lambda>_. []))\<lparr>actions := \<lambda>r e. if r = 0 then None else Some e\<rparr>) 2 demo = None"
proof (rule conjI)
  show "\<exists>fired f. EnvRun (command_callbacks no_salience (\<lambda>_. [RefreshAgenda])) 2 demo = Some (fired, f) \<and> run_wf 0 f \<and> fired \<le> 2"
    by (rule EnvRun_limit_returns [OF commands.run_callbacks_axioms _ demo_run]) (simp_all add: command_callbacks_def)
  show "EnvRun ((command_callbacks no_salience (\<lambda>_. []))\<lparr>actions := \<lambda>r e. if r = 0 then None else Some e\<rparr>) 2 demo = None"
    by code_simp
qed

theorem EnvRun_keeps_agendas_witness:
  "\<exists>f. EnvRun (command_callbacks no_salience (\<lambda>_. [Halt []])) 5 demo = Some (1, f) \<and> agenda_wf f"
proof -
  have "map_option fst (EnvRun (command_callbacks no_salience (\<lambda>_. [Halt []])) 5 demo) = Some 1"
    by code_simp
  then obtain f where "EnvRun (command_callbacks no_salience (\<lambda>_. [Halt []])) 5 demo = Some (1, f)"
    by auto
  with EnvRun_keeps_agendas [OF demo_run this] show ?thesis by blast
qed

text \<open>C13. The message about the firing limit compares what is left of the limit with the
  number of rules fired, so a run with limit \<open>L\<close> that fires \<open>n\<close> rules prints it exactly
  when \<open>L = 2 n\<close>: not when the limit was reached by firing \<open>L > 0\<close> rules, and wrongly
  when a run stopped half way.\<close>

theorem EnvRun_limit_message:
  assumes "run_wf 0 e" and "\<not> AlreadyRunning e" and "0 \<le> limit"
    and "EnvRun (command_callbacks ev prog) limit e = Some (fired, f)"
  shows "\<exists>g. (let (p, e1) = NextActivationToFire (e\<lparr>AlreadyRunning := True, HaltRules := False\<rparr>)
       in run_loop (command_callbacks ev prog) p limit 0 e1) = Some (limit - fired, fired, g) \<and>
    dialog f = dialog g @ (if limit = 2 * fired then [FiringLimitReached] else [])"
proof -
  let ?cb = "command_callbacks ev prog"
  let ?n = "NextActivationToFire (e\<lparr>AlreadyRunning := True, HaltRules := False\<rparr>)"
  obtain l g where r: "run_loop ?cb (fst ?n) limit 0 (snd ?n) = Some (l, fired, g)"
      "f = finish_run ?cb l fired g"
    using assms(2,4) by (auto simp: EnvRun_def Let_def case_prod_beta split: option.splits)
  have l: "l = limit - fired"
    using commands.run_loop_wf [OF r(1) commands.EnvRun_ready [OF assms(1)]] assms(3) by simp
  have d: "dialog (finish_run ?cb l n g) = dialog g @ (if l = n then [FiringLimitReached] else [])"
    for l n g
    by (simp add: finish_run_def Let_def command_callbacks_def print_message_def
        EnvSetCurrentModule_def split: list.split)
  have "l = fired \<longleftrightarrow> limit = 2 * fired" using l by auto
  then show ?thesis using r l d by (simp add: case_prod_beta Let_def)
qed

theorem EnvRun_limit_message_witness:
  "\<exists>f. EnvRun (command_callbacks no_salience (\<lambda>_. [])) 2 demo = Some (2, f) \<and>
     FiringLimitReached \<notin> set (dialog f)"
proof -
  have "map_option (\<lambda>(n, f). (n, dialog f)) (EnvRun (command_callbacks no_salience (\<lambda>_. [])) 2 demo)
      = Some (2, [])" by code_simp
  then obtain f where f: "EnvRun (command_callbacks no_salience (\<lambda>_. [])) 2 demo = Some (2, f)"
    by auto
  have "\<not> AlreadyRunning demo" by (simp add: demo_def)
  from EnvRun_limit_message [OF demo_run this _ f] obtain g where g:
    "(let (p, e1) = NextActivationToFire (demo\<lparr>AlreadyRunning := True, HaltRules := False\<rparr>)
       in run_loop (command_callbacks no_salience (\<lambda>_. [])) p 2 0 e1) = Some (0, 2, g)"
    "dialog f = dialog g" by auto
  have "map_option (\<lambda>(l, n, g). dialog g)
      (let (p, e1) = NextActivationToFire (demo\<lparr>AlreadyRunning := True, HaltRules := False\<rparr>)
       in run_loop (command_callbacks no_salience (\<lambda>_. [])) p 2 0 e1) = Some []" by code_simp
  then have "dialog g = []" by (simp add: g(1))
  then show ?thesis using f g(2) by simp
qed

text \<open>A run that is already in progress is not entered again: the inner call returns 0
  and changes nothing. A run that starts with \<open>HaltExecution\<close> set fires nothing: the
  flag is not reset at the start, since the test for the top level looks at the garbage
  frame that was just created.\<close>

theorem EnvRun_guards:
  assumes "AlreadyRunning e \<or> HaltExecution e"
  shows "EnvRun cb limit e = Some (0, if AlreadyRunning e then e else finish_run cb limit 0
    (snd (NextActivationToFire (e\<lparr>AlreadyRunning := True, HaltRules := False\<rparr>))))"
proof (cases "AlreadyRunning e")
  case False
  let ?n = "NextActivationToFire (e\<lparr>AlreadyRunning := True, HaltRules := False\<rparr>)"
  have "HaltExecution (snd (pop_idle f)) = HaltExecution f" for f
  proof (induction f rule: pop_idle.induct)
    case (1 f)
    have "HaltExecution (snd (EnvPopFocus f)) = HaltExecution f"
      by (simp add: EnvPopFocus_def RemoveFocus_def EnvSetCurrentModule_def Let_def case_prod_beta)
    then show ?case using 1 by (subst pop_idle.simps) (auto split: list.split)
  qed
  then have "HaltExecution (snd ?n)"
    using assms False by (simp add: NextActivationToFire_def Let_def EnvFocus_def EnvSetCurrentModule_def
        split: option.split)
  then have "run_loop cb (fst ?n) limit 0 (snd ?n) = Some (limit, 0, snd ?n)"
    by (subst run_loop.simps) (simp split: option.split)
  then show ?thesis using False by (simp add: EnvRun_def Let_def case_prod_beta)
qed (simp add: EnvRun_def)

theorem EnvRun_guards_witness:
  "\<exists>f. EnvRun (command_callbacks no_salience (\<lambda>_. [])) (- 1) (demo\<lparr>HaltExecution := True\<rparr>) = Some (0, f)"
  using EnvRun_guards [of "demo\<lparr>HaltExecution := True\<rparr>"] by simp

text \<open>While a rule fires, the facts and instances of its match are pinned, and
  releasing them undoes it: incrementing and then decrementing the busy counts of the
  items of a match gives the environment back, also when an item occurs twice.\<close>

lemma pinning_is_undone:
  "count_items (- 1) bs (count_items 1 bs e) = e"
proof -
  have change: "change_busy d x (change_busy d' y e) = change_busy d' y (change_busy d x e)" for d d' x y e
    by (auto simp: change_busy_def fun_eq_iff intro!: env.equality)
  have move: "count_items d bs (change_busy d' x e) = change_busy d' x (count_items d bs e)" for d d' bs x e
    by (induction d bs e rule: count_items.induct) (simp_all add: change [of _ _ d' x])
  have "change_busy (- 1) x (change_busy 1 x e) = e" "change_busy 1 x (change_busy (- 1) x e) = e"
    for x e by (simp_all add: change_busy_def)
  then show ?thesis
    by (induction "- 1 :: 32 word" bs e rule: count_items.induct) (simp_all add: move)
qed

section \<open>Salience\<close>

text \<open>C15. \<open>EvaluateSalience\<close> gives a salience in the permitted range whenever the rule's
  own salience is, and reports an error whenever it falls back on the latter because
  of the dynamic expression. The value is cut down to 32 bits before the range test, so
  an integer outside the range can pass it.\<close>

theorem EvaluateSalience_range:
  assumes "- 10000 \<le> r_salience (rules e r)" and "r_salience (rules e r) \<le> 10000"
  shows "let (s, f) = EvaluateSalience ev r e in
    - 10000 \<le> s \<and> s \<le> 10000 \<and> r_salience (rules f r) = s \<and>
    (\<forall>x i. SalienceEvaluation e \<noteq> 0 \<longrightarrow> dynamicSalience (rules e r) = Some x \<longrightarrow>
       ev (e\<lparr>EvaluationError := False\<rparr>) x = Some (INTEGER i) \<longrightarrow>
       - 10000 \<le> to_int32 i \<longrightarrow> to_int32 i \<le> 10000 \<longrightarrow> s = to_int32 i \<and> \<not> EvaluationError f)"
  using assms
  by (auto simp: EvaluateSalience_def EnvGetSalienceEvaluation_def SetEvaluationError_def Let_def
      print_message_def set_rule_def split: option.split val.split)

theorem EvaluateSalience_range_witness:
  "fst (EvaluateSalience (\<lambda>_ _. Some (INTEGER (2 ^ 32 + 5))) 0
     (set_rule 0 ((rules demo 0)\<lparr>dynamicSalience := Some 0\<rparr>) (demo\<lparr>SalienceEvaluation := 1\<rparr>))) = 5"
proof -
  let ?e = "set_rule 0 ((rules demo 0)\<lparr>dynamicSalience := Some 0\<rparr>) (demo\<lparr>SalienceEvaluation := 1\<rparr>)"
  have "r_salience (rules ?e 0) = 10" "SalienceEvaluation ?e = 1" "dynamicSalience (rules ?e 0) = Some 0"
    by (simp_all add: set_rule_def demo_def demo_rule_def)
  with EvaluateSalience_range [of ?e 0 "\<lambda>_ _. Some (INTEGER (2 ^ 32 + 5))"] show ?thesis
    by (simp add: case_prod_beta to_int32_def)
qed

end
