(* ===== verification/Focus_Properties.thy ===== *)
theory Focus_Properties
  imports Demo
begin

text \<open>
  The properties of the focus stack, of breakpoints and of the lookup of rules and
  modules, each followed by an instance.
\<close>

section \<open>The focus stack\<close>

text \<open>Focusing on a module makes it the current module and the top of the stack,
  pushes it once (focusing again changes nothing) and popping it gives the old stack
  back.\<close>

lemma EnvFocus_push_pop:
  "let f = EnvFocus m e in
     CurrentModule f = Some m \<and>
     CurrentFocus f = (if CurrentFocus e \<noteq> [] \<and> hd (CurrentFocus e) = m then CurrentFocus e
       else m # CurrentFocus e) \<and>
     CurrentFocus (EnvFocus m f) = CurrentFocus f \<and>
     fst (EnvPopFocus f) = Some m \<and> CurrentFocus (snd (EnvPopFocus f)) = tl (CurrentFocus f)"
proof -
  have "fst (EnvPopFocus f) = Some m" if "CurrentFocus f \<noteq> []" "hd (CurrentFocus f) = m" for f
    using that by (cases "CurrentFocus f") (simp_all add: EnvPopFocus_def RemoveFocus_def Let_def)
  then show ?thesis using EnvPopFocus_stack [of "EnvFocus m e"]
    by (auto simp: EnvFocus_def EnvSetCurrentModule_def Let_def)
qed

text \<open>\<open>RemoveFocus\<close>, which a \<open>return\<close> on the right-hand side of a rule triggers,
  takes the first occurrence of the module off the stack, wherever it stands, and
  returns the module; if it is not on the stack nothing changes. The current module
  follows the top of the stack when the top is removed.\<close>

lemma RemoveFocus_first:
  "let (r, f) = RemoveFocus m e in
     CurrentFocus f = remove1 m (CurrentFocus e) \<and>
     r = (if CurrentFocus e = [] then None
          else if m \<in> set (CurrentFocus e) then Some m else Some (hd (CurrentFocus e))) \<and>
     CurrentModule f = (if CurrentFocus e \<noteq> [] \<and> hd (CurrentFocus e) = m \<and> CurrentFocus f \<noteq> []
       then Some (hd (CurrentFocus f)) else CurrentModule e)"
proof -
  have u: "unlink_focus m fs = (m \<in> set fs, remove1 m fs)" for fs
    by (induction fs) auto
  show ?thesis
    by (cases "CurrentFocus e")
       (auto simp: RemoveFocus_def u EnvSetCurrentModule_def Let_def remove1_idem)
qed

text \<open>\<open>clear-focus-stack\<close> pops until nothing is left, whatever the stack holds.\<close>

lemma EnvClearFocusStack_empties:
  "let f = EnvClearFocusStack e in CurrentFocus f = [] \<and> FocusChanged f \<and> EnvGetFocus f = None \<and>
     (\<forall>k. module_item f k = module_item e k)"
proof -
  have "CurrentFocus (pop_all e) = [] \<and> (\<forall>k. module_item (pop_all e) k = module_item e k)" for e
  proof (induction e rule: pop_all.induct)
    case (1 e)
    then show ?case using same_agendaD(6) [OF EnvPopFocus_same_agenda [of e]]
      by (simp add: pop_all.simps [of e])
  qed
  then show ?thesis by (simp add: EnvClearFocusStack_def EnvGetFocus_def Let_def)
qed

text \<open>The loop of \<open>focus\<close>: arguments \<open>i, .., 1\<close> have been pushed.\<close>

definition pushed :: "val list \<Rightarrow> nat \<Rightarrow> env \<Rightarrow> env \<Rightarrow> env \<Rightarrow> bool" where
  "pushed args i e f g \<longleftrightarrow>
     set (CurrentFocus f) \<subseteq> set (CurrentFocus g) \<and>
     (\<forall>j < i. \<exists>m \<in> set (CurrentFocus g). EnvFindDefmodule (DOToString (args ! j)) e = Some m) \<and>
     (0 < i \<longrightarrow> CurrentFocus g \<noteq> [] \<and>
        EnvFindDefmodule (DOToString (args ! 0)) e = Some (hd (CurrentFocus g)) \<and>
        CurrentModule g = Some (hd (CurrentFocus g)))"

lemma focus_loop_pushes:
  assumes "\<forall>v \<in> set args. \<exists>s. v = SYMBOL s \<and> EnvFindDefmodule s e \<noteq> None"
    and "i \<le> length args" "\<not> EvaluationError f" "modules f = modules e"
      "ListOfDefmodules f = ListOfDefmodules e"
  shows "fst (focus_loop i args f) \<and> pushed args i e f (snd (focus_loop i args f))"
  using assms(2-)
proof (induction i arbitrary: f)
  case (Suc i)
  have "args ! i \<in> set args" using Suc.prems(1) by simp
  then obtain s m where s: "args ! i = SYMBOL s" "EnvFindDefmodule s e = Some m"
    using assms(1) by fastforce
  have chk: "EnvArgTypeCheck ''focus'' (Suc i) ty_SYMBOL args f = (Some (SYMBOL s), f)"
    using Suc.prems(1,2) s(1) by (simp add: EnvArgTypeCheck_def check_type_def)
  have fm: "EnvFindDefmodule s f = Some m"
    using s(2) Suc.prems(3,4) by (simp add: EnvFindDefmodule_def)
  let ?f = "EnvFocus m f"
  have step: "focus_loop (Suc i) args f = focus_loop i args ?f" using chk fm by simp
  have pre: "\<not> EvaluationError ?f" "modules ?f = modules e" "ListOfDefmodules ?f = ListOfDefmodules e"
    using Suc.prems by (simp_all add: EnvFocus_def EnvSetCurrentModule_def Let_def)
  have top: "CurrentFocus ?f \<noteq> []" "hd (CurrentFocus ?f) = m" "CurrentModule ?f = Some m"
    "set (CurrentFocus f) \<subseteq> set (CurrentFocus ?f)"
    by (auto simp: EnvFocus_def EnvSetCurrentModule_def Let_def)
  then have m: "m \<in> set (CurrentFocus ?f)" by (metis hd_in_set)
  have IH: "fst (focus_loop i args ?f) \<and> pushed args i e ?f (snd (focus_loop i args ?f))"
    using Suc.IH [OF _ pre] Suc.prems(1) by simp
  show ?case
  proof (cases "i = 0")
    case True
    then show ?thesis using top m s unfolding step pushed_def by auto
  next
    case False
    then show ?thesis using IH top(4) m s unfolding step pushed_def by (auto simp: less_Suc_eq)
  qed
qed (simp add: pushed_def)

text \<open>\<open>focus\<close> with names of existing modules succeeds; the module named first ends
  up on top of the stack and is the current module, and every named module is on the
  stack.\<close>

lemma FocusCommand_first_on_top:
  assumes "args \<noteq> []" and "\<not> EvaluationError e"
    and "\<forall>v \<in> set args. \<exists>s. v = SYMBOL s \<and> EnvFindDefmodule s e \<noteq> None"
  shows "let (ok, f) = FocusCommand args e in
    ok \<and> CurrentFocus f \<noteq> [] \<and>
    EnvFindDefmodule (DOToString (hd args)) e = Some (hd (CurrentFocus f)) \<and>
    CurrentModule f = Some (hd (CurrentFocus f)) \<and>
    (\<forall>v \<in> set args. \<exists>m \<in> set (CurrentFocus f). EnvFindDefmodule (DOToString v) e = Some m)"
proof -
  have cc: "EnvArgCountCheck ''focus'' AT_LEAST 1 args e = (int (length args), e)"
    using assms(1) by (cases args) (simp_all add: EnvArgCountCheck_def EnvRtnArgCount_def)
  have fc: "FocusCommand args e = focus_loop (length args) args e"
    unfolding FocusCommand_def cc by simp
  have "hd args = args ! 0" using assms(1) by (simp add: hd_conv_nth)
  then show ?thesis using focus_loop_pushes [OF assms(3), of "length args" e] assms(1,2)
    by (auto simp: fc case_prod_beta in_set_conv_nth pushed_def)
qed

section \<open>Breakpoints\<close>

definition without_breaks :: "addr list \<Rightarrow> env \<Rightarrow> env" where
  "without_breaks rs f = f\<lparr>rules := (\<lambda>q. if q \<in> set rs
     then (rules f q)\<lparr>afterBreakpoint := False\<rparr> else rules f q)\<rparr>"

lemma EnvRemoveBreak_single:
  assumes "disjuncts (rules f q) = []"
  shows "snd (EnvRemoveBreak q f) = without_breaks [q] f"
  using assms by (auto simp: EnvRemoveBreak_def set_rule_def without_breaks_def
      intro!: env.equality ext)

lemma without_breaks_append:
  "without_breaks rs (without_breaks qs f) = without_breaks (rs @ qs) f"
  by (auto simp: without_breaks_def intro!: env.equality ext)

lemma without_breaks_fields [simp]:
  "current_rules (without_breaks rs f) = current_rules f"
  "disjuncts (rules (without_breaks rs f) r) = disjuncts (rules f r)"
  by (simp_all add: without_breaks_def current_rules_def split: option.split)

lemma without_breaks_set: "set rs = set qs \<Longrightarrow> without_breaks rs f = without_breaks qs f"
  by (simp add: without_breaks_def)

lemma EnvRemoveBreak_rules:
  "\<forall>r \<in> set rs. disjuncts (rules f r) = [] \<Longrightarrow>
   fold (\<lambda>r e. snd (EnvRemoveBreak r e)) rs f = without_breaks (rev rs) f"
  by (induction rs arbitrary: f)
     (simp_all add: EnvRemoveBreak_single without_breaks_append,
      simp add: without_breaks_def)

lemma RemoveAllBreakpoints_passes:
  assumes "\<forall>r \<in> set (current_rules f). disjuncts (rules f r) = []"
  shows "fold (\<lambda>m e'. fold (\<lambda>r e. snd (EnvRemoveBreak r e)) (current_rules e') e') ms f =
    (if ms = [] then f else without_breaks (current_rules f) f)"
  using assms
proof (induction ms arbitrary: f)
  case (Cons m ms)
  have pass: "fold (\<lambda>r e. snd (EnvRemoveBreak r e)) (current_rules f) f = without_breaks (current_rules f) f"
    using EnvRemoveBreak_rules [OF Cons.prems] without_breaks_set [of "rev (current_rules f)"] by simp
  show ?case using Cons by (auto simp: pass without_breaks_append intro: without_breaks_set)
qed simp

text \<open>C20. \<open>RemoveAllBreakpoints\<close> walks over all modules but asks each time for the rules
  of the current module: only their breakpoints go, those of every other rule stay.\<close>

theorem RemoveAllBreakpoints_current_only:
  assumes "ListOfDefmodules e \<noteq> []" and "\<forall>r \<in> set (current_rules e). disjuncts (rules e r) = []"
  shows "EnvDefruleHasBreakpoint r (RemoveAllBreakpoints e) \<longleftrightarrow>
    EnvDefruleHasBreakpoint r e \<and> r \<notin> set (current_rules e)"
  using RemoveAllBreakpoints_passes [OF assms(2), of "ListOfDefmodules e"] assms(1)
  by (simp add: RemoveAllBreakpoints_def EnvDefruleHasBreakpoint_def without_breaks_def)

theorem RemoveAllBreakpoints_current_only_witness:
  "EnvDefruleHasBreakpoint 2 (RemoveAllBreakpoints (EnvSetBreak 2 demo))"
proof -
  let ?e = "EnvSetBreak 2 demo"
  have "ListOfDefmodules ?e \<noteq> []" "\<forall>r \<in> set (current_rules ?e). disjuncts (rules ?e r) = []"
    "EnvDefruleHasBreakpoint 2 ?e" "2 \<notin> set (current_rules ?e)"
    by (simp_all add: EnvSetBreak_def demo_def demo_rule_def set_rule_def current_rules_def
        EnvDefruleHasBreakpoint_def)
  then show ?thesis using RemoveAllBreakpoints_current_only [of ?e 2] by simp
qed

section \<open>Names and imports\<close>

text \<open>A name \<open>module::construct\<close> is split back into its two parts, for every module
  name that is not empty and has no two colons in a row (nor one at its end), and
  every construct name that is not empty. A name without \<open>::\<close> is its own construct
  name.\<close>

lemma module_name_roundtrip:
  assumes "m \<noteq> []" and "c \<noteq> []" and "FindModuleSeparator (m @ '':'') = 0"
  shows "let s = m @ ''::'' @ c; pos = FindModuleSeparator s in
    ExtractModuleName pos s = Some m \<and> ExtractConstructName pos s = Some c"
proof -
  have "FindModuleSeparator (m @ ''::'' @ c) = length m + 1"
    by (rule FindModuleSeparator_append [OF assms(3)])
  then show ?thesis using assms(1,2)
    by (cases m; cases c) (simp_all add: Let_def ExtractModuleName_def ExtractConstructName_def)
qed

text \<open>C22. The search for an imported construct ends, also when modules import each other
  in a cycle. It counts exactly the modules, among those that imports and exports make
  visible, that define the construct, and what it returns is the definition found in
  one of them; so a count above one, which the caller reports as an ambiguous
  reference, means two different visible definitions.\<close>

theorem FindImportedConstruct_exact:
  assumes "plain_search s" and "FindModuleSeparator (findName s) = 0"
    and "CurrentModule e = Some m" and "m \<in> set (ListOfDefmodules e)"
  shows "\<exists>rv. FindImportedConstruct s e =
      Some (rv, card {x. visible_from (SaveCurrentModule e) s m x \<and> defined_in (SaveCurrentModule e) s x}) \<and>
    (rv \<noteq> None \<longrightarrow> (\<exists>x. visible_from (SaveCurrentModule e) s m x \<and> rv = found_in (SaveCurrentModule e) s x))"
proof -
  let ?e = "SaveCurrentModule e"
  have L: "ListOfDefmodules ?e = ListOfDefmodules e" by (simp add: SaveCurrentModule_def)
  then have "m \<in> set (ListOfDefmodules ?e)" using assms(4) by simp
  from search_complete [OF assms(1) this] obtain rv vis where r:
    "SearchImportedConstructModules (Suc (length (ListOfDefmodules ?e))) ?e s m [] 0 =
       Some (rv, vis, length (filter (defined_in ?e s) vis))"
    "distinct vis" "set vis = {x. visible_from ?e s m x}"
    "rv \<noteq> None \<longrightarrow> rv \<in> found_in ?e s ` set vis" by metis
  have "length (filter (defined_in ?e s) vis) =
      card {x. visible_from ?e s m x \<and> defined_in ?e s x}"
  proof -
    have "set (filter (defined_in ?e s) vis) = {x. visible_from ?e s m x \<and> defined_in ?e s x}"
      using r(3) by auto
    then show ?thesis using r(2) distinct_card [of "filter (defined_in ?e s) vis"] by simp
  qed
  moreover have "FindImportedConstruct s e = Some (rv, length (filter (defined_in ?e s) vis))"
    using r(1) assms(2,3) L
    by (simp add: FindImportedConstruct_def del: SearchImportedConstructModules.simps)
  ultimately show ?thesis using r(3,4) by auto
qed

theorem FindImportedConstruct_exact_witness:
  "\<exists>rv. FindImportedConstruct (defrule_args ''start'' demo) (demo\<lparr>CurrentModule := Some 1\<rparr>) = Some (rv, 1)"
proof -
  let ?e = "demo\<lparr>CurrentModule := Some 1\<rparr>" and ?s = "defrule_args ''start'' demo"
  have "FindModuleSeparator (findName ?s) = 0" by (simp add: defrule_args_def FindModuleSeparator_def)
  moreover have "CurrentModule ?e = Some 1" "1 \<in> set (ListOfDefmodules ?e)" by (simp_all add: demo_def)
  ultimately obtain rv where rv: "FindImportedConstruct ?s ?e = Some (rv, card
      {x. visible_from (SaveCurrentModule ?e) ?s 1 x \<and> defined_in (SaveCurrentModule ?e) ?s x})"
    using FindImportedConstruct_exact [OF defrule_args_plain] by blast
  have "map_option snd (FindImportedConstruct ?s ?e) = Some 1" by code_simp
  then show ?thesis using rv by auto
qed

text \<open>\<open>ListItemsDriver\<close> gives the module state back: the current module, the module
  stack and the flag that enables the module change functions, unless execution was
  halted and there is a construct to list; then it returns without restoring them, so
  the saved entry stays on the module stack.\<close>

theorem ListItemsDriver_module_state:
  "let f = ListItemsDriver items nf doIt tally p e in
     (\<not> HaltExecution e \<longrightarrow> CurrentModule f = CurrentModule e \<and> ModuleStack f = ModuleStack e \<and>
        CallModuleChangeFunctions f = CallModuleChangeFunctions e) \<and>
     (HaltExecution e \<and> p = Some m \<and> items ((SaveCurrentModule e)\<lparr>CurrentModule := Some m\<rparr>) \<noteq> [] \<longrightarrow>
        length (ModuleStack f) = Suc (length (ModuleStack e)) \<and> CurrentModule f = Some m \<and>
        \<not> CallModuleChangeFunctions f)"
proof -
  let ?s = "SaveCurrentModule e"
  have halt: "HaltExecution ?s = HaltExecution e" by (simp add: SaveCurrentModule_def)
  have frame: "ModuleStack (snd (snd (list_modules items nf doIt al ms n ?s))) =
      (CallModuleChangeFunctions e, CurrentModule e) # ModuleStack e" for al ms n
    by (simp add: list_modules_frame) (simp add: SaveCurrentModule_def)
  have set: "EnvSetCurrentModule m ?s = ?s\<lparr>CurrentModule := Some m\<rparr>"
    by (simp add: EnvSetCurrentModule_def SaveCurrentModule_def)
  have "CurrentModule f = CurrentModule e \<and> ModuleStack f = ModuleStack e \<and>
      CallModuleChangeFunctions f = CallModuleChangeFunctions e"
    if "\<not> HaltExecution e" "f = ListItemsDriver items nf doIt tally p e" for f
    using that frame list_modules_frame(3) [of ?s] halt
    by (simp add: ListItemsDriver_def Let_def case_prod_beta RestoreCurrentModule_def print_message_def)
  moreover have "length (ModuleStack f) = Suc (length (ModuleStack e)) \<and> CurrentModule f = Some m \<and>
        \<not> CallModuleChangeFunctions f"
    if "HaltExecution e" "p = Some m" "items ((SaveCurrentModule e)\<lparr>CurrentModule := Some m\<rparr>) \<noteq> []"
      "f = ListItemsDriver items nf doIt tally p e" for f
  proof -
    let ?g = "?s\<lparr>CurrentModule := Some m\<rparr>"
    have "list_constructs nf doIt (items ?g) 0 ?g = (True, 0, ?g)"
      using that(1,3) halt by (cases "items ?g") simp_all
    then have "f = ?g" using that(2,4) by (simp add: ListItemsDriver_def Let_def set)
    then show ?thesis by (simp add: SaveCurrentModule_def)
  qed
  ultimately show ?thesis unfolding Let_def by blast
qed

theorem ListItemsDriver_module_state_witness:
  "length (ModuleStack (EnvShowBreaks (Some 0) (demo\<lparr>HaltExecution := True\<rparr>))) = 1"
proof -
  let ?e = "demo\<lparr>HaltExecution := True\<rparr>"
  have "current_rules ((SaveCurrentModule ?e)\<lparr>CurrentModule := Some 0\<rparr>) \<noteq> []" "ModuleStack ?e = []"
    by (simp_all add: current_rules_def SaveCurrentModule_def demo_def)
  then show ?thesis
    using ListItemsDriver_module_state [of current_rules "\<lambda>r e. r_name (rules e r)"
        EnvDefruleHasBreakpoint False "Some 0" ?e 0]
    by (simp add: EnvShowBreaks_def Let_def)
qed

end
