(* ===== verification/Reed_Solomon.thy ===== *)
theory Reed_Solomon
  imports Prelude
begin

unbundle bit_operations_syntax

text \<open>
  Account addresses, \<open>source/owlchain/crypto/reedsolomon.d\<close>: a 64-bit account number
  is written in base 32, extended by four parity symbols of a Reed-Solomon code over
  the field with 32 elements and printed with dashes. A thrown exception (a failed
  \<open>enforce\<close> or an array access out of range) is \<open>None\<close>. Symbols are numbers below 32;
  the digits of the base conversion are 32-bit integers with wrap-around, which matters
  only for negative account numbers, whose minus sign is taken for a digit.
\<close>

section \<open>Tables and field multiplication\<close>

definition GEXP :: "nat list" where
  "GEXP = [1, 2, 4, 8, 16, 5, 10, 20, 13, 26, 17, 7, 14, 28, 29, 31, 27, 19, 3, 6, 12, 24, 21,
           15, 30, 25, 23, 11, 22, 9, 18, 1]"

definition GLOG :: "nat list" where
  "GLOG = [0, 0, 1, 18, 2, 5, 19, 11, 3, 29, 6, 27, 20, 8, 12, 23, 4, 10, 30, 17, 7, 22, 28, 26,
           21, 25, 9, 16, 13, 14, 24, 15]"

definition CODEWORK_MAP :: "nat list" where
  "CODEWORK_MAP = [3, 2, 1, 0, 7, 6, 5, 4, 13, 14, 15, 16, 12, 8, 9, 10, 11]"

definition ALPAHBET :: string where
  "ALPAHBET = ''23456789ABCDEFGHJKLMNPQRSTUVWXYZ''"

definition gmult :: "nat \<Rightarrow> nat \<Rightarrow> nat" where
  "gmult a b = (if a = 0 \<or> b = 0 then 0 else GEXP ! ((GLOG ! a + GLOG ! b) mod 31))"

text \<open>The inner loop of \<open>is_codeword_valid\<close>, over the positions of a shortened code of
  length 31: 13 data symbols, then the four parity symbols at 27 to 30.\<close>

definition code_positions :: "(nat \<times> nat) list" where
  "code_positions = map (\<lambda>j. (j, j)) [0..<13] @ map (\<lambda>j. (j, j - 14)) [27..<31]"

definition syndrome :: "nat list \<Rightarrow> nat \<Rightarrow> nat" where
  "syndrome codeword i =
     fold (\<lambda>(j, pos) t. t XOR gmult (codeword ! pos) (GEXP ! ((i * j) mod 31))) code_positions 0"

definition is_codeword_valid :: "nat list \<Rightarrow> bool" where
  "is_codeword_valid codeword \<longleftrightarrow>
     fold (\<lambda>i sum. sum OR syndrome codeword i) [1..<5] 0 = 0"

section \<open>Base conversion\<close>

text \<open>\<open>to!string(long)\<close>.\<close>

function decimal :: "int \<Rightarrow> string" where
  "decimal n = (if n < 10 then [char_of (48 + n)] else decimal (n div 10) @ [char_of (48 + n mod 10)])"
  by pat_completeness auto
termination by (relation "measure nat") auto

declare decimal.simps [simp del]

definition to_string :: "int \<Rightarrow> string" where
  "to_string i = (if i < 0 then CHR ''-'' # decimal (- i) else decimal i)"

text \<open>One pass of the conversion from base \<open>b\<close> to base \<open>t\<close>: the quotient, written over
  the digits already read, and the remainder.\<close>

fun divide_pass :: "int \<Rightarrow> int \<Rightarrow> int \<Rightarrow> int list \<Rightarrow> int list \<Rightarrow> int list \<times> int" where
  "divide_pass b t digit [] qs = (qs, digit)"
| "divide_pass b t digit (x # xs) qs =
     (let d = to_int32 (digit * b + x)
      in if d \<ge> t then divide_pass b t (d mod t) xs (qs @ [d div t])
         else if qs \<noteq> [] then divide_pass b t d xs (qs @ [0])
         else divide_pass b t d xs [])"

text \<open>The \<open>do .. while\<close> loop: the digits in the new base, least significant first. The
  first argument is the number of array elements that are left for them; writing past
  the last raises a range error.\<close>

fun convert_base :: "int \<Rightarrow> int \<Rightarrow> nat \<Rightarrow> int list \<Rightarrow> int list option" where
  "convert_base b t 0 ds = None"
| "convert_base b t (Suc k) ds =
     (let (q, r) = divide_pass b t 0 ds []
      in if q = [] then Some [r]
         else map_option (\<lambda>cs. r # cs) (convert_base b t k q))"

section \<open>Encoding\<close>

text \<open>One step of the parity register; the loop runs from the last data symbol down.\<close>

definition parity_step :: "nat \<Rightarrow> nat \<times> nat \<times> nat \<times> nat \<Rightarrow> nat \<times> nat \<times> nat \<times> nat" where
  "parity_step c = (\<lambda>(p0, p1, p2, p3).
     let fb = c XOR p3
     in (gmult 17 fb, p0 XOR gmult 9 fb, p1 XOR gmult 6 fb, p2 XOR gmult 30 fb))"

definition parity :: "nat list \<Rightarrow> nat \<times> nat \<times> nat \<times> nat" where
  "parity codeword = fold parity_step (rev codeword) (0, 0, 0, 0)"

definition with_parity :: "nat list \<Rightarrow> nat list" where
  "with_parity codeword = (case parity codeword of (p0, p1, p2, p3) \<Rightarrow> codeword @ [p0, p1, p2, p3])"

definition print_codeword :: "nat list \<Rightarrow> string" where
  "print_codeword codeword =
     concat (map (\<lambda>i. (ALPAHBET ! (codeword ! (CODEWORK_MAP ! i))) #
                      (if (i + 1) mod 4 = 0 \<and> i < 13 then ''-'' else []))
       [0..<17])"

text \<open>A data symbol that is not below 32, which only a negative number gives, is an index
  out of range in \<open>gmult\<close>.\<close>

definition encode :: "int \<Rightarrow> string option" where
  "encode plain =
     (case convert_base 10 32 17 (map (\<lambda>c. of_char c - 48) (to_string plain)) of
        None \<Rightarrow> None
      | Some cs \<Rightarrow>
          (let data = take 13 (cs @ replicate 17 0)
           in if \<forall>c \<in> set data. 0 \<le> c \<and> c < 32
              then Some (print_codeword (with_parity (map nat data))) else None))"

section \<open>Decoding\<close>

fun index_of :: "char \<Rightarrow> string \<Rightarrow> nat option" where
  "index_of c [] = None"
| "index_of c (x # xs) = (if x = c then Some 0 else map_option Suc (index_of c xs))"

text \<open>The loop over the characters: characters outside the alphabet are skipped, an
  eighteenth symbol throws.\<close>

fun read_symbols :: "string \<Rightarrow> nat list \<Rightarrow> nat \<Rightarrow> (nat list \<times> nat) option" where
  "read_symbols [] codeword n = Some (codeword, n)"
| "read_symbols (c # cs) codeword n =
     (case index_of c ALPAHBET of
        None \<Rightarrow> read_symbols cs codeword n
      | Some v \<Rightarrow>
          if n \<le> 16 then read_symbols cs (codeword[CODEWORK_MAP ! n := v]) (n + 1) else None)"

definition INITIAL_CODEWORD :: "nat list" where
  "INITIAL_CODEWORD = [1, 0, 0, 0, 0, 0, 0, 0, 0, 0, 0, 0, 0, 0, 0, 0, 0]"

text \<open>\<open>BigInt.toLong\<close> of a non-negative number saturates.\<close>

definition to_long :: "int \<Rightarrow> int" where
  "to_long n = min n (2 ^ 63 - 1)"

fun big_int :: "int list \<Rightarrow> int" where
  "big_int [] = 0"
| "big_int (d # ds) = d + 10 * big_int ds"

text \<open>The conversion appends decimal digits to a growing buffer. Twenty digits are
  enough for 13 symbols, see \<open>decode_returns\<close>.\<close>

definition decode :: "string \<Rightarrow> int option" where
  "decode cypher =
     (case read_symbols cypher INITIAL_CODEWORD 0 of
        None \<Rightarrow> None
      | Some (codeword, n) \<Rightarrow>
          if (n \<noteq> 17 \<and> is_codeword_valid codeword) \<or> n = 17
          then map_option (\<lambda>ds. to_long (big_int ds))
                 (convert_base 32 10 20 (map int (rev (take 13 codeword))))
          else None)"

definition encodeWithPrefix :: "string \<Rightarrow> int \<Rightarrow> string option" where
  "encodeWithPrefix prefix plain = map_option (\<lambda>s. prefix @ ''-'' @ s) (encode plain)"

definition decodeWithPrefix :: "string \<Rightarrow> string \<Rightarrow> int option" where
  "decodeWithPrefix prefix cypher =
     (case index_of (CHR ''-'') cypher of
        None \<Rightarrow> None
      | Some dash \<Rightarrow> if prefix = take dash cypher then decode (drop (dash + 1) cypher) else None)"

end
