(* ===== verification/Reed_Solomon_Digits.thy ===== *)
theory Reed_Solomon_Digits
  imports Reed_Solomon
begin

text \<open>
  The base conversion of \<open>encode\<close> and \<open>decode\<close>: what one pass leaves, that the loop ends
  within the digits that the value has in the new base, and that the printed codeword is
  read back.
\<close>

section \<open>Values of digit strings\<close>

text \<open>Most significant digit first, continuing from \<open>v\<close>.\<close>

fun big_end :: "int \<Rightarrow> int \<Rightarrow> int list \<Rightarrow> int" where
  "big_end b v [] = v"
| "big_end b v (x # xs) = big_end b (v * b + x) xs"

text \<open>Least significant digit first.\<close>

fun little_end :: "int \<Rightarrow> int list \<Rightarrow> int" where
  "little_end b [] = 0"
| "little_end b (x # xs) = x + b * little_end b xs"

definition digits :: "int \<Rightarrow> int list \<Rightarrow> bool" where
  "digits b xs \<longleftrightarrow> (\<forall>x \<in> set xs. 0 \<le> x \<and> x < b)"

lemma digits_simps [simp]:
  "digits b []"
  "digits b (x # xs) \<longleftrightarrow> (0 \<le> x \<and> x < b) \<and> digits b xs"
  "digits b (xs @ ys) \<longleftrightarrow> digits b xs \<and> digits b ys"
  by (auto simp: digits_def)

lemma big_end_append [simp]: "big_end b v (xs @ ys) = big_end b (big_end b v xs) ys"
  by (induction xs arbitrary: v) auto

lemma big_end_rev: "big_end b 0 (rev xs) = little_end b xs"
  by (induction xs) (auto simp: mult.commute add.commute)

lemma little_end_zeros [simp]: "little_end b (xs @ replicate n 0) = little_end b xs"
  by (induction xs) (induction n; simp)+

lemma little_end_nonneg: "digits b xs \<Longrightarrow> 0 \<le> b \<Longrightarrow> 0 \<le> little_end b xs"
  by (induction xs) auto

lemma little_end_bound: "digits b xs \<Longrightarrow> little_end b xs < b ^ length xs"
proof (induction xs)
  case (Cons x xs)
  then have x: "x < b" "0 \<le> x" and IH: "little_end b xs \<le> b ^ length xs - 1" by auto
  then have "b * little_end b xs \<le> b * (b ^ length xs - 1)"
    by (intro mult_left_mono) auto
  with x show ?case by (simp add: algebra_simps)
qed simp

lemma big_int_little_end: "big_int ds = little_end 10 ds"
  by (induction ds) auto

section \<open>The conversion loop\<close>

text \<open>The product of the bases is small, so no step of a pass wraps around.\<close>

lemma pass_step:
  assumes "0 \<le> digit" "digit < t" "0 \<le> x" "x < b" "t * b \<le> 1024"
  shows "to_int32 (digit * b + x) = digit * b + x \<and> 0 \<le> digit * b + x \<and> digit * b + x < t * b"
proof -
  have "digit * b \<le> (t - 1) * b" using assms by (intro mult_right_mono) auto
  then have "digit * b + x < t * b" "0 \<le> digit * b + x" using assms by (simp_all add: algebra_simps)
  then show ?thesis using assms(5) by (simp add: to_int32_id)
qed

text \<open>A pass divides: what was read so far is the quotient times the new base plus the
  digit carried. A quotient never starts with a zero.\<close>

definition pass_inv :: "int \<Rightarrow> int \<Rightarrow> int \<Rightarrow> int list \<Rightarrow> bool" where
  "pass_inv b t digit qs \<longleftrightarrow>
     0 \<le> digit \<and> digit < t \<and> digits b qs \<and> (qs \<noteq> [] \<longrightarrow> 0 < big_end b 0 qs)"

lemma divide_pass_value:
  assumes bases: "1 < t" "1 < b" "t * b \<le> 1024"
  shows "pass_inv b t digit qs \<Longrightarrow> digits b xs \<Longrightarrow> divide_pass b t digit xs qs = (q, r) \<Longrightarrow>
    pass_inv b t r q \<and> big_end b 0 q * t + r = big_end b (big_end b 0 qs * t + digit) xs"
proof (induction xs arbitrary: digit qs)
  case (Cons x xs)
  define d where "d = digit * b + x"
  define v where "v = big_end b 0 qs"
  have d: "to_int32 d = d" "0 \<le> d" "d < t * b"
    using pass_step [of digit t x b] Cons.prems bases by (auto simp: d_def pass_inv_def)
  have v: "0 \<le> v" "qs \<noteq> [] \<Longrightarrow> 0 < v" "qs = [] \<Longrightarrow> v = 0"
    using Cons.prems(1) by (auto simp: v_def pass_inv_def)
  have total: "(v * t + digit) * b + x = v * b * t + d"
    by (simp add: d_def algebra_simps)
  consider "d \<ge> t" | "d < t" "qs \<noteq> []" | "d < t" "qs = []" by linarith
  then show ?case
  proof cases
    case 1
    have "d div t * t \<le> d" using bases div_mult_mod_eq [of d t] pos_mod_sign [of t d] by linarith
    then have "d div t * t < b * t" using d(3) by (simp add: mult.commute)
    then have "d div t < b" using bases by simp
    moreover have "0 < d div t" using 1 bases by (simp add: pos_imp_zdiv_pos_iff)
    moreover have "0 \<le> v * b" using v bases by simp
    ultimately have "pass_inv b t (d mod t) (qs @ [d div t])"
      using Cons.prems(1) bases by (auto simp: pass_inv_def v_def [symmetric])
    moreover have "divide_pass b t (d mod t) xs (qs @ [d div t]) = (q, r)"
      using Cons.prems(3) 1 d by (simp add: d_def [symmetric])
    moreover have "(v * b + d div t) * t + d mod t = (v * t + digit) * b + x"
      using total by (simp only: distrib_right add.assoc div_mult_mod_eq)
    ultimately show ?thesis
      using Cons.IH [of "d mod t" "qs @ [d div t]"] Cons.prems(2)
      by (simp only: v_def [symmetric] big_end.simps big_end_append digits_simps)
  next
    case 2
    then have "pass_inv b t d (qs @ [0])"
      using Cons.prems(1) bases d v by (auto simp: pass_inv_def v_def [symmetric])
    moreover have "divide_pass b t d xs (qs @ [0]) = (q, r)"
      using Cons.prems(3) 2 d by (simp add: d_def [symmetric])
    ultimately show ?thesis
      using Cons.IH [of d "qs @ [0]"] Cons.prems(2) total by (simp add: v_def [symmetric])
  next
    case 3
    then have "pass_inv b t d []"
      using d by (auto simp: pass_inv_def)
    moreover have "divide_pass b t d xs [] = (q, r)"
      using Cons.prems(3) 3 d by (simp add: d_def [symmetric])
    ultimately show ?thesis
      using Cons.IH [of d "[]"] Cons.prems(2) total 3 v by (simp add: v_def [symmetric])
  qed
qed (auto simp: pass_inv_def)

lemma convert_base_correct:
  assumes bases: "1 < t" "1 < b" "t * b \<le> 1024"
  shows "digits b ds \<Longrightarrow> big_end b 0 ds < t ^ m \<Longrightarrow> 0 < m \<Longrightarrow> m \<le> k \<Longrightarrow>
    \<exists>cs. convert_base b t k ds = Some cs \<and> digits t cs \<and> length cs \<le> m \<and> little_end t cs = big_end b 0 ds"
proof (induction k arbitrary: ds m)
  case (Suc k)
  obtain q r where qr: "divide_pass b t 0 ds [] = (q, r)" by fastforce
  then have q: "pass_inv b t r q" "big_end b 0 q * t + r = big_end b 0 ds"
    using divide_pass_value [OF bases, of 0 "[]" ds q r] Suc.prems bases by (auto simp: pass_inv_def)
  show ?case
  proof (cases "q = []")
    case True
    then show ?thesis using q qr Suc.prems by (auto simp: pass_inv_def)
  next
    case False
    then have pos: "0 < big_end b 0 q" and r: "0 \<le> r" "r < t" using q by (auto simp: pass_inv_def)
    obtain m' where m: "m = Suc m'" using Suc.prems by (cases m) auto
    have "big_end b 0 q * t \<le> big_end b 0 ds" using q(2) r by linarith
    also have "\<dots> < t ^ m' * t" using Suc.prems(2) by (simp add: m mult.commute)
    finally have small: "big_end b 0 q < t ^ m'" using bases by simp
    have "0 < m'" using small pos by (cases m') auto
    then obtain cs where "convert_base b t k q = Some cs" "digits t cs" "length cs \<le> m'" "little_end t cs = big_end b 0 q"
      using Suc.IH [of q m'] q small Suc.prems m by (auto simp: pass_inv_def)
    then show ?thesis using qr q r False by (auto simp: m mult.commute)
  qed
qed simp

section \<open>Decimal strings\<close>

lemma decimal_value:
  "0 \<le> n \<Longrightarrow> digits 10 (map (\<lambda>c. of_char c - 48) (decimal n)) \<and>
    big_end 10 0 (map (\<lambda>c. of_char c - 48) (decimal n)) = n"
proof (induction n rule: decimal.induct)
  case (1 n)
  have char: "of_char (char_of (48 + k) :: char) = 48 + k" if "0 \<le> k" "k < 10" for k :: int
    using that by simp
  show ?case
  proof (cases "n < 10")
    case True
    with 1 char [of n] show ?thesis by (simp add: decimal.simps [of n])
  next
    case False
    with 1 char [of "n mod 10"] show ?thesis by (simp add: decimal.simps [of n])
  qed
qed

section \<open>Printing and reading a codeword\<close>

lemma index_of_alphabet: "v < 32 \<Longrightarrow> index_of (ALPAHBET ! v) ALPAHBET = Some v"
proof -
  have "\<forall>v \<in> set [0..<32]. index_of (ALPAHBET ! v) ALPAHBET = Some v"
    by code_simp
  then show "v < 32 \<Longrightarrow> index_of (ALPAHBET ! v) ALPAHBET = Some v"
    by simp
qed

lemma index_of_dash: "index_of (CHR ''-'') ALPAHBET = None"
  by code_simp

lemma index_of_below: "index_of c xs = Some v \<Longrightarrow> v < length xs"
  by (induction xs arbitrary: v) (auto split: if_splits)

definition symbols :: "nat list \<Rightarrow> bool" where
  "symbols cs \<longleftrightarrow> (\<forall>c \<in> set cs. c < 32)"

lemma symbols_nth: "symbols cs \<Longrightarrow> p < length cs \<Longrightarrow> cs ! p < 32"
  by (simp add: symbols_def)

lemma read_symbols_dash [simp]: "read_symbols (CHR ''-'' # cs) w n = read_symbols cs w n"
  by (simp add: index_of_dash)

lemma read_symbols_alphabet [simp]:
  "v < 32 \<Longrightarrow> n \<le> 16 \<Longrightarrow>
    read_symbols (ALPAHBET ! v # cs) w n = read_symbols cs (w[CODEWORK_MAP ! n := v]) (Suc n)"
  by (simp add: index_of_alphabet)

lemma read_print_codeword:
  assumes "symbols w" "length w = 17"
  shows "read_symbols (print_codeword w) INITIAL_CODEWORD 0 = Some (w, 17)"
proof -
  have "w ! p < 32" if "p < 17" for p using assms that by (simp add: symbols_nth)
  moreover have "[w ! 0, w ! 1, w ! 2, w ! 3, w ! 4, w ! 5, w ! 6, w ! 7, w ! 8, w ! 9, w ! 10, w ! 11,
      w ! 12, w ! 13, w ! 14, w ! 15, w ! 16] = map ((!) w) [0..<17]"
    by (simp add: upt_rec numeral_eq_Suc)
  moreover have "map ((!) w) [0..<17] = w" using assms(2) map_nth [of w] by simp
  ultimately show ?thesis
    by (simp add: print_codeword_def CODEWORK_MAP_def INITIAL_CODEWORD_def upt_rec del: read_symbols.simps(2))
qed

text \<open>Reading keeps a codeword of 17 symbols.\<close>

lemma read_symbols_codeword:
  "read_symbols cs w n = Some (w', n') \<Longrightarrow> symbols w \<Longrightarrow> symbols w' \<and> length w' = length w"
proof (induction cs w n rule: read_symbols.induct)
  case (2 c cs w n)
  show ?case
  proof (cases "index_of c ALPAHBET")
    case None
    with 2 show ?thesis by simp
  next
    case (Some v)
    then have "v < 32" using index_of_below [of c ALPAHBET v] by (simp add: ALPAHBET_def)
    then have "symbols (w[CODEWORK_MAP ! n := v])"
      using 2(4) set_update_subset_insert [of w "CODEWORK_MAP ! n" v] by (auto simp: symbols_def)
    with 2 Some show ?thesis by (simp split: if_splits)
  qed
qed simp

end
