(* ===== verification/Reed_Solomon_Field.thy ===== *)
theory Reed_Solomon_Field
  imports Reed_Solomon_Digits
begin

unbundle bit_operations_syntax

text \<open>
  The arithmetic behind the address code. The symbols with exclusive or and \<open>gmult\<close> form
  a field; it is made a type \<open>gf\<close> of the library's class of fields, so that ring
  arithmetic applies. Over it the parity register divides by the generator polynomial
  and the four checks of \<open>is_codeword_valid\<close> evaluate the codeword at the generator's
  roots.
\<close>

section \<open>Laws of the tables\<close>

text \<open>Finite facts are settled by evaluation over all symbols.\<close>

lemma all_below: "(\<forall>a \<in> set [0..<n]. P a) \<Longrightarrow> a < n \<Longrightarrow> P a" for P :: "nat \<Rightarrow> bool"
  by simp

lemma GEXP_GLOG: "a < 32 \<Longrightarrow> a \<noteq> 0 \<Longrightarrow> GEXP ! (GLOG ! a) = a \<and> GLOG ! a < 31"
proof -
  have "\<forall>a \<in> set [0..<32]. a \<noteq> 0 \<longrightarrow> GEXP ! (GLOG ! a) = a \<and> GLOG ! a < 31"
    by code_simp
  then show "a < 32 \<Longrightarrow> a \<noteq> 0 \<Longrightarrow> GEXP ! (GLOG ! a) = a \<and> GLOG ! a < 31"
    by simp
qed

lemma GLOG_GEXP: "k < 31 \<Longrightarrow> GLOG ! (GEXP ! k) = k \<and> GEXP ! k \<noteq> 0 \<and> GEXP ! k < 32"
proof -
  have "\<forall>k \<in> set [0..<31]. GLOG ! (GEXP ! k) = k \<and> GEXP ! k \<noteq> 0 \<and> GEXP ! k < 32"
    by code_simp
  then show "k < 31 \<Longrightarrow> GLOG ! (GEXP ! k) = k \<and> GEXP ! k \<noteq> 0 \<and> GEXP ! k < 32"
    by simp
qed

lemma xor_below [simp]: "a < 32 \<Longrightarrow> b < 32 \<Longrightarrow> a XOR b < 32" for a b :: nat
  using take_bit_xor [of 5 a b] take_bit_nat_less_exp [of 5 "a XOR b"] by (simp add: take_bit_nat_eq_self)

lemma gmult_below [simp]: "gmult a b < 32"
  using GLOG_GEXP [of "(GLOG ! a + GLOG ! b) mod 31"] by (simp add: gmult_def)

lemma gmult_zero [simp]: "gmult 0 a = 0" "gmult a 0 = 0"
  by (simp_all add: gmult_def)

lemma gmult_commute: "gmult a b = gmult b a"
  by (simp add: gmult_def add.commute)

lemma gmult_nonzero: "a \<noteq> 0 \<Longrightarrow> b \<noteq> 0 \<Longrightarrow> gmult a b \<noteq> 0"
  using GLOG_GEXP [of "(GLOG ! a + GLOG ! b) mod 31"] by (simp add: gmult_def)

lemma GLOG_gmult: "a \<noteq> 0 \<Longrightarrow> b \<noteq> 0 \<Longrightarrow> GLOG ! gmult a b = (GLOG ! a + GLOG ! b) mod 31"
  using GLOG_GEXP [of "(GLOG ! a + GLOG ! b) mod 31"] by (simp add: gmult_def)

lemma gmult_assoc: "gmult (gmult a b) c = gmult a (gmult b c)"
proof (cases "a = 0 \<or> b = 0 \<or> c = 0")
  case False
  then have nz: "a \<noteq> 0" "b \<noteq> 0" "c \<noteq> 0" by auto
  have "gmult (gmult a b) c = GEXP ! ((GLOG ! gmult a b + GLOG ! c) mod 31)"
    using nz gmult_nonzero [of a b] by (simp add: gmult_def [of "gmult a b" c])
  also have "\<dots> = GEXP ! ((GLOG ! a + GLOG ! gmult b c) mod 31)"
    using nz by (simp add: GLOG_gmult mod_simps add.assoc)
  also have "\<dots> = gmult a (gmult b c)"
    using nz gmult_nonzero [of b c] by (simp add: gmult_def [of a "gmult b c"])
  finally show ?thesis .
qed auto

lemma gmult_one: "a < 32 \<Longrightarrow> gmult 1 a = a"
proof -
  have "\<forall>a \<in> set [0..<32]. gmult 1 a = a"
    by code_simp
  then show "a < 32 \<Longrightarrow> gmult 1 a = a"
    by simp
qed

text \<open>Multiplication by \<open>2\<close> is linear, and every other element is a power of \<open>2\<close>.\<close>

lemma gmult_two: "a < 32 \<Longrightarrow> gmult 2 a = push_bit 1 a XOR (if bit a 4 then 37 else 0)"
proof -
  have "\<forall>a \<in> set [0..<32]. gmult 2 a = push_bit 1 a XOR (if bit a 4 then 37 else 0)"
    by code_simp
  then show "a < 32 \<Longrightarrow> gmult 2 a = push_bit 1 a XOR (if bit a 4 then 37 else 0)"
    by (rule all_below)
qed

lemma gmult_two_xor: "a < 32 \<Longrightarrow> b < 32 \<Longrightarrow> gmult 2 (a XOR b) = gmult 2 a XOR gmult 2 b"
  by (simp add: gmult_two push_bit_xor bit_xor_iff xor.assoc xor.left_commute xor.commute)

lemma GEXP_Suc: "k < 30 \<Longrightarrow> GEXP ! Suc k = gmult 2 (GEXP ! k)"
proof -
  have "\<forall>k \<in> set [0..<30]. GEXP ! Suc k = gmult 2 (GEXP ! k)"
    by code_simp
  then show "k < 30 \<Longrightarrow> GEXP ! Suc k = gmult 2 (GEXP ! k)"
    by simp
qed

lemma GEXP_linear:
  "k < 31 \<Longrightarrow> a < 32 \<Longrightarrow> b < 32 \<Longrightarrow> gmult (GEXP ! k) (a XOR b) = gmult (GEXP ! k) a XOR gmult (GEXP ! k) b"
proof (induction k)
  case 0
  have "GEXP ! 0 = 1" by (simp add: GEXP_def)
  with 0 show ?case by (simp add: gmult_one [simplified])
next
  case (Suc k)
  then show ?case by (simp add: GEXP_Suc gmult_assoc gmult_two_xor)
qed

lemma gmult_xor: "c < 32 \<Longrightarrow> a < 32 \<Longrightarrow> b < 32 \<Longrightarrow> gmult c (a XOR b) = gmult c a XOR gmult c b"
  using GEXP_linear [of "GLOG ! c" a b] GEXP_GLOG [of c] by (cases "c = 0") simp_all

lemma gmult_inverse: "a < 32 \<Longrightarrow> a \<noteq> 0 \<Longrightarrow> gmult (GEXP ! (31 - GLOG ! a)) a = 1"
proof -
  have "\<forall>a \<in> set [0..<32]. a \<noteq> 0 \<longrightarrow> gmult (GEXP ! (31 - GLOG ! a)) a = 1"
    by code_simp
  then show "a < 32 \<Longrightarrow> a \<noteq> 0 \<Longrightarrow> gmult (GEXP ! (31 - GLOG ! a)) a = 1"
    by simp
qed

section \<open>The field\<close>

typedef gf = "{..<32::nat}"
  morphisms symbol gf_of
  by (rule exI [of _ 0]) simp

setup_lifting type_definition_gf

instantiation gf :: field
begin

lift_definition zero_gf :: gf is 0 by simp
lift_definition one_gf :: gf is 1 by simp
lift_definition plus_gf :: "gf \<Rightarrow> gf \<Rightarrow> gf" is "\<lambda>a b. a XOR b" by simp
lift_definition minus_gf :: "gf \<Rightarrow> gf \<Rightarrow> gf" is "\<lambda>a b. a XOR b" by simp
lift_definition uminus_gf :: "gf \<Rightarrow> gf" is "\<lambda>a. a" by simp
lift_definition times_gf :: "gf \<Rightarrow> gf \<Rightarrow> gf" is gmult by simp
lift_definition inverse_gf :: "gf \<Rightarrow> gf" is "\<lambda>a. if a = 0 then 0 else gmult 1 (GEXP ! (31 - GLOG ! a))" by simp
definition divide_gf :: "gf \<Rightarrow> gf \<Rightarrow> gf" where "divide_gf a b = a * inverse b"

instance
proof
  fix a b c :: gf
  show "a + b + c = a + (b + c)" by transfer (rule xor.assoc)
  show "a + b = b + a" by transfer (rule xor.commute)
  show "0 + a = a" by transfer simp
  show "- a + a = 0" by transfer simp
  show "a - b = a + - b" by transfer simp
  show "a * b * c = a * (b * c)" by transfer (rule gmult_assoc)
  show "a * b = b * a" by transfer (rule gmult_commute)
  show "1 * a = a" by transfer (simp add: gmult_one [simplified])
  show "(a + b) * c = a * c + b * c"
    by transfer (metis gmult_commute gmult_xor lessThan_iff)
  show "(0::gf) \<noteq> 1" by transfer simp
  show "a \<noteq> 0 \<Longrightarrow> inverse a * a = 1"
    by transfer (simp add: gmult_assoc gmult_inverse gmult_one [simplified])
  show "inverse (0::gf) = 0" by transfer simp
  show "a div b = a * inverse b" by (simp add: divide_gf_def)
qed

end

lemma gf_add_self [simp]: "a + a = 0" for a :: gf
  by transfer simp

lemma symbol_below [simp]: "symbol a < 32"
  using symbol [of a] by simp

lemma symbol_gf_of [simp]: "a < 32 \<Longrightarrow> symbol (gf_of a) = a"
  by (simp add: gf_of_inverse)

lemma gf_of_inj: "a < 32 \<Longrightarrow> b < 32 \<Longrightarrow> gf_of a = gf_of b \<longleftrightarrow> a = b"
  by (simp add: gf_of_inject)

lemma gf_of_xor: "a < 32 \<Longrightarrow> b < 32 \<Longrightarrow> gf_of (a XOR b) = gf_of a + gf_of b"
  by (metis plus_gf.rep_eq symbol_gf_of symbol_inverse)

lemma gf_of_gmult: "a < 32 \<Longrightarrow> b < 32 \<Longrightarrow> gf_of (gmult a b) = gf_of a * gf_of b"
  by (metis times_gf.rep_eq symbol_gf_of symbol_inverse)

lemma gf_of_0 [simp]: "gf_of 0 = 0"
  by (simp add: zero_gf.abs_eq)

lemma gf_of_zero: "a < 32 \<Longrightarrow> gf_of a = 0 \<longleftrightarrow> a = 0"
  by (metis symbol_gf_of symbol_inverse zero_gf.rep_eq)

section \<open>Powers of the generator\<close>

definition gen :: gf where
  "gen = gf_of 2"

lemma GEXP_below: "k < 31 \<Longrightarrow> gf_of (GEXP ! k) = gen ^ k"
proof (induction k)
  case 0
  have "GEXP ! 0 = 1" by (simp add: GEXP_def)
  then show ?case by (simp add: one_gf.abs_eq)
next
  case (Suc k)
  then show ?case
    using GLOG_GEXP [of k] by (simp add: GEXP_Suc gf_of_gmult gen_def)
qed

lemma gen_cycle: "gen ^ 31 = 1"
proof -
  have step: "GEXP ! 31 = gmult 2 (GEXP ! 30)" "GEXP ! 31 = 1" by code_simp+
  have "gf_of (gmult 2 (GEXP ! 30)) = gen * gen ^ 30"
    using GLOG_GEXP [of 30] GEXP_below [of 30] by (simp add: gf_of_gmult gen_def)
  moreover have "gf_of (gmult 2 (GEXP ! 30)) = 1"
    using step by (simp add: one_gf.abs_eq)
  moreover have "gen ^ 31 = gen * gen ^ 30"
    by (simp flip: power_Suc)
  ultimately show ?thesis by simp
qed

lemma GEXP_mod: "gf_of (GEXP ! (n mod 31)) = gen ^ n"
proof -
  have "gen ^ n = gen ^ (31 * (n div 31)) * gen ^ (n mod 31)"
    by (simp flip: power_add)
  then show ?thesis
    by (simp add: power_mult gen_cycle GEXP_below)
qed

lemma gen_power_inj: "j < 31 \<Longrightarrow> k < 31 \<Longrightarrow> gen ^ j = gen ^ k \<Longrightarrow> j = k"
  using GLOG_GEXP [of j] GLOG_GEXP [of k] gf_of_inj [of "GEXP ! j" "GEXP ! k"]
  by (metis GEXP_below)

lemma gen_nonzero: "gen ^ k \<noteq> 0"
  by (simp add: gen_def gf_of_zero)

section \<open>The four checks as evaluations\<close>

text \<open>The exponent that position \<open>p\<close> of a codeword has in the shortened code.\<close>

definition exponent :: "nat \<Rightarrow> nat" where
  "exponent p = (if p < 13 then p else p + 14)"

lemma code_positions_exponent: "code_positions = map (\<lambda>p. (exponent p, p)) [0..<17]"
  by code_simp

lemma syndrome_fold:
  assumes "symbols cw" "set ps \<subseteq> {..<length cw}" "t < 32"
  shows "fold (\<lambda>(j, pos) t. t XOR gmult (cw ! pos) (GEXP ! ((i * j) mod 31))) (map (\<lambda>p. (f p, p)) ps) t < 32 \<and>
    gf_of (fold (\<lambda>(j, pos) t. t XOR gmult (cw ! pos) (GEXP ! ((i * j) mod 31))) (map (\<lambda>p. (f p, p)) ps) t)
      = gf_of t + (\<Sum>p\<leftarrow>ps. gf_of (cw ! p) * (gen ^ f p) ^ i)"
  using assms(2,3)
proof (induction ps arbitrary: t)
  case (Cons p ps)
  have "GEXP ! (i * f p mod 31) < 32" using GLOG_GEXP [of "i * f p mod 31"] by simp
  moreover have "cw ! p < 32" using Cons.prems assms(1) by (simp add: symbols_nth)
  ultimately have "gf_of (t XOR gmult (cw ! p) (GEXP ! (i * f p mod 31))) = gf_of t + gf_of (cw ! p) * (gen ^ f p) ^ i"
    using Cons.prems by (simp add: gf_of_xor gf_of_gmult GEXP_mod mult.commute flip: power_mult)
  then show ?case
    using Cons.IH [of "t XOR gmult (cw ! p) (GEXP ! (i * f p mod 31))"] Cons.prems by (simp add: add.assoc)
qed simp

lemma syndrome_sum:
  assumes "symbols cw" "length cw = 17"
  shows "syndrome cw i < 32 \<and> gf_of (syndrome cw i) = (\<Sum>p<17. gf_of (cw ! p) * (gen ^ exponent p) ^ i)"
  using syndrome_fold [of cw "[0..<17]" 0 i exponent] assms
  by (simp add: syndrome_def code_positions_exponent interv_sum_list_conv_sum_set_nat zero_gf.abs_eq
      atLeast0LessThan del: upt.simps upt_rec_numeral flip: zero_gf.abs_eq)

lemma is_codeword_valid_iff:
  assumes "symbols cw" "length cw = 17"
  shows "is_codeword_valid cw \<longleftrightarrow>
    (\<forall>i \<in> {1..4}. (\<Sum>p<17. gf_of (cw ! p) * (gen ^ exponent p) ^ i) = 0)"
proof -
  have or_zero: "a OR b = 0 \<longleftrightarrow> a = 0 \<and> b = 0" for a b :: nat
    by (metis or_eq_0_iff)
  have "is_codeword_valid cw \<longleftrightarrow> (\<forall>i \<in> {1, 2, 3, 4}. syndrome cw i = 0)"
    by (simp add: is_codeword_valid_def or_zero upt_rec numeral_eq_Suc)
  moreover have "{1, 2, 3, 4} = {1..4::nat}" by auto
  ultimately show ?thesis
    using syndrome_sum [OF assms] gf_of_zero by metis
qed

section \<open>Distance\<close>

text \<open>A combination of \<open>n\<close> distinct non-zero elements whose first \<open>n\<close> power sums vanish has
  only zero coefficients.\<close>

lemma power_sums_zero:
  fixes X e :: "'p \<Rightarrow> 'f :: field"
  assumes "finite S"
  shows "card S \<le> n \<Longrightarrow> inj_on X S \<Longrightarrow> \<forall>p \<in> S. X p \<noteq> 0 \<Longrightarrow>
    \<forall>i \<in> {1..n}. (\<Sum>p \<in> S. e p * X p ^ i) = 0 \<Longrightarrow> \<forall>p \<in> S. e p = 0"
  using assms
proof (induction S arbitrary: e n rule: finite_induct)
  case (insert q S)
  have sums: "(\<Sum>p \<in> S. e p * X p ^ i) + e q * X q ^ i = 0" if "i \<in> {1..n}" for i
    using insert.prems(4) insert.hyps that by (simp add: add.commute)
  have "(\<Sum>p \<in> S. (e p * (X p - X q)) * X p ^ i) = 0" if i: "i \<in> {1..n - 1}" for i
  proof -
    have "(\<Sum>p \<in> S. (e p * (X p - X q)) * X p ^ i) =
        (\<Sum>p \<in> S. e p * X p ^ Suc i) - X q * (\<Sum>p \<in> S. e p * X p ^ i)"
      by (simp add: sum_distrib_left sum_subtractf [symmetric] algebra_simps)
    also have "\<dots> = ((\<Sum>p \<in> S. e p * X p ^ Suc i) + e q * X q ^ Suc i) -
        X q * ((\<Sum>p \<in> S. e p * X p ^ i) + e q * X q ^ i)"
      by (simp add: algebra_simps)
    also have "\<dots> = 0"
    proof -
      have "i \<in> {1..n}" "Suc i \<in> {1..n}" using i by auto
      then show ?thesis by (simp only: sums mult_zero_right diff_zero)
    qed
    finally show ?thesis .
  qed
  moreover have "card S \<le> n - 1" using insert.prems(1) insert.hyps by simp
  ultimately have "\<forall>p \<in> S. e p * (X p - X q) = 0"
    using insert.IH [of "n - 1" "\<lambda>p. e p * (X p - X q)"] insert.prems(2,3) by simp
  then have rest: "\<forall>p \<in> S. e p = 0"
    using insert.prems(2) insert.hyps(2) by (auto simp: inj_on_def)
  moreover have "1 \<in> {1..n}" using insert.prems(1) insert.hyps by simp
  ultimately have "e q * X q = 0" using sums [of 1] by simp
  with insert.prems(3) rest show ?case by simp
qed simp

lemma exponent_inj: "inj_on (\<lambda>p. gen ^ exponent p) {..<17}"
proof (rule inj_onI)
  fix p q :: nat
  assume pq: "p \<in> {..<17}" "q \<in> {..<17}" and eq: "gen ^ exponent p = gen ^ exponent q"
  then have "exponent p = exponent q"
    using gen_power_inj [of "exponent p" "exponent q"] by (auto simp: exponent_def)
  with pq show "p = q" by (auto simp: exponent_def split: if_splits)
qed

lemma valid_codewords_distance:
  assumes "symbols v" "length v = 17" "is_codeword_valid v"
    and "symbols w" "length w = 17" "is_codeword_valid w"
    and few: "card {p. p < 17 \<and> v ! p \<noteq> w ! p} \<le> 4"
  shows "v = w"
proof (rule nth_equalityI)
  let ?D = "{p. p < 17 \<and> v ! p \<noteq> w ! p}"
  let ?e = "\<lambda>p. gf_of (v ! p) - gf_of (w ! p)" and ?X = "\<lambda>p. gen ^ exponent p"
  have "(\<Sum>p \<in> ?D. ?e p * ?X p ^ i) = 0" if "i \<in> {1..4}" for i
  proof -
    have "(\<Sum>p \<in> ?D. ?e p * ?X p ^ i) = (\<Sum>p<17. ?e p * ?X p ^ i)"
      by (rule sum.mono_neutral_left) auto
    also have "\<dots> = (\<Sum>p<17. gf_of (v ! p) * ?X p ^ i) - (\<Sum>p<17. gf_of (w ! p) * ?X p ^ i)"
      by (simp add: sum_subtractf [symmetric] left_diff_distrib)
    finally show ?thesis
      using that assms by (simp add: is_codeword_valid_iff)
  qed
  then have "\<forall>p \<in> ?D. ?e p = 0"
    using power_sums_zero [of ?D 4 ?X ?e] few exponent_inj gen_nonzero
    by (auto intro: inj_on_subset)
  moreover have "?e p = 0 \<longleftrightarrow> v ! p = w ! p" if "p < 17" for p
    using that assms by (simp add: gf_of_inj symbols_nth)
  ultimately have "?D = {}" by auto
  then show "\<And>i. i < length v \<Longrightarrow> v ! i = w ! i" using assms(2) by auto
qed (use assms in simp)

section \<open>The parity register\<close>

fun poly_at :: "gf \<Rightarrow> gf list \<Rightarrow> gf" where
  "poly_at x [] = 0"
| "poly_at x (c # cs) = c + x * poly_at x cs"

lemma poly_at_sum: "poly_at x cs = (\<Sum>j<length cs. cs ! j * x ^ j)"
proof (induction cs)
  case (Cons c cs)
  then show ?case
    by (simp add: sum.lessThan_Suc_shift sum_distrib_left algebra_simps del: sum.lessThan_Suc)
qed simp

text \<open>The generator polynomial \<open>x\<^sup>4 + 30 x\<^sup>3 + 6 x\<^sup>2 + 9 x + 17\<close> vanishes at the first four powers.\<close>

lemma generator_roots:
  assumes "i \<in> {1..4}" and x: "x = gen ^ i"
  shows "poly_at x [gf_of 17, gf_of 9, gf_of 6, gf_of 30] = x ^ 4"
proof -
  let ?g = "\<lambda>a. 17 XOR gmult a (9 XOR gmult a (6 XOR gmult a 30))"
  have "\<forall>i \<in> set [1..<5]. ?g (GEXP ! i) = gmult (GEXP ! i) (gmult (GEXP ! i) (gmult (GEXP ! i) (GEXP ! i)))"
    by code_simp
  then have "?g (GEXP ! i) = gmult (GEXP ! i) (gmult (GEXP ! i) (gmult (GEXP ! i) (GEXP ! i)))"
    using assms by simp
  then have "gf_of (?g (GEXP ! i)) = gf_of (gmult (GEXP ! i) (gmult (GEXP ! i) (gmult (GEXP ! i) (GEXP ! i))))"
    by simp
  moreover have "GEXP ! i < 32" "gf_of (GEXP ! i) = x"
    using assms GLOG_GEXP [of i] GEXP_below [of i] by auto
  moreover have "x ^ 4 = x * (x * (x * x))"
    by (simp add: numeral_eq_Suc)
  ultimately show ?thesis
    by (simp add: gf_of_xor gf_of_gmult)
qed

definition register :: "nat \<times> nat \<times> nat \<times> nat \<Rightarrow> nat list" where
  "register = (\<lambda>(p0, p1, p2, p3). [p0, p1, p2, p3])"

lemma parity_Cons: "parity (c # cs) = parity_step c (parity cs)"
  by (simp add: parity_def)

lemma parity_step_eval:
  assumes root: "poly_at x [gf_of 17, gf_of 9, gf_of 6, gf_of 30] = x ^ 4"
    and "symbols (register p)" "c < 32"
  shows "symbols (register (parity_step c p)) \<and>
    poly_at x (map gf_of (register (parity_step c p))) = gf_of c * x ^ 4 + x * poly_at x (map gf_of (register p))"
proof -
  obtain p0 p1 p2 p3 where p: "p = (p0, p1, p2, p3)" by (cases p)
  have below: "p0 < 32" "p1 < 32" "p2 < 32" "p3 < 32"
    using assms(2) by (simp_all add: p symbols_def register_def)
  let ?f = "gf_of c + gf_of p3"
  have "poly_at x (map gf_of (register (parity_step c p))) =
      ?f * poly_at x [gf_of 17, gf_of 9, gf_of 6, gf_of 30] + x * poly_at x [gf_of p0, gf_of p1, gf_of p2]"
    using below assms(3)
    by (simp add: p parity_step_def register_def gf_of_xor gf_of_gmult Let_def algebra_simps)
  also have "\<dots> = gf_of c * x ^ 4 + gf_of p3 * x ^ 4 + x * poly_at x [gf_of p0, gf_of p1, gf_of p2]"
    unfolding root by (simp add: algebra_simps)
  also have "\<dots> = gf_of c * x ^ 4 + x * poly_at x (map gf_of (register p))"
    by (simp add: p register_def algebra_simps numeral_eq_Suc)
  finally show ?thesis
    using below assms(3) by (simp add: p parity_step_def register_def symbols_def Let_def)
qed

lemma parity_eval:
  assumes root: "poly_at x [gf_of 17, gf_of 9, gf_of 6, gf_of 30] = x ^ 4" and "symbols cs"
  shows "symbols (register (parity cs)) \<and>
    poly_at x (map gf_of (register (parity cs))) = x ^ 4 * poly_at x (map gf_of cs)"
  using assms(2)
proof (induction cs)
  case Nil
  then show ?case by (simp add: parity_def register_def symbols_def)
next
  case (Cons c cs)
  then show ?case
    using parity_step_eval [OF root, of "parity cs" c]
    by (simp add: parity_Cons symbols_def algebra_simps)
qed

lemma with_parity_register: "with_parity cs = cs @ register (parity cs)"
  by (simp add: with_parity_def register_def split: prod.split)

lemma length_with_parity [simp]: "length (with_parity cs) = length cs + 4"
  by (simp add: with_parity_def split: prod.split)

lemma take_with_parity [simp]: "length cs = 13 \<Longrightarrow> take 13 (with_parity cs) = cs"
  by (simp add: with_parity_register)

lemma symbols_with_parity: "symbols cs \<Longrightarrow> symbols (with_parity cs)"
  using parity_eval [of "gen ^ 1" cs] generator_roots [of 1 "gen ^ 1"]
  by (auto simp: with_parity_register symbols_def)

lemma with_parity_valid:
  assumes cs: "symbols cs" "length cs = 13"
  shows "is_codeword_valid (with_parity cs)"
proof -
  let ?w = "with_parity cs" and ?r = "register (parity cs)"
  have "(\<Sum>p<17. gf_of (?w ! p) * (gen ^ exponent p) ^ i) = 0" if i: "i \<in> {1..4}" for i
  proof -
    let ?x = "gen ^ i"
    have pow: "(gen ^ exponent p) ^ i = ?x ^ exponent p" for p
      by (simp add: mult.commute flip: power_mult)
    have lr: "length ?r = 4" by (simp add: register_def split: prod.split)
    have "(\<Sum>p<17. gf_of (?w ! p) * (gen ^ exponent p) ^ i) =
        (\<Sum>p<13. gf_of (?w ! p) * ?x ^ exponent p) + (\<Sum>p\<in>{13..<13+4}. gf_of (?w ! p) * ?x ^ exponent p)"
      by (simp add: pow lessThan_atLeast0 sum.atLeastLessThan_concat)
    also have "(\<Sum>p<13. gf_of (?w ! p) * ?x ^ exponent p) = poly_at ?x (map gf_of cs)"
      using cs by (simp add: poly_at_sum with_parity_register nth_append exponent_def)
    also have "(\<Sum>p\<in>{13..<13+4}. gf_of (?w ! p) * ?x ^ exponent p) = (\<Sum>m<4. gf_of (?r ! m) * ?x ^ (27 + m))"
      using sum.shift_bounds_nat_ivl [of "\<lambda>p. gf_of (?w ! p) * ?x ^ exponent p" 0 13 4] cs
      by (simp add: with_parity_register nth_append exponent_def lessThan_atLeast0 add.commute)
    also have "\<dots> = ?x ^ 27 * poly_at ?x (map gf_of ?r)"
      using lr by (simp add: poly_at_sum sum_distrib_left power_add algebra_simps)
    also have "\<dots> = ?x ^ 31 * poly_at ?x (map gf_of cs)"
      using parity_eval [OF generator_roots [OF i refl] cs(1)] by (simp add: mult.assoc [symmetric] flip: power_add)
    also have "?x ^ 31 = 1"
      by (metis gen_cycle power_commutes power_mult power_one mult.commute)
    finally show ?thesis by simp
  qed
  then show ?thesis
    using symbols_with_parity [OF cs(1)] cs(2) by (simp add: is_codeword_valid_iff)
qed

end
