(* ===== verification/Reed_Solomon_Properties.thy ===== *)
theory Reed_Solomon_Properties
  imports Reed_Solomon_Field
begin

unbundle bit_operations_syntax

text \<open>
  Properties of the account addresses: the field arithmetic, the parity symbols and the
  errors they detect, the round trip between numbers and addresses, and what \<open>decode\<close>
  accepts.
\<close>

section \<open>Multiplication\<close>

text \<open>Reference: shift and add, reducing by \<open>x\<^sup>5 + x\<^sup>2 + 1\<close>, on \<open>k\<close> bits of the second factor.\<close>

definition shift_reduce :: "nat \<Rightarrow> nat" where
  "shift_reduce a = push_bit 1 a XOR (if bit a 4 then 37 else 0)"

fun shift_add :: "nat \<Rightarrow> nat \<Rightarrow> nat \<Rightarrow> nat" where
  "shift_add 0 a b = 0"
| "shift_add (Suc k) a b = (if odd b then a else 0) XOR shift_reduce (shift_add k a (b div 2))"

lemma shift_add_gmult: "a < 32 \<Longrightarrow> k \<le> 5 \<Longrightarrow> b < 2 ^ k \<Longrightarrow> shift_add k a b = gmult a b"
proof (induction k arbitrary: b)
  case (Suc k)
  have half: "b div 2 < 2 ^ k" using Suc.prems by simp
  have "(2::nat) ^ k \<le> 2 ^ 4" using Suc.prems by (intro power_increasing) auto
  with half have small: "b div 2 < 16" by simp
  have "gmult 2 (b div 2) = 2 * (b div 2)"
  proof -
    have "\<not> bit (b div 2) 4" using small by (simp add: bit_iff_odd)
    then show ?thesis using small gmult_two [of "b div 2"] by (simp add: push_bit_eq_mult)
  qed
  moreover have "b = b mod 2 XOR 2 * (b div 2)"
  proof -
    have "1 XOR 2 * m = 1 + 2 * m" for m :: nat by (simp only: one_xor_eq) simp
    then have "b mod 2 XOR 2 * (b div 2) = b mod 2 + 2 * (b div 2)"
      by (metis not_mod_2_eq_1_eq_0 xor.left_neutral add_0)
    then show ?thesis by simp
  qed
  ultimately have "gmult a b = gmult a (b mod 2) XOR gmult a (gmult 2 (b div 2))"
    using gmult_xor [of a "b mod 2" "gmult 2 (b div 2)"] Suc.prems(1) small
    by (simp add: less_le_trans [of "b mod 2" 2 32])
  also have "gmult a (gmult 2 (b div 2)) = shift_reduce (gmult a (b div 2))"
    using gmult_two [of "gmult a (b div 2)"] by (simp add: shift_reduce_def gmult_assoc [symmetric] gmult_commute [of a 2])
  also have "gmult a (b mod 2) = (if odd b then a else 0)"
    using Suc.prems(1) gmult_one [of a] gmult_commute [of 1 a] by (auto simp: odd_iff_mod_2_eq_one)
  finally show ?case using Suc half by simp
qed (simp)

text \<open>C26. The logarithm tables multiply in the field with 32 elements: \<open>gmult\<close> is the product of
  polynomials over the field with two elements modulo \<open>x\<^sup>5 + x\<^sup>2 + 1\<close>.\<close>

theorem gmult_polynomial_product:
  assumes "a < 32" "b < 32"
  shows "gmult a b = shift_add 5 a b"
  using shift_add_gmult [of a 5 b] assms by simp

theorem gmult_polynomial_product_witness: "gmult 17 30 = shift_add 5 17 30"
  by (rule gmult_polynomial_product) simp_all

section \<open>Parity symbols\<close>

lemma card_filter_upt: "card {p. p < n \<and> P p} = length (filter P [0..<n])"
  using distinct_card [of "filter P [0..<n]"] by (simp add: conj_commute)

lemma nth_update_other: "xs ! p \<noteq> xs[i := v] ! p \<Longrightarrow> p = i"
  by (cases "p = i") simp_all

text \<open>C27. The four parity symbols make a codeword that \<open>is_codeword_valid\<close> accepts, for any 13 data
  symbols, and any other word that differs from it in at most four of its 17 symbols is rejected.\<close>

theorem parity_detects_four_errors:
  assumes "symbols data" "length data = 13"
    and "symbols w" "length w = 17" "w \<noteq> with_parity data"
    and "length (filter (\<lambda>p. with_parity data ! p \<noteq> w ! p) [0..<17]) \<le> 4"
  shows "is_codeword_valid (with_parity data) \<and> \<not> is_codeword_valid w"
  using with_parity_valid [of data] symbols_with_parity [of data] assms
    valid_codewords_distance [of "with_parity data" w]
    card_filter_upt [of 17 "\<lambda>p. with_parity data ! p \<noteq> w ! p"]
  by auto

theorem parity_detects_four_errors_witness:
  "is_codeword_valid (with_parity [1, 0, 0, 0, 0, 0, 0, 0, 0, 0, 0, 0, 0]) \<and>
   \<not> is_codeword_valid [2, 0, 0, 0, 0, 0, 0, 0, 0, 0, 0, 0, 0, 16, 8, 6, 31]"
proof (rule parity_detects_four_errors)
  let ?v = "with_parity [1, 0, 0, 0, 0, 0, 0, 0, 0, 0, 0, 0, 0]"
    and ?w = "[2, 0, 0, 0, 0, 0, 0, 0, 0, 0, 0, 0, 0, 16, 8, 6, 31]"
  show "?w \<noteq> ?v" "length (filter (\<lambda>p. ?v ! p \<noteq> ?w ! p) [0..<17]) \<le> 4" by code_simp+
qed (simp_all add: symbols_def)

section \<open>Addresses and numbers\<close>

text \<open>The codeword of a number: its digits in base 32, least significant first, padded to 13 symbols,
  and their parity.\<close>

lemma encode_codeword:
  assumes "0 \<le> n" "n < 2 ^ 63"
  obtains data where "symbols data" "length data = 13" "little_end 32 (map int data) = n"
    "encode n = Some (print_codeword (with_parity data))"
proof -
  let ?ds = "map (\<lambda>c. of_char c - 48) (decimal n)"
  have "n < 32 ^ 13" using assms by simp
  then obtain cs where cs: "convert_base 10 32 17 ?ds = Some cs" "digits 32 cs" "length cs \<le> 13" "little_end 32 cs = n"
    using convert_base_correct [of 32 10 ?ds 13 17] decimal_value [OF assms(1)] by auto
  define pad where "pad = cs @ replicate (13 - length cs) 0"
  have pad: "take 13 (cs @ replicate 17 0) = pad" "length pad = 13" "little_end 32 pad = n" "digits 32 pad"
    using cs by (auto simp: pad_def digits_def)
  have ints: "map int (map nat pad) = pad"
    using pad(4) by (intro nth_equalityI) (auto simp: digits_def)
  show thesis
  proof (rule that [of "map nat pad"])
    show "symbols (map nat pad)" using pad(4) by (auto simp: symbols_def digits_def)
    show "encode n = Some (print_codeword (with_parity (map nat pad)))"
      using assms cs(1) pad(1,4) by (simp add: encode_def to_string_def digits_def)
  qed (use pad ints in simp_all)
qed

text \<open>Decoding a string of 17 symbols reads the first 13 of them as a number and never fails.\<close>

lemma convert_codeword:
  assumes "symbols w" "length w = 17"
  shows "map_option (\<lambda>ds. to_long (big_int ds)) (convert_base 32 10 20 (map int (rev (take 13 w)))) =
    Some (to_long (little_end 32 (map int (take 13 w))))"
proof -
  let ?ds = "map int (take 13 w)"
  have ds: "digits 32 ?ds" "length ?ds = 13"
    using assms by (auto simp: digits_def symbols_def dest: in_set_takeD)
  then have "little_end 32 ?ds < 10 ^ 20"
    using little_end_bound [of 32 ?ds] by simp
  moreover have "digits 32 (rev ?ds)" using ds(1) by (simp add: digits_def)
  ultimately obtain cs where "convert_base 32 10 20 (rev ?ds) = Some cs" "little_end 10 cs = little_end 32 ?ds"
    using convert_base_correct [of 10 32 "rev ?ds" 20 20] by (auto simp: big_end_rev simp del: rev_map)
  then show ?thesis
    by (simp add: rev_map [symmetric] big_int_little_end)
qed

lemma decode_print_codeword:
  assumes "symbols w" "length w = 17"
  shows "decode (print_codeword w) = Some (to_long (little_end 32 (map int (take 13 w))))"
  using assms read_print_codeword [OF assms] convert_codeword [OF assms] by (simp add: decode_def)

text \<open>C28. Every non-negative account number has an address, printed from a codeword that
  \<open>is_codeword_valid\<close> accepts, and \<open>decode\<close> gives the number back.\<close>

theorem encode_decode_roundtrip:
  assumes "0 \<le> n" "n < 2 ^ 63"
  shows "\<exists>w. length w = 17 \<and> is_codeword_valid w \<and> encode n = Some (print_codeword w)
    \<and> decode (print_codeword w) = Some n"
proof -
  obtain data where data: "symbols data" "length data = 13" "little_end 32 (map int data) = n"
    "encode n = Some (print_codeword (with_parity data))"
    using encode_codeword [OF assms] .
  have "decode (print_codeword (with_parity data)) = Some n"
    using data(1-3) assms(2) decode_print_codeword [of "with_parity data"] symbols_with_parity [OF data(1)]
    by (simp add: to_long_def)
  then show ?thesis
    using data with_parity_valid [OF data(1,2)] by (intro exI [of _ "with_parity data"]) simp
qed

theorem encode_decode_roundtrip_witness:
  "\<exists>w. length w = 17 \<and> is_codeword_valid w \<and> encode 8264278205416377583 = Some (print_codeword w)
    \<and> decode (print_codeword w) = Some 8264278205416377583"
  by (rule encode_decode_roundtrip) simp_all

text \<open>Addresses with a prefix: when the prefix has no dash, \<open>decodeWithPrefix\<close> gives back the number
  that \<open>encodeWithPrefix\<close> was given, and with any other prefix the address is refused.\<close>

lemma prefix_roundtrip:
  assumes "0 \<le> n" "n < 2 ^ 63" "CHR ''-'' \<notin> set pre"
  shows "\<exists>s. encodeWithPrefix pre n = Some s \<and> decodeWithPrefix pre s = Some n
    \<and> (\<forall>other. other \<noteq> pre \<longrightarrow> decodeWithPrefix other s = None)"
proof -
  obtain data where data: "symbols data" "length data = 13" "little_end 32 (map int data) = n"
    "encode n = Some (print_codeword (with_parity data))"
    using encode_codeword [OF assms(1,2)] .
  have "decode (print_codeword (with_parity data)) = Some n"
    using data(1-3) assms(2) decode_print_codeword [of "with_parity data"] symbols_with_parity [OF data(1)]
    by (simp add: to_long_def)
  moreover have "index_of (CHR ''-'') (pre @ CHR ''-'' # cs) = Some (length pre)" for cs
    using assms(3) by (induction pre) auto
  ultimately show ?thesis
    using data(4) by (auto simp: encodeWithPrefix_def decodeWithPrefix_def)
qed

section \<open>What is accepted\<close>

text \<open>The symbols of a string, and the codeword that they give: the place \<open>p\<close> of the codeword is filled by the symbol whose
  number is the position of \<open>p\<close> in the permutation, and keeps the initial value if there are fewer symbols.\<close>

definition address_symbols :: "string \<Rightarrow> nat list" where
  "address_symbols s = map (\<lambda>c. the (index_of c ALPAHBET)) (filter (\<lambda>c. c \<in> set ALPAHBET) s)"

definition symbol_number :: "nat \<Rightarrow> nat" where
  "symbol_number p = length (takeWhile (\<lambda>q. q \<noteq> p) CODEWORK_MAP)"

definition placed :: "nat list \<Rightarrow> nat list" where
  "placed vs = map (\<lambda>p. let i = symbol_number p in if i < length vs then vs ! i else INITIAL_CODEWORD ! p) [0..<17]"

fun place :: "nat list \<Rightarrow> nat \<Rightarrow> nat list \<Rightarrow> nat list" where
  "place w n [] = w"
| "place w n (v # vs) = place (w[CODEWORK_MAP ! n := v]) (Suc n) vs"

lemma index_of_None: "index_of c xs = None \<longleftrightarrow> c \<notin> set xs"
  by (induction xs) auto

lemma address_symbols_simps:
  "address_symbols [] = []"
  "index_of c ALPAHBET = None \<Longrightarrow> address_symbols (c # cs) = address_symbols cs"
  "index_of c ALPAHBET = Some v \<Longrightarrow> address_symbols (c # cs) = v # address_symbols cs"
  using index_of_None [of c ALPAHBET] by (auto simp: address_symbols_def)

lemma read_symbols_place:
  "n \<le> 17 \<Longrightarrow> read_symbols s w n =
    (let vs = address_symbols s in if n + length vs \<le> 17 then Some (place w n vs, n + length vs) else None)"
proof (induction s w n rule: read_symbols.induct)
  case (2 c cs w n)
  then show ?case by (cases "index_of c ALPAHBET") (auto simp: address_symbols_simps Let_def not_le)
qed (simp add: address_symbols_simps)

lemma symbol_numbers:
  assumes "p < 17" "n < 17"
  shows "CODEWORK_MAP ! n = p \<longleftrightarrow> symbol_number p = n" "symbol_number p < 17"
proof -
  have "\<forall>n \<in> {..<17}. symbol_number (CODEWORK_MAP ! n) = n" "\<forall>p \<in> {..<17}. symbol_number p < 17 \<and> CODEWORK_MAP ! symbol_number p = p"
    by (simp_all add: symbol_number_def CODEWORK_MAP_def lessThan_nat_numeral numeral_eq_Suc lessThan_Suc)
  then show "CODEWORK_MAP ! n = p \<longleftrightarrow> symbol_number p = n" "symbol_number p < 17" using assms by auto
qed

lemma place_nth:
  assumes "n + length vs \<le> 17" "length w = 17" "p < 17"
  shows "length (place w n vs) = 17 \<and> place w n vs ! p =
    (let i = symbol_number p in if n \<le> i \<and> i < n + length vs then vs ! (i - n) else w ! p)"
  using assms
proof (induction vs arbitrary: w n)
  case (Cons v vs)
  then have "CODEWORK_MAP ! n = p \<longleftrightarrow> symbol_number p = n" using symbol_numbers(1) by simp
  then show ?case using Cons.IH [of "Suc n" "w[CODEWORK_MAP ! n := v]"] Cons.prems
    by (auto simp: Let_def nth_list_update nth_Cons' Suc_diff_Suc)
qed (simp add: Let_def)

lemma place_placed: "length vs \<le> 17 \<Longrightarrow> place INITIAL_CODEWORD 0 vs = placed vs"
proof (rule nth_equalityI)
  assume vs: "length vs \<le> 17"
  have "length INITIAL_CODEWORD = 17" by (simp add: INITIAL_CODEWORD_def)
  then have p: "length (place INITIAL_CODEWORD 0 vs) = 17 \<and> place INITIAL_CODEWORD 0 vs ! p =
      (let i = symbol_number p in if i < length vs then vs ! i else INITIAL_CODEWORD ! p)" if "p < 17" for p
    using place_nth [of 0 vs INITIAL_CODEWORD p] vs that by (simp add: Let_def)
  then have len: "length (place INITIAL_CODEWORD 0 vs) = 17" using zero_less_numeral by blast
  then show "length (place INITIAL_CODEWORD 0 vs) = length (placed vs)" by (simp add: placed_def)
  show "place INITIAL_CODEWORD 0 vs ! i = placed vs ! i" if "i < length (place INITIAL_CODEWORD 0 vs)" for i
    using p [of i] that len by (simp add: placed_def Let_def)
qed

text \<open>A codeword is valid exactly if its last four symbols are the parity of the others.\<close>

lemma valid_iff_parity:
  assumes "symbols w" "length w = 17"
  shows "is_codeword_valid w \<longleftrightarrow> w = with_parity (take 13 w)"
proof
  have t: "symbols (take 13 w)" "length (take 13 w) = 13" using assms by (auto simp: symbols_def dest: in_set_takeD)
  have len: "length (with_parity (take 13 w)) = 17" using t(2) by (simp add: with_parity_def split: prod.split)
  show "is_codeword_valid w" if "w = with_parity (take 13 w)" using with_parity_valid [OF t] that by simp
  assume v: "is_codeword_valid w"
  have "with_parity (take 13 w) ! p = w ! p" if "p < 13" for p
    using that t(2) by (simp add: with_parity_def nth_append split: prod.split)
  then have "{p. p < 17 \<and> w ! p \<noteq> with_parity (take 13 w) ! p} \<subseteq> {13..<17}" by (auto simp: not_less) (metis not_less)
  from card_mono [OF _ this] have "card {p. p < 17 \<and> w ! p \<noteq> with_parity (take 13 w) ! p} \<le> 4" by simp
  then show "w = with_parity (take 13 w)"
    by (rule valid_codewords_distance [OF assms v symbols_with_parity [OF t(1)] len with_parity_valid [OF t]])
qed

text \<open>C30. What \<open>decode\<close> accepts. Characters outside the alphabet are skipped. A string with more than 17 symbols throws; with
  fewer, the symbols that are missing count as those of the initial codeword, and the string throws unless the last four
  symbols of the codeword are the parity of the first 13; with exactly 17 the parity is not checked, so that every such
  string, whatever its parity symbols, decodes. The result is the number that the 13 data symbols write in base 32, at most
  the greatest \<open>long\<close>.\<close>

theorem decode_accepts:
  "decode s = (let vs = address_symbols s; w = placed vs
    in if length vs > 17 \<or> length vs < 17 \<and> w \<noteq> with_parity (take 13 w) then None
       else Some (min (little_end 32 (map int (take 13 w))) (2 ^ 63 - 1)))"
proof (cases "length (address_symbols s) \<le> 17")
  case False
  then show ?thesis by (simp add: decode_def read_symbols_place)
next
  case True
  let ?w = "placed (address_symbols s)" and ?n = "length (address_symbols s)"
  have r: "read_symbols s INITIAL_CODEWORD 0 = Some (?w, ?n)" using True by (simp add: read_symbols_place place_placed Let_def)
  have w: "symbols ?w" "length ?w = 17"
    using read_symbols_codeword [OF r] by (auto simp: INITIAL_CODEWORD_def symbols_def)
  show ?thesis
    using True r convert_codeword [OF w] valid_iff_parity [OF w] by (auto simp: decode_def to_long_def Let_def)
qed

text \<open>C31. Typing errors are not noticed: changing any one symbol of an address gives a codeword that
  \<open>is_codeword_valid\<close> rejects, and \<open>decode\<close> still returns a number, that of the changed data symbols.\<close>

theorem decode_misses_errors:
  assumes "symbols data" "length data = 13" "i < 17" "v < 32" "v \<noteq> with_parity data ! i"
  shows "let w = (with_parity data)[i := v]
    in \<not> is_codeword_valid w \<and>
       decode (print_codeword w) = Some (min (little_end 32 (map int (take 13 w))) (2 ^ 63 - 1))"
proof -
  let ?w = "(with_parity data)[i := v]"
  have w: "symbols ?w" "length ?w = 17"
    using assms symbols_with_parity [OF assms(1)] set_update_subset_insert [of "with_parity data" i v]
    by (auto simp: symbols_def)
  have "{p. p < 17 \<and> with_parity data ! p \<noteq> ?w ! p} \<subseteq> {i}"
    by (auto dest: nth_update_other)
  from card_mono [OF _ this] have "card {p. p < 17 \<and> with_parity data ! p \<noteq> ?w ! p} \<le> 4"
    by simp
  moreover have "with_parity data \<noteq> ?w"
    using assms nth_list_update_eq [of i "with_parity data" v] by (auto simp del: nth_list_update_eq)
  ultimately have "\<not> is_codeword_valid ?w"
    using valid_codewords_distance [of "with_parity data" ?w] symbols_with_parity [OF assms(1)]
      with_parity_valid [OF assms(1,2)] assms(2) w by auto
  then show ?thesis
    using decode_print_codeword [OF w] by (simp add: to_long_def)
qed

theorem decode_misses_errors_witness:
  "let w = (with_parity [1, 0, 0, 0, 0, 0, 0, 0, 0, 0, 0, 0, 0])[0 := 2]
    in \<not> is_codeword_valid w \<and>
       decode (print_codeword w) = Some (min (little_end 32 (map int (take 13 w))) (2 ^ 63 - 1))"
  by (rule decode_misses_errors) (simp_all add: symbols_def with_parity_def split: prod.split)

end
