(* ===== verification/Predicates.thy ===== *)
theory Predicates
  imports Arguments
begin

text \<open>
  The predicate functions of CLIPS expressions, \<open>prdctfun.c\<close>, with \<open>GetNumericArgument\<close> of
  \<open>argacces.c\<close>. Functions that stop at the first deciding argument get their arguments as
  expressions, which are functions of the environment; the others get the values, as in
  \<open>Arguments\<close>. Doubles are compared by their bit patterns as IEEE 754 defines it.
\<close>

section \<open>Comparison of doubles\<close>

definition double_is_nan :: "u64 \<Rightarrow> bool" where
  "double_is_nan w \<longleftrightarrow> take_bit 11 (drop_bit 52 (uint w)) = 2047 \<and> take_bit 52 (uint w) \<noteq> 0"

text \<open>The magnitude with the sign; both zeros have the key 0.\<close>

definition double_key :: "u64 \<Rightarrow> int" where
  "double_key w = (let a = take_bit 63 (uint w) in if drop_bit 63 (uint w) = 0 then a else - a)"

definition double_less :: "u64 \<Rightarrow> u64 \<Rightarrow> bool" where
  "double_less a b \<longleftrightarrow> \<not> double_is_nan a \<and> \<not> double_is_nan b \<and> double_key a < double_key b"

definition double_eq :: "u64 \<Rightarrow> u64 \<Rightarrow> bool" where
  "double_eq a b \<longleftrightarrow> \<not> double_is_nan a \<and> \<not> double_is_nan b \<and> double_key a = double_key b"

section \<open>Numeric arguments\<close>

type_synonym expression = "env \<Rightarrow> val \<times> env"

definition GetNumericArgument ::
  "expression \<Rightarrow> string \<Rightarrow> bool \<Rightarrow> nat \<Rightarrow> env \<Rightarrow> val option \<times> env" where
  "GetNumericArgument theArgument functionName convertToFloat whichArgument e =
     (case theArgument e of (v, e1) \<Rightarrow>
        (case v of
           FLOAT w \<Rightarrow> (Some (FLOAT w), e1)
         | NAN w a \<Rightarrow> (Some (NAN w a), e1)
         | INTEGER i \<Rightarrow> (Some (if convertToFloat then FLOAT (int_to_double i) else INTEGER i), e1)
         | _ \<Rightarrow> (None, signal_error (ExpectedTypeError1 functionName whichArgument) e1)))"

text \<open>The comparison of two numbers: integers exactly, everything else as doubles; with a NaN both are false.\<close>

fun number_less :: "val \<Rightarrow> val \<Rightarrow> bool" where
  "number_less (INTEGER i) (INTEGER j) = (i < j)"
| "number_less (INTEGER i) (FLOAT b) = double_less (int_to_double i) b"
| "number_less (FLOAT a) (INTEGER j) = double_less a (int_to_double j)"
| "number_less (FLOAT a) (FLOAT b) = double_less a b"
| "number_less _ _ = False"

fun number_equal :: "val \<Rightarrow> val \<Rightarrow> bool" where
  "number_equal (INTEGER i) (INTEGER j) = (i = j)"
| "number_equal (INTEGER i) (FLOAT b) = double_eq (int_to_double i) b"
| "number_equal (FLOAT a) (INTEGER j) = double_eq a (int_to_double j)"
| "number_equal (FLOAT a) (FLOAT b) = double_eq a b"
| "number_equal _ _ = False"

section \<open>Chains of comparisons\<close>

text \<open>The loop of \<open><=\<close>, \<open>>=\<close>, \<open><\<close> and \<open>>\<close>: each argument against its predecessor; \<open>fails\<close> is the
  test that ends with \<open>FALSE\<close>.\<close>

fun compare_previous ::
  "string \<Rightarrow> (val \<Rightarrow> val \<Rightarrow> bool) \<Rightarrow> nat \<Rightarrow> val \<Rightarrow> expression list \<Rightarrow> env \<Rightarrow> bool \<times> env" where
  "compare_previous name fails pos rv1 [] e = (True, e)"
| "compare_previous name fails pos rv1 (x # xs) e =
     (case GetNumericArgument x name False pos e of
        (None, e1) \<Rightarrow> (False, e1)
      | (Some rv2, e1) \<Rightarrow>
          if fails rv1 rv2 then (False, e1) else compare_previous name fails (pos + 1) rv2 xs e1)"

text \<open>The loop of \<open>=\<close> and \<open><>\<close>: each argument against the first.\<close>

fun compare_first ::
  "string \<Rightarrow> (val \<Rightarrow> val \<Rightarrow> bool) \<Rightarrow> nat \<Rightarrow> val \<Rightarrow> expression list \<Rightarrow> env \<Rightarrow> bool \<times> env" where
  "compare_first name fails pos rv1 [] e = (True, e)"
| "compare_first name fails pos rv1 (x # xs) e =
     (case GetNumericArgument x name False pos e of
        (None, e1) \<Rightarrow> (False, e1)
      | (Some rv2, e1) \<Rightarrow>
          if fails rv1 rv2 then (False, e1) else compare_first name fails (pos + 1) rv1 xs e1)"

text \<open>The common frame: no argument at all gives \<open>TRUE\<close>.\<close>

fun compare_numbers ::
  "(nat \<Rightarrow> val \<Rightarrow> expression list \<Rightarrow> env \<Rightarrow> bool \<times> env) \<Rightarrow> string \<Rightarrow> expression list \<Rightarrow> env \<Rightarrow> bool \<times> env" where
  "compare_numbers compare_rest name [] e = (True, e)"
| "compare_numbers compare_rest name (x # xs) e =
     (case GetNumericArgument x name False 1 e of
        (None, e1) \<Rightarrow> (False, e1)
      | (Some rv1, e1) \<Rightarrow> compare_rest 2 rv1 xs e1)"

definition LessThanOrEqualFunction :: "expression list \<Rightarrow> env \<Rightarrow> bool \<times> env" where
  "LessThanOrEqualFunction =
     compare_numbers (compare_previous ''<='' (\<lambda>rv1 rv2. number_less rv2 rv1)) ''<=''"

definition GreaterThanOrEqualFunction :: "expression list \<Rightarrow> env \<Rightarrow> bool \<times> env" where
  "GreaterThanOrEqualFunction =
     compare_numbers (compare_previous ''>='' (\<lambda>rv1 rv2. number_less rv1 rv2)) ''>=''"

definition LessThanFunction :: "expression list \<Rightarrow> env \<Rightarrow> bool \<times> env" where
  "LessThanFunction =
     compare_numbers (compare_previous ''<'' (\<lambda>rv1 rv2. number_less rv2 rv1 \<or> number_equal rv1 rv2)) ''<''"

definition GreaterThanFunction :: "expression list \<Rightarrow> env \<Rightarrow> bool \<times> env" where
  "GreaterThanFunction =
     compare_numbers (compare_previous ''>'' (\<lambda>rv1 rv2. number_less rv1 rv2 \<or> number_equal rv1 rv2)) ''>''"

definition NumericEqualFunction :: "expression list \<Rightarrow> env \<Rightarrow> bool \<times> env" where
  "NumericEqualFunction =
     compare_numbers (compare_first ''='' (\<lambda>rv1 rv2. \<not> number_equal rv1 rv2)) ''=''"

definition NumericNotEqualFunction :: "expression list \<Rightarrow> env \<Rightarrow> bool \<times> env" where
  "NumericNotEqualFunction =
     compare_numbers (compare_first ''<>'' (\<lambda>rv1 rv2. number_equal rv1 rv2)) ''<>''"

section \<open>Equality of values\<close>

text \<open>The code compares the addresses of the nodes, which are equal exactly if the values are.\<close>

fun eq_loop :: "val \<Rightarrow> expression list \<Rightarrow> env \<Rightarrow> bool \<times> env" where
  "eq_loop item [] e = (True, e)"
| "eq_loop item (x # xs) e =
     (case x e of (nextItem, e1) \<Rightarrow> if nextItem \<noteq> item then (False, e1) else eq_loop item xs e1)"

fun EqFunction :: "expression list \<Rightarrow> env \<Rightarrow> bool \<times> env" where
  "EqFunction [] e = (False, e)"
| "EqFunction (x # xs) e = (case x e of (item, e1) \<Rightarrow> eq_loop item xs e1)"

fun neq_loop :: "val \<Rightarrow> expression list \<Rightarrow> env \<Rightarrow> bool \<times> env" where
  "neq_loop item [] e = (True, e)"
| "neq_loop item (x # xs) e =
     (case x e of (nextItem, e1) \<Rightarrow> if nextItem = item then (False, e1) else neq_loop item xs e1)"

fun NeqFunction :: "expression list \<Rightarrow> env \<Rightarrow> bool \<times> env" where
  "NeqFunction [] e = (False, e)"
| "NeqFunction (x # xs) e = (case x e of (item, e1) \<Rightarrow> neq_loop item xs e1)"

section \<open>Boolean functions\<close>

abbreviation FalseSymbol :: val where "FalseSymbol \<equiv> SYMBOL ''FALSE''"

text \<open>\<open>EvaluateExpression\<close> returns the evaluation error flag; an error ends the function with \<open>FALSE\<close>.\<close>

fun NotFunction :: "expression list \<Rightarrow> env \<Rightarrow> bool \<times> env" where
  "NotFunction [] e = (False, e)"
| "NotFunction (x # xs) e =
     (case x e of (result, e1) \<Rightarrow> if EvaluationError e1 then (False, e1) else (result = FalseSymbol, e1))"

fun AndFunction :: "expression list \<Rightarrow> env \<Rightarrow> bool \<times> env" where
  "AndFunction [] e = (True, e)"
| "AndFunction (x # xs) e =
     (case x e of (result, e1) \<Rightarrow>
        if EvaluationError e1 then (False, e1)
        else if result = FalseSymbol then (False, e1) else AndFunction xs e1)"

fun OrFunction :: "expression list \<Rightarrow> env \<Rightarrow> bool \<times> env" where
  "OrFunction [] e = (False, e)"
| "OrFunction (x # xs) e =
     (case x e of (result, e1) \<Rightarrow>
        if EvaluationError e1 then (False, e1)
        else if result \<noteq> FalseSymbol then (True, e1) else OrFunction xs e1)"

section \<open>Type tests\<close>

text \<open>The frame of the type tests; \<open>EnvRtnUnknown\<close> gives the value of the argument.\<close>

definition type_test :: "string \<Rightarrow> arg_type list \<Rightarrow> val list \<Rightarrow> env \<Rightarrow> bool \<times> env" where
  "type_test name types args e =
     (case EnvArgCountCheck name EXACTLY 1 args e of (n, e1) \<Rightarrow>
        if n = - 1 then (False, e1) else (type_of (args ! 0) \<in> set types, e1))"

definition StringpFunction :: "val list \<Rightarrow> env \<Rightarrow> bool \<times> env" where
  "StringpFunction = type_test ''stringp'' [ty_STRING]"

definition SymbolpFunction :: "val list \<Rightarrow> env \<Rightarrow> bool \<times> env" where
  "SymbolpFunction = type_test ''symbolp'' [ty_SYMBOL]"

definition LexemepFunction :: "val list \<Rightarrow> env \<Rightarrow> bool \<times> env" where
  "LexemepFunction = type_test ''lexemep'' [ty_SYMBOL, ty_STRING]"

definition NumberpFunction :: "val list \<Rightarrow> env \<Rightarrow> bool \<times> env" where
  "NumberpFunction = type_test ''numberp'' [ty_FLOAT, ty_INTEGER]"

definition FloatpFunction :: "val list \<Rightarrow> env \<Rightarrow> bool \<times> env" where
  "FloatpFunction = type_test ''floatp'' [ty_FLOAT]"

definition IntegerpFunction :: "val list \<Rightarrow> env \<Rightarrow> bool \<times> env" where
  "IntegerpFunction = type_test ''integerp'' [ty_INTEGER]"

definition MultifieldpFunction :: "val list \<Rightarrow> env \<Rightarrow> bool \<times> env" where
  "MultifieldpFunction = type_test ''multifieldp'' [ty_MULTIFIELD]"

definition PointerpFunction :: "val list \<Rightarrow> env \<Rightarrow> bool \<times> env" where
  "PointerpFunction = type_test ''pointerp'' [ty_EXTERNAL_ADDRESS]"

text \<open>\<open>num / 2 * 2\<close> with C's division, which rounds towards zero.\<close>

definition halfnum :: "int \<Rightarrow> int" where
  "halfnum num = (if num < 0 then - (- num div 2) else num div 2) * 2"

definition parity_test :: "string \<Rightarrow> (int \<Rightarrow> bool) \<Rightarrow> val list \<Rightarrow> env \<Rightarrow> bool \<times> env" where
  "parity_test name test args e =
     (case EnvArgCountCheck name EXACTLY 1 args e of (n, e1) \<Rightarrow>
        if n = - 1 then (False, e1)
        else (case EnvArgTypeCheck name 1 ty_INTEGER args e1 of
                (Some (INTEGER num), e2) \<Rightarrow> (test num, e2)
              | (_, e2) \<Rightarrow> (False, e2)))"

definition OddpFunction :: "val list \<Rightarrow> env \<Rightarrow> bool \<times> env" where
  "OddpFunction = parity_test ''oddp'' (\<lambda>num. num \<noteq> halfnum num)"

definition EvenpFunction :: "val list \<Rightarrow> env \<Rightarrow> bool \<times> env" where
  "EvenpFunction = parity_test ''evenp'' (\<lambda>num. num = halfnum num)"

section \<open>Facts\<close>

text \<open>A constant as an expression.\<close>

definition const_expr :: "val \<Rightarrow> expression" where
  "const_expr v e = (v, e)"

lemma GetNumericArgument_integer [simp]:
  "GetNumericArgument (const_expr (INTEGER i)) name False pos e = (Some (INTEGER i), e)"
  by (simp add: GetNumericArgument_def const_expr_def)

lemma halfnum_parity: "num = halfnum num \<longleftrightarrow> even num"
  by (auto simp: halfnum_def) presburger+

text \<open>On integers a chain of comparisons tests that the arguments are ordered.\<close>

lemma compare_previous_integers:
  "(\<And>i j. fails (INTEGER i) (INTEGER j) \<longleftrightarrow> \<not> R i j) \<Longrightarrow> transp R \<Longrightarrow>
    compare_previous name fails pos (INTEGER i) (map (\<lambda>i. const_expr (INTEGER i)) is) e =
      (sorted_wrt R (i # is), e)"
proof (induction "is" arbitrary: i pos)
  case (Cons j js)
  have "sorted_wrt R (i # j # js) \<longleftrightarrow> R i j \<and> sorted_wrt R (j # js)"
    using Cons.prems(2) by (auto dest: transpD)
  then show ?case using Cons by simp
qed simp

lemma compare_first_integers:
  "(\<And>i j. fails (INTEGER i) (INTEGER j) \<longleftrightarrow> \<not> R i j) \<Longrightarrow>
    compare_first name fails pos (INTEGER i) (map (\<lambda>i. const_expr (INTEGER i)) is) e = (\<forall>j \<in> set is. R i j, e)"
  by (induction "is" arbitrary: pos) auto

lemma compare_numbers_chain:
  assumes "\<And>i j. fails (INTEGER i) (INTEGER j) \<longleftrightarrow> \<not> R i j" and "transp R"
  shows "compare_numbers (compare_previous name fails) name (map (\<lambda>i. const_expr (INTEGER i)) is) e =
    (sorted_wrt R is, e)"
proof (cases "is")
  case (Cons i js)
  then show ?thesis
    using compare_previous_integers [OF assms, of name 2 i js e] by (simp del: sorted_wrt.simps)
qed simp

lemma LessThanOrEqualFunction_integers:
  "LessThanOrEqualFunction (map (\<lambda>i. const_expr (INTEGER i)) is) e = (sorted_wrt (\<le>) is, e)"
  unfolding LessThanOrEqualFunction_def by (rule compare_numbers_chain) (auto simp: transp_def)

lemma GreaterThanOrEqualFunction_integers:
  "GreaterThanOrEqualFunction (map (\<lambda>i. const_expr (INTEGER i)) is) e = (sorted_wrt (\<ge>) is, e)"
  unfolding GreaterThanOrEqualFunction_def by (rule compare_numbers_chain) (auto simp: transp_def)

lemma LessThanFunction_integers:
  "LessThanFunction (map (\<lambda>i. const_expr (INTEGER i)) is) e = (sorted_wrt (<) is, e)"
  unfolding LessThanFunction_def by (rule compare_numbers_chain) (auto simp: transp_def)

lemma GreaterThanFunction_integers:
  "GreaterThanFunction (map (\<lambda>i. const_expr (INTEGER i)) is) e = (sorted_wrt (>) is, e)"
  unfolding GreaterThanFunction_def by (rule compare_numbers_chain) (auto simp: transp_def)

text \<open>Short circuit: \<open>and\<close> and \<open>or\<close> are decided by the first argument that settles them, and later arguments
  are not evaluated.\<close>

lemma AndFunction_stops:
  assumes "\<forall>x \<in> set xs. \<forall>e. \<exists>v. x e = (v, e) \<and> v \<noteq> FalseSymbol" and "\<not> EvaluationError e"
    and "y e = (FalseSymbol, e')"
  shows "AndFunction (xs @ y # zs) e = (False, e')"
  using assms(1)
proof (induction xs)
  case (Cons x xs)
  obtain v where "x e = (v, e)" "v \<noteq> FalseSymbol" using Cons.prems by (meson list.set_intros(1))
  moreover have "AndFunction (xs @ y # zs) e = (False, e')" using Cons by simp
  ultimately show ?case using assms(2) by simp
qed (simp add: assms(3))

end
