(* ===== verification/Sort_Function.thy ===== *)
theory Sort_Function
  imports Predicates
begin

text \<open>
  The \<open>sort\<close> function, \<open>sortfun.c\<close>: a merge sort on an array, driven by a comparison that is a
  user function and may change the environment; so the state is threaded through every
  comparison. \<open>DoMergeSort\<close> is shown to compute the sort of a list of \<open>merge_sort\<close>, for every
  comparison function, and with it that \<open>sort\<close> returns and permutes its arguments, and sorts
  them stably when the comparison is a total preorder.
\<close>

section \<open>The array routines\<close>

type_synonym ('a, 's) comparison = "'a \<Rightarrow> 'a \<Rightarrow> 's \<Rightarrow> bool \<times> 's"

text \<open>The exchange of two adjacent elements.\<close>

definition swap_pair :: "('a, 's) comparison \<Rightarrow> nat \<Rightarrow> nat \<Rightarrow> 'a list \<Rightarrow> 's \<Rightarrow> 'a list \<times> 's" where
  "swap_pair swap s e xs st =
     (case swap (xs ! s) (xs ! e) st of
        (b, st') \<Rightarrow> (if b then xs[s := xs ! e, e := xs ! s] else xs, st'))"

text \<open>The \<open>while\<close> loop that merges the areas \<open>c1..e1\<close> and \<open>c2..e2\<close> into the temporary array.\<close>

function merge_loop ::
  "('a, 's) comparison \<Rightarrow> 'a list \<Rightarrow> nat \<Rightarrow> nat \<Rightarrow> nat \<Rightarrow> nat \<Rightarrow> nat \<Rightarrow> 'a list \<Rightarrow> 's \<Rightarrow> 'a list \<times> 's" where
  "merge_loop swap xs e1 e2 c1 c2 mergePoint temp st =
     (if mergePoint \<le> e2 then
        if c1 > e1 then merge_loop swap xs e1 e2 c1 (c2 + 1) (mergePoint + 1) (temp[mergePoint := xs ! c2]) st
        else if c2 > e2 then
          merge_loop swap xs e1 e2 (c1 + 1) c2 (mergePoint + 1) (temp[mergePoint := xs ! c1]) st
        else (case swap (xs ! c1) (xs ! c2) st of (b, st') \<Rightarrow>
          if b then merge_loop swap xs e1 e2 c1 (c2 + 1) (mergePoint + 1) (temp[mergePoint := xs ! c2]) st'
          else merge_loop swap xs e1 e2 (c1 + 1) c2 (mergePoint + 1) (temp[mergePoint := xs ! c1]) st')
      else (temp, st))"
  by pat_completeness auto
termination
  by (relation "measure (\<lambda>(swap, xs, e1, e2, c1, c2, mergePoint, temp, st). Suc e2 - mergePoint)") auto

declare merge_loop.simps [simp del]

definition copy_back :: "nat \<Rightarrow> nat \<Rightarrow> 'a list \<Rightarrow> 'a list \<Rightarrow> 'a list" where
  "copy_back s1 e2 temp xs = fold (\<lambda>c ys. ys[c := temp ! c]) [s1..<Suc e2] xs"

partial_function (option) DoMergeSort ::
  "('a, 's) comparison \<Rightarrow> 'a list \<Rightarrow> 'a list \<Rightarrow> nat \<Rightarrow> nat \<Rightarrow> nat \<Rightarrow> nat \<Rightarrow> 's \<Rightarrow> ('a list \<times> 'a list \<times> 's) option" where
  [code]: "DoMergeSort swap xs temp s1 e1 s2 e2 st =
     Option.bind
       (if s1 = e1 then Some (xs, temp, st)
        else if s1 + 1 = e1 then (case swap_pair swap s1 e1 xs st of (xs', st') \<Rightarrow> Some (xs', temp, st'))
        else DoMergeSort swap xs temp s1 (s1 + ((e1 - s1 + 1) + 1) div 2 - 1) (s1 + ((e1 - s1 + 1) + 1) div 2) e1 st)
       (\<lambda>(xs1, temp1, st1). Option.bind
          (if s2 = e2 then Some (xs1, temp1, st1)
           else if s2 + 1 = e2 then (case swap_pair swap s2 e2 xs1 st1 of (xs', st') \<Rightarrow> Some (xs', temp1, st'))
           else DoMergeSort swap xs1 temp1 s2 (s2 + ((e2 - s2 + 1) + 1) div 2 - 1) (s2 + ((e2 - s2 + 1) + 1) div 2) e2 st1)
          (\<lambda>(xs2, temp2, st2).
             (case merge_loop swap xs2 e1 e2 s1 s2 s1 temp2 st2 of
                (temp3, st3) \<Rightarrow> Some (copy_back s1 e2 temp3 xs2, temp3, st3))))"

text \<open>The temporary array comes from \<open>genalloc\<close> with unknown contents.\<close>

definition MergeSort :: "('a, 's) comparison \<Rightarrow> 'a list \<Rightarrow> 'a list \<Rightarrow> 's \<Rightarrow> ('a list \<times> 's) option" where
  "MergeSort swap tempList theList st =
     (if length theList \<le> 1 then Some (theList, st)
      else (let middle = (length theList + 1) div 2
            in map_option (\<lambda>(xs, temp, st'). (xs, st'))
                 (DoMergeSort swap theList tempList 0 (middle - 1) middle (length theList - 1) st)))"

section \<open>The function sort\<close>

text \<open>What \<open>FunctionReferenceExpression\<close> finds under a name: a system function, a deffunction (with their
  least and greatest number of arguments, \<open>-1\<close> for no limit) or a generic function, and what a call of it does.\<close>

datatype function_kind = FCALL int int | PCALL int int | GCALL

type_synonym function_table = "string \<Rightarrow> (function_kind \<times> (val list \<Rightarrow> env \<Rightarrow> val \<times> env)) option"

definition DefaultCompareSwapFunction :: "(val list \<Rightarrow> env \<Rightarrow> val \<times> env) \<Rightarrow> (val, env) comparison" where
  "DefaultCompareSwapFunction f item1 item2 e =
     (case f [item1, item2] e of (returnValue, e1) \<Rightarrow> (returnValue \<noteq> FalseSymbol, e1))"

fun takes_two :: "function_kind \<Rightarrow> bool" where
  "takes_two (FCALL least most) = (\<not> (least > 2 \<or> most = 0 \<or> most = 1))"
| "takes_two (PCALL least most) = (\<not> (least > 2 \<or> most = 0 \<or> most = 1))"
| "takes_two GCALL = True"

text \<open>The items to be sorted: multifields are spliced in.\<close>

definition sort_items :: "val list \<Rightarrow> val list" where
  "sort_items args = concat (map (\<lambda>v. case v of MULTIFIELD vs \<Rightarrow> vs | _ \<Rightarrow> [v]) args)"

text \<open>\<open>ExpectedTypeError1\<close> only prints here, so the function returns \<open>FALSE\<close> without an evaluation error. The
  stack of comparison functions, which lets a comparison call \<open>sort\<close> again, is the call stack of the model.\<close>

definition SortFunction :: "function_table \<Rightarrow> val list \<Rightarrow> val list \<Rightarrow> env \<Rightarrow> (val \<times> env) option" where
  "SortFunction functions tempList args e =
     (case EnvArgCountCheck ''sort'' AT_LEAST 1 args e of (n, e1) \<Rightarrow>
      if n = - 1 then Some (FalseSymbol, e1)
      else (case EnvArgTypeCheck ''sort'' 1 ty_SYMBOL args e1 of
        (None, e2) \<Rightarrow> Some (FalseSymbol, e2)
      | (Some v, e2) \<Rightarrow>
         (case functions (DOToString v) of
            None \<Rightarrow> Some (FalseSymbol, print_message (ExpectedTypeError1 ''sort'' 1) e2)
          | Some (kind, f) \<Rightarrow>
              if \<not> takes_two kind then Some (FalseSymbol, print_message (ExpectedTypeError1 ''sort'' 1) e2)
              else if sort_items (tl args) = [] then Some (MULTIFIELD [], e2)
              else map_option (\<lambda>(vs, e3). (MULTIFIELD vs, e3))
                     (MergeSort (DefaultCompareSwapFunction f) tempList (sort_items (tl args)) e2))))"

section \<open>Reference\<close>

fun merge_lists :: "('a, 's) comparison \<Rightarrow> 'a list \<Rightarrow> 'a list \<Rightarrow> 's \<Rightarrow> 'a list \<times> 's" where
  "merge_lists swap [] ys st = (ys, st)"
| "merge_lists swap (x # xs) [] st = (x # xs, st)"
| "merge_lists swap (x # xs) (y # ys) st =
     (case swap x y st of (b, st1) \<Rightarrow>
        if b then (case merge_lists swap (x # xs) ys st1 of (zs, st2) \<Rightarrow> (y # zs, st2))
        else (case merge_lists swap xs (y # ys) st1 of (zs, st2) \<Rightarrow> (x # zs, st2)))"

function merge_sort :: "('a, 's) comparison \<Rightarrow> 'a list \<Rightarrow> 's \<Rightarrow> 'a list \<times> 's" where
  "merge_sort swap xs st =
     (if length xs \<le> 1 then (xs, st)
      else (let m = (length xs + 1) div 2
            in case merge_sort swap (take m xs) st of (ys, st1) \<Rightarrow>
               (case merge_sort swap (drop m xs) st1 of (zs, st2) \<Rightarrow> merge_lists swap ys zs st2)))"
  by pat_completeness auto
termination
  by (relation "measure (\<lambda>(swap, xs, st). length xs)") auto

declare merge_sort.simps [simp del]

lemma merge_lists_mset: "mset (fst (merge_lists swap xs ys st)) = mset xs + mset ys"
  by (induction swap xs ys st rule: merge_lists.induct) (auto split: prod.splits)

lemma length_merge_lists: "length (fst (merge_lists swap xs ys st)) = length xs + length ys"
  by (metis merge_lists_mset mset_append length_append size_mset)

lemma merge_sort_mset: "mset (fst (merge_sort swap xs st)) = mset xs"
proof (induction swap xs st rule: merge_sort.induct)
  case (1 swap xs st)
  show ?case
  proof (cases "length xs \<le> 1")
    case True
    then show ?thesis by (simp add: merge_sort.simps [of swap xs])
  next
    case False
    let ?m = "(length xs + 1) div 2"
    obtain ys st1 where ys: "merge_sort swap (take ?m xs) st = (ys, st1)" by fastforce
    obtain zs st2 where zs: "merge_sort swap (drop ?m xs) st1 = (zs, st2)" by fastforce
    have "mset ys = mset (take ?m xs)" "mset zs = mset (drop ?m xs)"
      using 1 False ys zs by (metis fst_conv)+
    then show ?thesis
      using False ys zs by (simp add: merge_sort.simps [of swap xs] Let_def merge_lists_mset flip: mset_append)
  qed
qed

lemma length_merge_sort: "length (fst (merge_sort swap xs st)) = length xs"
  by (metis merge_sort_mset size_mset)

section \<open>The array routines compute the reference\<close>

text \<open>The elements \<open>i..j-1\<close> of an array.\<close>

definition area :: "nat \<Rightarrow> nat \<Rightarrow> 'a list \<Rightarrow> 'a list" where
  "area i j xs = drop i (take j xs)"

lemma length_area [simp]: "j \<le> length xs \<Longrightarrow> length (area i j xs) = j - i"
  by (simp add: area_def)

lemma nth_area: "i + k < j \<Longrightarrow> j \<le> length xs \<Longrightarrow> area i j xs ! k = xs ! (i + k)"
  by (simp add: area_def)

lemma area_Cons: "i < j \<Longrightarrow> j \<le> length xs \<Longrightarrow> area i j xs = xs ! i # area (Suc i) j xs"
  by (simp add: area_def Cons_nth_drop_Suc [symmetric])

lemma area_empty [simp]: "j \<le> i \<Longrightarrow> area i j xs = []"
  by (simp add: area_def)

lemma merge_lists_Nil2 [simp]: "merge_lists swap xs [] st = (xs, st)"
  by (cases xs) auto

lemma store_next:
  "mp \<le> e \<Longrightarrow> e < length temp \<Longrightarrow>
    take (Suc mp) (temp[mp := v]) @ zs @ drop (Suc e) (temp[mp := v]) = take mp temp @ (v # zs) @ drop (Suc e) temp"
  by (simp add: take_Suc_conv_app_nth)

lemma merge_loop_area:
  assumes "e1 < length xs" "e2 < length xs" "length temp = length xs"
    and "mp + (Suc e1 - c1) + (Suc e2 - c2) = Suc e2"
    and "merge_lists swap (area c1 (Suc e1) xs) (area c2 (Suc e2) xs) st = (zs, st')"
  shows "merge_loop swap xs e1 e2 c1 c2 mp temp st = (take mp temp @ zs @ drop (Suc e2) temp, st')"
  using assms
proof (induction swap xs e1 e2 c1 c2 mp temp st arbitrary: zs st' rule: merge_loop.induct)
  case (1 swap xs e1 e2 c1 c2 mp temp st)
  note step = 1
  have size: "mp + (Suc e1 - c1) + (Suc e2 - c2) = Suc e2" "mp \<le> Suc e2"
    using step(8) by auto
  consider "mp = Suc e2" "c1 > e1" "c2 > e2" | "mp \<le> e2" "c1 > e1" "c2 \<le> e2"
    | "mp \<le> e2" "c1 \<le> e1" "c2 > e2" | "mp \<le> e2" "c1 \<le> e1" "c2 \<le> e2"
    using size by linarith
  then show ?case
  proof cases
    case 1
    with step(9) show ?thesis by (simp add: merge_loop.simps)
  next
    case 2
    with step(9) have "zs = xs ! c2 # area (Suc c2) (Suc e2) xs" "st' = st"
      using step(6) by (simp_all add: area_Cons)
    then show ?thesis
      using 2 step(1) [of "area (Suc c2) (Suc e2) xs" st] step(5-7) size store_next [of mp e2 temp]
      by (simp add: merge_loop.simps [of _ _ _ _ _ _ mp])
  next
    case 3
    with step(9) have "zs = xs ! c1 # area (Suc c1) (Suc e1) xs" "st' = st"
      using step(5) by (simp_all add: area_Cons)
    then show ?thesis
      using 3 step(2) [of "area (Suc c1) (Suc e1) xs" st] step(5-7) size store_next [of mp e2 temp]
      by (simp add: merge_loop.simps [of _ _ _ _ _ _ mp])
  next
    case 4
    obtain b st1 where b: "swap (xs ! c1) (xs ! c2) st = (b, st1)" by fastforce
    have m: "merge_lists swap (xs ! c1 # area (Suc c1) (Suc e1) xs) (xs ! c2 # area (Suc c2) (Suc e2) xs) st = (zs, st')"
      using 4 step(5,6,9) by (simp add: area_Cons)
    show ?thesis
    proof (cases b)
      case True
      then obtain ws where ws: "merge_lists swap (area c1 (Suc e1) xs) (area (Suc c2) (Suc e2) xs) st1 = (ws, st')"
        "zs = xs ! c2 # ws"
        using m b 4 step(5) by (auto simp: area_Cons split: prod.splits)
      then show ?thesis
        using 4 True b step(3) [OF _ _ _ b [symmetric], of ws st'] step(5-7) size store_next [of mp e2 temp]
        by (simp add: merge_loop.simps [of _ _ _ _ _ _ mp])
    next
      case False
      then obtain ws where ws: "merge_lists swap (area (Suc c1) (Suc e1) xs) (area c2 (Suc e2) xs) st1 = (ws, st')"
        "zs = xs ! c1 # ws"
        using m b 4 step(6) by (auto simp: area_Cons split: prod.splits)
      then show ?thesis
        using 4 False b step(4) [OF _ _ _ b [symmetric], of ws st'] step(5-7) size store_next [of mp e2 temp]
        by (simp add: merge_loop.simps [of _ _ _ _ _ _ mp])
    qed
  qed
qed

text \<open>An array with the elements from position \<open>s\<close> on overwritten.\<close>

definition put :: "nat \<Rightarrow> 'a list \<Rightarrow> 'a list \<Rightarrow> 'a list" where
  "put s zs xs = take s xs @ zs @ drop (s + length zs) xs"

lemma length_put [simp]: "s + length zs \<le> length xs \<Longrightarrow> length (put s zs xs) = length xs"
  by (simp add: put_def)

lemma area_put_behind: "s + length zs \<le> i \<Longrightarrow> s + length zs \<le> length xs \<Longrightarrow> area i j (put s zs xs) = area i j xs"
  by (auto simp: area_def put_def min_def not_le take_drop [symmetric] drop_take add.commute)

lemma area_put_same: "s + length zs \<le> length xs \<Longrightarrow> j = s + length zs \<Longrightarrow> area s j (put s zs xs) = zs"
  by (simp add: area_def put_def)

lemma put_put_adjacent:
  "s + length ys \<le> length xs \<Longrightarrow> length ws = length ys + n \<Longrightarrow> length zs = n \<Longrightarrow> t = s + length ys \<Longrightarrow>
    t + n \<le> length xs \<Longrightarrow> put s ws (put t zs (put s ys xs)) = put s ws xs"
  by (simp add: put_def) (simp add: add_ac)

lemma area_Suc: "i \<le> t \<Longrightarrow> t < length xs \<Longrightarrow> area i (Suc t) xs = area i t xs @ [xs ! t]"
  by (simp add: area_def take_Suc_conv_app_nth)

lemma put_snoc:
  "t = s + length zs \<Longrightarrow> t < length xs \<Longrightarrow> (put s zs xs)[t := v] = put s (zs @ [v]) xs"
  by (simp add: put_def list_update_append Cons_nth_drop_Suc [symmetric])

lemma copy_back_put:
  "s \<le> t \<Longrightarrow> t \<le> length xs \<Longrightarrow> length temp = length xs \<Longrightarrow>
    fold (\<lambda>c ys. ys[c := temp ! c]) [s..<t] xs = put s (area s t temp) xs"
proof (induction t)
  case (Suc t)
  show ?case
  proof (cases "s = Suc t")
    case False
    then show ?thesis using Suc by (simp add: area_Suc put_snoc)
  qed (simp add: put_def)
qed (simp add: put_def)

text \<open>What the code does with one area before it merges: nothing, an exchange, or a recursive call.\<close>

definition sort_area ::
  "('a, 's) comparison \<Rightarrow> 'a list \<Rightarrow> 'a list \<Rightarrow> nat \<Rightarrow> nat \<Rightarrow> 's \<Rightarrow> ('a list \<times> 'a list \<times> 's) option" where
  "sort_area swap xs temp s e st =
     (if s = e then Some (xs, temp, st)
      else if s + 1 = e then (case swap_pair swap s e xs st of (xs', st') \<Rightarrow> Some (xs', temp, st'))
      else DoMergeSort swap xs temp s (s + ((e - s + 1) + 1) div 2 - 1) (s + ((e - s + 1) + 1) div 2) e st)"

lemma DoMergeSort_areas:
  "DoMergeSort swap xs temp s1 e1 s2 e2 st =
     Option.bind (sort_area swap xs temp s1 e1 st) (\<lambda>(xs1, temp1, st1).
     Option.bind (sort_area swap xs1 temp1 s2 e2 st1) (\<lambda>(xs2, temp2, st2).
       (case merge_loop swap xs2 e1 e2 s1 s2 s1 temp2 st2 of
          (temp3, st3) \<Rightarrow> Some (copy_back s1 e2 temp3 xs2, temp3, st3))))"
  by (subst DoMergeSort.simps) (simp only: sort_area_def)

text \<open>The claim for one area: the sorted elements are written back in place.\<close>

definition area_sorted ::
  "('a, 's) comparison \<Rightarrow> 'a list \<Rightarrow> nat \<Rightarrow> nat \<Rightarrow> 's \<Rightarrow> ('a list \<times> 'a list \<times> 's) option \<Rightarrow> bool" where
  "area_sorted swap xs s e st res \<longleftrightarrow>
     (case merge_sort swap (area s (Suc e) xs) st of
        (ys, st') \<Rightarrow> (\<exists>temp'. length temp' = length xs \<and> res = Some (put s ys xs, temp', st')))"

lemma merge_sort_halves:
  assumes "1 < length xs"
  shows "merge_sort swap xs st =
    (case merge_sort swap (take ((length xs + 1) div 2) xs) st of (ys, st1) \<Rightarrow>
       (case merge_sort swap (drop ((length xs + 1) div 2) xs) st1 of (zs, st2) \<Rightarrow> merge_lists swap ys zs st2))"
  using assms by (simp add: merge_sort.simps [of swap xs] Let_def)

lemma area_split:
  assumes "s \<le> m" "m \<le> j" "j \<le> length xs"
  shows "take (m - s) (area s j xs) = area s m xs" "drop (m - s) (area s j xs) = area m j xs"
  using assms by (simp_all add: area_def take_drop min_absorb1)

lemma merge_areas:
  assumes "s1 \<le> e1" "s2 = Suc e1" "s2 \<le> e2" "e2 < length xs" "length temp = length xs"
    and first: "\<And>temp. length temp = length xs \<Longrightarrow> area_sorted swap xs s1 e1 st (sort_area swap xs temp s1 e1 st)"
    and second: "\<And>ys temp st'. length ys = length xs \<Longrightarrow> length temp = length xs \<Longrightarrow>
      area_sorted swap ys s2 e2 st' (sort_area swap ys temp s2 e2 st')"
    and half: "s2 - s1 = (Suc e2 - s1 + 1) div 2"
  shows "area_sorted swap xs s1 e2 st (DoMergeSort swap xs temp s1 e1 s2 e2 st)"
proof -
  obtain ys st1 where ys: "merge_sort swap (area s1 s2 xs) st = (ys, st1)" by fastforce
  obtain zs st2 where zs: "merge_sort swap (area s2 (Suc e2) xs) st1 = (zs, st2)" by fastforce
  obtain ws st3 where ws: "merge_lists swap ys zs st2 = (ws, st3)" by fastforce
  have lens: "length ys = s2 - s1" "length zs = Suc e2 - s2" "length ws = Suc e2 - s1"
    using assms(1-4) length_merge_sort [of swap "area s1 s2 xs" st] length_merge_sort [of swap "area s2 (Suc e2) xs" st1]
      length_merge_lists [of swap ys zs st2] ys zs ws by auto
  let ?xs1 = "put s1 ys xs"
  let ?xs2 = "put s2 zs ?xs1"
  obtain temp1 where t1: "length temp1 = length xs" "sort_area swap xs temp s1 e1 st = Some (?xs1, temp1, st1)"
    using first [OF assms(5)] ys assms(2) by (auto simp: area_sorted_def)
  have l1: "length ?xs1 = length xs" using lens assms(1-4) by simp
  have "area s2 (Suc e2) ?xs1 = area s2 (Suc e2) xs"
    using lens assms(1-4) by (simp add: area_put_behind)
  then obtain temp2 where t2: "length temp2 = length xs" "sort_area swap ?xs1 temp1 s2 e2 st1 = Some (?xs2, temp2, st2)"
    using second [OF l1 t1(1), of st1] zs l1 by (auto simp: area_sorted_def)
  have l2: "length ?xs2 = length xs" using lens l1 assms(1-4) by simp
  have a1: "area s1 s2 ?xs2 = ys"
    using lens assms(1-4) by (simp add: area_def put_def)
  have a2: "area s2 (Suc e2) ?xs2 = zs"
    using lens l1 assms(1-4) by (simp add: area_put_same)
  let ?temp3 = "take s1 temp2 @ ws @ drop (Suc e2) temp2"
  have "merge_loop swap ?xs2 e1 e2 s1 s2 s1 temp2 st2 = (?temp3, st3)"
    using merge_loop_area [of e1 ?xs2 e2 temp2 s1 s1 s2 swap st2 ws st3] assms(1-4) l2 t2(1) a1 a2 ws by simp
  moreover have "copy_back s1 e2 ?temp3 ?xs2 = put s1 ws xs"
  proof -
    have "area s1 (Suc e2) ?temp3 = ws" using lens t2(1) assms(1-4) by (simp add: area_def)
    then have "copy_back s1 e2 ?temp3 ?xs2 = put s1 ws ?xs2"
      using copy_back_put [of s1 "Suc e2" ?xs2 ?temp3] l2 t2(1) lens assms(1-4) by (simp add: copy_back_def)
    also have "\<dots> = put s1 ws xs"
      using put_put_adjacent [of s1 ys xs ws "length zs" zs s2] lens assms(1-4) by simp
    finally show ?thesis .
  qed
  ultimately have "DoMergeSort swap xs temp s1 e1 s2 e2 st = Some (put s1 ws xs, ?temp3, st3)"
    using t1 t2 by (simp add: DoMergeSort_areas)
  moreover have "merge_sort swap (area s1 (Suc e2) xs) st = (ws, st3)"
    using merge_sort_halves [of "area s1 (Suc e2) xs" swap st] area_split [of s1 s2 "Suc e2" xs] assms(1-4)
      half ys zs ws by simp
  moreover have "length ?temp3 = length xs" using lens t2(1) assms(1-4) by simp
  ultimately show ?thesis by (auto simp: area_sorted_def)
qed

lemma merge_sort_pair:
  "merge_sort swap [a, b] st = (case swap a b st of (c, st') \<Rightarrow> (if c then [b, a] else [a, b], st'))"
  by (simp add: merge_sort_halves) (simp add: merge_sort.simps split: prod.split)

lemma put_pair:
  "Suc s < length xs \<Longrightarrow> put s [a, b] xs = xs[s := a, Suc s := b]"
proof -
  assume "Suc s < length xs"
  then have "xs = take s xs @ xs ! s # xs ! Suc s # drop (Suc (Suc s)) xs"
    by (simp add: Cons_nth_drop_Suc)
  then have "xs[s := a, Suc s := b] = (take s xs @ xs ! s # xs ! Suc s # drop (Suc (Suc s)) xs)[s := a, Suc s := b]"
    by simp
  then show ?thesis
    using \<open>Suc s < length xs\<close> by (simp add: put_def list_update_append)
qed

lemma sort_area_sorted:
  "s \<le> e \<Longrightarrow> e < length xs \<Longrightarrow> length temp = length xs \<Longrightarrow> area_sorted swap xs s e st (sort_area swap xs temp s e st)"
proof (induction "e - s" arbitrary: s e xs temp st rule: less_induct)
  case less
  consider "s = e" | "e = Suc s" | "Suc s < e" using less.prems(1) by linarith
  then show ?case
  proof cases
    case 1
    then show ?thesis
      using less.prems
      by (auto simp: area_sorted_def sort_area_def merge_sort.simps area_Cons put_def Cons_nth_drop_Suc)
  next
    case 2
    have ab: "area s (Suc e) xs = [xs ! s, xs ! Suc s]"
      using 2 less.prems by (simp add: area_Cons)
    obtain c st' where c: "swap (xs ! s) (xs ! Suc s) st = (c, st')" by fastforce
    then have "sort_area swap xs temp s e st = Some (put s (if c then [xs ! Suc s, xs ! s] else [xs ! s, xs ! Suc s]) xs, temp, st')"
      using 2 less.prems put_pair [of s xs] by (simp add: sort_area_def swap_pair_def)
    then show ?thesis
      using less.prems(3) by (auto simp: area_sorted_def ab merge_sort_pair c)
  next
    case 3
    let ?m = "s + ((e - s + 1) + 1) div 2"
    have "area_sorted swap xs s e st (DoMergeSort swap xs temp s (?m - 1) ?m e st)"
    proof (rule merge_areas)
      fix ys :: "'a list" and temp :: "'a list" and st'
      show "length ys = length xs \<Longrightarrow> length temp = length xs \<Longrightarrow> area_sorted swap ys ?m e st' (sort_area swap ys temp ?m e st')"
        using 3 less.prems by (intro less.hyps) auto
    next
      fix temp :: "'a list"
      show "length temp = length xs \<Longrightarrow> area_sorted swap xs s (?m - 1) st (sort_area swap xs temp s (?m - 1) st)"
        using 3 less.prems by (intro less.hyps) auto
    qed (use 3 less.prems in auto)
    then show ?thesis using 3 by (simp add: sort_area_def)
  qed
qed

lemma MergeSort_merge_sort:
  assumes "length tempList = length theList"
  shows "MergeSort swap tempList theList st = Some (merge_sort swap theList st)"
proof (cases "length theList \<le> 1")
  case True
  then show ?thesis by (simp add: MergeSort_def merge_sort.simps)
next
  case False
  let ?n = "length theList" and ?m = "(length theList + 1) div 2"
  have "area_sorted swap theList 0 (?n - 1) st (DoMergeSort swap theList tempList 0 (?m - 1) ?m (?n - 1) st)"
    using False assms by (intro merge_areas sort_area_sorted) auto
  moreover have "area 0 (Suc (?n - 1)) theList = theList" using False by (simp add: area_def)
  ultimately show ?thesis
    using False length_merge_sort [of swap theList st]
    by (auto simp: MergeSort_def area_sorted_def put_def Let_def split: prod.splits)
qed

section \<open>Comparisons that are orders\<close>

text \<open>A comparison function without side effects, given by the pairs it wants exchanged.\<close>

definition pure_comparison :: "('a \<Rightarrow> 'a \<Rightarrow> bool) \<Rightarrow> ('a, 's) comparison" where
  "pure_comparison P = (\<lambda>a b st. (P a b, st))"

text \<open>What a sort relies on: on the values that are sorted, not wanting an exchange is a total preorder.\<close>

locale exchange_order =
  fixes A :: "'a set" and P :: "'a \<Rightarrow> 'a \<Rightarrow> bool"
  assumes asym: "a \<in> A \<Longrightarrow> b \<in> A \<Longrightarrow> P a b \<Longrightarrow> \<not> P b a"
    and negtrans: "a \<in> A \<Longrightarrow> b \<in> A \<Longrightarrow> c \<in> A \<Longrightarrow> \<not> P a b \<Longrightarrow> \<not> P b c \<Longrightarrow> \<not> P a c"
begin

lemma merge_sorted:
  fixes st :: 's
  shows "set xs \<subseteq> A \<Longrightarrow> set ys \<subseteq> A \<Longrightarrow> sorted_wrt (\<lambda>a b. \<not> P a b) xs \<Longrightarrow> sorted_wrt (\<lambda>a b. \<not> P a b) ys \<Longrightarrow>
    sorted_wrt (\<lambda>a b. \<not> P a b) (fst (merge_lists (pure_comparison P) xs ys st))"
proof (induction "pure_comparison P :: ('a, 's) comparison" xs ys st rule: merge_lists.induct)
  case (3 x xs y ys st)
  have elems: "set (fst (merge_lists (pure_comparison P) us vs st)) = set us \<union> set vs" for us vs
    by (metis merge_lists_mset set_mset_mset set_mset_union)
  have inA: "x \<in> A" "y \<in> A" "set xs \<subseteq> A" "set ys \<subseteq> A" using 3(3,4) by auto
  show ?case
  proof (cases "P x y")
    case True
    have "\<not> P y z" if "z \<in> set (x # xs) \<union> set ys" for z
      using that True 3(5,6) inA asym [of x y] negtrans [of y x z] by auto
    then show ?thesis
      using 3(1) [of True st] 3(3-6) True elems [of "x # xs" ys]
      by (auto simp: pure_comparison_def split: prod.splits)
  next
    case False
    have "\<not> P x z" if "z \<in> set xs \<union> set (y # ys)" for z
      using that False 3(5,6) inA negtrans [of x y z] by auto
    then show ?thesis
      using 3(2) [of False st] 3(3-6) False elems [of xs "y # ys"]
      by (auto simp: pure_comparison_def split: prod.splits)
  qed
qed auto

text \<open>Elements that do not want to be exchanged with each other keep their order.\<close>

definition like :: "'a \<Rightarrow> 'a \<Rightarrow> bool" where
  "like k z \<longleftrightarrow> \<not> P k z \<and> \<not> P z k"

lemma merge_stable:
  fixes st :: 's
  shows "k \<in> A \<Longrightarrow> set xs \<subseteq> A \<Longrightarrow> set ys \<subseteq> A \<Longrightarrow> sorted_wrt (\<lambda>a b. \<not> P a b) xs \<Longrightarrow>
    filter (like k) (fst (merge_lists (pure_comparison P) xs ys st)) = filter (like k) xs @ filter (like k) ys"
proof (induction "pure_comparison P :: ('a, 's) comparison" xs ys st rule: merge_lists.induct)
  case (3 x xs y ys st)
  have inA: "k \<in> A" "x \<in> A" "y \<in> A" "set xs \<subseteq> A" "set ys \<subseteq> A" using 3(3-5) by auto
  show ?case
  proof (cases "P x y")
    case True
    have "\<not> (like k y \<and> like k z)" if "z \<in> set (x # xs)" for z
    proof -
      have "\<not> P x z" "z \<in> A" using that 3(6) inA asym [of x x] by auto
      then show ?thesis using True inA negtrans [of x z k] negtrans [of x k y] by (auto simp: like_def)
    qed
    then have none: "like k y \<Longrightarrow> filter (like k) (x # xs) = []"
      by (auto simp: filter_empty_conv simp del: filter.simps)
    have "filter (like k) (fst (merge_lists (pure_comparison P) (x # xs) ys st)) =
        filter (like k) (x # xs) @ filter (like k) ys"
      using 3(1) [of True st] 3(3-6) True by (simp add: pure_comparison_def)
    then show ?thesis
      using True none by (cases "like k y") (auto simp: pure_comparison_def case_prod_beta)
  next
    case False
    have "filter (like k) (fst (merge_lists (pure_comparison P) xs (y # ys) st)) =
        filter (like k) xs @ filter (like k) (y # ys)"
      using 3(2) [of False st] 3(3-6) False by (simp add: pure_comparison_def)
    then show ?thesis
      using False by (simp add: pure_comparison_def case_prod_beta)
  qed
qed auto

lemma sort_sorted_stable:
  fixes st :: 's
  shows "set xs \<subseteq> A \<Longrightarrow> sorted_wrt (\<lambda>a b. \<not> P a b) (fst (merge_sort (pure_comparison P) xs st)) \<and>
    (\<forall>k \<in> A. filter (like k) (fst (merge_sort (pure_comparison P) xs st)) = filter (like k) xs)"
proof (induction "pure_comparison P :: ('a, 's) comparison" xs st rule: merge_sort.induct)
  case (1 xs st)
  show ?case
  proof (cases "length xs \<le> 1")
    case True
    then have "sorted_wrt (\<lambda>a b. \<not> P a b) xs" by (cases xs) auto
    with True show ?thesis by (simp add: merge_sort.simps [of _ xs])
  next
    case False
    let ?m = "(length xs + 1) div 2" and ?c = "pure_comparison P :: ('a, 's) comparison"
    obtain ys st1 where ys: "merge_sort ?c (take ?m xs) st = (ys, st1)" by fastforce
    obtain zs st2 where zs: "merge_sort ?c (drop ?m xs) st1 = (zs, st2)" by fastforce
    have A: "set (take ?m xs) \<subseteq> A" "set (drop ?m xs) \<subseteq> A"
      using 1(3) set_take_subset [of ?m xs] set_drop_subset [of ?m xs] by auto
    have "set ys = set (take ?m xs)" "set zs = set (drop ?m xs)"
      using merge_sort_mset [of ?c "take ?m xs" st] merge_sort_mset [of ?c "drop ?m xs" st1] ys zs
      by (metis fst_conv set_mset_mset)+
    moreover have "sorted_wrt (\<lambda>a b. \<not> P a b) ys" "\<forall>k \<in> A. filter (like k) ys = filter (like k) (take ?m xs)"
      using 1(1) [OF False refl A(1)] ys by auto
    moreover have "sorted_wrt (\<lambda>a b. \<not> P a b) zs" "\<forall>k \<in> A. filter (like k) zs = filter (like k) (drop ?m xs)"
      using 1(2) [OF False refl ys [symmetric] A(2)] zs by auto
    ultimately show ?thesis
      using False ys zs A merge_sorted [of ys zs st2] merge_stable [of _ ys zs st2]
      by (simp add: merge_sort_halves flip: filter_append)
  qed
qed

end

section \<open>Sorting numbers\<close>

text \<open>The system functions \<open><\<close> and \<open>>\<close> as \<open>sort\<close> calls them, on constants.\<close>

definition boolean :: "bool \<times> env \<Rightarrow> val \<times> env" where
  "boolean = (\<lambda>(b, e). (if b then SYMBOL ''TRUE'' else FalseSymbol, e))"

definition system_function :: "(expression list \<Rightarrow> env \<Rightarrow> bool \<times> env) \<Rightarrow> val list \<Rightarrow> env \<Rightarrow> val \<times> env" where
  "system_function f vs e = boolean (f (map const_expr vs) e)"

text \<open>On integers the two comparisons have no side effect and are orders.\<close>

interpretation ascending: exchange_order "range INTEGER" "\<lambda>a b. number_less b a"
  by unfold_locales auto

interpretation descending: exchange_order "range INTEGER" number_less
  by unfold_locales auto

definition agree_on :: "'a set \<Rightarrow> ('a, 's) comparison \<Rightarrow> ('a, 's) comparison \<Rightarrow> bool" where
  "agree_on S f g \<longleftrightarrow> (\<forall>a \<in> S. \<forall>b \<in> S. f a b = g a b)"

lemma merge_lists_cong:
  "agree_on S f g \<Longrightarrow> set xs \<subseteq> S \<Longrightarrow> set ys \<subseteq> S \<Longrightarrow> merge_lists f xs ys st = merge_lists g xs ys st"
proof (induction f xs ys st rule: merge_lists.induct)
  case (3 f x xs y ys st)
  obtain b st' where b: "f x y st = (b, st')" by fastforce
  then have "g x y st = (b, st')" using 3(3-5) by (simp add: agree_on_def)
  then show ?case
    using b 3(1) [OF b [symmetric]] 3(2) [OF b [symmetric]] 3(3-5) by (cases b) simp_all
qed simp_all

lemma merge_sort_cong:
  "agree_on S f g \<Longrightarrow> set xs \<subseteq> S \<Longrightarrow> merge_sort f xs st = merge_sort g xs st"
proof (induction f xs st rule: merge_sort.induct)
  case (1 f xs st)
  show ?case
  proof (cases "length xs \<le> 1")
    case True
    then show ?thesis by (simp add: merge_sort.simps [of _ xs])
  next
    case False
    let ?m = "(length xs + 1) div 2"
    obtain ys st1 where ys: "merge_sort f (take ?m xs) st = (ys, st1)" by fastforce
    obtain zs st2 where zs: "merge_sort f (drop ?m xs) st1 = (zs, st2)" by fastforce
    have sub: "set (take ?m xs) \<subseteq> S" "set (drop ?m xs) \<subseteq> S"
      using 1(4) set_take_subset [of ?m xs] set_drop_subset [of ?m xs] by auto
    have "merge_sort g (take ?m xs) st = (ys, st1)" "merge_sort g (drop ?m xs) st1 = (zs, st2)"
      using 1(1) [OF False refl 1(3) sub(1)] 1(2) [OF False refl ys [symmetric] 1(3) sub(2)] ys zs by simp_all
    moreover have "set ys \<subseteq> S" "set zs \<subseteq> S"
      using merge_sort_mset [of f "take ?m xs" st] merge_sort_mset [of f "drop ?m xs" st1] ys zs sub
      by (metis fst_conv set_mset_mset)+
    then have "merge_lists f ys zs st2 = merge_lists g ys zs st2"
      using 1(3) by (intro merge_lists_cong [of S])
    ultimately show ?thesis using False ys zs by (simp add: merge_sort_halves)
  qed
qed

lemma merge_lists_pure_state: "snd (merge_lists (pure_comparison P) xs ys (st :: 's)) = st"
  by (induction "pure_comparison P :: ('a, 's) comparison" xs ys st rule: merge_lists.induct)
    (auto simp: pure_comparison_def split: prod.splits)

lemma merge_sort_pure_state: "snd (merge_sort (pure_comparison P) xs (st :: 's)) = st"
proof (induction "pure_comparison P :: ('a, 's) comparison" xs st rule: merge_sort.induct)
  case (1 xs st)
  let ?c = "pure_comparison P :: ('a, 's) comparison" and ?m = "(length xs + 1) div 2"
  show ?case
  proof (cases "length xs \<le> 1")
    case True
    then show ?thesis by (simp add: merge_sort.simps [of _ xs])
  next
    case False
    have "snd (merge_sort ?c (take ?m xs) st) = st" using 1(1) [OF False refl] .
    moreover have "snd (merge_sort ?c (drop ?m xs) st) = st"
      using 1(2) [OF False refl, of "fst (merge_sort ?c (take ?m xs) st)" st] calculation by (metis prod.collapse)
    ultimately show ?thesis
      using False merge_lists_pure_state [of P _ _ st] by (simp add: merge_sort_halves case_prod_beta)
  qed
qed

lemma sort_integers:
  assumes order: "exchange_order (range INTEGER) P"
    and cmp: "\<And>i j e. c (INTEGER i) (INTEGER j) e = (P (INTEGER i) (INTEGER j), e)"
  obtains js where "merge_sort c (map INTEGER is) e = (map INTEGER js, e)" "mset js = mset is"
    "sorted_wrt (\<lambda>i j. \<not> P (INTEGER i) (INTEGER j)) js"
proof -
  have eq: "merge_sort c (map INTEGER is) e = merge_sort (pure_comparison P) (map INTEGER is) e"
    by (intro merge_sort_cong [of "range INTEGER"]) (auto simp: agree_on_def pure_comparison_def cmp fun_eq_iff)
  obtain vs where vs: "merge_sort (pure_comparison P) (map INTEGER is) e = (vs, e)"
    using merge_sort_pure_state [of P "map INTEGER is" e] by (metis prod.collapse)
  have perm: "mset vs = image_mset INTEGER (mset is)"
    using merge_sort_mset [of "pure_comparison P" "map INTEGER is" e] vs by simp
  then have "set vs \<subseteq> range INTEGER" by (metis set_image_mset set_mset_mset image_mono subset_UNIV)
  then obtain js where js: "vs = map INTEGER js" by (metis ex_map_conv subsetD rangeE)
  have "sorted_wrt (\<lambda>a b. \<not> P a b) vs"
    using exchange_order.sort_sorted_stable [OF order, of "map INTEGER is" e] vs by auto
  moreover have "inj (image_mset INTEGER)" by (intro multiset.inj_map injI) simp
  then have "mset js = mset is" using perm by (simp add: js inj_eq)
  ultimately show thesis using that eq vs js by (simp add: sorted_wrt_map)
qed

lemma sort_greater_integers:
  "merge_sort (DefaultCompareSwapFunction (system_function GreaterThanFunction)) (map INTEGER is) e =
     (map INTEGER (sort is), e)"
proof -
  have "DefaultCompareSwapFunction (system_function GreaterThanFunction) (INTEGER i) (INTEGER j) e =
      (number_less (INTEGER j) (INTEGER i), e)" for i j e
    using GreaterThanFunction_integers [of "[i, j]" e]
    by (simp add: DefaultCompareSwapFunction_def system_function_def boolean_def)
  then obtain js where js: "merge_sort (DefaultCompareSwapFunction (system_function GreaterThanFunction))
      (map INTEGER is) e = (map INTEGER js, e)" "mset js = mset is"
      "sorted_wrt (\<lambda>i j. \<not> number_less (INTEGER j) (INTEGER i)) js"
    using sort_integers [OF ascending.exchange_order_axioms] by metis
  then have "sorted js" by (simp add: not_less)
  with js(2) have "js = sort is" by (metis properties_for_sort)
  with js(1) show ?thesis by simp
qed

lemma sort_less_integers:
  "merge_sort (DefaultCompareSwapFunction (system_function LessThanFunction)) (map INTEGER is) e =
     (map INTEGER (rev (sort is)), e)"
proof -
  have "DefaultCompareSwapFunction (system_function LessThanFunction) (INTEGER i) (INTEGER j) e =
      (number_less (INTEGER i) (INTEGER j), e)" for i j e
    using LessThanFunction_integers [of "[i, j]" e]
    by (simp add: DefaultCompareSwapFunction_def system_function_def boolean_def)
  then obtain js where js: "merge_sort (DefaultCompareSwapFunction (system_function LessThanFunction))
      (map INTEGER is) e = (map INTEGER js, e)" "mset js = mset is"
      "sorted_wrt (\<lambda>i j. \<not> number_less (INTEGER i) (INTEGER j)) js"
    using sort_integers [OF descending.exchange_order_axioms] by metis
  then have "sorted (rev js)" by (simp add: not_less sorted_wrt_rev)
  moreover have "mset (rev js) = mset is" using js(2) by simp
  ultimately have "rev js = sort is" by (metis properties_for_sort)
  with js(1) show ?thesis by (metis rev_rev_ident)
qed

end
