(* ===== verification/Function_Properties.thy ===== *)
theory Function_Properties
  imports Sort_Function Demo
begin

text \<open>
  Properties of the functions that CLIPS expressions call.
\<close>

section \<open>Sorting\<close>

text \<open>C32. For every comparison function, also one that changes the state, the merge sort on arrays returns, and
  gives what the recursive sort of lists gives with the same sequence of comparisons; the result is a
  permutation of the input. The contents of the temporary array do not matter.\<close>

theorem MergeSort_refines:
  assumes "length tempList = length theList"
  shows "MergeSort swap tempList theList st = Some (merge_sort swap theList st) \<and>
    mset (fst (merge_sort swap theList st)) = mset theList"
  using MergeSort_merge_sort [OF assms, of swap st] merge_sort_mset [of swap theList st] by simp

text \<open>The witness compares by \<open>>\<close> and counts the comparisons.\<close>

theorem MergeSort_refines_witness:
  "MergeSort (\<lambda>a b k. (a > b, Suc k)) [0, 0, 0, 0, 0] [5, 2, 4, 1, 3 :: int] 0 =
     Some (merge_sort (\<lambda>a b k. (a > b, Suc k)) [5, 2, 4, 1, 3] 0) \<and>
   mset (fst (merge_sort (\<lambda>a b k. (a > b, Suc k)) [5, 2, 4, 1, 3 :: int] 0)) = mset [5, 2, 4, 1, 3]"
  by (rule MergeSort_refines) simp

text \<open>C33. With a comparison without side effects that wants an exchange by a strict weak order on the values
  sorted, the result is sorted, and values of equal rank keep their order.\<close>

theorem MergeSort_sorted_stable:
  assumes "exchange_order A P" "set theList \<subseteq> A" "length tempList = length theList"
  shows "\<exists>xs. MergeSort (pure_comparison P) tempList theList st = Some (xs, st) \<and>
    sorted_wrt (\<lambda>a b. \<not> P a b) xs \<and>
    (\<forall>k. k \<in> A \<longrightarrow> filter (\<lambda>z. \<not> P k z \<and> \<not> P z k) xs = filter (\<lambda>z. \<not> P k z \<and> \<not> P z k) theList)"
proof -
  obtain xs where xs: "merge_sort (pure_comparison P) theList st = (xs, st)"
    using merge_sort_pure_state [of P theList st] by (metis prod.collapse)
  have "exchange_order.like P k = (\<lambda>z. \<not> P k z \<and> \<not> P z k)" for k
    by (simp add: exchange_order.like_def [OF assms(1)] fun_eq_iff)
  then show ?thesis
    using exchange_order.sort_sorted_stable [OF assms(1,2), of st] MergeSort_merge_sort [OF assms(3), of "pure_comparison P" st]
    by (simp add: xs)
qed

theorem MergeSort_sorted_stable_witness:
  "\<exists>xs. MergeSort (pure_comparison (\<lambda>a b. number_less b a)) [INTEGER 0, INTEGER 0, INTEGER 0]
        [INTEGER 3, INTEGER 1, INTEGER 2] () = Some (xs, ()) \<and>
    sorted_wrt (\<lambda>a b. \<not> number_less b a) xs \<and>
    (\<forall>k. k \<in> range INTEGER \<longrightarrow> filter (\<lambda>z. \<not> number_less z k \<and> \<not> number_less k z) xs =
       filter (\<lambda>z. \<not> number_less z k \<and> \<not> number_less k z) [INTEGER 3, INTEGER 1, INTEGER 2])"
  by (rule MergeSort_sorted_stable [OF ascending.exchange_order_axioms]) auto

text \<open>\<open>(sort > ...)\<close> on integers, given singly or in multifields, returns the multifield of the integers in
  ascending order and leaves the environment as it is.\<close>

lemma SortFunction_ascending:
  assumes "functions ''>'' = Some (FCALL 2 (- 1), system_function GreaterThanFunction)"
    and "sort_items args = map INTEGER is" "length tempList = length is" "\<not> EvaluationError e"
  shows "SortFunction functions tempList (SYMBOL ''>'' # args) e = Some (MULTIFIELD (map INTEGER (sort is)), e)"
proof (cases "is = []")
  case True
  then show ?thesis
    using assms by (simp add: SortFunction_def EnvArgCountCheck_def EnvRtnArgCount_def EnvArgTypeCheck_def check_type_def)
next
  case False
  then show ?thesis
    using assms MergeSort_merge_sort [of tempList "map INTEGER is"
        "DefaultCompareSwapFunction (system_function GreaterThanFunction)" e] sort_greater_integers [of "is" e]
    by (simp add: SortFunction_def EnvArgCountCheck_def EnvRtnArgCount_def EnvArgTypeCheck_def check_type_def)
qed

end
