(* ===== verification/Scanner.thy ===== *)
theory Scanner
  imports Prelude
begin

text \<open>
  The scanner of the CLIPS language, \<open>scanner.c\<close>, with the string buffers of \<open>utility.c\<close> it builds its
  tokens in. The input is the list of the characters that are left; reading at its end gives \<open>EOF\<close>
  (\<open>None\<close>). Characters are their unsigned values. Tokens carry their value; the symbol table and the pretty print buffer are not part of the
  model. Loops end because each round reads a character.
\<close>

section \<open>Characters\<close>

definition code :: "char \<Rightarrow> nat" where "code c = of_char c"

text \<open>The classification of \<open>ctype.h\<close> in the C locale, and the UTF-8 macros of \<open>utility.h\<close>.\<close>

definition isdigit :: "char \<Rightarrow> bool" where
  "isdigit c \<longleftrightarrow> 48 \<le> code c \<and> code c \<le> 57"

definition isalpha :: "char \<Rightarrow> bool" where
  "isalpha c \<longleftrightarrow> (65 \<le> code c \<and> code c \<le> 90) \<or> (97 \<le> code c \<and> code c \<le> 122)"

definition isprint :: "char \<Rightarrow> bool" where
  "isprint c \<longleftrightarrow> 32 \<le> code c \<and> code c \<le> 126"

text \<open>A C string ends at its first zero.\<close>

abbreviation EOS :: char where "EOS \<equiv> CHR 0x00"

definition c_string :: "string \<Rightarrow> string" where
  "c_string s = takeWhile (\<lambda>c. c \<noteq> EOS) s"

lemma c_string_id: "EOS \<notin> set s \<Longrightarrow> c_string s = s"
  by (auto simp: c_string_def takeWhile_eq_all_conv)

lemma c_string_append: "c_string (s @ t) = (if EOS \<in> set s then c_string s else s @ c_string t)"
  by (induction s) (auto simp: c_string_def)

definition IsUTF8MultiByteStart :: "char \<Rightarrow> bool" where
  "IsUTF8MultiByteStart c \<longleftrightarrow> 192 \<le> code c \<and> code c \<le> 247"

definition IsUTF8MultiByteContinuation :: "char \<Rightarrow> bool" where
  "IsUTF8MultiByteContinuation c \<longleftrightarrow> 128 \<le> code c \<and> code c \<le> 191"

section \<open>Input\<close>

datatype scan_message = EndOfFileInString | IntegerOverflow

record scanner =
  input :: string
  LineCount :: int
  counts_lines :: bool
  IgnoreCompletionErrors :: bool
  diagnostics :: "scan_message list"

definition is_newline :: "char \<Rightarrow> bool" where
  "is_newline c \<longleftrightarrow> code c = 10 \<or> code c = 13"

definition IncrementLineCount :: "scanner \<Rightarrow> scanner" where
  "IncrementLineCount sc = sc\<lparr>LineCount := LineCount sc + 1\<rparr>"

definition DecrementLineCount :: "scanner \<Rightarrow> scanner" where
  "DecrementLineCount sc = sc\<lparr>LineCount := LineCount sc - 1\<rparr>"

definition ResetLineCount :: "scanner \<Rightarrow> scanner" where
  "ResetLineCount sc = sc\<lparr>LineCount := 0\<rparr>"

definition SetLineCount :: "int \<Rightarrow> scanner \<Rightarrow> int \<times> scanner" where
  "SetLineCount n sc = (LineCount sc, sc\<lparr>LineCount := n\<rparr>)"

text \<open>\<open>EnvGetcRouter\<close> and \<open>EnvUngetcRouter\<close> on the file that is loaded (\<open>FastLoadFilePtr\<close>), with \<open>getc\<close> and
  \<open>ungetc\<close> of C, where giving \<open>EOF\<close> back has no effect; \<open>counts_lines\<close> says that the file is the
  \<open>LineCountRouter\<close>.\<close>

definition EnvGetcRouter :: "scanner \<Rightarrow> char option \<times> scanner" where
  "EnvGetcRouter sc =
     (case input sc of
        [] \<Rightarrow> (None, sc)
      | c # cs \<Rightarrow>
          (let sc1 = sc\<lparr>input := cs\<rparr>
           in (Some c, if is_newline c \<and> counts_lines sc then IncrementLineCount sc1 else sc1)))"

definition EnvUngetcRouter :: "char option \<Rightarrow> scanner \<Rightarrow> scanner" where
  "EnvUngetcRouter ch sc =
     (case ch of
        None \<Rightarrow> sc
      | Some c \<Rightarrow>
          (let sc1 = (if is_newline c \<and> counts_lines sc then DecrementLineCount sc else sc)
           in sc1\<lparr>input := c # input sc\<rparr>))"

lemma getc_unget [simp]: "EnvUngetcRouter (fst (EnvGetcRouter sc)) (snd (EnvGetcRouter sc)) = sc"
  by (simp add: EnvGetcRouter_def EnvUngetcRouter_def IncrementLineCount_def DecrementLineCount_def Let_def
      split: list.split)

lemma getc_length: "EnvGetcRouter sc = (Some c, sc') \<Longrightarrow> length (input sc') < length (input sc)"
  by (auto simp: EnvGetcRouter_def IncrementLineCount_def Let_def split: list.splits if_splits)

lemma getc_length_le: "EnvGetcRouter sc = (ch, sc') \<Longrightarrow> length (input sc') \<le> length (input sc)"
  by (auto simp: EnvGetcRouter_def IncrementLineCount_def Let_def split: list.splits if_splits)

lemma getc_measure:
  "(ch, sc') = EnvGetcRouter sc \<Longrightarrow> length (input sc') + (if ch = None then 0 else 1) \<le> length (input sc)"
  by (auto simp: EnvGetcRouter_def IncrementLineCount_def Let_def split: list.splits if_splits)

section \<open>Growing strings\<close>

text \<open>\<open>ExpandStringWithChar\<close>: a backspace removes the last character, that is the continuation bytes of UTF-8
  and the byte before them. The string is kept without its terminating zero.\<close>

fun drop_continuation :: "string \<Rightarrow> string" where
  "drop_continuation (c # d # cs) =
     (if IsUTF8MultiByteContinuation c then drop_continuation (d # cs) else c # d # cs)"
| "drop_continuation cs = cs"

definition ExpandStringWithChar :: "char \<Rightarrow> string \<Rightarrow> string" where
  "ExpandStringWithChar inchar str =
     (if code inchar \<noteq> 8 then str @ [inchar] else rev (tl (drop_continuation (rev str))))"

text \<open>The byte that \<open>EOF\<close> becomes when it is stored in a \<open>char\<close>.\<close>

definition stored :: "char option \<Rightarrow> char" where
  "stored ch = (case ch of Some c \<Rightarrow> c | None \<Rightarrow> char_of (255::nat))"

fun print_chars :: "string \<Rightarrow> string \<Rightarrow> string" where
  "print_chars [] out = out"
| "print_chars (c # cs) out =
     print_chars cs
       (if c = CHR 0x22 \<or> c = CHR 0x5C
        then ExpandStringWithChar c (ExpandStringWithChar (CHR 0x5C) out)
        else ExpandStringWithChar c out)"

definition StringPrintForm :: "string \<Rightarrow> string" where
  "StringPrintForm str = ExpandStringWithChar (CHR 0x22) (print_chars str (ExpandStringWithChar (CHR 0x22) []))"

section \<open>Tokens\<close>

datatype token =
    SYMBOL_TOKEN string
  | STRING_TOKEN string
  | INTEGER_TOKEN int
  | FLOAT_TOKEN u64
  | INSTANCE_NAME_TOKEN string
  | SF_VARIABLE string
  | MF_VARIABLE string
  | GBL_VARIABLE string
  | MF_GBL_VARIABLE string
  | SF_WILDCARD
  | MF_WILDCARD
  | LPAREN | RPAREN | NOT_CONSTRAINT | OR_CONSTRAINT | AND_CONSTRAINT
  | STOP
  | UNKNOWN_VALUE

text \<open>The characters that end a symbol or a number.\<close>

definition is_delimiter :: "char \<Rightarrow> bool" where
  "is_delimiter c \<longleftrightarrow> c \<in> set [CHR ''<'', CHR 0x22, CHR ''('', CHR '')'', CHR ''&'', CHR ''|'', CHR ''~'', CHR '' '', CHR '';'']"

definition symbol_char :: "char \<Rightarrow> bool" where
  "symbol_char c \<longleftrightarrow> \<not> is_delimiter c \<and> (isprint c \<or> IsUTF8MultiByteStart c \<or> IsUTF8MultiByteContinuation c)"

subsection \<open>Symbols\<close>

function symbol_loop :: "string \<Rightarrow> scanner \<Rightarrow> string \<times> scanner" where
  "symbol_loop buf sc =
     (case EnvGetcRouter sc of
        (Some c, sc1) \<Rightarrow>
          if symbol_char c then symbol_loop (ExpandStringWithChar c buf) sc1
          else (buf, EnvUngetcRouter (Some c) sc1)
      | (None, sc1) \<Rightarrow> (buf, EnvUngetcRouter None sc1))"
  by pat_completeness auto
termination
  by (relation "measure (\<lambda>(buf, sc). length (input sc))") (auto dest!: getc_length [OF sym])

declare symbol_loop.simps [simp del]

text \<open>The buffer holds \<open>count\<close> characters when the symbol is complete. A name in square brackets is an
  instance name.\<close>

definition ScanSymbol :: "string \<Rightarrow> scanner \<Rightarrow> token \<times> scanner" where
  "ScanSymbol buf sc =
     (case symbol_loop buf sc of (s, sc1) \<Rightarrow>
        if length s > 2 \<and> hd s = CHR ''['' \<and> last s = CHR '']''
        then (INSTANCE_NAME_TOKEN (butlast (tl s)), sc1) else (SYMBOL_TOKEN s, sc1))"

text \<open>The text of the symbol table entry, whatever its type.\<close>

fun token_text :: "token \<Rightarrow> string" where
  "token_text (SYMBOL_TOKEN s) = s"
| "token_text (INSTANCE_NAME_TOKEN s) = s"
| "token_text _ = []"

subsection \<open>Strings\<close>

function string_loop :: "string \<Rightarrow> char option \<Rightarrow> scanner \<Rightarrow> string \<times> char option \<times> scanner" where
  "string_loop buf inchar sc =
     (case inchar of
        None \<Rightarrow> (buf, None, sc)
      | Some c \<Rightarrow>
          if c = CHR 0x22 then (buf, Some c, sc)
          else (case (if c = CHR 0x5C then EnvGetcRouter sc else (Some c, sc)) of (c1, sc1) \<Rightarrow>
                (case EnvGetcRouter sc1 of (next_char, sc2) \<Rightarrow>
                   string_loop (ExpandStringWithChar (stored c1) buf) next_char sc2)))"
  by pat_completeness auto
termination
proof (relation "measure (\<lambda>(buf, inchar, sc). length (input sc) + (if inchar = None then 0 else 1))", goal_cases)
  case (2 buf inchar sc c c1 sc1 next_char sc2)
  then have "length (input sc1) \<le> length (input sc)"
    using getc_measure [of c1 sc1 sc] by (auto split: if_splits)
  moreover have "length (input sc2) + (if next_char = None then 0 else 1) \<le> length (input sc1)"
    using getc_measure 2(4) by blast
  ultimately show ?case using 2(1) unfolding in_measure by simp
qed simp

declare string_loop.simps [simp del]

definition ScanString :: "scanner \<Rightarrow> string \<times> scanner" where
  "ScanString sc =
     (case EnvGetcRouter sc of (inchar, sc1) \<Rightarrow>
      (case string_loop [] inchar sc1 of (s, last_char, sc2) \<Rightarrow>
         (c_string s, if last_char = None \<and> \<not> IgnoreCompletionErrors sc2
             then sc2\<lparr>diagnostics := diagnostics sc2 @ [EndOfFileInString]\<rparr> else sc2)))"

subsection \<open>Numbers\<close>

text \<open>The phases -1 to 3 of \<open>ScanNumber\<close>; 5 (done) and 9 (not a number) are the results of a step.\<close>

datatype phase = SignPhase | IntegralPhase | DecimalPhase | ExponentBegin | ExponentValue

text \<open>\<open>digitFound\<close>, \<open>processFloat\<close> and the buffer.\<close>

record number_state =
  digitFound :: bool
  processFloat :: bool
  buffer :: string

datatype step_result = Continue phase number_state | Done number_state | NotANumber number_state

definition keep :: "char \<Rightarrow> number_state \<Rightarrow> number_state" where
  "keep c st = st\<lparr>buffer := ExpandStringWithChar c (buffer st)\<rparr>"

definition is_exponent_char :: "char \<Rightarrow> bool" where
  "is_exponent_char c \<longleftrightarrow> c = CHR ''E'' \<or> c = CHR ''e''"

definition is_sign_char :: "char \<Rightarrow> bool" where
  "is_sign_char c \<longleftrightarrow> c = CHR ''+'' \<or> c = CHR ''-''"

text \<open>Whether the character ends the number; in the first phase the start of a UTF-8 character does so too.\<close>

definition ends_number :: "phase \<Rightarrow> char \<Rightarrow> bool" where
  "ends_number ph c \<longleftrightarrow>
     is_delimiter c \<or> (\<not> isprint c \<and> (ph = SignPhase \<or> \<not> IsUTF8MultiByteStart c))"

text \<open>What ending in a phase does to \<open>digitFound\<close>.\<close>

definition end_number :: "phase \<Rightarrow> number_state \<Rightarrow> number_state" where
  "end_number ph st =
     (if ph = ExponentBegin then st\<lparr>digitFound := False\<rparr>
      else if ph = ExponentValue \<and> is_sign_char (last (buffer st)) then st\<lparr>digitFound := False\<rparr>
      else st)"

fun number_step :: "phase \<Rightarrow> char \<Rightarrow> number_state \<Rightarrow> step_result" where
  "number_step SignPhase c st =
     (if isdigit c then Continue IntegralPhase (keep c (st\<lparr>digitFound := True\<rparr>))
      else if is_sign_char c then Continue IntegralPhase (keep c st)
      else if c = CHR ''.'' then Continue DecimalPhase (keep c (st\<lparr>processFloat := True\<rparr>))
      else if is_exponent_char c then Continue ExponentBegin (keep c (st\<lparr>processFloat := True\<rparr>))
      else if ends_number SignPhase c then Done (end_number SignPhase st)
      else NotANumber (keep c st))"
| "number_step IntegralPhase c st =
     (if isdigit c then Continue IntegralPhase (keep c (st\<lparr>digitFound := True\<rparr>))
      else if c = CHR ''.'' then Continue DecimalPhase (keep c (st\<lparr>processFloat := True\<rparr>))
      else if is_exponent_char c then Continue ExponentBegin (keep c (st\<lparr>processFloat := True\<rparr>))
      else if ends_number IntegralPhase c then Done (end_number IntegralPhase st)
      else NotANumber (keep c st))"
| "number_step DecimalPhase c st =
     (if isdigit c then Continue DecimalPhase (keep c (st\<lparr>digitFound := True\<rparr>))
      else if is_exponent_char c then Continue ExponentBegin (keep c st)
      else if ends_number DecimalPhase c then Done (end_number DecimalPhase st)
      else NotANumber (keep c st))"
| "number_step ExponentBegin c st =
     (if isdigit c then Continue ExponentValue (keep c st)
      else if is_sign_char c then Continue ExponentValue (keep c st)
      else if ends_number ExponentBegin c then Done (end_number ExponentBegin st)
      else NotANumber (keep c st))"
| "number_step ExponentValue c st =
     (if isdigit c then Continue ExponentValue (keep c st)
      else if ends_number ExponentValue c then Done (end_number ExponentValue st)
      else NotANumber (keep c st))"

text \<open>The loop. The character that ends the number is given back; \<open>EOF\<close>, which is not printable, ends it.\<close>

function number_loop :: "phase \<Rightarrow> number_state \<Rightarrow> scanner \<Rightarrow> step_result \<times> scanner" where
  "number_loop ph st sc =
     (case EnvGetcRouter sc of
        (None, sc1) \<Rightarrow> (Done (end_number ph st), EnvUngetcRouter None sc1)
      | (Some c, sc1) \<Rightarrow>
          (case number_step ph c st of
             Continue ph' st' \<Rightarrow> number_loop ph' st' sc1
           | Done st' \<Rightarrow> (Done st', EnvUngetcRouter (Some c) sc1)
           | NotANumber st' \<Rightarrow> (NotANumber st', sc1)))"
  by pat_completeness auto
termination
  by (relation "measure (\<lambda>(ph, st, sc). length (input sc))") (auto dest!: getc_length [OF sym])

declare number_loop.simps [simp del]

text \<open>\<open>strtoll\<close> on an optional sign and digits: saturates at the ends of \<open>long long\<close>.\<close>

definition digit_value :: "char \<Rightarrow> int" where
  "digit_value c = int (code c) - 48"

definition digits_value :: "string \<Rightarrow> int" where
  "digits_value s = foldl (\<lambda>v c. v * 10 + digit_value c) 0 s"

definition signed_value :: "string \<Rightarrow> int" where
  "signed_value s =
     (case s of
        [] \<Rightarrow> 0
      | c # cs \<Rightarrow>
          if c = CHR ''-'' then - digits_value cs
          else if c = CHR ''+'' then digits_value cs else digits_value s)"

definition LLONG_MAX :: int where "LLONG_MAX = 2 ^ 63 - 1"
definition LLONG_MIN :: int where "LLONG_MIN = - (2 ^ 63)"

definition strtoll :: "string \<Rightarrow> int \<times> bool" where
  "strtoll s = (let v = signed_value s in (max LLONG_MIN (min LLONG_MAX v), v < LLONG_MIN \<or> LLONG_MAX < v))"

text \<open>\<open>atof\<close>: the double nearest to the decimal fraction, ties to even, infinity beyond the largest.\<close>

function bits_of :: "int \<Rightarrow> int" where
  "bits_of n = (if n \<le> 0 then 0 else bits_of (n div 2) + 1)"
  by pat_completeness auto
termination by (relation "measure nat") auto

declare bits_of.simps [simp del]

definition ratio_to_double :: "int \<Rightarrow> int \<Rightarrow> int" where
  "ratio_to_double n d =
     (if n = 0 then 0
      else (let e1 = bits_of n - bits_of d - 53;
                scaled = (\<lambda>e. if e \<ge> 0 then (n, d * 2 ^ nat e) else (n * 2 ^ nat (- e), d));
                e2 = (if fst (scaled e1) div snd (scaled e1) < 2 ^ 53 then e1 else e1 + 1);
                e = max (- 1074) e2;
                a = fst (scaled e); b = snd (scaled e); q = a div b; r = a mod b;
                q1 = (if 2 * r > b \<or> (2 * r = b \<and> odd q) then q + 1 else q)
            in min (2047 * 2 ^ 52) ((e + 1074) * 2 ^ 52 + q1)))"

definition atof :: "string \<Rightarrow> u64" where
  "atof s =
     (let negative = (s \<noteq> [] \<and> hd s = CHR ''-'');
          s1 = (if s \<noteq> [] \<and> is_sign_char (hd s) then tl s else s);
          ip = takeWhile isdigit s1; s2 = dropWhile isdigit s1;
          fp = (if s2 \<noteq> [] \<and> hd s2 = CHR ''.'' then takeWhile isdigit (tl s2) else []);
          s3 = (if s2 \<noteq> [] \<and> hd s2 = CHR ''.'' then dropWhile isdigit (tl s2) else s2);
          ex = (if s3 \<noteq> [] \<and> is_exponent_char (hd s3) then signed_value (tl s3) else 0);
          m = digits_value (ip @ fp); k = ex - int (length fp);
          bits = (if k \<ge> 0 then ratio_to_double (m * 10 ^ nat k) 1 else ratio_to_double m (10 ^ nat (- k)))
      in word_of_int ((if negative then 2 ^ 63 else 0) + bits))"

definition ScanNumber :: "scanner \<Rightarrow> token \<times> scanner" where
  "ScanNumber sc =
     (case number_loop SignPhase \<lparr>digitFound = False, processFloat = False, buffer = []\<rparr> sc of
        (NotANumber st, sc1) \<Rightarrow> ScanSymbol (buffer st) sc1
      | (Done st, sc1) \<Rightarrow>
          if \<not> digitFound st then (SYMBOL_TOKEN (buffer st), sc1)
          else if processFloat st then (FLOAT_TOKEN (atof (buffer st)), sc1)
          else (case strtoll (buffer st) of (v, overflow) \<Rightarrow>
                (INTEGER_TOKEN v,
                 if overflow then sc1\<lparr>diagnostics := diagnostics sc1 @ [IntegerOverflow]\<rparr> else sc1))
      | (Continue ph st, sc1) \<Rightarrow> (UNKNOWN_VALUE, sc1))"

subsection \<open>GetToken\<close>

definition is_white :: "char \<Rightarrow> bool" where
  "is_white c \<longleftrightarrow> code c \<in> set [32, 10, 12, 13, 59, 9]"

text \<open>The rest of a comment line, with its newline.\<close>

function skip_comment :: "scanner \<Rightarrow> scanner" where
  "skip_comment sc =
     (case EnvGetcRouter sc of
        (None, sc1) \<Rightarrow> sc1
      | (Some c, sc1) \<Rightarrow> if is_newline c then sc1 else skip_comment sc1)"
  by pat_completeness auto
termination
  by (relation "measure (\<lambda>sc. length (input sc))") (auto dest!: getc_length [OF sym])

declare skip_comment.simps [simp del]

lemma skip_comment_length: "length (input (skip_comment sc)) \<le> length (input sc)"
proof (induction sc rule: skip_comment.induct)
  case (1 sc)
  then show ?case
    using getc_length_le [of sc]
    by (subst skip_comment.simps) (fastforce split: prod.splits option.splits)
qed

function skip_white :: "char option \<Rightarrow> scanner \<Rightarrow> char option \<times> scanner" where
  "skip_white inchar sc =
     (case inchar of
        None \<Rightarrow> (None, sc)
      | Some c \<Rightarrow>
          if is_white c
          then (case EnvGetcRouter (if c = CHR '';'' then skip_comment sc else sc) of
                  (next_char, sc1) \<Rightarrow> skip_white next_char sc1)
          else (Some c, sc))"
  by pat_completeness auto
termination
proof (relation "measure (\<lambda>(inchar, sc). length (input sc) + (if inchar = None then 0 else 1))", goal_cases)
  case (2 inchar sc c next_char sc1)
  have "length (input sc1) + (if next_char = None then 0 else 1) \<le>
      length (input (if c = CHR '';'' then skip_comment sc else sc))"
    using getc_measure 2(3) by blast
  also have "\<dots> \<le> length (input sc)" by (simp add: skip_comment_length)
  finally show ?case using 2(1) unfolding in_measure by simp
qed simp

declare skip_white.simps [simp del]

text \<open>The name after \<open>?\<close> or \<open>$?\<close>: between asterisks it names a global variable.\<close>

definition scan_variable :: "(string \<Rightarrow> token) \<Rightarrow> (string \<Rightarrow> token) \<Rightarrow> token \<Rightarrow> scanner \<Rightarrow> token \<times> scanner" where
  "scan_variable local_variable global_variable wildcard sc =
     (case EnvGetcRouter sc of (inchar, sc1) \<Rightarrow>
        (case inchar of
           Some c \<Rightarrow>
             if isalpha c \<or> IsUTF8MultiByteStart c \<or> c = CHR ''*''
             then (case ScanSymbol [] (EnvUngetcRouter inchar sc1) of (t, sc2) \<Rightarrow>
                   let s = token_text t
                   in if hd s = CHR ''*'' \<and> length s > 1 \<and> last s = CHR ''*''
                      then (global_variable (butlast (tl s)), sc2) else (local_variable s, sc2))
             else (wildcard, EnvUngetcRouter inchar sc1)
         | None \<Rightarrow> (wildcard, EnvUngetcRouter inchar sc1)))"

definition as_symbol :: "token \<times> scanner \<Rightarrow> token \<times> scanner" where
  "as_symbol = (\<lambda>(t, sc). (SYMBOL_TOKEN (token_text t), sc))"

text \<open>The token that starts with the character \<open>c\<close>, which has been read.\<close>

definition token_from :: "char \<Rightarrow> scanner \<Rightarrow> token \<times> scanner" where
  "token_from c sc =
     (if isalpha c \<or> IsUTF8MultiByteStart c then as_symbol (ScanSymbol [] (EnvUngetcRouter (Some c) sc))
      else if isdigit c then ScanNumber (EnvUngetcRouter (Some c) sc)
      else if c = CHR 0x22 then (case ScanString sc of (s, sc1) \<Rightarrow> (STRING_TOKEN s, sc1))
      else if c = CHR ''-'' \<or> c = CHR ''.'' \<or> c = CHR ''+'' then ScanNumber (EnvUngetcRouter (Some c) sc)
      else if c = CHR ''?'' then scan_variable SF_VARIABLE GBL_VARIABLE SF_WILDCARD sc
      else if c = CHR ''$'' then
        (case EnvGetcRouter sc of (inchar, sc1) \<Rightarrow>
           if inchar = Some (CHR ''?'') then scan_variable MF_VARIABLE MF_GBL_VARIABLE MF_WILDCARD sc1
           else as_symbol (ScanSymbol (ExpandStringWithChar (CHR ''$'') []) (EnvUngetcRouter inchar sc1)))
      else if c = CHR ''<'' then as_symbol (ScanSymbol (ExpandStringWithChar (CHR ''<'') []) sc)
      else if c = CHR ''('' then (LPAREN, sc)
      else if c = CHR '')'' then (RPAREN, sc)
      else if c = CHR ''~'' then (NOT_CONSTRAINT, sc)
      else if c = CHR ''|'' then (OR_CONSTRAINT, sc)
      else if c = CHR ''&'' then (AND_CONSTRAINT, sc)
      else if code c = 0 \<or> code c = 3 then (STOP, sc)
      else if isprint c then ScanSymbol [] (EnvUngetcRouter (Some c) sc)
      else (UNKNOWN_VALUE, sc))"

definition GetToken :: "scanner \<Rightarrow> token \<times> scanner" where
  "GetToken sc =
     (case EnvGetcRouter sc of (ch, sc1) \<Rightarrow>
      (case skip_white ch sc1 of
         (None, sc2) \<Rightarrow> (STOP, sc2)
       | (Some c, sc2) \<Rightarrow> token_from c sc2))"

section \<open>Facts\<close>

text \<open>The scanner after reading \<open>s\<close>, with \<open>rest\<close> left.\<close>

definition after_reading :: "string \<Rightarrow> string \<Rightarrow> scanner \<Rightarrow> scanner" where
  "after_reading s rest sc =
     sc\<lparr>input := rest, LineCount := LineCount sc + (if counts_lines sc then int (length (filter is_newline s)) else 0)\<rparr>"

lemma after_reading_fields [simp]:
  "input (after_reading s rest sc) = rest"
  "counts_lines (after_reading s rest sc) = counts_lines sc"
  "IgnoreCompletionErrors (after_reading s rest sc) = IgnoreCompletionErrors sc"
  "diagnostics (after_reading s rest sc) = diagnostics sc"
  by (simp_all add: after_reading_def)

lemma after_reading_trans [simp]:
  "after_reading t rest (after_reading s r sc) = after_reading (s @ t) rest sc"
  by (simp add: after_reading_def)

lemma getc_input: "input sc = c # cs \<Longrightarrow> EnvGetcRouter sc = (Some c, after_reading [c] cs sc)"
  by (simp add: EnvGetcRouter_def after_reading_def IncrementLineCount_def Let_def)

lemma getc_end: "input sc = [] \<Longrightarrow> EnvGetcRouter sc = (None, sc)"
  by (simp add: EnvGetcRouter_def)

lemma unget_after_reading:
  "EnvUngetcRouter (Some c) (after_reading (s @ [c]) cs sc) = after_reading s (c # cs) sc"
  by (simp add: EnvUngetcRouter_def after_reading_def DecrementLineCount_def Let_def)

lemma after_reading_nothing: "input sc = rest \<Longrightarrow> after_reading [] rest sc = sc"
  by (simp add: after_reading_def)

subsection \<open>Strings\<close>

fun escape :: "string \<Rightarrow> string" where
  "escape [] = []"
| "escape (c # cs) = (if c = CHR 0x22 \<or> c = CHR 0x5C then [CHR 0x5C, c] else [c]) @ escape cs"

definition no_backspace :: "string \<Rightarrow> bool" where
  "no_backspace s \<longleftrightarrow> CHR 0x08 \<notin> set s"

lemma code_backspace: "code c = 8 \<longleftrightarrow> c = CHR 0x08"
proof -
  have "of_char (CHR 0x08) = (8::nat)" by simp
  then show ?thesis unfolding code_def by (metis char_of_char)
qed

lemma ExpandStringWithChar_append: "c \<noteq> CHR 0x08 \<Longrightarrow> ExpandStringWithChar c str = str @ [c]"
  by (simp add: ExpandStringWithChar_def code_backspace)

lemma print_chars_escape: "no_backspace s \<Longrightarrow> print_chars s out = out @ escape s"
  by (induction s arbitrary: out) (auto simp: no_backspace_def ExpandStringWithChar_append)

lemma StringPrintForm_escape:
  "no_backspace s \<Longrightarrow> StringPrintForm s = CHR 0x22 # escape s @ [CHR 0x22]"
  by (simp add: StringPrintForm_def print_chars_escape ExpandStringWithChar_append)

lemma string_loop_escape:
  "no_backspace s \<Longrightarrow> input sc = escape s @ CHR 0x22 # rest \<Longrightarrow>
    (case EnvGetcRouter sc of (ch, sc1) \<Rightarrow> string_loop buf ch sc1) =
      (buf @ s, Some (CHR 0x22), after_reading (escape s @ [CHR 0x22]) rest sc)"
proof (induction s arbitrary: buf sc)
  case Nil
  then show ?case by (simp add: getc_input string_loop.simps)
next
  case (Cons c s)
  have c: "c \<noteq> CHR 0x08" and s: "no_backspace s" using Cons.prems(1) by (auto simp: no_backspace_def)
  let ?rest = "escape s @ CHR 0x22 # rest"
  show ?case
  proof (cases "c = CHR 0x22 \<or> c = CHR 0x5C")
    case True
    let ?sc = "after_reading [CHR 0x5C, c] ?rest sc"
    have "EnvGetcRouter sc = (Some (CHR 0x5C), after_reading [CHR 0x5C] (c # ?rest) sc)"
      using True Cons.prems(2) by (simp add: getc_input)
    moreover have "EnvGetcRouter (after_reading [CHR 0x5C] (c # ?rest) sc) = (Some c, ?sc)"
      by (simp add: getc_input)
    ultimately show ?thesis
      using Cons.IH [OF s, of ?sc "buf @ [c]"] True c
      by (simp add: string_loop.simps [of buf "Some (CHR 0x5C)"] stored_def ExpandStringWithChar_append)
  next
    case False
    let ?sc = "after_reading [c] ?rest sc"
    have "EnvGetcRouter sc = (Some c, ?sc)"
      using False Cons.prems(2) by (simp add: getc_input)
    then show ?thesis
      using Cons.IH [OF s, of ?sc "buf @ [c]"] False c
      by (simp add: string_loop.simps [of buf "Some c"] stored_def ExpandStringWithChar_append)
  qed
qed

lemma ScanString_escape:
  assumes "no_backspace s" "EOS \<notin> set s" "input sc = escape s @ CHR 0x22 # rest"
  shows "ScanString sc = (s, after_reading (escape s @ [CHR 0x22]) rest sc)"
  using string_loop_escape [OF assms(1,3), of "[]"] assms(2)
  by (cases "EnvGetcRouter sc") (simp add: ScanString_def c_string_id)

lemma GetToken_start:
  assumes "input sc = c # cs" "\<not> is_white c"
  shows "EnvGetcRouter sc = (Some c, after_reading [c] cs sc)"
    "skip_white (Some c) (after_reading [c] cs sc) = (Some c, after_reading [c] cs sc)"
  using assms by (simp_all add: getc_input skip_white.simps)

lemma GetToken_string:
  assumes "no_backspace s" "EOS \<notin> set s" "input sc = StringPrintForm s @ rest"
  shows "GetToken sc = (STRING_TOKEN s, after_reading (StringPrintForm s) rest sc)"
proof -
  let ?cs = "escape s @ CHR 0x22 # rest"
  have inp: "input sc = CHR 0x22 # ?cs" using assms by (simp add: StringPrintForm_escape)
  have q: "\<not> is_white (CHR 0x22)" "\<not> isalpha (CHR 0x22)" "\<not> isdigit (CHR 0x22)" "\<not> IsUTF8MultiByteStart (CHR 0x22)"
    by code_simp+
  show ?thesis
    using GetToken_start [OF inp q(1)] q(2-4) ScanString_escape [OF assms(1,2), of "after_reading [CHR 0x22] ?cs sc" rest]
    by (simp add: GetToken_def token_from_def StringPrintForm_escape [OF assms(1)])
qed

subsection \<open>Integers\<close>

lemma digit_facts:
  assumes "isdigit c"
  shows "c \<noteq> CHR 0x08" "isprint c" "\<not> is_white c" "\<not> isalpha c" "\<not> IsUTF8MultiByteStart c" "\<not> is_sign_char c"
  using assms by (auto simp: isdigit_def isprint_def is_white_def isalpha_def IsUTF8MultiByteStart_def
      is_sign_char_def code_def)

lemma sign_facts:
  assumes "is_sign_char c"
  shows "c \<noteq> CHR 0x08" "\<not> is_white c" "\<not> isalpha c" "\<not> IsUTF8MultiByteStart c" "\<not> isdigit c" "c \<noteq> CHR 0x22"
    "c = CHR ''-'' \<or> c = CHR ''.'' \<or> c = CHR ''+''"
  using assms by (auto simp: isdigit_def is_white_def isalpha_def IsUTF8MultiByteStart_def is_sign_char_def code_def)

lemma ends_number_facts:
  assumes "ends_number IntegralPhase c"
  shows "\<not> isdigit c" "c \<noteq> CHR ''.''" "\<not> is_exponent_char c"
  using assms by (auto simp: ends_number_def is_delimiter_def isprint_def isdigit_def is_exponent_char_def
      IsUTF8MultiByteStart_def code_def)

definition number_ends :: "string \<Rightarrow> bool" where
  "number_ends rest \<longleftrightarrow> rest = [] \<or> ends_number IntegralPhase (hd rest)"

lemma number_loop_digits:
  "\<forall>c \<in> set ds. isdigit c \<Longrightarrow> number_ends rest \<Longrightarrow> input sc = ds @ rest \<Longrightarrow>
    number_loop IntegralPhase st sc =
      (Done (st\<lparr>digitFound := digitFound st \<or> ds \<noteq> [], buffer := buffer st @ ds\<rparr>), after_reading ds rest sc)"
proof (induction ds arbitrary: st sc)
  case Nil
  show ?case
  proof (cases rest)
    case Nil
    with Nil.prems show ?thesis
      by (simp add: number_loop.simps getc_end end_number_def EnvUngetcRouter_def after_reading_nothing)
  next
    case (Cons c cs)
    with Nil.prems ends_number_facts [of c] show ?thesis
      using unget_after_reading [of c "[]" cs sc]
      by (simp add: number_loop.simps getc_input end_number_def number_ends_def)
  qed
next
  case (Cons d ds)
  let ?st = "st\<lparr>digitFound := True, buffer := buffer st @ [d]\<rparr>"
  have d: "isdigit d" "d \<noteq> CHR 0x08" using Cons.prems(1) digit_facts(1) [of d] by auto
  have "number_loop IntegralPhase st sc = number_loop IntegralPhase ?st (after_reading [d] (ds @ rest) sc)"
    using Cons.prems(3) d
    by (simp add: number_loop.simps [of _ st] getc_input keep_def ExpandStringWithChar_append)
  then show ?case
    using Cons.IH [of "after_reading [d] (ds @ rest) sc" ?st] Cons.prems by simp
qed

lemma ScanNumber_integer:
  assumes "sg = [] \<or> sg = ''+'' \<or> sg = ''-''" "ds \<noteq> []" "\<forall>c \<in> set ds. isdigit c" "number_ends rest"
    and "input sc = sg @ ds @ rest"
  shows "ScanNumber sc =
    (case strtoll (sg @ ds) of (v, overflow) \<Rightarrow>
       let sc1 = after_reading (sg @ ds) rest sc
       in (INTEGER_TOKEN v, if overflow then sc1\<lparr>diagnostics := diagnostics sc @ [IntegerOverflow]\<rparr> else sc1))"
proof -
  let ?st = "\<lparr>digitFound = False, processFloat = False, buffer = []\<rparr>"
  have "number_loop SignPhase ?st sc =
      (Done \<lparr>digitFound = True, processFloat = False, buffer = sg @ ds\<rparr>, after_reading (sg @ ds) rest sc)"
  proof (cases "sg = []")
    case True
    obtain d ds' where ds: "ds = d # ds'" using assms(2) by (cases ds) auto
    then have d: "isdigit d" "d \<noteq> CHR 0x08" using assms(3) digit_facts(1) [of d] by auto
    then show ?thesis
      using True ds assms(3-5) number_loop_digits [of ds' rest "after_reading [d] (ds' @ rest) sc"]
      by (simp add: number_loop.simps [of SignPhase] getc_input keep_def ExpandStringWithChar_append)
  next
    case False
    then obtain c where c: "sg = [c]" "is_sign_char c" using assms(1) by (auto simp: is_sign_char_def)
    then show ?thesis
      using assms(2-5) sign_facts(1,5) [of c] number_loop_digits [of ds rest "after_reading [c] (ds @ rest) sc"]
      by (simp add: number_loop.simps [of SignPhase] getc_input keep_def ExpandStringWithChar_append)
  qed
  then show ?thesis
    by (simp add: ScanNumber_def Let_def split: prod.splits)
qed

lemma GetToken_integer:
  assumes "sg = [] \<or> sg = ''+'' \<or> sg = ''-''" "ds \<noteq> []" "\<forall>c \<in> set ds. isdigit c" "number_ends rest"
    and "input sc = sg @ ds @ rest"
  shows "GetToken sc = ScanNumber sc"
proof -
  obtain c cs where cs: "input sc = c # cs" and c: "isdigit c \<or> is_sign_char c"
    using assms(1-3,5) by (cases sg; cases ds) (auto simp: is_sign_char_def)
  then have "\<not> is_white c" using digit_facts(3) sign_facts(2) by blast
  note start = GetToken_start [OF cs this]
  have again: "EnvUngetcRouter (Some c) (after_reading [c] cs sc) = sc"
    using unget_after_reading [of c "[]" cs sc] cs by (simp add: after_reading_nothing)
  from c show ?thesis
  proof
    assume "isdigit c"
    with digit_facts(4,5) [of c] show ?thesis by (simp add: GetToken_def token_from_def start again)
  next
    assume "is_sign_char c"
    from sign_facts(3-7) [OF this] show ?thesis by (simp add: GetToken_def token_from_def start again)
  qed
qed

subsection \<open>Progress\<close>

text \<open>Every token but \<open>STOP\<close> takes at least one character off the input.\<close>

abbreviation size_left :: "scanner \<Rightarrow> nat" where "size_left sc \<equiv> length (input sc)"

lemma unget_getc: "EnvGetcRouter sc = (ch, sc1) \<Longrightarrow> EnvUngetcRouter ch sc1 = sc"
  using getc_unget [of sc] by simp

lemma unget_size: "size_left (EnvUngetcRouter ch sc) = size_left sc + (if ch = None then 0 else 1)"
  by (auto simp: EnvUngetcRouter_def Let_def split: option.split)

lemma symbol_loop_size: "size_left (snd (symbol_loop buf sc)) \<le> size_left sc"
proof (induction buf sc rule: symbol_loop.induct)
  case (1 buf sc)
  show ?case
  proof (cases "EnvGetcRouter sc")
    case (Pair ch sc1)
    show ?thesis
    proof (cases ch)
      case None
      then show ?thesis using Pair unget_getc [OF Pair] by (simp add: symbol_loop.simps [of buf sc])
    next
      case (Some c)
      then show ?thesis
        using Pair unget_getc [OF Pair] 1 [OF Pair [symmetric] Some] getc_length [of sc c sc1]
        by (cases "symbol_char c") (simp_all add: symbol_loop.simps [of buf sc])
    qed
  qed
qed

lemma symbol_loop_progress:
  assumes "input sc = c # cs" "symbol_char c"
  shows "size_left (snd (symbol_loop buf sc)) < size_left sc"
  using assms symbol_loop_size [of "ExpandStringWithChar c buf" "after_reading [c] cs sc"]
  by (simp add: symbol_loop.simps [of buf sc] getc_input)

lemma ScanSymbol_size: "size_left (snd (ScanSymbol buf sc)) = size_left (snd (symbol_loop buf sc))"
  by (simp add: ScanSymbol_def split: prod.split)

lemma string_loop_size: "size_left (snd (snd (string_loop buf ch sc))) \<le> size_left sc"
proof (induction buf ch sc rule: string_loop.induct)
  case (1 buf ch sc)
  show ?case
  proof (cases "ch = None \<or> ch = Some (CHR 0x22)")
    case True
    then show ?thesis by (auto simp: string_loop.simps [of buf])
  next
    case False
    then obtain c where c: "ch = Some c" "c \<noteq> CHR 0x22" by auto
    obtain c1 sc1 where s1: "(if c = CHR 0x5C then EnvGetcRouter sc else (Some c, sc)) = (c1, sc1)" by fastforce
    obtain c2 sc2 where s2: "EnvGetcRouter sc1 = (c2, sc2)" by fastforce
    have "size_left sc1 \<le> size_left sc" using s1 getc_length_le [of sc] by (auto split: if_splits)
    moreover have "size_left sc2 \<le> size_left sc1" using getc_length_le [OF s2] .
    moreover have "string_loop buf ch sc = string_loop (ExpandStringWithChar (stored c1) buf) c2 sc2"
      using c s1 s2 by (cases "c = CHR 0x5C") (auto simp: string_loop.simps [of buf _ sc] string_loop.simps [of buf _ sc1])
    ultimately show ?thesis
      using 1 [OF c(1,2) s1 [symmetric] s2 [symmetric]] by simp
  qed
qed

lemma number_loop_size: "size_left (snd (number_loop ph st sc)) \<le> size_left sc"
proof (induction ph st sc rule: number_loop.induct)
  case (1 ph st sc)
  show ?case
  proof (cases "EnvGetcRouter sc")
    case (Pair ch sc1)
    show ?thesis
    proof (cases ch)
      case None
      then show ?thesis using Pair unget_getc [OF Pair] by (simp add: number_loop.simps [of ph])
    next
      case (Some c)
      then show ?thesis
        using Pair unget_getc [OF Pair] 1 [OF Pair [symmetric] Some] getc_length [of sc c sc1]
        by (cases "number_step ph c st") (simp_all add: number_loop.simps [of ph])
    qed
  qed
qed

lemma ScanNumber_progress:
  assumes "input sc = c # cs" "isdigit c \<or> is_sign_char c \<or> c = CHR ''.''"
  shows "size_left (snd (ScanNumber sc)) < size_left sc"
proof -
  let ?st = "\<lparr>digitFound = False, processFloat = False, buffer = []\<rparr>"
  have "\<exists>ph st. number_step SignPhase c ?st = Continue ph st"
    using assms(2) by auto
  then obtain ph st where "number_step SignPhase c ?st = Continue ph st" by blast
  then have "number_loop SignPhase ?st sc = number_loop ph st (after_reading [c] cs sc)"
    using assms(1) by (simp add: number_loop.simps [of SignPhase] getc_input)
  then have less: "size_left (snd (number_loop SignPhase ?st sc)) < size_left sc"
    using number_loop_size [of ph st "after_reading [c] cs sc"] assms(1) by simp
  show ?thesis
  proof (cases "number_loop SignPhase ?st sc")
    case (Pair res sc1)
    then show ?thesis
    proof (cases res)
      case (NotANumber st')
      then show ?thesis
        using Pair less symbol_loop_size [of "buffer st'" sc1] ScanSymbol_size [of "buffer st'" sc1]
        by (simp add: ScanNumber_def)
    qed (use Pair less in \<open>auto simp: ScanNumber_def split: prod.splits\<close>)
  qed
qed

lemma skip_white_size:
  "skip_white ch sc = (Some c, sc') \<Longrightarrow> size_left sc' < size_left sc + (if ch = None then 0 else 1) \<and> \<not> is_white c"
proof (induction ch sc rule: skip_white.induct)
  case (1 ch sc)
  then obtain d where d: "ch = Some d" by (cases ch) (auto simp: skip_white.simps [of None])
  show ?case
  proof (cases "is_white d")
    case False
    then show ?thesis using 1(2) d by (simp add: skip_white.simps [of "Some d"])
  next
    case True
    let ?sc = "if d = CHR '';'' then skip_comment sc else sc"
    obtain ch2 sc2 where g: "EnvGetcRouter ?sc = (ch2, sc2)" by fastforce
    have "size_left ?sc \<le> size_left sc" by (simp add: skip_comment_length)
    moreover have "skip_white ch2 sc2 = (Some c, sc')"
      using 1(2) d True g by (simp add: skip_white.simps [of "Some d"])
    ultimately show ?thesis
      using 1(1) [OF d True g [symmetric]] getc_measure [OF g [symmetric]] d by simp
  qed
qed

lemma scan_variable_size: "size_left (snd (scan_variable f g w sc)) \<le> size_left sc"
proof (cases "EnvGetcRouter sc")
  case (Pair ch sc1)
  have "size_left (snd (ScanSymbol [] sc)) \<le> size_left sc"
    using symbol_loop_size [of "[]" sc] ScanSymbol_size [of "[]" sc] by simp
  then show ?thesis
    using unget_getc [OF Pair] Pair
    by (cases ch; cases "ScanSymbol [] sc") (simp_all add: scan_variable_def Let_def)
qed

lemma symbol_char_start:
  "isalpha c \<or> IsUTF8MultiByteStart c \<Longrightarrow> symbol_char c"
  "isprint c \<Longrightarrow> \<not> is_delimiter c \<Longrightarrow> symbol_char c"
  by (auto simp: symbol_char_def is_delimiter_def isalpha_def isprint_def IsUTF8MultiByteStart_def code_def)

lemma printable_not_delimiter:
  assumes "\<not> is_white c"
    and "c \<noteq> CHR ''<''" "c \<noteq> CHR 0x22" "c \<noteq> CHR ''(''" "c \<noteq> CHR '')''" "c \<noteq> CHR ''&''" "c \<noteq> CHR ''|''" "c \<noteq> CHR ''~''"
  shows "\<not> is_delimiter c"
proof -
  have "is_white (CHR '' '')" "is_white (CHR '';'')" by code_simp+
  then have "c \<noteq> CHR '' ''" "c \<noteq> CHR '';''" using assms(1) by auto
  with assms(2-8) show ?thesis by (simp add: is_delimiter_def)
qed

lemma ScanString_size: "size_left (snd (ScanString sc)) \<le> size_left sc"
proof -
  obtain ch sc1 where g: "EnvGetcRouter sc = (ch, sc1)" by fastforce
  obtain s q sc2 where l: "string_loop [] ch sc1 = (s, q, sc2)" by (metis prod_cases3)
  show ?thesis
    using string_loop_size [of "[]" ch sc1] getc_length_le [OF g] by (simp add: ScanString_def g l)
qed

lemma token_from_progress:
  assumes "\<not> is_white c" "size_left sc < n"
  shows "fst (token_from c sc) = STOP \<or> size_left (snd (token_from c sc)) < n"
proof -
  let ?sc = "EnvUngetcRouter (Some c) sc"
  have inp: "input ?sc = c # input sc" by (simp add: EnvUngetcRouter_def Let_def)
  then have le: "size_left ?sc \<le> n" using assms(2) by simp
  have sym: "size_left (snd (ScanSymbol [] ?sc)) < n" if "symbol_char c"
    using symbol_loop_progress [OF inp that, of "[]"] ScanSymbol_size [of "[]" ?sc] le by simp
  have num: "size_left (snd (ScanNumber ?sc)) < n" if "isdigit c \<or> c = CHR ''-'' \<or> c = CHR ''.'' \<or> c = CHR ''+''"
    using ScanNumber_progress [OF inp] le that by (force simp: is_sign_char_def)
  have any: "size_left (snd (ScanSymbol buf s)) < n" if "size_left s \<le> size_left sc" for buf s
    using symbol_loop_size [of buf s] ScanSymbol_size [of buf s] assms(2) that by simp
  have str: "size_left (snd (ScanString sc)) < n" using ScanString_size [of sc] assms(2) by simp
  have var: "size_left (snd (scan_variable f h u s)) < n" if "size_left s \<le> size_left sc" for f h u s
    using scan_variable_size [of f h u s] assms(2) that by simp
  obtain inchar sc1 where g: "EnvGetcRouter sc = (inchar, sc1)" by fastforce
  have sz: "size_left sc1 \<le> size_left sc" "EnvUngetcRouter inchar sc1 = sc"
    using getc_length_le [OF g] unget_getc [OF g] by auto
  note delim = printable_not_delimiter [OF assms(1)]
  show ?thesis
    unfolding token_from_def
    using sym num any [of sc] any [of sc1] str var [of sc] var [of sc1] sz assms(2) symbol_char_start [of c] delim
    by (simp add: g as_symbol_def case_prod_beta split: if_split)
qed

lemma GetToken_size:
  assumes "GetToken sc = (t, sc')" "t \<noteq> STOP"
  shows "size_left sc' < size_left sc"
proof -
  obtain ch sc1 where g: "EnvGetcRouter sc = (ch, sc1)" by fastforce
  obtain inchar sc2 where w: "skip_white ch sc1 = (inchar, sc2)" by fastforce
  obtain c where c: "inchar = Some c" using assms g w by (cases inchar) (auto simp: GetToken_def)
  have "size_left sc2 < size_left sc" "\<not> is_white c"
    using skip_white_size [of ch sc1 c sc2] w c getc_measure [OF g [symmetric]] by auto
  from token_from_progress [OF this(2,1)] show ?thesis
    using assms g w c by (simp add: GetToken_def)
qed

end
