(* ===== verification/String_Buffers.thy ===== *)
theory String_Buffers
  imports Scanner
begin

text \<open>
  The growing string buffers, the UTF-8 index functions and the lists of registered functions of
  \<open>utility.c\<close>. A buffer is the allocated memory, of which the C code knows the size, and the position of
  the end of the string; fresh memory has unknown contents, given by the argument \<open>junk\<close>. A write outside the
  memory is \<open>None\<close>.
\<close>

section \<open>Buffers\<close>

record string_buffer =
  memory :: string
  end_pos :: nat

text \<open>\<open>genrealloc\<close>: the old contents, then memory that was never written.\<close>

definition genrealloc :: "char \<Rightarrow> nat \<Rightarrow> string \<Rightarrow> string" where
  "genrealloc junk newSize mem = take newSize (mem @ replicate newSize junk)"

text \<open>Reallocation under a condition.\<close>

definition ensure :: "char \<Rightarrow> bool \<Rightarrow> nat \<Rightarrow> string \<Rightarrow> string" where
  "ensure junk too_small newSize mem = (if too_small then genrealloc junk newSize mem else mem)"

text \<open>Writing bytes at a position.\<close>

definition store_at :: "nat \<Rightarrow> string \<Rightarrow> string \<Rightarrow> string option" where
  "store_at i bs mem = (if i + length bs \<le> length mem then Some (take i mem @ bs @ drop (i + length bs) mem) else None)"

definition EnlargeString :: "char \<Rightarrow> nat \<Rightarrow> string_buffer \<Rightarrow> string_buffer" where
  "EnlargeString junk len buf =
     buf\<lparr>memory := ensure junk (len + end_pos buf + 1 > length (memory buf)) (len + end_pos buf + 1) (memory buf)\<rparr>"

text \<open>\<open>genstrcpy\<close> copies the terminating zero too.\<close>

definition AppendToString :: "char \<Rightarrow> string \<Rightarrow> string_buffer \<Rightarrow> string_buffer option" where
  "AppendToString junk appendStr buf =
     (let buf1 = EnlargeString junk (length appendStr) buf
      in map_option (\<lambda>mem. \<lparr>memory = mem, end_pos = end_pos buf + length appendStr\<rparr>)
           (store_at (end_pos buf) (appendStr @ [EOS]) (memory buf1)))"

text \<open>\<open>memmove\<close> of \<open>n\<close> bytes within the memory.\<close>

definition memmove :: "nat \<Rightarrow> nat \<Rightarrow> nat \<Rightarrow> string \<Rightarrow> string option" where
  "memmove dest src n mem = (if src + n \<le> length mem then store_at dest (take n (drop src mem)) mem else None)"

definition InsertInString :: "char \<Rightarrow> string \<Rightarrow> nat \<Rightarrow> string_buffer \<Rightarrow> string_buffer option" where
  "InsertInString junk insertStr position buf =
     (let len = length insertStr; buf1 = EnlargeString junk len buf
      in if position > end_pos buf then None else
         Option.bind (memmove position (position + len) (end_pos buf - position) (memory buf1)) (\<lambda>mem1.
         map_option (\<lambda>mem2. \<lparr>memory = mem2, end_pos = end_pos buf + len\<rparr>)
           (store_at (end_pos buf) insertStr mem1)))"

text \<open>\<open>genstrncpy\<close>: exactly \<open>n\<close> bytes, zeros behind the end of the string. \<open>AppendNToString\<close> reads the byte with
  index \<open>n - 1\<close>, which the string and its zero have to contain.\<close>

definition genstrncpy :: "string \<Rightarrow> nat \<Rightarrow> string" where
  "genstrncpy str n = take n (str @ replicate n EOS)"

definition AppendNToString :: "char \<Rightarrow> string \<Rightarrow> nat \<Rightarrow> string_buffer \<Rightarrow> string_buffer option" where
  "AppendNToString junk appendStr n buf =
     (if n = 0 \<or> n > length appendStr + 1 then None else
      let lengthWithEOS = (if (appendStr @ [EOS]) ! (n - 1) \<noteq> EOS then n + 1 else n);
          mem = ensure junk (lengthWithEOS + end_pos buf > length (memory buf)) (end_pos buf + lengthWithEOS) (memory buf);
          pos = end_pos buf + (lengthWithEOS - 1)
      in Option.bind (store_at (end_pos buf) (genstrncpy appendStr n) mem) (\<lambda>mem1.
         map_option (\<lambda>mem2. \<lparr>memory = mem2, end_pos = pos\<rparr>) (store_at pos [EOS] mem1)))"

text \<open>\<open>ExpandStringWithChar\<close> on the buffer; the test for continuation bytes reads only bytes before the end.\<close>

function back_up :: "string \<Rightarrow> nat \<Rightarrow> nat" where
  "back_up mem pos =
     (if pos > 1 \<and> IsUTF8MultiByteContinuation (mem ! (pos - 1)) then back_up mem (pos - 1) else pos)"
  by pat_completeness auto
termination by (relation "measure (\<lambda>(mem, pos). pos)") auto

declare back_up.simps [simp del]

definition expand_buffer :: "char \<Rightarrow> char \<Rightarrow> nat \<Rightarrow> string_buffer \<Rightarrow> string_buffer option" where
  "expand_buffer junk inchar newSize buf =
     (let mem = ensure junk (end_pos buf + 1 \<ge> length (memory buf)) newSize (memory buf)
      in if code inchar \<noteq> 8
         then map_option (\<lambda>m. \<lparr>memory = m, end_pos = end_pos buf + 1\<rparr>) (store_at (end_pos buf) [inchar, EOS] mem)
         else (let pos1 = back_up mem (end_pos buf); pos2 = (if pos1 > 0 then pos1 - 1 else pos1)
               in map_option (\<lambda>m. \<lparr>memory = m, end_pos = pos2\<rparr>) (store_at pos2 [EOS] mem)))"

section \<open>UTF-8 positions\<close>

definition IsUTF8Start :: "char \<Rightarrow> bool" where
  "IsUTF8Start c \<longleftrightarrow> take_bit 2 (drop_bit 6 (code c)) \<noteq> 2"

text \<open>A C string: reading at its end gives the zero.\<close>

definition byte_at :: "string \<Rightarrow> nat \<Rightarrow> char" where
  "byte_at s i = (if i < length s then s ! i else EOS)"

definition UTF8Increment :: "string \<Rightarrow> nat \<Rightarrow> nat" where
  "UTF8Increment s i =
     (if IsUTF8Start (byte_at s (i + 1)) then i + 1
      else if IsUTF8Start (byte_at s (i + 2)) then i + 2
      else if IsUTF8Start (byte_at s (i + 3)) then i + 3
      else i + 4)"

lemma UTF8Increment_greater: "i < UTF8Increment s i"
  by (simp add: UTF8Increment_def)

function utf8_length_from :: "string \<Rightarrow> nat \<Rightarrow> nat \<Rightarrow> nat" where
  "utf8_length_from s i len =
     (if i < length s then utf8_length_from s (UTF8Increment s i) (len + 1) else len)"
  by pat_completeness auto
termination
  by (relation "measure (\<lambda>(s, i, len). length s - i)") (auto simp: diff_less_mono2 UTF8Increment_greater)

declare utf8_length_from.simps [simp del]

definition UTF8Length :: "string \<Rightarrow> nat" where
  "UTF8Length s = utf8_length_from s 0 0"

function offset_from :: "string \<Rightarrow> nat \<Rightarrow> nat \<Rightarrow> nat" where
  "offset_from str charnum offs =
     (if charnum > 0 \<and> offs < length str then offset_from str (charnum - 1) (UTF8Increment str offs) else offs)"
  by pat_completeness auto
termination by (relation "measure (\<lambda>(str, charnum, offs). charnum)") auto

declare offset_from.simps [simp del]

definition UTF8Offset :: "string \<Rightarrow> nat \<Rightarrow> nat" where
  "UTF8Offset str charnum = offset_from str charnum 0"

function char_num_from :: "string \<Rightarrow> nat \<Rightarrow> nat \<Rightarrow> nat \<Rightarrow> nat" where
  "char_num_from s offset charnum offs =
     (if offs < offset \<and> offs < length s
      then char_num_from s offset (charnum + 1) (UTF8Increment s offs) else charnum)"
  by pat_completeness auto
termination
  by (relation "measure (\<lambda>(s, offset, charnum, offs). length s - offs)") (auto simp: diff_less_mono2 UTF8Increment_greater)

declare char_num_from.simps [simp del]

definition UTF8CharNum :: "string \<Rightarrow> nat \<Rightarrow> nat" where
  "UTF8CharNum s offset = char_num_from s offset 0 0"

section \<open>Registered functions\<close>

text \<open>An item has a name, a priority and the function, with its context and calling convention. Items are kept by
  descending priority.\<close>

record 'f callFunctionItem =
  f_name :: string
  f_func :: 'f
  f_priority :: int

fun AddFunctionToCallList :: "'f callFunctionItem \<Rightarrow> 'f callFunctionItem list \<Rightarrow> 'f callFunctionItem list" where
  "AddFunctionToCallList newPtr [] = [newPtr]"
| "AddFunctionToCallList newPtr (c # cs) =
     (if f_priority newPtr < f_priority c then c # AddFunctionToCallList newPtr cs else newPtr # c # cs)"

fun RemoveFunctionFromCallList :: "string \<Rightarrow> 'f callFunctionItem list \<Rightarrow> bool \<times> 'f callFunctionItem list" where
  "RemoveFunctionFromCallList name [] = (False, [])"
| "RemoveFunctionFromCallList name (c # cs) =
     (if f_name c = name then (True, cs)
      else (case RemoveFunctionFromCallList name cs of (found, ds) \<Rightarrow> (found, c # ds)))"

section \<open>Buffers hold strings\<close>

text \<open>The buffer holds \<open>s\<close>: the string, then a zero; or nothing was allocated yet.\<close>

definition holds :: "string_buffer \<Rightarrow> string \<Rightarrow> bool" where
  "holds buf s \<longleftrightarrow> end_pos buf = length s \<and>
     (s = [] \<and> memory buf = [] \<or> (\<exists>rest1. memory buf = s @ EOS # rest1))"

lemma length_genrealloc [simp]: "length (genrealloc junk n mem) = n"
  by (simp add: genrealloc_def)

lemma genrealloc_prefix: "length s \<le> n \<Longrightarrow> genrealloc junk n (s @ rest1) = s @ genrealloc junk (n - length s) rest1"
  by (simp add: genrealloc_def)

lemma ensure_memory:
  assumes "mem = s @ rest1" "b \<Longrightarrow> length s + n < k" "\<not> b \<Longrightarrow> n < length rest1"
  obtains rest2 where "ensure junk b k mem = s @ rest2" "n < length rest2"
    "rest1 = EOS # tl rest1 \<Longrightarrow> \<exists>m. rest2 = EOS # m"
proof (cases b)
  case True
  have "rest1 = EOS # tl rest1 \<Longrightarrow> \<exists>m. genrealloc junk (k - length s) rest1 = EOS # m"
    using True assms(2) by (cases "k - length s") (metis genrealloc_def append_Cons take_Suc_Cons less_zeroE
        add_lessD1 zero_less_diff, metis genrealloc_def append_Cons take_Suc_Cons)
  then show thesis
    using that [of "genrealloc junk (k - length s) rest1"] True assms(1,2) genrealloc_prefix [of s k junk rest1]
    by (simp add: ensure_def)
next
  case False
  then show thesis using that [of rest1] assms by (auto simp: ensure_def)
qed

lemma store_at_append:
  "length s = i \<Longrightarrow> length bs \<le> length rest1 \<Longrightarrow> store_at i bs (s @ rest1) = Some (s @ bs @ drop (length bs) rest1)"
  by (simp add: store_at_def)

lemma holds_memory:
  assumes "holds buf s"
  obtains rest1 where "memory buf = s @ rest1" "end_pos buf = length s"
  using assms by (auto simp: holds_def)

lemma AppendToString_holds:
  assumes "holds buf s"
  shows "\<exists>buf'. AppendToString junk t buf = Some buf' \<and> holds buf' (s @ t)"
proof -
  obtain rest1 where mem: "memory buf = s @ rest1" "end_pos buf = length s" using holds_memory [OF assms] .
  obtain rest2 where "ensure junk (length t + length s + 1 > length (memory buf)) (length t + length s + 1) (memory buf) =
      s @ rest2" "length t < length rest2"
    using ensure_memory [OF mem(1), of "length t + length s + 1 > length (memory buf)" "length t" "length t + length s + 1" junk]
      mem(1) by auto
  then show ?thesis
    using mem store_at_append [of s "length s" "t @ [EOS]" rest2] by (simp add: AppendToString_def EnlargeString_def holds_def)
qed

lemma AppendNToString_holds:
  assumes "holds buf s" "0 < n" "n \<le> length t" "EOS \<notin> set t"
  shows "\<exists>buf'. AppendNToString junk t n buf = Some buf' \<and> holds buf' (s @ take n t)"
proof -
  obtain rest1 where mem: "memory buf = s @ rest1" "end_pos buf = length s" using holds_memory [OF assms(1)] .
  let ?mem = "ensure junk (n + 1 + length s > length (memory buf)) (length s + (n + 1)) (memory buf)"
  have "(t @ [EOS]) ! (n - 1) \<in> set t" using assms(2,3) by (auto simp: nth_append)
  then have last: "(t @ [EOS]) ! (n - 1) \<noteq> EOS" using assms(4) by auto
  have cpy: "genstrncpy t n = take n t" using assms(3) by (simp add: genstrncpy_def)
  obtain rest2 where rest2: "?mem = s @ rest2" "n < length rest2"
    using ensure_memory [OF mem(1), of "n + 1 + length s > length (memory buf)" n "length s + (n + 1)" junk] mem(1) by auto
  have first: "store_at (length s) (take n t) ?mem = Some (s @ take n t @ drop n rest2)"
    using rest2 assms(3) store_at_append [of s "length s" "take n t" rest2] by simp
  have "store_at (length s + n) [EOS] ((s @ take n t) @ drop n rest2) = Some ((s @ take n t) @ [EOS] @ drop 1 (drop n rest2))"
    using rest2(2) assms(3) by (subst store_at_append) auto
  then show ?thesis
    using first last cpy mem assms(2,3) by (simp add: AppendNToString_def holds_def Let_def add.commute)
qed

lemma drop_continuation_stop: "\<not> IsUTF8MultiByteContinuation c \<Longrightarrow> drop_continuation (c # cs) = c # cs"
  by (cases cs) simp_all

lemma back_up_continuation:
  "pos \<le> length mem \<Longrightarrow> take (back_up mem pos) mem = rev (drop_continuation (rev (take pos mem))) \<and> back_up mem pos \<le> pos"
proof (induction mem pos rule: back_up.induct)
  case (1 mem pos)
  show ?case
  proof (cases "pos > 1 \<and> IsUTF8MultiByteContinuation (mem ! (pos - 1))")
    case True
    obtain k where k: "pos = Suc (Suc k)" using True by (metis less_imp_Suc_add plus_1_eq_Suc One_nat_def)
    have "rev (take pos mem) = mem ! Suc k # mem ! k # rev (take k mem)"
      using 1(2) k by (simp add: take_Suc_conv_app_nth)
    then have "drop_continuation (rev (take pos mem)) = drop_continuation (rev (take (pos - 1) mem))"
      using True k 1(2) by (simp add: take_Suc_conv_app_nth)
    then show ?thesis using True 1 le_trans [of "back_up mem (pos - 1)" "pos - 1" pos] by (simp add: back_up.simps [of mem pos])
  next
    case False
    have "drop_continuation (rev (take pos mem)) = rev (take pos mem)"
    proof (cases pos)
      case (Suc k)
      then show ?thesis
        using False 1(2) by (cases k; cases mem) (auto simp: take_Suc_conv_app_nth drop_continuation_stop)
    qed simp
    then show ?thesis using False by (auto simp: back_up.simps [of mem pos])
  qed
qed

lemma ExpandStringWithChar_holds:
  assumes "holds buf s"
  shows "\<exists>buf'. expand_buffer junk c (length (memory buf) + 80) buf = Some buf' \<and> holds buf' (ExpandStringWithChar c s)"
proof -
  obtain rest1 where mem: "memory buf = s @ rest1" "end_pos buf = length s" using holds_memory [OF assms] .
  let ?mem = "ensure junk (length s + 1 \<ge> length (memory buf)) (length (memory buf) + 80) (memory buf)"
  obtain rest2 where rest2: "?mem = s @ rest2" "1 < length rest2"
    using ensure_memory [OF mem(1), of "length s + 1 \<ge> length (memory buf)" 1 "length (memory buf) + 80" junk] mem(1) by auto
  show ?thesis
  proof (cases "code c = 8")
    case False
    then show ?thesis
      using mem rest2 store_at_append [of s "length s" "[c, EOS]" rest2]
      by (auto simp: expand_buffer_def ExpandStringWithChar_def holds_def Let_def)
  next
    case True
    let ?p = "back_up ?mem (length s)"
    let ?q = "if ?p > 0 then ?p - 1 else ?p"
    have bu: "take ?p ?mem = rev (drop_continuation (rev s))" "?p \<le> length s"
      using back_up_continuation [of "length s" ?mem] rest2 by auto
    have t: "take ?q ?mem = rev (tl (drop_continuation (rev s)))"
    proof -
      have "rev (tl xs) = butlast (rev xs)" for xs :: string by (cases xs) auto
      then have "rev (tl (drop_continuation (rev s))) = butlast (take ?p ?mem)" using bu(1) by simp
      also have "\<dots> = take ?q ?mem" using bu(2) rest2 by (simp add: butlast_take)
      finally show ?thesis by simp
    qed
    have q: "?q + 1 \<le> length ?mem" "length (take ?q ?mem) = ?q" using bu(2) rest2 by auto
    have "expand_buffer junk c (length (memory buf) + 80) buf =
        Some \<lparr>memory = take ?q ?mem @ EOS # drop (?q + 1) ?mem, end_pos = ?q\<rparr>"
      using q(1) True by (simp only: expand_buffer_def Let_def mem(2) store_at_def) simp
    moreover have "length (rev (tl (drop_continuation (rev s)))) = ?q" using t q(2) by metis
    ultimately show ?thesis
      using True t by (auto simp: ExpandStringWithChar_def holds_def)
  qed
qed

text \<open>Inserting: the move goes the wrong way, so that the characters at the position are overwritten by those
  behind them, the zero moves forward, and the new text is stored behind it.\<close>

lemma InsertInString_deletes:
  assumes "holds buf s" "EOS \<notin> set s" "t \<noteq> []" "position + length t \<le> length s"
  shows "\<exists>buf'. InsertInString junk t position buf = Some buf' \<and> end_pos buf' = length s + length t \<and>
    c_string (memory buf') = take position s @ drop (position + length t) s"
proof -
  obtain rest1 where mem: "memory buf = s @ EOS # rest1" "end_pos buf = length s"
    using assms by (auto simp: holds_def)
  let ?n = "length t" and ?k = "length s - position"
  let ?mem = "ensure junk (?n + length s + 1 > length (memory buf)) (?n + length s + 1) (memory buf)"
  obtain rest2 where r: "?mem = s @ rest2" "?n < length rest2" "\<exists>m. rest2 = EOS # m"
    using ensure_memory [OF mem(1), of "?n + length s + 1 > length (memory buf)" ?n "?n + length s + 1" junk] mem(1) by auto
  then obtain m where m: "?mem = s @ EOS # m" "?n \<le> length m" by auto
  let ?moved = "take ?k (drop (position + ?n) ?mem)"
  have moved: "?moved = drop (position + ?n) s @ EOS # take (?n - 1) m"
  proof -
    have "?moved = drop (position + ?n) s @ take (?n) (EOS # m)"
      using m assms(4) by simp
    then show ?thesis using assms(3) by (cases t) auto
  qed
  have lm: "length ?moved = ?k" using moved m(2) assms(3,4) by (cases t) auto
  let ?mem1 = "take position s @ ?moved @ drop (length s) ?mem"
  have "memmove position (position + ?n) ?k ?mem = Some ?mem1"
    using m lm assms(4) by (auto simp: memmove_def store_at_def)
  moreover have "store_at (length s) t ?mem1 = Some (take position s @ ?moved @ t @ drop ?n (drop (length s) ?mem))"
    using store_at_append [of "take position s @ ?moved" "length s" t "drop (length s) ?mem"] lm assms(4) m by simp
  ultimately have "InsertInString junk t position buf =
      Some \<lparr>memory = take position s @ ?moved @ t @ drop ?n (drop (length s) ?mem), end_pos = length s + ?n\<rparr>"
    using mem(2) assms(4) by (simp add: InsertInString_def EnlargeString_def Let_def)
  moreover have "takeWhile (\<lambda>c. c \<noteq> EOS) (take position s @ ?moved @ t @ drop ?n (drop (length s) ?mem)) =
      take position s @ drop (position + ?n) s"
  proof -
    have "\<forall>c \<in> set (take position s @ drop (position + ?n) s). c \<noteq> EOS"
      using assms(2) by (auto dest: in_set_takeD in_set_dropD)
    from takeWhile_all_append [OF this, of "(EOS # take (?n - 1) m) @ t @ drop ?n (drop (length s) ?mem)"]
    show ?thesis unfolding moved by simp
  qed
  ultimately show ?thesis by (auto simp: c_string_def)
qed

section \<open>Character positions\<close>

lemma utf8_length_add: "utf8_length_from s i (n + m) = n + utf8_length_from s i m"
proof (induction s i m rule: utf8_length_from.induct)
  case (1 s i m)
  then show ?case by (cases "i < length s") (simp_all add: utf8_length_from.simps [of s i])
qed

lemma utf8_length_Suc:
  "i < length s \<Longrightarrow> utf8_length_from s i 0 = Suc (utf8_length_from s (UTF8Increment s i) 0)"
  using utf8_length_add [of s "UTF8Increment s i" 1 0] by (simp add: utf8_length_from.simps [of s i])

lemma offset_from_ge: "offs \<le> offset_from s k offs"
proof (induction s k offs rule: offset_from.induct)
  case (1 s k offs)
  then show ?case
    using UTF8Increment_greater [of offs s] by (auto simp: offset_from.simps [of s k offs])
qed

text \<open>The two index functions are inverse to each other on the characters of a string, also of one that is not
  well-formed UTF-8.\<close>

lemma char_num_offset:
  "k \<le> utf8_length_from s offs 0 \<Longrightarrow> char_num_from s (offset_from s k offs) n offs = n + k"
proof (induction k arbitrary: offs n)
  case 0
  then show ?case by (simp add: offset_from.simps [of s 0] char_num_from.simps)
next
  case (Suc k)
  have i: "offs < length s" using Suc.prems by (cases "offs < length s") (auto simp: utf8_length_from.simps [of s offs])
  let ?o = "UTF8Increment s offs"
  have off: "offset_from s (Suc k) offs = offset_from s k ?o" using i by (simp add: offset_from.simps [of s "Suc k"])
  moreover have "offs < offset_from s k ?o"
    using offset_from_ge [of ?o s k] UTF8Increment_greater [of offs s] by linarith
  ultimately have "char_num_from s (offset_from s (Suc k) offs) n offs = char_num_from s (offset_from s k ?o) (n + 1) ?o"
    using i by (simp add: char_num_from.simps [of s _ n offs])
  also have "\<dots> = n + 1 + k"
    using Suc.IH [of ?o "n + 1"] Suc.prems utf8_length_Suc [OF i] by simp
  finally show ?case by simp
qed

lemma UTF8_positions: "k \<le> UTF8Length s \<Longrightarrow> UTF8CharNum s (UTF8Offset s k) = k"
  using char_num_offset [of k s 0 0] by (simp add: UTF8Length_def UTF8CharNum_def UTF8Offset_def)

section \<open>Call lists\<close>

lemma AddFunctionToCallList_sorted:
  "sorted_wrt (\<lambda>c d. f_priority d \<le> f_priority c) cs \<Longrightarrow>
    sorted_wrt (\<lambda>c d. f_priority d \<le> f_priority c) (AddFunctionToCallList p cs) \<and>
    mset (AddFunctionToCallList p cs) = add_mset p (mset cs)"
proof (induction cs)
  case (Cons c cs)
  have "set (AddFunctionToCallList p cs) = insert p (set cs)" using Cons by (metis set_mset_add_mset_insert set_mset_mset sorted_wrt.simps(2))
  with Cons show ?case by (auto intro: order.trans)
qed simp

lemma Remove_Add:
  assumes "\<forall>c \<in> set cs. f_name c \<noteq> f_name p"
  shows "RemoveFunctionFromCallList (f_name p) (AddFunctionToCallList p cs) = (True, cs)"
  using assms by (induction cs) auto

end
