(* ===== verification/Command_Line.thy ===== *)
theory Command_Line
  imports String_Buffers
begin

text \<open>
  The command buffer and the test for a complete command, \<open>commline.c\<close>. Characters arrive one by one; after
  each the engine asks \<open>CompleteCommand\<close> whether the buffer holds a whole command. Positions in a string are
  the rests of the string from there.
\<close>

section \<open>The command buffer\<close>

record command_line =
  CommandString :: string_buffer
  AwaitingInput :: bool

definition ExpandCommandString :: "char \<Rightarrow> char \<Rightarrow> command_line \<Rightarrow> (bool \<times> command_line) option" where
  "ExpandCommandString junk inchar cl =
     map_option (\<lambda>buf. (end_pos buf \<noteq> end_pos (CommandString cl), cl\<lparr>CommandString := buf\<rparr>))
       (expand_buffer junk inchar (length (memory (CommandString cl)) + 80) (CommandString cl))"

definition FlushCommandString :: "command_line \<Rightarrow> command_line" where
  "FlushCommandString cl = cl\<lparr>CommandString := \<lparr>memory = [], end_pos = 0\<rparr>, AwaitingInput := True\<rparr>"

definition SetCommandString :: "char \<Rightarrow> string \<Rightarrow> command_line \<Rightarrow> command_line option" where
  "SetCommandString junk str cl =
     (let cl1 = FlushCommandString cl
      in map_option (\<lambda>mem. cl1\<lparr>CommandString := \<lparr>memory = mem, end_pos = length str\<rparr>\<rparr>)
           (store_at 0 (str @ [EOS]) (genrealloc junk (length str + 1) (memory (CommandString cl1)))))"

definition SetNCommandString :: "char \<Rightarrow> string \<Rightarrow> nat \<Rightarrow> command_line \<Rightarrow> command_line option" where
  "SetNCommandString junk str n cl =
     (let cl1 = FlushCommandString cl
      in Option.bind (store_at 0 (genstrncpy str n) (genrealloc junk (n + 1) (memory (CommandString cl1)))) (\<lambda>mem1.
         map_option (\<lambda>mem2. cl1\<lparr>CommandString := \<lparr>memory = mem2, end_pos = n\<rparr>\<rparr>) (store_at n [EOS] mem1)))"

definition AppendCommandString :: "char \<Rightarrow> string \<Rightarrow> command_line \<Rightarrow> command_line option" where
  "AppendCommandString junk str cl =
     map_option (\<lambda>buf. cl\<lparr>CommandString := buf\<rparr>) (AppendToString junk str (CommandString cl))"

definition InsertCommandString :: "char \<Rightarrow> string \<Rightarrow> nat \<Rightarrow> command_line \<Rightarrow> command_line option" where
  "InsertCommandString junk str position cl =
     map_option (\<lambda>buf. cl\<lparr>CommandString := buf\<rparr>) (InsertInString junk str position (CommandString cl))"

definition AppendNCommandString :: "char \<Rightarrow> string \<Rightarrow> nat \<Rightarrow> command_line \<Rightarrow> command_line option" where
  "AppendNCommandString junk str n cl =
     map_option (\<lambda>buf. cl\<lparr>CommandString := buf\<rparr>) (AppendNToString junk str n (CommandString cl))"

definition GetCommandString :: "command_line \<Rightarrow> string" where
  "GetCommandString cl = c_string (memory (CommandString cl))"

section \<open>Complete commands\<close>

text \<open>Behind the opening quotation mark: the rest behind the closing one, and whether there is one.\<close>

fun DoString :: "string \<Rightarrow> string \<times> bool" where
  "DoString [] = ([], False)"
| "DoString (c # cs) =
     (if c = CHR 0x22 then (cs, True)
      else if c = CHR 0x5C then (case cs of [] \<Rightarrow> ([], False) | d # ds \<Rightarrow> DoString ds)
      else DoString cs)"

definition DoComment :: "string \<Rightarrow> string" where
  "DoComment s = dropWhile (\<lambda>c. \<not> is_newline c) s"

definition DoWhiteSpace :: "string \<Rightarrow> string" where
  "DoWhiteSpace s = dropWhile (\<lambda>c. code c \<in> set [32, 12, 9]) s"

text \<open>The string is read a character or an escaped pair at a time.\<close>

lemma DoString_steps:
  "DoString (CHR 0x22 # cs) = (cs, True)"
  "DoString [CHR 0x5C] = ([], False)"
  "DoString (CHR 0x5C # d # ds) = DoString ds"
  "c \<noteq> CHR 0x22 \<Longrightarrow> c \<noteq> CHR 0x5C \<Longrightarrow> DoString (c # cs) = DoString cs"
  by simp_all

declare DoString.simps(2) [simp del]

lemma DoString_induct [case_names empty quote backslash escaped other]:
  assumes "P []" "\<And>cs. P (CHR 0x22 # cs)" "P [CHR 0x5C]" "\<And>d ds. P ds \<Longrightarrow> P (CHR 0x5C # d # ds)"
    and "\<And>c cs. c \<noteq> CHR 0x22 \<Longrightarrow> c \<noteq> CHR 0x5C \<Longrightarrow> P cs \<Longrightarrow> P (c # cs)"
  shows "P s"
proof (induction "length s" arbitrary: s rule: less_induct)
  case less
  show ?case
  proof (cases s)
    case (Cons c cs)
    with less assms show ?thesis by (cases "c = CHR 0x22"; cases "c = CHR 0x5C"; cases cs) auto
  qed (use assms in simp)
qed

lemma DoString_length: "length (fst (DoString s)) \<le> length s"
  by (induction s rule: DoString_induct) (simp_all add: DoString_steps)

lemma DoComment_length: "length (DoComment s) \<le> length s"
  by (simp add: DoComment_def length_dropWhile_le)

lemma DoWhiteSpace_length: "length (DoWhiteSpace s) \<le> length s"
  by (simp add: DoWhiteSpace_def length_dropWhile_le)

text \<open>The loop: 1 complete, 0 incomplete, -1 in error.\<close>

function complete_from :: "nat \<Rightarrow> bool \<Rightarrow> bool \<Rightarrow> string \<Rightarrow> int" where
  "complete_from depth moreThanZero error [] = 0"
| "complete_from depth moreThanZero error (c # cs) =
     (if is_newline c then
        (if error then - 1 else if moreThanZero \<and> depth = 0 then 1
         else complete_from depth moreThanZero error (DoWhiteSpace cs))
      else if code c \<in> set [32, 12, 9] then complete_from depth moreThanZero error (DoWhiteSpace cs)
      else if c = CHR 0x22 then
        (case DoString cs of (rest, complete) \<Rightarrow>
           complete_from depth (moreThanZero \<or> (depth = 0 \<and> complete)) error rest)
      else if c = CHR '';'' then
        (case DoComment cs of
           [] \<Rightarrow> complete_from depth moreThanZero error []
         | d # ds \<Rightarrow>
             if moreThanZero \<and> depth = 0 then (if error then - 1 else 1)
             else complete_from depth moreThanZero error ds)
      else if c = CHR ''('' then
        (if depth > 0 \<or> \<not> moreThanZero then complete_from (depth + 1) True error cs
         else complete_from depth moreThanZero error cs)
      else if c = CHR '')'' then
        (if depth > 0 then complete_from (depth - 1) moreThanZero error cs
         else complete_from depth moreThanZero (error \<or> \<not> moreThanZero) cs)
      else if depth = 0 \<and> (isprint c \<or> IsUTF8MultiByteStart c) then
        (if DoComment cs \<noteq> [] then (if error then - 1 else 1) else 0)
      else complete_from depth moreThanZero error cs)"
  by pat_completeness auto
termination
proof (relation "measure (\<lambda>(depth, moreThanZero, error, s). length s)", goal_cases)
  case (4 depth moreThanZero error c cs rest complete)
  then show ?case using DoString_length [of cs] by (metis fst_conv in_measure case_prod_conv le_imp_less_Suc length_Cons)
next
  case (6 depth moreThanZero error c cs d ds)
  then show ?case using DoComment_length [of cs] by simp
qed (auto simp: le_imp_less_Suc DoWhiteSpace_length)

definition CompleteCommand :: "string \<Rightarrow> int" where
  "CompleteCommand mstring = complete_from 0 False False (c_string mstring)"

section \<open>A decision is final\<close>

lemma DoString_append: "DoString s = (rest, True) \<Longrightarrow> DoString (s @ t) = (rest @ t, True)"
  by (induction s rule: DoString_induct) (auto simp: DoString_steps)

lemma DoString_incomplete: "DoString s = (rest, False) \<Longrightarrow> rest = []"
  by (induction s rule: DoString_induct) (auto simp: DoString_steps)

lemma dropWhile_append_hit: "dropWhile P s \<noteq> [] \<Longrightarrow> dropWhile P (s @ t) = dropWhile P s @ t"
  by (induction s) auto

text \<open>Skipping white space at the end of the input and later is skipping it at once.\<close>

lemma complete_from_white:
  "complete_from depth moreThanZero error (DoWhiteSpace s) = complete_from depth moreThanZero error s"
proof (induction s)
  case (Cons c cs)
  show ?case
  proof (cases "code c \<in> set [32, 12, 9]")
    case True
    then have "\<not> is_newline c" by (auto simp: is_newline_def)
    with True show ?thesis by (simp add: DoWhiteSpace_def)
  next
    case False
    then show ?thesis by (simp add: DoWhiteSpace_def del: complete_from.simps)
  qed
qed (simp add: DoWhiteSpace_def)

lemma complete_from_final:
  "complete_from depth moreThanZero error s \<noteq> 0 \<Longrightarrow>
    complete_from depth moreThanZero error (s @ t) = complete_from depth moreThanZero error s"
proof (induction "length s" arbitrary: depth moreThanZero error s rule: less_induct)
  case less
  then obtain c cs where s: "s = c # cs" by (cases s) auto
  have IH: "complete_from d m e (u @ t) = complete_from d m e u" if "complete_from d m e u \<noteq> 0" "length u \<le> length cs" for d m e u
    using less.hyps [of u d m e] that by (simp add: s)
  have com: "DoComment (cs @ t) = DoComment cs @ t" if "DoComment cs \<noteq> []"
    using that by (simp add: DoComment_def dropWhile_append_hit)
  have str: "DoString (cs @ t) = (fst (DoString cs) @ t, True)" if "snd (DoString cs)"
    using that DoString_append [of cs "fst (DoString cs)" t] by (metis prod.collapse)
  have inc: "fst (DoString cs) = []" if "\<not> snd (DoString cs)"
    using that DoString_incomplete [of cs "fst (DoString cs)"] by (metis prod.collapse)
  have nz: "complete_from depth moreThanZero error (c # cs) \<noteq> 0" using less.prems s by simp
  consider "is_newline c" | "\<not> is_newline c" "code c \<in> set [32, 12, 9]"
    | "c = CHR 0x22" "\<not> is_newline c" "code c \<notin> set [32, 12, 9]"
    | "c = CHR '';''" "\<not> is_newline c" "code c \<notin> set [32, 12, 9]"
    | "c = CHR ''('' \<or> c = CHR '')''" "\<not> is_newline c" "code c \<notin> set [32, 12, 9]"
    | "c \<noteq> CHR 0x22" "c \<noteq> CHR '';''" "c \<noteq> CHR ''(''" "c \<noteq> CHR '')''" "\<not> is_newline c" "code c \<notin> set [32, 12, 9]"
    by blast
  then have "complete_from depth moreThanZero error (c # cs @ t) = complete_from depth moreThanZero error (c # cs)"
  proof cases
    case 1
    then show ?thesis using nz IH [of depth moreThanZero error cs] by (simp add: complete_from_white split: if_splits)
  next
    case 2
    then show ?thesis using nz IH [of depth moreThanZero error cs] by (simp add: complete_from_white)
  next
    case 3
    then show ?thesis
      using nz IH [of _ _ _ "fst (DoString cs)"] DoString_length [of cs] str inc
      by (cases "snd (DoString cs)") (simp_all add: case_prod_beta)
  next
    case 4
    then show ?thesis
      using nz com IH [of depth moreThanZero error "tl (DoComment cs)"] DoComment_length [of cs]
      by (cases "DoComment cs") (auto split: if_splits)
  next
    case 5
    then show ?thesis using nz IH by (auto split: if_splits)
  next
    case 6
    then show ?thesis using nz com IH [of depth moreThanZero error cs] by (auto split: if_splits)
  qed
  then show ?case by (simp only: s append_Cons)
qed

end
