(* ===== verification/Text_Properties.thy ===== *)
theory Text_Properties
  imports Command_Line
begin

text \<open>
  Properties of the scanner, of the string buffers and of the command line.
\<close>

definition scanner_on :: "string \<Rightarrow> scanner" where
  "scanner_on s = \<lparr>input = s, LineCount = 0, counts_lines = True, IgnoreCompletionErrors = False, diagnostics = []\<rparr>"

section \<open>Tokens\<close>

text \<open>C35. The printed form of a string is scanned as one string token with the string as value, whatever follows,
  if it is a C string without backspace (which the buffers take as a deletion). Lines in the string are counted and nothing is
  reported.\<close>

theorem string_token_roundtrip:
  assumes "no_backspace s" "EOS \<notin> set s" "input sc = StringPrintForm s @ rest"
  shows "GetToken sc = (STRING_TOKEN s, sc\<lparr>input := rest,
    LineCount := LineCount sc + (if counts_lines sc then int (length (filter is_newline (StringPrintForm s))) else 0)\<rparr>)"
  using GetToken_string [OF assms] by (simp add: after_reading_def)

theorem string_token_roundtrip_witness:
  "GetToken (scanner_on (StringPrintForm [CHR ''a'', CHR 0x22, CHR 0x5C, CHR 0x0A] @ '')'')) =
     (STRING_TOKEN [CHR ''a'', CHR 0x22, CHR 0x5C, CHR 0x0A],
      (scanner_on (StringPrintForm [CHR ''a'', CHR 0x22, CHR 0x5C, CHR 0x0A] @ '')''))
        \<lparr>input := '')'', LineCount := LineCount (scanner_on (StringPrintForm [CHR ''a'', CHR 0x22, CHR 0x5C, CHR 0x0A] @ '')'')) +
          (if counts_lines (scanner_on (StringPrintForm [CHR ''a'', CHR 0x22, CHR 0x5C, CHR 0x0A] @ '')''))
           then int (length (filter is_newline (StringPrintForm [CHR ''a'', CHR 0x22, CHR 0x5C, CHR 0x0A]))) else 0)\<rparr>)"
  by (rule string_token_roundtrip) (simp_all add: no_backspace_def scanner_on_def)

text \<open>C36. An optional sign and digits, followed by the end of the input or by a character that ends a number, are
  scanned as an integer token. Its value is the number, cut off at the ends of \<open>long long\<close>, and an overflow is
  reported exactly when it was cut off.\<close>

theorem integer_token:
  assumes "sg = [] \<or> sg = ''+'' \<or> sg = ''-''" "ds \<noteq> []" "\<forall>c \<in> set ds. isdigit c" "number_ends rest"
    and "input sc = sg @ ds @ rest" "v = (if sg = ''-'' then - digits_value ds else digits_value ds)"
  shows "GetToken sc = (INTEGER_TOKEN (max LLONG_MIN (min LLONG_MAX v)),
    sc\<lparr>input := rest, diagnostics := diagnostics sc @ (if v < LLONG_MIN \<or> LLONG_MAX < v then [IntegerOverflow] else [])\<rparr>)"
proof -
  have "signed_value (sg @ ds) = v"
    using assms(1-3,6) digit_facts(6) [of "hd ds"] by (cases ds) (auto simp: signed_value_def is_sign_char_def)
  moreover have "filter is_newline (sg @ ds) = []"
    using assms(1,3) by (auto simp: filter_empty_conv is_newline_def isdigit_def code_def)
  ultimately show ?thesis
    using GetToken_integer [OF assms(1-5)] ScanNumber_integer [OF assms(1-5)]
    by (simp add: strtoll_def after_reading_def Let_def)
qed

theorem integer_token_witness:
  "GetToken (scanner_on ''-99999999999999999999 x'') =
     (INTEGER_TOKEN (max LLONG_MIN (min LLONG_MAX (- 99999999999999999999))),
      (scanner_on ''-99999999999999999999 x'')\<lparr>input := '' x'',
         diagnostics := diagnostics (scanner_on ''-99999999999999999999 x'') @
           (if - 99999999999999999999 < LLONG_MIN \<or> LLONG_MAX < - 99999999999999999999 then [IntegerOverflow] else [])\<rparr>)"
proof (rule integer_token [of "''-''" "''99999999999999999999''"])
  show "\<forall>c \<in> set ''99999999999999999999''. isdigit c" "number_ends '' x''" by code_simp+
  show "- 99999999999999999999 = (if ''-'' = ''-'' then - digits_value ''99999999999999999999'' else digits_value ''99999999999999999999'')"
    by code_simp
qed (simp_all add: scanner_on_def)

text \<open>C37. Every token except \<open>STOP\<close> takes at least one character off the input, so that reading tokens until
  \<open>STOP\<close> always ends.\<close>

theorem GetToken_progress:
  assumes "GetToken sc = (t, sc')" "t \<noteq> STOP"
  shows "length (input sc') < length (input sc)"
  by (rule GetToken_size [OF assms])

theorem GetToken_progress_witness:
  "length (input (scanner_on ''x)'')) < length (input (scanner_on ''(x)''))"
proof (rule GetToken_progress [of _ LPAREN])
  show "GetToken (scanner_on ''(x)'') = (LPAREN, scanner_on ''x)'')" by code_simp
qed simp

section \<open>Commands\<close>

text \<open>C38. Once \<open>CompleteCommand\<close> has found that the buffer holds a complete command, or an error, characters that are
  added later do not change the answer.\<close>

theorem CompleteCommand_final:
  assumes "CompleteCommand s \<noteq> 0"
  shows "CompleteCommand (s @ t) = CompleteCommand s"
proof (cases "EOS \<in> set s")
  case False
  then show ?thesis
    using complete_from_final [of 0 False False s "c_string t"] assms
    by (simp add: CompleteCommand_def c_string_append c_string_id)
qed (simp add: CompleteCommand_def c_string_append)

theorem CompleteCommand_final_witness:
  "CompleteCommand ([CHR ''('', CHR ''x'', CHR '')'', CHR 0x0A] @ ''(run'') = CompleteCommand [CHR ''('', CHR ''x'', CHR '')'', CHR 0x0A]"
proof (rule CompleteCommand_final)
  show "CompleteCommand [CHR ''('', CHR ''x'', CHR '')'', CHR 0x0A] \<noteq> 0" by code_simp
qed

text \<open>C39. Inserting text into the command string deletes: when at least as many characters as are to be inserted
  stand behind the position, the string that is there afterwards lacks that many characters at the position and the
  new text is not inserted, while the length that is kept has grown.\<close>

theorem InsertCommandString_deletes:
  assumes "holds (CommandString cl) s" "EOS \<notin> set s" "t \<noteq> []" "position + length t \<le> length s"
  shows "\<exists>cl'. InsertCommandString junk t position cl = Some cl' \<and>
    GetCommandString cl' = take position s @ drop (position + length t) s \<and>
    end_pos (CommandString cl') = length s + length t"
  using InsertInString_deletes [OF assms, of junk] by (auto simp: InsertCommandString_def GetCommandString_def)

theorem InsertCommandString_deletes_witness:
  "\<exists>cl'. InsertCommandString (CHR ''?'') ''new'' 1
      \<lparr>CommandString = \<lparr>memory = ''(command)'' @ [EOS], end_pos = 9\<rparr>, AwaitingInput = True\<rparr> = Some cl' \<and>
    GetCommandString cl' = take 1 ''(command)'' @ drop (1 + length ''new'') ''(command)'' \<and>
    end_pos (CommandString cl') = length ''(command)'' + length ''new''"
  by (rule InsertCommandString_deletes) (simp_all add: holds_def)

text \<open>C40. The command buffer never leaves its memory, whatever was in memory before: adding a character (with
  backspace deleting the last, multi-byte, character), a string or its first characters gives the string one
  expects, closed by a zero.\<close>

theorem command_buffer_in_bounds:
  assumes "holds (CommandString cl) s" "EOS \<notin> set t" "0 < n" "n \<le> length t"
  shows "(\<exists>cl'. ExpandCommandString junk c cl = Some (length (ExpandStringWithChar c s) \<noteq> length s, cl') \<and>
            holds (CommandString cl') (ExpandStringWithChar c s)) \<and>
         (\<exists>cl'. AppendCommandString junk t cl = Some cl' \<and> holds (CommandString cl') (s @ t)) \<and>
         (\<exists>cl'. AppendNCommandString junk t n cl = Some cl' \<and> holds (CommandString cl') (s @ take n t)) \<and>
         (\<exists>cl'. SetCommandString junk t cl = Some cl' \<and> holds (CommandString cl') t) \<and>
         (\<exists>cl'. SetNCommandString junk t n cl = Some cl' \<and> holds (CommandString cl') (take n t))"
proof (intro conjI)
  show "\<exists>cl'. ExpandCommandString junk c cl = Some (length (ExpandStringWithChar c s) \<noteq> length s, cl') \<and>
      holds (CommandString cl') (ExpandStringWithChar c s)"
    using ExpandStringWithChar_holds [OF assms(1), of junk c] assms(1) by (auto simp: ExpandCommandString_def holds_def)
  show "\<exists>cl'. AppendCommandString junk t cl = Some cl' \<and> holds (CommandString cl') (s @ t)"
    using AppendToString_holds [OF assms(1), of junk t] by (auto simp: AppendCommandString_def)
  show "\<exists>cl'. AppendNCommandString junk t n cl = Some cl' \<and> holds (CommandString cl') (s @ take n t)"
    using AppendNToString_holds [OF assms(1,3,4,2), of junk] by (auto simp: AppendNCommandString_def)
  show "\<exists>cl'. SetCommandString junk t cl = Some cl' \<and> holds (CommandString cl') t"
    by (auto simp: SetCommandString_def Let_def store_at_def holds_def)
  show "\<exists>cl'. SetNCommandString junk t n cl = Some cl' \<and> holds (CommandString cl') (take n t)"
    using assms(4) by (auto simp: SetNCommandString_def genstrncpy_def Let_def store_at_def holds_def)
qed

theorem command_buffer_in_bounds_witness:
  "let cl = \<lparr>CommandString = \<lparr>memory = [], end_pos = 0\<rparr>, AwaitingInput = True\<rparr> in
         (\<exists>cl'. ExpandCommandString (CHR ''?'') (CHR ''x'') cl = Some (length (ExpandStringWithChar (CHR ''x'') []) \<noteq> length ([]::string), cl') \<and>
            holds (CommandString cl') (ExpandStringWithChar (CHR ''x'') [])) \<and>
         (\<exists>cl'. AppendCommandString (CHR ''?'') ''run'' cl = Some cl' \<and> holds (CommandString cl') ([] @ ''run'')) \<and>
         (\<exists>cl'. AppendNCommandString (CHR ''?'') ''run'' 2 cl = Some cl' \<and> holds (CommandString cl') ([] @ take 2 ''run'')) \<and>
         (\<exists>cl'. SetCommandString (CHR ''?'') ''run'' cl = Some cl' \<and> holds (CommandString cl') ''run'') \<and>
         (\<exists>cl'. SetNCommandString (CHR ''?'') ''run'' 2 cl = Some cl' \<and> holds (CommandString cl') (take 2 ''run''))"
  unfolding Let_def by (rule command_buffer_in_bounds) (simp_all add: holds_def)

end
