(* ===== verification/Fact_State.thy ===== *)
theory Fact_State
  imports Env_State
begin

text \<open>
  The state of fact management: facts, deftemplates, the fact list, the fact hash table and the links of
  logical support (\<open>factmngr.h\<close>, \<open>facthsh.h\<close>, \<open>tmpltdef.h\<close>, \<open>pattern.h\<close>). Facts, deftemplates and partial
  matches are reached through pointers and live in heaps. The doubly linked lists of facts are the lists of
  the addresses of their nodes. The rule engine's environment is the field \<open>engine\<close>.
\<close>

section \<open>Objects\<close>

text \<open>\<open>struct fact\<close>: \<open>f_dependents\<close> are the partial matches that support the fact logically; time tag and
  busy count, the rest of its \<open>patternEntity\<close> header, are in the \<open>entities\<close> of the engine. A field of the
  proposition is \<open>None\<close> while its type is \<open>RVOID\<close>.\<close>

record fact =
  whichDeftemplate :: addr
  theProposition :: "val option list"
  factIndex :: int
  hashValue :: u64
  garbage :: bool
  f_dependents :: "addr list"

record templateSlot =
  slotName :: string
  multislot :: bool

text \<open>\<open>struct deftemplate\<close>; \<open>numberOfSlots\<close> is the length of \<open>slotList\<close>, \<open>lastFact\<close> the last of \<open>factList\<close>.\<close>

record deftemplate =
  t_name :: string
  implied :: bool
  slotList :: "templateSlot list"
  t_busyCount :: int
  factList :: "addr list"

text \<open>\<open>factsData\<close>, and of \<open>engineData\<close>, \<open>defruleData\<close> and \<open>utilityData\<close> what fact management uses:
  \<open>pm_dependents\<close> are the facts that a partial match supports, \<open>dirty\<close> is the flag of the current
  garbage frame, and \<open>embedded\<close> says that the engine was called from outside and may reclaim memory (top
  level frame, no command and no expression under evaluation, no garbage collection lock).\<close>

record fact_env =
  engine :: env
  facts :: "addr \<Rightarrow> fact"
  deftemplates :: "addr \<Rightarrow> deftemplate"
  FactList :: "addr list"
  GarbageFacts :: "addr list"
  FactHashTable :: "u64 \<Rightarrow> addr list"
  FactHashTableSize :: u64
  FactDuplication :: bool
  NumberOfFacts :: u64
  NextFactIndex :: int
  ChangeToFactList :: bool
  CurrentEntityTimeTag :: u64
  JoinOperationInProgress :: bool
  pm_rightParent :: "addr \<Rightarrow> pointer"
  pm_dependents :: "addr \<Rightarrow> addr list"
  UnsupportedDataEntities :: "addr list"
  alreadyEntered :: bool
  dirty :: bool
  embedded :: bool

definition upd_fact :: "addr \<Rightarrow> (fact \<Rightarrow> fact) \<Rightarrow> fact_env \<Rightarrow> fact_env" where
  "upd_fact f u s = s\<lparr>facts := (facts s)(f := u (facts s f))\<rparr>"

lemma upd_fact_fields [simp]:
  "facts (upd_fact f u s) g = (if g = f then u (facts s f) else facts s g)"
  "engine (upd_fact f u s) = engine s"
  "deftemplates (upd_fact f u s) = deftemplates s"
  "FactList (upd_fact f u s) = FactList s"
  "GarbageFacts (upd_fact f u s) = GarbageFacts s"
  "FactHashTable (upd_fact f u s) = FactHashTable s"
  "FactHashTableSize (upd_fact f u s) = FactHashTableSize s"
  "FactDuplication (upd_fact f u s) = FactDuplication s"
  "NumberOfFacts (upd_fact f u s) = NumberOfFacts s"
  "NextFactIndex (upd_fact f u s) = NextFactIndex s"
  "CurrentEntityTimeTag (upd_fact f u s) = CurrentEntityTimeTag s"
  "JoinOperationInProgress (upd_fact f u s) = JoinOperationInProgress s"
  "pm_rightParent (upd_fact f u s) = pm_rightParent s"
  "pm_dependents (upd_fact f u s) = pm_dependents s"
  "UnsupportedDataEntities (upd_fact f u s) = UnsupportedDataEntities s"
  "alreadyEntered (upd_fact f u s) = alreadyEntered s"
  "dirty (upd_fact f u s) = dirty s"
  "embedded (upd_fact f u s) = embedded s"
  by (simp_all add: upd_fact_def)

section \<open>Busy counts\<close>

definition upd_entity :: "addr \<Rightarrow> (patternEntity \<Rightarrow> patternEntity) \<Rightarrow> fact_env \<Rightarrow> fact_env" where
  "upd_entity f u s = s\<lparr>engine := (engine s)\<lparr>entities := (entities (engine s))(f := u (entities (engine s) f))\<rparr>\<rparr>"

definition EnvIncrementFactCount :: "addr \<Rightarrow> fact_env \<Rightarrow> fact_env" where
  "EnvIncrementFactCount f s = upd_entity f (\<lambda>x. x\<lparr>busyCount := busyCount x + 1\<rparr>) s"

definition EnvDecrementFactCount :: "addr \<Rightarrow> fact_env \<Rightarrow> fact_env" where
  "EnvDecrementFactCount f s = upd_entity f (\<lambda>x. x\<lparr>busyCount := busyCount x - 1\<rparr>) s"

text \<open>\<open>AtomInstall\<close> and \<open>AtomDeinstall\<close> on the values that are facts; the counts in the tables of symbols and
  numbers are not part of the state.\<close>

fun AtomInstall :: "val \<Rightarrow> fact_env \<Rightarrow> fact_env"
  and MultifieldInstall :: "val list \<Rightarrow> fact_env \<Rightarrow> fact_env" where
  "AtomInstall (FACT_ADDRESS f) s = EnvIncrementFactCount f s"
| "AtomInstall (MULTIFIELD vs) s = MultifieldInstall vs s"
| "AtomInstall (FLOAT x) s = s"
| "AtomInstall (NAN x a) s = s"
| "AtomInstall (INTEGER i) s = s"
| "AtomInstall (SYMBOL t) s = s"
| "AtomInstall (STRING t) s = s"
| "AtomInstall (EXTERNAL_ADDRESS a) s = s"
| "AtomInstall (INSTANCE_ADDRESS a) s = s"
| "AtomInstall (INSTANCE_NAME t) s = s"
| "MultifieldInstall [] s = s"
| "MultifieldInstall (v # vs) s = MultifieldInstall vs (AtomInstall v s)"

fun AtomDeinstall :: "val \<Rightarrow> fact_env \<Rightarrow> fact_env"
  and MultifieldDeinstall :: "val list \<Rightarrow> fact_env \<Rightarrow> fact_env" where
  "AtomDeinstall (FACT_ADDRESS f) s = EnvDecrementFactCount f s"
| "AtomDeinstall (MULTIFIELD vs) s = MultifieldDeinstall vs s"
| "AtomDeinstall (FLOAT x) s = s"
| "AtomDeinstall (NAN x a) s = s"
| "AtomDeinstall (INTEGER i) s = s"
| "AtomDeinstall (SYMBOL t) s = s"
| "AtomDeinstall (STRING t) s = s"
| "AtomDeinstall (EXTERNAL_ADDRESS a) s = s"
| "AtomDeinstall (INSTANCE_ADDRESS a) s = s"
| "AtomDeinstall (INSTANCE_NAME t) s = s"
| "MultifieldDeinstall [] s = s"
| "MultifieldDeinstall (v # vs) s = MultifieldDeinstall vs (AtomDeinstall v s)"

fun install_fields :: "val option list \<Rightarrow> fact_env \<Rightarrow> fact_env" where
  "install_fields [] s = s"
| "install_fields (v # vs) s = install_fields vs (case v of None \<Rightarrow> s | Some x \<Rightarrow> AtomInstall x s)"

fun deinstall_fields :: "val option list \<Rightarrow> fact_env \<Rightarrow> fact_env" where
  "deinstall_fields [] s = s"
| "deinstall_fields (v # vs) s = deinstall_fields vs (case v of None \<Rightarrow> s | Some x \<Rightarrow> AtomDeinstall x s)"

definition upd_template :: "addr \<Rightarrow> (deftemplate \<Rightarrow> deftemplate) \<Rightarrow> fact_env \<Rightarrow> fact_env" where
  "upd_template t u s = s\<lparr>deftemplates := (deftemplates s)(t := u (deftemplates s t))\<rparr>"

definition FactInstall :: "addr \<Rightarrow> fact_env \<Rightarrow> fact_env" where
  "FactInstall f s =
     (let s1 = s\<lparr>NumberOfFacts := NumberOfFacts s + 1\<rparr>;
          s2 = upd_template (whichDeftemplate (facts s1 f)) (\<lambda>t. t\<lparr>t_busyCount := t_busyCount t + 1\<rparr>) s1;
          s3 = install_fields (theProposition (facts s2 f)) s2
      in EnvIncrementFactCount f s3)"

definition FactDeinstall :: "addr \<Rightarrow> fact_env \<Rightarrow> fact_env" where
  "FactDeinstall f s =
     (let s1 = s\<lparr>NumberOfFacts := NumberOfFacts s - 1\<rparr>;
          s2 = upd_template (whichDeftemplate (facts s1 f)) (\<lambda>t. t\<lparr>t_busyCount := t_busyCount t - 1\<rparr>) s1;
          s3 = deinstall_fields (theProposition (facts s2 f)) s2
      in EnvDecrementFactCount f s3)"

end
