(* ===== verification/Fact_Hash.thy ===== *)
theory Fact_Hash
  imports Fact_State
begin

text \<open>
  The fact hash table, \<open>facthsh.c\<close>, with the hash functions of \<open>multifld.c\<close> and \<open>symbol.c\<close>. The table holds
  exactly the facts of the fact list, each in the bucket of its hash value, so that a look-up in one bucket
  finds every duplicate. \<open>unsigned long\<close> has 64 bits; a bucket is the list of its entries.
\<close>

section \<open>Hash values\<close>

text \<open>A \<open>char\<close> is signed.\<close>

definition char_value :: "char \<Rightarrow> u64" where
  "char_value c = (let n = (of_char c :: int) in word_of_int (if n < 128 then n else n - 256))"

definition HashSymbol :: "string \<Rightarrow> u64 \<Rightarrow> u64" where
  "HashSymbol s range1 =
     (let tally = foldl (\<lambda>t c. t * 127 + char_value c) 0 s in if range1 = 0 then tally else tally mod range1)"

definition SYMBOL_HASH_SIZE :: u64 where "SYMBOL_HASH_SIZE = 63559"

text \<open>The conversion of a \<open>double\<close> to \<open>unsigned long\<close>, for values in its range or that of \<open>long\<close>.\<close>

definition double_to_ulong :: "u64 \<Rightarrow> u64" where
  "double_to_ulong w =
     (let x = take_bit 11 (drop_bit 52 (uint w)); f = take_bit 52 (uint w); sh = x - 1075
      in if uint w < 2 ^ 63 \<and> 0 \<le> sh \<and> sh < 12 then word_of_int ((f + 2 ^ 52) * 2 ^ nat sh)
         else word_of_int (double_to_int w))"

fun hash_value :: "u64 \<Rightarrow> val \<Rightarrow> u64"
  and hash_values :: "u64 \<Rightarrow> val list \<Rightarrow> u64" where
  "hash_value i (MULTIFIELD vs) = hash_values 0 vs"
| "hash_value i (FLOAT x) = x * (i + 29) + double_to_ulong x"
| "hash_value i (NAN x a) = x * (i + 29) + double_to_ulong x"
| "hash_value i (INTEGER n) = word_of_int n * (i + 29) + word_of_int n"
| "hash_value i (FACT_ADDRESS a) = word_of_nat a * (i + 29)"
| "hash_value i (INSTANCE_ADDRESS a) = word_of_nat a * (i + 29)"
| "hash_value i (EXTERNAL_ADDRESS a) = word_of_nat a * (i + 29)"
| "hash_value i (SYMBOL s) = HashSymbol s 0 * (i + 29)"
| "hash_value i (STRING s) = HashSymbol s 0 * (i + 29)"
| "hash_value i (INSTANCE_NAME s) = HashSymbol s 0 * (i + 29)"
| "hash_values i [] = 0"
| "hash_values i (v # vs) = hash_value i v + hash_values (i + 1) vs"

text \<open>\<open>HashMultifield\<close> on the fields of a fact; \<open>RVOID\<close> adds nothing.\<close>

fun hash_fields :: "u64 \<Rightarrow> val option list \<Rightarrow> u64" where
  "hash_fields i [] = 0"
| "hash_fields i (v # vs) = (case v of None \<Rightarrow> 0 | Some x \<Rightarrow> hash_value i x) + hash_fields (i + 1) vs"

definition HashMultifield :: "val option list \<Rightarrow> u64" where
  "HashMultifield vs = hash_fields 0 vs"

definition HashFact :: "addr \<Rightarrow> fact_env \<Rightarrow> u64 \<times> fact_env" where
  "HashFact f s =
     (let name = t_name (deftemplates s (whichDeftemplate (facts s f)));
          count1 = HashSymbol name SYMBOL_HASH_SIZE * 73981 + HashMultifield (theProposition (facts s f))
      in (count1, upd_fact f (\<lambda>x. x\<lparr>hashValue := count1\<rparr>) s))"

section \<open>Equality\<close>

text \<open>Atoms are compared by the pointers to their nodes, which are equal exactly if the values are: a NaN has the
  address of its node in the value.\<close>

fun values_equal :: "val list \<Rightarrow> val list \<Rightarrow> bool"
  and value_equal :: "val \<Rightarrow> val \<Rightarrow> bool" where
  "values_equal [] [] = True"
| "values_equal (v # vs) (w # ws) = (value_equal v w \<and> values_equal vs ws)"
| "values_equal [] (w # ws) = False"
| "values_equal (v # vs) [] = False"
| "value_equal (MULTIFIELD vs) w = (case w of MULTIFIELD ws \<Rightarrow> values_equal vs ws | _ \<Rightarrow> False)"
| "value_equal (FLOAT x) w = (w = FLOAT x)"
| "value_equal (NAN x a) w = (w = NAN x a)"
| "value_equal (INTEGER i) w = (w = INTEGER i)"
| "value_equal (SYMBOL t) w = (w = SYMBOL t)"
| "value_equal (STRING t) w = (w = STRING t)"
| "value_equal (EXTERNAL_ADDRESS a) w = (w = EXTERNAL_ADDRESS a)"
| "value_equal (FACT_ADDRESS a) w = (w = FACT_ADDRESS a)"
| "value_equal (INSTANCE_ADDRESS a) w = (w = INSTANCE_ADDRESS a)"
| "value_equal (INSTANCE_NAME t) w = (w = INSTANCE_NAME t)"

fun MultifieldsEqual :: "val option list \<Rightarrow> val option list \<Rightarrow> bool" where
  "MultifieldsEqual [] [] = True"
| "MultifieldsEqual (None # vs) (None # ws) = MultifieldsEqual vs ws"
| "MultifieldsEqual (Some v # vs) (Some w # ws) = (value_equal v w \<and> MultifieldsEqual vs ws)"
| "MultifieldsEqual _ _ = False"

lemma value_equal_eq: "values_equal vs ws \<longleftrightarrow> vs = ws" "value_equal v w \<longleftrightarrow> v = w"
  by (induction vs ws and v w rule: values_equal_value_equal.induct) (auto split: val.splits)

lemma MultifieldsEqual_eq: "MultifieldsEqual vs ws \<longleftrightarrow> vs = ws"
  by (induction vs ws rule: MultifieldsEqual.induct) (auto simp: value_equal_eq)

section \<open>The table\<close>

definition SIZE_FACT_HASH :: u64 where "SIZE_FACT_HASH = 16231"

fun find_fact :: "(addr \<Rightarrow> fact) \<Rightarrow> fact \<Rightarrow> addr list \<Rightarrow> pointer" where
  "find_fact fs x [] = None"
| "find_fact fs x (g # gs) =
     (if hashValue x \<noteq> hashValue (fs g) then find_fact fs x gs
      else if whichDeftemplate x = whichDeftemplate (fs g) \<and>
        MultifieldsEqual (theProposition x) (theProposition (fs g)) then Some g
      else find_fact fs x gs)"

definition FactExists :: "addr \<Rightarrow> u64 \<Rightarrow> fact_env \<Rightarrow> pointer" where
  "FactExists f h s = find_fact (facts s) (facts s f) (FactHashTable s (h mod FactHashTableSize s))"

definition CreateFactHashTable :: "u64 \<Rightarrow> u64 \<Rightarrow> addr list" where
  "CreateFactHashTable tableSize = (\<lambda>i. [])"

fun move_entries :: "(addr \<Rightarrow> fact) \<Rightarrow> u64 \<Rightarrow> addr list \<Rightarrow> (u64 \<Rightarrow> addr list) \<Rightarrow> (u64 \<Rightarrow> addr list)" where
  "move_entries fs newSize [] newTable = newTable"
| "move_entries fs newSize (g # gs) newTable =
     (let newLocation = hashValue (fs g) mod newSize
      in move_entries fs newSize gs (newTable(newLocation := g # newTable newLocation)))"

definition ResizeFactHashTable :: "fact_env \<Rightarrow> fact_env" where
  "ResizeFactHashTable s =
     (let newSize = FactHashTableSize s * 2 + 1;
          newTable = fold (\<lambda>i. move_entries (facts s) newSize (FactHashTable s (word_of_nat i)))
                       [0..<unat (FactHashTableSize s)] (CreateFactHashTable newSize)
      in s\<lparr>FactHashTableSize := newSize, FactHashTable := newTable\<rparr>)"

definition ResetFactHashTable :: "fact_env \<Rightarrow> fact_env" where
  "ResetFactHashTable s =
     (if FactHashTableSize s = SIZE_FACT_HASH then s
      else s\<lparr>FactHashTableSize := SIZE_FACT_HASH, FactHashTable := CreateFactHashTable SIZE_FACT_HASH\<rparr>)"

definition AddHashedFact :: "addr \<Rightarrow> u64 \<Rightarrow> fact_env \<Rightarrow> fact_env" where
  "AddHashedFact f h s =
     (let s1 = (if NumberOfFacts s > FactHashTableSize s then ResizeFactHashTable s else s);
          i = h mod FactHashTableSize s1
      in s1\<lparr>FactHashTable := (FactHashTable s1)(i := f # FactHashTable s1 i)\<rparr>)"

definition RemoveHashedFact :: "addr \<Rightarrow> fact_env \<Rightarrow> bool \<times> fact_env" where
  "RemoveHashedFact f s =
     (case HashFact f s of (h, s1) \<Rightarrow>
        (let i = h mod FactHashTableSize s1; bucket = FactHashTable s1 i
         in if f \<in> set bucket
            then (let s2 = s1\<lparr>FactHashTable := (FactHashTable s1)(i := remove1 f bucket)\<rparr>
                  in (True, if NumberOfFacts s2 = 1 then ResetFactHashTable s2 else s2))
            else (False, s1)))"

definition FactWillBeAsserted :: "addr \<Rightarrow> fact_env \<Rightarrow> bool \<times> fact_env" where
  "FactWillBeAsserted f s =
     (if FactDuplication s then (True, s)
      else (case HashFact f s of (h, s1) \<Rightarrow> (FactExists f h s1 = None, s1)))"

definition EnvGetFactDuplication :: "fact_env \<Rightarrow> bool" where
  "EnvGetFactDuplication s = FactDuplication s"

definition EnvSetFactDuplication :: "bool \<Rightarrow> fact_env \<Rightarrow> bool \<times> fact_env" where
  "EnvSetFactDuplication v s = (FactDuplication s, s\<lparr>FactDuplication := v\<rparr>)"

definition InitializeFactHashTable :: "fact_env \<Rightarrow> fact_env" where
  "InitializeFactHashTable s =
     s\<lparr>FactHashTable := CreateFactHashTable SIZE_FACT_HASH, FactHashTableSize := SIZE_FACT_HASH\<rparr>"

section \<open>The table holds the facts\<close>

text \<open>The hash value that \<open>HashFact\<close> gives.\<close>

definition fact_hash :: "fact_env \<Rightarrow> addr \<Rightarrow> u64" where
  "fact_hash s f = fst (HashFact f s)"

text \<open>The table holds exactly the facts of \<open>fs\<close>, each once, where its hash value puts it.\<close>

definition holds_facts :: "fact_env \<Rightarrow> addr set \<Rightarrow> bool" where
  "holds_facts s fs \<longleftrightarrow> FactHashTableSize s \<noteq> 0 \<and>
     (\<forall>f \<in> fs. hashValue (facts s f) = fact_hash s f) \<and>
     (\<forall>i. distinct (FactHashTable s i) \<and>
        set (FactHashTable s i) = {f \<in> fs. hashValue (facts s f) mod FactHashTableSize s = i})"

definition same_fact :: "fact_env \<Rightarrow> addr \<Rightarrow> addr \<Rightarrow> bool" where
  "same_fact s f g \<longleftrightarrow> whichDeftemplate (facts s f) = whichDeftemplate (facts s g) \<and>
     theProposition (facts s f) = theProposition (facts s g)"

lemma HashFact_simps:
  "HashFact f s = (fact_hash s f, upd_fact f (\<lambda>x. x\<lparr>hashValue := fact_hash s f\<rparr>) s)"
  by (simp add: fact_hash_def HashFact_def Let_def)

lemma fact_hash_cong:
  assumes "whichDeftemplate (facts s' f') = whichDeftemplate (facts s f)" "theProposition (facts s' f') = theProposition (facts s f)"
    and "\<And>t. t_name (deftemplates s' t) = t_name (deftemplates s t)"
  shows "fact_hash s' f' = fact_hash s f"
  using assms by (simp add: fact_hash_def HashFact_def Let_def)

lemma same_fact_hash: "same_fact s f g \<Longrightarrow> fact_hash s f = fact_hash s g"
  by (rule fact_hash_cong) (simp_all add: same_fact_def)

lemma find_fact_Some:
  "find_fact fs x gs = Some g \<Longrightarrow> g \<in> set gs \<and> hashValue x = hashValue (fs g) \<and>
     whichDeftemplate x = whichDeftemplate (fs g) \<and> theProposition x = theProposition (fs g)"
  by (induction gs) (auto simp: MultifieldsEqual_eq split: if_splits)

lemma find_fact_None:
  "find_fact fs x gs = None \<Longrightarrow> g \<in> set gs \<Longrightarrow> hashValue x = hashValue (fs g) \<Longrightarrow>
     whichDeftemplate x = whichDeftemplate (fs g) \<Longrightarrow> theProposition x = theProposition (fs g) \<Longrightarrow> False"
  by (induction gs) (auto simp: MultifieldsEqual_eq split: if_splits)

lemma FactExists_Some:
  assumes "holds_facts s fs" "FactExists f h s = Some g"
  shows "g \<in> fs \<and> same_fact s f g"
  using find_fact_Some [OF assms(2) [unfolded FactExists_def]] assms(1)
  by (auto simp: holds_facts_def same_fact_def)

lemma FactExists_None:
  assumes "holds_facts s fs" "hashValue (facts s f) = fact_hash s f" "FactExists f (fact_hash s f) s = None" "g \<in> fs"
  shows "\<not> same_fact s f g"
proof
  assume same: "same_fact s f g"
  then have "hashValue (facts s g) = fact_hash s f"
    using assms(1,4) same_fact_hash [OF same] by (simp add: holds_facts_def)
  with assms same show False
    using find_fact_None [of "facts s" "facts s f" "FactHashTable s (fact_hash s f mod FactHashTableSize s)" g]
    by (auto simp: FactExists_def holds_facts_def same_fact_def)
qed

subsection \<open>Resizing\<close>

lemma move_entries_bucket:
  "distinct gs \<Longrightarrow> (\<forall>i. distinct (tb i)) \<Longrightarrow> (\<forall>i. set gs \<inter> set (tb i) = {}) \<Longrightarrow>
    distinct (move_entries fs n gs tb i) \<and>
    set (move_entries fs n gs tb i) = set (tb i) \<union> {g \<in> set gs. hashValue (fs g) mod n = i}"
proof (induction gs arbitrary: tb)
  case (Cons g gs)
  let ?tb = "tb(hashValue (fs g) mod n := g # tb (hashValue (fs g) mod n))"
  have "distinct (move_entries fs n gs ?tb i) \<and>
      set (move_entries fs n gs ?tb i) = set (?tb i) \<union> {g \<in> set gs. hashValue (fs g) mod n = i}"
    by (rule Cons.IH) (use Cons.prems in auto)
  then show ?case by (auto simp: Let_def)
qed simp

lemma move_buckets:
  assumes "\<And>k. distinct (tb k)" "\<And>k l. k \<noteq> l \<Longrightarrow> set (tb k) \<inter> set (tb l) = {}" "inj_on w {0..<n}"
  shows "distinct (fold (\<lambda>k. move_entries fs m (tb (w k))) [0..<n] (\<lambda>i. []) i) \<and>
    set (fold (\<lambda>k. move_entries fs m (tb (w k))) [0..<n] (\<lambda>i. []) i) =
      {g. (\<exists>k < n. g \<in> set (tb (w k))) \<and> hashValue (fs g) mod m = i}"
  using assms(3)
proof (induction n arbitrary: i)
  case (Suc n)
  let ?t = "fold (\<lambda>k. move_entries fs m (tb (w k))) [0..<n] (\<lambda>i. [])"
  have IH: "\<And>i. distinct (?t i) \<and> set (?t i) = {g. (\<exists>k < n. g \<in> set (tb (w k))) \<and> hashValue (fs g) mod m = i}"
    using Suc by (simp add: inj_on_def)
  have "set (tb (w n)) \<inter> set (?t i) = {}" for i
  proof -
    have "w n \<noteq> w k" if "k < n" for k using inj_onD [OF Suc.prems, of n k] that by auto
    then have "set (tb (w n)) \<inter> set (tb (w k)) = {}" if "k < n" for k using that assms(2) by blast
    then show ?thesis using IH [of i] by blast
  qed
  then have "distinct (move_entries fs m (tb (w n)) ?t i) \<and>
      set (move_entries fs m (tb (w n)) ?t i) = set (?t i) \<union> {g \<in> set (tb (w n)). hashValue (fs g) mod m = i}"
    using IH assms(1) by (intro move_entries_bucket) blast+
  moreover have "fold (\<lambda>k. move_entries fs m (tb (w k))) [0..<Suc n] (\<lambda>i. []) = move_entries fs m (tb (w n)) ?t"
    by simp
  ultimately show ?case using IH [of i] by (auto simp only: less_Suc_eq)
qed simp

lemma ResizeFactHashTable_holds:
  assumes "holds_facts s fs"
  shows "holds_facts (ResizeFactHashTable s) fs"
proof -
  let ?n = "FactHashTableSize s" and ?w = "word_of_nat :: nat \<Rightarrow> u64"
  let ?m = "?n * 2 + 1" and ?s = "ResizeFactHashTable s"
  have "unat ?n < 2 ^ 64" using unsigned_less [of ?n, where ?'a = nat] by simp
  then have "unat (?w k) = k" if "k < unat ?n" for k
    using that by (simp add: unsigned_of_nat take_bit_nat_eq_self)
  then have "inj_on ?w {0..<unat ?n}"
    by (intro inj_onI) (metis atLeastLessThan_iff)
  moreover have "\<And>k. distinct (FactHashTable s k)" "\<And>k l. k \<noteq> l \<Longrightarrow> set (FactHashTable s k) \<inter> set (FactHashTable s l) = {}"
    using assms by (auto simp: holds_facts_def)
  ultimately have tb: "distinct (FactHashTable ?s i)"
      "set (FactHashTable ?s i) = {g. (\<exists>k < unat ?n. g \<in> set (FactHashTable s (?w k))) \<and> hashValue (facts s g) mod ?m = i}" for i
    using move_buckets [of "FactHashTable s" ?w "unat ?n" "facts s" ?m i]
    by (simp_all add: ResizeFactHashTable_def Let_def CreateFactHashTable_def)
  have "(\<exists>k < unat ?n. g \<in> set (FactHashTable s (?w k))) \<longleftrightarrow> g \<in> fs" for g
  proof
    assume "g \<in> fs"
    then have "g \<in> set (FactHashTable s (hashValue (facts s g) mod ?n))" using assms by (simp add: holds_facts_def)
    moreover have "unat (hashValue (facts s g) mod ?n) < unat ?n"
      using assms by (simp add: holds_facts_def unat_mod unat_gt_0)
    moreover have "?w (unat (hashValue (facts s g) mod ?n)) = hashValue (facts s g) mod ?n" by simp
    ultimately show "\<exists>k < unat ?n. g \<in> set (FactHashTable s (?w k))" by metis
  qed (use assms in \<open>auto simp: holds_facts_def\<close>)
  moreover have "odd ?m" by simp
  then have "?m \<noteq> 0" by (metis even_zero)
  ultimately show ?thesis
    using assms tb by (simp add: holds_facts_def ResizeFactHashTable_def Let_def fact_hash_def HashFact_def)
qed

subsection \<open>Adding and removing\<close>

lemma AddHashedFact_holds:
  assumes "holds_facts s fs" "f \<notin> fs" "hashValue (facts s f) = fact_hash s f"
  shows "holds_facts (AddHashedFact f (fact_hash s f) s) (insert f fs)"
proof -
  let ?s = "if NumberOfFacts s > FactHashTableSize s then ResizeFactHashTable s else s"
  have "holds_facts ?s fs" using assms(1) ResizeFactHashTable_holds by simp
  moreover have "facts ?s = facts s" "deftemplates ?s = deftemplates s"
    by (simp_all add: ResizeFactHashTable_def Let_def)
  moreover have "fact_hash (AddHashedFact f h s) g = fact_hash s g" "fact_hash ?s g = fact_hash s g" for g h
    by (rule fact_hash_cong; simp add: AddHashedFact_def ResizeFactHashTable_def Let_def)+
  ultimately show ?thesis using assms(2,3) by (auto simp: holds_facts_def AddHashedFact_def Let_def)
qed

lemma ResetFactHashTable_holds: "holds_facts s {} \<Longrightarrow> holds_facts (ResetFactHashTable s) {}"
  by (cases "FactHashTableSize s = SIZE_FACT_HASH")
    (simp_all add: ResetFactHashTable_def holds_facts_def SIZE_FACT_HASH_def CreateFactHashTable_def)

lemma RemoveHashedFact_holds:
  assumes "holds_facts s fs" "f \<in> fs" "NumberOfFacts s = 1 \<Longrightarrow> fs = {f}"
  shows "fst (RemoveHashedFact f s)" "holds_facts (snd (RemoveHashedFact f s)) (fs - {f})"
proof -
  let ?h = "fact_hash s f" and ?s = "upd_fact f (\<lambda>x. x\<lparr>hashValue := fact_hash s f\<rparr>) s"
  let ?i = "fact_hash s f mod FactHashTableSize s"
  let ?s2 = "?s\<lparr>FactHashTable := (FactHashTable ?s)(?i := remove1 f (FactHashTable ?s ?i))\<rparr>"
  have h: "hashValue (facts s f) = ?h" using assms(1,2) by (simp add: holds_facts_def)
  then have same: "upd_fact f (\<lambda>x. x\<lparr>hashValue := fact_hash s f\<rparr>) s = s" by (simp add: upd_fact_def fun_upd_idem)
  have inb: "f \<in> set (FactHashTable s ?i)" using assms(1,2) h by (simp add: holds_facts_def)
  then have eq: "RemoveHashedFact f s = (True, if NumberOfFacts s = 1 then ResetFactHashTable ?s2 else ?s2)"
    by (simp add: RemoveHashedFact_def HashFact_simps same Let_def)
  show "fst (RemoveHashedFact f s)" using eq by simp
  have hash: "fact_hash (snd (RemoveHashedFact f s)) g = fact_hash s g" for g
    unfolding eq same by (rule fact_hash_cong) (simp_all add: ResetFactHashTable_def)
  have "holds_facts ?s2 (fs - {f})"
    unfolding same using assms(1,2) h
    by (auto simp: holds_facts_def fact_hash_def HashFact_def Let_def)
  moreover have "holds_facts (ResetFactHashTable ?s2) {}" if "NumberOfFacts s = 1"
    using assms(3) [OF that] calculation ResetFactHashTable_holds by simp
  ultimately show "holds_facts (snd (RemoveHashedFact f s)) (fs - {f})"
    using assms(3) unfolding eq same by auto
qed

text \<open>What the operations of the table leave alone.\<close>

lemma hash_table_frame [simp]:
  "facts (AddHashedFact f h s) = facts s"
  "deftemplates (AddHashedFact f h s) = deftemplates s"
  "FactList (AddHashedFact f h s) = FactList s"
  "GarbageFacts (AddHashedFact f h s) = GarbageFacts s"
  "FactDuplication (AddHashedFact f h s) = FactDuplication s"
  "NumberOfFacts (AddHashedFact f h s) = NumberOfFacts s"
  "NextFactIndex (AddHashedFact f h s) = NextFactIndex s"
  "CurrentEntityTimeTag (AddHashedFact f h s) = CurrentEntityTimeTag s"
  "JoinOperationInProgress (AddHashedFact f h s) = JoinOperationInProgress s"
  "pm_dependents (AddHashedFact f h s) = pm_dependents s"
  "UnsupportedDataEntities (AddHashedFact f h s) = UnsupportedDataEntities s"
  "alreadyEntered (AddHashedFact f h s) = alreadyEntered s"
  "engine (AddHashedFact f h s) = engine s"
  "pm_rightParent (AddHashedFact f h s) = pm_rightParent s"
  by (simp_all add: AddHashedFact_def ResizeFactHashTable_def Let_def)

lemma RemoveHashedFact_frame:
  assumes "hashValue (facts s f) = fact_hash s f" "RemoveHashedFact f s = (b, s')"
  shows "facts s' = facts s" "deftemplates s' = deftemplates s" "FactList s' = FactList s" "GarbageFacts s' = GarbageFacts s"
    "FactDuplication s' = FactDuplication s" "NumberOfFacts s' = NumberOfFacts s" "NextFactIndex s' = NextFactIndex s"
    "CurrentEntityTimeTag s' = CurrentEntityTimeTag s" "JoinOperationInProgress s' = JoinOperationInProgress s"
    "pm_dependents s' = pm_dependents s" "UnsupportedDataEntities s' = UnsupportedDataEntities s"
    "alreadyEntered s' = alreadyEntered s" "engine s' = engine s" "pm_rightParent s' = pm_rightParent s"
proof -
  have "upd_fact f (\<lambda>x. x\<lparr>hashValue := fact_hash s f\<rparr>) s = s" using assms(1) by (simp add: upd_fact_def fun_upd_idem)
  note same = this
  obtain t n where "s' = s\<lparr>FactHashTable := t, FactHashTableSize := n\<rparr>"
  proof (rule that [of "FactHashTableSize s'" "FactHashTable s'"])
  qed (use assms(2) same in \<open>auto simp: RemoveHashedFact_def HashFact_simps ResetFactHashTable_def Let_def split: if_splits\<close>)
  then show "facts s' = facts s" "deftemplates s' = deftemplates s" "FactList s' = FactList s" "GarbageFacts s' = GarbageFacts s"
    "FactDuplication s' = FactDuplication s" "NumberOfFacts s' = NumberOfFacts s" "NextFactIndex s' = NextFactIndex s"
    "CurrentEntityTimeTag s' = CurrentEntityTimeTag s" "JoinOperationInProgress s' = JoinOperationInProgress s"
    "pm_dependents s' = pm_dependents s" "UnsupportedDataEntities s' = UnsupportedDataEntities s"
    "alreadyEntered s' = alreadyEntered s" "engine s' = engine s" "pm_rightParent s' = pm_rightParent s"
    by simp_all
qed

end
