(* ===== verification/Logical_Support.thy ===== *)
theory Logical_Support
  imports Fact_Hash
begin

text \<open>
  Logical dependencies, \<open>lgcldpnd.c\<close>: a fact that a rule with logical conditions asserts is supported by a
  partial match of the rule. The links are kept at both ends. When the network deletes the match, a fact
  that loses its last support is queued for retraction.
\<close>

section \<open>Links\<close>

fun DetachAssociatedDependencies :: "addr list \<Rightarrow> addr \<Rightarrow> addr list" where
  "DetachAssociatedDependencies [] e = []"
| "DetachAssociatedDependencies (d # ds) e =
     (if d = e then DetachAssociatedDependencies ds e else d # DetachAssociatedDependencies ds e)"

lemma Detach_filter: "DetachAssociatedDependencies ds e = filter (\<lambda>d. d \<noteq> e) ds"
  by (induction ds) auto

definition set_dependents :: "addr \<Rightarrow> addr list \<Rightarrow> fact_env \<Rightarrow> fact_env" where
  "set_dependents f ds s = upd_fact f (\<lambda>x. x\<lparr>f_dependents := ds\<rparr>) s"

definition set_pm_dependents :: "addr \<Rightarrow> addr list \<Rightarrow> fact_env \<Rightarrow> fact_env" where
  "set_pm_dependents p ds s = s\<lparr>pm_dependents := (pm_dependents s)(p := ds)\<rparr>"

fun detach_from_matches :: "addr \<Rightarrow> addr list \<Rightarrow> fact_env \<Rightarrow> fact_env" where
  "detach_from_matches f [] s = s"
| "detach_from_matches f (p # ps) s =
     detach_from_matches f ps (set_pm_dependents p (DetachAssociatedDependencies (pm_dependents s p) f) s)"

definition RemoveEntityDependencies :: "addr \<Rightarrow> fact_env \<Rightarrow> fact_env" where
  "RemoveEntityDependencies f s =
     set_dependents f [] (detach_from_matches f (f_dependents (facts s f)) s)"

definition ReturnEntityDependencies :: "addr \<Rightarrow> fact_env \<Rightarrow> fact_env" where
  "ReturnEntityDependencies f s = set_dependents f [] s"

fun detach_from_facts :: "addr \<Rightarrow> addr list \<Rightarrow> fact_env \<Rightarrow> fact_env" where
  "detach_from_facts p [] s = s"
| "detach_from_facts p (f # fs) s =
     detach_from_facts p fs (set_dependents f (DetachAssociatedDependencies (f_dependents (facts s f)) p) s)"

definition RemovePMDependencies :: "addr \<Rightarrow> fact_env \<Rightarrow> fact_env" where
  "RemovePMDependencies p s = set_pm_dependents p [] (detach_from_facts p (pm_dependents s p) s)"

definition DestroyPMDependencies :: "addr \<Rightarrow> fact_env \<Rightarrow> fact_env" where
  "DestroyPMDependencies p s = set_pm_dependents p [] s"

text \<open>\<open>None\<close> for a null \<open>TheLogicalBind\<close>, as in the engine.\<close>

definition AddLogicalDependencies :: "addr \<Rightarrow> bool \<Rightarrow> fact_env \<Rightarrow> bool \<times> fact_env" where
  "AddLogicalDependencies f existingEntity s =
     (if TheLogicalJoin (engine s) = None
      then (True, if existingEntity then RemoveEntityDependencies f s else s)
      else if existingEntity \<and> f_dependents (facts s f) = [] then (True, s)
      else (case TheLogicalBind (engine s) of
              None \<Rightarrow> (False, s)
            | Some p \<Rightarrow>
                if leftParent (matches (engine s) p) = None \<and> pm_rightParent s p = None then (False, s)
                else (let s1 = set_pm_dependents p (f # pm_dependents s p) s
                      in (True, set_dependents f (p # f_dependents (facts s1 f)) s1))))"

text \<open>Each fact that the match supported loses the support; a fact without any is queued, and pinned while it
  is in the queue.\<close>

definition drop_support :: "addr \<Rightarrow> addr \<Rightarrow> fact_env \<Rightarrow> fact_env" where
  "drop_support p f s =
     (let s1 = set_dependents f (DetachAssociatedDependencies (f_dependents (facts s f)) p) s
      in if f_dependents (facts s1 f) = []
         then (EnvIncrementFactCount f s1)\<lparr>UnsupportedDataEntities := f # UnsupportedDataEntities s1\<rparr>
         else s1)"

fun lose_support :: "addr \<Rightarrow> addr list \<Rightarrow> fact_env \<Rightarrow> fact_env" where
  "lose_support p [] s = s"
| "lose_support p (f # fs) s = lose_support p fs (drop_support p f s)"

definition RemoveLogicalSupport :: "addr \<Rightarrow> fact_env \<Rightarrow> fact_env" where
  "RemoveLogicalSupport p s =
     (if pm_dependents s p = [] then s
      else set_pm_dependents p [] (lose_support p (pm_dependents s p) s))"

section \<open>What the links leave alone\<close>

definition fact_core :: "fact \<Rightarrow> fact" where
  "fact_core x = x\<lparr>f_dependents := []\<rparr>"

text \<open>The states have the same facts in the same lists and in the same table; links, counts, the queue and the
  engine may differ.\<close>

definition same_store :: "fact_env \<Rightarrow> fact_env \<Rightarrow> bool" where
  "same_store s s' \<longleftrightarrow> FactList s' = FactList s \<and> GarbageFacts s' = GarbageFacts s \<and>
     FactHashTable s' = FactHashTable s \<and> FactHashTableSize s' = FactHashTableSize s \<and>
     FactDuplication s' = FactDuplication s \<and> NextFactIndex s' = NextFactIndex s \<and>
     (\<forall>f. fact_core (facts s' f) = fact_core (facts s f)) \<and>
     (\<forall>t. factList (deftemplates s' t) = factList (deftemplates s t) \<and> t_name (deftemplates s' t) = t_name (deftemplates s t))"

lemma same_store_refl [simp]: "same_store s s"
  by (simp add: same_store_def)

lemma same_store_trans: "same_store s s' \<Longrightarrow> same_store s' s'' \<Longrightarrow> same_store s s''"
  by (simp add: same_store_def)

lemma fact_coreD:
  assumes "fact_core y = fact_core x"
  shows "whichDeftemplate y = whichDeftemplate x" "theProposition y = theProposition x" "factIndex y = factIndex x"
    "hashValue y = hashValue x" "garbage y = garbage x"
  using assms by (simp_all add: fact_core_def) (metis fact.ext_inject fact.surjective fact.update_convs(6))+

lemma same_storeD:
  assumes "same_store s s'"
  shows "FactList s' = FactList s" "GarbageFacts s' = GarbageFacts s" "FactHashTable s' = FactHashTable s"
    "FactHashTableSize s' = FactHashTableSize s" "FactDuplication s' = FactDuplication s" "NextFactIndex s' = NextFactIndex s"
    "factList (deftemplates s' t) = factList (deftemplates s t)" "t_name (deftemplates s' t) = t_name (deftemplates s t)"
    "whichDeftemplate (facts s' f) = whichDeftemplate (facts s f)" "theProposition (facts s' f) = theProposition (facts s f)"
    "factIndex (facts s' f) = factIndex (facts s f)" "hashValue (facts s' f) = hashValue (facts s f)"
    "garbage (facts s' f) = garbage (facts s f)"
  using assms fact_coreD [of "facts s' f" "facts s f"] by (simp_all add: same_store_def)

text \<open>In addition the counter and the flags are the same.\<close>

definition quiet :: "fact_env \<Rightarrow> fact_env \<Rightarrow> bool" where
  "quiet s s' \<longleftrightarrow> same_store s s' \<and> NumberOfFacts s' = NumberOfFacts s \<and>
     JoinOperationInProgress s' = JoinOperationInProgress s \<and> alreadyEntered s' = alreadyEntered s"

lemma quiet_refl [simp]: "quiet s s"
  by (simp add: quiet_def)

lemma quiet_trans [trans]: "quiet s s' \<Longrightarrow> quiet s' s'' \<Longrightarrow> quiet s s''"
  by (auto simp: quiet_def intro: same_store_trans)

lemma quietD:
  assumes "quiet s s'"
  shows "same_store s s'" "NumberOfFacts s' = NumberOfFacts s" "JoinOperationInProgress s' = JoinOperationInProgress s"
    "alreadyEntered s' = alreadyEntered s"
  using assms by (simp_all add: quiet_def)

abbreviation deps :: "fact_env \<Rightarrow> addr \<Rightarrow> addr list" where
  "deps s f \<equiv> f_dependents (facts s f)"

lemma set_dependents_fields [simp]:
  "deps (set_dependents f ds s) g = (if g = f then ds else deps s g)"
  "pm_dependents (set_dependents f ds s) = pm_dependents s"
  "UnsupportedDataEntities (set_dependents f ds s) = UnsupportedDataEntities s"
  "engine (set_dependents f ds s) = engine s"
  "quiet s (set_dependents f ds s)"
  by (simp_all add: set_dependents_def quiet_def same_store_def fact_core_def)

lemma set_pm_dependents_fields [simp]:
  "facts (set_pm_dependents p ds s) = facts s"
  "pm_dependents (set_pm_dependents p ds s) q = (if q = p then ds else pm_dependents s q)"
  "UnsupportedDataEntities (set_pm_dependents p ds s) = UnsupportedDataEntities s"
  "engine (set_pm_dependents p ds s) = engine s"
  "quiet s (set_pm_dependents p ds s)"
  by (simp_all add: set_pm_dependents_def quiet_def same_store_def)

lemma upd_entity_fields [simp]:
  "facts (upd_entity f u s) = facts s"
  "pm_dependents (upd_entity f u s) = pm_dependents s"
  "UnsupportedDataEntities (upd_entity f u s) = UnsupportedDataEntities s"
  "quiet s (upd_entity f u s)"
  by (simp_all add: upd_entity_def quiet_def same_store_def)

lemma drop_support_fields [simp]:
  "deps (drop_support p f s) g = (if g = f then filter (\<lambda>d. d \<noteq> p) (deps s f) else deps s g)"
  "pm_dependents (drop_support p f s) = pm_dependents s"
  "UnsupportedDataEntities (drop_support p f s) =
     (if set (deps s f) \<subseteq> {p} then f # UnsupportedDataEntities s else UnsupportedDataEntities s)"
  by (auto simp: drop_support_def EnvIncrementFactCount_def Let_def Detach_filter filter_empty_conv)

lemma drop_support_quiet: "quiet s (drop_support p f s)"
  by (simp add: drop_support_def EnvIncrementFactCount_def upd_entity_def set_dependents_def quiet_def same_store_def
      fact_core_def Let_def)

lemma lose_support_fields:
  "deps (lose_support p fs s) g = (if g \<in> set fs then filter (\<lambda>d. d \<noteq> p) (deps s g) else deps s g)"
  "pm_dependents (lose_support p fs s) = pm_dependents s"
  by (induction fs arbitrary: s) auto

lemma lose_support_quiet: "quiet s (lose_support p fs s)"
proof (induction fs arbitrary: s)
  case (Cons f fs)
  show ?case using quiet_trans [OF drop_support_quiet Cons.IH] by simp
qed simp

lemma lose_support_queue:
  "UnsupportedDataEntities (lose_support p fs s) =
     rev (filter (\<lambda>f. set (deps s f) \<subseteq> {p}) fs) @ UnsupportedDataEntities s"
proof (induction fs arbitrary: s)
  case (Cons f fs)
  have "filter (\<lambda>g. set (deps (drop_support p f s) g) \<subseteq> {p}) fs = filter (\<lambda>g. set (deps s g) \<subseteq> {p}) fs"
    by (rule filter_cong) auto
  then show ?case using Cons by simp
qed simp

section \<open>Links are kept at both ends\<close>

definition links_ok :: "fact_env \<Rightarrow> bool" where
  "links_ok s \<longleftrightarrow> (\<forall>f p. p \<in> set (deps s f) \<longleftrightarrow> f \<in> set (pm_dependents s p))"

lemma RemoveLogicalSupport_fields:
  assumes "links_ok s"
  shows "deps (RemoveLogicalSupport p s) f = filter (\<lambda>d. d \<noteq> p) (deps s f)"
    "pm_dependents (RemoveLogicalSupport p s) q = (if q = p then [] else pm_dependents s q)"
    "UnsupportedDataEntities (RemoveLogicalSupport p s) =
       rev (filter (\<lambda>f. set (deps s f) \<subseteq> {p}) (pm_dependents s p)) @ UnsupportedDataEntities s"
    "quiet s (RemoveLogicalSupport p s)"
proof -
  have none: "filter (\<lambda>d. d \<noteq> p) (deps s f) = deps s f" if "f \<notin> set (pm_dependents s p)" for f
    using that assms by (auto simp: filter_id_conv links_ok_def)
  then show "deps (RemoveLogicalSupport p s) f = filter (\<lambda>d. d \<noteq> p) (deps s f)"
    by (cases "pm_dependents s p = []") (simp_all add: RemoveLogicalSupport_def lose_support_fields)
  show "pm_dependents (RemoveLogicalSupport p s) q = (if q = p then [] else pm_dependents s q)"
    "UnsupportedDataEntities (RemoveLogicalSupport p s) =
       rev (filter (\<lambda>f. set (deps s f) \<subseteq> {p}) (pm_dependents s p)) @ UnsupportedDataEntities s"
    by (simp_all add: RemoveLogicalSupport_def lose_support_fields lose_support_queue)
  show "quiet s (RemoveLogicalSupport p s)"
    using quiet_trans [OF lose_support_quiet set_pm_dependents_fields(5)] by (simp add: RemoveLogicalSupport_def)
qed

lemma detach_from_matches_fields:
  "facts (detach_from_matches f ps s) = facts s"
  "pm_dependents (detach_from_matches f ps s) q =
     (if q \<in> set ps then filter (\<lambda>d. d \<noteq> f) (pm_dependents s q) else pm_dependents s q)"
  "UnsupportedDataEntities (detach_from_matches f ps s) = UnsupportedDataEntities s"
  "engine (detach_from_matches f ps s) = engine s"
  by (induction ps arbitrary: s) (auto simp: Detach_filter)

lemma detach_from_matches_quiet: "quiet s (detach_from_matches f ps s)"
proof (induction ps arbitrary: s)
  case (Cons p ps)
  show ?case using quiet_trans [OF set_pm_dependents_fields(5) Cons.IH] by simp
qed simp

lemma RemoveEntityDependencies_fields:
  assumes "links_ok s"
  shows "deps (RemoveEntityDependencies f s) g = (if g = f then [] else deps s g)"
    "pm_dependents (RemoveEntityDependencies f s) q = filter (\<lambda>d. d \<noteq> f) (pm_dependents s q)"
    "UnsupportedDataEntities (RemoveEntityDependencies f s) = UnsupportedDataEntities s"
    "engine (RemoveEntityDependencies f s) = engine s"
    "quiet s (RemoveEntityDependencies f s)"
proof -
  have "filter (\<lambda>d. d \<noteq> f) (pm_dependents s q) = pm_dependents s q" if "q \<notin> set (deps s f)" for q
    using that assms by (auto simp: filter_id_conv links_ok_def)
  then show "pm_dependents (RemoveEntityDependencies f s) q = filter (\<lambda>d. d \<noteq> f) (pm_dependents s q)"
    by (simp add: RemoveEntityDependencies_def detach_from_matches_fields)
  show "quiet s (RemoveEntityDependencies f s)"
    using quiet_trans [OF detach_from_matches_quiet set_dependents_fields(5)] by (simp add: RemoveEntityDependencies_def)
qed (simp_all add: RemoveEntityDependencies_def detach_from_matches_fields)

lemma detach_from_facts_fields:
  "deps (detach_from_facts p fs s) g = (if g \<in> set fs then filter (\<lambda>d. d \<noteq> p) (deps s g) else deps s g)"
  "pm_dependents (detach_from_facts p fs s) = pm_dependents s"
  by (induction fs arbitrary: s) (auto simp: Detach_filter)

lemma links_kept:
  assumes "links_ok s"
  shows "links_ok (RemoveLogicalSupport p s)" "links_ok (RemoveEntityDependencies f s)" "links_ok (RemovePMDependencies p s)"
  using assms RemoveLogicalSupport_fields [OF assms] RemoveEntityDependencies_fields [OF assms]
  by (auto simp: links_ok_def RemovePMDependencies_def detach_from_facts_fields)

lemma AddLogicalDependencies_links:
  assumes "links_ok s"
  shows "links_ok (snd (AddLogicalDependencies f existing s))"
proof -
  have "links_ok (set_dependents f (p # ds) (set_pm_dependents p (f # pm_dependents s p) s))" if "deps s f = ds" for p ds
    using assms that unfolding links_ok_def by auto
  then show ?thesis using assms links_kept(2) [OF assms] by (auto simp: AddLogicalDependencies_def Let_def split: option.splits)
qed

lemma AddLogicalDependencies_quiet:
  assumes "links_ok s"
  shows "quiet s (snd (AddLogicalDependencies f existing s))"
  using RemoveEntityDependencies_fields(5) [OF assms] quiet_trans [OF set_pm_dependents_fields(5) set_dependents_fields(5)]
  by (simp add: AddLogicalDependencies_def Let_def split: option.splits)

lemma AddLogicalDependencies_other:
  "f \<noteq> g \<Longrightarrow> deps (snd (AddLogicalDependencies f existing s)) g = deps s g"
  "UnsupportedDataEntities (snd (AddLogicalDependencies f existing s)) = UnsupportedDataEntities s"
  "engine (snd (AddLogicalDependencies f existing s)) = engine s"
  by (auto simp: AddLogicalDependencies_def RemoveEntityDependencies_def detach_from_matches_fields Let_def split: option.splits)

end
