(* ===== verification/Fact_Manager.thy ===== *)
theory Fact_Manager
  imports Logical_Support
begin

text \<open>
  Asserting and retracting facts, \<open>factmngr.c\<close>, and the retraction of facts that lose their logical support,
  \<open>ForceLogicalRetractions\<close> of \<open>lgcldpnd.c\<close>. The pattern network, the constraint check and the registered
  functions are parameters, collected in \<open>fact_hooks\<close>; \<open>network_step\<close> says what they may do.
\<close>

section \<open>Parameters\<close>

text \<open>\<open>FactPatternMatch\<close> and \<open>NetworkRetract\<close> get the fact; \<open>frame_empty\<close> tells whether the ephemeral values of
  the garbage frame have all been reclaimed.\<close>

record fact_hooks =
  assert_functions :: "(addr \<Rightarrow> fact_env \<Rightarrow> fact_env) list"
  retract_functions :: "(addr \<Rightarrow> fact_env \<Rightarrow> fact_env) list"
  CheckTemplateFact :: "addr \<Rightarrow> fact_env \<Rightarrow> fact_env"
  FactPatternMatch :: "addr \<Rightarrow> fact_env \<Rightarrow> fact_env"
  NetworkRetract :: "addr \<Rightarrow> fact_env \<Rightarrow> fact_env"
  FlushGarbagePartialMatches :: "fact_env \<Rightarrow> fact_env"
  CallPeriodicTasks :: "fact_env \<Rightarrow> fact_env"
  frame_empty :: "fact_env \<Rightarrow> bool"

fun call_functions :: "(addr \<Rightarrow> fact_env \<Rightarrow> fact_env) list \<Rightarrow> addr \<Rightarrow> fact_env \<Rightarrow> fact_env" where
  "call_functions [] f s = s"
| "call_functions (g # gs) f s = call_functions gs f (g f s)"

section \<open>Garbage facts\<close>

definition RemoveGarbageFacts :: "fact_env \<Rightarrow> fact_env" where
  "RemoveGarbageFacts s = s\<lparr>GarbageFacts := filter (\<lambda>f. busyCount (entities (engine s) f) \<noteq> 0) (GarbageFacts s)\<rparr>"

definition clean_fact_frame :: "fact_hooks \<Rightarrow> fact_env \<Rightarrow> fact_env" where
  "clean_fact_frame h s =
     (if \<not> dirty s then s
      else (let s1 = RemoveGarbageFacts s in if frame_empty h s1 then s1\<lparr>dirty := False\<rparr> else s1))"

section \<open>Retracting\<close>

definition set_engine :: "(env \<Rightarrow> env) \<Rightarrow> fact_env \<Rightarrow> fact_env" where
  "set_engine u s = s\<lparr>engine := u (engine s)\<rparr>"

text \<open>The fact leaves the list of its deftemplate and the fact list and becomes garbage.\<close>

definition unlink_fact :: "addr \<Rightarrow> fact_env \<Rightarrow> fact_env" where
  "unlink_fact f s =
     (let s1 = upd_template (whichDeftemplate (facts s f)) (\<lambda>t. t\<lparr>factList := remove1 f (factList t)\<rparr>) s;
          s2 = s1\<lparr>FactList := remove1 f (FactList s1)\<rparr>;
          s3 = s2\<lparr>GarbageFacts := f # GarbageFacts s2\<rparr>
      in (upd_fact f (\<lambda>x. x\<lparr>garbage := True\<rparr>) s3)\<lparr>dirty := True\<rparr>)"

text \<open>Partial matches that have been deleted are returned to memory, unless a rule is being executed.\<close>

definition flush_matches :: "fact_hooks \<Rightarrow> fact_env \<Rightarrow> fact_env" where
  "flush_matches h s = (if ExecutingRule (engine s) = None then FlushGarbagePartialMatches h s else s)"

text \<open>The part of \<open>EnvRetract\<close> before \<open>ForceLogicalRetractions\<close>, and the part behind it.\<close>

definition retract_start :: "fact_hooks \<Rightarrow> addr \<Rightarrow> fact_env \<Rightarrow> fact_env" where
  "retract_start h f s =
     (let s1 = (call_functions (retract_functions h) f s)\<lparr>ChangeToFactList := True\<rparr>;
          s2 = RemoveEntityDependencies f s1;
          s3 = snd (RemoveHashedFact f s2);
          s4 = unlink_fact f s3;
          s5 = set_engine (SetEvaluationError False) s4;
          s6 = NetworkRetract h f (s5\<lparr>JoinOperationInProgress := True\<rparr>)
      in flush_matches h (s6\<lparr>JoinOperationInProgress := False\<rparr>))"

definition retract_end :: "fact_hooks \<Rightarrow> addr \<Rightarrow> fact_env \<Rightarrow> fact_env" where
  "retract_end h f s = FactDeinstall f (if embedded s then clean_fact_frame h s else s)"

definition refuse_retract :: "fact_env \<Rightarrow> fact_env" where
  "refuse_retract s = set_engine (print_message NoRetractDuringMatching) s"

text \<open>\<open>EnvRetract\<close> as the delete function that \<open>ForceLogicalRetractions\<close> calls: \<open>alreadyEntered\<close> is set, and
  the inner \<open>ForceLogicalRetractions\<close> returns at once.\<close>

definition retract_nested :: "fact_hooks \<Rightarrow> addr \<Rightarrow> fact_env \<Rightarrow> bool \<times> fact_env" where
  "retract_nested h f s =
     (if JoinOperationInProgress s then (False, refuse_retract s)
      else if garbage (facts s f) then (False, s)
      else (True, retract_end h f (retract_start h f s)))"

partial_function (option) force_loop :: "fact_hooks \<Rightarrow> fact_env \<Rightarrow> fact_env option" where
  "force_loop h s =
     (case UnsupportedDataEntities s of
        [] \<Rightarrow> Some s
      | f # fs \<Rightarrow>
          force_loop h (snd (retract_nested h f (EnvDecrementFactCount f (s\<lparr>UnsupportedDataEntities := fs\<rparr>)))))"

definition ForceLogicalRetractions :: "fact_hooks \<Rightarrow> fact_env \<Rightarrow> fact_env option" where
  "ForceLogicalRetractions h s =
     (if alreadyEntered s then Some s
      else map_option (\<lambda>s1. s1\<lparr>alreadyEntered := False\<rparr>) (force_loop h (s\<lparr>alreadyEntered := True\<rparr>)))"

definition EnvRetract :: "fact_hooks \<Rightarrow> addr \<Rightarrow> fact_env \<Rightarrow> (bool \<times> fact_env) option" where
  "EnvRetract h f s =
     (if JoinOperationInProgress s then Some (False, refuse_retract s)
      else if garbage (facts s f) then Some (False, s)
      else map_option (\<lambda>s1. (True, retract_end h f s1)) (ForceLogicalRetractions h (retract_start h f s)))"

partial_function (option) RemoveAllFacts :: "fact_hooks \<Rightarrow> fact_env \<Rightarrow> fact_env option" where
  "RemoveAllFacts h s =
     (case FactList s of
        [] \<Rightarrow> Some s
      | f # fs \<Rightarrow> Option.bind (EnvRetract h f s) (\<lambda>r. RemoveAllFacts h (snd r)))"

definition ResetFacts :: "fact_hooks \<Rightarrow> fact_env \<Rightarrow> fact_env option" where
  "ResetFacts h s = RemoveAllFacts h (s\<lparr>NextFactIndex := 0\<rparr>)"

definition ClearFactsReady :: "fact_hooks \<Rightarrow> fact_env \<Rightarrow> (bool \<times> fact_env) option" where
  "ClearFactsReady h s =
     (if JoinOperationInProgress s then Some (False, s)
      else map_option (\<lambda>s1. (FactList s1 = [], s1)) (RemoveAllFacts h (s\<lparr>NextFactIndex := 0\<rparr>)))"

section \<open>Asserting\<close>

text \<open>\<open>HandleFactDuplication\<close>: the hash value and whether the fact is a duplicate; a duplicate hands its
  support to the fact that is there.\<close>

definition HandleFactDuplication :: "addr \<Rightarrow> fact_env \<Rightarrow> u64 \<times> bool \<times> fact_env" where
  "HandleFactDuplication f s =
     (case HashFact f s of (hv, s1) \<Rightarrow>
        if FactDuplication s1 then (hv, False, s1)
        else (case FactExists f hv s1 of
                None \<Rightarrow> (hv, False, s1)
              | Some g \<Rightarrow> (0, True, snd (AddLogicalDependencies g True s1))))"

definition replace_void :: "val option list \<Rightarrow> val option list" where
  "replace_void vs = map (\<lambda>v. if v = None then Some (SYMBOL ''nil'') else v) vs"

text \<open>The fact enters both lists and gets its index and time tag.\<close>

definition link_fact :: "addr \<Rightarrow> fact_env \<Rightarrow> fact_env" where
  "link_fact f s =
     (let s1 = s\<lparr>FactList := FactList s @ [f]\<rparr>;
          s2 = upd_template (whichDeftemplate (facts s1 f)) (\<lambda>t. t\<lparr>factList := factList t @ [f]\<rparr>) s1;
          s3 = upd_fact f (\<lambda>x. x\<lparr>factIndex := NextFactIndex s2\<rparr>) (s2\<lparr>NextFactIndex := NextFactIndex s2 + 1\<rparr>)
      in upd_entity f (\<lambda>x. x\<lparr>timeTag := CurrentEntityTimeTag s3\<rparr>)
           (s3\<lparr>CurrentEntityTimeTag := CurrentEntityTimeTag s3 + 1\<rparr>))"

text \<open>What follows the installation of the fact: registered functions, constraint check and pattern matching.\<close>

definition match_fact :: "fact_hooks \<Rightarrow> addr \<Rightarrow> fact_env \<Rightarrow> fact_env" where
  "match_fact h f s =
     (let s1 = (call_functions (assert_functions h) f s)\<lparr>ChangeToFactList := True\<rparr>;
          s2 = set_engine (SetEvaluationError False) (CheckTemplateFact h f s1);
          s3 = FactPatternMatch h f (s2\<lparr>JoinOperationInProgress := True\<rparr>)
      in s3\<lparr>JoinOperationInProgress := False\<rparr>)"

definition assert_end :: "fact_hooks \<Rightarrow> fact_env \<Rightarrow> fact_env" where
  "assert_end h s =
     (let s1 = flush_matches h s in if embedded s1 then CallPeriodicTasks h (clean_fact_frame h s1) else s1)"

definition EnvAssert :: "fact_hooks \<Rightarrow> addr \<Rightarrow> fact_env \<Rightarrow> (pointer \<times> fact_env) option" where
  "EnvAssert h f s =
     (if JoinOperationInProgress s then Some (None, set_engine (print_message NoAssertDuringMatching) s)
      else (let s1 = upd_fact f (\<lambda>x. x\<lparr>theProposition := replace_void (theProposition x)\<rparr>) s
            in case HandleFactDuplication f s1 of (hv, duplicate, s2) \<Rightarrow>
               if duplicate then Some (None, s2)
               else (case AddLogicalDependencies f False s2 of (supported, s3) \<Rightarrow>
                     if \<not> supported then Some (None, s3)
                     else (let s4 = FactInstall f (link_fact f (AddHashedFact f hv s3))
                           in map_option (\<lambda>s5. (Some f, assert_end h s5))
                                (ForceLogicalRetractions h (match_fact h f s4))))))"

section \<open>Access\<close>

text \<open>\<open>CreateFactBySize\<close> at a free address.\<close>

definition CreateFactBySize :: "nat \<Rightarrow> addr \<Rightarrow> fact_env \<Rightarrow> fact_env" where
  "CreateFactBySize slots f s =
     upd_entity f (\<lambda>x. x\<lparr>busyCount := 0\<rparr>)
       (s\<lparr>facts := (facts s)(f := \<lparr>whichDeftemplate = 0, theProposition = replicate slots None, factIndex = 0,
            hashValue = hashValue (facts s f), garbage = False, f_dependents = []\<rparr>)\<rparr>)"

definition EnvCreateFact :: "addr \<Rightarrow> addr \<Rightarrow> fact_env \<Rightarrow> fact_env" where
  "EnvCreateFact t f s =
     (if \<not> implied (deftemplates s t)
      then upd_fact f (\<lambda>x. x\<lparr>whichDeftemplate := t\<rparr>) (CreateFactBySize (length (slotList (deftemplates s t))) f s)
      else upd_fact f (\<lambda>x. x\<lparr>theProposition := [Some (MULTIFIELD [])], whichDeftemplate := t\<rparr>) (CreateFactBySize 1 f s))"

fun FindSlot :: "templateSlot list \<Rightarrow> string \<Rightarrow> nat option" where
  "FindSlot [] name = None"
| "FindSlot (sl # sls) name = (if slotName sl = name then Some 0 else map_option Suc (FindSlot sls name))"

definition is_multifield :: "val \<Rightarrow> bool" where
  "is_multifield v = (case v of MULTIFIELD vs \<Rightarrow> True | _ \<Rightarrow> False)"

text \<open>A null slot name is \<open>None\<close>; it is meant for facts with an implied deftemplate, and \<open>EnvAddSymbol\<close> ends the
  program on it otherwise.\<close>

definition EnvGetFactSlot :: "addr \<Rightarrow> string option \<Rightarrow> fact_env \<Rightarrow> val option" where
  "EnvGetFactSlot f name s =
     (let x = facts s f; t = deftemplates s (whichDeftemplate x)
      in if implied t then (if name \<noteq> None then None else theProposition x ! 0)
         else (case name of
                 None \<Rightarrow> None
               | Some n \<Rightarrow> (case FindSlot (slotList t) n of None \<Rightarrow> None | Some i \<Rightarrow> theProposition x ! i)))"

definition EnvPutFactSlot :: "addr \<Rightarrow> string option \<Rightarrow> val \<Rightarrow> fact_env \<Rightarrow> bool \<times> fact_env" where
  "EnvPutFactSlot f name v s =
     (let x = facts s f; t = deftemplates s (whichDeftemplate x);
          put = (\<lambda>i. (True, upd_fact f (\<lambda>x. x\<lparr>theProposition := (theProposition x)[i := Some v]\<rparr>) s))
      in if implied t then (if name \<noteq> None \<or> \<not> is_multifield v then (False, s) else put 0)
         else (case name of
                 None \<Rightarrow> (False, s)
               | Some n \<Rightarrow> (case FindSlot (slotList t) n of
                     None \<Rightarrow> (False, s)
                   | Some i \<Rightarrow> if multislot (slotList t ! i) \<noteq> is_multifield v then (False, s) else put i)))"

definition CopyFactSlotValues :: "addr \<Rightarrow> addr \<Rightarrow> fact_env \<Rightarrow> bool \<times> fact_env" where
  "CopyFactSlotValues dest src s =
     (let t = whichDeftemplate (facts s src); n = length (slotList (deftemplates s t))
      in if whichDeftemplate (facts s dest) \<noteq> t then (False, s)
         else (True, upd_fact dest (\<lambda>x. x\<lparr>theProposition :=
                 take n (theProposition (facts s src)) @ drop n (theProposition x)\<rparr>) s))"

definition EnvGetNextFact :: "pointer \<Rightarrow> fact_env \<Rightarrow> pointer" where
  "EnvGetNextFact p s =
     (case p of
        None \<Rightarrow> (case FactList s of [] \<Rightarrow> None | f # fs \<Rightarrow> Some f)
      | Some f \<Rightarrow> if garbage (facts s f) then None
                  else (case dropWhile (\<lambda>g. g \<noteq> f) (FactList s) of x # g # gs \<Rightarrow> Some g | _ \<Rightarrow> None))"

definition FindIndexedFact :: "int \<Rightarrow> fact_env \<Rightarrow> pointer" where
  "FindIndexedFact i s = find (\<lambda>f. factIndex (facts s f) = i) (FactList s)"

section \<open>The retract command\<close>

text \<open>An argument is evaluated when its turn comes, and may change the state. A negative index and the symbol
  \<open>*\<close> end the command.\<close>

fun RetractCommand :: "fact_hooks \<Rightarrow> nat \<Rightarrow> (fact_env \<Rightarrow> val \<times> fact_env) list \<Rightarrow> fact_env \<Rightarrow> fact_env option" where
  "RetractCommand h n [] s = Some s"
| "RetractCommand h n (a # as) s =
     (case a s of
        (INTEGER i, s1) \<Rightarrow>
          if i < 0 then Some (set_engine (print_message (ExpectedTypeError1 ''retract'' n)) s1)
          else (case FindIndexedFact i s1 of
                  Some f \<Rightarrow> Option.bind (EnvRetract h f s1) (\<lambda>r. RetractCommand h (n + 1) as (snd r))
                | None \<Rightarrow> RetractCommand h (n + 1) as (set_engine (print_message (CantFindFact i)) s1))
      | (FACT_ADDRESS f, s1) \<Rightarrow> Option.bind (EnvRetract h f s1) (\<lambda>r. RetractCommand h (n + 1) as (snd r))
      | (v, s1) \<Rightarrow>
          if v = SYMBOL ''*'' then RemoveAllFacts h s1
          else RetractCommand h (n + 1) as
                 (set_engine (SetEvaluationError True \<circ> print_message (ExpectedTypeError1 ''retract'' n)) s1))"

end
