(* ===== verification/Fact_Invariant.thy ===== *)
theory Fact_Invariant
  imports Fact_Manager
begin

text \<open>
  The invariants of fact management and what keeps them. The locale \<open>deleting_network\<close> says what the pattern
  network and the registered functions may do to the state; under its laws retracting a fact returns, keeps
  the store well formed and retracts exactly the facts that lose their logical support.
\<close>

section \<open>What the network may do\<close>

text \<open>Matching changes the engine and the links between partial matches, and takes support from facts by
  deleting partial matches. \<open>L\<close> are the matches that it may delete.\<close>

inductive network_step :: "addr set \<Rightarrow> fact_env \<Rightarrow> fact_env \<Rightarrow> bool" for L where
  engine_step: "network_step L s (s\<lparr>engine := e\<rparr>)"
| parent_step: "network_step L s (s\<lparr>pm_rightParent := r\<rparr>)"
| support_step: "p \<in> L \<Longrightarrow> network_step L s (RemoveLogicalSupport p s)"

abbreviation network_steps :: "addr set \<Rightarrow> fact_env \<Rightarrow> fact_env \<Rightarrow> bool" where
  "network_steps L \<equiv> (network_step L)\<^sup>*\<^sup>*"

definition engine_only :: "fact_env \<Rightarrow> fact_env \<Rightarrow> bool" where
  "engine_only s s' \<longleftrightarrow> s' = s\<lparr>engine := engine s'\<rparr>"

lemma engine_only_refl [simp]: "engine_only s s"
  by (simp add: engine_only_def)

lemma engine_only_trans: "engine_only s s' \<Longrightarrow> engine_only s' s'' \<Longrightarrow> engine_only s s''"
  unfolding engine_only_def by (metis fact_env.surjective fact_env.update_convs(1))

locale deleting_network =
  fixes h :: fact_hooks and L :: "addr set"
  assumes asserted: "g \<in> set (assert_functions h) \<Longrightarrow> network_steps L s (g f s)"
    and retracted: "g \<in> set (retract_functions h) \<Longrightarrow> network_steps L s (g f s)"
    and checked: "network_steps L s (CheckTemplateFact h f s)"
    and matched: "network_steps L s (FactPatternMatch h f s)"
    and unmatched: "network_steps L s (NetworkRetract h f s)"
    and flushed: "engine_only s (FlushGarbagePartialMatches h s)"
    and tasks: "engine_only s (CallPeriodicTasks h s)"

text \<open>Nothing is known about the matches that are deleted.\<close>

locale fact_network = deleting_network h UNIV for h :: fact_hooks

lemma call_functions_steps:
  "(\<And>g s. g \<in> set gs \<Longrightarrow> network_steps L s (g f s)) \<Longrightarrow> network_steps L s (call_functions gs f s)"
proof (induction gs arbitrary: s)
  case (Cons g gs)
  have "network_steps L s (g f s)" "network_steps L (g f s) (call_functions gs f (g f s))" using Cons by auto
  then show ?case by simp
qed simp

section \<open>Logical support during a retraction\<close>

definition supported_listed :: "fact_env \<Rightarrow> bool" where
  "supported_listed s \<longleftrightarrow> (\<forall>g. deps s g \<noteq> [] \<longrightarrow> g \<in> set (FactList s))"

text \<open>The list has the facts of the earlier list that are not garbage, facts keep their contents, and nothing else
  becomes garbage.\<close>

definition contents :: "fact \<Rightarrow> addr \<times> val option list \<times> int" where
  "contents x = (whichDeftemplate x, theProposition x, factIndex x)"

definition survivors :: "fact_env \<Rightarrow> fact_env \<Rightarrow> bool" where
  "survivors s0 s \<longleftrightarrow> FactList s = filter (\<lambda>g. \<not> garbage (facts s g)) (FactList s0) \<and>
     (\<forall>g. contents (facts s g) = contents (facts s0 g)) \<and>
     (\<forall>g. g \<notin> set (FactList s0) \<longrightarrow> garbage (facts s g) = garbage (facts s0 g))"

lemma contents_same: "same_store s s' \<Longrightarrow> contents (facts s' g) = contents (facts s g)"
  by (simp add: contents_def same_storeD)

text \<open>A fact with support whose supporting matches are all in \<open>D\<close>.\<close>

definition deprived :: "addr set \<Rightarrow> addr list \<Rightarrow> bool" where
  "deprived D ds \<longleftrightarrow> ds \<noteq> [] \<and> set ds \<subseteq> D"

text \<open>The state compared with an earlier one, with \<open>D\<close> the matches deleted in between, all in \<open>L\<close>: a fact of the list has lost
  the support of the matches in \<open>D\<close> and no other, and a match outside \<open>D\<close> supports what it supported, less the
  facts that are gone; a fact that is gone is in \<open>R\<close> or was deprived of its support, as the facts of the queue
  are, and every deprived fact that is still there is in the queue or in \<open>E\<close>.\<close>

definition explains :: "fact_env \<Rightarrow> addr set \<Rightarrow> addr set \<Rightarrow> addr set \<Rightarrow> addr set \<Rightarrow> fact_env \<Rightarrow> bool" where
  "explains s0 R L E D s \<longleftrightarrow> D \<subseteq> L \<and>
     (\<forall>g \<in> set (FactList s). deps s g = filter (\<lambda>p. p \<notin> D) (deps s0 g)) \<and>
     (\<forall>p. pm_dependents s p = (if p \<in> D then [] else filter (\<lambda>g. g \<in> set (FactList s)) (pm_dependents s0 p))) \<and>
     (\<forall>g \<in> set (FactList s0). g \<notin> set (FactList s) \<longrightarrow> g \<in> R \<or> deprived D (deps s0 g)) \<and>
     (\<forall>g \<in> set (UnsupportedDataEntities s). deprived D (deps s0 g)) \<and>
     (\<forall>g \<in> set (FactList s). deprived D (deps s0 g) \<longrightarrow> g \<in> set (UnsupportedDataEntities s) \<or> g \<in> E)"

lemma explainsD:
  assumes "explains s0 R L E D s"
  shows "g \<in> set (FactList s) \<Longrightarrow> deps s g = filter (\<lambda>p. p \<notin> D) (deps s0 g)"
    "pm_dependents s p = (if p \<in> D then [] else filter (\<lambda>g. g \<in> set (FactList s)) (pm_dependents s0 p))"
    "g \<in> set (FactList s0) \<Longrightarrow> g \<notin> set (FactList s) \<Longrightarrow> g \<in> R \<or> deprived D (deps s0 g)"
    "g \<in> set (UnsupportedDataEntities s) \<Longrightarrow> deprived D (deps s0 g)"
    "g \<in> set (FactList s) \<Longrightarrow> deprived D (deps s0 g) \<Longrightarrow> g \<in> set (UnsupportedDataEntities s) \<or> g \<in> E"
    "D \<subseteq> L"
  using assms unfolding explains_def by blast+

definition tracks :: "fact_env \<Rightarrow> addr set \<Rightarrow> addr set \<Rightarrow> addr set \<Rightarrow> fact_env \<Rightarrow> bool" where
  "tracks s0 R L E s \<longleftrightarrow> supported_listed s0 \<and> supported_listed s \<and> survivors s0 s \<and> (\<exists>D. explains s0 R L E D s)"

lemma tracks_cong:
  assumes "FactList s' = FactList s" "UnsupportedDataEntities s' = UnsupportedDataEntities s"
    and "\<And>g. deps s' g = deps s g" "\<And>g. garbage (facts s' g) = garbage (facts s g)"
    and "\<And>g. contents (facts s' g) = contents (facts s g)" "\<And>p. pm_dependents s' p = pm_dependents s p"
  shows "tracks s0 R L E s' = tracks s0 R L E s"
  unfolding tracks_def supported_listed_def survivors_def explains_def assms ..

text \<open>All matches that support anything are in \<open>P\<close>; the number of links and queued facts bounds the rounds.\<close>

definition covers :: "addr set \<Rightarrow> fact_env \<Rightarrow> bool" where
  "covers P s \<longleftrightarrow> finite P \<and> (\<forall>p. pm_dependents s p \<noteq> [] \<longrightarrow> p \<in> P)"

definition pending :: "addr set \<Rightarrow> fact_env \<Rightarrow> nat" where
  "pending P s = length (UnsupportedDataEntities s) + (\<Sum>p \<in> P. length (pm_dependents s p))"

text \<open>The state that matching keeps.\<close>

definition supports :: "fact_env \<Rightarrow> addr set \<Rightarrow> addr set \<Rightarrow> addr set \<Rightarrow> addr set \<Rightarrow> fact_env \<Rightarrow> bool" where
  "supports s0 R L E P s \<longleftrightarrow> links_ok s \<and> tracks s0 R L E s \<and> covers P s"

lemma RemoveLogicalSupport_explains:
  assumes "links_ok s" "supported_listed s" "explains s0 R L E D s" "p \<in> L"
  shows "explains s0 R L E (insert p D) (RemoveLogicalSupport p s)"
proof -
  let ?s = "RemoveLogicalSupport p s"
  note e = explainsD [OF assms(3)] and fields = RemoveLogicalSupport_fields [OF assms(1), of p]
  have list: "FactList ?s = FactList s" using same_storeD(1) [OF quietD(1) [OF fields(4)]] .
  have link: "g \<in> set (pm_dependents s p) \<longleftrightarrow> g \<in> set (FactList s) \<and> p \<in> set (deps s0 g) \<and> p \<notin> D" for g
  proof
    assume "g \<in> set (pm_dependents s p)"
    then have g: "p \<in> set (deps s g)" using assms(1) by (simp add: links_ok_def)
    then have "g \<in> set (FactList s)" using assms(2) by (metis empty_iff empty_set supported_listed_def)
    then show "g \<in> set (FactList s) \<and> p \<in> set (deps s0 g) \<and> p \<notin> D" using g e(1) by auto
  next
    assume "g \<in> set (FactList s) \<and> p \<in> set (deps s0 g) \<and> p \<notin> D"
    then have "p \<in> set (deps s g)" using e(1) by auto
    then show "g \<in> set (pm_dependents s p)" using assms(1) by (simp add: links_ok_def)
  qed
  have new: "set (deps s g) \<subseteq> {p} \<longleftrightarrow> deprived (insert p D) (deps s0 g)" if "g \<in> set (pm_dependents s p)" for g
    using that e(1) [of g] link [of g] by (auto simp: deprived_def)
  have more: "deprived (insert p D) (deps s0 g)" if "deprived D (deps s0 g)" for g using that by (auto simp: deprived_def)
  have hit: "g \<in> set (pm_dependents s p) \<or> deprived D (deps s0 g)" if "g \<in> set (FactList s)" "deprived (insert p D) (deps s0 g)" for g
    using that link [of g] by (auto simp: deprived_def)
  have queue: "set (UnsupportedDataEntities ?s) =
      {g \<in> set (pm_dependents s p). deprived (insert p D) (deps s0 g)} \<union> set (UnsupportedDataEntities s)"
    unfolding fields(3) using new by auto
  show ?thesis
    unfolding explains_def list queue
  proof (intro conjI ballI allI impI)
    show "insert p D \<subseteq> L" using e(6) assms(4) by simp
    show "deps ?s g = filter (\<lambda>q. q \<notin> insert p D) (deps s0 g)" if "g \<in> set (FactList s)" for g
      unfolding fields(1) e(1) [OF that] by (simp add: conj_commute)
    show "pm_dependents ?s q = (if q \<in> insert p D then [] else filter (\<lambda>g. g \<in> set (FactList s)) (pm_dependents s0 q))" for q
      using fields(2) [of q] e(2) [of q] by simp
    show "g \<in> R \<or> deprived (insert p D) (deps s0 g)" if "g \<in> set (FactList s0)" "g \<notin> set (FactList s)" for g
      using e(3) [OF that] more by blast
  qed (use e(4,5) more hit in blast)+
qed

lemma RemoveLogicalSupport_supports:
  assumes "supports s0 R L E P s" "p \<in> L"
  shows "supports s0 R L E P (RemoveLogicalSupport p s)"
proof -
  have l: "links_ok s" and t: "tracks s0 R L E s" and c: "covers P s" using assms(1) by (simp_all add: supports_def)
  note fields = RemoveLogicalSupport_fields [OF l, of p]
  have same: "FactList (RemoveLogicalSupport p s) = FactList s" "garbage (facts (RemoveLogicalSupport p s) g) = garbage (facts s g)"
    "contents (facts (RemoveLogicalSupport p s) g) = contents (facts s g)" for g
    using same_storeD [OF quietD(1) [OF fields(4)]] contents_same [OF quietD(1) [OF fields(4)]] by simp_all
  have "supported_listed (RemoveLogicalSupport p s)"
    using t unfolding tracks_def supported_listed_def same fields(1) by (metis filter.simps(1))
  moreover have "survivors s0 (RemoveLogicalSupport p s)" using t same by (simp add: tracks_def survivors_def)
  ultimately have "tracks s0 R L E (RemoveLogicalSupport p s)"
    using t RemoveLogicalSupport_explains [OF l _ _ assms(2)] unfolding tracks_def by blast
  moreover have "covers P (RemoveLogicalSupport p s)" using c fields(2) by (simp add: covers_def)
  ultimately show ?thesis using links_kept(1) [OF l] by (simp add: supports_def)
qed

lemma RemoveLogicalSupport_pending:
  assumes "links_ok s" "covers P s"
  shows "pending P (RemoveLogicalSupport p s) \<le> pending P s"
proof (cases "p \<in> P")
  case True
  let ?s = "RemoveLogicalSupport p s"
  note fields = RemoveLogicalSupport_fields [OF assms(1), of p]
  have P: "finite P" using assms(2) by (simp add: covers_def)
  have "(\<Sum>q \<in> P. length (pm_dependents s q)) = length (pm_dependents s p) + (\<Sum>q \<in> P - {p}. length (pm_dependents s q))"
    using P True by (rule sum.remove)
  moreover have "(\<Sum>q \<in> P. length (pm_dependents ?s q)) = (\<Sum>q \<in> P - {p}. length (pm_dependents s q))"
    using P True fields(2) by (simp add: sum.remove)
  moreover have "length (UnsupportedDataEntities ?s) \<le> length (pm_dependents s p) + length (UnsupportedDataEntities s)"
    using fields(3) by simp
  ultimately show ?thesis by (simp add: pending_def)
next
  case False
  then have "pm_dependents s p = []" using assms(2) by (auto simp: covers_def)
  then show ?thesis by (simp add: RemoveLogicalSupport_def)
qed

lemma network_step_supports:
  assumes "network_step L s s'" "supports s0 R L E P s"
  shows "supports s0 R L E P s' \<and> quiet s s' \<and> pending P s' \<le> pending P s \<and> (\<forall>g. set (deps s' g) \<subseteq> set (deps s g))"
  using assms(1)
proof cases
  case (support_step p)
  then show ?thesis
    using assms(2) RemoveLogicalSupport_supports RemoveLogicalSupport_pending RemoveLogicalSupport_fields(1,4)
    by (auto simp: supports_def)
next
  case (engine_step e)
  then have "tracks s0 R L E s' = tracks s0 R L E s" by (intro tracks_cong) simp_all
  then show ?thesis
    using engine_step assms(2) by (simp add: supports_def links_ok_def covers_def quiet_def same_store_def pending_def)
next
  case (parent_step r)
  then have "tracks s0 R L E s' = tracks s0 R L E s" by (intro tracks_cong) simp_all
  then show ?thesis
    using parent_step assms(2) by (simp add: supports_def links_ok_def covers_def quiet_def same_store_def pending_def)
qed

lemma network_steps_supports:
  assumes "network_steps L s s'" "supports s0 R L E P s"
  shows "supports s0 R L E P s' \<and> quiet s s' \<and> pending P s' \<le> pending P s \<and> (\<forall>g. set (deps s' g) \<subseteq> set (deps s g))"
  using assms
proof (induction rule: rtranclp_induct)
  case (step y z)
  then have y: "supports s0 R L E P y" "quiet s y" "pending P y \<le> pending P s" "\<And>g. set (deps y g) \<subseteq> set (deps s g)"
    by simp_all
  note z = network_step_supports [OF step(2) y(1)]
  have "quiet s z" using quiet_trans [OF y(2)] z by blast
  moreover have "pending P z \<le> pending P s" using y(3) z by linarith
  ultimately show ?case using y(4) z by blast
qed simp

section \<open>The store\<close>

text \<open>The fact list has no fact twice and no garbage; the hash table holds its facts, and each deftemplate lists
  its own facts in the same order.\<close>

definition store_ok :: "fact_env \<Rightarrow> bool" where
  "store_ok s \<longleftrightarrow> distinct (FactList s) \<and> holds_facts s (set (FactList s)) \<and>
     (\<forall>f \<in> set (FactList s). \<not> garbage (facts s f)) \<and> (\<forall>f \<in> set (GarbageFacts s). garbage (facts s f)) \<and>
     (\<forall>t. factList (deftemplates s t) = filter (\<lambda>f. whichDeftemplate (facts s f) = t) (FactList s))"

text \<open>\<open>NumberOfFacts\<close> counts the facts of the list and \<open>k\<close> facts whose retraction is not finished.\<close>

definition counted :: "nat \<Rightarrow> fact_env \<Rightarrow> bool" where
  "counted k s \<longleftrightarrow> unat (NumberOfFacts s) = length (FactList s) + k"

lemma holds_facts_cong:
  assumes "same_store s s'"
  shows "holds_facts s' fs = holds_facts s fs"
proof -
  have "fact_hash s' f = fact_hash s f" for f
    by (rule fact_hash_cong) (simp_all add: same_storeD [OF assms])
  then show ?thesis by (simp add: holds_facts_def same_storeD [OF assms])
qed

lemma store_ok_cong: "same_store s s' \<Longrightarrow> store_ok s' = store_ok s"
  by (simp add: store_ok_def holds_facts_cong same_storeD)

lemma counted_cong: "quiet s s' \<Longrightarrow> counted k s' = counted k s"
  by (simp add: counted_def quiet_def same_store_def)

lemma removed_hash:
  assumes "store_ok s" "f \<in> set (FactList s)" "counted k s"
  shows "holds_facts (snd (RemoveHashedFact f s)) (set (FactList s) - {f})"
proof (rule RemoveHashedFact_holds)
  assume "NumberOfFacts s = 1"
  then have "length (FactList s) + k = 1" using assms(3) by (simp add: counted_def)
  then show "set (FactList s) = {f}" using assms(2) by (cases "FactList s") auto
qed (use assms in \<open>simp_all add: store_ok_def\<close>)

lemma unlink_fact_fields [simp]:
  "FactList (unlink_fact f s) = remove1 f (FactList s)"
  "GarbageFacts (unlink_fact f s) = f # GarbageFacts s"
  "facts (unlink_fact f s) g = (if g = f then (facts s f)\<lparr>garbage := True\<rparr> else facts s g)"
  "t_name (deftemplates (unlink_fact f s) t) = t_name (deftemplates s t)"
  "factList (deftemplates (unlink_fact f s) t) =
     (if t = whichDeftemplate (facts s f) then remove1 f (factList (deftemplates s t)) else factList (deftemplates s t))"
  "FactHashTable (unlink_fact f s) = FactHashTable s"
  "FactHashTableSize (unlink_fact f s) = FactHashTableSize s"
  "NumberOfFacts (unlink_fact f s) = NumberOfFacts s"
  "FactDuplication (unlink_fact f s) = FactDuplication s"
  "NextFactIndex (unlink_fact f s) = NextFactIndex s"
  "pm_dependents (unlink_fact f s) = pm_dependents s"
  "UnsupportedDataEntities (unlink_fact f s) = UnsupportedDataEntities s"
  "alreadyEntered (unlink_fact f s) = alreadyEntered s"
  "JoinOperationInProgress (unlink_fact f s) = JoinOperationInProgress s"
  "engine (unlink_fact f s) = engine s"
  by (simp_all add: unlink_fact_def upd_template_def Let_def)

text \<open>Taking the fact out of the table and the lists.\<close>

definition take_out :: "addr \<Rightarrow> fact_env \<Rightarrow> fact_env" where
  "take_out f s = unlink_fact f (snd (RemoveHashedFact f s))"

lemma take_out_fields:
  assumes "store_ok s" "f \<in> set (FactList s)"
  shows "FactList (take_out f s) = remove1 f (FactList s)" "GarbageFacts (take_out f s) = f # GarbageFacts s"
    "facts (take_out f s) g = (if g = f then (facts s f)\<lparr>garbage := True\<rparr> else facts s g)"
    "NumberOfFacts (take_out f s) = NumberOfFacts s" "FactDuplication (take_out f s) = FactDuplication s"
    "NextFactIndex (take_out f s) = NextFactIndex s" "pm_dependents (take_out f s) = pm_dependents s"
    "UnsupportedDataEntities (take_out f s) = UnsupportedDataEntities s" "alreadyEntered (take_out f s) = alreadyEntered s"
    "JoinOperationInProgress (take_out f s) = JoinOperationInProgress s" "engine (take_out f s) = engine s"
    "t_name (deftemplates (take_out f s) t) = t_name (deftemplates s t)"
    "factList (deftemplates (take_out f s) t) =
       (if t = whichDeftemplate (facts s f) then remove1 f (factList (deftemplates s t)) else factList (deftemplates s t))"
proof -
  have h: "hashValue (facts s f) = fact_hash s f" using assms by (simp add: store_ok_def holds_facts_def)
  obtain b s1 where r: "RemoveHashedFact f s = (b, s1)" by fastforce
  note frame = RemoveHashedFact_frame [OF h r]
  show "FactList (take_out f s) = remove1 f (FactList s)" "GarbageFacts (take_out f s) = f # GarbageFacts s"
    "facts (take_out f s) g = (if g = f then (facts s f)\<lparr>garbage := True\<rparr> else facts s g)"
    "NumberOfFacts (take_out f s) = NumberOfFacts s" "FactDuplication (take_out f s) = FactDuplication s"
    "NextFactIndex (take_out f s) = NextFactIndex s" "pm_dependents (take_out f s) = pm_dependents s"
    "UnsupportedDataEntities (take_out f s) = UnsupportedDataEntities s" "alreadyEntered (take_out f s) = alreadyEntered s"
    "JoinOperationInProgress (take_out f s) = JoinOperationInProgress s" "engine (take_out f s) = engine s"
    "t_name (deftemplates (take_out f s) t) = t_name (deftemplates s t)"
    "factList (deftemplates (take_out f s) t) =
       (if t = whichDeftemplate (facts s f) then remove1 f (factList (deftemplates s t)) else factList (deftemplates s t))"
    using frame by (simp_all add: take_out_def r)
qed

lemma take_out_store_ok:
  assumes "store_ok s" "f \<in> set (FactList s)" "counted k s"
  shows "store_ok (take_out f s)" "counted (Suc k) (take_out f s)"
proof -
  note fields = take_out_fields [OF assms(1,2)]
  have d: "distinct (FactList s)" using assms(1) by (simp add: store_ok_def)
  let ?s = "snd (RemoveHashedFact f s)"
  have "holds_facts ?s (set (FactList s) - {f})" by (rule removed_hash [OF assms])
  moreover have "fact_hash (unlink_fact f ?s) g = fact_hash ?s g" for g by (rule fact_hash_cong) simp_all
  ultimately have "holds_facts (take_out f s) (set (FactList s) - {f})"
    by (auto simp: take_out_def holds_facts_def)
  moreover have "filter (\<lambda>g. whichDeftemplate (facts (take_out f s) g) = t) (remove1 f (FactList s)) =
      (if t = whichDeftemplate (facts s f) then remove1 f (factList (deftemplates s t)) else factList (deftemplates s t))" for t
  proof -
    have "filter (\<lambda>g. whichDeftemplate (facts (take_out f s) g) = t) (remove1 f (FactList s)) =
        remove1 f (filter (\<lambda>g. whichDeftemplate (facts s g) = t) (FactList s))"
      using d by (auto simp: fields(3) distinct_remove1_removeAll removeAll_filter_not_eq intro!: filter_cong)
    then show ?thesis using assms(1) d by (simp add: store_ok_def remove1_idem)
  qed
  ultimately show "store_ok (take_out f s)"
    using assms(1) d fields by (auto simp: store_ok_def)
  show "counted (Suc k) (take_out f s)"
    using assms(2,3) fields length_pos_if_in_set [OF assms(2)] by (simp add: counted_def length_remove1)
qed

section \<open>Retracting\<close>

definition running :: "fact_env \<Rightarrow> addr set \<Rightarrow> addr set \<Rightarrow> addr set \<Rightarrow> addr set \<Rightarrow> nat \<Rightarrow> fact_env \<Rightarrow> bool" where
  "running s0 R L E P k s \<longleftrightarrow> supports s0 R L E P s \<and> store_ok s \<and> counted k s"

lemma holds_facts_fields:
  assumes "\<And>f. f \<in> fs \<Longrightarrow> whichDeftemplate (facts s' f) = whichDeftemplate (facts s f)"
    "\<And>f. f \<in> fs \<Longrightarrow> theProposition (facts s' f) = theProposition (facts s f)"
    "\<And>f. f \<in> fs \<Longrightarrow> hashValue (facts s' f) = hashValue (facts s f)"
    "FactHashTable s' = FactHashTable s" "FactHashTableSize s' = FactHashTableSize s"
    and "\<And>t. t_name (deftemplates s' t) = t_name (deftemplates s t)"
  shows "holds_facts s' fs = holds_facts s fs"
proof -
  have "fact_hash s' f = fact_hash s f" if "f \<in> fs" for f by (rule fact_hash_cong) (simp_all add: assms that)
  moreover have "{f \<in> fs. hashValue (facts s' f) mod n = i} = {f \<in> fs. hashValue (facts s f) mod n = i}" for n i
    using assms(3) by auto
  ultimately show ?thesis using assms(3) by (simp add: holds_facts_def assms(4,5))
qed

lemma running_cong:
  assumes "facts s' = facts s" "FactHashTable s' = FactHashTable s" "FactHashTableSize s' = FactHashTableSize s"
    "FactList s' = FactList s" "set (GarbageFacts s') \<subseteq> set (GarbageFacts s)" "NumberOfFacts s' = NumberOfFacts s"
    "UnsupportedDataEntities s' = UnsupportedDataEntities s" "pm_dependents s' = pm_dependents s"
    and "\<And>t. t_name (deftemplates s' t) = t_name (deftemplates s t)" "\<And>t. factList (deftemplates s' t) = factList (deftemplates s t)"
    and "running s0 R L E P k s"
  shows "running s0 R L E P k s'" "pending P s' = pending P s"
proof -
  have "tracks s0 R L E s' = tracks s0 R L E s" by (rule tracks_cong) (simp_all add: assms(1-8))
  moreover have "holds_facts s' fs = holds_facts s fs" for fs by (rule holds_facts_fields) (simp_all add: assms(1-10))
  ultimately show "running s0 R L E P k s'"
    using assms(5,11)
    by (auto simp: running_def supports_def links_ok_def covers_def store_ok_def counted_def assms(1-4,6-10))
  show "pending P s' = pending P s" by (simp add: pending_def assms(7,8))
qed

lemma running_updates [simp]:
  assumes "running s0 R L E P k s"
  shows "running s0 R L E P k (s\<lparr>JoinOperationInProgress := b\<rparr>)" "running s0 R L E P k (s\<lparr>ChangeToFactList := b\<rparr>)"
    "running s0 R L E P k (s\<lparr>alreadyEntered := b\<rparr>)" "running s0 R L E P k (s\<lparr>dirty := b\<rparr>)" "running s0 R L E P k (s\<lparr>engine := e\<rparr>)"
    "running s0 R L E P k (RemoveGarbageFacts s)"
  by (rule running_cong [OF _ _ _ _ _ _ _ _ _ _ assms]; auto simp: RemoveGarbageFacts_def)+

lemma pending_updates [simp]:
  "pending P (s\<lparr>JoinOperationInProgress := b\<rparr>) = pending P s" "pending P (s\<lparr>ChangeToFactList := b\<rparr>) = pending P s"
  "pending P (s\<lparr>alreadyEntered := b\<rparr>) = pending P s" "pending P (s\<lparr>dirty := b\<rparr>) = pending P s"
  "pending P (s\<lparr>engine := e\<rparr>) = pending P s" "pending P (RemoveGarbageFacts s) = pending P s"
  by (simp_all add: pending_def RemoveGarbageFacts_def)

lemma steps_running:
  assumes "network_steps L s s'" "running s0 R L E P k s"
  shows "running s0 R L E P k s'" "quiet s s'" "pending P s' \<le> pending P s" "deps s g = [] \<Longrightarrow> deps s' g = []"
proof -
  have *: "supports s0 R L E P s' \<and> quiet s s' \<and> pending P s' \<le> pending P s \<and> (\<forall>g. set (deps s' g) \<subseteq> set (deps s g))"
    using network_steps_supports [OF assms(1), of s0 R E P] assms(2) by (simp add: running_def)
  then show "quiet s s'" "pending P s' \<le> pending P s" by simp_all
  show "deps s' g = []" if "deps s g = []" using * that by (metis empty_set set_empty subset_empty)
  show "running s0 R L E P k s'"
    using * assms(2) by (simp add: running_def store_ok_cong [of s s'] counted_cong [of s s'] quietD)
qed

text \<open>The fact gives up its own support and leaves the store.\<close>

lemma leave_store:
  assumes "running s0 R L E P k s" "f \<in> set (FactList s)" "f \<in> R \<or> deps s0 f \<noteq> [] \<and> deps s f = []"
  defines "s' \<equiv> take_out f (RemoveEntityDependencies f s)"
  shows "running s0 R L E P (Suc k) s'" "pending P s' \<le> pending P s" "FactList s' = remove1 f (FactList s)"
    "JoinOperationInProgress s' = JoinOperationInProgress s" "alreadyEntered s' = alreadyEntered s"
    "NextFactIndex s' = NextFactIndex s" "FactDuplication s' = FactDuplication s"
proof -
  let ?r = "RemoveEntityDependencies f s"
  have l: "links_ok s" and t: "tracks s0 R L E s" and c: "covers P s" and st: "store_ok s" and n: "counted k s"
    using assms(1) by (simp_all add: running_def supports_def)
  note e = RemoveEntityDependencies_fields [OF l, of f]
  have r: "store_ok ?r" "counted k ?r" "FactList ?r = FactList s"
    using st n store_ok_cong [OF quietD(1) [OF e(5)]] counted_cong [OF e(5)] same_storeD(1) [OF quietD(1) [OF e(5)]] by simp_all
  have f: "f \<in> set (FactList ?r)" using assms(2) r(3) by simp
  note out = take_out_fields [OF r(1) f] and ok = take_out_store_ok [OF r(1) f r(2)]
  show "FactList s' = remove1 f (FactList s)" "JoinOperationInProgress s' = JoinOperationInProgress s"
    "alreadyEntered s' = alreadyEntered s" "NextFactIndex s' = NextFactIndex s" "FactDuplication s' = FactDuplication s"
    using out r(3) e(5) same_storeD [OF quietD(1) [OF e(5)]] by (simp_all add: s'_def quiet_def)
  have d: "distinct (FactList s)" using st by (simp add: store_ok_def)
  have deps: "deps s' g = (if g = f then [] else deps s g)" for g using e(1) out(3) by (simp add: s'_def)
  have garb: "garbage (facts s' g) = (g = f \<or> garbage (facts s g))" for g
    using out(3) same_storeD(13) [OF quietD(1) [OF e(5)]] by (simp add: s'_def)
  have pm: "pm_dependents s' q = filter (\<lambda>d. d \<noteq> f) (pm_dependents s q)" for q using e(2) out(7) by (simp add: s'_def)
  have queue: "UnsupportedDataEntities s' = UnsupportedDataEntities s" using e(3) out(8) by (simp add: s'_def)
  have list: "FactList s' = filter (\<lambda>g. g \<noteq> f) (FactList s)"
    using out(1) r(3) d by (auto simp: s'_def distinct_remove1_removeAll removeAll_filter_not_eq intro!: filter_cong)
  have "links_ok s'" using l by (auto simp: links_ok_def deps pm)
  moreover have "covers P s'" using c unfolding covers_def pm by (metis filter.simps(1))
  moreover have "tracks s0 R L E s'"
  proof -
    have "contents (facts s' g) = contents (facts s g)" for g
      using out(3) contents_same [OF quietD(1) [OF e(5)]] by (simp add: s'_def contents_def)
    moreover have "f \<in> set (FactList s0)" using assms(2) t by (auto simp: tracks_def survivors_def)
    ultimately have "survivors s0 s'"
      using t by (auto simp: tracks_def survivors_def list garb intro!: filter_cong)
    moreover have "explains s0 R L E D s'" if D: "explains s0 R L E D s" for D
    proof -
      note e = explainsD [OF D]
      have "f \<in> R \<or> deprived D (deps s0 f)"
        using assms(3) e(1) [OF assms(2)] by (auto simp: deprived_def filter_empty_conv)
      moreover have "pm_dependents s' q = (if q \<in> D then [] else filter (\<lambda>g. g \<in> set (FactList s')) (pm_dependents s0 q))" for q
        unfolding pm using e(2) [of q] list by (auto intro!: filter_cong)
      ultimately show ?thesis unfolding explains_def queue using e(1,3-6) list deps by auto
    qed
    moreover have "supported_listed s'" using t list unfolding tracks_def supported_listed_def deps by auto
    ultimately show ?thesis using t unfolding tracks_def by blast
  qed
  ultimately show "running s0 R L E P (Suc k) s'" using ok by (simp add: running_def supports_def s'_def)
  show "pending P s' \<le> pending P s" by (simp add: pending_def queue pm sum_mono)
qed

text \<open>Busy counts are counts of the engine's entities.\<close>

lemma engine_only_counts [simp]: "engine_only s (EnvIncrementFactCount f s)" "engine_only s (EnvDecrementFactCount f s)"
  by (simp_all add: engine_only_def EnvIncrementFactCount_def EnvDecrementFactCount_def upd_entity_def)

lemma AtomInstall_engine_only: "engine_only s (AtomInstall v s)" "engine_only s (MultifieldInstall vs s)"
  by (induction v s and vs s rule: AtomInstall_MultifieldInstall.induct) (auto intro: engine_only_trans)

lemma AtomDeinstall_engine_only: "engine_only s (AtomDeinstall v s)" "engine_only s (MultifieldDeinstall vs s)"
  by (induction v s and vs s rule: AtomDeinstall_MultifieldDeinstall.induct) (auto intro: engine_only_trans)

lemma install_fields_engine_only: "engine_only s (install_fields vs s)"
  by (induction vs s rule: install_fields.induct) (auto intro: engine_only_trans AtomInstall_engine_only split: option.splits)

lemma deinstall_fields_engine_only: "engine_only s (deinstall_fields vs s)"
  by (induction vs s rule: deinstall_fields.induct) (auto intro: engine_only_trans AtomDeinstall_engine_only split: option.splits)

lemma engine_onlyE:
  assumes "engine_only s s'"
  obtains e where "s' = s\<lparr>engine := e\<rparr>"
  using assms by (auto simp: engine_only_def)

lemma FactDeinstall_form:
  obtains e where "FactDeinstall f s =
    (upd_template (whichDeftemplate (facts s f)) (\<lambda>t. t\<lparr>t_busyCount := t_busyCount t - 1\<rparr>) s)
      \<lparr>NumberOfFacts := NumberOfFacts s - 1, engine := e\<rparr>"
proof -
  let ?s = "upd_template (whichDeftemplate (facts s f)) (\<lambda>t. t\<lparr>t_busyCount := t_busyCount t - 1\<rparr>) (s\<lparr>NumberOfFacts := NumberOfFacts s - 1\<rparr>)"
  have "engine_only ?s (FactDeinstall f s)"
    using engine_only_trans [OF deinstall_fields_engine_only [of ?s "theProposition (facts ?s f)"] engine_only_counts(2) [of _ f]]
    by (simp add: FactDeinstall_def Let_def)
  then obtain e where "FactDeinstall f s = ?s\<lparr>engine := e\<rparr>" by (rule engine_onlyE)
  then show thesis by (intro that [of e]) (simp add: upd_template_def)
qed

lemma FactInstall_form:
  obtains e where "FactInstall f s =
    (upd_template (whichDeftemplate (facts s f)) (\<lambda>t. t\<lparr>t_busyCount := t_busyCount t + 1\<rparr>) s)
      \<lparr>NumberOfFacts := NumberOfFacts s + 1, engine := e\<rparr>"
proof -
  let ?s = "upd_template (whichDeftemplate (facts s f)) (\<lambda>t. t\<lparr>t_busyCount := t_busyCount t + 1\<rparr>) (s\<lparr>NumberOfFacts := NumberOfFacts s + 1\<rparr>)"
  have "engine_only ?s (FactInstall f s)"
    using engine_only_trans [OF install_fields_engine_only [of ?s "theProposition (facts ?s f)"] engine_only_counts(1) [of _ f]]
    by (simp add: FactInstall_def Let_def)
  then obtain e where "FactInstall f s = ?s\<lparr>engine := e\<rparr>" by (rule engine_onlyE)
  then show thesis by (intro that [of e]) (simp add: upd_template_def)
qed

lemma FactDeinstall_fields:
  "FactList (FactDeinstall f s) = FactList s" "JoinOperationInProgress (FactDeinstall f s) = JoinOperationInProgress s"
  "alreadyEntered (FactDeinstall f s) = alreadyEntered s" "facts (FactDeinstall f s) = facts s"
  "UnsupportedDataEntities (FactDeinstall f s) = UnsupportedDataEntities s" "NextFactIndex (FactDeinstall f s) = NextFactIndex s"
  "FactDuplication (FactDeinstall f s) = FactDuplication s" "pm_dependents (FactDeinstall f s) = pm_dependents s"
  by (rule FactDeinstall_form [of f s], simp add: upd_template_def)+

lemma FactDeinstall_running:
  assumes "running s0 R L E P (Suc k) s"
  shows "running s0 R L E P k (FactDeinstall f s)"
proof -
  obtain e where form: "FactDeinstall f s =
    (upd_template (whichDeftemplate (facts s f)) (\<lambda>t. t\<lparr>t_busyCount := t_busyCount t - 1\<rparr>) s)
      \<lparr>NumberOfFacts := NumberOfFacts s - 1, engine := e\<rparr>" by (rule FactDeinstall_form)
  let ?s = "(FactDeinstall f s)\<lparr>NumberOfFacts := NumberOfFacts s\<rparr>"
  have "running s0 R L E P (Suc k) ?s"
    by (rule running_cong [OF _ _ _ _ _ _ _ _ _ _ assms]) (simp_all add: form upd_template_def)
  then have "supports s0 R L E P (FactDeinstall f s)" "store_ok (FactDeinstall f s)"
    using tracks_cong [of "FactDeinstall f s" ?s s0 R] holds_facts_fields [of _ "FactDeinstall f s" ?s]
    by (simp_all add: running_def supports_def links_ok_def covers_def store_ok_def)
  moreover have "unat (NumberOfFacts s) = Suc (length (FactList s) + k)" using assms by (simp add: running_def counted_def)
  then have "unat (NumberOfFacts s - 1) = length (FactList s) + k"
    by (metis diff_Suc_1 nat.distinct(1) unat_0 unat_minus_one)
  then have "counted k (FactDeinstall f s)" by (simp add: counted_def form upd_template_def)
  ultimately show ?thesis by (simp add: running_def)
qed

lemma running_set_engine [simp]: "running s0 R L E P k s \<Longrightarrow> running s0 R L E P k (set_engine u s)"
  by (simp add: set_engine_def)

lemma set_engine_fields [simp]:
  "FactList (set_engine u s) = FactList s" "alreadyEntered (set_engine u s) = alreadyEntered s"
  "NextFactIndex (set_engine u s) = NextFactIndex s" "FactDuplication (set_engine u s) = FactDuplication s"
  "pending P (set_engine u s) = pending P s" "JoinOperationInProgress (set_engine u s) = JoinOperationInProgress s"
  "facts (set_engine u s) = facts s"
  by (simp_all add: set_engine_def)

lemma clean_fact_frame_fields [simp]:
  "FactList (clean_fact_frame h s) = FactList s" "alreadyEntered (clean_fact_frame h s) = alreadyEntered s"
  "NextFactIndex (clean_fact_frame h s) = NextFactIndex s" "facts (clean_fact_frame h s) = facts s"
  "FactDuplication (clean_fact_frame h s) = FactDuplication s"
  "JoinOperationInProgress (clean_fact_frame h s) = JoinOperationInProgress s"
  "UnsupportedDataEntities (clean_fact_frame h s) = UnsupportedDataEntities s"
  "pm_dependents (clean_fact_frame h s) = pm_dependents s"
  by (simp_all add: clean_fact_frame_def RemoveGarbageFacts_def Let_def)

lemma clean_fact_frame_running: "running s0 R L E P k s \<Longrightarrow> running s0 R L E P k (clean_fact_frame h s)"
  by (simp add: clean_fact_frame_def Let_def)

lemma retract_end_fields:
  "FactList (retract_end h f s) = FactList s" "alreadyEntered (retract_end h f s) = alreadyEntered s"
  "NextFactIndex (retract_end h f s) = NextFactIndex s" "facts (retract_end h f s) = facts s"
  "FactDuplication (retract_end h f s) = FactDuplication s"
  "JoinOperationInProgress (retract_end h f s) = JoinOperationInProgress s"
  "UnsupportedDataEntities (retract_end h f s) = UnsupportedDataEntities s" "pending P (retract_end h f s) = pending P s"
  by (simp_all add: retract_end_def FactDeinstall_fields pending_def)

lemma retract_end_running: "running s0 R L E P (Suc k) s \<Longrightarrow> running s0 R L E P k (retract_end h f s)"
  by (simp add: retract_end_def FactDeinstall_running clean_fact_frame_running)

text \<open>Taking a fact off the queue, and forgetting that it was on it once it is gone.\<close>

lemma running_pop:
  assumes "running s0 R L E P k s" "UnsupportedDataEntities s = f # fs"
  shows "running s0 R L (insert f E) P k (s\<lparr>UnsupportedDataEntities := fs\<rparr>)"
    "pending P s = Suc (pending P (s\<lparr>UnsupportedDataEntities := fs\<rparr>))" "deps s0 f \<noteq> []"
    "f \<in> set (FactList s) \<Longrightarrow> deps s f = []"
proof -
  let ?s = "s\<lparr>UnsupportedDataEntities := fs\<rparr>"
  have t: "tracks s0 R L E s" using assms(1) by (simp add: running_def supports_def)
  then obtain D where D: "explains s0 R L E D s" by (auto simp: tracks_def)
  have f: "deprived D (deps s0 f)" using explainsD(4) [OF D] assms(2) by simp
  then show "deps s0 f \<noteq> []" "f \<in> set (FactList s) \<Longrightarrow> deps s f = []"
    using explainsD(1) [OF D, of f] by (auto simp: deprived_def filter_empty_conv)
  show "pending P s = Suc (pending P ?s)" using assms(2) by (simp add: pending_def)
  have "survivors s0 ?s" using t by (simp add: tracks_def survivors_def)
  moreover have "supported_listed ?s" using t unfolding tracks_def supported_listed_def by simp
  moreover have "explains s0 R L (insert f E) D ?s"
    using D assms(2) unfolding explains_def by auto
  ultimately have "tracks s0 R L (insert f E) ?s" using t unfolding tracks_def by blast
  moreover have "holds_facts ?s fs = holds_facts s fs" for fs by (rule holds_facts_fields) simp_all
  ultimately show "running s0 R L (insert f E) P k ?s"
    using assms(1) by (simp add: running_def supports_def links_ok_def covers_def store_ok_def counted_def)
qed

lemma running_forget:
  assumes "running s0 R L (insert f E) P k s" "f \<notin> set (FactList s)"
  shows "running s0 R L E P k s"
proof -
  have "tracks s0 R L (insert f E) s" using assms(1) by (simp add: running_def supports_def)
  moreover have "explains s0 R L E D s" if "explains s0 R L (insert f E) D s" for D
    using that assms(2) unfolding explains_def by blast
  ultimately have "tracks s0 R L E s" unfolding tracks_def by blast
  then show ?thesis using assms(1) by (simp add: running_def supports_def)
qed

lemma running_listed:
  assumes "running s0 R L E P k s" "deps s0 f \<noteq> []" "\<not> garbage (facts s f)"
  shows "f \<in> set (FactList s)"
  using assms by (auto simp: running_def supports_def tracks_def supported_listed_def survivors_def)

lemma running_garbage: "running s0 R L E P k s \<Longrightarrow> garbage (facts s f) \<Longrightarrow> f \<notin> set (FactList s)"
  by (auto simp: running_def store_ok_def)

context deleting_network
begin

lemma flush_matches_form:
  obtains e where "flush_matches h s = s\<lparr>engine := e\<rparr>"
proof -
  have "engine_only s (flush_matches h s)" by (simp add: flush_matches_def flushed)
  then show thesis using that by (rule engine_onlyE)
qed

lemma retract_start_running:
  assumes "running s0 R L E P k s" "f \<in> set (FactList s)" "f \<in> R \<or> deps s0 f \<noteq> [] \<and> deps s f = []"
  shows "running s0 R L E P (Suc k) (retract_start h f s)" "pending P (retract_start h f s) \<le> pending P s"
    "FactList (retract_start h f s) = remove1 f (FactList s)" "\<not> JoinOperationInProgress (retract_start h f s)"
    "alreadyEntered (retract_start h f s) = alreadyEntered s" "NextFactIndex (retract_start h f s) = NextFactIndex s"
    "FactDuplication (retract_start h f s) = FactDuplication s"
proof -
  let ?c = "call_functions (retract_functions h) f s"
  let ?s1 = "?c\<lparr>ChangeToFactList := True\<rparr>"
  let ?s4 = "take_out f (RemoveEntityDependencies f ?s1)"
  let ?s5 = "(set_engine (SetEvaluationError False) ?s4)\<lparr>JoinOperationInProgress := True\<rparr>"
  have c: "running s0 R L E P k ?c" "quiet s ?c" "pending P ?c \<le> pending P s"
    using steps_running [OF call_functions_steps assms(1), of "retract_functions h" f] retracted by blast+
  have same: "FactList ?c = FactList s" "alreadyEntered ?c = alreadyEntered s" "NextFactIndex ?c = NextFactIndex s"
    "FactDuplication ?c = FactDuplication s"
    using same_storeD [OF quietD(1) [OF c(2)]] quietD [OF c(2)] by simp_all
  have gone: "deps ?c f = []" if "deps s f = []"
    using steps_running(4) [OF call_functions_steps assms(1), of "retract_functions h" f] retracted that by blast
  have s1: "running s0 R L E P k ?s1" "f \<in> set (FactList ?s1)" "f \<in> R \<or> deps s0 f \<noteq> [] \<and> deps ?s1 f = []"
    using c(1) assms(2,3) same gone by auto
  note s4 = leave_store [OF s1]
  have s5: "running s0 R L E P (Suc k) ?s5" using s4(1) by simp
  note s6 = steps_running [OF unmatched [of ?s5 f] s5]
  obtain e where e: "flush_matches h ((NetworkRetract h f ?s5)\<lparr>JoinOperationInProgress := False\<rparr>) =
    (NetworkRetract h f ?s5)\<lparr>JoinOperationInProgress := False, engine := e\<rparr>" by (rule flush_matches_form)
  have eq: "retract_start h f s = (NetworkRetract h f ?s5)\<lparr>JoinOperationInProgress := False, engine := e\<rparr>"
    unfolding e [symmetric] by (simp add: retract_start_def take_out_def Let_def)
  show "running s0 R L E P (Suc k) (retract_start h f s)" using s6(1) by (simp add: eq)
  show "pending P (retract_start h f s) \<le> pending P s" using s6(3) s4(2) c(3) by (simp add: eq)
  show "FactList (retract_start h f s) = remove1 f (FactList s)" "\<not> JoinOperationInProgress (retract_start h f s)"
    "alreadyEntered (retract_start h f s) = alreadyEntered s" "NextFactIndex (retract_start h f s) = NextFactIndex s"
    "FactDuplication (retract_start h f s) = FactDuplication s"
    using same_storeD [OF quietD(1) [OF s6(2)]] quietD [OF s6(2)] s4(3-7) same by (simp_all add: eq)
qed

text \<open>\<open>retract_nested\<close> is what \<open>EnvRetract\<close> does inside \<open>ForceLogicalRetractions\<close>.\<close>

lemma retract_nested_is_EnvRetract:
  assumes "running s0 R L E P k s" "alreadyEntered s" "garbage (facts s f) \<or> f \<in> set (FactList s)" "f \<in> R \<or> deps s0 f \<noteq> [] \<and> deps s f = []"
  shows "EnvRetract h f s = Some (retract_nested h f s)"
proof (cases "garbage (facts s f)")
  case False
  then have "f \<in> set (FactList s)" using assms(3) by simp
  from retract_start_running(5) [OF assms(1) this assms(4)] show ?thesis
    using assms(2) by (simp add: EnvRetract_def retract_nested_def ForceLogicalRetractions_def)
qed (simp add: EnvRetract_def retract_nested_def)

text \<open>A round of the loop: the fact at the head of the queue is retracted unless it is garbage already.\<close>

lemma force_round:
  assumes "running s0 R L E P k s" "\<not> JoinOperationInProgress s" "UnsupportedDataEntities s = f # fs"
  defines "s' \<equiv> snd (retract_nested h f (EnvDecrementFactCount f (s\<lparr>UnsupportedDataEntities := fs\<rparr>)))"
  shows "running s0 R L E P k s'" "pending P s' < pending P s" "\<not> JoinOperationInProgress s'"
    "alreadyEntered s' = alreadyEntered s" "NextFactIndex s' = NextFactIndex s" "FactDuplication s' = FactDuplication s"
    "set (FactList s') \<subseteq> set (FactList s)"
proof -
  let ?p = "EnvDecrementFactCount f (s\<lparr>UnsupportedDataEntities := fs\<rparr>)"
  note pop = running_pop [OF assms(1,3)]
  have p: "running s0 R L (insert f E) P k ?p" "pending P ?p = pending P (s\<lparr>UnsupportedDataEntities := fs\<rparr>)"
    using pop(1) by (simp_all add: EnvDecrementFactCount_def upd_entity_def)
  have same: "\<not> JoinOperationInProgress ?p" "alreadyEntered ?p = alreadyEntered s" "NextFactIndex ?p = NextFactIndex s"
    "FactDuplication ?p = FactDuplication s" "FactList ?p = FactList s"
    using assms(2) by (simp_all add: EnvDecrementFactCount_def upd_entity_def)
  have "running s0 R L (insert f E) P k s' \<and> f \<notin> set (FactList s') \<and> pending P s' \<le> pending P ?p \<and>
    \<not> JoinOperationInProgress s' \<and> alreadyEntered s' = alreadyEntered s \<and> NextFactIndex s' = NextFactIndex s \<and>
    FactDuplication s' = FactDuplication s \<and> set (FactList s') \<subseteq> set (FactList s)"
  proof (cases "garbage (facts ?p f)")
    case True
    then show ?thesis using p same running_garbage [OF p(1) True] by (simp add: s'_def retract_nested_def)
  next
    case False
    have f: "f \<in> set (FactList ?p)" by (rule running_listed [OF p(1) pop(3) False])
    have "f \<in> R \<or> deps s0 f \<noteq> [] \<and> deps ?p f = []"
      using pop(3,4) f same(5) by (simp add: EnvDecrementFactCount_def)
    note start = retract_start_running [OF p(1) f this]
    have eq: "s' = retract_end h f (retract_start h f ?p)" using False same(1) by (simp add: s'_def retract_nested_def)
    have "distinct (FactList ?p)" using p(1) by (simp add: running_def store_ok_def)
    then show ?thesis using start same unfolding eq by (auto simp: retract_end_running retract_end_fields)
  qed
  then show "running s0 R L E P k s'" "pending P s' < pending P s" "\<not> JoinOperationInProgress s'"
    "alreadyEntered s' = alreadyEntered s" "NextFactIndex s' = NextFactIndex s" "FactDuplication s' = FactDuplication s"
    "set (FactList s') \<subseteq> set (FactList s)"
    using running_forget pop(2) p(2) by auto
qed

text \<open>The loop returns, since each round uses up a link or an entry of the queue.\<close>

lemma force_loop_returns:
  assumes "running s0 R L E P k s" "\<not> JoinOperationInProgress s"
  shows "\<exists>s'. force_loop h s = Some s' \<and> running s0 R L E P k s' \<and> UnsupportedDataEntities s' = [] \<and>
    \<not> JoinOperationInProgress s' \<and> alreadyEntered s' = alreadyEntered s \<and> NextFactIndex s' = NextFactIndex s \<and>
    FactDuplication s' = FactDuplication s \<and> set (FactList s') \<subseteq> set (FactList s)"
  using assms
proof (induction "pending P s" arbitrary: s rule: less_induct)
  case less
  show ?case
  proof (cases "UnsupportedDataEntities s")
    case Nil
    then show ?thesis using less.prems by (simp add: force_loop.simps)
  next
    case (Cons f fs)
    note r = force_round [OF less.prems Cons]
    show ?thesis using less.hyps [OF r(2,1,3)] r(4-7) Cons by (subst force_loop.simps) auto
  qed
qed

lemma ForceLogicalRetractions_returns:
  assumes "running s0 R L E P k s" "\<not> JoinOperationInProgress s" "\<not> alreadyEntered s"
  shows "\<exists>s'. ForceLogicalRetractions h s = Some s' \<and> running s0 R L E P k s' \<and> UnsupportedDataEntities s' = [] \<and>
    \<not> JoinOperationInProgress s' \<and> \<not> alreadyEntered s' \<and> NextFactIndex s' = NextFactIndex s \<and>
    FactDuplication s' = FactDuplication s \<and> set (FactList s') \<subseteq> set (FactList s)"
  using force_loop_returns [of s0 R E P k "s\<lparr>alreadyEntered := True\<rparr>"] assms
  by (auto simp: ForceLogicalRetractions_def)

end

end
