(* ===== verification/Fact_Laws.thy ===== *)
theory Fact_Laws
  imports Fact_Invariant Agenda
begin

text \<open>
  Asserting, retracting and removing all facts under the laws of \<open>deleting_network\<close>, and an instance of the
  locale: a network that runs any scripts of losses of support and agenda operations.
\<close>

lemma fact_networkD: "fact_network h \<Longrightarrow> deleting_network h UNIV"
  by (simp add: fact_network_def)

section \<open>The state between operations\<close>

definition facts_ready :: "fact_env \<Rightarrow> bool" where
  "facts_ready s \<longleftrightarrow> store_ok s \<and> links_ok s \<and> supported_listed s \<and> counted 0 s \<and>
     finite {p. pm_dependents s p \<noteq> []} \<and> UnsupportedDataEntities s = [] \<and>
     \<not> JoinOperationInProgress s \<and> \<not> alreadyEntered s"

text \<open>No fact is there twice.\<close>

definition unique_facts :: "fact_env \<Rightarrow> bool" where
  "unique_facts s \<longleftrightarrow> (\<forall>f \<in> set (FactList s). \<forall>g \<in> set (FactList s). same_fact s f g \<longrightarrow> f = g)"

lemma facts_ready_running:
  assumes "facts_ready s"
  shows "running s R L {} {p. pm_dependents s p \<noteq> []} 0 s"
proof -
  have st: "store_ok s" and l: "links_ok s" and sl: "supported_listed s" and q: "UnsupportedDataEntities s = []"
    using assms by (simp_all add: facts_ready_def)
  have "filter (\<lambda>g. g \<in> set (FactList s)) (pm_dependents s p) = pm_dependents s p" for p
    using l sl by (metis (no_types, lifting) empty_iff empty_set filter_True links_ok_def supported_listed_def)
  then have "explains s R L {} {} s" unfolding explains_def using q by (simp add: deprived_def)
  moreover have "survivors s s" using st by (simp add: survivors_def store_ok_def)
  ultimately have "tracks s R L {} s" using sl unfolding tracks_def by blast
  then show ?thesis using assms by (simp add: running_def supports_def covers_def facts_ready_def)
qed

lemma running_ready:
  assumes "running s0 R L E P 0 s" "UnsupportedDataEntities s = []" "\<not> JoinOperationInProgress s" "\<not> alreadyEntered s"
  shows "facts_ready s"
proof -
  have "finite {p. pm_dependents s p \<noteq> []}"
    using assms(1) by (auto simp: running_def supports_def covers_def intro: rev_finite_subset)
  then show ?thesis using assms by (simp add: facts_ready_def running_def supports_def tracks_def)
qed

lemma survivors_unique:
  assumes "survivors s0 s" "unique_facts s0"
  shows "unique_facts s"
  using assms by (auto simp: survivors_def unique_facts_def same_fact_def contents_def)

text \<open>What an operation that ends with an empty queue has done, with \<open>D\<close> the matches that have been deleted: the
  facts of \<open>R\<close> and those whose support was all in \<open>D\<close> are gone, the others have lost the support of the matches
  in \<open>D\<close>, and the other matches support what they supported, less the facts that are gone.\<close>

definition maintained :: "addr set \<Rightarrow> addr set \<Rightarrow> fact_env \<Rightarrow> fact_env \<Rightarrow> bool" where
  "maintained R D s s' \<longleftrightarrow>
     FactList s' = filter (\<lambda>g. g \<notin> R \<and> \<not> deprived D (deps s g)) (FactList s) \<and>
     (\<forall>g \<in> set (FactList s'). deps s' g = filter (\<lambda>p. p \<notin> D) (deps s g)) \<and>
     (\<forall>p. pm_dependents s' p = (if p \<in> D then [] else filter (\<lambda>g. g \<in> set (FactList s')) (pm_dependents s p)))"

definition only_unsupported_lost :: "addr set \<Rightarrow> addr set \<Rightarrow> fact_env \<Rightarrow> fact_env \<Rightarrow> bool" where
  "only_unsupported_lost R L s s' \<longleftrightarrow> survivors s s' \<and> (\<exists>D \<subseteq> L. maintained R D s s')"

lemma running_lost:
  assumes "running s R L {} P k s'" "UnsupportedDataEntities s' = []" "R \<inter> set (FactList s') = {}"
  shows "only_unsupported_lost R L s s'"
proof -
  have t: "tracks s R L {} s'" using assms(1) by (simp add: running_def supports_def)
  then have sv: "survivors s s'" by (simp add: tracks_def)
  obtain D where D: "explains s R L {} D s'" using t by (auto simp: tracks_def)
  note e = explainsD [OF D]
  have "\<not> garbage (facts s' g) \<longleftrightarrow> g \<notin> R \<and> \<not> deprived D (deps s g)" if g: "g \<in> set (FactList s)" for g
  proof -
    have "\<not> garbage (facts s' g) \<longleftrightarrow> g \<in> set (FactList s')" using sv g by (simp add: survivors_def)
    then show ?thesis using e(3) [OF g] e(5) [of g] assms(2,3) by auto
  qed
  then have "FactList s' = filter (\<lambda>g. g \<notin> R \<and> \<not> deprived D (deps s g)) (FactList s)"
    using sv by (auto simp: survivors_def intro!: filter_cong)
  then have "maintained R D s s'" unfolding maintained_def using e(1,2) by blast
  then show ?thesis using sv e(6) unfolding only_unsupported_lost_def by blast
qed

lemma engine_only_ready:
  assumes "engine_only s s'"
  shows "facts_ready s' = facts_ready s" "only_unsupported_lost R L s0 s' = only_unsupported_lost R L s0 s" "FactList s' = FactList s"
    "facts s' = facts s" "NextFactIndex s' = NextFactIndex s" "FactDuplication s' = FactDuplication s"
proof -
  obtain e where e: "s' = s\<lparr>engine := e\<rparr>" using assms by (rule engine_onlyE)
  have "holds_facts s' fs = holds_facts s fs" for fs unfolding e by (rule holds_facts_fields) simp_all
  then show "facts_ready s' = facts_ready s" "only_unsupported_lost R L s0 s' = only_unsupported_lost R L s0 s" "FactList s' = FactList s"
    "facts s' = facts s" "NextFactIndex s' = NextFactIndex s" "FactDuplication s' = FactDuplication s"
    by (simp_all add: e facts_ready_def store_ok_def links_ok_def supported_listed_def counted_def only_unsupported_lost_def survivors_def
      maintained_def)
qed

section \<open>Retracting\<close>

context deleting_network
begin

lemma EnvRetract_retracts:
  assumes "facts_ready s" "f \<in> set (FactList s)"
  shows "\<exists>s'. EnvRetract h f s = Some (True, s') \<and> facts_ready s' \<and> f \<notin> set (FactList s') \<and>
    only_unsupported_lost {f} L s s' \<and> NextFactIndex s' = NextFactIndex s \<and> FactDuplication s' = FactDuplication s"
proof -
  let ?P = "{p. pm_dependents s p \<noteq> []}" and ?r = "retract_start h f s"
  have start: "\<not> JoinOperationInProgress s" "\<not> garbage (facts s f)" "\<not> alreadyEntered s" "distinct (FactList s)"
    using assms by (auto simp: facts_ready_def store_ok_def)
  have r: "running s {f} L {} ?P (Suc 0) ?r" "FactList ?r = remove1 f (FactList s)" "\<not> JoinOperationInProgress ?r"
    "\<not> alreadyEntered ?r" "NextFactIndex ?r = NextFactIndex s" "FactDuplication ?r = FactDuplication s"
    using retract_start_running [OF facts_ready_running [OF assms(1), of "{f}" L] assms(2)] start by simp_all
  obtain s1 where s1: "ForceLogicalRetractions h ?r = Some s1" "running s {f} L {} ?P (Suc 0) s1" "UnsupportedDataEntities s1 = []"
    "\<not> JoinOperationInProgress s1" "\<not> alreadyEntered s1" "NextFactIndex s1 = NextFactIndex s" "FactDuplication s1 = FactDuplication s"
    "set (FactList s1) \<subseteq> set (FactList ?r)"
    using ForceLogicalRetractions_returns [OF r(1,3,4)] r(5,6) by auto
  let ?s = "retract_end h f s1"
  have e: "running s {f} L {} ?P 0 ?s" "UnsupportedDataEntities ?s = []" using s1 by (simp_all add: retract_end_running retract_end_fields)
  have "f \<notin> set (FactList ?s)"
    using s1(8) r(2) start(4) by (auto simp: retract_end_fields)
  then show ?thesis
    using start s1 e running_lost [OF e] running_ready [OF e]
    by (simp add: EnvRetract_def retract_end_fields)
qed

lemma EnvRetract_refused:
  assumes "JoinOperationInProgress s \<or> garbage (facts s f)"
  shows "\<exists>s'. EnvRetract h f s = Some (False, s') \<and> FactList s' = FactList s \<and> facts s' = facts s"
  using assms by (auto simp: EnvRetract_def refuse_retract_def)

lemma RemoveAllFacts_empties:
  assumes "facts_ready s"
  shows "\<exists>s'. RemoveAllFacts h s = Some s' \<and> facts_ready s' \<and> FactList s' = [] \<and> NextFactIndex s' = NextFactIndex s"
  using assms
proof (induction "length (FactList s)" arbitrary: s rule: less_induct)
  case less
  show ?case
  proof (cases "FactList s")
    case Nil
    then show ?thesis using less.prems by (simp add: RemoveAllFacts.simps)
  next
    case (Cons f fs)
    then obtain s1 where s1: "EnvRetract h f s = Some (True, s1)" "facts_ready s1" "f \<notin> set (FactList s1)"
      "only_unsupported_lost {f} L s s1" "NextFactIndex s1 = NextFactIndex s"
      using EnvRetract_retracts [OF less.prems, of f] by auto
    have "FactList s1 = filter (\<lambda>g. g \<in> set (FactList s1)) (FactList s)"
      using s1(4) by (auto simp: only_unsupported_lost_def survivors_def intro!: filter_cong)
    also have "\<dots> = filter (\<lambda>g. g \<in> set (FactList s1)) fs" using Cons s1(3) by simp
    finally have "FactList s1 = filter (\<lambda>g. g \<in> set (FactList s1)) fs" .
    then have "length (FactList s1) \<le> length fs" by (metis length_filter_le)
    then have "length (FactList s1) < length (FactList s)" using Cons by simp
    from less.hyps [OF this s1(2)] show ?thesis using Cons s1(1,5) by (subst RemoveAllFacts.simps) auto
  qed
qed

end

section \<open>Asserting\<close>

text \<open>A fact that has been created and not asserted.\<close>

definition fresh_fact :: "addr \<Rightarrow> fact_env \<Rightarrow> bool" where
  "fresh_fact f s \<longleftrightarrow> f \<notin> set (FactList s) \<and> \<not> garbage (facts s f) \<and> deps s f = []"

text \<open>The fact with its void fields replaced and its hash value set.\<close>

definition prepared :: "addr \<Rightarrow> fact_env \<Rightarrow> fact_env" where
  "prepared f s = snd (HashFact f (upd_fact f (\<lambda>x. x\<lparr>theProposition := replace_void (theProposition x)\<rparr>) s))"

lemma prepared_fact_fields [simp]:
  "FactList (prepared f s) = FactList s" "GarbageFacts (prepared f s) = GarbageFacts s" "deftemplates (prepared f s) = deftemplates s"
  "FactHashTable (prepared f s) = FactHashTable s" "FactHashTableSize (prepared f s) = FactHashTableSize s"
  "NumberOfFacts (prepared f s) = NumberOfFacts s" "NextFactIndex (prepared f s) = NextFactIndex s"
  "FactDuplication (prepared f s) = FactDuplication s" "pm_dependents (prepared f s) = pm_dependents s"
  "pm_rightParent (prepared f s) = pm_rightParent s" "UnsupportedDataEntities (prepared f s) = UnsupportedDataEntities s"
  "alreadyEntered (prepared f s) = alreadyEntered s" "JoinOperationInProgress (prepared f s) = JoinOperationInProgress s"
  "engine (prepared f s) = engine s" "CurrentEntityTimeTag (prepared f s) = CurrentEntityTimeTag s"
  "whichDeftemplate (facts (prepared f s) g) = whichDeftemplate (facts s g)" "garbage (facts (prepared f s) g) = garbage (facts s g)"
  "deps (prepared f s) g = deps s g" "g \<noteq> f \<Longrightarrow> facts (prepared f s) g = facts s g"
  "theProposition (facts (prepared f s) f) = replace_void (theProposition (facts s f))"
  by (simp_all add: prepared_def HashFact_simps)

lemma prepared_hash: "hashValue (facts (prepared f s) f) = fact_hash (prepared f s) f"
  by (simp add: prepared_def fact_hash_def HashFact_def Let_def)

lemma prepared_ready:
  assumes "facts_ready s" "f \<notin> set (FactList s)"
  shows "facts_ready (prepared f s)"
proof -
  have "facts (prepared f s) g = facts s g" if "g \<in> set (FactList s)" for g
    using that assms(2) by (intro prepared_fact_fields) auto
  then have "holds_facts (prepared f s) (set (FactList s)) = holds_facts s (set (FactList s))"
    by (intro holds_facts_fields) simp_all
  then show ?thesis
    using assms(1) by (simp add: facts_ready_def store_ok_def links_ok_def supported_listed_def counted_def)
qed

lemma fill_ready:
  assumes "facts_ready s" "f \<notin> set (FactList s)"
  shows "facts_ready (upd_fact f (\<lambda>x. x\<lparr>theProposition := vs\<rparr>) s)"
proof -
  let ?s = "upd_fact f (\<lambda>x. x\<lparr>theProposition := vs\<rparr>) s"
  have "holds_facts ?s (set (FactList s)) = holds_facts s (set (FactList s))"
    using assms(2) by (intro holds_facts_fields) auto
  moreover have "whichDeftemplate (facts ?s g) = whichDeftemplate (facts s g)" "garbage (facts ?s g) = garbage (facts s g)"
    "deps ?s g = deps s g" for g by simp_all
  ultimately show ?thesis
    using assms(1) unfolding facts_ready_def store_ok_def links_ok_def supported_listed_def counted_def by simp
qed

lemma AddLogicalDependencies_finite:
  assumes "finite {p. pm_dependents s p \<noteq> []}" "links_ok s"
  shows "finite {p. pm_dependents (snd (AddLogicalDependencies f existing s)) p \<noteq> []}"
proof -
  have "{p. pm_dependents (snd (AddLogicalDependencies f existing s)) p \<noteq> []} \<subseteq>
      {p. pm_dependents s p \<noteq> []} \<union> set_option (TheLogicalBind (engine s))"
    using RemoveEntityDependencies_fields(2) [OF assms(2), of f]
    by (auto simp: AddLogicalDependencies_def Let_def split: option.splits if_splits)
  moreover have "finite (set_option (TheLogicalBind (engine s)))" by (cases "TheLogicalBind (engine s)") simp_all
  ultimately show ?thesis using assms(1) by (meson finite_UnI finite_subset)
qed

lemma AddLogicalDependencies_ready:
  assumes "facts_ready s" "f \<in> set (FactList s)"
  shows "facts_ready (snd (AddLogicalDependencies f existing s))" "FactList (snd (AddLogicalDependencies f existing s)) = FactList s"
proof -
  let ?s = "snd (AddLogicalDependencies f existing s)"
  have l: "links_ok s" using assms(1) by (simp add: facts_ready_def)
  note q = AddLogicalDependencies_quiet [OF l, of f existing]
  show list: "FactList ?s = FactList s" using same_storeD(1) [OF quietD(1) [OF q]] .
  have "supported_listed ?s"
    unfolding supported_listed_def list using assms AddLogicalDependencies_other(1) [of f _ existing s]
    by (metis facts_ready_def supported_listed_def)
  then show "facts_ready ?s"
    using assms(1) AddLogicalDependencies_links [OF l] AddLogicalDependencies_finite [OF _ l] store_ok_cong [OF quietD(1) [OF q]]
      counted_cong [OF q] quietD [OF q] by (simp add: facts_ready_def AddLogicalDependencies_other(2))
qed

text \<open>Entering the store.\<close>

lemma link_fact_fields [simp]:
  "FactList (link_fact f s) = FactList s @ [f]" "GarbageFacts (link_fact f s) = GarbageFacts s"
  "FactHashTable (link_fact f s) = FactHashTable s" "FactHashTableSize (link_fact f s) = FactHashTableSize s"
  "NumberOfFacts (link_fact f s) = NumberOfFacts s" "NextFactIndex (link_fact f s) = NextFactIndex s + 1"
  "FactDuplication (link_fact f s) = FactDuplication s" "pm_dependents (link_fact f s) = pm_dependents s"
  "UnsupportedDataEntities (link_fact f s) = UnsupportedDataEntities s" "alreadyEntered (link_fact f s) = alreadyEntered s"
  "JoinOperationInProgress (link_fact f s) = JoinOperationInProgress s"
  "facts (link_fact f s) g = (if g = f then (facts s f)\<lparr>factIndex := NextFactIndex s\<rparr> else facts s g)"
  "t_name (deftemplates (link_fact f s) t) = t_name (deftemplates s t)"
  "factList (deftemplates (link_fact f s) t) =
     factList (deftemplates s t) @ (if t = whichDeftemplate (facts s f) then [f] else [])"
  by (simp_all add: link_fact_def upd_template_def upd_entity_def Let_def)

lemma FactInstall_fields:
  "FactList (FactInstall f s) = FactList s" "GarbageFacts (FactInstall f s) = GarbageFacts s"
  "FactHashTable (FactInstall f s) = FactHashTable s" "FactHashTableSize (FactInstall f s) = FactHashTableSize s"
  "NumberOfFacts (FactInstall f s) = NumberOfFacts s + 1" "NextFactIndex (FactInstall f s) = NextFactIndex s"
  "FactDuplication (FactInstall f s) = FactDuplication s" "pm_dependents (FactInstall f s) = pm_dependents s"
  "UnsupportedDataEntities (FactInstall f s) = UnsupportedDataEntities s" "alreadyEntered (FactInstall f s) = alreadyEntered s"
  "JoinOperationInProgress (FactInstall f s) = JoinOperationInProgress s" "facts (FactInstall f s) = facts s"
  "t_name (deftemplates (FactInstall f s) t) = t_name (deftemplates s t)"
  "factList (deftemplates (FactInstall f s) t) = factList (deftemplates s t)"
  by (rule FactInstall_form [of f s], simp add: upd_template_def)+

definition enter_store :: "addr \<Rightarrow> u64 \<Rightarrow> fact_env \<Rightarrow> fact_env" where
  "enter_store f hv s = FactInstall f (link_fact f (AddHashedFact f hv s))"

lemma enter_store_ready:
  assumes "store_ok s" "links_ok s" "counted 0 s" "finite {p. pm_dependents s p \<noteq> []}" "UnsupportedDataEntities s = []"
    "\<not> JoinOperationInProgress s" "\<not> alreadyEntered s" "f \<notin> set (FactList s)" "\<not> garbage (facts s f)"
    "hashValue (facts s f) = fact_hash s f" "\<And>g. g \<noteq> f \<Longrightarrow> deps s g \<noteq> [] \<Longrightarrow> g \<in> set (FactList s)" "NumberOfFacts s \<noteq> - 1"
  shows "facts_ready (enter_store f (fact_hash s f) s)"
proof -
  let ?a = "AddHashedFact f (fact_hash s f) s" and ?s = "enter_store f (fact_hash s f) s"
  have "holds_facts ?a (insert f (set (FactList s)))"
    using assms(1,8,10) by (intro AddHashedFact_holds) (simp_all add: store_ok_def)
  moreover have "holds_facts ?s (insert f (set (FactList s))) = holds_facts ?a (insert f (set (FactList s)))"
    by (rule holds_facts_fields) (simp_all add: enter_store_def FactInstall_fields)
  ultimately have "store_ok ?s"
    using assms(1,8,9) by (auto simp: store_ok_def enter_store_def FactInstall_fields intro!: filter_cong)
  moreover have "links_ok ?s" using assms(2) by (simp add: links_ok_def enter_store_def FactInstall_fields)
  moreover have "supported_listed ?s"
    using assms(11) by (auto simp: supported_listed_def enter_store_def FactInstall_fields split: if_splits)
  moreover have "1 + NumberOfFacts s \<noteq> 0" using assms(12) by (metis add.commute eq_neg_iff_add_eq_0)
  then have "unat (NumberOfFacts s + 1) = Suc (unat (NumberOfFacts s))" by (metis add.commute unatSuc)
  then have "counted 0 ?s" using assms(3) by (simp add: counted_def enter_store_def FactInstall_fields)
  ultimately show ?thesis using assms(4-7) by (simp add: facts_ready_def enter_store_def FactInstall_fields)
qed

text \<open>The conditions on which a fact is refused.\<close>

definition duplicate_of :: "addr \<Rightarrow> fact_env \<Rightarrow> addr \<Rightarrow> bool" where
  "duplicate_of f s g \<longleftrightarrow> g \<in> set (FactList s) \<and> whichDeftemplate (facts s g) = whichDeftemplate (facts s f) \<and>
     theProposition (facts s g) = replace_void (theProposition (facts s f))"

definition support_gone :: "fact_env \<Rightarrow> bool" where
  "support_gone s \<longleftrightarrow> TheLogicalJoin (engine s) \<noteq> None \<and>
     (case TheLogicalBind (engine s) of
        None \<Rightarrow> True
      | Some p \<Rightarrow> leftParent (matches (engine s) p) = None \<and> pm_rightParent s p = None)"

text \<open>The support that a new fact starts with: the match of the rule that asserts it, if the rule has logical
  conditions.\<close>

definition own_support :: "fact_env \<Rightarrow> addr list" where
  "own_support s = (if TheLogicalJoin (engine s) = None then [] else case TheLogicalBind (engine s) of None \<Rightarrow> [] | Some p \<Rightarrow> [p])"

lemma AddLogicalDependencies_own:
  assumes "\<not> support_gone s" "deps s f = []"
  shows "fst (AddLogicalDependencies f False s)"
    "deps (snd (AddLogicalDependencies f False s)) f = own_support s"
    "pm_dependents (snd (AddLogicalDependencies f False s)) p = (if p \<in> set (own_support s) then f # pm_dependents s p else pm_dependents s p)"
  using assms by (auto simp: AddLogicalDependencies_def support_gone_def own_support_def Let_def split: option.splits if_splits)

lemma same_fact_prepared:
  assumes "f \<notin> set (FactList s)" "g \<in> set (FactList s)"
  shows "same_fact (prepared f s) f g \<longleftrightarrow> duplicate_of f s g"
proof -
  have "g \<noteq> f" using assms by auto
  then show ?thesis using assms(2) by (auto simp: same_fact_def duplicate_of_def)
qed

lemma HandleFactDuplication_prepared:
  assumes "facts_ready s" "f \<notin> set (FactList s)"
  shows "HandleFactDuplication f (upd_fact f (\<lambda>x. x\<lparr>theProposition := replace_void (theProposition x)\<rparr>) s) =
    (if FactDuplication s \<or> (\<forall>g. \<not> duplicate_of f s g) then (fact_hash (prepared f s) f, False, prepared f s)
     else (0, True, snd (AddLogicalDependencies (the (FactExists f (fact_hash (prepared f s) f) (prepared f s))) True (prepared f s))))"
proof -
  let ?u = "upd_fact f (\<lambda>x. x\<lparr>theProposition := replace_void (theProposition x)\<rparr>) s" and ?p = "prepared f s"
  have h: "HashFact f ?u = (fact_hash ?p f, ?p)"
    by (simp add: prepared_def HashFact_simps) (simp add: fact_hash_def HashFact_def Let_def)
  have hold: "holds_facts ?p (set (FactList s))"
    using prepared_ready [OF assms] by (simp add: facts_ready_def store_ok_def)
  have "(FactExists f (fact_hash ?p f) ?p = None) = (\<forall>g. \<not> duplicate_of f s g)"
  proof (cases "FactExists f (fact_hash ?p f) ?p")
    case None
    then show ?thesis
      using FactExists_None [OF hold prepared_hash] same_fact_prepared [OF assms(2)] by (auto simp: duplicate_of_def)
  next
    case (Some g)
    then show ?thesis using FactExists_Some [OF hold Some] same_fact_prepared [OF assms(2)] by auto
  qed
  then show ?thesis by (auto simp: HandleFactDuplication_def h split: option.splits)
qed

context deleting_network
begin

lemma EnvAssert_duplicate:
  assumes "facts_ready s" "fresh_fact f s" "\<not> FactDuplication s" "duplicate_of f s g"
  shows "\<exists>s'. EnvAssert h f s = Some (None, s') \<and> facts_ready s' \<and> FactList s' = FactList s \<and>
    (\<forall>x. x \<noteq> f \<longrightarrow> contents (facts s' x) = contents (facts s x))"
proof -
  let ?p = "prepared f s"
  have f: "f \<notin> set (FactList s)" using assms(2) by (simp add: fresh_fact_def)
  have hold: "holds_facts ?p (set (FactList s))"
    using prepared_ready [OF assms(1) f] by (simp add: facts_ready_def store_ok_def)
  obtain g' where g': "FactExists f (fact_hash ?p f) ?p = Some g'" "g' \<in> set (FactList s)"
    using FactExists_None [OF hold prepared_hash, of g] FactExists_Some [OF hold, of f "fact_hash ?p f"] assms(4)
      same_fact_prepared [OF f, of g] by (cases "FactExists f (fact_hash ?p f) ?p") (auto simp: duplicate_of_def)
  have g: "g' \<in> set (FactList ?p)" using g'(2) by simp
  have "\<not> JoinOperationInProgress s" using assms(1) by (simp add: facts_ready_def)
  then have "EnvAssert h f s = Some (None, snd (AddLogicalDependencies g' True ?p))"
    using HandleFactDuplication_prepared [OF assms(1) f] assms(3,4) g'(1) by (auto simp: EnvAssert_def Let_def)
  moreover have "contents (facts (snd (AddLogicalDependencies g' True ?p)) x) = contents (facts s x)" if "x \<noteq> f" for x
    using contents_same [OF quietD(1) [OF AddLogicalDependencies_quiet [of ?p g' True]]] prepared_ready [OF assms(1) f] that
    by (simp add: facts_ready_def)
  ultimately show ?thesis using AddLogicalDependencies_ready [OF prepared_ready [OF assms(1) f] g, of True] by simp
qed

lemma EnvAssert_unsupported:
  assumes "facts_ready s" "fresh_fact f s" "FactDuplication s \<or> (\<forall>g. \<not> duplicate_of f s g)" "support_gone s"
  shows "\<exists>s'. EnvAssert h f s = Some (None, s') \<and> facts_ready s' \<and> FactList s' = FactList s \<and>
    (\<forall>x. x \<noteq> f \<longrightarrow> contents (facts s' x) = contents (facts s x))"
proof -
  have f: "f \<notin> set (FactList s)" using assms(2) by (simp add: fresh_fact_def)
  have "\<not> JoinOperationInProgress s" using assms(1) by (simp add: facts_ready_def)
  moreover have "AddLogicalDependencies f False (prepared f s) = (False, prepared f s)"
    using assms(4) by (cases "TheLogicalBind (engine s)") (auto simp: AddLogicalDependencies_def support_gone_def)
  ultimately have "EnvAssert h f s = Some (None, prepared f s)"
    using HandleFactDuplication_prepared [OF assms(1) f] assms(3) by (simp add: EnvAssert_def Let_def)
  then show ?thesis using prepared_ready [OF assms(1) f] by simp
qed

lemma match_fact_running:
  assumes "running s0 R L E P k s"
  shows "running s0 R L E P k (match_fact h f s)" "\<not> JoinOperationInProgress (match_fact h f s)"
    "alreadyEntered (match_fact h f s) = alreadyEntered s" "NextFactIndex (match_fact h f s) = NextFactIndex s"
    "FactDuplication (match_fact h f s) = FactDuplication s"
proof -
  let ?c = "call_functions (assert_functions h) f s"
  let ?s1 = "?c\<lparr>ChangeToFactList := True\<rparr>"
  let ?s2 = "CheckTemplateFact h f ?s1"
  let ?s3 = "(set_engine (SetEvaluationError False) ?s2)\<lparr>JoinOperationInProgress := True\<rparr>"
  have c: "running s0 R L E P k ?c" "quiet s ?c"
    using steps_running [OF call_functions_steps assms, of "assert_functions h" f] asserted by blast+
  have s2: "running s0 R L E P k ?s2" "quiet ?s1 ?s2" using steps_running [OF checked [of ?s1 f], of s0 R E P k] c(1) by simp_all
  have s4: "running s0 R L E P k (FactPatternMatch h f ?s3)" "quiet ?s3 (FactPatternMatch h f ?s3)"
    using steps_running [OF matched [of ?s3 f], of s0 R E P k] s2(1) by simp_all
  have eq: "match_fact h f s = (FactPatternMatch h f ?s3)\<lparr>JoinOperationInProgress := False\<rparr>"
    by (simp add: match_fact_def Let_def)
  show "running s0 R L E P k (match_fact h f s)" "\<not> JoinOperationInProgress (match_fact h f s)" using s4(1) by (simp_all add: eq)
  show "alreadyEntered (match_fact h f s) = alreadyEntered s" "NextFactIndex (match_fact h f s) = NextFactIndex s"
    "FactDuplication (match_fact h f s) = FactDuplication s"
    using c(2) s2(2) s4(2) by (simp_all add: eq quiet_def same_store_def)
qed

text \<open>A fact that is not refused enters the store, is matched, and facts whose support is lost by the match are
  retracted.\<close>

lemma EnvAssert_matches:
  assumes "facts_ready s" "FactList s = fs"
  shows "\<exists>s1. ForceLogicalRetractions h (match_fact h f s) = Some s1 \<and> facts_ready (assert_end h s1) \<and>
    only_unsupported_lost {} L s (assert_end h s1) \<and> NextFactIndex (assert_end h s1) = NextFactIndex s \<and>
    FactDuplication (assert_end h s1) = FactDuplication s"
proof -
  let ?P = "{p. pm_dependents s p \<noteq> []}"
  note m = match_fact_running [OF facts_ready_running [OF assms(1), of "{}" L], of f]
  have "\<not> alreadyEntered (match_fact h f s)" using m(3) assms(1) by (simp add: facts_ready_def)
  from ForceLogicalRetractions_returns [OF m(1,2) this] obtain s1 where
    s1: "ForceLogicalRetractions h (match_fact h f s) = Some s1" "running s {} L {} ?P 0 s1" "UnsupportedDataEntities s1 = []"
      "\<not> JoinOperationInProgress s1" "\<not> alreadyEntered s1" "NextFactIndex s1 = NextFactIndex s" "FactDuplication s1 = FactDuplication s"
    using m(4,5) by auto
  obtain e where e: "flush_matches h s1 = s1\<lparr>engine := e\<rparr>" by (rule flush_matches_form)
  let ?u = "s1\<lparr>engine := e\<rparr>"
  let ?c = "if embedded ?u then clean_fact_frame h ?u else ?u"
  have c: "running s {} L {} ?P 0 ?c" "UnsupportedDataEntities ?c = []" "\<not> JoinOperationInProgress ?c" "\<not> alreadyEntered ?c"
    using s1 by (simp_all add: clean_fact_frame_running)
  have "engine_only ?c (assert_end h s1)" by (simp add: assert_end_def e tasks)
  note e = engine_only_ready [OF this]
  show ?thesis
    using s1(1,6,7) running_ready [OF c] running_lost [OF c(1,2)] e(1,2,5,6) by auto
qed

lemma EnvAssert_new:
  assumes "facts_ready s" "fresh_fact f s" "NumberOfFacts s \<noteq> - 1"
    and "FactDuplication s \<or> (\<forall>g. \<not> duplicate_of f s g)" "\<not> support_gone s"
  obtains s4 s' where "EnvAssert h f s = Some (Some f, s')" "facts_ready s'" "only_unsupported_lost {} L s4 s'"
    "FactList s4 = FactList s @ [f]" "NextFactIndex s' = NextFactIndex s + 1" "FactDuplication s' = FactDuplication s"
    "\<And>g. g \<noteq> f \<Longrightarrow> contents (facts s4 g) = contents (facts s g)" "\<And>g. g \<noteq> f \<Longrightarrow> deps s4 g = deps s g"
    "contents (facts s4 f) = (whichDeftemplate (facts s f), replace_void (theProposition (facts s f)), NextFactIndex s)"
    "deps s4 f = own_support s"
    "\<And>p. pm_dependents s4 p = (if p \<in> set (own_support s) then f # pm_dependents s p else pm_dependents s p)"
proof -
  let ?p = "prepared f s" and ?a = "AddLogicalDependencies f False (prepared f s)"
  let ?s3 = "snd ?a" and ?hv = "fact_hash (prepared f s) f"
  let ?s4 = "enter_store f ?hv ?s3"
  have f: "f \<notin> set (FactList s)" "\<not> garbage (facts s f)" "deps s f = []" using assms(2) by (simp_all add: fresh_fact_def)
  have p: "facts_ready ?p" by (rule prepared_ready [OF assms(1) f(1)])
  then have l: "links_ok ?p" by (simp add: facts_ready_def)
  have "\<not> support_gone ?p" "own_support ?p = own_support s"
    using assms(5) by (simp_all add: support_gone_def own_support_def cong: option.case_cong)
  then have ok: "fst ?a" "deps ?s3 f = own_support s"
      "pm_dependents ?s3 p = (if p \<in> set (own_support s) then f # pm_dependents s p else pm_dependents s p)" for p
    using AddLogicalDependencies_own [of ?p f] f(3) by simp_all
  note q = AddLogicalDependencies_quiet [OF l, of f False] and other = AddLogicalDependencies_other(1) [of f _ False ?p] AddLogicalDependencies_other(2,3) [of f False ?p]
  note same = same_storeD [OF quietD(1) [OF q]]
  have hv: "?hv = fact_hash ?s3 f" by (rule fact_hash_cong) (simp_all add: same)
  have "facts_ready ?s4"
    unfolding hv
  proof (rule enter_store_ready)
    show "store_ok ?s3" "counted 0 ?s3" using p store_ok_cong [OF quietD(1) [OF q]] counted_cong [OF q] by (simp_all add: facts_ready_def)
    show "links_ok ?s3" by (rule AddLogicalDependencies_links [OF l])
    show "finite {p. pm_dependents ?s3 p \<noteq> []}" using p by (intro AddLogicalDependencies_finite [OF _ l]) (simp add: facts_ready_def)
    show "UnsupportedDataEntities ?s3 = []" "\<not> JoinOperationInProgress ?s3" "\<not> alreadyEntered ?s3" "NumberOfFacts ?s3 \<noteq> - 1"
      using assms(1,3) other quietD [OF q] by (simp_all add: facts_ready_def)
    show "f \<notin> set (FactList ?s3)" "\<not> garbage (facts ?s3 f)" using f by (simp_all add: same)
    show "hashValue (facts ?s3 f) = fact_hash ?s3 f" using prepared_hash [of f s] by (simp add: same flip: hv)
    show "g \<in> set (FactList ?s3)" if "g \<noteq> f" "deps ?s3 g \<noteq> []" for g
      using that assms(1) other(1) by (simp add: same facts_ready_def supported_listed_def)
  qed
  from EnvAssert_matches [OF this refl, of f] obtain s1 where
    s1: "ForceLogicalRetractions h (match_fact h f ?s4) = Some s1" "facts_ready (assert_end h s1)"
      "only_unsupported_lost {} L ?s4 (assert_end h s1)" "NextFactIndex (assert_end h s1) = NextFactIndex ?s4"
      "FactDuplication (assert_end h s1) = FactDuplication ?s4" by blast
  have "\<not> JoinOperationInProgress s" using assms(1) by (simp add: facts_ready_def)
  then have result: "EnvAssert h f s = Some (Some f, assert_end h s1)"
    using HandleFactDuplication_prepared [OF assms(1) f(1)] assms(4) ok(1) s1(1)
    by (cases ?a) (auto simp: EnvAssert_def Let_def enter_store_def)
  show thesis
  proof (rule that [OF result s1(2,3)])
    show "FactList ?s4 = FactList s @ [f]" by (simp add: enter_store_def FactInstall_fields same)
    show "NextFactIndex (assert_end h s1) = NextFactIndex s + 1" "FactDuplication (assert_end h s1) = FactDuplication s"
      by (simp_all add: s1(4,5) enter_store_def FactInstall_fields same)
    show "contents (facts ?s4 g) = contents (facts s g)" "deps ?s4 g = deps s g" if "g \<noteq> f" for g
      using that other(1) by (simp_all add: enter_store_def FactInstall_fields contents_def same)
    show "contents (facts ?s4 f) = (whichDeftemplate (facts s f), replace_void (theProposition (facts s f)), NextFactIndex s)"
      by (simp add: enter_store_def FactInstall_fields contents_def same)
    show "deps ?s4 f = own_support s" using ok(2) by (simp add: enter_store_def FactInstall_fields)
    show "pm_dependents ?s4 p = (if p \<in> set (own_support s) then f # pm_dependents s p else pm_dependents s p)" for p
      using ok(3) by (simp add: enter_store_def FactInstall_fields)
  qed
qed

end

text \<open>While the network is matching, \<open>EnvRetract\<close> refuses, and the loop over all facts does not end.\<close>

lemma RemoveAllFacts_stuck:
  assumes "RemoveAllFacts h s = Some s'" "JoinOperationInProgress s"
  shows "FactList s = []"
proof -
  have "JoinOperationInProgress s \<longrightarrow> FactList s = []"
    using assms(1)
  proof (rule RemoveAllFacts.raw_induct [rotated])
    fix rec h s s'
    assume IH: "\<And>h s s'. rec h s = Some s' \<Longrightarrow> JoinOperationInProgress s \<longrightarrow> FactList s = []"
      and step: "(case FactList s of [] \<Rightarrow> Some s | f # fs \<Rightarrow> Option.bind (EnvRetract h f s) (\<lambda>r. rec h (snd r))) = Some (s' :: fact_env)"
    show "JoinOperationInProgress s \<longrightarrow> FactList s = []"
    proof (rule impI, cases "FactList s")
      fix f fs
      assume "JoinOperationInProgress s" "FactList s = f # fs"
      then have "rec h (refuse_retract s) = Some s'" "JoinOperationInProgress (refuse_retract s)"
        using step by (simp_all add: EnvRetract_def refuse_retract_def)
      then show "FactList s = []" using IH by (fastforce simp: refuse_retract_def)
    qed
  qed
  then show ?thesis using assms(2) by simp
qed

section \<open>An instance\<close>

text \<open>A network given by scripts: what the match and the retraction of a fact do in a state is any sequence of
  losses of support and operations on the agenda.\<close>

datatype network_action = LoseSupport addr | ActivateRule addr addr | DeactivateRule activation

fun network_act :: "evaluator \<Rightarrow> network_action \<Rightarrow> fact_env \<Rightarrow> fact_env" where
  "network_act ev (LoseSupport p) s = RemoveLogicalSupport p s"
| "network_act ev (ActivateRule r b) s = set_engine (AddActivation ev 0 r b) s"
| "network_act ev (DeactivateRule a) s = set_engine (RemoveActivation a True True) s"

definition script_hooks :: "evaluator \<Rightarrow> (addr \<Rightarrow> fact_env \<Rightarrow> network_action list) \<Rightarrow>
    (addr \<Rightarrow> fact_env \<Rightarrow> network_action list) \<Rightarrow> fact_hooks" where
  "script_hooks ev on_match on_retract =
     \<lparr>assert_functions = [], retract_functions = [], CheckTemplateFact = (\<lambda>f s. s),
      FactPatternMatch = (\<lambda>f s. fold (network_act ev) (on_match f s) s),
      NetworkRetract = (\<lambda>f s. fold (network_act ev) (on_retract f s) s), FlushGarbagePartialMatches = (\<lambda>s. s),
      CallPeriodicTasks = (\<lambda>s. s), frame_empty = (\<lambda>s. True)\<rparr>"

text \<open>The matches that a script deletes.\<close>

definition script_deletes :: "network_action list \<Rightarrow> addr set" where
  "script_deletes as = {p. LoseSupport p \<in> set as}"

lemma network_act_step: "script_deletes [a] \<subseteq> L \<Longrightarrow> network_step L s (network_act ev a s)"
  by (cases a) (auto simp: script_deletes_def set_engine_def intro: network_step.intros)

lemma script_steps: "script_deletes as \<subseteq> L \<Longrightarrow> network_steps L s (fold (network_act ev) as s)"
proof (induction as arbitrary: s)
  case (Cons a as)
  then have "script_deletes [a] \<subseteq> L" "script_deletes as \<subseteq> L" by (auto simp: script_deletes_def)
  then show ?case using converse_rtranclp_into_rtranclp [OF network_act_step Cons.IH] by simp
qed simp

lemma script_network:
  assumes "\<And>f s. script_deletes (on_match f s) \<subseteq> L" "\<And>f s. script_deletes (on_retract f s) \<subseteq> L"
  shows "deleting_network (script_hooks ev on_match on_retract) L"
  by unfold_locales (use assms in \<open>simp_all add: script_hooks_def script_steps\<close>)

interpretation scripts: fact_network "script_hooks ev on_match on_retract" for ev on_match on_retract
  unfolding fact_network_def by (rule script_network) simp_all

end
