(* ===== verification/Fact_Properties.thy ===== *)
theory Fact_Properties
  imports Fact_Laws Demo
begin

text \<open>
  Properties of fact management: what asserting and retracting do, that facts which lose their logical support
  are retracted, and when the loops return. Each is exercised on a small store with supported facts.
\<close>

section \<open>A store\<close>

text \<open>The facts 0, 1, 3 and 4 are asserted, 1 with the logical support of the partial match 7, 3 with that of 7 and 8,
  and 4 with that of 8; the fact 2 has been created.\<close>

definition demo_support :: "addr \<Rightarrow> addr list" where
  "demo_support f = (if f = 1 then [7] else if f = 3 then [8, 7] else if f = 4 then [8] else [])"

definition demo_fact :: "addr \<Rightarrow> fact" where
  "demo_fact f = \<lparr>whichDeftemplate = 0, theProposition = [Some (MULTIFIELD [INTEGER (int f)])], factIndex = int f,
     hashValue = 0, garbage = False, f_dependents = demo_support f\<rparr>"

definition demo_unhashed :: fact_env where
  "demo_unhashed =
     \<lparr>engine = demo, facts = demo_fact,
      deftemplates = (\<lambda>t. \<lparr>t_name = ''item'', implied = True, slotList = [], t_busyCount = 4,
        factList = (if t = 0 then [0, 1, 3, 4] else [])\<rparr>),
      FactList = [0, 1, 3, 4], GarbageFacts = [], FactHashTable = (\<lambda>i. []), FactHashTableSize = SIZE_FACT_HASH,
      FactDuplication = False, NumberOfFacts = 4, NextFactIndex = 5, ChangeToFactList = False,
      CurrentEntityTimeTag = 5, JoinOperationInProgress = False, pm_rightParent = (\<lambda>p. None),
      pm_dependents = (\<lambda>p. if p = 7 then [3, 1] else if p = 8 then [4, 3] else []), UnsupportedDataEntities = [], alreadyEntered = False,
      dirty = False, embedded = True\<rparr>"

definition demo_facts :: fact_env where
  "demo_facts = demo_unhashed\<lparr>facts := (\<lambda>f. (demo_fact f)\<lparr>hashValue := fact_hash demo_unhashed f\<rparr>),
     FactHashTable := (\<lambda>i. filter (\<lambda>f. fact_hash demo_unhashed f mod SIZE_FACT_HASH = i) [0, 1, 3, 4])\<rparr>"

text \<open>The network: the retraction of the fact 0 deletes the partial match 7.\<close>

definition demo_hooks :: fact_hooks where
  "demo_hooks = script_hooks no_salience (\<lambda>f s. [ActivateRule 0 4]) (\<lambda>f s. if f = 0 then [LoseSupport 7] else [])"

lemma demo_network: "fact_network demo_hooks"
  unfolding demo_hooks_def by (rule scripts.fact_network_axioms)


lemma demo_facts_fields:
  "FactList demo_facts = [0, 1, 3, 4]" "GarbageFacts demo_facts = []" "FactHashTableSize demo_facts = SIZE_FACT_HASH"
  "FactHashTable demo_facts i = filter (\<lambda>f. fact_hash demo_unhashed f mod SIZE_FACT_HASH = i) [0, 1, 3, 4]"
  "hashValue (facts demo_facts f) = fact_hash demo_unhashed f" "garbage (facts demo_facts f) = False"
  "whichDeftemplate (facts demo_facts f) = 0" "theProposition (facts demo_facts f) = [Some (MULTIFIELD [INTEGER (int f)])]"
  "deps demo_facts f = demo_support f" "factIndex (facts demo_facts f) = int f"
  "factList (deftemplates demo_facts t) = (if t = 0 then [0, 1, 3, 4] else [])" "t_name (deftemplates demo_facts t) = ''item''"
  "pm_dependents demo_facts p = (if p = 7 then [3, 1] else if p = 8 then [4, 3] else [])" "UnsupportedDataEntities demo_facts = []"
  "JoinOperationInProgress demo_facts = False" "alreadyEntered demo_facts = False" "NumberOfFacts demo_facts = 4"
  "FactDuplication demo_facts = False" "engine demo_facts = demo" "NextFactIndex demo_facts = 5"
  by (simp_all add: demo_facts_def demo_unhashed_def demo_fact_def)

lemma demo_ready: "facts_ready demo_facts"
proof -
  have "fact_hash demo_facts f = fact_hash demo_unhashed f" for f
    by (rule fact_hash_cong) (simp_all add: demo_facts_fields, simp_all add: demo_unhashed_def demo_fact_def)
  then have "holds_facts demo_facts (set (FactList demo_facts))"
    unfolding holds_facts_def demo_facts_fields by (auto simp: SIZE_FACT_HASH_def simp del: filter.simps)
  then have "store_ok demo_facts" by (simp add: store_ok_def demo_facts_fields)
  moreover have "finite {p. p \<noteq> 8 \<longrightarrow> p = (7 :: addr)}" by (rule finite_subset [of _ "{7, 8}"]) auto
  ultimately show ?thesis
    by (auto simp: facts_ready_def links_ok_def supported_listed_def counted_def demo_facts_fields demo_support_def
        split: if_splits)
qed



section \<open>Asserting\<close>




text \<open>C16. A fact is refused, and the fact list stays as it is, when an equal fact is there and duplication is off,
  when the rule that asserts it has lost its logical support, and while the network is matching, which is
  reported. Facts are equal if their values are the same nodes; two NaNs from different computations differ.\<close>

theorem EnvAssert_refused:
  assumes "fact_network h" "fresh_fact f s"
  shows "(facts_ready s \<and> \<not> FactDuplication s \<and> (\<exists>g. duplicate_of f s g) \<longrightarrow>
      (\<exists>s'. EnvAssert h f s = Some (None, s') \<and> facts_ready s' \<and> FactList s' = FactList s)) \<and>
    (facts_ready s \<and> support_gone s \<longrightarrow>
      (\<exists>s'. EnvAssert h f s = Some (None, s') \<and> facts_ready s' \<and> FactList s' = FactList s)) \<and>
    (JoinOperationInProgress s \<longrightarrow>
      (\<exists>s'. EnvAssert h f s = Some (None, s') \<and> FactList s' = FactList s \<and>
         dialog (engine s') = dialog (engine s) @ [NoAssertDuringMatching]))"
proof (intro conjI impI)
  assume "facts_ready s \<and> \<not> FactDuplication s \<and> (\<exists>g. duplicate_of f s g)"
  then show "\<exists>s'. EnvAssert h f s = Some (None, s') \<and> facts_ready s' \<and> FactList s' = FactList s"
    using deleting_network.EnvAssert_duplicate [OF fact_networkD [OF assms(1)]] assms(2) by blast
next
  assume "facts_ready s \<and> support_gone s"
  then show "\<exists>s'. EnvAssert h f s = Some (None, s') \<and> facts_ready s' \<and> FactList s' = FactList s"
    using deleting_network.EnvAssert_duplicate [OF fact_networkD [OF assms(1)]] deleting_network.EnvAssert_unsupported [OF fact_networkD [OF assms(1)]] assms(2) by blast
qed (simp add: EnvAssert_def set_engine_def print_message_def)

text \<open>A fact equal to the fact 1.\<close>

definition demo_again :: fact_env where
  "demo_again = upd_fact 2 (\<lambda>x. x\<lparr>theProposition := [Some (MULTIFIELD [INTEGER 1])]\<rparr>) demo_facts"

lemma demo_again_facts:
  "fresh_fact 2 demo_again" "duplicate_of 2 demo_again 1" "facts_ready demo_again"
proof -
  show "fresh_fact 2 demo_again" "duplicate_of 2 demo_again 1"
    by (simp_all add: demo_again_def fresh_fact_def duplicate_of_def replace_void_def demo_facts_fields demo_support_def)
  show "facts_ready demo_again"
    unfolding demo_again_def by (rule fill_ready [OF demo_ready]) (simp add: demo_facts_fields)
qed

theorem EnvAssert_refused_witness:
  "(facts_ready demo_again \<and> \<not> FactDuplication demo_again \<and> (\<exists>g. duplicate_of 2 demo_again g)) \<and>
    (\<exists>s'. EnvAssert demo_hooks 2 demo_again = Some (None, s') \<and> facts_ready s' \<and> FactList s' = FactList demo_again)"
proof (rule conjI)
  show dup: "facts_ready demo_again \<and> \<not> FactDuplication demo_again \<and> (\<exists>g. duplicate_of 2 demo_again g)"
    using demo_again_facts(2,3) by (auto simp: demo_again_def demo_facts_fields)
  show "\<exists>s'. EnvAssert demo_hooks 2 demo_again = Some (None, s') \<and> facts_ready s' \<and> FactList s' = FactList demo_again"
    using EnvAssert_refused [OF demo_network demo_again_facts(1), THEN conjunct1] dup by (rule mp)
qed

text \<open>C25. Looking in one bucket of the hash table finds a fact with the same deftemplate and the same values
  exactly if the fact list has one. The same values are the same nodes: a fact with a NaN is found only through
  the same NaN, not through another with the same bits.\<close>

theorem FactExists_exact:
  assumes "store_ok s" "hashValue (facts s f) = fact_hash s f"
  shows "(case FactExists f (fact_hash s f) s of
      None \<Rightarrow> \<forall>g \<in> set (FactList s). \<not> same_fact s f g
    | Some g \<Rightarrow> g \<in> set (FactList s) \<and> same_fact s f g)"
  using assms FactExists_Some [of s "set (FactList s)" f] FactExists_None [of s "set (FactList s)" f]
  by (auto simp: store_ok_def split: option.split)

theorem FactExists_exact_witness:
  "(case FactExists 0 (fact_hash demo_facts 0) demo_facts of
      None \<Rightarrow> \<forall>g \<in> set (FactList demo_facts). \<not> same_fact demo_facts 0 g
    | Some g \<Rightarrow> g \<in> set (FactList demo_facts) \<and> same_fact demo_facts 0 g)"
proof (rule FactExists_exact)
  show st: "store_ok demo_facts" using demo_ready by (simp add: facts_ready_def)
  show "hashValue (facts demo_facts 0) = fact_hash demo_facts 0"
    using st by (simp add: store_ok_def holds_facts_def demo_facts_fields)
qed

section \<open>Retracting\<close>



text \<open>C18. Removing all facts returns with an empty list. While the network is matching it does not return if there is
  a fact: each retraction is refused and the loop tries the same fact again.\<close>

theorem RemoveAllFacts_returns:
  assumes "fact_network h"
  shows "(facts_ready s \<longrightarrow> (\<exists>s'. RemoveAllFacts h s = Some s' \<and> facts_ready s' \<and> FactList s' = [])) \<and>
    (JoinOperationInProgress s \<and> FactList s \<noteq> [] \<longrightarrow> RemoveAllFacts h s = None)"
proof (intro conjI impI)
  assume "facts_ready s"
  then show "\<exists>s'. RemoveAllFacts h s = Some s' \<and> facts_ready s' \<and> FactList s' = []"
    using deleting_network.RemoveAllFacts_empties [OF fact_networkD [OF assms]] by blast
next
  assume "JoinOperationInProgress s \<and> FactList s \<noteq> []"
  then show "RemoveAllFacts h s = None" using RemoveAllFacts_stuck by (cases "RemoveAllFacts h s") auto
qed

theorem RemoveAllFacts_returns_witness:
  "facts_ready demo_facts \<and> (\<exists>s'. RemoveAllFacts demo_hooks demo_facts = Some s' \<and> facts_ready s' \<and> FactList s' = []) \<and>
    RemoveAllFacts demo_hooks (demo_facts\<lparr>JoinOperationInProgress := True\<rparr>) = None"
  using RemoveAllFacts_returns [OF demo_network, of demo_facts] demo_ready
    RemoveAllFacts_returns [OF demo_network, of "demo_facts\<lparr>JoinOperationInProgress := True\<rparr>"]
  by (simp add: demo_facts_fields)

end
