(* ===== verification/Multifields.thy ===== *)
theory Multifields
  imports Predicates
begin

text \<open>
  The multifield functions, \<open>multifun.c\<close>, with \<open>StoreInMultifield\<close> of \<open>multifld.c\<close>. A multifield value is the
  list of its fields, from \<open>begin\<close> to \<open>end\<close> of its segment. Positions are those of the language, from 1 on,
  and are integers since they are checked. Functions get the values of their arguments, as in
  \<open>Arguments\<close>, and return a value and the environment. The loops that delete and replace members end
  because each round shortens what is left to search.
\<close>

section \<open>Building multifields\<close>

definition field_values :: "val \<Rightarrow> val list" where
  "field_values v = (case v of MULTIFIELD vs \<Rightarrow> vs | _ \<Rightarrow> [v])"

text \<open>\<open>StoreInMultifield\<close> on the values of the arguments; an evaluation error gives the empty multifield.\<close>

definition StoreInMultifield :: "val list \<Rightarrow> env \<Rightarrow> val" where
  "StoreInMultifield vs e = MULTIFIELD (if EvaluationError e then [] else concat (map field_values vs))"

text \<open>The loops that copy \<open>n\<close> fields of the source, from the one with index \<open>j\<close> on, to the next fields of the
  destination.\<close>

fun copy_fields :: "val list \<Rightarrow> nat \<Rightarrow> nat \<Rightarrow> val list" where
  "copy_fields src j 0 = []"
| "copy_fields src j (Suc n) = src ! j # copy_fields src (Suc j) n"

definition MVRangeError :: "int \<Rightarrow> int \<Rightarrow> int \<Rightarrow> string \<Rightarrow> env \<Rightarrow> env" where
  "MVRangeError brb bre m funcName e = print_message (MVRangeMessage funcName brb bre m) e"

definition ReplaceMultiValueField ::
  "val list \<Rightarrow> int \<Rightarrow> int \<Rightarrow> val \<Rightarrow> string \<Rightarrow> env \<Rightarrow> val list option \<times> env" where
  "ReplaceMultiValueField src rb re field funcName e =
     (let srclen = int (length src) in
      if re < rb \<or> rb < 1 \<or> re < 1 \<or> rb > srclen \<or> re > srclen
      then (None, MVRangeError rb re srclen funcName e)
      else (let fs = field_values field; b = nat (rb - 1);
                dstlen = nat (srclen + int (length fs) - (re - rb + 1))
            in (Some (copy_fields src 0 b @ fs @ copy_fields src (nat re) (dstlen - b - length fs)), e)))"

definition InsertMultiValueField ::
  "val list \<Rightarrow> int \<Rightarrow> val \<Rightarrow> string \<Rightarrow> env \<Rightarrow> val list option \<times> env" where
  "InsertMultiValueField src theIndex field funcName e =
     (let srclen = int (length src) in
      if theIndex < 1 then (None, MVRangeError theIndex theIndex (srclen + 1) funcName e)
      else (let i = nat ((if theIndex > srclen + 1 then srclen + 1 else theIndex) - 1)
            in (Some (copy_fields src 0 i @ field_values field @ copy_fields src i (length src - i)), e)))"

definition DeleteMultiValueField ::
  "val list \<Rightarrow> int \<Rightarrow> int \<Rightarrow> string \<Rightarrow> env \<Rightarrow> val list option \<times> env" where
  "DeleteMultiValueField src rb re funcName e =
     (let srclen = int (length src) in
      if re < rb \<or> rb < 1 \<or> re < 1 \<or> rb > srclen \<or> re > srclen
      then (None, MVRangeError rb re srclen funcName e)
      else (let b = nat (rb - 1); dstlen = nat (srclen - (re - rb + 1))
            in (Some (copy_fields src 0 b @ copy_fields src (nat re) (dstlen - b)), e)))"

section \<open>The functions on positions\<close>

text \<open>\<open>EnvSetMultifieldErrorValue\<close> and the evaluation error.\<close>

definition multifield_error :: "env \<Rightarrow> val \<times> env" where
  "multifield_error e = (MULTIFIELD [], SetEvaluationError True e)"

definition multifield_result :: "val list option \<times> env \<Rightarrow> val \<times> env" where
  "multifield_result r = (case r of (None, e) \<Rightarrow> multifield_error e | (Some vs, e) \<Rightarrow> (MULTIFIELD vs, e))"

definition mf_arg :: "string \<Rightarrow> nat \<Rightarrow> val list \<Rightarrow> env \<Rightarrow> val list option \<times> env" where
  "mf_arg name pos args e =
     (case EnvArgTypeCheck name pos ty_MULTIFIELD args e of
        (Some (MULTIFIELD vs), e1) \<Rightarrow> (Some vs, e1) | (_, e1) \<Rightarrow> (None, e1))"

definition int_arg :: "string \<Rightarrow> nat \<Rightarrow> val list \<Rightarrow> env \<Rightarrow> int option \<times> env" where
  "int_arg name pos args e =
     (case EnvArgTypeCheck name pos ty_INTEGER args e of
        (Some (INTEGER i), e1) \<Rightarrow> (Some i, e1) | (_, e1) \<Rightarrow> (None, e1))"

definition DeleteFunction :: "val list \<Rightarrow> env \<Rightarrow> val \<times> env" where
  "DeleteFunction args e =
     (case mf_arg ''delete$'' 1 args e of
        (None, e1) \<Rightarrow> multifield_error e1
      | (Some src, e1) \<Rightarrow> (case int_arg ''delete$'' 2 args e1 of
          (None, e2) \<Rightarrow> multifield_error e2
        | (Some rb, e2) \<Rightarrow> (case int_arg ''delete$'' 3 args e2 of
            (None, e3) \<Rightarrow> multifield_error e3
          | (Some re, e3) \<Rightarrow> multifield_result (DeleteMultiValueField src rb re ''delete$'' e3))))"

definition MVDeleteFunction :: "val list \<Rightarrow> env \<Rightarrow> val \<times> env" where
  "MVDeleteFunction args e =
     (case int_arg ''mv-delete'' 1 args e of
        (None, e1) \<Rightarrow> multifield_error e1
      | (Some i, e1) \<Rightarrow> (case mf_arg ''mv-delete'' 2 args e1 of
          (None, e2) \<Rightarrow> multifield_error e2
        | (Some src, e2) \<Rightarrow> multifield_result (DeleteMultiValueField src i i ''mv-delete'' e2)))"

text \<open>The value to be stored: the arguments from \<open>n\<close> on, which the check of the argument count makes at least
  one.\<close>

definition new_value :: "nat \<Rightarrow> val list \<Rightarrow> env \<Rightarrow> val" where
  "new_value n args e = (let vs = drop (n - 1) args in if length vs > 1 then StoreInMultifield vs e else hd vs)"

definition ReplaceFunction :: "val list \<Rightarrow> env \<Rightarrow> val \<times> env" where
  "ReplaceFunction args e =
     (case mf_arg ''replace$'' 1 args e of
        (None, e1) \<Rightarrow> multifield_error e1
      | (Some src, e1) \<Rightarrow> (case int_arg ''replace$'' 2 args e1 of
          (None, e2) \<Rightarrow> multifield_error e2
        | (Some rb, e2) \<Rightarrow> (case int_arg ''replace$'' 3 args e2 of
            (None, e3) \<Rightarrow> multifield_error e3
          | (Some re, e3) \<Rightarrow> multifield_result (ReplaceMultiValueField src rb re (new_value 4 args e3) ''replace$'' e3))))"

definition MVReplaceFunction :: "val list \<Rightarrow> env \<Rightarrow> val \<times> env" where
  "MVReplaceFunction args e =
     (case int_arg ''mv-replace'' 1 args e of
        (None, e1) \<Rightarrow> multifield_error e1
      | (Some i, e1) \<Rightarrow> (case mf_arg ''mv-replace'' 2 args e1 of
          (None, e2) \<Rightarrow> multifield_error e2
        | (Some src, e2) \<Rightarrow> multifield_result (ReplaceMultiValueField src i i (args ! 2) ''mv-replace'' e2)))"

definition InsertFunction :: "val list \<Rightarrow> env \<Rightarrow> val \<times> env" where
  "InsertFunction args e =
     (case mf_arg ''insert$'' 1 args e of
        (None, e1) \<Rightarrow> multifield_error e1
      | (Some src, e1) \<Rightarrow> (case int_arg ''insert$'' 2 args e1 of
          (None, e2) \<Rightarrow> multifield_error e2
        | (Some i, e2) \<Rightarrow> multifield_result (InsertMultiValueField src i (new_value 3 args e2) ''insert$'' e2)))"

text \<open>The part of the segment that \<open>subseq$\<close> and \<open>mv-subseq\<close> select.\<close>

definition subsegment :: "val list \<Rightarrow> int \<Rightarrow> int \<Rightarrow> val list" where
  "subsegment vs start stop =
     (let len = int (length vs) in
      if stop < 1 \<or> stop < start then []
      else if start > len then []
      else (let stop' = (if stop > len then len else stop); start' = (if start < 1 then 1 else start)
            in copy_fields vs (nat (start' - 1)) (nat (stop' - start' + 1))))"

definition SubseqFunction :: "val list \<Rightarrow> env \<Rightarrow> val \<times> env" where
  "SubseqFunction args e =
     (case mf_arg ''subseq$'' 1 args e of
        (None, e1) \<Rightarrow> (MULTIFIELD [], e1)
      | (Some vs, e1) \<Rightarrow> (case int_arg ''subseq$'' 2 args e1 of
          (None, e2) \<Rightarrow> (MULTIFIELD [], e2)
        | (Some start, e2) \<Rightarrow> (case int_arg ''subseq$'' 3 args e2 of
            (None, e3) \<Rightarrow> (MULTIFIELD [], e3)
          | (Some stop, e3) \<Rightarrow> (MULTIFIELD (subsegment vs start stop), e3))))"

definition MVSubseqFunction :: "val list \<Rightarrow> env \<Rightarrow> val \<times> env" where
  "MVSubseqFunction args e =
     (case int_arg ''mv-subseq'' 1 args e of
        (None, e1) \<Rightarrow> (MULTIFIELD [], e1)
      | (Some start, e1) \<Rightarrow> (case int_arg ''mv-subseq'' 2 args e1 of
          (None, e2) \<Rightarrow> (MULTIFIELD [], e2)
        | (Some stop, e2) \<Rightarrow>
            if stop < 1 \<or> stop < start then (MULTIFIELD [], e2)
            else (case mf_arg ''mv-subseq'' 3 args e2 of
                    (None, e3) \<Rightarrow> (MULTIFIELD [], e3)
                  | (Some vs, e3) \<Rightarrow> (MULTIFIELD (subsegment vs start stop), e3))))"

definition FirstFunction :: "val list \<Rightarrow> env \<Rightarrow> val \<times> env" where
  "FirstFunction args e =
     (case mf_arg ''first$'' 1 args e of
        (None, e1) \<Rightarrow> (MULTIFIELD [], e1)
      | (Some vs, e1) \<Rightarrow> (MULTIFIELD (case vs of [] \<Rightarrow> [] | v # ws \<Rightarrow> [v]), e1))"

definition RestFunction :: "val list \<Rightarrow> env \<Rightarrow> val \<times> env" where
  "RestFunction args e =
     (case mf_arg ''rest$'' 1 args e of
        (None, e1) \<Rightarrow> (MULTIFIELD [], e1)
      | (Some vs, e1) \<Rightarrow> (MULTIFIELD (case vs of [] \<Rightarrow> [] | v # ws \<Rightarrow> ws), e1))"

definition NthFunction :: "val list \<Rightarrow> env \<Rightarrow> val \<times> env" where
  "NthFunction args e =
     (case EnvArgCountCheck ''nth$'' EXACTLY 2 args e of (n, e1) \<Rightarrow>
        if n = - 1 then (SYMBOL ''nil'', e1)
        else (case int_arg ''nth$'' 1 args e1 of
          (None, e2) \<Rightarrow> (SYMBOL ''nil'', e2)
        | (Some i, e2) \<Rightarrow> (case mf_arg ''nth$'' 2 args e2 of
            (None, e3) \<Rightarrow> (SYMBOL ''nil'', e3)
          | (Some vs, e3) \<Rightarrow>
              if i > int (length vs) \<or> i < 1 then (SYMBOL ''nil'', e3) else (vs ! nat (i - 1), e3))))"

section \<open>Searching\<close>

text \<open>The excluded ranges are pairs of positions.\<close>

definition MVRangeCheck :: "int \<Rightarrow> int \<Rightarrow> (int \<times> int) list \<Rightarrow> bool" where
  "MVRangeCheck si ei elist \<longleftrightarrow>
     list_all (\<lambda>(a, b). \<not> (si \<ge> a \<and> si \<le> b \<or> ei \<ge> a \<and> ei \<le> b)) elist"

text \<open>The comparison of a sequence with the fields from a position on. The code compares types and the pointers to the
  nodes, which are equal exactly if the values are, also for a NaN.\<close>

fun same_fields :: "val list \<Rightarrow> val list \<Rightarrow> bool" where
  "same_fields [] vs = True"
| "same_fields (s # ss) [] = False"
| "same_fields (s # ss) (v # vs) = (s = v \<and> same_fields ss vs)"

text \<open>Whether a search value, compared in the same way, is found at the index \<open>i\<close>, which is where the fields \<open>v # vs\<close> begin.\<close>

definition match_at :: "val \<Rightarrow> val \<Rightarrow> val list \<Rightarrow> int \<Rightarrow> (int \<times> int) list \<Rightarrow> (int \<times> int) option" where
  "match_at sd v vs i elist =
     (case sd of
        MULTIFIELD ss \<Rightarrow>
          (let slen = int (length ss)
           in if MVRangeCheck (i + 1) (i + slen) elist \<and> same_fields ss (v # vs) then Some (i + 1, i + slen) else None)
      | _ \<Rightarrow> if sd = v \<and> MVRangeCheck (i + 1) (i + 1) elist then Some (i + 1, i + 1) else None)"

fun first_match :: "val list \<Rightarrow> val \<Rightarrow> val list \<Rightarrow> int \<Rightarrow> (int \<times> int) list \<Rightarrow> (int \<times> int) option" where
  "first_match [] v vs i elist = None"
| "first_match (sd # sds) v vs i elist =
     (case match_at sd v vs i elist of Some r \<Rightarrow> Some r | None \<Rightarrow> first_match sds v vs i elist)"

fun find_from :: "val list \<Rightarrow> val list \<Rightarrow> int \<Rightarrow> (int \<times> int) list \<Rightarrow> (int \<times> int) option" where
  "find_from sds [] i elist = None"
| "find_from sds (v # vs) i elist =
     (case first_match sds v vs i elist of Some r \<Rightarrow> Some r | None \<Rightarrow> find_from sds vs (i + 1) elist)"

definition FindDOsInSegment :: "val list \<Rightarrow> val list \<Rightarrow> (int \<times> int) list \<Rightarrow> (int \<times> int) option" where
  "FindDOsInSegment searchDOs value elist = find_from searchDOs value 0 elist"

text \<open>The loop of \<open>subsetp\<close>.\<close>

fun all_found :: "val list \<Rightarrow> val list \<Rightarrow> bool" where
  "all_found [] ws = True"
| "all_found (v # vs) ws = (FindDOsInSegment [v] ws [] \<noteq> None \<and> all_found vs ws)"

definition SubsetpFunction :: "val list \<Rightarrow> env \<Rightarrow> bool \<times> env" where
  "SubsetpFunction args e =
     (case EnvArgCountCheck ''subsetp'' EXACTLY 2 args e of (n, e1) \<Rightarrow>
        if n = - 1 then (False, e1)
        else (case mf_arg ''subsetp'' 1 args e1 of
          (None, e2) \<Rightarrow> (False, e2)
        | (Some vs, e2) \<Rightarrow> (case mf_arg ''subsetp'' 2 args e2 of
            (None, e3) \<Rightarrow> (False, e3)
          | (Some ws, e3) \<Rightarrow> (if vs = [] then True else if ws = [] then False else all_found vs ws, e3))))"

definition MemberFunction :: "val list \<Rightarrow> env \<Rightarrow> val \<times> env" where
  "MemberFunction args e =
     (case EnvArgCountCheck ''member$'' EXACTLY 2 args e of (n, e1) \<Rightarrow>
        if n = - 1 then (SYMBOL ''FALSE'', e1)
        else (case mf_arg ''member$'' 2 args e1 of
          (None, e2) \<Rightarrow> (SYMBOL ''FALSE'', e2)
        | (Some vs, e2) \<Rightarrow>
            (case FindDOsInSegment [args ! 0] vs [] of
               None \<Rightarrow> SYMBOL ''FALSE''
             | Some (j, k) \<Rightarrow> if j = k then INTEGER j else MULTIFIELD [INTEGER j, INTEGER k], e2)))"

section \<open>Deleting and replacing members\<close>

lemma length_copy_fields [simp]: "length (copy_fields src j n) = n"
  by (induction src j n rule: copy_fields.induct) auto

lemma delete_shortens:
  assumes "(Some vs', e') = DeleteMultiValueField vs j k name e"
  shows "length vs' < length vs"
  using assms by (auto simp: DeleteMultiValueField_def Let_def split: if_splits)

function delete_members :: "val list \<Rightarrow> val list \<Rightarrow> env \<Rightarrow> val list option \<times> env" where
  "delete_members sds vs e =
     (case FindDOsInSegment sds vs [] of
        None \<Rightarrow> (Some vs, e)
      | Some (j, k) \<Rightarrow>
          (case DeleteMultiValueField vs j k ''delete-member$'' e of
             (None, e1) \<Rightarrow> (None, e1)
           | (Some vs', e1) \<Rightarrow> delete_members sds vs' e1))"
  by pat_completeness auto
termination
  by (relation "measure (\<lambda>(sds, vs, e). length vs)") (auto dest: delete_shortens)

declare delete_members.simps [simp del]

text \<open>An argument that cannot be evaluated is an evaluation error before the call.\<close>

definition DeleteMemberFunction :: "val list \<Rightarrow> env \<Rightarrow> val \<times> env" where
  "DeleteMemberFunction args e =
     (case EnvArgCountCheck ''delete-member$'' AT_LEAST 2 args e of (n, e1) \<Rightarrow>
        if n = - 1 then multifield_error e1
        else (case mf_arg ''delete-member$'' 1 args e1 of
          (None, e2) \<Rightarrow> multifield_error e2
        | (Some vs, e2) \<Rightarrow> multifield_result (delete_members (drop 1 args) vs e2)))"

text \<open>\<open>mink\<close> is the end of the part that has been replaced; it is \<open>None\<close> before the first replacement.\<close>

definition excluded :: "int option \<Rightarrow> (int \<times> int) list" where
  "excluded mink = (case mink of None \<Rightarrow> [] | Some m \<Rightarrow> [(1, m)])"

definition replaced_to :: "int option \<Rightarrow> int" where
  "replaced_to mink = (case mink of None \<Rightarrow> 0 | Some m \<Rightarrow> m)"

lemma find_from_bounds:
  "find_from sds vs i elist = Some (j, k) \<Longrightarrow> i < j \<and> MVRangeCheck j k elist"
proof (induction vs arbitrary: i)
  case (Cons v vs)
  have first: "i < j \<and> MVRangeCheck j k elist" if "first_match sds v vs i elist = Some (j, k)"
    using that by (induction sds) (auto simp: match_at_def Let_def split: val.splits if_splits option.splits)
  show ?case using Cons.prems Cons.IH [of "i + 1"] first by (auto split: option.splits)
qed simp

lemma found_behind:
  assumes "FindDOsInSegment sds vs (excluded mink) = Some (j, k)"
  shows "replaced_to mink < j" "0 < j"
  using find_from_bounds [OF assms [unfolded FindDOsInSegment_def]]
  by (auto simp: excluded_def replaced_to_def MVRangeCheck_def split: option.splits)

lemma replace_progress:
  assumes "ReplaceMultiValueField vs j k v name e = (Some vs', e')" "m < j"
  shows "int (length vs') - (j + int (length (field_values v)) - 1) < int (length vs) - m" "m < int (length vs)"
  using assms by (auto simp: ReplaceMultiValueField_def Let_def split: if_splits)

function replace_members :: "val list \<Rightarrow> val \<Rightarrow> int option \<Rightarrow> val list \<Rightarrow> env \<Rightarrow> val list option \<times> env" where
  "replace_members sds replVal mink vs e =
     (case FindDOsInSegment sds vs (excluded mink) of
        None \<Rightarrow> (Some vs, e)
      | Some (j, k) \<Rightarrow>
          (case ReplaceMultiValueField vs j k replVal ''replace-member$'' e of
             (None, e1) \<Rightarrow> (None, e1)
           | (Some vs', e1) \<Rightarrow>
               replace_members sds replVal (Some (j + int (length (field_values replVal)) - 1)) vs' e1))"
  by pat_completeness auto
termination
proof (relation "measure (\<lambda>(sds, v, mink, vs, e). nat (int (length vs) - replaced_to mink))", goal_cases)
  case (2 sds v mink vs e r j k res e1 vs')
  then show ?case
    using found_behind(1) [of sds vs mink j k] replace_progress [of vs j k v "''replace-member$''" e vs' e1 "replaced_to mink"]
    by (simp add: replaced_to_def)
qed simp

declare replace_members.simps [simp del]

definition ReplaceMemberFunction :: "val list \<Rightarrow> env \<Rightarrow> val \<times> env" where
  "ReplaceMemberFunction args e =
     (case EnvArgCountCheck ''replace-member$'' AT_LEAST 3 args e of (n, e1) \<Rightarrow>
        if n = - 1 then multifield_error e1
        else (case mf_arg ''replace-member$'' 1 args e1 of
          (None, e2) \<Rightarrow> multifield_error e2
        | (Some vs, e2) \<Rightarrow> multifield_result (replace_members (drop 2 args) (args ! 1) None vs e2)))"

section \<open>Facts\<close>

subsection \<open>Arguments\<close>

lemma mf_arg_ok [simp]:
  "\<not> EvaluationError e \<Longrightarrow> 0 < pos \<Longrightarrow> pos \<le> length args \<Longrightarrow> args ! (pos - 1) = MULTIFIELD vs \<Longrightarrow>
    mf_arg name pos args e = (Some vs, e)"
  by (simp add: mf_arg_def EnvArgTypeCheck_def check_type_def Let_def)

lemma int_arg_ok [simp]:
  "\<not> EvaluationError e \<Longrightarrow> 0 < pos \<Longrightarrow> pos \<le> length args \<Longrightarrow> args ! (pos - 1) = INTEGER i \<Longrightarrow>
    int_arg name pos args e = (Some i, e)"
  by (simp add: int_arg_def EnvArgTypeCheck_def check_type_def Let_def)

lemma EnvArgCountCheck_ok:
  "length args = n \<Longrightarrow> EnvArgCountCheck name EXACTLY n args e = (int n, e)"
  "n \<le> length args \<Longrightarrow> EnvArgCountCheck name AT_LEAST n args e = (int (length args), e)"
  by (simp_all add: EnvArgCountCheck_def EnvRtnArgCount_def Let_def)

subsection \<open>Copying\<close>

lemma copy_fields_take: "j + n \<le> length src \<Longrightarrow> copy_fields src j n = take n (drop j src)"
  by (induction src j n rule: copy_fields.induct) (simp_all add: Cons_nth_drop_Suc [symmetric])

text \<open>The range that \<open>replace$\<close> and \<open>delete$\<close> accept.\<close>

definition in_range :: "int \<Rightarrow> int \<Rightarrow> val list \<Rightarrow> bool" where
  "in_range rb re vs \<longleftrightarrow> 1 \<le> rb \<and> rb \<le> re \<and> re \<le> int (length vs)"

lemma ReplaceMultiValueField_spec:
  "ReplaceMultiValueField vs rb re v name e =
     (if in_range rb re vs then (Some (take (nat (rb - 1)) vs @ field_values v @ drop (nat re) vs), e)
      else (None, MVRangeError rb re (int (length vs)) name e))"
  by (auto simp: ReplaceMultiValueField_def in_range_def Let_def copy_fields_take)

lemma DeleteMultiValueField_spec:
  "DeleteMultiValueField vs rb re name e =
     (if in_range rb re vs then (Some (take (nat (rb - 1)) vs @ drop (nat re) vs), e)
      else (None, MVRangeError rb re (int (length vs)) name e))"
  by (auto simp: DeleteMultiValueField_def in_range_def Let_def copy_fields_take)

lemma InsertMultiValueField_spec:
  "InsertMultiValueField vs i v name e =
     (if i < 1 then (None, MVRangeError i i (int (length vs) + 1) name e)
      else (Some (take (nat (i - 1)) vs @ field_values v @ drop (nat (i - 1)) vs), e))"
  by (auto simp: InsertMultiValueField_def Let_def copy_fields_take)

subsection \<open>Searching for single fields\<close>

definition single :: "val \<Rightarrow> bool" where
  "single v \<longleftrightarrow> (case v of MULTIFIELD vs \<Rightarrow> False | _ \<Rightarrow> True)"

lemma single_field_values: "single v \<Longrightarrow> field_values v = [v]"
  by (simp add: single_def field_values_def split: val.splits)

lemma match_at_single:
  "single sd \<Longrightarrow> match_at sd v vs i elist =
     (if sd = v \<and> MVRangeCheck (i + 1) (i + 1) elist then Some (i + 1, i + 1) else None)"
  by (cases sd) (simp_all add: match_at_def single_def)

lemma first_match_single:
  "\<forall>sd \<in> set sds. single sd \<Longrightarrow> first_match sds v vs i elist =
     (if v \<in> set sds \<and> MVRangeCheck (i + 1) (i + 1) elist then Some (i + 1, i + 1) else None)"
  by (induction sds) (auto simp: match_at_single)

lemma find_from_single_None:
  assumes "\<forall>sd \<in> set sds. single sd" "\<forall>v \<in> set vs. v \<notin> set sds"
  shows "find_from sds vs i elist = None"
  using assms by (induction vs arbitrary: i) (simp_all add: first_match_single)

lemma find_from_skip:
  assumes "\<forall>sd \<in> set sds. single sd"
    and "\<And>n. n < length us \<Longrightarrow> us ! n \<in> set sds \<Longrightarrow> \<not> MVRangeCheck (i + int n + 1) (i + int n + 1) elist"
  shows "find_from sds (us @ vs) i elist = find_from sds vs (i + int (length us)) elist"
  using assms(2)
proof (induction us arbitrary: i)
  case (Cons u us)
  have "first_match sds u (us @ vs) i elist = None"
    using Cons.prems [of 0] by (simp add: first_match_single [OF assms(1)])
  moreover have "find_from sds (us @ vs) (i + 1) elist = find_from sds vs (i + 1 + int (length us)) elist"
    using Cons.prems [of "Suc _"] by (intro Cons.IH) (simp add: algebra_simps)
  ultimately show ?case by (simp add: algebra_simps)
qed simp

text \<open>The first field that is searched for, behind a part that is excluded.\<close>

lemma find_first_single:
  assumes "\<forall>sd \<in> set sds. single sd" "v \<in> set sds" "\<forall>u \<in> set us. u \<notin> set sds"
  shows "FindDOsInSegment sds (ds @ us @ v # ws) (excluded (Some (int (length ds)))) =
      Some (int (length ds + length us) + 1, int (length ds + length us) + 1)"
    and "ds = [] \<Longrightarrow> FindDOsInSegment sds (us @ v # ws) [] = Some (int (length us) + 1, int (length us) + 1)"
proof -
  let ?e = "excluded (Some (int (length ds)))"
  have "find_from sds (ds @ us @ v # ws) 0 ?e = find_from sds (us @ v # ws) (0 + int (length ds)) ?e"
    by (rule find_from_skip [OF assms(1)]) (auto simp: excluded_def MVRangeCheck_def)
  also have "\<dots> = find_from sds (v # ws) (0 + int (length ds) + int (length us)) ?e"
    by (rule find_from_skip [OF assms(1)]) (use assms(3) nth_mem in blast)
  finally show "FindDOsInSegment sds (ds @ us @ v # ws) ?e =
      Some (int (length ds + length us) + 1, int (length ds + length us) + 1)"
    using assms(2) by (simp add: FindDOsInSegment_def first_match_single [OF assms(1)] excluded_def MVRangeCheck_def)
  have "find_from sds (us @ v # ws) 0 [] = find_from sds (v # ws) (0 + int (length us)) []"
    by (rule find_from_skip [OF assms(1)]) (use assms(3) nth_mem in blast)
  then show "FindDOsInSegment sds (us @ v # ws) [] = Some (int (length us) + 1, int (length us) + 1)"
    using assms(2) by (simp add: FindDOsInSegment_def first_match_single [OF assms(1)] MVRangeCheck_def)
qed

lemma find_single_None:
  assumes "\<forall>sd \<in> set sds. single sd" "\<forall>v \<in> set ws. v \<notin> set sds"
  shows "FindDOsInSegment sds (ds @ ws) (excluded (Some (int (length ds)))) = None"
    and "FindDOsInSegment sds ws [] = None"
proof -
  let ?e = "excluded (Some (int (length ds)))"
  have "find_from sds (ds @ ws) 0 ?e = find_from sds ws (0 + int (length ds)) ?e"
    by (rule find_from_skip [OF assms(1)]) (auto simp: excluded_def MVRangeCheck_def)
  then show "FindDOsInSegment sds (ds @ ws) ?e = None" "FindDOsInSegment sds ws [] = None"
    by (simp_all add: FindDOsInSegment_def find_from_single_None [OF assms])
qed

lemma delete_members_filter:
  assumes "\<forall>sd \<in> set sds. single sd"
  shows "delete_members sds vs e = (Some (filter (\<lambda>v. v \<notin> set sds) vs), e)"
proof (induction "length vs" arbitrary: vs rule: less_induct)
  case less
  show ?case
  proof (cases "\<exists>v \<in> set vs. v \<in> set sds")
    case False
    then have "FindDOsInSegment sds vs [] = None" "filter (\<lambda>v. v \<notin> set sds) vs = vs"
      using find_single_None(2) [OF assms] by (simp_all add: filter_id_conv)
    then show ?thesis by (simp add: delete_members.simps [of sds vs])
  next
    case True
    then obtain us v ws where vs: "vs = us @ v # ws" "v \<in> set sds" "\<forall>u \<in> set us. u \<notin> set sds"
      by (rule split_list_first_propE)
    have "DeleteMultiValueField vs (int (length us) + 1) (int (length us) + 1) name e = (Some (us @ ws), e)" for name
      using vs(1) by (simp add: DeleteMultiValueField_spec in_range_def nat_add_distrib)
    then have "delete_members sds vs e = delete_members sds (us @ ws) e"
      using find_first_single(2) [OF assms vs(2,3), of "[]"] vs(1) by (simp add: delete_members.simps [of sds "us @ v # ws"])
    then show ?thesis using less [of "us @ ws"] vs by simp
  qed
qed

lemma replace_members_done:
  assumes "\<forall>sd \<in> set sds. single sd"
  shows "replace_members sds r (Some (int (length ds))) (ds @ vs) e =
    (Some (ds @ concat (map (\<lambda>v. if v \<in> set sds then field_values r else [v]) vs)), e)"
proof (induction "length vs" arbitrary: ds vs rule: less_induct)
  case less
  let ?f = "\<lambda>v. if v \<in> set sds then field_values r else [v]"
  have kept: "concat (map ?f us) = us" if "\<forall>u \<in> set us. u \<notin> set sds" for us
    using that by (induction us) auto
  show ?case
  proof (cases "\<exists>v \<in> set vs. v \<in> set sds")
    case False
    then show ?thesis
      using find_single_None(1) [OF assms, of vs ds] kept [of vs]
      by (simp add: replace_members.simps [of sds r "Some (int (length ds))"])
  next
    case True
    then obtain us v ws where vs: "vs = us @ v # ws" "v \<in> set sds" "\<forall>u \<in> set us. u \<notin> set sds"
      by (rule split_list_first_propE)
    let ?j = "int (length ds + length us) + 1" and ?ds = "ds @ us @ field_values r"
    have "ReplaceMultiValueField (ds @ vs) ?j ?j r name e = (Some (?ds @ ws), e)" for name
      using vs(1) by (simp add: ReplaceMultiValueField_spec in_range_def nat_add_distrib)
    moreover have "?j + int (length (field_values r)) - 1 = int (length ?ds)" by simp
    ultimately have "replace_members sds r (Some (int (length ds))) (ds @ vs) e =
        replace_members sds r (Some (int (length ?ds))) (?ds @ ws) e"
      using find_first_single(1) [OF assms vs(2,3), of ds ws] vs(1)
      by (simp add: replace_members.simps [of sds r "Some (int (length ds))"])
    then show ?thesis using less [of ws ?ds] vs kept [OF vs(3)] by simp
  qed
qed

lemma replace_members_start:
  "replace_members sds r None vs e = replace_members sds r (Some 0) vs e"
proof -
  have "find_from sds vs i (excluded (Some 0)) = find_from sds vs i []" if "0 \<le> i" for i
  proof -
    have "MVRangeCheck a b (excluded (Some 0)) = MVRangeCheck a b []" for a b
      by (auto simp: MVRangeCheck_def excluded_def)
    then have "match_at sd v ws k (excluded (Some 0)) = match_at sd v ws k []" for sd v ws k
      by (simp only: match_at_def)
    then have "first_match sds v ws k (excluded (Some 0)) = first_match sds v ws k []" for v ws k
      by (induction sds) (simp_all split: option.split)
    then show ?thesis by (induction vs arbitrary: i) (simp_all split: option.split)
  qed
  then show ?thesis
    by (simp add: replace_members.simps [of sds r None] replace_members.simps [of sds r "Some 0"] FindDOsInSegment_def)
      (simp add: excluded_def)
qed

lemma replace_members_concat:
  assumes "\<forall>sd \<in> set sds. single sd"
  shows "replace_members sds r None vs e =
    (Some (concat (map (\<lambda>v. if v \<in> set sds then field_values r else [v]) vs)), e)"
  using replace_members_done [OF assms, of r "[]" vs e] by (simp add: replace_members_start)

lemma all_found_subset:
  assumes "\<forall>v \<in> set vs. single v"
  shows "all_found vs ws \<longleftrightarrow> set vs \<subseteq> set ws"
proof -
  have "FindDOsInSegment [v] ws [] \<noteq> None \<longleftrightarrow> v \<in> set ws" if v: "single v" for v
  proof (cases "v \<in> set ws")
    case True
    then obtain us us' where "ws = us @ v # us'" "v \<notin> set us" using split_list_first [of v ws] by blast
    then show ?thesis using find_first_single(2) [of "[v]" v us "[]" us'] v by auto
  next
    case False
    then have "\<forall>x \<in> set ws. x \<notin> set [v]" by auto
    then show ?thesis using find_single_None(2) [of "[v]" ws] v False by simp
  qed
  then show ?thesis using assms by (induction vs) auto
qed

text \<open>An empty multifield among the values to be deleted or replaced is found at the first field, and refused.\<close>

lemma empty_value_found: "FindDOsInSegment (MULTIFIELD [] # sds) (v # vs) [] = Some (1, 0)"
  by (simp add: FindDOsInSegment_def match_at_def MVRangeCheck_def)

end
