(* ===== verification/Multifield_Text.thy ===== *)
theory Multifield_Text
  imports Multifields Scanner
begin

text \<open>
  Values as text: \<open>prntutil.c\<close>, \<open>ImplodeMultifield\<close> and \<open>StringToMultifield\<close> of \<open>multifld.c\<close>, and the functions
  \<open>implode$\<close> and \<open>explode$\<close> of \<open>multifun.c\<close>. Exploding is reading the string with the scanner. The names of
  instances and the printed forms of facts, instances and external addresses are those of objects that are
  not part of the state here; they are the parameter \<open>address_texts\<close>.
\<close>

section \<open>Numbers\<close>

text \<open>\<open>printf\<close> of a non-negative number in decimal.\<close>

definition digit_char :: "int \<Rightarrow> char" where
  "digit_char d = char_of (48 + nat d)"

function decimal_text :: "int \<Rightarrow> string" where
  "decimal_text n = (if n < 10 then [digit_char n] else decimal_text (n div 10) @ [digit_char (n mod 10)])"
  by pat_completeness auto
termination by (relation "measure nat") auto

declare decimal_text.simps [simp del]

definition LongIntegerToString :: "int \<Rightarrow> string" where
  "LongIntegerToString n = (if n < 0 then CHR ''-'' # decimal_text (- n) else decimal_text n)"

text \<open>\<open>printf\<close> with \<open>%.15g\<close>. A finite double is a fraction; \<open>decimal_exponent\<close> is the exponent of its leading
  decimal digit, and \<open>significand\<close> its first 15 digits, rounded, ties to even.\<close>

definition double_fraction :: "u64 \<Rightarrow> int \<times> int" where
  "double_fraction w =
     (let x = take_bit 11 (drop_bit 52 (uint w)); f = take_bit 52 (uint w);
          m = (if x = 0 then f else f + 2 ^ 52); sh = (if x = 0 then 1 else x) - 1075
      in if 0 \<le> sh then (m * 2 ^ nat sh, 1) else (m, 2 ^ nat (- sh)))"

definition scale_ten :: "int \<Rightarrow> int \<times> int \<Rightarrow> int \<times> int" where
  "scale_ten k q = (case q of (a, b) \<Rightarrow> if 0 \<le> k then (a * 10 ^ nat k, b) else (a, b * 10 ^ nat (- k)))"

fun exponent_from :: "nat \<Rightarrow> int \<Rightarrow> int \<times> int \<Rightarrow> int" where
  "exponent_from 0 k q = k"
| "exponent_from (Suc n) k q = (case scale_ten (- k) q of (a, b) \<Rightarrow> if b \<le> a then k else exponent_from n (k - 1) q)"

text \<open>The search starts above the exponent: the fraction is below \<open>2\<close> to the difference of the lengths plus one, and
  0.30103 is above the decimal logarithm of 2.\<close>

definition decimal_exponent :: "int \<times> int \<Rightarrow> int" where
  "decimal_exponent q = exponent_from 4 ((bits_of (fst q) - bits_of (snd q) + 1) * 30103 div 100000 + 1) q"

definition round_even :: "int \<times> int \<Rightarrow> int" where
  "round_even q = (case q of (a, b) \<Rightarrow>
     let n = a div b; r = a mod b in if 2 * r > b \<or> (2 * r = b \<and> odd n) then n + 1 else n)"

definition significand :: "int \<times> int \<Rightarrow> int \<times> int" where
  "significand q =
     (let x = decimal_exponent q; n = round_even (scale_ten (14 - x) q)
      in if n = 10 ^ 15 then (10 ^ 14, x + 1) else (n, x))"

definition strip_zeros :: "string \<Rightarrow> string" where
  "strip_zeros s = rev (dropWhile (\<lambda>c. c = CHR ''0'') (rev s))"

definition with_point :: "string \<Rightarrow> string \<Rightarrow> string" where
  "with_point ip fp = (if fp = [] then ip else ip @ CHR ''.'' # fp)"

definition exponent_text :: "int \<Rightarrow> string" where
  "exponent_text x =
     (let s = decimal_text \<bar>x\<bar>
      in (if x < 0 then CHR ''-'' else CHR ''+'') # (if length s < 2 then CHR ''0'' # s else s))"

definition format_g15 :: "u64 \<Rightarrow> string" where
  "format_g15 w =
     (let sg = (if drop_bit 63 (uint w) = 0 then [] else ''-'');
          x = take_bit 11 (drop_bit 52 (uint w)); f = take_bit 52 (uint w)
      in sg @ (if x = 2047 then (if f = 0 then ''inf'' else ''nan'')
               else if x = 0 \<and> f = 0 then ''0''
               else (case significand (double_fraction w) of (n, k) \<Rightarrow>
                 let ds = decimal_text n in
                 if k < - 4 \<or> 15 \<le> k then with_point [hd ds] (strip_zeros (tl ds)) @ CHR ''e'' # exponent_text k
                 else if 0 \<le> k then with_point (take (nat k + 1) ds) (strip_zeros (drop (nat k + 1) ds))
                 else with_point ''0'' (strip_zeros (replicate (nat (- k) - 1) (CHR ''0'') @ ds)))))"

definition FloatToString :: "u64 \<Rightarrow> string" where
  "FloatToString w =
     (let s = format_g15 w in if CHR ''.'' \<in> set s \<or> CHR ''e'' \<in> set s then s else s @ ''.0'')"

section \<open>Printing values\<close>

text \<open>\<open>instance_name\<close> is the name of an instance, \<open>address_form\<close> the printed form of a fact, an instance or an
  external address.\<close>

record address_texts =
  instance_name :: "nat \<Rightarrow> string"
  address_form :: "val \<Rightarrow> string"

text \<open>The characters of a string in quotes, with a backslash before quotes and backslashes.\<close>

fun quoted_chars :: "string \<Rightarrow> string" where
  "quoted_chars [] = []"
| "quoted_chars (c # cs) =
     (if c = CHR 0x22 then [CHR 0x5C] else if c = CHR 0x5C then [CHR 0x5C] else []) @ c # quoted_chars cs"

text \<open>What \<open>ImplodeMultifield\<close> writes: each field and a space; the last space is overwritten by the zero.\<close>

fun DataObjectToString :: "address_texts \<Rightarrow> val \<Rightarrow> string"
  and implode_fields :: "address_texts \<Rightarrow> val list \<Rightarrow> string"
  and implode_field :: "address_texts \<Rightarrow> val \<Rightarrow> string" where
  "DataObjectToString tx (MULTIFIELD vs) = ''('' @ butlast (implode_fields tx vs) @ '')''"
| "DataObjectToString tx (STRING s) = CHR 0x22 # s @ [CHR 0x22]"
| "DataObjectToString tx (INSTANCE_NAME s) = ''['' @ s @ '']''"
| "DataObjectToString tx (SYMBOL s) = s"
| "DataObjectToString tx (FLOAT w) = FloatToString w"
| "DataObjectToString tx (NAN w a) = FloatToString w"
| "DataObjectToString tx (INTEGER i) = LongIntegerToString i"
| "DataObjectToString tx (EXTERNAL_ADDRESS a) = address_form tx (EXTERNAL_ADDRESS a)"
| "DataObjectToString tx (FACT_ADDRESS a) = address_form tx (FACT_ADDRESS a)"
| "DataObjectToString tx (INSTANCE_ADDRESS a) = address_form tx (INSTANCE_ADDRESS a)"
| "implode_fields tx [] = []"
| "implode_fields tx (v # vs) = implode_field tx v @ '' '' @ implode_fields tx vs"
| "implode_field tx (FLOAT w) = FloatToString w"
| "implode_field tx (NAN w a) = FloatToString w"
| "implode_field tx (INTEGER i) = LongIntegerToString i"
| "implode_field tx (STRING s) = CHR 0x22 # quoted_chars s @ [CHR 0x22]"
| "implode_field tx (INSTANCE_NAME s) = ''['' @ s @ '']''"
| "implode_field tx (INSTANCE_ADDRESS a) = ''['' @ instance_name tx a @ '']''"
| "implode_field tx (SYMBOL s) = s"
| "implode_field tx (MULTIFIELD vs) = ''('' @ butlast (implode_fields tx vs) @ '')''"
| "implode_field tx (EXTERNAL_ADDRESS a) = address_form tx (EXTERNAL_ADDRESS a)"
| "implode_field tx (FACT_ADDRESS a) = address_form tx (FACT_ADDRESS a)"

definition ImplodeMultifield :: "address_texts \<Rightarrow> val list \<Rightarrow> string" where
  "ImplodeMultifield tx vs = butlast (implode_fields tx vs)"

text \<open>The size that the first pass computes, \<open>strsize\<close>, and the memory that the second pass has written.\<close>

definition field_size :: "address_texts \<Rightarrow> val \<Rightarrow> nat" where
  "field_size tx v =
     (case v of
        FLOAT w \<Rightarrow> length (FloatToString w) + 1
      | NAN w a \<Rightarrow> length (FloatToString w) + 1
      | INTEGER i \<Rightarrow> length (LongIntegerToString i) + 1
      | STRING s \<Rightarrow> length s + 3 + length (filter (\<lambda>c. c = CHR 0x22 \<or> c = CHR 0x5C) s)
      | INSTANCE_NAME s \<Rightarrow> length s + 3
      | INSTANCE_ADDRESS a \<Rightarrow> length (instance_name tx a) + 3
      | _ \<Rightarrow> length (DataObjectToString tx v) + 1)"

definition implode_size :: "address_texts \<Rightarrow> val list \<Rightarrow> nat" where
  "implode_size tx vs = sum_list (map (field_size tx) vs)"

text \<open>The function; an error gives the empty string. The result is a string of the symbol table.\<close>

definition ImplodeFunction :: "address_texts \<Rightarrow> val list \<Rightarrow> env \<Rightarrow> val \<times> env" where
  "ImplodeFunction tx args e =
     (case EnvArgCountCheck ''implode$'' EXACTLY 1 args e of (n, e1) \<Rightarrow>
        if n = - 1 then (STRING [], e1)
        else (case mf_arg ''implode$'' 1 args e1 of
                (None, e2) \<Rightarrow> (STRING [], e2)
              | (Some vs, e2) \<Rightarrow> (STRING (ImplodeMultifield tx vs), e2)))"

section \<open>Reading values\<close>

text \<open>\<open>printForm\<close> of the tokens that are not values.\<close>

fun printForm :: "token \<Rightarrow> string" where
  "printForm (SF_VARIABLE s) = ''?'' @ s"
| "printForm (GBL_VARIABLE s) = ''?*'' @ s @ ''*''"
| "printForm SF_WILDCARD = ''?''"
| "printForm (MF_VARIABLE s) = ''$?'' @ s"
| "printForm (MF_GBL_VARIABLE s) = ''$?*'' @ s @ ''*''"
| "printForm MF_WILDCARD = ''$?''"
| "printForm LPAREN = ''(''"
| "printForm RPAREN = '')''"
| "printForm NOT_CONSTRAINT = ''~''"
| "printForm OR_CONSTRAINT = ''|''"
| "printForm AND_CONSTRAINT = ''&''"
| "printForm STOP = []"
| "printForm UNKNOWN_VALUE = ''<<<unprintable character>>>''"
| "printForm (SYMBOL_TOKEN s) = s"
| "printForm (INSTANCE_NAME_TOKEN s) = s"
| "printForm (STRING_TOKEN s) = StringPrintForm s"
| "printForm (FLOAT_TOKEN w) = FloatToString w"
| "printForm (INTEGER_TOKEN i) = LongIntegerToString i"

definition token_value :: "token \<Rightarrow> val" where
  "token_value tok =
     (case tok of
        SYMBOL_TOKEN s \<Rightarrow> SYMBOL s
      | STRING_TOKEN s \<Rightarrow> STRING s
      | FLOAT_TOKEN w \<Rightarrow> FLOAT w
      | INTEGER_TOKEN i \<Rightarrow> INTEGER i
      | INSTANCE_NAME_TOKEN s \<Rightarrow> INSTANCE_NAME s
      | _ \<Rightarrow> STRING (printForm tok))"

function read_fields :: "scanner \<Rightarrow> val list \<times> scanner" where
  "read_fields sc =
     (case GetToken sc of (tok, sc1) \<Rightarrow>
        if tok = STOP then ([], sc1)
        else (case read_fields sc1 of (vs, sc2) \<Rightarrow> (token_value tok # vs, sc2)))"
  by pat_completeness auto
termination
  by (relation "measure (\<lambda>sc. length (input sc))") (auto dest: GetToken_size [OF sym])

declare read_fields.simps [simp del]

text \<open>The string is opened as an input source; lines are counted for another source. The diagnostics of the
  scanner remain.\<close>

definition StringToMultifield :: "string \<Rightarrow> scanner \<Rightarrow> val list \<times> scanner" where
  "StringToMultifield theString sc =
     (case read_fields (sc\<lparr>input := theString, counts_lines := False\<rparr>) of
        (vs, sc1) \<Rightarrow> (vs, sc1\<lparr>input := input sc, counts_lines := counts_lines sc\<rparr>))"

definition ExplodeFunction :: "val list \<Rightarrow> env \<Rightarrow> scanner \<Rightarrow> val \<times> env \<times> scanner" where
  "ExplodeFunction args e sc =
     (case EnvArgCountCheck ''explode$'' EXACTLY 1 args e of (n, e1) \<Rightarrow>
        if n = - 1 then (MULTIFIELD [], SetEvaluationError True (e1\<lparr>HaltExecution := True\<rparr>), sc)
        else (case EnvArgTypeCheck ''explode$'' 1 ty_STRING args e1 of
                (None, e2) \<Rightarrow> (MULTIFIELD [], SetEvaluationError True (e2\<lparr>HaltExecution := True\<rparr>), sc)
              | (Some v, e2) \<Rightarrow>
                  (case StringToMultifield (DOToString v) sc of (vs, sc1) \<Rightarrow> (MULTIFIELD vs, e2, sc1))))"

section \<open>Facts\<close>

subsection \<open>Decimal numbers\<close>

lemma code_digit_char: "0 \<le> d \<Longrightarrow> d < 10 \<Longrightarrow> code (digit_char d) = 48 + nat d"
  by (simp add: code_def digit_char_def)

lemma digit_char_facts: "0 \<le> d \<Longrightarrow> d < 10 \<Longrightarrow> isdigit (digit_char d) \<and> digit_value (digit_char d) = d"
  by (simp add: isdigit_def digit_value_def code_digit_char)

lemma decimal_text_digits: "0 \<le> n \<Longrightarrow> decimal_text n \<noteq> [] \<and> (\<forall>c \<in> set (decimal_text n). isdigit c)"
proof (induction n rule: decimal_text.induct)
  case (1 n)
  then show ?case using digit_char_facts by (auto simp: decimal_text.simps [of n])
qed

lemma decimal_text_value: "0 \<le> n \<Longrightarrow> digits_value (decimal_text n) = n"
proof (induction n rule: decimal_text.induct)
  case (1 n)
  then show ?case using digit_char_facts [of n] digit_char_facts [of "n mod 10"]
    by (auto simp: decimal_text.simps [of n] digits_value_def)
qed

definition long_long :: "int \<Rightarrow> bool" where
  "long_long i \<longleftrightarrow> LLONG_MIN \<le> i \<and> i \<le> LLONG_MAX"

lemma integer_text:
  obtains sg ds where "LongIntegerToString i = sg @ ds" "sg = [] \<or> sg = ''+'' \<or> sg = ''-''" "ds \<noteq> []"
    "\<forall>c \<in> set ds. isdigit c" "signed_value (LongIntegerToString i) = i"
proof (cases "i < 0")
  case True
  then show ?thesis
    using that [of "''-''" "decimal_text (- i)"] decimal_text_digits [of "- i"] decimal_text_value [of "- i"]
    by (simp add: LongIntegerToString_def signed_value_def)
next
  case False
  then have "decimal_text i \<noteq> []" "\<forall>c \<in> set (decimal_text i). isdigit c"
    using decimal_text_digits [of i] by simp_all
  moreover from this have "hd (decimal_text i) \<noteq> CHR ''-''" "hd (decimal_text i) \<noteq> CHR ''+''"
    using digit_facts(6) [of "hd (decimal_text i)"] by (auto simp: is_sign_char_def)
  moreover from this have "signed_value (decimal_text i) = i"
    using decimal_text_value [of i] False by (cases "decimal_text i") (auto simp: signed_value_def digits_value_def)
  ultimately show ?thesis
    using that [of "[]" "decimal_text i"] False by (simp add: LongIntegerToString_def)
qed

subsection \<open>Reading back\<close>

text \<open>What follows a field of the text: nothing or a space.\<close>

definition field_ends :: "string \<Rightarrow> bool" where
  "field_ends rest \<longleftrightarrow> rest = [] \<or> hd rest = CHR '' ''"

lemma field_ends_number: "field_ends rest \<Longrightarrow> number_ends rest"
  by (auto simp: field_ends_def number_ends_def ends_number_def is_delimiter_def)

lemma GetToken_blank:
  assumes "input sc = CHR '' '' # cs"
  shows "GetToken sc = GetToken (after_reading '' '' cs sc)"
proof -
  have b: "is_white (CHR '' '')" by code_simp
  show ?thesis
    using assms b by (simp add: GetToken_def getc_input skip_white.simps [of "Some (CHR '' '')"] split: prod.split)
qed

lemma integer_field:
  assumes "long_long i" "field_ends rest" "input sc = LongIntegerToString i @ rest"
  shows "GetToken sc = (INTEGER_TOKEN i, after_reading (LongIntegerToString i) rest sc)"
proof -
  obtain sg ds where sd: "LongIntegerToString i = sg @ ds" "sg = [] \<or> sg = ''+'' \<or> sg = ''-''" "ds \<noteq> []"
    "\<forall>c \<in> set ds. isdigit c" "signed_value (LongIntegerToString i) = i"
    by (rule integer_text)
  have inp: "input sc = sg @ ds @ rest" using assms(3) sd(1) by simp
  note sc = GetToken_integer [OF sd(2-4) field_ends_number [OF assms(2)] inp]
    ScanNumber_integer [OF sd(2-4) field_ends_number [OF assms(2)] inp]
  have "strtoll (sg @ ds) = (i, False)"
    using sd(1,5) assms(1) by (simp add: strtoll_def long_long_def Let_def)
  then show ?thesis using sc sd(1) by simp
qed

lemma quoted_chars_escape: "quoted_chars s = escape s"
  by (induction s) auto

lemma string_field:
  assumes "no_backspace s" "EOS \<notin> set s" "input sc = CHR 0x22 # quoted_chars s @ CHR 0x22 # rest"
  shows "GetToken sc = (STRING_TOKEN s, after_reading (CHR 0x22 # quoted_chars s @ [CHR 0x22]) rest sc)"
  using GetToken_string [OF assms(1,2), of sc rest] assms(3)
  by (simp add: StringPrintForm_escape [OF assms(1)] quoted_chars_escape)

lemma symbol_char_expand: "symbol_char c \<Longrightarrow> ExpandStringWithChar c buf = buf @ [c]"
  by (auto simp: ExpandStringWithChar_def symbol_char_def isprint_def IsUTF8MultiByteStart_def
      IsUTF8MultiByteContinuation_def)

lemma symbol_loop_reads:
  "\<forall>c \<in> set s. symbol_char c \<Longrightarrow> field_ends rest \<Longrightarrow> input sc = s @ rest \<Longrightarrow>
    symbol_loop buf sc = (buf @ s, after_reading s rest sc)"
proof (induction s arbitrary: buf sc)
  case Nil
  show ?case
  proof (cases rest)
    case Nil
    with Nil.prems show ?thesis
      by (simp add: symbol_loop.simps getc_end EnvUngetcRouter_def after_reading_nothing)
  next
    case (Cons c cs)
    then have "\<not> symbol_char c" using Nil.prems(2) by (auto simp: field_ends_def symbol_char_def is_delimiter_def)
    with Nil.prems Cons show ?thesis
      using unget_after_reading [of c "[]" cs sc] by (simp add: symbol_loop.simps getc_input)
  qed
next
  case (Cons c s)
  have "symbol_loop buf sc = symbol_loop (buf @ [c]) (after_reading [c] (s @ rest) sc)"
    using Cons.prems by (simp add: symbol_loop.simps [of buf sc] getc_input symbol_char_expand)
  then show ?case using Cons by simp
qed

text \<open>The texts that are read as symbols.\<close>

definition plain_symbol :: "string \<Rightarrow> bool" where
  "plain_symbol s \<longleftrightarrow> s \<noteq> [] \<and> list_all symbol_char s \<and> (isprint (hd s) \<or> IsUTF8MultiByteStart (hd s)) \<and>
     \<not> isdigit (hd s) \<and> hd s \<notin> set ''+-.?$[''"

definition plain_name :: "string \<Rightarrow> bool" where
  "plain_name s \<longleftrightarrow> s \<noteq> [] \<and> list_all symbol_char s"

lemma token_from_symbol:
  assumes "symbol_char c" "isprint c \<or> IsUTF8MultiByteStart c" "\<not> isdigit c" "c \<notin> set ''+-.?$''"
  shows "token_from c sc = (if isalpha c \<or> IsUTF8MultiByteStart c then as_symbol (ScanSymbol [] (EnvUngetcRouter (Some c) sc))
      else ScanSymbol [] (EnvUngetcRouter (Some c) sc))" "\<not> is_white c"
proof -
  have "code c \<noteq> 0 \<and> code c \<noteq> 3"
    using assms(2) by (auto simp: isprint_def IsUTF8MultiByteStart_def)
  then show "token_from c sc = (if isalpha c \<or> IsUTF8MultiByteStart c then as_symbol (ScanSymbol [] (EnvUngetcRouter (Some c) sc))
      else ScanSymbol [] (EnvUngetcRouter (Some c) sc))"
    using assms by (auto simp: token_from_def symbol_char_def is_delimiter_def)
  have "code (CHR '' '') = 32" "code (CHR '';'') = 59" by code_simp+
  moreover have "c \<noteq> CHR '' ''" "c \<noteq> CHR '';''" using assms(1) by (auto simp: symbol_char_def is_delimiter_def)
  ultimately have "code c \<noteq> 32" "code c \<noteq> 59"
    unfolding code_def by (metis char_of_char)+
  then show "\<not> is_white c"
    using assms(2) by (auto simp: is_white_def isprint_def IsUTF8MultiByteStart_def)
qed

lemma symbol_field_scan:
  assumes "symbol_char c" "isprint c \<or> IsUTF8MultiByteStart c" "\<not> isdigit c" "c \<notin> set ''+-.?$''"
    and "\<forall>d \<in> set cs. symbol_char d" "field_ends rest" "input sc = c # cs @ rest"
  shows "GetToken sc = (if isalpha c \<or> IsUTF8MultiByteStart c then as_symbol else id) (ScanSymbol [] sc)"
    "symbol_loop [] sc = (c # cs, after_reading (c # cs) rest sc)"
proof -
  note tf = token_from_symbol [OF assms(1-4)]
  have "EnvUngetcRouter (Some c) (after_reading [c] (cs @ rest) sc) = sc"
    using unget_after_reading [of c "[]" "cs @ rest" sc] assms(7) by (simp add: after_reading_nothing)
  then show "GetToken sc = (if isalpha c \<or> IsUTF8MultiByteStart c then as_symbol else id) (ScanSymbol [] sc)"
    using GetToken_start [OF assms(7) tf(2)] tf(1) by (simp add: GetToken_def)
  show "symbol_loop [] sc = (c # cs, after_reading (c # cs) rest sc)"
    using symbol_loop_reads [of "c # cs" rest sc "[]"] assms by simp
qed

lemma symbol_field:
  assumes "plain_symbol s" "field_ends rest" "input sc = s @ rest"
  shows "GetToken sc = (SYMBOL_TOKEN s, after_reading s rest sc)"
proof -
  obtain c cs where s: "s = c # cs" using assms(1) by (cases s) (auto simp: plain_symbol_def)
  have c: "symbol_char c" "isprint c \<or> IsUTF8MultiByteStart c" "\<not> isdigit c" "c \<notin> set ''+-.?$''" "c \<noteq> CHR ''[''"
    "\<forall>d \<in> set cs. symbol_char d"
    using assms(1) s by (auto simp: plain_symbol_def list_all_iff)
  have inp: "input sc = c # cs @ rest" using assms(3) s by simp
  note sc = symbol_field_scan [OF c(1-4,6) assms(2) inp]
  then have "ScanSymbol [] sc = (SYMBOL_TOKEN s, after_reading s rest sc)"
    using c(5) s by (simp add: ScanSymbol_def)
  then show ?thesis using sc(1) by (simp add: as_symbol_def)
qed

lemma name_field:
  assumes "plain_name s" "field_ends rest" "input sc = ''['' @ s @ '']'' @ rest"
  shows "GetToken sc = (INSTANCE_NAME_TOKEN s, after_reading (''['' @ s @ '']'') rest sc)"
proof -
  have b: "symbol_char (CHR ''['')" "symbol_char (CHR '']'')" "isprint (CHR ''['')" "\<not> isdigit (CHR ''['')"
    "CHR ''['' \<notin> set ''+-.?$''" "\<not> isalpha (CHR ''['')" "\<not> IsUTF8MultiByteStart (CHR ''['')"
    by code_simp+
  have inp: "input sc = CHR ''['' # (s @ '']'') @ rest" using assms(3) by simp
  have s: "\<forall>d \<in> set (s @ '']''). symbol_char d" using assms(1) b(2) by (auto simp: plain_name_def list_all_iff)
  note sc = symbol_field_scan [OF b(1) disjI1 [OF b(3)] b(4,5) s assms(2) inp]
  have "length (CHR ''['' # s @ '']'') > 2" using assms(1) by (cases s) (simp_all add: plain_name_def)
  then have "ScanSymbol [] sc = (INSTANCE_NAME_TOKEN s, after_reading (''['' @ s @ '']'') rest sc)"
    by (simp add: ScanSymbol_def sc(2))
  then show ?thesis using sc(1) b(6,7) by simp
qed

text \<open>The values that are read back as they were: floats are not among them, since 15 digits do not determine a
  double.\<close>

definition readable :: "val \<Rightarrow> bool" where
  "readable v =
     (case v of
        INTEGER i \<Rightarrow> long_long i
      | STRING s \<Rightarrow> no_backspace s \<and> EOS \<notin> set s
      | SYMBOL s \<Rightarrow> plain_symbol s
      | INSTANCE_NAME s \<Rightarrow> plain_name s
      | _ \<Rightarrow> False)"

lemma field_reads:
  assumes "readable v" "field_ends rest" "input sc = implode_field tx v @ rest"
  obtains tok where "GetToken sc = (tok, after_reading (implode_field tx v) rest sc)" "token_value tok = v" "tok \<noteq> STOP"
proof (cases v)
  case (INTEGER i)
  then show ?thesis using that integer_field [of i rest sc] assms by (simp add: readable_def token_value_def)
next
  case (STRING s)
  then show ?thesis using that string_field [of s sc rest] assms by (simp add: readable_def token_value_def)
next
  case (SYMBOL s)
  then show ?thesis using that symbol_field [of s rest sc] assms by (simp add: readable_def token_value_def)
next
  case (INSTANCE_NAME s)
  then show ?thesis using that name_field [of s rest sc] assms by (simp add: readable_def token_value_def)
qed (use assms(1) in \<open>simp_all add: readable_def\<close>)

lemma read_fields_blank:
  "input sc = CHR '' '' # cs \<Longrightarrow> read_fields sc = read_fields (after_reading '' '' cs sc)"
  using GetToken_blank by (simp add: read_fields.simps [of sc] read_fields.simps [of "after_reading _ _ _"])

lemma read_fields_end: "input sc = [] \<Longrightarrow> read_fields sc = ([], sc)"
  by (simp add: read_fields.simps [of sc] GetToken_def getc_end skip_white.simps)

lemma ImplodeMultifield_Cons:
  "ImplodeMultifield tx (v # vs) =
     implode_field tx v @ (if vs = [] then [] else CHR '' '' # ImplodeMultifield tx vs)"
  by (cases vs) (simp_all add: ImplodeMultifield_def butlast_append)

lemma read_fields_implode:
  assumes "list_all readable vs" "input sc = ImplodeMultifield tx vs"
  shows "read_fields sc = (vs, after_reading (ImplodeMultifield tx vs) [] sc)"
  using assms
proof (induction vs arbitrary: sc)
  case Nil
  then show ?case by (simp add: ImplodeMultifield_def read_fields_end after_reading_nothing)
next
  case (Cons v vs)
  let ?rest = "if vs = [] then [] else CHR '' '' # ImplodeMultifield tx vs"
  have inp: "input sc = implode_field tx v @ ?rest"
    using Cons.prems(2) by (simp add: ImplodeMultifield_Cons)
  have "field_ends ?rest" by (simp add: field_ends_def)
  then obtain tok where tok: "GetToken sc = (tok, after_reading (implode_field tx v) ?rest sc)" "token_value tok = v" "tok \<noteq> STOP"
    using field_reads [OF _ _ inp] Cons.prems(1) by auto
  let ?sc = "after_reading (implode_field tx v) ?rest sc"
  have "read_fields ?sc = (vs, after_reading ?rest [] ?sc)"
  proof (cases "vs = []")
    case True
    then show ?thesis by (simp add: read_fields_end after_reading_def)
  next
    case False
    then show ?thesis
      using Cons.IH [of "after_reading '' '' (ImplodeMultifield tx vs) ?sc"] Cons.prems(1)
      by (simp add: read_fields_blank)
  qed
  then show ?case using tok
    by (simp add: read_fields.simps [of sc] ImplodeMultifield_Cons del: after_reading_trans)
      (simp add: after_reading_def)
qed

lemma StringToMultifield_implode:
  assumes "list_all readable vs"
  shows "StringToMultifield (ImplodeMultifield tx vs) sc = (vs, sc)"
proof -
  let ?sc = "sc\<lparr>input := ImplodeMultifield tx vs, counts_lines := False\<rparr>"
  have "read_fields ?sc = (vs, after_reading (ImplodeMultifield tx vs) [] ?sc)"
    by (rule read_fields_implode [OF assms]) simp
  then show ?thesis by (simp add: StringToMultifield_def after_reading_def)
qed

subsection \<open>The memory of the text\<close>

lemma quoted_chars_length:
  "length (quoted_chars s) = length s + length (filter (\<lambda>c. c = CHR 0x22 \<or> c = CHR 0x5C) s)"
  by (induction s) auto

lemma implode_size_exact: "length (implode_fields tx vs) = implode_size tx vs"
proof -
  have "field_size tx v = length (implode_field tx v) + 1" for v
    by (cases v) (simp_all add: field_size_def quoted_chars_length)
  then show ?thesis by (induction vs) (simp_all add: implode_size_def)
qed

text \<open>A float is printed with 15 digits, and an infinity as a symbol.\<close>

lemma float_text_loses: "FloatToString 0x3fd3333333333334 = ''0.3''" "atof ''0.3'' = 0x3fd3333333333333"
  "FloatToString 0x7ff0000000000000 = ''inf.0''"
  by code_simp+

end
