(* ===== verification/Multifield_Properties.thy ===== *)
theory Multifield_Properties
  imports Multifield_Text Demo
begin

text \<open>
  Properties of multifields: text and back, deleting and replacing members, and editing by position.
\<close>

section \<open>Text\<close>

text \<open>C17. Exploding the text that implode$ makes of a multifield gives the multifield back, if its fields are integers,
  strings, instance names or symbols that are written as symbols; the environment and the scanner are as
  before. The text fills the memory that was computed for it exactly, with the zero at its end.\<close>

theorem explode_implode_roundtrip:
  assumes "list_all readable vs" "\<not> EvaluationError e"
  shows "\<exists>s. ImplodeFunction tx [MULTIFIELD vs] e = (STRING s, e) \<and>
    ExplodeFunction [STRING s] e sc = (MULTIFIELD vs, e, sc) \<and> (vs \<noteq> [] \<longrightarrow> length s + 1 = implode_size tx vs)"
proof (intro exI conjI impI)
  let ?s = "ImplodeMultifield tx vs"
  show "ImplodeFunction tx [MULTIFIELD vs] e = (STRING ?s, e)"
    using assms(2) by (simp add: ImplodeFunction_def EnvArgCountCheck_ok)
  show "ExplodeFunction [STRING ?s] e sc = (MULTIFIELD vs, e, sc)"
    using assms(2)
    by (simp add: ExplodeFunction_def EnvArgCountCheck_ok EnvArgTypeCheck_def check_type_def StringToMultifield_implode [OF assms(1)])
  show "length ?s + 1 = implode_size tx vs" if "vs \<noteq> []"
    using that implode_size_exact [of tx vs] by (cases vs) (simp_all add: ImplodeMultifield_def)
qed

definition demo_texts :: address_texts where
  "demo_texts = \<lparr>instance_name = (\<lambda>a. ''i''), address_form = (\<lambda>v. ''<Address>'')\<rparr>"

definition demo_scanner :: scanner where
  "demo_scanner = \<lparr>input = ''(facts)'', LineCount = 3, counts_lines = True, IgnoreCompletionErrors = False, diagnostics = []\<rparr>"

definition demo_fields :: "val list" where
  "demo_fields = [SYMBOL ''to'', STRING [CHR 0x22, CHR 0x5C, CHR '' ''], INTEGER (- 120), INSTANCE_NAME ''a-b'', SYMBOL ''*'']"

theorem explode_implode_roundtrip_witness:
  "list_all readable demo_fields \<and> \<not> EvaluationError demo \<and>
    (\<exists>s. ImplodeFunction demo_texts [MULTIFIELD demo_fields] demo = (STRING s, demo) \<and>
      ExplodeFunction [STRING s] demo demo_scanner = (MULTIFIELD demo_fields, demo, demo_scanner) \<and>
      (demo_fields \<noteq> [] \<longrightarrow> length s + 1 = implode_size demo_texts demo_fields))"
proof (intro conjI)
  show r: "list_all readable demo_fields"
    unfolding demo_fields_def readable_def plain_symbol_def plain_name_def long_long_def LLONG_MIN_def LLONG_MAX_def
      no_backspace_def by code_simp
  show e: "\<not> EvaluationError demo" by (simp add: demo_def)
  show "\<exists>s. ImplodeFunction demo_texts [MULTIFIELD demo_fields] demo = (STRING s, demo) \<and>
      ExplodeFunction [STRING s] demo demo_scanner = (MULTIFIELD demo_fields, demo, demo_scanner) \<and>
      (demo_fields \<noteq> [] \<longrightarrow> length s + 1 = implode_size demo_texts demo_fields)"
    by (rule explode_implode_roundtrip [OF r e])
qed

section \<open>Members\<close>

text \<open>C19. For values that are single fields, delete-member$ removes exactly the fields equal to one of them,
  replace-member$ puts the fields of the new value in the place of each of them, once, also when the new value
  contains them, and subsetp tests inclusion of the sets of fields, without regard to repetitions: a comment on
  subsetp asks that repeated values be repeated in the second multifield too, which the code does not do. Values are
  equal if they are the same node, so that a NaN is found only where the same NaN is.\<close>

theorem member_functions_exact:
  assumes "\<forall>v \<in> set sds. single v" "sds \<noteq> []" "\<not> EvaluationError e"
  shows "DeleteMemberFunction (MULTIFIELD vs # sds) e = (MULTIFIELD (filter (\<lambda>v. v \<notin> set sds) vs), e) \<and>
    ReplaceMemberFunction (MULTIFIELD vs # r # sds) e =
      (MULTIFIELD (concat (map (\<lambda>v. if v \<in> set sds then field_values r else [v]) vs)), e) \<and>
    SubsetpFunction [MULTIFIELD sds, MULTIFIELD vs] e = (set sds \<subseteq> set vs, e)"
proof -
  obtain n where n: "length sds = Suc n" using assms(2) by (cases sds) auto
  show ?thesis
    using assms(2,3) n delete_members_filter [OF assms(1)] replace_members_concat [OF assms(1)] all_found_subset [OF assms(1)]
    by (simp add: DeleteMemberFunction_def ReplaceMemberFunction_def SubsetpFunction_def multifield_result_def
        EnvArgCountCheck_ok)
qed

theorem member_functions_exact_witness:
  "list_all single [INTEGER 1, SYMBOL ''a''] \<and>
    DeleteMemberFunction [MULTIFIELD [SYMBOL ''a'', INTEGER 2, INTEGER 1], INTEGER 1, SYMBOL ''a''] demo = (MULTIFIELD [INTEGER 2], demo) \<and>
    ReplaceMemberFunction [MULTIFIELD [SYMBOL ''a'', INTEGER 2], MULTIFIELD [INTEGER 1, INTEGER 3], INTEGER 1, SYMBOL ''a''] demo =
      (MULTIFIELD [INTEGER 1, INTEGER 3, INTEGER 2], demo)"
proof -
  have s: "\<forall>v \<in> set [INTEGER 1, SYMBOL ''a'']. single v" "\<not> EvaluationError demo" by (simp_all add: single_def demo_def)
  show ?thesis
    using s member_functions_exact [OF s(1) _ s(2), of "[SYMBOL ''a'', INTEGER 2, INTEGER 1]"]
      member_functions_exact [OF s(1) _ s(2), of "[SYMBOL ''a'', INTEGER 2]" "MULTIFIELD [INTEGER 1, INTEGER 3]"]
    by (simp add: field_values_def)
qed

section \<open>Positions\<close>

lemma InsertFunction_at:
  "\<not> EvaluationError e \<Longrightarrow> 1 \<le> i \<Longrightarrow> InsertFunction [MULTIFIELD vs, INTEGER i, x] e =
     (MULTIFIELD (take (nat (i - 1)) vs @ field_values x @ drop (nat (i - 1)) vs), e)"
  by (simp add: InsertFunction_def InsertMultiValueField_spec new_value_def multifield_result_def)

lemma DeleteFunction_range:
  "\<not> EvaluationError e \<Longrightarrow> DeleteFunction [MULTIFIELD vs, INTEGER rb, INTEGER re] e =
     (if in_range rb re vs then (MULTIFIELD (take (nat (rb - 1)) vs @ drop (nat re) vs), e)
      else multifield_error (MVRangeError rb re (int (length vs)) ''delete$'' e))"
  by (simp add: DeleteFunction_def DeleteMultiValueField_spec multifield_result_def)

lemma ReplaceFunction_range:
  "\<not> EvaluationError e \<Longrightarrow> ReplaceFunction [MULTIFIELD vs, INTEGER rb, INTEGER re, x] e =
     (if in_range rb re vs then (MULTIFIELD (take (nat (rb - 1)) vs @ field_values x @ drop (nat re) vs), e)
      else multifield_error (MVRangeError rb re (int (length vs)) ''replace$'' e))"
  by (simp add: ReplaceFunction_def ReplaceMultiValueField_spec new_value_def multifield_result_def)

text \<open>C21. Deleting what was inserted gives the multifield back; replacing is deleting and inserting; and a range that is
  empty or leaves the multifield is an evaluation error with an empty result.\<close>

theorem multifield_edits:
  assumes "\<not> EvaluationError e"
  shows "(1 \<le> i \<and> i \<le> int (length vs) + 1 \<and> field_values x \<noteq> [] \<longrightarrow>
      DeleteFunction [fst (InsertFunction [MULTIFIELD vs, INTEGER i, x] e), INTEGER i,
        INTEGER (i + int (length (field_values x)) - 1)] e = (MULTIFIELD vs, e)) \<and>
    (in_range rb re vs \<longrightarrow>
      ReplaceFunction [MULTIFIELD vs, INTEGER rb, INTEGER re, x] e =
        InsertFunction [fst (DeleteFunction [MULTIFIELD vs, INTEGER rb, INTEGER re] e), INTEGER rb, x] e) \<and>
    (\<not> in_range rb re vs \<longrightarrow>
      fst (ReplaceFunction [MULTIFIELD vs, INTEGER rb, INTEGER re, x] e) = MULTIFIELD [] \<and>
      EvaluationError (snd (ReplaceFunction [MULTIFIELD vs, INTEGER rb, INTEGER re, x] e)) \<and>
      fst (DeleteFunction [MULTIFIELD vs, INTEGER rb, INTEGER re] e) = MULTIFIELD [] \<and>
      EvaluationError (snd (DeleteFunction [MULTIFIELD vs, INTEGER rb, INTEGER re] e)))"
proof (intro conjI impI)
  note edits = InsertFunction_at [OF assms] DeleteFunction_range [OF assms] ReplaceFunction_range [OF assms]
  show "DeleteFunction [fst (InsertFunction [MULTIFIELD vs, INTEGER i, x] e), INTEGER i,
      INTEGER (i + int (length (field_values x)) - 1)] e = (MULTIFIELD vs, e)"
    if i: "1 \<le> i \<and> i \<le> int (length vs) + 1 \<and> field_values x \<noteq> []"
  proof -
    let ?n = "nat (i - 1)" and ?k = "i + int (length (field_values x)) - 1"
    have "int (length (field_values x)) \<ge> 1" using i by (cases "field_values x") simp_all
    then have "in_range i ?k (take ?n vs @ field_values x @ drop ?n vs)" "nat ?k = ?n + length (field_values x)"
      "min (length vs) ?n = ?n"
      using i by (auto simp: in_range_def)
    then show ?thesis using i by (simp add: edits)
  qed
  show "ReplaceFunction [MULTIFIELD vs, INTEGER rb, INTEGER re, x] e =
      InsertFunction [fst (DeleteFunction [MULTIFIELD vs, INTEGER rb, INTEGER re] e), INTEGER rb, x] e"
    if r: "in_range rb re vs"
  proof -
    have "min (length vs) (nat (rb - 1)) = nat (rb - 1)" "1 \<le> rb" using r by (auto simp: in_range_def)
    then show ?thesis using r by (simp add: edits)
  qed
  show "fst (ReplaceFunction [MULTIFIELD vs, INTEGER rb, INTEGER re, x] e) = MULTIFIELD []"
    "EvaluationError (snd (ReplaceFunction [MULTIFIELD vs, INTEGER rb, INTEGER re, x] e))"
    "fst (DeleteFunction [MULTIFIELD vs, INTEGER rb, INTEGER re] e) = MULTIFIELD []"
    "EvaluationError (snd (DeleteFunction [MULTIFIELD vs, INTEGER rb, INTEGER re] e))"
    if r: "\<not> in_range rb re vs"
    using r by (simp_all add: edits multifield_error_def SetEvaluationError_def)
qed

theorem multifield_edits_witness:
  "\<not> EvaluationError demo \<and>
    DeleteFunction [fst (InsertFunction [MULTIFIELD [INTEGER 4, INTEGER 5], INTEGER 2, SYMBOL ''a''] demo), INTEGER 2, INTEGER 2] demo =
      (MULTIFIELD [INTEGER 4, INTEGER 5], demo)"
proof -
  have e: "\<not> EvaluationError demo" by (simp add: demo_def)
  show ?thesis
    using e multifield_edits [OF e, of 2 "[INTEGER 4, INTEGER 5]" "SYMBOL ''a''" 1 1] by (simp add: field_values_def)
qed

end
