(* ===== verification/Atom_Tables.thy ===== *)
theory Atom_Tables
  imports Fact_Hash Predicates
begin

text \<open>
  The tables of atomic values, \<open>symbol.c\<close>: symbols, floats, integers, bit maps and external addresses are stored
  once each, so that the engine compares them by address. A node that nothing uses (count 0) is on the
  ephemeral list of a garbage frame until the frame is cleaned. The five tables work alike; the operations
  are defined once, for contents of any type, with the hash function and the comparison of the table.
  \<open>None\<close> is the end of the program after \<open>SystemError\<close>.
\<close>

section \<open>Nodes and tables\<close>

record 'c hashNode =
  n_count :: int
  permanent :: bool
  markedEphemeral :: bool
  bucket :: u64
  contents :: 'c

text \<open>A bucket is the list of the addresses of its nodes; \<open>freeNode\<close> is an address that is not in use.\<close>

record 'c atomTable =
  nodes :: "addr \<Rightarrow> 'c hashNode"
  table :: "u64 \<Rightarrow> addr list"
  freeNode :: addr

definition upd_node :: "addr \<Rightarrow> ('c hashNode \<Rightarrow> 'c hashNode) \<Rightarrow> 'c atomTable \<Rightarrow> 'c atomTable" where
  "upd_node p u t = t\<lparr>nodes := (nodes t)(p := u (nodes t p))\<rparr>"

section \<open>Operations of every table\<close>

text \<open>The search in a bucket.\<close>

fun find_node :: "('c \<Rightarrow> 'c \<Rightarrow> bool) \<Rightarrow> 'c atomTable \<Rightarrow> 'c \<Rightarrow> addr list \<Rightarrow> pointer" where
  "find_node same t c [] = None"
| "find_node same t c (p # ps) = (if same c (contents (nodes t p)) then Some p else find_node same t c ps)"

text \<open>\<open>AddEphemeralHashNode\<close> on a table and an ephemeral list.\<close>

definition AddEphemeralHashNode :: "addr \<Rightarrow> bool \<Rightarrow> 'c atomTable \<times> addr list \<Rightarrow> ('c atomTable \<times> addr list) option" where
  "AddEphemeralHashNode p checkCount st =
     (case st of (t, es) \<Rightarrow>
        if checkCount \<and> n_count (nodes t p) \<noteq> 0 then None
        else Some (upd_node p (\<lambda>n. n\<lparr>markedEphemeral := True\<rparr>) t, p # es))"

text \<open>The new node at the end of its bucket; \<open>markedEphemeral\<close> is set by \<open>AddEphemeralHashNode\<close>.\<close>

definition new_node :: "u64 \<Rightarrow> 'c \<Rightarrow> 'c atomTable \<Rightarrow> addr \<times> 'c atomTable" where
  "new_node tally c t =
     (let p = freeNode t
      in (p, t\<lparr>nodes := (nodes t)(p := \<lparr>n_count = 0, permanent = False,
                markedEphemeral = markedEphemeral (nodes t p), bucket = tally, contents = c\<rparr>),
              table := (table t)(tally := table t tally @ [p]), freeNode := p + 1\<rparr>))"

definition add_atom ::
  "('c \<Rightarrow> u64) \<Rightarrow> ('c \<Rightarrow> 'c \<Rightarrow> bool) \<Rightarrow> 'c \<Rightarrow> 'c atomTable \<times> addr list \<Rightarrow> (addr \<times> 'c atomTable \<times> addr list) option" where
  "add_atom hash same c st =
     (case st of (t, es) \<Rightarrow>
        let tally = hash c
        in case find_node same t c (table t tally) of
             Some p \<Rightarrow> Some (p, t, es)
           | None \<Rightarrow> (case new_node tally c t of (p, t1) \<Rightarrow> map_option (Pair p) (AddEphemeralHashNode p True (t1, es))))"

text \<open>The macros that increment a count, and the functions that decrement it.\<close>

definition increment_count :: "addr \<Rightarrow> 'c atomTable \<Rightarrow> 'c atomTable" where
  "increment_count p t = upd_node p (\<lambda>n. n\<lparr>n_count := n_count n + 1\<rparr>) t"

definition decrement_count :: "addr \<Rightarrow> 'c atomTable \<times> addr list \<Rightarrow> ('c atomTable \<times> addr list) option" where
  "decrement_count p st =
     (case st of (t, es) \<Rightarrow>
        if n_count (nodes t p) \<le> 0 then None
        else (let t1 = upd_node p (\<lambda>n. n\<lparr>n_count := n_count n - 1\<rparr>) t
              in if n_count (nodes t1 p) \<noteq> 0 then Some (t1, es)
                 else if \<not> markedEphemeral (nodes t1 p) then AddEphemeralHashNode p True (t1, es)
                 else Some (t1, es)))"

text \<open>Marking a value, which may be in use, as ephemeral.\<close>

definition ephemerate :: "addr \<Rightarrow> 'c atomTable \<times> addr list \<Rightarrow> ('c atomTable \<times> addr list) option" where
  "ephemerate p st =
     (case st of (t, es) \<Rightarrow> if markedEphemeral (nodes t p) then Some (t, es) else AddEphemeralHashNode p False (t, es))"

definition RemoveHashNode :: "addr \<Rightarrow> 'c atomTable \<Rightarrow> 'c atomTable option" where
  "RemoveHashNode p t =
     (let b = bucket (nodes t p)
      in if p \<in> set (table t b) then Some (t\<lparr>table := (table t)(b := remove1 p (table t b))\<rparr>) else None)"

fun RemoveEphemeralHashNodes :: "addr list \<Rightarrow> 'c atomTable \<Rightarrow> ('c atomTable \<times> addr list) option" where
  "RemoveEphemeralHashNodes [] t = Some (t, [])"
| "RemoveEphemeralHashNodes (p # es) t =
     (if n_count (nodes t p) = 0
      then (case RemoveHashNode p t of None \<Rightarrow> None | Some t1 \<Rightarrow> RemoveEphemeralHashNodes es t1)
      else if n_count (nodes t p) > 0
      then RemoveEphemeralHashNodes es (upd_node p (\<lambda>n. n\<lparr>markedEphemeral := False\<rparr>) t)
      else (case RemoveEphemeralHashNodes es t of None \<Rightarrow> None | Some (t1, es1) \<Rightarrow> Some (t1, p # es1)))"

section \<open>Hash functions\<close>

definition FLOAT_HASH_SIZE :: u64 where "FLOAT_HASH_SIZE = 8191"
definition INTEGER_HASH_SIZE :: u64 where "INTEGER_HASH_SIZE = 8191"
definition BITMAP_HASH_SIZE :: u64 where "BITMAP_HASH_SIZE = 8191"
definition EXTERNAL_ADDRESS_HASH_SIZE :: u64 where "EXTERNAL_ADDRESS_HASH_SIZE = 8191"

text \<open>The bytes of a 64-bit value in memory, least significant first; a \<open>char\<close> is signed.\<close>

definition double_byte :: "nat \<Rightarrow> u64 \<Rightarrow> u64" where
  "double_byte i w = (let b = take_bit 8 (drop_bit (8 * i) w) in if b < 128 then b else b - 256)"

definition HashFloat :: "u64 \<Rightarrow> u64 \<Rightarrow> u64" where
  "HashFloat number range1 =
     (let tally = foldl (\<lambda>t i. t * 127 + double_byte i number) 0 [0..<8] in if range1 = 0 then tally else tally mod range1)"

text \<open>The absolute value is cut off to 32 bits.\<close>

definition HashInteger :: "int \<Rightarrow> u64 \<Rightarrow> u64" where
  "HashInteger number range1 = take_bit 32 (word_of_int \<bar>number\<bar>) mod range1"

definition HashExternalAddress :: "nat \<Rightarrow> u64 \<Rightarrow> u64" where
  "HashExternalAddress a range1 =
     (let tally = take_bit 32 (word_of_nat a) div 256 in if range1 = 0 then tally else tally mod range1)"

text \<open>Eight bytes make a number, least significant first.\<close>

fun long_value :: "string \<Rightarrow> u64" where
  "long_value [] = 0"
| "long_value (c # cs) = of_char c + 256 * long_value cs"

fun bitmap_sum :: "nat \<Rightarrow> string \<Rightarrow> u64" where
  "bitmap_sum 0 w = sum_list (map char_value w)"
| "bitmap_sum (Suc n) w = long_value (take 8 w) + bitmap_sum n (drop 8 w)"

definition HashBitMap :: "string \<Rightarrow> u64 \<Rightarrow> u64" where
  "HashBitMap w range1 =
     (let tally = bitmap_sum (length w div 8) w in if range1 = 0 then tally else tally mod range1)"

section \<open>The invariant of a table\<close>

abbreviation node_count :: "'c atomTable \<Rightarrow> addr \<Rightarrow> int" where "node_count t p \<equiv> n_count (nodes t p)"
abbreviation marked :: "'c atomTable \<Rightarrow> addr \<Rightarrow> bool" where "marked t p \<equiv> markedEphemeral (nodes t p)"
abbreviation node_contents :: "'c atomTable \<Rightarrow> addr \<Rightarrow> 'c" where "node_contents t p \<equiv> contents (nodes t p)"

definition live :: "'c atomTable \<Rightarrow> addr \<Rightarrow> bool" where
  "live t p \<longleftrightarrow> p \<in> set (table t (bucket (nodes t p)))"

text \<open>Every node is in the bucket of its contents; proper contents are there once; \<open>E\<close>, the ephemeral lists of all
  frames, holds exactly the marked nodes, each once; and an unused node is marked.\<close>

definition buckets_ok :: "('c \<Rightarrow> u64) \<Rightarrow> 'c atomTable \<Rightarrow> bool" where
  "buckets_ok hash t \<longleftrightarrow> (\<forall>b. distinct (table t b) \<and>
     (\<forall>p \<in> set (table t b). bucket (nodes t p) = b \<and> hash (node_contents t p) = b \<and> p < freeNode t))"

definition unique_atoms :: "('c \<Rightarrow> bool) \<Rightarrow> 'c atomTable \<Rightarrow> bool" where
  "unique_atoms proper t \<longleftrightarrow> (\<forall>p q. live t p \<and> live t q \<and> proper (node_contents t p) \<longrightarrow>
     node_contents t p = node_contents t q \<longrightarrow> p = q)"

definition ephemera_ok :: "'c atomTable \<Rightarrow> addr list \<Rightarrow> bool" where
  "ephemera_ok t E \<longleftrightarrow> distinct E \<and> (\<forall>p. p \<in> set E \<longleftrightarrow> live t p \<and> marked t p) \<and>
     (\<forall>p. live t p \<longrightarrow> 0 \<le> node_count t p \<and> (node_count t p = 0 \<longrightarrow> marked t p))"

definition atoms_ok :: "('c \<Rightarrow> u64) \<Rightarrow> ('c \<Rightarrow> bool) \<Rightarrow> 'c atomTable \<Rightarrow> addr list \<Rightarrow> bool" where
  "atoms_ok hash proper t E \<longleftrightarrow> buckets_ok hash t \<and> unique_atoms proper t \<and> ephemera_ok t E"

lemma bucket_live: "buckets_ok hash t \<Longrightarrow> p \<in> set (table t b) \<longleftrightarrow> live t p \<and> bucket (nodes t p) = b"
  by (auto simp: buckets_ok_def live_def)

lemma live_bucket: "buckets_ok hash t \<Longrightarrow> live t p \<Longrightarrow> p \<in> set (table t (hash (node_contents t p)))"
  unfolding live_def buckets_ok_def by metis

text \<open>An update of the counts and marks of nodes keeps buckets and contents.\<close>

lemma upd_node_fields [simp]:
  "nodes (upd_node p u t) q = (if q = p then u (nodes t p) else nodes t q)"
  "table (upd_node p u t) = table t" "freeNode (upd_node p u t) = freeNode t"
  by (simp_all add: upd_node_def)

lemma upd_node_live:
  assumes "\<And>n. bucket (u n) = bucket n" "\<And>n. contents (u n) = contents n"
  shows "live (upd_node p u t) q = live t q" "node_contents (upd_node p u t) q = node_contents t q"
    "buckets_ok hash (upd_node p u t) = buckets_ok hash t" "unique_atoms proper (upd_node p u t) = unique_atoms proper t"
proof -
  show l: "live (upd_node p u t) q = live t q" "node_contents (upd_node p u t) q = node_contents t q" for q
    using assms by (simp_all add: live_def)
  show "buckets_ok hash (upd_node p u t) = buckets_ok hash t"
    using assms by (auto simp: buckets_ok_def)
  show "unique_atoms proper (upd_node p u t) = unique_atoms proper t"
    unfolding unique_atoms_def l ..
qed

locale atom_kind =
  fixes hash :: "'c \<Rightarrow> u64" and same :: "'c \<Rightarrow> 'c \<Rightarrow> bool" and proper :: "'c \<Rightarrow> bool"
  assumes same_hash: "same c d \<Longrightarrow> hash c = hash d \<Longrightarrow> c = d"
    and same_refl: "proper c \<Longrightarrow> same c c"
begin

abbreviation ok :: "'c atomTable \<Rightarrow> addr list \<Rightarrow> bool" where "ok \<equiv> atoms_ok hash proper"

lemma find_node_Some:
  assumes "\<forall>p \<in> set ps. hash (node_contents t p) = hash c" "find_node same t c ps = Some p"
  shows "p \<in> set ps \<and> node_contents t p = c"
  using assms by (induction ps) (auto split: if_splits dest: same_hash)

lemma find_node_None:
  assumes "find_node same t c ps = None" "proper c" "p \<in> set ps"
  shows "node_contents t p \<noteq> c"
  using assms same_refl by (induction ps) (auto split: if_splits)

text \<open>What adding does to a table without the contents.\<close>

lemma new_node_ok:
  assumes "ok t (es @ os)" "find_node same t c (table t (hash c)) = None" "p = freeNode t"
    and t': "t' = upd_node p (\<lambda>n. n\<lparr>markedEphemeral := True\<rparr>) (snd (new_node (hash c) c t))"
  shows "ok t' ((p # es) @ os)" "live t' q \<longleftrightarrow> live t q \<or> q = p" "live t q \<Longrightarrow> nodes t' q = nodes t q" "node_contents t' p = c"
proof -
  have b: "buckets_ok hash t" "unique_atoms proper t" "ephemera_ok t (es @ os)" using assms(1) by (simp_all add: atoms_ok_def)
  have fresh: "\<not> live t p" using b(1) assms(3) by (auto simp: live_def buckets_ok_def)
  have n: "nodes t' q = (if q = p then \<lparr>n_count = 0, permanent = False, markedEphemeral = True, bucket = hash c, contents = c\<rparr> else nodes t q)" for q
    using assms(3) by (simp add: t' new_node_def Let_def)
  have tb: "table t' k = (if k = hash c then table t k @ [p] else table t k)" "freeNode t' = p + 1" for k
    using assms(3) by (simp_all add: t' new_node_def Let_def)
  have notin: "p \<notin> set (table t k)" for k using b(1) assms(3) by (auto simp: buckets_ok_def)
  show l: "live t' q \<longleftrightarrow> live t q \<or> q = p" for q
    using fresh by (auto simp: live_def n tb)
  show keep: "live t q \<Longrightarrow> nodes t' q = nodes t q" for q using fresh n by auto
  show c: "node_contents t' p = c" by (simp add: n)
  have "buckets_ok hash t'"
    using b(1) notin assms(3) unfolding buckets_ok_def by (auto simp: n tb less_Suc_eq)
  moreover have "unique_atoms proper t'"
  proof -
    have "node_contents t q \<noteq> c" if "live t q" "proper c" for q
      using find_node_None [OF assms(2) that(2), of q] live_bucket [OF b(1) that(1)] by auto
    moreover have "a = q" if "live t a" "live t q" "proper (node_contents t a)" "node_contents t a = node_contents t q" for a q
      using b(2) that unfolding unique_atoms_def by blast
    ultimately have "a = q" if "live t a \<or> a = p" "live t q \<or> q = p" "proper (node_contents t' a)"
      "node_contents t' a = node_contents t' q" for a q
      using that c keep by (elim disjE) force+
    then show ?thesis unfolding unique_atoms_def l by blast
  qed
  moreover have "ephemera_ok t' ((p # es) @ os)"
    using b(3) fresh unfolding ephemera_ok_def l by (auto simp: n)
  ultimately show "ok t' ((p # es) @ os)" by (simp add: atoms_ok_def)
qed

lemma add_atom_ok:
  assumes "ok t (es @ os)"
  obtains p t' es' where "add_atom hash same c (t, es) = Some (p, t', es')" "ok t' (es' @ os)" "live t' p" "node_contents t' p = c"
    "\<And>q. live t q \<Longrightarrow> live t' q \<and> nodes t' q = nodes t q" "\<And>q. live t' q \<Longrightarrow> live t q \<or> q = p"
proof (cases "find_node same t c (table t (hash c))")
  case (Some p)
  have b: "buckets_ok hash t" using assms by (simp add: atoms_ok_def)
  then have "p \<in> set (table t (hash c)) \<and> node_contents t p = c"
    using find_node_Some [OF _ Some] by (auto simp: buckets_ok_def)
  then have "live t p" "node_contents t p = c" using bucket_live [OF b] by auto
  moreover have "add_atom hash same c (t, es) = Some (p, t, es)" by (simp add: add_atom_def Some Let_def)
  ultimately show ?thesis using that assms by blast
next
  case None
  let ?p = "freeNode t" and ?t = "upd_node (freeNode t) (\<lambda>n. n\<lparr>markedEphemeral := True\<rparr>) (snd (new_node (hash c) c t))"
  note n = new_node_ok [OF assms None refl refl]
  have "add_atom hash same c (t, es) = Some (?p, ?t, ?p # es)"
    by (simp add: add_atom_def None Let_def AddEphemeralHashNode_def new_node_def)
  then show ?thesis using that n by auto
qed

text \<open>Equal contents have the same address.\<close>

lemma add_atom_again:
  assumes "ok t (es @ os)" "proper c" "live t p" "node_contents t p = c"
  shows "add_atom hash same c (t, es) = Some (p, t, es)"
proof -
  have b: "buckets_ok hash t" and u: "unique_atoms proper t" using assms(1) by (simp_all add: atoms_ok_def)
  have p: "p \<in> set (table t (hash c))" using live_bucket [OF b assms(3)] assms(4) by simp
  then obtain q where q: "find_node same t c (table t (hash c)) = Some q"
    using find_node_None [OF _ assms(2) p] assms(4) by (metis not_None_eq)
  then have "q \<in> set (table t (hash c)) \<and> node_contents t q = c"
    using find_node_Some [OF _ q] b by (auto simp: buckets_ok_def)
  then have "live t q" "node_contents t q = c" using bucket_live [OF b] by auto
  then have "p = q" using u assms(2-4) by (auto simp: unique_atoms_def)
  then show ?thesis by (simp add: add_atom_def q Let_def)
qed

lemma same_address_iff:
  assumes "ok t E" "live t p" "live t q" "proper (node_contents t p)"
  shows "p = q \<longleftrightarrow> node_contents t p = node_contents t q"
  using assms by (auto simp: atoms_ok_def unique_atoms_def)

end

subsection \<open>Counts and marks\<close>

lemma increment_ok:
  assumes "atoms_ok hash proper t E" "live t p"
  shows "atoms_ok hash proper (increment_count p t) E"
  using assms by (auto simp: increment_count_def atoms_ok_def ephemera_ok_def upd_node_live)

lemma decrement_ok:
  assumes "atoms_ok hash proper t (es @ os)" "live t p" "0 < node_count t p"
  obtains t' es' where "decrement_count p (t, es) = Some (t', es')" "atoms_ok hash proper t' (es' @ os)"
    "\<And>q. live t' q = live t q" "\<And>q. node_contents t' q = node_contents t q"
    "\<And>q. node_count t' q = node_count t q - (if q = p then 1 else 0)"
proof -
  let ?t = "upd_node p (\<lambda>n. n\<lparr>n_count := n_count n - 1\<rparr>) t"
  let ?t' = "upd_node p (\<lambda>n. n\<lparr>markedEphemeral := True\<rparr>) ?t"
  have b: "buckets_ok hash t" "unique_atoms proper t" "ephemera_ok t (es @ os)" using assms(1) by (simp_all add: atoms_ok_def)
  show ?thesis
  proof (cases "node_count t p = 1 \<and> \<not> marked t p")
    case True
    then have "decrement_count p (t, es) = Some (?t', p # es)"
      by (simp add: decrement_count_def AddEphemeralHashNode_def)
    moreover have "ephemera_ok ?t' ((p # es) @ os)"
      using b(3) assms(2) True by (auto simp: ephemera_ok_def upd_node_live)
    ultimately show ?thesis using that b by (simp add: atoms_ok_def upd_node_live)
  next
    case False
    then have "decrement_count p (t, es) = Some (?t, es)" using assms(3) by (auto simp: decrement_count_def Let_def)
    moreover have "ephemera_ok ?t (es @ os)"
      using b(3) assms(3) False by (auto simp: ephemera_ok_def upd_node_live)
    ultimately show ?thesis using that b by (simp add: atoms_ok_def upd_node_live)
  qed
qed

lemma ephemerate_ok:
  assumes "atoms_ok hash proper t (es @ os)" "live t p"
  obtains t' es' where "ephemerate p (t, es) = Some (t', es')" "atoms_ok hash proper t' (es' @ os)"
    "\<And>q. live t' q = live t q" "\<And>q. node_contents t' q = node_contents t q" "\<And>q. node_count t' q = node_count t q"
proof (cases "marked t p")
  case True
  then show ?thesis using that assms(1) by (simp add: ephemerate_def)
next
  case False
  let ?t = "upd_node p (\<lambda>n. n\<lparr>markedEphemeral := True\<rparr>) t"
  have "ephemerate p (t, es) = Some (?t, p # es)"
    using False by (simp add: ephemerate_def AddEphemeralHashNode_def)
  moreover have "atoms_ok hash proper ?t ((p # es) @ os)"
    using assms False by (auto simp: atoms_ok_def ephemera_ok_def upd_node_live)
  ultimately show ?thesis using that by (simp add: upd_node_live)
qed

subsection \<open>Removing ephemeral nodes\<close>

lemma RemoveHashNode_ok:
  assumes "atoms_ok hash proper t (p # E)" "node_count t p = 0"
  obtains t' where "RemoveHashNode p t = Some t'" "atoms_ok hash proper t' E" "nodes t' = nodes t"
    "\<And>q. live t' q \<longleftrightarrow> live t q \<and> q \<noteq> p"
proof -
  have b: "buckets_ok hash t" "unique_atoms proper t" "ephemera_ok t (p # E)" using assms(1) by (simp_all add: atoms_ok_def)
  let ?b = "bucket (nodes t p)"
  let ?t = "t\<lparr>table := (table t)(?b := remove1 p (table t ?b))\<rparr>"
  have p: "live t p" using b(3) by (auto simp: ephemera_ok_def)
  have d: "distinct (table t k)" for k using b(1) by (simp add: buckets_ok_def)
  have l: "live ?t q \<longleftrightarrow> live t q \<and> q \<noteq> p" for q
    using d by (auto simp: live_def)
  have "buckets_ok hash ?t" unfolding buckets_ok_def
    using b(1) d by (auto simp: buckets_ok_def distinct_remove1 split: if_splits)
  moreover have "unique_atoms proper ?t" using b(2) unfolding unique_atoms_def l by simp blast
  moreover have "ephemera_ok ?t E" using b(3) by (auto simp: ephemera_ok_def l)
  ultimately have "atoms_ok hash proper ?t E" by (simp add: atoms_ok_def)
  moreover have "RemoveHashNode p t = Some ?t" using p by (simp add: RemoveHashNode_def live_def Let_def)
  ultimately show ?thesis using that l by simp
qed

lemma RemoveEphemeral_ok:
  assumes "atoms_ok hash proper t (es @ os)"
  shows "\<exists>t'. RemoveEphemeralHashNodes es t = Some (t', []) \<and> atoms_ok hash proper t' os \<and>
    (\<forall>q. live t' q \<longleftrightarrow> live t q \<and> (q \<in> set es \<longrightarrow> 0 < node_count t q)) \<and>
    (\<forall>q. node_contents t' q = node_contents t q \<and> node_count t' q = node_count t q)"
  using assms
proof (induction es arbitrary: t)
  case (Cons p es)
  have eph: "ephemera_ok t ((p # es) @ os)" using Cons.prems by (simp add: atoms_ok_def)
  then have p: "live t p" "0 \<le> node_count t p" "p \<notin> set es" by (auto simp: ephemera_ok_def)
  show ?case
  proof (cases "node_count t p = 0")
    case True
    then obtain t1 where t1: "RemoveHashNode p t = Some t1" "atoms_ok hash proper t1 (es @ os)" "nodes t1 = nodes t"
      "\<And>q. live t1 q \<longleftrightarrow> live t q \<and> q \<noteq> p"
      using RemoveHashNode_ok [of hash proper t p "es @ os"] Cons.prems by auto
    then show ?thesis using Cons.IH [OF t1(2)] True by (auto simp: t1)
  next
    case False
    let ?t = "upd_node p (\<lambda>n. n\<lparr>markedEphemeral := False\<rparr>) t"
    have "atoms_ok hash proper ?t (es @ os)"
      using Cons.prems p False by (auto simp: atoms_ok_def ephemera_ok_def upd_node_live)
    from Cons.IH [OF this] obtain t' where t': "RemoveEphemeralHashNodes es ?t = Some (t', [])" "atoms_ok hash proper t' os"
      "\<And>q. live t' q \<longleftrightarrow> live ?t q \<and> (q \<in> set es \<longrightarrow> 0 < node_count ?t q)"
      "\<And>q. node_contents t' q = node_contents ?t q \<and> node_count t' q = node_count ?t q" by blast
    have "node_count ?t q = node_count t q" "node_contents ?t q = node_contents t q" "live ?t q = live t q" for q
      by (simp_all add: upd_node_live)
    then show ?thesis using t' False p(2) by auto
  qed
qed simp

section \<open>Atomic values and their tables\<close>

text \<open>The contents of the five kinds of nodes. An external address has a type, an \<open>unsigned short\<close>.\<close>

datatype atomKind = SYMBOL_NODE | FLOAT_NODE | INTEGER_NODE | BITMAP_NODE | EXTERNAL_ADDRESS_NODE

datatype atom = Sym string | Flt u64 | Lng int | Bits string | Ext nat nat

fun kind_of :: "atom \<Rightarrow> atomKind" where
  "kind_of (Sym s) = SYMBOL_NODE"
| "kind_of (Flt w) = FLOAT_NODE"
| "kind_of (Lng i) = INTEGER_NODE"
| "kind_of (Bits w) = BITMAP_NODE"
| "kind_of (Ext x ty) = EXTERNAL_ADDRESS_NODE"

fun atom_hash :: "atom \<Rightarrow> u64" where
  "atom_hash (Sym s) = HashSymbol s SYMBOL_HASH_SIZE"
| "atom_hash (Flt w) = HashFloat w FLOAT_HASH_SIZE"
| "atom_hash (Lng i) = HashInteger i INTEGER_HASH_SIZE"
| "atom_hash (Bits w) = HashBitMap w BITMAP_HASH_SIZE"
| "atom_hash (Ext x ty) = HashExternalAddress x EXTERNAL_ADDRESS_HASH_SIZE"

text \<open>The comparison of the search loops; floats are compared with the C operator.\<close>

fun atom_same :: "atom \<Rightarrow> atom \<Rightarrow> bool" where
  "atom_same (Flt v) (Flt w) = double_eq v w"
| "atom_same a b = (a = b)"

fun is_number :: "atom \<Rightarrow> bool" where
  "is_number (Flt w) = (\<not> double_is_nan w)"
| "is_number a = True"

lemma double_parts: "uint (w :: u64) = take_bit 63 (uint w) + 2 ^ 63 * drop_bit 63 (uint w)" "drop_bit 63 (uint w) \<in> {0, 1}"
proof -
  have "uint w < 2 ^ LENGTH(64)" by (rule unsigned_less)
  moreover have "0 \<le> uint w" by simp
  ultimately show "drop_bit 63 (uint w) \<in> {0, 1}" by (auto simp: drop_bit_eq_div)
  show "uint w = take_bit 63 (uint w) + 2 ^ 63 * drop_bit 63 (uint w)"
    by (simp add: take_bit_eq_mod drop_bit_eq_div)
qed

lemma double_key_eq:
  assumes "double_key a = double_key b"
  shows "a = b \<or> {a, b} = {0, 2 ^ 63}"
proof -
  have sign: "x = y \<or> x = 0 \<and> y = 2 ^ 63 \<or> x = 2 ^ 63 \<and> y = 0"
    if "x = m + 2 ^ 63 * s" "s \<in> {0, 1}" "y = n + 2 ^ 63 * r" "r \<in> {0, 1}" "0 \<le> m" "0 \<le> n"
      "(if s = 0 then m else - m) = (if r = 0 then n else - n)" for x y m n r s :: int
    using that by (auto split: if_splits)
  consider "uint a = uint b" | "uint a = 0" "uint b = 2 ^ 63" | "uint a = 2 ^ 63" "uint b = 0"
    using sign [OF double_parts [of a] double_parts [of b]] assms unfolding double_key_def Let_def by auto
  then show ?thesis
  proof cases
    case 1 then show ?thesis by (simp add: word_uint_eq_iff)
  next
    case 2
    then have "a = 0" "b = 2 ^ 63" by (simp_all add: word_uint_eq_iff)
    then show ?thesis by simp
  next
    case 3
    then have "a = 2 ^ 63" "b = 0" by (simp_all add: word_uint_eq_iff)
    then show ?thesis by auto
  qed
qed

lemma zero_hashes: "HashFloat 0 FLOAT_HASH_SIZE = 0" "HashFloat (2 ^ 63) FLOAT_HASH_SIZE = 3968"
  by code_simp+

text \<open>The two zeros are equal numbers with different hash values, and a NaN is equal to nothing.\<close>

lemma float_same_hash:
  assumes e: "double_eq c d" and h: "HashFloat c FLOAT_HASH_SIZE = HashFloat d FLOAT_HASH_SIZE"
  shows "c = d"
proof -
  consider "c = d" | "c = 0" "d = 2 ^ 63" | "c = 2 ^ 63" "d = 0"
    using double_key_eq [of c d] e by (auto simp: double_eq_def doubleton_eq_iff)
  then show "c = d" using h zero_hashes by cases simp_all
qed

interpretation atoms: atom_kind atom_hash atom_same is_number
proof unfold_locales
  fix c d
  assume "atom_same c d" "atom_hash c = atom_hash d"
  then show "c = d" by (cases "(c, d)" rule: atom_same.cases) (auto intro: float_same_hash)
next
  fix c
  assume "is_number c"
  then show "atom_same c c" by (cases c) (simp_all add: double_eq_def)
qed

end
