(* ===== verification/Garbage_Frames.thy ===== *)
theory Garbage_Frames
  imports Atom_Tables "HOL-Library.Monad_Syntax"
begin

text \<open>
  Garbage frames, \<open>utility.c\<close>, with the functions of \<open>symbol.c\<close>, \<open>multifld.c\<close> and \<open>evaluatn.c\<close> that use them. A
  frame lists the atomic values and multifields that were made, or lost their last use, while it was the
  current one. Leaving a frame frees what nothing uses; the value that is returned through it is kept.
  Reading a multifield that has been freed is \<open>None\<close>, like \<open>SystemError\<close>.
\<close>

section \<open>Values, frames, environment\<close>

text \<open>A reference to a node. Facts and instances have counts of their own and are not in these tables.\<close>

datatype valueRef = Node atomKind addr | OtherRef nat

datatype dataObject = Single valueRef | MultifieldValue pointer

record segment =
  busyCount :: int
  theFields :: "valueRef list"

record garbageFrame =
  dirty :: bool
  topLevel :: bool
  ephemerals :: "atomKind \<Rightarrow> addr list"
  ListOfMultifields :: "addr list"
  LastMultifield :: pointer

text \<open>The current frame is the first one; its \<open>priorFrame\<close> is the next.\<close>

record atom_env =
  tables :: "atomKind \<Rightarrow> atom atomTable"
  segments :: "addr \<Rightarrow> segment option"
  freeSegment :: addr
  frames :: "garbageFrame list"
  TrueSymbolHN :: addr
  FalseSymbolHN :: addr
  PositiveInfinity :: addr
  NegativeInfinity :: addr
  Zero :: addr

definition empty_frame :: garbageFrame where
  "empty_frame = \<lparr>dirty = False, topLevel = False, ephemerals = (\<lambda>k. []), ListOfMultifields = [], LastMultifield = None\<rparr>"

definition push_frame :: "atom_env \<Rightarrow> atom_env" where
  "push_frame s = s\<lparr>frames := empty_frame # frames s\<rparr>"

abbreviation CurrentGarbageFrame :: "atom_env \<Rightarrow> garbageFrame" where "CurrentGarbageFrame s \<equiv> hd (frames s)"

definition upd_frame :: "(garbageFrame \<Rightarrow> garbageFrame) \<Rightarrow> atom_env \<Rightarrow> atom_env" where
  "upd_frame u s = s\<lparr>frames := u (hd (frames s)) # tl (frames s)\<rparr>"

text \<open>An operation on the table of a kind and the list of that kind in the current frame; when it puts
  a node on the list the frame becomes dirty.\<close>

definition set_kind :: "atomKind \<Rightarrow> atom atomTable \<times> addr list \<Rightarrow> atom_env \<Rightarrow> atom_env" where
  "set_kind k te s = (case te of (t, es) \<Rightarrow> upd_frame (\<lambda>g. g\<lparr>ephemerals := (ephemerals g)(k := es)\<rparr>) (s\<lparr>tables := (tables s)(k := t)\<rparr>))"

definition set_dirty :: "atomKind \<Rightarrow> addr list \<Rightarrow> atom_env \<Rightarrow> atom_env" where
  "set_dirty k es s = upd_frame (\<lambda>g. g\<lparr>dirty := dirty g \<or> ephemerals g k \<noteq> es\<rparr>) s"

abbreviation kind_state :: "atomKind \<Rightarrow> atom_env \<Rightarrow> atom atomTable \<times> addr list" where
  "kind_state k s \<equiv> (tables s k, ephemerals (CurrentGarbageFrame s) k)"

definition on_kind ::
  "atomKind \<Rightarrow> (atom atomTable \<times> addr list \<Rightarrow> (atom atomTable \<times> addr list) option) \<Rightarrow> atom_env \<Rightarrow> atom_env option" where
  "on_kind k f s = do {
     te \<leftarrow> f (kind_state k s);
     Some (set_dirty k (ephemerals (CurrentGarbageFrame s) k) (set_kind k te s)) }"

section \<open>Adding atomic values\<close>

definition add_value :: "atom \<Rightarrow> atom_env \<Rightarrow> (addr \<times> atom_env) option" where
  "add_value c s = do {
     (p, te) \<leftarrow> add_atom atom_hash atom_same c (kind_state (kind_of c) s);
     Some (p, set_dirty (kind_of c) (ephemerals (CurrentGarbageFrame s) (kind_of c)) (set_kind (kind_of c) te s)) }"

definition EnvAddSymbol :: "string option \<Rightarrow> atom_env \<Rightarrow> (addr \<times> atom_env) option" where
  "EnvAddSymbol str s = (case str of None \<Rightarrow> None | Some w \<Rightarrow> add_value (Sym w) s)"

definition EnvAddDouble :: "u64 \<Rightarrow> atom_env \<Rightarrow> (addr \<times> atom_env) option" where
  "EnvAddDouble number s = add_value (Flt number) s"

definition EnvAddLong :: "int \<Rightarrow> atom_env \<Rightarrow> (addr \<times> atom_env) option" where
  "EnvAddLong number s = add_value (Lng number) s"

text \<open>The size is kept as an \<open>unsigned short\<close>; a bit map that is longer would be compared and freed with the wrong
  size (\<open>None\<close>).\<close>

definition EnvAddBitMap :: "string option \<Rightarrow> atom_env \<Rightarrow> (addr \<times> atom_env) option" where
  "EnvAddBitMap theBitMap s =
     (case theBitMap of None \<Rightarrow> None | Some w \<Rightarrow> if length w < 65536 then add_value (Bits w) s else None)"

definition EnvAddExternalAddress :: "nat \<Rightarrow> nat \<Rightarrow> atom_env \<Rightarrow> (addr \<times> atom_env) option" where
  "EnvAddExternalAddress x theType s = add_value (Ext x (theType mod 65536)) s"

definition FindSymbolHN :: "string \<Rightarrow> atom_env \<Rightarrow> pointer" where
  "FindSymbolHN str s =
     (let t = tables s SYMBOL_NODE in find_node atom_same t (Sym str) (table t (HashSymbol str SYMBOL_HASH_SIZE)))"

definition FindLongHN :: "int \<Rightarrow> atom_env \<Rightarrow> pointer" where
  "FindLongHN theLong s =
     (let t = tables s INTEGER_NODE in find_node atom_same t (Lng theLong) (table t (HashInteger theLong INTEGER_HASH_SIZE)))"

section \<open>Counts\<close>

definition increment_atom :: "atomKind \<Rightarrow> addr \<Rightarrow> atom_env \<Rightarrow> atom_env" where
  "increment_atom k p s = s\<lparr>tables := (tables s)(k := increment_count p (tables s k))\<rparr>"

definition DecrementSymbolCount :: "addr \<Rightarrow> atom_env \<Rightarrow> atom_env option" where
  "DecrementSymbolCount p = on_kind SYMBOL_NODE (decrement_count p)"

definition DecrementFloatCount :: "addr \<Rightarrow> atom_env \<Rightarrow> atom_env option" where
  "DecrementFloatCount p = on_kind FLOAT_NODE (decrement_count p)"

definition DecrementIntegerCount :: "addr \<Rightarrow> atom_env \<Rightarrow> atom_env option" where
  "DecrementIntegerCount p = on_kind INTEGER_NODE (decrement_count p)"

definition DecrementBitMapCount :: "addr \<Rightarrow> atom_env \<Rightarrow> atom_env option" where
  "DecrementBitMapCount p = on_kind BITMAP_NODE (decrement_count p)"

definition DecrementExternalAddressCount :: "addr \<Rightarrow> atom_env \<Rightarrow> atom_env option" where
  "DecrementExternalAddressCount p = on_kind EXTERNAL_ADDRESS_NODE (decrement_count p)"

text \<open>\<open>AtomInstall\<close> and \<open>AtomDeinstall\<close> on the values in the tables.\<close>

fun atom_install :: "valueRef \<Rightarrow> atom_env \<Rightarrow> atom_env" where
  "atom_install (Node k p) s = increment_atom k p s"
| "atom_install (OtherRef n) s = s"

fun atom_deinstall :: "valueRef \<Rightarrow> atom_env \<Rightarrow> atom_env option" where
  "atom_deinstall (Node SYMBOL_NODE p) s = DecrementSymbolCount p s"
| "atom_deinstall (Node FLOAT_NODE p) s = DecrementFloatCount p s"
| "atom_deinstall (Node INTEGER_NODE p) s = DecrementIntegerCount p s"
| "atom_deinstall (Node BITMAP_NODE p) s = DecrementBitMapCount p s"
| "atom_deinstall (Node EXTERNAL_ADDRESS_NODE p) s = DecrementExternalAddressCount p s"
| "atom_deinstall (OtherRef n) s = Some s"

text \<open>\<open>EphemerateValue\<close> has no case for bit maps.\<close>

fun EphemerateAtom :: "valueRef \<Rightarrow> atom_env \<Rightarrow> atom_env option" where
  "EphemerateAtom (Node k p) s = (if k = BITMAP_NODE then Some s else on_kind k (ephemerate p) s)"
| "EphemerateAtom (OtherRef n) s = Some s"

primrec on_fields :: "(valueRef \<Rightarrow> atom_env \<Rightarrow> atom_env option) \<Rightarrow> valueRef list \<Rightarrow> atom_env \<Rightarrow> atom_env option" where
  "on_fields f [] s = Some s"
| "on_fields f (v # vs) s = do { s1 \<leftarrow> f v s; on_fields f vs s1 }"

definition add_busy :: "addr \<Rightarrow> int \<Rightarrow> atom_env \<Rightarrow> atom_env" where
  "add_busy p d s = s\<lparr>segments := (segments s)(p := map_option (\<lambda>g. g\<lparr>busyCount := busyCount g + d\<rparr>) (segments s p))\<rparr>"

definition multifield_install :: "pointer \<Rightarrow> atom_env \<Rightarrow> atom_env option" where
  "multifield_install theSegment s =
     (case theSegment of None \<Rightarrow> Some s
      | Some p \<Rightarrow> do { g \<leftarrow> segments s p; on_fields (\<lambda>v s. Some (atom_install v s)) (theFields g) (add_busy p 1 s) })"

definition multifield_deinstall :: "pointer \<Rightarrow> atom_env \<Rightarrow> atom_env option" where
  "multifield_deinstall theSegment s =
     (case theSegment of None \<Rightarrow> Some s
      | Some p \<Rightarrow> do { g \<leftarrow> segments s p; on_fields atom_deinstall (theFields g) (add_busy p (- 1) s) })"

definition EphemerateMultifield :: "pointer \<Rightarrow> atom_env \<Rightarrow> atom_env option" where
  "EphemerateMultifield theSegment s =
     (case theSegment of None \<Rightarrow> Some s | Some p \<Rightarrow> do { g \<leftarrow> segments s p; on_fields EphemerateAtom (theFields g) s })"

definition ValueInstall :: "dataObject \<Rightarrow> atom_env \<Rightarrow> atom_env option" where
  "ValueInstall v s = (case v of MultifieldValue p \<Rightarrow> multifield_install p s | Single r \<Rightarrow> Some (atom_install r s))"

definition ValueDeinstall :: "dataObject \<Rightarrow> atom_env \<Rightarrow> atom_env option" where
  "ValueDeinstall v s = (case v of MultifieldValue p \<Rightarrow> multifield_deinstall p s | Single r \<Rightarrow> atom_deinstall r s)"

definition EphemerateValue :: "dataObject \<Rightarrow> atom_env \<Rightarrow> atom_env option" where
  "EphemerateValue v s = (case v of MultifieldValue p \<Rightarrow> EphemerateMultifield p s | Single r \<Rightarrow> EphemerateAtom r s)"

section \<open>Multifields of a frame\<close>

text \<open>The fields of a new multifield are set by the caller right after; here they are an argument.\<close>

definition AddToMultifieldList :: "addr \<Rightarrow> atom_env \<Rightarrow> atom_env" where
  "AddToMultifieldList p s =
     upd_frame (\<lambda>g. g\<lparr>ListOfMultifields := p # ListOfMultifields g, dirty := True,
       LastMultifield := (if LastMultifield g = None then Some p else LastMultifield g)\<rparr>) s"

definition CreateMultifield2 :: "valueRef list \<Rightarrow> atom_env \<Rightarrow> addr \<times> atom_env" where
  "CreateMultifield2 vals s =
     (let p = freeSegment s
      in (p, s\<lparr>segments := (segments s)(p := Some \<lparr>busyCount = 0, theFields = vals\<rparr>), freeSegment := p + 1\<rparr>))"

definition EnvCreateMultifield :: "valueRef list \<Rightarrow> atom_env \<Rightarrow> addr \<times> atom_env" where
  "EnvCreateMultifield vals s = (case CreateMultifield2 vals s of (p, s1) \<Rightarrow> (p, AddToMultifieldList p s1))"

text \<open>The loop of \<open>FlushMultifields\<close>: the rest of the list, \<open>lastPtr\<close> and \<open>LastMultifield\<close>; the segments are freed.\<close>

fun flush_loop :: "(addr \<Rightarrow> segment option) \<Rightarrow> addr list \<Rightarrow> pointer \<Rightarrow> pointer \<Rightarrow>
  (addr list \<times> pointer \<times> (addr \<Rightarrow> segment option)) option" where
  "flush_loop segs [] lastPtr lastMulti = Some ([], lastMulti, segs)"
| "flush_loop segs (p # ps) lastPtr lastMulti =
     (case segs p of
        None \<Rightarrow> None
      | Some g \<Rightarrow>
          if busyCount g = 0
          then flush_loop (segs(p := None)) ps lastPtr (if ps = [] then lastPtr else lastMulti)
          else (case flush_loop segs ps (Some p) lastMulti of
                  None \<Rightarrow> None | Some (qs, l, segs') \<Rightarrow> Some (p # qs, l, segs')))"

definition FlushMultifields :: "atom_env \<Rightarrow> atom_env option" where
  "FlushMultifields s = do {
     (ps, l, segs) \<leftarrow> flush_loop (segments s) (ListOfMultifields (CurrentGarbageFrame s)) None (LastMultifield (CurrentGarbageFrame s));
     Some (upd_frame (\<lambda>g. g\<lparr>ListOfMultifields := ps, LastMultifield := l\<rparr>) (s\<lparr>segments := segs\<rparr>)) }"

section \<open>Cleaning and leaving a frame\<close>

definition remove_kind :: "atomKind \<Rightarrow> atom_env \<Rightarrow> atom_env option" where
  "remove_kind k s = do {
     te \<leftarrow> RemoveEphemeralHashNodes (ephemerals (CurrentGarbageFrame s) k) (tables s k);
     Some (set_kind k te s) }"

text \<open>The \<open>discardFunction\<close> of an external address acts outside of this state.\<close>

definition RemoveEphemeralAtoms :: "atom_env \<Rightarrow> atom_env option" where
  "RemoveEphemeralAtoms s =
     (if \<not> dirty (CurrentGarbageFrame s) then Some s
      else do {
        s1 \<leftarrow> remove_kind SYMBOL_NODE s;
        s2 \<leftarrow> remove_kind FLOAT_NODE s1;
        s3 \<leftarrow> remove_kind INTEGER_NODE s2;
        s4 \<leftarrow> remove_kind BITMAP_NODE s3;
        remove_kind EXTERNAL_ADDRESS_NODE s4 })"

text \<open>The functions that other components have registered with \<open>AddCleanupFunction\<close>.\<close>

type_synonym cleanup = "atom_env \<Rightarrow> atom_env option"

definition with_value :: "(dataObject \<Rightarrow> atom_env \<Rightarrow> atom_env option) \<Rightarrow> dataObject option \<Rightarrow> atom_env \<Rightarrow> atom_env option" where
  "with_value f returnValue s = (case returnValue of None \<Rightarrow> Some s | Some v \<Rightarrow> f v s)"

definition all_empty :: "garbageFrame \<Rightarrow> bool" where
  "all_empty g \<longleftrightarrow> list_all (\<lambda>k. ephemerals g k = []) [FLOAT_NODE, INTEGER_NODE, SYMBOL_NODE, BITMAP_NODE, EXTERNAL_ADDRESS_NODE] \<and>
     LastMultifield g = None"

definition collect :: "cleanup \<Rightarrow> atom_env \<Rightarrow> atom_env option" where
  "collect CallCleanupFunctions s = do { s1 \<leftarrow> CallCleanupFunctions s; s2 \<leftarrow> RemoveEphemeralAtoms s1; FlushMultifields s2 }"

definition CleanCurrentGarbageFrame :: "cleanup \<Rightarrow> dataObject option \<Rightarrow> atom_env \<Rightarrow> atom_env option" where
  "CleanCurrentGarbageFrame CallCleanupFunctions returnValue s =
     (if \<not> dirty (CurrentGarbageFrame s) then Some s
      else do {
        s1 \<leftarrow> with_value ValueInstall returnValue s;
        s2 \<leftarrow> collect CallCleanupFunctions s1;
        s3 \<leftarrow> with_value ValueDeinstall returnValue s2;
        Some (if all_empty (CurrentGarbageFrame s3) then upd_frame (\<lambda>g. g\<lparr>dirty := False\<rparr>) s3 else s3) })"

text \<open>The multifields that are left go to the end of the prior frame's list, behind its \<open>LastMultifield\<close> (a null pointer
  there would be followed: \<open>None\<close>).\<close>

definition append_after :: "addr list \<Rightarrow> pointer \<Rightarrow> addr list \<Rightarrow> addr list option" where
  "append_after xs l ys = map_option (\<lambda>p. takeWhile (\<lambda>x. x \<noteq> p) xs @ p # ys) l"

definition move_multifields :: "garbageFrame \<Rightarrow> garbageFrame \<Rightarrow> garbageFrame option" where
  "move_multifields newGarbageFrame old =
     (if ListOfMultifields newGarbageFrame = [] then Some old
      else do {
        ps \<leftarrow> (if ListOfMultifields old = [] then Some (ListOfMultifields newGarbageFrame)
              else append_after (ListOfMultifields old) (LastMultifield old) (ListOfMultifields newGarbageFrame));
        Some (old\<lparr>ListOfMultifields := ps, LastMultifield := LastMultifield newGarbageFrame, dirty := True\<rparr>) })"

definition RestorePriorGarbageFrame :: "cleanup \<Rightarrow> dataObject option \<Rightarrow> atom_env \<Rightarrow> atom_env option" where
  "RestorePriorGarbageFrame CallCleanupFunctions returnValue s = do {
     s1 \<leftarrow> (if dirty (CurrentGarbageFrame s)
            then do { s0 \<leftarrow> with_value ValueInstall returnValue s; collect CallCleanupFunctions s0 }
            else Some s);
     let newGarbageFrame = CurrentGarbageFrame s1;
     let s2 = s1\<lparr>frames := tl (frames s1)\<rparr>;
     s3 \<leftarrow> (if dirty newGarbageFrame
            then do {
              old \<leftarrow> move_multifields newGarbageFrame (CurrentGarbageFrame s2);
              with_value ValueDeinstall returnValue (upd_frame (\<lambda>g. old) s2) }
            else Some s2);
     with_value EphemerateValue returnValue s3 }"

section \<open>Initialisation\<close>

definition empty_table :: "atom atomTable" where
  "empty_table = \<lparr>nodes = (\<lambda>p. \<lparr>n_count = 0, permanent = False, markedEphemeral = False, bucket = 0, contents = Sym []\<rparr>),
     table = (\<lambda>b. []), freeNode = 0\<rparr>"

definition InitializeUtilityData :: atom_env where
  "InitializeUtilityData = \<lparr>tables = (\<lambda>k. empty_table), segments = (\<lambda>p. None), freeSegment = 0,
     frames = [empty_frame\<lparr>topLevel := True\<rparr>], TrueSymbolHN = 0, FalseSymbolHN = 0, PositiveInfinity = 0,
     NegativeInfinity = 0, Zero = 0\<rparr>"

definition add_symbol_used :: "string \<Rightarrow> atom_env \<Rightarrow> (addr \<times> atom_env) option" where
  "add_symbol_used str s = do { (p, s1) \<leftarrow> EnvAddSymbol (Some str) s; Some (p, increment_atom SYMBOL_NODE p s1) }"

definition InitializeAtomTables :: "atom_env \<Rightarrow> atom_env option" where
  "InitializeAtomTables s = do {
     (p1, s1) \<leftarrow> add_symbol_used ''TRUE'' (s\<lparr>tables := (\<lambda>k. empty_table)\<rparr>);
     (p2, s2) \<leftarrow> add_symbol_used ''FALSE'' s1;
     (p3, s3) \<leftarrow> add_symbol_used ''+oo'' s2;
     (p4, s4) \<leftarrow> add_symbol_used ''-oo'' s3;
     (p5, s5) \<leftarrow> EnvAddLong 0 s4;
     Some ((increment_atom INTEGER_NODE p5 s5)\<lparr>TrueSymbolHN := p1, FalseSymbolHN := p2, PositiveInfinity := p3,
       NegativeInfinity := p4, Zero := p5\<rparr>) }"

end
