(* ===== verification/Garbage_Invariant.thy ===== *)
theory Garbage_Invariant
  imports Garbage_Frames
begin

text \<open>
  The invariant of the tables and frames: every table satisfies \<open>atoms_ok\<close> with the ephemeral lists of all frames
  together, only a dirty frame has something on its lists, \<open>LastMultifield\<close> is the end of the list of multifields,
  and no multifield is on two lists or freed while it is on one. Every operation keeps it.
\<close>

section \<open>Invariant\<close>

definition lists :: "atomKind \<Rightarrow> atom_env \<Rightarrow> addr list" where
  "lists k s = concat (map (\<lambda>g. ephemerals g k) (frames s))"

definition multis :: "atom_env \<Rightarrow> addr list" where
  "multis s = concat (map ListOfMultifields (frames s))"

definition last_of :: "addr list \<Rightarrow> pointer" where
  "last_of xs = (if xs = [] then None else Some (last xs))"

definition frame_ok :: "garbageFrame \<Rightarrow> bool" where
  "frame_ok g \<longleftrightarrow> (\<not> dirty g \<longrightarrow> (\<forall>k. ephemerals g k = []) \<and> ListOfMultifields g = []) \<and>
     LastMultifield g = last_of (ListOfMultifields g)"

definition segments_ok :: "atom_env \<Rightarrow> bool" where
  "segments_ok s \<longleftrightarrow> distinct (multis s) \<and> (\<forall>p \<in> set (multis s). segments s p \<noteq> None) \<and>
     (\<forall>p. segments s p \<noteq> None \<longrightarrow> p < freeSegment s)"

definition gc_ok :: "atom_env \<Rightarrow> bool" where
  "gc_ok s \<longleftrightarrow> frames s \<noteq> [] \<and> (\<forall>k. atoms_ok atom_hash is_number (tables s k) (lists k s)) \<and>
     (\<forall>g \<in> set (frames s). frame_ok g) \<and> segments_ok s"

text \<open>What is seen of a node.\<close>

abbreviation node_live :: "atom_env \<Rightarrow> atomKind \<Rightarrow> addr \<Rightarrow> bool" where "node_live s k \<equiv> live (tables s k)"
abbreviation count_of :: "atom_env \<Rightarrow> atomKind \<Rightarrow> addr \<Rightarrow> int" where "count_of s k \<equiv> node_count (tables s k)"
abbreviation value_of :: "atom_env \<Rightarrow> atomKind \<Rightarrow> addr \<Rightarrow> atom" where "value_of s k \<equiv> node_contents (tables s k)"

definition multi_part :: "garbageFrame \<Rightarrow> bool \<times> addr list \<times> pointer" where
  "multi_part g = (topLevel g, ListOfMultifields g, LastMultifield g)"

text \<open>A change of counts only.\<close>

definition counts_changed :: "(atomKind \<Rightarrow> addr \<Rightarrow> int) \<Rightarrow> atom_env \<Rightarrow> atom_env \<Rightarrow> bool" where
  "counts_changed d s s' \<longleftrightarrow>
     (\<forall>k q. node_live s' k q = node_live s k q \<and> value_of s' k q = value_of s k q \<and> count_of s' k q = count_of s k q + d k q) \<and>
     segments s' = segments s \<and> freeSegment s' = freeSegment s \<and> map multi_part (frames s') = map multi_part (frames s)"

lemma counts_changed_refl: "counts_changed (\<lambda>k q. 0) s s"
  by (simp add: counts_changed_def)

lemma counts_changed_trans:
  assumes "counts_changed d s s1" "counts_changed e s1 s'" "\<And>k q. f k q = d k q + e k q"
  shows "counts_changed f s s'"
  using assms by (simp add: counts_changed_def)

lemma lists_Cons: "frames s = g # fs \<Longrightarrow> lists k s = ephemerals g k @ concat (map (\<lambda>g. ephemerals g k) fs)"
  by (simp add: lists_def)

lemma multis_cong: "map multi_part (frames s') = map multi_part (frames s) \<Longrightarrow> multis s' = multis s"
proof -
  have m: "multis s = concat (map (\<lambda>m. fst (snd m)) (map multi_part (frames s)))" for s
    by (simp add: multis_def multi_part_def comp_def)
  show "map multi_part (frames s') = map multi_part (frames s) \<Longrightarrow> multis s' = multis s" by (simp only: m)
qed

section \<open>One kind of atom\<close>

text \<open>An operation that keeps \<open>atoms_ok\<close> of one table with its list.\<close>

lemma on_kind_ok:
  assumes ok: "gc_ok s" and f: "f (kind_state k s) = Some (t', es')"
    and keeps: "\<And>os. atoms_ok atom_hash is_number (tables s k) (ephemerals (CurrentGarbageFrame s) k @ os) \<Longrightarrow> atoms_ok atom_hash is_number t' (es' @ os)"
  obtains s' where "on_kind k f s = Some s'" "gc_ok s'" "tables s' = (tables s)(k := t')" "segments s' = segments s"
    "freeSegment s' = freeSegment s" "map multi_part (frames s') = map multi_part (frames s)"
proof -
  obtain g fs where fr: "frames s = g # fs" using ok by (auto simp: gc_ok_def neq_Nil_conv)
  let ?g = "g\<lparr>ephemerals := (ephemerals g)(k := es'), dirty := dirty g \<or> es' \<noteq> ephemerals g k\<rparr>"
  let ?s = "s\<lparr>tables := (tables s)(k := t'), frames := ?g # fs\<rparr>"
  have run: "on_kind k f s = Some ?s"
    using f fr by (simp add: on_kind_def set_dirty_def set_kind_def upd_frame_def)
  have l: "lists j ?s = (if j = k then es' @ concat (map (\<lambda>g. ephemerals g k) fs) else lists j s)" for j
    by (simp add: lists_def fr)
  have m: "map multi_part (frames ?s) = map multi_part (frames s)" by (simp add: fr multi_part_def)
  have "atoms_ok atom_hash is_number (tables ?s j) (lists j ?s)" for j
    using ok keeps [of "concat (map (\<lambda>g. ephemerals g k) fs)"] unfolding l by (auto simp: gc_ok_def lists_Cons [OF fr] fr)
  moreover have "frame_ok ?g" using ok fr by (auto simp: gc_ok_def frame_ok_def)
  moreover have "segments_ok ?s" using ok multis_cong [OF m] by (simp add: gc_ok_def segments_ok_def)
  ultimately have "gc_ok ?s" using ok fr unfolding gc_ok_def by simp
  then show ?thesis using that [OF run] m by simp
qed

lemma atoms_current:
  assumes "gc_ok s"
  obtains os where "atoms_ok atom_hash is_number (tables s k) (ephemerals (CurrentGarbageFrame s) k @ os)"
  using assms by (cases "frames s") (auto simp: gc_ok_def lists_Cons)

lemma decrement_kind_ok:
  assumes ok: "gc_ok s" and p: "node_live s k p" "0 < count_of s k p"
  obtains s' where "on_kind k (decrement_count p) s = Some s'" "gc_ok s'"
    "counts_changed (\<lambda>j q. if j = k \<and> q = p then - 1 else 0) s s'"
proof -
  let ?es = "ephemerals (CurrentGarbageFrame s) k"
  obtain os where a: "atoms_ok atom_hash is_number (tables s k) (?es @ os)" using atoms_current [OF ok] by blast
  from decrement_ok [OF a p] obtain t' es' where d: "decrement_count p (kind_state k s) = Some (t', es')"
    and t': "\<And>q. live t' q = node_live s k q" "\<And>q. node_contents t' q = value_of s k q"
    "\<And>q. node_count t' q = count_of s k q - (if q = p then 1 else 0)"
    by (metis (no_types, lifting))
  have "atoms_ok atom_hash is_number t' (es' @ os)"
    if "atoms_ok atom_hash is_number (tables s k) (?es @ os)" for os
    using decrement_ok [OF that p] d by (metis option.inject prod.inject)
  from on_kind_ok [where f = "decrement_count p", OF ok d this] obtain s' where "on_kind k (decrement_count p) s = Some s'" "gc_ok s'"
    "tables s' = (tables s)(k := t')" "segments s' = segments s" "freeSegment s' = freeSegment s"
    "map multi_part (frames s') = map multi_part (frames s)" by blast
  moreover from this have "counts_changed (\<lambda>j q. if j = k \<and> q = p then - 1 else 0) s s'"
    using t' by (simp add: counts_changed_def)
  ultimately show ?thesis using that by blast
qed

lemma ephemerate_kind_ok:
  assumes ok: "gc_ok s" and p: "node_live s k p"
  obtains s' where "on_kind k (ephemerate p) s = Some s'" "gc_ok s'" "counts_changed (\<lambda>j q. 0) s s'"
proof -
  let ?es = "ephemerals (CurrentGarbageFrame s) k"
  obtain os where a: "atoms_ok atom_hash is_number (tables s k) (?es @ os)" using atoms_current [OF ok] by blast
  from ephemerate_ok [OF a p] obtain t' es' where d: "ephemerate p (kind_state k s) = Some (t', es')"
    and t': "\<And>q. live t' q = node_live s k q" "\<And>q. node_contents t' q = value_of s k q" "\<And>q. node_count t' q = count_of s k q"
    by metis
  have "atoms_ok atom_hash is_number t' (es' @ os)"
    if "atoms_ok atom_hash is_number (tables s k) (?es @ os)" for os
    using ephemerate_ok [OF that p] d by (metis option.inject prod.inject)
  from on_kind_ok [where f = "ephemerate p", OF ok d this] obtain s' where "on_kind k (ephemerate p) s = Some s'" "gc_ok s'"
    "tables s' = (tables s)(k := t')" "segments s' = segments s" "freeSegment s' = freeSegment s"
    "map multi_part (frames s') = map multi_part (frames s)" by blast
  moreover from this have "counts_changed (\<lambda>j q. 0) s s'"
    using t' by (simp add: counts_changed_def)
  ultimately show ?thesis using that by blast
qed

lemma increment_atom_ok:
  assumes ok: "gc_ok s" and p: "node_live s k p"
  shows "gc_ok (increment_atom k p s)" "counts_changed (\<lambda>j q. if j = k \<and> q = p then 1 else 0) s (increment_atom k p s)"
proof -
  have "atoms_ok atom_hash is_number (tables (increment_atom k p s) j) (lists j s)" for j
    using ok increment_ok [OF _ p] by (auto simp: gc_ok_def increment_atom_def)
  then show "gc_ok (increment_atom k p s)"
    using ok by (simp add: gc_ok_def segments_ok_def multis_def lists_def increment_atom_def)
  show "counts_changed (\<lambda>j q. if j = k \<and> q = p then 1 else 0) s (increment_atom k p s)"
    by (simp add: counts_changed_def increment_atom_def increment_count_def upd_node_live)
qed

section \<open>Fields and values\<close>

definition uses :: "valueRef list \<Rightarrow> atomKind \<Rightarrow> addr \<Rightarrow> int" where
  "uses vs k p = int (count_list vs (Node k p))"

definition refs_live :: "valueRef list \<Rightarrow> atom_env \<Rightarrow> bool" where
  "refs_live vs s \<longleftrightarrow> (\<forall>k p. Node k p \<in> set vs \<longrightarrow> node_live s k p)"

lemma atom_deinstall_kind: "atom_deinstall (Node k p) s = on_kind k (decrement_count p) s"
  by (cases k) (simp_all add: DecrementSymbolCount_def DecrementFloatCount_def DecrementIntegerCount_def
      DecrementBitMapCount_def DecrementExternalAddressCount_def)

lemma uses_nonneg [simp]: "0 \<le> uses vs k p" by (simp add: uses_def)

lemma uses_Cons: "uses (v # vs) k p = uses [v] k p + uses vs k p" by (simp add: uses_def)

lemma uses_single: "uses [Node j q] k p = (if k = j \<and> p = q then 1 else 0)" "uses [OtherRef n] k p = 0"
  by (auto simp: uses_def)

lemma uses_pos: "0 < uses vs k p \<longleftrightarrow> Node k p \<in> set vs"
  unfolding uses_def using count_list_0_iff [of vs "Node k p"] by linarith

text \<open>Operations that change the counts of the fields by \<open>c\<close> each; to decrement they need uses to take away.\<close>

definition may_change :: "int \<Rightarrow> valueRef list \<Rightarrow> atom_env \<Rightarrow> bool" where
  "may_change c vs s \<longleftrightarrow> refs_live vs s \<and> (c < 0 \<longrightarrow> (\<forall>k p. uses vs k p \<le> count_of s k p \<or> Node k p \<notin> set vs))"

definition changes :: "int \<Rightarrow> (valueRef \<Rightarrow> atom_env \<Rightarrow> atom_env option) \<Rightarrow> bool" where
  "changes c f \<longleftrightarrow> (\<forall>v s. gc_ok s \<and> may_change c [v] s \<longrightarrow>
     (\<exists>s'. f v s = Some s' \<and> gc_ok s' \<and> counts_changed (\<lambda>k p. c * uses [v] k p) s s'))"

lemma may_change_first: "may_change c (v # vs) s \<Longrightarrow> may_change c [v] s"
  using uses_Cons [of v vs] uses_nonneg [of vs] unfolding may_change_def refs_live_def
  by (smt (verit) list.set_intros insert_iff list.set empty_iff)

lemma may_change_rest:
  assumes "may_change c (v # vs) s" "counts_changed (\<lambda>k p. c * uses [v] k p) s s1" "- 1 \<le> c"
  shows "may_change c vs s1"
proof -
  have "uses vs k p \<le> count_of s1 k p" if "c < 0" "Node k p \<in> set vs" for k p
  proof -
    have "c = - 1" using assms(3) that(1) by simp
    then have "count_of s1 k p = count_of s k p - uses [v] k p" using assms(2) by (simp add: counts_changed_def)
    moreover have "uses (v # vs) k p \<le> count_of s k p" using assms(1) that by (auto simp: may_change_def)
    ultimately show ?thesis using uses_Cons [of v vs k p] by linarith
  qed
  then show ?thesis using assms(1,2) by (auto simp: may_change_def refs_live_def counts_changed_def)
qed

lemma on_fields_ok:
  assumes "changes c f" "- 1 \<le> c" "gc_ok s" "may_change c vs s"
  shows "\<exists>s'. on_fields f vs s = Some s' \<and> gc_ok s' \<and> counts_changed (\<lambda>k p. c * uses vs k p) s s'"
  using assms(3,4)
proof (induction vs arbitrary: s)
  case Nil
  then show ?case by (simp add: counts_changed_def uses_def)
next
  case (Cons v vs)
  obtain s1 where s1: "f v s = Some s1" "gc_ok s1" "counts_changed (\<lambda>k p. c * uses [v] k p) s s1"
    using assms(1) Cons.prems(1) may_change_first [OF Cons.prems(2)] by (auto simp: changes_def)
  from Cons.IH [OF s1(2) may_change_rest [OF Cons.prems(2) s1(3) assms(2)]] obtain s' where
    s': "on_fields f vs s1 = Some s'" "gc_ok s'" "counts_changed (\<lambda>k p. c * uses vs k p) s1 s'" by blast
  have "counts_changed (\<lambda>k p. c * uses (v # vs) k p) s s'"
    by (rule counts_changed_trans [OF s1(3) s'(3)]) (metis uses_Cons distrib_left)
  then show ?case using s1 s' by simp
qed

lemma atom_install_changes: "changes 1 (\<lambda>v s. Some (atom_install v s))"
  unfolding changes_def
proof (intro allI impI)
  fix v s
  assume "gc_ok s \<and> may_change 1 [v] s"
  then show "\<exists>s'. Some (atom_install v s) = Some s' \<and> gc_ok s' \<and> counts_changed (\<lambda>k p. 1 * uses [v] k p) s s'"
    using increment_atom_ok by (cases v) (auto simp: may_change_def refs_live_def uses_single counts_changed_refl)
qed

lemma atom_deinstall_changes: "changes (- 1) atom_deinstall"
  unfolding changes_def
proof (intro allI impI)
  fix v s
  assume a: "gc_ok s \<and> may_change (- 1) [v] s"
  show "\<exists>s'. atom_deinstall v s = Some s' \<and> gc_ok s' \<and> counts_changed (\<lambda>k p. - 1 * uses [v] k p) s s'"
  proof (cases v)
    case (Node k p)
    have p: "node_live s k p" using a Node by (simp add: may_change_def refs_live_def)
    have "uses [v] k p \<le> count_of s k p" using a Node by (auto simp: may_change_def)
    then have "0 < count_of s k p" using Node by (simp add: uses_single)
    from decrement_kind_ok [OF _ p this] a obtain s' where s': "on_kind k (decrement_count p) s = Some s'" "gc_ok s'"
      "counts_changed (\<lambda>j q. if j = k \<and> q = p then - 1 else 0) s s'" by blast
    have "(\<lambda>j q. if j = k \<and> q = p then - 1 else 0) = (\<lambda>j q. - 1 * uses [v] j q)"
      by (intro ext) (simp add: Node uses_single)
    then show ?thesis using s' Node by (simp add: atom_deinstall_kind)
  next
    case (OtherRef n)
    then show ?thesis using a by (simp add: uses_single counts_changed_refl)
  qed
qed

lemma EphemerateAtom_changes: "changes 0 EphemerateAtom"
  unfolding changes_def
proof (intro allI impI)
  fix v s
  assume a: "gc_ok s \<and> may_change 0 [v] s"
  show "\<exists>s'. EphemerateAtom v s = Some s' \<and> gc_ok s' \<and> counts_changed (\<lambda>k p. 0 * uses [v] k p) s s'"
  proof (cases v)
    case (Node k p)
    have p: "node_live s k p" using a Node by (simp add: may_change_def refs_live_def)
    from ephemerate_kind_ok [OF _ p] a obtain s' where "on_kind k (ephemerate p) s = Some s'" "gc_ok s'"
      "counts_changed (\<lambda>j q. 0) s s'" by blast
    then show ?thesis using Node a by (auto simp: counts_changed_refl)
  next
    case (OtherRef n)
    then show ?thesis using a by (simp add: counts_changed_refl)
  qed
qed

subsection \<open>Values\<close>

definition fields_of :: "dataObject \<Rightarrow> atom_env \<Rightarrow> valueRef list" where
  "fields_of v s =
     (case v of Single r \<Rightarrow> [r]
      | MultifieldValue None \<Rightarrow> []
      | MultifieldValue (Some p) \<Rightarrow> (case segments s p of None \<Rightarrow> [] | Some g \<Rightarrow> theFields g))"

definition allocated :: "dataObject \<Rightarrow> atom_env \<Rightarrow> bool" where
  "allocated v s = (case v of MultifieldValue (Some p) \<Rightarrow> segments s p \<noteq> None | _ \<Rightarrow> True)"

definition value_busy :: "dataObject \<Rightarrow> int \<Rightarrow> atom_env \<Rightarrow> atom_env" where
  "value_busy v d s = (case v of MultifieldValue (Some p) \<Rightarrow> add_busy p d s | _ \<Rightarrow> s)"

lemma add_busy_fields [simp]:
  "tables (add_busy p d s) = tables s" "frames (add_busy p d s) = frames s" "freeSegment (add_busy p d s) = freeSegment s"
  "segments (add_busy p d s) q = (if q = p then map_option (\<lambda>g. g\<lparr>busyCount := busyCount g + d\<rparr>) (segments s p) else segments s q)"
  by (simp_all add: add_busy_def)

lemma value_busy_fields [simp]:
  "tables (value_busy v d s) = tables s" "frames (value_busy v d s) = frames s" "freeSegment (value_busy v d s) = freeSegment s"
  "segments (value_busy v d s) q = None \<longleftrightarrow> segments s q = None"
  "fields_of w (value_busy v d s) = fields_of w s"
  by (auto simp: value_busy_def fields_of_def split: dataObject.splits option.splits)

lemma value_busy_ok [simp]: "gc_ok (value_busy v d s) = gc_ok s" "may_change c vs (value_busy v d s) = may_change c vs s"
  "lists k (value_busy v d s) = lists k s" "refs_live vs (value_busy v d s) = refs_live vs s"
  by (simp_all add: gc_ok_def segments_ok_def multis_def lists_def may_change_def refs_live_def)

text \<open>Installing, deinstalling and marking a value are the operation on its fields.\<close>

lemma ValueInstall_fields:
  "allocated v s \<Longrightarrow> ValueInstall v s = on_fields (\<lambda>v s. Some (atom_install v s)) (fields_of v s) (value_busy v 1 s)"
  by (auto simp: ValueInstall_def multifield_install_def fields_of_def value_busy_def allocated_def split: dataObject.splits option.splits)

lemma ValueDeinstall_fields:
  "allocated v s \<Longrightarrow> ValueDeinstall v s = on_fields atom_deinstall (fields_of v s) (value_busy v (- 1) s)"
  by (auto simp: ValueDeinstall_def multifield_deinstall_def fields_of_def value_busy_def allocated_def split: dataObject.splits option.splits)

lemma EphemerateValue_fields:
  "allocated v s \<Longrightarrow> EphemerateValue v s = on_fields EphemerateAtom (fields_of v s) s"
  by (auto simp: EphemerateValue_def EphemerateMultifield_def fields_of_def allocated_def split: dataObject.splits option.splits)

lemma ValueInstall_ok:
  assumes "gc_ok s" "allocated v s" "refs_live (fields_of v s) s"
  shows "\<exists>s'. ValueInstall v s = Some s' \<and> gc_ok s' \<and> counts_changed (uses (fields_of v s)) (value_busy v 1 s) s'"
  using on_fields_ok [OF atom_install_changes, of "value_busy v 1 s" "fields_of v s"] assms
  by (simp add: ValueInstall_fields may_change_def)

lemma ValueDeinstall_ok:
  assumes "gc_ok s" "allocated v s" "may_change (- 1) (fields_of v s) s"
  shows "\<exists>s'. ValueDeinstall v s = Some s' \<and> gc_ok s' \<and> counts_changed (\<lambda>k p. - uses (fields_of v s) k p) (value_busy v (- 1) s) s'"
  using on_fields_ok [OF atom_deinstall_changes, of "value_busy v (- 1) s" "fields_of v s"] assms
  by (simp add: ValueDeinstall_fields)

lemma EphemerateValue_ok:
  assumes "gc_ok s" "allocated v s" "refs_live (fields_of v s) s"
  shows "\<exists>s'. EphemerateValue v s = Some s' \<and> gc_ok s' \<and> counts_changed (\<lambda>k p. 0) s s'"
  using on_fields_ok [OF EphemerateAtom_changes, of s "fields_of v s"] assms
  by (simp add: EphemerateValue_fields may_change_def)

section \<open>Adding a value\<close>

lemma add_value_ok:
  assumes ok: "gc_ok s"
  obtains p s' where "add_value c s = Some (p, s')" "gc_ok s'" "node_live s' (kind_of c) p" "value_of s' (kind_of c) p = c"
    "\<And>k q. node_live s k q \<Longrightarrow> node_live s' k q \<and> nodes (tables s' k) q = nodes (tables s k) q"
    "\<And>k q. node_live s' k q \<Longrightarrow> node_live s k q \<or> k = kind_of c \<and> q = p"
proof -
  let ?k = "kind_of c" and ?f = "\<lambda>te. map_option snd (add_atom atom_hash atom_same c te)"
  let ?es = "ephemerals (CurrentGarbageFrame s) ?k"
  obtain os where a: "atoms_ok atom_hash is_number (tables s ?k) (?es @ os)" using atoms_current [OF ok] by blast
  obtain p t' es' where r: "add_atom atom_hash atom_same c (kind_state ?k s) = Some (p, t', es')"
    and t': "live t' p" "node_contents t' p = c" "\<And>q. node_live s ?k q \<Longrightarrow> live t' q \<and> nodes t' q = nodes (tables s ?k) q"
      "\<And>q. live t' q \<Longrightarrow> node_live s ?k q \<or> q = p"
    by (rule atoms.add_atom_ok [OF a, of c]) (rule that, assumption+)
  have k: "atoms_ok atom_hash is_number t' (es' @ os)" if "atoms_ok atom_hash is_number (tables s ?k) (?es @ os)" for os
    using atoms.add_atom_ok [OF that, of c] r by (metis option.inject prod.inject)
  have f: "?f (kind_state ?k s) = Some (t', es')" using r by simp
  from on_kind_ok [where f = ?f, OF ok f k] obtain s' where s': "on_kind ?k ?f s = Some s'" "gc_ok s'" "tables s' = (tables s)(?k := t')"
    by blast
  have "add_value c s = Some (p, s')" using s'(1) r by (simp add: add_value_def on_kind_def)
  moreover have "node_live s' k q \<and> nodes (tables s' k) q = nodes (tables s k) q" if "node_live s k q" for k q
    using that t'(3) [of q] s'(3) by (cases "k = ?k") simp_all
  moreover have "node_live s k q \<or> k = ?k \<and> q = p" if "node_live s' k q" for k q
    using that t'(4) [of q] s'(3) by (cases "k = ?k") simp_all
  ultimately show ?thesis using that s'(2,3) t'(1,2) by simp
qed

lemma add_value_again:
  assumes ok: "gc_ok s" and "is_number c" "node_live s (kind_of c) p" "value_of s (kind_of c) p = c"
  shows "add_value c s = Some (p, s)"
proof -
  obtain os where a: "atoms_ok atom_hash is_number (tables s (kind_of c)) (ephemerals (CurrentGarbageFrame s) (kind_of c) @ os)"
    using atoms_current [OF ok] by blast
  have "frames s = CurrentGarbageFrame s # tl (frames s)" using ok by (simp add: gc_ok_def)
  then show ?thesis using atoms.add_atom_again [OF a assms(2-4)]
    by (simp add: add_value_def set_kind_def set_dirty_def upd_frame_def)
qed

section \<open>Removing what is unused\<close>

text \<open>The kinds \<open>K\<close> of atoms have been removed from the current frame.\<close>

definition swept :: "atomKind set \<Rightarrow> atom_env \<Rightarrow> atom_env \<Rightarrow> bool" where
  "swept K s s' \<longleftrightarrow>
     (\<forall>k q. (node_live s' k q \<longleftrightarrow>
              node_live s k q \<and> (k \<in> K \<and> q \<in> set (ephemerals (CurrentGarbageFrame s) k) \<longrightarrow> 0 < count_of s k q)) \<and>
            value_of s' k q = value_of s k q \<and> count_of s' k q = count_of s k q) \<and>
     (\<forall>k. ephemerals (CurrentGarbageFrame s') k = (if k \<in> K then [] else ephemerals (CurrentGarbageFrame s) k)) \<and>
     segments s' = segments s \<and> freeSegment s' = freeSegment s \<and> tl (frames s') = tl (frames s) \<and>
     multi_part (CurrentGarbageFrame s') = multi_part (CurrentGarbageFrame s) \<and>
     dirty (CurrentGarbageFrame s') = dirty (CurrentGarbageFrame s)"

lemma remove_kind_ok:
  assumes ok: "gc_ok s"
  shows "\<exists>s'. remove_kind k s = Some s' \<and> gc_ok s' \<and> swept {k} s s'"
proof -
  obtain g fs where fr: "frames s = g # fs" using ok by (auto simp: gc_ok_def neq_Nil_conv)
  let ?os = "concat (map (\<lambda>g. ephemerals g k) fs)"
  have "atoms_ok atom_hash is_number (tables s k) (ephemerals g k @ ?os)" using ok by (simp add: gc_ok_def lists_Cons [OF fr])
  from RemoveEphemeral_ok [OF this] obtain t' where t': "RemoveEphemeralHashNodes (ephemerals g k) (tables s k) = Some (t', [])"
    "atoms_ok atom_hash is_number t' ?os" "\<And>q. live t' q \<longleftrightarrow> node_live s k q \<and> (q \<in> set (ephemerals g k) \<longrightarrow> 0 < count_of s k q)"
    "\<And>q. node_contents t' q = value_of s k q" "\<And>q. node_count t' q = count_of s k q" by blast
  let ?g = "g\<lparr>ephemerals := (ephemerals g)(k := [])\<rparr>"
  let ?s = "s\<lparr>tables := (tables s)(k := t'), frames := ?g # fs\<rparr>"
  have "remove_kind k s = Some ?s" using t'(1) fr by (simp add: remove_kind_def set_kind_def upd_frame_def)
  moreover have "lists j ?s = (if j = k then ?os else lists j s)" for j by (simp add: lists_def fr)
  then have "atoms_ok atom_hash is_number (tables ?s j) (lists j ?s)" for j using ok t'(2) by (simp add: gc_ok_def)
  moreover have "frame_ok ?g" using ok fr by (auto simp: gc_ok_def frame_ok_def)
  moreover have "multis ?s = multis s" by (rule multis_cong) (simp add: fr multi_part_def)
  then have "segments_ok ?s" using ok by (simp add: gc_ok_def segments_ok_def)
  ultimately have "gc_ok ?s" "remove_kind k s = Some ?s" using ok fr unfolding gc_ok_def by simp_all
  moreover have "swept {k} s ?s" unfolding swept_def using t'(3-5) fr by (simp add: multi_part_def)
  ultimately show ?thesis by blast
qed

lemma remove_kind_next:
  assumes "gc_ok s1" "swept K s s1" "k \<notin> K"
  obtains s' where "remove_kind k s1 = Some s'" "gc_ok s'" "swept (insert k K) s s'"
proof -
  obtain s' where s': "remove_kind k s1 = Some s'" "gc_ok s'" "swept {k} s1 s'" using remove_kind_ok [OF assms(1)] by blast
  have "swept (insert k K) s s'" unfolding swept_def
    using assms(2,3) s'(3) by (auto simp: swept_def)
  then show ?thesis using that s' by blast
qed

lemma RemoveEphemeralAtoms_ok:
  assumes ok: "gc_ok s" and d: "dirty (CurrentGarbageFrame s)"
  shows "\<exists>s'. RemoveEphemeralAtoms s = Some s' \<and> gc_ok s' \<and> swept UNIV s s'"
proof -
  have "swept {} s s" by (simp add: swept_def)
  from remove_kind_next [OF ok this, of SYMBOL_NODE] obtain s1 where s1: "remove_kind SYMBOL_NODE s = Some s1" "gc_ok s1"
    "swept {SYMBOL_NODE} s s1" by blast
  from remove_kind_next [OF s1(2,3), of FLOAT_NODE] obtain s2 where s2: "remove_kind FLOAT_NODE s1 = Some s2" "gc_ok s2"
    "swept {FLOAT_NODE, SYMBOL_NODE} s s2" by blast
  from remove_kind_next [OF s2(2,3), of INTEGER_NODE] obtain s3 where s3: "remove_kind INTEGER_NODE s2 = Some s3" "gc_ok s3"
    "swept {INTEGER_NODE, FLOAT_NODE, SYMBOL_NODE} s s3" by blast
  from remove_kind_next [OF s3(2,3), of BITMAP_NODE] obtain s4 where s4: "remove_kind BITMAP_NODE s3 = Some s4" "gc_ok s4"
    "swept {BITMAP_NODE, INTEGER_NODE, FLOAT_NODE, SYMBOL_NODE} s s4" by blast
  from remove_kind_next [OF s4(2,3), of EXTERNAL_ADDRESS_NODE] obtain s5 where s5: "remove_kind EXTERNAL_ADDRESS_NODE s4 = Some s5"
    "gc_ok s5" "swept {EXTERNAL_ADDRESS_NODE, BITMAP_NODE, INTEGER_NODE, FLOAT_NODE, SYMBOL_NODE} s s5" by blast
  have "{EXTERNAL_ADDRESS_NODE, BITMAP_NODE, INTEGER_NODE, FLOAT_NODE, SYMBOL_NODE} = UNIV"
    by (auto intro: atomKind.exhaust)
  then show ?thesis using s1 s2 s3 s4 s5 d by (simp add: RemoveEphemeralAtoms_def)
qed

text \<open>The multifields of the frame that are in use.\<close>

definition in_use :: "(addr \<Rightarrow> segment option) \<Rightarrow> addr \<Rightarrow> bool" where
  "in_use segs p \<longleftrightarrow> (\<exists>g. segs p = Some g \<and> busyCount g \<noteq> 0)"

lemma flush_loop_spec:
  assumes "distinct ps" "\<forall>p \<in> set ps. segs p \<noteq> None" "ps \<noteq> [] \<Longrightarrow> lastMulti = Some (last ps)"
  shows "flush_loop segs ps lastPtr lastMulti =
    Some (filter (in_use segs) ps,
      if ps = [] then lastMulti else if filter (in_use segs) ps = [] then lastPtr else Some (last (filter (in_use segs) ps)),
      \<lambda>p. if p \<in> set ps \<and> \<not> in_use segs p then None else segs p)"
  using assms
proof (induction ps arbitrary: segs lastPtr lastMulti)
  case (Cons p ps)
  obtain g where g: "segs p = Some g" using Cons.prems(2) by auto
  show ?case
  proof (cases "busyCount g = 0")
    case True
    let ?segs = "segs(p := None)"
    have u: "\<not> in_use segs p" using g True by (simp add: in_use_def)
    have i: "in_use ?segs q \<longleftrightarrow> q \<noteq> p \<and> in_use segs q" for q by (simp add: in_use_def)
    have f: "filter (in_use ?segs) ps = filter (in_use segs) ps"
      using Cons.prems(1) by (intro filter_cong) (auto simp: i)
    have "flush_loop ?segs ps lastPtr (if ps = [] then lastPtr else lastMulti) =
      Some (filter (in_use ?segs) ps,
        if ps = [] then (if ps = [] then lastPtr else lastMulti)
        else if filter (in_use ?segs) ps = [] then lastPtr else Some (last (filter (in_use ?segs) ps)),
        \<lambda>q. if q \<in> set ps \<and> \<not> in_use ?segs q then None else ?segs q)"
      by (rule Cons.IH) (use Cons.prems in auto)
    then show ?thesis using g True u Cons.prems(1) by (auto simp: f i fun_eq_iff)
  next
    case False
    have u: "in_use segs p" using g False by (simp add: in_use_def)
    have "flush_loop segs ps (Some p) lastMulti = Some (filter (in_use segs) ps,
        if ps = [] then lastMulti else if filter (in_use segs) ps = [] then Some p else Some (last (filter (in_use segs) ps)),
        \<lambda>q. if q \<in> set ps \<and> \<not> in_use segs q then None else segs q)"
      by (rule Cons.IH) (use Cons.prems in auto)
    then show ?thesis using g False u Cons.prems(3) by (auto simp: fun_eq_iff)
  qed
qed simp

lemma FlushMultifields_ok:
  assumes ok: "gc_ok s" and L: "L = ListOfMultifields (CurrentGarbageFrame s)"
  obtains s' where "FlushMultifields s = Some s'" "gc_ok s'"
    "s' = upd_frame (\<lambda>g. g\<lparr>ListOfMultifields := filter (in_use (segments s)) L, LastMultifield := last_of (filter (in_use (segments s)) L)\<rparr>)
      (s\<lparr>segments := (\<lambda>p. if p \<in> set L \<and> \<not> in_use (segments s) p then None else segments s p)\<rparr>)"
proof -
  obtain g fs where fr: "frames s = g # fs" using ok by (auto simp: gc_ok_def neq_Nil_conv)
  let ?L = "filter (in_use (segments s)) L" and ?segs = "\<lambda>p. if p \<in> set L \<and> \<not> in_use (segments s) p then None else segments s p"
  let ?s = "upd_frame (\<lambda>g. g\<lparr>ListOfMultifields := ?L, LastMultifield := last_of ?L\<rparr>) (s\<lparr>segments := ?segs\<rparr>)"
  have m: "multis s = L @ concat (map ListOfMultifields fs)" by (simp add: multis_def fr L)
  have d: "distinct (multis s)" "\<forall>p \<in> set (multis s). segments s p \<noteq> None" using ok by (simp_all add: gc_ok_def segments_ok_def)
  have l: "LastMultifield g = last_of L" using ok fr L by (simp add: gc_ok_def frame_ok_def)
  have "flush_loop (segments s) L None (LastMultifield g) = Some (?L, last_of ?L, ?segs)"
    by (subst flush_loop_spec) (use d m l in \<open>auto simp: last_of_def\<close>)
  then have run: "FlushMultifields s = Some ?s" using fr L by (simp add: FlushMultifields_def)
  have ms: "multis ?s = ?L @ concat (map ListOfMultifields fs)" by (simp add: multis_def upd_frame_def fr)
  have "distinct (multis ?s)" using d(1) unfolding ms m by (auto simp: distinct_filter)
  moreover have "\<forall>p \<in> set (multis ?s). segments ?s p \<noteq> None"
    using d unfolding ms m by (auto simp: upd_frame_def)
  moreover have "\<forall>p. segments ?s p \<noteq> None \<longrightarrow> p < freeSegment ?s"
    using ok by (auto simp: gc_ok_def segments_ok_def upd_frame_def)
  ultimately have "segments_ok ?s" by (simp add: segments_ok_def)
  moreover have "lists k ?s = lists k s" for k by (simp add: lists_def upd_frame_def fr)
  moreover have "\<forall>h \<in> set (frames ?s). frame_ok h"
    using ok fr L by (auto simp: gc_ok_def frame_ok_def upd_frame_def)
  ultimately have "gc_ok ?s" using ok by (simp add: gc_ok_def upd_frame_def)
  then show ?thesis using that [OF run] by simp
qed

text \<open>Together: what \<open>collect\<close> does after the clean-up functions.\<close>

definition collected :: "atom_env \<Rightarrow> atom_env \<Rightarrow> bool" where
  "collected s s' \<longleftrightarrow>
     (\<forall>k q. (node_live s' k q \<longleftrightarrow> node_live s k q \<and> (q \<in> set (ephemerals (CurrentGarbageFrame s) k) \<longrightarrow> 0 < count_of s k q)) \<and>
            value_of s' k q = value_of s k q \<and> count_of s' k q = count_of s k q) \<and>
     (\<forall>k. ephemerals (CurrentGarbageFrame s') k = []) \<and>
     ListOfMultifields (CurrentGarbageFrame s') = filter (in_use (segments s)) (ListOfMultifields (CurrentGarbageFrame s)) \<and>
     segments s' = (\<lambda>p. if p \<in> set (ListOfMultifields (CurrentGarbageFrame s)) \<and> \<not> in_use (segments s) p then None else segments s p) \<and>
     tl (frames s') = tl (frames s) \<and> dirty (CurrentGarbageFrame s')"

lemma collect_ok:
  assumes "cleanup s0 = Some s" "gc_ok s" "dirty (CurrentGarbageFrame s)"
  shows "\<exists>s'. collect cleanup s0 = Some s' \<and> gc_ok s' \<and> collected s s'"
proof -
  obtain s1 where s1: "RemoveEphemeralAtoms s = Some s1" "gc_ok s1" "swept UNIV s s1"
    using RemoveEphemeralAtoms_ok [OF assms(2,3)] by blast
  have eq: "dirty (CurrentGarbageFrame s1)" "ListOfMultifields (CurrentGarbageFrame s1) = ListOfMultifields (CurrentGarbageFrame s)"
    "segments s1 = segments s" "tl (frames s1) = tl (frames s)" using s1(3) assms(3) by (simp_all add: swept_def multi_part_def)
  obtain s' where s': "FlushMultifields s1 = Some s'" "gc_ok s'"
    "s' = upd_frame (\<lambda>g. g\<lparr>ListOfMultifields := filter (in_use (segments s1)) (ListOfMultifields (CurrentGarbageFrame s1)),
        LastMultifield := last_of (filter (in_use (segments s1)) (ListOfMultifields (CurrentGarbageFrame s1)))\<rparr>)
      (s1\<lparr>segments := (\<lambda>p. if p \<in> set (ListOfMultifields (CurrentGarbageFrame s1)) \<and> \<not> in_use (segments s1) p then None else segments s1 p)\<rparr>)"
    by (rule FlushMultifields_ok [OF s1(2) refl]) (rule that, assumption+)
  have t: "tables s' = tables s1" "ephemerals (CurrentGarbageFrame s') = ephemerals (CurrentGarbageFrame s1)"
    "dirty (CurrentGarbageFrame s') = dirty (CurrentGarbageFrame s1)" "tl (frames s') = tl (frames s1)"
    "ListOfMultifields (CurrentGarbageFrame s') = filter (in_use (segments s)) (ListOfMultifields (CurrentGarbageFrame s))"
    "segments s' = (\<lambda>p. if p \<in> set (ListOfMultifields (CurrentGarbageFrame s)) \<and> \<not> in_use (segments s) p then None else segments s p)"
    unfolding s'(3) eq(2,3) by (simp_all add: upd_frame_def)
  have "collected s s'" using s1(3) eq(1) unfolding collected_def t eq(4) by (simp add: swept_def)
  then show ?thesis using assms(1) s1(1) s'(1,2) eq(1) by (auto simp: collect_def)
qed

section \<open>A value that is returned\<close>

text \<open>Without a value nothing is installed, as for a value outside of the tables.\<close>

definition returned :: "dataObject option \<Rightarrow> dataObject" where
  "returned returnValue = (case returnValue of None \<Rightarrow> Single (OtherRef 0) | Some v \<Rightarrow> v)"

lemma with_value_returned:
  "with_value ValueInstall rv s = ValueInstall (returned rv) s"
  "with_value ValueDeinstall rv s = ValueDeinstall (returned rv) s"
  "with_value EphemerateValue rv s = EphemerateValue (returned rv) s"
  by (simp_all add: with_value_def returned_def ValueInstall_def ValueDeinstall_def EphemerateValue_def split: option.splits)

text \<open>The nodes and the multifield of the value are there.\<close>

definition value_ok :: "dataObject \<Rightarrow> atom_env \<Rightarrow> bool" where
  "value_ok v s \<longleftrightarrow> refs_live (fields_of v s) s \<and>
     (case v of MultifieldValue (Some p) \<Rightarrow> \<exists>g. segments s p = Some g \<and> 0 \<le> busyCount g | _ \<Rightarrow> True)"

text \<open>The clean-up functions, run in \<open>s0\<close> where the value has been installed, give up uses of their own and not those of
  the value.\<close>

definition cleanup_respects :: "dataObject \<Rightarrow> atom_env \<Rightarrow> atom_env \<Rightarrow> bool" where
  "cleanup_respects v s0 s1 \<longleftrightarrow> gc_ok s1 \<and> dirty (CurrentGarbageFrame s1) \<and> length (frames s1) = length (frames s0) \<and>
     (case v of MultifieldValue (Some p) \<Rightarrow> segments s1 p = segments s0 p | _ \<Rightarrow> True) \<and>
     (\<forall>k q. Node k q \<in> set (fields_of v s0) \<longrightarrow>
        node_live s1 k q \<and> value_of s1 k q = value_of s0 k q \<and> uses (fields_of v s0) k q \<le> count_of s1 k q)"

lemma value_ok_allocated: "value_ok v s \<Longrightarrow> allocated v s"
  by (auto simp: value_ok_def allocated_def split: dataObject.splits option.splits)

lemma fields_of_cong:
  "(case v of MultifieldValue (Some p) \<Rightarrow> segments s' p = segments s p | _ \<Rightarrow> True) \<Longrightarrow> fields_of v s' = fields_of v s"
  by (auto simp: fields_of_def split: dataObject.splits option.splits)

lemma counts_changed_fields: "counts_changed d s s' \<Longrightarrow> fields_of v s' = fields_of v s"
  by (intro fields_of_cong) (auto simp: counts_changed_def split: dataObject.splits option.splits)

text \<open>Installing, running the clean-up functions and collecting keep the fields of the value.\<close>

lemma install_collect:
  assumes ok: "gc_ok s" and v: "value_ok v s" and i: "ValueInstall v s = Some s0"
    and c: "cleanup s0 = Some s1" "cleanup_respects v s0 s1"
  obtains s2 where "collect cleanup s0 = Some s2" "gc_ok s2" "collected s1 s2" "fields_of v s2 = fields_of v s"
    "allocated v s2" "may_change (- 1) (fields_of v s) s2"
    "\<And>k q. Node k q \<in> set (fields_of v s) \<Longrightarrow> value_of s2 k q = value_of s k q"
    "\<And>p. v = MultifieldValue (Some p) \<Longrightarrow> segments s2 p = segments s0 p \<and> in_use (segments s2) p"
proof -
  obtain s0' where s0: "ValueInstall v s = Some s0'" "gc_ok s0'" "counts_changed (uses (fields_of v s)) (value_busy v 1 s) s0'"
    using ValueInstall_ok [OF ok value_ok_allocated [OF v]] v by (auto simp: value_ok_def)
  then have cc: "counts_changed (uses (fields_of v s)) (value_busy v 1 s) s0" using i by simp
  have f0: "fields_of v s0 = fields_of v s" using counts_changed_fields [OF cc] by simp
  have f1: "fields_of v s1 = fields_of v s0" using c(2) by (intro fields_of_cong) (simp add: cleanup_respects_def)
  obtain s2 where s2: "collect cleanup s0 = Some s2" "gc_ok s2" "collected s1 s2"
    using collect_ok [of cleanup s0 s1] c by (auto simp: cleanup_respects_def)
  have seg: "segments s2 p = segments s0 p \<and> in_use (segments s2) p" if p: "v = MultifieldValue (Some p)" for p
  proof -
    obtain g where g: "segments s p = Some g" "0 \<le> busyCount g" using v p by (auto simp: value_ok_def)
    have e: "segments s1 p = segments s0 p" using c(2) p by (simp add: cleanup_respects_def)
    have "segments s0 p = Some (g\<lparr>busyCount := busyCount g + 1\<rparr>)" using cc p g by (simp add: counts_changed_def value_busy_def)
    then have u: "in_use (segments s1) p" using e g(2) by (simp add: in_use_def)
    then show ?thesis using s2(3) e by (simp add: collected_def in_use_def)
  qed
  have f2: "fields_of v s2 = fields_of v s"
    using f0 seg fields_of_cong [where v = v and s' = s2 and s = s0] by (auto split: dataObject.splits option.splits)
  have n: "node_live s1 k q" "uses (fields_of v s) k q \<le> count_of s1 k q" "value_of s1 k q = value_of s k q"
    if "Node k q \<in> set (fields_of v s)" for k q
    using c(2) cc that by (simp_all add: cleanup_respects_def f0 counts_changed_def)
  have u: "0 < count_of s1 k q" if "Node k q \<in> set (fields_of v s)" for k q
    using n(2) [OF that] that uses_pos [of "fields_of v s" k q] by simp
  have "\<exists>g. segments s2 p = Some g" if "v = MultifieldValue (Some p)" for p using seg [OF that] unfolding in_use_def by blast
  then have "allocated v s2" by (auto simp: allocated_def split: dataObject.splits option.splits)
  moreover have "may_change (- 1) (fields_of v s) s2"
    using n u s2(3) by (auto simp: may_change_def refs_live_def collected_def)
  ultimately show ?thesis using that [OF s2 f2] n(3) s2(3) seg by (simp add: collected_def)
qed

section \<open>Leaving a frame\<close>

lemma takeWhile_last: "distinct xs \<Longrightarrow> xs \<noteq> [] \<Longrightarrow> takeWhile (\<lambda>x. x \<noteq> last xs) xs = butlast xs"
  by (induction xs) (auto, meson last_in_set)

lemma move_multifields_ok:
  assumes "frame_ok new" "frame_ok old" "distinct (ListOfMultifields old)"
  obtains old' where "move_multifields new old = Some old'" "frame_ok old'" "ephemerals old' = ephemerals old"
    "ListOfMultifields old' = ListOfMultifields old @ ListOfMultifields new"
proof -
  consider "ListOfMultifields new = []" | "ListOfMultifields new \<noteq> []" "ListOfMultifields old = []"
    | "ListOfMultifields new \<noteq> []" "ListOfMultifields old \<noteq> []" by blast
  then show ?thesis
  proof cases
    case 1
    then show ?thesis using that [of old] assms(2) by (simp add: move_multifields_def)
  next
    case 2
    then show ?thesis using that assms by (simp add: move_multifields_def frame_ok_def)
  next
    case 3
    have "append_after (ListOfMultifields old) (LastMultifield old) (ListOfMultifields new) =
        Some (ListOfMultifields old @ ListOfMultifields new)"
      using 3 assms by (simp add: append_after_def frame_ok_def last_of_def takeWhile_last)
    then show ?thesis using that 3 assms by (simp add: move_multifields_def frame_ok_def last_of_def)
  qed
qed

text \<open>The frame that is left has no atomic value on its lists; its multifields go to the prior frame.\<close>

lemma pop_frame_ok:
  assumes ok: "gc_ok s" and fr: "frames s = new # old # rest" and e: "\<And>k. ephemerals new k = []"
    and old': "frame_ok old'" "ephemerals old' = ephemerals old" "ListOfMultifields old' = ListOfMultifields old @ ListOfMultifields new"
  shows "gc_ok (s\<lparr>frames := old' # rest\<rparr>)"
proof -
  let ?s = "s\<lparr>frames := old' # rest\<rparr>"
  have "lists k ?s = lists k s" for k using e old'(2) by (simp add: lists_def fr)
  moreover have "set (multis ?s) = set (multis s)" "distinct (multis ?s) = distinct (multis s)"
    using old'(3) by (auto simp: multis_def fr)
  ultimately show ?thesis using ok old'(1) fr unfolding gc_ok_def segments_ok_def by simp
qed

lemma clean_flag_ok:
  assumes ok: "gc_ok s" and e: "all_empty (CurrentGarbageFrame s)"
  shows "gc_ok (upd_frame (\<lambda>g. g\<lparr>dirty := False\<rparr>) s)"
proof -
  obtain g fs where fr: "frames s = g # fs" using ok by (auto simp: gc_ok_def neq_Nil_conv)
  have "ephemerals g k = []" for k using e fr by (cases k) (simp_all add: all_empty_def)
  moreover have "frame_ok g" "LastMultifield g = None" using ok e fr by (simp_all add: gc_ok_def all_empty_def)
  ultimately have "frame_ok (g\<lparr>dirty := False\<rparr>)" by (auto simp: frame_ok_def last_of_def split: if_splits)
  then show ?thesis using ok by (simp add: gc_ok_def upd_frame_def fr lists_def segments_ok_def multis_def)
qed

end
