(* ===== verification/Garbage_Properties.thy ===== *)
theory Garbage_Properties
  imports Garbage_Invariant
begin

text \<open>
  Atomic values are stored once, and leaving a garbage frame frees exactly what nothing uses, never the value
  that is returned.
\<close>

section \<open>The five functions that add a value\<close>

fun EnvAddAtom :: "atom \<Rightarrow> atom_env \<Rightarrow> (addr \<times> atom_env) option" where
  "EnvAddAtom (Sym w) s = EnvAddSymbol (Some w) s"
| "EnvAddAtom (Flt number) s = EnvAddDouble number s"
| "EnvAddAtom (Lng number) s = EnvAddLong number s"
| "EnvAddAtom (Bits w) s = EnvAddBitMap (Some w) s"
| "EnvAddAtom (Ext x theType) s = EnvAddExternalAddress x theType s"

text \<open>Sizes of bit maps and types of external addresses fit an \<open>unsigned short\<close>.\<close>

fun atom_fits :: "atom \<Rightarrow> bool" where
  "atom_fits (Bits w) = (length w < 65536)"
| "atom_fits (Ext x theType) = (theType < 65536)"
| "atom_fits c = True"

lemma EnvAddAtom_value: "atom_fits c \<Longrightarrow> EnvAddAtom c s = add_value c s"
  by (cases c) (simp_all add: EnvAddSymbol_def EnvAddDouble_def EnvAddLong_def EnvAddBitMap_def EnvAddExternalAddress_def)

section \<open>Leaving and cleaning a frame\<close>

text \<open>What is left in \<open>s'\<close>: in \<open>s1\<close> the value has been installed and the clean-up functions have run.\<close>

definition frame_cleaned :: "dataObject \<Rightarrow> atom_env \<Rightarrow> atom_env \<Rightarrow> atom_env \<Rightarrow> bool" where
  "frame_cleaned v s s1 s' \<longleftrightarrow> gc_ok s' \<and>
     (\<forall>k q. node_live s' k q \<longleftrightarrow> node_live s1 k q \<and> (q \<in> set (ephemerals (CurrentGarbageFrame s1) k) \<longrightarrow> 0 < count_of s1 k q)) \<and>
     (\<forall>p. segments s' p = None \<longleftrightarrow> segments s1 p = None \<or>
        p \<in> set (ListOfMultifields (CurrentGarbageFrame s1)) \<and> \<not> in_use (segments s1) p) \<and>
     (\<forall>k q. Node k q \<in> set (fields_of v s) \<longrightarrow> node_live s' k q \<and> value_of s' k q = value_of s k q) \<and>
     fields_of v s' = fields_of v s \<and> allocated v s'"

lemma allocated_counts: "counts_changed d (value_busy w e s) s' \<Longrightarrow> allocated v s' = allocated v s"
  by (auto simp: allocated_def counts_changed_def split: dataObject.splits option.splits)

lemma frame_cleaned_counts:
  assumes "frame_cleaned v s s1 s2" "counts_changed d (value_busy w e s2) s'" "gc_ok s'"
  shows "frame_cleaned v s s1 s'"
proof -
  have e: "node_live s' k q = node_live s2 k q" "value_of s' k q = value_of s2 k q" "segments s' p = None \<longleftrightarrow> segments s2 p = None" for k q p
    using assms(2) by (simp_all add: counts_changed_def)
  show ?thesis using assms(1,3)
    unfolding frame_cleaned_def e counts_changed_fields [OF assms(2), of v] allocated_counts [OF assms(2), of v] by auto
qed

lemma frames_update [simp]:
  "fields_of v (s\<lparr>frames := fs\<rparr>) = fields_of v s" "allocated v (s\<lparr>frames := fs\<rparr>) = allocated v s"
  "may_change c vs (s\<lparr>frames := fs\<rparr>) = may_change c vs s" "refs_live vs (s\<lparr>frames := fs\<rparr>) = refs_live vs s"
  by (auto simp: fields_of_def allocated_def may_change_def refs_live_def split: dataObject.splits option.splits)

lemma frame_cleaned_frames:
  "frame_cleaned v s s1 s2 \<Longrightarrow> gc_ok (s2\<lparr>frames := fs\<rparr>) \<Longrightarrow> frame_cleaned v s s1 (s2\<lparr>frames := fs\<rparr>)"
  unfolding frame_cleaned_def by auto

text \<open>After collecting, the value is given up again.\<close>

lemma collected_cleaned:
  assumes "gc_ok s2" "collected s1 s2" "fields_of v s2 = fields_of v s" "allocated v s2" "may_change (- 1) (fields_of v s) s2"
    "\<And>k q. Node k q \<in> set (fields_of v s) \<Longrightarrow> value_of s2 k q = value_of s k q"
    and fr: "gc_ok (s2\<lparr>frames := fs\<rparr>)"
  obtains s3 where "ValueDeinstall v (s2\<lparr>frames := fs\<rparr>) = Some s3" "frame_cleaned v s s1 s3"
    "map multi_part (frames s3) = map multi_part fs"
proof -
  let ?s = "s2\<lparr>frames := fs\<rparr>"
  have same: "fields_of v ?s = fields_of v s" "allocated v ?s" "may_change (- 1) (fields_of v s) ?s"
    using assms(3-5) by simp_all
  have "frame_cleaned v s s1 ?s" unfolding frame_cleaned_def
    using assms(2,5,6) fr same by (auto simp: collected_def may_change_def refs_live_def)
  moreover obtain s3 where s3: "ValueDeinstall v ?s = Some s3" "gc_ok s3"
    "counts_changed (\<lambda>k p. - uses (fields_of v ?s) k p) (value_busy v (- 1) ?s) s3"
    using ValueDeinstall_ok [OF fr same(2)] same by auto
  ultimately have "frame_cleaned v s s1 s3" using frame_cleaned_counts by blast
  then show ?thesis using that s3 by (simp add: counts_changed_def)
qed

lemma clean_value:
  assumes ok: "gc_ok s" "dirty (CurrentGarbageFrame s)" and v: "value_ok (returned rv) s"
    and i: "with_value ValueInstall rv s = Some s0" and c: "cleanup s0 = Some s1" "cleanup_respects (returned rv) s0 s1"
  shows "\<exists>s'. CleanCurrentGarbageFrame cleanup rv s = Some s' \<and> frame_cleaned (returned rv) s s1 s'"
proof -
  let ?v = "returned rv"
  obtain s2 where s2: "collect cleanup s0 = Some s2" "gc_ok s2" "collected s1 s2" "fields_of ?v s2 = fields_of ?v s"
    "allocated ?v s2" "may_change (- 1) (fields_of ?v s) s2"
    "\<And>k q. Node k q \<in> set (fields_of ?v s) \<Longrightarrow> value_of s2 k q = value_of s k q"
    using install_collect [OF ok(1) v i [unfolded with_value_returned], of cleanup s1] c by metis
  obtain s3 where s3: "ValueDeinstall ?v s2 = Some s3" "frame_cleaned ?v s s1 s3"
    using collected_cleaned [OF s2(2-7), of "frames s2"] s2(2) by auto
  let ?s = "if all_empty (CurrentGarbageFrame s3) then upd_frame (\<lambda>g. g\<lparr>dirty := False\<rparr>) s3 else s3"
  have "gc_ok ?s" using s3(2) clean_flag_ok by (auto simp: frame_cleaned_def)
  then have "frame_cleaned ?v s s1 ?s" using s3(2) frame_cleaned_frames by (auto simp: upd_frame_def)
  moreover have "CleanCurrentGarbageFrame cleanup rv s = Some ?s"
    using ok(2) i s2(1) s3(1) by (simp add: CleanCurrentGarbageFrame_def with_value_returned)
  ultimately show ?thesis by blast
qed

lemma ephemerate_cleaned:
  assumes "frame_cleaned v s s1 s3"
  obtains s' where "EphemerateValue v s3 = Some s'" "frame_cleaned v s s1 s'" "map multi_part (frames s') = map multi_part (frames s3)"
proof -
  have "refs_live (fields_of v s3) s3" using assms by (auto simp: frame_cleaned_def refs_live_def)
  then obtain s' where s': "EphemerateValue v s3 = Some s'" "gc_ok s'" "counts_changed (\<lambda>k p. 0) s3 s'"
    using EphemerateValue_ok [of s3 v] assms by (auto simp: frame_cleaned_def)
  have "counts_changed (\<lambda>k p. 0) (value_busy (Single (OtherRef 0)) 0 s3) s'" using s'(3) by (simp add: value_busy_def)
  then have "frame_cleaned v s s1 s'" using frame_cleaned_counts [OF assms _ s'(2)] by blast
  then show ?thesis using that s' by (simp add: counts_changed_def)
qed

text \<open>A frame with nothing on its lists is left as it is.\<close>

lemma restore_clean_frame:
  assumes ok: "gc_ok s" "\<not> dirty new" and fr: "frames s = new # old # rest" and v: "value_ok (returned rv) s"
  shows "\<exists>s'. RestorePriorGarbageFrame cleanup rv s = Some s' \<and> length (frames s') = length (frames s) - 1 \<and>
    frame_cleaned (returned rv) s s s'"
proof -
  let ?v = "returned rv" and ?s = "s\<lparr>frames := old # rest\<rparr>"
  have e: "ephemerals new k = []" "ListOfMultifields new = []" for k using ok fr by (auto simp: gc_ok_def frame_ok_def)
  have "frame_ok old" using ok(1) fr by (simp add: gc_ok_def)
  then have "gc_ok ?s" using pop_frame_ok [OF ok(1) fr e(1), of old] e(2) by simp
  moreover have "frame_cleaned ?v s s s" using ok(1) v value_ok_allocated [OF v] fr e
    by (auto simp: frame_cleaned_def value_ok_def refs_live_def)
  ultimately have "frame_cleaned ?v s s ?s" using frame_cleaned_frames by blast
  from ephemerate_cleaned [OF this] obtain s' where s': "EphemerateValue ?v ?s = Some s'" "frame_cleaned ?v s s s'"
    "map multi_part (frames s') = map multi_part (frames ?s)" by blast
  have "length (frames s') = length (frames ?s)" using s'(3) map_eq_imp_length_eq by blast
  moreover have "RestorePriorGarbageFrame cleanup rv s = Some s'"
    using ok(2) fr s'(1) by (simp add: RestorePriorGarbageFrame_def with_value_returned)
  ultimately show ?thesis using s'(2) fr by simp
qed

lemma restore_dirty_frame:
  assumes ok: "gc_ok s" "dirty (CurrentGarbageFrame s)" and fr: "2 \<le> length (frames s)" and v: "value_ok (returned rv) s"
    and i: "with_value ValueInstall rv s = Some s0" and c: "cleanup s0 = Some s1" "cleanup_respects (returned rv) s0 s1"
  shows "\<exists>s'. RestorePriorGarbageFrame cleanup rv s = Some s' \<and> length (frames s') = length (frames s1) - 1 \<and>
    frame_cleaned (returned rv) s s1 s'"
proof -
  let ?v = "returned rv"
  obtain s2 where s2: "collect cleanup s0 = Some s2" "gc_ok s2" "collected s1 s2" "fields_of ?v s2 = fields_of ?v s"
    "allocated ?v s2" "may_change (- 1) (fields_of ?v s) s2"
    "\<And>k q. Node k q \<in> set (fields_of ?v s) \<Longrightarrow> value_of s2 k q = value_of s k q"
    using install_collect [OF ok(1) v i [unfolded with_value_returned], of cleanup s1] c by metis
  obtain a where "counts_changed a (value_busy ?v 1 s) s0"
    using ValueInstall_ok [OF ok(1) value_ok_allocated [OF v]] v i by (auto simp: value_ok_def with_value_returned)
  then have "length (frames s0) = length (frames s)"
    using map_eq_imp_length_eq by (auto simp: counts_changed_def)
  then have l: "2 \<le> length (frames s1)" "gc_ok s1" using c(2) fr by (simp_all add: cleanup_respects_def)
  have "frames s2 \<noteq> []" "tl (frames s2) = tl (frames s1)" using s2(2,3) by (simp_all add: gc_ok_def collected_def)
  then obtain new old rest where f2: "frames s2 = new # old # rest" and f1: "length (frames s1) = Suc (Suc (length rest))"
    using l(1) by (cases "frames s2"; cases "frames s1"; cases "tl (frames s1)") auto
  have new: "ephemerals new k = []" "dirty new" for k using s2(3) f2 by (simp_all add: collected_def)
  have "frame_ok new" "frame_ok old" "distinct (ListOfMultifields old)"
    using s2(2) f2 by (simp_all add: gc_ok_def segments_ok_def multis_def)
  from move_multifields_ok [OF this] obtain old' where old': "move_multifields new old = Some old'" "frame_ok old'"
    "ephemerals old' = ephemerals old" "ListOfMultifields old' = ListOfMultifields old @ ListOfMultifields new" by blast
  have "gc_ok (s2\<lparr>frames := old' # rest\<rparr>)" using pop_frame_ok [OF s2(2) f2 new(1) old'(2-4)] .
  from collected_cleaned [OF s2(2-7) this] obtain s3 where s3: "ValueDeinstall ?v (s2\<lparr>frames := old' # rest\<rparr>) = Some s3"
    "frame_cleaned ?v s s1 s3" "map multi_part (frames s3) = map multi_part (old' # rest)" by blast
  from ephemerate_cleaned [OF s3(2)] obtain s' where s': "EphemerateValue ?v s3 = Some s'" "frame_cleaned ?v s s1 s'"
    "map multi_part (frames s') = map multi_part (frames s3)" by blast
  have "length (frames s') = length (old' # rest)" using s3(3) s'(3) by (metis length_map)
  moreover have "RestorePriorGarbageFrame cleanup rv s = Some s'"
    using ok(2) i s2(1) f2 new(2) old'(1) s3(1) s'(1)
    by (simp add: RestorePriorGarbageFrame_def with_value_returned upd_frame_def)
  ultimately show ?thesis using s'(2) f1 by simp
qed

section \<open>Initial states\<close>

lemma empty_table_ok: "atoms_ok hash proper empty_table []"
  by (simp add: empty_table_def atoms_ok_def buckets_ok_def unique_atoms_def ephemera_ok_def live_def)

lemma initial_ok: "gc_ok InitializeUtilityData"
  by (simp add: InitializeUtilityData_def gc_ok_def lists_def empty_frame_def frame_ok_def last_of_def segments_ok_def
      multis_def empty_table_ok)

lemma push_frame_ok: "gc_ok s \<Longrightarrow> gc_ok (push_frame s)"
  by (simp add: push_frame_def gc_ok_def lists_def empty_frame_def frame_ok_def last_of_def segments_ok_def multis_def)

lemma add_value_keeps: "gc_ok s \<Longrightarrow> gc_ok (snd (the (add_value c s)))"
  by (erule add_value_ok [of _ c]) simp

text \<open>A frame with the symbols \<open>a\<close> and \<open>b\<close>, made in this order.\<close>

definition two_symbols :: atom_env where
  "two_symbols = snd (the (EnvAddSymbol (Some ''b'') (snd (the (EnvAddSymbol (Some ''a'') (push_frame InitializeUtilityData))))))"

lemma two_symbols_ok: "gc_ok two_symbols"
  by (simp add: two_symbols_def EnvAddSymbol_def add_value_keeps push_frame_ok initial_ok)

section \<open>Properties\<close>

text \<open>A NaN is not found again: it is equal to nothing.\<close>

lemma find_nan: "\<not> is_number c \<Longrightarrow> find_node atom_same t c ps = None"
proof (induction ps)
  case (Cons p ps)
  then obtain w where w: "c = Flt w" "double_is_nan w" by (cases c) auto
  then have "\<not> atom_same c d" for d by (cases d) (simp_all add: double_eq_def)
  then show ?case using Cons by simp
qed simp

lemma add_nan:
  assumes ok: "gc_ok s" and c: "\<not> is_number c" and a: "add_value c s = Some (p, s')"
  shows "\<not> node_live s (kind_of c) p"
proof -
  have "p = freeNode (tables s (kind_of c))" using a
    by (simp add: add_value_def add_atom_def find_nan [OF c] new_node_def AddEphemeralHashNode_def Let_def)
  moreover have "buckets_ok atom_hash (tables s (kind_of c))" using ok by (simp add: gc_ok_def atoms_ok_def)
  ultimately show ?thesis by (auto simp: live_def buckets_ok_def)
qed

text \<open>C23. Adding a symbol, float, integer, bit map or external address gives the address of a node with that
  contents, leaves every other node as it is and keeps the tables consistent. A value is stored once: no other node has the same
  contents, and adding it again gives the same address and changes nothing. Only a NaN is stored anew each time.\<close>

theorem EnvAddAtom_interns:
  assumes "gc_ok s" "atom_fits c"
  shows "\<exists>p s'. EnvAddAtom c s = Some (p, s') \<and> gc_ok s' \<and> node_live s' (kind_of c) p \<and> value_of s' (kind_of c) p = c \<and>
    (\<forall>k q. node_live s k q \<longrightarrow> node_live s' k q \<and> nodes (tables s' k) q = nodes (tables s k) q) \<and>
    (\<forall>k q. node_live s' k q \<longrightarrow> node_live s k q \<or> k = kind_of c \<and> q = p) \<and>
    (if is_number c
     then EnvAddAtom c s' = Some (p, s') \<and> (\<forall>q. node_live s' (kind_of c) q \<and> value_of s' (kind_of c) q = c \<longrightarrow> q = p)
     else \<not> node_live s (kind_of c) p)"
proof -
  obtain p s' where a: "add_value c s = Some (p, s')" and ok: "gc_ok s'" and p: "node_live s' (kind_of c) p" "value_of s' (kind_of c) p = c"
    and r: "\<And>k q. node_live s k q \<Longrightarrow> node_live s' k q \<and> nodes (tables s' k) q = nodes (tables s k) q"
      "\<And>k q. node_live s' k q \<Longrightarrow> node_live s k q \<or> k = kind_of c \<and> q = p"
    by (rule add_value_ok [OF assms(1)]) (rule that, assumption+)
  have "q = p" if "is_number c" "node_live s' (kind_of c) q" "value_of s' (kind_of c) q = c" for q
    using add_value_again [OF ok that] add_value_again [OF ok that(1) p] by simp
  then have "if is_number c
     then add_value c s' = Some (p, s') \<and> (\<forall>q. node_live s' (kind_of c) q \<and> value_of s' (kind_of c) q = c \<longrightarrow> q = p)
     else \<not> node_live s (kind_of c) p"
    using add_value_again [OF ok _ p] add_nan [OF assms(1) _ a] by (simp del: not_None_eq)
  then show ?thesis unfolding EnvAddAtom_value [OF assms(2)] using a ok p r by blast
qed

theorem EnvAddAtom_interns_witness:
  "\<exists>p s'. EnvAddAtom (Sym ''abc'') two_symbols = Some (p, s') \<and> gc_ok s' \<and> node_live s' SYMBOL_NODE 0 \<and>
     value_of s' SYMBOL_NODE p = Sym ''abc'' \<and> EnvAddAtom (Sym ''abc'') s' = Some (p, s')"
proof -
  have "node_live two_symbols SYMBOL_NODE 0" by code_simp
  then show ?thesis using EnvAddAtom_interns [OF two_symbols_ok, of "Sym ''abc''"] by auto
qed

text \<open>C29. Cleaning a garbage frame and leaving it return, keep the tables consistent, and free of the frame exactly the
  atomic values without uses and the multifields that are not busy; what is returned through the frame is not
  freed: its nodes keep their contents and a multifield keeps its fields. The clean-up functions are assumed to give up no use
  of the returned value.\<close>

theorem RestorePriorGarbageFrame_safe:
  assumes "gc_ok s" "dirty (CurrentGarbageFrame s)" "2 \<le> length (frames s)" "value_ok (returned returnValue) s"
    and "with_value ValueInstall returnValue s = Some s0" "cleanup s0 = Some s1" "cleanup_respects (returned returnValue) s0 s1"
  shows "(\<exists>s'. CleanCurrentGarbageFrame cleanup returnValue s = Some s' \<and> frame_cleaned (returned returnValue) s s1 s') \<and>
    (\<exists>s'. RestorePriorGarbageFrame cleanup returnValue s = Some s' \<and> length (frames s') = length (frames s1) - 1 \<and>
      frame_cleaned (returned returnValue) s s1 s')"
  using clean_value [OF assms(1,2,4,5), of cleanup s1] restore_dirty_frame [OF assms(1-5), of cleanup s1] assms(6,7) by auto

theorem RestorePriorGarbageFrame_safe_witness:
  "\<exists>s'. RestorePriorGarbageFrame Some (Some (Single (Node SYMBOL_NODE 0))) two_symbols = Some s' \<and> gc_ok s' \<and>
     node_live s' SYMBOL_NODE 0 \<and> \<not> node_live s' SYMBOL_NODE 1"
proof -
  let ?rv = "Some (Single (Node SYMBOL_NODE 0))" and ?v = "Single (Node SYMBOL_NODE 0)"
  have v: "value_ok (returned ?rv) two_symbols"
    by (simp add: returned_def value_ok_def fields_of_def refs_live_def) code_simp
  obtain s0 where s0: "ValueInstall ?v two_symbols = Some s0" "gc_ok s0"
    using ValueInstall_ok [OF two_symbols_ok, of ?v] v by (auto simp: returned_def value_ok_def allocated_def)
  then have e: "s0 = the (ValueInstall ?v two_symbols)" by simp
  have d: "dirty (CurrentGarbageFrame s0)" "node_live s0 SYMBOL_NODE 0" "uses [Node SYMBOL_NODE 0] SYMBOL_NODE 0 \<le> count_of s0 SYMBOL_NODE 0"
    unfolding e by code_simp+
  have "cleanup_respects (returned ?rv) s0 s0"
    using s0(2) d by (simp add: cleanup_respects_def returned_def fields_of_def)
  moreover have "dirty (CurrentGarbageFrame two_symbols)" "2 \<le> length (frames two_symbols)" by code_simp+
  moreover have "1 \<in> set (ephemerals (CurrentGarbageFrame s0) SYMBOL_NODE)" "count_of s0 SYMBOL_NODE 1 = 0"
    unfolding e by code_simp+
  ultimately show ?thesis
    using RestorePriorGarbageFrame_safe [OF two_symbols_ok _ _ v, of s0 Some s0] s0(1)
    by (auto simp: with_value_def returned_def frame_cleaned_def fields_of_def)
qed

end
