(* ===== verification/Fact_Functions.thy ===== *)
theory Fact_Functions
  imports Fact_Manager Arguments
begin

text \<open>
  The commands and functions of the language that create, change and look up facts: \<open>assert\<close>
  and \<open>fact-index\<close> of \<open>factcom.c\<close>, \<open>modify\<close> and \<open>duplicate\<close> of \<open>tmpltfun.c\<close>, and \<open>factfun.c\<close>. An argument is
  evaluated when its turn comes and may change the state; its value is \<open>None\<close> for \<open>RVOID\<close>.
\<close>

type_synonym fact_expr = "fact_env \<Rightarrow> val option \<times> fact_env"

abbreviation FALSE_SYMBOL :: val where "FALSE_SYMBOL \<equiv> SYMBOL ''FALSE''"

definition put_field :: "addr \<Rightarrow> nat \<Rightarrow> val option \<Rightarrow> fact_env \<Rightarrow> fact_env" where
  "put_field f i v s = upd_fact f (\<lambda>x. x\<lparr>theProposition := (theProposition x)[i := v]\<rparr>) s"

definition holds_multifield :: "val option \<Rightarrow> bool" where
  "holds_multifield v = (case v of Some (MULTIFIELD vs) \<Rightarrow> True | _ \<Rightarrow> False)"

section \<open>The assert command\<close>

text \<open>Reporting a multifield in a single-field slot raises the evaluation error.\<close>

definition multi_into_single :: "templateSlot \<Rightarrow> addr \<Rightarrow> fact_env \<Rightarrow> fact_env" where
  "multi_into_single sl t s =
     set_engine (SetEvaluationError True \<circ> print_message (MultiIntoSingleFieldSlotError (slotName sl) (t_name (deftemplates s t)))) s"

text \<open>The loop over the slots, \<open>slotPtr\<close> the rest of the slot list. An implied deftemplate has no slots.\<close>

fun assert_slots :: "addr \<Rightarrow> addr \<Rightarrow> fact_expr list \<Rightarrow> nat \<Rightarrow> templateSlot list \<Rightarrow> bool \<Rightarrow> fact_env \<Rightarrow> bool \<times> fact_env" where
  "assert_slots f t [] i slotPtr error s = (error, s)"
| "assert_slots f t (a # as) i slotPtr error s =
     (case a s of (v, s1) \<Rightarrow>
        case slotPtr of
          [] \<Rightarrow> assert_slots f t as (i + 1) [] error (put_field f i v s1)
        | sl # sls \<Rightarrow>
            if \<not> multislot sl \<and> holds_multifield v
            then assert_slots f t as (i + 1) sls True (put_field f i (Some FALSE_SYMBOL) (multi_into_single sl t s1))
            else assert_slots f t as (i + 1) sls error (put_field f i v s1))"

definition new_fact :: "addr \<Rightarrow> addr \<Rightarrow> bool \<Rightarrow> fact_env \<Rightarrow> fact_env" where
  "new_fact t f no_args s =
     upd_fact f (\<lambda>x. x\<lparr>whichDeftemplate := t\<rparr>)
       (if \<not> implied (deftemplates s t) then CreateFactBySize (length (slotList (deftemplates s t))) f s
        else if no_args then put_field f 0 (Some (MULTIFIELD [])) (CreateFactBySize 1 f s)
        else CreateFactBySize 1 f s)"

definition assert_result :: "pointer \<times> fact_env \<Rightarrow> val \<times> fact_env" where
  "assert_result r = (case fst r of None \<Rightarrow> FALSE_SYMBOL | Some g \<Rightarrow> FACT_ADDRESS g, snd r)"

text \<open>\<open>t\<close> is the deftemplate, the first argument, and \<open>f\<close> the address of the new fact.\<close>

definition AssertCommand :: "fact_hooks \<Rightarrow> addr \<Rightarrow> fact_expr list \<Rightarrow> addr \<Rightarrow> fact_env \<Rightarrow> (val \<times> fact_env) option" where
  "AssertCommand h t args f s =
     (case assert_slots f t args 0 (if implied (deftemplates s t) then [] else slotList (deftemplates s t)) False
             (new_fact t f (args = []) s) of (error, s1) \<Rightarrow>
        if error then Some (FALSE_SYMBOL, s1)
        else map_option assert_result (EnvAssert h f s1))"

section \<open>The modify and duplicate commands\<close>

text \<open>A slot is named, or given by its position when the parser has found it.\<close>

datatype slotRef = SlotPosition nat | SlotName string

fun slot_position :: "templateSlot list \<Rightarrow> slotRef \<Rightarrow> nat option" where
  "slot_position sls (SlotPosition i) = Some i"
| "slot_position sls (SlotName n) = FindSlot sls n"

text \<open>\<open>StoreInMultifield\<close> with the evaluation of its arguments; an error gives the empty multifield.\<close>

fun store_fields :: "fact_expr list \<Rightarrow> val list \<Rightarrow> fact_env \<Rightarrow> val \<times> fact_env" where
  "store_fields [] vs s = (MULTIFIELD vs, s)"
| "store_fields (a # as) vs s =
     (case a s of (v, s1) \<Rightarrow>
        if EvaluationError (engine s1) then (MULTIFIELD [], s1)
        else store_fields as (vs @ (case v of None \<Rightarrow> [] | Some (MULTIFIELD ws) \<Rightarrow> ws | Some w \<Rightarrow> [w])) s1)"

text \<open>One round of the loop that replaces slots; \<open>False\<close> ends the command. A multifield slot of the copied fact has no
  value at first, a null pointer in a field of type \<open>MULTIFIELD\<close>: \<open>nulls\<close> are the positions of the slots for which this
  is so, and \<open>MULTIFIELD []\<close> stands there for the field.\<close>

definition replace_slot :: "addr \<Rightarrow> addr \<Rightarrow> slotRef \<Rightarrow> fact_expr list \<Rightarrow> nat list \<Rightarrow> fact_env \<Rightarrow> bool \<times> nat list \<times> fact_env" where
  "replace_slot f t r args nulls s =
     (let sls = slotList (deftemplates s t) in
      case slot_position sls r of
        None \<Rightarrow> (False, nulls, set_engine (SetEvaluationError True \<circ>
                  print_message (InvalidDeftemplateSlotMessage (case r of SlotName n \<Rightarrow> n | SlotPosition i \<Rightarrow> []) (t_name (deftemplates s t)))) s)
      | Some i \<Rightarrow>
          if \<not> holds_multifield (theProposition (facts s f) ! i)
          then (case args of
                  [a] \<Rightarrow> (case a s of (v, s1) \<Rightarrow>
                          let s2 = set_engine (SetEvaluationError False) s1 in
                          if holds_multifield v then (False, nulls, multi_into_single (sls ! i) t s2)
                          else (True, nulls, put_field f i v s2))
                | _ \<Rightarrow> (False, nulls, multi_into_single (sls ! i) t s))
          else (case store_fields args [] s of (v, s1) \<Rightarrow>
                  (True, removeAll i nulls, put_field f i (Some v) (set_engine (SetEvaluationError False) s1))))"

fun replace_slots :: "addr \<Rightarrow> addr \<Rightarrow> (slotRef \<times> fact_expr list) list \<Rightarrow> nat list \<Rightarrow> fact_env \<Rightarrow> bool \<times> nat list \<times> fact_env" where
  "replace_slots f t [] nulls s = (True, nulls, s)"
| "replace_slots f t ((r, args) # rs) nulls s =
     (case replace_slot f t r args nulls s of
        (False, ns, s1) \<Rightarrow> (False, ns, s1)
      | (True, ns, s1) \<Rightarrow> replace_slots f t rs ns s1)"

text \<open>Giving up the copied fact, \<open>ReturnFact\<close>: a multifield without a value is dereferenced, which ends the program;
  \<open>None\<close> is that the command does not return.\<close>

definition give_up_fact :: "nat list \<Rightarrow> fact_env \<Rightarrow> (val \<times> fact_env) option" where
  "give_up_fact nulls s = (if nulls \<noteq> [] then None else Some (FALSE_SYMBOL, s))"

text \<open>The multifields that have not been replaced are copied from the old fact.\<close>

fun copy_multifields :: "addr \<Rightarrow> addr \<Rightarrow> nat list \<Rightarrow> fact_env \<Rightarrow> fact_env" where
  "copy_multifields old f [] s = s"
| "copy_multifields old f (i # ns) s = copy_multifields old f ns (put_field f i (theProposition (facts s old) ! i) s)"

text \<open>The fact that is given by its index or address. The type error of this command does not halt by itself.\<close>

definition fact_argument :: "string \<Rightarrow> val option \<Rightarrow> fact_env \<Rightarrow> addr option \<times> fact_env" where
  "fact_argument name v s =
     (let wrong = (None, set_engine (SetEvaluationError True \<circ> print_message (ExpectedTypeError2 name 1)) s)
      in case v of
           Some (INTEGER i) \<Rightarrow>
             if i < 0 then wrong
             else (case FindIndexedFact i s of
                     None \<Rightarrow> (None, set_engine (print_message (CantFindFact i)) s)
                   | Some g \<Rightarrow> (Some g, s))
         | Some (FACT_ADDRESS g) \<Rightarrow> (Some g, s)
         | _ \<Rightarrow> wrong)"

text \<open>The copy, with its multifields null, and the positions of these.\<close>

definition null_slots :: "val option list \<Rightarrow> nat list" where
  "null_slots vs = filter (\<lambda>i. holds_multifield (vs ! i)) [0..<length vs]"

definition copy_fact :: "addr \<Rightarrow> addr \<Rightarrow> fact_env \<Rightarrow> fact_env" where
  "copy_fact old f s =
     upd_fact f (\<lambda>x. x\<lparr>theProposition := map (\<lambda>v. if holds_multifield v then Some (MULTIFIELD []) else v) (theProposition (facts s old)),
         whichDeftemplate := whichDeftemplate (facts s old)\<rparr>)
       (CreateFactBySize (length (theProposition (facts s old))) f s)"

text \<open>The functions that have been registered for modifications get the old fact and the new one, or no fact when
  the new one will be refused as a duplicate of a third.\<close>

type_synonym modify_functions = "(addr \<Rightarrow> pointer \<Rightarrow> fact_env \<Rightarrow> fact_env) list"

definition notify_modify :: "modify_functions \<Rightarrow> addr \<Rightarrow> addr \<Rightarrow> fact_env \<Rightarrow> fact_env" where
  "notify_modify ms old f s =
     (if ms = [] then s
      else (case FactWillBeAsserted f s of (will, s1) \<Rightarrow>
              let replacement = (if \<not> will \<and> \<not> MultifieldsEqual (theProposition (facts s1 old)) (theProposition (facts s1 f))
                                 then None else Some f);
                  s2 = (if replacement = None then s1
                        else upd_entity f (\<lambda>x. x\<lparr>timeTag := CurrentEntityTimeTag s1\<rparr>)
                               (upd_fact f (\<lambda>x. x\<lparr>factIndex := NextFactIndex s1\<rparr>) s1))
              in fold (\<lambda>m. m old replacement) ms s2))"

definition finish_modify :: "fact_hooks \<Rightarrow> modify_functions \<Rightarrow> bool \<Rightarrow> addr \<Rightarrow> addr \<Rightarrow> fact_env \<Rightarrow> (val \<times> fact_env) option" where
  "finish_modify h ms retractIt old f s =
     Option.bind (if retractIt then map_option snd (EnvRetract h old (notify_modify ms old f s)) else Some s)
       (\<lambda>s1. map_option assert_result (EnvAssert h f s1))"

definition DuplicateModifyCommand ::
  "fact_hooks \<Rightarrow> modify_functions \<Rightarrow> bool \<Rightarrow> fact_expr \<Rightarrow> (slotRef \<times> fact_expr list) list \<Rightarrow> addr \<Rightarrow> fact_env \<Rightarrow> (val \<times> fact_env) option" where
  "DuplicateModifyCommand h ms retractIt arg reps f s =
     (case arg s of (v, s1) \<Rightarrow>
      case fact_argument (if retractIt then ''modify'' else ''duplicate'') v s1 of
        (None, s2) \<Rightarrow> Some (FALSE_SYMBOL, s2)
      | (Some old, s2) \<Rightarrow>
          let t = whichDeftemplate (facts s2 old) in
          if implied (deftemplates s2 t) then Some (FALSE_SYMBOL, s2)
          else (case replace_slots f t reps (null_slots (theProposition (facts s2 old))) (copy_fact old f s2) of
                  (False, nulls, s3) \<Rightarrow> give_up_fact nulls s3
                | (True, nulls, s3) \<Rightarrow> finish_modify h ms retractIt old f (copy_multifields old f nulls s3)))"

definition ModifyCommand :: "fact_hooks \<Rightarrow> modify_functions \<Rightarrow> fact_expr \<Rightarrow> (slotRef \<times> fact_expr list) list \<Rightarrow> addr \<Rightarrow> fact_env \<Rightarrow> (val \<times> fact_env) option" where
  "ModifyCommand h ms arg reps f s = DuplicateModifyCommand h ms True arg reps f s"

definition DuplicateCommand :: "fact_hooks \<Rightarrow> modify_functions \<Rightarrow> fact_expr \<Rightarrow> (slotRef \<times> fact_expr list) list \<Rightarrow> addr \<Rightarrow> fact_env \<Rightarrow> (val \<times> fact_env) option" where
  "DuplicateCommand h ms arg reps f s = DuplicateModifyCommand h ms False arg reps f s"

section \<open>Functions on facts\<close>

text \<open>These functions get the values of their arguments, as in \<open>Arguments\<close>.\<close>

definition count_ok :: "string \<Rightarrow> count_relation \<Rightarrow> nat \<Rightarrow> val list \<Rightarrow> fact_env \<Rightarrow> bool \<times> fact_env" where
  "count_ok name rel n args s = (case EnvArgCountCheck name rel n args (engine s) of (c, e) \<Rightarrow> (c \<noteq> - 1, set_engine (\<lambda>_. e) s))"

definition EnvFactIndex :: "addr \<Rightarrow> fact_env \<Rightarrow> int" where
  "EnvFactIndex f s = factIndex (facts s f)"

definition FactIndexFunction :: "val list \<Rightarrow> fact_env \<Rightarrow> int \<times> fact_env" where
  "FactIndexFunction args s =
     (case count_ok ''fact-index'' EXACTLY 1 args s of
        (False, s1) \<Rightarrow> (- 1, s1)
      | (True, s1) \<Rightarrow>
          (case hd args of
             FACT_ADDRESS f \<Rightarrow> (if garbage (facts s1 f) then - 1 else EnvFactIndex f s1, s1)
           | _ \<Rightarrow> (- 1, set_engine (print_message (ExpectedTypeError1 ''fact-index'' 1)) s1)))"

definition GetFactAddressOrIndexArgument :: "string \<Rightarrow> nat \<Rightarrow> bool \<Rightarrow> val \<Rightarrow> fact_env \<Rightarrow> pointer \<times> fact_env" where
  "GetFactAddressOrIndexArgument theFunction position noFactError v s =
     (let wrong = (None, set_engine (print_message (ExpectedTypeError1 theFunction position)) s)
      in case v of
           FACT_ADDRESS f \<Rightarrow> (if garbage (facts s f) then None else Some f, s)
         | INTEGER i \<Rightarrow>
             if i < 0 then wrong
             else (case FindIndexedFact i s of
                     None \<Rightarrow> (None, if noFactError then set_engine (print_message (CantFindFact i)) s else s)
                   | Some f \<Rightarrow> (Some f, s))
         | _ \<Rightarrow> wrong)"

definition EnvFactDeftemplate :: "addr \<Rightarrow> fact_env \<Rightarrow> addr" where
  "EnvFactDeftemplate f s = whichDeftemplate (facts s f)"

definition FactRelation :: "addr \<Rightarrow> fact_env \<Rightarrow> val" where
  "FactRelation f s = SYMBOL (t_name (deftemplates s (whichDeftemplate (facts s f))))"

definition FactRelationFunction :: "val list \<Rightarrow> fact_env \<Rightarrow> val \<times> fact_env" where
  "FactRelationFunction args s =
     (case count_ok ''fact-relation'' EXACTLY 1 args s of
        (False, s1) \<Rightarrow> (FALSE_SYMBOL, s1)
      | (True, s1) \<Rightarrow>
          (case GetFactAddressOrIndexArgument ''fact-relation'' 1 False (hd args) s1 of
             (None, s2) \<Rightarrow> (FALSE_SYMBOL, s2)
           | (Some f, s2) \<Rightarrow> (FactRelation f s2, s2)))"

definition EnvFactExistp :: "pointer \<Rightarrow> fact_env \<Rightarrow> bool" where
  "EnvFactExistp p s = (case p of None \<Rightarrow> False | Some f \<Rightarrow> \<not> garbage (facts s f))"

text \<open>A wrong number of arguments returns -1, which is true.\<close>

definition FactExistpFunction :: "val list \<Rightarrow> fact_env \<Rightarrow> bool \<times> fact_env" where
  "FactExistpFunction args s =
     (case count_ok ''fact-existp'' EXACTLY 1 args s of
        (False, s1) \<Rightarrow> (True, s1)
      | (True, s1) \<Rightarrow>
          (case GetFactAddressOrIndexArgument ''fact-existp'' 1 False (hd args) s1 of (p, s2) \<Rightarrow> (EnvFactExistp p s2, s2)))"

text \<open>A slot that has not been set gives \<open>RVOID\<close>.\<close>

definition FactSlotValue :: "addr \<Rightarrow> string \<Rightarrow> fact_env \<Rightarrow> val option \<times> fact_env" where
  "FactSlotValue f theSlotName s =
     (let t = deftemplates s (whichDeftemplate (facts s f));
          invalid = (Some FALSE_SYMBOL, set_engine (print_message (InvalidDeftemplateSlotMessage theSlotName (t_name t)) \<circ> SetEvaluationError True) s)
      in if implied t then (if theSlotName \<noteq> ''implied'' then invalid else (EnvGetFactSlot f None s, s))
         else if FindSlot (slotList t) theSlotName = None then invalid
         else (EnvGetFactSlot f (Some theSlotName) s, s))"

definition FactSlotValueFunction :: "val list \<Rightarrow> fact_env \<Rightarrow> val option \<times> fact_env" where
  "FactSlotValueFunction args s =
     (case count_ok ''fact-slot-value'' EXACTLY 2 args s of
        (False, s1) \<Rightarrow> (Some FALSE_SYMBOL, s1)
      | (True, s1) \<Rightarrow>
          (case GetFactAddressOrIndexArgument ''fact-slot-value'' 1 True (hd args) s1 of
             (None, s2) \<Rightarrow> (Some FALSE_SYMBOL, s2)
           | (Some f, s2) \<Rightarrow>
               (case EnvArgTypeCheck ''fact-slot-value'' 2 ty_SYMBOL args (engine s2) of
                  (None, e) \<Rightarrow> (Some FALSE_SYMBOL, set_engine (\<lambda>_. e) s2)
                | (Some v, e) \<Rightarrow> FactSlotValue f (DOToString v) (set_engine (\<lambda>_. e) s2))))"

definition EnvFactSlotNames :: "addr \<Rightarrow> fact_env \<Rightarrow> val" where
  "EnvFactSlotNames f s =
     (let t = deftemplates s (whichDeftemplate (facts s f))
      in MULTIFIELD (if implied t then [SYMBOL ''implied''] else map (SYMBOL \<circ> slotName) (slotList t)))"

definition FactSlotNamesFunction :: "val list \<Rightarrow> fact_env \<Rightarrow> val \<times> fact_env" where
  "FactSlotNamesFunction args s =
     (case count_ok ''fact-slot-names'' EXACTLY 1 args s of
        (False, s1) \<Rightarrow> (FALSE_SYMBOL, s1)
      | (True, s1) \<Rightarrow>
          (case GetFactAddressOrIndexArgument ''fact-slot-names'' 1 True (hd args) s1 of
             (None, s2) \<Rightarrow> (FALSE_SYMBOL, s2)
           | (Some f, s2) \<Rightarrow> (EnvFactSlotNames f s2, s2)))"

section \<open>Traversals and settings\<close>

text \<open>\<open>inScope\<close> is the flag that \<open>UpdateDeftemplateScope\<close> sets on the deftemplates that the current module sees.\<close>

definition GetNextFactInScope :: "(addr \<Rightarrow> bool) \<Rightarrow> pointer \<Rightarrow> fact_env \<Rightarrow> pointer" where
  "GetNextFactInScope inScope p s =
     (let search = (\<lambda>fs. find (\<lambda>g. inScope (whichDeftemplate (facts s g))) fs)
      in case p of
           None \<Rightarrow> search (FactList s)
         | Some f \<Rightarrow> if garbage (facts s f) then None else search (tl (dropWhile (\<lambda>g. g \<noteq> f) (FactList s))))"

text \<open>The loop that follows a traversal function to its end.\<close>

partial_function (option) traverse_facts :: "(pointer \<Rightarrow> pointer) \<Rightarrow> pointer \<Rightarrow> addr list option" where
  "traverse_facts next_fact p =
     (case p of None \<Rightarrow> Some []
      | Some f \<Rightarrow> Option.bind (traverse_facts next_fact (next_fact (Some f))) (\<lambda>fs. Some (f # fs)))"

definition EnvGetFactList :: "(addr \<Rightarrow> bool) option \<Rightarrow> fact_env \<Rightarrow> val option" where
  "EnvGetFactList theModule s =
     (let next_fact = (case theModule of None \<Rightarrow> (\<lambda>p. EnvGetNextFact p s) | Some inScope \<Rightarrow> (\<lambda>p. GetNextFactInScope inScope p s))
      in map_option (MULTIFIELD \<circ> map FACT_ADDRESS) (traverse_facts next_fact (next_fact None)))"

definition SetFactDuplicationCommand :: "val list \<Rightarrow> fact_env \<Rightarrow> bool \<times> fact_env" where
  "SetFactDuplicationCommand args s =
     (let oldValue = EnvGetFactDuplication s
      in case count_ok ''set-fact-duplication'' EXACTLY 1 args s of
           (False, s1) \<Rightarrow> (oldValue, s1)
         | (True, s1) \<Rightarrow> (oldValue, snd (EnvSetFactDuplication (hd args \<noteq> FALSE_SYMBOL) s1)))"

definition GetFactDuplicationCommand :: "val list \<Rightarrow> fact_env \<Rightarrow> bool \<times> fact_env" where
  "GetFactDuplicationCommand args s = (EnvGetFactDuplication s, snd (count_ok ''get-fact-duplication'' EXACTLY 0 args s))"

definition EnvGetFactListChanged :: "fact_env \<Rightarrow> bool" where
  "EnvGetFactListChanged s = ChangeToFactList s"

definition EnvSetFactListChanged :: "bool \<Rightarrow> fact_env \<Rightarrow> fact_env" where
  "EnvSetFactListChanged v s = s\<lparr>ChangeToFactList := v\<rparr>"

definition GetNumberOfFacts :: "fact_env \<Rightarrow> u64" where
  "GetNumberOfFacts s = NumberOfFacts s"

end
