(* ===== verification/Fact_Types.thy ===== *)
theory Fact_Types
  imports Fact_Functions Fact_Properties
begin

text \<open>
  Types of slots: every fact of the list has a value for each slot of its deftemplate, a multifield exactly in
  the multifield slots, and a fact with an implied deftemplate is one multifield. The commands
  \<open>assert\<close>, \<open>modify\<close> and \<open>duplicate\<close> keep this.
\<close>

section \<open>Well-typed facts\<close>

definition slot_fits :: "templateSlot \<Rightarrow> val option \<Rightarrow> bool" where
  "slot_fits sl v = (case v of None \<Rightarrow> False | Some w \<Rightarrow> is_multifield w = multislot sl)"

definition conforms :: "deftemplate \<Rightarrow> val option list \<Rightarrow> bool" where
  "conforms t vs = (if implied t then length vs = 1 \<and> holds_multifield (hd vs) else list_all2 slot_fits (slotList t) vs)"

text \<open>\<open>D\<close> gives the deftemplates.\<close>

definition well_typed :: "(addr \<Rightarrow> deftemplate) \<Rightarrow> fact_env \<Rightarrow> bool" where
  "well_typed D s \<longleftrightarrow> (\<forall>f \<in> set (FactList s). conforms (D (whichDeftemplate (facts s f))) (theProposition (facts s f)))"

text \<open>Before a fact is asserted a single-field slot may still be without a value.\<close>

definition slot_ready :: "templateSlot \<Rightarrow> val option \<Rightarrow> bool" where
  "slot_ready sl v = (if multislot sl then holds_multifield v else \<not> holds_multifield v)"

definition assertable :: "deftemplate \<Rightarrow> val option list \<Rightarrow> bool" where
  "assertable t vs = (if implied t then length vs = 1 \<and> holds_multifield (hd vs) else list_all2 slot_ready (slotList t) vs)"

lemma holds_multifield_cases: "holds_multifield v \<longleftrightarrow> (\<exists>w. v = Some w \<and> is_multifield w)"
  by (auto simp: holds_multifield_def is_multifield_def split: option.splits val.splits)

lemma slot_fits_replace: "slot_ready sl v \<Longrightarrow> slot_fits sl (if v = None then Some (SYMBOL ''nil'') else v)"
  by (cases v) (auto simp: slot_ready_def slot_fits_def holds_multifield_cases is_multifield_def split: if_splits)

lemma conforms_replace_void: "assertable t vs \<Longrightarrow> conforms t (replace_void vs)"
proof (cases "implied t")
  case True
  assume "assertable t vs"
  then obtain v where "vs = [v]" "holds_multifield v" using True by (auto simp: assertable_def length_Suc_conv)
  then show ?thesis using True by (auto simp: conforms_def replace_void_def holds_multifield_cases)
next
  case False
  assume "assertable t vs"
  then show ?thesis using False
    by (auto simp: assertable_def conforms_def replace_void_def list_all2_map2 elim!: list_all2_mono dest!: slot_fits_replace)
qed

lemma conforms_assertable: "conforms t vs \<Longrightarrow> assertable t vs"
  by (auto simp: assertable_def conforms_def slot_fits_def slot_ready_def holds_multifield_cases split: option.splits
      elim!: list_all2_mono)

section \<open>States of a command\<close>

text \<open>The facts \<open>K\<close> are on the list or have been retracted.\<close>

definition known_fact :: "addr \<Rightarrow> fact_env \<Rightarrow> bool" where
  "known_fact g s \<longleftrightarrow> g \<in> set (FactList s) \<or> garbage (facts s g)"

definition shapes :: "(addr \<Rightarrow> deftemplate) \<Rightarrow> fact_env \<Rightarrow> bool" where
  "shapes D s \<longleftrightarrow> (\<forall>t. implied (deftemplates s t) = implied (D t) \<and> slotList (deftemplates s t) = slotList (D t))"

definition base_state :: "(addr \<Rightarrow> deftemplate) \<Rightarrow> addr set \<Rightarrow> fact_env \<Rightarrow> bool" where
  "base_state D K s \<longleftrightarrow> facts_ready s \<and> well_typed D s \<and> NumberOfFacts s \<noteq> - 1 \<and> shapes D s \<and> (\<forall>g \<in> K. known_fact g s)"

text \<open>The fact \<open>f\<close> has been created and not yet asserted.\<close>

definition command_state :: "(addr \<Rightarrow> deftemplate) \<Rightarrow> addr set \<Rightarrow> addr \<Rightarrow> fact_env \<Rightarrow> bool" where
  "command_state D K f s \<longleftrightarrow> base_state D K s \<and> fresh_fact f s"

definition free_fact :: "addr \<Rightarrow> fact_env \<Rightarrow> bool" where
  "free_fact f s \<longleftrightarrow> f \<notin> set (FactList s) \<and> f \<notin> set (GarbageFacts s)"

lemma facts_ready_upd:
  assumes "facts_ready s" "free_fact f s" "f_dependents (u (facts s f)) = []"
  shows "facts_ready (upd_fact f u s)"
proof -
  let ?s = "upd_fact f u s"
  have f: "f \<notin> set (FactList s)" "f \<notin> set (GarbageFacts s)" using assms(2) by (simp_all add: free_fact_def)
  have "deps s f = []" using assms(1) f(1) by (auto simp: facts_ready_def supported_listed_def)
  then have d: "deps ?s g = deps s g" for g using assms(3) by simp
  have "holds_facts ?s (set (FactList s)) = holds_facts s (set (FactList s))"
    using f(1) by (intro holds_facts_fields) auto
  moreover have "facts ?s g = facts s g" if "g \<in> set (FactList s) \<or> g \<in> set (GarbageFacts s)" for g using f that by auto
  then have "filter (\<lambda>g. whichDeftemplate (facts ?s g) = t) (FactList s) = filter (\<lambda>g. whichDeftemplate (facts s g) = t) (FactList s)" for t
    by (intro filter_cong) auto
  ultimately have "store_ok ?s" using assms(1) f unfolding facts_ready_def store_ok_def by auto
  moreover have "links_ok ?s" using assms(1) unfolding facts_ready_def links_ok_def d by simp
  moreover have "supported_listed ?s" using assms(1) unfolding facts_ready_def supported_listed_def d by simp
  ultimately show ?thesis using assms(1) by (simp add: facts_ready_def counted_def)
qed

lemma fresh_free: "facts_ready s \<Longrightarrow> fresh_fact f s \<Longrightarrow> free_fact f s"
  by (auto simp: facts_ready_def store_ok_def fresh_fact_def free_fact_def)

lemma base_state_upd:
  assumes "base_state D K s" "free_fact f s" "f_dependents (u (facts s f)) = []" "f \<in> K \<Longrightarrow> garbage (u (facts s f))"
  shows "base_state D K (upd_fact f u s)"
  using assms facts_ready_upd [of s f u] by (auto simp: base_state_def well_typed_def shapes_def free_fact_def known_fact_def)

lemma command_state_upd:
  assumes "command_state D K f s" "f_dependents (u (facts s f)) = f_dependents (facts s f)" "garbage (u (facts s f)) = garbage (facts s f)"
  shows "command_state D K f (upd_fact f u s)"
proof -
  have "free_fact f s" using assms(1) fresh_free by (auto simp: command_state_def base_state_def)
  moreover have "f \<notin> K" using assms(1) by (auto simp: command_state_def base_state_def known_fact_def fresh_fact_def)
  ultimately have "base_state D K (upd_fact f u s)" using assms base_state_upd [of D K s f u] by (simp add: command_state_def fresh_fact_def)
  then show ?thesis using assms by (simp add: command_state_def fresh_fact_def)
qed

lemma base_state_engine: "base_state D K (s\<lparr>engine := e\<rparr>) = base_state D K s"
proof -
  have "engine_only s (s\<lparr>engine := e\<rparr>)" by (simp add: engine_only_def)
  from engine_only_ready(1) [OF this] show ?thesis by (simp add: base_state_def well_typed_def shapes_def known_fact_def)
qed

lemma command_state_engine:
  "command_state D K f (set_engine g s) = command_state D K f s" "command_state D K f (upd_entity h v s) = command_state D K f s"
  "base_state D K (set_engine g s) = base_state D K s" "base_state D K (upd_entity h v s) = base_state D K s"
  by (simp_all add: command_state_def fresh_fact_def set_engine_def upd_entity_def base_state_engine)

section \<open>Asserting\<close>

lemma EnvAssert_typed:
  assumes "fact_network h" "facts_ready s" "well_typed D s" "NumberOfFacts s \<noteq> - 1" "fresh_fact f s"
    and a: "assertable (D (whichDeftemplate (facts s f))) (theProposition (facts s f))"
  obtains p s' where "EnvAssert h f s = Some (p, s')" "facts_ready s'" "well_typed D s'" "p \<in> {None, Some f}"
    "set (FactList s') \<subseteq> insert f (set (FactList s))"
proof -
  note s = assms(2-5)
  have f: "f \<notin> set (FactList s)" using s(4) by (simp add: fresh_fact_def)
  have typed: "well_typed D s'" if "set (FactList s') \<subseteq> set (FactList s)" "\<And>g. g \<noteq> f \<Longrightarrow> contents (facts s' g) = contents (facts s g)" for s'
    using s(2) that f unfolding well_typed_def contents_def by (metis prod.inject subset_iff)
  show ?thesis
  proof (cases "FactDuplication s \<or> (\<forall>g. \<not> duplicate_of f s g)")
    case False
    then obtain s' where "EnvAssert h f s = Some (None, s')" "facts_ready s'" "FactList s' = FactList s"
      "\<forall>x. x \<noteq> f \<longrightarrow> contents (facts s' x) = contents (facts s x)"
      using deleting_network.EnvAssert_duplicate [OF fact_networkD [OF assms(1)] s(1,4)] by blast
    then show ?thesis using that typed by auto
  next
    case True
    show ?thesis
    proof (cases "support_gone s")
      case gone: True
      then obtain s' where "EnvAssert h f s = Some (None, s')" "facts_ready s'" "FactList s' = FactList s"
        "\<forall>x. x \<noteq> f \<longrightarrow> contents (facts s' x) = contents (facts s x)"
        using deleting_network.EnvAssert_unsupported [OF fact_networkD [OF assms(1)] s(1,4) True] by blast
      then show ?thesis using that typed by auto
    next
      case False
      obtain s' s4 where s': "EnvAssert h f s = Some (Some f, s')" "facts_ready s'" "only_unsupported_lost {} UNIV s4 s'"
        "FactList s4 = FactList s @ [f]" "\<And>g. g \<noteq> f \<Longrightarrow> contents (facts s4 g) = contents (facts s g)"
        "contents (facts s4 f) = (whichDeftemplate (facts s f), replace_void (theProposition (facts s f)), NextFactIndex s)"
        by (rule deleting_network.EnvAssert_new [OF fact_networkD [OF assms(1)] s(1,4,3) True False]) (rule that, assumption+)
      have sv: "set (FactList s') \<subseteq> set (FactList s @ [f])" "contents (facts s' g) = contents (facts s4 g)" for g
        using s'(3,4) by (auto simp: only_unsupported_lost_def survivors_def)
      have "conforms (D (whichDeftemplate (facts s' g))) (theProposition (facts s' g))" if "g \<in> set (FactList s')" for g
      proof (cases "g = f")
        case True
        then show ?thesis using sv(2) [of f] s'(6) conforms_replace_void [OF a] by (simp add: contents_def)
      next
        case g: False
        then have "g \<in> set (FactList s)" using that sv(1) by auto
        then show ?thesis using s(2) sv(2) [of g] s'(5) [OF g] by (simp add: well_typed_def contents_def)
      qed
      then have "well_typed D s'" by (simp add: well_typed_def)
      then show ?thesis using that [OF s'(1,2)] sv(1) by auto
    qed
  qed
qed

text \<open>What evaluating an argument may do: it keeps the state in order, leaves the new fact alone and does not change the
  contents of the facts in \<open>K\<close>.\<close>

definition keeps_state :: "(addr \<Rightarrow> deftemplate) \<Rightarrow> addr set \<Rightarrow> addr \<Rightarrow> (fact_env \<Rightarrow> fact_env) \<Rightarrow> bool" where
  "keeps_state D K f g \<longleftrightarrow> (\<forall>s. command_state D K f s \<longrightarrow> command_state D K f (g s) \<and>
     whichDeftemplate (facts (g s) f) = whichDeftemplate (facts s f) \<and> theProposition (facts (g s) f) = theProposition (facts s f) \<and>
     (\<forall>k \<in> K. contents (facts (g s) k) = contents (facts s k)))"

lemma not_known: "command_state D K f s \<Longrightarrow> k \<in> K \<Longrightarrow> k \<noteq> f"
  by (auto simp: command_state_def base_state_def known_fact_def fresh_fact_def)

abbreviation safe_expr :: "(addr \<Rightarrow> deftemplate) \<Rightarrow> addr set \<Rightarrow> addr \<Rightarrow> fact_expr \<Rightarrow> bool" where
  "safe_expr D K f a \<equiv> keeps_state D K f (\<lambda>s. snd (a s))"

text \<open>The arguments for the multifield slots give multifields: the parser wraps them in a function that makes one.\<close>

definition arg_fits :: "templateSlot \<Rightarrow> fact_expr \<Rightarrow> bool" where
  "arg_fits sl a \<longleftrightarrow> (multislot sl \<longrightarrow> (\<forall>s. holds_multifield (fst (a s))))"

lemma put_field_state:
  "command_state D K f s \<Longrightarrow> command_state D K f (put_field f i v s)"
  "whichDeftemplate (facts (put_field f i v s) g) = whichDeftemplate (facts s g)"
  "theProposition (facts (put_field f i v s) f) = (theProposition (facts s f))[i := v]"
  "k \<noteq> f \<Longrightarrow> facts (put_field f i v s) k = facts s k"
  by (simp_all add: put_field_def command_state_upd)

lemma set_engine_facts [simp]: "facts (set_engine g s) = facts s" "deftemplates (set_engine g s) = deftemplates s" "FactList (set_engine g s) = FactList s"
  by (simp_all add: set_engine_def)

lemma upd_entity_facts [simp]: "facts (upd_entity g u s) = facts s"
  by (simp add: upd_entity_def)

lemma multi_into_single_state [simp]:
  "command_state D K f (multi_into_single sl t s) = command_state D K f s" "facts (multi_into_single sl t s) = facts s"
  by (simp_all add: multi_into_single_def command_state_engine)

lemma assert_slots_typed:
  assumes "command_state D K f s" "list_all (safe_expr D K f) args" "list_all2 arg_fits sls args"
    "length (theProposition (facts s f)) = i + length args" "assert_slots f t args i sls e s = (e', s')"
  shows "command_state D K f s' \<and> whichDeftemplate (facts s' f) = whichDeftemplate (facts s f) \<and>
    (\<exists>ws. theProposition (facts s' f) = take i (theProposition (facts s f)) @ ws \<and> list_all2 slot_ready sls ws)"
  using assms
proof (induction args arbitrary: i sls e s)
  case (Cons a args)
  obtain sl sls' where sls: "sls = sl # sls'" "arg_fits sl a" "list_all2 arg_fits sls' args"
    using Cons.prems(3) by (auto simp: list_all2_Cons2)
  obtain v s1 where a: "a s = (v, s1)" by fastforce
  have s1: "command_state D K f s1" "whichDeftemplate (facts s1 f) = whichDeftemplate (facts s f)"
    "theProposition (facts s1 f) = theProposition (facts s f)"
    using Cons.prems(1,2) a by (auto simp: keeps_state_def)
  define err where "err = (\<not> multislot sl \<and> holds_multifield v)"
  define w where "w = (if err then Some FALSE_SYMBOL else v)"
  define s2 where "s2 = put_field f i w (if err then multi_into_single sl t s1 else s1)"
  have s2: "command_state D K f s2" "whichDeftemplate (facts s2 f) = whichDeftemplate (facts s f)"
    "theProposition (facts s2 f) = (theProposition (facts s f))[i := w]"
    using s1 by (auto simp: s2_def put_field_state split: if_splits)
  have r: "slot_ready sl w"
    using sls(2) a by (auto simp: w_def err_def slot_ready_def arg_fits_def holds_multifield_def dest: spec [of _ s])
  have rec: "assert_slots f t args (i + 1) sls' (err \<or> e) s2 = (e', s')"
    using Cons.prems(5) a by (auto simp: sls(1) s2_def w_def err_def split: if_splits)
  have len: "length (theProposition (facts s2 f)) = (i + 1) + length args" "i < length (theProposition (facts s f))"
    using Cons.prems(4) s2(3) by simp_all
  from Cons.IH [OF s2(1) _ sls(3) len(1) rec] Cons.prems(2) obtain ws where ih: "command_state D K f s'"
    "whichDeftemplate (facts s' f) = whichDeftemplate (facts s2 f)"
    "theProposition (facts s' f) = take (i + 1) (theProposition (facts s2 f)) @ ws" "list_all2 slot_ready sls' ws" by auto
  have "take (i + 1) ((theProposition (facts s f))[i := w]) = take i (theProposition (facts s f)) @ [w]"
    using len(2) by (simp add: take_Suc_conv_app_nth)
  then show ?case using ih s2 r sls(1) by (intro conjI exI [of _ "w # ws"]) simp_all
qed simp

lemma create_state:
  assumes "base_state D K s" "free_fact f s" "f \<notin> K"
  shows "command_state D K f (CreateFactBySize n f s)" "theProposition (facts (CreateFactBySize n f s) f) = replicate n None"
    "shapes D (CreateFactBySize n f s)"
proof -
  let ?u = "\<lambda>x. \<lparr>whichDeftemplate = 0, theProposition = replicate n None, factIndex = 0, hashValue = hashValue x, garbage = False, f_dependents = []\<rparr>"
  have c: "CreateFactBySize n f s = upd_entity f (\<lambda>x. x\<lparr>busyCount := 0\<rparr>) (upd_fact f ?u s)"
    by (simp add: CreateFactBySize_def upd_fact_def)
  have "base_state D K (upd_fact f ?u s)" using assms by (intro base_state_upd) simp_all
  moreover have "fresh_fact f (upd_fact f ?u s)" using assms(2) by (simp add: fresh_fact_def free_fact_def)
  ultimately show "command_state D K f (CreateFactBySize n f s)" unfolding c command_state_engine by (simp add: command_state_def)
  then show "shapes D (CreateFactBySize n f s)" by (simp add: command_state_def base_state_def)
  show "theProposition (facts (CreateFactBySize n f s) f) = replicate n None" by (simp add: CreateFactBySize_def upd_entity_def)
qed

text \<open>What the parser makes of the arguments: one for each slot of the deftemplate, or at most one, a multifield, when it
  is implied.\<close>

definition args_fit :: "deftemplate \<Rightarrow> fact_expr list \<Rightarrow> bool" where
  "args_fit t args \<longleftrightarrow> (if implied t then args = [] \<or> (\<exists>a. args = [a] \<and> (\<forall>s. holds_multifield (fst (a s)))) else list_all2 arg_fits (slotList t) args)"

lemma new_fact_state:
  assumes "base_state D K s" "free_fact f s" "f \<notin> K"
  shows "command_state D K f (new_fact t f b s)" "whichDeftemplate (facts (new_fact t f b s) f) = t"
    "\<not> implied (D t) \<Longrightarrow> length (theProposition (facts (new_fact t f b s) f)) = length (slotList (D t))"
    "implied (D t) \<Longrightarrow> theProposition (facts (new_fact t f b s) f) = [if b then Some (MULTIFIELD []) else None]"
proof -
  have sh: "implied (deftemplates s t) = implied (D t)" "slotList (deftemplates s t) = slotList (D t)"
    using assms(1) by (simp_all add: base_state_def shapes_def)
  note c = create_state [OF assms]
  show "command_state D K f (new_fact t f b s)" unfolding new_fact_def
    by (intro command_state_upd) (simp_all add: c put_field_state)
  show "whichDeftemplate (facts (new_fact t f b s) f) = t" by (simp add: new_fact_def)
  show "\<not> implied (D t) \<Longrightarrow> length (theProposition (facts (new_fact t f b s) f)) = length (slotList (D t))"
    "implied (D t) \<Longrightarrow> theProposition (facts (new_fact t f b s) f) = [if b then Some (MULTIFIELD []) else None]"
    by (simp_all add: new_fact_def sh c put_field_state)
qed

lemma AssertCommand_slots:
  assumes s: "base_state D K s" "free_fact f s" "f \<notin> K" and a: "list_all (safe_expr D K f) args" "args_fit (D t) args"
    and r: "assert_slots f t args 0 (if implied (deftemplates s t) then [] else slotList (deftemplates s t)) False
      (new_fact t f (args = []) s) = (e, s')"
  shows "command_state D K f s' \<and> whichDeftemplate (facts s' f) = t \<and> assertable (D t) (theProposition (facts s' f))"
proof (cases "implied (D t)")
  case False
  have sh: "implied (deftemplates s t) = implied (D t)" "slotList (deftemplates s t) = slotList (D t)"
    using s(1) by (simp_all add: base_state_def shapes_def)
  have fit: "list_all2 arg_fits (slotList (D t)) args" using a(2) False by (simp add: args_fit_def)
  then have len: "length (theProposition (facts (new_fact t f (args = []) s) f)) = 0 + length args"
    using list_all2_lengthD new_fact_state(3) [OF s False] by fastforce
  have run: "assert_slots f t args 0 (slotList (D t)) False (new_fact t f (args = []) s) = (e, s')"
    using r False by (simp add: sh)
  show ?thesis
    using assert_slots_typed [OF new_fact_state(1) [OF s] a(1) fit len run] new_fact_state(2) [OF s, of t] False
    by (auto simp: assertable_def)
next
  case True
  have sh: "implied (deftemplates s t)" using s(1) True by (simp add: base_state_def shapes_def)
  note n = new_fact_state [OF s, of t]
  consider "args = []" | x where "args = [x]" "\<forall>s. holds_multifield (fst (x s))" using a(2) True by (auto simp: args_fit_def)
  then show ?thesis
  proof cases
    case 1
    then show ?thesis using r n True by (auto simp: sh assertable_def holds_multifield_def)
  next
    case (2 x)
    obtain v s1 where x: "x (new_fact t f False s) = (v, s1)" by fastforce
    have s1: "command_state D K f s1" "whichDeftemplate (facts s1 f) = t" "theProposition (facts s1 f) = [None]"
      using a(1) n(1,2,4) [where b = False] True x 2(1) by (auto simp: keeps_state_def)
    have "s' = put_field f 0 v s1" using r 2(1) x by (simp add: sh)
    moreover have "holds_multifield v" using 2(2) x by (metis fst_conv)
    ultimately show ?thesis using s1 True by (simp add: put_field_state assertable_def)
  qed
qed

lemma AssertCommand_typed:
  assumes h: "fact_network h" and s: "base_state D K s" "free_fact f s" "f \<notin> K" and a: "list_all (safe_expr D K f) args" "args_fit (D t) args"
  shows "\<exists>v s'. AssertCommand h t args f s = Some (v, s') \<and> facts_ready s' \<and> well_typed D s' \<and> v \<in> {FALSE_SYMBOL, FACT_ADDRESS f}"
proof -
  obtain e s1 where r: "assert_slots f t args 0 (if implied (deftemplates s t) then [] else slotList (deftemplates s t)) False
      (new_fact t f (args = []) s) = (e, s1)" by fastforce
  have s1: "command_state D K f s1" "whichDeftemplate (facts s1 f) = t" "assertable (D t) (theProposition (facts s1 f))"
    using AssertCommand_slots [OF s a r] by simp_all
  show ?thesis
  proof (cases e)
    case True
    then show ?thesis using r s1(1) by (simp add: AssertCommand_def command_state_def base_state_def)
  next
    case False
    obtain p s' where "EnvAssert h f s1 = Some (p, s')" "facts_ready s'" "well_typed D s'" "p \<in> {None, Some f}"
      by (rule EnvAssert_typed [OF h, of s1 D f]) (use s1 in \<open>auto simp: command_state_def base_state_def\<close>)
    then show ?thesis using r False by (auto simp: AssertCommand_def assert_result_def)
  qed
qed

section \<open>Modifying and duplicating\<close>

lemma store_fields_state:
  assumes "list_all (safe_expr D K f) args" "command_state D K f s" "store_fields args vs s = (v, s')"
  shows "command_state D K f s' \<and> whichDeftemplate (facts s' f) = whichDeftemplate (facts s f) \<and>
    theProposition (facts s' f) = theProposition (facts s f) \<and> is_multifield v \<and>
    (\<forall>k \<in> K. contents (facts s' k) = contents (facts s k))"
  using assms
proof (induction args arbitrary: vs s)
  case (Cons a args)
  obtain w s1 where a: "a s = (w, s1)" by fastforce
  have s1: "command_state D K f s1" "whichDeftemplate (facts s1 f) = whichDeftemplate (facts s f)"
    "theProposition (facts s1 f) = theProposition (facts s f)" "\<forall>k \<in> K. contents (facts s1 k) = contents (facts s k)"
    using Cons.prems(1,2) a by (auto simp: keeps_state_def)
  show ?case
  proof (cases "EvaluationError (engine s1)")
    case True
    then show ?thesis using Cons.prems(3) a s1 by (auto simp: is_multifield_def)
  next
    case False
    then obtain us where "store_fields args us s1 = (v, s')" using Cons.prems(3) a by (auto split: if_splits)
    from Cons.IH [OF _ s1(1) this] Cons.prems(1) show ?thesis using s1 by auto
  qed
qed (auto simp: is_multifield_def)

lemma FindSlot_bound: "FindSlot sls n = Some i \<Longrightarrow> i < length sls"
  by (induction sls arbitrary: i) (auto split: if_splits)

text \<open>Positions are those of slots, and all expressions are safe.\<close>

definition reps_fit :: "(addr \<Rightarrow> deftemplate) \<Rightarrow> addr set \<Rightarrow> addr \<Rightarrow> addr \<Rightarrow> (slotRef \<times> fact_expr list) list \<Rightarrow> bool" where
  "reps_fit D K f t reps \<longleftrightarrow> (\<forall>(r, args) \<in> set reps. list_all (safe_expr D K f) args \<and>
     (case r of SlotPosition i \<Rightarrow> i < length (slotList (D t)) | SlotName n \<Rightarrow> True))"

lemma list_all2_put: "list_all2 P xs ys \<Longrightarrow> i < length xs \<Longrightarrow> P (xs ! i) v \<Longrightarrow> list_all2 P xs (ys[i := v])"
  using list_all2_update_cong [of P xs ys "xs ! i" v i] by simp

text \<open>What is kept while the slots are replaced, compared with the state \<open>s0\<close> at the beginning.\<close>

definition replacing :: "(addr \<Rightarrow> deftemplate) \<Rightarrow> addr set \<Rightarrow> addr \<Rightarrow> addr \<Rightarrow> fact_env \<Rightarrow> fact_env \<Rightarrow> bool" where
  "replacing D K f t s0 s \<longleftrightarrow> command_state D K f s \<and> whichDeftemplate (facts s f) = t \<and>
     list_all2 slot_ready (slotList (D t)) (theProposition (facts s f)) \<and> (\<forall>k \<in> K. contents (facts s k) = contents (facts s0 k))"

lemma replacing_engine [simp]:
  "replacing D K f t s0 (set_engine g s) = replacing D K f t s0 s" "replacing D K f t s0 (multi_into_single sl u s) = replacing D K f t s0 s"
  by (simp_all add: replacing_def command_state_engine)

lemma replacing_put:
  assumes "replacing D K f t s0 s" "i < length (slotList (D t))" "slot_ready (slotList (D t) ! i) v"
  shows "replacing D K f t s0 (put_field f i v s)"
proof -
  have c: "command_state D K f s" "list_all2 slot_ready (slotList (D t)) (theProposition (facts s f))"
    using assms(1) by (simp_all add: replacing_def)
  have "facts (put_field f i v s) k = facts s k" if "k \<in> K" for k
    using not_known [OF c(1) that] by (rule put_field_state(4))
  then show ?thesis
    using assms(1) list_all2_put [OF c(2) assms(2,3)] by (simp add: replacing_def put_field_state(1-3))
qed

lemma replacing_eval:
  assumes "replacing D K f t s0 s" "command_state D K f s1" "whichDeftemplate (facts s1 f) = whichDeftemplate (facts s f)"
    "theProposition (facts s1 f) = theProposition (facts s f)" "\<forall>k \<in> K. contents (facts s1 k) = contents (facts s k)"
  shows "replacing D K f t s0 s1"
  using assms by (simp add: replacing_def)

lemma replace_slot_typed:
  assumes c: "replacing D K f t s0 s" and args: "list_all (safe_expr D K f) args"
    "case r of SlotPosition i \<Rightarrow> i < length (slotList (D t)) | SlotName n \<Rightarrow> True"
    and r: "replace_slot f t r args nulls s = (b, ns, s')"
  shows "replacing D K f t s0 s' \<and> set ns \<subseteq> set nulls"
proof -
  have state: "command_state D K f s" and ready: "list_all2 slot_ready (slotList (D t)) (theProposition (facts s f))"
    using c by (simp_all add: replacing_def)
  have sh: "slotList (deftemplates s t) = slotList (D t)" using state by (simp add: command_state_def base_state_def shapes_def)
  show ?thesis
  proof (cases "slot_position (slotList (D t)) r")
    case None
    then show ?thesis using r c by (auto simp: replace_slot_def sh)
  next
    case (Some i)
    have i: "i < length (slotList (D t))" using Some args(2) FindSlot_bound by (cases r) auto
    have at: "slot_ready (slotList (D t) ! i) (theProposition (facts s f) ! i)" using list_all2_nthD [OF ready i] .
    show ?thesis
    proof (cases "holds_multifield (theProposition (facts s f) ! i)")
      case True
      obtain v s1 where v: "store_fields args [] s = (v, s1)" by fastforce
      note e = store_fields_state [OF args(1) state v]
      have s1: "replacing D K f t s0 s1" by (rule replacing_eval [OF c]) (use e in simp_all)
      have "multislot (slotList (D t) ! i)" using at True by (simp add: slot_ready_def split: if_splits)
      then have "slot_ready (slotList (D t) ! i) (Some v)" using e by (simp add: slot_ready_def holds_multifield_cases)
      moreover have "s' = put_field f i (Some v) (set_engine (SetEvaluationError False) s1)" "ns = removeAll i nulls"
        using r Some True v by (simp_all add: replace_slot_def sh)
      ultimately show ?thesis using replacing_put [of D K f t s0 "set_engine (SetEvaluationError False) s1" i "Some v"] i s1 by auto
    next
      case single: False
      show ?thesis
      proof (cases "\<exists>a. args = [a]")
        case False
        then have "s' = multi_into_single (slotList (D t) ! i) t s" "ns = nulls"
          using r Some single by (auto simp: replace_slot_def sh Let_def split: list.splits)
        then show ?thesis using c by simp
      next
        case True
        then obtain a v s1 where a: "args = [a]" "a s = (v, s1)" by fastforce
        let ?s2 = "set_engine (SetEvaluationError False) s1"
        have s1: "replacing D K f t s0 s1" by (rule replacing_eval [OF c]) (use args(1) a state in \<open>auto simp: keeps_state_def\<close>)
        have "s' = (if holds_multifield v then multi_into_single (slotList (D t) ! i) t ?s2 else put_field f i v ?s2)" "ns = nulls"
          using r Some single a by (auto simp: replace_slot_def sh Let_def split: if_splits)
        moreover have "\<not> multislot (slotList (D t) ! i)" using at single by (simp add: slot_ready_def split: if_splits)
        then have "slot_ready (slotList (D t) ! i) v" if "\<not> holds_multifield v" using that by (simp add: slot_ready_def)
        ultimately show ?thesis using replacing_put [of D K f t s0 ?s2 i v] i s1 by auto
      qed
    qed
  qed
qed

lemma replace_slots_typed:
  assumes "replacing D K f t s0 s" "reps_fit D K f t reps" "replace_slots f t reps nulls s = (b, ns, s')"
  shows "replacing D K f t s0 s' \<and> set ns \<subseteq> set nulls"
  using assms
proof (induction reps arbitrary: nulls s)
  case (Cons ra reps)
  obtain r args b1 ns1 s1 where ra: "ra = (r, args)" and s1: "replace_slot f t r args nulls s = (b1, ns1, s1)"
    by (metis prod.exhaust)
  have fit: "list_all (safe_expr D K f) args" "case r of SlotPosition i \<Rightarrow> i < length (slotList (D t)) | SlotName n \<Rightarrow> True"
    "reps_fit D K f t reps" using Cons.prems(2) ra by (auto simp: reps_fit_def)
  note typed = replace_slot_typed [OF Cons.prems(1) fit(1,2) s1]
  show ?case
  proof (cases b1)
    case True
    then have "replace_slots f t reps ns1 s1 = (b, ns, s')" using Cons.prems(3) s1 ra by simp
    from Cons.IH [OF _ fit(3) this] typed show ?thesis by blast
  next
    case False
    then show ?thesis using typed Cons.prems(3) s1 ra by simp
  qed
qed simp

text \<open>Filling the multifields that are left.\<close>

lemma copy_multifields_typed:
  assumes "replacing D {old} f t s0 s" "list_all2 slot_ready (slotList (D t)) (theProposition (facts s0 old))"
    "\<forall>i \<in> set nulls. i < length (slotList (D t))"
  shows "replacing D {old} f t s0 (copy_multifields old f nulls s)"
  using assms(1,3)
proof (induction nulls arbitrary: s)
  case (Cons i nulls)
  have "theProposition (facts s old) = theProposition (facts s0 old)" using Cons.prems(1) by (simp add: replacing_def contents_def)
  then have "slot_ready (slotList (D t) ! i) (theProposition (facts s old) ! i)"
    using list_all2_nthD [OF assms(2)] Cons.prems(2) by simp
  then have "replacing D {old} f t s0 (put_field f i (theProposition (facts s old) ! i) s)"
    using replacing_put [OF Cons.prems(1)] Cons.prems(2) by simp
  then show ?case using Cons.IH Cons.prems(2) by simp
qed simp

text \<open>Copying a fact.\<close>

lemma null_slot_ready: "slot_ready sl (if holds_multifield v then Some (MULTIFIELD []) else v) = slot_ready sl v"
  by (simp add: slot_ready_def holds_multifield_def)

lemma copy_fact_state:
  assumes "base_state D {old} s" "free_fact f s" "f \<noteq> old" "t = whichDeftemplate (facts s old)" "\<not> implied (D t)"
    and "conforms (D t) (theProposition (facts s old))"
  shows "replacing D {old} f t s (copy_fact old f s)" "list_all2 slot_ready (slotList (D t)) (theProposition (facts s old))"
    "i \<in> set (null_slots (theProposition (facts s old))) \<longleftrightarrow> i < length (slotList (D t)) \<and> multislot (slotList (D t) ! i)"
proof -
  show ready: "list_all2 slot_ready (slotList (D t)) (theProposition (facts s old))"
    using conforms_assertable [OF assms(6)] assms(5) by (simp add: assertable_def)
  have "command_state D {old} f (copy_fact old f s)" unfolding copy_fact_def
    by (intro command_state_upd) (simp_all add: create_state [OF assms(1,2)] assms(3))
  moreover have "facts (copy_fact old f s) old = facts s old"
    using assms(3) by (simp add: copy_fact_def CreateFactBySize_def upd_entity_def)
  moreover have "theProposition (facts (copy_fact old f s) f) =
      map (\<lambda>v. if holds_multifield v then Some (MULTIFIELD []) else v) (theProposition (facts s old))"
    "whichDeftemplate (facts (copy_fact old f s) f) = t" by (simp_all add: copy_fact_def assms(4))
  ultimately show "replacing D {old} f t s (copy_fact old f s)"
    using ready by (simp add: replacing_def list_all2_map2 null_slot_ready)
  show "i \<in> set (null_slots (theProposition (facts s old))) \<longleftrightarrow> i < length (slotList (D t)) \<and> multislot (slotList (D t) ! i)"
    using list_all2_lengthD [OF ready] list_all2_nthD [OF ready, of i] by (auto simp: null_slots_def slot_ready_def split: if_splits)
qed

text \<open>The functions for modifications.\<close>

lemma fold_keeps_state: "(\<And>m. m \<in> set ms \<Longrightarrow> keeps_state D K f (m old r)) \<Longrightarrow> keeps_state D K f (fold (\<lambda>m. m old r) ms)"
proof (induction ms)
  case (Cons m ms)
  then have "keeps_state D K f (m old r)" "keeps_state D K f (fold (\<lambda>m. m old r) ms)" by auto
  then show ?case by (simp add: keeps_state_def)
qed (simp add: keeps_state_def)

definition safe_functions :: "(addr \<Rightarrow> deftemplate) \<Rightarrow> addr set \<Rightarrow> addr \<Rightarrow> addr \<Rightarrow> modify_functions \<Rightarrow> bool" where
  "safe_functions D K f old ms \<longleftrightarrow> (\<forall>m \<in> set ms. \<forall>r. keeps_state D K f (m old r))"

lemma notify_modify_state:
  assumes "safe_functions D K f old ms"
  shows "keeps_state D K f (notify_modify ms old f)"
proof (cases "ms = []")
  case True
  then show ?thesis by (simp add: keeps_state_def notify_modify_def)
next
  case False
  have run: "keeps_state D K f (fold (\<lambda>m. m old r) ms)" for r
    using assms by (intro fold_keeps_state) (simp add: safe_functions_def)
  have hash: "keeps_state D K f (\<lambda>s. snd (FactWillBeAsserted f s))"
    using not_known by (auto simp: keeps_state_def FactWillBeAsserted_def HashFact_def Let_def command_state_upd contents_def)
  show ?thesis unfolding keeps_state_def
  proof (intro allI impI)
    fix s
    assume c: "command_state D K f s"
    obtain will s1 where s1: "FactWillBeAsserted f s = (will, s1)" by fastforce
    have k: "command_state D K f s1" "whichDeftemplate (facts s1 f) = whichDeftemplate (facts s f)"
      "theProposition (facts s1 f) = theProposition (facts s f)" "\<forall>k \<in> K. contents (facts s1 k) = contents (facts s k)"
      using hash c s1 by (auto simp: keeps_state_def)
    define r where "r = (if \<not> will \<and> \<not> MultifieldsEqual (theProposition (facts s1 old)) (theProposition (facts s1 f)) then None else Some f)"
    define s2 where "s2 = (if r = None then s1
      else upd_entity f (\<lambda>x. x\<lparr>timeTag := CurrentEntityTimeTag s1\<rparr>) (upd_fact f (\<lambda>x. x\<lparr>factIndex := NextFactIndex s1\<rparr>) s1))"
    have n: "notify_modify ms old f s = fold (\<lambda>m. m old r) ms s2"
      unfolding notify_modify_def r_def s2_def by (simp add: Let_def False s1)
    have s2: "command_state D K f s2" "whichDeftemplate (facts s2 f) = whichDeftemplate (facts s f)"
      "theProposition (facts s2 f) = theProposition (facts s f)" "\<forall>k \<in> K. contents (facts s2 k) = contents (facts s k)"
      using not_known [OF c] by (simp_all add: s2_def k command_state_engine command_state_upd)
    show "command_state D K f (notify_modify ms old f s) \<and> whichDeftemplate (facts (notify_modify ms old f s) f) = whichDeftemplate (facts s f) \<and>
      theProposition (facts (notify_modify ms old f s) f) = theProposition (facts s f) \<and>
      (\<forall>k \<in> K. contents (facts (notify_modify ms old f s) k) = contents (facts s k))"
      using run [of r] s2 by (simp add: n keeps_state_def)
  qed
qed

lemma EnvRetract_command:
  assumes h: "fact_network h" and c: "command_state D K f s" and old: "old \<in> set (FactList s) \<or> garbage (facts s old)"
  obtains b s' where "EnvRetract h old s = Some (b, s')" "facts_ready s'" "well_typed D s'" "NumberOfFacts s' \<noteq> - 1" "fresh_fact f s'"
    "contents (facts s' f) = contents (facts s f)" "old \<notin> set (FactList s')" "set (FactList s') \<subseteq> set (FactList s)"
proof -
  have s: "facts_ready s" "well_typed D s" "NumberOfFacts s \<noteq> - 1" "fresh_fact f s"
    using c by (simp_all add: command_state_def base_state_def)
  have g: "\<not> garbage (facts s x)" if "x \<in> set (FactList s)" for x using s(1) that by (simp add: facts_ready_def store_ok_def)
  show ?thesis
  proof (cases "garbage (facts s old)")
    case True
    then have "EnvRetract h old s = Some (False, s)" using s(1) by (simp add: EnvRetract_def facts_ready_def)
    then show ?thesis using that [of False s] s g True by blast
  next
    case False
    then obtain s' where s': "EnvRetract h old s = Some (True, s')" "facts_ready s'" "old \<notin> set (FactList s')" "only_unsupported_lost {old} UNIV s s'"
      using deleting_network.EnvRetract_retracts [OF fact_networkD [OF h] s(1)] old by blast
    have sv: "FactList s' = filter (\<lambda>x. \<not> garbage (facts s' x)) (FactList s)" "\<And>x. contents (facts s' x) = contents (facts s x)"
      "\<And>x. x \<notin> set (FactList s) \<Longrightarrow> garbage (facts s' x) = garbage (facts s x)"
      using s'(4) by (auto simp: only_unsupported_lost_def survivors_def)
    have sub: "set (FactList s') \<subseteq> set (FactList s)" using sv(1) by auto
    have "well_typed D s'"
      using s(2) sub sv(2) unfolding well_typed_def contents_def by (metis prod.inject subset_iff)
    moreover have "length (FactList s') \<le> length (FactList s)" unfolding sv(1) by simp
    then have "NumberOfFacts s' \<le> NumberOfFacts s"
      using s(1) s'(2) by (simp add: facts_ready_def counted_def word_le_nat_alt)
    then have "NumberOfFacts s' \<noteq> - 1" using s(3) by (metis word_order.extremum_uniqueI)
    moreover have "fresh_fact f s'"
      using s(4) s'(2) sub sv(3) by (auto simp: fresh_fact_def facts_ready_def supported_listed_def)
    ultimately show ?thesis using that [OF s'(1,2)] sv(2) s'(3) sub by blast
  qed
qed

lemma FindIndexedFact_listed: "FindIndexedFact i s = Some g \<Longrightarrow> g \<in> set (FactList s)"
  unfolding FindIndexedFact_def by (induction "FactList s") (auto simp: find_Some_iff)

lemma fact_argument_some:
  assumes "fact_argument name v s = (Some old, s')"
  shows "s' = s \<and> (old \<in> set (FactList s) \<or> v = Some (FACT_ADDRESS old))"
  using assms FindIndexedFact_listed by (auto simp: fact_argument_def Let_def split: option.splits val.splits if_splits)

lemma fact_argument_none:
  "fact_argument name v s = (None, s') \<Longrightarrow> base_state D K s' = base_state D K s"
  by (auto simp: fact_argument_def Let_def command_state_engine split: option.splits val.splits if_splits)

text \<open>\<open>s1\<close> is the state in which the first argument has been evaluated, to a fact that is there or has been
  retracted, or to something else.\<close>

lemma finish_modify_typed:
  assumes h: "fact_network h" and c: "command_state D {old} f s" and t: "whichDeftemplate (facts s f) = t" "\<not> implied (D t)"
    and f: "list_all2 slot_ready (slotList (D t)) (theProposition (facts s f))"
    and ms: "safe_functions D {old} f old ms"
  shows "\<exists>x s'. finish_modify h ms retractIt old f s = Some (x, s') \<and> facts_ready s' \<and> well_typed D s' \<and>
    x \<in> {FALSE_SYMBOL, FACT_ADDRESS f} \<and> (retractIt \<longrightarrow> old \<notin> set (FactList s'))"
proof -
  have a: "assertable (D (whichDeftemplate (facts s f))) (theProposition (facts s f))" using t f by (simp add: assertable_def)
  show ?thesis
  proof (cases retractIt)
    case False
    obtain p s' where "EnvAssert h f s = Some (p, s')" "facts_ready s'" "well_typed D s'" "p \<in> {None, Some f}"
      by (rule EnvAssert_typed [OF h, of s D f]) (use c a in \<open>auto simp: command_state_def base_state_def\<close>)
    then show ?thesis using False by (auto simp: finish_modify_def assert_result_def)
  next
    case True
    let ?s = "notify_modify ms old f s"
    have n: "command_state D {old} f ?s" "whichDeftemplate (facts ?s f) = whichDeftemplate (facts s f)"
      "theProposition (facts ?s f) = theProposition (facts s f)"
      using notify_modify_state [OF ms] c by (auto simp: keeps_state_def)
    have o: "old \<in> set (FactList ?s) \<or> garbage (facts ?s old)" "old \<noteq> f"
      using n(1) by (auto simp: command_state_def base_state_def known_fact_def fresh_fact_def)
    obtain b s1 where s1: "EnvRetract h old ?s = Some (b, s1)" "facts_ready s1" "well_typed D s1" "NumberOfFacts s1 \<noteq> - 1" "fresh_fact f s1"
      "contents (facts s1 f) = contents (facts ?s f)" "old \<notin> set (FactList s1)"
      by (rule EnvRetract_command [OF h n(1) o(1)]) (rule that, assumption+)
    have "assertable (D (whichDeftemplate (facts s1 f))) (theProposition (facts s1 f))" using a n s1(6) by (simp add: contents_def)
    from EnvAssert_typed [OF h s1(2-5) this] obtain p s' where s': "EnvAssert h f s1 = Some (p, s')" "facts_ready s'" "well_typed D s'"
      "p \<in> {None, Some f}" "set (FactList s') \<subseteq> insert f (set (FactList s1))" by blast
    have "old \<notin> set (FactList s')" using s1(7) s'(5) o(2) by blast
    then show ?thesis using True s1(1) s' by (auto simp: finish_modify_def assert_result_def)
  qed
qed

text \<open>The fact that the first argument of \<open>modify\<close> and \<open>duplicate\<close> stands for.\<close>

definition designates :: "val option \<Rightarrow> fact_env \<Rightarrow> addr \<Rightarrow> bool" where
  "designates v s old \<longleftrightarrow> v = Some (FACT_ADDRESS old) \<or> (\<exists>i \<ge> 0. v = Some (INTEGER i) \<and> FindIndexedFact i s = Some old)"

text \<open>What the commands need: an address designates a fact with well-typed slots that is listed or has been retracted; slots given
  by position exist; expressions and registered functions are safe.\<close>

definition assert_args :: "(addr \<Rightarrow> deftemplate) \<Rightarrow> addr \<Rightarrow> addr \<Rightarrow> fact_expr list \<Rightarrow> bool" where
  "assert_args D f t args \<longleftrightarrow> list_all (safe_expr D {} f) args \<and> args_fit (D t) args"

definition modify_args :: "(addr \<Rightarrow> deftemplate) \<Rightarrow> addr \<Rightarrow> modify_functions \<Rightarrow> val option \<Rightarrow> (slotRef \<times> fact_expr list) list \<Rightarrow> fact_env \<Rightarrow> bool" where
  "modify_args D f ms v reps s \<longleftrightarrow> (\<forall>old. designates v s old \<longrightarrow> old \<noteq> f \<and> known_fact old s \<and>
     conforms (D (whichDeftemplate (facts s old))) (theProposition (facts s old)) \<and>
     reps_fit D {old} f (whichDeftemplate (facts s old)) reps \<and> safe_functions D {old} f old ms)"

lemma fact_argument_designates:
  "fact_argument name v s = (Some old, s') \<Longrightarrow> s' = s \<and> designates v s old"
  by (auto simp: fact_argument_def designates_def Let_def split: option.splits val.splits if_splits)

lemma designates_argument:
  "designates v s old \<Longrightarrow> fact_argument name v s = (Some old, s)"
  by (auto simp: fact_argument_def designates_def Let_def)

text \<open>A slot is refused while a multifield slot of the copy has no value yet.\<close>

definition unfilled_error :: "(addr \<Rightarrow> deftemplate) \<Rightarrow> addr \<Rightarrow> (slotRef \<times> fact_expr list) list \<Rightarrow> fact_env \<Rightarrow> addr \<Rightarrow> bool" where
  "unfilled_error D f reps s old \<longleftrightarrow>
     (let t = whichDeftemplate (facts s old)
      in \<not> implied (D t) \<and>
         (case replace_slots f t reps (null_slots (theProposition (facts s old))) (copy_fact old f s) of
            (ok, nulls, s') \<Rightarrow> \<not> ok \<and> nulls \<noteq> []))"

lemma DuplicateModify_typed:
  assumes h: "fact_network h" and s: "base_state D {} s" "free_fact f s" and a: "arg s0 = (v, s)" and m: "modify_args D f ms v reps s"
  shows "if \<exists>old. designates v s old \<and> unfilled_error D f reps s old then DuplicateModifyCommand h ms retractIt arg reps f s0 = None
    else \<exists>x s'. DuplicateModifyCommand h ms retractIt arg reps f s0 = Some (x, s') \<and> facts_ready s' \<and> well_typed D s' \<and>
    x \<in> {FALSE_SYMBOL, FACT_ADDRESS f} \<and> (retractIt \<and> x \<noteq> FALSE_SYMBOL \<longrightarrow> (\<forall>old. designates v s old \<longrightarrow> old \<notin> set (FactList s')))"
proof -
  let ?name = "if retractIt then ''modify'' else ''duplicate''"
  have base: "facts_ready s'" "well_typed D s'" if "base_state D K s'" for K s' using that by (simp_all add: base_state_def)
  obtain p s2 where p: "fact_argument ?name v s = (p, s2)" by fastforce
  show ?thesis
  proof (cases p)
    case None
    then have "\<not> designates v s old" for old using p designates_argument by fastforce
    then show ?thesis using a p None base [of "{}" s2] fact_argument_none [of ?name v s s2 D "{}"] s(1) by (simp add: DuplicateModifyCommand_def)
  next
    case (Some old)
    let ?t = "whichDeftemplate (facts s old)" and ?nulls = "null_slots (theProposition (facts s old))"
    have d: "s2 = s" "designates v s old" using fact_argument_designates p Some by blast+
    have only: "designates v s x \<longleftrightarrow> x = old" for x using d(2) by (auto simp: designates_def)
    have old: "old \<noteq> f" "known_fact old s" "conforms (D ?t) (theProposition (facts s old))" "reps_fit D {old} f ?t reps"
      "safe_functions D {old} f old ms" using m d(2) by (auto simp: modify_args_def)
    have b: "base_state D {old} s" using s(1) old(2) by (simp add: base_state_def)
    have sh: "implied (deftemplates s ?t) = implied (D ?t)" using s(1) by (simp add: base_state_def shapes_def)
    show ?thesis
    proof (cases "implied (D ?t)")
      case True
      then show ?thesis using a p Some d(1) base [OF s(1)] by (simp add: DuplicateModifyCommand_def sh only unfilled_error_def)
    next
      case False
      note c = copy_fact_state [OF b s(2) old(1) [symmetric] refl False old(3)]
      obtain ok ns s3 where r: "replace_slots f ?t reps ?nulls (copy_fact old f s) = (ok, ns, s3)" by (metis prod.exhaust)
      have s3: "replacing D {old} f ?t s s3" "set ns \<subseteq> set ?nulls" using replace_slots_typed [OF c(1) old(4) r] by simp_all
      show ?thesis
      proof (cases ok)
        case True
        let ?s4 = "copy_multifields old f ns s3"
        have "replacing D {old} f ?t s ?s4" using c(2,3) s3 by (intro copy_multifields_typed) auto
        then have s4: "command_state D {old} f ?s4" "whichDeftemplate (facts ?s4 f) = ?t"
          "list_all2 slot_ready (slotList (D ?t)) (theProposition (facts ?s4 f))" by (simp_all add: replacing_def)
        have "DuplicateModifyCommand h ms retractIt arg reps f s0 = finish_modify h ms retractIt old f ?s4"
          using a p Some d(1) False r True by (simp add: DuplicateModifyCommand_def sh Let_def)
        moreover have "\<not> unfilled_error D f reps s old" using r True by (simp add: unfilled_error_def)
        ultimately show ?thesis
          using finish_modify_typed [OF h s4(1,2) False s4(3) old(5), of retractIt] by (auto simp: only)
      next
        case no: False
        have "base_state D {old} s3" using s3(1) by (simp add: replacing_def command_state_def)
        then show ?thesis using a p Some d(1) False r no base [of "{old}" s3]
          by (auto simp: DuplicateModifyCommand_def sh Let_def only unfilled_error_def give_up_fact_def)
      qed
    qed
  qed
qed

lemma no_unfilled_error:
  assumes "base_state D {old} s" "free_fact f s" "f \<noteq> old" "reps_fit D {old} f (whichDeftemplate (facts s old)) reps"
    and "conforms (D (whichDeftemplate (facts s old))) (theProposition (facts s old))"
    and "\<forall>sl \<in> set (slotList (D (whichDeftemplate (facts s old)))). \<not> multislot sl"
  shows "\<not> unfilled_error D f reps s old"
proof
  let ?t = "whichDeftemplate (facts s old)" and ?nulls = "null_slots (theProposition (facts s old))"
  assume "unfilled_error D f reps s old"
  then obtain ns s3 where r: "\<not> implied (D ?t)" "replace_slots f ?t reps ?nulls (copy_fact old f s) = (False, ns, s3)" "ns \<noteq> []"
    unfolding unfilled_error_def Let_def by (auto split: prod.splits)
  note c = copy_fact_state [OF assms(1,2,3) refl r(1) assms(5)]
  have "set ?nulls = {}" using c(3) assms(6) by (metis equals0I nth_mem)
  then show False using replace_slots_typed [OF c(1) assms(4) r(2)] r(3) by simp
qed

section \<open>Reading and traversing\<close>

text \<open>A slot that has been set has the value.\<close>

lemma put_get_slot:
  assumes "EnvPutFactSlot f name v s = (True, s')" "0 < length (theProposition (facts s f))"
    "\<And>n i. FindSlot (slotList (deftemplates s (whichDeftemplate (facts s f)))) n = Some i \<Longrightarrow> i < length (theProposition (facts s f))"
  shows "EnvGetFactSlot f name s' = Some v"
  using assms by (auto simp: EnvPutFactSlot_def EnvGetFactSlot_def Let_def split: if_splits option.splits)

lemma put_slot_assertable:
  assumes "EnvPutFactSlot f name v s = (b, s')" "D = deftemplates s" "assertable (D (whichDeftemplate (facts s f))) (theProposition (facts s f))"
  shows "assertable (D (whichDeftemplate (facts s' f))) (theProposition (facts s' f))"
proof -
  let ?t = "D (whichDeftemplate (facts s f))"
  have ready: "slot_ready sl (Some v)" if "multislot sl = is_multifield v" for sl
    using that by (simp add: slot_ready_def holds_multifield_cases)
  have put: "list_all2 slot_ready (slotList ?t) ((theProposition (facts s f))[i := Some v])"
    if "\<not> implied ?t" "FindSlot (slotList ?t) n = Some i" "multislot (slotList ?t ! i) = is_multifield v" for n i
    using that assms(3) FindSlot_bound ready by (intro list_all2_put) (auto simp: assertable_def)
  have "length (theProposition (facts s f)) = 1" if "implied ?t" using assms(3) that by (simp add: assertable_def)
  then have "hd ((theProposition (facts s f))[0 := Some v]) = Some v" if "implied ?t" using that by (cases "theProposition (facts s f)") auto
  then show ?thesis
    using assms put by (auto simp: EnvPutFactSlot_def Let_def assertable_def holds_multifield_cases split: if_splits option.splits)
qed

text \<open>The traversals visit the facts of the list in order.\<close>

lemma dropWhile_split: "distinct (xs @ f # ys) \<Longrightarrow> dropWhile (\<lambda>g. g \<noteq> f) (xs @ f # ys) = f # ys"
  by (induction xs) auto

lemma traverse_list:
  assumes "\<And>xs f ys. fs = xs @ f # ys \<Longrightarrow> next_fact (Some f) = (case ys of [] \<Rightarrow> None | g # gs \<Rightarrow> Some g)" "fs = xs @ ys"
  shows "traverse_facts next_fact (case ys of [] \<Rightarrow> None | g # gs \<Rightarrow> Some g) = Some ys"
  using assms(2)
proof (induction ys arbitrary: xs)
  case Nil
  then show ?case by (simp add: traverse_facts.simps)
next
  case (Cons f ys)
  then have "traverse_facts next_fact (case ys of [] \<Rightarrow> None | g # gs \<Rightarrow> Some g) = Some ys" using Cons.IH [of "xs @ [f]"] by simp
  then show ?case using assms(1) [OF Cons.prems] by (subst traverse_facts.simps) simp
qed

lemma EnvGetFactList_all:
  assumes "facts_ready s"
  shows "EnvGetFactList None s = Some (MULTIFIELD (map FACT_ADDRESS (FactList s)))"
proof -
  have d: "distinct (FactList s)" "\<And>f. f \<in> set (FactList s) \<Longrightarrow> \<not> garbage (facts s f)"
    using assms by (simp_all add: facts_ready_def store_ok_def)
  have n: "EnvGetNextFact (Some f) s = (case ys of [] \<Rightarrow> None | g # gs \<Rightarrow> Some g)" if "FactList s = xs @ f # ys" for xs f ys
    using that d dropWhile_split [of xs f ys] by (auto simp: EnvGetNextFact_def split: list.splits)
  have "traverse_facts (\<lambda>p. EnvGetNextFact p s) (case FactList s of [] \<Rightarrow> None | g # gs \<Rightarrow> Some g) = Some (FactList s)"
    by (rule traverse_list [where xs = "[]" and fs = "FactList s"]) (use n in auto)
  then show ?thesis by (simp add: EnvGetFactList_def EnvGetNextFact_def)
qed

section \<open>Properties\<close>

text \<open>A store whose deftemplate 0 has a multifield slot and whose deftemplate 1 has a single-field slot.\<close>

definition typed_demo :: fact_env where
  "typed_demo = demo_facts\<lparr>deftemplates := (\<lambda>t. (deftemplates demo_facts t)\<lparr>implied := False,
     slotList := [\<lparr>slotName = ''values'', multislot = (t = 0)\<rparr>]\<rparr>)\<rparr>"

lemma typed_demo_base: "base_state (deftemplates typed_demo) {} typed_demo" "free_fact 2 typed_demo"
proof -
  have "facts_ready typed_demo"
  proof -
    have "holds_facts typed_demo (set (FactList demo_facts)) = holds_facts demo_facts (set (FactList demo_facts))"
      by (intro holds_facts_fields) (simp_all add: typed_demo_def)
    then show ?thesis using demo_ready
      by (simp add: facts_ready_def store_ok_def links_ok_def supported_listed_def counted_def typed_demo_def)
  qed
  then show "base_state (deftemplates typed_demo) {} typed_demo"
    by (simp add: base_state_def shapes_def well_typed_def typed_demo_def demo_facts_fields conforms_def slot_fits_def is_multifield_def)
  show "free_fact 2 typed_demo" by (simp add: free_fact_def typed_demo_def demo_facts_fields)
qed

text \<open>C34. The commands keep facts well typed. Asserting a fact with the arguments that the parser makes returns; so does
  modifying or duplicating a fact, unless a slot is refused while a multifield slot of the copy has no value yet,
  where the program ends on a null pointer. This cannot happen if the deftemplate has no multifield slot. When a command
  returns, the store is in order and every fact of the list has a value in each slot, a multifield exactly in the
  multifield slots; the result is the new fact or \<open>FALSE\<close>, and a fact that has been modified is not there any more.
  Expressions and registered functions are assumed to keep the store in order, to leave the new fact alone and not to
  change the contents of the old one.\<close>

theorem fact_commands_keep_types:
  assumes "fact_network h" "base_state D {} s" "free_fact f s"
  shows "(assert_args D f t args \<longrightarrow>
      (\<exists>x s'. AssertCommand h t args f s = Some (x, s') \<and> facts_ready s' \<and> well_typed D s' \<and> x \<in> {FALSE_SYMBOL, FACT_ADDRESS f})) \<and>
    (arg s0 = (v, s) \<and> modify_args D f ms v reps s \<longrightarrow>
      (if \<exists>old. designates v s old \<and> unfilled_error D f reps s old then DuplicateModifyCommand h ms retractIt arg reps f s0 = None
       else \<exists>x s'. DuplicateModifyCommand h ms retractIt arg reps f s0 = Some (x, s') \<and> facts_ready s' \<and> well_typed D s' \<and>
         x \<in> {FALSE_SYMBOL, FACT_ADDRESS f} \<and>
         (retractIt \<and> x \<noteq> FALSE_SYMBOL \<longrightarrow> (\<forall>old. designates v s old \<longrightarrow> old \<notin> set (FactList s')))) \<and>
      (\<forall>old. designates v s old \<and> (\<forall>sl \<in> set (slotList (D (whichDeftemplate (facts s old)))). \<not> multislot sl) \<longrightarrow>
         \<not> unfilled_error D f reps s old))"
proof (intro conjI impI allI)
  assume m: "arg s0 = (v, s) \<and> modify_args D f ms v reps s"
  fix old
  assume o: "designates v s old \<and> (\<forall>sl \<in> set (slotList (D (whichDeftemplate (facts s old)))). \<not> multislot sl)"
  then have k: "old \<noteq> f" "known_fact old s" "conforms (D (whichDeftemplate (facts s old))) (theProposition (facts s old))"
    "reps_fit D {old} f (whichDeftemplate (facts s old)) reps" using m by (auto simp: modify_args_def)
  have "base_state D {old} s" using assms(2) k(2) by (simp add: base_state_def)
  then show "\<not> unfilled_error D f reps s old" using no_unfilled_error assms(3) k o by metis
qed (use AssertCommand_typed [OF assms(1,2,3), of args t] DuplicateModify_typed [OF assms, of arg s0 v ms reps retractIt]
  in \<open>auto simp: assert_args_def\<close>)

text \<open>An attempt on a slot that the deftemplate does not have ends the program, since the slot \<open>values\<close> is a multifield slot.\<close>

theorem fact_commands_keep_types_witness:
  "(\<exists>x s'. AssertCommand demo_hooks 1 [\<lambda>s. (Some (INTEGER 7), s)] 2 typed_demo = Some (x, s') \<and>
      facts_ready s' \<and> well_typed (deftemplates typed_demo) s') \<and>
   (\<exists>x s'. DuplicateModifyCommand demo_hooks [] True (\<lambda>s. (Some (INTEGER 1), s)) [(SlotName ''values'', [\<lambda>s. (Some (INTEGER 9), s)])] 2
      typed_demo = Some (x, s') \<and> facts_ready s' \<and> well_typed (deftemplates typed_demo) s') \<and>
   DuplicateModifyCommand demo_hooks [] True (\<lambda>s. (Some (INTEGER 1), s)) [(SlotName ''nothing'', [])] 2 typed_demo = None"
proof -
  let ?D = "deftemplates typed_demo" and ?e = "\<lambda>s. (Some (INTEGER 9), s)"
  have k: "keeps_state ?D K 2 (\<lambda>s. s)" for K by (simp add: keeps_state_def)
  have a: "assert_args ?D 2 1 [\<lambda>s. (Some (INTEGER 7), s)]"
    using k by (simp add: assert_args_def args_fit_def arg_fits_def typed_demo_def)
  have one: "designates (Some (INTEGER 1)) typed_demo old \<longleftrightarrow> old = 1" for old
    by (auto simp: designates_def FindIndexedFact_def typed_demo_def demo_facts_fields)
  have m: "modify_args ?D 2 [] (Some (INTEGER 1)) [(SlotName ''values'', [?e])] typed_demo"
      "modify_args ?D 2 [] (Some (INTEGER 1)) [(SlotName ''nothing'', [])] typed_demo"
    unfolding modify_args_def one using k
    by (simp_all add: known_fact_def reps_fit_def safe_functions_def conforms_def slot_fits_def is_multifield_def typed_demo_def demo_facts_fields)
  have u: "\<not> unfilled_error ?D 2 [(SlotName ''values'', [?e])] typed_demo 1"
      "unfilled_error ?D 2 [(SlotName ''nothing'', [])] typed_demo 1"
    by (simp_all add: unfilled_error_def typed_demo_def demo_facts_fields null_slots_def holds_multifield_def replace_slot_def
        copy_fact_def CreateFactBySize_def upd_entity_def)
  note f = fact_commands_keep_types [OF demo_network typed_demo_base, of 1 "[\<lambda>s. (Some (INTEGER 7), s)]" "\<lambda>s. (Some (INTEGER 1), s)"
        typed_demo "Some (INTEGER 1)" "[]" _ True]
  show ?thesis
    using f [of "[(SlotName ''values'', [?e])]"] f [of "[(SlotName ''nothing'', [])]"] a m u one by auto
qed

end
