(* ===== verification/Spec2Isabelle.thy ===== *)
theory Spec2Isabelle
  imports Agenda_Properties Join_Properties Engine_Properties Focus_Properties Reed_Solomon_Properties Function_Properties Text_Properties Fact_Properties Multifield_Properties Garbage_Properties Fact_Types
begin

text \<open>
  A verification library for owlchain-core. The program is a blockchain node in D
  (\<open>source/owlchain\<close>) whose smart contracts are rule sets: it embeds the rule engine CLIPS 6.30
  (\<open>dependencies/clips-d/c\<close>, C) and writes account numbers as error-detecting addresses
  (\<open>source/owlchain/crypto/reedsolomon.d\<close>). The library models the part of the engine that decides
  which rule fires next, the join network that finds the matches of the rules, the fact store with its
  truth maintenance and the commands on facts, the
  tables of atomic values with their garbage frames, functions that rules call (predicates,
  sorting and multifields), the front of the language (command buffer and scanner), and the
  addresses.

  \<^bold>\<open>How the parts interact.\<close> Asserting and retracting a fact changes the fact list and the
  fact hash table and drives the pattern network, which may deprive other facts of their logical
  support; those are queued and retracted before the operation returns. The pattern network turns a
  fact into alpha matches, one for each pattern that it satisfies; the join network combines them into
  partial matches, join by join, and when one reaches the last join of a rule it
  calls \<open>AddActivation\<close>; the agenda of the rule's module receives the activation at the place that its
  salience and the conflict resolution strategy give. \<open>EnvRun\<close> repeatedly takes the first
  activation of the module on top of the focus stack, executes the rule's right-hand side, which may
  call back into all of this (assert and retract, focus, halt, change the strategy, refresh), and
  removes the activation. Values are stored once in the tables of atomic values and compared by
  address; what nothing uses is freed when the garbage frame in which it was made is left. Commands reach rules and modules by name through the module system. What
  is typed is collected in the command buffer until it is a complete command, and the scanner turns
  it into tokens. The address code stands by itself.

  \<^bold>\<open>State.\<close> \<open>Prelude\<close> has the machine types, the values of CLIPS expressions and list lemmas. CLIPS compares
  values by the address of their node, and contents determine the node except for a NaN, which gets a new node each time; so a NaN
  value (\<open>NAN\<close>) has the address of its node beside its bits, and equality of values is identity of nodes.
  \<open>Env_State\<close> has the record \<open>env\<close>: the environment data of \<open>agenda.h\<close>, \<open>engine.h\<close>, \<open>moduldef.h\<close>
  and \<open>evaluatn.h\<close> that the modelled code reads or writes. Rules, partial matches, matched entities
  and modules are reached through pointers and live in heaps indexed by addresses. The activations
  of an agenda and its salience groups are doubly linked chains with one owner; a chain is the list
  of its nodes, and a pointer into it is the address of a node. Time tags and the activation counter
  are 64-bit words, saliences are integers that the code truncates to 32 bits where it casts.
  Error messages are appended to \<open>dialog\<close>. \<open>Fact_State\<close> has the record \<open>fact_env\<close>: the data of \<open>factmngr.h\<close>,
  the links of logical support and the queue of \<open>engineData\<close>, with \<open>env\<close> as a component. \<open>Join_State\<close> has
  the record \<open>rete\<close>: joins, alpha and beta memories and partial matches with their links, over an environment
  of any type.

  \<^bold>\<open>Components, in the order of the call graph.\<close>
  \<^item> \<open>Arguments\<close> (\<open>argacces.c\<close>): checking and converting the arguments of commands.
  \<^item> \<open>Strategy\<close> (\<open>crstrtgy.c\<close>): comparison of matches and placement of an activation under the seven
    strategies. The locale \<open>placement_order\<close> states what a strategy's order has to satisfy; it is
    interpreted for each strategy, and the position found by walking the group is shown to be the
    one that the order gives.
  \<^item> \<open>Focus\<close> (\<open>moduldef.c\<close>, \<open>engine.c\<close>): current module, focus stack and their commands.
  \<^item> \<open>Modules\<close> (\<open>modulutl.c\<close>, \<open>cstrccom.c\<close>): names, listing, and the search through imports; the
    search marks visited modules, and ends because each call marks one more.
  \<^item> \<open>Agenda\<close> (\<open>agenda.c\<close>): the operations on activations. \<open>Agenda_Invariant\<close> proves the invariant of one
    module (order, exact groups, distinct nodes), \<open>Agenda_Wf\<close> that of the whole environment; the
    locale \<open>module_pass\<close> captures the two passes over all modules (reordering and refreshing) and is
    interpreted for both.
  \<^item> \<open>Engine\<close> (\<open>engine.c\<close>): next activation, run loop, breakpoints. Right-hand sides and registered
    functions are the parameter \<open>callbacks\<close>, where a right-hand side that does not return is \<open>None\<close>; the locale \<open>run_callbacks\<close> in \<open>Engine_Wf\<close> says what they
    have to keep, and is interpreted for right-hand sides that are any sequences of the engine's own
    commands.
  \<^item> \<open>Join_State\<close> (\<open>network.h\<close>, \<open>match.h\<close>, \<open>reteutil.c\<close>): memories, lineage and blocking links. \<open>Join_Network\<close>
    (\<open>drive.c\<close>, \<open>retract.c\<close>, \<open>factmch.c\<close>): sending matches through the joins and taking them out; the functions of the two files
    call each other, and \<open>network\<close> ties the knot. \<open>Join_Spec\<close>: the matches that a path of joins gives, computed from the
    alpha memories alone, and the networks the proofs are about. \<open>Join_Logic\<close>: total correctness of the
    mutually recursive calls. \<open>Join_Memories\<close>: hashed memories under insertion, removal and resizing. \<open>Join_Invariant\<close>: what
    holds of a network while matches that are due have not been made yet, or matches that are not are still there. \<open>Join_Links\<close>,
    \<open>Join_Unlinks\<close>: the effect on it of linking, blocking and unlinking one match. \<open>Join_Drive\<close>, \<open>Join_Left\<close>, \<open>Join_Retract\<close>,
    \<open>Join_Right\<close>: the four recursive functions. \<open>Join_Assert\<close>: a new alpha match. \<open>Join_Complete\<close>: the invariant gives the
    specification. \<open>Join_Lists\<close>, \<open>Join_Withdraw\<close>, \<open>Join_Removal\<close>: the list of the matches of a fact, the matches that are given up
    with it, and those that it blocked, which are looked at again.
  \<^item> \<open>Fact_State\<close> (\<open>factmngr.h\<close>, \<open>tmpltdef.h\<close>): facts, deftemplates and busy counts. \<open>Fact_Hash\<close>
    (\<open>facthsh.c\<close>, \<open>multifld.c\<close>): hash values and the hash table, which holds exactly the facts of the
    list. \<open>Logical_Support\<close> (\<open>lgcldpnd.c\<close>): the links between facts and matches, kept at both ends.
    \<open>Fact_Manager\<close> (\<open>factmngr.c\<close>): asserting, retracting, resetting, slots and the retract command.
  \<^item> \<open>Fact_Invariant\<close>, \<open>Fact_Laws\<close>: the network that is driven by a fact may remove logical support and
    work on the engine, which the inductive relation \<open>network_step\<close> says, with the set of the matches that may be deleted; the locale
    \<open>deleting_network\<close> states it of the parameters, carries the laws of asserting and retracting, which say of each fact
    whether it is retracted, and is interpreted for networks that are any scripts of removing support and adding activations. \<open>fact_network\<close>
    is the case that every match may be deleted.
  \<^item> \<open>Fact_Functions\<close> (\<open>factcom.c\<close>, \<open>factfun.c\<close>, \<open>tmpltfun.c\<close>): assert, modify and duplicate, which
    evaluate their arguments one by one, and the functions that look up facts. The multifields of a copied fact are null until they
    are filled, and giving such a fact up is a crash, the value \<open>None\<close>. \<open>Fact_Types\<close> shows
    that the commands keep facts well typed and when they crash.
  \<^item> \<open>Atom_Tables\<close> (\<open>symbol.c\<close>): the operations that the five tables of symbols, floats, integers, bit
    maps and external addresses share; the locale \<open>atom_kind\<close> has their hash function and comparison
    with the laws that make contents unique, and is interpreted for the atoms of all five. \<open>Garbage_Frames\<close>
    (\<open>utility.c\<close>, \<open>multifld.c\<close>, \<open>evaluatn.c\<close>): frames, use counts of values, cleaning and
    leaving a frame. \<open>Garbage_Invariant\<close>: what every operation keeps.
  \<^item> \<open>Predicates\<close> (\<open>prdctfun.c\<close>): comparison, equality, type and boolean functions on evaluated
    arguments or, where the order of evaluation matters, on expressions.
  \<^item> \<open>Sort_Function\<close> (\<open>sortfun.c\<close>): the merge sort on an array, whose comparison function may change
    the environment, and the function \<open>sort\<close>. The sort is shown to compute a recursive merge sort on
    lists; the locale \<open>exchange_order\<close> says what a comparison function has to satisfy for the result
    to be sorted, and is interpreted for the functions \<open>>\<close> and \<open><\<close>.
  \<^item> \<open>Multifields\<close> (\<open>multifun.c\<close>): editing by position, search, members, subsequences. \<open>Multifield_Text\<close>
    (\<open>multifld.c\<close>, \<open>prntutil.c\<close>): the printed form of values and multifields and its reading through
    the scanner; floats are printed with 15 digits, which does not determine them.
  \<^item> \<open>Scanner\<close> (\<open>scanner.c\<close>): tokens. Characters are read from a file and given back to it; a token is
    a constructor with its value.
  \<^item> \<open>String_Buffers\<close> (\<open>utility.c\<close>): growing strings in allocated memory, where a write outside the
    memory is \<open>None\<close>; UTF-8 positions; lists of registered functions.
  \<^item> \<open>Command_Line\<close> (\<open>commline.c\<close>): the command buffer and the test for a complete command.
  \<^item> \<open>Demo\<close>: a concrete environment on which the properties are instantiated.
  \<^item> \<open>Reed_Solomon\<close> (\<open>reedsolomon.d\<close>): addresses. \<open>Reed_Solomon_Digits\<close> treats the base conversion,
    \<open>Reed_Solomon_Field\<close> makes the symbols a field and the check a set of power sums.

  \<^bold>\<open>What is shown.\<close> \<open>Agenda_Properties\<close>: adding, removing, refreshing, reordering and clearing keep
  every agenda sorted with exact groups and change its contents exactly as intended; the saliences after a refresh; the
  order that each of the seven strategies gives; sorting of time tags; the strategy commands; and that moving an activation to the top
  breaks the groups. \<open>Join_Properties\<close>: after a new alpha match has gone through the network, every memory holds exactly
  the matches of the specification; the same after a fact has been retracted, for the alpha matches of the other facts; and both together leave the
  memories as they were. \<open>Fact_Properties\<close>: an asserted fact is appended and found again, a duplicate
  is refused, retracting a fact takes exactly the facts with it that lose their last support, all
  of it keeps list, table, links and counters consistent, and removing all facts returns unless
  the network is matching. \<open>Fact_Types\<close>: the commands keep a value in each slot, a multifield exactly
  in the multifield slots. \<open>Garbage_Properties\<close>: a value is stored once and has one address, and cleaning or leaving a
  frame frees exactly what is unused and never the value that is returned. \<open>Multifield_Properties\<close>: text
  and back, members, edits by position. \<open>Engine_Properties\<close>: the engine fires a best activation, a run keeps the agendas
  well formed and respects its limit, a run with a limit returns if the right-hand sides do, and what its messages, guards and
  pinned matches do. \<open>Focus_Properties\<close>: the focus stack, breakpoints, names, imports, listing.
  \<open>Reed_Solomon_Properties\<close>: the tables multiply in the field with 32 elements, the parity symbols
  detect every error in up to four symbols, numbers and addresses are inverse to each other, and
  exactly which strings \<open>decode\<close> accepts: it does not use the parity of a complete address. \<open>Function_Properties\<close>: the sort returns,
  refines the list merge sort, and is sorted and stable. \<open>Text_Properties\<close>: strings and integers are
  scanned as they are written, every token makes progress, a complete command stays complete, the
  command buffer stays within its memory, and inserting into it deletes.

  \<^bold>\<open>Loops and bounds.\<close> The run loop may run for ever when it has no limit, so it is a partial
  function into \<open>option\<close>; with a limit it is proved to return, provided that the right-hand sides return. The walk to the logical match is
  partial in the same way and is proved to return on a finite parent chain; the retraction of
  unsupported facts returns because each step takes an entry off the queue or a fact off the list,
  and removing all facts returns because each step removes one, except while the network is matching; and the merge sort,
  which recurses on array bounds, is proved to return for every comparison function. All other loops are
  structural or have a termination proof. The functions of the join network
  call each other to a depth that the network and its memories determine; \<open>network\<close> has a bound on it, and the theorems say that there is a
  bound from which on every call returns, always in the same state. The base conversions get the number of digits as fuel:
  the 17 elements of the C-style array when encoding, where running out is the range error of the
  code, and 20 decimal digits when decoding, enough since 13 symbols are below \<open>10\<^sup>2\<^sup>0\<close>; both are
  proved not to run out.

  \<^bold>\<open>Parameters.\<close> The value of a salience expression, the random number of an activation, the
  right-hand sides, the registered functions, the table of functions that \<open>sort\<close> looks its comparison
  up in, and the contents of fresh memory are arguments of the definitions that use them. So are the pattern network with the flushing of its garbage partial matches, the constraint check,
  the registered functions and periodic tasks of fact management, collected in \<open>fact_hooks\<close>, the
  expressions that are the arguments of the commands on facts, the functions registered for
  modifications, the evaluation of join tests and hash expressions and the operations on activations and logical support that
  the join network calls (\<open>matcher\<close>), the clean-up functions of a garbage frame, and the texts of addresses (\<open>address_texts\<close>).

  \<^bold>\<open>Not modelled.\<close> The pattern networks, incremental reset and the construction of joins from rules; joins from the
  right (not/and groups), which the join network has and its proofs exclude; the parsers behind the scanner; slot defaults, the
  functions on the facets of slots, saving and loading of facts; the loops \<open>progn$\<close> and \<open>foreach\<close>; the
  object system; bload, bsave and constructs-to-C with the indices of the tables that they use;
  printing and \<open>watch\<close> output; the pools of \<open>memalloc.c\<close>; the embedded SQLite; the D wrappers, which forward
  calls, and the node's consensus and web interface, which are declarations with few or no bodies.
\<close>

end
